(* ===== verification/JsBase.thy ===== *)
theory JsBase
  imports Main "HOL-Library.Word"
begin

text \<open>
  Prelude of the development: JavaScript strings as lists of UTF-16 code units, the string
  methods the modelled code calls (\<open>trim\<close>, \<open>slice\<close>, \<open>join\<close>, decimal rendering of a number),
  JavaScript numbers read from untrusted input, the insertion-ordered \<open>Map\<close>, and the interfaces
  (locales) that several components share: a keyed store, a log with a hard cap, a state machine
  with an invariant, and a snapshot codec.
\<close>

named_theorems js_simps \<open>rewrite rules about the JavaScript string and Map operations\<close>

named_theorems inv_intros \<open>preservation lemmas of the components' invariants\<close>


section \<open>Strings\<close>

text \<open>A JavaScript string is a sequence of 16-bit code units; \<open>length\<close> counts code units.\<close>

type_synonym jschar = "16 word"

type_synonym jsstr = "jschar list"

definition js :: "string \<Rightarrow> jsstr" where
  "js s = map of_char s"

lemma length_js [simp]: "length (js s) = length s"
  by (simp add: js_def)

lemma js_Nil [simp]: "js [] = []"
  by (simp add: js_def)

lemma js_eq_Nil [simp]: "js s = [] \<longleftrightarrow> s = []"
  by (simp add: js_def)

text \<open>
  The characters \<open>String.prototype.trim\<close> removes: the \<open>WhiteSpace\<close> and \<open>LineTerminator\<close>
  productions of ECMAScript.
\<close>

definition is_ws :: "jschar \<Rightarrow> bool" where
  "is_ws c \<longleftrightarrow> c = 9 \<or> c = 10 \<or> c = 11 \<or> c = 12 \<or> c = 13 \<or> c = 32 \<or> c = 160 \<or> c = 5760
     \<or> (8192 \<le> c \<and> c \<le> 8202) \<or> c = 8232 \<or> c = 8233 \<or> c = 8239 \<or> c = 8287 \<or> c = 12288
     \<or> c = 65279"

definition trim :: "jsstr \<Rightarrow> jsstr" where
  "trim s = rev (dropWhile is_ws (rev (dropWhile is_ws s)))"

text \<open>\<open>s.slice(a, b)\<close> for non-negative indices, and \<open>s.slice(-n)\<close> for positive \<open>n\<close>.\<close>

definition js_slice :: "'a list \<Rightarrow> nat \<Rightarrow> nat \<Rightarrow> 'a list" where
  "js_slice s a b = take (b - a) (drop a s)"

definition slice_last :: "nat \<Rightarrow> 'a list \<Rightarrow> 'a list" where
  "slice_last n s = drop (length s - n) s"

fun join :: "jsstr \<Rightarrow> jsstr list \<Rightarrow> jsstr" where
  "join sep [] = []"
| "join sep [x] = x"
| "join sep (x # y # ys) = x @ sep @ join sep (y # ys)"

text \<open>\<open>s.split(LF)\<close>\<close>

fun split_lines :: "jsstr \<Rightarrow> jsstr list" where
  "split_lines [] = [[]]"
| "split_lines (c # cs) =
     (if c = 10 then [] # split_lines cs
      else (case split_lines cs of [] \<Rightarrow> [[c]] | l # ls \<Rightarrow> (c # l) # ls))"

fun digits :: "nat \<Rightarrow> jsstr" where
  "digits n = (if n < 10 then [of_nat (48 + n)] else digits (n div 10) @ [of_nat (48 + n mod 10)])"

declare digits.simps [simp del]

definition num_str :: "int \<Rightarrow> jsstr" where
  "num_str i = (if i < 0 then 45 # digits (nat (- i)) else digits (nat i))"

definition newline :: jsstr where
  "newline = [10]"

text \<open>The ellipsis and the status glyphs the renderers use.\<close>

definition ellipsis :: jsstr where
  "ellipsis = [0x2026]"

lemma length_ellipsis [simp]: "length ellipsis = 1"
  by (simp add: ellipsis_def)

lemma length_slice: "length (js_slice s a b) = min (b - a) (length s - a)"
  by (simp add: js_slice_def)

lemma slice_zero [js_simps]: "js_slice s 0 b = take b s"
  by (simp add: js_slice_def)

lemma LENslice_last [js_simps]: "length (slice_last n s) = min n (length s)"
  by (simp add: slice_last_def)

lemma set_slice_last: "set (slice_last n s) \<subseteq> set s"
  by (simp add: slice_last_def set_drop_subset)

lemma slice_last_id [js_simps]: "length s \<le> n \<Longrightarrow> slice_last n s = s"
  by (simp add: slice_last_def)

lemma distinct_slice_last: "distinct s \<Longrightarrow> distinct (slice_last n s)"
  by (simp add: slice_last_def)

lemma length_join_snoc:
  "xs \<noteq> [] \<Longrightarrow> join sep (xs @ [x]) = join sep xs @ sep @ x"
  by (induction sep xs rule: join.induct) auto

lemma digits_nonempty: "digits n \<noteq> []"
  by (subst digits.simps) simp


subsection \<open>\<open>trim\<close>\<close>

lemma dropWhile_hd: "dropWhile P xs \<noteq> [] \<Longrightarrow> \<not> P (hd (dropWhile P xs))"
  by (rule hd_dropWhile)

lemma rev_dropWhile_rev_prefix: "\<exists>zs. xs = rev (dropWhile P (rev xs)) @ zs"
proof -
  have "rev xs = takeWhile P (rev xs) @ dropWhile P (rev xs)" by simp
  then have "xs = rev (dropWhile P (rev xs)) @ rev (takeWhile P (rev xs))"
    by (metis rev_append rev_rev_ident)
  then show ?thesis by blast
qed

lemma trim_hd: "trim s \<noteq> [] \<Longrightarrow> \<not> is_ws (hd (trim s))"
proof -
  assume ne: "trim s \<noteq> []"
  obtain zs where zs: "dropWhile is_ws s = trim s @ zs"
    using rev_dropWhile_rev_prefix [of "dropWhile is_ws s" is_ws] unfolding trim_def by blast
  then have "hd (trim s) = hd (dropWhile is_ws s)" using ne by simp
  moreover have "dropWhile is_ws s \<noteq> []" using zs ne by auto
  ultimately show ?thesis using dropWhile_hd [of is_ws s] by metis
qed

lemma trim_last: "trim s \<noteq> [] \<Longrightarrow> \<not> is_ws (last (trim s))"
  unfolding trim_def last_rev
  using dropWhile_hd [of is_ws "rev (dropWhile is_ws s)"] by (metis rev.simps(1))

text \<open>A string is trimmed when neither end is white space.\<close>

definition trimmed :: "jsstr \<Rightarrow> bool" where
  "trimmed s \<longleftrightarrow> s = [] \<or> (\<not> is_ws (hd s) \<and> \<not> is_ws (last s))"

lemma trimmed_trim [simp]: "trimmed (trim s)"
  using trim_hd trim_last by (auto simp: trimmed_def)

lemma trim_trimmed: "trimmed s \<Longrightarrow> trim s = s"
proof -
  have hd_keep: "xs \<noteq> [] \<Longrightarrow> \<not> is_ws (hd xs) \<Longrightarrow> dropWhile is_ws xs = xs" for xs
    by (cases xs) auto
  assume t: "trimmed s"
  show "trim s = s"
  proof (cases "s = []")
    case True
    then show ?thesis by (simp add: trim_def)
  next
    case False
    with t have "dropWhile is_ws s = s" "dropWhile is_ws (rev s) = rev s"
      by (auto simp: trimmed_def hd_rev intro!: hd_keep)
    then show ?thesis by (simp add: trim_def)
  qed
qed

lemma trim_trim [simp]: "trim (trim s) = trim s"
  by (simp add: trim_trimmed)

lemma trim_Nil [simp]: "trim [] = []"
  by (simp add: trim_def)

lemma length_trim: "length (trim s) \<le> length s"
  unfolding trim_def
  by (metis (no_types, lifting) length_dropWhile_le length_rev order.trans)


section \<open>Numbers from untrusted input\<close>

text \<open>
  A persisted field the code tests with \<open>typeof x === "number" && Number.isFinite(x)\<close>: absent or
  of another type, not finite, or a finite number. Finite numbers are modelled by integers.
\<close>

datatype jsnum = NotANumber | NonFinite | Finite int

fun finite_or :: "int \<Rightarrow> jsnum \<Rightarrow> int" where
  "finite_or d (Finite n) = n"
| "finite_or d _ = d"


section \<open>The insertion-ordered \<open>Map\<close>\<close>

text \<open>
  A JavaScript \<open>Map\<close> iterates in insertion order and keeps a key's place when its value is
  overwritten: an association list with distinct keys.
\<close>

type_synonym ('k, 'v) jsmap = "('k \<times> 'v) list"

definition mget :: "('k, 'v) jsmap \<Rightarrow> 'k \<Rightarrow> 'v option" where
  "mget m k = map_of m k"

definition mhas :: "('k, 'v) jsmap \<Rightarrow> 'k \<Rightarrow> bool" where
  "mhas m k \<longleftrightarrow> k \<in> fst ` set m"

definition mset_at :: "'k \<Rightarrow> 'v \<Rightarrow> ('k, 'v) jsmap \<Rightarrow> ('k, 'v) jsmap" where
  "mset_at k v m =
     (if mhas m k then map (\<lambda>(a, b). if a = k then (a, v) else (a, b)) m else m @ [(k, v)])"

definition mdel :: "'k \<Rightarrow> ('k, 'v) jsmap \<Rightarrow> ('k, 'v) jsmap" where
  "mdel k m = filter (\<lambda>(a, b). a \<noteq> k) m"

definition mkeys :: "('k, 'v) jsmap \<Rightarrow> 'k list" where
  "mkeys m = map fst m"

definition mvalues :: "('k, 'v) jsmap \<Rightarrow> 'v list" where
  "mvalues m = map snd m"

text \<open>\<open>new Map(entries)\<close>: a later entry overwrites an earlier one with the same key.\<close>

definition map_from :: "('k \<times> 'v) list \<Rightarrow> ('k, 'v) jsmap" where
  "map_from es = fold (\<lambda>(k, v) m. mset_at k v m) es []"

definition map_ok :: "('k, 'v) jsmap \<Rightarrow> bool" where
  "map_ok m \<longleftrightarrow> distinct (mkeys m)"

lemma map_ok_Nil [simp]: "map_ok []"
  by (simp add: map_ok_def mkeys_def)

lemma mget_Nil [simp]: "mget [] k = None"
  by (simp add: mget_def)

lemma mhas_mget [js_simps]: "mhas m k \<longleftrightarrow> mget m k \<noteq> None"
  unfolding mhas_def mget_def by (induction m) auto

lemma mget_overwrite: "mget (map (\<lambda>(a, b). if a = k then (a, v) else (a, b)) m) x =
    (if x = k \<and> mhas m k then Some v else mget m x)"
proof (induction m)
  case Nil
  then show ?case by (simp add: mhas_def)
next
  case (Cons e m)
  then show ?case by (cases e) (auto simp: mhas_def mget_def split: if_splits)
qed

lemma mget_mset_at [simp, js_simps]: "mget (mset_at k v m) x = (if x = k then Some v else mget m x)"
proof (cases "mhas m k")
  case True
  then show ?thesis by (simp add: mset_at_def mget_overwrite)
next
  case False
  then have "map_of m k = None" by (simp add: mhas_def map_of_eq_None_iff)
  then show ?thesis using False
    by (simp add: mset_at_def mget_def map_add_def split: option.split)
qed

lemma mget_mdel [simp, js_simps]: "mget (mdel k m) x = (if x = k then None else mget m x)"
  unfolding mdel_def mget_def by (induction m) auto

lemma mkeys_overwrite: "mkeys (map (\<lambda>(a, b). if a = k then (a, v) else (a, b)) m) = mkeys m"
  unfolding mkeys_def by (induction m) auto

lemma mkeys_mset_at [js_simps]: "mkeys (mset_at k v m) = (if mhas m k then mkeys m else mkeys m @ [k])"
  by (simp add: mset_at_def mkeys_overwrite) (simp add: mkeys_def)

lemma mkeys_mdel [js_simps]: "mkeys (mdel k m) = filter (\<lambda>a. a \<noteq> k) (mkeys m)"
  unfolding mkeys_def mdel_def by (induction m) auto

lemma set_mkeys: "set (mkeys m) = fst ` set m"
  by (simp add: mkeys_def)

lemma map_ok_mset_at [simp]: "map_ok m \<Longrightarrow> map_ok (mset_at k v m)"
  by (simp add: map_ok_def mkeys_mset_at mhas_def set_mkeys)

lemma map_ok_mdel [simp]: "map_ok m \<Longrightarrow> map_ok (mdel k m)"
  by (simp add: map_ok_def mkeys_mdel)

lemma mget_in: "map_ok m \<Longrightarrow> mget m k = Some v \<longleftrightarrow> (k, v) \<in> set m"
  unfolding mget_def map_ok_def mkeys_def by (simp add: map_of_eq_Some_iff)

lemma mget_Some_in: "mget m k = Some v \<Longrightarrow> (k, v) \<in> set m"
  unfolding mget_def by (rule map_of_SomeD)

lemma length_mset_at [js_simps]: "length (mset_at k v m) = (if mhas m k then length m else Suc (length m))"
  by (simp add: mset_at_def)

lemma fold_mset_at: "mget (fold (\<lambda>(k, v) m. mset_at k v m) es m) x =
    (case map_of (rev es) x of Some v \<Rightarrow> Some v | None \<Rightarrow> mget m x)"
proof (induction es arbitrary: m)
  case Nil
  then show ?case by simp
next
  case (Cons e es)
  then show ?case
    by (cases e) (auto split: option.splits simp: map_add_def)
qed

lemma mget_map_from [js_simps]: "mget (map_from es) x = map_of (rev es) x"
  by (simp add: map_from_def fold_mset_at split: option.split)

lemma mdel_absent: "\<not> mhas m k \<Longrightarrow> mdel k m = m"
  by (force simp: mhas_def mdel_def filter_id_conv)

lemma mhas_mdel [simp, js_simps]: "mhas (mdel k m) x \<longleftrightarrow> x \<noteq> k \<and> mhas m x"
  by (auto simp: mhas_mget)

text \<open>Deleting a key and setting it again moves it to the end.\<close>

lemma mset_at_mdel: "mset_at k v (mdel k m) = mdel k m @ [(k, v)]"
  by (simp add: mset_at_def)

lemma length_mdel_hit: "map_ok m \<Longrightarrow> mhas m k \<Longrightarrow> Suc (length (mdel k m)) = length m"
proof (induction m)
  case (Cons e m)
  show ?case
  proof (cases "fst e = k")
    case True
    with Cons.prems have "mdel k m = m" by (intro mdel_absent) (auto simp: map_ok_def mkeys_def mhas_def)
    with True show ?thesis by (cases e) (simp add: mdel_def)
  next
    case False
    with Cons show ?thesis by (cases e) (auto simp: mdel_def map_ok_def mkeys_def mhas_def)
  qed
qed (simp add: mhas_def)

lemma length_mdel_le: "length (mdel k m) \<le> length m"
  by (simp add: mdel_def)

lemma mdel_hd: "map_ok (e # m) \<Longrightarrow> mdel (fst e) (e # m) = m"
proof -
  assume ok: "map_ok (e # m)"
  then have "mdel (fst e) m = m" by (intro mdel_absent) (auto simp: map_ok_def mkeys_def mhas_def)
  then show ?thesis by (cases e) (simp add: mdel_def)
qed

lemma map_ok_slice_last: "map_ok m \<Longrightarrow> map_ok (slice_last n m)"
  by (simp add: map_ok_def mkeys_def slice_last_def drop_map [symmetric])

lemma slice_last_snoc: "0 < n \<Longrightarrow> slice_last n (xs @ [x]) = slice_last (n - 1) xs @ [x]"
  by (cases n) (simp_all add: slice_last_def)

lemma slice_last_append_ge: "n \<le> length ys \<Longrightarrow> slice_last n (xs @ ys) = slice_last n ys"
  by (simp add: slice_last_def)

lemma map_of_rev_distinct: "distinct (map fst es) \<Longrightarrow> map_of (rev es) = map_of es"
proof -
  assume d: "distinct (map fst es)"
  have r: "distinct (map fst (rev es))" using d by (simp add: rev_map [symmetric])
  show ?thesis
  proof (rule ext)
    fix x
    show "map_of (rev es) x = map_of es x"
      using map_of_eq_Some_iff [OF d, of x] map_of_eq_Some_iff [OF r, of x]
      by (metis not_Some_eq set_rev)
  qed
qed

lemma mget_map_from_distinct:
  "distinct (map fst es) \<Longrightarrow> mget (map_from es) x = map_of es x"
proof -
  assume d: "distinct (map fst es)"
  then have "map_of (rev es) = map_of es" by (simp add: map_of_rev_distinct)
  then show ?thesis by (simp add: mget_map_from)
qed

lemma map_of_map_key:
  "distinct (map f xs) \<Longrightarrow> map_of (map (\<lambda>x. (f x, g x)) xs) k = Some v \<longleftrightarrow> (\<exists>x \<in> set xs. f x = k \<and> g x = v)"
proof (induction xs)
  case Nil
  then show ?case by simp
next
  case (Cons x xs)
  show ?case
  proof (cases "f x = k")
    case True
    with Cons.prems have "\<And>y. y \<in> set xs \<Longrightarrow> f y \<noteq> k"
      by simp (metis image_eqI)
    with True show ?thesis by auto
  next
    case False
    with Cons show ?thesis by auto
  qed
qed


section \<open>Interfaces\<close>

text \<open>
  A keyed store: what the clients of a \<open>Map\<close> rely on. The laws are stated under a representation
  invariant, so that an implementation with its own shape can provide them.
\<close>

locale keyed_store =
  fixes get :: "'m \<Rightarrow> 'k \<Rightarrow> 'v option"
    and put :: "'k \<Rightarrow> 'v \<Rightarrow> 'm \<Rightarrow> 'm"
    and del :: "'k \<Rightarrow> 'm \<Rightarrow> 'm"
    and ok :: "'m \<Rightarrow> bool"
  assumes get_put: "ok m \<Longrightarrow> get (put k v m) x = (if x = k then Some v else get m x)"
    and get_del: "ok m \<Longrightarrow> get (del k m) x = (if x = k then None else get m x)"
    and ok_put: "ok m \<Longrightarrow> ok (put k v m)"
    and ok_del: "ok m \<Longrightarrow> ok (del k m)"
begin

text \<open>A counter kept in the store: what a \<open>map.set(k, (map.get(k) ?? 0) + 1)\<close> does to it.\<close>

definition count_of :: "('v \<Rightarrow> nat) \<Rightarrow> 'm \<Rightarrow> 'k \<Rightarrow> nat" where
  "count_of f m k = (case get m k of None \<Rightarrow> 0 | Some v \<Rightarrow> f v)"

lemma count_put: "ok m \<Longrightarrow> count_of f (put k v m) x = (if x = k then f v else count_of f m x)"
  by (simp add: count_of_def get_put)

lemma count_del: "ok m \<Longrightarrow> count_of f (del k m) x = (if x = k then 0 else count_of f m x)"
  by (simp add: count_of_def get_del)

lemma put_other: "ok m \<Longrightarrow> x \<noteq> k \<Longrightarrow> get (put k v m) x = get m x"
  by (simp add: get_put)

lemma del_then_put: "ok m \<Longrightarrow> get (put k v (del k m)) = get (put k v m)"
  by (rule ext) (simp add: get_put get_del ok_del)

end

interpretation jsmap_store: keyed_store mget mset_at mdel map_ok
  by unfold_locales simp_all

text \<open>
  A log with a hard cap: pushing past the cap drops the oldest entry. Whatever its state, after any
  sequence of pushes it holds the most recent ones.
\<close>

locale capped_log =
  fixes push :: "'a \<Rightarrow> 's \<Rightarrow> 's"
    and items :: "'s \<Rightarrow> 'a list"
    and cap :: nat
  assumes push_items: "length (items s) \<le> cap \<Longrightarrow> items (push x s) = slice_last cap (items s @ [x])"
begin

lemma push_bound: "length (items s) \<le> cap \<Longrightarrow> length (items (push x s)) \<le> cap"
  by (simp add: push_items LENslice_last)

lemma slice_last_step: "slice_last cap (slice_last cap ys @ zs) = slice_last cap (ys @ zs)"
proof (cases "length ys \<le> cap")
  case True
  then show ?thesis by (simp add: slice_last_id)
next
  case False
  then show ?thesis by (auto simp: slice_last_def drop_drop add.commute)
qed

lemma pushes: "length (items s) \<le> cap \<Longrightarrow> items (fold push xs s) = slice_last cap (items s @ xs)"
proof (induction xs arbitrary: s)
  case Nil
  then show ?case by (simp add: slice_last_id)
next
  case (Cons x xs)
  then have "items (fold push xs (push x s)) = slice_last cap (items (push x s) @ xs)"
    by (simp add: push_bound)
  also have "\<dots> = slice_last cap (items s @ x # xs)"
    using Cons.prems slice_last_step [of "items s @ [x]" xs] by (simp add: push_items)
  finally show ?case by simp
qed

lemma pushes_bound: "length (items s) \<le> cap \<Longrightarrow> length (items (fold push xs s)) \<le> cap"
  by (simp add: pushes LENslice_last)

end

text \<open>A deterministic machine driven by events, with an invariant every step keeps.\<close>

locale event_machine =
  fixes step :: "'e \<Rightarrow> 's \<Rightarrow> 's"
    and inv :: "'s \<Rightarrow> bool"
  assumes inv_step: "inv s \<Longrightarrow> inv (step e s)"
begin

lemma inv_run: "inv s \<Longrightarrow> inv (fold step es s)"
  by (induction es arbitrary: s) (simp_all add: inv_step)

lemma run_mono:
  assumes "inv s" and "\<And>e s. inv s \<Longrightarrow> (f s :: nat) \<le> f (step e s)"
  shows "f s \<le> f (fold step es s)"
  using assms(1)
proof (induction es arbitrary: s)
  case Nil
  then show ?case by simp
next
  case (Cons e es)
  have "f s \<le> f (step e s)" using Cons.prems assms(2) by blast
  also have "\<dots> \<le> f (fold step es (step e s))" using Cons.IH Cons.prems inv_step by blast
  finally show ?case by simp
qed

lemma run_stable:
  assumes "inv s" "P s" and "\<And>e s. inv s \<Longrightarrow> P s \<Longrightarrow> P (step e s)"
  shows "P (fold step es s)"
  using assms(1,2)
  by (induction es arbitrary: s) (simp_all add: assms(3) inv_step)

end

text \<open>A machine with choice: a step relation, its start states and an invariant.\<close>

locale transition_system =
  fixes start :: "'s \<Rightarrow> bool"
    and trans :: "'s \<Rightarrow> 's \<Rightarrow> bool"
    and inv :: "'s \<Rightarrow> bool"
  assumes inv_start: "start s \<Longrightarrow> inv s"
    and inv_trans: "trans s t \<Longrightarrow> inv s \<Longrightarrow> inv t"
begin

lemma inv_reach: "trans\<^sup>*\<^sup>* s t \<Longrightarrow> start s \<Longrightarrow> inv t"
proof (induction rule: rtranclp_induct)
  case base
  then show ?case by (rule inv_start)
next
  case (step t u)
  then show ?case using inv_trans by blast
qed

end

text \<open>
  A component that persists itself: what \<open>serialize\<close> writes, \<open>restore\<close> reads back, up to the part of
  the state \<open>view\<close> names (the fields that are persisted).
\<close>

locale snapshot_codec =
  fixes serialize :: "'s \<Rightarrow> 'd"
    and restore :: "'d \<Rightarrow> 's \<Rightarrow> 's"
    and view :: "'s \<Rightarrow> 'v"
    and inv :: "'s \<Rightarrow> bool"
    and accepts :: "'s \<Rightarrow> 's \<Rightarrow> bool"
  assumes restore_serialize: "inv s \<Longrightarrow> accepts t s \<Longrightarrow> view (restore (serialize s) t) = view s"
begin

lemma serialize_inj: "inv s \<Longrightarrow> inv s' \<Longrightarrow> accepts t s \<Longrightarrow> accepts t s' \<Longrightarrow> serialize s = serialize s' \<Longrightarrow>
    view s = view s'"
  by (metis restore_serialize)

lemma restore_twice:
  assumes "inv s" "accepts t s" "accepts u (restore (serialize s) t)" "inv (restore (serialize s) t)"
  shows "view (restore (serialize (restore (serialize s) t)) u) = view s"
  using assms by (simp add: restore_serialize)

end

end
