(* ===== verification/Surrogate.thy ===== *)
theory Surrogate
  imports JsBase
begin

text \<open>
  Surrogate-safe slicing (utils/surrogate.ts): \<open>sliceSafe\<close> never cuts a surrogate pair in half and
  \<open>truncateWithEllipsis\<close> bounds the length of everything the managers store or render. The locale
  \<open>text_clip\<close> is what the clients (todo subjects, plan fields, activity previews) rely on.
\<close>

definition isHighSurrogate :: "jschar \<Rightarrow> bool" where
  "isHighSurrogate code \<longleftrightarrow> 0xd800 \<le> code \<and> code \<le> 0xdbff"

definition isLowSurrogate :: "jschar \<Rightarrow> bool" where
  "isLowSurrogate code \<longleftrightarrow> 0xdc00 \<le> code \<and> code \<le> 0xdfff"

definition sliceSafe :: "jsstr \<Rightarrow> int \<Rightarrow> int \<Rightarrow> jsstr" where
  "sliceSafe str start end1 =
     (let lo = max 0 start; hi = min (int (length str)) end1
      in if hi \<le> lo then []
         else
           let lo' = (if 0 < lo \<and> isLowSurrogate (str ! nat lo) \<and> isHighSurrogate (str ! nat (lo - 1))
                      then lo + 1 else lo);
               hi' = (if hi < int (length str) \<and> isHighSurrogate (str ! nat (hi - 1))
                         \<and> isLowSurrogate (str ! nat hi)
                      then hi - 1 else hi)
           in if hi' \<le> lo' then [] else js_slice str (nat lo') (nat hi'))"

definition truncateWith :: "jsstr \<Rightarrow> nat \<Rightarrow> jsstr \<Rightarrow> jsstr" where
  "truncateWith str mx ell =
     (if length str \<le> mx then str
      else sliceSafe str 0 (max 0 (int mx - int (length ell))) @ ell)"

definition truncateWithEllipsis :: "jsstr \<Rightarrow> nat \<Rightarrow> jsstr" where
  "truncateWithEllipsis str mx = truncateWith str mx ellipsis"


section \<open>Lengths and shape\<close>

lemma sliceSafe_form:
  "\<exists>a b. sliceSafe s i j = js_slice s (nat a) (nat b) \<and> max 0 i \<le> a \<and> b \<le> j"
proof -
  define lo hi where "lo = max 0 i" and "hi = min (int (length s)) j"
  define lo' hi' where "lo' = (if 0 < lo \<and> isLowSurrogate (s ! nat lo) \<and> isHighSurrogate (s ! nat (lo - 1))
      then lo + 1 else lo)" and "hi' = (if hi < int (length s) \<and> isHighSurrogate (s ! nat (hi - 1))
      \<and> isLowSurrogate (s ! nat hi) then hi - 1 else hi)"
  have eq: "sliceSafe s i j = (if hi \<le> lo then [] else if hi' \<le> lo' then [] else js_slice s (nat lo') (nat hi'))"
    unfolding sliceSafe_def Let_def lo_def hi_def lo'_def hi'_def by simp
  have nil: "js_slice s (nat lo) (nat (min 0 j)) = []" by (simp add: js_slice_def)
  have "max 0 i \<le> lo'" "hi' \<le> j" by (auto simp: lo'_def hi'_def lo_def hi_def)
  then show ?thesis using nil eq lo_def by (metis min.cobounded2 order_refl)
qed

lemma length_sliceSafe: "length (sliceSafe s i j) \<le> nat (j - max 0 i)"
proof -
  obtain a b where "sliceSafe s i j = js_slice s (nat a) (nat b)" "max 0 i \<le> a" "b \<le> j"
    using sliceSafe_form by blast
  then show ?thesis by (simp add: length_slice) linarith
qed

text \<open>Slicing from 0: the result is a prefix.\<close>

definition safe_end :: "jsstr \<Rightarrow> int \<Rightarrow> int" where
  "safe_end s j =
     (let hi = min (int (length s)) j
      in if hi < int (length s) \<and> isHighSurrogate (s ! nat (hi - 1)) \<and> isLowSurrogate (s ! nat hi)
         then hi - 1 else hi)"

lemma sliceSafe_zero: "sliceSafe s 0 j = take (nat (safe_end s j)) s"
  by (auto simp: sliceSafe_def safe_end_def Let_def slice_zero)

lemma safe_end_le: "safe_end s j \<le> j"
  by (auto simp: safe_end_def Let_def)

lemma sliceSafe_prefix_take: "\<exists>k \<le> n. sliceSafe s 0 (int n) = take k s"
  using sliceSafe_zero [of s "int n"] safe_end_le [of s "int n"] by (metis nat_int nat_mono)

lemma sliceSafe_whole: "sliceSafe s 0 (int (length s)) = s"
  by (simp add: sliceSafe_zero safe_end_def Let_def)

lemma length_truncateWith: "length ell \<le> mx \<Longrightarrow> length (truncateWith s mx ell) \<le> mx"
  using length_sliceSafe [of s 0 "int mx - int (length ell)"]
  by (auto simp: truncateWith_def nat_le_iff)

lemma length_truncateWithEllipsis: "0 < mx \<Longrightarrow> length (truncateWithEllipsis s mx) \<le> mx"
  by (simp add: truncateWithEllipsis_def length_truncateWith)

lemma truncateWithEllipsis_fits [js_simps]: "length s \<le> mx \<Longrightarrow> truncateWithEllipsis s mx = s"
  by (simp add: truncateWithEllipsis_def truncateWith_def)


section \<open>Well-formed UTF-16\<close>

text \<open>Every high surrogate is followed by a low one and no low surrogate stands alone.\<close>

fun wf16 :: "jsstr \<Rightarrow> bool" where
  "wf16 [] = True"
| "wf16 [c] = (\<not> isHighSurrogate c \<and> \<not> isLowSurrogate c)"
| "wf16 (c # d # cs) =
     (if isHighSurrogate c then isLowSurrogate d \<and> wf16 cs
      else \<not> isLowSurrogate c \<and> wf16 (d # cs))"

lemma high_not_low: "isHighSurrogate c \<Longrightarrow> \<not> isLowSurrogate c"
  by (auto simp: isHighSurrogate_def isLowSurrogate_def word_le_nat_alt)

definition cut_ok :: "jsstr \<Rightarrow> nat \<Rightarrow> bool" where
  "cut_ok s k \<longleftrightarrow> \<not> (0 < k \<and> k < length s \<and> isHighSurrogate (s ! (k - 1)) \<and> isLowSurrogate (s ! k))"

lemma wf16_cut: "wf16 s \<Longrightarrow> cut_ok s k \<Longrightarrow> wf16 (take k s) \<and> wf16 (drop k s)"
proof (induction s arbitrary: k rule: wf16.induct)
  case 1
  then show ?case by simp
next
  case (2 c)
  then show ?case by (cases k) auto
next
  case (3 c d cs)
  show ?case
  proof (cases k)
    case 0
    then show ?thesis using "3.prems" by simp
  next
    case k1: (Suc k1)
    show ?thesis
    proof (cases "isHighSurrogate c")
      case True
      with "3.prems" have d: "isLowSurrogate d" and cs: "wf16 cs" by auto
      show ?thesis
      proof (cases k1)
        case 0
        with True d "3.prems"(2) k1 show ?thesis by (simp add: cut_ok_def)
      next
        case (Suc k2)
        have "cut_ok cs k2"
          using "3.prems"(2) k1 Suc by (cases k2) (auto simp: cut_ok_def)
        then have "wf16 (take k2 cs) \<and> wf16 (drop k2 cs)" using "3.IH"(1) True cs by blast
        with True d k1 Suc show ?thesis by simp
      qed
    next
      case False
      with "3.prems" have c: "\<not> isLowSurrogate c" and dcs: "wf16 (d # cs)" by auto
      have "cut_ok (d # cs) k1"
        using "3.prems"(2) k1 by (cases k1) (auto simp: cut_ok_def)
      then have ih: "wf16 (take k1 (d # cs)) \<and> wf16 (drop k1 (d # cs))"
        using "3.IH"(2) False dcs by blast
      then show ?thesis using False c k1 by (cases k1) auto
    qed
  qed
qed

lemma wf16_append: "wf16 s \<Longrightarrow> wf16 t \<Longrightarrow> wf16 (s @ t)"
proof (induction s rule: wf16.induct)
  case (2 c)
  then show ?case by (cases t) auto
qed auto

lemma cut_ok_shift: "cut_ok s k \<Longrightarrow> j \<le> k \<Longrightarrow> cut_ok (drop j s) (k - j)"
  by (auto simp: cut_ok_def)

lemma slice_wf16: "wf16 s \<Longrightarrow> cut_ok s a \<Longrightarrow> cut_ok s b \<Longrightarrow> a \<le> b \<Longrightarrow> wf16 (js_slice s a b)"
  unfolding js_slice_def
  using wf16_cut [of s a] wf16_cut [of "drop a s" "b - a"] cut_ok_shift [of s b a] by blast

text \<open>The two nudges of \<open>sliceSafe\<close> leave both boundaries off a pair.\<close>

lemma cut_ok_low: "isLowSurrogate (s ! k) \<Longrightarrow> cut_ok s (Suc k)"
  using high_not_low by (auto simp: cut_ok_def)

lemma cut_ok_high: "isHighSurrogate (s ! k) \<Longrightarrow> cut_ok s k"
  using high_not_low by (auto simp: cut_ok_def)

lemma sliceSafe_wf16:
  assumes "wf16 s"
  shows "wf16 (sliceSafe s i j)"
proof -
  define lo hi where "lo = max 0 i" and "hi = min (int (length s)) j"
  define lo' hi' where "lo' = (if 0 < lo \<and> isLowSurrogate (s ! nat lo) \<and> isHighSurrogate (s ! nat (lo - 1))
      then lo + 1 else lo)" and "hi' = (if hi < int (length s) \<and> isHighSurrogate (s ! nat (hi - 1))
      \<and> isLowSurrogate (s ! nat hi) then hi - 1 else hi)"
  have eq: "sliceSafe s i j = (if hi \<le> lo then [] else if hi' \<le> lo' then [] else js_slice s (nat lo') (nat hi'))"
    unfolding sliceSafe_def Let_def lo_def hi_def lo'_def hi'_def by simp
  have "wf16 (js_slice s (nat lo') (nat hi'))" if "lo < hi" "lo' < hi'"
  proof (rule slice_wf16 [OF assms])
    have lo0: "0 \<le> lo" by (simp add: lo_def)
    show "cut_ok s (nat lo')"
    proof (cases "lo' = lo")
      case True
      have p: "nat (lo - 1) = nat lo - 1" using lo0 by simp
      show ?thesis
      proof (rule ccontr)
        assume "\<not> cut_ok s (nat lo')"
        then have "0 < lo \<and> isLowSurrogate (s ! nat lo) \<and> isHighSurrogate (s ! nat (lo - 1))"
          using True p by (auto simp: cut_ok_def)
        then show False using True by (simp add: lo'_def)
      qed
    next
      case False
      then have "isLowSurrogate (s ! nat lo)" "lo' = lo + 1" by (auto simp: lo'_def split: if_splits)
      then show ?thesis using cut_ok_low [of s "nat lo"] lo0 by (simp add: nat_add_distrib)
    qed
    show "cut_ok s (nat hi')"
    proof (cases "hi' = hi")
      case True
      have p: "nat (hi - 1) = nat hi - 1" using lo0 that by simp
      show ?thesis
      proof (rule ccontr)
        assume "\<not> cut_ok s (nat hi')"
        then have "hi < int (length s) \<and> isHighSurrogate (s ! nat (hi - 1)) \<and> isLowSurrogate (s ! nat hi)"
          using True p by (auto simp: cut_ok_def)
        then show False using True by (simp add: hi'_def)
      qed
    next
      case False
      then have "isHighSurrogate (s ! nat (hi - 1))" "hi' = hi - 1" by (auto simp: hi'_def split: if_splits)
      then show ?thesis using cut_ok_high [of s "nat (hi - 1)"] by simp
    qed
    show "nat lo' \<le> nat hi'" using that by simp
  qed
  then show ?thesis by (simp add: eq)
qed

lemma wf16_ellipsis: "wf16 ellipsis"
  by (simp add: ellipsis_def isHighSurrogate_def isLowSurrogate_def)

lemma truncateWithEllipsis_wf16: "wf16 s \<Longrightarrow> wf16 (truncateWithEllipsis s mx)"
  by (simp add: truncateWithEllipsis_def truncateWith_def sliceSafe_wf16 wf16_append wf16_ellipsis)


section \<open>Clipping a stored field\<close>

text \<open>
  \<open>clamp\<close> of plan-manager.ts and \<open>clampSubject\<close> of todo-manager.ts: trim, then truncate.
\<close>

definition clamp :: "nat \<Rightarrow> jsstr \<Rightarrow> jsstr" where
  "clamp mx s = truncateWithEllipsis (trim s) mx"

lemma length_clamp: "0 < mx \<Longrightarrow> length (clamp mx s) \<le> mx"
  by (simp add: clamp_def length_truncateWithEllipsis)

lemma not_ws_ellipsis: "\<not> is_ws 0x2026"
  by (simp add: is_ws_def)

lemma trimmed_clamp:
  assumes "1 < mx"
  shows "trimmed (clamp mx s)"
proof (cases "length (trim s) \<le> mx")
  case True
  then show ?thesis by (simp add: clamp_def truncateWithEllipsis_fits)
next
  case False
  define t where "t = trim s"
  obtain k where k: "sliceSafe t 0 (int (mx - 1)) = take k t"
    using sliceSafe_prefix_take [of "mx - 1" t] by blast
  have "int (mx - 1) = int mx - 1" using assms by simp
  then have k': "sliceSafe t 0 (int mx - 1) = take k t" using k by metis
  have mx0: "max 0 (int mx - 1) = int mx - 1" using assms by simp
  have c: "clamp mx s = take k t @ [0x2026]"
    using False k' mx0 by (simp add: clamp_def truncateWithEllipsis_def truncateWith_def t_def ellipsis_def)
  have "take k t = [] \<or> \<not> is_ws (hd (take k t))"
    using trim_hd [of s] by (cases "k = 0") (auto simp: t_def hd_take)
  then have "\<not> is_ws (hd (take k t @ [0x2026]))"
    using not_ws_ellipsis by (cases "take k t") auto
  then show ?thesis unfolding c trimmed_def using not_ws_ellipsis by simp
qed

lemma clamp_id [js_simps]: "trimmed s \<Longrightarrow> length s \<le> mx \<Longrightarrow> clamp mx s = s"
  by (simp add: clamp_def trim_trimmed truncateWithEllipsis_fits)

lemma clamp_Nil_iff: "clamp mx s = [] \<longleftrightarrow> trim s = []"
  by (auto simp: clamp_def truncateWithEllipsis_def truncateWith_def ellipsis_def)

text \<open>\<open>x?.trim() ? clamp(x, mx) : undefined\<close>, for the optional fields.\<close>

definition clamp_opt :: "nat \<Rightarrow> jsstr option \<Rightarrow> jsstr option" where
  "clamp_opt mx x = (case x of None \<Rightarrow> None | Some s \<Rightarrow> if trim s = [] then None else Some (clamp mx s))"

text \<open>What a client of a clipping function relies on.\<close>

locale text_clip =
  fixes clip :: "jsstr \<Rightarrow> jsstr" and mx :: nat
  assumes clip_bound: "length (clip s) \<le> mx"
    and clip_fix: "clip (clip s) = clip s"
    and clip_blank: "clip s = [] \<longleftrightarrow> trim s = []"
begin

lemma clip_trim_nonblank: "trim s \<noteq> [] \<Longrightarrow> trim (clip s) \<noteq> []"
  by (metis clip_blank clip_fix)

text \<open>An optional field: absent when blank, else clipped.\<close>

definition clip_opt :: "jsstr option \<Rightarrow> jsstr option" where
  "clip_opt x = (case x of None \<Rightarrow> None | Some s \<Rightarrow> if trim s = [] then None else Some (clip s))"

lemma clip_opt_fix: "clip_opt (clip_opt x) = clip_opt x"
  by (auto simp: clip_opt_def clip_fix clip_trim_nonblank split: option.splits)

lemma clip_opt_bound: "clip_opt x = Some s \<Longrightarrow> length s \<le> mx"
  by (auto simp: clip_opt_def clip_bound split: option.splits if_splits)

end

lemma clamp_clamp: "1 < mx \<Longrightarrow> clamp mx (clamp mx s) = clamp mx s"
  by (simp add: clamp_id trimmed_clamp length_clamp)

lemma clamp_opt_fix [js_simps]: "1 < mx \<Longrightarrow> clamp_opt mx (clamp_opt mx x) = clamp_opt mx x"
  by (auto simp: clamp_opt_def clamp_clamp clamp_Nil_iff trim_trimmed trimmed_clamp split: option.splits)

lemma clamp_opt_bound: "0 < mx \<Longrightarrow> clamp_opt mx x = Some s \<Longrightarrow> length s \<le> mx"
  by (auto simp: clamp_opt_def length_clamp split: option.splits if_splits)

interpretation subject_clip: text_clip "clamp 200" 200
  by unfold_locales (simp_all add: length_clamp clamp_clamp clamp_Nil_iff)

interpretation verify_clip: text_clip "clamp 400" 400
  by unfold_locales (simp_all add: length_clamp clamp_clamp clamp_Nil_iff)

interpretation brief_clip: text_clip "clamp 4000" 4000
  by unfold_locales (simp_all add: length_clamp clamp_clamp clamp_Nil_iff)

section \<open>Properties\<close>

text \<open>Truncation is safe and tight: the result of \<open>truncateWithEllipsis\<close> is the string itself when
  it fits, and otherwise a prefix followed by the ellipsis, never longer than the maximum; and a
  well-formed UTF-16 string stays well formed, no surrogate pair is ever split.\<close>

theorem truncateWithEllipsis_safe:
  assumes "0 < mx"
  shows "length (truncateWithEllipsis s mx) \<le> mx \<and>
    (truncateWithEllipsis s mx = s \<or> (\<exists>k < mx. truncateWithEllipsis s mx = take k s @ ellipsis)) \<and>
    (wf16 s \<longrightarrow> wf16 (truncateWithEllipsis s mx))"
proof (intro conjI impI)
  show "truncateWithEllipsis s mx = s \<or> (\<exists>k < mx. truncateWithEllipsis s mx = take k s @ ellipsis)"
  proof (cases "length s \<le> mx")
    case True
    then show ?thesis by (simp add: truncateWithEllipsis_fits)
  next
    case False
    obtain k where "k \<le> mx - 1" "sliceSafe s 0 (int (mx - 1)) = take k s"
      using sliceSafe_prefix_take [of "mx - 1" s] by blast
    moreover have "truncateWithEllipsis s mx = sliceSafe s 0 (int (mx - 1)) @ ellipsis"
      using False assms by (simp add: truncateWithEllipsis_def truncateWith_def of_nat_diff max_def)
    ultimately show ?thesis using assms by (intro disjI2 exI [of _ k]) auto
  qed
qed (use assms in \<open>simp_all add: length_truncateWithEllipsis truncateWithEllipsis_wf16\<close>)

theorem truncateWithEllipsis_safe_witness:
  "truncateWithEllipsis [0x61, 0xD83D, 0xDE00, 0x62] 3 = [0x61, 0x2026] \<and>
   length (truncateWithEllipsis [0x61, 0xD83D, 0xDE00, 0x62] 3) \<le> 3"
proof -
  have "truncateWithEllipsis [0x61, 0xD83D, 0xDE00, 0x62] 3 = [0x61, 0x2026]" by code_simp
  then show ?thesis
    using truncateWithEllipsis_safe [of 3 "[0x61, 0xD83D, 0xDE00, 0x62]"] by simp
qed

end
