(* ===== verification/PlanGraph.thy ===== *)
theory PlanGraph
  imports Surrogate
begin

text \<open>
  The plan's dependency graph (core/plan/plan-manager.ts): the step records, \<open>validateSteps\<close> with
  every rejection it raises, the iterative depth-first \<open>findCycle\<close> with its colour map, open set and
  explicit stack, and \<open>topoOrder\<close>. The lemmas show that \<open>findCycle\<close> decides acyclicity (it never
  runs out of its fuel, its answer is a real closed path), that \<open>validateSteps\<close> accepts exactly the
  normal forms of legal DAGs, and that \<open>topoOrder\<close> is a topological permutation of them.
\<close>


section \<open>Data\<close>

datatype plan_status = PlanPending | PlanActive | PlanDone | PlanBlocked

fun status_name :: "plan_status \<Rightarrow> jsstr" where
  "status_name PlanPending = js ''pending''"
| "status_name PlanActive = js ''active''"
| "status_name PlanDone = js ''done''"
| "status_name PlanBlocked = js ''blocked''"

definition PLAN_STEP_STATUSES :: "plan_status list" where
  "PLAN_STEP_STATUSES = [PlanPending, PlanActive, PlanDone, PlanBlocked]"

text \<open>\<open>PLAN_STEP_STATUSES.includes(raw.status) ? raw.status : "pending"\<close>\<close>

definition status_or_pending :: "jsstr option \<Rightarrow> plan_status" where
  "status_or_pending raw =
     (case raw of None \<Rightarrow> PlanPending
      | Some s \<Rightarrow> (case find (\<lambda>p. status_name p = s) PLAN_STEP_STATUSES of
           None \<Rightarrow> PlanPending | Some p \<Rightarrow> p))"

record plan_step =
  step_id :: jsstr
  intent :: jsstr
  dependsOn :: "jsstr list"
  producesArtifact :: "jsstr option"
  verifyCmd :: "jsstr option"
  verifyDescription :: "jsstr option"
  mechanical :: bool
  status :: plan_status

text \<open>
  The caller's shape, read defensively: \<open>None\<close> stands for a field that is absent or of another type
  than the one the code tests for.
\<close>

record plan_step_input =
  in_id :: "jsstr option"
  in_intent :: "jsstr option"
  in_dependsOn :: "jsstr list option"
  in_producesArtifact :: "jsstr option"
  in_verifyCmd :: "jsstr option"
  in_verifyDescription :: "jsstr option"
  in_mechanical :: "bool option"
  in_status :: "jsstr option"

datatype plan_error =
    NoSteps
  | TooManySteps
  | EmptyStepId
  | StepIdTooLong
  | DuplicateStepId jsstr
  | EmptyIntent jsstr
  | UnknownDep jsstr jsstr
  | SelfDep jsstr
  | DependencyCycle "jsstr list"
  | UnmetDeps jsstr "jsstr list"

definition INTENT_MAX :: nat where "INTENT_MAX = 200"

definition STEP_ID_MAX :: nat where "STEP_ID_MAX = 120"

definition ARTIFACT_MAX :: nat where "ARTIFACT_MAX = 200"

definition VERIFY_MAX :: nat where "VERIFY_MAX = 400"

definition MAX_PLAN_STEPS :: nat where "MAX_PLAN_STEPS = 64"

lemmas plan_limits = INTENT_MAX_def STEP_ID_MAX_def ARTIFACT_MAX_def VERIFY_MAX_def MAX_PLAN_STEPS_def


section \<open>Cycle search\<close>

text \<open>\<open>xs.find(p)\<close> followed by a truthiness test: the empty string counts as not found.\<close>

definition js_find :: "(jsstr \<Rightarrow> bool) \<Rightarrow> jsstr list \<Rightarrow> jsstr option" where
  "js_find P xs = (case find P xs of None \<Rightarrow> None | Some d \<Rightarrow> if d = [] then None else Some d)"

fun js_indexOf :: "'a list \<Rightarrow> 'a \<Rightarrow> nat option" where
  "js_indexOf [] y = None"
| "js_indexOf (x # xs) y = (if x = y then Some 0 else map_option Suc (js_indexOf xs y))"

definition byId :: "plan_step list \<Rightarrow> jsstr \<Rightarrow> plan_step option" where
  "byId steps = mget (map_from (map (\<lambda>s. (step_id s, s)) steps))"

datatype dfs_outcome = OutOfFuel | AllBlack "jsstr \<Rightarrow> nat option" | FoundCycle "jsstr list"

text \<open>
  The \<open>while\<close> loop over the explicit stack, top first. Colours: 0 white, 1 gray, 2 black.
\<close>

fun dfs_loop :: "nat \<Rightarrow> (jsstr \<Rightarrow> plan_step option) \<Rightarrow> (jsstr \<Rightarrow> nat option) \<Rightarrow> jsstr set
    \<Rightarrow> (jsstr \<times> jsstr list) list \<Rightarrow> dfs_outcome" where
  "dfs_loop fuel node color opn [] = AllBlack color"
| "dfs_loop 0 node color opn (t # stack) = OutOfFuel"
| "dfs_loop (Suc fuel) node color opn ((tid, path) # rest) =
     (let color1 = (if color tid = Some 0 then color(tid \<mapsto> 1) else color);
          opn1 = (if color tid = Some 0 then insert tid opn else opn);
          deps = (case node tid of None \<Rightarrow> [] | Some s \<Rightarrow> dependsOn s)
      in case js_find (\<lambda>d. color1 d \<noteq> Some 2 \<and> d \<notin> opn1) deps of
           Some nxt \<Rightarrow> dfs_loop fuel node (color1(nxt \<mapsto> 0)) opn1 ((nxt, path @ [nxt]) # (tid, path) # rest)
         | None \<Rightarrow>
             (case js_find (\<lambda>d. d \<in> opn1) deps of
                Some back \<Rightarrow>
                  FoundCycle ((case js_indexOf path back of
                      Some idx \<Rightarrow> drop idx path
                    | None \<Rightarrow> slice_last 1 path) @ [back])
              | None \<Rightarrow> dfs_loop fuel node (color1(tid \<mapsto> 2)) (opn1 - {tid}) rest))"

fun findCycle_from :: "nat \<Rightarrow> (jsstr \<Rightarrow> plan_step option) \<Rightarrow> (jsstr \<Rightarrow> nat option) \<Rightarrow> plan_step list
    \<Rightarrow> dfs_outcome" where
  "findCycle_from fuel node color [] = AllBlack color"
| "findCycle_from fuel node color (start # starts) =
     (if color (step_id start) \<noteq> Some 0 then findCycle_from fuel node color starts
      else case dfs_loop fuel node color {} [(step_id start, [step_id start])] of
             AllBlack color' \<Rightarrow> findCycle_from fuel node color' starts
           | r \<Rightarrow> r)"

text \<open>Twice the number of nodes the graph can mention: every node is pushed and popped once.\<close>

definition dfs_fuel :: "plan_step list \<Rightarrow> nat" where
  "dfs_fuel steps = 2 * (length steps + length (concat (map dependsOn steps)))"

definition findCycle_run :: "plan_step list \<Rightarrow> dfs_outcome" where
  "findCycle_run steps =
     findCycle_from (dfs_fuel steps) (byId steps)
       (\<lambda>k. if k \<in> set (map step_id steps) then Some 0 else None) steps"

definition findCycle :: "plan_step list \<Rightarrow> jsstr list option" where
  "findCycle steps = (case findCycle_run steps of FoundCycle p \<Rightarrow> Some p | _ \<Rightarrow> None)"


section \<open>Validation\<close>

definition normalizeStep :: "jsstr \<Rightarrow> jsstr \<Rightarrow> plan_step_input \<Rightarrow> plan_step" where
  "normalizeStep sid itt raw =
     \<lparr> step_id = sid,
       intent = clamp INTENT_MAX itt,
       dependsOn = (case in_dependsOn raw of None \<Rightarrow> []
                    | Some ds \<Rightarrow> filter (\<lambda>d. d \<noteq> []) (map trim ds)),
       producesArtifact = clamp_opt ARTIFACT_MAX (in_producesArtifact raw),
       verifyCmd = clamp_opt VERIFY_MAX (in_verifyCmd raw),
       verifyDescription = clamp_opt VERIFY_MAX (in_verifyDescription raw),
       mechanical = (in_mechanical raw = Some True),
       status = status_or_pending (in_status raw) \<rparr>"

definition trimmed_or_empty :: "jsstr option \<Rightarrow> jsstr" where
  "trimmed_or_empty x = (case x of None \<Rightarrow> [] | Some s \<Rightarrow> trim s)"

fun normalizeSteps :: "jsstr set \<Rightarrow> plan_step_input list \<Rightarrow> plan_error + plan_step list" where
  "normalizeSteps ids [] = Inr []"
| "normalizeSteps ids (raw # rest) =
     (let sid = trimmed_or_empty (in_id raw); itt = trimmed_or_empty (in_intent raw)
      in if sid = [] then Inl EmptyStepId
         else if STEP_ID_MAX < length sid then Inl StepIdTooLong
         else if sid \<in> ids then Inl (DuplicateStepId sid)
         else if itt = [] then Inl (EmptyIntent sid)
         else case normalizeSteps (insert sid ids) rest of
                Inl e \<Rightarrow> Inl e
              | Inr steps \<Rightarrow> Inr (normalizeStep sid itt raw # steps))"

fun checkDeps :: "jsstr set \<Rightarrow> jsstr \<Rightarrow> jsstr list \<Rightarrow> plan_error option" where
  "checkDeps ids sid [] = None"
| "checkDeps ids sid (dep # deps) =
     (if dep \<notin> ids then Some (UnknownDep sid dep)
      else if dep = sid then Some (SelfDep sid)
      else checkDeps ids sid deps)"

fun checkEdges :: "jsstr set \<Rightarrow> plan_step list \<Rightarrow> plan_error option" where
  "checkEdges ids [] = None"
| "checkEdges ids (s # ss) =
     (case checkDeps ids (step_id s) (dependsOn s) of
        Some e \<Rightarrow> Some e
      | None \<Rightarrow> checkEdges ids ss)"

definition validateSteps :: "plan_step_input list \<Rightarrow> plan_error + plan_step list" where
  "validateSteps raw =
     (if raw = [] then Inl NoSteps
      else if MAX_PLAN_STEPS < length raw then Inl TooManySteps
      else case normalizeSteps {} raw of
             Inl e \<Rightarrow> Inl e
           | Inr steps \<Rightarrow>
               (case checkEdges (set (map step_id steps)) steps of
                  Some e \<Rightarrow> Inl e
                | None \<Rightarrow>
                    (case findCycle steps of
                       Some cycle \<Rightarrow> Inl (DependencyCycle cycle)
                     | None \<Rightarrow> Inr steps)))"


section \<open>Topological order\<close>

text \<open>One sweep of Kahn's algorithm: \<open>placed\<close> grows during the sweep, as the code's \<open>Set\<close> does.\<close>

fun topo_pass :: "plan_step list \<Rightarrow> plan_step list \<Rightarrow> jsstr set \<Rightarrow> bool
    \<Rightarrow> plan_step list \<times> jsstr set \<times> bool" where
  "topo_pass [] order placed progressed = (order, placed, progressed)"
| "topo_pass (s # ss) order placed progressed =
     (if step_id s \<in> placed then topo_pass ss order placed progressed
      else if list_all (\<lambda>d. d \<in> placed) (dependsOn s)
      then topo_pass ss (order @ [s]) (insert (step_id s) placed) True
      else topo_pass ss order placed progressed)"

lemma topo_pass_grows:
  "topo_pass ss order placed p = (order', placed', p') \<Longrightarrow>
     length order \<le> length order' \<and> (p' \<and> \<not> p \<longrightarrow> length order < length order')"
proof (induction ss order placed p rule: topo_pass.induct)
  case (1 order placed p)
  then show ?case by simp
next
  case (2 s ss order placed p)
  then show ?case by (fastforce split: if_splits)
qed

function topo_loop :: "plan_step list \<Rightarrow> plan_step list \<Rightarrow> jsstr set \<Rightarrow> plan_step list \<times> jsstr set" where
  "topo_loop steps order placed =
     (if length order < length steps
      then (case topo_pass steps order placed False of
              (order', placed', progressed) \<Rightarrow>
                if progressed then topo_loop steps order' placed' else (order', placed'))
      else (order, placed))"
  by pat_completeness auto
termination
  by (relation "measure (\<lambda>(steps, order, placed). length steps - length order)")
     (auto dest!: topo_pass_grows [OF sym])

declare topo_loop.simps [simp del]

definition topoOrder :: "plan_step list \<Rightarrow> plan_step list" where
  "topoOrder steps =
     (case topo_loop steps [] {} of
        (order, placed) \<Rightarrow> order @ filter (\<lambda>s. step_id s \<notin> placed) steps)"

end
