(* ===== verification/PlanDag.thy ===== *)
theory PlanDag
  imports PlanGraph "HOL-Library.Multiset"
begin

text \<open>
  Correctness of the plan's graph algorithms: an invariant of the depth-first loop (the stack is a
  path, the black nodes are closed and acyclic), enough fuel, the equivalence of \<open>findCycle\<close> with
  acyclicity, and Kahn's algorithm.
\<close>


section \<open>The dependency relation\<close>

definition edges :: "(jsstr \<Rightarrow> plan_step option) \<Rightarrow> (jsstr \<times> jsstr) set" where
  "edges node = {(a, b). \<exists>s. node a = Some s \<and> b \<in> set (dependsOn s)}"

definition dep_rel :: "plan_step list \<Rightarrow> (jsstr \<times> jsstr) set" where
  "dep_rel steps = edges (byId steps)"

definition no_blank_deps :: "plan_step list \<Rightarrow> bool" where
  "no_blank_deps steps \<longleftrightarrow> (\<forall>s \<in> set steps. [] \<notin> set (dependsOn s))"

definition nodes :: "plan_step list \<Rightarrow> jsstr set" where
  "nodes steps = set (map step_id steps) \<union> set (concat (map dependsOn steps))"

lemma byId_Some_in: "byId steps k = Some s \<Longrightarrow> s \<in> set steps \<and> step_id s = k"
proof -
  assume "byId steps k = Some s"
  then have "map_of (rev (map (\<lambda>s. (step_id s, s)) steps)) k = Some s"
    by (simp add: byId_def mget_map_from)
  then have "(k, s) \<in> set (rev (map (\<lambda>s. (step_id s, s)) steps))" by (rule map_of_SomeD)
  then show ?thesis by auto
qed

lemma byId_in: "k \<in> step_id ` set steps \<Longrightarrow> byId steps k \<noteq> None"
  by (auto simp: byId_def mget_map_from map_of_eq_None_iff image_iff)

lemma byId_distinct: "distinct (map step_id steps) \<Longrightarrow> s \<in> set steps \<Longrightarrow> byId steps (step_id s) = Some s"
  by (simp add: byId_def mget_map_from_distinct comp_def map_of_map_key)

lemma dep_rel_nodes: "(a, b) \<in> dep_rel steps \<Longrightarrow> a \<in> set (map step_id steps) \<and> b \<in> nodes steps"
  unfolding dep_rel_def edges_def nodes_def by (auto dest!: byId_Some_in)

lemma dep_rel_distinct:
  "distinct (map step_id steps) \<Longrightarrow>
     (a, b) \<in> dep_rel steps \<longleftrightarrow> (\<exists>s \<in> set steps. step_id s = a \<and> b \<in> set (dependsOn s))"
  unfolding dep_rel_def edges_def using byId_distinct byId_Some_in by (auto, fastforce+)

lemma finite_nodes: "finite (nodes steps)"
  by (simp add: nodes_def)

lemma card_nodes: "card (nodes steps) \<le> length steps + length (concat (map dependsOn steps))"
proof -
  have "nodes steps = set (map step_id steps @ concat (map dependsOn steps))"
    by (simp add: nodes_def)
  then have "card (nodes steps) \<le> length (map step_id steps @ concat (map dependsOn steps))"
    by (metis card_length)
  then show ?thesis by simp
qed

lemma finite_dep_rel: "finite (dep_rel steps)"
proof -
  have "dep_rel steps \<subseteq> nodes steps \<times> nodes steps"
    using dep_rel_nodes by (auto simp: nodes_def) blast
  then show ?thesis using finite_nodes finite_subset by blast
qed


section \<open>Closed paths\<close>

definition closed_path :: "(jsstr \<times> jsstr) set \<Rightarrow> jsstr list \<Rightarrow> bool" where
  "closed_path E p \<longleftrightarrow> 2 \<le> length p \<and> hd p = last p \<and> successively (\<lambda>a b. (a, b) \<in> E) p"

lemma successively_rtrancl:
  "successively (\<lambda>a b. (a, b) \<in> E) p \<Longrightarrow> p \<noteq> [] \<Longrightarrow> (hd p, last p) \<in> E\<^sup>*"
proof (induction p rule: induct_list012)
  case (3 x y zs)
  then have "(x, y) \<in> E" "(hd (y # zs), last (y # zs)) \<in> E\<^sup>*" by auto
  then show ?case by (auto intro: converse_rtrancl_into_rtrancl)
qed auto

lemma closed_path_cyclic: "closed_path E p \<Longrightarrow> \<not> acyclic E"
proof
  assume p: "closed_path E p" and a: "acyclic E"
  obtain x y zs where xs: "p = x # y # zs"
    using p unfolding closed_path_def by (cases p; cases "tl p") auto
  with p have "(x, y) \<in> E" and "successively (\<lambda>a b. (a, b) \<in> E) (y # zs)" and "last (y # zs) = x"
    by (auto simp: closed_path_def)
  with successively_rtrancl [of E "y # zs"] have "(x, x) \<in> E\<^sup>+" by (auto intro: rtrancl_into_trancl2)
  with a show False by (auto simp: acyclic_def)
qed

lemma js_indexOf_Some: "x \<in> set xs \<Longrightarrow> \<exists>i < length xs. js_indexOf xs x = Some i \<and> xs ! i = x"
proof (induction xs)
  case Nil
  then show ?case by simp
next
  case (Cons a xs)
  show ?case
  proof (cases "a = x")
    case True
    then show ?thesis by simp
  next
    case False
    with Cons obtain i where "i < length xs" "js_indexOf xs x = Some i" "xs ! i = x" by auto
    with False show ?thesis by auto
  qed
qed

lemma js_find_None: "[] \<notin> set xs \<Longrightarrow> js_find P xs = None \<longleftrightarrow> (\<forall>x \<in> set xs. \<not> P x)"
proof -
  assume nb: "[] \<notin> set xs"
  have "js_find P xs = find P xs"
  proof (cases "find P xs")
    case None
    then show ?thesis by (simp add: js_find_def)
  next
    case (Some d)
    then have "d \<in> set xs" by (auto simp: find_Some_iff)
    with nb have "d \<noteq> []" by metis
    with Some show ?thesis by (simp add: js_find_def)
  qed
  then show ?thesis by (auto simp: find_None_iff)
qed

lemma js_find_Some: "js_find P xs = Some x \<Longrightarrow> x \<in> set xs \<and> P x"
  unfolding js_find_def by (auto simp: find_Some_iff split: option.splits if_splits)


section \<open>Invariant of the depth-first loop\<close>

fun stack_ok :: "(jsstr \<times> jsstr) set \<Rightarrow> (jsstr \<times> jsstr list) list \<Rightarrow> bool" where
  "stack_ok E [] = True"
| "stack_ok E [(x, p)] = (p = [x])"
| "stack_ok E ((x, p) # (y, q) # r) = (p = q @ [x] \<and> (y, x) \<in> E \<and> stack_ok E ((y, q) # r))"

lemma stack_ok_path:
  "stack_ok E ((x, p) # r) \<Longrightarrow> p = rev (x # map fst r) \<and> successively (\<lambda>a b. (a, b) \<in> E) p"
proof (induction E "(x, p) # r" arbitrary: x p r rule: stack_ok.induct)
  case (3 E x p y q r)
  then have "q = rev (y # map fst r)" "successively (\<lambda>a b. (a, b) \<in> E) q" "p = q @ [x]" "(y, x) \<in> E"
    by auto
  then show ?case by (auto simp: successively_append_iff)
qed auto

lemma stack_ok_tl: "stack_ok E (t # r) \<Longrightarrow> stack_ok E r"
  by (cases t; cases r) auto

definition black :: "(jsstr \<Rightarrow> nat option) \<Rightarrow> jsstr set" where
  "black color = {x. color x = Some 2}"

text \<open>The black nodes are closed under dependencies, and no cycle goes through one.\<close>

definition black_ok :: "(jsstr \<times> jsstr) set \<Rightarrow> jsstr set \<Rightarrow> bool" where
  "black_ok E B \<longleftrightarrow> (\<forall>(a, b) \<in> E. a \<in> B \<longrightarrow> b \<in> B) \<and> (\<forall>a \<in> B. (a, a) \<notin> E\<^sup>+)"

definition dfs_inv :: "(jsstr \<times> jsstr) set \<Rightarrow> jsstr set \<Rightarrow> (jsstr \<Rightarrow> nat option) \<Rightarrow> jsstr set
    \<Rightarrow> (jsstr \<times> jsstr list) list \<Rightarrow> bool" where
  "dfs_inv E U color opn stack \<longleftrightarrow>
     stack_ok E stack \<and> distinct (map fst stack) \<and> set (map fst stack) \<subseteq> U \<and>
     black color \<inter> set (map fst stack) = {} \<and> black_ok E (black color) \<and> black color \<subseteq> U \<and>
     (\<forall>x. color x = Some 1 \<longleftrightarrow> x \<in> opn) \<and>
     (stack = [] \<longrightarrow> opn = {}) \<and>
     (\<forall>t r. stack = t # r \<longrightarrow>
        (color (fst t) = Some 0 \<and> opn = set (map fst r)) \<or>
        (color (fst t) = Some 1 \<and> opn = set (map fst stack)))"

definition dfs_work :: "jsstr set \<Rightarrow> (jsstr \<Rightarrow> nat option) \<Rightarrow> (jsstr \<times> jsstr list) list \<Rightarrow> nat" where
  "dfs_work U color stack = 2 * card (U - black color - set (map fst stack)) + length stack"

text \<open>Blackening a node whose dependencies are all black keeps the black set closed and acyclic.\<close>

lemma black_ok_insert:
  assumes B: "black_ok E B" and x: "x \<notin> B" and succ: "\<And>b. (x, b) \<in> E \<Longrightarrow> b \<in> B"
  shows "black_ok E (insert x B)"
proof -
  have closed: "(a, b) \<in> E\<^sup>+ \<Longrightarrow> a \<in> B \<Longrightarrow> b \<in> B" for a b
    by (induction rule: trancl_induct) (use B in \<open>auto simp: black_ok_def\<close>)
  have "(x, x) \<notin> E\<^sup>+"
  proof
    assume "(x, x) \<in> E\<^sup>+"
    then obtain b where "(x, b) \<in> E" "b = x \<or> (b, x) \<in> E\<^sup>+"
      by (metis tranclD rtranclD)
    with succ closed x show False by blast
  qed
  then show ?thesis using B succ unfolding black_ok_def by blast
qed

text \<open>Opening the top of the stack: what the colour map and the open set are after it.\<close>

lemma dfs_open_top:
  assumes "dfs_inv E U color opn ((tid, path) # rest)"
  defines "color1 \<equiv> (if color tid = Some 0 then color(tid \<mapsto> 1) else color)"
    and "opn1 \<equiv> (if color tid = Some 0 then insert tid opn else opn)"
  shows "opn1 = insert tid (set (map fst rest))" "black color1 = black color" "color1 tid = Some 1"
    "\<And>x. color1 x = Some 1 \<longleftrightarrow> x \<in> opn1"
  using assms by (auto simp: dfs_inv_def black_def)

lemma dfs_push:
  assumes inv: "dfs_inv E U color opn ((tid, path) # rest)"
    and edge: "(tid, nxt) \<in> E" and U: "nxt \<in> U" "finite U"
  defines "color1 \<equiv> (if color tid = Some 0 then color(tid \<mapsto> 1) else color)"
    and "opn1 \<equiv> (if color tid = Some 0 then insert tid opn else opn)"
  assumes new: "color1 nxt \<noteq> Some 2" "nxt \<notin> opn1"
  shows "dfs_inv E U (color1(nxt \<mapsto> 0)) opn1 ((nxt, path @ [nxt]) # (tid, path) # rest)"
    and "dfs_work U (color1(nxt \<mapsto> 0)) ((nxt, path @ [nxt]) # (tid, path) # rest)
         < dfs_work U color ((tid, path) # rest)"
    and "black (color1(nxt \<mapsto> 0)) = black color"
proof -
  note top = dfs_open_top [OF inv, folded color1_def opn1_def]
  have black: "black (color1(nxt \<mapsto> 0)) = black color"
    using top(2) new(1) by (auto simp: black_def)
  then show "black (color1(nxt \<mapsto> 0)) = black color" .
  have notin: "nxt \<notin> set (map fst ((tid, path) # rest))" using new(2) top(1) by auto
  have nb: "nxt \<notin> black color" using new(1) top(2) by (auto simp: black_def)
  show "dfs_inv E U (color1(nxt \<mapsto> 0)) opn1 ((nxt, path @ [nxt]) # (tid, path) # rest)"
    using inv edge U(1) notin nb top(1,4) new(2) unfolding dfs_inv_def black
    by (auto simp: fun_upd_def)
  have "card (U - black color - set (map fst ((nxt, path @ [nxt]) # (tid, path) # rest))) <
        card (U - black color - set (map fst ((tid, path) # rest)))"
    by (rule psubset_card_mono) (use U nb notin in auto)
  then show "dfs_work U (color1(nxt \<mapsto> 0)) ((nxt, path @ [nxt]) # (tid, path) # rest)
      < dfs_work U color ((tid, path) # rest)"
    unfolding dfs_work_def black by simp
qed

lemma dfs_pop:
  assumes inv: "dfs_inv E U color opn ((tid, path) # rest)"
  defines "color1 \<equiv> (if color tid = Some 0 then color(tid \<mapsto> 1) else color)"
    and "opn1 \<equiv> (if color tid = Some 0 then insert tid opn else opn)"
  assumes succ: "\<forall>b. (tid, b) \<in> E \<longrightarrow> color1 b = Some 2"
  shows "dfs_inv E U (color1(tid \<mapsto> 2)) (opn1 - {tid}) rest"
    and "dfs_work U (color1(tid \<mapsto> 2)) rest < dfs_work U color ((tid, path) # rest)"
    and "black (color1(tid \<mapsto> 2)) = insert tid (black color)"
proof -
  note top = dfs_open_top [OF inv, folded color1_def opn1_def]
  show black: "black (color1(tid \<mapsto> 2)) = insert tid (black color)"
    using top(2) by (auto simp: black_def)
  have nb: "tid \<notin> black color" using inv by (auto simp: dfs_inv_def)
  have bok: "black_ok E (insert tid (black color))"
  proof (rule black_ok_insert)
    show "black_ok E (black color)" using inv by (simp add: dfs_inv_def)
    show "b \<in> black color" if "(tid, b) \<in> E" for b
    proof -
      have "b \<in> black color1" using succ that by (simp add: black_def)
      then show ?thesis using top(2) by simp
    qed
  qed (rule nb)
  have dist: "tid \<notin> set (map fst rest)" using inv by (auto simp: dfs_inv_def)
  have opn: "opn1 - {tid} = set (map fst rest)" using top(1) dist by auto
  have one: "(color1(tid \<mapsto> 2)) x = Some 1 \<longleftrightarrow> x \<in> opn1 - {tid}" for x using top(4) by auto
  show "dfs_inv E U (color1(tid \<mapsto> 2)) (opn1 - {tid}) rest"
    unfolding dfs_inv_def black opn
  proof (intro conjI)
    show "stack_ok E rest" using inv stack_ok_tl [of E "(tid, path)" rest] by (simp add: dfs_inv_def)
    show "\<forall>x. (color1(tid \<mapsto> 2)) x = Some 1 \<longleftrightarrow> x \<in> set (map fst rest)" using one opn by blast
    show "\<forall>t r. rest = t # r \<longrightarrow> (color1(tid \<mapsto> 2)) (fst t) = Some 0 \<and> set (map fst rest) = set (map fst r) \<or>
        (color1(tid \<mapsto> 2)) (fst t) = Some 1 \<and> set (map fst rest) = set (map fst rest)"
      using one unfolding opn by auto
  qed (use inv bok in \<open>auto simp: dfs_inv_def\<close>)
  have "U - black (color1(tid \<mapsto> 2)) - set (map fst rest) = U - black color - set (map fst ((tid, path) # rest))"
    unfolding black by auto
  then show "dfs_work U (color1(tid \<mapsto> 2)) rest < dfs_work U color ((tid, path) # rest)"
    unfolding dfs_work_def by simp
qed

lemma dfs_back_edge:
  assumes inv: "dfs_inv E U color opn ((tid, path) # rest)"
    and edge: "(tid, tgt) \<in> E" and tgt: "tgt \<in> insert tid (set (map fst rest))"
  shows "closed_path E ((case js_indexOf path tgt of Some idx \<Rightarrow> drop idx path
                         | None \<Rightarrow> slice_last 1 path) @ [tgt])"
proof -
  from inv have "stack_ok E ((tid, path) # rest)" by (simp add: dfs_inv_def)
  from stack_ok_path [OF this]
  have path: "path = rev (tid # map fst rest)" and succ: "successively (\<lambda>a b. (a, b) \<in> E) path" by auto
  have "tgt \<in> set path" using tgt unfolding path by auto
  from js_indexOf_Some [OF this]
  obtain i where i: "i < length path" "js_indexOf path tgt = Some i" "path ! i = tgt" by (elim exE conjE)
  have "successively (\<lambda>a b. (a, b) \<in> E) (take i path @ drop i path)" using succ by (simp only: append_take_drop_id)
  then have s: "successively (\<lambda>a b. (a, b) \<in> E) (drop i path)"
    by (simp only: successively_append_iff)
  have "last path = tid" unfolding path by simp
  then have "last (drop i path) = tid" using i(1) by simp
  with s edge i have "successively (\<lambda>a b. (a, b) \<in> E) (drop i path @ [tgt])"
    by (simp add: successively_append_iff)
  moreover have "hd (drop i path) = tgt" using i by (simp add: hd_drop_conv_nth)
  moreover have "drop i path \<noteq> []" using i by simp
  ultimately show ?thesis using i(1)
    by (auto simp: closed_path_def i(2) Suc_le_eq)
qed


section \<open>The loop and the search\<close>

definition dfs_result_ok :: "(jsstr \<times> jsstr) set \<Rightarrow> jsstr set \<Rightarrow> jsstr set \<Rightarrow> dfs_outcome \<Rightarrow> bool" where
  "dfs_result_ok E U B r =
     (case r of OutOfFuel \<Rightarrow> False
      | FoundCycle p \<Rightarrow> closed_path E p
      | AllBlack color \<Rightarrow> dfs_inv E U color {} [] \<and> B \<subseteq> black color)"

lemma dfs_result_mono: "dfs_result_ok E U B r \<Longrightarrow> B' \<subseteq> B \<Longrightarrow> dfs_result_ok E U B' r"
  by (cases r) (auto simp: dfs_result_ok_def)

text \<open>With enough fuel the loop ends with a closed path or with everything on the stack blackened.\<close>

lemma dfs_loop_ok:
  assumes "dfs_inv (edges node) U color opn stack" "finite U"
    and "\<And>a b. (a, b) \<in> edges node \<Longrightarrow> b \<in> U"
    and "\<And>a s. node a = Some s \<Longrightarrow> [] \<notin> set (dependsOn s)"
    and "dfs_work U color stack \<le> fuel"
  shows "dfs_result_ok (edges node) U (black color \<union> set (map fst stack)) (dfs_loop fuel node color opn stack)"
  using assms(1,5)
proof (induction fuel arbitrary: color opn stack)
  case 0
  then have "stack = []" by (simp add: dfs_work_def)
  with 0 show ?case by (auto simp: dfs_result_ok_def dfs_inv_def)
next
  case (Suc fuel)
  show ?case
  proof (cases stack)
    case Nil
    with Suc show ?thesis by (auto simp: dfs_result_ok_def dfs_inv_def)
  next
    case (Cons top rest)
    obtain tid path where stack: "stack = (tid, path) # rest" using Cons by (cases top) simp
    note inv = Suc.prems(1) [unfolded stack]
    define color1 where "color1 = (if color tid = Some 0 then color(tid \<mapsto> 1) else color)"
    define opn1 where "opn1 = (if color tid = Some 0 then insert tid opn else opn)"
    define deps where "deps = (case node tid of None \<Rightarrow> [] | Some s \<Rightarrow> dependsOn s)"
    note top = dfs_open_top [OF inv, folded color1_def opn1_def]
    have edge: "(tid, b) \<in> edges node \<longleftrightarrow> b \<in> set deps" for b
      by (cases "node tid") (auto simp: edges_def deps_def)
    have nb: "[] \<notin> set deps" using assms(4) by (auto simp: deps_def split: option.splits)
    have step: "dfs_loop (Suc fuel) node color opn stack =
        (case js_find (\<lambda>d. color1 d \<noteq> Some 2 \<and> d \<notin> opn1) deps of
           Some nxt \<Rightarrow> dfs_loop fuel node (color1(nxt \<mapsto> 0)) opn1 ((nxt, path @ [nxt]) # (tid, path) # rest)
         | None \<Rightarrow> (case js_find (\<lambda>d. d \<in> opn1) deps of
              Some tgt \<Rightarrow> FoundCycle ((case js_indexOf path tgt of Some idx \<Rightarrow> drop idx path
                    | None \<Rightarrow> slice_last 1 path) @ [tgt])
            | None \<Rightarrow> dfs_loop fuel node (color1(tid \<mapsto> 2)) (opn1 - {tid}) rest))"
      by (simp only: stack dfs_loop.simps Let_def color1_def opn1_def deps_def)
    show ?thesis
    proof (cases "js_find (\<lambda>d. color1 d \<noteq> Some 2 \<and> d \<notin> opn1) deps")
      case (Some nxt)
      from js_find_Some [OF this] have new: "nxt \<in> set deps" "color1 nxt \<noteq> Some 2" "nxt \<notin> opn1" by auto
      note push = dfs_push [OF inv, of nxt, folded color1_def opn1_def, OF _ _ assms(2) new(2,3)]
      have e: "(tid, nxt) \<in> edges node" and u: "nxt \<in> U" using edge new(1) assms(3) by blast+
      have "dfs_work U (color1(nxt \<mapsto> 0)) ((nxt, path @ [nxt]) # (tid, path) # rest) \<le> fuel"
        using push(2) [OF e u] Suc.prems(2) stack by simp
      from Suc.IH [OF push(1) [OF e u] this] show ?thesis
        unfolding step unfolding Some push(3) [OF e u] option.case stack by (rule dfs_result_mono) auto
    next
      case None
      show ?thesis
      proof (cases "js_find (\<lambda>d. d \<in> opn1) deps")
        case (Some tgt)
        from js_find_Some [OF this] have "(tid, tgt) \<in> edges node" "tgt \<in> insert tid (set (map fst rest))"
          using edge top(1) by auto
        from dfs_back_edge [OF inv this] show ?thesis
          using None Some unfolding step by (simp add: dfs_result_ok_def)
      next
        case no_back: None
        have succ: "\<forall>b. (tid, b) \<in> edges node \<longrightarrow> color1 b = Some 2"
          using edge None no_back by (auto simp: js_find_None [OF nb])
        note pop = dfs_pop [OF inv, folded color1_def opn1_def, OF succ]
        have "dfs_work U (color1(tid \<mapsto> 2)) rest \<le> fuel" using pop(2) Suc.prems(2) stack by simp
        from Suc.IH [OF pop(1) this] show ?thesis
          unfolding step unfolding None no_back pop(3) option.case stack by (rule dfs_result_mono) auto
      qed
    qed
  qed
qed

text \<open>A coloured node stays coloured.\<close>

definition coloured :: "(jsstr \<Rightarrow> nat option) \<Rightarrow> jsstr \<Rightarrow> bool" where
  "coloured color k \<longleftrightarrow> color k = Some 0 \<or> color k = Some 1 \<or> color k = Some 2"

lemma coloured_upd: "coloured color k \<Longrightarrow> c \<in> {0, 1, 2} \<Longrightarrow> coloured (color(x \<mapsto> c)) k"
  by (auto simp: coloured_def)

lemma dfs_loop_coloured:
  "dfs_loop fuel node color opn stack = AllBlack color' \<Longrightarrow> coloured color k \<Longrightarrow> coloured color' k"
proof (induction fuel node color opn stack rule: dfs_loop.induct)
  case (3 fuel node color opn tid path rest)
  define color1 where "color1 = (if color tid = Some 0 then color(tid \<mapsto> 1) else color)"
  define opn1 where "opn1 = (if color tid = Some 0 then insert tid opn else opn)"
  define deps where "deps = (case node tid of None \<Rightarrow> [] | Some s \<Rightarrow> dependsOn s)"
  have "coloured color1 k" using "3.prems"(2) by (simp add: color1_def coloured_upd)
  then have c: "coloured (color1(x \<mapsto> 0)) k" "coloured (color1(x \<mapsto> 2)) k" for x
    by (simp_all add: coloured_upd del: fun_upd_apply)
  note IH = "3.IH" [OF color1_def opn1_def deps_def]
  note run = "3.prems"(1) [unfolded dfs_loop.simps Let_def, folded color1_def opn1_def deps_def]
  show ?case
  proof (cases "js_find (\<lambda>d. color1 d \<noteq> Some 2 \<and> d \<notin> opn1) deps")
    case (Some nxt)
    then show ?thesis using IH(2) [OF Some] run c(1) by (simp del: fun_upd_apply)
  next
    case None
    show ?thesis
    proof (cases "js_find (\<lambda>d. d \<in> opn1) deps")
      case no_back: None
      then show ?thesis using IH(1) [OF None no_back] run c(2) None by (simp del: fun_upd_apply)
    qed (use run None in simp)
  qed
qed simp_all

text \<open>Between two start nodes nothing is gray, and a declared node is white or black.\<close>

lemma findCycle_from_ok:
  assumes "finite U" "\<And>a b. (a, b) \<in> edges node \<Longrightarrow> b \<in> U"
    and "\<And>a s. node a = Some s \<Longrightarrow> [] \<notin> set (dependsOn s)"
    and "2 * card U \<le> fuel" and "step_id ` set starts \<subseteq> U"
    and "dfs_inv (edges node) U color {} []" and "\<And>s. s \<in> set starts \<Longrightarrow> coloured color (step_id s)"
  shows "dfs_result_ok (edges node) U (black color \<union> step_id ` set starts)
    (findCycle_from fuel node color starts)"
  using assms(5-7)
proof (induction starts arbitrary: color)
  case Nil
  then show ?case by (simp add: dfs_result_ok_def)
next
  case (Cons s starts)
  let ?k = "step_id s"
  show ?case
  proof (cases "color ?k = Some 0")
    case False
    then have "?k \<in> black color"
      using Cons.prems(2) Cons.prems(3) [of s] by (auto simp: coloured_def black_def dfs_inv_def)
    then show ?thesis using Cons.IH [of color] Cons.prems False by (simp add: insert_absorb)
  next
    case True
    have inv: "dfs_inv (edges node) U color {} [(?k, [?k])]"
      using Cons.prems True by (auto simp: dfs_inv_def black_def)
    have "dfs_work U color [(?k, [?k])] \<le> fuel"
    proof -
      have "?k \<in> U" using Cons.prems by simp
      then have "card (U - black color - {?k}) < card U"
        by (intro psubset_card_mono assms) auto
      then show ?thesis using assms(4) by (simp add: dfs_work_def)
    qed
    note r = dfs_loop_ok [OF inv assms(1) assms(2) assms(3) this]
    show ?thesis
    proof (cases "dfs_loop fuel node color {} [(?k, [?k])]")
      case (AllBlack color')
      with r have c': "dfs_inv (edges node) U color' {} []" "black color \<union> {?k} \<subseteq> black color'"
        by (auto simp: dfs_result_ok_def)
      have "dfs_result_ok (edges node) U (black color' \<union> step_id ` set starts)
          (findCycle_from fuel node color' starts)"
        by (rule Cons.IH) (use Cons.prems c' dfs_loop_coloured [OF AllBlack] in auto)
      then show ?thesis using True AllBlack c'
        by (auto simp: dfs_result_ok_def split: dfs_outcome.splits)
    qed (use r True in \<open>auto simp: dfs_result_ok_def\<close>)
  qed
qed

lemma findCycle_run_ok:
  assumes "no_blank_deps steps"
  shows "dfs_result_ok (dep_rel steps) (nodes steps) (set (map step_id steps)) (findCycle_run steps)"
proof -
  let ?color = "\<lambda>k. if k \<in> set (map step_id steps) then Some (0::nat) else None"
  have black: "black ?color = {}" by (auto simp: black_def)
  have start: "dfs_inv (edges (byId steps)) (nodes steps) ?color {} []"
    unfolding dfs_inv_def black by (auto simp: black_ok_def)
  have "dfs_result_ok (edges (byId steps)) (nodes steps) (black ?color \<union> step_id ` set steps)
      (findCycle_from (dfs_fuel steps) (byId steps) ?color steps)"
  proof (rule findCycle_from_ok)
    show "2 * card (nodes steps) \<le> dfs_fuel steps"
      using card_nodes [of steps] by (simp add: dfs_fuel_def)
    show "\<And>a b. (a, b) \<in> edges (byId steps) \<Longrightarrow> b \<in> nodes steps"
      using dep_rel_nodes by (simp add: dep_rel_def)
    show "\<And>a s. byId steps a = Some s \<Longrightarrow> [] \<notin> set (dependsOn s)"
      using assms byId_Some_in by (auto simp: no_blank_deps_def)
    show "dfs_inv (edges (byId steps)) (nodes steps) ?color {} []"
      by (rule start)
  qed (auto simp: finite_nodes nodes_def coloured_def)
  then show ?thesis unfolding black by (simp add: findCycle_run_def dep_rel_def)
qed

text \<open>The search never runs out of fuel, so \<open>None\<close> always means acyclic.\<close>

lemma findCycle_terminates: "no_blank_deps steps \<Longrightarrow> findCycle_run steps \<noteq> OutOfFuel"
  using findCycle_run_ok [of steps] by (auto simp: dfs_result_ok_def)

lemma findCycle_Some: "no_blank_deps steps \<Longrightarrow> findCycle steps = Some p \<Longrightarrow> closed_path (dep_rel steps) p"
  using findCycle_run_ok [of steps]
  by (auto simp: dfs_result_ok_def findCycle_def split: dfs_outcome.splits)

lemma findCycle_None: "no_blank_deps steps \<Longrightarrow> findCycle steps = None \<Longrightarrow> acyclic (dep_rel steps)"
proof -
  assume nb: "no_blank_deps steps" and none: "findCycle steps = None"
  with findCycle_terminates obtain color where run: "findCycle_run steps = AllBlack color"
    by (cases "findCycle_run steps") (auto simp: findCycle_def)
  with findCycle_run_ok [OF nb] have inv: "dfs_inv (dep_rel steps) (nodes steps) color {} []"
    and ids: "set (map step_id steps) \<subseteq> black color" by (auto simp: dfs_result_ok_def)
  show "acyclic (dep_rel steps)"
    unfolding acyclic_def
  proof (intro allI notI)
    fix x assume x: "(x, x) \<in> (dep_rel steps)\<^sup>+"
    then obtain y where "(x, y) \<in> dep_rel steps" by (metis tranclD)
    then have "x \<in> black color" using dep_rel_nodes ids by blast
    with inv x show False by (auto simp: dfs_inv_def black_ok_def)
  qed
qed

lemma findCycle_iff: "no_blank_deps steps \<Longrightarrow> findCycle steps = None \<longleftrightarrow> acyclic (dep_rel steps)"
  using findCycle_None findCycle_Some closed_path_cyclic by (cases "findCycle steps") blast+


section \<open>Topological order\<close>

text \<open>Every step comes after the steps it depends on.\<close>

definition deps_before :: "plan_step list \<Rightarrow> bool" where
  "deps_before ss \<longleftrightarrow> (\<forall>i < length ss. set (dependsOn (ss ! i)) \<subseteq> step_id ` set (take i ss))"

lemma deps_before_snoc:
  "deps_before (ss @ [s]) \<longleftrightarrow> deps_before ss \<and> set (dependsOn s) \<subseteq> step_id ` set ss"
  by (auto simp: deps_before_def nth_append less_Suc_eq)

definition topo_inv :: "plan_step list \<Rightarrow> plan_step list \<Rightarrow> jsstr set \<Rightarrow> bool" where
  "topo_inv steps order placed \<longleftrightarrow>
     placed = step_id ` set order \<and> set order \<subseteq> set steps \<and> distinct (map step_id order) \<and> deps_before order"

lemma topo_pass_inv:
  "topo_inv steps order placed \<Longrightarrow> set ss \<subseteq> set steps \<Longrightarrow>
     topo_pass ss order placed p = (order', placed', p') \<Longrightarrow> topo_inv steps order' placed' \<and> placed \<subseteq> placed'"
proof (induction ss order placed p rule: topo_pass.induct)
  case (1 order placed p)
  then show ?case by simp
next
  case (2 s ss order placed p)
  have "topo_inv steps (order @ [s]) (insert (step_id s) placed)"
    if "step_id s \<notin> placed" "list_all (\<lambda>d. d \<in> placed) (dependsOn s)"
    using that "2.prems" by (auto simp: topo_inv_def deps_before_snoc list_all_iff)
  then show ?case using 2 by (fastforce split: if_splits)
qed

lemma topo_pass_progressed: "topo_pass ss order placed True = (order', placed', q) \<Longrightarrow> q"
  by (induction ss order placed True rule: topo_pass.induct) (auto split: if_splits)

text \<open>A sweep that places nothing found no ready step.\<close>

lemma topo_pass_stuck:
  "topo_pass ss order placed p = (order', placed', False) \<Longrightarrow>
     s \<in> set ss \<Longrightarrow> step_id s \<notin> placed \<Longrightarrow> \<not> set (dependsOn s) \<subseteq> placed"
proof (induction ss order placed p rule: topo_pass.induct)
  case (1 order placed p)
  then show ?case by simp
next
  case (2 t ss order placed p)
  show ?case
  proof (cases "step_id t \<notin> placed \<and> list_all (\<lambda>d. d \<in> placed) (dependsOn t)")
    case True
    with "2.prems"(1) show ?thesis by (auto dest: topo_pass_progressed)
  next
    case False
    then show ?thesis using 2 by (auto simp: list_all_iff split: if_splits)
  qed
qed

lemma topo_pass_nothing:
  "topo_pass ss order placed False = (order', placed', False) \<Longrightarrow> order' = order \<and> placed' = placed"
  by (induction ss order placed False rule: topo_pass.induct)
     (auto split: if_splits dest: topo_pass_progressed)

lemma topo_loop_ok:
  assumes "topo_inv steps order placed" "distinct (map step_id steps)"
    and "topo_loop steps order placed = (order', placed')"
  shows "topo_inv steps order' placed' \<and>
    (length order' < length steps \<longrightarrow>
       (\<forall>s \<in> set steps. step_id s \<notin> placed' \<longrightarrow> \<not> set (dependsOn s) \<subseteq> placed'))"
  using assms
proof (induction steps order placed rule: topo_loop.induct)
  case (1 steps order placed)
  show ?case
  proof (cases "length order < length steps")
    case False
    with "1.prems" show ?thesis by (simp add: topo_loop.simps [of steps order placed])
  next
    case True
    obtain o1 p1 q where pass: "topo_pass steps order placed False = (o1, p1, q)" by (cases "topo_pass steps order placed False")
    have inv1: "topo_inv steps o1 p1" "placed \<subseteq> p1"
      using topo_pass_inv [OF "1.prems"(1) order_refl pass] by auto
    show ?thesis
    proof (cases q)
      case True
      have "topo_loop steps o1 p1 = (order', placed')"
        using "1.prems"(3) \<open>length order < length steps\<close> pass True by (simp add: topo_loop.simps [of steps order placed])
      then show ?thesis
        using "1.IH" [OF \<open>length order < length steps\<close> pass [symmetric] refl True inv1(1) "1.prems"(2)] by simp
    next
      case False
      then have r: "order' = o1" "placed' = p1"
        using "1.prems"(3) \<open>length order < length steps\<close> pass by (simp_all add: topo_loop.simps [of steps order placed])
      have stop: "topo_pass steps order placed False = (o1, p1, False)" using pass False by simp
      show ?thesis
        using topo_pass_stuck [OF stop] topo_pass_nothing [OF stop] inv1 r by auto
    qed
  qed
qed
text \<open>Permutation, whatever the graph; topological when it is a closed DAG.\<close>

lemma topoOrder_perm:
  assumes "distinct (map step_id steps)"
  shows "mset (topoOrder steps) = mset steps"
proof -
  obtain order placed where loop: "topo_loop steps [] {} = (order, placed)" by fastforce
  have "topo_inv steps [] {}" by (simp add: topo_inv_def deps_before_def)
  from topo_loop_ok [OF this assms loop] have inv: "topo_inv steps order placed" by blast
  let ?rest = "filter (\<lambda>s. step_id s \<notin> placed) steps"
  have sub: "set order \<subseteq> set steps" "placed = step_id ` set order" "distinct order"
    using inv by (auto simp: topo_inv_def distinct_map)
  have inj: "inj_on step_id (set steps)" "distinct steps" using assms by (auto simp: distinct_map)
  have "set (order @ ?rest) = set steps"
    using sub inj by (auto simp: inj_on_def)
  moreover have "distinct (order @ ?rest)" using sub inj by auto
  ultimately show ?thesis using inj(2) loop
    by (simp add: topoOrder_def set_eq_iff_mset_eq_distinct [symmetric] del: mset_append)
qed

lemma topoOrder_sorted:
  assumes "distinct (map step_id steps)" and "acyclic (dep_rel steps)"
    and closed: "\<And>s. s \<in> set steps \<Longrightarrow> set (dependsOn s) \<subseteq> step_id ` set steps"
  shows "deps_before (topoOrder steps)"
proof -
  obtain order placed where loop: "topo_loop steps [] {} = (order, placed)" by fastforce
  have "topo_inv steps [] {}" by (simp add: topo_inv_def deps_before_def)
  from topo_loop_ok [OF this assms(1) loop] have inv: "topo_inv steps order placed"
    and stuck: "length order < length steps \<Longrightarrow>
      s \<in> set steps \<Longrightarrow> step_id s \<notin> placed \<Longrightarrow> \<not> set (dependsOn s) \<subseteq> placed" for s by blast+
  have all: "step_id ` set steps \<subseteq> placed"
  proof (rule ccontr)
    define R where "R = step_id ` set steps - placed"
    assume "\<not> ?thesis"
    then obtain x where "x \<in> R" by (auto simp: R_def)
    have "\<not> length steps \<le> length order"
    proof
      assume "length steps \<le> length order"
      moreover have "distinct order" "set order \<subseteq> set steps" "placed = step_id ` set order"
        using inv by (auto simp: topo_inv_def distinct_map)
      moreover have "distinct steps" using assms(1) by (simp add: distinct_map)
      ultimately have "set order = set steps"
        by (metis card_subset_eq card_mono distinct_card finite_set le_antisym)
      with \<open>placed = step_id ` set order\<close> \<open>x \<in> R\<close> show False by (simp add: R_def)
    qed
    moreover have "wf ((dep_rel steps)\<inverse>)"
      using finite_dep_rel assms(2) by (rule finite_acyclic_wf_converse)
    then obtain z where z: "z \<in> R" "\<And>y. (y, z) \<in> (dep_rel steps)\<inverse> \<Longrightarrow> y \<notin> R"
      using \<open>x \<in> R\<close> by (rule wfE_min) blast
    from z(1) obtain s where s: "s \<in> set steps" "step_id s = z" "z \<notin> placed" by (auto simp: R_def)
    ultimately obtain d where d: "d \<in> set (dependsOn s)" "d \<notin> placed" using stuck [of s] by auto
    then have "d \<in> R" using closed s(1) by (auto simp: R_def)
    moreover have "(z, d) \<in> dep_rel steps" using s d dep_rel_distinct [OF assms(1)] by blast
    ultimately show False using z(2) by blast
  qed
  then have "filter (\<lambda>s. step_id s \<notin> placed) steps = []" by (auto simp: filter_empty_conv)
  then show ?thesis using loop inv by (simp add: topoOrder_def topo_inv_def)
qed


section \<open>What validation accepts\<close>

definition wf_text :: "nat \<Rightarrow> jsstr \<Rightarrow> bool" where
  "wf_text mx s \<longleftrightarrow> s \<noteq> [] \<and> trimmed s \<and> length s \<le> mx"

definition wf_opt :: "nat \<Rightarrow> jsstr option \<Rightarrow> bool" where
  "wf_opt mx x \<longleftrightarrow> (\<forall>s. x = Some s \<longrightarrow> wf_text mx s)"

text \<open>A step in normal form: every field trimmed, non-blank and within its cap.\<close>

definition wf_step :: "plan_step \<Rightarrow> bool" where
  "wf_step s \<longleftrightarrow>
     wf_text STEP_ID_MAX (step_id s) \<and> wf_text INTENT_MAX (intent s) \<and>
     (\<forall>d \<in> set (dependsOn s). d \<noteq> [] \<and> trimmed d) \<and>
     wf_opt ARTIFACT_MAX (producesArtifact s) \<and> wf_opt VERIFY_MAX (verifyCmd s) \<and>
     wf_opt VERIFY_MAX (verifyDescription s)"

text \<open>A legal plan: a non-empty, bounded, closed DAG of steps in normal form with distinct ids.\<close>

definition wf_plan :: "plan_step list \<Rightarrow> bool" where
  "wf_plan steps \<longleftrightarrow>
     steps \<noteq> [] \<and> length steps \<le> MAX_PLAN_STEPS \<and> (\<forall>s \<in> set steps. wf_step s) \<and>
     distinct (map step_id steps) \<and>
     (\<forall>s \<in> set steps. set (dependsOn s) \<subseteq> step_id ` set steps) \<and> acyclic (dep_rel steps)"

lemma wf_plan_no_blank: "wf_plan steps \<Longrightarrow> no_blank_deps steps"
  by (auto simp: wf_plan_def no_blank_deps_def wf_step_def)

lemma wf_text_clamp: "1 < mx \<Longrightarrow> trim s \<noteq> [] \<Longrightarrow> wf_text mx (clamp mx s)"
  by (simp add: wf_text_def clamp_Nil_iff trimmed_clamp length_clamp)

lemma wf_opt_clamp: "1 < mx \<Longrightarrow> wf_opt mx (clamp_opt mx x)"
  by (auto simp: wf_opt_def clamp_opt_def wf_text_clamp split: option.splits if_splits)

lemma clamp_opt_wf: "wf_opt mx x \<Longrightarrow> clamp_opt mx x = x"
  by (auto simp: wf_opt_def clamp_opt_def wf_text_def clamp_id trim_trimmed split: option.splits)

lemma trimmed_trimmed_or_empty: "trimmed (trimmed_or_empty x)"
  by (simp add: trimmed_or_empty_def trimmed_def [of "[]"] split: option.split)

lemma wf_normalizeStep:
  assumes "sid \<noteq> []" "trimmed sid" "length sid \<le> STEP_ID_MAX" "itt \<noteq> []" "trimmed itt"
  shows "wf_step (normalizeStep sid itt raw)"
  using assms
  by (auto simp: wf_step_def normalizeStep_def wf_opt_clamp plan_limits wf_text_clamp trim_trimmed
      wf_text_def [of _ sid] split: option.splits)

lemma normalizeSteps_ok:
  "normalizeSteps ids raw = Inr steps \<Longrightarrow>
     length steps = length raw \<and> (\<forall>s \<in> set steps. wf_step s) \<and> distinct (map step_id steps) \<and>
     step_id ` set steps \<inter> ids = {}"
proof (induction ids raw arbitrary: steps rule: normalizeSteps.induct)
  case (1 ids)
  then show ?case by simp
next
  case (2 ids raw rest)
  let ?sid = "trimmed_or_empty (in_id raw)" and ?itt = "trimmed_or_empty (in_intent raw)"
  from "2.prems" obtain ss where ok: "?sid \<noteq> []" "length ?sid \<le> STEP_ID_MAX" "?sid \<notin> ids" "?itt \<noteq> []"
    and ss: "normalizeSteps (insert ?sid ids) rest = Inr ss" "steps = normalizeStep ?sid ?itt raw # ss"
    by (auto simp: Let_def split: if_splits sum.splits)
  have "wf_step (normalizeStep ?sid ?itt raw)"
    using ok by (intro wf_normalizeStep trimmed_trimmed_or_empty) auto
  moreover have "step_id (normalizeStep ?sid ?itt raw) = ?sid" by (simp add: normalizeStep_def)
  moreover note "2.IH" [OF refl refl _ _ _ _ ss(1)]
  ultimately show ?case using ok ss(2) by auto
qed

lemma checkDeps_None: "checkDeps ids sid deps = None \<longleftrightarrow> set deps \<subseteq> ids \<and> sid \<notin> set deps"
  by (induction ids sid deps rule: checkDeps.induct) auto

lemma checkEdges_None:
  "checkEdges ids ss = None \<longleftrightarrow> (\<forall>s \<in> set ss. set (dependsOn s) \<subseteq> ids \<and> step_id s \<notin> set (dependsOn s))"
proof (induction ids ss rule: checkEdges.induct)
  case (2 ids s ss)
  then show ?case
    by (cases "checkDeps ids (step_id s) (dependsOn s)")
       (use checkDeps_None [of ids "step_id s" "dependsOn s"] in auto)
qed simp

lemma validateSteps_wf: "validateSteps raw = Inr steps \<Longrightarrow> wf_plan steps \<and> length steps = length raw"
proof -
  assume v: "validateSteps raw = Inr steps"
  then have raw: "raw \<noteq> []" "length raw \<le> MAX_PLAN_STEPS" and n: "normalizeSteps {} raw = Inr steps"
    and e: "checkEdges (set (map step_id steps)) steps = None" and c: "findCycle steps = None"
    by (auto simp: validateSteps_def split: if_splits sum.splits option.splits)
  note ok = normalizeSteps_ok [OF n]
  then have "no_blank_deps steps" by (auto simp: no_blank_deps_def wf_step_def)
  with c have "acyclic (dep_rel steps)" by (rule findCycle_None [rotated])
  then show ?thesis using ok raw e by (auto simp: wf_plan_def checkEdges_None)
qed

text \<open>A normal-form step, read tgt as an input (what a persisted plan is re-validated from).\<close>

definition as_input :: "plan_step \<Rightarrow> plan_step_input" where
  "as_input s =
     \<lparr> in_id = Some (step_id s), in_intent = Some (intent s), in_dependsOn = Some (dependsOn s),
       in_producesArtifact = producesArtifact s, in_verifyCmd = verifyCmd s,
       in_verifyDescription = verifyDescription s,
       in_mechanical = (if mechanical s then Some True else None), in_status = Some (status_name (status s)) \<rparr>"

lemma status_name_inj: "status_name p = status_name q \<longleftrightarrow> p = q"
  by (cases p; cases q) (simp_all add: js_def)

lemma status_or_pending_name: "status_or_pending (Some (status_name p)) = p"
  by (cases p) (simp_all add: status_or_pending_def PLAN_STEP_STATUSES_def status_name_inj del: status_name.simps)

lemma normalizeStep_as_input:
  "wf_step s \<Longrightarrow> normalizeStep (step_id s) (intent s) (as_input s) = s"
proof -
  assume s: "wf_step s"
  have "filter (\<lambda>d. d \<noteq> []) (map trim (dependsOn s)) = dependsOn s"
  proof -
    have "map trim (dependsOn s) = dependsOn s" using s by (intro map_idI) (auto simp: wf_step_def trim_trimmed)
    then show ?thesis using s by (auto simp: wf_step_def filter_id_conv)
  qed
  with s show ?thesis
    by (simp add: normalizeStep_def as_input_def wf_step_def clamp_opt_wf wf_text_def clamp_id
        status_or_pending_name)
qed

lemma normalizeSteps_as_input:
  "(\<forall>s \<in> set steps. wf_step s) \<Longrightarrow> distinct (map step_id steps) \<Longrightarrow> step_id ` set steps \<inter> ids = {} \<Longrightarrow>
     normalizeSteps ids (map as_input steps) = Inr steps"
proof (induction steps arbitrary: ids)
  case Nil
  then show ?case by simp
next
  case (Cons s steps)
  then have s: "wf_step s" by simp
  then have f: "trimmed_or_empty (in_id (as_input s)) = step_id s" "step_id s \<noteq> []"
    "length (step_id s) \<le> STEP_ID_MAX" "trimmed_or_empty (in_intent (as_input s)) = intent s" "intent s \<noteq> []"
    by (auto simp: wf_step_def wf_text_def trimmed_or_empty_def as_input_def trim_trimmed)
  have "normalizeSteps (insert (step_id s) ids) (map as_input steps) = Inr steps"
    using Cons.prems by (intro Cons.IH) auto
  then show ?case using f Cons.prems normalizeStep_as_input [OF s] by (simp add: Let_def)
qed

lemma acyclic_no_self:
  "distinct (map step_id steps) \<Longrightarrow> acyclic (dep_rel steps) \<Longrightarrow> s \<in> set steps \<Longrightarrow> step_id s \<notin> set (dependsOn s)"
  using dep_rel_distinct [of steps "step_id s" "step_id s"] by (auto simp: acyclic_def)

lemma validateSteps_as_input: "wf_plan steps \<Longrightarrow> validateSteps (map as_input steps) = Inr steps"
proof -
  assume w: "wf_plan steps"
  then have "normalizeSteps {} (map as_input steps) = Inr steps"
    by (intro normalizeSteps_as_input) (auto simp: wf_plan_def)
  moreover have "checkEdges (set (map step_id steps)) steps = None"
    using w acyclic_no_self by (auto simp: wf_plan_def checkEdges_None)
  moreover have "findCycle steps = None"
    using findCycle_iff [OF wf_plan_no_blank [OF w]] w by (simp add: wf_plan_def)
  ultimately show ?thesis using w by (simp add: validateSteps_def wf_plan_def)
qed

section \<open>Properties\<close>

text \<open>C31: \<open>validateSteps\<close> accepts exactly the legal plans. What it returns, for any input, is a
  non-empty bounded DAG of trimmed, clipped steps with distinct ids whose dependencies all exist,
  with the caller's ids in the caller's order; and every such plan is accepted as it stands.\<close>

theorem validateSteps_exact:
  "(\<exists>raw. validateSteps raw = Inr steps \<and> map step_id steps = map (\<lambda>r. trimmed_or_empty (in_id r)) raw)
     \<longleftrightarrow> wf_plan steps"
proof
  assume "\<exists>raw. validateSteps raw = Inr steps \<and> map step_id steps = map (\<lambda>r. trimmed_or_empty (in_id r)) raw"
  then show "wf_plan steps" using validateSteps_wf by blast
next
  assume w: "wf_plan steps"
  then have "map step_id steps = map (\<lambda>r. trimmed_or_empty (in_id r)) (map as_input steps)"
    by (auto simp: as_input_def trimmed_or_empty_def wf_plan_def wf_step_def wf_text_def trim_trimmed)
  with validateSteps_as_input [OF w]
  show "\<exists>raw. validateSteps raw = Inr steps \<and> map step_id steps = map (\<lambda>r. trimmed_or_empty (in_id r)) raw"
    by blast
qed

text \<open>\<open>findCycle\<close> decides acyclicity. The iterative search over the explicit stack always ends
  within its bound; \<open>undefined\<close> means that the dependency graph has no cycle, and a returned path
  is a closed walk along real dependencies.\<close>

theorem findCycle_decides:
  assumes "no_blank_deps steps"
  shows "findCycle_run steps \<noteq> OutOfFuel \<and> (findCycle steps = None \<longleftrightarrow> acyclic (dep_rel steps)) \<and>
    (\<forall>p. findCycle steps = Some p \<longrightarrow> closed_path (dep_rel steps) p)"
  using assms findCycle_terminates findCycle_iff findCycle_Some by blast

definition sample_step :: "jsstr \<Rightarrow> jsstr list \<Rightarrow> plan_step" where
  "sample_step sid deps =
     \<lparr> step_id = sid, intent = js ''go'', dependsOn = deps, producesArtifact = None, verifyCmd = None,
       verifyDescription = None, mechanical = False, status = PlanPending \<rparr>"

theorem findCycle_decides_witness:
  "closed_path (dep_rel [sample_step [97] [[98]], sample_step [98] [[97]]]) [[97], [98], [97]]"
proof -
  let ?g = "[sample_step [97] [[98]], sample_step [98] [[97]]]"
  have "no_blank_deps ?g" by (simp add: no_blank_deps_def sample_step_def)
  moreover have "findCycle ?g = Some [[97], [98], [97]]" by code_simp
  ultimately show ?thesis using findCycle_decides [of ?g] by blast
qed

text \<open>Kahn's algorithm as written (repeated sweeps in declaration order) returns a permutation of
  a legal plan in which every step comes after all its dependencies; its fallback tail is never
  needed.\<close>

theorem topoOrder_topological:
  assumes "wf_plan steps"
  shows "mset (topoOrder steps) = mset steps \<and> deps_before (topoOrder steps)"
  using assms topoOrder_perm topoOrder_sorted by (simp add: wf_plan_def)

lemma sample_plan: "validateSteps (map as_input [sample_step [97] [[98]], sample_step [98] []])
    = Inr [sample_step [97] [[98]], sample_step [98] []]"
  by code_simp

theorem topoOrder_topological_witness:
  "topoOrder [sample_step [97] [[98]], sample_step [98] []] = [sample_step [98] [], sample_step [97] [[98]]] \<and>
   deps_before (topoOrder [sample_step [97] [[98]], sample_step [98] []])"
proof -
  have "wf_plan [sample_step [97] [[98]], sample_step [98] []]" using validateSteps_wf [OF sample_plan] by simp
  from topoOrder_topological [OF this]
  have "deps_before (topoOrder [sample_step [97] [[98]], sample_step [98] []])" by (rule conjunct2)
  moreover have "topoOrder [sample_step [97] [[98]], sample_step [98] []] = [sample_step [98] [], sample_step [97] [[98]]]"
    by code_simp
  ultimately show ?thesis by simp
qed

end
