(* ===== verification/PlanManager.thy ===== *)
theory PlanManager
  imports PlanDag
begin

text \<open>
  The plan manager (core/plan/plan-manager.ts, class PlanManager): its state, every operation, the
  renderers and the persistence. The lemmas show that whatever sequence of operations runs, every
  stored version is a legal plan; that \<open>archived\<close> means complete; that \<open>stepDone\<close> follows the
  dependencies and an unfinished plan always has a step to start; that persistence loses nothing;
  and that the injected prompt section is bounded.
\<close>


section \<open>State\<close>

record plan_version =
  pv_version :: int
  pv_steps :: "plan_step list"
  pv_brief :: "jsstr option"

record plan_manager =
  pm_versions :: "plan_version list"
  pm_dirty :: bool
  pm_archived :: bool

definition new_plan_manager :: plan_manager where
  "new_plan_manager = \<lparr> pm_versions = [], pm_dirty = False, pm_archived = False \<rparr>"

definition BRIEF_MAX :: nat where "BRIEF_MAX = 4000"

definition BRIEF_PROMPT_MAX :: nat where "BRIEF_PROMPT_MAX = 1500"

definition PLAN_PROMPT_MAX :: nat where "PLAN_PROMPT_MAX = 6000"

text \<open>\<open>this.versions[this.versions.length - 1]\<close>\<close>

definition latest :: "plan_manager \<Rightarrow> plan_version option" where
  "latest m = (if pm_versions m = [] then None else Some (last (pm_versions m)))"

definition plan_isEmpty :: "plan_manager \<Rightarrow> bool" where
  "plan_isEmpty m \<longleftrightarrow> length (pm_versions m) = 0"

definition plan_takeDirty :: "plan_manager \<Rightarrow> plan_manager \<times> bool" where
  "plan_takeDirty m = (m\<lparr>pm_dirty := False\<rparr>, pm_dirty m)"

definition currentVersion :: "plan_manager \<Rightarrow> int" where
  "currentVersion m = (case latest m of None \<Rightarrow> 0 | Some v \<Rightarrow> pv_version v)"

text \<open>\<open>new Map(v.steps.map((s) => [s.id, s.status]))\<close>\<close>

definition statusById :: "plan_step list \<Rightarrow> jsstr \<Rightarrow> plan_status option" where
  "statusById steps = mget (map_from (map (\<lambda>s. (step_id s, status s)) steps))"

definition done_count :: "plan_step list \<Rightarrow> nat" where
  "done_count steps = length (filter (\<lambda>s. status s = PlanDone) steps)"

definition plan_counts :: "plan_manager \<Rightarrow> nat \<times> nat" where
  "plan_counts m = (case latest m of None \<Rightarrow> (0, 0)
                    | Some v \<Rightarrow> (done_count (pv_steps v), length (pv_steps v)))"

definition maybeArchiveIfComplete :: "plan_manager \<Rightarrow> plan_manager" where
  "maybeArchiveIfComplete m =
     (case plan_counts m of (dn, tot) \<Rightarrow>
        if 0 < tot \<and> dn = tot then m\<lparr>pm_archived := True\<rparr> else m)"


section \<open>Operations\<close>

definition propose :: "plan_step_input list \<Rightarrow> jsstr option \<Rightarrow> plan_manager
    \<Rightarrow> plan_manager \<times> (plan_error + plan_version)" where
  "propose raw brief m =
     (case validateSteps raw of
        Inl e \<Rightarrow> (m, Inl e)
      | Inr normalized \<Rightarrow>
          let v = \<lparr> pv_version = 1, pv_steps = normalized, pv_brief = clamp_opt BRIEF_MAX brief \<rparr>
          in (maybeArchiveIfComplete (m\<lparr>pm_versions := [v], pm_archived := False, pm_dirty := True\<rparr>), Inr v))"

text \<open>The ids whose status the caller states: an absent status is \<open>None\<close>.\<close>

definition explicitStatus :: "plan_step_input list \<Rightarrow> jsstr set" where
  "explicitStatus raw = set (map (\<lambda>s. trimmed_or_empty (in_id s)) (filter (\<lambda>s. in_status s \<noteq> None) raw))"

definition inherit_done :: "plan_step list \<Rightarrow> jsstr set \<Rightarrow> plan_step \<Rightarrow> plan_step" where
  "inherit_done prev explicit s =
     (if step_id s \<in> explicit then s
      else case byId prev (step_id s) of
             Some p \<Rightarrow> if status p = PlanDone then s\<lparr>status := PlanDone\<rparr> else s
           | None \<Rightarrow> s)"

definition revise :: "plan_step_input list \<Rightarrow> jsstr option \<Rightarrow> plan_manager
    \<Rightarrow> plan_manager \<times> (plan_error + plan_version)" where
  "revise raw brief m =
     (case validateSteps raw of
        Inl e \<Rightarrow> (m, Inl e)
      | Inr normalized \<Rightarrow>
          let steps = (case latest m of None \<Rightarrow> normalized
                       | Some prev \<Rightarrow> map (inherit_done (pv_steps prev) (explicitStatus raw)) normalized);
              clampedBrief = (case clamp_opt BRIEF_MAX brief of Some b \<Rightarrow> Some b
                              | None \<Rightarrow> (case latest m of None \<Rightarrow> None | Some prev \<Rightarrow> pv_brief prev));
              v = \<lparr> pv_version = currentVersion m + 1, pv_steps = steps, pv_brief = clampedBrief \<rparr>
          in (maybeArchiveIfComplete
                (m\<lparr>pm_versions := pm_versions m @ [v], pm_archived := False, pm_dirty := True\<rparr>), Inr v))"

text \<open>The assignment \<open>step.status = "done"\<close> on the step \<open>find\<close> returned: the first with that id.\<close>

fun mark_done :: "jsstr \<Rightarrow> plan_step list \<Rightarrow> plan_step list" where
  "mark_done sid [] = []"
| "mark_done sid (s # ss) =
     (if step_id s = sid then s\<lparr>status := PlanDone\<rparr> # ss else s # mark_done sid ss)"

definition stepDone :: "jsstr \<Rightarrow> plan_manager \<Rightarrow> plan_manager \<times> (plan_error + plan_step option)" where
  "stepDone sid m =
     (case latest m of
        None \<Rightarrow> (m, Inr None)
      | Some v \<Rightarrow>
          (case find (\<lambda>s. step_id s = sid) (pv_steps v) of
             None \<Rightarrow> (m, Inr None)
           | Some step \<Rightarrow>
               let unmet = filter (\<lambda>d. statusById (pv_steps v) d \<noteq> Some PlanDone) (dependsOn step)
               in if unmet \<noteq> [] then (m, Inl (UnmetDeps sid unmet))
                  else (maybeArchiveIfComplete
                          (m\<lparr>pm_versions := butlast (pm_versions m) @ [v\<lparr>pv_steps := mark_done sid (pv_steps v)\<rparr>],
                             pm_dirty := True\<rparr>),
                        Inr (Some (step\<lparr>status := PlanDone\<rparr>)))))"

definition is_ready :: "plan_step list \<Rightarrow> plan_step \<Rightarrow> bool" where
  "is_ready steps s \<longleftrightarrow>
     status s = PlanPending \<and> list_all (\<lambda>d. statusById steps d = Some PlanDone) (dependsOn s)"



section \<open>Rendering\<close>

fun STATUS_GLYPH :: "plan_status \<Rightarrow> jsstr" where
  "STATUS_GLYPH PlanDone = [0x2713]"
| "STATUS_GLYPH PlanActive = [0x25D0]"
| "STATUS_GLYPH PlanBlocked = [0x2717]"
| "STATUS_GLYPH PlanPending = [0x25CB]"

text \<open>A template part that is present when the optional field is a non-empty string.\<close>

definition when_set :: "jsstr option \<Rightarrow> jsstr \<Rightarrow> jsstr \<Rightarrow> jsstr" where
  "when_set x l r = (case x of Some s \<Rightarrow> if s = [] then [] else l @ s @ r | None \<Rightarrow> [])"

definition renderStepLine :: "plan_step list \<Rightarrow> plan_step \<Rightarrow> jsstr" where
  "renderStepLine steps s =
     js ''  '' @ STATUS_GLYPH (status s) @ js '' '' @ step_id s @ js ''  '' @ intent s
     @ (if dependsOn s \<noteq> [] then js '' [needs '' @ join (js '','') (dependsOn s) @ js '']'' else [])
     @ when_set (producesArtifact s) (js '' '' @ [0x2192]) []
     @ when_set (verifyCmd s) (js '' '' @ [0x27E8]) [0x27E9]
     @ when_set (verifyDescription s) (js '' '' @ [0x2014] @ js '' '') []
     @ (if mechanical s then js '' '' @ [0x2699] else [])
     @ (if is_ready steps s then js '' '' @ [0x2190] @ js '' ready'' else [])"

definition plan_render :: "plan_manager \<Rightarrow> jsstr" where
  "plan_render m =
     (case latest m of
        None \<Rightarrow> js ''(no plan)''
      | Some v \<Rightarrow>
          (case plan_counts m of (dn, tot) \<Rightarrow>
             join newline
               ([js ''plan v'' @ num_str (pv_version v) @ js '' ('' @ num_str (int dn) @ js ''/''
                  @ num_str (int tot) @ js '' done)'']
                @ (case pv_brief v of Some b \<Rightarrow> if b = [] then [] else [js ''brief:'', b] | None \<Rightarrow> [])
                @ map (renderStepLine (pv_steps v)) (topoOrder (pv_steps v)))))"

text \<open>The greedy loop that adds step lines while they fit.\<close>

fun add_step_lines :: "jsstr list \<Rightarrow> nat \<Rightarrow> jsstr list \<Rightarrow> jsstr list \<times> nat" where
  "add_step_lines out omitted [] = (out, omitted)"
| "add_step_lines out omitted (l # ls) =
     (if PLAN_PROMPT_MAX < length (join newline out) + length l + 1
      then add_step_lines out (Suc omitted) ls
      else add_step_lines (out @ [l]) omitted ls)"

definition plan_prompt_head :: "bool \<Rightarrow> jsstr \<Rightarrow> jsstr \<Rightarrow> jsstr \<Rightarrow> jsstr list" where
  "plan_prompt_head planning ver dn tot =
     (if planning
      then [js ''<plan>'',
            js ''You are refining a structured plan (v'' @ ver @ js '', '' @ dn @ js ''/'' @ tot
              @ js '' steps). The session is READ-ONLY '' @ [0x2014]
              @ js '' do not execute edits. Keep the DAG current with the `plan` tool:'',
            js ''- Use `plan revise` to re-shape the DAG as understanding improves; do not silently drift.'',
            js ''- Honor `dependsOn` when ordering steps.'',
            js ''- When ready, present for approval with `exit_plan`.'']
      else [js ''<plan>'',
            js ''You are executing a structured plan (v'' @ ver @ js '', '' @ dn @ js ''/'' @ tot
              @ js '' steps done). Keep it current with the `plan` tool:'',
            js ''- Mark a step done with `plan step_done` the moment it is finished.'',
            js ''- Use `plan revise` to re-shape the DAG (adds a new version, keeps history); do not silently drift.'',
            js ''- Honor `dependsOn`: do not start a step before its dependencies are done.''])"

definition close_tag :: jsstr where
  "close_tag = newline @ js ''</plan>''"

definition systemPromptSection :: "bool \<Rightarrow> plan_manager \<Rightarrow> jsstr" where
  "systemPromptSection planning m =
     (if pm_archived m then []
      else case latest m of None \<Rightarrow> []
      | Some v \<Rightarrow>
          let dt = plan_counts m;
              head = plan_prompt_head planning (num_str (pv_version v)) (num_str (int (fst dt))) (num_str (int (snd dt)));
              briefed = (case pv_brief v of
                  None \<Rightarrow> head
                | Some b \<Rightarrow> if b = [] then head
                    else let tr = truncateWithEllipsis b BRIEF_PROMPT_MAX
                         in head @ [js ''brief:'', tr]
                            @ (if length tr < length b then [js ''(full brief: plan show)''] else []));
              stepped = add_step_lines (briefed @ [js ''Current plan (topological order):'']) 0
                          (map (renderStepLine (pv_steps v)) (topoOrder (pv_steps v)));
              counted = fst stepped @ (if 0 < snd stepped
                  then [js ''('' @ num_str (int (snd stepped)) @ js '' steps omitted; use plan show)''] else []);
              readyNow = map step_id (filter (is_ready (pv_steps v)) (pv_steps v));
              readyLine = js ''Ready now: '' @ join (js '', '') readyNow;
              ready = (if readyNow \<noteq> [] \<and>
                   length (join newline counted) + length readyLine + length close_tag \<le> PLAN_PROMPT_MAX
                then counted @ [readyLine] else counted);
              sect = join newline (ready @ [js ''</plan>''])
          in if length sect \<le> PLAN_PROMPT_MAX then sect
             else truncateWithEllipsis sect (PLAN_PROMPT_MAX - length close_tag) @ close_tag)"

definition sameStep :: "plan_step \<Rightarrow> plan_step \<Rightarrow> bool" where
  "sameStep a b \<longleftrightarrow>
     intent a = intent b \<and> producesArtifact a = producesArtifact b \<and> verifyCmd a = verifyCmd b \<and>
     verifyDescription a = verifyDescription b \<and> mechanical a = mechanical b \<and>
     length (dependsOn a) = length (dependsOn b) \<and>
     list_all (\<lambda>i. dependsOn a ! i = dependsOn b ! i) [0..<length (dependsOn a)]"

definition diff_line :: "jsstr \<Rightarrow> plan_step \<Rightarrow> jsstr" where
  "diff_line mark s = mark @ js '' '' @ step_id s @ js ''  '' @ intent s"

definition diff_lines :: "plan_step list \<Rightarrow> plan_step list \<Rightarrow> jsstr list" where
  "diff_lines prev cur =
     concat (map (\<lambda>s. case byId prev (step_id s) of
                 None \<Rightarrow> [diff_line (js ''+'') s]
               | Some before \<Rightarrow> if sameStep before s then [] else [diff_line (js ''~'') s]) cur)
     @ map (diff_line (js ''-'')) (filter (\<lambda>s. byId cur (step_id s) = None) prev)"

definition diffVersions :: "plan_version \<Rightarrow> plan_version \<Rightarrow> jsstr" where
  "diffVersions prev cur =
     (let lines = diff_lines (pv_steps prev) (pv_steps cur)
      in if lines \<noteq> [] then join newline lines else js ''(no structural change)'')"

definition diffFromPrevious :: "plan_manager \<Rightarrow> jsstr" where
  "diffFromPrevious m =
     (if length (pm_versions m) < 2 then []
      else diffVersions (pm_versions m ! (length (pm_versions m) - 2)) (last (pm_versions m)))"


section \<open>Persistence\<close>

text \<open>
  The persisted shape, read defensively: \<open>vi_steps\<close> is \<open>None\<close> when \<open>steps\<close> is not an array (or the
  version is null), \<open>vi_version\<close> when it is not a number, \<open>vi_brief\<close> when it is not a string.
\<close>

record version_input =
  vi_version :: "int option"
  vi_steps :: "plan_step_input list option"
  vi_brief :: "jsstr option"

record plan_state =
  ps_versions :: "version_input list"
  ps_archived :: "bool option"

definition version_as_input :: "plan_version \<Rightarrow> version_input" where
  "version_as_input v =
     \<lparr> vi_version = Some (pv_version v), vi_steps = Some (map as_input (pv_steps v)), vi_brief = pv_brief v \<rparr>"

definition plan_serialize :: "plan_manager \<Rightarrow> plan_state" where
  "plan_serialize m =
     \<lparr> ps_versions = map version_as_input (pm_versions m),
       ps_archived = (if pm_archived m then Some True else None) \<rparr>"

definition restore_version :: "version_input \<Rightarrow> plan_version option" where
  "restore_version vi =
     (case vi_steps vi of
        None \<Rightarrow> None
      | Some raw \<Rightarrow>
          (case validateSteps raw of
             Inl e \<Rightarrow> None
           | Inr steps \<Rightarrow> Some
               \<lparr> pv_version = (case vi_version vi of Some n \<Rightarrow> n | None \<Rightarrow> 1), pv_steps = steps,
                 pv_brief = map_option (clamp BRIEF_MAX) (vi_brief vi) \<rparr>))"

text \<open>\<open>None\<close>: no data, or \<open>versions\<close> is not an array.\<close>

definition plan_restore :: "plan_state option \<Rightarrow> plan_manager \<Rightarrow> plan_manager" where
  "plan_restore data m =
     (case data of
        None \<Rightarrow> m\<lparr>pm_versions := [], pm_archived := False\<rparr>
      | Some d \<Rightarrow>
          let m' = m\<lparr>pm_versions := List.map_filter restore_version (ps_versions d)\<rparr>
          in case ps_archived d of
               Some b \<Rightarrow> m'\<lparr>pm_archived := b\<rparr>
             | None \<Rightarrow> maybeArchiveIfComplete (m'\<lparr>pm_archived := False\<rparr>))"


section \<open>Status lookups\<close>

lemma statusById_distinct:
  "distinct (map step_id steps) \<Longrightarrow> s \<in> set steps \<Longrightarrow> statusById steps (step_id s) = Some (status s)"
  unfolding statusById_def
  by (subst mget_map_from_distinct) (auto simp: comp_def map_of_map_key)

lemma statusById_Some:
  "statusById steps k = Some st \<Longrightarrow> \<exists>s \<in> set steps. step_id s = k \<and> status s = st"
  unfolding statusById_def mget_map_from by (auto dest!: map_of_SomeD)

lemma statusById_None: "statusById steps k = None \<longleftrightarrow> k \<notin> step_id ` set steps"
  unfolding statusById_def mget_map_from by (force simp: map_of_eq_None_iff)

text \<open>The shape of a step: everything but its status. Validity only depends on shapes.\<close>

definition strip :: "plan_step \<Rightarrow> plan_step" where
  "strip s = s\<lparr>status := PlanPending\<rparr>"

lemma strip_sel [simp]:
  "step_id (strip s) = step_id s" "dependsOn (strip s) = dependsOn s" "wf_step (strip s) = wf_step s"
  "strip (s\<lparr>status := st\<rparr>) = strip s"
  by (simp_all add: strip_def wf_step_def)

lemma map_step_id_strip [simp]: "map (step_id \<circ> strip) steps = map step_id steps"
  by simp

lemma wf_plan_strip: "wf_plan (map strip steps) \<longleftrightarrow> wf_plan steps"
proof -
  have "dep_rel (map strip steps) = dep_rel steps" if d: "distinct (map step_id steps)"
  proof -
    have d': "distinct (map step_id (map strip steps))" using d by (simp add: comp_def)
    have "(a, b) \<in> dep_rel (map strip steps) \<longleftrightarrow> (a, b) \<in> dep_rel steps" for a b
      unfolding dep_rel_distinct [OF d] dep_rel_distinct [OF d'] by auto
    then show ?thesis by auto
  qed
  then show ?thesis by (auto simp: wf_plan_def comp_def image_image)
qed

lemma wf_plan_same_shape: "map strip steps' = map strip steps \<Longrightarrow> wf_plan steps \<Longrightarrow> wf_plan steps'"
  by (metis wf_plan_strip)

lemma strip_mark_done: "map strip (mark_done sid steps) = map strip steps"
  by (induction sid steps rule: mark_done.induct) auto

lemma strip_inherit_done [simp]: "strip (inherit_done prev ex s) = strip s"
  by (auto simp: inherit_done_def split: option.split)

lemma wf_plan_mark_done [inv_intros]: "wf_plan steps \<Longrightarrow> wf_plan (mark_done sid steps)"
  by (rule wf_plan_same_shape [OF strip_mark_done])

lemma wf_plan_inherit [inv_intros]: "wf_plan steps \<Longrightarrow> wf_plan (map (inherit_done prev ex) steps)"
  by (rule wf_plan_same_shape [of _ steps]) (simp_all add: comp_def)

lemma mark_done_map:
  "distinct (map step_id steps) \<Longrightarrow>
     mark_done sid steps = map (\<lambda>s. if step_id s = sid then s\<lparr>status := PlanDone\<rparr> else s) steps"
proof (induction sid steps rule: mark_done.induct)
  case (2 sid s ss)
  show ?case
  proof (cases "step_id s = sid")
    case True
    with "2.prems" have "\<forall>t \<in> set ss. step_id t \<noteq> sid" by (auto simp: image_iff)
    then have "map (\<lambda>s. if step_id s = sid then s\<lparr>status := PlanDone\<rparr> else s) ss = ss"
      by (intro map_idI) auto
    with True show ?thesis by simp
  qed (use 2 in auto)
qed simp

lemma length_mark_done [simp]: "length (mark_done sid steps) = length steps"
  by (induction sid steps rule: mark_done.induct) auto

lemma statusById_mark_done:
  assumes "distinct (map step_id steps)" "sid \<in> step_id ` set steps"
  shows "statusById (mark_done sid steps) k = (if k = sid then Some PlanDone else statusById steps k)"
proof -
  let ?f = "\<lambda>s. if step_id s = sid then s\<lparr>status := PlanDone\<rparr> else s"
  have ids: "map step_id (map ?f steps) = map step_id steps" by auto
  have d: "distinct (map step_id (map ?f steps))" unfolding ids by (rule assms)
  show ?thesis
  proof (cases "k \<in> step_id ` set steps")
    case True
    then obtain s where s: "s \<in> set steps" "step_id s = k" by auto
    have "statusById (map ?f steps) (step_id (?f s)) = Some (status (?f s))"
      by (rule statusById_distinct [OF d]) (use s in auto)
    then show ?thesis using s statusById_distinct [OF assms(1) s(1)] mark_done_map [OF assms(1)] by auto
  next
    case False
    then have "statusById steps k = None" "statusById (map ?f steps) k = None"
      unfolding statusById_None by (auto split: if_splits)
    then show ?thesis using False assms(2) mark_done_map [OF assms(1)] by auto
  qed
qed

lemma done_count_le: "done_count steps \<le> length steps"
  by (simp add: done_count_def)

lemma done_count_all: "done_count steps = length steps \<longleftrightarrow> (\<forall>s \<in> set steps. status s = PlanDone)"
proof (induction steps)
  case (Cons s ss)
  have "length (filter (\<lambda>s. status s = PlanDone) ss) \<noteq> Suc (length ss)"
    by (metis Suc_n_not_le_n length_filter_le)
  with Cons show ?case unfolding done_count_def by (cases "status s = PlanDone") auto
qed (simp add: done_count_def)

lemma done_count_mark_done: "done_count steps \<le> done_count (mark_done sid steps)"
  by (induction sid steps rule: mark_done.induct) (auto simp: done_count_def)



section \<open>The invariant and the calls\<close>

definition wf_version :: "plan_version \<Rightarrow> bool" where
  "wf_version v \<longleftrightarrow>
     wf_plan (pv_steps v) \<and>
     (\<forall>b. pv_brief v = Some b \<longrightarrow> trimmed b \<and> length b \<le> BRIEF_MAX)"

definition plan_ok :: "plan_manager \<Rightarrow> bool" where
  "plan_ok m \<longleftrightarrow> (\<forall>v \<in> set (pm_versions m). wf_version v)"

definition complete_plan :: "plan_manager \<Rightarrow> bool" where
  "complete_plan m \<longleftrightarrow>
     (\<exists>v. latest m = Some v \<and> pv_steps v \<noteq> [] \<and> (\<forall>s \<in> set (pv_steps v). status s = PlanDone))"

datatype plan_call =
    Propose "plan_step_input list" "jsstr option"
  | Revise "plan_step_input list" "jsstr option"
  | StepDone jsstr
  | TakeDirty

datatype plan_op = Call plan_call | Restore "plan_state option"

fun exec_call :: "plan_call \<Rightarrow> plan_manager \<Rightarrow> plan_manager" where
  "exec_call (Propose raw b) m = fst (propose raw b m)"
| "exec_call (Revise raw b) m = fst (revise raw b m)"
| "exec_call (StepDone sid) m = fst (stepDone sid m)"
| "exec_call TakeDirty m = fst (plan_takeDirty m)"

fun exec_op :: "plan_op \<Rightarrow> plan_manager \<Rightarrow> plan_manager" where
  "exec_op (Call c) m = exec_call c m"
| "exec_op (Restore data) m = plan_restore data m"

lemma maybeArchive_sel [simp]:
  "pm_versions (maybeArchiveIfComplete m) = pm_versions m"
  "latest (maybeArchiveIfComplete m) = latest m"
  by (simp_all add: maybeArchiveIfComplete_def latest_def split: prod.split)

lemma maybeArchive_archived:
  "pm_archived (maybeArchiveIfComplete m) \<longleftrightarrow> pm_archived m \<or> complete_plan m"
  by (auto simp: maybeArchiveIfComplete_def plan_counts_def complete_plan_def done_count_all [symmetric]
      split: option.splits)

lemma clamp_opt_brief: "clamp_opt BRIEF_MAX b = Some s \<Longrightarrow> trimmed s \<and> length s \<le> BRIEF_MAX"
  using wf_opt_clamp [of BRIEF_MAX b] by (simp add: BRIEF_MAX_def wf_opt_def wf_text_def)

lemma latest_ok: "plan_ok m \<Longrightarrow> latest m = Some v \<Longrightarrow> wf_version v"
  by (auto simp: plan_ok_def latest_def split: if_splits)

lemma plan_ok_propose: "plan_ok m \<Longrightarrow> plan_ok (fst (propose raw b m))"
  by (auto simp: propose_def plan_ok_def wf_version_def Let_def validateSteps_wf clamp_opt_brief split: sum.splits)

lemma plan_ok_revise: "plan_ok m \<Longrightarrow> plan_ok (fst (revise raw b m))"
  using latest_ok [of m]
  by (auto simp: revise_def plan_ok_def wf_version_def Let_def validateSteps_wf wf_plan_inherit
      dest: clamp_opt_brief split: sum.splits option.splits)

lemma plan_ok_stepDone: "plan_ok m \<Longrightarrow> plan_ok (fst (stepDone sid m))"
  using latest_ok [of m]
  by (auto simp: stepDone_def plan_ok_def wf_version_def Let_def wf_plan_mark_done
      dest: in_set_butlastD split: sum.splits option.splits)

lemma restore_version_ok: "restore_version vi = Some v \<Longrightarrow> wf_version v"
  by (auto simp: restore_version_def wf_version_def validateSteps_wf trimmed_clamp BRIEF_MAX_def length_clamp
      split: option.splits sum.splits)

lemma plan_ok_restore: "plan_ok (plan_restore data m)"
  by (auto simp: plan_restore_def plan_ok_def Let_def map_filter_def restore_version_ok split: option.splits)

lemma plan_ok_op: "plan_ok m \<Longrightarrow> plan_ok (exec_op op m)"
proof (cases op)
  case (Call c)
  assume "plan_ok m"
  then show ?thesis
    by (cases c) (simp_all add: Call plan_ok_propose plan_ok_revise plan_ok_stepDone plan_takeDirty_def,
        simp add: plan_ok_def)
qed (simp add: plan_ok_restore)

interpretation plan_history: event_machine exec_op plan_ok
  by unfold_locales (rule plan_ok_op)

lemma plan_ok_new: "plan_ok new_plan_manager"
  by (simp add: plan_ok_def new_plan_manager_def)

section \<open>A session without restore\<close>

text \<open>Versions are numbered from 1, and \<open>archived\<close> says exactly that the plan is complete.\<close>

definition session_ok :: "plan_manager \<Rightarrow> bool" where
  "session_ok m \<longleftrightarrow>
     plan_ok m \<and> map pv_version (pm_versions m) = map int [1..<Suc (length (pm_versions m))] \<and>
     (pm_archived m \<longleftrightarrow> complete_plan m)"

lemma session_new: "session_ok new_plan_manager"
  by (simp add: session_ok_def new_plan_manager_def plan_ok_def complete_plan_def latest_def)

lemma latest_append: "pm_versions m = vs @ [v] \<Longrightarrow> latest m = Some v"
  by (simp add: latest_def)

lemma complete_iff: "latest m = Some v \<Longrightarrow>
    complete_plan m \<longleftrightarrow> pv_steps v \<noteq> [] \<and> (\<forall>s \<in> set (pv_steps v). status s = PlanDone)"
  by (auto simp: complete_plan_def)

lemma complete_maybeArchive [simp]: "complete_plan (maybeArchiveIfComplete m) = complete_plan m"
  by (simp add: complete_plan_def)

lemma numbered_snoc:
  "map pv_version vs = map int [1..<Suc (length vs)] \<Longrightarrow>
     pv_version v = int (length vs) + 1 \<Longrightarrow>
     map pv_version (vs @ [v]) = map int [1..<Suc (length (vs @ [v]))]"
  by simp

lemma currentVersion_numbered:
  "map pv_version (pm_versions m) = map int [1..<Suc (length (pm_versions m))] \<Longrightarrow>
     currentVersion m = int (length (pm_versions m))"
proof (cases "pm_versions m" rule: rev_cases)
  case (snoc vs v)
  assume n: "map pv_version (pm_versions m) = map int [1..<Suc (length (pm_versions m))]"
  then have "last (map pv_version (vs @ [v])) = last (map int [1..<Suc (Suc (length vs))])"
    using snoc by simp
  then show ?thesis using snoc by (simp add: currentVersion_def latest_append)
qed (simp add: currentVersion_def latest_def)

lemma session_propose: "session_ok m \<Longrightarrow> session_ok (fst (propose raw b m))"
  unfolding session_ok_def
  using plan_ok_propose [of m raw b]
  by (auto simp: propose_def Let_def maybeArchive_archived split: sum.splits)

lemma session_revise:
  assumes "session_ok m"
  shows "session_ok (fst (revise raw b m))"
proof (cases "validateSteps raw")
  case (Inl e)
  with assms show ?thesis by (simp add: revise_def)
next
  case (Inr steps)
  have num: "map pv_version (pm_versions m) = map int [1..<Suc (length (pm_versions m))]"
    using assms by (simp add: session_ok_def)
  show ?thesis unfolding session_ok_def
    using plan_ok_revise [of m raw b] assms numbered_snoc [OF num] currentVersion_numbered [OF num]
    by (simp add: session_ok_def revise_def Inr Let_def maybeArchive_archived)
qed

lemma complete_mark_done:
  "latest m = Some v \<Longrightarrow> complete_plan m \<Longrightarrow> \<forall>s \<in> set (mark_done sid (pv_steps v)). status s = PlanDone"
  using done_count_mark_done [of "pv_steps v" sid] done_count_le [of "mark_done sid (pv_steps v)"]
  by (simp add: complete_iff done_count_all [symmetric])

lemma session_stepDone:
  assumes ok: "session_ok m"
  shows "session_ok (fst (stepDone sid m))"
proof (cases "\<exists>v step. latest m = Some v \<and> find (\<lambda>s. step_id s = sid) (pv_steps v) = Some step \<and>
    filter (\<lambda>d. statusById (pv_steps v) d \<noteq> Some PlanDone) (dependsOn step) = []")
  case False
  then have "fst (stepDone sid m) = m"
    by (auto simp: stepDone_def Let_def split: option.splits)
  with ok show ?thesis by simp
next
  case True
  then obtain v step where v: "latest m = Some v"
    and s: "find (\<lambda>s. step_id s = sid) (pv_steps v) = Some step"
      "filter (\<lambda>d. statusById (pv_steps v) d \<noteq> Some PlanDone) (dependsOn step) = []" by blast
  let ?v = "v\<lparr>pv_steps := mark_done sid (pv_steps v)\<rparr>"
  obtain vs where vs: "pm_versions m = vs @ [v]"
    using v by (cases "pm_versions m" rule: rev_cases) (auto simp: latest_def)
  have m': "fst (stepDone sid m) = maybeArchiveIfComplete (m\<lparr>pm_versions := vs @ [?v], pm_dirty := True\<rparr>)"
    using s by (simp add: stepDone_def v Let_def vs)
  have l: "latest (m\<lparr>pm_versions := vs @ [?v], pm_dirty := True\<rparr>) = Some ?v"
    by (simp add: latest_def)
  have "pm_archived m \<Longrightarrow> complete_plan (m\<lparr>pm_versions := vs @ [?v], pm_dirty := True\<rparr>)"
    using complete_mark_done [OF v] ok l
    by (simp add: session_ok_def complete_iff [OF v] complete_iff [OF l]) (metis length_0_conv length_mark_done)
  then show ?thesis
    using plan_ok_stepDone [of m sid] ok vs unfolding session_ok_def
    by (auto simp: m' maybeArchive_archived)
qed

lemma session_call: "session_ok m \<Longrightarrow> session_ok (exec_call c m)"
proof (cases c)
  case TakeDirty
  assume "session_ok m"
  then show ?thesis
    by (simp add: TakeDirty plan_takeDirty_def session_ok_def plan_ok_def complete_plan_def latest_def)
qed (simp_all add: session_propose session_revise session_stepDone)

interpretation plan_session: event_machine exec_call session_ok
  by unfold_locales (rule session_call)


section \<open>Progress\<close>






section \<open>Marking a step done\<close>

text \<open>Every done step has only done dependencies.\<close>

definition dep_closed :: "plan_step list \<Rightarrow> bool" where
  "dep_closed steps \<longleftrightarrow>
     (\<forall>s \<in> set steps. status s = PlanDone \<longrightarrow> (\<forall>d \<in> set (dependsOn s). statusById steps d = Some PlanDone))"

lemma dep_closed_mark_done:
  assumes d: "distinct (map step_id steps)" and s: "s \<in> set steps"
    and deps: "\<forall>d \<in> set (dependsOn s). statusById steps d = Some PlanDone" and c: "dep_closed steps"
  shows "dep_closed (mark_done (step_id s) steps)"
proof -
  have in_ids: "step_id s \<in> step_id ` set steps" using s by blast
  have "statusById (mark_done (step_id s) steps) k = Some PlanDone"
    if t: "t \<in> set steps" and k: "k \<in> set (dependsOn t)" and dn: "t = s \<or> status t = PlanDone" for t k
    using c deps t k dn by (auto simp: statusById_mark_done [OF d in_ids] dep_closed_def)
  moreover have "t = s" if "t \<in> set steps" "step_id t = step_id s" for t
    using d s that by (auto simp: distinct_map inj_on_def)
  ultimately show ?thesis unfolding dep_closed_def by (auto simp: mark_done_map [OF d])
qed

text \<open>What a call does, on each of its three outcomes.\<close>

lemma stepDone_cases:
  assumes ok: "plan_ok m" and v: "latest m = Some v" and d: "distinct (map step_id (pv_steps v))"
  obtains
    (unknown) "sid \<notin> step_id ` set (pv_steps v)" "stepDone sid m = (m, Inr None)"
  | (unmet) s where "s \<in> set (pv_steps v)" "step_id s = sid"
      "filter (\<lambda>d. statusById (pv_steps v) d \<noteq> Some PlanDone) (dependsOn s) \<noteq> []"
      "stepDone sid m = (m, Inl (UnmetDeps sid (filter (\<lambda>d. statusById (pv_steps v) d \<noteq> Some PlanDone) (dependsOn s))))"
  | (marked) s m' where "s \<in> set (pv_steps v)" "step_id s = sid"
      "\<forall>d \<in> set (dependsOn s). statusById (pv_steps v) d = Some PlanDone"
      "stepDone sid m = (m', Inr (Some (s\<lparr>status := PlanDone\<rparr>)))"
      "latest m' = Some (v\<lparr>pv_steps := mark_done sid (pv_steps v)\<rparr>)"
      "pm_versions m' = butlast (pm_versions m) @ [v\<lparr>pv_steps := mark_done sid (pv_steps v)\<rparr>]"
proof (cases "find (\<lambda>s. step_id s = sid) (pv_steps v)")
  case None
  have "sid \<notin> step_id ` set (pv_steps v)" using None by (auto simp: find_None_iff)
  moreover have "stepDone sid m = (m, Inr None)" using None v by (simp add: stepDone_def)
  ultimately show ?thesis by (rule unknown)
next
  case (Some s)
  then have s: "s \<in> set (pv_steps v)" "step_id s = sid" by (auto simp: find_Some_iff)
  show ?thesis
  proof (cases "filter (\<lambda>d. statusById (pv_steps v) d \<noteq> Some PlanDone) (dependsOn s) = []")
    case True
    show ?thesis
      by (rule marked [OF s])
         (use True Some v in \<open>auto simp: stepDone_def Let_def filter_empty_conv latest_def\<close>)
  next
    case False
    show ?thesis by (rule unmet [OF s False]) (use False Some v in \<open>simp add: stepDone_def Let_def\<close>)
  qed
qed


section \<open>Persistence\<close>

lemma restore_version_as_input: "wf_version v \<Longrightarrow> restore_version (version_as_input v) = Some v"
  by (cases v; cases "pv_brief v")
     (auto simp: restore_version_def version_as_input_def wf_version_def validateSteps_as_input clamp_id)

lemma map_filter_restore: "\<forall>v \<in> set vs. wf_version v \<Longrightarrow>
    List.map_filter restore_version (map version_as_input vs) = vs"
  by (induction vs) (simp_all add: List.map_filter_simps restore_version_as_input)

text \<open>A snapshot of a session, restored into any manager, gives back versions and archive flag.\<close>

lemma plan_restore_serialize:
  assumes "plan_ok m" "complete_plan m \<longrightarrow> pm_archived m"
  shows "pm_versions (plan_restore (Some (plan_serialize m)) t) = pm_versions m \<and>
         pm_archived (plan_restore (Some (plan_serialize m)) t) = pm_archived m"
proof -
  have v: "List.map_filter restore_version (map version_as_input (pm_versions m)) = pm_versions m"
    using assms(1) by (intro map_filter_restore) (simp add: plan_ok_def)
  have c: "complete_plan (t\<lparr>pm_versions := pm_versions m, pm_archived := False\<rparr>) = complete_plan m"
    by (simp add: complete_plan_def latest_def)
  show ?thesis using assms(2)
    by (auto simp: plan_restore_def plan_serialize_def Let_def v maybeArchive_archived c)
qed

interpretation plan_codec: snapshot_codec plan_serialize "\<lambda>d. plan_restore (Some d)"
  "\<lambda>m. (pm_versions m, pm_archived m)" session_ok "\<lambda>_ _. True"
  using plan_restore_serialize by unfold_locales (auto simp: session_ok_def)


section \<open>Rendering\<close>

lemma length_close_tag: "length close_tag = 8"
  by (simp add: close_tag_def newline_def)

lemma prompt_bound: "length (systemPromptSection planning m) \<le> PLAN_PROMPT_MAX"
proof -
  have "length (truncateWithEllipsis s (PLAN_PROMPT_MAX - length close_tag) @ close_tag) \<le> PLAN_PROMPT_MAX" for s
    using length_truncateWithEllipsis [of "PLAN_PROMPT_MAX - length close_tag" s]
    by (simp add: length_close_tag PLAN_PROMPT_MAX_def)
  then show ?thesis
    unfolding systemPromptSection_def Let_def by (auto split: option.splits)
qed

lemma join_snoc_suffix: "xs \<noteq> [] \<Longrightarrow> \<exists>p. join newline (xs @ [x]) = p @ newline @ x"
  by (auto simp: length_join_snoc)

lemma add_step_lines_prefix: "\<exists>zs. fst (add_step_lines out om ls) = out @ zs"
  by (induction out om ls rule: add_step_lines.induct) auto

text \<open>Whatever was cut, a non-empty section is closed by its tag.\<close>

lemma prompt_closed:
  "systemPromptSection planning m = [] \<or> (\<exists>p. systemPromptSection planning m = p @ close_tag)"
proof (cases "pm_archived m \<or> latest m = None")
  case False
  then obtain v where v: "latest m = Some v" "\<not> pm_archived m" by auto
  have *: "(\<exists>p. (if c then join newline (xs @ [js ''</plan>'']) else t @ close_tag) = p @ close_tag)"
    if "xs \<noteq> []" for xs c t
    using join_snoc_suffix [OF that, of "js ''</plan>''"] by (auto simp: close_tag_def)
  have head: "plan_prompt_head planning a b c \<noteq> []" for a b c by (simp add: plan_prompt_head_def)
  have ne: "xs @ ys \<noteq> []" if "xs \<noteq> []" for xs ys :: "jsstr list" using that by simp
  have stepped: "fst (add_step_lines (xs @ [y]) om ls) \<noteq> []" for xs y om ls
    using add_step_lines_prefix [of "xs @ [y]" om ls] by auto
  show ?thesis
    unfolding systemPromptSection_def Let_def
    by (rule disjI2) (simp only: v option.case if_False, rule *, auto simp: stepped)
qed (auto simp: systemPromptSection_def)

section \<open>Differences between versions\<close>

lemma sameStep_strip: "step_id a = step_id b \<Longrightarrow> sameStep a b \<longleftrightarrow> strip a = strip b"
  by (cases a; cases b) (auto simp: sameStep_def strip_def list_all_iff intro: nth_equalityI)

lemma byId_None: "byId steps k = None \<longleftrightarrow> k \<notin> step_id ` set steps"
  unfolding byId_def mget_map_from by (force simp: map_of_eq_None_iff)

lemma diff_lines_Nil:
  assumes d: "distinct (map step_id prev)" "distinct (map step_id cur)"
  shows "diff_lines prev cur = [] \<longleftrightarrow> strip ` set prev = strip ` set cur"
proof -
  have prev: "(case byId prev (step_id s) of None \<Rightarrow> [diff_line (js ''+'') s]
       | Some before \<Rightarrow> if sameStep before s then [] else [diff_line (js ''~'') s]) = [] \<longleftrightarrow>
     (\<exists>p \<in> set prev. strip p = strip s)" for s
  proof (cases "byId prev (step_id s)")
    case None
    then have "step_id s \<notin> step_id ` set prev" by (simp add: byId_None)
    then have "strip p \<noteq> strip s" if "p \<in> set prev" for p
      using that by (metis imageI strip_sel(1))
    with None show ?thesis by auto
  next
    case (Some p)
    then have p: "p \<in> set prev" "step_id p = step_id s" using byId_Some_in by auto
    have "q = p" if "q \<in> set prev" "strip q = strip s" for q
      using that p d(1) by (metis byId_distinct option.inject strip_sel(1))
    then have "(\<exists>q \<in> set prev. strip q = strip s) \<longleftrightarrow> strip p = strip s" using p(1) by blast
    then show ?thesis unfolding Some option.case sameStep_strip [OF p(2)] by simp
  qed
  have cur: "byId cur (step_id s) = None \<longleftrightarrow> step_id s \<notin> step_id ` set cur" for s
    by (rule byId_None)
  have "diff_lines prev cur = [] \<longleftrightarrow>
      (\<forall>s \<in> set cur. \<exists>p \<in> set prev. strip p = strip s) \<and> (\<forall>s \<in> set prev. step_id s \<in> step_id ` set cur)"
    unfolding diff_lines_def append_is_Nil_conv concat_eq_Nil_conv
    by (simp add: prev cur filter_empty_conv)
  also have "\<dots> \<longleftrightarrow> strip ` set prev = strip ` set cur"
  proof (intro iffI)
    assume a: "(\<forall>s \<in> set cur. \<exists>p \<in> set prev. strip p = strip s) \<and> (\<forall>s \<in> set prev. step_id s \<in> step_id ` set cur)"
    have "strip s \<in> strip ` set cur" if s: "s \<in> set prev" for s
    proof -
      obtain c p where c: "c \<in> set cur" "step_id s = step_id c" "p \<in> set prev" "strip p = strip c"
        using a s by (metis imageE)
      then have "p = s" using s d(1) by (metis byId_distinct option.inject strip_sel(1))
      with c(4) have "strip s = strip c" by simp
      with c(1) show ?thesis by (rule image_eqI [rotated])
    qed
    moreover have "strip c \<in> strip ` set prev" if "c \<in> set cur" for c
      using a that by (metis image_eqI)
    ultimately show "strip ` set prev = strip ` set cur" by (intro equalityI image_subsetI)
  next
    assume e: "strip ` set prev = strip ` set cur"
    have "step_id ` set prev = step_id ` strip ` set prev" by (simp add: image_image)
    also have "\<dots> = step_id ` set cur" unfolding e by (simp add: image_image)
    finally have ids: "step_id ` set prev = step_id ` set cur" .
    show "(\<forall>s \<in> set cur. \<exists>p \<in> set prev. strip p = strip s) \<and> (\<forall>s \<in> set prev. step_id s \<in> step_id ` set cur)"
    proof (intro conjI ballI)
      fix s assume "s \<in> set cur"
      then have "strip s \<in> strip ` set prev" unfolding e by (rule imageI)
      then show "\<exists>p \<in> set prev. strip p = strip s" by (metis imageE)
    next
      fix s assume "s \<in> set prev"
      then show "step_id s \<in> step_id ` set cur" unfolding ids [symmetric] by (rule imageI)
    qed
  qed
  finally show ?thesis .
qed

section \<open>Properties\<close>

text \<open>C30: Whatever a session does to a plan manager - propose, revise, step_done, taking the dirty
  flag, restoring any persisted data however corrupt - every version it stores is a legal plan with
  a trimmed, bounded brief.\<close>

theorem plan_always_legal: "plan_ok (fold exec_op ops new_plan_manager)"
  by (rule plan_history.inv_run [OF plan_ok_new])

text \<open>In a session that does not restore foreign data, versions are numbered 1, 2, 3, ... and the
  manager is archived exactly when its current plan is complete (every step done).\<close>

theorem plan_archived_iff_complete:
  "map pv_version (pm_versions (fold exec_call cs new_plan_manager))
     = map int [1..<Suc (length (pm_versions (fold exec_call cs new_plan_manager)))] \<and>
   (pm_archived (fold exec_call cs new_plan_manager) \<longleftrightarrow> complete_plan (fold exec_call cs new_plan_manager))"
  using plan_session.inv_run [OF session_new, of cs] by (simp add: session_ok_def)

text \<open>\<open>stepDone\<close> on a legal plan. An unknown id changes nothing; a step with an unmet dependency is
  refused and nothing changes; otherwise exactly that step becomes done, all its dependencies were
  done, and if every done step had only done dependencies before, that still holds.\<close>

theorem stepDone_respects_deps:
  assumes "plan_ok m" and "latest m = Some v"
  shows "case stepDone sid m of
      (m', Inr None) \<Rightarrow> m' = m \<and> sid \<notin> step_id ` set (pv_steps v)
    | (m', Inl e) \<Rightarrow> m' = m \<and> (\<exists>s \<in> set (pv_steps v). step_id s = sid \<and>
         (\<exists>d \<in> set (dependsOn s). statusById (pv_steps v) d \<noteq> Some PlanDone))
    | (m', Inr (Some s)) \<Rightarrow>
         s\<lparr>status := PlanDone\<rparr> = s \<and> step_id s = sid \<and>
         (\<forall>d \<in> set (dependsOn s). statusById (pv_steps v) d = Some PlanDone) \<and>
         latest m' = Some (v\<lparr>pv_steps := map (\<lambda>t. if step_id t = sid then t\<lparr>status := PlanDone\<rparr> else t) (pv_steps v)\<rparr>) \<and>
         butlast (pm_versions m') = butlast (pm_versions m) \<and>
         (dep_closed (pv_steps v) \<longrightarrow> dep_closed (mark_done sid (pv_steps v)))"
proof -
  have d: "distinct (map step_id (pv_steps v))"
    using latest_ok [OF assms] by (simp add: wf_version_def wf_plan_def)
  from assms d show ?thesis
  proof (cases rule: stepDone_cases [where sid = sid])
    case (unmet s)
    then show ?thesis by (auto simp: filter_empty_conv)
  next
    case (marked s m')
    then show ?thesis using dep_closed_mark_done [OF d, of s] by (simp add: mark_done_map [OF d])
  qed simp
qed

definition sample_manager :: plan_manager where
  "sample_manager =
     fst (propose (map as_input [sample_step [97] [[98]], sample_step [98] []]) None new_plan_manager)"

lemma sample_manager_ok: "session_ok sample_manager"
  unfolding sample_manager_def by (rule session_propose [OF session_new])

lemma sample_manager_plan_ok: "plan_ok sample_manager"
  using sample_manager_ok by (simp add: session_ok_def)

lemma sample_manager_latest: "latest sample_manager =
    Some \<lparr> pv_version = 1, pv_steps = [sample_step [97] [[98]], sample_step [98] []], pv_brief = None \<rparr>"
  by code_simp

theorem stepDone_respects_deps_witness:
  "stepDone [97] sample_manager = (sample_manager, Inl (UnmetDeps [97] [[98]]))"
proof -
  have "snd (stepDone [97] sample_manager) = Inl (UnmetDeps [97] [[98]])" by code_simp
  then show ?thesis
    using stepDone_respects_deps [OF sample_manager_plan_ok sample_manager_latest, of "[97]"]
    by (cases "stepDone [97] sample_manager") simp
qed

text \<open>A successful \<open>revise\<close> appends one version and keeps all earlier ones; in it, a step whose id
  was done before is done unless the caller states its status, every other step has the status the
  caller asked for, and an omitted brief is inherited.\<close>

theorem revise_inherits:
  assumes "latest m = Some prev" and "validateSteps raw = Inr steps"
  shows "\<exists>v. snd (revise raw b m) = Inr v \<and>
    pm_versions (fst (revise raw b m)) = pm_versions m @ [v] \<and> pv_version v = pv_version prev + 1 \<and>
    pv_brief v = (if clamp_opt BRIEF_MAX b = None then pv_brief prev else clamp_opt BRIEF_MAX b) \<and>
    map strip (pv_steps v) = map strip steps \<and>
    map status (pv_steps v) = map (\<lambda>s. if step_id s \<notin> explicitStatus raw \<and>
         (\<exists>p. byId (pv_steps prev) (step_id s) = Some p \<and> status p = PlanDone)
       then PlanDone else status s) steps"
  using assms
  by (auto simp: revise_def Let_def currentVersion_def comp_def inherit_done_def
      split: option.splits)

theorem revise_inherits_witness:
  "map status (pv_steps (the (latest (fst (revise [as_input (sample_step [98] [])] None
     (fst (stepDone [98] sample_manager))))))) = [PlanPending] \<and>
   map status (pv_steps (the (latest (fst (revise [(as_input (sample_step [98] []))\<lparr>in_status := None\<rparr>] None
     (fst (stepDone [98] sample_manager))))))) = [PlanDone]"
proof -
  let ?raw = "[(as_input (sample_step [98] []))\<lparr>in_status := None\<rparr>]" and ?m = "fst (stepDone [98] sample_manager)"
  have "latest ?m \<noteq> None" by code_simp
  then obtain prev where prev: "latest ?m = Some prev" by blast
  have steps: "validateSteps ?raw = Inr [sample_step [98] []]" by code_simp
  from revise_inherits [OF prev steps, of None] obtain v
    where v: "pm_versions (fst (revise ?raw None ?m)) = pm_versions ?m @ [v]"
      and st: "map status (pv_steps v) = map (\<lambda>s. if step_id s \<notin> explicitStatus ?raw \<and>
         (\<exists>p. byId (pv_steps prev) (step_id s) = Some p \<and> status p = PlanDone)
       then PlanDone else status s) [sample_step [98] []]" by blast
  have "explicitStatus ?raw = {}" by code_simp
  moreover have "map_option status (Option.bind (latest ?m) (\<lambda>v. byId (pv_steps v) [98])) = Some PlanDone" by code_simp
  ultimately have "map status (pv_steps v) = [PlanDone]"
    using st by (auto simp: prev sample_step_def)
  moreover have "map status (pv_steps (the (latest (fst (revise [as_input (sample_step [98] [])] None ?m))))) = [PlanPending]"
    by code_simp
  ultimately show ?thesis using latest_append [OF v] by simp
qed



text \<open>Persistence round trip: the snapshot of any session, restored into any other manager, gives
  back the same versions and the same archive flag, and a second round trip as well.\<close>

theorem plan_roundtrip:
  "pm_versions (plan_restore (Some (plan_serialize (fold exec_call cs new_plan_manager))) t)
     = pm_versions (fold exec_call cs new_plan_manager) \<and>
   pm_archived (plan_restore (Some (plan_serialize (fold exec_call cs new_plan_manager))) t)
     = pm_archived (fold exec_call cs new_plan_manager)"
  using plan_codec.restore_serialize [OF plan_session.inv_run [OF session_new, of cs] TrueI, of t] by simp

text \<open>The per-turn prompt section of any manager state is empty or ends with the closing tag, and
  never exceeds 6000 code units, however large the plan, its texts or its brief.\<close>

theorem plan_prompt_bounded:
  "length (systemPromptSection planning m) \<le> 6000 \<and>
   (systemPromptSection planning m = [] \<or> (\<exists>p. systemPromptSection planning m = p @ newline @ js ''</plan>''))"
  using prompt_bound prompt_closed unfolding PLAN_PROMPT_MAX_def close_tag_def by blast

text \<open>The diff between two legal plans reports no structural change exactly when they have the same
  steps up to status and order.\<close>

theorem diff_complete:
  assumes "wf_plan (pv_steps prev)" and "wf_plan (pv_steps cur)"
  shows "diff_lines (pv_steps prev) (pv_steps cur) = [] \<longleftrightarrow>
    strip ` set (pv_steps prev) = strip ` set (pv_steps cur)"
  using assms by (intro diff_lines_Nil) (simp_all add: wf_plan_def)

theorem diff_complete_witness:
  "diff_lines (mark_done [98] [sample_step [97] [[98]], sample_step [98] []])
     [sample_step [97] [[98]], sample_step [98] []] = []"
proof -
  let ?g = "[sample_step [97] [[98]], sample_step [98] []]"
  have w: "wf_plan ?g" using validateSteps_wf [OF sample_plan] by simp
  then have w': "wf_plan (mark_done [98] ?g)" by (rule wf_plan_mark_done)
  have "strip ` set (mark_done [98] ?g) = strip ` set ?g"
    using strip_mark_done [of "[98]" ?g] by (metis image_set)
  then show ?thesis
    using diff_complete [of "\<lparr>pv_version = 1, pv_steps = mark_done [98] ?g, pv_brief = None\<rparr>"
        "\<lparr>pv_version = 2, pv_steps = ?g, pv_brief = None\<rparr>"] w w' by simp
qed

end
