(* ===== verification/LruMap.thy ===== *)
theory LruMap
  imports JsBase
begin

text \<open>
  The bounded recency map (core/lru-map.ts, class LruMap), over the insertion-ordered \<open>Map\<close>. The
  lemmas show that it never exceeds its cap and that it refines an unbounded recency list: at any
  time it holds exactly the most recently used keys, in recency order, with their last values.
\<close>


section \<open>The class\<close>

record ('k, 'v) lru_map =
  lru_entries :: "('k, 'v) jsmap"
  lru_max :: nat

text \<open>\<open>Math.max(1, max)\<close>\<close>

definition lru_new :: "int \<Rightarrow> ('k, 'v) lru_map" where
  "lru_new mx = \<lparr> lru_entries = [], lru_max = nat (max 1 mx) \<rparr>"

definition lru_get :: "'k \<Rightarrow> ('k, 'v) lru_map \<Rightarrow> ('k, 'v) lru_map \<times> 'v option" where
  "lru_get k m =
     (case mget (lru_entries m) k of
        None \<Rightarrow> (m, None)
      | Some v \<Rightarrow> (m\<lparr>lru_entries := mset_at k v (mdel k (lru_entries m))\<rparr>, Some v))"

definition lru_has :: "'k \<Rightarrow> ('k, 'v) lru_map \<Rightarrow> bool" where
  "lru_has k m = mhas (lru_entries m) k"

text \<open>The eviction loop deletes the first key while the size exceeds the cap.\<close>

function lru_evict :: "nat \<Rightarrow> ('k, 'v) jsmap \<Rightarrow> ('k, 'v) jsmap" where
  "lru_evict mx m =
     (if mx < length m then (case mkeys m of [] \<Rightarrow> m | oldest # _ \<Rightarrow> lru_evict mx (mdel oldest m)) else m)"
  by pat_completeness auto
termination
proof (relation "measure (length \<circ> snd)", goal_cases)
  case (2 mx m k ks)
  then show ?case by (cases m) (auto simp: mkeys_def mdel_def less_Suc_eq_le)
qed simp

declare lru_evict.simps [simp del]

definition lru_set :: "'k \<Rightarrow> 'v \<Rightarrow> ('k, 'v) lru_map \<Rightarrow> ('k, 'v) lru_map" where
  "lru_set k v m =
     (let es = (if mhas (lru_entries m) k then mdel k (lru_entries m) else lru_entries m)
      in m\<lparr>lru_entries := lru_evict (lru_max m) (mset_at k v es)\<rparr>)"

definition lru_delete :: "'k \<Rightarrow> ('k, 'v) lru_map \<Rightarrow> ('k, 'v) lru_map \<times> bool" where
  "lru_delete k m = (m\<lparr>lru_entries := mdel k (lru_entries m)\<rparr>, mhas (lru_entries m) k)"

definition lru_clear :: "('k, 'v) lru_map \<Rightarrow> ('k, 'v) lru_map" where
  "lru_clear m = m\<lparr>lru_entries := []\<rparr>"

definition lru_size :: "('k, 'v) lru_map \<Rightarrow> nat" where
  "lru_size m = length (lru_entries m)"

definition lru_peekOldestKey :: "('k, 'v) lru_map \<Rightarrow> 'k option" where
  "lru_peekOldestKey m = (case mkeys (lru_entries m) of [] \<Rightarrow> None | k # _ \<Rightarrow> Some k)"


section \<open>Invariant\<close>

definition lru_ok :: "('k, 'v) lru_map \<Rightarrow> bool" where
  "lru_ok m \<longleftrightarrow> map_ok (lru_entries m) \<and> length (lru_entries m) \<le> lru_max m \<and> 0 < lru_max m"

lemma lru_evict_slice: "map_ok m \<Longrightarrow> lru_evict mx m = slice_last mx m"
proof (induction mx m rule: lru_evict.induct)
  case (1 mx m)
  show ?case
  proof (cases m)
    case (Cons e es)
    then have del: "mdel (fst e) m = es" using "1.prems" by (simp add: mdel_hd)
    show ?thesis
    proof (cases "mx < length m")
      case True
      have "map_ok es" using "1.prems" Cons by (simp add: map_ok_def mkeys_def)
      then have "lru_evict mx es = slice_last mx es"
        using "1.IH" [of "fst e" "mkeys es"] True Cons del by (simp add: mkeys_def)
      then have "lru_evict mx m = slice_last mx es"
        using True del by (simp add: lru_evict.simps [of mx "e # es"] Cons mkeys_def)
      also have "\<dots> = slice_last mx m" using True Cons by (simp add: slice_last_def Suc_diff_le)
      finally show ?thesis .
    qed (simp add: lru_evict.simps [of mx m] slice_last_id)
  qed (simp add: lru_evict.simps [of mx "[]"] slice_last_def)
qed

lemma lru_set_entries:
  "map_ok (lru_entries m) \<Longrightarrow>
     lru_entries (lru_set k v m) = slice_last (lru_max m) (mdel k (lru_entries m) @ [(k, v)])"
proof -
  assume ok: "map_ok (lru_entries m)"
  have "map_ok (mset_at k v (mdel k (lru_entries m)))" using ok by simp
  from lru_evict_slice [OF this] show ?thesis
    unfolding lru_set_def Let_def mset_at_mdel [symmetric]
    by (cases "mhas (lru_entries m) k") (simp_all add: mdel_absent)
qed

lemma lru_set_max [simp]: "lru_max (lru_set k v m) = lru_max m"
  by (simp add: lru_set_def Let_def)

lemma lru_get_max [simp]: "lru_max (fst (lru_get k m)) = lru_max m"
  by (simp add: lru_get_def split: option.split)

lemma lru_ok_set [inv_intros]: "lru_ok m \<Longrightarrow> lru_ok (lru_set k v m)"
  by (auto simp: lru_ok_def lru_set_entries LENslice_last mset_at_mdel [symmetric] intro!: map_ok_slice_last)

lemma lru_ok_get [inv_intros]: "lru_ok m \<Longrightarrow> lru_ok (fst (lru_get k m))"
  using length_mdel_hit [of "lru_entries m" k]
  by (auto simp: lru_ok_def lru_get_def mhas_mget length_mset_at split: option.split)

lemma lru_ok_delete [inv_intros]: "lru_ok m \<Longrightarrow> lru_ok (fst (lru_delete k m))"
  using length_mdel_le [of k "lru_entries m"] by (simp add: lru_ok_def lru_delete_def)


section \<open>Refinement of the recency list\<close>

text \<open>
  The abstract object: every key ever touched, least recently used first, nothing evicted. A lookup
  only refreshes a key that is among the \<open>n\<close> most recent ones.
\<close>

datatype ('k, 'v) lru_op = LruGet 'k | LruSet 'k 'v

definition refresh :: "'k \<Rightarrow> 'v \<Rightarrow> ('k, 'v) jsmap \<Rightarrow> ('k, 'v) jsmap" where
  "refresh k v l = mdel k l @ [(k, v)]"

fun spec_op :: "nat \<Rightarrow> ('k, 'v) lru_op \<Rightarrow> ('k, 'v) jsmap \<Rightarrow> ('k, 'v) jsmap" where
  "spec_op n (LruSet k v) l = refresh k v l"
| "spec_op n (LruGet k) l = (case mget (slice_last n l) k of None \<Rightarrow> l | Some v \<Rightarrow> refresh k v l)"

fun lru_exec :: "('k, 'v) lru_op \<Rightarrow> ('k, 'v) lru_map \<Rightarrow> ('k, 'v) lru_map" where
  "lru_exec (LruSet k v) m = lru_set k v m"
| "lru_exec (LruGet k) m = fst (lru_get k m)"

lemma slice_last_refresh:
  assumes ok: "map_ok l" and n: "0 < n"
  shows "slice_last n (refresh k v (slice_last n l)) = slice_last n (refresh k v l)"
proof -
  define a b where "a = take (length l - n) l" and "b = slice_last n l"
  have l: "l = a @ b" and lb: "length b = min n (length l)"
    by (simp_all add: a_def b_def slice_last_def)
  have d: "mdel k l = mdel k a @ mdel k b" by (simp add: l mdel_def)
  show ?thesis
  proof (cases "length l \<le> n")
    case True
    then show ?thesis by (simp add: slice_last_id)
  next
    case False
    then have lb': "length b = n" using lb by simp
    have "slice_last (n - 1) (mdel k b) = slice_last (n - 1) (mdel k a @ mdel k b)"
    proof (cases "mhas b k")
      case True
      have "map_ok b" using ok unfolding b_def by (rule map_ok_slice_last)
      then have "length (mdel k b) = n - 1" using length_mdel_hit [of b k] True lb' by simp
      then show ?thesis by (simp add: slice_last_append_ge)
    qed (simp add: mdel_absent slice_last_append_ge lb')
    then show ?thesis using n slice_last_snoc [OF n, of "mdel k a @ mdel k b" "(k, v)"]
      unfolding refresh_def b_def [symmetric] d by (simp add: slice_last_snoc)
  qed
qed

lemma map_ok_refresh: "map_ok l \<Longrightarrow> map_ok (refresh k v l)"
  unfolding refresh_def mset_at_mdel [symmetric] by simp

lemma lru_exec_refines:
  assumes "map_ok l" "0 < lru_max m" "lru_entries m = slice_last (lru_max m) l"
  shows "lru_entries (lru_exec op m) = slice_last (lru_max m) (spec_op (lru_max m) op l)"
proof -
  have okm: "map_ok (lru_entries m)" using assms by (simp add: map_ok_slice_last)
  show ?thesis
  proof (cases op)
    case (LruSet k v)
    then show ?thesis
      using slice_last_refresh [OF assms(1,2), of k v] assms(3)
      by (simp add: lru_set_entries [OF okm] refresh_def)
  next
    case (LruGet k)
    show ?thesis
    proof (cases "mget (lru_entries m) k")
      case None
      then show ?thesis using LruGet assms by (simp add: lru_get_def)
    next
      case (Some v)
      then have hit: "mhas (lru_entries m) k" by (simp add: mhas_mget)
      have "length (refresh k v (lru_entries m)) \<le> lru_max m"
        using length_mdel_hit [OF _ hit] okm assms(3) by (simp add: refresh_def LENslice_last)
      then have "refresh k v (lru_entries m) = slice_last (lru_max m) (refresh k v l)"
        using slice_last_refresh [OF assms(1,2), of k v] assms(3) by (simp add: slice_last_id)
      then show ?thesis using LruGet Some assms(3)
        by (simp add: lru_get_def mset_at_mdel refresh_def)
    qed
  qed
qed

lemma lru_exec_max [simp]: "lru_max (lru_exec op m) = lru_max m"
  by (cases op) simp_all

lemma map_ok_spec_op: "map_ok l \<Longrightarrow> map_ok (spec_op n op l)"
  by (cases op) (auto simp: map_ok_refresh split: option.split)

lemma lru_run_refines:
  "map_ok l \<Longrightarrow> 0 < lru_max m \<Longrightarrow> lru_entries m = slice_last (lru_max m) l \<Longrightarrow>
     lru_entries (fold lru_exec ops m) = slice_last (lru_max m) (fold (spec_op (lru_max m)) ops l)"
proof (induction ops arbitrary: l m)
  case (Cons op ops)
  then show ?case
    using Cons.IH [OF map_ok_spec_op [of l "lru_max m" op], of "lru_exec op m"] lru_exec_refines [of l m op] by simp
qed simp


section \<open>Properties\<close>

text \<open>C33: The bounded map is the window of an unbounded recency list. After any sequence of lookups
  and stores it holds exactly the \<open>max(1, max)\<close> most recently used entries, least recently used
  first, so what it evicts is always the least recently used key.\<close>

theorem lru_refines_recency:
  "lru_entries (fold lru_exec ops (lru_new mx))
     = slice_last (nat (max 1 mx)) (fold (spec_op (nat (max 1 mx))) ops [])"
  using lru_run_refines [of "[]" "lru_new mx" ops] by (simp add: lru_new_def slice_last_def)

end
