(* ===== verification/TodoManager.thy ===== *)
theory TodoManager
  imports Surrogate
begin

text \<open>
  The session todo list (core/todo/todo-manager.ts, class TodoManager): its state, every operation
  with its revision and listener effects, the renderers and the persistence. The lemmas show that
  ids stay unique and below the counter, that the whole-list rewrite carries each known id at most
  once, that a snapshot taken before a change is recognised as stale, and that persistence loses
  nothing.
\<close>


section \<open>Data and state\<close>

datatype todo_status = TodoPending | TodoInProgress | TodoCompleted

fun todo_status_name :: "todo_status \<Rightarrow> jsstr" where
  "todo_status_name TodoPending = js ''pending''"
| "todo_status_name TodoInProgress = js ''in_progress''"
| "todo_status_name TodoCompleted = js ''completed''"

record todo_item =
  td_id :: int
  td_subject :: jsstr
  td_description :: "jsstr option"
  td_activeForm :: "jsstr option"
  td_status :: todo_status

record create_input =
  ci_subject :: jsstr
  ci_description :: "jsstr option"
  ci_activeForm :: "jsstr option"

record update_input =
  ui_id :: int
  ui_subject :: "jsstr option"
  ui_description :: "jsstr option"
  ui_activeForm :: "jsstr option"
  ui_status :: "todo_status option"

record set_input =
  si_id :: "int option"
  si_subject :: jsstr
  si_description :: "jsstr option"
  si_activeForm :: "jsstr option"
  si_status :: "todo_status option"

text \<open>
  The manager. \<open>tm_listener\<close> says whether a change listener is registered and \<open>tm_fired\<close> counts
  its calls.
\<close>

record todo_manager =
  tm_items :: "todo_item list"
  tm_nextId :: int
  tm_revision :: int
  tm_sessionId :: jsstr
  tm_dirty :: bool
  tm_listener :: bool
  tm_fired :: nat

definition new_todo_manager :: todo_manager where
  "new_todo_manager =
     \<lparr> tm_items = [], tm_nextId = 1, tm_revision = 0, tm_sessionId = [], tm_dirty = False,
       tm_listener = False, tm_fired = 0 \<rparr>"

definition SUBJECT_MAX :: nat where "SUBJECT_MAX = 200"

definition clampSubject :: "jsstr \<Rightarrow> jsstr" where
  "clampSubject s = clamp SUBJECT_MAX s"

text \<open>\<open>x?.trim() || undefined\<close>\<close>

definition trim_opt :: "jsstr option \<Rightarrow> jsstr option" where
  "trim_opt x = (case x of None \<Rightarrow> None | Some s \<Rightarrow> if trim s = [] then None else Some (trim s))"


section \<open>Operations\<close>

definition todo_takeDirty :: "todo_manager \<Rightarrow> todo_manager \<times> bool" where
  "todo_takeDirty m = (m\<lparr>tm_dirty := False\<rparr>, tm_dirty m)"

definition setChangeListener :: "bool \<Rightarrow> todo_manager \<Rightarrow> todo_manager" where
  "setChangeListener l m = m\<lparr>tm_listener := l\<rparr>"

definition markChanged :: "todo_manager \<Rightarrow> todo_manager" where
  "markChanged m =
     m\<lparr>tm_revision := tm_revision m + 1, tm_dirty := True,
       tm_fired := (if tm_listener m then Suc (tm_fired m) else tm_fired m)\<rparr>"

definition todo_list :: "todo_status option \<Rightarrow> todo_manager \<Rightarrow> todo_item list" where
  "todo_list st m =
     (case st of None \<Rightarrow> tm_items m | Some s \<Rightarrow> filter (\<lambda>t. td_status t = s) (tm_items m))"

definition todo_get :: "int \<Rightarrow> todo_manager \<Rightarrow> todo_item option" where
  "todo_get i m = find (\<lambda>t. td_id t = i) (tm_items m)"

definition all_completed :: "todo_item list \<Rightarrow> bool" where
  "all_completed ts \<longleftrightarrow> list_all (\<lambda>t. td_status t = TodoCompleted) ts"

definition todo_create :: "create_input \<Rightarrow> todo_manager \<Rightarrow> todo_manager \<times> todo_item" where
  "todo_create inp m =
     (let m0 = (if 0 < length (tm_items m) \<and> all_completed (tm_items m)
                then m\<lparr>tm_items := [], tm_nextId := 1\<rparr> else m);
          item = \<lparr> td_id = tm_nextId m0, td_subject = clampSubject (ci_subject inp),
                   td_description = trim_opt (ci_description inp),
                   td_activeForm = trim_opt (ci_activeForm inp), td_status = TodoPending \<rparr>
      in (markChanged (m0\<lparr>tm_nextId := tm_nextId m0 + 1, tm_items := tm_items m0 @ [item]\<rparr>), item))"

definition update_item :: "update_input \<Rightarrow> todo_item \<Rightarrow> todo_item" where
  "update_item inp t =
     t\<lparr>td_subject := (case ui_subject inp of None \<Rightarrow> td_subject t | Some s \<Rightarrow> clampSubject s),
       td_description := (case ui_description inp of None \<Rightarrow> td_description t | Some s \<Rightarrow> trim_opt (Some s)),
       td_activeForm := (case ui_activeForm inp of None \<Rightarrow> td_activeForm t | Some s \<Rightarrow> trim_opt (Some s)),
       td_status := (case ui_status inp of None \<Rightarrow> td_status t | Some s \<Rightarrow> s)\<rparr>"

text \<open>The assignments mutate the object \<open>find\<close> returned: the first item with that id.\<close>

fun update_first :: "update_input \<Rightarrow> todo_item list \<Rightarrow> todo_item list" where
  "update_first inp [] = []"
| "update_first inp (t # ts) =
     (if td_id t = ui_id inp then update_item inp t # ts else t # update_first inp ts)"

definition todo_update :: "update_input \<Rightarrow> todo_manager \<Rightarrow> todo_manager \<times> todo_item option" where
  "todo_update inp m =
     (case todo_get (ui_id inp) m of
        None \<Rightarrow> (m, None)
      | Some t \<Rightarrow> (markChanged (m\<lparr>tm_items := update_first inp (tm_items m)\<rparr>), Some (update_item inp t)))"

text \<open>The first loop of \<open>set\<close>: every known id some entry cites is claimed.\<close>

definition claim_ids :: "int set \<Rightarrow> set_input list \<Rightarrow> int set" where
  "claim_ids known inputs =
     fold (\<lambda>inp cl. case si_id inp of Some i \<Rightarrow> if i \<in> known then insert i cl else cl | None \<Rightarrow> cl) inputs {}"

text \<open>The loop of \<open>set\<close>: the items built, the ids still claimed and the counter.\<close>

fun set_loop :: "int set \<Rightarrow> int set \<Rightarrow> int \<Rightarrow> set_input list \<Rightarrow> todo_item list \<times> int" where
  "set_loop known claimed nid [] = ([], nid)"
| "set_loop known claimed nid (inp # rest) =
     (let carried = (case si_id inp of None \<Rightarrow> None
                     | Some i \<Rightarrow> if i \<in> known \<and> i \<in> claimed then Some i else None);
          claimed' = (case carried of None \<Rightarrow> claimed | Some i \<Rightarrow> claimed - {i});
          nid' = (case carried of None \<Rightarrow> nid + 1 | Some i \<Rightarrow> nid);
          item = \<lparr> td_id = (case carried of Some i \<Rightarrow> i | None \<Rightarrow> nid),
                   td_subject = clampSubject (si_subject inp),
                   td_description = trim_opt (si_description inp),
                   td_activeForm = trim_opt (si_activeForm inp),
                   td_status = (case si_status inp of None \<Rightarrow> TodoPending | Some s \<Rightarrow> s) \<rparr>
      in case set_loop known claimed' nid' rest of (items, nid'') \<Rightarrow> (item # items, nid''))"

definition max_id :: "todo_item list \<Rightarrow> int" where
  "max_id ts = foldl (\<lambda>mx t. max mx (td_id t)) 0 ts"

definition todo_set :: "set_input list \<Rightarrow> todo_manager \<Rightarrow> todo_manager \<times> todo_item list" where
  "todo_set inputs m =
     (let known = set (map td_id (tm_items m));
          claimed = claim_ids known inputs
      in case set_loop known claimed (tm_nextId m) inputs of (nxt, nid) \<Rightarrow>
           (markChanged (m\<lparr>tm_items := nxt, tm_nextId := max nid (max_id nxt + 1)\<rparr>), nxt))"

definition todo_delete :: "int \<Rightarrow> todo_manager \<Rightarrow> todo_manager \<times> bool" where
  "todo_delete i m =
     (let items = filter (\<lambda>t. td_id t \<noteq> i) (tm_items m);
          changed = length items < length (tm_items m);
          m' = m\<lparr>tm_items := items\<rparr>
      in (if changed then markChanged m' else m', changed))"

definition todo_clear :: "todo_manager \<Rightarrow> todo_manager" where
  "todo_clear m =
     (let m' = m\<lparr>tm_items := []\<rparr> in if 0 < length (tm_items m) then markChanged m' else m')"

definition todo_counts :: "todo_manager \<Rightarrow> nat \<times> nat" where
  "todo_counts m = (length (filter (\<lambda>t. td_status t = TodoCompleted) (tm_items m)), length (tm_items m))"

definition todo_isEmpty :: "todo_manager \<Rightarrow> bool" where
  "todo_isEmpty m \<longleftrightarrow> length (tm_items m) = 0"

definition hasInProgress :: "todo_manager \<Rightarrow> bool" where
  "hasInProgress m \<longleftrightarrow> list_ex (\<lambda>t. td_status t = TodoInProgress) (tm_items m)"

definition hasOpenWork :: "todo_manager \<Rightarrow> bool" where
  "hasOpenWork m \<longleftrightarrow> list_ex (\<lambda>t. td_status t \<noteq> TodoCompleted) (tm_items m)"

definition setSessionId :: "jsstr \<Rightarrow> todo_manager \<Rightarrow> todo_manager" where
  "setSessionId s m = m\<lparr>tm_sessionId := s\<rparr>"

definition isCurrentSnapshot :: "int \<Rightarrow> jsstr option \<Rightarrow> todo_manager \<Rightarrow> bool" where
  "isCurrentSnapshot rvn sess m \<longleftrightarrow>
     rvn = tm_revision m \<and> (case sess of Some s \<Rightarrow> s | None \<Rightarrow> tm_sessionId m) = tm_sessionId m"


section \<open>Persistence\<close>

text \<open>
  The persisted shape, read defensively. A null entry of \<open>items\<close> has no numeric id; a status that is
  not a known name reads as pending.
\<close>

record todo_item_input =
  ti_id :: jsnum
  ti_subject :: jsstr
  ti_description :: "jsstr option"
  ti_activeForm :: "jsstr option"
  ti_status :: jsstr

record todo_state =
  ts_items :: "todo_item_input list option"
  ts_nextId :: jsnum
  ts_revision :: jsnum
  ts_sessionId :: "jsstr option"

definition todo_as_input :: "todo_item \<Rightarrow> todo_item_input" where
  "todo_as_input t =
     \<lparr> ti_id = Finite (td_id t), ti_subject = td_subject t, ti_description = td_description t,
       ti_activeForm = td_activeForm t, ti_status = todo_status_name (td_status t) \<rparr>"

definition todo_serialize :: "todo_manager \<Rightarrow> todo_state" where
  "todo_serialize m =
     \<lparr> ts_items = Some (map todo_as_input (tm_items m)), ts_nextId = Finite (tm_nextId m),
       ts_revision = Finite (tm_revision m),
       ts_sessionId = (if tm_sessionId m = [] then None else Some (tm_sessionId m)) \<rparr>"

definition valid_todo_status :: "jsstr \<Rightarrow> todo_status" where
  "valid_todo_status s =
     (case find (\<lambda>st. todo_status_name st = s) [TodoPending, TodoInProgress, TodoCompleted] of
        Some st \<Rightarrow> st | None \<Rightarrow> TodoPending)"

definition restore_item :: "todo_item_input \<Rightarrow> todo_item option" where
  "restore_item t =
     (case ti_id t of
        Finite i \<Rightarrow> Some \<lparr> td_id = i, td_subject = ti_subject t, td_description = ti_description t,
                          td_activeForm = ti_activeForm t, td_status = valid_todo_status (ti_status t) \<rparr>
      | _ \<Rightarrow> None)"

definition foreign_session :: "todo_state \<Rightarrow> todo_manager \<Rightarrow> bool" where
  "foreign_session d m \<longleftrightarrow>
     tm_sessionId m \<noteq> [] \<and>
     (case ts_sessionId d of Some s \<Rightarrow> s \<noteq> [] \<and> s \<noteq> tm_sessionId m | None \<Rightarrow> False)"

definition todo_restore :: "todo_state option \<Rightarrow> todo_manager \<Rightarrow> todo_manager" where
  "todo_restore data m =
     (let reset = m\<lparr>tm_items := [], tm_nextId := 1, tm_revision := 0\<rparr>
      in case data of
           None \<Rightarrow> reset
         | Some d \<Rightarrow>
             (case ts_items d of
                None \<Rightarrow> reset
              | Some raw \<Rightarrow>
                  if foreign_session d m then reset
                  else let items = List.map_filter restore_item raw
                       in m\<lparr>tm_items := items,
                            tm_nextId := max (finite_or 1 (ts_nextId d)) (max_id items + 1),
                            tm_revision := max 0 (finite_or 0 (ts_revision d)),
                            tm_sessionId := (case ts_sessionId d of
                                Some s \<Rightarrow> if tm_sessionId m = [] then s else tm_sessionId m
                              | None \<Rightarrow> tm_sessionId m)\<rparr>))"


section \<open>Rendering\<close>

fun todo_glyph :: "todo_status \<Rightarrow> jsstr" where
  "todo_glyph TodoCompleted = [0x2713]"
| "todo_glyph TodoInProgress = [0x25D0]"
| "todo_glyph TodoPending = [0x25CB]"

definition todo_line :: "todo_item \<Rightarrow> jsstr" where
  "todo_line t =
     todo_glyph (td_status t) @ js '' #'' @ num_str (td_id t) @ js '' '' @ td_subject t
     @ (case td_activeForm t of
          Some a \<Rightarrow> if td_status t = TodoInProgress \<and> a \<noteq> [] then js '' ('' @ a @ js '')'' else []
        | None \<Rightarrow> [])"

definition todo_summaryText :: "todo_manager \<Rightarrow> jsstr" where
  "todo_summaryText m =
     (if length (tm_items m) = 0 then js ''No todos. The agent creates them with the `todo` tool.''
      else case todo_counts m of (dn, tot) \<Rightarrow>
        join newline ((js ''Todos ('' @ num_str (int dn) @ js ''/'' @ num_str (int tot) @ js '')'')
          # map (\<lambda>t. js ''  '' @ todo_line t) (tm_items m)))"

definition todo_promptSection :: "todo_manager \<Rightarrow> jsstr" where
  "todo_promptSection m =
     (if length (tm_items m) = 0 then []
      else let op = length (filter (\<lambda>t. td_status t \<noteq> TodoCompleted) (tm_items m))
           in join newline
                ([js ''<todos>'',
                  js ''Current task list ('' @ num_str (int op) @ js '' open of ''
                    @ num_str (int (length (tm_items m))) @ js ''):'']
                 @ map todo_line (tm_items m) @ [js ''</todos>'']))"


section \<open>The id invariant\<close>

text \<open>Every id is below the counter; in a session that restores nothing foreign they are distinct.\<close>

definition ids_below :: "todo_manager \<Rightarrow> bool" where
  "ids_below m \<longleftrightarrow> (\<forall>t \<in> set (tm_items m). td_id t < tm_nextId m) \<and> 1 \<le> tm_nextId m"

definition todo_ok :: "todo_manager \<Rightarrow> bool" where
  "todo_ok m \<longleftrightarrow>
     ids_below m \<and> distinct (map td_id (tm_items m)) \<and> 0 \<le> tm_revision m \<and>
     (\<forall>t \<in> set (tm_items m). trimmed (td_subject t) \<and> length (td_subject t) \<le> SUBJECT_MAX)"

lemma markChanged_sel [simp]:
  "tm_items (markChanged m) = tm_items m" "tm_nextId (markChanged m) = tm_nextId m"
  "tm_sessionId (markChanged m) = tm_sessionId m" "tm_revision (markChanged m) = tm_revision m + 1"
  by (simp_all add: markChanged_def)

lemma clampSubject_ok [simp]: "trimmed (clampSubject s)" "length (clampSubject s) \<le> SUBJECT_MAX"
  by (simp_all add: clampSubject_def trimmed_clamp length_clamp SUBJECT_MAX_def)

lemma update_first_ids [simp]: "map td_id (update_first inp ts) = map td_id ts"
  by (induction inp ts rule: update_first.induct) (simp_all add: update_item_def)

lemma update_first_in: "t \<in> set (update_first inp ts) \<Longrightarrow> t \<in> set ts \<or> (\<exists>u \<in> set ts. t = update_item inp u)"
  by (induction inp ts rule: update_first.induct) (auto split: if_splits)

lemma max_id_ge: "t \<in> set ts \<Longrightarrow> td_id t \<le> max_id ts"
proof -
  have *: "mx \<le> foldl (\<lambda>mx t. max mx (td_id t)) mx ts \<and>
      (\<forall>t \<in> set ts. td_id t \<le> foldl (\<lambda>mx t. max mx (td_id t)) mx ts)" for mx ts
    by (induction ts arbitrary: mx) (auto intro: order_trans, (meson max.bounded_iff)+)
  show "t \<in> set ts \<Longrightarrow> td_id t \<le> max_id ts" using * [of 0 ts] by (simp add: max_id_def)
qed

lemma max_id_less: "(\<forall>t \<in> set ts. td_id t < n) \<Longrightarrow> 1 \<le> n \<Longrightarrow> max_id ts + 1 \<le> n"
proof -
  have *: "mx < n \<Longrightarrow> (\<forall>t \<in> set ts. td_id t < n) \<Longrightarrow> foldl (\<lambda>mx t. max mx (td_id t)) mx ts < n" for mx ts
    by (induction ts arbitrary: mx) auto
  show "(\<forall>t \<in> set ts. td_id t < n) \<Longrightarrow> 1 \<le> n \<Longrightarrow> max_id ts + 1 \<le> n"
    using * [of 0 ts] zless_imp_add1_zle [of "max_id ts" n] by (simp add: max_id_def)
qed

lemma max_id_nonneg: "0 \<le> max_id ts"
proof -
  have "mx \<le> foldl (\<lambda>mx t. max mx (td_id t)) mx ts" for mx ts
    by (induction ts arbitrary: mx) (auto intro: order_trans [OF max.cobounded1])
  then show ?thesis by (simp add: max_id_def)
qed

subsection \<open>The rewrite loop\<close>

text \<open>The id an entry carries: a claimed one that no earlier entry cited.\<close>

definition carried_id :: "int set \<Rightarrow> set_input list \<Rightarrow> nat \<Rightarrow> int option" where
  "carried_id claimed inputs k =
     (case si_id (inputs ! k) of None \<Rightarrow> None
      | Some i \<Rightarrow> if i \<in> claimed \<and> Some i \<notin> set (map si_id (take k inputs)) then Some i else None)"

lemma carried_id_Suc: "carried_id claimed (inp # rest) (Suc k) =
    carried_id (case si_id inp of Some i \<Rightarrow> claimed - {i} | None \<Rightarrow> claimed) rest k"
  by (auto simp: carried_id_def split: option.splits)

lemma set_loop_claimed:
  "(case si_id inp of Some i \<Rightarrow> claimed - {i} | None \<Rightarrow> claimed) =
     (case (case si_id inp of None \<Rightarrow> None | Some i \<Rightarrow> if i \<in> known \<and> i \<in> claimed then Some i else None)
      of None \<Rightarrow> claimed | Some i \<Rightarrow> claimed - {i})" if "claimed \<subseteq> known"
  using that by (auto split: option.split)

lemma set_loop_spec:
  "set_loop known claimed nid inputs = (items, nid') \<Longrightarrow> claimed \<subseteq> known \<Longrightarrow> \<forall>i \<in> known. i < nid \<Longrightarrow>
     length items = length inputs \<and> nid \<le> nid' \<and> distinct (map td_id items) \<and>
     (\<forall>t \<in> set items. td_id t \<in> claimed \<or> (nid \<le> td_id t \<and> td_id t < nid')) \<and>
     (\<forall>t \<in> set items. trimmed (td_subject t) \<and> length (td_subject t) \<le> SUBJECT_MAX) \<and>
     (\<forall>k < length inputs. case carried_id claimed inputs k of
         Some i \<Rightarrow> td_id (items ! k) = i | None \<Rightarrow> nid \<le> td_id (items ! k))"
proof (induction known claimed nid inputs arbitrary: items nid' rule: set_loop.induct)
  case (1 known claimed nid)
  then show ?case by simp
next
  case (2 known claimed nid inp rest)
  define car where "car = (case si_id inp of None \<Rightarrow> None
      | Some i \<Rightarrow> if i \<in> known \<and> i \<in> claimed then Some i else None)"
  define claimed' where "claimed' = (case car of None \<Rightarrow> claimed | Some i \<Rightarrow> claimed - {i})"
  define nid1 where "nid1 = (case car of None \<Rightarrow> nid + 1 | Some i \<Rightarrow> nid)"
  obtain its where rec: "set_loop known claimed' nid1 rest = (its, nid')"
    and items: "tl items = its" "items \<noteq> []" "td_id (hd items) = (case car of Some i \<Rightarrow> i | None \<Rightarrow> nid)"
      "td_subject (hd items) = clampSubject (si_subject inp)"
    using "2.prems"(1) by (auto simp: Let_def car_def claimed'_def nid1_def split: prod.splits)
  have sub: "claimed' \<subseteq> known" and bound: "\<forall>i \<in> known. i < nid1"
    using "2.prems"(2,3) by (auto simp: claimed'_def nid1_def split: option.split)
  note IH = "2.IH" [OF car_def claimed'_def nid1_def refl rec sub bound]
  have its: "items = hd items # its" using items by (metis list.collapse)
  have hd_id: "td_id (hd items) \<in> claimed \<or> (td_id (hd items) = nid \<and> nid1 = nid + 1)"
    using items(3) by (auto simp: car_def nid1_def split: option.splits if_splits)
  have fresh: "td_id (hd items) \<notin> td_id ` set its"
  proof
    assume "td_id (hd items) \<in> td_id ` set its"
    then have *: "td_id (hd items) \<in> claimed' \<or> nid1 \<le> td_id (hd items)" using IH by auto
    show False
    proof (cases car)
      case None
      then show False using * items(3) "2.prems"(2,3) by (auto simp: claimed'_def nid1_def)
    next
      case (Some i)
      then have "i \<in> known" by (auto simp: car_def split: option.splits if_splits)
      then show False using * items(3) "2.prems"(3) Some by (auto simp: claimed'_def nid1_def)
    qed
  qed
  have car: "claimed' = (case si_id inp of Some i \<Rightarrow> claimed - {i} | None \<Rightarrow> claimed)"
    using set_loop_claimed [OF "2.prems"(2), of inp] by (simp add: claimed'_def car_def)
  have "case carried_id claimed (inp # rest) k of
      Some i \<Rightarrow> td_id (items ! k) = i | None \<Rightarrow> nid \<le> td_id (items ! k)" if k: "k < Suc (length rest)" for k
  proof (cases k)
    case 0
    have "carried_id claimed (inp # rest) 0 = car"
      using "2.prems"(2) by (auto simp: carried_id_def car_def split: option.split)
    then show ?thesis using 0 items(2,3) by (simp add: hd_conv_nth [symmetric] split: option.splits)
  next
    case (Suc j)
    have "nid \<le> nid1" by (simp add: nid1_def split: option.split)
    moreover have "case carried_id claimed' rest j of
        Some i \<Rightarrow> td_id (its ! j) = i | None \<Rightarrow> nid1 \<le> td_id (its ! j)" using IH k Suc by simp
    moreover have "items ! Suc j = its ! j" by (subst its) simp
    ultimately show ?thesis unfolding Suc carried_id_Suc car [symmetric] by (auto split: option.splits)
  qed
  moreover have "nid \<le> nid1" "claimed' \<subseteq> claimed"
    by (auto simp: nid1_def claimed'_def split: option.split)
  moreover have "distinct (map td_id items) \<and> length items = Suc (length rest)"
    using fresh IH by (subst (1 2) its) simp
  moreover have "(td_id t \<in> claimed \<or> (nid \<le> td_id t \<and> td_id t < nid')) \<and> trimmed (td_subject t) \<and>
      length (td_subject t) \<le> SUBJECT_MAX" if t: "t \<in> set items" for t
  proof (cases "t = hd items")
    case True
    then show ?thesis using IH hd_id items(4) by auto
  next
    case False
    then have "t \<in> set its" using t its by (metis set_ConsD)
    then have "td_id t \<in> claimed' \<or> (nid1 \<le> td_id t \<and> td_id t < nid')"
      "trimmed (td_subject t) \<and> length (td_subject t) \<le> SUBJECT_MAX" using IH by auto
    with \<open>claimed' \<subseteq> claimed\<close> \<open>nid \<le> nid1\<close> show ?thesis by auto
  qed
  ultimately show ?case using IH by auto
qed

section \<open>Calls\<close>

datatype todo_call =
    Create create_input
  | Update update_input
  | SetList "set_input list"
  | Delete int
  | Clear
  | TodoTakeDirty
  | SetListener bool
  | SetSession jsstr

fun exec_todo :: "todo_call \<Rightarrow> todo_manager \<Rightarrow> todo_manager" where
  "exec_todo (Create inp) m = fst (todo_create inp m)"
| "exec_todo (Update inp) m = fst (todo_update inp m)"
| "exec_todo (SetList inps) m = fst (todo_set inps m)"
| "exec_todo (Delete i) m = fst (todo_delete i m)"
| "exec_todo Clear m = todo_clear m"
| "exec_todo TodoTakeDirty m = fst (todo_takeDirty m)"
| "exec_todo (SetListener l) m = setChangeListener l m"
| "exec_todo (SetSession s) m = setSessionId s m"

lemma claim_ids_eq: "claim_ids known inputs = {i. Some i \<in> set (map si_id inputs) \<and> i \<in> known}"
proof -
  have "fold (\<lambda>inp cl. case si_id inp of Some i \<Rightarrow> if i \<in> known then insert i cl else cl | None \<Rightarrow> cl) inputs cl
      = cl \<union> {i. Some i \<in> set (map si_id inputs) \<and> i \<in> known}" for cl
  proof (induction inputs arbitrary: cl)
    case (Cons inp inputs)
    then show ?case by (cases "si_id inp") auto
  qed simp
  then show ?thesis by (simp add: claim_ids_def)
qed

text \<open>What a rewrite does, from any state whose ids are below the counter.\<close>

lemma todo_set_spec:
  assumes "ids_below m" and "todo_set inputs m = (m', nxt)"
  shows "tm_items m' = nxt \<and> length nxt = length inputs \<and> distinct (map td_id nxt) \<and> ids_below m' \<and>
    tm_nextId m \<le> tm_nextId m' \<and>
    (\<forall>t \<in> set nxt. trimmed (td_subject t) \<and> length (td_subject t) \<le> SUBJECT_MAX) \<and>
    (\<forall>k < length inputs. case carried_id (td_id ` set (tm_items m)) inputs k of
        Some i \<Rightarrow> td_id (nxt ! k) = i | None \<Rightarrow> tm_nextId m \<le> td_id (nxt ! k))"
proof -
  let ?known = "set (map td_id (tm_items m))"
  let ?claimed = "{i. Some i \<in> set (map si_id inputs) \<and> i \<in> ?known}"
  obtain nid where loop: "set_loop ?known ?claimed (tm_nextId m) inputs = (nxt, nid)"
    and m': "m' = markChanged (m\<lparr>tm_items := nxt, tm_nextId := max nid (max_id nxt + 1)\<rparr>)"
    using assms(2) by (auto simp: todo_set_def claim_ids_eq Let_def split: prod.splits)
  have bound: "\<forall>i \<in> ?known. i < tm_nextId m" using assms(1) by (auto simp: ids_below_def)
  have "?claimed \<subseteq> ?known" by blast
  note spec = set_loop_spec [OF loop this bound]
  have "carried_id ?claimed inputs k = carried_id (td_id ` set (tm_items m)) inputs k" if "k < length inputs" for k
    using that by (auto simp: carried_id_def split: option.split) (metis nth_mem image_eqI)
  then have "\<forall>k < length inputs. case carried_id (td_id ` set (tm_items m)) inputs k of
        Some i \<Rightarrow> td_id (nxt ! k) = i | None \<Rightarrow> tm_nextId m \<le> td_id (nxt ! k)" using spec by auto
  moreover have "ids_below m'" using max_id_ge [of _ nxt] spec assms(1)
    by (fastforce simp: m' ids_below_def)
  ultimately show ?thesis using spec by (auto simp: m')
qed

lemma todo_ok_create: "todo_ok m \<Longrightarrow> todo_ok (fst (todo_create inp m))"
  by (auto simp: todo_ok_def ids_below_def todo_create_def Let_def) (force+)?

lemma todo_ok_update: "todo_ok m \<Longrightarrow> todo_ok (fst (todo_update inp m))"
proof (cases "todo_get (ui_id inp) m")
  case (Some t)
  assume ok: "todo_ok m"
  have "td_id u < tm_nextId m \<and> trimmed (td_subject u) \<and> length (td_subject u) \<le> SUBJECT_MAX"
    if "u \<in> set (update_first inp (tm_items m))" for u
    using update_first_in [OF that] ok
    by (auto simp: todo_ok_def ids_below_def update_item_def split: option.split)
  then show ?thesis using ok Some by (simp add: todo_update_def todo_ok_def ids_below_def)
qed (simp add: todo_update_def)

lemma todo_ok_set: "todo_ok m \<Longrightarrow> todo_ok (fst (todo_set inputs m))"
  using todo_set_spec [of m inputs "fst (todo_set inputs m)" "snd (todo_set inputs m)"]
  by (auto simp: todo_ok_def todo_set_def Let_def split: prod.splits)

lemma distinct_map_filter_ids: "distinct (map td_id ts) \<Longrightarrow> distinct (map td_id (filter P ts))"
  by (rule distinct_map_filter)

lemma todo_ok_call: "todo_ok m \<Longrightarrow> todo_ok (exec_todo c m)"
proof (cases c)
  case (Delete i)
  assume "todo_ok m"
  then show ?thesis using Delete
    by (auto simp: todo_delete_def Let_def todo_ok_def ids_below_def distinct_map_filter_ids)
next
  case Clear
  assume "todo_ok m"
  then show ?thesis using Clear by (auto simp: todo_clear_def Let_def todo_ok_def ids_below_def)
next
  case TodoTakeDirty
  assume "todo_ok m"
  then show ?thesis using TodoTakeDirty by (simp add: todo_takeDirty_def todo_ok_def ids_below_def)
next
  case (SetListener l)
  assume "todo_ok m"
  then show ?thesis using SetListener by (simp add: setChangeListener_def todo_ok_def ids_below_def)
next
  case (SetSession s)
  assume "todo_ok m"
  then show ?thesis using SetSession by (simp add: setSessionId_def todo_ok_def ids_below_def)
qed (simp_all add: todo_ok_create todo_ok_update todo_ok_set)

interpretation todo_session: event_machine exec_todo todo_ok
  by unfold_locales (rule todo_ok_call)

lemma todo_ok_new: "todo_ok new_todo_manager"
  by (simp add: todo_ok_def ids_below_def new_todo_manager_def)

text \<open>The revision counts the changes.\<close>

lemma revision_step:
  "tm_revision m \<le> tm_revision (exec_todo c m) \<and>
   (tm_revision (exec_todo c m) = tm_revision m \<longrightarrow> tm_items (exec_todo c m) = tm_items m)"
proof (cases c)
  case (Delete i)
  have "\<not> length (filter (\<lambda>t. td_id t \<noteq> i) (tm_items m)) < length (tm_items m) \<Longrightarrow>
      filter (\<lambda>t. td_id t \<noteq> i) (tm_items m) = tm_items m"
    by (metis length_filter_less filter_id_conv)
  then show ?thesis using Delete by (auto simp: todo_delete_def Let_def)
qed (auto simp: todo_create_def todo_update_def todo_set_def todo_clear_def todo_takeDirty_def
    setChangeListener_def setSessionId_def Let_def split: option.split prod.split)

lemma revision_run:
  "tm_revision m \<le> tm_revision (fold exec_todo cs m) \<and>
   (tm_revision (fold exec_todo cs m) = tm_revision m \<longrightarrow> tm_items (fold exec_todo cs m) = tm_items m)"
proof (induction cs arbitrary: m)
  case (Cons c cs)
  show ?case using revision_step [of m c] Cons.IH [of "exec_todo c m"] unfolding fold_simps(2) by (elim conjE, intro conjI impI) (linarith, metis order_antisym)
qed simp


section \<open>Persistence\<close>

lemma todo_status_name_inj: "todo_status_name a = todo_status_name b \<longleftrightarrow> a = b"
  by (cases a; cases b) (simp_all add: js_def)

lemma valid_todo_status_name: "valid_todo_status (todo_status_name st) = st"
  by (cases st) (simp_all add: valid_todo_status_def todo_status_name_inj del: todo_status_name.simps)

lemma restore_items_as_input: "List.map_filter restore_item (map todo_as_input ts) = ts"
  by (induction ts)
     (simp_all add: List.map_filter_simps restore_item_def todo_as_input_def valid_todo_status_name)

lemma todo_restore_serialize:
  assumes "todo_ok m" and "tm_sessionId t = [] \<or> tm_sessionId t = tm_sessionId m"
  shows "tm_items (todo_restore (Some (todo_serialize m)) t) = tm_items m \<and>
    tm_nextId (todo_restore (Some (todo_serialize m)) t) = tm_nextId m \<and>
    tm_revision (todo_restore (Some (todo_serialize m)) t) = tm_revision m \<and>
    tm_sessionId (todo_restore (Some (todo_serialize m)) t) = tm_sessionId m"
proof -
  have "max (tm_nextId m) (max_id (tm_items m) + 1) = tm_nextId m"
    using assms(1) max_id_less [of "tm_items m" "tm_nextId m"] by (auto simp: todo_ok_def ids_below_def)
  moreover have "\<not> foreign_session (todo_serialize m) t"
    using assms(2) by (auto simp: foreign_session_def todo_serialize_def)
  ultimately show ?thesis using assms
    by (auto simp: todo_restore_def todo_serialize_def Let_def restore_items_as_input todo_ok_def)
qed

interpretation todo_codec: snapshot_codec todo_serialize "\<lambda>d. todo_restore (Some d)"
  "\<lambda>m. (tm_items m, tm_nextId m, tm_revision m, tm_sessionId m)" todo_ok
  "\<lambda>t m. tm_sessionId t = [] \<or> tm_sessionId t = tm_sessionId m"
  using todo_restore_serialize by unfold_locales auto

text \<open>Restoring untrusted data leaves the counter above every id, whatever the data.\<close>

lemma ids_below_restore: "ids_below (todo_restore data m)"
  using max_id_ge max_id_nonneg
  by (fastforce simp: todo_restore_def ids_below_def Let_def le_max_iff_disj less_max_iff_disj
      split: option.split)

section \<open>Properties\<close>

text \<open>Ids never collide. After any sequence of calls from a fresh manager the ids of the list are
  pairwise distinct and below the counter the next item gets, and every subject is trimmed and at
  most 200 code units long.\<close>

theorem todo_ids_unique:
  "distinct (map td_id (tm_items (fold exec_todo cs new_todo_manager))) \<and>
   (\<forall>t \<in> set (tm_items (fold exec_todo cs new_todo_manager)).
      td_id t < tm_nextId (fold exec_todo cs new_todo_manager) \<and>
      trimmed (td_subject t) \<and> length (td_subject t) \<le> 200)"
  using todo_session.inv_run [OF todo_ok_new, of cs]
  by (auto simp: todo_ok_def ids_below_def SUBJECT_MAX_def)

theorem todo_ids_unique_witness:
  "map td_id (tm_items (fold exec_todo [Create \<lparr>ci_subject = [97], ci_description = None, ci_activeForm = None\<rparr>,
     Create \<lparr>ci_subject = [98], ci_description = None, ci_activeForm = None\<rparr>, Delete 1,
     Create \<lparr>ci_subject = [99], ci_description = None, ci_activeForm = None\<rparr>] new_todo_manager)) = [2, 3] \<and>
   distinct (map td_id (tm_items (fold exec_todo [Delete 1] new_todo_manager)))"
proof -
  have "map td_id (tm_items (fold exec_todo [Create \<lparr>ci_subject = [97], ci_description = None, ci_activeForm = None\<rparr>,
     Create \<lparr>ci_subject = [98], ci_description = None, ci_activeForm = None\<rparr>, Delete 1,
     Create \<lparr>ci_subject = [99], ci_description = None, ci_activeForm = None\<rparr>] new_todo_manager)) = [2, 3]"
    by code_simp
  then show ?thesis using todo_ids_unique [of "[Delete 1]"] by simp
qed

text \<open>The whole-list rewrite, even on a list restored with colliding ids: the new list has the
  caller's entries in the caller's order with pairwise distinct ids; an entry keeps its id exactly
  when that id was on the old list and no earlier entry cites it, and every other entry gets an id
  no old entry has.\<close>

theorem todo_set_carries:
  assumes "ids_below m" and "todo_set inputs m = (m', nxt)"
  shows "tm_items m' = nxt \<and> length nxt = length inputs \<and> distinct (map td_id nxt) \<and> ids_below m' \<and>
    (\<forall>k < length inputs. case carried_id (td_id ` set (tm_items m)) inputs k of
        Some i \<Rightarrow> td_id (nxt ! k) = i | None \<Rightarrow> tm_nextId m \<le> td_id (nxt ! k))"
  using todo_set_spec [OF assms] by blast

definition sample_entry :: "int option \<Rightarrow> set_input" where
  "sample_entry i = \<lparr> si_id = i, si_subject = [120], si_description = None, si_activeForm = None, si_status = None \<rparr>"

theorem todo_set_carries_witness:
  "map td_id (snd (todo_set [sample_entry (Some 1), sample_entry (Some 1), sample_entry (Some 7)]
     (fst (todo_set [sample_entry None] new_todo_manager)))) = [1, 2, 3] \<and>
   distinct (map td_id (snd (todo_set [sample_entry (Some 1), sample_entry (Some 1), sample_entry (Some 7)]
     (fst (todo_set [sample_entry None] new_todo_manager)))))"
proof -
  let ?m = "fst (todo_set [sample_entry None] new_todo_manager)"
  let ?in = "[sample_entry (Some 1), sample_entry (Some 1), sample_entry (Some 7)]"
  have "todo_ok ?m" by (rule todo_ok_set [OF todo_ok_new])
  then have below: "ids_below ?m" by (simp add: todo_ok_def)
  have "todo_set ?in ?m = (fst (todo_set ?in ?m), snd (todo_set ?in ?m))" by simp
  from todo_set_carries [OF below this] have "distinct (map td_id (snd (todo_set ?in ?m)))" by blast
  moreover have "map td_id (snd (todo_set ?in ?m)) = [1, 2, 3]" by code_simp
  ultimately show ?thesis by simp
qed

text \<open>Stale snapshots are recognised: when the list differs from what it was when a snapshot took
  the revision, whatever calls came in between, the snapshot is no longer current.\<close>

theorem todo_stale_snapshot:
  assumes "tm_items (fold exec_todo cs m) \<noteq> tm_items m"
  shows "\<not> isCurrentSnapshot (tm_revision m) sess (fold exec_todo cs m)"
  using revision_run [of m cs] assms by (auto simp: isCurrentSnapshot_def)

theorem todo_stale_snapshot_witness:
  "isCurrentSnapshot 0 None new_todo_manager \<and>
   \<not> isCurrentSnapshot 0 None (fold exec_todo [SetList [sample_entry None], TodoTakeDirty] new_todo_manager)"
proof -
  have "length (tm_items (fold exec_todo [SetList [sample_entry None], TodoTakeDirty] new_todo_manager)) = 1"
    by code_simp
  then have "tm_items (fold exec_todo [SetList [sample_entry None], TodoTakeDirty] new_todo_manager)
      \<noteq> tm_items new_todo_manager" by (auto simp: new_todo_manager_def)
  from todo_stale_snapshot [OF this, of None] show ?thesis
    by (simp add: new_todo_manager_def isCurrentSnapshot_def)
qed

text \<open>Persistence round trip: a snapshot of any session restored into a manager of the same or of
  no session gives back the items, the counter, the revision and the session; and restoring any
  data at all leaves the counter above every id.\<close>

theorem todo_roundtrip:
  assumes "tm_sessionId t = [] \<or> tm_sessionId t = tm_sessionId (fold exec_todo cs new_todo_manager)"
  shows "tm_items (todo_restore (Some (todo_serialize (fold exec_todo cs new_todo_manager))) t)
      = tm_items (fold exec_todo cs new_todo_manager) \<and>
    tm_nextId (todo_restore (Some (todo_serialize (fold exec_todo cs new_todo_manager))) t)
      = tm_nextId (fold exec_todo cs new_todo_manager) \<and>
    tm_revision (todo_restore (Some (todo_serialize (fold exec_todo cs new_todo_manager))) t)
      = tm_revision (fold exec_todo cs new_todo_manager) \<and>
    ids_below (todo_restore data t)"
  using todo_codec.restore_serialize [OF todo_session.inv_run [OF todo_ok_new, of cs] assms] ids_below_restore
  by simp

theorem todo_roundtrip_witness:
  "tm_nextId (todo_restore (Some (todo_serialize (fold exec_todo [SetList [sample_entry None]] new_todo_manager)))
     new_todo_manager) = 2"
proof -
  have "tm_nextId (fold exec_todo [SetList [sample_entry None]] new_todo_manager) = 2" by code_simp
  then show ?thesis
    using todo_roundtrip [of new_todo_manager "[SetList [sample_entry None]]"] by (simp add: new_todo_manager_def)
qed

end
