(* ===== verification/GoalContract.thy ===== *)
theory GoalContract
  imports Surrogate
begin

text \<open>
  The goal contract (core/goal/goal-contract.ts): the acceptance criteria derived from an objective's
  text and their rendering into the prompt. The regular expressions of the source are written out as
  functions on code units; each is anchored at the start of a line and deterministic, so that greedy
  consumption decides it. The lemmas show that a contract always has between one and sixteen
  criteria with the ids \<open>c1\<close>, \<open>c2\<close>, ..., and that no text can open or close a tag of the rendering.
\<close>


section \<open>Characters and lines\<close>

definition is_digit :: "jschar \<Rightarrow> bool" where
  "is_digit c \<longleftrightarrow> 48 \<le> c \<and> c \<le> 57"

text \<open>The bullets \<open>[-*+]\<close>.\<close>

definition is_bullet :: "jschar \<Rightarrow> bool" where
  "is_bullet c \<longleftrightarrow> c = 45 \<or> c = 42 \<or> c = 43"

text \<open>\<open>replace(/\r\n?/g, "\n")\<close> and \<open>split("\n")\<close>\<close>

fun norm_newlines :: "jsstr \<Rightarrow> jsstr" where
  "norm_newlines [] = []"
| "norm_newlines [c] = (if c = 13 then [10] else [c])"
| "norm_newlines (c # d # cs) =
     (if c = 13 then (if d = 10 then 10 # norm_newlines cs else 10 # norm_newlines (d # cs))
      else c # norm_newlines (d # cs))"

text \<open>\<open>\s+\<close> at the start: the rest after at least one white space, greedily.\<close>

definition after_ws1 :: "jsstr \<Rightarrow> jsstr option" where
  "after_ws1 s = (case s of [] \<Rightarrow> None | c # cs \<Rightarrow> if is_ws c then Some (dropWhile is_ws cs) else None)"

text \<open>\<open>[-*+]\s+\<close>\<close>

definition after_bullet :: "jsstr \<Rightarrow> jsstr option" where
  "after_bullet s = (case s of [] \<Rightarrow> None | c # cs \<Rightarrow> if is_bullet c then after_ws1 cs else None)"

text \<open>\<open>\d+[.)]\s+\<close>\<close>

definition after_number :: "jsstr \<Rightarrow> jsstr option" where
  "after_number s =
     (case s of [] \<Rightarrow> None
      | c # cs \<Rightarrow> if \<not> is_digit c then None
          else (case dropWhile is_digit cs of [] \<Rightarrow> None
                | d # ds \<Rightarrow> if d = 46 \<or> d = 41 then after_ws1 ds else None))"

text \<open>\<open>\[[ xX]\]\<close>\<close>

fun after_box :: "jsstr \<Rightarrow> jsstr option" where
  "after_box (a # b # c # cs) = (if a = 91 \<and> (b = 32 \<or> b = 120 \<or> b = 88) \<and> c = 93 then Some cs else None)"
| "after_box _ = None"

text \<open>\<open>/^\s*(?:[-*+]|\d+[.)])\s+/\<close>\<close>

definition after_marker :: "jsstr \<Rightarrow> jsstr option" where
  "after_marker s =
     (let r = dropWhile is_ws s
      in case after_bullet r of Some t \<Rightarrow> Some t | None \<Rightarrow> after_number r)"

definition is_item_line :: "jsstr \<Rightarrow> bool" where
  "is_item_line s \<longleftrightarrow> after_marker s \<noteq> None"

text \<open>\<open>/^\s*(?:[-*+]|\d+[.)])\s+\S/\<close>\<close>

definition is_full_item_line :: "jsstr \<Rightarrow> bool" where
  "is_full_item_line s \<longleftrightarrow> (case after_marker s of None \<Rightarrow> False | Some t \<Rightarrow> t \<noteq> [])"

text \<open>\<open>/^\s*[-*+]?\s*\[[ xX]\]\s+\S/\<close>\<close>

definition is_checkbox_line :: "jsstr \<Rightarrow> bool" where
  "is_checkbox_line s \<longleftrightarrow>
     (let r = dropWhile is_ws s;
          r' = (case r of [] \<Rightarrow> [] | c # cs \<Rightarrow> if is_bullet c then cs else r)
      in case after_box (dropWhile is_ws r') of
           None \<Rightarrow> False
         | Some t \<Rightarrow> (case after_ws1 t of None \<Rightarrow> False | Some u \<Rightarrow> u \<noteq> []))"

text \<open>\<open>/^\s*#{1,6}\s+/\<close>\<close>

definition is_heading_line :: "jsstr \<Rightarrow> bool" where
  "is_heading_line s \<longleftrightarrow>
     (let r = dropWhile is_ws s; n = length (takeWhile (\<lambda>c. c = 35) r)
      in 1 \<le> n \<and> n \<le> 6 \<and> after_ws1 (dropWhile (\<lambda>c. c = 35) r) \<noteq> None)"

text \<open>\<open>/\S/\<close>\<close>

definition has_nonblank :: "jsstr \<Rightarrow> bool" where
  "has_nonblank s \<longleftrightarrow> list_ex (\<lambda>c. \<not> is_ws c) s"

text \<open>Case folding of the \<open>i\<close> flag on the letters the header pattern uses.\<close>

definition fold_case :: "jschar \<Rightarrow> jschar" where
  "fold_case c = (if (65 \<le> c \<and> c \<le> 90) \<or> c = 0xC9 then c + 32 else c)"

definition header_names :: "jsstr list" where
  "header_names =
     [js ''requisitos'', js ''crit'' @ [0xE9] @ js ''rio de aceite'', js ''crit'' @ [0xE9] @ js ''rios de aceite'',
      js ''acceptance criteria'', js ''requirements'']"

text \<open>\<open>/^(?:...)\s*:??$/i\<close> on a trimmed line: the name, white space, and at most one colon.\<close>

definition is_header :: "jsstr \<Rightarrow> bool" where
  "is_header s \<longleftrightarrow>
     list_ex (\<lambda>name.
        map fold_case (take (length name) s) = name \<and>
        (let r = dropWhile is_ws (drop (length name) s) in r = [] \<or> r = [58])) header_names"


section \<open>Deriving the criteria\<close>

definition strip_marker :: "(jsstr \<Rightarrow> jsstr option) \<Rightarrow> jsstr \<Rightarrow> jsstr" where
  "strip_marker f s = (case f s of Some t \<Rightarrow> t | None \<Rightarrow> s)"

definition itemsFromLines :: "jsstr list \<Rightarrow> jsstr list" where
  "itemsFromLines lines =
     filter (\<lambda>s. s \<noteq> [])
       (map (\<lambda>line. trim (strip_marker (\<lambda>s. map_option (dropWhile is_ws) (after_box s))
                 (strip_marker after_number (strip_marker after_bullet line))))
         (map trim lines))"

datatype contract_source = ExplicitList | WholeObjective | LegacyRestore

record goal_criterion =
  gc_id :: jsstr
  gc_text :: jsstr

record goal_contract =
  contract_revision :: int
  contract_source :: contract_source
  criteria :: "goal_criterion list"

definition MAX_GOAL_CRITERIA :: nat where "MAX_GOAL_CRITERIA = 16"

fun header_section :: "jsstr list \<Rightarrow> jsstr list" where
  "header_section [] = []"
| "header_section (line # lines) =
     (if is_heading_line line \<or> (has_nonblank line \<and> \<not> is_item_line line) then []
      else line # header_section lines)"

fun after_header :: "jsstr list \<Rightarrow> jsstr list option" where
  "after_header [] = None"
| "after_header (line # lines) = (if is_header (trim line) then Some lines else after_header lines)"

text \<open>The three attempts in order, then the fallback to the whole objective.\<close>

definition checkbox_criteria :: "jsstr list \<Rightarrow> jsstr list" where
  "checkbox_criteria lines = itemsFromLines (filter is_checkbox_line lines)"

definition derive_criteria :: "contract_source option \<Rightarrow> jsstr \<Rightarrow> jsstr list \<times> contract_source" where
  "derive_criteria src original =
     (let lines = split_lines (norm_newlines original);
          whole = (case src of Some s \<Rightarrow> s | None \<Rightarrow> WholeObjective);
          expl = (case src of Some s \<Rightarrow> s | None \<Rightarrow> ExplicitList);
          c1 = (checkbox_criteria lines, whole);
          c2 = (if fst c1 = [] then
                  (case after_header lines of
                     None \<Rightarrow> c1
                   | Some rest \<Rightarrow> (itemsFromLines (filter is_item_line (header_section rest)), expl))
                else c1);
          c3 = (if fst c2 = [] then
                  (let items = itemsFromLines (filter is_full_item_line lines)
                   in if 2 \<le> length items then (items, expl) else ([], snd c2))
                else c2)
      in if fst c3 = [] \<or> MAX_GOAL_CRITERIA < length (fst c3) then ([original], whole) else c3)"

definition criterion_id :: "nat \<Rightarrow> jsstr" where
  "criterion_id n = js ''c'' @ num_str (int n)"

definition deriveGoalContract :: "jsstr \<Rightarrow> int \<Rightarrow> contract_source option \<Rightarrow> goal_contract" where
  "deriveGoalContract objective rvn src =
     (let original = sliceSafe (trim objective) 0 4000; (crit, sel) = derive_criteria src original
      in \<lparr> contract_revision = max 1 rvn, contract_source = sel,
           criteria = map (\<lambda>(i, text). \<lparr> gc_id = criterion_id (i + 1), gc_text = text \<rparr>) (enumerate 0 crit) \<rparr>)"


section \<open>Rendering\<close>

fun escape_char :: "jschar \<Rightarrow> jsstr" where
  "escape_char c = (if c = 38 then js ''&amp;'' else if c = 60 then js ''&lt;''
     else if c = 62 then js ''&gt;'' else [c])"

text \<open>The three global replacements, \<open>&\<close> first, escape each character once.\<close>

definition escapeText :: "jsstr \<Rightarrow> jsstr" where
  "escapeText s = concat (map escape_char s)"

definition render_criterion :: "jsstr \<Rightarrow> goal_criterion \<Rightarrow> jsstr" where
  "render_criterion objective c =
     js ''['' @ gc_id c @ js ''] ''
     @ escapeText (if trim (gc_text c) = trim objective then js ''Complete the objective above.'' else gc_text c)"

definition renderGoalContract :: "goal_contract \<Rightarrow> jsstr \<Rightarrow> jsstr \<Rightarrow> jsstr" where
  "renderGoalContract contract st objective =
     js ''<goal status='' @ [34] @ escapeText st @ [34] @ js '' contract_revision='' @ [34]
     @ num_str (contract_revision contract) @ [34] @ js ''>'' @ newline
     @ js ''Objetivo: '' @ escapeText objective @ newline
     @ join newline (map (render_criterion objective) (criteria contract)) @ newline @ js ''</goal>''"


section \<open>The criteria of a contract\<close>

lemma itemsFromLines_nonblank: "t \<in> set (itemsFromLines ls) \<Longrightarrow> t \<noteq> [] \<and> trimmed t"
  by (auto simp: itemsFromLines_def)

lemma derive_criteria_bounds:
  "1 \<le> length (fst (derive_criteria src s)) \<and> length (fst (derive_criteria src s)) \<le> MAX_GOAL_CRITERIA"
proof -
  have b: "1 \<le> length (fst (if fst c = [] \<or> MAX_GOAL_CRITERIA < length (fst c) then ([s], w) else c)) \<and>
      length (fst (if fst c = [] \<or> MAX_GOAL_CRITERIA < length (fst c) then ([s], w) else c)) \<le> MAX_GOAL_CRITERIA"
    for c :: "jsstr list \<times> contract_source" and w
    by (cases "fst c") (auto simp: MAX_GOAL_CRITERIA_def)
  show ?thesis unfolding derive_criteria_def Let_def by (rule b)
qed

lemma derive_criteria_texts:
  "t \<in> set (fst (derive_criteria src s)) \<Longrightarrow> t = s \<or> (t \<noteq> [] \<and> trimmed t)"
  unfolding derive_criteria_def Let_def checkbox_criteria_def
  by (auto split: option.splits if_splits dest: itemsFromLines_nonblank)

lemma criteria_derive:
  "length (criteria (deriveGoalContract obj r src)) = length (fst (derive_criteria src (sliceSafe (trim obj) 0 4000)))"
  "map gc_text (criteria (deriveGoalContract obj r src)) = fst (derive_criteria src (sliceSafe (trim obj) 0 4000))"
  "map gc_id (criteria (deriveGoalContract obj r src)) =
     map criterion_id [1..<Suc (length (criteria (deriveGoalContract obj r src)))]"
proof -
  have fst_enum: "map (\<lambda>x. criterion_id (Suc (fst x))) (enumerate n xs) = map criterion_id [Suc n..<Suc (n + length xs)]"
    for n and xs :: "jsstr list"
  proof -
    have "map (\<lambda>x. criterion_id (Suc (fst x))) (enumerate n xs) = map criterion_id (map Suc (map fst (enumerate n xs)))"
      by (simp only: map_map comp_def)
    also have "\<dots> = map criterion_id [Suc n..<Suc (n + length xs)]"
      unfolding map_fst_enumerate map_Suc_upt ..
    finally show ?thesis .
  qed
  show "length (criteria (deriveGoalContract obj r src)) = length (fst (derive_criteria src (sliceSafe (trim obj) 0 4000)))"
    "map gc_text (criteria (deriveGoalContract obj r src)) = fst (derive_criteria src (sliceSafe (trim obj) 0 4000))"
    by (simp_all add: deriveGoalContract_def Let_def comp_def case_prod_beta)
  show "map gc_id (criteria (deriveGoalContract obj r src)) =
     map criterion_id [1..<Suc (length (criteria (deriveGoalContract obj r src)))]"
    using fst_enum [of 0] by (simp add: deriveGoalContract_def Let_def comp_def case_prod_beta)
qed


section \<open>No injection\<close>

text \<open>Neither \<open><\<close> nor \<open>>\<close>.\<close>

definition no_angle :: "jsstr \<Rightarrow> bool" where
  "no_angle s \<longleftrightarrow> 60 \<notin> set s \<and> 62 \<notin> set s"

lemma no_angle_append [simp]: "no_angle (s @ t) \<longleftrightarrow> no_angle s \<and> no_angle t"
  by (auto simp: no_angle_def)

lemma no_angle_Nil [simp]: "no_angle []"
  by (simp add: no_angle_def)

lemma no_angle_Cons [simp]: "no_angle (c # s) \<longleftrightarrow> c \<noteq> 60 \<and> c \<noteq> 62 \<and> no_angle s"
  by (auto simp: no_angle_def)

lemma no_angle_escape [simp]: "no_angle (escapeText s)"
proof -
  have "no_angle (escape_char c)" for c by (simp add: js_def)
  then show ?thesis by (induction s) (simp_all add: escapeText_def del: escape_char.simps)
qed

lemma no_angle_digits [simp]: "no_angle (digits n)"
proof (induction n rule: digits.induct)
  case (1 n)
  have d: "(of_nat (48 + k) :: jschar) \<noteq> 60 \<and> (of_nat (48 + k) :: jschar) \<noteq> 62" if "k < 10" for k :: nat
  proof -
    have "k = 0 \<or> k = 1 \<or> k = 2 \<or> k = 3 \<or> k = 4 \<or> k = 5 \<or> k = 6 \<or> k = 7 \<or> k = 8 \<or> k = 9"
      using that by presburger
    then show ?thesis by (elim disjE) simp_all
  qed
  show ?case using d [of n] d [of "n mod 10"] 1 by (subst digits.simps) simp
qed

lemma no_angle_num [simp]: "no_angle (num_str i)"
  by (simp add: num_str_def)

lemma no_angle_newline [simp]: "no_angle newline"
  by (simp add: newline_def)

lemma no_angle_join: "(\<forall>s \<in> set ss. no_angle s) \<Longrightarrow> no_angle (join newline ss)"
  by (induction "newline" ss rule: join.induct) simp_all

text \<open>The text between the opening and the closing tag has no angle bracket.\<close>

lemma render_body:
  "(\<forall>c \<in> set (criteria k). no_angle (gc_id c)) \<Longrightarrow>
     \<exists>attrs body. renderGoalContract k st obj = js ''<goal'' @ attrs @ js ''>'' @ body @ js ''</goal>''
       \<and> no_angle attrs \<and> no_angle body"
proof (intro exI conjI)
  let ?attrs = "js '' status='' @ [34] @ escapeText st @ [34] @ js '' contract_revision='' @ [34]
     @ num_str (contract_revision k) @ [34]"
  let ?body = "newline @ js ''Objetivo: '' @ escapeText obj @ newline
     @ join newline (map (render_criterion obj) (criteria k)) @ newline"
  assume ids: "\<forall>c \<in> set (criteria k). no_angle (gc_id c)"
  show "renderGoalContract k st obj = js ''<goal'' @ ?attrs @ js ''>'' @ ?body @ js ''</goal>''"
    by (simp add: renderGoalContract_def js_def)
  show "no_angle ?attrs" by (simp add: js_def)
  have "\<forall>c \<in> set (criteria k). no_angle (render_criterion obj c)"
    using ids by (simp add: render_criterion_def) (simp add: js_def)
  then show "no_angle ?body" by (simp add: no_angle_join js_def)
qed

lemma criterion_ids_no_angle: "c \<in> set (criteria (deriveGoalContract obj r src)) \<Longrightarrow> no_angle (gc_id c)"
proof -
  assume "c \<in> set (criteria (deriveGoalContract obj r src))"
  then have "gc_id c \<in> set (map gc_id (criteria (deriveGoalContract obj r src)))" by simp
  then show ?thesis unfolding criteria_derive(3) by (auto simp: criterion_id_def) (simp_all add: js_def)
qed

section \<open>Properties\<close>

text \<open>Whatever the objective's text, its contract has between one and sixteen criteria, numbered
  \<open>c1\<close>, \<open>c2\<close>, ... in order, each of them either the whole (bounded) objective or a non-blank trimmed
  item, and a revision of at least 1.\<close>

theorem goal_contract_bounded:
  "1 \<le> length (criteria (deriveGoalContract obj r src)) \<and>
   length (criteria (deriveGoalContract obj r src)) \<le> 16 \<and>
   map gc_id (criteria (deriveGoalContract obj r src)) =
     map criterion_id [1..<Suc (length (criteria (deriveGoalContract obj r src)))] \<and>
   set (map gc_text (criteria (deriveGoalContract obj r src))) \<subseteq>
     insert (sliceSafe (trim obj) 0 4000) {t. t \<noteq> [] \<and> trimmed t} \<and>
   1 \<le> contract_revision (deriveGoalContract obj r src)"
  using derive_criteria_bounds [of src "sliceSafe (trim obj) 0 4000"] derive_criteria_texts [of _ src]
    criteria_derive [of obj r src]
  by (auto simp: MAX_GOAL_CRITERIA_def deriveGoalContract_def Let_def case_prod_beta)

text \<open>No prompt injection through the goal section: the rendering of a derived contract is one
  opening tag, a body and one closing tag, and neither the status nor the objective nor any
  criterion puts an angle bracket into the attributes or the body.\<close>

theorem goal_render_no_injection:
  "\<exists>attrs body. renderGoalContract (deriveGoalContract obj r src) st obj' =
       js ''<goal'' @ attrs @ js ''>'' @ body @ js ''</goal>'' \<and> no_angle attrs \<and> no_angle body"
  using render_body [of "deriveGoalContract obj r src" st obj'] criterion_ids_no_angle by blast

end
