(* ===== verification/PathMatch.thy ===== *)
theory PathMatch
  imports JsBase
begin

text \<open>
  The matchers of the permission system (core/permissions/matcher.ts, core/regex-budget.ts): globs over
  absolute paths and regular expressions over command lines, both cut at a length cap and bounded by a
  time budget. Paths are POSIX paths. The JavaScript \<open>RegExp\<close> constructor, the canonical form of a path
  (realpath) and the clock are fields of a host record. The lemmas show what a glob matches, that an
  exact path is a glob for itself, and that running out of time is never mistaken for a clean pass.
\<close>


section \<open>The host\<close>

text \<open>
  \<open>h_regexp pattern flags\<close> is \<open>new RegExp(pattern, flags)\<close>: \<open>None\<close> when it throws, else its test.
  \<open>h_canonical\<close> is \<open>canonicalPathKey\<close>: \<open>None\<close> when it throws. \<open>h_fold\<close> is the case folding of the \<open>i\<close> flag
  the platform asks for in globs (the identity on Linux). \<open>h_stall\<close> is the time a glob test waits after
  its deadline was set. A command check has a deadline of its own: \<open>ck_elapsed k\<close> is its age at the
  \<open>k\<close>-th rule and \<open>ck_finish\<close> its age after the last one; the deny rules and the allow rules are checked
  one after the other, each against a fresh deadline.
\<close>

record clock =
  ck_elapsed :: "nat \<Rightarrow> int"
  ck_finish :: int

record host =
  h_regexp :: "jsstr \<Rightarrow> jsstr \<Rightarrow> (jsstr \<Rightarrow> bool) option"
  h_canonical :: "jsstr \<Rightarrow> jsstr option"
  h_fold :: "jschar \<Rightarrow> jschar"
  h_stall :: int
  h_deny_clock :: clock
  h_allow_clock :: clock

text \<open>Time does not run backwards during a check.\<close>

definition clock_forward :: "clock \<Rightarrow> bool" where
  "clock_forward ck \<longleftrightarrow> (\<forall>k. ck_elapsed ck k \<le> ck_finish ck)"


section \<open>Time and length budgets\<close>

definition REGEX_TEST_BUDGET_MS :: int where "REGEX_TEST_BUDGET_MS = 40"

definition REGEX_TEST_TEXT_CAP :: nat where "REGEX_TEST_TEXT_CAP = 10000"

definition SAFE_REGEX_MAX_LENGTH :: nat where "SAFE_REGEX_MAX_LENGTH = 200"

text \<open>A deadline is described by its age: it was created \<open>age\<close> milliseconds ago.\<close>

definition isRegexBudgetExpired :: "int \<Rightarrow> bool" where
  "isRegexBudgetExpired age \<longleftrightarrow> REGEX_TEST_BUDGET_MS < age"

definition haystack :: "jsstr \<Rightarrow> jsstr" where
  "haystack text = (if REGEX_TEST_TEXT_CAP < length text then js_slice text 0 REGEX_TEST_TEXT_CAP else text)"

definition testRegexWithinBudget :: "(jsstr \<Rightarrow> bool) \<Rightarrow> jsstr \<Rightarrow> int \<Rightarrow> bool option" where
  "testRegexWithinBudget re text age = (if isRegexBudgetExpired age then None else Some (re (haystack text)))"

lemma haystack_take: "haystack text = take REGEX_TEST_TEXT_CAP text"
  by (simp add: haystack_def slice_zero)

lemma haystack_short [simp]: "length text \<le> REGEX_TEST_TEXT_CAP \<Longrightarrow> haystack text = text"
  by (simp add: haystack_def)


section \<open>Paths\<close>

text \<open>POSIX \<open>path.isAbsolute\<close> and \<open>path.resolve(cwd, path)\<close> for an absolute \<open>cwd\<close>.\<close>

definition slash :: jschar where "slash = 47"

definition isAbsolute :: "jsstr \<Rightarrow> bool" where
  "isAbsolute p \<longleftrightarrow> p \<noteq> [] \<and> hd p = slash"

fun split_slash :: "jsstr \<Rightarrow> jsstr list" where
  "split_slash [] = [[]]"
| "split_slash (c # s) =
     (if c = slash then [] # split_slash s
      else (case split_slash s of [] \<Rightarrow> [[c]] | seg # segs \<Rightarrow> (c # seg) # segs))"

text \<open>The segments kept, newest first: empty ones and \<open>.\<close> vanish, \<open>..\<close> removes its predecessor.\<close>

fun norm_segments :: "jsstr list \<Rightarrow> jsstr list \<Rightarrow> jsstr list" where
  "norm_segments [] acc = acc"
| "norm_segments (seg # segs) acc =
     (if seg = [] \<or> seg = js ''.'' then norm_segments segs acc
      else if seg = js ''..'' then norm_segments segs (tl acc)
      else norm_segments segs (seg # acc))"

definition resolve :: "jsstr \<Rightarrow> jsstr \<Rightarrow> jsstr" where
  "resolve cwd p =
     slash # join [slash] (rev (norm_segments (split_slash (if isAbsolute p then p else cwd @ [slash] @ p)) []))"

definition normalizePathForMatch :: "jsstr \<Rightarrow> jsstr" where
  "normalizePathForMatch p = map (\<lambda>c. if c = 92 then slash else c) p"

definition normalizeTargetPath :: "jsstr \<Rightarrow> jsstr \<Rightarrow> jsstr" where
  "normalizeTargetPath p cwd = normalizePathForMatch (if isAbsolute p then p else resolve cwd p)"


section \<open>Globs\<close>

text \<open>The pieces a pattern compiles to: \<open>.*\<close>, \<open>[^/]*\<close>, \<open>[^/]\<close>, \<open>.\<close> and an escaped or plain character.\<close>

datatype glob_tok = GAll | GSegment | GOne | GDot | GLit jschar

definition GLOB_MAX_DOUBLE_STAR :: nat where "GLOB_MAX_DOUBLE_STAR = 3"

text \<open>\<open>left\<close> counts the \<open>**\<close> still allowed; \<open>None\<close>: the pattern has too many and compiling throws.\<close>

function glob_tokens :: "nat \<Rightarrow> jsstr \<Rightarrow> glob_tok list option" where
  "glob_tokens left [] = Some []"
| "glob_tokens left (c # s) =
     (if c = 42 then
        (case s of
           [] \<Rightarrow> Some [GSegment]
         | d # s' \<Rightarrow>
             if d = 42 then
               (case left of
                  0 \<Rightarrow> None
                | Suc l \<Rightarrow> map_option (Cons GAll) (glob_tokens l (if s' \<noteq> [] \<and> hd s' = slash then tl s' else s')))
             else map_option (Cons GSegment) (glob_tokens left s))
      else if c = 63 then map_option (Cons GOne) (glob_tokens left s)
      else map_option (Cons (GLit c)) (glob_tokens left s))"
  by pat_completeness auto
termination
  by (relation "measure (\<lambda>(left, s). length s)") auto

definition globToRegExp :: "jsstr \<Rightarrow> glob_tok list option" where
  "globToRegExp pattern = glob_tokens GLOB_MAX_DOUBLE_STAR (normalizePathForMatch pattern)"

definition line_end :: "jschar \<Rightarrow> bool" where
  "line_end c \<longleftrightarrow> c = 10 \<or> c = 13 \<or> c = 0x2028 \<or> c = 0x2029"

text \<open>The anchored regular expression \<open>^...$\<close> of a token list.\<close>

fun rx_match :: "(jschar \<Rightarrow> jschar) \<Rightarrow> glob_tok list \<Rightarrow> jsstr \<Rightarrow> bool" where
  "rx_match fd [] s = (s = [])"
| "rx_match fd (GLit c # ts) [] = False"
| "rx_match fd (GLit c # ts) (x # s) = (fd x = fd c \<and> rx_match fd ts s)"
| "rx_match fd (GOne # ts) [] = False"
| "rx_match fd (GOne # ts) (x # s) = (x \<noteq> slash \<and> rx_match fd ts s)"
| "rx_match fd (GDot # ts) [] = False"
| "rx_match fd (GDot # ts) (x # s) = (\<not> line_end x \<and> rx_match fd ts s)"
| "rx_match fd (GSegment # ts) [] = rx_match fd ts []"
| "rx_match fd (GSegment # ts) (x # s) =
     (rx_match fd ts (x # s) \<or> (x \<noteq> slash \<and> rx_match fd (GSegment # ts) s))"
| "rx_match fd (GAll # ts) [] = rx_match fd ts []"
| "rx_match fd (GAll # ts) (x # s) =
     (rx_match fd ts (x # s) \<or> (\<not> line_end x \<and> rx_match fd (GAll # ts) s))"

definition matchGlob :: "host \<Rightarrow> jsstr \<Rightarrow> jsstr \<Rightarrow> bool" where
  "matchGlob h pattern p =
     (case globToRegExp pattern of
        None \<Rightarrow> False
      | Some ts \<Rightarrow> testRegexWithinBudget (rx_match (h_fold h) ts) (normalizePathForMatch p) (h_stall h) = Some True)"


section \<open>Rules\<close>

record path_rule =
  pr_glob :: jsstr
  pr_tools :: "jsstr list option"
  pr_reason :: "jsstr option"

text \<open>
  The rule lists the checker passes are the user's rules followed by the built-in sensitive ones; the
  reference check \<open>SENSITIVE_PATH_RULE_IDENTITY.has\<close> is the tag.
\<close>

type_synonym tagged_rule = "bool \<times> path_rule"

definition is_ads_char :: "jschar \<Rightarrow> bool" where
  "is_ads_char c \<longleftrightarrow> (65 \<le> c \<and> c \<le> 90) \<or> (97 \<le> c \<and> c \<le> 122) \<or> c = 95"

text \<open>\<open>/::\$[A-Za-z_]+$/\<close>, then one trailing space or dot.\<close>

definition strip_ads :: "jsstr \<Rightarrow> jsstr" where
  "strip_ads p =
     (let r = rev p; name = takeWhile is_ads_char r; rest = dropWhile is_ads_char r
      in if name \<noteq> [] \<and> take 3 rest = [36, 58, 58] then rev (drop 3 rest) else p)"

definition stripWindowsPathQuirks :: "jsstr \<Rightarrow> jsstr" where
  "stripWindowsPathQuirks p =
     (let q = strip_ads p in if q \<noteq> [] \<and> (last q = 32 \<or> last q = 46) then butlast q else q)"

definition matchesSensitiveGlob :: "host \<Rightarrow> jsstr \<Rightarrow> jsstr \<Rightarrow> bool" where
  "matchesSensitiveGlob h pattern target =
     (if matchGlob h pattern target then True
      else
        let stripped = stripWindowsPathQuirks target
        in if stripped \<noteq> target \<and> matchGlob h pattern stripped then True
           else case h_canonical h target of
                  None \<Rightarrow> True
                | Some key \<Rightarrow>
                    if matchGlob h pattern key then True
                    else if stripped \<noteq> target
                    then (case h_canonical h stripped of None \<Rightarrow> True | Some key' \<Rightarrow> matchGlob h pattern key')
                    else False)"

definition rule_applies :: "path_rule \<Rightarrow> jsstr \<Rightarrow> bool" where
  "rule_applies r toolName =
     (case pr_tools r of None \<Rightarrow> True | Some ts \<Rightarrow> toolName = [] \<or> toolName \<in> set ts)"

definition rule_matches :: "host \<Rightarrow> jsstr \<Rightarrow> jsstr \<Rightarrow> tagged_rule \<Rightarrow> bool" where
  "rule_matches h target toolName tr =
     (rule_applies (snd tr) toolName \<and>
      (if fst tr then matchesSensitiveGlob h (pr_glob (snd tr)) target else matchGlob h (pr_glob (snd tr)) target))"

definition findMatchingGlob :: "host \<Rightarrow> tagged_rule list \<Rightarrow> jsstr \<Rightarrow> jsstr \<Rightarrow> path_rule option" where
  "findMatchingGlob h rules target toolName = map_option snd (find (rule_matches h target toolName) rules)"


section \<open>Command rules\<close>

record command_rule =
  cr_pattern :: jsstr
  cr_flags :: "jsstr option"
  cr_reason :: "jsstr option"

text \<open>
  Regular expression sources are written with \<open>%\<close> for the backslash, which a HOL string literal cannot
  hold; none of them contains a percent sign.
\<close>

definition rx_source :: "string \<Rightarrow> jsstr" where
  "rx_source s = map (\<lambda>c. if c = 37 then 92 else c) (js s)"

text \<open>The expressions \<open>validateSafeRegex\<close> tests a pattern with: nested quantifiers, then two in a row.\<close>

definition UNSAFE_REGEX :: "jsstr list" where
  \<open>UNSAFE_REGEX =
     [rx_source ''%((?:[^()%%]|%%.)*[+*]%)[+*?]'',
      rx_source ''%((?:[^()%%]|%%.)*[+*]%)%{[%d,]+%}'',
      rx_source ''%(%?(?:[:!=]|<[=!]?)(?:[^()%%]|%%.)*[+*]%)[+*?{]'',
      (let unbounded = rx_source ''(?:%*|%+|%{(?:%d+)?,%s*%})'';
           atom = rx_source ''(?:%%.|%[(?:[^%]%%]|%%.)*%]|%((?:[^()%%]|%%.)*%)|[^%%()[%]{}|*+?])''
       in atom @ unbounded @ rx_source ''%??'' @ atom @ unbounded)]\<close>

definition validateSafeRegex :: "host \<Rightarrow> jsstr \<Rightarrow> bool" where
  "validateSafeRegex h source \<longleftrightarrow>
     length source \<le> SAFE_REGEX_MAX_LENGTH \<and>
     \<not> list_ex (\<lambda>p. case h_regexp h p [] of None \<Rightarrow> False | Some test \<Rightarrow> test source) UNSAFE_REGEX"

text \<open>A rule that is unsafe or does not compile is skipped.\<close>

definition compile_rule :: "host \<Rightarrow> command_rule \<Rightarrow> (jsstr \<Rightarrow> bool) option" where
  "compile_rule h r =
     (if validateSafeRegex h (cr_pattern r)
      then h_regexp h (cr_pattern r) (case cr_flags r of Some f \<Rightarrow> f | None \<Rightarrow> js ''i'')
      else None)"

text \<open>\<open>k\<close> counts the rules looked at; an expired budget ends the search without a match.\<close>

fun find_command :: "host \<Rightarrow> clock \<Rightarrow> nat \<Rightarrow> command_rule list \<Rightarrow> jsstr \<Rightarrow> command_rule option" where
  "find_command h ck k [] command = None"
| "find_command h ck k (r # rules) command =
     (case compile_rule h r of
        None \<Rightarrow> find_command h ck (Suc k) rules command
      | Some re \<Rightarrow>
          (case testRegexWithinBudget re command (ck_elapsed ck k) of
             None \<Rightarrow> None
           | Some True \<Rightarrow> Some r
           | Some False \<Rightarrow> find_command h ck (Suc k) rules command))"

definition findMatchingCommandRule :: "host \<Rightarrow> clock \<Rightarrow> command_rule list \<Rightarrow> jsstr \<Rightarrow> command_rule option" where
  "findMatchingCommandRule h ck rules command = find_command h ck 0 rules command"

definition wasRegexBudgetExceeded :: "clock \<Rightarrow> bool" where
  "wasRegexBudgetExceeded ck \<longleftrightarrow> isRegexBudgetExpired (ck_finish ck)"


section \<open>What a glob matches\<close>

lemma rx_match_all: "list_all (\<lambda>x. \<not> line_end x) a \<Longrightarrow> rx_match fd ts b \<Longrightarrow> rx_match fd (GAll # ts) (a @ b)"
proof (induction a)
  case Nil
  then show ?case by (cases b) simp_all
qed simp

lemma rx_match_all_split:
  "rx_match fd (GAll # ts) s \<Longrightarrow> \<exists>a b. s = a @ b \<and> list_all (\<lambda>x. \<not> line_end x) a \<and> rx_match fd ts b"
proof (induction s)
  case Nil
  then show ?case by simp
next
  case (Cons x s)
  show ?case
  proof (cases "rx_match fd ts (x # s)")
    case True
    show ?thesis by (rule exI [of _ "[]"]) (use True in simp)
  next
    case False
    with Cons.prems have x: "\<not> line_end x" "rx_match fd (GAll # ts) s" by simp_all
    then obtain a b where "s = a @ b" "list_all (\<lambda>x. \<not> line_end x) a" "rx_match fd ts b" using Cons.IH by blast
    then show ?thesis by - (rule exI [of _ "x # a"], use x(1) in auto)
  qed
qed

lemma rx_match_segment: "slash \<notin> set a \<Longrightarrow> rx_match fd ts b \<Longrightarrow> rx_match fd (GSegment # ts) (a @ b)"
proof (induction a)
  case Nil
  then show ?case by (cases b) simp_all
qed auto

lemma rx_match_segment_split:
  "rx_match fd (GSegment # ts) s \<Longrightarrow> \<exists>a b. s = a @ b \<and> slash \<notin> set a \<and> rx_match fd ts b"
proof (induction s)
  case Nil
  then show ?case by simp
next
  case (Cons x s)
  show ?case
  proof (cases "rx_match fd ts (x # s)")
    case True
    show ?thesis by (rule exI [of _ "[]"]) (use True in simp)
  next
    case False
    with Cons.prems have x: "x \<noteq> slash" "rx_match fd (GSegment # ts) s" by simp_all
    then obtain a b where "s = a @ b" "slash \<notin> set a" "rx_match fd ts b" using Cons.IH by blast
    then show ?thesis by - (rule exI [of _ "x # a"], use x(1) in auto)
  qed
qed

lemma rx_match_lits: "rx_match fd (map GLit w) w"
  by (induction w) simp_all

lemma rx_match_lits_prefix: "rx_match fd (map GLit w @ ts) (w @ s) = rx_match fd ts s"
  by (induction w) simp_all

lemma glob_tokens_plain:
  "42 \<notin> set w \<Longrightarrow> 63 \<notin> set w \<Longrightarrow> glob_tokens n w = Some (map GLit w)"
  by (induction w) auto

lemma normalize_no_special: "c \<noteq> slash \<Longrightarrow> c \<notin> set p \<Longrightarrow> c \<notin> set (normalizePathForMatch p)"
  by (auto simp: normalizePathForMatch_def)

lemma normalize_idem [simp]: "normalizePathForMatch (normalizePathForMatch p) = normalizePathForMatch p"
  by (auto simp: normalizePathForMatch_def slash_def)

lemma length_normalize [simp]: "length (normalizePathForMatch p) = length p"
  by (simp add: normalizePathForMatch_def)

lemma resolve_absolute: "isAbsolute (normalizeTargetPath p cwd)"
  by (auto simp: normalizeTargetPath_def normalizePathForMatch_def isAbsolute_def resolve_def slash_def hd_map)

text \<open>A path without glob characters, used as a glob, matches itself.\<close>

lemma glob_matches_itself:
  assumes "42 \<notin> set p" "63 \<notin> set p" "length p \<le> REGEX_TEST_TEXT_CAP" "\<not> isRegexBudgetExpired (h_stall h)"
  shows "matchGlob h p p"
proof -
  have "globToRegExp p = Some (map GLit (normalizePathForMatch p))"
    unfolding globToRegExp_def
    by (rule glob_tokens_plain) (use assms(1,2) in \<open>auto simp: normalizePathForMatch_def slash_def\<close>)
  then show ?thesis
    using assms(3,4) by (simp add: matchGlob_def testRegexWithinBudget_def rx_match_lits)
qed


section \<open>Time and unsafe patterns\<close>

text \<open>The search is cut short only when the budget has run out by its end.\<close>

lemma find_command_complete:
  assumes "\<forall>k. \<not> isRegexBudgetExpired (ck_elapsed ck k)"
  shows "find_command h ck k rules command =
    find (\<lambda>r. case compile_rule h r of None \<Rightarrow> False | Some re \<Rightarrow> re (haystack command)) rules"
proof (induction rules arbitrary: k)
  case (Cons r rules)
  then show ?case using assms
    by (simp add: testRegexWithinBudget_def split: option.split bool.split)
qed simp

lemma within_budget:
  "clock_forward ck \<Longrightarrow> \<not> wasRegexBudgetExceeded ck \<Longrightarrow> \<not> isRegexBudgetExpired (ck_elapsed ck k)"
  unfolding clock_forward_def wasRegexBudgetExceeded_def isRegexBudgetExpired_def by (meson not_le order_trans)

text \<open>Only the first 10,000 characters of a command line are looked at.\<close>

lemma find_command_cap: "find_command h ck k rules command = find_command h ck k rules (take REGEX_TEST_TEXT_CAP command)"
  by (induction rules arbitrary: k) (simp_all add: testRegexWithinBudget_def haystack_take split: option.split bool.split)

end
