(* ===== verification/GoalReceipt.thy ===== *)
theory GoalReceipt
  imports GoalContract PathMatch "HOL-Library.Sublist"
begin

text \<open>
  The completion receipt (core/goal/goal-receipt.ts): its data and \<open>validateGoalEvidence\<close>, the gate a
  goal completion must pass. The file system is a parameter (\<open>fs_view\<close>): the working directory, an absolute path,
  and what \<open>existsSync\<close>, \<open>lstatSync().isFile()\<close>, \<open>realpathSync\<close> (\<open>None\<close> when it throws) and the platform's case
  folding answer. Paths are POSIX paths.
  The lemmas show what a valid verdict guarantees.
\<close>


section \<open>Data\<close>

datatype evidence_kind = ChangedFile | DeletedFile | ReferencedFile | Attested

record evidence_receipt =
  er_kind :: evidence_kind
  er_ref :: "jsstr option"
  er_note :: "jsstr option"

datatype grounding_kind = GroundObserved | GroundAttested

record criterion_receipt =
  cr_id :: jsstr
  cr_text :: jsstr
  cr_outcome :: jsstr
  cr_evidence :: "evidence_receipt list"
  cr_grounding :: grounding_kind

record gate_receipt =
  gr_id :: jsstr
  gr_label :: jsstr
  gr_source :: jsstr
  gr_cached :: bool
  gr_durationMs :: "int option"

datatype attribution = AttrKnown | AttrUnknown | AttrNotApplicable

datatype mechanism = GoalGates | LegacyProbe | NoMechanism

datatype verification_status = VerificationPassed | VerificationInapplicable

datatype review_status = ReviewPassed | ReviewNotApplicable | ReviewWaived

record receipt_usage =
  us_tokens :: int
  us_iterations :: int
  us_activeMs :: int

text \<open>The draft, and the receipt: a draft with its usage and completion time.\<close>

record receipt_draft =
  rd_goalId :: jsstr
  rd_objective :: jsstr
  rd_contractRevision :: int
  rd_criteria :: "criterion_receipt list"
  rd_mutation_revision :: int
  rd_mutation_paths :: "jsstr list"
  rd_attribution :: attribution
  rd_mechanism :: mechanism
  rd_verification :: verification_status
  rd_reason :: "jsstr option"
  rd_gates :: "gate_receipt list"
  rd_selfReview :: review_status
  rd_impactReview :: review_status

record goal_receipt =
  grc_draft :: receipt_draft
  grc_usage :: receipt_usage
  grc_completedAt :: int

datatype evidence_input = PathEvidence jsstr "jsstr option" | ClaimEvidence jsstr

record criterion_input =
  cin_id :: jsstr
  cin_outcome :: jsstr
  cin_evidence :: "evidence_input list"

datatype evidence_error =
    CriteriaRequired
  | CountMismatch
  | MissingCriterion jsstr
  | DuplicateCriterion jsstr
  | InvalidOutcome jsstr
  | BadReferenceCount jsstr
  | InvalidClaim jsstr
  | InvalidPath jsstr jsstr
  | NotAFile jsstr jsstr
  | DoesNotExist jsstr jsstr
  | UnknownCriterion jsstr
  | NoMutationCited

record evidence_validation =
  ev_valid :: bool
  ev_errors :: "evidence_error list"
  ev_criteria :: "criterion_receipt list"

record fs_view =
  fs_cwd :: jsstr
  fs_exists :: "jsstr \<Rightarrow> bool"
  fs_isFile :: "jsstr \<Rightarrow> bool"
  fs_realpath :: "jsstr \<Rightarrow> jsstr option"
  fs_fold :: "jsstr \<Rightarrow> jsstr"

definition MAX_GOAL_RECEIPT_BYTES :: nat where "MAX_GOAL_RECEIPT_BYTES = 24 * 1024"

definition MAX_OUTCOME :: nat where "MAX_OUTCOME = 600"

definition MAX_NOTE :: nat where "MAX_NOTE = 400"

definition MAX_REFS :: nat where "MAX_REFS = 6"


section \<open>Paths\<close>

text \<open>\<open>path.trim().replace(/\\/g, "/").replace(/^\.\//, "")\<close>\<close>

definition strip_dot_slash :: "jsstr \<Rightarrow> jsstr" where
  "strip_dot_slash s = (if take 2 s = [46, 47] then drop 2 s else s)"

definition normalizePath :: "jsstr \<Rightarrow> jsstr" where
  "normalizePath p = strip_dot_slash (map (\<lambda>c. if c = 92 then 47 else c) (trim p))"

definition comparisonKey :: "fs_view \<Rightarrow> jsstr \<Rightarrow> jsstr" where
  "comparisonKey fs p = fs_fold fs (normalizePath p)"


text \<open>\<open>path.relative\<close> of two resolved paths: up from what they do not share, and down to the target.\<close>

definition segments :: "jsstr \<Rightarrow> jsstr list" where
  "segments p = filter (\<lambda>s. s \<noteq> []) (split_slash p)"

fun drop_common :: "'a list \<Rightarrow> 'a list \<Rightarrow> 'a list \<times> 'a list" where
  "drop_common (x # xs) (y # ys) = (if x = y then drop_common xs ys else (x # xs, y # ys))"
| "drop_common xs ys = (xs, ys)"

definition relative :: "jsstr \<Rightarrow> jsstr \<Rightarrow> jsstr" where
  "relative root target =
     (let (up, down) = drop_common (segments root) (segments target)
      in join [slash] (replicate (length up) [46, 46] @ down))"

definition contained :: "jsstr \<Rightarrow> jsstr \<Rightarrow> bool" where
  "contained root target =
     (let rel = relative root target
      in rel = [] \<or> (rel \<noteq> [46, 46] \<and> take 3 rel \<noteq> [46, 46, slash] \<and> \<not> isAbsolute rel))"

text \<open>The first path on the way up that exists; the segments are given last first.\<close>

fun existing_ancestor :: "fs_view \<Rightarrow> jsstr list \<Rightarrow> jsstr option" where
  "existing_ancestor fs [] = (if fs_exists fs [slash] then Some [slash] else None)"
| "existing_ancestor fs (s # up) =
     (let existing = slash # join [slash] (rev (s # up))
      in if fs_exists fs existing then Some existing else existing_ancestor fs up)"

definition lexical_root :: "fs_view \<Rightarrow> jsstr" where
  "lexical_root fs = resolve (fs_cwd fs) (fs_cwd fs)"

definition inside :: "fs_view \<Rightarrow> jsstr \<Rightarrow> bool" where
  "inside fs candidate =
     (let lexicalTarget = resolve (lexical_root fs) candidate
      in contained (lexical_root fs) lexicalTarget \<and>
         (case fs_realpath fs (lexical_root fs) of
            None \<Rightarrow> False
          | Some realRoot \<Rightarrow>
              (case existing_ancestor fs (rev (segments lexicalTarget)) of
                 None \<Rightarrow> False
               | Some existing \<Rightarrow>
                   (case fs_realpath fs existing of None \<Rightarrow> False | Some r \<Rightarrow> contained realRoot r))))"


section \<open>Containment\<close>

lemma split_slash_ne [simp]: "split_slash s \<noteq> []"
  by (induction s) (auto split: list.split)

lemma split_slash_plain: "seg \<in> set (split_slash s) \<Longrightarrow> slash \<notin> set seg"
  by (induction s arbitrary: seg) (auto split: list.splits if_splits)

lemma split_slash_append: "slash \<notin> set a \<Longrightarrow> split_slash (a @ slash # b) = a # split_slash b"
  by (induction a) auto

lemma split_slash_single: "slash \<notin> set a \<Longrightarrow> split_slash a = [a]"
  by (induction a) auto

lemma split_join: "segs \<noteq> [] \<Longrightarrow> list_all (\<lambda>s. slash \<notin> set s) segs \<Longrightarrow> split_slash (join [slash] segs) = segs"
  by (induction "[slash]" segs rule: join.induct) (simp_all add: split_slash_single split_slash_append)

definition plain_segment :: "jsstr \<Rightarrow> bool" where
  "plain_segment s \<longleftrightarrow> s \<noteq> [] \<and> s \<noteq> [46, 46] \<and> slash \<notin> set s"

lemma segments_path: "list_all plain_segment segs \<Longrightarrow> segments (slash # join [slash] segs) = segs"
proof (cases "segs = []")
  case False
  assume p: "list_all plain_segment segs"
  then have "split_slash (join [slash] segs) = segs" using split_join [OF False] by (auto simp: list_all_iff plain_segment_def)
  then show ?thesis using p by (auto simp: segments_def filter_id_conv list_all_iff plain_segment_def)
qed (simp add: segments_def)

lemma norm_plain:
  "list_all plain_segment acc \<Longrightarrow> list_all (\<lambda>s. slash \<notin> set s) segs \<Longrightarrow> list_all plain_segment (norm_segments segs acc)"
proof (induction segs acc rule: norm_segments.induct)
  case (2 seg segs acc)
  have "list_all plain_segment (tl acc)" using 2(4) by (cases acc) simp_all
  moreover have "seg \<noteq> [] \<Longrightarrow> seg \<noteq> [46, 46] \<Longrightarrow> plain_segment seg" using 2(5) by (simp add: plain_segment_def)
  ultimately show ?case using 2 by (auto simp: js_def)
qed simp

lemma resolved_plain: "list_all plain_segment (segments (resolve cwd p))"
proof -
  let ?segs = "rev (norm_segments (split_slash (if isAbsolute p then p else cwd @ [slash] @ p)) [])"
  have "list_all plain_segment ?segs"
    using norm_plain [of "[]"] split_slash_plain by (auto simp: list_all_iff)
  then show ?thesis unfolding resolve_def by (simp only: segments_path)
qed

lemma drop_common_prefix: "fst (drop_common xs ys) = [] \<longleftrightarrow> prefix xs ys"
  by (induction xs ys rule: drop_common.induct) auto

lemma drop_common_rest: "set (snd (drop_common xs ys)) \<subseteq> set ys"
  by (induction xs ys rule: drop_common.induct) auto

lemma segment_first: "slash \<notin> set s \<Longrightarrow> take 3 (s @ slash # r) = [46, 46, slash] \<Longrightarrow> s = [46, 46]"
  by (cases s; cases "tl s"; cases "tl (tl s)") (auto simp: slash_def)

text \<open>One resolved path contains another exactly when its segments are the first ones of the other.\<close>

lemma contained_prefix:
  assumes "list_all plain_segment (segments target)"
  shows "contained root target \<longleftrightarrow> prefix (segments root) (segments target)"
proof -
  obtain up down where d: "drop_common (segments root) (segments target) = (up, down)" by fastforce
  have up: "up = [] \<longleftrightarrow> prefix (segments root) (segments target)" using drop_common_prefix [of "segments root" "segments target"] d by simp
  have down: "list_all plain_segment down" using drop_common_rest [of "segments root" "segments target"] d assms by (auto simp: list_all_iff)
  have rel: "relative root target = join [slash] (replicate (length up) [46, 46] @ down)" by (simp add: relative_def d)
  show ?thesis
  proof (cases up)
    case Nil
    have "contained root target"
    proof (cases down)
      case (Cons s segs)
      then have s: "s \<noteq> []" "s \<noteq> [46, 46]" "slash \<notin> set s" using down by (simp_all add: plain_segment_def)
      have shape: "relative root target = s \<or> (\<exists>r. relative root target = s @ slash # r)"
        using rel Nil Cons by (cases segs) auto
      have "take 3 s \<noteq> [46, 46, slash]" using s(3) by (metis in_set_takeD list.set_intros(1,2))
      moreover have "s @ slash # r \<noteq> [46, 46]" for r using s(1,3) by (cases s; cases "tl s") (auto simp: slash_def)
      moreover have "hd s \<noteq> slash" using s(1,3) hd_in_set by metis
      moreover have "take 3 (s @ slash # r) \<noteq> [46, 46, slash]" for r using s(2) segment_first [OF s(3)] by blast
      ultimately have "s \<noteq> [46, 46] \<and> take 3 s \<noteq> [46, 46, slash] \<and> \<not> isAbsolute s"
        "s @ slash # r \<noteq> [46, 46] \<and> take 3 (s @ slash # r) \<noteq> [46, 46, slash] \<and> \<not> isAbsolute (s @ slash # r)" for r
        using s(1,2) by (simp_all only: isAbsolute_def hd_append2 not_False_eq_True simp_thms append_is_Nil_conv)
      then show ?thesis using shape unfolding contained_def Let_def by metis
    qed (simp add: contained_def rel Nil)
    then show ?thesis using up Nil by simp
  next
    case (Cons x xs)
    have "relative root target = [46, 46] \<or> (\<exists>r. relative root target = [46, 46] @ slash # r)"
      using rel Cons by (cases "replicate (length xs) [46, 46] @ down") auto
    then have "\<not> contained root target" by (auto simp: contained_def Let_def)
    then show ?thesis using up Cons by simp
  qed
qed

lemma existing_ancestor_on_path:
  "existing_ancestor fs up = Some existing \<Longrightarrow>
     fs_exists fs existing \<and> (\<exists>k \<le> length up. existing = slash # join [slash] (rev (drop k up)) \<and>
       (\<forall>j < k. \<not> fs_exists fs (slash # join [slash] (rev (drop j up)))))"
proof (induction up)
  case (Cons s up)
  show ?case
  proof (cases "fs_exists fs (slash # join [slash] (rev (s # up)))")
    case True
    then show ?thesis using Cons.prems by (auto simp: Let_def intro!: exI [of _ 0])
  next
    case False
    then obtain k where k: "fs_exists fs existing" "k \<le> length up" "existing = slash # join [slash] (rev (drop k up))"
        "\<forall>j < k. \<not> fs_exists fs (slash # join [slash] (rev (drop j up)))"
      using Cons by (auto simp: Let_def)
    have "\<not> fs_exists fs (slash # join [slash] (rev (drop j (s # up))))" if "j < Suc k" for j
      using that False k(4) by (cases j) auto
    then show ?thesis using k by (intro conjI exI [of _ "Suc k"]) auto
  qed
qed (auto split: if_splits)


section \<open>Validation\<close>

text \<open>One evidence reference: the errors it raises and the receipt it yields, with whether it was observed.\<close>

definition check_ref :: "fs_view \<Rightarrow> jsstr set \<Rightarrow> jsstr \<Rightarrow> evidence_input
    \<Rightarrow> evidence_error + (evidence_receipt \<times> bool)" where
  "check_ref fs mutated cid r =
     (case r of
        ClaimEvidence n \<Rightarrow>
          (let note = trim n
           in if note = [] \<or> MAX_NOTE < length note then Inl (InvalidClaim cid)
              else Inr (\<lparr> er_kind = Attested, er_ref = None, er_note = Some note \<rparr>, False))
      | PathEvidence p n \<Rightarrow>
          (let path = normalizePath p;
               note = map_option trim n;
               shown = (case note of Some t \<Rightarrow> if t = [] then None else Some t | None \<Rightarrow> None)
           in if path = [] \<or> (case note of Some t \<Rightarrow> t \<noteq> [] \<and> MAX_NOTE < length t | None \<Rightarrow> False)
                 \<or> \<not> inside fs path
              then Inl (InvalidPath cid path)
              else let changed = comparisonKey fs path \<in> mutated; absolute = resolve (fs_cwd fs) path
              in if fs_exists fs absolute
                 then (if \<not> fs_isFile fs absolute then Inl (NotAFile cid path)
                       else Inr (\<lparr> er_kind = (if changed then ChangedFile else ReferencedFile),
                                   er_ref = Some path, er_note = shown \<rparr>, True))
                 else if changed
                 then Inr (\<lparr> er_kind = DeletedFile, er_ref = Some path, er_note = shown \<rparr>, True)
                 else Inl (DoesNotExist cid path)))"

fun lefts :: "('e + 'a) list \<Rightarrow> 'e list" where
  "lefts [] = []"
| "lefts (Inl e # xs) = e # lefts xs"
| "lefts (Inr a # xs) = lefts xs"

fun rights :: "('e + 'a) list \<Rightarrow> 'a list" where
  "rights [] = []"
| "rights (Inl e # xs) = rights xs"
| "rights (Inr a # xs) = a # rights xs"

text \<open>One contract criterion.\<close>

definition check_criterion :: "fs_view \<Rightarrow> jsstr set \<Rightarrow> criterion_input list \<Rightarrow> goal_criterion
    \<Rightarrow> evidence_error list \<times> criterion_receipt option" where
  "check_criterion fs mutated input c =
     (case mget (map_from (map (\<lambda>i. (cin_id i, i)) input)) (gc_id c) of
        None \<Rightarrow> ([MissingCriterion (gc_id c)], None)
      | Some item \<Rightarrow>
          (let outcome = trim (cin_outcome item);
               refs = map (check_ref fs mutated (gc_id c)) (cin_evidence item)
           in ((if length (filter (\<lambda>e. cin_id e = gc_id c) input) \<noteq> 1 then [DuplicateCriterion (gc_id c)] else [])
               @ (if outcome = [] \<or> MAX_OUTCOME < length outcome then [InvalidOutcome (gc_id c)] else [])
               @ (if cin_evidence item = [] \<or> MAX_REFS < length (cin_evidence item)
                  then [BadReferenceCount (gc_id c)] else [])
               @ lefts refs,
               Some \<lparr> cr_id = gc_id c, cr_text = gc_text c, cr_outcome = outcome,
                      cr_evidence = map fst (rights refs),
                      cr_grounding = (if list_ex snd (rights refs) then GroundObserved else GroundAttested) \<rparr>)))"

definition cites_mutation :: "fs_view \<Rightarrow> criterion_receipt list \<Rightarrow> jsstr \<Rightarrow> bool" where
  "cites_mutation fs crs path \<longleftrightarrow>
     list_ex (\<lambda>c. list_ex (\<lambda>e. case er_ref e of None \<Rightarrow> False
       | Some r \<Rightarrow> r \<noteq> [] \<and> comparisonKey fs r = comparisonKey fs path) (cr_evidence c)) crs"

definition validateGoalEvidence :: "fs_view \<Rightarrow> goal_contract \<Rightarrow> criterion_input list option \<Rightarrow> jsstr list
    \<Rightarrow> evidence_validation" where
  "validateGoalEvidence fs contract input mutatedPaths =
     (case input of
        None \<Rightarrow> \<lparr> ev_valid = False, ev_errors = [CriteriaRequired], ev_criteria = [] \<rparr>
      | Some inp \<Rightarrow>
          (let mutated = set (map (comparisonKey fs) mutatedPaths);
               results = map (check_criterion fs mutated inp) (criteria contract);
               crs = List.map_filter snd results;
               errors = (if length inp \<noteq> length (criteria contract) then [CountMismatch] else [])
                 @ concat (map fst results)
                 @ map (\<lambda>i. UnknownCriterion (cin_id i))
                     (filter (\<lambda>i. \<not> list_ex (\<lambda>c. gc_id c = cin_id i) (criteria contract)) inp)
                 @ (if 0 < length mutatedPaths \<and> list_ex (\<lambda>p. p \<noteq> []) mutatedPaths
                       \<and> \<not> list_ex (cites_mutation fs crs) mutatedPaths
                    then [NoMutationCited] else [])
           in \<lparr> ev_valid = (length errors = 0), ev_errors = errors, ev_criteria = crs \<rparr>))"


section \<open>What a valid verdict guarantees\<close>

lemma lefts_Nil: "lefts xs = [] \<Longrightarrow> length (rights xs) = length xs \<and> map Inr (rights xs) = xs"
proof (induction xs)
  case (Cons x xs)
  then show ?case by (cases x) auto
qed simp

text \<open>
  A path cited as evidence lies inside the workspace and exists, or was changed by the goal. It lies inside by its
  spelling, and the nearest existing path above it still does when symbolic links are followed.
\<close>

definition in_workspace :: "fs_view \<Rightarrow> jsstr \<Rightarrow> bool" where
  "in_workspace fs p \<longleftrightarrow> prefix (segments (lexical_root fs)) (segments (resolve (lexical_root fs) p)) \<and>
     (\<exists>k existing realRoot real. k \<le> length (segments (resolve (lexical_root fs) p)) \<and>
        existing = slash # join [slash] (take k (segments (resolve (lexical_root fs) p))) \<and> fs_exists fs existing \<and>
        (\<forall>j \<le> length (segments (resolve (lexical_root fs) p)). k < j \<longrightarrow>
           \<not> fs_exists fs (slash # join [slash] (take j (segments (resolve (lexical_root fs) p))))) \<and>
        fs_realpath fs (lexical_root fs) = Some realRoot \<and> fs_realpath fs existing = Some real \<and> contained realRoot real)"

lemma inside_workspace: "inside fs p \<Longrightarrow> in_workspace fs p"
proof -
  assume i: "inside fs p"
  let ?segs = "segments (resolve (lexical_root fs) p)"
  obtain realRoot existing real where r: "contained (lexical_root fs) (resolve (lexical_root fs) p)"
      "fs_realpath fs (lexical_root fs) = Some realRoot" "existing_ancestor fs (rev ?segs) = Some existing"
      "fs_realpath fs existing = Some real" "contained realRoot real"
    using i by (auto simp: inside_def Let_def split: option.splits)
  obtain k where k: "fs_exists fs existing" "k \<le> length ?segs" "existing = slash # join [slash] (rev (drop k (rev ?segs)))"
      "\<forall>j < k. \<not> fs_exists fs (slash # join [slash] (rev (drop j (rev ?segs))))"
    using existing_ancestor_on_path [OF r(3)] by auto
  have up: "rev (drop j (rev ?segs)) = take (length ?segs - j) ?segs" for j by (simp add: rev_drop)
  have above: "\<not> fs_exists fs (slash # join [slash] (take j ?segs))" if "j \<le> length ?segs" "length ?segs - k < j" for j
    using k(4) [rule_format, of "length ?segs - j"] that k(2) by (simp add: up)
  show ?thesis unfolding in_workspace_def
    using contained_prefix [OF resolved_plain] r k above
    by (intro conjI exI [of _ "length ?segs - k"] exI [of _ existing] exI [of _ realRoot] exI [of _ real]) (auto simp: up)
qed

definition grounded :: "fs_view \<Rightarrow> jsstr set \<Rightarrow> evidence_receipt \<Rightarrow> bool" where
  "grounded fs mutated e \<longleftrightarrow>
     (case er_ref e of
        None \<Rightarrow> er_kind e = Attested
      | Some p \<Rightarrow> in_workspace fs p \<and>
          (case er_kind e of
             ChangedFile \<Rightarrow> fs_exists fs (resolve (fs_cwd fs) p) \<and> fs_isFile fs (resolve (fs_cwd fs) p) \<and> comparisonKey fs p \<in> mutated
           | ReferencedFile \<Rightarrow> fs_exists fs (resolve (fs_cwd fs) p) \<and> fs_isFile fs (resolve (fs_cwd fs) p) \<and> comparisonKey fs p \<notin> mutated
           | DeletedFile \<Rightarrow> \<not> fs_exists fs (resolve (fs_cwd fs) p) \<and> comparisonKey fs p \<in> mutated
           | Attested \<Rightarrow> False))"

lemma check_ref_grounded:
  "check_ref fs mutated cid r = Inr (e, ob) \<Longrightarrow> grounded fs mutated e \<and> (ob \<longleftrightarrow> er_kind e \<noteq> Attested)"
  by (auto simp: check_ref_def grounded_def Let_def intro: inside_workspace split: evidence_input.splits if_splits)

definition receipt_ok :: "fs_view \<Rightarrow> jsstr set \<Rightarrow> criterion_receipt \<Rightarrow> bool" where
  "receipt_ok fs mutated r \<longleftrightarrow>
     cr_outcome r \<noteq> [] \<and> length (cr_outcome r) \<le> MAX_OUTCOME \<and>
     1 \<le> length (cr_evidence r) \<and> length (cr_evidence r) \<le> MAX_REFS \<and>
     list_all (grounded fs mutated) (cr_evidence r) \<and>
     (cr_grounding r = GroundObserved \<longleftrightarrow> list_ex (\<lambda>e. er_kind e \<noteq> Attested) (cr_evidence r))"

lemma check_criterion_ok:
  assumes "check_criterion fs mutated inp c = ([], res)"
  shows "\<exists>r. res = Some r \<and> cr_id r = gc_id c \<and> cr_text r = gc_text c \<and> receipt_ok fs mutated r \<and>
    length (filter (\<lambda>i. cin_id i = gc_id c) inp) = 1"
proof -
  obtain item where item: "mget (map_from (map (\<lambda>i. (cin_id i, i)) inp)) (gc_id c) = Some item"
    using assms by (cases "mget (map_from (map (\<lambda>i. (cin_id i, i)) inp)) (gc_id c)") (auto simp: check_criterion_def)
  define refs where "refs = map (check_ref fs mutated (gc_id c)) (cin_evidence item)"
  have l: "lefts refs = []" using assms item by (simp add: check_criterion_def Let_def refs_def)
  note r = lefts_Nil [OF l]
  have g: "grounded fs mutated (fst x) \<and> (snd x \<longleftrightarrow> er_kind (fst x) \<noteq> Attested)" if "x \<in> set (rights refs)" for x
  proof -
    have "Inr x \<in> set refs" using r that by (metis image_eqI set_map)
    then obtain q where "check_ref fs mutated (gc_id c) q = Inr (fst x, snd x)" by (auto simp: refs_def)
    then show ?thesis by (rule check_ref_grounded)
  qed
  have "list_ex snd (rights refs) \<longleftrightarrow> list_ex (\<lambda>e. er_kind e \<noteq> Attested) (map fst (rights refs))"
    using g by (auto simp: list_ex_iff)
  moreover have "length (rights refs) = length (cin_evidence item)" using r by (simp add: refs_def)
  moreover have "list_all (grounded fs mutated) (map fst (rights refs))" using g by (auto simp: list_all_iff)
  ultimately show ?thesis
    using assms item
    by (auto simp: check_criterion_def Let_def refs_def [symmetric] receipt_ok_def Suc_le_eq split: if_splits)
qed

text \<open>C35: A completion that validates is backed by evidence: there is exactly one entry per contract
  criterion and no other entry; the receipts are the contract's criteria in order; each has a
  non-empty outcome and one to six references, each an attested note or a path inside the workspace
  (by its spelling, and with symbolic links followed from its nearest existing ancestor) that exists or that the goal
  itself deleted; \<open>observed\<close> is claimed only for real files; and a goal
  that changed files cites at least one of them.\<close>

theorem valid_evidence_sound:
  assumes "ev_valid (validateGoalEvidence fs contract input mutatedPaths)"
  shows "\<exists>inp. input = Some inp \<and> length inp = length (criteria contract) \<and>
    map (\<lambda>r. (cr_id r, cr_text r)) (ev_criteria (validateGoalEvidence fs contract input mutatedPaths))
      = map (\<lambda>c. (gc_id c, gc_text c)) (criteria contract) \<and>
    (\<forall>c \<in> set (criteria contract). length (filter (\<lambda>i. cin_id i = gc_id c) inp) = 1) \<and>
    (\<forall>i \<in> set inp. cin_id i \<in> gc_id ` set (criteria contract)) \<and>
    (\<forall>r \<in> set (ev_criteria (validateGoalEvidence fs contract input mutatedPaths)).
       receipt_ok fs (set (map (comparisonKey fs) mutatedPaths)) r) \<and>
    (list_ex (\<lambda>p. p \<noteq> []) mutatedPaths \<longrightarrow>
       list_ex (cites_mutation fs (ev_criteria (validateGoalEvidence fs contract input mutatedPaths))) mutatedPaths)"
proof -
  obtain inp where inp: "input = Some inp"
    using assms by (cases input) (auto simp: validateGoalEvidence_def)
  let ?mut = "set (map (comparisonKey fs) mutatedPaths)"
  let ?res = "map (check_criterion fs ?mut inp) (criteria contract)"
  have no: "\<forall>c \<in> set (criteria contract). fst (check_criterion fs ?mut inp c) = []"
    using assms by (auto simp: validateGoalEvidence_def inp Let_def concat_eq_Nil_conv)
  then have ok: "\<forall>c \<in> set (criteria contract). \<exists>r. snd (check_criterion fs ?mut inp c) = Some r \<and>
      cr_id r = gc_id c \<and> cr_text r = gc_text c \<and> receipt_ok fs ?mut r \<and>
      length (filter (\<lambda>i. cin_id i = gc_id c) inp) = 1"
    using check_criterion_ok by (metis prod.collapse)
  have crs: "ev_criteria (validateGoalEvidence fs contract input mutatedPaths) = List.map_filter snd ?res"
    by (simp add: validateGoalEvidence_def inp Let_def)
  have "map (\<lambda>r. (cr_id r, cr_text r)) (List.map_filter snd (map (check_criterion fs ?mut inp) cs))
      = map (\<lambda>c. (gc_id c, gc_text c)) cs \<and>
      (\<forall>r \<in> set (List.map_filter snd (map (check_criterion fs ?mut inp) cs)). receipt_ok fs ?mut r)"
    if "set cs \<subseteq> set (criteria contract)" for cs
    using that
  proof (induction cs)
    case (Cons c cs)
    then obtain r where "snd (check_criterion fs ?mut inp c) = Some r" "cr_id r = gc_id c"
      "cr_text r = gc_text c" "receipt_ok fs ?mut r" using ok by auto
    with Cons show ?case by (simp add: List.map_filter_simps)
  qed (simp add: List.map_filter_simps)
  note receipts = this [OF order_refl]
  have "length inp = length (criteria contract)"
    and known: "\<forall>i \<in> set inp. list_ex (\<lambda>c. gc_id c = cin_id i) (criteria contract)"
    using assms by (auto simp: validateGoalEvidence_def inp Let_def filter_empty_conv split: if_splits)
  moreover have "list_ex (\<lambda>p. p \<noteq> []) mutatedPaths \<longrightarrow>
      list_ex (cites_mutation fs (List.map_filter snd ?res)) mutatedPaths"
    using assms by (auto simp: validateGoalEvidence_def inp Let_def split: if_splits)
  moreover have "\<forall>i \<in> set inp. cin_id i \<in> gc_id ` set (criteria contract)"
    using known by (force simp: list_ex_iff)
  ultimately show ?thesis using ok receipts unfolding crs unfolding inp by blast
qed

definition sample_fs :: fs_view where
  "sample_fs = \<lparr> fs_cwd = [slash], fs_exists = \<lambda>p. True, fs_isFile = \<lambda>p. True, fs_realpath = Some, fs_fold = \<lambda>p. p \<rparr>"

theorem valid_evidence_sound_witness:
  "list_all (receipt_ok sample_fs {[97]})
     (ev_criteria (validateGoalEvidence sample_fs (deriveGoalContract [120] 1 None)
        (Some [\<lparr>cin_id = criterion_id 1, cin_outcome = [111], cin_evidence = [PathEvidence [97] None]\<rparr>]) [[97]]))"
proof -
  let ?v = "validateGoalEvidence sample_fs (deriveGoalContract [120] 1 None)
        (Some [\<lparr>cin_id = criterion_id 1, cin_outcome = [111], cin_evidence = [PathEvidence [97] None]\<rparr>]) [[97]]"
  have "ev_valid ?v" by code_simp
  from valid_evidence_sound [OF this] obtain inp where
    "\<forall>r \<in> set (ev_criteria ?v). receipt_ok sample_fs (set (map (comparisonKey sample_fs) [[97]])) r" by blast
  moreover have "set (map (comparisonKey sample_fs) [[97]]) = {[97]}" by code_simp
  ultimately show ?thesis by (simp add: list_all_iff)
qed

end
