(* ===== verification/GoalManager.thy ===== *)
theory GoalManager
  imports GoalReceipt
begin

text \<open>
  The autonomous goal (core/goal/goal-manager.ts, class GoalManager): its state, every operation, with
  the readings of the injected clock as arguments (one per call of \<open>this.now()\<close>, in order) and the
  generated id as an argument. Finite numbers are integers, so \<open>Math.round\<close> and \<open>Number.isInteger\<close>
  are the identity and true. The lemmas show that continuing is only ever allowed within all three
  limits, that a limited goal comes back only within them, that completion is final, and what a
  workspace mutation invalidates.
\<close>


section \<open>State\<close>

datatype goal_status = GoalActive | GoalPaused | BudgetLimited | IterationLimited | TimeLimited | GoalComplete

fun goal_status_name :: "goal_status \<Rightarrow> jsstr" where
  "goal_status_name GoalActive = js ''active''"
| "goal_status_name GoalPaused = js ''paused''"
| "goal_status_name BudgetLimited = js ''budget_limited''"
| "goal_status_name IterationLimited = js ''iteration_limited''"
| "goal_status_name TimeLimited = js ''time_limited''"
| "goal_status_name GoalComplete = js ''complete''"

datatype goal_limit = TokensLimit | IterationsLimit | TimeLimit

datatype pause_reason = ManualPause | AutoIterationCap | Interrupted | GateRetryLimit | GateCancelled

record limit_reason =
  lr_type :: goal_limit
  lr_used :: int
  lr_limit :: int

record gate_progress =
  gp_revision :: int
  gp_passed :: "jsstr list"
  gp_fingerprints :: "(jsstr, jsstr) jsmap option"

record gate_failure =
  gf_revision :: int
  gf_gateId :: jsstr
  gf_fingerprint :: jsstr
  gf_attempts :: int

record spend_split =
  sp_main :: int
  sp_subagent :: int
  sp_fusion :: int

record goal_state =
  g_id :: jsstr
  g_objective :: jsstr
  g_status :: goal_status
  g_tokenBudget :: "int option"
  g_tokensUsed :: int
  g_split :: "spend_split option"
  g_iterations :: int
  g_maxIterations :: "int option"
  g_maxActiveMs :: "int option"
  g_activeElapsedMs :: "int option"
  g_activeSince :: "int option"
  g_limitReason :: "limit_reason option"
  g_pauseReason :: "pause_reason option"
  g_mutationRevision :: "int option"
  g_mutatedPaths :: "jsstr list option"
  g_gateProgress :: "gate_progress option"
  g_gateFailure :: "gate_failure option"
  g_startedAt :: int
  g_completedAt :: "int option"
  g_completedAtIteration :: "int option"
  g_summary :: "jsstr option"
  g_contract :: "goal_contract option"
  g_receipt :: "goal_receipt option"

text \<open>The manager: the state and the event keys already counted as mutations.\<close>

record goal_manager =
  gm_state :: "goal_state option"
  gm_keys :: "jsstr set"

definition new_goal_manager :: goal_manager where
  "new_goal_manager = \<lparr> gm_state = None, gm_keys = {} \<rparr>"

definition MAX_OBJECTIVE_CHARS :: nat where "MAX_OBJECTIVE_CHARS = 4000"

definition DEFAULT_GOAL_TOKEN_BUDGET :: int where "DEFAULT_GOAL_TOKEN_BUDGET = 80000"

definition DEFAULT_GOAL_MAX_ITERATIONS :: int where "DEFAULT_GOAL_MAX_ITERATIONS = 12"

definition DEFAULT_GOAL_MAX_ACTIVE_MS :: int where "DEFAULT_GOAL_MAX_ACTIVE_MS = 30 * 60 * 1000"

definition MAX_MUTATED_PATHS :: nat where "MAX_MUTATED_PATHS = 50"

definition or_else :: "'a option \<Rightarrow> 'a \<Rightarrow> 'a" where
  "or_else x d = (case x of Some a \<Rightarrow> a | None \<Rightarrow> d)"

definition normalizeMutationPath :: "jsstr \<Rightarrow> jsstr" where
  "normalizeMutationPath p = strip_dot_slash (map (\<lambda>c. if c = 92 then 47 else c) (trim p))"


section \<open>Durations\<close>

definition MAX_SAFE_INTEGER :: nat where "MAX_SAFE_INTEGER = 2 ^ 53 - 1"

text \<open>The value of a string of digits; beyond the safe range \<open>Number\<close> is inexact and rejected.\<close>

definition digits_value :: "jsstr \<Rightarrow> nat" where
  "digits_value s = foldl (\<lambda>n c. 10 * n + unat (c - 48)) 0 s"

definition lower_ascii :: "jschar \<Rightarrow> jschar" where
  "lower_ascii c = (if 65 \<le> c \<and> c \<le> 90 then c + 32 else c)"

definition duration_unit :: "jsstr \<Rightarrow> nat option" where
  "duration_unit u =
     (if u = js ''ms'' then Some 1 else if u = js ''s'' then Some 1000
      else if u = js ''m'' then Some 60000 else if u = js ''h'' then Some (60 * 60000) else None)"

text \<open>A string whose lower case is a duration is an ASCII string, so ASCII lower-casing decides it.\<close>

definition parseGoalDuration :: "jsstr \<Rightarrow> nat option" where
  "parseGoalDuration raw =
     (let s = map lower_ascii (trim raw); num = takeWhile is_digit s; u = dropWhile is_digit s
      in if s = [48] then None
         else if num = [] then None
         else if u = []
         then (if digits_value num \<le> MAX_SAFE_INTEGER \<and> 0 < digits_value num then Some (digits_value num) else None)
         else (case duration_unit u of
                 None \<Rightarrow> None
               | Some mult \<Rightarrow>
                   if MAX_SAFE_INTEGER < digits_value num \<or> digits_value num = 0 then None
                   else if digits_value num * mult \<le> MAX_SAFE_INTEGER then Some (digits_value num * mult) else None))"


section \<open>Operations\<close>

definition accrueActiveTime :: "int \<Rightarrow> goal_state \<Rightarrow> goal_state" where
  "accrueActiveTime now g =
     (case g_activeSince g of
        None \<Rightarrow> g
      | Some since \<Rightarrow>
          if g_status g \<noteq> GoalActive then g
          else g\<lparr>g_activeElapsedMs := Some (max 0 (or_else (g_activeElapsedMs g) 0 + max 0 (now - since))),
                 g_activeSince := Some now\<rparr>)"

definition evaluateLimits :: "int \<Rightarrow> goal_state \<Rightarrow> goal_state" where
  "evaluateLimits now g0 =
     (if g_status g0 \<noteq> GoalActive then g0
      else let g = accrueActiveTime now g0;
               mi = or_else (g_maxIterations g) DEFAULT_GOAL_MAX_ITERATIONS;
               ma = or_else (g_maxActiveMs g) DEFAULT_GOAL_MAX_ACTIVE_MS;
               el = or_else (g_activeElapsedMs g) 0;
               over = (case g_tokenBudget g of Some b \<Rightarrow> if b \<le> g_tokensUsed g then Some b else None | None \<Rightarrow> None)
           in case over of
                Some b \<Rightarrow> g\<lparr>g_status := BudgetLimited,
                   g_limitReason := Some \<lparr> lr_type = TokensLimit, lr_used = g_tokensUsed g, lr_limit = b \<rparr>,
                   g_activeSince := None\<rparr>
              | None \<Rightarrow>
                  if mi \<le> g_iterations g
                  then g\<lparr>g_status := IterationLimited,
                   g_limitReason := Some \<lparr> lr_type = IterationsLimit, lr_used = g_iterations g, lr_limit = mi \<rparr>,
                   g_activeSince := None\<rparr>
                  else if ma \<le> el
                  then g\<lparr>g_status := TimeLimited,
                   g_limitReason := Some \<lparr> lr_type = TimeLimit, lr_used = el, lr_limit = ma \<rparr>,
                   g_activeSince := None\<rparr>
                  else g)"

text \<open>Methods whose body is guarded by \<open>if (!this.state) return\<close>.\<close>

definition upd :: "(goal_state \<Rightarrow> goal_state) \<Rightarrow> goal_manager \<Rightarrow> goal_manager" where
  "upd f m = m\<lparr>gm_state := map_option f (gm_state m)\<rparr>"

definition goal_snapshot :: "int \<Rightarrow> int \<Rightarrow> goal_manager \<Rightarrow> goal_manager \<times> (goal_state \<times> int) option" where
  "goal_snapshot now now' m =
     (let m' = upd (accrueActiveTime now) m
      in (m', map_option (\<lambda>g. (g, now' - g_startedAt g)) (gm_state m')))"

definition goal_isActive :: "goal_manager \<Rightarrow> bool" where
  "goal_isActive m \<longleftrightarrow> (case gm_state m of None \<Rightarrow> False | Some g \<Rightarrow> g_status g = GoalActive)"

definition shouldAutoContinue :: "int \<Rightarrow> goal_manager \<Rightarrow> goal_manager \<times> bool" where
  "shouldAutoContinue now m = (let m' = upd (evaluateLimits now) m in (m', goal_isActive m'))"

definition goal_start :: "jsstr \<Rightarrow> jsstr \<Rightarrow> int option \<Rightarrow> int option \<Rightarrow> int option \<Rightarrow> int \<Rightarrow> int
    \<Rightarrow> goal_manager \<Rightarrow> goal_manager" where
  "goal_start gid objective tokens iters activeMs now now' m =
     (let trimmed = sliceSafe (trim objective) 0 (int MAX_OBJECTIVE_CHARS);
          g = \<lparr> g_id = gid, g_objective = trimmed, g_status = GoalActive,
                g_tokenBudget = Some (or_else tokens DEFAULT_GOAL_TOKEN_BUDGET), g_tokensUsed = 0,
                g_split = None, g_iterations = 0,
                g_maxIterations = Some (or_else iters DEFAULT_GOAL_MAX_ITERATIONS),
                g_maxActiveMs = Some (or_else activeMs DEFAULT_GOAL_MAX_ACTIVE_MS),
                g_activeElapsedMs = Some 0, g_activeSince = Some now, g_limitReason = None,
                g_pauseReason = None, g_mutationRevision = None, g_mutatedPaths = None,
                g_gateProgress = None, g_gateFailure = None, g_startedAt = now, g_completedAt = None,
                g_completedAtIteration = None, g_summary = None,
                g_contract = Some (deriveGoalContract trimmed 1 None), g_receipt = None \<rparr>
      in fst (goal_snapshot now' now' \<lparr> gm_state = Some g, gm_keys = {} \<rparr>))"

definition goal_edit :: "jsstr \<Rightarrow> goal_manager \<Rightarrow> goal_manager" where
  "goal_edit objective =
     upd (\<lambda>g. let obj = sliceSafe (trim objective) 0 (int MAX_OBJECTIVE_CHARS);
                  rvn = (case g_contract g of Some c \<Rightarrow> contract_revision c | None \<Rightarrow> 0)
              in g\<lparr>g_objective := obj, g_contract := Some (deriveGoalContract obj (rvn + 1) None)\<rparr>)"

definition add_path :: "jsstr \<Rightarrow> jsstr list \<Rightarrow> jsstr list" where
  "add_path p paths = slice_last MAX_MUTATED_PATHS (if p \<in> set paths then paths else paths @ [p])"

definition note_mutation :: "jsstr \<Rightarrow> goal_state \<Rightarrow> goal_state" where
  "note_mutation normalized g =
     g\<lparr>g_mutationRevision := Some (or_else (g_mutationRevision g) 0 + 1),
       g_gateProgress := None, g_gateFailure := None,
       g_mutatedPaths := (if normalized = [] then g_mutatedPaths g
          else Some (add_path normalized (or_else (g_mutatedPaths g) [])))\<rparr>"

definition recordMutation :: "jsstr option \<Rightarrow> jsstr option \<Rightarrow> goal_manager \<Rightarrow> goal_manager" where
  "recordMutation path eventKey m =
     (case gm_state m of
        None \<Rightarrow> m
      | Some g \<Rightarrow>
          if g_status g = GoalComplete then m
          else let normalized = (case path of Some p \<Rightarrow> normalizeMutationPath p | None \<Rightarrow> []);
                   key = (case eventKey of Some k \<Rightarrow> trim k | None \<Rightarrow> [])
               in if key \<noteq> [] \<and> key \<in> gm_keys m then m
                  else \<lparr> gm_state = Some (note_mutation normalized g),
                         gm_keys = (if key \<noteq> [] then insert key (gm_keys m) else gm_keys m) \<rparr>)"

definition goal_pause :: "pause_reason \<Rightarrow> int \<Rightarrow> goal_manager \<Rightarrow> goal_manager" where
  "goal_pause reason now =
     upd (\<lambda>g. if g_status g = GoalComplete then g
              else (accrueActiveTime now g)\<lparr>g_status := GoalPaused, g_activeSince := None,
                     g_pauseReason := Some reason\<rparr>)"

definition reactivate :: "int \<Rightarrow> int \<Rightarrow> goal_state \<Rightarrow> goal_state" where
  "reactivate now now' g =
     evaluateLimits now' (g\<lparr>g_status := GoalActive, g_limitReason := None, g_activeSince := Some now\<rparr>)"

definition canResume :: "goal_state \<Rightarrow> bool" where
  "canResume g \<longleftrightarrow>
     g_status g = GoalPaused \<or>
     (g_status g = BudgetLimited \<and> (case g_tokenBudget g of Some b \<Rightarrow> g_tokensUsed g < b | None \<Rightarrow> False))"

definition goal_resume :: "int \<Rightarrow> int \<Rightarrow> goal_manager \<Rightarrow> goal_manager" where
  "goal_resume now now' =
     upd (\<lambda>g. if canResume g then reactivate now now' (g\<lparr>g_pauseReason := None\<rparr>) else g)"

definition gateProgressFor :: "int \<Rightarrow> (jsstr, jsstr) jsmap \<Rightarrow> goal_manager \<Rightarrow> jsstr list" where
  "gateProgressFor rvn fps m =
     (case gm_state m of
        None \<Rightarrow> []
      | Some g \<Rightarrow>
          (case g_gateProgress g of
             None \<Rightarrow> []
           | Some p \<Rightarrow>
               if gp_revision p \<noteq> rvn then []
               else filter (\<lambda>i. case gp_fingerprints p of
                       None \<Rightarrow> False
                     | Some stored \<Rightarrow> mget stored i \<noteq> None \<and> mget stored i = mget fps i) (gp_passed p)))"

text \<open>\<open>[...new Set(xs)]\<close> keeps the first occurrence of each element.\<close>

definition unique :: "'a list \<Rightarrow> 'a list" where
  "unique xs = rev (remdups (rev xs))"

definition setGateProgress :: "int \<Rightarrow> jsstr list \<Rightarrow> (jsstr, jsstr) jsmap \<Rightarrow> goal_manager \<Rightarrow> goal_manager" where
  "setGateProgress rvn passed fps =
     upd (\<lambda>g. if g_status g = GoalComplete then g
              else let ids = unique passed;
                       kept = map_from (List.map_filter (\<lambda>i. case mget fps i of
                            Some f \<Rightarrow> if f = [] then None else Some (i, f) | None \<Rightarrow> None) ids)
                   in g\<lparr>g_gateProgress := Some \<lparr> gp_revision = rvn, gp_passed = ids,
                          gp_fingerprints = (if 0 < length kept then Some kept else None) \<rparr>\<rparr>)"

definition recordGateFailure :: "int \<Rightarrow> jsstr \<Rightarrow> jsstr \<Rightarrow> goal_manager \<Rightarrow> goal_manager \<times> gate_failure" where
  "recordGateFailure rvn gate fp m =
     (let previous = (case gm_state m of Some g \<Rightarrow> g_gateFailure g | None \<Rightarrow> None);
          attempts = (case previous of
              Some p \<Rightarrow> if gf_revision p = rvn \<and> gf_gateId p = gate \<and> gf_fingerprint p = fp
                        then gf_attempts p + 1 else 1
            | None \<Rightarrow> 1);
          failure = \<lparr> gf_revision = rvn, gf_gateId = gate, gf_fingerprint = fp, gf_attempts = attempts \<rparr>
      in (upd (\<lambda>g. if g_status g = GoalComplete then g else g\<lparr>g_gateFailure := Some failure\<rparr>) m, failure))"

definition clearGateFailure :: "goal_manager \<Rightarrow> goal_manager" where
  "clearGateFailure = upd (\<lambda>g. g\<lparr>g_gateFailure := None\<rparr>)"

definition setTokenBudget :: "int \<Rightarrow> int \<Rightarrow> int \<Rightarrow> goal_manager \<Rightarrow> goal_manager" where
  "setTokenBudget b now now' =
     upd (\<lambda>g. if g_status g = GoalComplete then g
              else let g' = g\<lparr>g_tokenBudget := Some b\<rparr>
                   in if g_status g' = BudgetLimited \<and> g_tokensUsed g' < b then reactivate now now' g' else g')"

definition setMaxIterations :: "int \<Rightarrow> int \<Rightarrow> int \<Rightarrow> goal_manager \<Rightarrow> goal_manager" where
  "setMaxIterations n now now' =
     upd (\<lambda>g. if g_status g = GoalComplete \<or> n \<le> 0 then g
              else let g' = g\<lparr>g_maxIterations := Some n\<rparr>
                   in if g_status g' = IterationLimited \<and> g_iterations g' < n then reactivate now now' g' else g')"

definition setMaxActiveMs :: "int \<Rightarrow> int \<Rightarrow> int \<Rightarrow> goal_manager \<Rightarrow> goal_manager" where
  "setMaxActiveMs n now now' =
     upd (\<lambda>g. if g_status g = GoalComplete \<or> n \<le> 0 then g
              else let g' = g\<lparr>g_maxActiveMs := Some n\<rparr>
                   in if g_status g' = TimeLimited \<and> or_else (g_activeElapsedMs g') 0 < n
                      then reactivate now now' g' else g')"

definition goal_clear :: "goal_manager \<Rightarrow> goal_manager" where
  "goal_clear m = \<lparr> gm_state = None, gm_keys = {} \<rparr>"

definition usage_of :: "goal_state \<Rightarrow> receipt_usage" where
  "usage_of g = \<lparr> us_tokens = g_tokensUsed g, us_iterations = g_iterations g,
                  us_activeMs = or_else (g_activeElapsedMs g) 0 \<rparr>"

datatype complete_result = NotCompleted | ReceiptTooLarge nat | Completed "goal_receipt option"

text \<open>\<open>sz\<close> is \<open>receiptPayloadSize\<close>: the UTF-8 byte length of \<open>JSON.stringify(receipt)\<close>.\<close>

definition goal_complete :: "(goal_receipt \<Rightarrow> nat) \<Rightarrow> jsstr option \<Rightarrow> receipt_draft option \<Rightarrow> int
    \<Rightarrow> goal_manager \<Rightarrow> goal_manager \<times> complete_result" where
  "goal_complete sz summary draft now m =
     (case gm_state m of
        None \<Rightarrow> (m, NotCompleted)
      | Some g0 \<Rightarrow>
          let g = accrueActiveTime now g0;
              receipt = map_option (\<lambda>d. \<lparr> grc_draft = d, grc_usage = usage_of g, grc_completedAt = now \<rparr>) draft
          in if (case receipt of Some r \<Rightarrow> MAX_GOAL_RECEIPT_BYTES < sz r | None \<Rightarrow> False)
             then (m\<lparr>gm_state := Some g\<rparr>, ReceiptTooLarge (sz (the receipt)))
             else (m\<lparr>gm_state := Some (g\<lparr>g_activeSince := None, g_status := GoalComplete,
                      g_completedAt := Some now, g_completedAtIteration := Some (g_iterations g),
                      g_summary := (case summary of Some s \<Rightarrow>
                          if s = [] then g_summary g else Some (sliceSafe (trim s) 0 1200) | None \<Rightarrow> g_summary g),
                      g_receipt := (case receipt of Some r \<Rightarrow> Some r | None \<Rightarrow> g_receipt g)\<rparr>)\<rparr>,
                   Completed receipt))"

definition reconcileCompletedReceiptUsage :: "goal_manager \<Rightarrow> goal_manager" where
  "reconcileCompletedReceiptUsage =
     upd (\<lambda>g. case g_receipt g of
            None \<Rightarrow> g
          | Some r \<Rightarrow> if g_status g \<noteq> GoalComplete then g
                      else g\<lparr>g_receipt := Some (r\<lparr>grc_usage := usage_of g\<rparr>)\<rparr>)"

text \<open>The completing turn is still counted once; later ones are not.\<close>

definition counters_frozen :: "goal_state \<Rightarrow> bool" where
  "counters_frozen g \<longleftrightarrow> g_status g = GoalComplete \<and> or_else (g_completedAtIteration g) (- 1) < g_iterations g"

definition recordIteration :: "int \<Rightarrow> goal_manager \<Rightarrow> goal_manager" where
  "recordIteration now =
     upd (\<lambda>g. if counters_frozen g then g
              else evaluateLimits now (g\<lparr>g_iterations := g_iterations g + 1\<rparr>))"

definition syncTokensUsed :: "int \<Rightarrow> spend_split option \<Rightarrow> int \<Rightarrow> goal_manager \<Rightarrow> goal_manager" where
  "syncTokensUsed tot split now =
     upd (\<lambda>g. if counters_frozen g then g
              else evaluateLimits now (g\<lparr>g_tokensUsed := max 0 tot,
                     g_split := (case split of
                        Some s \<Rightarrow> Some \<lparr> sp_main = max 0 (sp_main s), sp_subagent = max 0 (sp_subagent s),
                                         sp_fusion = max 0 (sp_fusion s) \<rparr>
                      | None \<Rightarrow> g_split g)\<rparr>))"

definition recordTurn :: "int \<Rightarrow> int \<Rightarrow> goal_manager \<Rightarrow> goal_manager" where
  "recordTurn tokensDelta now =
     upd (\<lambda>g. if counters_frozen g then g
              else evaluateLimits now (g\<lparr>g_iterations := g_iterations g + 1,
                     g_tokensUsed := g_tokensUsed g + max 0 tokensDelta\<rparr>))"

definition onInterrupted :: "jsstr \<Rightarrow> int \<Rightarrow> goal_manager \<Rightarrow> goal_manager" where
  "onInterrupted stopReason now m =
     (if goal_isActive m \<and> (stopReason = js ''aborted'' \<or> stopReason = js ''error'')
      then goal_pause Interrupted now m else m)"

text \<open>The state built from persisted data: missing limits get their defaults, the clock restarts.\<close>

definition rehydrate :: "int \<Rightarrow> goal_state \<Rightarrow> goal_state" where
  "rehydrate now d =
     d\<lparr>g_contract := Some (case g_contract d of Some c \<Rightarrow> c
                       | None \<Rightarrow> deriveGoalContract (g_objective d) 1 (Some LegacyRestore)),
       g_tokenBudget := Some (or_else (g_tokenBudget d) DEFAULT_GOAL_TOKEN_BUDGET),
       g_maxIterations := Some (or_else (g_maxIterations d) DEFAULT_GOAL_MAX_ITERATIONS),
       g_maxActiveMs := Some (or_else (g_maxActiveMs d) DEFAULT_GOAL_MAX_ACTIVE_MS),
       g_activeElapsedMs := Some (or_else (g_activeElapsedMs d) 0),
       g_activeSince := (if g_status d = GoalActive then Some now else None)\<rparr>"

definition goal_restore :: "goal_state option \<Rightarrow> int \<Rightarrow> goal_manager \<Rightarrow> goal_manager" where
  "goal_restore data now m =
     (case data of
        None \<Rightarrow> m\<lparr>gm_state := None\<rparr>
      | Some d \<Rightarrow>
          let g = rehydrate now d
          in \<lparr> gm_state = Some (if g_status g = GoalActive then evaluateLimits now g else g), gm_keys = {} \<rparr>)"

definition goal_serialize :: "goal_manager \<Rightarrow> goal_state option" where
  "goal_serialize m = gm_state m"

definition hasPromptRules :: "goal_manager \<Rightarrow> bool" where
  "hasPromptRules m \<longleftrightarrow> (case gm_state m of None \<Rightarrow> False | Some g \<Rightarrow> g_status g \<noteq> GoalComplete)"

definition goal_promptSection :: "goal_manager \<Rightarrow> jsstr" where
  "goal_promptSection m =
     (case gm_state m of
        None \<Rightarrow> []
      | Some g \<Rightarrow>
          if g_status g = GoalComplete then []
          else renderGoalContract (case g_contract g of Some c \<Rightarrow> c | None \<Rightarrow> deriveGoalContract (g_objective g) 1 None)
                 (goal_status_name (g_status g)) (g_objective g))"

section \<open>Calls\<close>

datatype goal_call =
    GSnapshot int int
  | GContinue int
  | GStart jsstr jsstr "int option" "int option" "int option" int int
  | GEdit jsstr
  | GMutation "jsstr option" "jsstr option"
  | GPause pause_reason int
  | GResume int int
  | GGateProgress int "jsstr list" "(jsstr, jsstr) jsmap"
  | GGateFailure int jsstr jsstr
  | GClearFailure
  | GBudget int int int
  | GMaxIterations int int int
  | GMaxActive int int int
  | GClear
  | GComplete "jsstr option" "receipt_draft option" int
  | GReconcile
  | GIteration int
  | GSync int "spend_split option" int
  | GTurn int int
  | GInterrupted jsstr int
  | GRestore "goal_state option" int

fun exec_goal :: "(goal_receipt \<Rightarrow> nat) \<Rightarrow> goal_call \<Rightarrow> goal_manager \<Rightarrow> goal_manager" where
  "exec_goal sz (GSnapshot t t') m = fst (goal_snapshot t t' m)"
| "exec_goal sz (GContinue t) m = fst (shouldAutoContinue t m)"
| "exec_goal sz (GStart i ob a b c t t') m = goal_start i ob a b c t t' m"
| "exec_goal sz (GEdit ob) m = goal_edit ob m"
| "exec_goal sz (GMutation p k) m = recordMutation p k m"
| "exec_goal sz (GPause r t) m = goal_pause r t m"
| "exec_goal sz (GResume t t') m = goal_resume t t' m"
| "exec_goal sz (GGateProgress r ids fps) m = setGateProgress r ids fps m"
| "exec_goal sz (GGateFailure r i f) m = fst (recordGateFailure r i f m)"
| "exec_goal sz GClearFailure m = clearGateFailure m"
| "exec_goal sz (GBudget b t t') m = setTokenBudget b t t' m"
| "exec_goal sz (GMaxIterations n t t') m = setMaxIterations n t t' m"
| "exec_goal sz (GMaxActive n t t') m = setMaxActiveMs n t t' m"
| "exec_goal sz GClear m = goal_clear m"
| "exec_goal sz (GComplete s d t) m = fst (goal_complete sz s d t m)"
| "exec_goal sz GReconcile m = reconcileCompletedReceiptUsage m"
| "exec_goal sz (GIteration t) m = recordIteration t m"
| "exec_goal sz (GSync n sp t) m = syncTokensUsed n sp t m"
| "exec_goal sz (GTurn d t) m = recordTurn d t m"
| "exec_goal sz (GInterrupted r t) m = onInterrupted r t m"
| "exec_goal sz (GRestore d t) m = goal_restore d t m"


section \<open>The clock invariant\<close>

text \<open>Time is running exactly while the goal is active.\<close>

definition clock_ok :: "goal_state \<Rightarrow> bool" where
  "clock_ok g \<longleftrightarrow> (g_activeSince g \<noteq> None \<longleftrightarrow> g_status g = GoalActive)"

definition goal_ok :: "goal_manager \<Rightarrow> bool" where
  "goal_ok m \<longleftrightarrow> (case gm_state m of None \<Rightarrow> True | Some g \<Rightarrow> clock_ok g)"

lemma accrue_sel [simp]:
  "g_status (accrueActiveTime t g) = g_status g" "g_tokensUsed (accrueActiveTime t g) = g_tokensUsed g"
  "g_tokenBudget (accrueActiveTime t g) = g_tokenBudget g" "g_iterations (accrueActiveTime t g) = g_iterations g"
  "g_maxIterations (accrueActiveTime t g) = g_maxIterations g" "g_maxActiveMs (accrueActiveTime t g) = g_maxActiveMs g"
  "g_completedAtIteration (accrueActiveTime t g) = g_completedAtIteration g"
  "(g_activeSince (accrueActiveTime t g) = None) = (g_activeSince g = None)"
  by (simp_all add: accrueActiveTime_def split: option.split)

lemma accrue_running [simp]: "(\<exists>y. g_activeSince (accrueActiveTime t g) = Some y) = (\<exists>y. g_activeSince g = Some y)"
  by (simp add: accrueActiveTime_def split: option.split)

lemma evaluate_sel [simp]:
  "g_tokensUsed (evaluateLimits t g) = g_tokensUsed g" "g_tokenBudget (evaluateLimits t g) = g_tokenBudget g"
  "g_iterations (evaluateLimits t g) = g_iterations g" "g_maxIterations (evaluateLimits t g) = g_maxIterations g"
  "g_maxActiveMs (evaluateLimits t g) = g_maxActiveMs g"
  "g_completedAtIteration (evaluateLimits t g) = g_completedAtIteration g"
  by (simp_all add: evaluateLimits_def Let_def split: option.split)

lemma evaluate_inactive: "g_status g \<noteq> GoalActive \<Longrightarrow> evaluateLimits t g = g"
  by (simp add: evaluateLimits_def)

lemma clock_accrue [simp, inv_intros]: "clock_ok g \<Longrightarrow> clock_ok (accrueActiveTime t g)"
  by (simp add: clock_ok_def)

lemma clock_evaluate [simp, inv_intros]: "clock_ok g \<Longrightarrow> clock_ok (evaluateLimits t g)"
  by (auto simp: clock_ok_def evaluateLimits_def Let_def split: option.split)

lemma clock_reactivate [simp, inv_intros]: "clock_ok (reactivate t t' g)"
  unfolding reactivate_def by (rule clock_evaluate) (simp add: clock_ok_def)

lemma clock_same: "clock_ok g \<Longrightarrow> g_status g' = g_status g \<Longrightarrow> g_activeSince g' = g_activeSince g \<Longrightarrow> clock_ok g'"
  by (simp add: clock_ok_def)

text \<open>The other fields do not matter to the clock.\<close>

lemma clock_fields [simp]:
  "clock_ok (g\<lparr>g_tokenBudget := a\<rparr>) = clock_ok g" "clock_ok (g\<lparr>g_maxIterations := a\<rparr>) = clock_ok g"
  "clock_ok (g\<lparr>g_maxActiveMs := a\<rparr>) = clock_ok g" "clock_ok (g\<lparr>g_gateProgress := b\<rparr>) = clock_ok g"
  "clock_ok (g\<lparr>g_gateFailure := c\<rparr>) = clock_ok g" "clock_ok (g\<lparr>g_receipt := d\<rparr>) = clock_ok g"
  "clock_ok (g\<lparr>g_iterations := i\<rparr>) = clock_ok g" "clock_ok (g\<lparr>g_tokensUsed := i, g_split := s\<rparr>) = clock_ok g"
  "clock_ok (g\<lparr>g_iterations := i, g_tokensUsed := j\<rparr>) = clock_ok g"
  "clock_ok (g\<lparr>g_objective := ob, g_contract := k\<rparr>) = clock_ok g"
  "clock_ok (g\<lparr>g_status := GoalPaused, g_activeSince := None, g_pauseReason := r\<rparr>)"
  by (simp_all add: clock_ok_def)

lemma upd_ok: "goal_ok m \<Longrightarrow> (\<And>g. clock_ok g \<Longrightarrow> clock_ok (f g)) \<Longrightarrow> goal_ok (upd f m)"
  by (simp add: goal_ok_def upd_def split: option.splits)

lemma goal_ok_call:
  assumes "goal_ok m"
  shows "goal_ok (exec_goal sz c m)"
proof (cases c)
  case (GStart i ob a b cc t t')
  show ?thesis unfolding GStart exec_goal.simps goal_start_def Let_def goal_snapshot_def fst_conv
    by (rule upd_ok) (simp_all add: goal_ok_def clock_ok_def)
next
  case (GMutation p k)
  show ?thesis using assms
    by (auto simp: GMutation recordMutation_def goal_ok_def note_mutation_def clock_ok_def Let_def split: option.splits)
next
  case (GComplete s d t)
  have "clock_ok (g\<lparr>g_activeSince := None, g_status := GoalComplete, g_completedAt := a,
      g_completedAtIteration := b, g_summary := cc, g_receipt := dd\<rparr>)" for g a b cc dd
    by (simp add: clock_ok_def)
  then show ?thesis using assms
    by (auto simp: GComplete goal_complete_def goal_ok_def Let_def split: option.splits)
next
  case (GRestore d t)
  have "clock_ok (rehydrate t d')" for d' by (simp add: clock_ok_def rehydrate_def)
  then show ?thesis by (auto simp: GRestore goal_restore_def goal_ok_def Let_def split: option.splits)
next
  case (GInterrupted r t)
  have "goal_ok (goal_pause x t m)" for x
    unfolding goal_pause_def by (rule upd_ok [OF assms]) (simp add: clock_ok_def)
  then show ?thesis using assms by (simp add: GInterrupted onInterrupted_def)
qed (use assms in \<open>auto simp: goal_snapshot_def shouldAutoContinue_def Let_def goal_edit_def goal_pause_def
    goal_resume_def setGateProgress_def recordGateFailure_def clearGateFailure_def setTokenBudget_def
    setMaxIterations_def setMaxActiveMs_def goal_clear_def goal_ok_def [of "\<lparr>gm_state = None, gm_keys = {}\<rparr>"]
    reconcileCompletedReceiptUsage_def recordIteration_def syncTokensUsed_def recordTurn_def
    intro!: upd_ok clock_evaluate split: option.splits elim: clock_same\<close>)

interpretation goal_machine: event_machine "exec_goal sz" goal_ok
  by unfold_locales (rule goal_ok_call)


section \<open>The limits\<close>

definition within_limits :: "goal_state \<Rightarrow> bool" where
  "within_limits g \<longleftrightarrow>
     (\<forall>b. g_tokenBudget g = Some b \<longrightarrow> g_tokensUsed g < b) \<and>
     g_iterations g < or_else (g_maxIterations g) DEFAULT_GOAL_MAX_ITERATIONS \<and>
     or_else (g_activeElapsedMs g) 0 < or_else (g_maxActiveMs g) DEFAULT_GOAL_MAX_ACTIVE_MS"

text \<open>A limited goal names a limit it has reached.\<close>

definition limit_named :: "goal_state \<Rightarrow> bool" where
  "limit_named g \<longleftrightarrow>
     (case g_limitReason g of
        None \<Rightarrow> False
      | Some r \<Rightarrow> lr_limit r \<le> lr_used r \<and>
          (case g_status g of
             BudgetLimited \<Rightarrow> lr_type r = TokensLimit \<and> lr_used r = g_tokensUsed g \<and> g_tokenBudget g = Some (lr_limit r)
           | IterationLimited \<Rightarrow> lr_type r = IterationsLimit \<and> lr_used r = g_iterations g
           | TimeLimited \<Rightarrow> lr_type r = TimeLimit
           | _ \<Rightarrow> False))"

lemma evaluate_cases:
  assumes "g_status g = GoalActive"
  shows "(g_status (evaluateLimits t g) = GoalActive \<and> within_limits (evaluateLimits t g)) \<or>
         (g_status (evaluateLimits t g) \<noteq> GoalActive \<and> g_status (evaluateLimits t g) \<noteq> GoalComplete \<and>
          limit_named (evaluateLimits t g))"
  using assms
  by (auto simp: evaluateLimits_def Let_def within_limits_def limit_named_def split: option.splits)

lemma evaluate_active: "g_status (evaluateLimits t g) = GoalActive \<Longrightarrow> within_limits (evaluateLimits t g)"
  using evaluate_cases [of g t] evaluate_inactive [of g t] by (cases "g_status g = GoalActive") auto

lemma reactivate_active: "g_status (reactivate t t' g) = GoalActive \<Longrightarrow> within_limits (reactivate t t' g)"
  unfolding reactivate_def by (rule evaluate_active)

lemma reactivate_named:
  "g_status (reactivate t t' g) = GoalActive \<or> limit_named (reactivate t t' g)"
  unfolding reactivate_def using evaluate_cases [of "g\<lparr>g_status := GoalActive, g_limitReason := None, g_activeSince := Some t\<rparr>" t']
  by auto

definition active_goal :: "goal_manager \<Rightarrow> goal_state option" where
  "active_goal m = (case gm_state m of Some g \<Rightarrow> if g_status g = GoalActive then Some g else None | None \<Rightarrow> None)"

lemma active_goal_Some: "active_goal m = Some g \<longleftrightarrow> gm_state m = Some g \<and> g_status g = GoalActive"
  by (auto simp: active_goal_def split: option.splits)

lemma active_goal_None: "active_goal m = None \<longleftrightarrow> (\<forall>g. gm_state m = Some g \<longrightarrow> g_status g \<noteq> GoalActive)"
  by (auto simp: active_goal_def split: option.splits)

text \<open>Which calls can start the autonomous loop: only \<open>start\<close>; every other one checks the limits.\<close>

lemma upd_reactivates:
  assumes "active_goal m = None" "active_goal (upd f m) = Some g"
    and "\<And>h. g_status h \<noteq> GoalActive \<Longrightarrow> g_status (f h) = GoalActive \<Longrightarrow> within_limits (f h)"
  shows "within_limits g"
  using assms by (auto simp: active_goal_None active_goal_Some upd_def)

lemma reactivation_within_limits:
  assumes no: "active_goal m = None" and act: "active_goal (exec_goal sz c m) = Some g"
    and c: "\<And>i ob a b d t t'. c \<noteq> GStart i ob a b d t t'"
  shows "within_limits g"
proof -
  have *: "within_limits g" if "exec_goal sz c m = upd f m"
    "\<And>h. g_status h \<noteq> GoalActive \<Longrightarrow> g_status (f h) = GoalActive \<Longrightarrow> within_limits (f h)" for f
    using upd_reactivates [OF no _ that(2)] act that(1) by simp
  show ?thesis
  proof (cases c)
    case (GStart i ob a b d t t')
    then show ?thesis using c by blast
  next
    case (GMutation p k)
    then show ?thesis using no act
      by (auto simp: recordMutation_def Let_def active_goal_None active_goal_Some note_mutation_def
          split: option.splits if_splits)
  next
    case GClear
    then show ?thesis using act by (simp add: goal_clear_def active_goal_Some)
  next
    case (GComplete s d t)
    then show ?thesis using no act
      by (auto simp: goal_complete_def Let_def active_goal_None active_goal_Some split: option.splits if_splits)
  next
    case (GInterrupted r t)
    then show ?thesis using no act
      by (auto simp: onInterrupted_def goal_isActive_def active_goal_None active_goal_Some goal_pause_def upd_def
          split: option.splits if_splits)
  next
    case (GRestore d t)
    then show ?thesis using act evaluate_active
      by (auto simp: goal_restore_def Let_def active_goal_Some split: option.splits if_splits)
  next
    case (GBudget b t t')
    show ?thesis by (rule * [unfolded GBudget exec_goal.simps setTokenBudget_def, OF refl])
      (auto simp: Let_def reactivate_active split: if_splits)
  next
    case (GMaxIterations b t t')
    show ?thesis by (rule * [unfolded GMaxIterations exec_goal.simps setMaxIterations_def, OF refl])
      (auto simp: Let_def reactivate_active split: if_splits)
  next
    case (GMaxActive b t t')
    show ?thesis by (rule * [unfolded GMaxActive exec_goal.simps setMaxActiveMs_def, OF refl])
      (auto simp: Let_def reactivate_active split: if_splits)
  next
    case (GResume t t')
    show ?thesis by (rule * [unfolded GResume exec_goal.simps goal_resume_def, OF refl])
      (auto simp: reactivate_active split: if_splits)
  next
    case (GSnapshot t t')
    show ?thesis by (rule * [unfolded GSnapshot exec_goal.simps goal_snapshot_def Let_def fst_conv, OF refl])
      (auto simp: Let_def evaluate_inactive split: option.splits if_splits)
  next
    case (GContinue t)
    show ?thesis by (rule * [unfolded GContinue exec_goal.simps shouldAutoContinue_def Let_def fst_conv, OF refl])
      (auto simp: Let_def evaluate_inactive split: option.splits if_splits)
  next
    case (GEdit ob)
    show ?thesis by (rule * [unfolded GEdit exec_goal.simps goal_edit_def, OF refl])
      (auto simp: Let_def evaluate_inactive split: option.splits if_splits)
  next
    case (GPause r t)
    show ?thesis by (rule * [unfolded GPause exec_goal.simps goal_pause_def, OF refl])
      (auto simp: Let_def evaluate_inactive split: option.splits if_splits)
  next
    case (GGateProgress r ids fps)
    show ?thesis by (rule * [unfolded GGateProgress exec_goal.simps setGateProgress_def, OF refl])
      (auto simp: Let_def evaluate_inactive split: option.splits if_splits)
  next
    case (GGateFailure r i f)
    show ?thesis by (rule * [unfolded GGateFailure exec_goal.simps recordGateFailure_def Let_def fst_conv, OF refl])
      (auto simp: Let_def evaluate_inactive split: option.splits if_splits)
  next
    case GClearFailure
    show ?thesis by (rule * [unfolded GClearFailure exec_goal.simps clearGateFailure_def, OF refl])
      (auto simp: Let_def evaluate_inactive split: option.splits if_splits)
  next
    case GReconcile
    show ?thesis by (rule * [unfolded GReconcile exec_goal.simps reconcileCompletedReceiptUsage_def, OF refl])
      (auto simp: Let_def evaluate_inactive split: option.splits if_splits)
  next
    case (GIteration t)
    show ?thesis by (rule * [unfolded GIteration exec_goal.simps recordIteration_def, OF refl])
      (auto simp: Let_def evaluate_inactive split: option.splits if_splits)
  next
    case (GSync n sp t)
    show ?thesis by (rule * [unfolded GSync exec_goal.simps syncTokensUsed_def, OF refl])
      (auto simp: Let_def evaluate_inactive split: option.splits if_splits)
  next
    case (GTurn d t)
    show ?thesis by (rule * [unfolded GTurn exec_goal.simps recordTurn_def, OF refl])
      (auto simp: Let_def evaluate_inactive split: option.splits if_splits)
  qed
qed


section \<open>Completion is final\<close>

text \<open>The calls that do not begin, end, complete or reload a goal.\<close>

fun ordinary_call :: "goal_call \<Rightarrow> bool" where
  "ordinary_call (GStart i ob a b c t t') = False"
| "ordinary_call GClear = False"
| "ordinary_call (GComplete s d t) = False"
| "ordinary_call (GRestore d t) = False"
| "ordinary_call _ = True"

text \<open>What of a receipt is settled by the completion: everything but the usage.\<close>

definition receipt_core :: "goal_receipt option \<Rightarrow> (receipt_draft \<times> int) option" where
  "receipt_core = map_option (\<lambda>r. (grc_draft r, grc_completedAt r))"

text \<open>
  A goal complete as \<open>d\<close> was at its completion: the turn in progress may still be counted, nothing after it, and
  \<open>exact\<close> says that the receipt is the very same, with the usage it was issued with.
\<close>

definition settled :: "bool \<Rightarrow> goal_state \<Rightarrow> goal_manager \<Rightarrow> bool" where
  "settled exact d m \<longleftrightarrow>
     (\<exists>g. gm_state m = Some g \<and> g_status g = GoalComplete \<and> g_completedAtIteration g = Some (g_iterations d) \<and>
          g_iterations d \<le> g_iterations g \<and> g_iterations g \<le> g_iterations d + 1 \<and>
          g_completedAt g = g_completedAt d \<and> g_summary g = g_summary d \<and>
          receipt_core (g_receipt g) = receipt_core (g_receipt d) \<and> (exact \<longrightarrow> g_receipt g = g_receipt d))"

lemma settled_upd:
  assumes "settled exact d m"
    and "\<And>g. g_status g = GoalComplete \<Longrightarrow> g_completedAtIteration g = Some (g_iterations d) \<Longrightarrow> g_iterations d \<le> g_iterations g \<Longrightarrow>
        g_iterations g \<le> g_iterations d + 1 \<Longrightarrow> g_status (f g) = GoalComplete \<and> g_completedAtIteration (f g) = Some (g_iterations d) \<and>
        g_iterations d \<le> g_iterations (f g) \<and> g_iterations (f g) \<le> g_iterations d + 1 \<and>
        g_completedAt (f g) = g_completedAt g \<and> g_summary (f g) = g_summary g \<and>
        receipt_core (g_receipt (f g)) = receipt_core (g_receipt g) \<and> (exact \<longrightarrow> g_receipt (f g) = g_receipt g)"
  shows "settled exact d (upd f m)"
proof -
  obtain g where g: "gm_state m = Some g" "g_status g = GoalComplete" "g_completedAtIteration g = Some (g_iterations d)"
      "g_iterations d \<le> g_iterations g" "g_iterations g \<le> g_iterations d + 1" and rest: "g_completedAt g = g_completedAt d"
      "g_summary g = g_summary d" "receipt_core (g_receipt g) = receipt_core (g_receipt d)" "exact \<longrightarrow> g_receipt g = g_receipt d"
    using assms(1) unfolding settled_def by blast
  then show ?thesis using assms(2) [OF g(2-5)] by (simp add: settled_def upd_def)
qed

lemma accrue_completion [simp]:
  "g_completedAt (accrueActiveTime t g) = g_completedAt g" "g_summary (accrueActiveTime t g) = g_summary g"
  "g_receipt (accrueActiveTime t g) = g_receipt g"
  by (simp_all add: accrueActiveTime_def split: option.split)

lemma reconcile_receipt:
  "settled False d m \<Longrightarrow> settled False d (reconcileCompletedReceiptUsage m)"
  unfolding reconcileCompletedReceiptUsage_def
  by (rule settled_upd) (auto simp: receipt_core_def split: option.split)

lemma settled_call:
  assumes "settled exact d m" "ordinary_call c" "exact \<longrightarrow> c \<noteq> GReconcile"
  shows "settled exact d (exec_goal sz c m)"
proof (cases c)
  case (GMutation p k)
  then show ?thesis using assms by (auto simp: recordMutation_def settled_def)
next
  case (GInterrupted r t)
  then show ?thesis using assms by (auto simp: onInterrupted_def settled_def goal_isActive_def)
next
  case GReconcile
  then show ?thesis using assms reconcile_receipt by simp
qed (use assms in \<open>auto simp: goal_snapshot_def shouldAutoContinue_def goal_edit_def goal_pause_def goal_resume_def
      Let_def setGateProgress_def recordGateFailure_def clearGateFailure_def
      setTokenBudget_def setMaxIterations_def setMaxActiveMs_def canResume_def counters_frozen_def or_else_def
      recordIteration_def syncTokensUsed_def recordTurn_def evaluate_inactive intro!: settled_upd split: option.split\<close>)

lemma settled_run:
  "settled exact d m \<Longrightarrow> list_all ordinary_call cs \<Longrightarrow> (exact \<longrightarrow> GReconcile \<notin> set cs) \<Longrightarrow> settled exact d (fold (exec_goal sz) cs m)"
proof (induction cs arbitrary: m)
  case (Cons c cs)
  have "settled exact d (exec_goal sz c m)" using Cons.prems by (intro settled_call) auto
  then show ?case using Cons by simp
qed simp

section \<open>Mutations and gates\<close>

lemma add_path_bound: "length (add_path p paths) \<le> MAX_MUTATED_PATHS"
  by (simp add: add_path_def LENslice_last)

lemma recordMutation_counted:
  assumes "gm_state m = Some g" "g_status g \<noteq> GoalComplete"
    and "or_else (map_option trim key) [] \<notin> gm_keys m"
  shows "gm_state (recordMutation path key m) =
    Some (note_mutation (case path of Some p \<Rightarrow> normalizeMutationPath p | None \<Rightarrow> []) g)"
  using assms by (auto simp: recordMutation_def Let_def or_else_def split: option.splits)

lemma gateProgress_note_mutation:
  "gm_state m = Some (note_mutation p g) \<Longrightarrow> gateProgressFor rvn fps m = []"
  by (simp add: gateProgressFor_def note_mutation_def)


section \<open>Properties\<close>

text \<open>The autonomous loop is only ever told to continue within all three limits (tokens, iterations,
  active time, the last counted up to this very reading of the clock); when it stops an active goal
  instead, the recorded reason names a limit that really is reached, and the clock is stopped.\<close>

theorem goal_continue_within_limits:
  assumes "gm_state m = Some g"
  shows "case shouldAutoContinue now m of (m', b) \<Rightarrow> \<exists>g'. gm_state m' = Some g' \<and>
    (if b then g_status g' = GoalActive \<and> within_limits g'
     else g_status g' \<noteq> GoalActive \<and>
       (g_status g = GoalActive \<longrightarrow> limit_named g' \<and> g_activeSince g' = None))"
proof (cases "g_status g = GoalActive")
  case True
  have "g_status (evaluateLimits now g) \<noteq> GoalActive \<Longrightarrow> g_activeSince (evaluateLimits now g) = None"
    using True by (auto simp: evaluateLimits_def Let_def split: option.splits)
  then show ?thesis using evaluate_cases [OF True, of now] assms
    by (auto simp: shouldAutoContinue_def upd_def goal_isActive_def Let_def)
qed (use assms in \<open>simp add: shouldAutoContinue_def upd_def goal_isActive_def Let_def evaluate_inactive\<close>)

definition sample_goal :: goal_manager where
  "sample_goal = goal_start [103] [111] (Some 100) None None 0 0 new_goal_manager"

theorem goal_continue_within_limits_witness:
  "snd (shouldAutoContinue 7 sample_goal) \<and>
   \<not> snd (shouldAutoContinue 7 (recordTurn 100 5 sample_goal))"
proof -
  have "gm_state (recordTurn 100 5 sample_goal) \<noteq> None" by code_simp
  then obtain g where g: "gm_state (recordTurn 100 5 sample_goal) = Some g" by blast
  have "map_option g_status (gm_state (recordTurn 100 5 sample_goal)) = Some BudgetLimited" by code_simp
  then have "g_status g = BudgetLimited" using g by simp
  moreover have "snd (shouldAutoContinue 7 sample_goal)" by code_simp
  moreover have "\<not> snd (shouldAutoContinue 7 (recordTurn 100 5 sample_goal))" by code_simp
  ultimately show ?thesis
    using goal_continue_within_limits [OF g, of 7] by simp
qed

text \<open>A goal that is not running comes back to life only within its limits: after any single call
  other than \<open>start\<close> (resume, raising a limit, recording spend, an event, a restore, ...), if the goal
  is now active and was not before, its tokens, iterations and active time are all below the limits.
  In particular a budget-limited goal cannot be resumed without raising its budget.\<close>

theorem goal_reactivation_safe:
  assumes "active_goal m = None" and "active_goal (exec_goal sz c m) = Some g"
    and "\<And>i ob a b d t t'. c \<noteq> GStart i ob a b d t t'"
  shows "within_limits g"
  using assms by (rule reactivation_within_limits)

theorem goal_reactivation_safe_witness:
  "active_goal (goal_resume 9 9 (recordTurn 100 5 sample_goal)) = None \<and>
   map_option g_tokensUsed (active_goal (setTokenBudget 101 9 9 (recordTurn 100 5 sample_goal))) = Some 100 \<and>
   (\<exists>g. active_goal (setTokenBudget 101 9 9 (recordTurn 100 5 sample_goal)) = Some g \<and> within_limits g)"
proof -
  let ?m = "recordTurn 100 5 sample_goal"
  have no: "active_goal ?m = None" by code_simp
  have "map_option g_tokensUsed (active_goal (setTokenBudget 101 9 9 ?m)) = Some 100" by code_simp
  moreover from this obtain g where g: "active_goal (exec_goal (\<lambda>_. 0) (GBudget 101 9 9) ?m) = Some g" by auto
  have "within_limits g" by (rule goal_reactivation_safe [OF no g]) simp
  moreover have "active_goal (goal_resume 9 9 ?m) = None" by code_simp
  ultimately show ?thesis using g by auto
qed

text \<open>The active-time clock runs exactly while the goal is active, after any sequence of calls on a
  fresh manager, restores of arbitrary persisted goals included.\<close>

theorem goal_clock_runs_iff_active:
  "case gm_state (fold (exec_goal sz) cs new_goal_manager) of
     None \<Rightarrow> True | Some g \<Rightarrow> (g_activeSince g \<noteq> None) = (g_status g = GoalActive)"
  using goal_machine.inv_run [of new_goal_manager sz cs]
  by (simp add: goal_ok_def clock_ok_def new_goal_manager_def split: option.splits)

text \<open>C34: Completion is final. Once \<open>complete\<close> succeeds, no sequence of calls short of a new start, a
  clear, another completion or a restore makes the goal anything but complete or changes the completion's
  time, summary and receipt - only \<open>reconcileCompletedReceiptUsage\<close> writes the usage of the receipt anew, and
  without it the receipt stays as it was issued; at most the turn in progress is still added to the iterations.\<close>

theorem goal_completion_final:
  assumes "gm_state m = Some g" and "goal_complete sz summary draft now m = (m', Completed receipt)"
    and "list_all ordinary_call cs"
  shows "\<exists>d g'. gm_state m' = Some d \<and> g_status d = GoalComplete \<and> g_completedAt d = Some now \<and>
    (draft \<noteq> None \<longrightarrow> g_receipt d = receipt) \<and>
    gm_state (fold (exec_goal sz) cs m') = Some g' \<and> g_status g' = GoalComplete \<and>
    g_iterations g \<le> g_iterations g' \<and> g_iterations g' \<le> g_iterations g + 1 \<and>
    g_completedAt g' = g_completedAt d \<and> g_summary g' = g_summary d \<and>
    receipt_core (g_receipt g') = receipt_core (g_receipt d) \<and>
    (GReconcile \<notin> set cs \<longrightarrow> g_receipt g' = g_receipt d)"
proof -
  obtain d where d: "gm_state m' = Some d" "g_status d = GoalComplete" "g_completedAt d = Some now"
      "g_iterations d = g_iterations g" "settled True d m'" "draft \<noteq> None \<longrightarrow> g_receipt d = receipt"
    using assms(1,2) by (auto simp: goal_complete_def settled_def Let_def split: if_splits option.splits)
  have "settled (GReconcile \<notin> set cs) d (fold (exec_goal sz) cs m')"
    by (rule settled_run [OF _ assms(3)]) (use d(5) in \<open>auto simp: settled_def\<close>)
  then show ?thesis using d by (auto simp: settled_def)
qed

theorem goal_completion_final_witness:
  "\<exists>g'. gm_state (fold (exec_goal (\<lambda>_. 0)) [GTurn 5 1, GTurn 5 2, GResume 3 3]
       (fst (goal_complete (\<lambda>_. 0) None None 1 sample_goal))) = Some g' \<and> g_status g' = GoalComplete \<and>
     g_iterations g' \<le> 1"
proof -
  have "map_option g_iterations (gm_state sample_goal) = Some 0" by code_simp
  then obtain g where g: "gm_state sample_goal = Some g" "g_iterations g = 0" by auto
  have "goal_complete (\<lambda>_. 0) None None 1 sample_goal
      = (fst (goal_complete (\<lambda>_. 0) None None 1 sample_goal), Completed None)"
    using g(1) by (simp add: goal_complete_def Let_def)
  from goal_completion_final [OF g(1) this, of "[GTurn 5 1, GTurn 5 2, GResume 3 3]"] g(2)
  show ?thesis by auto
qed

text \<open>A workspace mutation invalidates verification: unless its event key was already counted, it
  raises the revision by exactly one, forgets the passed gates (so no gate counts as passed for any
  revision until it is recorded again) and the last failure, and keeps at most 50 paths with the new
  one last; a key that was counted, or a complete goal, changes nothing.\<close>

theorem mutation_invalidates_gates:
  assumes "gm_state m = Some g" and "g_status g \<noteq> GoalComplete"
  shows "if or_else (map_option trim key) [] \<in> gm_keys m \<and> or_else (map_option trim key) [] \<noteq> []
    then recordMutation path key m = m
    else \<exists>g'. gm_state (recordMutation path key m) = Some g' \<and>
      g_mutationRevision g' = Some (or_else (g_mutationRevision g) 0 + 1) \<and>
      gateProgressFor rvn fps (recordMutation path key m) = [] \<and> g_gateFailure g' = None \<and>
      (length (or_else (g_mutatedPaths g) []) \<le> 50 \<longrightarrow> length (or_else (g_mutatedPaths g') []) \<le> 50) \<and>
      g_status g' = g_status g"
proof (cases "or_else (map_option trim key) [] \<in> gm_keys m \<and> or_else (map_option trim key) [] \<noteq> []")
  case True
  then show ?thesis using assms
    by (auto simp: recordMutation_def Let_def or_else_def split: option.splits)
next
  case False
  let ?p = "case path of Some p \<Rightarrow> normalizeMutationPath p | None \<Rightarrow> []"
  have st: "gm_state (recordMutation path key m) = Some (note_mutation ?p g)"
    using assms False by (auto simp: recordMutation_def Let_def or_else_def split: option.splits)
  have "length (or_else (g_mutatedPaths (note_mutation ?p g)) []) \<le> 50"
    if "length (or_else (g_mutatedPaths g) []) \<le> 50"
    using that add_path_bound by (auto simp: note_mutation_def or_else_def MAX_MUTATED_PATHS_def)
  then show ?thesis unfolding if_not_P [OF False] using st gateProgress_note_mutation [OF st]
    by (simp add: note_mutation_def)
qed

theorem mutation_invalidates_gates_witness:
  "gateProgressFor 0 [([120], [121])] (setGateProgress 0 [[120]] [([120], [121])] sample_goal) = [[120]] \<and>
   gateProgressFor 0 [([120], [121])]
     (recordMutation (Some [97]) (Some [49]) (setGateProgress 0 [[120]] [([120], [121])] sample_goal)) = []"
proof -
  let ?m = "setGateProgress 0 [[120]] [([120], [121])] sample_goal"
  have "map_option g_status (gm_state ?m) = Some GoalActive" by code_simp
  then obtain g where g: "gm_state ?m = Some g" "g_status g \<noteq> GoalComplete" by auto
  have "gm_keys ?m = {}" by (simp add: setGateProgress_def upd_def sample_goal_def goal_start_def goal_snapshot_def Let_def)
  then have "gateProgressFor 0 [([120], [121])] (recordMutation (Some [97]) (Some [49]) ?m) = []"
    using mutation_invalidates_gates [OF g, of "Some [49]" "Some [97]" 0 "[([120], [121])]"] by auto
  moreover have "gateProgressFor 0 [([120], [121])] ?m = [[120]]" by code_simp
  ultimately show ?thesis by simp
qed

end
