(* ===== verification/TokenGovernor.thy ===== *)
theory TokenGovernor
  imports Complex_Main GoalManager
begin

text \<open>
  The token budget ledger (core/token-governor.ts, class TokenBudgetGovernor): main, subagent and
  fusion spend, the reservations held for in-flight subagents, and the mirror into the bound goal
  manager, which is part of the state because the governor calls it. Token counts are integers; USD
  costs, which are only ever added, are rationals. Each \<open>flushToGoal\<close> takes the reading of the goal
  manager's clock. The lemmas show that the held total is always the sum of the open reservations,
  that reservations never commit more than the budget, and that the goal sees exactly the spend.
\<close>


section \<open>State\<close>

record subagent_usage =
  su_totalTokens :: jsnum
  su_costUsd :: "rat option"

record governor =
  gv_main :: int
  gv_subagent :: int
  gv_fusion :: int
  gv_mainCost :: rat
  gv_subagentCost :: rat
  gv_fusionCost :: rat
  gv_reserved :: int
  gv_reservations :: "(nat, int) jsmap"
  gv_nextId :: nat
  gv_gearbox :: int
  gv_budget :: "int option"
  gv_goal :: "goal_manager option"

definition new_governor :: governor where
  "new_governor =
     \<lparr> gv_main = 0, gv_subagent = 0, gv_fusion = 0, gv_mainCost = 0, gv_subagentCost = 0, gv_fusionCost = 0,
       gv_reserved = 0, gv_reservations = [], gv_nextId = 1, gv_gearbox = 0, gv_budget = None, gv_goal = None \<rparr>"

definition DEFAULT_SUBAGENT_RESERVATION_TOKENS :: int where
  "DEFAULT_SUBAGENT_RESERVATION_TOKENS = 4096"

definition nonnegativeFinite :: "jsnum \<Rightarrow> int" where
  "nonnegativeFinite v = (case v of Finite n \<Rightarrow> if 0 \<le> n then n else 0 | _ \<Rightarrow> 0)"

definition positiveRounded :: "jsnum \<Rightarrow> int" where
  "positiveRounded v = nonnegativeFinite v"

text \<open>The cost reading of the same guard: \<open>None\<close> is not a finite number.\<close>

definition nonnegative_cost :: "rat option \<Rightarrow> rat" where
  "nonnegative_cost c = (case c of Some x \<Rightarrow> if 0 \<le> x then x else 0 | None \<Rightarrow> 0)"


section \<open>Operations\<close>

definition totalSpent :: "governor \<Rightarrow> int" where
  "totalSpent v = gv_main v + gv_subagent v + gv_fusion v"

definition committedTokens :: "governor \<Rightarrow> int" where
  "committedTokens v = totalSpent v + gv_reserved v"

definition totalCostUsd :: "governor \<Rightarrow> rat" where
  "totalCostUsd v = gv_mainCost v + gv_subagentCost v + gv_fusionCost v"

definition budget_remaining :: "governor \<Rightarrow> int option" where
  "budget_remaining v = map_option (\<lambda>b. max 0 (b - committedTokens v)) (gv_budget v)"

definition flushToGoal :: "int \<Rightarrow> governor \<Rightarrow> governor" where
  "flushToGoal now v =
     v\<lparr>gv_goal := map_option
        (syncTokensUsed (totalSpent v)
           (Some \<lparr> sp_main = gv_main v, sp_subagent = gv_subagent v, sp_fusion = gv_fusion v \<rparr>) now)
        (gv_goal v)\<rparr>"

definition bindGoal :: "goal_manager option \<Rightarrow> governor \<Rightarrow> governor" where
  "bindGoal g v = v\<lparr>gv_goal := g\<rparr>"

definition gov_reset :: "governor \<Rightarrow> governor" where
  "gov_reset v =
     v\<lparr>gv_main := 0, gv_subagent := 0, gv_fusion := 0, gv_mainCost := 0, gv_subagentCost := 0,
       gv_fusionCost := 0, gv_reserved := 0, gv_reservations := [], gv_gearbox := 0, gv_budget := None\<rparr>"

definition setBudget :: "int option \<Rightarrow> int \<Rightarrow> governor \<Rightarrow> governor" where
  "setBudget limit now v = flushToGoal now (v\<lparr>gv_budget := limit\<rparr>)"

definition restoreSpend :: "int \<Rightarrow> int option \<Rightarrow> spend_split option \<Rightarrow> governor \<Rightarrow> governor" where
  "restoreSpend tot budget split v =
     (let v' = (case split of
            Some s \<Rightarrow> v\<lparr>gv_main := max 0 (sp_main s), gv_subagent := max 0 (sp_subagent s),
                        gv_fusion := max 0 (sp_fusion s)\<rparr>
          | None \<Rightarrow> v\<lparr>gv_main := max 0 tot, gv_subagent := 0, gv_fusion := 0\<rparr>)
      in v'\<lparr>gv_gearbox := 0, gv_mainCost := 0, gv_subagentCost := 0, gv_fusionCost := 0,
            gv_reserved := 0, gv_reservations := [], gv_budget := budget\<rparr>)"

definition recordMain :: "jsnum \<Rightarrow> rat option \<Rightarrow> int \<Rightarrow> governor \<Rightarrow> governor" where
  "recordMain delta cost now v =
     (let tokens = positiveRounded delta; c = nonnegative_cost cost
      in if tokens = 0 \<and> c = 0 then v
         else flushToGoal now (v\<lparr>gv_main := gv_main v + tokens, gv_mainCost := gv_mainCost v + c\<rparr>))"

definition consumeReservation :: "nat \<Rightarrow> int \<Rightarrow> governor \<Rightarrow> governor" where
  "consumeReservation rid tokens v =
     (case mget (gv_reservations v) rid of
        None \<Rightarrow> v
      | Some held \<Rightarrow>
          let consumed = min held tokens; nxt = held - consumed
          in v\<lparr>gv_reserved := gv_reserved v - consumed,
               gv_reservations := (if nxt = 0 then mdel rid (gv_reservations v)
                                   else mset_at rid nxt (gv_reservations v))\<rparr>)"

definition recordSubagentUsage :: "subagent_usage option \<Rightarrow> nat option \<Rightarrow> int \<Rightarrow> governor \<Rightarrow> governor" where
  "recordSubagentUsage usage rid now v =
     (case usage of
        None \<Rightarrow> v
      | Some u \<Rightarrow>
          let tokens = positiveRounded (su_totalTokens u); c = nonnegative_cost (su_costUsd u)
          in if tokens = 0 \<and> c = 0 then v
             else let v1 = v\<lparr>gv_subagent := gv_subagent v + tokens, gv_subagentCost := gv_subagentCost v + c\<rparr>;
                      v2 = (case rid of Some i \<Rightarrow> consumeReservation i tokens v1 | None \<Rightarrow> v1)
                  in flushToGoal now v2)"

definition recordSubagent :: "subagent_usage option \<Rightarrow> int \<Rightarrow> governor \<Rightarrow> governor" where
  "recordSubagent usage now v = recordSubagentUsage usage None now v"

definition recordFusion :: "jsnum \<Rightarrow> rat option \<Rightarrow> int \<Rightarrow> governor \<Rightarrow> governor" where
  "recordFusion delta cost now v =
     (let tokens = positiveRounded delta; c = nonnegative_cost cost
      in if tokens = 0 \<and> c = 0 then v
         else flushToGoal now (v\<lparr>gv_fusion := gv_fusion v + tokens, gv_fusionCost := gv_fusionCost v + c\<rparr>))"

definition recordGearbox :: "int \<Rightarrow> int \<Rightarrow> governor \<Rightarrow> governor" where
  "recordGearbox delta now v =
     (if delta \<le> 0 then v else flushToGoal now (v\<lparr>gv_gearbox := gv_gearbox v + delta\<rparr>))"

definition evaluateSpawn :: "governor \<Rightarrow> bool" where
  "evaluateSpawn v = (case gv_budget v of None \<Rightarrow> True | Some b \<Rightarrow> \<not> b \<le> committedTokens v)"

text \<open>
  The three shapes of a reservation: without a budget (\<open>record\<close> passes usage through when spawning
  is allowed), denied, or a hold with its id.
\<close>

datatype reservation = Passthrough bool | Denied | Held nat

definition reserveSubagent :: "int \<Rightarrow> governor \<Rightarrow> governor \<times> reservation" where
  "reserveSubagent estimated v =
     (if \<not> evaluateSpawn v \<or> gv_budget v = None then (v, Passthrough (evaluateSpawn v))
      else let b = the (gv_budget v);
               remaining = max 0 (b - committedTokens v);
               tokens = min (max 0 estimated) remaining
           in if tokens \<le> 0 \<or> b < committedTokens v + tokens then (v, Denied)
              else (v\<lparr>gv_nextId := Suc (gv_nextId v),
                      gv_reservations := mset_at (gv_nextId v) tokens (gv_reservations v),
                      gv_reserved := gv_reserved v + tokens\<rparr>, Held (gv_nextId v)))"

definition releaseReservation :: "nat \<Rightarrow> governor \<Rightarrow> governor" where
  "releaseReservation rid v =
     (case mget (gv_reservations v) rid of
        None \<Rightarrow> v
      | Some held \<Rightarrow> v\<lparr>gv_reservations := mdel rid (gv_reservations v), gv_reserved := gv_reserved v - held\<rparr>)"

text \<open>
  The handle's two closures. A second \<open>release\<close> finds no hold (ids are never reused), so the
  closure's \<open>released\<close> flag needs no state of its own.
\<close>

definition handle_record :: "reservation \<Rightarrow> subagent_usage option \<Rightarrow> int \<Rightarrow> governor \<Rightarrow> governor" where
  "handle_record h usage now v =
     (case h of
        Passthrough ok \<Rightarrow> if ok then recordSubagent usage now v else v
      | Denied \<Rightarrow> v
      | Held rid \<Rightarrow> recordSubagentUsage usage (Some rid) now v)"

definition handle_release :: "reservation \<Rightarrow> governor \<Rightarrow> governor" where
  "handle_release h v = (case h of Held rid \<Rightarrow> releaseReservation rid v | _ \<Rightarrow> v)"


section \<open>The ledger invariant\<close>

definition map_total :: "('k, int) jsmap \<Rightarrow> int" where
  "map_total m = sum_list (mvalues m)"

lemma map_total_Nil [simp]: "map_total [] = 0"
  by (simp add: map_total_def mvalues_def)

lemma map_total_mdel: "map_ok m \<Longrightarrow> map_total (mdel k m) = map_total m - (case mget m k of Some v \<Rightarrow> v | None \<Rightarrow> 0)"
proof (induction m)
  case (Cons e m)
  show ?case
  proof (cases "fst e = k")
    case True
    then have "mdel k (e # m) = m" using mdel_hd [OF Cons.prems] by simp
    with True show ?thesis by (cases e) (simp add: map_total_def mvalues_def mget_def)
  next
    case False
    with Cons show ?thesis
      by (cases e) (auto simp: map_total_def mvalues_def mget_def mdel_def map_ok_def mkeys_def split: option.splits)
  qed
qed (simp add: mdel_def)

lemma map_total_snoc: "map_total (m @ [(k, v)]) = map_total m + v"
  by (simp add: map_total_def mvalues_def)

lemma map_total_mset_at:
  "map_ok m \<Longrightarrow> map_total (mset_at k v m) = map_total m + v - (case mget m k of Some w \<Rightarrow> w | None \<Rightarrow> 0)"
proof (induction m)
  case Nil
  then show ?case by (simp add: mset_at_def mhas_def map_total_def mvalues_def)
next
  case (Cons e m)
  show ?case
  proof (cases "fst e = k")
    case True
    have "\<forall>x \<in> set m. fst x \<noteq> k" using Cons.prems True by (auto simp: map_ok_def mkeys_def image_iff)
    then have "map (\<lambda>(a, b). if a = k then (a, v) else (a, b)) m = m"
      by (intro map_idI) auto
    with True show ?thesis by (cases e) (simp add: mset_at_def mhas_def map_total_def mvalues_def mget_def)
  next
    case False
    have "map_total (mset_at k v (e # m)) = snd e + map_total (mset_at k v m)"
      using False by (cases e) (auto simp: mset_at_def mhas_def map_total_def mvalues_def)
    with False Cons show ?thesis
      by (cases e) (auto simp: map_ok_def mkeys_def map_total_def mvalues_def mget_def split: option.splits)
  qed
qed

text \<open>The held total is the sum of the open holds, each of them positive, with ids below the counter.\<close>

definition gov_ok :: "governor \<Rightarrow> bool" where
  "gov_ok v \<longleftrightarrow>
     map_ok (gv_reservations v) \<and> gv_reserved v = map_total (gv_reservations v) \<and>
     (\<forall>k t. mget (gv_reservations v) k = Some t \<longrightarrow> 0 < t \<and> k < gv_nextId v) \<and>
     0 \<le> gv_main v \<and> 0 \<le> gv_subagent v \<and> 0 \<le> gv_fusion v"

lemma flush_sel [simp]:
  "gov_ok (flushToGoal now v) = gov_ok v" "totalSpent (flushToGoal now v) = totalSpent v"
  "committedTokens (flushToGoal now v) = committedTokens v" "gv_budget (flushToGoal now v) = gv_budget v"
  "gv_reservations (flushToGoal now v) = gv_reservations v" "gv_reserved (flushToGoal now v) = gv_reserved v"
  by (simp_all add: flushToGoal_def gov_ok_def totalSpent_def committedTokens_def)

lemma positiveRounded_nonneg [simp]: "0 \<le> positiveRounded x"
  by (simp add: positiveRounded_def nonnegativeFinite_def split: jsnum.split)

lemma gov_ok_fields [simp]:
  "gov_ok (v\<lparr>gv_budget := b\<rparr>) = gov_ok v" "gov_ok (v\<lparr>gv_goal := g\<rparr>) = gov_ok v"
  "gov_ok (v\<lparr>gv_gearbox := x\<rparr>) = gov_ok v"
  by (simp_all add: gov_ok_def)

lemma gov_ok_spend [simp]:
  "gov_ok v \<Longrightarrow> 0 \<le> x \<Longrightarrow> gov_ok (v\<lparr>gv_main := gv_main v + x, gv_mainCost := c\<rparr>)"
  "gov_ok v \<Longrightarrow> 0 \<le> x \<Longrightarrow> gov_ok (v\<lparr>gv_fusion := gv_fusion v + x, gv_fusionCost := c\<rparr>)"
  by (simp_all add: gov_ok_def)

lemma consume_ok: "gov_ok v \<Longrightarrow> 0 \<le> tokens \<Longrightarrow> gov_ok (consumeReservation rid tokens v)"
proof (cases "mget (gv_reservations v) rid")
  case (Some held)
  assume "gov_ok v" "0 \<le> tokens"
  with Some show ?thesis
    by (auto simp: gov_ok_def consumeReservation_def Let_def map_total_mdel map_total_mset_at split: if_splits)
qed (simp add: consumeReservation_def)

lemma release_ok: "gov_ok v \<Longrightarrow> gov_ok (releaseReservation rid v)"
  by (auto simp: gov_ok_def releaseReservation_def map_total_mdel split: option.splits if_splits)

lemma usage_ok: "gov_ok v \<Longrightarrow> gov_ok (recordSubagentUsage usage rid now v)"
proof -
  assume ok: "gov_ok v"
  have "gov_ok (v\<lparr>gv_subagent := gv_subagent v + positiveRounded x, gv_subagentCost := c\<rparr>)" for x c
    using ok by (simp add: gov_ok_def)
  then show ?thesis using ok consume_ok
    by (auto simp: recordSubagentUsage_def Let_def split: option.split)
qed

lemma reserve_ok: "gov_ok v \<Longrightarrow> gov_ok (fst (reserveSubagent est v))"
proof -
  assume ok: "gov_ok v"
  then have "mget (gv_reservations v) (gv_nextId v) = None"
    unfolding gov_ok_def by (metis less_irrefl not_Some_eq)
  with ok show ?thesis
    by (auto simp: reserveSubagent_def Let_def gov_ok_def map_total_mset_at less_SucI)
qed

datatype gov_call =
    BindGoal "goal_manager option"
  | ResetSpend
  | SetBudget "int option" int
  | RestoreSpend int "int option" "spend_split option"
  | RecordMain jsnum "rat option" int
  | RecordFusion jsnum "rat option" int
  | RecordGearbox int int
  | Reserve int
  | RecordUsage reservation "subagent_usage option" int
  | Release reservation

fun exec_gov :: "gov_call \<Rightarrow> governor \<Rightarrow> governor" where
  "exec_gov (BindGoal g) v = bindGoal g v"
| "exec_gov ResetSpend v = gov_reset v"
| "exec_gov (SetBudget b t) v = setBudget b t v"
| "exec_gov (RestoreSpend n b s) v = restoreSpend n b s v"
| "exec_gov (RecordMain d c t) v = recordMain d c t v"
| "exec_gov (RecordFusion d c t) v = recordFusion d c t v"
| "exec_gov (RecordGearbox d t) v = recordGearbox d t v"
| "exec_gov (Reserve est) v = fst (reserveSubagent est v)"
| "exec_gov (RecordUsage h u t) v = handle_record h u t v"
| "exec_gov (Release h) v = handle_release h v"

lemma gov_ok_call: "gov_ok v \<Longrightarrow> gov_ok (exec_gov c v)"
proof (cases c)
  case (RecordUsage h u t)
  assume "gov_ok v"
  then show ?thesis using RecordUsage usage_ok
    by (simp add: handle_record_def recordSubagent_def split: reservation.split)
next
  case (Release h)
  assume "gov_ok v"
  then show ?thesis using Release release_ok by (simp add: handle_release_def split: reservation.split)
next
  case (Reserve est)
  assume "gov_ok v"
  then show ?thesis using Reserve by (simp add: reserve_ok)
next
  case ResetSpend
  then show ?thesis by (simp add: gov_reset_def gov_ok_def)
next
  case (RestoreSpend n b s)
  then show ?thesis by (simp add: restoreSpend_def Let_def gov_ok_def split: option.split)
qed (simp_all add: bindGoal_def setBudget_def recordMain_def recordFusion_def recordGearbox_def Let_def)

interpretation gov_machine: event_machine exec_gov gov_ok
  by unfold_locales (rule gov_ok_call)

lemma gov_ok_new: "gov_ok new_governor"
  by (simp add: gov_ok_def new_governor_def)

section \<open>Reservations and the goal mirror\<close>

lemma consume_committed:
  "gov_ok v \<Longrightarrow> committedTokens (consumeReservation rid tokens v) =
     committedTokens v - (case mget (gv_reservations v) rid of Some held \<Rightarrow> min held tokens | None \<Rightarrow> 0)"
  by (simp add: consumeReservation_def committedTokens_def totalSpent_def Let_def split: option.split)

lemma usage_committed:
  assumes "gov_ok v" "mget (gv_reservations v) rid = Some held"
  shows "committedTokens (recordSubagentUsage usage (Some rid) now v) =
    committedTokens v + (case usage of Some u \<Rightarrow> max 0 (positiveRounded (su_totalTokens u) - held) | None \<Rightarrow> 0)"
proof (cases usage)
  case (Some u)
  let ?t = "positiveRounded (su_totalTokens u)"
  have pos: "0 < held" using assms by (auto simp: gov_ok_def)
  have "committedTokens (consumeReservation rid ?t (v\<lparr>gv_subagent := gv_subagent v + ?t, gv_subagentCost := c\<rparr>))
      = committedTokens v + max 0 (?t - held)" for c
  proof -
    have "gov_ok (v\<lparr>gv_subagent := gv_subagent v + ?t, gv_subagentCost := c\<rparr>)" using assms(1) by (simp add: gov_ok_def)
    from consume_committed [OF this, of rid ?t] show ?thesis
      using assms(2) by (simp add: committedTokens_def totalSpent_def max_def min_def)
  qed
  then show ?thesis using Some pos
    by (simp add: recordSubagentUsage_def Let_def)
qed (simp add: recordSubagentUsage_def)

lemma flush_goal:
  assumes "gov_ok v" "gv_goal v = Some m" "gm_state m = Some g" "\<not> counters_frozen g"
  shows "\<exists>m' g'. gv_goal (flushToGoal now v) = Some m' \<and> gm_state m' = Some g' \<and>
    g_tokensUsed g' = totalSpent v \<and> (g_status g' = GoalActive \<longrightarrow> within_limits g') \<and>
    g_split g' = Some \<lparr> sp_main = gv_main v, sp_subagent = gv_subagent v, sp_fusion = gv_fusion v \<rparr>"
proof -
  have nn: "0 \<le> totalSpent v" "0 \<le> gv_main v" "0 \<le> gv_subagent v" "0 \<le> gv_fusion v"
    using assms(1) by (auto simp: gov_ok_def totalSpent_def)
  have split: "g_split (evaluateLimits t h) = g_split h" for t h
    by (simp add: evaluateLimits_def accrueActiveTime_def Let_def split: option.split)
  show ?thesis using assms nn evaluate_active
    by (simp add: flushToGoal_def syncTokensUsed_def upd_def split max_def)
qed


section \<open>Properties\<close>

text \<open>The ledger always balances: after any sequence of calls the tokens held for subagents are the
  sum of the open reservations, every open hold is positive, and no counter is negative.\<close>

theorem ledger_balances:
  "gv_reserved (fold exec_gov cs new_governor) = sum_list (mvalues (gv_reservations (fold exec_gov cs new_governor))) \<and>
   0 \<le> gv_reserved (fold exec_gov cs new_governor) \<and> 0 \<le> totalSpent (fold exec_gov cs new_governor) \<and>
   (\<forall>k t. mget (gv_reservations (fold exec_gov cs new_governor)) k = Some t \<longrightarrow> 0 < t)"
proof -
  have ok: "gov_ok (fold exec_gov cs new_governor)" by (rule gov_machine.inv_run [OF gov_ok_new])
  have "0 \<le> x" if x: "x \<in> set (mvalues (gv_reservations (fold exec_gov cs new_governor)))" for x
  proof -
    obtain k where "(k, x) \<in> set (gv_reservations (fold exec_gov cs new_governor))"
      using x by (auto simp: mvalues_def)
    then have "mget (gv_reservations (fold exec_gov cs new_governor)) k = Some x"
      using ok mget_in by (metis gov_ok_def)
    then show ?thesis using ok by (auto simp: gov_ok_def less_imp_le)
  qed
  then have "0 \<le> sum_list (mvalues (gv_reservations (fold exec_gov cs new_governor)))" by (rule sum_list_nonneg)
  then show ?thesis using ok by (auto simp: gov_ok_def map_total_def totalSpent_def)
qed

definition sample_governor :: governor where
  "sample_governor = fold exec_gov [SetBudget (Some 100) 0, Reserve 60, Reserve 60] new_governor"

theorem ledger_balances_witness:
  "gv_reservations sample_governor = [(1, 60), (2, 40)] \<and> gv_reserved sample_governor = 100 \<and>
   0 \<le> gv_reserved (fold exec_gov [Reserve 60] new_governor)"
proof -
  have "gv_reservations sample_governor = [(1, 60), (2, 40)]" "gv_reserved sample_governor = 100" by code_simp+
  then show ?thesis using ledger_balances [of "[Reserve 60]"] by simp
qed

text \<open>C36: Concurrent spawns cannot overcommit: under a budget, a granted reservation leaves spend plus
  holds within the budget and holds a positive amount no larger than asked for; a denial changes
  nothing and only happens when nothing is left to hold or nothing was asked for.\<close>

theorem reservation_within_budget:
  assumes "gov_ok v" and "gv_budget v = Some b"
  shows "case reserveSubagent est v of
      (v', Held rid) \<Rightarrow> committedTokens v' \<le> b \<and> totalSpent v' = totalSpent v \<and>
        (\<exists>t. mget (gv_reservations v') rid = Some t \<and> 0 < t \<and> t \<le> est \<and>
             committedTokens v' = committedTokens v + t) \<and>
        mget (gv_reservations v) rid = None
    | (v', _) \<Rightarrow> v' = v \<and> (b \<le> committedTokens v \<or> est \<le> 0)"
proof -
  have "mget (gv_reservations v) (gv_nextId v) = None"
    using assms(1) unfolding gov_ok_def by (metis less_irrefl not_Some_eq)
  then show ?thesis using assms(2)
    by (auto simp: reserveSubagent_def evaluateSpawn_def Let_def committedTokens_def totalSpent_def)
qed

theorem reservation_within_budget_witness:
  "snd (reserveSubagent 60 (fold exec_gov [SetBudget (Some 100) 0, Reserve 60] new_governor)) = Held 2 \<and>
   committedTokens (fst (reserveSubagent 60 (fold exec_gov [SetBudget (Some 100) 0, Reserve 60] new_governor))) \<le> 100"
proof -
  let ?v = "fold exec_gov [SetBudget (Some 100) 0, Reserve 60] new_governor"
  have ok: "gov_ok ?v" by (rule gov_machine.inv_run [OF gov_ok_new])
  have b: "gv_budget ?v = Some 100" by code_simp
  have h: "snd (reserveSubagent 60 ?v) = Held 2" by code_simp
  then show ?thesis using reservation_within_budget [OF ok b, of 60]
    by (cases "reserveSubagent 60 ?v") auto
qed

text \<open>Reported usage consumes its own hold: usage within the hold leaves the committed total
  unchanged (the spend replaces the hold), usage beyond it adds exactly the excess, and releasing
  a hold refunds exactly what is left of it.\<close>

theorem usage_consumes_hold:
  assumes "gov_ok v" and "mget (gv_reservations v) rid = Some held"
  shows "committedTokens (handle_record (Held rid) usage now v) = committedTokens v +
      (case usage of Some u \<Rightarrow> max 0 (positiveRounded (su_totalTokens u) - held) | None \<Rightarrow> 0) \<and>
    committedTokens (handle_release (Held rid) v) = committedTokens v - held \<and>
    handle_release (Held rid) (handle_release (Held rid) v) = handle_release (Held rid) v"
  using usage_committed [OF assms] assms(2)
  by (simp add: handle_record_def handle_release_def releaseReservation_def committedTokens_def totalSpent_def)

theorem usage_consumes_hold_witness:
  "committedTokens (handle_record (Held 1) (Some \<lparr>su_totalTokens = Finite 50, su_costUsd = None\<rparr>) 0 sample_governor) = 100"
proof -
  have ok: "gov_ok sample_governor" unfolding sample_governor_def by (rule gov_machine.inv_run [OF gov_ok_new])
  have "mget (gv_reservations sample_governor) 1 = Some 60" "committedTokens sample_governor = 100" by code_simp+
  then show ?thesis using usage_consumes_hold [OF ok, of 1 60 "Some \<lparr>su_totalTokens = Finite 50, su_costUsd = None\<rparr>" 0]
    by (simp add: positiveRounded_def nonnegativeFinite_def)
qed

text \<open>The goal sees all spend. Recording main-agent or fusion tokens, or usage of a hold, on a
  governor bound to a goal whose counters are not frozen makes the goal's token count the exact
  total of the three channels, and the goal is then active only within its limits: spend by
  subagents stops an autonomous goal just as the main agent's does.\<close>

theorem spend_reaches_goal:
  assumes "gov_ok v" and "gv_goal v = Some m" and "gm_state m = Some g" and "\<not> counters_frozen g"
    and "0 < tokens"
    and "v' = recordMain (Finite tokens) cost now v \<or> v' = recordFusion (Finite tokens) cost now v \<or>
         v' = recordSubagent (Some \<lparr>su_totalTokens = Finite tokens, su_costUsd = cost\<rparr>) now v"
  shows "totalSpent v' = totalSpent v + tokens \<and>
    (\<exists>m' g'. gv_goal v' = Some m' \<and> gm_state m' = Some g' \<and> g_tokensUsed g' = totalSpent v' \<and>
       (g_status g' = GoalActive \<longrightarrow> within_limits g'))"
proof -
  have pr: "positiveRounded (Finite tokens) = tokens"
    using assms(5) by (simp add: positiveRounded_def nonnegativeFinite_def)
  obtain u where u: "v' = flushToGoal now u" "gov_ok u" "gv_goal u = gv_goal v" "totalSpent u = totalSpent v + tokens"
  proof -
    have "\<exists>u. v' = flushToGoal now u \<and> gov_ok u \<and> gv_goal u = gv_goal v \<and> totalSpent u = totalSpent v + tokens"
      using assms(6)
    proof (elim disjE)
      assume "v' = recordMain (Finite tokens) cost now v"
      then show ?thesis using assms(1,5) pr
        by (intro exI [of _ "v\<lparr>gv_main := gv_main v + tokens, gv_mainCost := gv_mainCost v + nonnegative_cost cost\<rparr>"])
           (simp add: recordMain_def Let_def totalSpent_def)
    next
      assume "v' = recordFusion (Finite tokens) cost now v"
      then show ?thesis using assms(1,5) pr
        by (intro exI [of _ "v\<lparr>gv_fusion := gv_fusion v + tokens, gv_fusionCost := gv_fusionCost v + nonnegative_cost cost\<rparr>"])
           (simp add: recordFusion_def Let_def totalSpent_def)
    next
      assume "v' = recordSubagent (Some \<lparr>su_totalTokens = Finite tokens, su_costUsd = cost\<rparr>) now v"
      then show ?thesis using assms(1,5) pr
        by (intro exI [of _ "v\<lparr>gv_subagent := gv_subagent v + tokens, gv_subagentCost := gv_subagentCost v + nonnegative_cost cost\<rparr>"])
           (simp add: recordSubagent_def recordSubagentUsage_def Let_def totalSpent_def gov_ok_def)
    qed
    then show ?thesis using that by blast
  qed
  from flush_goal [OF u(2), of m g now] u assms(2,3,4) show ?thesis by auto
qed

theorem spend_reaches_goal_witness:
  "totalSpent (recordSubagent (Some \<lparr>su_totalTokens = Finite 100, su_costUsd = None\<rparr>) 5
     (bindGoal (Some sample_goal) sample_governor)) = 100"
proof -
  let ?v = "bindGoal (Some sample_goal) sample_governor"
  have ok: "gov_ok ?v" using gov_machine.inv_run [OF gov_ok_new] unfolding sample_governor_def bindGoal_def gov_ok_fields by blast
  have "map_option counters_frozen (gm_state sample_goal) = Some False" by code_simp
  then obtain g where g: "gm_state sample_goal = Some g" "\<not> counters_frozen g" by auto
  have "gv_goal ?v = Some sample_goal" by (simp add: bindGoal_def)
  moreover have "totalSpent ?v = 0" by code_simp
  ultimately show ?thesis
    using spend_reaches_goal [OF ok _ g, of 100 _ None 5] by simp
qed

end
