(* ===== verification/Slots.thy ===== *)
theory Slots
  imports JsBase
begin

text \<open>
  The process-wide run-slot budget (core/coordinator/slots.ts): the counting semaphore with its FIFO of
  waiters (\<open>acquireOne\<close>, \<open>releaseOne\<close>, abort of a queued acquire) and the run-slot leases with their
  serialized operation chain (\<open>SlotLease\<close>). The asynchronous code is a step relation: a step is one
  synchronous piece of it, and a promise that is resolved but whose continuation has not run yet is
  a grant in \<open>sl_granted\<close>. The concurrency cap and the queue cap are parameters, fixed over a run.
  The lemmas show that the budget is never exceeded or leaked, that no wake-up is lost and that
  nobody waits while holding a slot.
\<close>


section \<open>State\<close>

text \<open>Who acquires: a new run, or the lease of an enclosing run taking its yielded slot back.\<close>

datatype slot_owner = NewRun nat | Relock nat

record slot_waiter =
  w_owner :: slot_owner
  w_settled :: bool
  w_queuedAt :: int

datatype lease_op = OpYield | OpReacquire | OpClose

text \<open>
  A lease. \<open>l_chain\<close> is the promise chain: the operations enqueued and not finished, the running one
  first; \<open>l_awaiting\<close> says that it is a reacquire waiting for its slot.
\<close>

record slot_lease =
  l_held :: bool
  l_closed :: bool
  l_pending :: nat
  l_suspended :: nat
  l_chain :: "lease_op list"
  l_awaiting :: bool

record slots =
  sl_active :: nat
  sl_waiters :: "slot_waiter list"
  sl_granted :: "slot_owner list"
  sl_leases :: "nat \<Rightarrow> slot_lease option"

definition no_slots :: slots where
  "no_slots = \<lparr> sl_active = 0, sl_waiters = [], sl_granted = [], sl_leases = \<lambda>_. None \<rparr>"

definition new_lease :: slot_lease where
  "new_lease = \<lparr> l_held = True, l_closed = False, l_pending = 0, l_suspended = 0, l_chain = [], l_awaiting = False \<rparr>"

definition DEFAULT_MAX_CONCURRENCY :: int where "DEFAULT_MAX_CONCURRENCY = 4"

text \<open>The environment knobs, from \<open>Number(process.env.X)\<close>.\<close>

definition maxConcurrency :: "jsnum \<Rightarrow> int" where
  "maxConcurrency raw = (case raw of Finite n \<Rightarrow> if 1 \<le> n then n else DEFAULT_MAX_CONCURRENCY
                         | _ \<Rightarrow> DEFAULT_MAX_CONCURRENCY)"

definition maxQueue :: "jsnum \<Rightarrow> jsnum \<Rightarrow> int" where
  "maxQueue conc raw = (case raw of Finite n \<Rightarrow> if 1 \<le> n then n else maxConcurrency conc * 8
                        | _ \<Rightarrow> maxConcurrency conc * 8)"


section \<open>The semaphore\<close>

datatype acquire_result = Granted | Queued | QueueFull

definition acquireOne :: "nat \<Rightarrow> nat \<Rightarrow> bool \<Rightarrow> int \<Rightarrow> slot_owner \<Rightarrow> slots \<Rightarrow> slots \<times> acquire_result" where
  "acquireOne cap qcap bypassQueueCap now owner s =
     (if sl_active s < cap
      then (s\<lparr>sl_active := sl_active s + 1, sl_granted := sl_granted s @ [owner]\<rparr>, Granted)
      else if \<not> bypassQueueCap \<and> qcap \<le> length (sl_waiters s) then (s, QueueFull)
      else (s\<lparr>sl_waiters := sl_waiters s @ [\<lparr> w_owner = owner, w_settled = False, w_queuedAt = now \<rparr>]\<rparr>, Queued))"

text \<open>\<open>onAbort\<close> of a queued acquire.\<close>

definition abort_waiter :: "slot_owner \<Rightarrow> slots \<Rightarrow> slots" where
  "abort_waiter owner s =
     s\<lparr>sl_waiters := filter (\<lambda>w. \<not> (w_owner w = owner \<and> \<not> w_settled w)) (sl_waiters s)\<rparr>"

text \<open>\<open>shift\<close> until a live waiter is found.\<close>

fun next_waiter :: "slot_waiter list \<Rightarrow> slot_waiter option \<times> slot_waiter list" where
  "next_waiter [] = (None, [])"
| "next_waiter (w # ws) = (if w_settled w then next_waiter ws else (Some w, ws))"

definition releaseOne :: "slots \<Rightarrow> slots" where
  "releaseOne s =
     (let active = (if 0 < sl_active s then sl_active s - 1 else sl_active s)
      in case next_waiter (sl_waiters s) of
           (None, rest) \<Rightarrow> s\<lparr>sl_active := active, sl_waiters := rest\<rparr>
         | (Some w, rest) \<Rightarrow>
             s\<lparr>sl_active := active + 1, sl_waiters := rest, sl_granted := sl_granted s @ [w_owner w]\<rparr>)"

definition slotStats :: "int \<Rightarrow> slots \<Rightarrow> nat \<times> nat \<times> int" where
  "slotStats now s =
     (let live = filter (\<lambda>w. \<not> w_settled w) (sl_waiters s)
      in (sl_active s, length live,
          (if live = [] then 0 else max 0 (now - Min (set (map w_queuedAt live))))))"


section \<open>Leases\<close>

definition put_lease :: "nat \<Rightarrow> slot_lease \<Rightarrow> slots \<Rightarrow> slots" where
  "put_lease l x s = s\<lparr>sl_leases := (sl_leases s)(l \<mapsto> x)\<rparr>"

definition enqueue :: "nat \<Rightarrow> lease_op \<Rightarrow> slots \<Rightarrow> slots" where
  "enqueue l op s =
     (case sl_leases s l of None \<Rightarrow> s | Some x \<Rightarrow> put_lease l (x\<lparr>l_chain := l_chain x @ [op]\<rparr>) s)"

text \<open>The guarded release the three release points share: \<open>this.held = false; releaseOne()\<close>.\<close>

definition drop_slot :: "nat \<Rightarrow> slot_lease \<Rightarrow> slots \<Rightarrow> slots" where
  "drop_slot l x s = releaseOne (put_lease l (x\<lparr>l_held := False\<rparr>) s)"

text \<open>The body of \<open>yieldSlot\<close>.\<close>

definition run_yield :: "nat \<Rightarrow> slot_lease \<Rightarrow> slots \<Rightarrow> slots" where
  "run_yield l x s =
     (if l_closed x then put_lease l x s
      else let x' = x\<lparr>l_suspended := l_suspended x + 1\<rparr>
           in if l_held x then drop_slot l x' s else put_lease l x' s)"

text \<open>The body of \<open>reacquire\<close>, up to its \<open>await\<close>.\<close>

definition run_reacquire :: "nat \<Rightarrow> nat \<Rightarrow> int \<Rightarrow> nat \<Rightarrow> slot_lease \<Rightarrow> lease_op list \<Rightarrow> slots \<Rightarrow> slots" where
  "run_reacquire cap qcap now l x rest s =
     (if l_closed x then put_lease l (x\<lparr>l_chain := rest\<rparr>) s
      else let x' = x\<lparr>l_suspended := (if 0 < l_suspended x then l_suspended x - 1 else l_suspended x)\<rparr>
           in if 0 < l_suspended x' \<or> l_held x then put_lease l (x'\<lparr>l_chain := rest\<rparr>) s
              else fst (acquireOne cap qcap True now (Relock l) (put_lease l (x'\<lparr>l_awaiting := True\<rparr>) s)))"

text \<open>The body of \<open>close\<close>.\<close>

definition run_close :: "nat \<Rightarrow> slot_lease \<Rightarrow> slots \<Rightarrow> slots" where
  "run_close l x s =
     (let x' = x\<lparr>l_closed := True\<rparr>
      in if l_pending x = 0 \<and> l_held x then drop_slot l x' s else put_lease l x' s)"

text \<open>One turn of a lease's chain: the first operation runs, unless it is already waiting for a slot.\<close>

definition run_chain :: "nat \<Rightarrow> nat \<Rightarrow> int \<Rightarrow> nat \<Rightarrow> slots \<Rightarrow> slots" where
  "run_chain cap qcap now l s =
     (case sl_leases s l of
        None \<Rightarrow> s
      | Some x \<Rightarrow>
          if l_awaiting x then s
          else case l_chain x of
                 [] \<Rightarrow> s
               | OpYield # rest \<Rightarrow> run_yield l (x\<lparr>l_chain := rest\<rparr>) s
               | OpReacquire # rest \<Rightarrow> run_reacquire cap qcap now l x rest s
               | OpClose # rest \<Rightarrow> run_close l (x\<lparr>l_chain := rest\<rparr>) s)"

definition holdUntil :: "nat \<Rightarrow> slots \<Rightarrow> slots" where
  "holdUntil l s =
     (case sl_leases s l of None \<Rightarrow> s | Some x \<Rightarrow> put_lease l (x\<lparr>l_pending := l_pending x + 1\<rparr>) s)"

definition finishSettlement :: "nat \<Rightarrow> slots \<Rightarrow> slots" where
  "finishSettlement l s =
     (case sl_leases s l of
        None \<Rightarrow> s
      | Some x \<Rightarrow>
          let x' = x\<lparr>l_pending := l_pending x - 1\<rparr>
          in if l_closed x \<and> l_pending x' = 0 \<and> l_held x then drop_slot l x' s else put_lease l x' s)"

text \<open>The continuations of a granted acquire: \<open>new SlotLease()\<close>, or \<open>this.held = true\<close>.\<close>

definition resume_grant :: "slot_owner \<Rightarrow> slots \<Rightarrow> slots" where
  "resume_grant owner s =
     (if owner \<notin> set (sl_granted s) then s
      else let s' = s\<lparr>sl_granted := remove1 owner (sl_granted s)\<rparr>
           in case owner of
                NewRun r \<Rightarrow> put_lease r new_lease s'
              | Relock l \<Rightarrow>
                  (case sl_leases s l of
                     None \<Rightarrow> s'
                   | Some x \<Rightarrow> put_lease l (x\<lparr>l_held := True, l_awaiting := False, l_chain := tl (l_chain x)\<rparr>) s'))"


section \<open>The step relation\<close>

definition owners :: "slots \<Rightarrow> slot_owner list" where
  "owners s = map w_owner (sl_waiters s) @ sl_granted s"

text \<open>
  Any interleaving of the pieces: a new run acquires or gives up waiting, a grant continues, a lease
  operation is enqueued or runs, work that outlives its caller registers or settles. Only the
  acquire of a new run is abortable.
\<close>

inductive slot_step :: "nat \<Rightarrow> nat \<Rightarrow> slots \<Rightarrow> slots \<Rightarrow> bool" for cap qcap where
  acquire: "NewRun r \<notin> set (owners s) \<Longrightarrow> sl_leases s r = None \<Longrightarrow>
     slot_step cap qcap s (fst (acquireOne cap qcap False now (NewRun r) s))"
| abort: "slot_step cap qcap s (abort_waiter (NewRun r) s)"
| resume: "slot_step cap qcap s (resume_grant owner s)"
| enqueue: "slot_step cap qcap s (enqueue l op s)"
| chain: "slot_step cap qcap s (run_chain cap qcap now l s)"
| hold: "slot_step cap qcap s (holdUntil l s)"
| settle: "slot_step cap qcap s (finishSettlement l s)"

inductive_cases slot_stepE: "slot_step cap qcap s t"


section \<open>The invariant\<close>

definition held_set :: "slots \<Rightarrow> nat set" where
  "held_set s = {l. \<exists>x. sl_leases s l = Some x \<and> l_held x}"

definition lease_ok :: "slot_owner set \<Rightarrow> nat \<Rightarrow> slot_lease \<Rightarrow> bool" where
  "lease_ok W l x \<longleftrightarrow>
     (l_awaiting x \<longleftrightarrow> Relock l \<in> W) \<and> (l_awaiting x \<longrightarrow> \<not> l_held x \<and> \<not> l_closed x) \<and>
     (l_closed x \<and> l_pending x = 0 \<longrightarrow> \<not> l_held x)"

text \<open>The leases against the set of acquires in flight.\<close>

definition leases_ok :: "slot_owner set \<Rightarrow> (nat \<Rightarrow> slot_lease option) \<Rightarrow> bool" where
  "leases_ok W L \<longleftrightarrow>
     finite (dom L) \<and> (\<forall>l x. L l = Some x \<longrightarrow> lease_ok W l x) \<and>
     (\<forall>l. Relock l \<in> W \<longrightarrow> L l \<noteq> None) \<and> (\<forall>r. NewRun r \<in> W \<longrightarrow> L r = None)"

text \<open>The semaphore: every slot in use is held by a lease or granted, none is free while one waits.\<close>

definition sem_ok :: "nat \<Rightarrow> slots \<Rightarrow> bool" where
  "sem_ok cap s \<longleftrightarrow>
     sl_active s = card (held_set s) + length (sl_granted s) \<and> sl_active s \<le> cap \<and>
     (sl_waiters s \<noteq> [] \<longrightarrow> sl_active s = cap) \<and>
     (\<forall>w \<in> set (sl_waiters s). \<not> w_settled w) \<and> distinct (owners s)"

definition slot_inv :: "nat \<Rightarrow> slots \<Rightarrow> bool" where
  "slot_inv cap s \<longleftrightarrow> sem_ok cap s \<and> leases_ok (set (owners s)) (sl_leases s)"

lemma finite_held: "leases_ok W (sl_leases s) \<Longrightarrow> finite (held_set s)"
  by (rule finite_subset [of _ "dom (sl_leases s)"]) (auto simp: held_set_def leases_ok_def)

lemma owners_put [simp]: "owners (put_lease l x s) = owners s"
  by (simp add: owners_def put_lease_def)

lemma put_sel [simp]:
  "sl_active (put_lease l x s) = sl_active s" "sl_waiters (put_lease l x s) = sl_waiters s"
  "sl_granted (put_lease l x s) = sl_granted s" "sl_leases (put_lease l x s) = (sl_leases s)(l \<mapsto> x)"
  by (simp_all add: put_lease_def)

lemma held_put: "held_set (put_lease l x s) = (if l_held x then insert l (held_set s) else held_set s - {l})"
  by (auto simp: held_set_def)

lemma leases_ok_put: "leases_ok W L \<Longrightarrow> L l \<noteq> None \<Longrightarrow> lease_ok W l x \<Longrightarrow> leases_ok W (L(l \<mapsto> x))"
  by (auto simp: leases_ok_def)

lemma leases_okD: "leases_ok W L \<Longrightarrow> L l = Some x \<Longrightarrow> lease_ok W l x"
  by (simp add: leases_ok_def)

text \<open>Replacing a lease by one with the same slot.\<close>

lemma inv_put:
  assumes inv: "slot_inv cap s" and l: "sl_leases s l = Some x"
    and h: "l_held x' = l_held x" and ok: "lease_ok (set (owners s)) l x'"
  shows "slot_inv cap (put_lease l x' s)"
proof -
  have "held_set (put_lease l x' s) = held_set s"
    using l h by (auto simp: held_put) (auto simp: held_set_def)
  then have "sem_ok cap (put_lease l x' s)" using inv by (auto simp: slot_inv_def sem_ok_def)
  moreover have "leases_ok (set (owners s)) ((sl_leases s)(l \<mapsto> x'))"
    using inv l ok by (intro leases_ok_put) (simp_all add: slot_inv_def)
  ultimately show ?thesis by (simp add: slot_inv_def)
qed

lemma next_waiter_live: "\<forall>w \<in> set ws. \<not> w_settled w \<Longrightarrow>
    next_waiter ws = (case ws of [] \<Rightarrow> (None, []) | w # r \<Rightarrow> (Some w, r))"
  by (cases ws) auto

text \<open>\<open>releaseOne\<close> after a lease has let its slot go.\<close>

lemma release_sem:
  assumes "sl_active s = Suc (card (held_set s) + length (sl_granted s))" "sl_active s \<le> cap"
    and "sl_waiters s \<noteq> [] \<longrightarrow> sl_active s = cap" "\<forall>w \<in> set (sl_waiters s). \<not> w_settled w"
    and "distinct (owners s)"
  shows "sem_ok cap (releaseOne s) \<and> set (owners (releaseOne s)) = set (owners s) \<and>
    sl_leases (releaseOne s) = sl_leases s"
proof (cases "sl_waiters s")
  case Nil
  then have r: "releaseOne s = s\<lparr>sl_active := sl_active s - 1, sl_waiters := []\<rparr>"
    using assms(1) by (simp add: releaseOne_def)
  have "held_set (releaseOne s) = held_set s" unfolding r by (simp add: held_set_def)
  then show ?thesis using assms Nil unfolding sem_ok_def r owners_def by simp
next
  case (Cons w ws)
  then have r: "releaseOne s = s\<lparr>sl_active := sl_active s, sl_waiters := ws, sl_granted := sl_granted s @ [w_owner w]\<rparr>"
    using assms(1,4) by (simp add: releaseOne_def next_waiter_live)
  have "held_set (releaseOne s) = held_set s" unfolding r by (simp add: held_set_def)
  then show ?thesis using assms Cons unfolding sem_ok_def r owners_def by auto
qed

lemma inv_drop:
  assumes inv: "slot_inv cap s" and l: "sl_leases s l = Some x" and held: "l_held x"
    and "l_awaiting x' = l_awaiting x"
  shows "slot_inv cap (drop_slot l x' s)"
proof -
  let ?s = "put_lease l (x'\<lparr>l_held := False\<rparr>) s"
  have sem: "sem_ok cap s" and lok: "leases_ok (set (owners s)) (sl_leases s)" using inv by (auto simp: slot_inv_def)
  have lin: "l \<in> held_set s" using l held by (auto simp: held_set_def)
  have "card (held_set s) = Suc (card (held_set ?s))"
    using card.remove [OF finite_held [OF lok] lin] by (simp add: held_put)
  then have "sem_ok cap (releaseOne ?s) \<and> set (owners (releaseOne ?s)) = set (owners ?s) \<and>
      sl_leases (releaseOne ?s) = sl_leases ?s"
    using sem by (intro release_sem) (auto simp: sem_ok_def)
  moreover have "leases_ok (set (owners s)) (sl_leases ?s)"
    using leases_okD [OF lok l] held assms(4) l
    by (simp del: fun_upd_apply) (intro leases_ok_put [OF lok], auto simp: lease_ok_def)
  ultimately show ?thesis by (simp add: slot_inv_def drop_slot_def)
qed

text \<open>Taking or queueing for a slot adds the owner to the acquires in flight.\<close>

lemma acquire_sem:
  assumes "sem_ok cap s" "owner \<notin> set (owners s)" "acquireOne cap qcap bypass now owner s = (t, r)"
  shows "sem_ok cap t \<and> sl_leases t = sl_leases s \<and>
    set (owners t) = (if r = QueueFull then set (owners s) else insert owner (set (owners s)))"
proof -
  have "held_set t = held_set s" using assms(3) by (auto simp: acquireOne_def held_set_def split: if_splits)
  then show ?thesis using assms
    by (auto simp: acquireOne_def sem_ok_def owners_def split: if_splits; blast)
qed

lemma inv_new_run:
  assumes "slot_inv cap s" "NewRun r \<notin> set (owners s)" "sl_leases s r = None"
  shows "slot_inv cap (fst (acquireOne cap qcap bypass now (NewRun r) s))"
proof -
  obtain t a where t: "acquireOne cap qcap bypass now (NewRun r) s = (t, a)" by fastforce
  note sem = acquire_sem [OF _ assms(2) t]
  have "leases_ok (insert (NewRun r) (set (owners s))) (sl_leases s)"
    using assms by (simp add: slot_inv_def leases_ok_def lease_ok_def)
  then show ?thesis using assms(1) sem by (simp add: slot_inv_def t)
qed

lemma inv_relock:
  assumes inv: "slot_inv cap s" and l: "sl_leases s l = Some x"
    and x: "\<not> l_held x" "\<not> l_closed x" "\<not> l_awaiting x"
    and x': "l_held x' = l_held x" "l_closed x' = l_closed x" "l_awaiting x'"
  shows "slot_inv cap (fst (acquireOne cap qcap True now (Relock l) (put_lease l x' s)))"
proof -
  let ?s = "put_lease l x' s"
  obtain t a where t: "acquireOne cap qcap True now (Relock l) ?s = (t, a)" by fastforce
  have lok: "leases_ok (set (owners s)) (sl_leases s)" and sem: "sem_ok cap s" using inv by (auto simp: slot_inv_def)
  have new: "Relock l \<notin> set (owners ?s)" using leases_okD [OF lok l] x by (simp add: lease_ok_def)
  have "l \<notin> held_set s" using l x(1) by (auto simp: held_set_def)
  then have "sem_ok cap ?s" using sem x x' by (auto simp: sem_ok_def held_put)
  note sem' = acquire_sem [OF this new t]
  have "a \<noteq> QueueFull" using t by (auto simp: acquireOne_def split: if_splits)
  moreover have "leases_ok (insert (Relock l) (set (owners s))) ((sl_leases s)(l \<mapsto> x'))"
    using lok l x x' by (auto simp: leases_ok_def lease_ok_def)
  ultimately show ?thesis using sem' by (simp add: slot_inv_def t)
qed


section \<open>Every step keeps the invariant\<close>

lemma inv_abort: "slot_inv cap s \<Longrightarrow> slot_inv cap (abort_waiter (NewRun r) s)"
proof -
  assume inv: "slot_inv cap s"
  let ?P = "\<lambda>w. \<not> (w_owner w = NewRun r \<and> \<not> w_settled w)"
  let ?t = "abort_waiter (NewRun r) s"
  have h: "held_set ?t = held_set s" by (simp add: abort_waiter_def held_set_def)
  have o: "set (owners ?t) \<subseteq> set (owners s)" "Relock l \<in> set (owners ?t) \<longleftrightarrow> Relock l \<in> set (owners s)" for l
    by (auto simp: owners_def abort_waiter_def image_iff)
  have "distinct (map w_owner (sl_waiters s))" using inv by (simp add: slot_inv_def sem_ok_def owners_def)
  then have "distinct (map w_owner (filter ?P (sl_waiters s)))" by (rule distinct_map_filter)
  then have "distinct (owners ?t)" using inv
    by (auto simp: slot_inv_def sem_ok_def owners_def abort_waiter_def)
  then have "sem_ok cap ?t" using inv unfolding slot_inv_def sem_ok_def h
    by (auto simp: abort_waiter_def)
  moreover have "leases_ok (set (owners ?t)) (sl_leases s)"
    using inv o unfolding slot_inv_def leases_ok_def lease_ok_def by (simp add: subset_iff)
  ultimately show ?thesis by (simp add: slot_inv_def) (simp add: abort_waiter_def)
qed

lemma inv_chain: "slot_inv cap s \<Longrightarrow> slot_inv cap (run_chain cap qcap now l s)"
proof (cases "sl_leases s l")
  case (Some x)
  assume inv: "slot_inv cap s"
  have lok: "lease_ok (set (owners s)) l x" using inv Some by (auto simp: slot_inv_def leases_ok_def)
  show ?thesis
  proof (cases "l_awaiting x \<or> l_chain x = []")
    case True
    then show ?thesis using inv Some by (auto simp: run_chain_def)
  next
    case False
    then obtain op rest where c: "l_chain x = op # rest" and na: "\<not> l_awaiting x" by (cases "l_chain x") auto
    have put: "slot_inv cap (put_lease l x' s)"
      if "l_held x' = l_held x" "l_awaiting x' = l_awaiting x" "l_pending x' = l_pending x"
        "l_closed x' = l_closed x \<or> (l_closed x' \<and> \<not> (l_pending x = 0 \<and> l_held x))" for x'
      by (rule inv_put [OF inv Some that(1)]) (use that lok na in \<open>auto simp: lease_ok_def\<close>)
    have drop: "slot_inv cap (drop_slot l x' s)" if "l_held x" "l_awaiting x' = l_awaiting x" for x'
      by (rule inv_drop [OF inv Some that])
    show ?thesis
    proof (cases op)
      case OpYield
      then show ?thesis using Some c na by (auto simp: run_chain_def run_yield_def Let_def intro!: put drop)
    next
      case OpClose
      then show ?thesis using Some c na by (auto simp: run_chain_def run_close_def Let_def intro!: put drop)
    next
      case OpReacquire
      then show ?thesis using Some c na
        by (auto simp: run_chain_def run_reacquire_def Let_def intro!: put inv_relock [OF inv Some])
    qed
  qed
qed (simp add: run_chain_def)

lemma inv_resume: "slot_inv cap s \<Longrightarrow> slot_inv cap (resume_grant owner s)"
proof (cases "owner \<in> set (sl_granted s)")
  case True
  assume inv: "slot_inv cap s"
  then have sem: "sem_ok cap s" and lok: "leases_ok (set (owners s)) (sl_leases s)" by (auto simp: slot_inv_def)
  let ?g = "remove1 owner (sl_granted s)" and ?s = "s\<lparr>sl_granted := remove1 owner (sl_granted s)\<rparr>"
  have len: "length (sl_granted s) = Suc (length ?g)" using True length_pos_if_in_set [OF True] by (simp add: length_remove1)
  have dg: "distinct (sl_granted s)" "owner \<notin> set (map w_owner (sl_waiters s))"
    using sem True by (auto simp: sem_ok_def owners_def)
  have rm: "set ?g = set (sl_granted s) - {owner}" using dg(1) by (rule set_remove1_eq)
  have o: "set (owners ?s) = set (owners s) - {owner}" "distinct (owners ?s)"
    using sem dg rm unfolding sem_ok_def owners_def by (simp_all add: Un_Diff) blast
  have own: "owner \<in> set (owners s)" using True by (simp add: owners_def)
  have step: "slot_inv cap (put_lease l y ?s)"
    if "l \<notin> held_set s" "l_held y" "leases_ok (set (owners s) - {owner}) ((sl_leases s)(l \<mapsto> y))" for l y
  proof -
    have "held_set (put_lease l y ?s) = insert l (held_set s)"
      using that(2) by (auto simp: held_put held_set_def)
    then have "card (held_set (put_lease l y ?s)) = Suc (card (held_set s))"
      using that(1) finite_held [OF lok] by simp
    then have "sem_ok cap (put_lease l y ?s)" using sem len o by (auto simp: sem_ok_def)
    then show ?thesis using that(3) o by (simp add: slot_inv_def)
  qed
  show ?thesis
  proof (cases owner)
    case (NewRun r)
    then have none: "sl_leases s r = None" "Relock r \<notin> set (owners s)" using lok own by (auto simp: leases_ok_def)
    have "leases_ok (set (owners s) - {owner}) ((sl_leases s)(r \<mapsto> new_lease))"
      using lok none NewRun by (auto simp: leases_ok_def lease_ok_def new_lease_def)
    moreover have "r \<notin> held_set s" using none by (simp add: held_set_def)
    ultimately show ?thesis using True NewRun step [of r new_lease] by (simp add: resume_grant_def new_lease_def)
  next
    case (Relock l)
    then obtain x where x: "sl_leases s l = Some x" using lok own by (auto simp: leases_ok_def)
    let ?y = "x\<lparr>l_held := True, l_awaiting := False, l_chain := tl (l_chain x)\<rparr>"
    have xok: "l_awaiting x" "\<not> l_held x" "\<not> l_closed x"
      using leases_okD [OF lok x] own Relock by (auto simp: lease_ok_def)
    have "leases_ok (set (owners s) - {owner}) ((sl_leases s)(l \<mapsto> ?y))"
      using lok x xok Relock by (auto simp: leases_ok_def lease_ok_def)
    moreover have "l \<notin> held_set s" using x xok by (auto simp: held_set_def)
    ultimately show ?thesis using True Relock x step [of l ?y] by (simp add: resume_grant_def)
  qed
qed (simp add: resume_grant_def)

lemma inv_settle: "slot_inv cap s \<Longrightarrow> slot_inv cap (finishSettlement l s)"
proof (cases "sl_leases s l")
  case (Some x)
  assume inv: "slot_inv cap s"
  have lok: "lease_ok (set (owners s)) l x" using inv Some by (auto simp: slot_inv_def leases_ok_def)
  show ?thesis
  proof (cases "l_closed x \<and> l_pending x - 1 = 0 \<and> l_held x")
    case True
    have "slot_inv cap (drop_slot l (x\<lparr>l_pending := l_pending x - 1\<rparr>) s)"
      by (rule inv_drop [OF inv Some]) (use True in simp_all)
    then show ?thesis using Some True by (simp add: finishSettlement_def Let_def)
  next
    case False
    then have "slot_inv cap (put_lease l (x\<lparr>l_pending := l_pending x - 1\<rparr>) s)"
      by (intro inv_put [OF inv Some]) (use lok in \<open>auto simp: lease_ok_def\<close>)
    then show ?thesis using Some False by (auto simp: finishSettlement_def Let_def)
  qed
qed (simp add: finishSettlement_def)

lemma inv_step: "slot_step cap qcap s t \<Longrightarrow> slot_inv cap s \<Longrightarrow> slot_inv cap t"
proof (induction rule: slot_step.induct)
  case (enqueue s l op)
  show ?case
  proof (cases "sl_leases s l")
    case (Some x)
    then have "lease_ok (set (owners s)) l x" using enqueue by (auto simp: slot_inv_def leases_ok_def)
    then have "slot_inv cap (put_lease l (x\<lparr>l_chain := l_chain x @ [op]\<rparr>) s)"
      by (intro inv_put [OF enqueue Some]) (simp_all add: lease_ok_def)
    then show ?thesis using Some by (simp add: enqueue_def)
  qed (use enqueue in \<open>simp add: enqueue_def\<close>)
next
  case (hold s l)
  show ?case
  proof (cases "sl_leases s l")
    case (Some x)
    then have "lease_ok (set (owners s)) l x" using hold by (auto simp: slot_inv_def leases_ok_def)
    then have "slot_inv cap (put_lease l (x\<lparr>l_pending := l_pending x + 1\<rparr>) s)"
      by (intro inv_put [OF hold Some]) (simp_all add: lease_ok_def)
    then show ?thesis using Some by (simp add: holdUntil_def)
  qed (use hold in \<open>simp add: holdUntil_def\<close>)
qed (simp_all add: inv_new_run inv_abort inv_resume inv_chain inv_settle)

lemma inv_no_slots: "slot_inv cap no_slots"
  by (simp add: slot_inv_def sem_ok_def leases_ok_def no_slots_def owners_def held_set_def)

interpretation slot_system: transition_system "\<lambda>s. s = no_slots" "slot_step cap qcap" "slot_inv cap"
  by unfold_locales (auto simp: inv_no_slots inv_step)

section \<open>Properties\<close>

text \<open>C37: The budget is exact under every interleaving: the active count is the number of leases that
  hold a slot plus the grants whose continuation has not run, it never exceeds the cap, and no
  wake-up is lost (an acquire waits only while every slot is in use).\<close>

theorem slots_exact:
  assumes "(slot_step cap qcap)\<^sup>*\<^sup>* no_slots s"
  shows "sl_active s = card (held_set s) + length (sl_granted s) \<and> sl_active s \<le> cap \<and>
    (sl_waiters s \<noteq> [] \<longrightarrow> sl_active s = cap)"
  using slot_system.inv_reach [OF assms refl] by (auto simp: slot_inv_def sem_ok_def)

theorem slots_exact_witness:
  "sl_active (fst (acquireOne 1 1 False 0 (NewRun 8) (fst (acquireOne 1 1 False 0 (NewRun 7) no_slots)))) = 1"
proof -
  let ?s = "fst (acquireOne 1 1 False 0 (NewRun 7) no_slots)"
  let ?t = "fst (acquireOne 1 1 False 0 (NewRun 8) ?s)"
  have "slot_step 1 1 no_slots ?s" by (rule slot_step.acquire) (simp_all add: owners_def no_slots_def)
  moreover have "slot_step 1 1 ?s ?t"
    by (rule slot_step.acquire) (simp_all add: owners_def no_slots_def acquireOne_def)
  ultimately have "(slot_step 1 1)\<^sup>*\<^sup>* no_slots ?t" by (meson rtranclp.rtrancl_into_rtrancl rtranclp.rtrancl_refl)
  moreover have "sl_waiters ?t \<noteq> []" by code_simp
  ultimately show ?thesis using slots_exact [of 1 1 ?t] by blast
qed

text \<open>No hold-and-wait, hence no nested-spawn deadlock: whenever an acquire waits, all \<open>cap\<close> slots
  are with leases or grants none of which is itself waiting for a slot; a lease whose reacquire is
  queued holds nothing and is not closed.\<close>

theorem slots_no_hold_and_wait:
  assumes "(slot_step cap qcap)\<^sup>*\<^sup>* no_slots s" and "w \<in> set (sl_waiters s)"
  shows "card (held_set s) + length (sl_granted s) = cap \<and>
    (\<forall>l. l \<in> held_set s \<longrightarrow> Relock l \<notin> set (owners s)) \<and>
    (\<forall>l. w_owner w = Relock l \<longrightarrow> (\<exists>x. sl_leases s l = Some x \<and> \<not> l_held x \<and> \<not> l_closed x))"
proof -
  have inv: "slot_inv cap s" using slot_system.inv_reach [OF assms(1) refl] .
  have "sl_waiters s \<noteq> []" using assms(2) by auto
  then have "card (held_set s) + length (sl_granted s) = cap" using inv by (auto simp: slot_inv_def sem_ok_def)
  moreover have "Relock l \<notin> set (owners s)" if "l \<in> held_set s" for l
    using that inv by (auto simp: slot_inv_def leases_ok_def lease_ok_def held_set_def)
  moreover have "\<exists>x. sl_leases s l = Some x \<and> \<not> l_held x \<and> \<not> l_closed x" if "w_owner w = Relock l" for l
  proof -
    have "Relock l \<in> set (owners s)" using that assms(2) by (force simp: owners_def)
    then show ?thesis using inv by (fastforce simp: slot_inv_def leases_ok_def lease_ok_def)
  qed
  ultimately show ?thesis by blast
qed

theorem slots_no_hold_and_wait_witness:
  "card (held_set (fst (acquireOne 1 1 False 0 (NewRun 8) (fst (acquireOne 1 1 False 0 (NewRun 7) no_slots)))))
     + length (sl_granted (fst (acquireOne 1 1 False 0 (NewRun 8) (fst (acquireOne 1 1 False 0 (NewRun 7) no_slots))))) = 1"
proof -
  let ?s = "fst (acquireOne 1 1 False 0 (NewRun 7) no_slots)"
  let ?t = "fst (acquireOne 1 1 False 0 (NewRun 8) ?s)"
  have "slot_step 1 1 no_slots ?s" by (rule slot_step.acquire) (simp_all add: owners_def no_slots_def)
  moreover have "slot_step 1 1 ?s ?t"
    by (rule slot_step.acquire) (simp_all add: owners_def no_slots_def acquireOne_def)
  ultimately have "(slot_step 1 1)\<^sup>*\<^sup>* no_slots ?t" by (meson rtranclp.rtrancl_into_rtrancl rtranclp.rtrancl_refl)
  moreover have "\<lparr> w_owner = NewRun 8, w_settled = False, w_queuedAt = 0 \<rparr> \<in> set (sl_waiters ?t)"
    by (simp add: acquireOne_def no_slots_def)
  ultimately show ?thesis by (rule slots_no_hold_and_wait [THEN conjunct1])
qed

text \<open>No leak: in any reachable state in which every lease is closed and its escaped work settled
  and no grant is in transit, no slot is in use and nothing waits.\<close>

theorem slots_no_leak:
  assumes "(slot_step cap qcap)\<^sup>*\<^sup>* no_slots s" and "0 < cap"
    and "\<And>l x. sl_leases s l = Some x \<Longrightarrow> l_closed x \<and> l_pending x = 0" and "sl_granted s = []"
  shows "sl_active s = 0 \<and> sl_waiters s = []"
proof -
  have inv: "slot_inv cap s" using slot_system.inv_reach [OF assms(1) refl] .
  have "\<not> l_held x" if "sl_leases s l = Some x" for l x
    using assms(3) [OF that] inv that by (auto simp: slot_inv_def leases_ok_def lease_ok_def)
  then have "held_set s = {}" by (auto simp: held_set_def)
  then have "sl_active s = 0" using inv assms(4) by (simp add: slot_inv_def sem_ok_def)
  then show ?thesis using inv assms(2) by (auto simp: slot_inv_def sem_ok_def)
qed

theorem slots_no_leak_witness:
  "sl_active (run_chain 1 1 0 7 (enqueue 7 OpClose (resume_grant (NewRun 7)
     (fst (acquireOne 1 1 False 0 (NewRun 7) no_slots))))) = 0"
proof -
  let ?a = "fst (acquireOne 1 1 False 0 (NewRun 7) no_slots)"
  let ?b = "resume_grant (NewRun 7) ?a" let ?c = "enqueue 7 OpClose ?b" let ?d = "run_chain 1 1 0 7 ?c"
  have "slot_step 1 1 no_slots ?a" by (rule slot_step.acquire) (simp_all add: owners_def no_slots_def)
  moreover have "slot_step 1 1 ?a ?b" by (rule slot_step.resume)
  moreover have "slot_step 1 1 ?b ?c" by (rule slot_step.enqueue)
  moreover have "slot_step 1 1 ?c ?d" by (rule slot_step.chain)
  ultimately have reach: "(slot_step 1 1)\<^sup>*\<^sup>* no_slots ?d"
    by (meson rtranclp.rtrancl_into_rtrancl rtranclp.rtrancl_refl)
  have "sl_leases ?d = [7 \<mapsto> new_lease\<lparr>l_closed := True, l_held := False\<rparr>]" "sl_granted ?d = []"
    by (auto simp: acquireOne_def no_slots_def resume_grant_def put_lease_def enqueue_def run_chain_def new_lease_def
        run_close_def drop_slot_def releaseOne_def Let_def fun_eq_iff)
  moreover from this have "\<And>l x. sl_leases ?d l = Some x \<Longrightarrow> l_closed x \<and> l_pending x = 0"
    by (auto simp: new_lease_def split: if_splits)
  ultimately show ?thesis using slots_no_leak [OF reach] by auto
qed

end
