(* ===== verification/CredentialPool.thy ===== *)
theory CredentialPool
  imports JsBase
begin

text \<open>
  The API credential pool (ai/src/credential-pool.ts, class CredentialPoolImpl): per-provider entries
  with cooldowns, session-sticky picks, failure marking and the wait for a free slot. Clock readings
  are arguments. The lemmas show which entry a pick returns, that a session keeps its key while that
  key is ready, that a key with an authentication failure stays out of use, and that a wait ends
  with a key ready.
\<close>


section \<open>State\<close>

datatype credential_source = SrcEnv | SrcSettings | SrcOauth | SrcRuntime

text \<open>\<open>cooldownUntil\<close> is an epoch time or \<open>Number.POSITIVE_INFINITY\<close>.\<close>

datatype cooldown = Until int | Forever

record credential =
  ce_key :: jsstr
  ce_source :: credential_source
  ce_cooldown :: "cooldown option"
  ce_failures :: "nat option"

datatype failure_reason = RateLimit | AuthFailure | OtherFailure

record provider_state =
  pr_entries :: "credential list"
  pr_sticky :: "(jsstr, jsstr) jsmap"

type_synonym pool = "(jsstr, provider_state) jsmap"

definition DEFAULT_COOLDOWN_MS :: int where "DEFAULT_COOLDOWN_MS = 300000"

text \<open>\<open>None\<close>: the variable is unset or empty.\<close>

definition readEnvCooldownMs :: "jsnum option \<Rightarrow> int" where
  "readEnvCooldownMs raw =
     (case raw of Some (Finite n) \<Rightarrow> if 0 < n then n else DEFAULT_COOLDOWN_MS | _ \<Rightarrow> DEFAULT_COOLDOWN_MS)"


section \<open>Operations\<close>

definition provider_of :: "pool \<Rightarrow> jsstr \<Rightarrow> provider_state" where
  "provider_of pool p = (case mget pool p of Some st \<Rightarrow> st | None \<Rightarrow> \<lparr> pr_entries = [], pr_sticky = [] \<rparr>)"

definition merge_known :: "(jsstr, credential) jsmap \<Rightarrow> credential \<Rightarrow> credential" where
  "merge_known previous e =
     (case mget previous (ce_key e) of
        None \<Rightarrow> e
      | Some prior \<Rightarrow>
          e\<lparr>ce_cooldown := (case ce_cooldown e of None \<Rightarrow> ce_cooldown prior | c \<Rightarrow> c),
            ce_failures := (case ce_failures e of None \<Rightarrow> ce_failures prior | n \<Rightarrow> n)\<rparr>)"

definition register_in :: "credential list \<Rightarrow> provider_state \<Rightarrow> provider_state" where
  "register_in entries st =
     (let previous = map_from (map (\<lambda>e. (ce_key e, e)) (pr_entries st));
          es = map (merge_known previous) entries
      in \<lparr> pr_entries = es,
           pr_sticky = filter (\<lambda>(session, key). key \<in> set (map ce_key es)) (pr_sticky st) \<rparr>)"

definition pool_register :: "jsstr \<Rightarrow> credential list \<Rightarrow> pool \<Rightarrow> pool" where
  "pool_register p entries pool = mset_at p (register_in entries (provider_of pool p)) pool"

definition add_key :: "jsstr \<Rightarrow> provider_state \<Rightarrow> provider_state" where
  "add_key key st =
     (if list_ex (\<lambda>e. ce_key e = key) (pr_entries st) then st
      else st\<lparr>pr_entries := pr_entries st @
        [\<lparr> ce_key = key, ce_source = SrcRuntime, ce_cooldown = None, ce_failures = None \<rparr>]\<rparr>)"

definition addRuntimeKey :: "jsstr \<Rightarrow> jsstr \<Rightarrow> pool \<Rightarrow> pool" where
  "addRuntimeKey p key pool = mset_at p (add_key key (provider_of pool p)) pool"

definition pool_count :: "jsstr \<Rightarrow> pool \<Rightarrow> nat" where
  "pool_count p pool = length (pr_entries (provider_of pool p))"

definition isReady :: "int \<Rightarrow> credential \<Rightarrow> bool" where
  "isReady now e =
     (case ce_cooldown e of None \<Rightarrow> True | Some (Until t) \<Rightarrow> t \<le> now | Some Forever \<Rightarrow> False)"

text \<open>The first index whose entry satisfies a predicate.\<close>

fun find_index :: "('a \<Rightarrow> bool) \<Rightarrow> 'a list \<Rightarrow> nat option" where
  "find_index P [] = None"
| "find_index P (x # xs) = (if P x then Some 0 else map_option Suc (find_index P xs))"

text \<open>\<open>sessionId\<close> is \<open>None\<close> when absent or empty.\<close>

definition pick_in :: "int \<Rightarrow> jsstr option \<Rightarrow> provider_state \<Rightarrow> provider_state \<times> (credential \<times> nat) option" where
  "pick_in now session st =
     (let scan = (\<lambda>st. case find_index (isReady now) (pr_entries st) of
            None \<Rightarrow> (st, None)
          | Some i \<Rightarrow>
              ((case session of None \<Rightarrow> st
                | Some sid \<Rightarrow> st\<lparr>pr_sticky := mset_at sid (ce_key (pr_entries st ! i)) (pr_sticky st)\<rparr>),
               Some (pr_entries st ! i, i)))
      in case session of
           None \<Rightarrow> scan st
         | Some sid \<Rightarrow>
             (case mget (pr_sticky st) sid of
                None \<Rightarrow> scan st
              | Some stickyKey \<Rightarrow>
                  if stickyKey = [] then scan st
                  else (case find_index (\<lambda>e. ce_key e = stickyKey) (pr_entries st) of
                          None \<Rightarrow> scan (st\<lparr>pr_sticky := mdel sid (pr_sticky st)\<rparr>)
                        | Some i \<Rightarrow>
                            if isReady now (pr_entries st ! i) then (st, Some (pr_entries st ! i, i))
                            else scan (st\<lparr>pr_sticky := mdel sid (pr_sticky st)\<rparr>))))"

definition pool_pick :: "int \<Rightarrow> jsstr \<Rightarrow> jsstr option \<Rightarrow> pool \<Rightarrow> pool \<times> (credential \<times> nat) option" where
  "pool_pick now p session pool =
     (case mget pool p of
        None \<Rightarrow> (pool, None)
      | Some st \<Rightarrow>
          if pr_entries st = [] then (pool, None)
          else case pick_in now session st of (st', r) \<Rightarrow> (mset_at p st' pool, r))"

text \<open>The assignments go to the entry \<open>find\<close> returned: the first with that key.\<close>

fun update_key :: "jsstr \<Rightarrow> (credential \<Rightarrow> credential) \<Rightarrow> credential list \<Rightarrow> credential list" where
  "update_key key f [] = []"
| "update_key key f (e # es) = (if ce_key e = key then f e # es else e # update_key key f es)"

definition fail_entry :: "int \<Rightarrow> int \<Rightarrow> failure_reason \<Rightarrow> credential \<Rightarrow> credential" where
  "fail_entry now cooldownMs reason e =
     (let e' = e\<lparr>ce_failures := Some ((case ce_failures e of Some n \<Rightarrow> n | None \<Rightarrow> 0) + 1)\<rparr>
      in case reason of
           RateLimit \<Rightarrow> e'\<lparr>ce_cooldown := Some (Until (now + cooldownMs))\<rparr>
         | AuthFailure \<Rightarrow> e'\<lparr>ce_cooldown := Some Forever\<rparr>
         | OtherFailure \<Rightarrow> e')"

definition update_provider :: "jsstr \<Rightarrow> (credential list \<Rightarrow> credential list) \<Rightarrow> pool \<Rightarrow> pool" where
  "update_provider p f pool =
     (case mget pool p of None \<Rightarrow> pool
      | Some st \<Rightarrow> mset_at p (st\<lparr>pr_entries := f (pr_entries st)\<rparr>) pool)"

definition markFailure :: "int \<Rightarrow> int \<Rightarrow> jsstr \<Rightarrow> jsstr \<Rightarrow> failure_reason \<Rightarrow> pool \<Rightarrow> pool" where
  "markFailure now cooldownMs p key reason = update_provider p (update_key key (fail_entry now cooldownMs reason))"

definition markSuccess :: "jsstr \<Rightarrow> jsstr \<Rightarrow> pool \<Rightarrow> pool" where
  "markSuccess p key = update_provider p (update_key key (\<lambda>e. e\<lparr>ce_failures := Some 0\<rparr>))"

datatype await_result = ResolveNow | ResolveAfter int | RejectNow

text \<open>The soonest end of a cooldown; \<open>None\<close> is infinity.\<close>

fun soonest :: "credential list \<Rightarrow> int option" where
  "soonest [] = None"
| "soonest (e # es) =
     (case ce_cooldown e of
        Some (Until t) \<Rightarrow> (case soonest es of None \<Rightarrow> Some t | Some u \<Rightarrow> Some (min t u))
      | _ \<Rightarrow> soonest es)"

definition awaitFreeSlot :: "int \<Rightarrow> jsstr \<Rightarrow> int \<Rightarrow> pool \<Rightarrow> await_result" where
  "awaitFreeSlot now p timeoutMs pool =
     (let es = pr_entries (provider_of pool p)
      in if es = [] then ResolveNow
         else if list_ex (isReady now) es then ResolveNow
         else case soonest es of
                None \<Rightarrow> RejectNow
              | Some t \<Rightarrow>
                  let waitMs = min timeoutMs (max 0 (t - now))
                  in if timeoutMs \<le> waitMs then RejectNow else ResolveAfter waitMs)"


section \<open>What a pick returns\<close>

lemma find_index_Some: "find_index P xs = Some i \<Longrightarrow>
    i < length xs \<and> P (xs ! i) \<and> (\<forall>j < i. \<not> P (xs ! j))"
proof (induction xs arbitrary: i)
  case (Cons x xs)
  show ?case
  proof (cases "P x")
    case False
    then obtain k where k: "find_index P xs = Some k" "i = Suc k" using Cons.prems by auto
    note IH = Cons.IH [OF k(1)]
    have "\<not> P ((x # xs) ! j)" if "j < i" for j using that IH k(2) False by (cases j) auto
    then show ?thesis using IH k(2) by simp
  qed (use Cons.prems in simp)
qed simp

lemma find_index_None: "find_index P xs = None \<longleftrightarrow> (\<forall>x \<in> set xs. \<not> P x)"
  by (induction xs) auto

lemma find_index_at: "i < length xs \<Longrightarrow> P (xs ! i) \<Longrightarrow> \<forall>j < i. \<not> P (xs ! j) \<Longrightarrow> find_index P xs = Some i"
proof (induction xs arbitrary: i)
  case (Cons x xs)
  show ?case
  proof (cases i)
    case (Suc k)
    have "\<not> P x" using Cons.prems(3) Suc by auto
    moreover have "find_index P xs = Some k" using Cons Suc by (intro Cons.IH) auto
    ultimately show ?thesis using Suc by simp
  qed (use Cons.prems in simp)
qed simp

text \<open>A pick returns a ready entry of the list, and none only when no entry is ready.\<close>

lemma pick_in_sound:
  assumes "pick_in now session st = (st', r)"
  shows "pr_entries st' = pr_entries st \<and>
    (case r of None \<Rightarrow> \<forall>e \<in> set (pr_entries st). \<not> isReady now e
     | Some (e, i) \<Rightarrow> i < length (pr_entries st) \<and> pr_entries st ! i = e \<and> isReady now e)"
  using assms
  by (auto simp: pick_in_def Let_def find_index_None dest: find_index_Some split: option.splits if_splits)

text \<open>Without an assignment in force, the first ready entry is taken, and remembered for the session.\<close>

lemma pick_in_remembers:
  assumes "pick_in now (Some sid) st = (st', Some (e, i))" "ce_key e \<noteq> []"
    and "distinct (map ce_key (pr_entries st))"
  shows "mget (pr_sticky st') sid = Some (ce_key e) \<and>
    find_index (\<lambda>e'. ce_key e' = ce_key e) (pr_entries st') = Some i"
proof -
  have s: "pr_entries st' = pr_entries st" "i < length (pr_entries st)" "pr_entries st ! i = e"
    using pick_in_sound [OF assms(1)] by auto
  have "\<forall>j < i. ce_key (pr_entries st ! j) \<noteq> ce_key e"
    using assms(3) s(2,3) by (auto simp: distinct_conv_nth)
  then have "find_index (\<lambda>e'. ce_key e' = ce_key e) (pr_entries st') = Some i"
    using s by (intro find_index_at) auto
  moreover have "mget (pr_sticky st') sid = Some (ce_key e)"
    using assms(1) by (auto simp: pick_in_def Let_def dest: find_index_Some split: option.splits if_splits)
  ultimately show ?thesis by simp
qed

lemma pick_in_sticky:
  assumes "mget (pr_sticky st) sid = Some k" "k \<noteq> []" "find_index (\<lambda>e. ce_key e = k) (pr_entries st) = Some i"
    and "isReady now (pr_entries st ! i)"
  shows "pick_in now (Some sid) st = (st, Some (pr_entries st ! i, i))"
  using assms by (simp add: pick_in_def Let_def)


section \<open>Sidelined keys\<close>

text \<open>Every entry with the key is out for good, and there is one.\<close>

definition sidelined :: "jsstr \<Rightarrow> provider_state \<Rightarrow> bool" where
  "sidelined key st \<longleftrightarrow>
     key \<in> set (map ce_key (pr_entries st)) \<and>
     (\<forall>e \<in> set (pr_entries st). ce_key e = key \<longrightarrow> ce_cooldown e = Some Forever)"

datatype pool_call =
    PRegister "credential list"
  | PAddKey jsstr
  | PPick int "jsstr option"
  | PFail int int jsstr failure_reason
  | PSuccess jsstr

fun exec_pool :: "jsstr \<Rightarrow> pool_call \<Rightarrow> pool \<Rightarrow> pool" where
  "exec_pool p (PRegister es) pool = pool_register p es pool"
| "exec_pool p (PAddKey k) pool = addRuntimeKey p k pool"
| "exec_pool p (PPick now s) pool = fst (pool_pick now p s pool)"
| "exec_pool p (PFail now ms k r) pool = markFailure now ms p k r pool"
| "exec_pool p (PSuccess k) pool = markSuccess p k pool"

text \<open>
  The calls that leave a sidelined key alone: re-registrations that still list it without a cooldown of
  their own, and no rate-limit failure reported for it.
\<close>

fun spares :: "jsstr \<Rightarrow> pool_call \<Rightarrow> bool" where
  "spares key (PRegister es) =
     (key \<in> set (map ce_key es) \<and> (\<forall>e \<in> set es. ce_key e = key \<longrightarrow> ce_cooldown e = None))"
| "spares key (PFail now ms k r) = (k \<noteq> key \<or> r \<noteq> RateLimit)"
| "spares key _ = True"

lemma update_key_keys [simp]: "(\<And>e. ce_key (f e) = ce_key e) \<Longrightarrow> map ce_key (update_key k f es) = map ce_key es"
  by (induction k f es rule: update_key.induct) auto

lemma update_key_in: "e \<in> set (update_key k f es) \<Longrightarrow> e \<in> set es \<or> (\<exists>e0 \<in> set es. ce_key e0 = k \<and> e = f e0)"
  by (induction k f es rule: update_key.induct) (auto split: if_splits)

lemma fail_entry_key [simp]: "ce_key (fail_entry now ms r e) = ce_key e"
  by (simp add: fail_entry_def Let_def split: failure_reason.split)

lemma sidelined_update:
  assumes "sidelined key st" "\<And>e. ce_key (f e) = ce_key e"
    and "\<And>e. ce_key e = key \<Longrightarrow> k = key \<Longrightarrow> ce_cooldown e = Some Forever \<Longrightarrow> ce_cooldown (f e) = Some Forever"
  shows "sidelined key (st\<lparr>pr_entries := update_key k f (pr_entries st)\<rparr>)"
proof -
  have keys: "map ce_key (update_key k f (pr_entries st)) = map ce_key (pr_entries st)"
    by (rule update_key_keys [OF assms(2)])
  have "ce_cooldown e = Some Forever" if e: "e \<in> set (update_key k f (pr_entries st))" "ce_key e = key" for e
    using update_key_in [OF e(1)]
  proof
    assume "e \<in> set (pr_entries st)"
    with assms(1) e(2) show ?thesis by (simp add: sidelined_def)
  next
    assume "\<exists>e0 \<in> set (pr_entries st). ce_key e0 = k \<and> e = f e0"
    then obtain e0 where e0: "e0 \<in> set (pr_entries st)" "ce_key e0 = k" "e = f e0" by blast
    then have "k = key" using e(2) assms(2) by simp
    with e0 assms(1) have "ce_cooldown e0 = Some Forever" by (simp add: sidelined_def)
    with e0 \<open>k = key\<close> show ?thesis using assms(3) by simp
  qed
  then show ?thesis using assms(1) keys unfolding sidelined_def by simp
qed

lemma sidelined_register:
  assumes "sidelined key st" "spares key (PRegister es)"
  shows "sidelined key (register_in es st)"
proof -
  let ?prev = "map_from (map (\<lambda>e. (ce_key e, e)) (pr_entries st))"
  have prior: "\<exists>e \<in> set (pr_entries st). mget ?prev key = Some e \<and> ce_key e = key"
  proof -
    have "mget ?prev key \<noteq> None"
      using assms(1) by (auto simp: mget_map_from sidelined_def map_of_eq_None_iff image_iff)
    then obtain e where e: "mget ?prev key = Some e" by blast
    then have "(key, e) \<in> set (rev (map (\<lambda>e. (ce_key e, e)) (pr_entries st)))"
      by (auto simp: mget_map_from dest: map_of_SomeD)
    with e show ?thesis by auto
  qed
  have key: "ce_key (merge_known ?prev e) = ce_key e" for e by (simp add: merge_known_def split: option.split)
  have "ce_cooldown (merge_known ?prev e) = Some Forever" if "e \<in> set es" "ce_key e = key" for e
    using prior that assms by (auto simp: merge_known_def sidelined_def)
  moreover have "key \<in> set (map ce_key (map (merge_known ?prev) es))"
    using assms(2) key by (auto simp: image_iff)
  ultimately show ?thesis using key by (auto simp: sidelined_def register_in_def Let_def)
qed

lemma sidelined_call:
  assumes "sidelined key (provider_of pool p)" "spares key c"
  shows "sidelined key (provider_of (exec_pool p c pool) p)"
proof (cases c)
  case (PRegister es)
  then show ?thesis using sidelined_register [OF assms(1), of es] assms(2)
    by (simp add: pool_register_def provider_of_def [of "mset_at p x pool" for x])
next
  case (PAddKey k)
  then show ?thesis using assms
    by (auto simp: addRuntimeKey_def provider_of_def [of "mset_at p x pool" for x] add_key_def sidelined_def list_ex_iff)
next
  case (PPick now s)
  obtain st' r where pk: "pick_in now s (provider_of pool p) = (st', r)" by fastforce
  then have "pr_entries st' = pr_entries (provider_of pool p)" using pick_in_sound by blast
  then show ?thesis using PPick assms pk
    by (auto simp: pool_pick_def provider_of_def sidelined_def split: option.splits prod.splits)
next
  case (PFail now ms k r)
  have "sidelined key (st\<lparr>pr_entries := update_key k (fail_entry now ms r) (pr_entries st)\<rparr>)"
    if "sidelined key st" for st
    by (rule sidelined_update [OF that])
       (use assms(2) PFail in \<open>auto simp: fail_entry_def Let_def split: failure_reason.splits\<close>)
  then show ?thesis using assms PFail
    by (auto simp: markFailure_def update_provider_def provider_of_def split: option.splits)
next
  case (PSuccess k)
  have "sidelined key (st\<lparr>pr_entries := update_key k (\<lambda>e. e\<lparr>ce_failures := Some 0\<rparr>) (pr_entries st)\<rparr>)"
    if "sidelined key st" for st
    by (rule sidelined_update [OF that]) simp_all
  then show ?thesis using assms PSuccess
    by (auto simp: markSuccess_def update_provider_def provider_of_def split: option.splits)
qed

lemma sidelined_run:
  "sidelined key (provider_of pool p) \<Longrightarrow> list_all (spares key) cs \<Longrightarrow>
     sidelined key (provider_of (fold (exec_pool p) cs pool) p)"
  by (induction cs arbitrary: pool) (simp_all add: sidelined_call)

lemma auth_sidelines:
  assumes "distinct (map ce_key (pr_entries (provider_of pool p)))" "key \<in> set (map ce_key (pr_entries (provider_of pool p)))"
  shows "sidelined key (provider_of (markFailure now ms p key AuthFailure pool) p)"
proof -
  obtain st where st: "mget pool p = Some st" using assms(2) by (auto simp: provider_of_def split: option.splits)
  have "distinct (map ce_key es) \<Longrightarrow> e \<in> set (update_key key (fail_entry now ms AuthFailure) es) \<Longrightarrow> ce_key e = key \<Longrightarrow>
      ce_cooldown e = Some Forever" for es e
  proof (induction es)
    case (Cons a es)
    show ?case
    proof (cases "ce_key a = key")
      case True
      have "e \<notin> set es" if k: "ce_key e = key"
      proof
        assume "e \<in> set es"
        then have "ce_key e \<in> set (map ce_key es)" by simp
        with Cons.prems(1) True k show False by simp
      qed
      then have "e = fail_entry now ms AuthFailure a" using Cons.prems(2,3) True by auto
      then show ?thesis by (simp add: fail_entry_def)
    next
      case False
      then show ?thesis using Cons by auto
    qed
  qed simp
  moreover have "map ce_key (update_key key (fail_entry now ms AuthFailure) es) = map ce_key es" for es
    by (rule update_key_keys) simp
  ultimately have "sidelined key (st\<lparr>pr_entries := update_key key (fail_entry now ms AuthFailure) (pr_entries st)\<rparr>)"
    using assms st unfolding sidelined_def by (simp add: provider_of_def del: set_map)
  then show ?thesis using st
    by (simp add: markFailure_def update_provider_def provider_of_def)
qed

lemma pick_not_sidelined:
  assumes "sidelined key (provider_of pool p)" "snd (pool_pick now p s pool) = Some (e, i)"
  shows "ce_key e \<noteq> key"
proof -
  obtain st where st: "mget pool p = Some st" using assms(2) by (auto simp: pool_pick_def split: option.splits)
  obtain st' r where pk: "pick_in now s st = (st', r)" by fastforce
  then have "r = Some (e, i)" using assms(2) st by (auto simp: pool_pick_def split: if_splits)
  with pick_in_sound [OF pk] have "e \<in> set (pr_entries st)" "isReady now e" by auto
  then show ?thesis using assms(1) st by (auto simp: sidelined_def provider_of_def isReady_def)
qed

lemma soonest_Some: "soonest es = Some t \<Longrightarrow> \<exists>e \<in> set es. ce_cooldown e = Some (Until t)"
  by (induction es arbitrary: t) (auto simp: min_def split: option.splits cooldown.splits if_splits)


section \<open>Properties\<close>

text \<open>A pick answers with a usable key whenever there is one: it returns an entry of the provider
  that is ready, at its index, and returns nothing only when no entry is ready; it changes no entry.\<close>

theorem pick_ready_or_none:
  "case pool_pick now p session pool of (pool', r) \<Rightarrow>
     pr_entries (provider_of pool' p) = pr_entries (provider_of pool p) \<and>
     (case r of
        None \<Rightarrow> \<not> list_ex (isReady now) (pr_entries (provider_of pool p))
      | Some (e, i) \<Rightarrow> i < length (pr_entries (provider_of pool p)) \<and>
          pr_entries (provider_of pool p) ! i = e \<and> isReady now e)"
proof (cases "mget pool p")
  case (Some st)
  obtain st' r where pk: "pick_in now session st = (st', r)" by fastforce
  show ?thesis using pick_in_sound [OF pk] Some pk
    by (auto simp: pool_pick_def provider_of_def list_ex_iff split: option.splits)
qed (simp add: pool_pick_def provider_of_def)

text \<open>Session affinity: a session that was given a key gets the same entry again as long as that
  entry is ready, even when an earlier entry of the list has become ready meanwhile.\<close>

theorem pick_sticky:
  assumes "pool_pick now p (Some sid) pool = (pool', Some (e, i))"
    and "distinct (map ce_key (pr_entries (provider_of pool p)))" and "ce_key e \<noteq> []" and "isReady now' e"
  shows "snd (pool_pick now' p (Some sid) pool') = Some (e, i)"
proof -
  obtain st where st: "mget pool p = Some st" "pr_entries st \<noteq> []"
    using assms(1) by (auto simp: pool_pick_def split: option.splits if_splits)
  obtain st' where pk: "pick_in now (Some sid) st = (st', Some (e, i))" and pool': "pool' = mset_at p st' pool"
    using assms(1) st by (auto simp: pool_pick_def split: prod.splits)
  have d: "distinct (map ce_key (pr_entries st))" using assms(2) st by (simp add: provider_of_def)
  note rem = pick_in_remembers [OF pk assms(3) d]
  have same: "pr_entries st' = pr_entries st" "pr_entries st' ! i = e" using pick_in_sound [OF pk] by auto
  have "pick_in now' (Some sid) st' = (st', Some (e, i))"
    using pick_in_sticky [of st' sid "ce_key e" i now'] rem same assms(3,4) by simp
  then show ?thesis using pool' st(2) same by (simp add: pool_pick_def)
qed

definition sample_key :: "jsstr \<Rightarrow> cooldown option \<Rightarrow> credential" where
  "sample_key k c = \<lparr> ce_key = k, ce_source = SrcEnv, ce_cooldown = c, ce_failures = None \<rparr>"

theorem pick_sticky_witness:
  "map_option snd (snd (pool_pick 10 [112] (Some [115])
     (fst (pool_pick 0 [112] (Some [115]) (pool_register [112] [sample_key [97] (Some (Until 5)), sample_key [98] None] []))))) = Some 1"
proof -
  let ?pool = "pool_register [112] [sample_key [97] (Some (Until 5)), sample_key [98] None] []"
  have pk: "pool_pick 0 [112] (Some [115]) ?pool
      = (fst (pool_pick 0 [112] (Some [115]) ?pool), Some (sample_key [98] None, 1))" by code_simp
  have "distinct (map ce_key (pr_entries (provider_of ?pool [112])))" by code_simp
  from pick_sticky [OF pk this, of 10] show ?thesis by (simp add: sample_key_def isReady_def)
qed

text \<open>A key with an authentication failure is never picked again, at any time and for any session,
  whatever calls follow, as long as re-registrations keep listing it and no rate-limit failure is
  reported for it.\<close>

theorem auth_failure_sidelines:
  assumes "distinct (map ce_key (pr_entries (provider_of pool p)))"
    and "key \<in> set (map ce_key (pr_entries (provider_of pool p)))"
    and "list_all (spares key) cs"
    and "snd (pool_pick t p s (fold (exec_pool p) cs (markFailure now ms p key AuthFailure pool))) = Some (e, i)"
  shows "ce_key e \<noteq> key"
  using pick_not_sidelined [OF sidelined_run [OF auth_sidelines [OF assms(1,2)] assms(3)] assms(4)] .

theorem auth_failure_sidelines_witness:
  "map_option (ce_key \<circ> fst) (snd (pool_pick 9 [112] None (fold (exec_pool [112]) [PSuccess [97]]
     (markFailure 0 5 [112] [97] AuthFailure (pool_register [112] [sample_key [97] None, sample_key [98] None] []))))) = Some [98]
   \<and> ce_key (sample_key [98] None) \<noteq> [97]"
proof -
  let ?pool = "pool_register [112] [sample_key [97] None, sample_key [98] None] []"
  let ?run = "fold (exec_pool [112]) [PSuccess [97]] (markFailure 0 5 [112] [97] AuthFailure ?pool)"
  have "distinct (map ce_key (pr_entries (provider_of ?pool [112])))" by code_simp
  moreover have "[97] \<in> set (map ce_key (pr_entries (provider_of ?pool [112])))" by code_simp
  moreover have "list_all (spares [97]) [PSuccess [97]]" by simp
  moreover have pk: "snd (pool_pick 9 [112] None ?run) = Some (sample_key [98] None, 1)" by code_simp
  ultimately have "ce_key (sample_key [98] None) \<noteq> [97]" by (rule auth_failure_sidelines)
  with pk show ?thesis by (simp add: sample_key_def)
qed

text \<open>The exclusion of rate-limit failures is needed: one reported for the key (by a request already in
  flight) replaces the infinite cooldown by a finite one.\<close>

lemma rate_limit_revives_sidelined_key:
  "map_option (ce_key \<circ> fst) (snd (pool_pick 9 [112] None (markFailure 1 5 [112] [97] RateLimit
     (markFailure 0 5 [112] [97] AuthFailure (pool_register [112] [sample_key [97] None] []))))) = Some [97]"
  by code_simp

text \<open>Waiting works: when \<open>awaitFreeSlot\<close> asks to wait, the wait is shorter than the timeout and a pick
  at its end succeeds; it resolves at once only for an empty provider or when a pick succeeds now.\<close>

theorem await_then_ready:
  "case awaitFreeSlot now p timeoutMs pool of
     ResolveAfter w \<Rightarrow> w < timeoutMs \<and> list_ex (isReady (now + w)) (pr_entries (provider_of pool p))
   | ResolveNow \<Rightarrow> pool_count p pool = 0 \<or> list_ex (isReady now) (pr_entries (provider_of pool p))
   | RejectNow \<Rightarrow> list_all (\<lambda>e. isReady now e = False) (pr_entries (provider_of pool p))"
proof -
  let ?es = "pr_entries (provider_of pool p)"
  have "list_ex (isReady (now + w)) ?es"
    if s: "soonest ?es = Some t" and w: "w = min timeoutMs (max 0 (t - now))" "\<not> timeoutMs \<le> w" for t w
  proof -
    obtain e where e: "e \<in> set ?es" "ce_cooldown e = Some (Until t)" using soonest_Some [OF s] by blast
    have "t \<le> now + w" using w by (auto simp: min_def max_def split: if_splits)
    then have "isReady (now + w) e" using e(2) by (simp add: isReady_def)
    with e(1) show ?thesis by (auto simp: list_ex_iff)
  qed
  then show ?thesis
    by (auto simp: awaitFreeSlot_def Let_def pool_count_def list_all_iff list_ex_iff split: option.split)
qed

end
