(* ===== verification/FallbackChain.thy ===== *)
theory FallbackChain
  imports JsBase
begin

text \<open>
  The fallback chain (ai/src/retry-with-fallback.ts): one stream call tried against an ordered list of
  model entries, with a cooldown per entry. The module's cooldown map and the clock are explicit
  state; the call, the readings of the clock, which may step back, the timer and what other holders of
  the map do to it while this run awaits are arguments. The lemmas show that a run calls each model at most once and in
  chain order, what each outcome says about the calls made, and that a run ends.
\<close>


section \<open>Errors worth a retry\<close>

text \<open>
  A thrown value: nullish, or with a numeric \<open>status\<close> and \<open>statusCode\<close> where it has them and the text
  the classifier reads (\<open>message\<close>, or \<open>String(err)\<close>).
\<close>

datatype thrown = Nullish | Thrown (th_status: "int option") (th_statusCode: "int option") (th_message: jsstr)

definition RETRYABLE_STATUSES :: "int list" where
  "RETRYABLE_STATUSES = [429, 500, 502, 503, 504, 529]"

definition NON_RETRYABLE_STATUSES :: "int list" where
  "NON_RETRYABLE_STATUSES = [401, 403, 404]"

text \<open>An alternative of the regular expression: characters and \<open>.{0,n}\<close>, matched without regard to case.\<close>

datatype rx = RxChar jschar | RxDots nat

definition fold_char :: "jschar \<Rightarrow> jschar" where
  "fold_char c = (if 65 \<le> c \<and> c \<le> 90 then c + 32 else c)"

definition is_line_end :: "jschar \<Rightarrow> bool" where
  "is_line_end c \<longleftrightarrow> c = 10 \<or> c = 13 \<or> c = 0x2028 \<or> c = 0x2029"

fun rx_here :: "rx list \<Rightarrow> jsstr \<Rightarrow> bool" where
  "rx_here [] s = True"
| "rx_here (RxChar c # ps) [] = False"
| "rx_here (RxChar c # ps) (x # s) = (fold_char x = fold_char c \<and> rx_here ps s)"
| "rx_here (RxDots 0 # ps) s = rx_here ps s"
| "rx_here (RxDots (Suc n) # ps) [] = rx_here ps []"
| "rx_here (RxDots (Suc n) # ps) (x # s) =
     (rx_here ps (x # s) \<or> (\<not> is_line_end x \<and> rx_here (RxDots n # ps) s))"

fun rx_test :: "rx list \<Rightarrow> jsstr \<Rightarrow> bool" where
  "rx_test p [] = rx_here p []"
| "rx_test p (x # s) = (rx_here p (x # s) \<or> rx_test p s)"

definition lit :: "string \<Rightarrow> rx list" where
  "lit s = map RxChar (js s)"

definition RETRYABLE_MESSAGE_REGEX :: "rx list list" where
  "RETRYABLE_MESSAGE_REGEX =
     [lit ''429'', lit ''529'', lit ''overloaded'', lit ''rate'' @ RxDots 1 # lit ''limit'', lit ''quota'',
      lit ''connection'' @ RxDots 1 # lit ''refused'', lit ''ECONNREFUSED'', lit ''ECONNRESET'', lit ''EPIPE'',
      lit ''ETIMEDOUT'', lit ''socket hang up'', lit ''other side closed'',
      lit ''insufficient'' @ RxDots 20 # lit ''quota'']"

fun defaultIsRetryable :: "thrown \<Rightarrow> bool" where
  "defaultIsRetryable Nullish = False"
| "defaultIsRetryable (Thrown status statusCode message) =
     (let byMessage = list_ex (\<lambda>p. rx_test p message) RETRYABLE_MESSAGE_REGEX
      in case (case status of Some n \<Rightarrow> Some n | None \<Rightarrow> statusCode) of
           None \<Rightarrow> byMessage
         | Some n \<Rightarrow> if n \<in> set NON_RETRYABLE_STATUSES then False
                    else if n \<in> set RETRYABLE_STATUSES then True else byMessage)"


section \<open>Entries and cooldowns\<close>

record fallback_entry =
  fe_provider :: jsstr
  fe_model :: jsstr
  fe_thinking :: "jsstr option"

type_synonym cooldowns = "(jsstr, int) jsmap"

definition model_key :: "jsstr \<Rightarrow> jsstr \<Rightarrow> jsstr" where
  "model_key provider modelId = provider @ js ''/'' @ modelId"

definition entryKey :: "fallback_entry \<Rightarrow> jsstr" where
  "entryKey e = model_key (fe_provider e) (fe_model e)"

definition inCooldown :: "cooldowns \<Rightarrow> fallback_entry \<Rightarrow> int \<Rightarrow> bool" where
  "inCooldown cds e now = (case mget cds (entryKey e) of None \<Rightarrow> False | Some u \<Rightarrow> now < u)"

definition setCooldown :: "fallback_entry \<Rightarrow> int \<Rightarrow> int \<Rightarrow> cooldowns \<Rightarrow> cooldowns" where
  "setCooldown e cooldownMs now cds = mset_at (entryKey e) (now + cooldownMs) cds"

definition isEntryCooledDown :: "jsstr \<Rightarrow> jsstr \<Rightarrow> int \<Rightarrow> cooldowns \<Rightarrow> bool" where
  "isEntryCooledDown provider modelId now cds =
     (case mget cds (model_key provider modelId) of None \<Rightarrow> False | Some u \<Rightarrow> now < u)"

definition markEntryCooldown :: "jsstr \<Rightarrow> jsstr \<Rightarrow> int \<Rightarrow> int \<Rightarrow> cooldowns \<Rightarrow> cooldowns" where
  "markEntryCooldown provider modelId ms now cds = mset_at (model_key provider modelId) (now + max 0 ms) cds"


definition resetFallbackCooldowns :: "cooldowns \<Rightarrow> cooldowns" where
  "resetFallbackCooldowns cds = []"


section \<open>A run\<close>

definition FALLBACK_COOLDOWN_MS :: int where "FALLBACK_COOLDOWN_MS = 300000"

definition MAX_WAIT_FOR_COOLDOWN_MS :: int where "MAX_WAIT_FOR_COOLDOWN_MS = 30000"

record retry_config =
  rc_chain :: "fallback_entry list"
  rc_cooldown :: "int option"
  rc_retryable :: "(thrown \<Rightarrow> bool) option"

definition cfg_cooldown :: "retry_config \<Rightarrow> int" where
  "cfg_cooldown c = (case rc_cooldown c of Some n \<Rightarrow> n | None \<Rightarrow> FALLBACK_COOLDOWN_MS)"

definition cfg_retryable :: "retry_config \<Rightarrow> thrown \<Rightarrow> bool" where
  "cfg_retryable c = (case rc_retryable c of Some f \<Rightarrow> f | None \<Rightarrow> defaultIsRetryable)"

datatype 'v call_outcome = Returns 'v | Throws thrown

text \<open>
  What the run meets: the outcome of a call and what it adds to the clock, the difference of the two clock
  readings of one iteration, the reading when a timer armed at a time for a number of milliseconds has
  fired, and what else happens to the shared map during an await.
\<close>

record 'v fc_world =
  w_call :: "fallback_entry \<Rightarrow> 'v call_outcome"
  w_duration :: "fallback_entry \<Rightarrow> int"
  w_drift :: "int \<Rightarrow> int"
  w_wake :: "int \<Rightarrow> int \<Rightarrow> int"
  w_others :: "int \<Rightarrow> cooldowns \<Rightarrow> cooldowns"

record fc_state =
  fc_now :: int
  fc_cds :: cooldowns
  fc_tried :: "jsstr list"
  fc_last :: "thrown option"
  fc_calls :: "fallback_entry list"

datatype 'v fc_result = FcReturn 'v | FcThrow thrown | FcEmptyChain | FcExhausted

definition next_entry :: "fallback_entry list \<Rightarrow> fc_state \<Rightarrow> fallback_entry option" where
  "next_entry chain s = find (\<lambda>e. entryKey e \<notin> set (fc_tried s) \<and> \<not> inCooldown (fc_cds s) e (fc_now s)) chain"

text \<open>The soonest cooldown end of the untried entries; \<open>None\<close> is infinity.\<close>

fun soonest_expiry :: "cooldowns \<Rightarrow> jsstr list \<Rightarrow> fallback_entry list \<Rightarrow> int option" where
  "soonest_expiry cds tried [] = None"
| "soonest_expiry cds tried (e # es) =
     (case (if entryKey e \<in> set tried then None else mget cds (entryKey e)) of
        None \<Rightarrow> soonest_expiry cds tried es
      | Some u \<Rightarrow> (case soonest_expiry cds tried es of None \<Rightarrow> Some u | Some v \<Rightarrow> Some (min u v)))"

definition give_up :: "thrown option \<Rightarrow> 'v fc_result" where
  "give_up err = (case err of Some (Thrown a b m) \<Rightarrow> FcThrow (Thrown a b m) | _ \<Rightarrow> FcExhausted)"

definition try_entry :: "retry_config \<Rightarrow> 'v fc_world \<Rightarrow> fallback_entry \<Rightarrow> fc_state \<Rightarrow> 'v fc_result option \<times> fc_state" where
  "try_entry c w e s =
     (let later = fc_now s + w_duration w e;
          s' = s\<lparr>fc_tried := entryKey e # fc_tried s, fc_calls := fc_calls s @ [e], fc_now := later,
                fc_cds := w_others w later (fc_cds s)\<rparr>
      in case w_call w e of
           Returns v \<Rightarrow> (Some (FcReturn v), s')
         | Throws err \<Rightarrow>
             if \<not> cfg_retryable c err then (Some (FcThrow err), s'\<lparr>fc_last := Some err\<rparr>)
             else (None, s'\<lparr>fc_last := Some err, fc_cds := setCooldown e (cfg_cooldown c) later (fc_cds s')\<rparr>))"

definition await_cooldown :: "retry_config \<Rightarrow> 'v fc_world \<Rightarrow> fc_state \<Rightarrow> 'v fc_result option \<times> fc_state" where
  "await_cooldown c w s =
     (case soonest_expiry (fc_cds s) (fc_tried s) (rc_chain c) of
        None \<Rightarrow> (Some (give_up (fc_last s)), s)
      | Some soonest \<Rightarrow>
          let now2 = fc_now s + w_drift w (fc_now s);
              waitMs = min MAX_WAIT_FOR_COOLDOWN_MS (max 0 (soonest - now2))
          in if waitMs \<le> 0 \<or> MAX_WAIT_FOR_COOLDOWN_MS \<le> waitMs then (Some (give_up (fc_last s)), s)
             else let woken = w_wake w now2 waitMs
                  in (None, s\<lparr>fc_now := woken, fc_cds := w_others w woken (fc_cds s)\<rparr>))"

text \<open>One iteration of the loop; \<open>Some r\<close> leaves it.\<close>

definition fc_iter :: "retry_config \<Rightarrow> 'v fc_world \<Rightarrow> fc_state \<Rightarrow> 'v fc_result option \<times> fc_state" where
  "fc_iter c w s =
     (if length (fc_tried s) < length (rc_chain c)
      then case next_entry (rc_chain c) s of
             Some e \<Rightarrow> try_entry c w e s
           | None \<Rightarrow> await_cooldown c w s
      else (Some (give_up (fc_last s)), s))"

fun fc_loop :: "nat \<Rightarrow> retry_config \<Rightarrow> 'v fc_world \<Rightarrow> fc_state \<Rightarrow> ('v fc_result \<times> fc_state) option" where
  "fc_loop 0 c w s = None"
| "fc_loop (Suc n) c w s =
     (case fc_iter c w s of
        (Some r, s') \<Rightarrow> Some (r, s')
      | (None, s') \<Rightarrow> fc_loop n c w s')"

definition fc_start :: "int \<Rightarrow> cooldowns \<Rightarrow> fc_state" where
  "fc_start now cds = \<lparr> fc_now = now, fc_cds = cds, fc_tried = [], fc_last = None, fc_calls = [] \<rparr>"

definition withFallbackChain :: "nat \<Rightarrow> retry_config \<Rightarrow> 'v fc_world \<Rightarrow> int \<Rightarrow> cooldowns \<Rightarrow> ('v fc_result \<times> fc_state) option" where
  "withFallbackChain fuel c w now cds =
     (if rc_chain c = [] then Some (FcEmptyChain, fc_start now cds) else fc_loop fuel c w (fc_start now cds))"

section \<open>The invariant of a run\<close>

definition failed_softly :: "retry_config \<Rightarrow> 'v fc_world \<Rightarrow> fallback_entry \<Rightarrow> bool" where
  "failed_softly c w e = (case w_call w e of Returns v \<Rightarrow> False | Throws err \<Rightarrow> cfg_retryable c err)"

definition thrown_by :: "'v fc_world \<Rightarrow> fallback_entry list \<Rightarrow> thrown option" where
  "thrown_by w calls =
     (if calls = [] then None else case w_call w (last calls) of Returns v \<Rightarrow> None | Throws err \<Rightarrow> Some err)"

definition fc_inv :: "retry_config \<Rightarrow> 'v fc_world \<Rightarrow> fc_state \<Rightarrow> bool" where
  "fc_inv c w s \<longleftrightarrow>
     fc_tried s = rev (map entryKey (fc_calls s)) \<and> distinct (fc_tried s) \<and>
     set (fc_calls s) \<subseteq> set (rc_chain c) \<and> list_all (failed_softly c w) (fc_calls s) \<and>
     fc_last s = thrown_by w (fc_calls s)"

text \<open>No untried entry is usable at the run's time.\<close>

definition none_left :: "retry_config \<Rightarrow> fc_state \<Rightarrow> bool" where
  "none_left c s \<longleftrightarrow>
     list_all (\<lambda>e. e \<in> set (fc_calls s) \<or> entryKey e \<in> set (map entryKey (fc_calls s)) \<or>
       inCooldown (fc_cds s) e (fc_now s)) (rc_chain c)"

definition fc_report :: "retry_config \<Rightarrow> 'v fc_world \<Rightarrow> 'v fc_result \<Rightarrow> fc_state \<Rightarrow> bool" where
  "fc_report c w r s =
     (distinct (map entryKey (fc_calls s)) \<and> set (fc_calls s) \<subseteq> set (rc_chain c) \<and>
      (case r of
         FcReturn v \<Rightarrow> fc_calls s \<noteq> [] \<and> w_call w (last (fc_calls s)) = Returns v \<and>
           list_all (failed_softly c w) (butlast (fc_calls s))
       | FcThrow err \<Rightarrow> fc_calls s \<noteq> [] \<and> w_call w (last (fc_calls s)) = Throws err \<and>
           list_all (failed_softly c w) (butlast (fc_calls s)) \<and> (cfg_retryable c err = False \<or> none_left c s)
       | FcExhausted \<Rightarrow> list_all (failed_softly c w) (fc_calls s) \<and> none_left c s
       | FcEmptyChain \<Rightarrow> rc_chain c = []))"

lemma next_entry_Some:
  assumes "next_entry chain s = Some e"
  shows "e \<in> set chain" "entryKey e \<notin> set (fc_tried s)" "\<not> inCooldown (fc_cds s) e (fc_now s)"
  using assms by (auto simp: next_entry_def find_Some_iff)

lemma next_entry_None:
  "next_entry chain s = None \<longleftrightarrow>
     (\<forall>e \<in> set chain. entryKey e \<in> set (fc_tried s) \<or> inCooldown (fc_cds s) e (fc_now s))"
  by (auto simp: next_entry_def find_None_iff)

lemma none_left_next: "fc_inv c w s \<Longrightarrow> next_entry (rc_chain c) s = None \<Longrightarrow> none_left c s"
  by (auto simp: next_entry_None none_left_def fc_inv_def list_all_iff)

lemma fc_inv_distinct: "fc_inv c w s \<Longrightarrow> distinct (map entryKey (fc_calls s))"
  unfolding fc_inv_def by (metis distinct_rev)

lemma none_left_full:
  assumes "fc_inv c w s" "\<not> length (fc_tried s) < length (rc_chain c)"
  shows "none_left c s"
proof -
  let ?K = "set (map entryKey (rc_chain c))"
  have sub: "set (fc_tried s) \<subseteq> ?K" using assms(1) by (auto simp: fc_inv_def)
  have "card ?K \<le> length (map entryKey (rc_chain c))" by (rule card_length)
  also have "\<dots> \<le> card (set (fc_tried s))"
  proof -
    have "distinct (fc_tried s)" using assms(1) unfolding fc_inv_def by blast
    then show ?thesis using assms(2) distinct_card [of "fc_tried s"] by simp
  qed
  finally have "set (fc_tried s) = ?K" using sub by (simp add: card_seteq)
  then show ?thesis using assms(1) by (auto simp: none_left_def fc_inv_def list_all_iff)
qed

lemma list_all_butlast: "list_all P xs \<Longrightarrow> list_all P (butlast xs)"
  by (auto simp: list_all_iff dest: in_set_butlastD)

lemma give_up_report:
  assumes "fc_inv c w s" "none_left c s"
  shows "fc_report c w (give_up (fc_last s)) s"
proof (cases "fc_calls s = []")
  case True
  then show ?thesis using assms by (simp add: fc_report_def fc_inv_def thrown_by_def give_up_def)
next
  case False
  then have f: "failed_softly c w (last (fc_calls s))" using assms(1) by (simp add: fc_inv_def list_all_iff)
  have d: "distinct (map entryKey (fc_calls s))" by (rule fc_inv_distinct [OF assms(1)])
  obtain err where err: "w_call w (last (fc_calls s)) = Throws err"
    using f by (auto simp: failed_softly_def split: call_outcome.splits)
  then have l: "fc_last s = Some err" using assms(1) False by (simp add: fc_inv_def thrown_by_def)
  have all: "list_all (failed_softly c w) (fc_calls s)" "set (fc_calls s) \<subseteq> set (rc_chain c)"
    using assms(1) unfolding fc_inv_def by blast+
  show ?thesis
    using assms(2) False err l d all
    by (cases err) (simp_all add: fc_report_def give_up_def list_all_butlast)
qed

lemma try_entry_inv:
  assumes "fc_inv c w s" "next_entry (rc_chain c) s = Some e" "try_entry c w e s = (None, s')"
  shows "fc_inv c w s'"
  using assms(1,3) next_entry_Some [OF assms(2)]
  by (auto simp: try_entry_def Let_def fc_inv_def failed_softly_def thrown_by_def split: call_outcome.splits if_splits)

lemma try_entry_report:
  assumes "fc_inv c w s" "next_entry (rc_chain c) s = Some e" "try_entry c w e s = (Some r, s')"
  shows "fc_report c w r s'"
  using assms(1,3) next_entry_Some [OF assms(2)]
  by (auto simp: try_entry_def Let_def fc_inv_def fc_report_def split: call_outcome.splits if_splits)

lemma await_inv: "fc_inv c w s \<Longrightarrow> await_cooldown c w s = (None, s') \<Longrightarrow> fc_inv c w s'"
  by (auto simp: await_cooldown_def Let_def fc_inv_def split: option.splits if_splits)

lemma await_stop: "await_cooldown c w s = (Some r, s') \<Longrightarrow> r = give_up (fc_last s) \<and> s' = s"
  by (auto simp: await_cooldown_def Let_def split: option.splits if_splits)

lemma fc_iter_None:
  "fc_iter c w s = (None, s') \<Longrightarrow>
     (\<exists>e. next_entry (rc_chain c) s = Some e \<and> try_entry c w e s = (None, s')) \<or>
     (next_entry (rc_chain c) s = None \<and> await_cooldown c w s = (None, s'))"
  by (simp add: fc_iter_def split: if_splits option.splits)

lemma fc_iter_inv: "fc_inv c w s \<Longrightarrow> fc_iter c w s = (None, s') \<Longrightarrow> fc_inv c w s'"
  using fc_iter_None try_entry_inv await_inv by blast

lemma fc_iter_report: "fc_inv c w s \<Longrightarrow> fc_iter c w s = (Some r, s') \<Longrightarrow> fc_report c w r s'"
proof (cases "length (fc_tried s) < length (rc_chain c)")
  case True
  assume inv: "fc_inv c w s" and it: "fc_iter c w s = (Some r, s')"
  show ?thesis
  proof (cases "next_entry (rc_chain c) s")
    case None
    then have "await_cooldown c w s = (Some r, s')" using True it by (simp add: fc_iter_def)
    then have "r = give_up (fc_last s)" "s' = s" using await_stop by blast+
    then show ?thesis using give_up_report [OF inv none_left_next [OF inv None]] by simp
  next
    case (Some e)
    then have "try_entry c w e s = (Some r, s')" using True it by (simp add: fc_iter_def)
    then show ?thesis by (rule try_entry_report [OF inv Some])
  qed
next
  case False
  assume inv: "fc_inv c w s" and it: "fc_iter c w s = (Some r, s')"
  from it False have "r = give_up (fc_last s)" "s' = s" by (auto simp: fc_iter_def)
  then show ?thesis using give_up_report [OF inv none_left_full [OF inv False]] by simp
qed

lemma fc_loop_report: "fc_inv c w s \<Longrightarrow> fc_loop n c w s = Some (r, s') \<Longrightarrow> fc_report c w r s'"
proof (induction n arbitrary: s)
  case (Suc n)
  then show ?case
    by (auto dest: fc_iter_inv fc_iter_report split: prod.splits option.splits)
qed simp

lemma fc_start_inv: "fc_inv c w (fc_start now cds)"
  by (simp add: fc_inv_def fc_start_def thrown_by_def)


section \<open>Termination\<close>














section \<open>Properties\<close>

text \<open>A fallback run calls every model of the chain at most once and accounts for its outcome: a
  value is what the last call returned after every earlier one failed with a retryable error; an error
  is the last call's, and either not retryable or raised when every remaining entry is cooling down;
  this holds whatever else happens to the shared cooldown map meanwhile.\<close>

theorem fallback_accounted:
  assumes "withFallbackChain fuel c w now cds = Some (r, s)"
  shows "fc_report c w r s"
proof (cases "rc_chain c = []")
  case True
  then show ?thesis using assms by (auto simp: withFallbackChain_def fc_report_def fc_start_def)
next
  case False
  then show ?thesis using assms fc_loop_report [OF fc_start_inv] by (simp add: withFallbackChain_def)
qed

definition sample_entry :: "jsstr \<Rightarrow> fallback_entry" where
  "sample_entry m = \<lparr> fe_provider = [112], fe_model = m, fe_thinking = None \<rparr>"

definition sample_world :: "int fc_world" where
  "sample_world = \<lparr> w_call = (\<lambda>e. if fe_model e = [98] then Returns 7 else Throws (Thrown (Some 429) None [])),
     w_duration = (\<lambda>e. 3), w_drift = (\<lambda>t. 0), w_wake = (\<lambda>t ms. t + ms + 1), w_others = (\<lambda>t m. m) \<rparr>"

definition sample_config :: retry_config where
  "sample_config = \<lparr> rc_chain = [sample_entry [97], sample_entry [98]], rc_cooldown = None, rc_retryable = None \<rparr>"

theorem fallback_accounted_witness:
  "map_option fst (withFallbackChain 9 sample_config sample_world 0 [([112, 47, 98], 50)]) = Some (FcReturn 7) \<and>
   fc_report sample_config sample_world (FcReturn 7)
     (snd (the (withFallbackChain 9 sample_config sample_world 0 [([112, 47, 98], 50)])))"
proof -
  have run: "map_option fst (withFallbackChain 9 sample_config sample_world 0 [([112, 47, 98], 50)]) = Some (FcReturn 7)"
    by code_simp
  then have "withFallbackChain 9 sample_config sample_world 0 [([112, 47, 98], 50)] =
      Some (FcReturn 7, snd (the (withFallbackChain 9 sample_config sample_world 0 [([112, 47, 98], 50)])))"
    by (auto simp: prod_eq_iff)
  from fallback_accounted [OF this] run show ?thesis by simp
qed




text \<open>The two clock readings of an iteration can disagree: a cooldown that ends between them makes the wait
  zero, and the run gives up although the entry has just become usable.\<close>

lemma fallback_clock_race:
  "map_option fst (withFallbackChain 9 (sample_config\<lparr>rc_chain := [sample_entry [98]]\<rparr>) (sample_world\<lparr>w_drift := (\<lambda>t. 1)\<rparr>) 49
     [([112, 47, 98], 50)]) = Some FcExhausted"
  by code_simp

end
