(* ===== verification/Registry.thy ===== *)
theory Registry
  imports JsBase "HOL-Library.Multiset"
begin

text \<open>
  The subagent registry (core/coordinator/registry.ts, class SubagentRegistry): the records of a
  session's subagents in insertion order, with settlement moving a record to the end, a cap on the
  terminal records kept, and a mirror of the task names in use. The random part of an id is an
  argument. The lemmas show that live records are never evicted, that the terminal ones stay within the
  cap, that a record just settled is kept, and that task names are unique while ids are fresh.
\<close>


section \<open>Records\<close>

datatype subagent_status = SubPending | SubRunning | SubCompleted | SubFailed | SubCancelled

text \<open>\<open>sr_details\<close> stands for the usage, model fallback and manifest a run reports.\<close>

record 'x subagent =
  sr_id :: jsstr
  sr_taskName :: jsstr
  sr_depth :: int
  sr_prompt :: jsstr
  sr_systemPrompt :: "jsstr option"
  sr_allowedTools :: "jsstr list option"
  sr_model :: "jsstr option"
  sr_status :: subagent_status
  sr_startedAt :: "int option"
  sr_endedAt :: "int option"
  sr_output :: "jsstr option"
  sr_error :: "jsstr option"
  sr_turnCount :: int
  sr_denied :: "jsstr list option"
  sr_partial :: "bool option"
  sr_details :: "'x option"

record create_args =
  ca_prompt :: jsstr
  ca_systemPrompt :: "jsstr option"
  ca_allowedTools :: "jsstr list option"
  ca_model :: "jsstr option"
  ca_taskName :: "jsstr option"
  ca_depth :: "int option"

text \<open>
  The fields a patch assigns: \<open>None\<close> is a field the patch does not have, \<open>Some None\<close> one it sets to
  \<open>undefined\<close>. No caller patches the fields that identify a record.
\<close>

record 'x record_patch =
  rp_status :: "subagent_status option"
  rp_startedAt :: "int option option"
  rp_endedAt :: "int option option"
  rp_output :: "jsstr option option"
  rp_error :: "jsstr option option"
  rp_turnCount :: "int option"
  rp_denied :: "jsstr list option option"
  rp_partial :: "bool option option"
  rp_details :: "'x option option"

record 'x registry =
  rg_records :: "(jsstr, 'x subagent) jsmap"
  rg_created :: nat
  rg_settled :: nat
  rg_evicted :: nat
  rg_names :: "jsstr list"
  rg_hooked :: "'x subagent list"

record registry_stats =
  rs_created :: nat
  rs_settled :: nat
  rs_evicted :: nat
  rs_retained :: nat
  rs_live :: nat
  rs_terminal :: nat


section \<open>Operations\<close>

definition terminal_status :: "subagent_status \<Rightarrow> bool" where
  "terminal_status st \<longleftrightarrow> st = SubCompleted \<or> st = SubFailed \<or> st = SubCancelled"

definition MAX_TERMINAL_RECORDS :: nat where "MAX_TERMINAL_RECORDS = 64"

definition new_registry :: "'x registry" where
  "new_registry = \<lparr> rg_records = [], rg_created = 0, rg_settled = 0, rg_evicted = 0, rg_names = [], rg_hooked = [] \<rparr>"

definition subagent_id :: "jsstr \<Rightarrow> jsstr" where
  "subagent_id hex = js ''sub_'' @ hex"

definition uniqueTaskName :: "'x registry \<Rightarrow> jsstr option \<Rightarrow> jsstr \<Rightarrow> jsstr" where
  "uniqueTaskName s desired sid =
     (case desired of
        None \<Rightarrow> sid
      | Some d \<Rightarrow>
          if d = [] then sid
          else if d \<notin> set (rg_names s) then d
          else d @ js ''-'' @ drop 4 sid)"

definition terminal_records :: "(jsstr, 'x subagent) jsmap \<Rightarrow> 'x subagent list" where
  "terminal_records m = filter (\<lambda>r. terminal_status (sr_status r)) (mvalues m)"

text \<open>Drop the first \<open>n\<close> terminal records in iteration order.\<close>

fun evict_loop :: "nat \<Rightarrow> (jsstr, 'x subagent) jsmap \<Rightarrow> (jsstr, 'x subagent) jsmap \<times> 'x subagent list" where
  "evict_loop 0 m = (m, [])"
| "evict_loop (Suc n) [] = ([], [])"
| "evict_loop (Suc n) ((k, r) # m) =
     (if terminal_status (sr_status r)
      then (let (m', d) = evict_loop n m in (m', r # d))
      else (let (m', d) = evict_loop (Suc n) m in ((k, r) # m', d)))"

definition evictTerminal :: "'x registry \<Rightarrow> 'x registry" where
  "evictTerminal s =
     (let terminal = length (terminal_records (rg_records s))
      in if terminal \<le> MAX_TERMINAL_RECORDS then s
         else case evict_loop (terminal - MAX_TERMINAL_RECORDS) (rg_records s) of
                (m, dropped) \<Rightarrow>
                  s\<lparr>rg_records := m,
                    rg_names := fold (\<lambda>r ns. removeAll (sr_taskName r) ns) dropped (rg_names s),
                    rg_evicted := rg_evicted s + length dropped,
                    rg_hooked := rg_hooked s @ dropped\<rparr>)"

definition registry_create :: "jsstr \<Rightarrow> create_args \<Rightarrow> 'x registry \<Rightarrow> 'x registry \<times> 'x subagent" where
  "registry_create hex input s =
     (let sid = subagent_id hex;
          r = \<lparr> sr_id = sid, sr_taskName = uniqueTaskName s (ca_taskName input) sid,
                sr_depth = (case ca_depth input of Some d \<Rightarrow> d | None \<Rightarrow> 0), sr_prompt = ca_prompt input,
                sr_systemPrompt = ca_systemPrompt input, sr_allowedTools = ca_allowedTools input,
                sr_model = ca_model input, sr_status = SubPending, sr_startedAt = None, sr_endedAt = None,
                sr_output = None, sr_error = None, sr_turnCount = 0, sr_denied = None, sr_partial = None,
                sr_details = None \<rparr>
      in (evictTerminal (s\<lparr>rg_records := mset_at sid r (rg_records s), rg_names := List.insert (sr_taskName r) (rg_names s),
            rg_created := rg_created s + 1\<rparr>), r))"

definition settleRecord :: "jsstr \<Rightarrow> 'x subagent \<Rightarrow> 'x registry \<Rightarrow> 'x registry" where
  "settleRecord sid r s = evictTerminal (s\<lparr>rg_records := mset_at sid r (mdel sid (rg_records s))\<rparr>)"

definition override :: "'a option \<Rightarrow> 'a \<Rightarrow> 'a" where
  "override new old = (case new of Some x \<Rightarrow> x | None \<Rightarrow> old)"

definition assign_patch :: "'x record_patch \<Rightarrow> 'x subagent \<Rightarrow> 'x subagent" where
  "assign_patch p r =
     r\<lparr>sr_status := override (rp_status p) (sr_status r),
       sr_startedAt := override (rp_startedAt p) (sr_startedAt r),
       sr_endedAt := override (rp_endedAt p) (sr_endedAt r),
       sr_output := override (rp_output p) (sr_output r),
       sr_error := override (rp_error p) (sr_error r),
       sr_turnCount := override (rp_turnCount p) (sr_turnCount r),
       sr_denied := override (rp_denied p) (sr_denied r),
       sr_partial := override (rp_partial p) (sr_partial r),
       sr_details := override (rp_details p) (sr_details r)\<rparr>"

text \<open>The record object is mutated in place first; a terminal one then settles.\<close>

definition change_record :: "jsstr \<Rightarrow> ('x subagent \<Rightarrow> 'x subagent) \<Rightarrow> 'x registry \<Rightarrow> 'x registry \<times> 'x subagent option" where
  "change_record sid f s =
     (case mget (rg_records s) sid of
        None \<Rightarrow> (s, None)
      | Some r \<Rightarrow>
          let r' = f r; s1 = s\<lparr>rg_records := mset_at sid r' (rg_records s)\<rparr>
          in if terminal_status (sr_status r')
             then (settleRecord sid r'
                     (s1\<lparr>rg_settled := rg_settled s + (if terminal_status (sr_status r) then 0 else 1)\<rparr>), Some r')
             else (s1, Some r'))"

definition registry_update :: "jsstr \<Rightarrow> 'x record_patch \<Rightarrow> 'x registry \<Rightarrow> 'x registry \<times> 'x subagent option" where
  "registry_update sid p = change_record sid (assign_patch p)"

definition registry_setStatus :: "jsstr \<Rightarrow> subagent_status \<Rightarrow> 'x registry \<Rightarrow> 'x registry" where
  "registry_setStatus sid st s = fst (change_record sid (\<lambda>r. r\<lparr>sr_status := st\<rparr>) s)"

definition registry_get :: "'x registry \<Rightarrow> jsstr \<Rightarrow> 'x subagent option" where
  "registry_get s sid = mget (rg_records s) sid"

definition registry_list :: "'x registry \<Rightarrow> 'x subagent list" where
  "registry_list s = mvalues (rg_records s)"

definition registry_stats :: "'x registry \<Rightarrow> registry_stats" where
  "registry_stats s =
     (let terminal = length (terminal_records (rg_records s))
      in \<lparr> rs_created = rg_created s, rs_settled = rg_settled s, rs_evicted = rg_evicted s,
           rs_retained = length (rg_records s), rs_live = length (rg_records s) - terminal,
           rs_terminal = terminal \<rparr>)"

definition registry_remove :: "jsstr \<Rightarrow> 'x registry \<Rightarrow> 'x registry" where
  "registry_remove sid s =
     (case mget (rg_records s) sid of
        None \<Rightarrow> s\<lparr>rg_records := mdel sid (rg_records s)\<rparr>
      | Some r \<Rightarrow> s\<lparr>rg_names := removeAll (sr_taskName r) (rg_names s), rg_records := mdel sid (rg_records s)\<rparr>)"

definition registry_clear :: "'x registry \<Rightarrow> 'x registry" where
  "registry_clear s = s\<lparr>rg_records := [], rg_names := [], rg_created := 0, rg_settled := 0, rg_evicted := 0\<rparr>"


section \<open>Runs\<close>

datatype 'x registry_call =
    RgCreate jsstr create_args
  | RgUpdate jsstr "'x record_patch"
  | RgSetStatus jsstr subagent_status
  | RgRemove jsstr
  | RgClear

fun exec_registry :: "'x registry_call \<Rightarrow> 'x registry \<Rightarrow> 'x registry" where
  "exec_registry (RgCreate hex input) s = fst (registry_create hex input s)"
| "exec_registry (RgUpdate sid p) s = fst (registry_update sid p s)"
| "exec_registry (RgSetStatus sid st) s = registry_setStatus sid st s"
| "exec_registry (RgRemove sid) s = registry_remove sid s"
| "exec_registry RgClear s = registry_clear s"

text \<open>
  What the 64 random bits of an id give: the id is new, and neither it nor the name suffixed with it is
  in use as a task name.
\<close>

fun fresh_call :: "'x registry_call \<Rightarrow> 'x registry \<Rightarrow> bool" where
  "fresh_call (RgCreate hex input) s =
     (mget (rg_records s) (subagent_id hex) = None \<and> subagent_id hex \<notin> set (rg_names s) \<and>
      (case ca_taskName input of None \<Rightarrow> True | Some d \<Rightarrow> d @ js ''-'' @ hex \<notin> set (rg_names s)))"
| "fresh_call _ s = True"

inductive registry_step :: "'x registry \<Rightarrow> 'x registry \<Rightarrow> bool" where
  call: "fresh_call c s \<Longrightarrow> registry_step s (exec_registry c s)"

inductive_cases registry_stepE: "registry_step s t"

definition names_of :: "(jsstr, 'x subagent) jsmap \<Rightarrow> jsstr list" where
  "names_of m = map sr_taskName (mvalues m)"

definition registry_ok :: "'x registry \<Rightarrow> bool" where
  "registry_ok s \<longleftrightarrow>
     map_ok (rg_records s) \<and> list_all (\<lambda>(k, r). sr_id r = k) (rg_records s) \<and>
     length (terminal_records (rg_records s)) \<le> MAX_TERMINAL_RECORDS \<and>
     distinct (names_of (rg_records s)) \<and> set (rg_names s) = set (names_of (rg_records s)) \<and>
     length (rg_records s) + rg_evicted s \<le> rg_created s"

section \<open>Eviction\<close>

lemma names_of_map: "names_of m = map (sr_taskName \<circ> snd) m"
  by (simp add: names_of_def mvalues_def)

lemma terminal_records_Nil [simp]: "terminal_records [] = []"
  by (simp add: terminal_records_def mvalues_def)

lemma terminal_records_Cons: "terminal_records ((k, r) # m) =
    (if terminal_status (sr_status r) then r # terminal_records m else terminal_records m)"
  by (simp add: terminal_records_def mvalues_def)

lemma evict_loop_terminal: "evict_loop n m = (m', d) \<Longrightarrow>
    d = take n (terminal_records m) \<and> terminal_records m' = drop n (terminal_records m)"
proof (induction n m arbitrary: m' d rule: evict_loop.induct)
  case (3 n k r m)
  then show ?case by (auto simp: terminal_records_Cons split: prod.splits if_splits)
qed simp_all

lemma evict_loop_split: "evict_loop n m = (m', d) \<Longrightarrow> \<exists>dp. d = map snd dp \<and> mset m = mset m' + mset dp"
proof (induction n m arbitrary: m' d rule: evict_loop.induct)
  case (3 n k r m)
  show ?case
  proof (cases "terminal_status (sr_status r)")
    case True
    obtain m1 d1 where it: "evict_loop n m = (m1, d1)" by fastforce
    with 3(1) [OF True it] obtain dp where "d1 = map snd dp" "mset m = mset m1 + mset dp" by blast
    with 3(3) True it show ?thesis by (intro exI [of _ "(k, r) # dp"]) simp
  next
    case False
    obtain m1 d1 where it: "evict_loop (Suc n) m = (m1, d1)" by fastforce
    with 3(2) [OF False it] obtain dp where "d1 = map snd dp" "mset m = mset m1 + mset dp" by blast
    with 3(3) False it show ?thesis by (intro exI [of _ dp]) auto
  qed
qed simp_all

text \<open>The invariant without the cap, in terms of the bag of entries.\<close>

definition entries_wf :: "(jsstr, 'x subagent) jsmap \<Rightarrow> bool" where
  "entries_wf m \<longleftrightarrow> map_ok m \<and> list_all (\<lambda>(k, r). sr_id r = k) m \<and> distinct (names_of m)"

lemma entries_wf_perm: "mset m = mset m' \<Longrightarrow> entries_wf m \<Longrightarrow> entries_wf m'"
proof -
  assume eq: "mset m = mset m'" and wf: "entries_wf m"
  have "mset (mkeys m) = mset (mkeys m')" "mset (names_of m) = mset (names_of m')"
    using eq by (simp_all add: mkeys_def names_of_map)
  then show "entries_wf m'" using wf mset_eq_setD [OF eq] mset_eq_imp_distinct_iff
    unfolding entries_wf_def map_ok_def list_all_iff by metis
qed

lemma entries_wf_append: "entries_wf (m @ m') \<Longrightarrow> entries_wf m \<and> set (names_of m) \<inter> set (names_of m') = {}"
  by (auto simp: entries_wf_def map_ok_def mkeys_def names_of_map)

lemma names_fold: "set (fold (\<lambda>r ns. removeAll (sr_taskName r) ns) d ns) = set ns - sr_taskName ` set d"
  by (induction d arbitrary: ns) auto

definition registry_wf :: "'x registry \<Rightarrow> bool" where
  "registry_wf s \<longleftrightarrow>
     entries_wf (rg_records s) \<and> set (rg_names s) = set (names_of (rg_records s)) \<and>
     length (rg_records s) + rg_evicted s \<le> rg_created s"

lemma registry_ok_wf: "registry_ok s \<longleftrightarrow>
    registry_wf s \<and> length (terminal_records (rg_records s)) \<le> MAX_TERMINAL_RECORDS"
  by (auto simp: registry_ok_def registry_wf_def entries_wf_def)

lemma evict_ok:
  assumes "registry_wf s"
  shows "registry_ok (evictTerminal s)"
proof (cases "length (terminal_records (rg_records s)) \<le> MAX_TERMINAL_RECORDS")
  case True
  then show ?thesis using assms by (simp add: registry_ok_wf evictTerminal_def)
next
  case False
  let ?n = "length (terminal_records (rg_records s)) - MAX_TERMINAL_RECORDS"
  obtain m d where ev: "evict_loop ?n (rg_records s) = (m, d)" by fastforce
  obtain dp where dp: "d = map snd dp" "mset (rg_records s) = mset (m @ dp)"
    using evict_loop_split [OF ev] by auto
  have wf: "entries_wf (m @ dp)"
    using assms entries_wf_perm [OF dp(2)] by (simp add: registry_wf_def)
  have names: "set (names_of (rg_records s)) = set (names_of m) \<union> sr_taskName ` set d"
    using mset_eq_setD [OF dp(2)] dp(1) by (auto simp: names_of_map image_image)
  have disj: "set (names_of m) \<inter> sr_taskName ` set d = {}"
    using entries_wf_append [OF wf] dp(1) by (auto simp: names_of_map)
  have len: "length (rg_records s) = length m + length d"
    using mset_eq_length [OF dp(2)] dp(1) by simp
  have st: "evictTerminal s = s\<lparr>rg_records := m, rg_names := fold (\<lambda>r ns. removeAll (sr_taskName r) ns) d (rg_names s),
      rg_evicted := rg_evicted s + length d, rg_hooked := rg_hooked s @ d\<rparr>"
    using False ev by (simp add: evictTerminal_def Let_def)
  have "set (rg_names (evictTerminal s)) = set (names_of m)"
    using names disj assms by (auto simp: st names_fold registry_wf_def)
  moreover have "length (terminal_records m) \<le> MAX_TERMINAL_RECORDS"
    using evict_loop_terminal [OF ev] False by simp
  ultimately show ?thesis using entries_wf_append [OF wf] len assms
    by (simp add: registry_ok_wf registry_wf_def st)
qed

lemma evict_keeps_live:
  assumes "(k, r) \<in> set (rg_records s)" "\<not> terminal_status (sr_status r)"
  shows "(k, r) \<in> set (rg_records (evictTerminal s))"
proof -
  let ?n = "length (terminal_records (rg_records s)) - MAX_TERMINAL_RECORDS"
  obtain m d where ev: "evict_loop ?n (rg_records s) = (m, d)" by fastforce
  obtain dp where dp: "d = map snd dp" "mset (rg_records s) = mset (m @ dp)"
    using evict_loop_split [OF ev] by auto
  have "set d \<subseteq> set (terminal_records (rg_records s))"
    using evict_loop_terminal [OF ev] by (simp add: set_take_subset)
  then have "r \<notin> set d" using assms(2) by (auto simp: terminal_records_def)
  then have "(k, r) \<notin> set dp" using dp(1) by force
  then have "(k, r) \<in> set m" using mset_eq_setD [OF dp(2)] assms(1) by auto
  then show ?thesis using assms(1) ev by (auto simp: evictTerminal_def Let_def)
qed

text \<open>The last entry survives an eviction: at most the older ones are over the cap.\<close>

lemma evict_loop_last:
  "n < length (terminal_records (m @ [e])) \<Longrightarrow> e \<in> set (fst (evict_loop n (m @ [e])))"
proof (induction n m rule: evict_loop.induct)
  case (2 n)
  then show ?case by (cases e) (auto simp: terminal_records_Cons split: if_splits)
next
  case (3 n k r m)
  then show ?case by (auto simp: terminal_records_Cons split: prod.splits if_splits)
qed simp_all

lemma evict_keeps_last:
  assumes "rg_records s = m @ [e]"
  shows "e \<in> set (rg_records (evictTerminal s))"
proof (cases "length (terminal_records (rg_records s)) \<le> MAX_TERMINAL_RECORDS")
  case False
  then have "e \<in> set (fst (evict_loop (length (terminal_records (rg_records s)) - MAX_TERMINAL_RECORDS) (m @ [e])))"
    by (intro evict_loop_last) (simp add: assms MAX_TERMINAL_RECORDS_def)
  then show ?thesis using False assms by (auto simp: evictTerminal_def Let_def split: prod.split)
qed (simp add: evictTerminal_def assms)

section \<open>Every call keeps the invariant\<close>

lemma mset_split: "map_ok m \<Longrightarrow> mget m k = Some r \<Longrightarrow> mset m = add_mset (k, r) (mset (mdel k m))"
proof (induction m)
  case (Cons e m)
  show ?case
  proof (cases "fst e = k")
    case True
    then have "e = (k, r)" using Cons.prems(2) by (cases e) (simp add: mget_def)
    then show ?thesis using mdel_hd [OF Cons.prems(1)] by simp
  next
    case False
    then show ?thesis using Cons by (cases e) (simp add: mget_def mdel_def map_ok_def mkeys_def)
  qed
qed simp

lemma mdel_overwrite: "mdel k (map (\<lambda>(a, b). if a = k then (a, v) else (a, b)) m) = mdel k m"
  by (induction m) (auto simp: mdel_def)

lemma mdel_mset_at: "mdel k (mset_at k v m) = mdel k m"
  by (simp add: mset_at_def mdel_overwrite) (simp add: mdel_def)

lemma mset_replace: "map_ok m \<Longrightarrow> mset (mset_at k v m) = add_mset (k, v) (mset (mdel k m))"
  using mset_split [of "mset_at k v m" k v] by (simp add: mdel_mset_at)

lemma mset_move: "mset (mset_at k v (mdel k m)) = add_mset (k, v) (mset (mdel k m))"
  by (simp add: mset_at_mdel)

lemma entries_wf_swap:
  assumes "entries_wf m" "mget m k = Some r" "sr_id r' = sr_id r" "sr_taskName r' = sr_taskName r"
    and "mset m' = add_mset (k, r') (mset (mdel k m))"
  shows "entries_wf m' \<and> set (names_of m') = set (names_of m) \<and> length m' = length m"
proof -
  have split: "mset m = mset ((k, r) # mdel k m)"
    using mset_split [of m k r] assms(1,2) by (simp add: entries_wf_def)
  have "entries_wf ((k, r) # mdel k m)" by (rule entries_wf_perm [OF split assms(1)])
  then have "entries_wf ((k, r') # mdel k m)"
    using assms(3,4) by (simp add: entries_wf_def names_of_map map_ok_def mkeys_def)
  then have "entries_wf m'" by (rule entries_wf_perm [rotated]) (simp add: assms(5))
  moreover have "set m' = insert (k, r') (set (mdel k m))" "set m = insert (k, r) (set (mdel k m))"
    using mset_eq_setD [of m' "(k, r') # mdel k m"] mset_eq_setD [OF split] assms(5) by simp_all
  moreover have "length m' = length m"
    using mset_eq_length [of m' "(k, r') # mdel k m"] mset_eq_length [OF split] assms(5) by simp
  ultimately show ?thesis using assms(4) by (simp add: names_of_map)
qed

lemma terminal_records_perm: "mset m = mset m' \<Longrightarrow> length (terminal_records m) = length (terminal_records m')"
proof -
  assume "mset m = mset m'"
  then have "mset (terminal_records m) = mset (terminal_records m')"
    by (simp add: terminal_records_def mvalues_def)
  then show ?thesis by (rule mset_eq_length)
qed

lemma change_record_ok:
  assumes ok: "registry_ok s" and same: "\<And>r. sr_id (f r) = sr_id r" "\<And>r. sr_taskName (f r) = sr_taskName r"
  shows "registry_ok (fst (change_record k f s))"
proof (cases "mget (rg_records s) k")
  case None
  then show ?thesis using ok by (simp add: change_record_def)
next
  case (Some r)
  have wf: "registry_wf s" and mok: "map_ok (rg_records s)" using ok by (simp_all add: registry_ok_wf registry_wf_def entries_wf_def)
  have swap: "entries_wf m' \<and> set (names_of m') = set (names_of (rg_records s)) \<and> length m' = length (rg_records s)"
    if "mset m' = add_mset (k, f r) (mset (mdel k (rg_records s)))" for m'
    using entries_wf_swap [OF _ Some same that] wf by (simp add: registry_wf_def)
  show ?thesis
  proof (cases "terminal_status (sr_status (f r))")
    case True
    then show ?thesis
      using Some wf swap [OF mset_move]
      by (simp add: change_record_def Let_def settleRecord_def mdel_mset_at)
         (intro conjI impI evict_ok; simp add: registry_wf_def)
  next
    case False
    have "mset (rg_records s) = mset ((k, r) # mdel k (rg_records s))" using mset_split [OF mok Some] by simp
    then have "length (terminal_records (mset_at k (f r) (rg_records s))) \<le> length (terminal_records (rg_records s))"
      using terminal_records_perm [of "mset_at k (f r) (rg_records s)" "(k, f r) # mdel k (rg_records s)"]
        terminal_records_perm [of "rg_records s" "(k, r) # mdel k (rg_records s)"] mset_replace [OF mok, of k "f r"] False
      by (simp add: terminal_records_Cons)
    then show ?thesis using Some ok wf swap [OF mset_replace [OF mok]] False
      by (simp add: change_record_def Let_def registry_ok_wf registry_wf_def)
  qed
qed

lemma create_ok:
  assumes "registry_ok s" "fresh_call (RgCreate hex input) s"
  shows "registry_ok (fst (registry_create hex input s))"
proof -
  let ?sid = "subagent_id hex"
  have sid: "drop 4 ?sid = hex" by (simp add: subagent_id_def js_def)
  have new: "uniqueTaskName s (ca_taskName input) ?sid \<notin> set (names_of (rg_records s))"
    using assms sid by (auto simp: uniqueTaskName_def registry_ok_def split: option.split)
  have "mget (rg_records s) ?sid = None" using assms(2) by simp
  then have app: "mset_at ?sid r (rg_records s) = rg_records s @ [(?sid, r)]" for r
    by (simp add: mset_at_def mhas_mget)
  have key: "?sid \<notin> fst ` set (rg_records s)"
    using assms(2) by (simp add: mget_def map_of_eq_None_iff)
  show ?thesis using assms(1) new key unfolding registry_create_def Let_def fst_conv app
    by (intro evict_ok)
       (auto simp: registry_ok_wf registry_wf_def entries_wf_def names_of_map map_ok_def mkeys_def)
qed

lemma remove_ok:
  assumes "registry_ok s"
  shows "registry_ok (registry_remove k s)"
proof (cases "mget (rg_records s) k")
  case None
  then have "mdel k (rg_records s) = rg_records s" by (simp add: mdel_absent mhas_mget)
  then show ?thesis using None assms by (simp add: registry_remove_def registry_ok_def)
next
  case (Some r)
  have wf: "registry_wf s" using assms by (simp add: registry_ok_wf)
  have split: "mset (rg_records s) = mset ((k, r) # mdel k (rg_records s))"
    using mset_split [OF _ Some] assms by (simp add: registry_ok_def)
  have wf2: "entries_wf ((k, r) # mdel k (rg_records s))"
    by (rule entries_wf_perm [OF split]) (use wf in \<open>simp add: registry_wf_def\<close>)
  have "set (names_of (rg_records s)) = insert (sr_taskName r) (set (names_of (mdel k (rg_records s))))"
    using mset_eq_setD [OF split] by (simp add: names_of_map)
  moreover have "length (rg_records s) = Suc (length (mdel k (rg_records s)))"
    using mset_eq_length [OF split] by simp
  moreover have "length (terminal_records (mdel k (rg_records s))) \<le> length (terminal_records (rg_records s))"
    using terminal_records_perm [OF split] by (simp add: terminal_records_Cons)
  ultimately show ?thesis using Some wf2 assms wf
    by (auto simp: registry_remove_def registry_ok_wf registry_wf_def entries_wf_def names_of_map map_ok_def mkeys_def)
qed

lemma exec_registry_ok: "registry_ok s \<Longrightarrow> fresh_call c s \<Longrightarrow> registry_ok (exec_registry c s)"
proof (cases c)
  case (RgUpdate k p)
  assume "registry_ok s"
  then show ?thesis using RgUpdate by (simp add: registry_update_def change_record_ok assign_patch_def)
next
  case (RgSetStatus k st)
  assume "registry_ok s"
  then show ?thesis using RgSetStatus by (simp add: registry_setStatus_def change_record_ok)
next
  case RgClear
  then show ?thesis by (simp add: registry_clear_def registry_ok_def names_of_map)
qed (use create_ok remove_ok in auto)

lemma new_registry_ok: "registry_ok new_registry"
  by (simp add: new_registry_def registry_ok_def names_of_map)

interpretation registry_system: transition_system "\<lambda>s. s = new_registry" registry_step registry_ok
  by unfold_locales (auto simp: new_registry_ok exec_registry_ok elim: registry_stepE)

section \<open>Properties\<close>

text \<open>A subagent registry stays consistent through any calls that draw fresh ids: every record sits
  under its own id, task names are pairwise distinct and mirrored exactly by the set used for collision
  checks, at most 64 terminal records are kept, and the records kept plus those evicted never exceed
  those created.\<close>

theorem registry_consistent:
  assumes "registry_step\<^sup>*\<^sup>* new_registry s"
  shows "registry_ok s"
  using assms by (rule registry_system.inv_reach) simp

definition sample_create :: create_args where
  "sample_create = \<lparr> ca_prompt = [], ca_systemPrompt = None, ca_allowedTools = None, ca_model = None,
     ca_taskName = Some [97], ca_depth = None \<rparr>"

theorem registry_consistent_witness:
  "registry_ok (exec_registry (RgCreate [50] sample_create) (exec_registry (RgCreate [49] sample_create) (new_registry :: int registry))) \<and>
   map sr_taskName (registry_list (exec_registry (RgCreate [50] sample_create)
     (exec_registry (RgCreate [49] sample_create) (new_registry :: int registry)))) = [[97], [97, 45, 50]]"
proof -
  let ?s1 = "exec_registry (RgCreate [49] sample_create) (new_registry :: int registry)"
  have "registry_step new_registry ?s1" by (intro registry_step.call) code_simp
  moreover have "registry_step ?s1 (exec_registry (RgCreate [50] sample_create) ?s1)" by (intro registry_step.call) code_simp
  ultimately have "registry_step\<^sup>*\<^sup>* new_registry (exec_registry (RgCreate [50] sample_create) ?s1)" by simp
  moreover have "map sr_taskName (registry_list (exec_registry (RgCreate [50] sample_create) ?s1)) = [[97], [97, 45, 50]]"
    by code_simp
  ultimately show ?thesis using registry_consistent by blast
qed

lemma change_record_other:
  assumes "registry_ok s" "k \<noteq> k'" "mget (rg_records s) k' = Some r" "\<not> terminal_status (sr_status r)"
    and same: "\<And>r. sr_id (f r) = sr_id r" "\<And>r. sr_taskName (f r) = sr_taskName r"
  shows "mget (rg_records (fst (change_record k f s))) k' = Some r"
proof -
  have ok: "map_ok (rg_records (fst (change_record k f s)))"
    using change_record_ok [OF assms(1) same] by (simp add: registry_ok_def)
  have mok: "map_ok (rg_records s)" using assms(1) by (simp add: registry_ok_def)
  have evict: "(k', r) \<in> set (rg_records (evictTerminal s'))" if "mget (rg_records s') k' = Some r" for s'
    using evict_keeps_live [OF mget_Some_in [OF that] assms(4)] .
  have "(k', r) \<in> set (rg_records (fst (change_record k f s)))"
    using assms(2,3) evict mget_Some_in [of "mset_at k r' (rg_records s)" k' r for r']
    by (auto simp: change_record_def Let_def settleRecord_def mget_Some_in split: option.split)
  then show ?thesis using mget_in [OF ok] by blast
qed

text \<open>The calls that concern the record with the given id.\<close>

fun touches :: "jsstr \<Rightarrow> 'x registry_call \<Rightarrow> bool" where
  "touches k (RgCreate hex input) = False"
| "touches k (RgUpdate k' p) = (k' = k)"
| "touches k (RgSetStatus k' st) = (k' = k)"
| "touches k (RgRemove k') = (k' = k)"
| "touches k RgClear = True"

lemma create_other:
  assumes "registry_ok s" "fresh_call (RgCreate hex input) s" "mget (rg_records s) k = Some r" "\<not> terminal_status (sr_status r)"
  shows "mget (rg_records (fst (registry_create hex input s))) k = Some r"
proof -
  have ok: "map_ok (rg_records (fst (registry_create hex input s)))"
    using create_ok [OF assms(1,2)] by (simp add: registry_ok_def)
  have ne: "k \<noteq> subagent_id hex" using assms(2,3) by auto
  have "(k, r) \<in> set (rg_records (fst (registry_create hex input s)))"
    unfolding registry_create_def Let_def fst_conv
    by (rule evict_keeps_live [OF mget_Some_in]) (use assms(3,4) ne in simp_all)
  then show ?thesis using mget_in [OF ok] by blast
qed

text \<open>A live subagent is never lost to eviction: whatever is created, changed, settled or removed
  elsewhere, a pending or running record stays in the registry unchanged.\<close>

theorem live_records_survive:
  assumes "registry_ok s" "fresh_call c s" "\<not> touches k c"
    and "registry_get s k = Some r" "\<not> terminal_status (sr_status r)"
  shows "registry_get (exec_registry c s) k = Some r"
proof (cases c)
  case (RgCreate hex input)
  then show ?thesis using assms create_other [of s hex input k r] by (simp add: registry_get_def)
next
  case (RgUpdate k' p)
  then show ?thesis using assms change_record_other [of s k' k r "assign_patch p"]
    by (simp add: registry_get_def registry_update_def assign_patch_def)
next
  case (RgSetStatus k' st)
  then show ?thesis using assms change_record_other [of s k' k r "\<lambda>r. r\<lparr>sr_status := st\<rparr>"]
    by (simp add: registry_get_def registry_setStatus_def)
next
  case (RgRemove k')
  then show ?thesis using assms by (simp add: registry_get_def registry_remove_def split: option.split)
next
  case RgClear
  then show ?thesis using assms(3) by simp
qed

theorem live_records_survive_witness:
  "registry_get (exec_registry (RgSetStatus (subagent_id [49]) SubFailed)
     (exec_registry (RgCreate [50] sample_create) (exec_registry (RgCreate [49] sample_create) (new_registry :: int registry))))
     (subagent_id [50]) \<noteq> None"
proof -
  let ?s = "exec_registry (RgCreate [50] sample_create) (exec_registry (RgCreate [49] sample_create) (new_registry :: int registry))"
  have ok: "registry_ok ?s" by code_simp
  obtain r where r: "registry_get ?s (subagent_id [50]) = Some r" "\<not> terminal_status (sr_status r)"
  proof -
    have "case registry_get ?s (subagent_id [50]) of Some r \<Rightarrow> \<not> terminal_status (sr_status r) | None \<Rightarrow> False" by code_simp
    then show ?thesis using that by (auto split: option.splits)
  qed
  have "\<not> touches (subagent_id [50]) (RgSetStatus (subagent_id [49]) SubFailed :: int registry_call)" by code_simp
  from live_records_survive [OF ok _ this r] show ?thesis by simp
qed

text \<open>A settlement is never lost to the cap: the record an update makes terminal is still in the registry
  afterwards, with its final contents, even when the cap forces older ones out.\<close>

theorem settled_record_kept:
  assumes "registry_ok s" "registry_update k p s = (s', Some r)" "terminal_status (sr_status r)"
  shows "registry_get s' k = Some r"
proof -
  obtain r0 where r0: "mget (rg_records s) k = Some r0" "r = assign_patch p r0"
    using assms(2) by (auto simp: registry_update_def change_record_def Let_def split: option.splits if_splits)
  have "registry_ok s'" using change_record_ok [OF assms(1), of "assign_patch p" k] assms(2)
    by (simp add: registry_update_def assign_patch_def)
  then have ok: "map_ok (rg_records s')" by (simp add: registry_ok_def)
  obtain s1 where s1: "s' = evictTerminal s1" "rg_records s1 = mdel k (rg_records s) @ [(k, r)]"
    using assms(2,3) r0
    by (auto simp: registry_update_def change_record_def Let_def settleRecord_def mset_at_mdel mdel_mset_at)
  have "(k, r) \<in> set (rg_records s')" using evict_keeps_last [OF s1(2)] s1(1) by simp
  then show ?thesis using mget_in [OF ok] by (simp add: registry_get_def)
qed

definition settle_patch :: "int record_patch" where
  "settle_patch = \<lparr> rp_status = Some SubCompleted, rp_startedAt = None, rp_endedAt = Some (Some 9), rp_output = None,
     rp_error = None, rp_turnCount = None, rp_denied = None, rp_partial = None, rp_details = None \<rparr>"

theorem settled_record_kept_witness:
  "registry_get (fst (registry_update (subagent_id [49]) settle_patch (exec_registry (RgCreate [49] sample_create) new_registry)))
     (subagent_id [49]) \<noteq> None"
proof -
  let ?s = "exec_registry (RgCreate [49] sample_create) (new_registry :: int registry)"
  have ok: "registry_ok ?s" by code_simp
  obtain s' r where u: "registry_update (subagent_id [49]) settle_patch ?s = (s', Some r)" "terminal_status (sr_status r)"
  proof -
    have "case registry_update (subagent_id [49]) settle_patch ?s of (s', q) \<Rightarrow>
        (case q of Some r \<Rightarrow> terminal_status (sr_status r) | None \<Rightarrow> False)" by code_simp
    then show ?thesis using that by (auto split: prod.splits option.splits)
  qed
  from settled_record_kept [OF ok u] u(1) show ?thesis by simp
qed

text \<open>The suffixed name is not itself checked against the names in use: without fresh ids two records can
  share a task name.\<close>

lemma suffixed_name_can_collide:
  "map sr_taskName (registry_list (exec_registry (RgCreate [50] sample_create)
     (exec_registry (RgCreate [49] (sample_create\<lparr>ca_taskName := Some [97, 45, 50]\<rparr>))
       (exec_registry (RgCreate [48] sample_create) (new_registry :: int registry))))) = [[97], [97, 45, 50], [97, 45, 50]]"
  by code_simp

end
