(* ===== verification/Permissions.thy ===== *)
theory Permissions
  imports PathMatch Surrogate
begin

text \<open>
  The permission checker (core/permissions/types.ts, side-effect.ts, checker.ts): modes, settings, the
  built-in deny floor, the classification of a tool call as a read, a write, a command or an opaque tool,
  and the decision chain. The lemmas show which calls each mode lets through, that explicit denials and
  the deny floor win, that no spelling of a path argument escapes the floor, and how the modes that swap
  the final decision relate to plain auto.
\<close>


section \<open>Modes and rules\<close>

datatype permission_mode = ModeAuto | ModePlan | ModeAsk | ModeConfirm

definition PERMISSION_MODES :: "permission_mode list" where
  "PERMISSION_MODES = [ModePlan, ModeAsk, ModeConfirm, ModeAuto]"

text \<open>\<open>None\<close> is any value that is not one of the four names.\<close>

definition normalizePermissionMode :: "jsstr option \<Rightarrow> permission_mode option" where
  "normalizePermissionMode v =
     (if v = Some (js ''auto'') then Some ModeAuto else if v = Some (js ''plan'') then Some ModePlan
      else if v = Some (js ''ask'') then Some ModeAsk else if v = Some (js ''confirm'') then Some ModeConfirm
      else None)"

record permission_settings =
  ps_mode :: "permission_mode option"
  ps_allowlistOnly :: bool
  ps_allowPaths :: "path_rule list option"
  ps_allowCommands :: "command_rule list option"
  ps_denyPaths :: "path_rule list option"
  ps_denyCommands :: "command_rule list option"
  ps_allowTools :: "jsstr list option"
  ps_denyTools :: "jsstr list option"
  ps_disableBuiltinDefaults :: bool

datatype decision = Allow | Deny jsstr | Confirm jsstr

datatype action =
    ARead (act_tool: jsstr) (act_paths: "jsstr list")
  | AWrite (act_tool: jsstr) (act_paths: "jsstr list")
  | AExec (act_tool: jsstr) (act_command: jsstr)
  | ATool (act_tool: jsstr)

definition sensitive_rule :: "string \<Rightarrow> string \<Rightarrow> path_rule" where
  "sensitive_rule glob reason = \<lparr> pr_glob = js glob, pr_tools = None, pr_reason = Some (js reason) \<rparr>"

definition BUILTIN_SENSITIVE_PATHS :: "path_rule list" where
  "BUILTIN_SENSITIVE_PATHS =
     [sensitive_rule ''**/.env'' ''Secrets file'',
      sensitive_rule ''**/.env.*'' ''Secrets file'',
      sensitive_rule ''**/.git/config'' ''Git config (may contain credentials)'',
      sensitive_rule ''**/.ssh/**'' ''SSH keys'',
      sensitive_rule ''**/.aws/credentials'' ''AWS credentials'',
      sensitive_rule ''**/.npmrc'' ''May contain auth tokens'',
      sensitive_rule ''**/id_rsa'' ''SSH private key'',
      sensitive_rule ''**/id_ed25519'' ''SSH private key'']"

definition RM_FLAG :: string where
  "RM_FLAG = ''--?[a-zA-Z][a-zA-Z-]{0,12}''"

definition RM_RECURSIVE_FLAG :: string where
  "RM_RECURSIVE_FLAG = ''(?:-[a-zA-Z]{0,8}r[a-zA-Z]{0,8}|--recursive)''"

definition RM_FLAGS_WITH_RECURSIVE :: string where
  "RM_FLAGS_WITH_RECURSIVE =
     ''(?:'' @ RM_FLAG @ ''%s{1,3}){0,3}'' @ RM_RECURSIVE_FLAG @ ''(?:%s{1,3}'' @ RM_FLAG @ ''){0,3}''"

definition builtin_command :: "string \<Rightarrow> string \<Rightarrow> command_rule" where
  "builtin_command pattern reason =
     \<lparr> cr_pattern = rx_source pattern, cr_flags = None, cr_reason = Some (js reason) \<rparr>"

definition builtin_rm :: "string \<Rightarrow> string \<Rightarrow> command_rule" where
  "builtin_rm target reason = builtin_command (''%brm%s+'' @ RM_FLAGS_WITH_RECURSIVE @ target) reason"

definition BUILTIN_DANGEROUS_COMMANDS :: "command_rule list" where
  \<open>BUILTIN_DANGEROUS_COMMANDS =
     [builtin_rm ''%s{1,3}(?:--%s{1,3})?/[*.]?(?:%s|$)''
        ''Recursive rm of /'',
      builtin_rm ''%s{1,3}(?:--%s{1,3})?~(?:/(?:%s|$)|%s|$)''
        ''Recursive rm of $HOME'',
      builtin_rm ''%s{1,3}(?:--%s{1,3})?%$%{?HOME%}?(?:/(?:%s|$)|%s|$)''
        ''Recursive rm of $HOME'',
      builtin_command '':%(%)%s*%{%s*:%s*%|%s*:&%s*%};:''
        ''Fork bomb'',
      builtin_command ''(?:^|[;&|]%s{0,3})(?:sudo%s{1,3})?(?:mkfs|dd%s{1,3}if=[^;&|]{0,80}of=/dev/)''
        ''Disk-destroying command'',
      builtin_command ''(?:^|[;&|]%s{0,3})(?:sudo%s{1,3})?chmod%s{1,3}-R%s{1,3}777%s{1,3}/''
        ''Recursive world-writable on root'',
      builtin_command ''%b(?:remove-item|ri|rm)%b(?=[^;&|]*%s-(?:r(?:ec(?:urse)?)?|fo(?:rce)?)%b)[^;&|]*%s["\']?(?:[a-z]:[%%/]{0,2}|/|~)["\']?%s*(?:$|[;&|])''
        ''Recursive Remove-Item of a drive root, / or $HOME'',
      builtin_command ''%b(?:rd|rmdir|del)%b(?=[^;&|]*%s/s%b)[^;&|]*%s["\']?[a-z]:[%%/]{0,2}%*?["\']?%s*(?:$|[;&|])''
        ''Recursive delete of a drive root (cmd)'',
      builtin_command ''(?:^|[;&|]%s{0,3})(?:sudo%s{1,3})?(?:format-volume|clear-disk)%b''
        ''Disk-destroying command (PowerShell)'',
      builtin_command ''(?:^|[;&|]%s{0,3})(?:sudo%s{1,3})?format%s{1,3}[a-z]:(?:%s|$)''
        ''Formatting a drive'',
      builtin_command ''(?:^|[;&|]%s{0,3})(?:sudo%s{1,3})?aws%s{1,3}s3%s{1,3}rm%s(?=[^;&|]{0,120}--recursive%b)[^;&|]{0,120}s3://[a-z0-9][a-z0-9.-]{1,61}/?(?:%s|$)''
        ''Recursive delete of an S3 bucket root'',
      builtin_command ''(?:^|[;&|]%s{0,3})(?:sudo%s{1,3})?aws%s{1,3}s3%s{1,3}rb%b(?=[^;&|]{0,120}--force%b)''
        ''Force-deleting an S3 bucket'',
      builtin_command ''(?:^|[;&|]%s{0,3})(?:sudo%s{1,3})?kubectl%s[^;&|]{0,60}delete%s{1,3}(?:namespaces?|ns)%b''
        ''Deleting a Kubernetes namespace'',
      builtin_command ''(?:^|[;&|]%s{0,3})(?:sudo%s{1,3})?kubectl%s[^;&|]{0,60}delete%b(?=[^;&|]{0,120}%s--all-namespaces%b)''
        ''Cluster-wide kubectl delete'',
      builtin_command ''(?:^|[;&|]%s{0,3})(?:sudo%s{1,3})?dropdb%b''
        ''Dropping a database'',
      builtin_command ''(?:^|[;&|]%s{0,3})(?:sudo%s{1,3})?(?:psql|mysql|mariadb|sqlite3|mongosh)%s[^;&|]{0,160}%bdrop%s{1,3}(?:database|schema)%b''
        ''Dropping a database/schema'',
      builtin_command ''(?:^|[;&|]%s{0,3})(?:sudo%s{1,3})?terraform%s{1,3}destroy%b(?=[^;&|]{0,120}-auto-approve%b)''
        ''Unattended terraform destroy'']\<close>


section \<open>Side effects\<close>

text \<open>
  \<open>SeInherited\<close> is what an object lookup gives for a name the object inherits (\<open>constructor\<close>,
  \<open>toString\<close>, ...): a value that is neither \<open>undefined\<close> nor one of the five names.
\<close>

datatype side_effect = SeNone | SeWorkspace | SeAgent | SeExec | SeOpaque | SeInherited

definition PLAN_BLOCKING :: "side_effect list" where
  "PLAN_BLOCKING = [SeWorkspace, SeAgent, SeExec, SeOpaque]"

definition isPlanBlockingSideEffect :: "side_effect option \<Rightarrow> bool" where
  "isPlanBlockingSideEffect se = (case se of None \<Rightarrow> False | Some s \<Rightarrow> s \<in> set PLAN_BLOCKING)"

definition EXTENSION_TOOL_SIDE_EFFECTS :: "(jsstr \<times> side_effect) list" where
  "EXTENSION_TOOL_SIDE_EFFECTS =
     [(js ''task'', SeAgent), (js ''parallel'', SeAgent), (js ''fanout'', SeAgent),
      (js ''exit_plan'', SeNone), (js ''memory_append'', SeWorkspace)]"

definition BUILTIN_TOOL_SIDE_EFFECTS :: "(jsstr \<times> side_effect) list" where
  "BUILTIN_TOOL_SIDE_EFFECTS =
     [(js ''read'', SeNone), (js ''bash'', SeExec), (js ''edit'', SeWorkspace),
      (js ''edit_v2'', SeWorkspace), (js ''write'', SeWorkspace), (js ''undo'', SeWorkspace),
      (js ''grep'', SeNone), (js ''find'', SeNone), (js ''ls'', SeNone), (js ''symbol'', SeNone),
      (js ''find_symbol'', SeNone), (js ''repo_map'', SeNone),
      (js ''security_surface_map'', SeNone), (js ''security_static_scan'', SeNone),
      (js ''security_http_replay_diff'', SeExec), (js ''security_validate_finding'', SeNone),
      (js ''security_evidence'', SeAgent), (js ''search_skills'', SeNone), (js ''ask'', SeNone),
      (js ''resolve'', SeAgent), (js ''search_tool_bm25'', SeNone), (js ''ast_grep'', SeNone),
      (js ''ast_edit'', SeWorkspace), (js ''web_search'', SeNone), (js ''web_fetch'', SeNone),
      (js ''eval'', SeExec), (js ''code'', SeExec), (js ''retain'', SeAgent),
      (js ''recall'', SeNone), (js ''reflect'', SeNone), (js ''forget'', SeAgent),
      (js ''calc'', SeNone), (js ''recipe'', SeExec), (js ''inspect_image'', SeNone),
      (js ''render_mermaid'', SeNone), (js ''goal_complete'', SeAgent), (js ''todo'', SeNone),
      (js ''plan'', SeNone), (js ''pin'', SeNone), (js ''lsp'', SeNone), (js ''debug'', SeExec),
      (js ''chrome_devtools_list_pages'', SeNone), (js ''chrome_devtools_select_page'', SeNone),
      (js ''chrome_devtools_navigate'', SeWorkspace),
      (js ''chrome_devtools_close_page'', SeWorkspace), (js ''chrome_devtools_evaluate'', SeExec),
      (js ''chrome_devtools_screenshot'', SeNone), (js ''chrome_devtools_read_console'', SeNone),
      (js ''chrome_devtools_read_network'', SeNone), (js ''chrome_devtools_click'', SeWorkspace),
      (js ''chrome_devtools_fill'', SeWorkspace), (js ''chrome_devtools_press_key'', SeWorkspace),
      (js ''chrome_devtools_get_text'', SeNone), (js ''chrome_devtools_wait_for'', SeNone),
      (js ''chrome_devtools_hover'', SeWorkspace),
      (js ''chrome_devtools_select_option'', SeWorkspace),
      (js ''chrome_devtools_upload_file'', SeWorkspace), (js ''chrome_devtools_snapshot'', SeNone),
      (js ''chrome_devtools_get_network_body'', SeNone),
      (js ''chrome_devtools_element_to_source'', SeNone), (js ''preview'', SeExec),
      (js ''recall_tool_output'', SeNone), (js ''recall_history'', SeNone)] @ EXTENSION_TOOL_SIDE_EFFECTS"

definition OBJECT_PROTOTYPE_NAMES :: "jsstr list" where
  "OBJECT_PROTOTYPE_NAMES =
     [js ''constructor'', js ''__defineGetter__'', js ''__defineSetter__'', js ''hasOwnProperty'',
      js ''__lookupGetter__'', js ''__lookupSetter__'', js ''isPrototypeOf'', js ''propertyIsEnumerable'',
      js ''toString'', js ''valueOf'', js ''__proto__'', js ''toLocaleString'']"

definition builtin_side_effect :: "jsstr \<Rightarrow> side_effect option" where
  "builtin_side_effect toolName =
     (case map_of BUILTIN_TOOL_SIDE_EFFECTS toolName of
        Some se \<Rightarrow> Some se
      | None \<Rightarrow> if toolName \<in> set OBJECT_PROTOTYPE_NAMES then Some SeInherited else None)"

definition side_effect_text :: "side_effect \<Rightarrow> jsstr" where
  "side_effect_text se =
     (case se of SeNone \<Rightarrow> js ''none'' | SeWorkspace \<Rightarrow> js ''workspace'' | SeAgent \<Rightarrow> js ''agent''
      | SeExec \<Rightarrow> js ''exec'' | SeOpaque \<Rightarrow> js ''opaque'' | SeInherited \<Rightarrow> js ''[native]'')"

definition COORDINATOR_TOOL_NAMES :: "jsstr list" where
  "COORDINATOR_TOOL_NAMES = [js ''task'', js ''parallel'', js ''fanout'']"


section \<open>The checker's state\<close>

text \<open>
  \<open>pc_ctx_effect\<close> is the optional live lookup of the context, \<open>pc_overrides\<close> the session's registry, and
  \<open>pc_resolver\<close> the host resolver (here: its answer for a call, \<open>None\<close> when it throws or is absent).
\<close>

record checker =
  pc_cwd :: jsstr
  pc_mode :: permission_mode
  pc_settings :: permission_settings
  pc_ctx_effect :: "jsstr \<Rightarrow> side_effect option"
  pc_overrides :: "(jsstr, side_effect) jsmap"
  pc_resolver :: "jsstr \<Rightarrow> bool \<Rightarrow> bool option"

definition updateMode :: "permission_mode \<Rightarrow> checker \<Rightarrow> checker" where
  "updateMode m c = c\<lparr>pc_mode := m\<rparr>"

definition updateSettings :: "permission_settings \<Rightarrow> checker \<Rightarrow> checker" where
  "updateSettings s c = c\<lparr>pc_settings := s\<rparr>"

definition setToolSideEffects :: "(jsstr \<times> side_effect) list \<Rightarrow> checker \<Rightarrow> checker" where
  "setToolSideEffects entries c = c\<lparr>pc_overrides := map_from entries\<rparr>"

definition setMetadataResolver :: "(jsstr \<Rightarrow> bool \<Rightarrow> bool option) \<Rightarrow> checker \<Rightarrow> checker" where
  "setMetadataResolver r c = c\<lparr>pc_resolver := r\<rparr>"

text \<open>Whether the resolver vouches for a read-only delegation.\<close>

definition resolveMetadata :: "checker \<Rightarrow> jsstr \<Rightarrow> bool \<Rightarrow> bool" where
  "resolveMetadata c toolName isNativeCoordinator = (pc_resolver c toolName isNativeCoordinator = Some True)"

definition resolveSideEffect :: "checker \<Rightarrow> jsstr \<Rightarrow> side_effect option" where
  "resolveSideEffect c toolName =
     (case mget (pc_overrides c) toolName of
        Some se \<Rightarrow> Some se
      | None \<Rightarrow> (case pc_ctx_effect c toolName of Some se \<Rightarrow> Some se | None \<Rightarrow> builtin_side_effect toolName))"

definition builtinsActive :: "checker \<Rightarrow> bool" where
  "builtinsActive c = (\<not> ps_disableBuiltinDefaults (pc_settings c))"

definition failClosed :: "checker \<Rightarrow> bool" where
  "failClosed c = ps_allowlistOnly (pc_settings c)"

definition or_empty :: "'a list option \<Rightarrow> 'a list" where
  "or_empty x = (case x of Some xs \<Rightarrow> xs | None \<Rightarrow> [])"

definition resolvedDenyPaths :: "checker \<Rightarrow> bool \<Rightarrow> tagged_rule list" where
  "resolvedDenyPaths c includeBuiltins =
     map (Pair False) (or_empty (ps_denyPaths (pc_settings c))) @
     (if includeBuiltins then map (Pair True) BUILTIN_SENSITIVE_PATHS else [])"

definition resolvedDenyCommands :: "checker \<Rightarrow> bool \<Rightarrow> command_rule list" where
  "resolvedDenyCommands c includeBuiltins =
     or_empty (ps_denyCommands (pc_settings c)) @ (if includeBuiltins then BUILTIN_DANGEROUS_COMMANDS else [])"

definition allowPaths :: "checker \<Rightarrow> tagged_rule list" where
  "allowPaths c = map (Pair False) (or_empty (ps_allowPaths (pc_settings c)))"

definition allowCommands :: "checker \<Rightarrow> command_rule list" where
  "allowCommands c = or_empty (ps_allowCommands (pc_settings c))"

section \<open>Tool rules\<close>

text \<open>\<open>*\<close> becomes \<open>.*\<close> and \<open>?\<close> becomes \<open>.\<close>; every other character stands for itself.\<close>

definition toolPatternToRegExp :: "jsstr \<Rightarrow> glob_tok list" where
  "toolPatternToRegExp pattern = map (\<lambda>c. if c = 42 then GAll else if c = 63 then GDot else GLit c) pattern"

definition tool_rule_matches :: "jsstr \<Rightarrow> jsstr \<Rightarrow> bool" where
  "tool_rule_matches toolName rule \<longleftrightarrow>
     rule = toolName \<or>
     ((42 \<in> set rule \<or> 63 \<in> set rule) \<and> rx_match (\<lambda>c. c) (toolPatternToRegExp rule) toolName)"

definition matchesAnyToolRule :: "jsstr list option \<Rightarrow> jsstr \<Rightarrow> bool" where
  "matchesAnyToolRule rules toolName = list_ex (tool_rule_matches toolName) (or_empty rules)"


section \<open>Path rules over all paths of an action\<close>

fun firstMatchingPath :: "host \<Rightarrow> jsstr \<Rightarrow> tagged_rule list \<Rightarrow> jsstr list \<Rightarrow> jsstr \<Rightarrow> (path_rule \<times> jsstr) option" where
  "firstMatchingPath h cwd rules [] toolName = None"
| "firstMatchingPath h cwd rules (raw # paths) toolName =
     (let target = normalizeTargetPath raw cwd
      in case findMatchingGlob h rules target toolName of
           Some rule \<Rightarrow> Some (rule, target)
         | None \<Rightarrow> firstMatchingPath h cwd rules paths toolName)"

fun firstNonMatchingPath :: "host \<Rightarrow> jsstr \<Rightarrow> tagged_rule list \<Rightarrow> jsstr list \<Rightarrow> jsstr \<Rightarrow> jsstr option" where
  "firstNonMatchingPath h cwd rules [] toolName = None"
| "firstNonMatchingPath h cwd rules (raw # paths) toolName =
     (let target = normalizeTargetPath raw cwd
      in case findMatchingGlob h rules target toolName of
           None \<Rightarrow> Some target
         | Some rule \<Rightarrow> firstNonMatchingPath h cwd rules paths toolName)"

definition quoted :: "jsstr \<Rightarrow> jsstr" where
  "quoted s = [34] @ s @ [34]"

definition denyReasonForPath :: "path_rule \<times> jsstr \<Rightarrow> decision" where
  "denyReasonForPath d =
     (case d of (rule, target) \<Rightarrow>
        Deny (case pr_reason rule of
                Some r \<Rightarrow> if r \<noteq> [] then r @ js '' ('' @ target @ js '')''
                          else js ''Path '' @ quoted target @ js '' matches deny rule '' @ quoted (pr_glob rule) @ js ''.''
              | None \<Rightarrow> js ''Path '' @ quoted target @ js '' matches deny rule '' @ quoted (pr_glob rule) @ js ''.''))"

text \<open>\<open>replace(/\s+/g, " ")\<close>\<close>

fun collapse_ws :: "bool \<Rightarrow> jsstr \<Rightarrow> jsstr" where
  "collapse_ws inside [] = []"
| "collapse_ws inside (c # s) =
     (if is_ws c then (if inside then collapse_ws True s else 32 # collapse_ws True s)
      else c # collapse_ws False s)"

definition truncateCommandForReason :: "jsstr \<Rightarrow> jsstr" where
  "truncateCommandForReason command = truncateWithEllipsis (trim (collapse_ws False command)) 61"

definition FAIL_CLOSED_PREFIX :: jsstr where
  "FAIL_CLOSED_PREFIX = js ''Fail-closed (permissions.allowlistOnly): ''"

definition describeWriteForConfirm :: "jsstr \<Rightarrow> jsstr list \<Rightarrow> jsstr" where
  "describeWriteForConfirm toolName paths =
     (let f = (case paths of [] \<Rightarrow> [] | p # ps \<Rightarrow> p); more = length paths - 1
      in toolName @ [32, 0x2192, 32] @
         (if 0 < more
          then quoted f @ js '' and '' @ digits more @ js '' more path'' @ (if more = 1 then [] else js ''s'')
          else quoted f))"

definition subagentConfirmDenyReason :: "jsstr \<Rightarrow> jsstr" where
  "subagentConfirmDenyReason toolName =
     js ''Confirm mode blocks subagents '' @ [0x2014] @ js '' '' @ quoted toolName @
     js '' runs headless and cannot prompt for approval. Switch to auto, or pre-approve via allowTools.''"

definition starts_with :: "string \<Rightarrow> jsstr \<Rightarrow> bool" where
  "starts_with p s = (take (length p) s = js p)"


section \<open>The decision chain\<close>

definition checkConfirm :: "host \<Rightarrow> checker \<Rightarrow> action \<Rightarrow> decision" where
  "checkConfirm h c a =
     (case a of
        ARead tool paths \<Rightarrow> Allow
      | AWrite tool paths \<Rightarrow>
          if paths \<noteq> [] \<and> firstNonMatchingPath h (pc_cwd c) (allowPaths c) paths tool \<noteq> None
          then Confirm (describeWriteForConfirm tool paths)
          else if paths = [] then Confirm (js ''run '' @ quoted tool @ js '' (mutating tool, no path exposed)'')
          else Allow
      | AExec tool command \<Rightarrow>
          if findMatchingCommandRule h (h_allow_clock h) (allowCommands c) command \<noteq> None \<and> \<not> wasRegexBudgetExceeded (h_allow_clock h) then Allow
          else if trim command \<noteq> [] then Confirm (js ''run `'' @ truncateCommandForReason (trim command) @ js ''`'')
          else Confirm (js ''run '' @ quoted tool @ js '' (code execution)'')
      | ATool tool \<Rightarrow>
          if tool \<in> set COORDINATOR_TOOL_NAMES then Deny (subagentConfirmDenyReason tool)
          else
            let se = (if starts_with ''mcp__'' tool then SeOpaque
                      else case resolveSideEffect c tool of Some s \<Rightarrow> s | None \<Rightarrow> SeOpaque)
            in if se = SeNone then Allow
               else Confirm (js ''run tool '' @ quoted tool @ js '' (side effect '' @ quoted (side_effect_text se) @ js '')''))"

definition checkAllowlistOnly :: "host \<Rightarrow> checker \<Rightarrow> action \<Rightarrow> decision" where
  "checkAllowlistOnly h c a =
     (case a of
        ARead tool paths \<Rightarrow> Allow
      | AWrite tool paths \<Rightarrow>
          if paths = []
          then Deny (FAIL_CLOSED_PREFIX @ js ''tool '' @ quoted tool @ js '' exposes no path to match against allowPaths.'')
          else (case firstNonMatchingPath h (pc_cwd c) (allowPaths c) paths tool of
                  Some p \<Rightarrow> Deny (FAIL_CLOSED_PREFIX @ js ''path '' @ quoted p @ js '' does not match any allowPaths rule.'')
                | None \<Rightarrow> Allow)
      | AExec tool command \<Rightarrow>
          if wasRegexBudgetExceeded (h_allow_clock h)
          then Deny (FAIL_CLOSED_PREFIX @ js ''command allowlist check exceeded regex time budget.'')
          else if findMatchingCommandRule h (h_allow_clock h) (allowCommands c) command \<noteq> None then Allow
          else Deny (FAIL_CLOSED_PREFIX @ js ''command '' @ quoted (truncateCommandForReason command) @
                 js '' does not match any allowCommands rule.'')
      | ATool tool \<Rightarrow>
          let se = (case resolveSideEffect c tool of Some s \<Rightarrow> s | None \<Rightarrow> SeOpaque)
          in if se = SeNone then Allow
             else Deny (FAIL_CLOSED_PREFIX @ js ''tool '' @ quoted tool @ js '' (side effect '' @
                    quoted (side_effect_text se) @ js '') is not in allowTools.''))"

definition read_only_reason :: "jsstr \<Rightarrow> jsstr \<Rightarrow> jsstr" where
  "read_only_reason label tool =
     label @ js '' mode is read-only '' @ [0x2014] @ js '' tool '' @ quoted tool @ js '' is blocked.''"

text \<open>\<open>delegation\<close> is \<open>metadata?.readOnlyDelegation === true\<close>.\<close>

definition checkReadOnly :: "host \<Rightarrow> checker \<Rightarrow> action \<Rightarrow> permission_mode \<Rightarrow> bool \<Rightarrow> decision" where
  "checkReadOnly h c a mode delegation =
     (let label = (if mode = ModeAsk then js ''Ask'' else js ''Plan'')
      in case a of
           AWrite tool paths \<Rightarrow> Deny (read_only_reason label tool)
         | AExec tool command \<Rightarrow> Deny (read_only_reason label tool)
         | ATool tool \<Rightarrow>
             if starts_with ''mcp__'' tool
             then Deny (label @ js '' mode blocks MCP tools (they may mutate). Switch to auto mode to use '' @ quoted tool @ js ''.'')
             else if tool \<in> set COORDINATOR_TOOL_NAMES \<and> delegation then Allow
             else if resolveSideEffect c tool = None \<or> isPlanBlockingSideEffect (resolveSideEffect c tool)
             then Deny (read_only_reason label tool)
             else Allow
         | ARead tool paths \<Rightarrow>
             if matchesAnyToolRule (ps_allowTools (pc_settings c)) tool then Allow
             else (case firstMatchingPath h (pc_cwd c) (resolvedDenyPaths c (builtinsActive c)) paths tool of
                     Some d \<Rightarrow> denyReasonForPath d
                   | None \<Rightarrow> Allow))"

definition command_reason :: "command_rule \<Rightarrow> jsstr" where
  "command_reason r =
     (case cr_reason r of Some t \<Rightarrow> t | None \<Rightarrow> js ''Command matches deny rule '' @ quoted (cr_pattern r) @ js ''.'')"

text \<open>The deny rules of auto and of the modes that share its chain; \<open>None\<close> lets the call through.\<close>

definition deny_chain :: "host \<Rightarrow> checker \<Rightarrow> action \<Rightarrow> decision option" where
  "deny_chain h c a =
     (case a of
        AExec tool command \<Rightarrow>
          if wasRegexBudgetExceeded (h_deny_clock h)
          then Some (Deny (js ''Command permission check exceeded regex time budget (fail-closed).''))
          else map_option (Deny \<circ> command_reason)
                 (findMatchingCommandRule h (h_deny_clock h) (resolvedDenyCommands c (builtinsActive c)) command)
      | ATool tool \<Rightarrow> None
      | _ \<Rightarrow> map_option denyReasonForPath
               (firstMatchingPath h (pc_cwd c) (resolvedDenyPaths c (builtinsActive c)) (act_paths a) (act_tool a)))"

definition final_decision :: "host \<Rightarrow> checker \<Rightarrow> action \<Rightarrow> decision" where
  "final_decision h c a =
     (if failClosed c then checkAllowlistOnly h c a
      else if pc_mode c = ModeConfirm then checkConfirm h c a
      else Allow)"

definition check :: "host \<Rightarrow> checker \<Rightarrow> action \<Rightarrow> bool \<Rightarrow> decision" where
  "check h c a delegation =
     (if matchesAnyToolRule (ps_denyTools (pc_settings c)) (act_tool a)
      then Deny (js ''Tool '' @ quoted (act_tool a) @ js '' is in denyTools.'')
      else if pc_mode c = ModePlan \<or> pc_mode c = ModeAsk then checkReadOnly h c a (pc_mode c) delegation
      else if matchesAnyToolRule (ps_allowTools (pc_settings c)) (act_tool a) then Allow
      else (case deny_chain h c a of Some d \<Rightarrow> d | None \<Rightarrow> final_decision h c a))"


section \<open>From a tool call to an action\<close>

datatype jsval = JsStr jsstr | JsBool bool | JsArr "jsval list" | JsObj "(jsstr \<times> jsval) list" | JsOther

type_synonym tool_input = "(jsstr \<times> jsval) list"

definition LSP_WRITE_ACTIONS :: "jsstr list" where
  "LSP_WRITE_ACTIONS = [js ''rename'', js ''rename_file'']"

definition CHROME_EFFECT_OPS :: "jsstr list" where
  "CHROME_EFFECT_OPS =
     [js ''navigate'', js ''close_page'', js ''click'', js ''fill'', js ''press_key'', js ''hover'',
      js ''select_option'', js ''upload_file'']"

definition PATH_KEYS :: "jsstr list" where
  "PATH_KEYS = [js ''path'', js ''file_path'', js ''filepath'', js ''filename'', js ''file'']"

definition path_at :: "tool_input \<Rightarrow> jsstr \<Rightarrow> jsstr option" where
  "path_at rec field =
     (case map_of rec field of Some (JsStr v) \<Rightarrow> if v \<noteq> [] then Some v else None | _ \<Rightarrow> None)"

definition pushFrom :: "tool_input \<Rightarrow> jsstr list \<Rightarrow> jsstr list" where
  "pushFrom rec keys = List.map_filter (path_at rec) keys"

fun edit_paths :: "jsval \<Rightarrow> jsstr list" where
  "edit_paths (JsObj rec) = pushFrom rec PATH_KEYS"
| "edit_paths _ = []"

definition collectPathFields :: "tool_input \<Rightarrow> jsstr list \<Rightarrow> jsstr list" where
  "collectPathFields input extra =
     pushFrom input (PATH_KEYS @ extra) @
     (case map_of input (js ''edits'') of Some (JsArr items) \<Rightarrow> concat (map edit_paths items) | _ \<Rightarrow> [])"

definition string_field :: "tool_input \<Rightarrow> string \<Rightarrow> jsstr" where
  "string_field input key = (case map_of input (js key) of Some (JsStr v) \<Rightarrow> v | _ \<Rightarrow> [])"

definition READ_TOOLS :: "jsstr list" where
  "READ_TOOLS = [js ''read'', js ''grep'', js ''find'', js ''ls'']"

definition WRITE_TOOLS :: "jsstr list" where
  "WRITE_TOOLS = [js ''edit'', js ''edit_v2'', js ''ast_edit'', js ''write'']"

definition CODE_TOOLS :: "jsstr list" where
  "CODE_TOOLS = [js ''eval'', js ''debug'', js ''code'', js ''recipe'', js ''preview'']"

definition describeToolAction :: "jsstr \<Rightarrow> tool_input \<Rightarrow> action" where
  "describeToolAction toolName input =
     (if toolName \<in> set READ_TOOLS then ARead toolName (collectPathFields input [js ''directory''])
      else if toolName \<in> set WRITE_TOOLS then AWrite toolName (collectPathFields input [])
      else if toolName = js ''bash'' then AExec toolName (string_field input ''command'')
      else if toolName \<in> set CODE_TOOLS then AExec toolName []
      else if toolName = js ''lsp'' then
        (let action = string_field input ''action''
         in if action \<in> set LSP_WRITE_ACTIONS \<or>
               (action = js ''code_actions'' \<and> map_of input (js ''apply'') = Some (JsBool True))
            then AWrite toolName (collectPathFields input [])
            else ATool toolName)
      else if starts_with ''chrome_devtools_'' toolName then
        (let op = drop 16 toolName
         in if op = js ''evaluate'' then AExec toolName []
            else if op \<in> set CHROME_EFFECT_OPS then AWrite toolName []
            else ATool toolName)
      else ATool toolName)"

end
