(* ===== verification/PermissionSafety.thy ===== *)
theory PermissionSafety
  imports Permissions
begin

text \<open>
  What the permission checker guarantees (core/permissions/checker.ts): the read-only modes, the deny
  floor over every spelling of a path argument, the command floor under its time budget, and the modes
  that swap auto's final decision. The last section records where a call passes that the comments of the
  code say cannot.
\<close>


section \<open>Paths of an action\<close>

lemma firstMatchingPath_None:
  "firstMatchingPath h cwd rules paths tool = None \<longleftrightarrow>
     (\<forall>raw \<in> set paths. findMatchingGlob h rules (normalizeTargetPath raw cwd) tool = None)"
  by (induction paths) (auto simp: Let_def split: option.split)

lemma firstNonMatchingPath_None:
  "firstNonMatchingPath h cwd rules paths tool = None \<longleftrightarrow>
     (\<forall>raw \<in> set paths. findMatchingGlob h rules (normalizeTargetPath raw cwd) tool \<noteq> None)"
  by (induction paths) (auto simp: Let_def split: option.split)

lemma findMatchingGlob_None:
  "findMatchingGlob h rules target tool = None \<longleftrightarrow> (\<forall>r \<in> set rules. \<not> rule_matches h target tool r)"
  by (auto simp: findMatchingGlob_def find_None_iff)

lemma denyReason_Deny: "\<exists>r. denyReasonForPath d = Deny r"
  by (cases d) (simp add: denyReasonForPath_def)

text \<open>A call names a deny-listed path.\<close>

definition hits_floor :: "host \<Rightarrow> checker \<Rightarrow> action \<Rightarrow> bool" where
  "hits_floor h c a \<longleftrightarrow>
     (case a of
        ARead tool paths \<Rightarrow> firstMatchingPath h (pc_cwd c) (resolvedDenyPaths c (builtinsActive c)) paths tool \<noteq> None
      | AWrite tool paths \<Rightarrow> firstMatchingPath h (pc_cwd c) (resolvedDenyPaths c (builtinsActive c)) paths tool \<noteq> None
      | _ \<Rightarrow> False)"

lemma hits_floor_denied:
  assumes "hits_floor h c a" "\<not> matchesAnyToolRule (ps_allowTools (pc_settings c)) (act_tool a)"
  shows "\<exists>r. check h c a d = Deny r"
proof (cases "matchesAnyToolRule (ps_denyTools (pc_settings c)) (act_tool a)")
  case False
  show ?thesis
  proof (cases a)
    case (ARead tool paths)
    then obtain x where "firstMatchingPath h (pc_cwd c) (resolvedDenyPaths c (builtinsActive c)) paths tool = Some x"
      using assms(1) by (auto simp: hits_floor_def)
    then show ?thesis using ARead False assms(2) denyReason_Deny [of x]
      by (simp add: check_def checkReadOnly_def deny_chain_def)
  next
    case (AWrite tool paths)
    then obtain x where "firstMatchingPath h (pc_cwd c) (resolvedDenyPaths c (builtinsActive c)) paths tool = Some x"
      using assms(1) by (auto simp: hits_floor_def)
    then show ?thesis using AWrite False assms(2) denyReason_Deny [of x]
      by (simp add: check_def checkReadOnly_def deny_chain_def)
  qed (use assms(1) in \<open>simp_all add: hits_floor_def\<close>)
qed (simp add: check_def)


section \<open>Every spelling of a path argument\<close>

text \<open>A path an input mentions: under any of the accepted keys, at the top or inside an element of \<open>edits\<close>.\<close>

definition mentions_path :: "tool_input \<Rightarrow> jsstr \<Rightarrow> bool" where
  "mentions_path input p \<longleftrightarrow>
     p \<noteq> [] \<and>
     (\<exists>k \<in> set PATH_KEYS.
        map_of input k = Some (JsStr p) \<or>
        (\<exists>items rec. map_of input (js ''edits'') = Some (JsArr items) \<and> JsObj rec \<in> set items \<and>
           map_of rec k = Some (JsStr p)))"

lemma map_filter_member: "y \<in> set (List.map_filter f xs) \<longleftrightarrow> (\<exists>x \<in> set xs. f x = Some y)"
  by (force simp: List.map_filter_def)

lemma path_at_iff: "path_at rec k = Some p \<longleftrightarrow> p \<noteq> [] \<and> map_of rec k = Some (JsStr p)"
proof (cases "map_of rec k")
  case (Some v)
  then show ?thesis by (cases v) (auto simp: path_at_def)
qed (simp add: path_at_def)

lemma pushFrom_member: "p \<in> set (pushFrom rec ks) \<longleftrightarrow> p \<noteq> [] \<and> (\<exists>k \<in> set ks. map_of rec k = Some (JsStr p))"
  by (auto simp: pushFrom_def map_filter_member path_at_iff)

lemma mentions_collected: "mentions_path input p \<Longrightarrow> p \<in> set (collectPathFields input extra)"
  unfolding mentions_path_def collectPathFields_def
  by (auto simp: pushFrom_member) (metis edit_paths.simps(1) pushFrom_member)

lemma describe_read: "tool \<in> set READ_TOOLS \<Longrightarrow>
    describeToolAction tool input = ARead tool (collectPathFields input [js ''directory''])"
  by (simp add: describeToolAction_def)

lemma describe_write: "tool \<in> set WRITE_TOOLS \<Longrightarrow> describeToolAction tool input = AWrite tool (collectPathFields input [])"
proof -
  assume w: "tool \<in> set WRITE_TOOLS"
  have "set READ_TOOLS \<inter> set WRITE_TOOLS = {}" by code_simp
  with w have "tool \<notin> set READ_TOOLS" by auto
  with w show ?thesis by (simp add: describeToolAction_def)
qed

lemma mentioned_path_denied:
  assumes "tool \<in> set READ_TOOLS \<or> tool \<in> set WRITE_TOOLS"
    and "mentions_path input p"
    and "r \<in> set (resolvedDenyPaths c (builtinsActive c))"
    and "rule_matches h (normalizeTargetPath p (pc_cwd c)) tool r"
    and "\<not> matchesAnyToolRule (ps_allowTools (pc_settings c)) tool"
  shows "\<exists>reason. check h c (describeToolAction tool input) d = Deny reason"
proof -
  let ?a = "describeToolAction tool input"
  have found: "findMatchingGlob h (resolvedDenyPaths c (builtinsActive c)) (normalizeTargetPath p (pc_cwd c)) tool \<noteq> None"
    using assms(3,4) by (auto simp: findMatchingGlob_None)
  have "p \<in> set (collectPathFields input extra)" for extra by (rule mentions_collected [OF assms(2)])
  then have "firstMatchingPath h (pc_cwd c) (resolvedDenyPaths c (builtinsActive c)) (collectPathFields input extra) tool \<noteq> None"
    for extra using found by (auto simp: firstMatchingPath_None)
  then have "hits_floor h c ?a \<and> act_tool ?a = tool"
    using assms(1) by (auto simp: describe_read describe_write hits_floor_def)
  then show ?thesis using hits_floor_denied assms(5) by metis
qed

text \<open>C1: No spelling of a path argument escapes the deny floor: when the input of a read or write tool
  mentions, under any accepted key or inside any element of its edits, a path that a deny rule or a
  built-in sensitive rule matches, the call is denied in every mode, unless the tool is in allowTools.\<close>

theorem floor_sees_every_spelling:
  assumes "tool \<in> set READ_TOOLS \<or> tool \<in> set WRITE_TOOLS"
    and "mentions_path input p"
    and "r \<in> set (resolvedDenyPaths c (builtinsActive c))"
    and "rule_matches h (normalizeTargetPath p (pc_cwd c)) tool r"
    and "\<not> matchesAnyToolRule (ps_allowTools (pc_settings c)) tool"
  shows "\<exists>reason. check h c (describeToolAction tool input) d = Deny reason"
  using assms by (rule mentioned_path_denied)

text \<open>A host for the witnesses: a regular expression tests for a fixed substring.\<close>

fun has_infix :: "jsstr \<Rightarrow> jsstr \<Rightarrow> bool" where
  "has_infix w [] = (w = [])"
| "has_infix w (x # s) = (take (length w) (x # s) = w \<or> has_infix w s)"

definition still_clock :: clock where
  "still_clock = \<lparr> ck_elapsed = (\<lambda>k. 0), ck_finish = 0 \<rparr>"

definition sample_host :: host where
  "sample_host = \<lparr> h_regexp = (\<lambda>p f. Some (has_infix p)), h_canonical = Some, h_fold = (\<lambda>x. x), h_stall = 0,
     h_deny_clock = still_clock, h_allow_clock = still_clock \<rparr>"

definition no_settings :: permission_settings where
  "no_settings = \<lparr> ps_mode = None, ps_allowlistOnly = False, ps_allowPaths = None, ps_allowCommands = None,
     ps_denyPaths = None, ps_denyCommands = None, ps_allowTools = None, ps_denyTools = None,
     ps_disableBuiltinDefaults = False \<rparr>"

definition sample_checker :: "permission_mode \<Rightarrow> permission_settings \<Rightarrow> checker" where
  "sample_checker m s = \<lparr> pc_cwd = js ''/w'', pc_mode = m, pc_settings = s, pc_ctx_effect = (\<lambda>n. None),
     pc_overrides = [], pc_resolver = (\<lambda>n b. None) \<rparr>"

text \<open>A user's own rules, without the built-in floor.\<close>

definition own_rules :: permission_settings where
  "own_rules = no_settings\<lparr>ps_denyPaths := Some [\<lparr> pr_glob = js ''**/.npmrc'', pr_tools = None, pr_reason = Some (js ''tokens'') \<rparr>],
     ps_disableBuiltinDefaults := True\<rparr>"

theorem floor_sees_every_spelling_witness:
  "\<exists>reason. check sample_host (sample_checker ModeAuto no_settings)
     (describeToolAction (js ''edit'') [(js ''edits'', JsArr [JsObj [(js ''filename'', JsStr (js ''sub/../.env''))]])]) False
     = Deny reason"
proof (rule floor_sees_every_spelling)
  let ?c = "sample_checker ModeAuto no_settings"
  show "js ''edit'' \<in> set READ_TOOLS \<or> js ''edit'' \<in> set WRITE_TOOLS" by code_simp
  let ?i = "[(js ''edits'', JsArr [JsObj [(js ''filename'', JsStr (js ''sub/../.env''))]])]"
  have "map_of ?i (js ''edits'') = Some (JsArr [JsObj [(js ''filename'', JsStr (js ''sub/../.env''))]])"
    "map_of [(js ''filename'', JsStr (js ''sub/../.env''))] (js ''filename'') = Some (JsStr (js ''sub/../.env''))"
    by simp_all
  then have "\<exists>items rec. map_of ?i (js ''edits'') = Some (JsArr items) \<and> JsObj rec \<in> set items \<and>
      map_of rec (js ''filename'') = Some (JsStr (js ''sub/../.env''))" by fastforce
  moreover have "js ''filename'' \<in> set PATH_KEYS" by code_simp
  moreover have "js ''sub/../.env'' \<noteq> []" by simp
  ultimately show "mentions_path ?i (js ''sub/../.env'')" unfolding mentions_path_def by blast
  show "(True, sensitive_rule ''**/.env'' ''Secrets file'') \<in> set (resolvedDenyPaths ?c (builtinsActive ?c))"
    by code_simp
  show "rule_matches sample_host (normalizeTargetPath (js ''sub/../.env'') (pc_cwd ?c)) (js ''edit'')
      (True, sensitive_rule ''**/.env'' ''Secrets file'')" by code_simp
  show "\<not> matchesAnyToolRule (ps_allowTools (pc_settings ?c)) (js ''edit'')" by code_simp
qed


section \<open>The read-only modes\<close>

text \<open>What the read-only modes let through.\<close>

definition read_only_allows :: "host \<Rightarrow> checker \<Rightarrow> action \<Rightarrow> bool \<Rightarrow> bool" where
  "read_only_allows h c a d \<longleftrightarrow>
     (case a of
        AWrite tool paths \<Rightarrow> False
      | AExec tool command \<Rightarrow> False
      | ARead tool paths \<Rightarrow> matchesAnyToolRule (ps_allowTools (pc_settings c)) tool \<or> \<not> hits_floor h c a
      | ATool tool \<Rightarrow> \<not> starts_with ''mcp__'' tool \<and>
          ((tool \<in> set COORDINATOR_TOOL_NAMES \<and> d) \<or> resolveSideEffect c tool \<in> {Some SeNone, Some SeInherited}))"

lemma side_effect_blocked:
  "(se = None \<or> isPlanBlockingSideEffect se) \<longleftrightarrow> se \<notin> {Some SeNone, Some SeInherited}"
proof (cases se)
  case (Some s)
  then show ?thesis by (cases s) (simp_all add: isPlanBlockingSideEffect_def PLAN_BLOCKING_def)
qed simp

lemma checkReadOnly_exact:
  "checkReadOnly h c a m d = Allow \<and> read_only_allows h c a d \<or>
   (\<exists>r. checkReadOnly h c a m d = Deny r) \<and> \<not> read_only_allows h c a d"
proof (cases a)
  case (ARead tool paths)
  then show ?thesis using denyReason_Deny
    by (cases "firstMatchingPath h (pc_cwd c) (resolvedDenyPaths c (builtinsActive c)) paths tool")
       (simp_all add: checkReadOnly_def read_only_allows_def hits_floor_def)
next
  case (ATool tool)
  then show ?thesis unfolding checkReadOnly_def read_only_allows_def Let_def action.case side_effect_blocked by simp
qed (simp_all add: checkReadOnly_def read_only_allows_def)

text \<open>C2: In plan and in ask mode a call is allowed exactly when its tool is not in denyTools and it is a read that no
  deny rule matches (or whose tool is in allowTools), or a tool outside the MCP family that is classified as
  free of side effects, or named like an inherited property of objects (and so not classified at all), or a
  coordinator tool with a host-verified read-only delegation. Writes and commands are never allowed; every other
  call is denied and nothing is deferred to a prompt.\<close>

theorem read_only_modes_exact:
  assumes "pc_mode c = ModePlan \<or> pc_mode c = ModeAsk"
  shows "if \<not> matchesAnyToolRule (ps_denyTools (pc_settings c)) (act_tool a) \<and> read_only_allows h c a d
         then check h c a d = Allow else \<exists>r. check h c a d = Deny r"
  using assms checkReadOnly_exact [of h c a "pc_mode c" d] by (auto simp: check_def)

theorem read_only_modes_exact_witness:
  "check sample_host (sample_checker ModePlan no_settings) (ATool (js ''recall'')) False = Allow \<and>
   (\<exists>r. check sample_host (sample_checker ModeAsk no_settings) (ATool (js ''task'')) False = Deny r)"
proof
  have "read_only_allows sample_host (sample_checker ModePlan no_settings) (ATool (js ''recall'')) False" by code_simp
  then show "check sample_host (sample_checker ModePlan no_settings) (ATool (js ''recall'')) False = Allow"
    using read_only_modes_exact [of "sample_checker ModePlan no_settings" "ATool (js ''recall'')" sample_host False]
    by (simp add: sample_checker_def no_settings_def matchesAnyToolRule_def or_empty_def)
  have "\<not> read_only_allows sample_host (sample_checker ModeAsk no_settings) (ATool (js ''task'')) False" by code_simp
  then show "\<exists>r. check sample_host (sample_checker ModeAsk no_settings) (ATool (js ''task'')) False = Deny r"
    using read_only_modes_exact [of "sample_checker ModeAsk no_settings" "ATool (js ''task'')" sample_host False]
    by (simp add: sample_checker_def no_settings_def matchesAnyToolRule_def or_empty_def)
qed

section \<open>The built-in secrets rule\<close>

lemma dotenv_glob:
  assumes "list_all (\<lambda>x. \<not> line_end x) dir" "length dir + 5 \<le> REGEX_TEST_TEXT_CAP"
    and "\<not> isRegexBudgetExpired (h_stall h)" "normalizePathForMatch dir = dir"
  shows "matchGlob h (js ''**/.env'') (dir @ slash # js ''.env'')"
proof -
  have tk: "globToRegExp (js ''**/.env'') = Some (GAll # map GLit (js ''.env''))" by code_simp
  have n: "normalizePathForMatch (dir @ slash # js ''.env'') = (dir @ [slash]) @ js ''.env''"
    using assms(4) by (simp add: normalizePathForMatch_def js_def slash_def)
  have "rx_match (h_fold h) (GAll # map GLit (js ''.env'')) ((dir @ [slash]) @ js ''.env'')"
    by (rule rx_match_all) (use assms(1) rx_match_lits in \<open>auto simp: line_end_def slash_def\<close>)
  moreover have "haystack ((dir @ [slash]) @ js ''.env'') = (dir @ [slash]) @ js ''.env''"
    using assms(2) by (intro haystack_short) simp
  ultimately show ?thesis using assms(3) tk n by (simp add: matchGlob_def testRegexWithinBudget_def)
qed

text \<open>The secrets file is out of reach: with the built-in rules active, a read or write tool whose input
  mentions, in any spelling, a path that resolves to a file named .env is denied in every mode, whatever
  directory it lies in, as long as that directory's name has no line break and the path fits the cap.\<close>

theorem dotenv_out_of_reach:
  assumes "builtinsActive c" "tool \<in> set READ_TOOLS \<or> tool \<in> set WRITE_TOOLS"
    and "mentions_path input p" "normalizeTargetPath p (pc_cwd c) = dir @ slash # js ''.env''"
    and "list_all (\<lambda>x. \<not> line_end x) dir" "length dir + 5 \<le> REGEX_TEST_TEXT_CAP"
    and "\<not> isRegexBudgetExpired (h_stall h)"
    and "\<not> matchesAnyToolRule (ps_allowTools (pc_settings c)) tool"
  shows "\<exists>reason. check h c (describeToolAction tool input) d = Deny reason"
proof (rule mentioned_path_denied [OF assms(2,3) _ _ assms(8)])
  let ?r = "sensitive_rule ''**/.env'' ''Secrets file''"
  show "(True, ?r) \<in> set (resolvedDenyPaths c (builtinsActive c))"
    using assms(1) by (simp add: resolvedDenyPaths_def BUILTIN_SENSITIVE_PATHS_def)
  have "normalizePathForMatch (dir @ slash # js ''.env'') = dir @ slash # js ''.env''"
    using assms(4) by (metis normalizeTargetPath_def normalize_idem)
  then have "normalizePathForMatch dir = dir"
    by (simp add: normalizePathForMatch_def)
  then show "rule_matches h (normalizeTargetPath p (pc_cwd c)) tool (True, ?r)"
    using dotenv_glob [OF assms(5,6,7)] assms(4)
    by (simp add: rule_matches_def rule_applies_def sensitive_rule_def matchesSensitiveGlob_def)
qed

theorem dotenv_out_of_reach_witness:
  "\<exists>reason. check sample_host (sample_checker ModeConfirm no_settings)
     (describeToolAction (js ''grep'') [(js ''file_path'', JsStr (js ''a/./../b/.env''))]) False = Deny reason"
proof (rule dotenv_out_of_reach [where dir = "js ''/w/b''" and p = "js ''a/./../b/.env''"])
  let ?i = "[(js ''file_path'', JsStr (js ''a/./../b/.env''))]"
  have "js ''file_path'' \<in> set PATH_KEYS" by code_simp
  moreover have "map_of ?i (js ''file_path'') = Some (JsStr (js ''a/./../b/.env''))" by simp
  moreover have "js ''a/./../b/.env'' \<noteq> []" by simp
  ultimately show "mentions_path ?i (js ''a/./../b/.env'')" unfolding mentions_path_def by blast
  show "normalizeTargetPath (js ''a/./../b/.env'') (pc_cwd (sample_checker ModeConfirm no_settings)) =
      js ''/w/b'' @ slash # js ''.env''" by code_simp
qed (code_simp+)


section \<open>The command floor\<close>

text \<open>C3: The command floor fails closed: in auto and in confirm mode, with or without allowlistOnly, a command of a
  tool that is not in allowTools is denied when its check runs out of time, whatever it says, and when one of the
  deny rules is safe, compiles and matches its first 10,000 characters, even if the time runs out before that
  rule is reached (the clock not stepping back meanwhile). No other command is stopped by the floor: the final
  decision of the mode, or denyTools, decides.\<close>

theorem command_floor_fail_closed:
  assumes "pc_mode c = ModeAuto \<or> pc_mode c = ModeConfirm"
    and "clock_forward (h_deny_clock h)"
    and "\<not> matchesAnyToolRule (ps_allowTools (pc_settings c)) tool"
  shows "if wasRegexBudgetExceeded (h_deny_clock h) \<or>
      (\<exists>r \<in> set (resolvedDenyCommands c (builtinsActive c)). \<exists>re. compile_rule h r = Some re \<and> re (haystack command)) \<or>
      matchesAnyToolRule (ps_denyTools (pc_settings c)) tool
    then \<exists>reason. check h c (AExec tool command) d = Deny reason
    else check h c (AExec tool command) d = final_decision h c (AExec tool command)"
proof (cases "wasRegexBudgetExceeded (h_deny_clock h) \<or> matchesAnyToolRule (ps_denyTools (pc_settings c)) tool")
  case True
  then show ?thesis using assms(1,3) by (auto simp: check_def deny_chain_def)
next
  case False
  let ?rules = "resolvedDenyCommands c (builtinsActive c)"
  have "\<forall>k. \<not> isRegexBudgetExpired (ck_elapsed (h_deny_clock h) k)" using within_budget assms(2) False by blast
  then have f: "findMatchingCommandRule h (h_deny_clock h) ?rules command =
      find (\<lambda>r. case compile_rule h r of None \<Rightarrow> False | Some re \<Rightarrow> re (haystack command)) ?rules"
    by (simp add: findMatchingCommandRule_def find_command_complete)
  have ch: "check h c (AExec tool command) d =
      (case findMatchingCommandRule h (h_deny_clock h) ?rules command of
         None \<Rightarrow> final_decision h c (AExec tool command) | Some r \<Rightarrow> Deny (command_reason r))"
    using False assms(1,3) by (auto simp: check_def deny_chain_def split: option.split)
  show ?thesis
  proof (cases "findMatchingCommandRule h (h_deny_clock h) ?rules command")
    case None
    then have "\<not> (\<exists>r \<in> set ?rules. \<exists>re. compile_rule h r = Some re \<and> re (haystack command))"
      unfolding f find_None_iff by force
    then show ?thesis using ch None False by auto
  next
    case (Some r)
    then have "\<exists>r \<in> set ?rules. \<exists>re. compile_rule h r = Some re \<and> re (haystack command)"
      unfolding f find_Some_iff by (force split: option.splits)
    then show ?thesis using ch Some by auto
  qed
qed

definition deny_mkfs :: permission_settings where
  "deny_mkfs = no_settings\<lparr>ps_denyCommands := Some [\<lparr> cr_pattern = js ''mkfs'', cr_flags = None, cr_reason = None \<rparr>],
     ps_disableBuiltinDefaults := True\<rparr>"

text \<open>A clock that runs out during the check, and one that stands still.\<close>

theorem command_floor_fail_closed_witness:
  "(\<exists>reason. check (sample_host\<lparr>h_deny_clock := \<lparr> ck_elapsed = (\<lambda>k. 30 * int (min k 2)), ck_finish = 60 \<rparr>\<rparr>)
      (sample_checker ModeAuto deny_mkfs) (AExec (js ''bash'') (js ''ls'')) False = Deny reason) \<and>
   (\<exists>reason. check sample_host (sample_checker ModeAuto deny_mkfs) (AExec (js ''bash'') (js ''sudo mkfs /dev/sda'')) False = Deny reason) \<and>
   check sample_host (sample_checker ModeAuto deny_mkfs) (AExec (js ''bash'') (js ''ls'')) False = Allow"
proof -
  let ?r = "\<lparr> cr_pattern = js ''mkfs'', cr_flags = None, cr_reason = None \<rparr>"
  let ?h = "sample_host\<lparr>h_deny_clock := \<lparr> ck_elapsed = (\<lambda>k. 30 * int (min k 2)), ck_finish = 60 \<rparr>\<rparr>"
  let ?c = "sample_checker ModeAuto deny_mkfs"
  have m: "pc_mode ?c = ModeAuto \<or> pc_mode ?c = ModeConfirm"
    and t: "\<not> matchesAnyToolRule (ps_allowTools (pc_settings ?c)) (js ''bash'')"
    and n: "\<not> matchesAnyToolRule (ps_denyTools (pc_settings ?c)) (js ''bash'')" by code_simp+
  have f: "clock_forward (h_deny_clock ?h)" "clock_forward (h_deny_clock sample_host)"
    by (simp_all add: clock_forward_def sample_host_def still_clock_def)
  have rules: "resolvedDenyCommands ?c (builtinsActive ?c) = [?r]" by code_simp
  have "validateSafeRegex sample_host (js ''mkfs'')" by code_simp
  then have re: "compile_rule sample_host ?r = Some (has_infix (js ''mkfs''))" by (simp add: compile_rule_def sample_host_def)
  have out: "wasRegexBudgetExceeded (h_deny_clock ?h)" "\<not> wasRegexBudgetExceeded (h_deny_clock sample_host)" by code_simp+
  have hit: "has_infix (js ''mkfs'') (haystack (js ''sudo mkfs /dev/sda''))"
    "\<not> has_infix (js ''mkfs'') (haystack (js ''ls''))" by code_simp+
  have "final_decision sample_host ?c (AExec (js ''bash'') (js ''ls'')) = Allow" by code_simp
  then show ?thesis
    using command_floor_fail_closed [OF m f(1) t, of "js ''ls''" False]
      command_floor_fail_closed [OF m f(2) t, of "js ''sudo mkfs /dev/sda''" False]
      command_floor_fail_closed [OF m f(2) t, of "js ''ls''" False] out re hit n
    unfolding rules by simp
qed

section \<open>How the modes compare\<close>

definition relaxed :: "checker \<Rightarrow> checker" where
  "relaxed c = c\<lparr>pc_mode := ModeAuto, pc_settings := (pc_settings c)\<lparr>ps_allowlistOnly := False\<rparr>\<rparr>"

lemma relaxed_simps [simp]:
  "pc_cwd (relaxed c) = pc_cwd c" "pc_mode (relaxed c) = ModeAuto"
  "ps_denyTools (pc_settings (relaxed c)) = ps_denyTools (pc_settings c)"
  "ps_allowTools (pc_settings (relaxed c)) = ps_allowTools (pc_settings c)"
  "builtinsActive (relaxed c) = builtinsActive c" "resolvedDenyPaths (relaxed c) b = resolvedDenyPaths c b"
  "resolvedDenyCommands (relaxed c) b = resolvedDenyCommands c b" "failClosed (relaxed c) = False"
  by (simp_all add: relaxed_def builtinsActive_def resolvedDenyPaths_def resolvedDenyCommands_def failClosed_def)

lemma deny_chain_relaxed [simp]: "deny_chain h (relaxed c) a = deny_chain h c a"
  by (cases a) (simp_all add: deny_chain_def)

lemma deny_chain_floor:
  "deny_chain h c a = Some d \<Longrightarrow> \<not> read_only_allows h c a dl \<or> matchesAnyToolRule (ps_allowTools (pc_settings c)) (act_tool a)"
  by (cases a) (auto simp: deny_chain_def read_only_allows_def hits_floor_def)

lemma deny_chain_Deny: "deny_chain h c a = Some d \<Longrightarrow> \<exists>r. d = Deny r"
  using denyReason_Deny by (auto simp: deny_chain_def split: action.splits if_splits)

text \<open>Auto is the most permissive stance: whatever auto without allowlistOnly denies, every mode and
  preset denies under the same rules, so switching the mode or turning the preset on never unlocks a call.\<close>

theorem auto_most_permissive:
  assumes "check h (relaxed c) a d = Deny r"
  shows "\<exists>r'. check h c a d = Deny r'"
proof (cases "matchesAnyToolRule (ps_denyTools (pc_settings c)) (act_tool a)")
  case True
  then show ?thesis by (simp add: check_def)
next
  case False
  then have a: "\<not> matchesAnyToolRule (ps_allowTools (pc_settings c)) (act_tool a)" "deny_chain h c a = Some (Deny r)"
    using assms by (auto simp: check_def final_decision_def split: if_splits option.splits)
  show ?thesis
  proof (cases "pc_mode c = ModePlan \<or> pc_mode c = ModeAsk")
    case True
    then show ?thesis using False checkReadOnly_exact [of h c a "pc_mode c" d] deny_chain_floor [OF a(2)] a(1)
      by (auto simp: check_def)
  next
    case 2: False
    then show ?thesis using False a by (simp add: check_def)
  qed
qed

theorem auto_most_permissive_witness:
  "\<exists>r. check sample_host (sample_checker ModeConfirm own_rules) (AWrite (js ''write'') [js ''.npmrc'']) False = Deny r"
proof -
  have "check sample_host (relaxed (sample_checker ModeConfirm own_rules)) (AWrite (js ''write'') [js ''.npmrc'']) False
      = Deny (js ''tokens (/w/.npmrc)'')" by code_simp
  then show ?thesis by (rule auto_most_permissive)
qed

lemma final_Confirm: "final_decision h c a = Confirm r \<Longrightarrow> pc_mode c = ModeConfirm \<and> \<not> failClosed c \<and> (\<forall>t ps. a \<noteq> ARead t ps)"
  by (auto simp: final_decision_def checkAllowlistOnly_def checkConfirm_def Let_def
      split: if_splits action.splits option.splits)

text \<open>Only confirm mode ever asks, and the CI preset never does: a deferral comes from confirm mode with
  allowlistOnly off, for a call that auto would have allowed, and never for a read.\<close>

theorem only_confirm_asks:
  assumes "check h c a d = Confirm r"
  shows "pc_mode c = ModeConfirm \<and> failClosed c = False \<and> check h (relaxed c) a d = Allow \<and>
    (case a of ARead tool paths \<Rightarrow> False | _ \<Rightarrow> True)"
proof -
  have f: "\<not> matchesAnyToolRule (ps_denyTools (pc_settings c)) (act_tool a)"
    "\<not> matchesAnyToolRule (ps_allowTools (pc_settings c)) (act_tool a)"
    "\<not> (pc_mode c = ModePlan \<or> pc_mode c = ModeAsk)"
    using assms checkReadOnly_exact [of h c a "pc_mode c" d] by (auto simp: check_def split: if_splits)
  have dc: "deny_chain h c a = None"
  proof (rule ccontr)
    assume "deny_chain h c a \<noteq> None"
    then obtain x where "deny_chain h c a = Some x" by blast
    then show False using assms f deny_chain_Deny [of h c a x] by (auto simp: check_def)
  qed
  then have fin: "final_decision h c a = Confirm r" using assms f by (simp add: check_def)
  have "check h (relaxed c) a d = Allow" using f dc by (simp add: check_def final_decision_def)
  moreover have "\<not> (\<exists>t ps. a = ARead t ps)" using final_Confirm [OF fin] by blast
  ultimately show ?thesis using final_Confirm [OF fin] by (cases a) simp_all
qed

theorem only_confirm_asks_witness:
  "pc_mode (sample_checker ModeConfirm own_rules) = ModeConfirm \<and>
   check sample_host (relaxed (sample_checker ModeConfirm own_rules)) (AWrite (js ''write'') [js ''a.ts'']) False = Allow"
proof -
  have "check sample_host (sample_checker ModeConfirm own_rules) (AWrite (js ''write'') [js ''a.ts'']) False
      = Confirm (describeWriteForConfirm (js ''write'') [js ''a.ts''])" by code_simp
  from only_confirm_asks [OF this] show ?thesis by simp
qed


section \<open>Where the chain lets through more than the comments say\<close>

text \<open>An absolute path is matched as it is spelled, so \<open>..\<close> leaves an allow-listed directory.\<close>

definition allow_w :: permission_settings where
  "allow_w = no_settings\<lparr>ps_allowlistOnly := True,
     ps_allowPaths := Some [\<lparr> pr_glob = js ''/w/**'', pr_tools = None, pr_reason = None \<rparr>]\<rparr>"

lemma allowlist_traversal:
  "check sample_host (sample_checker ModeAuto allow_w) (AWrite (js ''write'') [js ''/w/../etc/passwd'']) False = Allow"
  "\<exists>r. check sample_host (sample_checker ModeAuto allow_w) (AWrite (js ''write'') [js ''../etc/passwd'']) False = Deny r"
proof -
  show "check sample_host (sample_checker ModeAuto allow_w) (AWrite (js ''write'') [js ''/w/../etc/passwd'']) False = Allow"
    by code_simp
  have "(case check sample_host (sample_checker ModeAuto allow_w) (AWrite (js ''write'') [js ''../etc/passwd'']) False of
      Deny r \<Rightarrow> True | _ \<Rightarrow> False)" by code_simp
  then show "\<exists>r. check sample_host (sample_checker ModeAuto allow_w) (AWrite (js ''write'') [js ''../etc/passwd'']) False = Deny r"
    by (auto split: decision.splits)
qed

text \<open>What follows the first 10,000 characters of a command line is not seen by any deny rule.\<close>

lemma command_floor_cap:
  "length pad = REGEX_TEST_TEXT_CAP \<Longrightarrow> deny_chain h c (AExec tool (pad @ rest)) = deny_chain h c (AExec tool pad)"
  unfolding deny_chain_def action.case findMatchingCommandRule_def
  by (subst find_command_cap) (simp add: REGEX_TEST_TEXT_CAP_def)

text \<open>\<open>**\<close> compiles to \<open>.*\<close>, which does not match a line break: a directory name with one hides a secrets
  file from the built-in rules.\<close>

lemma line_break_hides_secret:
  "check sample_host (sample_checker ModeAuto no_settings) (ARead (js ''read'') [js ''/w/a'' @ [10] @ js ''b/.env'']) False = Allow"
  by code_simp

text \<open>A tool named like a property every object inherits counts as classified.\<close>

lemma inherited_name_passes_plan:
  "check sample_host (sample_checker ModePlan no_settings) (ATool (js ''toString'')) False = Allow"
  by code_simp

text \<open>Under allowlistOnly an MCP tool registered without side effects passes without being in allowTools.\<close>

lemma mcp_none_passes_allowlist:
  "check sample_host (setToolSideEffects [(js ''mcp__x__y'', SeNone)] (sample_checker ModeAuto allow_w))
     (ATool (js ''mcp__x__y'')) False = Allow"
  by code_simp

end
