(* ===== verification/ConfirmGate.thy ===== *)
theory ConfirmGate
  imports PermissionSafety
begin

text \<open>
  The resolution of confirm decisions (core/permissions/confirm-gate.ts): the prompt's options, the rule
  "Allow for session" would record, and what it does to the checker's settings. The picker's answer and
  the presence of a listener are arguments. The lemmas show that the gate fails closed, that it changes the
  settings only on a session grant, and that a granted call is not asked about again.
\<close>


section \<open>Session rules\<close>

datatype session_rule = RulePaths "jsstr list" | RuleCommand jsstr | RuleTool jsstr

definition CONFIRM_DENY_LABEL :: jsstr where "CONFIRM_DENY_LABEL = js ''Deny''"

definition CONFIRM_ALLOW_ONCE_LABEL :: jsstr where "CONFIRM_ALLOW_ONCE_LABEL = js ''Allow once''"

definition CONFIRM_ALLOW_SESSION_LABEL :: jsstr where "CONFIRM_ALLOW_SESSION_LABEL = js ''Allow for session''"

definition SESSION_RULE_REASON :: jsstr where
  "SESSION_RULE_REASON = js ''approved for this session (confirm mode)''"

definition headlessConfirmDenyReason :: "jsstr \<Rightarrow> jsstr" where
  "headlessConfirmDenyReason what =
     js ''confirm mode requires an interactive session to approve '' @ quoted what @ [32, 0x2014, 32] @
     js ''run interactively, or use auto (or allowlistOnly for CI).''"

definition REGEX_META :: "jsstr" where
  "REGEX_META = js ''.*+?^${}()|[]'' @ [92]"

definition escapeRegExp :: "jsstr \<Rightarrow> jsstr" where
  "escapeRegExp v = concat (map (\<lambda>c. if c \<in> set REGEX_META then [92, c] else [c]) v)"

text \<open>\<open>split(/\s+/).filter(Boolean)\<close>: the maximal runs of characters that are not white space.\<close>

function words_of :: "jsstr \<Rightarrow> jsstr list" where
  "words_of s =
     (let t = dropWhile is_ws s
      in if t = [] then [] else takeWhile (\<lambda>c. \<not> is_ws c) t # words_of (dropWhile (\<lambda>c. \<not> is_ws c) t))"
  by pat_completeness auto
termination
proof (relation "measure length")
  fix s t
  assume t: "t = dropWhile is_ws s" "t \<noteq> []"
  then have "\<not> is_ws (hd t)" by (simp add: hd_dropWhile)
  then have "length (dropWhile (\<lambda>c. \<not> is_ws c) t) < length t"
    using t(2) by (cases t) (simp_all add: length_dropWhile_le less_Suc_eq_le)
  also have "\<dots> \<le> length s" using t(1) by (simp add: length_dropWhile_le)
  finally show "(dropWhile (\<lambda>c. \<not> is_ws c) t, s) \<in> measure length" by simp
qed simp

declare words_of.simps [simp del]

definition is_letter :: "jschar \<Rightarrow> bool" where
  "is_letter c \<longleftrightarrow> (65 \<le> c \<and> c \<le> 90) \<or> (97 \<le> c \<and> c \<le> 122)"

definition is_num :: "jschar \<Rightarrow> bool" where
  "is_num c \<longleftrightarrow> 48 \<le> c \<and> c \<le> 57"

definition is_word_char :: "jschar \<Rightarrow> bool" where
  "is_word_char c \<longleftrightarrow> is_letter c \<or> is_num c \<or> c = 95"

text \<open>\<open>/^[a-z][a-z0-9_-]*$/i\<close>\<close>

definition is_subcommand :: "jsstr \<Rightarrow> bool" where
  "is_subcommand w \<longleftrightarrow> w \<noteq> [] \<and> is_letter (hd w) \<and> list_all (\<lambda>c. is_word_char c \<or> c = 45) (tl w)"

definition commandPrefixPattern :: "jsstr \<Rightarrow> jsstr" where
  "commandPrefixPattern command =
     (case words_of (trim command) of
        [] \<Rightarrow> []
      | w # ws \<Rightarrow>
          let parts = (case ws of [] \<Rightarrow> [w] | v # _ \<Rightarrow> if is_subcommand v then [w, v] else [w]);
              l = last parts
          in [94] @ join [92, 115, 43] (map escapeRegExp parts) @
             (if l \<noteq> [] \<and> is_word_char (last l) then [92, 98] else []))"

definition sessionRuleForAction :: "jsstr \<Rightarrow> action \<Rightarrow> session_rule option" where
  "sessionRuleForAction cwd a =
     (case a of
        AWrite tool paths \<Rightarrow>
          if paths = [] then None
          else Some (RulePaths (rev (remdups (rev (map (\<lambda>p. normalizeTargetPath p cwd) paths)))))
      | AExec tool command \<Rightarrow>
          (let pattern = commandPrefixPattern command in if pattern = [] then None else Some (RuleCommand pattern))
      | ATool tool \<Rightarrow> Some (RuleTool tool)
      | ARead tool paths \<Rightarrow> None)"

definition describeSessionRule :: "session_rule \<Rightarrow> jsstr" where
  "describeSessionRule rule =
     (case rule of
        RulePaths globs \<Rightarrow>
          if length globs = 1 then js ''allowPaths += '' @ hd globs
          else js ''allowPaths += '' @ digits (length globs) @ js '' paths ('' @ hd globs @ js '', '' @ ellipsis @ js '')''
      | RuleCommand pattern \<Rightarrow> js ''allowCommands += /'' @ pattern @ js ''/''
      | RuleTool tool \<Rightarrow> js ''allowTools += '' @ tool)"

definition remember_in :: "session_rule \<Rightarrow> permission_settings \<Rightarrow> permission_settings" where
  "remember_in rule s =
     (case rule of
        RulePaths globs \<Rightarrow>
          s\<lparr>ps_allowPaths := Some (or_empty (ps_allowPaths s) @
             map (\<lambda>g. \<lparr> pr_glob = g, pr_tools = None, pr_reason = Some SESSION_RULE_REASON \<rparr>) globs)\<rparr>
      | RuleCommand pattern \<Rightarrow>
          s\<lparr>ps_allowCommands := Some (or_empty (ps_allowCommands s) @
             [\<lparr> cr_pattern = pattern, cr_flags = None, cr_reason = Some SESSION_RULE_REASON \<rparr>])\<rparr>
      | RuleTool tool \<Rightarrow>
          if tool \<in> set (or_empty (ps_allowTools s)) then s
          else s\<lparr>ps_allowTools := Some (or_empty (ps_allowTools s) @ [tool])\<rparr>)"

definition rememberSessionRule :: "session_rule \<Rightarrow> checker \<Rightarrow> checker" where
  "rememberSessionRule rule c = updateSettings (remember_in rule (pc_settings c)) c"


section \<open>The prompt\<close>

record picker_answer =
  pa_cancelled :: bool
  pa_picked :: "jsstr list"
  pa_comment :: "jsstr option"
  pa_freeform :: "jsstr option"

datatype resolution = ResAllow bool | ResDeny jsstr

definition prompt_options :: "session_rule option \<Rightarrow> jsstr list" where
  "prompt_options rule =
     [CONFIRM_DENY_LABEL, CONFIRM_ALLOW_ONCE_LABEL] @ (if rule = None then [] else [CONFIRM_ALLOW_SESSION_LABEL])"

definition trimmed_text :: "jsstr option \<Rightarrow> jsstr" where
  "trimmed_text t = (case t of Some s \<Rightarrow> trim s | None \<Rightarrow> [])"

definition resolveConfirmDecision ::
    "bool \<Rightarrow> picker_answer \<Rightarrow> action \<Rightarrow> jsstr \<Rightarrow> checker \<Rightarrow> checker \<times> resolution" where
  "resolveConfirmDecision listener answer a reason c =
     (if \<not> listener then (c, ResDeny (headlessConfirmDenyReason reason))
      else
        let rule = sessionRuleForAction (pc_cwd c) a
        in if pa_cancelled answer then (c, ResDeny (js ''User cancelled the approval for '' @ reason @ js ''.''))
           else if CONFIRM_ALLOW_SESSION_LABEL \<in> set (pa_picked answer) \<and> rule \<noteq> None
           then (rememberSessionRule (the rule) c, ResAllow True)
           else if CONFIRM_ALLOW_ONCE_LABEL \<in> set (pa_picked answer) then (c, ResAllow False)
           else
             let comment = trimmed_text (pa_comment answer);
                 note = (if comment \<noteq> [] then comment else trimmed_text (pa_freeform answer))
             in (c, ResDeny (if note \<noteq> [] then js ''User denied '' @ reason @ js ''. Feedback: '' @ note
                             else js ''User denied '' @ reason @ js ''.'')))"

section \<open>What a grant changes\<close>

lemma remember_keeps [simp]:
  "pc_cwd (rememberSessionRule r c) = pc_cwd c" "pc_mode (rememberSessionRule r c) = pc_mode c"
  "ps_denyTools (pc_settings (rememberSessionRule r c)) = ps_denyTools (pc_settings c)"
  "builtinsActive (rememberSessionRule r c) = builtinsActive c" "failClosed (rememberSessionRule r c) = failClosed c"
  "resolvedDenyPaths (rememberSessionRule r c) b = resolvedDenyPaths c b"
  "resolvedDenyCommands (rememberSessionRule r c) b = resolvedDenyCommands c b"
  by (cases r; simp add: rememberSessionRule_def remember_in_def updateSettings_def builtinsActive_def failClosed_def
      resolvedDenyPaths_def resolvedDenyCommands_def)+

lemma deny_chain_remember [simp]: "deny_chain h (rememberSessionRule r c) a = deny_chain h c a"
  by (cases a) (simp_all add: deny_chain_def)

lemma allowPaths_remember: "allowPaths (rememberSessionRule (RulePaths gs) c) = allowPaths c @
    map (\<lambda>g. (False, \<lparr> pr_glob = g, pr_tools = None, pr_reason = Some SESSION_RULE_REASON \<rparr>)) gs"
  by (simp add: allowPaths_def rememberSessionRule_def remember_in_def updateSettings_def or_empty_def)

lemma allowCommands_remember: "allowCommands (rememberSessionRule (RuleCommand p) c) = allowCommands c @
    [\<lparr> cr_pattern = p, cr_flags = None, cr_reason = Some SESSION_RULE_REASON \<rparr>]"
  by (simp add: allowCommands_def rememberSessionRule_def remember_in_def updateSettings_def or_empty_def)

lemma allowTools_remember: "matchesAnyToolRule (ps_allowTools (pc_settings (rememberSessionRule (RuleTool t) c))) t"
  by (auto simp: matchesAnyToolRule_def tool_rule_matches_def rememberSessionRule_def remember_in_def updateSettings_def
      or_empty_def list_ex_iff)

text \<open>A call the recorded rule can cover: paths that are plain as globs, a command its own prefix pattern matches.\<close>

definition coverable :: "host \<Rightarrow> checker \<Rightarrow> action \<Rightarrow> bool" where
  "coverable h c a =
     (case a of
        AWrite tool paths \<Rightarrow>
          list_all (\<lambda>p. 42 \<notin> set (normalizeTargetPath p (pc_cwd c)) \<and> 63 \<notin> set (normalizeTargetPath p (pc_cwd c)) \<and>
            length (normalizeTargetPath p (pc_cwd c)) \<le> REGEX_TEST_TEXT_CAP) paths
      | AExec tool command \<Rightarrow>
          (case compile_rule h \<lparr> cr_pattern = commandPrefixPattern command, cr_flags = None, cr_reason = Some SESSION_RULE_REASON \<rparr> of
             None \<Rightarrow> False
           | Some re \<Rightarrow> re (haystack command))
      | _ \<Rightarrow> True)"

lemma session_grant_allows:
  assumes "sessionRuleForAction (pc_cwd c) a = Some rule" "coverable h c a"
    and "\<not> isRegexBudgetExpired (h_stall h)" "clock_forward (h_allow_clock h)" "\<not> wasRegexBudgetExceeded (h_allow_clock h)"
    and "\<forall>tool. a \<noteq> ATool tool"
  shows "checkConfirm h (rememberSessionRule rule c) a = Allow"
proof (cases a)
  case (AWrite tool paths)
  let ?gs = "rev (remdups (rev (map (\<lambda>p. normalizeTargetPath p (pc_cwd c)) paths)))"
  have rule: "rule = RulePaths ?gs" "paths \<noteq> []" using assms(1) AWrite by (auto simp: sessionRuleForAction_def split: if_splits)
  have "findMatchingGlob h (allowPaths (rememberSessionRule rule c)) (normalizeTargetPath p (pc_cwd c)) tool \<noteq> None"
    if p: "p \<in> set paths" for p
  proof -
    let ?t = "normalizeTargetPath p (pc_cwd c)"
    have m: "matchGlob h ?t ?t"
      using p assms(2,3) AWrite by (intro glob_matches_itself) (auto simp: coverable_def list_all_iff)
    have "(False, \<lparr> pr_glob = ?t, pr_tools = None, pr_reason = Some SESSION_RULE_REASON \<rparr>) \<in>
        set (allowPaths (rememberSessionRule rule c))"
      using p unfolding rule(1) allowPaths_remember by auto
    then show ?thesis using m unfolding findMatchingGlob_None
      by (auto simp: rule_matches_def rule_applies_def intro: bexI [rotated])
  qed
  then have "firstNonMatchingPath h (pc_cwd c) (allowPaths (rememberSessionRule rule c)) paths tool = None"
    by (simp add: firstNonMatchingPath_None)
  then show ?thesis using AWrite rule(2) by (simp add: checkConfirm_def)
next
  case (AExec tool command)
  let ?r = "\<lparr> cr_pattern = commandPrefixPattern command, cr_flags = None, cr_reason = Some SESSION_RULE_REASON \<rparr>"
  have rule: "rule = RuleCommand (commandPrefixPattern command)"
    using assms(1) AExec by (auto simp: sessionRuleForAction_def Let_def split: if_splits)
  have "\<forall>k. \<not> isRegexBudgetExpired (ck_elapsed (h_allow_clock h) k)" using within_budget assms(4,5) by blast
  moreover have "?r \<in> set (allowCommands (rememberSessionRule rule c))" unfolding rule allowCommands_remember by simp
  moreover have "case compile_rule h ?r of None \<Rightarrow> False | Some re \<Rightarrow> re (haystack command)"
    using assms(2) AExec by (simp add: coverable_def)
  ultimately have "findMatchingCommandRule h (h_allow_clock h) (allowCommands (rememberSessionRule rule c)) command \<noteq> None"
    by (simp add: findMatchingCommandRule_def find_command_complete find_None_iff del: not_None_eq) blast
  then show ?thesis using AExec assms(5) by (simp add: checkConfirm_def)
qed (use assms(6) in \<open>simp_all add: checkConfirm_def\<close>)


section \<open>Properties\<close>

text \<open>A session grant sticks: after "Allow for session" on a call the checker deferred, the same call is
  allowed without a prompt - whenever its paths are plain as globs, or its own prefix pattern compiles and
  matches it - and the grant changed no deny rule.\<close>

theorem session_grant_sticks:
  assumes "check h c a d = Confirm reason"
    and "resolveConfirmDecision listener answer a reason c = (c', ResAllow True)"
    and "coverable h c a"
    and "\<not> isRegexBudgetExpired (h_stall h)" "clock_forward (h_allow_clock h)" "\<not> wasRegexBudgetExceeded (h_allow_clock h)"
  shows "check h c' a d = Allow \<and> deny_chain h c' a' = deny_chain h c a'"
proof -
  obtain rule where rule: "sessionRuleForAction (pc_cwd c) a = Some rule" "c' = rememberSessionRule rule c"
    using assms(2) by (auto simp: resolveConfirmDecision_def Let_def split: if_splits)
  have f: "\<not> matchesAnyToolRule (ps_denyTools (pc_settings c)) (act_tool a)"
    "\<not> matchesAnyToolRule (ps_allowTools (pc_settings c)) (act_tool a)"
    "\<not> (pc_mode c = ModePlan \<or> pc_mode c = ModeAsk)"
    using assms(1) checkReadOnly_exact [of h c a "pc_mode c" d] by (auto simp: check_def split: if_splits)
  have dc: "deny_chain h c a = None"
  proof (rule ccontr)
    assume "deny_chain h c a \<noteq> None"
    then obtain x where "deny_chain h c a = Some x" by blast
    then show False using assms(1) f deny_chain_Deny [of h c a x] by (auto simp: check_def)
  qed
  then have fin: "final_decision h c a = Confirm reason" using assms(1) f by (simp add: check_def)
  note m = final_Confirm [OF fin]
  have "check h c' a d = Allow"
  proof (cases "\<exists>tool. a = ATool tool")
    case True
    then obtain tool where tool: "a = ATool tool" by blast
    then have "rule = RuleTool tool" using rule(1) by (simp add: sessionRuleForAction_def)
    then show ?thesis using tool f m rule(2) allowTools_remember [of tool c] by (simp add: check_def)
  next
    case False
    then have "checkConfirm h c' a = Allow"
      using session_grant_allows [OF rule(1) assms(3-6)] rule(2) by blast
    then show ?thesis using f m dc rule(2) by (simp add: check_def final_decision_def)
  qed
  then show ?thesis using rule(2) by simp
qed

definition pick_session :: picker_answer where
  "pick_session = \<lparr> pa_cancelled = False, pa_picked = [CONFIRM_ALLOW_SESSION_LABEL], pa_comment = None, pa_freeform = None \<rparr>"

theorem session_grant_sticks_witness:
  "check sample_host (fst (resolveConfirmDecision True pick_session (AWrite (js ''write'') [js ''a.ts'']) []
     (sample_checker ModeConfirm own_rules))) (AWrite (js ''write'') [js ''a.ts'']) False = Allow"
proof -
  let ?c = "sample_checker ModeConfirm own_rules"
  let ?a = "AWrite (js ''write'') [js ''a.ts'']"
  have ask: "check sample_host ?c ?a False = Confirm (describeWriteForConfirm (js ''write'') [js ''a.ts''])" by code_simp
  have ans: "resolveConfirmDecision True pick_session ?a (describeWriteForConfirm (js ''write'') [js ''a.ts'']) ?c =
      (fst (resolveConfirmDecision True pick_session ?a [] ?c), ResAllow True)"
    by (simp add: resolveConfirmDecision_def pick_session_def sessionRuleForAction_def)
  have "coverable sample_host ?c ?a" "\<not> isRegexBudgetExpired (h_stall sample_host)"
    "\<not> wasRegexBudgetExceeded (h_allow_clock sample_host)" by code_simp+
  moreover have "clock_forward (h_allow_clock sample_host)" by (simp add: clock_forward_def sample_host_def still_clock_def)
  ultimately show ?thesis using session_grant_sticks [OF ask ans] by blast
qed

text \<open>The gate fails closed: it allows only when a listener is bound and the answer, not cancelled, picks
  one of the two allow labels; the settings change only on a session grant the prompt offered, and in every
  other case the checker is left as it was.\<close>

theorem gate_fails_closed:
  "case resolveConfirmDecision listener answer a reason c of
     (c', ResAllow remembered) \<Rightarrow>
       listener \<and> pa_cancelled answer = False \<and>
       (if remembered
        then CONFIRM_ALLOW_SESSION_LABEL \<in> set (pa_picked answer) \<and>
          CONFIRM_ALLOW_SESSION_LABEL \<in> set (prompt_options (sessionRuleForAction (pc_cwd c) a)) \<and>
          c' = rememberSessionRule (the (sessionRuleForAction (pc_cwd c) a)) c
        else CONFIRM_ALLOW_ONCE_LABEL \<in> set (pa_picked answer) \<and> c' = c)
   | (c', ResDeny why) \<Rightarrow> c' = c \<and> why \<noteq> []"
  by (auto simp: resolveConfirmDecision_def Let_def prompt_options_def headlessConfirmDenyReason_def)

text \<open>The recorded glob is not escaped: approving a write to a path whose name has a star grants its siblings.\<close>

lemma session_glob_overgrants:
  "check sample_host (fst (resolveConfirmDecision True pick_session (AWrite (js ''write'') [js ''src/*'']) []
     (sample_checker ModeConfirm own_rules))) (AWrite (js ''write'') [js ''src/other.ts'']) False = Allow"
  by code_simp

text \<open>The recorded pattern is anchored at the start only, whatever follows the approved words.\<close>

lemma session_pattern_examples:
  "commandPrefixPattern (js ''git push origin'') = rx_source ''^git%s+push%b''"
  "commandPrefixPattern (js '' npm --version'') = rx_source ''^npm%b''"
  by code_simp+

end
