(* ===== verification/DoomLoop.thy ===== *)
theory DoomLoop
  imports JsBase "HOL-Library.List_Lexorder"
begin

text \<open>
  The tail-cycle detector (core/doom-loop-cycle.ts): it looks for a block of call signatures repeated back
  to back at the end of the history and gives cycles a key that does not depend on their phase. The lemmas
  show that the reported repetitions are exactly the copies of the block at the tail, that the detector is
  complete and picks the best period, and that rotating a cycle does not change its key.
\<close>


section \<open>The detector\<close>

record tail_cycle =
  tc_period :: nat
  tc_repetitions :: nat

datatype tie_break = Longer | Shorter

record cycle_options =
  co_minPeriod :: "int option"
  co_maxPeriod :: "int option"
  co_minRepetitions :: "int option"
  co_requireDistinct :: "bool option"
  co_tieBreak :: "tie_break option"
  co_maxEntries :: "nat option"

definition opt_or :: "'a option \<Rightarrow> 'a \<Rightarrow> 'a" where
  "opt_or x d = (case x of Some v \<Rightarrow> v | None \<Rightarrow> d)"

definition eff_minRepetitions :: "cycle_options \<Rightarrow> nat" where
  "eff_minRepetitions o' = nat (max 2 (opt_or (co_minRepetitions o') 3))"

definition eff_minPeriod :: "cycle_options \<Rightarrow> nat" where
  "eff_minPeriod o' = nat (max 1 (opt_or (co_minPeriod o') 1))"

text \<open>The entries of a block are compared with those of the last block one by one.\<close>

definition block_matches :: "'a list \<Rightarrow> nat \<Rightarrow> nat \<Rightarrow> nat \<Rightarrow> bool" where
  "block_matches sigs blockStart tailStart period =
     list_all (\<lambda>j. sigs ! (blockStart + j) = sigs ! (tailStart + j)) [0..<period]"

text \<open>\<open>period\<close> is at least one wherever the detector calls this; the test is written into the loop.\<close>

function count_from :: "'a list \<Rightarrow> nat \<Rightarrow> nat \<Rightarrow> nat \<Rightarrow> nat \<Rightarrow> nat" where
  "count_from sigs start len period reps =
     (if 0 < period \<and> (reps + 1) * period \<le> len
        \<and> block_matches sigs (start + len - (reps + 1) * period) (start + len - period) period
      then count_from sigs start len period (reps + 1) else reps)"
  by pat_completeness auto
termination
proof (relation "measure (\<lambda>(sigs, start, len, period, reps). Suc len - reps * period)")
  fix sigs :: "'a list" and start len period reps :: nat
  assume a: "0 < period \<and> (reps + 1) * period \<le> len
    \<and> block_matches sigs (start + len - (reps + 1) * period) (start + len - period) period"
  have "reps * period < (reps + 1) * period" using a by simp
  then show "((sigs, start, len, period, reps + 1), sigs, start, len, period, reps)
      \<in> measure (\<lambda>(sigs, start, len, period, reps). Suc len - reps * period)"
    using a by (simp add: diff_less_mono2)
qed simp

declare count_from.simps [simp del]

definition countTailRepetitions :: "'a list \<Rightarrow> nat \<Rightarrow> nat \<Rightarrow> nat \<Rightarrow> nat" where
  "countTailRepetitions sigs start len period = count_from sigs start len period 1"

definition blockHasDistinctEntries :: "'a list \<Rightarrow> nat \<Rightarrow> nat \<Rightarrow> bool" where
  "blockHasDistinctEntries sigs blockStart period =
     list_ex (\<lambda>j. sigs ! (blockStart + j) \<noteq> sigs ! blockStart) [1..<period]"

definition window_start :: "cycle_options \<Rightarrow> 'a list \<Rightarrow> nat" where
  "window_start o' sigs =
     (case co_maxEntries o' of None \<Rightarrow> 0 | Some m \<Rightarrow> if m < length sigs then length sigs - m else 0)"

definition better :: "tie_break \<Rightarrow> tail_cycle option \<Rightarrow> nat \<Rightarrow> nat \<Rightarrow> tail_cycle option" where
  "better tie best period reps =
     (case best of
        None \<Rightarrow> Some \<lparr> tc_period = period, tc_repetitions = reps \<rparr>
      | Some b \<Rightarrow>
          if tc_repetitions b < reps then Some \<lparr> tc_period = period, tc_repetitions = reps \<rparr>
          else if reps = tc_repetitions b \<and> tie = Longer \<and> tc_period b < period
          then Some \<lparr> tc_period = period, tc_repetitions = reps \<rparr>
          else best)"

definition eligible :: "cycle_options \<Rightarrow> 'a list \<Rightarrow> nat \<Rightarrow> nat \<Rightarrow> nat \<Rightarrow> bool" where
  "eligible o' sigs start len period \<longleftrightarrow>
     eff_minRepetitions o' \<le> countTailRepetitions sigs start len period \<and>
     (opt_or (co_requireDistinct o') False \<longrightarrow> blockHasDistinctEntries sigs (start + len - period) period)"

definition scan_period :: "cycle_options \<Rightarrow> 'a list \<Rightarrow> nat \<Rightarrow> nat \<Rightarrow> nat \<Rightarrow> tail_cycle option \<Rightarrow> tail_cycle option" where
  "scan_period o' sigs start len period best =
     (if eligible o' sigs start len period
      then better (opt_or (co_tieBreak o') Longer) best period (countTailRepetitions sigs start len period)
      else best)"

definition period_range :: "cycle_options \<Rightarrow> nat \<Rightarrow> nat list" where
  "period_range o' len =
     (let ceiling = len div eff_minRepetitions o';
          maxPeriod = min (opt_or (co_maxPeriod o') (int ceiling)) (int ceiling)
      in [eff_minPeriod o' ..< nat (maxPeriod + 1)])"

definition detectTailCycle :: "cycle_options \<Rightarrow> 'a list \<Rightarrow> tail_cycle option" where
  "detectTailCycle o' sigs =
     (let start = window_start o' sigs; len = length sigs - start
      in if len < eff_minPeriod o' * eff_minRepetitions o' then None
         else fold (scan_period o' sigs start len) (period_range o' len) None)"


section \<open>The key of a cycle\<close>

definition rotation :: "jsstr list \<Rightarrow> nat \<Rightarrow> jsstr list" where
  "rotation entries offset = map (\<lambda>j. entries ! ((offset + j) mod length entries)) [0..<length entries]"

definition keep_least :: "jsstr list \<Rightarrow> nat \<Rightarrow> jsstr option \<Rightarrow> jsstr option" where
  "keep_least entries offset best =
     (let joined = join newline (rotation entries offset)
      in case best of None \<Rightarrow> Some joined | Some b \<Rightarrow> if joined < b then Some joined else best)"

definition canonicalCycleKey :: "jsstr list \<Rightarrow> jsstr" where
  "canonicalCycleKey entries =
     (if entries = [] then []
      else opt_or (fold (keep_least entries) [0..<length entries] None) [])"


section \<open>The copies at the tail\<close>

text \<open>The last \<open>r\<close> blocks of length \<open>p\<close> of a window are equal.\<close>

definition tail_copies :: "'a list \<Rightarrow> nat \<Rightarrow> nat \<Rightarrow> bool" where
  "tail_copies w p r \<longleftrightarrow> r * p \<le> length w \<and> drop (length w - r * p) w = concat (replicate r (drop (length w - p) w))"

lemma block_matches_slice:
  assumes "a + p \<le> length sigs" "b + p \<le> length sigs"
  shows "block_matches sigs a b p \<longleftrightarrow> take p (drop a sigs) = take p (drop b sigs)"
proof -
  have "take p (drop a sigs) = take p (drop b sigs) \<longleftrightarrow> (\<forall>j < p. sigs ! (a + j) = sigs ! (b + j))"
    using assms by (auto simp: list_eq_iff_nth_eq)
  then show ?thesis by (auto simp: block_matches_def list_all_iff)
qed

lemma tail_copies_one: "p \<le> length w \<Longrightarrow> tail_copies w p 1"
  by (simp add: tail_copies_def)

lemma tail_copies_Suc:
  assumes "tail_copies w p r"
  shows "tail_copies w p (Suc r) \<longleftrightarrow>
    Suc r * p \<le> length w \<and> take p (drop (length w - Suc r * p) w) = drop (length w - p) w"
proof (cases "Suc r * p \<le> length w")
  case True
  let ?x = "drop (length w - Suc r * p) w"
  have d: "drop p ?x = drop (length w - r * p) w" using True by (simp add: add.commute)
  have "?x = take p ?x @ drop p ?x" by (rule append_take_drop_id [symmetric])
  also have "\<dots> = take p ?x @ concat (replicate r (drop (length w - p) w))"
    using assms d by (simp add: tail_copies_def)
  finally have x: "?x = take p ?x @ concat (replicate r (drop (length w - p) w))" .
  have "length (take p ?x) = length (drop (length w - p) w)" using True by simp
  then show ?thesis using x True unfolding tail_copies_def by (metis append_eq_append_conv concat.simps(2) replicate_Suc)
qed (simp add: tail_copies_def)

lemma tail_copies_less: "tail_copies w p (Suc r) \<Longrightarrow> tail_copies w p r"
proof -
  assume s: "tail_copies w p (Suc r)"
  let ?b = "drop (length w - p) w"
  have le: "p + r * p \<le> length w" using s by (simp add: tail_copies_def)
  then have k: "length w - r * p = p + (length w - Suc r * p)" "length ?b = p" by simp_all
  have "drop (length w - r * p) w = drop p (drop (length w - Suc r * p) w)"
    by (simp only: k(1) drop_drop)
  also have "\<dots> = drop p (?b @ concat (replicate r ?b))"
    using s unfolding tail_copies_def by (simp only: replicate_Suc concat.simps)
  also have "\<dots> = concat (replicate r ?b)" using k(2) by simp
  finally show ?thesis using le by (simp add: tail_copies_def)
qed

lemma tail_copies_mono: "tail_copies w p r \<Longrightarrow> r' \<le> r \<Longrightarrow> tail_copies w p r'"
proof (induction r)
  case (Suc r)
  then show ?case using tail_copies_less [of w p r] by (cases "r' = Suc r") auto
qed simp

text \<open>The count is the greatest number of copies.\<close>

lemma count_from_exact:
  assumes "0 < p" "start + len = length sigs" "tail_copies (drop start sigs) p r"
  shows "tail_copies (drop start sigs) p (count_from sigs start len p r) \<and>
    \<not> tail_copies (drop start sigs) p (Suc (count_from sigs start len p r))"
  using assms(3)
proof (induction "len - r * p" arbitrary: r rule: less_induct)
  case less
  define w where "w = drop start sigs"
  have len: "length w = len" using assms(2) by (simp add: w_def)
  have copies: "tail_copies w p r" using less.prems by (simp add: w_def)
  have slice: "block_matches sigs (start + len - (r + 1) * p) (start + len - p) p \<longleftrightarrow>
      take p (drop (length w - Suc r * p) w) = drop (length w - p) w" if "(r + 1) * p \<le> len"
  proof -
    have pl: "p \<le> len" using that by simp
    have "take p (drop (start + len - p) sigs) = drop (len - p) w"
      using pl assms(2) by (simp add: add.commute w_def)
    moreover have "drop (start + len - (r + 1) * p) sigs = drop (len - Suc r * p) w"
      using that by (simp add: add.commute w_def)
    ultimately show ?thesis using that pl assms(2)
      by (subst block_matches_slice) (simp_all add: len)
  qed
  show ?case
  proof (cases "(r + 1) * p \<le> len \<and> block_matches sigs (start + len - (r + 1) * p) (start + len - p) p")
    case True
    then have c: "count_from sigs start len p r = count_from sigs start len p (r + 1)"
      using assms(1) by (subst count_from.simps) simp
    have "Suc r * p \<le> length w \<and> take p (drop (length w - Suc r * p) w) = drop (length w - p) w"
      using True slice len by simp
    then have "tail_copies (drop start sigs) p (r + 1)"
      using tail_copies_Suc [OF copies] by (simp only: w_def [symmetric] Suc_eq_plus1)
    moreover have "len - (r + 1) * p < len - r * p" using True assms(1) by (simp add: diff_less_mono2)
    ultimately show ?thesis using less.hyps c by simp
  next
    case False
    then have c: "count_from sigs start len p r = r" by (subst count_from.simps) auto
    have "\<not> (Suc r * p \<le> length w \<and> take p (drop (length w - Suc r * p) w) = drop (length w - p) w)"
      using False slice len by (metis Suc_eq_plus1)
    then have "\<not> tail_copies w p (Suc r)" using tail_copies_Suc [OF copies] by blast
    then have "\<not> tail_copies (drop start sigs) p (Suc r)" unfolding w_def .
    then show ?thesis using less.prems c by simp
  qed
qed

lemma count_exact:
  assumes "0 < p" "p \<le> len" "start + len = length sigs"
  shows "r \<le> countTailRepetitions sigs start len p \<longleftrightarrow> tail_copies (drop start sigs) p r"
proof -
  have "tail_copies (drop start sigs) p 1" using assms by (intro tail_copies_one) simp
  note ex = count_from_exact [OF assms(1,3) this]
  show ?thesis
  proof
    assume "r \<le> countTailRepetitions sigs start len p"
    then show "tail_copies (drop start sigs) p r"
      using ex tail_copies_mono by (auto simp: countTailRepetitions_def)
  next
    assume t: "tail_copies (drop start sigs) p r"
    show "r \<le> countTailRepetitions sigs start len p"
    proof (rule ccontr)
      assume "\<not> r \<le> countTailRepetitions sigs start len p"
      then have "Suc (count_from sigs start len p 1) \<le> r" by (simp add: countTailRepetitions_def)
      then show False using ex tail_copies_mono [OF t] by blast
    qed
  qed
qed

section \<open>The best period\<close>

definition uniform :: "'a list \<Rightarrow> bool" where
  "uniform b \<longleftrightarrow> (\<forall>x \<in> set b. x = hd b)"

lemma distinct_entries_slice:
  assumes "0 < p" "s + p \<le> length sigs"
  shows "blockHasDistinctEntries sigs s p \<longleftrightarrow> \<not> uniform (take p (drop s sigs))"
proof -
  let ?b = "take p (drop s sigs)"
  have len: "length ?b = p" using assms(2) by simp
  have nth: "\<And>j. j < p \<Longrightarrow> ?b ! j = sigs ! (s + j)" using assms(2) by simp
  have hd: "hd ?b = sigs ! s" using assms by (simp add: hd_drop_conv_nth)
  have "uniform ?b \<longleftrightarrow> (\<forall>j < p. sigs ! (s + j) = sigs ! s)"
    unfolding uniform_def hd using len nth by (auto simp: in_set_conv_nth all_set_conv_all_nth)
  also have "\<dots> \<longleftrightarrow> (\<forall>j \<in> {1..<p}. sigs ! (s + j) = sigs ! s)"
    by (metis One_nat_def add.right_neutral atLeastLessThan_iff less_one not_less)
  finally show ?thesis by (auto simp: blockHasDistinctEntries_def list_ex_iff)
qed

text \<open>What a scan over ascending periods has found.\<close>

definition best_so_far :: "(nat \<Rightarrow> bool) \<Rightarrow> (nat \<Rightarrow> nat) \<Rightarrow> tie_break \<Rightarrow> nat list \<Rightarrow> tail_cycle option \<Rightarrow> bool" where
  "best_so_far ok cnt tie ps best \<longleftrightarrow>
     (case best of
        None \<Rightarrow> \<forall>p \<in> set ps. \<not> ok p
      | Some m \<Rightarrow> tc_period m \<in> set ps \<and> ok (tc_period m) \<and> tc_repetitions m = cnt (tc_period m) \<and>
          (\<forall>p \<in> set ps. ok p \<longrightarrow> cnt p < tc_repetitions m \<or>
             (cnt p = tc_repetitions m \<and> (if tie = Longer then p \<le> tc_period m else tc_period m \<le> p))))"

lemma better_step:
  assumes "best_so_far ok cnt tie ps best" "\<forall>q \<in> set ps. q < p"
  shows "best_so_far ok cnt tie (ps @ [p]) (if ok p then better tie best p (cnt p) else best)"
proof (cases best)
  case None
  then show ?thesis using assms by (auto simp: best_so_far_def better_def)
next
  case (Some m)
  then have m: "tc_period m \<in> set ps" "tc_period m < p" using assms by (auto simp: best_so_far_def)
  then show ?thesis using assms Some tie_break.exhaust [of tie]
    by (cases tie) (fastforce simp: best_so_far_def better_def)+
qed

lemma scan_fold:
  "sorted_wrt (<) ps \<Longrightarrow>
   best_so_far (eligible o' sigs start len) (countTailRepetitions sigs start len) (opt_or (co_tieBreak o') Longer) ps
     (fold (scan_period o' sigs start len) ps None)"
proof (induction ps rule: rev_induct)
  case Nil
  then show ?case by (simp add: best_so_far_def)
next
  case (snoc p ps)
  let ?best = "fold (scan_period o' sigs start len) ps None"
  have "\<forall>q \<in> set ps. q < p" "sorted_wrt (<) ps" using snoc.prems by (simp_all add: sorted_wrt_append)
  note step = better_step [OF snoc.IH [OF this(2)] this(1)]
  have "fold (scan_period o' sigs start len) (ps @ [p]) None = scan_period o' sigs start len p ?best" by simp
  then show ?case using step unfolding scan_period_def [of o' sigs start len p ?best] by simp
qed

text \<open>A period of the range whose block ends the window often enough, and varies where that is asked for.\<close>

definition cycles :: "cycle_options \<Rightarrow> 'a list \<Rightarrow> nat \<Rightarrow> bool" where
  "cycles o' w p \<longleftrightarrow>
     p \<in> set (period_range o' (length w)) \<and> tail_copies w p (eff_minRepetitions o') \<and>
     (opt_or (co_requireDistinct o') False \<longrightarrow> \<not> uniform (drop (length w - p) w))"

lemma period_range_bounds:
  assumes "p \<in> set (period_range o' len)"
  shows "0 < p" "p * eff_minRepetitions o' \<le> len" "p \<le> len"
proof -
  let ?c = "len div eff_minRepetitions o'"
  have p: "eff_minPeriod o' \<le> p" "p \<le> ?c"
    using assms by (auto simp: period_range_def Let_def nat_less_iff min_def split: if_splits)
  show "0 < p" using p(1) by (simp add: eff_minPeriod_def)
  have "p * eff_minRepetitions o' \<le> ?c * eff_minRepetitions o'" using p(2) by simp
  also have "\<dots> \<le> len" by simp
  finally show "p * eff_minRepetitions o' \<le> len" .
  show "p \<le> len" using p(2) by (meson div_le_dividend le_trans)
qed

lemma eligible_cycles:
  assumes "start + len = length sigs" "p \<in> set (period_range o' len)"
  shows "eligible o' sigs start len p \<longleftrightarrow> cycles o' (drop start sigs) p"
proof -
  note b = period_range_bounds [OF assms(2)]
  have "blockHasDistinctEntries sigs (start + len - p) p \<longleftrightarrow> \<not> uniform (take p (drop (start + len - p) sigs))"
    using b assms(1) by (intro distinct_entries_slice) simp_all
  moreover have "take p (drop (start + len - p) sigs) = drop (len - p) (drop start sigs)"
    using b assms(1) by (simp add: add.commute)
  moreover have "length (drop start sigs) = len" using assms(1) by simp
  ultimately show ?thesis
    using count_exact [OF b(1,3) assms(1)] assms(2) unfolding eligible_def cycles_def by metis
qed

lemma range_empty: "len < eff_minPeriod o' * eff_minRepetitions o' \<Longrightarrow> period_range o' len = []"
proof (rule ccontr)
  assume l: "len < eff_minPeriod o' * eff_minRepetitions o'" and "period_range o' len \<noteq> []"
  then have p: "eff_minPeriod o' \<in> set (period_range o' len)" by (auto simp: period_range_def Let_def)
  show False using period_range_bounds(2) [OF p] l by simp
qed

lemma detect_best:
  "best_so_far (cycles o' (drop (window_start o' sigs) sigs)) (countTailRepetitions sigs (window_start o' sigs) (length sigs - window_start o' sigs))
     (opt_or (co_tieBreak o') Longer) (period_range o' (length sigs - window_start o' sigs)) (detectTailCycle o' sigs)"
proof -
  let ?s = "window_start o' sigs"
  let ?len = "length sigs - ?s"
  have s: "?s + ?len = length sigs" by (simp add: window_start_def split: option.split)
  have "sorted_wrt (<) (period_range o' ?len)" by (simp add: period_range_def Let_def)
  note f = scan_fold [OF this, of o' sigs ?s ?len]
  have "best_so_far (eligible o' sigs ?s ?len) cnt tie (period_range o' ?len) b \<longleftrightarrow>
      best_so_far (cycles o' (drop ?s sigs)) cnt tie (period_range o' ?len) b" for cnt tie b
    using eligible_cycles [OF s] by (auto simp: best_so_far_def split: option.split)
  then show ?thesis using f range_empty [of ?len o'] by (auto simp: detectTailCycle_def Let_def)
qed


section \<open>Properties\<close>

text \<open>C39: The detector is exact: it reports nothing only when no period in range ends the window in the asked
  number of equal blocks (of varying entries, where asked); what it reports is such a period together with
  the greatest number of back-to-back copies of the last block, no other such period has more copies, and
  the tie-break decides between equal ones.\<close>

theorem detect_exact:
  "let w = drop (window_start o' sigs) sigs in
   case detectTailCycle o' sigs of
     None \<Rightarrow> {p. cycles o' w p} = {}
   | Some m \<Rightarrow>
       cycles o' w (tc_period m) \<and>
       tail_copies w (tc_period m) (tc_repetitions m) \<and> tail_copies w (tc_period m) (Suc (tc_repetitions m)) = False \<and>
       {p. cycles o' w p \<and> tail_copies w p (Suc (tc_repetitions m))} = {} \<and>
       {p. cycles o' w p \<and> tail_copies w p (tc_repetitions m) \<and>
          (if opt_or (co_tieBreak o') Longer = Longer then tc_period m < p else p < tc_period m)} = {}"
proof -
  let ?s = "window_start o' sigs"
  let ?len = "length sigs - ?s"
  let ?w = "drop ?s sigs"
  have s: "?s + ?len = length sigs" by (simp add: window_start_def split: option.split)
  have wl: "length ?w = ?len" by simp
  have cnt: "r \<le> countTailRepetitions sigs ?s ?len p \<longleftrightarrow> tail_copies ?w p r"
    if "p \<in> set (period_range o' ?len)" for p r
    using count_exact [OF period_range_bounds(1) [OF that] period_range_bounds(3) [OF that] s] .
  have cy: "cycles o' ?w p \<Longrightarrow> p \<in> set (period_range o' ?len)" for p by (simp add: cycles_def)
  show ?thesis
  proof (cases "detectTailCycle o' sigs")
    case None
    then show ?thesis using detect_best [of o' sigs] cy by (auto simp: best_so_far_def Let_def)
  next
    case (Some m)
    note b = detect_best [of o' sigs, unfolded Some best_so_far_def option.case]
    have m: "tc_period m \<in> set (period_range o' ?len)" "cycles o' ?w (tc_period m)"
      "tc_repetitions m = countTailRepetitions sigs ?s ?len (tc_period m)" using b by auto
    have "tail_copies ?w (tc_period m) (tc_repetitions m)" "\<not> tail_copies ?w (tc_period m) (Suc (tc_repetitions m))"
      using cnt [OF m(1)] m(3) by (metis order_refl, metis not_less_eq_eq order_refl)
    moreover have "\<not> tail_copies ?w p (Suc (tc_repetitions m))" if p: "cycles o' ?w p" for p
    proof -
      have "countTailRepetitions sigs ?s ?len p < tc_repetitions m \<or>
          countTailRepetitions sigs ?s ?len p = tc_repetitions m \<and>
          (if opt_or (co_tieBreak o') Longer = Longer then p \<le> tc_period m else tc_period m \<le> p)"
        using b cy [OF p] p by blast
      then have "\<not> Suc (tc_repetitions m) \<le> countTailRepetitions sigs ?s ?len p" by auto
      then show ?thesis using cnt [OF cy [OF p]] by blast
    qed
    moreover have "\<not> (if opt_or (co_tieBreak o') Longer = Longer then tc_period m < p else p < tc_period m)"
      if p: "cycles o' ?w p" "tail_copies ?w p (tc_repetitions m)" for p
    proof -
      have "tc_repetitions m \<le> countTailRepetitions sigs ?s ?len p" using cnt [OF cy [OF p(1)]] p(2) by simp
      moreover have "countTailRepetitions sigs ?s ?len p < tc_repetitions m \<or>
          countTailRepetitions sigs ?s ?len p = tc_repetitions m \<and>
          (if opt_or (co_tieBreak o') Longer = Longer then p \<le> tc_period m else tc_period m \<le> p)"
        using b cy [OF p(1)] p(1) by blast
      ultimately show ?thesis by (auto split: if_splits)
    qed
    ultimately show ?thesis using Some m(2) by (simp add: Let_def)
  qed
qed

section \<open>Rotations\<close>

lemma rotation_rotate: "rotation entries k = rotate k entries"
proof (rule nth_equalityI)
  fix i
  assume "i < length (rotation entries k)"
  then show "rotation entries k ! i = rotate k entries ! i" by (simp add: rotation_def nth_rotate)
qed (simp add: rotation_def)

lemma keep_least_fold:
  "fold (keep_least entries) ks best =
     (if best = None \<and> ks = [] then None
      else Some (Min (set (map (\<lambda>k. join newline (rotation entries k)) ks) \<union> set_option best)))"
proof (induction ks arbitrary: best)
  case Nil
  then show ?case by (cases best) auto
next
  case (Cons k ks)
  let ?j = "join newline (rotation entries k)"
  let ?J = "set (map (\<lambda>k. join newline (rotation entries k)) ks)"
  have "keep_least entries k best = Some (Min (insert ?j (set_option best)))"
    by (cases best) (auto simp: keep_least_def Let_def min_def)
  then have "fold (keep_least entries) (k # ks) best = Some (Min (?J \<union> {Min (insert ?j (set_option best))}))"
    using Cons.IH [of "Some (Min (insert ?j (set_option best)))"] by simp
  moreover have "Min (?J \<union> {Min (insert ?j (set_option best))}) = Min (?J \<union> insert ?j (set_option best))"
  proof (cases "?J = {}")
    case False
    then show ?thesis by (subst (1 2) Min_Un) auto
  qed simp
  ultimately show ?case by simp
qed

lemma canonical_Min:
  "entries \<noteq> [] \<Longrightarrow> canonicalCycleKey entries = Min ((\<lambda>k. join newline (rotate k entries)) ` {0..<length entries})"
  by (simp add: canonicalCycleKey_def keep_least_fold opt_or_def rotation_rotate)

lemma rotate_range: "entries \<noteq> [] \<Longrightarrow> range (\<lambda>k. rotate k entries) = (\<lambda>k. rotate k entries) ` {0..<length entries}"
proof
  assume "entries \<noteq> []"
  then have "rotate k entries \<in> (\<lambda>k. rotate k entries) ` {0..<length entries}" for k
    by (intro image_eqI [of _ _ "k mod length entries"]) (simp_all add: rotate_conv_mod [symmetric])
  then show "range (\<lambda>k. rotate k entries) \<subseteq> (\<lambda>k. rotate k entries) ` {0..<length entries}" by blast
qed auto

lemma rotate_orbit: "range (\<lambda>k. rotate k (rotate n entries)) = range (\<lambda>k. rotate k entries)"
proof (cases "entries = []")
  case False
  show ?thesis
  proof
    show "range (\<lambda>k. rotate k (rotate n entries)) \<subseteq> range (\<lambda>k. rotate k entries)" by (auto simp: rotate_rotate)
  next
    have "rotate k entries = rotate (k + (length entries * n - n)) (rotate n entries)" for k
    proof -
      have "n \<le> length entries * n" using False by (cases entries) simp_all
      then have eq: "k + (length entries * n - n) + n = k + length entries * n"
        by (simp only: add.assoc le_add_diff_inverse2)
      have "rotate (k + (length entries * n - n)) (rotate n entries) = rotate (k + length entries * n) entries"
        by (simp only: rotate_rotate eq)
      also have "\<dots> = rotate k entries" by (metis mod_mult_self2 rotate_conv_mod)
      finally show ?thesis by simp
    qed
    then show "range (\<lambda>k. rotate k entries) \<subseteq> range (\<lambda>k. rotate k (rotate n entries))" by blast
  qed
qed simp

text \<open>A cycle's key does not depend on its phase: however far the window has slid, the rotated cycle has
  the key of the original.\<close>

theorem cycle_key_rotation_invariant:
  "canonicalCycleKey (rotate n entries) = canonicalCycleKey entries"
proof (cases "entries = []")
  case False
  then have "rotate n entries \<noteq> []" by simp
  have img: "(\<lambda>k. join newline (rotate k es)) ` {0..<length es} = join newline ` range (\<lambda>k. rotate k es)"
    if "es \<noteq> []" for es
    using rotate_range [OF that] by (simp add: image_image)
  show ?thesis
    unfolding canonical_Min [OF \<open>rotate n entries \<noteq> []\<close>] canonical_Min [OF False] img [OF \<open>rotate n entries \<noteq> []\<close>]
      img [OF False] rotate_orbit ..
qed (simp add: canonicalCycleKey_def)

end
