(* ===== verification/MessageBus.thy ===== *)
theory MessageBus
  imports Surrogate "HOL-Library.Multiset"
begin

text \<open>
  The inter-agent message bus (core/messaging/bus.ts, class AgentMessageBus): participants under unique
  ids, routing of a send to one peer or to all, the dispatch timeout, and the bounded activity log. A send
  is split at its await: the immediate outcomes, the dispatches that settle in any order while the bus goes
  on, and the record of the finished send. The lemmas show that ids are unique, that every target is
  accounted for exactly once, that a dispatch always has a way to settle and that the log holds the most
  recent sends.
\<close>


section \<open>Participants\<close>

datatype participant_kind = KindMain | KindSub

datatype participant_status = PsRunning | PsCompleted | PsAborted

text \<open>\<open>p_respond\<close> and \<open>p_deliver\<close> say whether the closure is attached.\<close>

record participant =
  p_id :: jsstr
  p_displayName :: jsstr
  p_kind :: participant_kind
  p_parentId :: "jsstr option"
  p_status :: participant_status
  p_respond :: bool
  p_deliver :: bool
  p_createdAt :: int
  p_lastActivity :: int

record peer_info =
  pi_id :: jsstr
  pi_displayName :: jsstr
  pi_kind :: participant_kind
  pi_parentId :: "jsstr option"
  pi_status :: participant_status

record activity =
  ac_from :: jsstr
  ac_to :: jsstr
  ac_message :: jsstr
  ac_reply_mode :: bool
  ac_delivered :: "jsstr list"
  ac_replies :: nat
  ac_failed :: nat
  ac_notFound :: nat
  ac_at :: int

record send_result =
  sd_from :: jsstr
  sd_to :: jsstr
  sd_delivered :: "jsstr list"
  sd_replies :: "(jsstr \<times> jsstr) list"
  sd_failed :: "(jsstr \<times> jsstr) list"
  sd_notFound :: "jsstr list"

text \<open>\<open>bus_notified\<close> counts the listener calls; a listener that throws changes nothing.\<close>

record bus =
  bus_participants :: "(jsstr, participant) jsmap"
  bus_activity :: "activity list"
  bus_listeners :: "nat list"
  bus_notified :: nat

definition DEFAULT_MESSAGE_TIMEOUT_MS :: int where "DEFAULT_MESSAGE_TIMEOUT_MS = 120000"

definition MAX_ACTIVITY :: nat where "MAX_ACTIVITY = 200"

definition ACTIVITY_MESSAGE_CLIP :: nat where "ACTIVITY_MESSAGE_CLIP = 500"

definition new_bus :: bus where
  "new_bus = \<lparr> bus_participants = [], bus_activity = [], bus_listeners = [], bus_notified = 0 \<rparr>"

definition toPeerInfo :: "participant \<Rightarrow> peer_info" where
  "toPeerInfo p = \<lparr> pi_id = p_id p, pi_displayName = p_displayName p, pi_kind = p_kind p, pi_parentId = p_parentId p,
     pi_status = p_status p \<rparr>"

text \<open>
  The search for a free suffix: \<open>left\<close> is the number of tries, one more than there are participants, so
  that one of the names is free.
\<close>

definition suffixed :: "jsstr \<Rightarrow> nat \<Rightarrow> jsstr" where
  "suffixed base n = base @ js ''-'' @ digits n"

fun free_suffix :: "(jsstr, participant) jsmap \<Rightarrow> jsstr \<Rightarrow> nat \<Rightarrow> nat \<Rightarrow> jsstr option" where
  "free_suffix m base n 0 = None"
| "free_suffix m base n (Suc left) =
     (if mhas m (suffixed base n) then free_suffix m base (Suc n) left else Some (suffixed base n))"

definition allocateId :: "jsstr \<Rightarrow> bus \<Rightarrow> jsstr option" where
  "allocateId base b =
     (let clean = (if trim base = [] then js ''Agent'' else trim base)
      in if \<not> mhas (bus_participants b) clean then Some clean
         else free_suffix (bus_participants b) clean 2 (Suc (length (bus_participants b))))"

definition bus_reserve :: "int \<Rightarrow> jsstr \<Rightarrow> participant_kind \<Rightarrow> jsstr option \<Rightarrow> jsstr option \<Rightarrow> bus \<Rightarrow> bus \<times> jsstr option" where
  "bus_reserve now base kind displayName parentId b =
     (case allocateId base b of
        None \<Rightarrow> (b, None)
      | Some pid \<Rightarrow>
          (b\<lparr>bus_participants := mset_at pid
               \<lparr> p_id = pid, p_displayName = (case displayName of Some d \<Rightarrow> d | None \<Rightarrow> pid), p_kind = kind,
                 p_parentId = parentId, p_status = PsRunning, p_respond = False, p_deliver = False,
                 p_createdAt = now, p_lastActivity = now \<rparr> (bus_participants b)\<rparr>, Some pid))"

definition touch :: "jsstr \<Rightarrow> (participant \<Rightarrow> participant) \<Rightarrow> bus \<Rightarrow> bus" where
  "touch pid f b =
     (case mget (bus_participants b) pid of None \<Rightarrow> b
      | Some p \<Rightarrow> b\<lparr>bus_participants := mset_at pid (f p) (bus_participants b)\<rparr>)"

definition attachResponder :: "int \<Rightarrow> jsstr \<Rightarrow> bus \<Rightarrow> bus" where
  "attachResponder now pid = touch pid (\<lambda>p. p\<lparr>p_respond := True, p_lastActivity := now\<rparr>)"

definition attachDelivery :: "int \<Rightarrow> jsstr \<Rightarrow> bus \<Rightarrow> bus" where
  "attachDelivery now pid = touch pid (\<lambda>p. p\<lparr>p_deliver := True, p_lastActivity := now\<rparr>)"

definition bus_setStatus :: "int \<Rightarrow> jsstr \<Rightarrow> participant_status \<Rightarrow> bus \<Rightarrow> bus" where
  "bus_setStatus now pid st = touch pid (\<lambda>p. p\<lparr>p_status := st, p_lastActivity := now\<rparr>)"

definition unregister :: "jsstr \<Rightarrow> bus \<Rightarrow> bus" where
  "unregister pid b = b\<lparr>bus_participants := mdel pid (bus_participants b)\<rparr>"

definition bus_get :: "bus \<Rightarrow> jsstr \<Rightarrow> participant option" where
  "bus_get b pid = mget (bus_participants b) pid"

definition bus_list :: "bus \<Rightarrow> participant list" where
  "bus_list b = mvalues (bus_participants b)"

definition listVisibleTo :: "bus \<Rightarrow> jsstr \<Rightarrow> peer_info list" where
  "listVisibleTo b pid = map toPeerInfo (filter (\<lambda>p. p_id p \<noteq> pid \<and> p_status p = PsRunning) (bus_list b))"

definition onActivity :: "nat \<Rightarrow> bus \<Rightarrow> bus" where
  "onActivity l b = b\<lparr>bus_listeners := List.insert l (bus_listeners b)\<rparr>"

definition offActivity :: "nat \<Rightarrow> bus \<Rightarrow> bus" where
  "offActivity l b = b\<lparr>bus_listeners := removeAll l (bus_listeners b)\<rparr>"


section \<open>Sending\<close>

definition send_targets :: "bus \<Rightarrow> jsstr \<Rightarrow> jsstr \<Rightarrow> participant list" where
  "send_targets b from to' =
     (if to' = js ''all'' then filter (\<lambda>p. p_id p \<noteq> from \<and> p_status p = PsRunning) (bus_list b)
      else case mget (bus_participants b) to' of
             None \<Rightarrow> []
           | Some t \<Rightarrow> if p_id t = from \<or> p_status t \<noteq> PsRunning then [] else [t])"

datatype outcome = Delivered | Replied jsstr | Failed jsstr

text \<open>What a target yields before the first await: \<open>None\<close> when its responder has to be awaited.\<close>

definition immediate :: "bool \<Rightarrow> (jsstr \<Rightarrow> jsstr option) \<Rightarrow> participant \<Rightarrow> outcome option" where
  "immediate awaitReply deliver p =
     (if \<not> awaitReply then
        (if \<not> p_deliver p then Some (Failed (js ''not reachable (no delivery channel attached)''))
         else case deliver (p_id p) of None \<Rightarrow> Some Delivered | Some err \<Rightarrow> Some (Failed err))
      else if \<not> p_respond p then Some (Failed (js ''not reachable (no responder attached)''))
      else None)"

definition note_outcome :: "jsstr \<times> outcome \<Rightarrow> send_result \<Rightarrow> send_result" where
  "note_outcome e r =
     (case e of (pid, x) \<Rightarrow>
        (case x of
           Delivered \<Rightarrow> r\<lparr>sd_delivered := sd_delivered r @ [pid]\<rparr>
         | Replied text \<Rightarrow> r\<lparr>sd_delivered := sd_delivered r @ [pid], sd_replies := sd_replies r @ [(pid, text)]\<rparr>
         | Failed err \<Rightarrow> r\<lparr>sd_failed := sd_failed r @ [(pid, err)]\<rparr>))"

record pending_send =
  ps_result :: send_result
  ps_waiting :: "jsstr list"

definition send_begin :: "int \<Rightarrow> jsstr \<Rightarrow> jsstr \<Rightarrow> bool \<Rightarrow> (jsstr \<Rightarrow> jsstr option) \<Rightarrow> bus \<Rightarrow> bus \<times> pending_send" where
  "send_begin now from to' awaitReply deliver b =
     (let targets = send_targets b from to';
          done_now = List.map_filter (\<lambda>p. map_option (Pair (p_id p)) (immediate awaitReply deliver p)) targets;
          base = \<lparr> sd_from = from, sd_to = to', sd_delivered = [], sd_replies = [], sd_failed = [],
                   sd_notFound = (if to' \<noteq> js ''all'' \<and> targets = [] then [to'] else []) \<rparr>
      in (fold (\<lambda>p. touch (p_id p) (\<lambda>q. q\<lparr>p_lastActivity := now\<rparr>)) targets b,
          \<lparr> ps_result = fold note_outcome done_now base,
            ps_waiting = map p_id (filter (\<lambda>p. immediate awaitReply deliver p = None) targets) \<rparr>))"

text \<open>A waiting dispatch settles: with the responder's text, or with an error, a timeout or an abort.\<close>

definition send_settle :: "jsstr \<times> outcome \<Rightarrow> pending_send \<Rightarrow> pending_send" where
  "send_settle e ps = \<lparr> ps_result = note_outcome e (ps_result ps), ps_waiting = remove1 (fst e) (ps_waiting ps) \<rparr>"

definition push_activity :: "activity \<Rightarrow> bus \<Rightarrow> bus" where
  "push_activity a b =
     (let log = bus_activity b @ [a]
      in b\<lparr>bus_activity := (if MAX_ACTIVITY < length log then tl log else log),
           bus_notified := bus_notified b + length (bus_listeners b)\<rparr>)"

definition send_finish :: "int \<Rightarrow> jsstr \<Rightarrow> bool \<Rightarrow> send_result \<Rightarrow> bus \<Rightarrow> bus" where
  "send_finish now message awaitReply r =
     push_activity \<lparr> ac_from = sd_from r, ac_to = sd_to r, ac_message = truncateWithEllipsis message ACTIVITY_MESSAGE_CLIP,
       ac_reply_mode = awaitReply, ac_delivered = sd_delivered r, ac_replies = length (sd_replies r),
       ac_failed = length (sd_failed r), ac_notFound = length (sd_notFound r), ac_at = now \<rparr>"

definition recentActivity :: "nat \<Rightarrow> bus \<Rightarrow> activity list" where
  "recentActivity limit b = (if limit = 0 then bus_activity b else slice_last limit (bus_activity b))"


section \<open>Dispatch timeouts\<close>

text \<open>The timer of a dispatch, \<open>None\<close> when there is none; \<open>signal\<close>: the caller passed an abort signal.\<close>

definition dispatch_timer :: "int option \<Rightarrow> bool \<Rightarrow> int option" where
  "dispatch_timer timeoutMs signal =
     (let t = (case timeoutMs of Some x \<Rightarrow> x | None \<Rightarrow> DEFAULT_MESSAGE_TIMEOUT_MS);
          eff = (if t \<le> 0 \<and> \<not> signal then DEFAULT_MESSAGE_TIMEOUT_MS else t)
      in if 0 < eff then Some eff else None)"

text \<open>
  The race of a dispatch over its events in time order: the responder answers or rejects, or the
  controller aborts (by the timer or by the parent signal).
\<close>

datatype race_event = RespondOk jsstr | RespondError jsstr | Abort

fun race :: "race_event list \<Rightarrow> outcome option" where
  "race [] = None"
| "race (RespondOk text # es) = Some (Replied text)"
| "race (RespondError err # es) = Some (Failed err)"
| "race (Abort # es) = Some (Failed (js ''message dispatch aborted''))"

section \<open>Ids are unique\<close>

definition bus_ok :: "bus \<Rightarrow> bool" where
  "bus_ok b \<longleftrightarrow>
     map_ok (bus_participants b) \<and> list_all (\<lambda>(k, p). p_id p = k) (bus_participants b) \<and>
     length (bus_activity b) \<le> MAX_ACTIVITY"

lemma digits_inj: "digits a = digits b \<Longrightarrow> a = b"
proof (induction a arbitrary: b rule: digits.induct)
  case (1 a)
  have char: "x = y" if c: "x < 10" "y < 10" "(of_nat (48 + x) :: jschar) = of_nat (48 + y)" for x y :: nat
  proof -
    have x: "unat (of_nat (48 + x) :: jschar) = 48 + x" by (rule of_nat_inverse [OF refl]) (use c(1) in simp)
    have y: "unat (of_nat (48 + y) :: jschar) = 48 + y" by (rule of_nat_inverse [OF refl]) (use c(2) in simp)
    have "48 + x = 48 + y" using arg_cong [OF c(3), of unat] unfolding x y .
    then show ?thesis by simp
  qed
  show ?case
  proof (cases "a < 10 \<or> b < 10")
    case True
    have "digits (a div 10) \<noteq> []" "digits (b div 10) \<noteq> []" by (rule digits_nonempty)+
    then have "a < 10 \<and> b < 10"
      using True 1(2) digits.simps [of a] digits.simps [of b] by (auto split: if_splits)
    then show ?thesis using 1(2) digits.simps [of a] digits.simps [of b] char [of a b] by simp
  next
    case False
    then have "digits (a div 10) = digits (b div 10)" "(of_nat (48 + a mod 10) :: jschar) = of_nat (48 + b mod 10)"
      using 1(2) digits.simps [of a] digits.simps [of b] by simp_all
    then have "a div 10 = b div 10" "a mod 10 = b mod 10" using 1(1) False char [of "a mod 10" "b mod 10"] by simp_all
    then show ?thesis by (metis div_mult_mod_eq)
  qed
qed

lemma suffixed_inj: "suffixed base a = suffixed base b \<Longrightarrow> a = b"
  by (auto simp: suffixed_def dest: digits_inj)

lemma free_suffix_Some: "free_suffix m base n left = Some pid \<Longrightarrow> \<not> mhas m pid"
  by (induction m base n left rule: free_suffix.induct) (auto split: if_splits)

lemma free_suffix_None:
  "free_suffix m base n left = None \<Longrightarrow> suffixed base ` {n..<n + left} \<subseteq> fst ` set m"
proof (induction m base n left rule: free_suffix.induct)
  case (2 m base n left)
  then have "mhas m (suffixed base n)" "suffixed base ` {Suc n..<Suc n + left} \<subseteq> fst ` set m"
    by (auto split: if_splits)
  moreover have "{n..<n + Suc left} = insert n {Suc n..<Suc n + left}" by auto
  ultimately show ?case by (simp add: mhas_def)
qed simp

text \<open>There are always more suffixes to try than participants.\<close>

lemma allocate_fresh: "\<exists>pid. allocateId base b = Some pid \<and> \<not> mhas (bus_participants b) pid"
proof -
  let ?m = "bus_participants b"
  have "free_suffix ?m base' n (Suc (length ?m)) \<noteq> None" for base' n
  proof
    assume "free_suffix ?m base' n (Suc (length ?m)) = None"
    note sub = free_suffix_None [OF this]
    have "inj_on (suffixed base') {n..<n + Suc (length ?m)}" by (auto intro: inj_onI suffixed_inj)
    then have "card (suffixed base' ` {n..<n + Suc (length ?m)}) = Suc (length ?m)" by (simp add: card_image)
    moreover have "card (fst ` set ?m) \<le> length ?m" by (metis card_length length_map set_map)
    ultimately show False using card_mono [OF _ sub] by simp
  qed
  then obtain pid where pid: "free_suffix ?m (if trim base = [] then js ''Agent'' else trim base) 2 (Suc (length ?m)) = Some pid"
    by (metis not_Some_eq)
  show ?thesis
  proof (cases "mhas ?m (if trim base = [] then js ''Agent'' else trim base)")
    case True
    then show ?thesis using pid free_suffix_Some [OF pid] by (simp only: allocateId_def Let_def if_False not_True_eq_False) simp
  next
    case False
    then show ?thesis by (simp only: allocateId_def Let_def if_True not_False_eq_True) simp
  qed
qed

lemma touch_ok:
  assumes "bus_ok b" "\<And>p. p_id (f p) = p_id p"
  shows "bus_ok (touch pid f b)"
proof (cases "mget (bus_participants b) pid")
  case (Some p)
  have ids: "\<And>k q. (k, q) \<in> set (bus_participants b) \<Longrightarrow> p_id q = k" using assms(1) by (auto simp: bus_ok_def list_all_iff)
  have "p_id (f p) = pid" using ids [OF mget_Some_in [OF Some]] assms(2) by simp
  then have "list_all (\<lambda>(k, q). p_id q = k) (mset_at pid (f p) (bus_participants b))"
    using ids by (auto simp: list_all_iff mset_at_def split: if_splits)
  then show ?thesis using assms(1) Some by (simp add: bus_ok_def touch_def)
qed (simp add: touch_def assms(1))

lemma fold_touch_ok: "bus_ok b \<Longrightarrow> bus_ok (fold (\<lambda>p. touch (p_id p) (\<lambda>q. q\<lparr>p_lastActivity := now\<rparr>)) ps b)"
  by (induction ps arbitrary: b) (simp_all add: touch_ok)

lemma bus_reserve_ok:
  assumes "bus_ok b"
  shows "bus_ok (fst (bus_reserve now base kind dn parent b))"
proof -
  obtain pid where pid: "allocateId base b = Some pid" "\<not> mhas (bus_participants b) pid"
    using allocate_fresh by blast
  then show ?thesis using assms
    by (auto simp: bus_reserve_def bus_ok_def mset_at_def map_ok_def mkeys_def mhas_def)
qed

lemma unregister_ok: "bus_ok b \<Longrightarrow> bus_ok (unregister pid b)"
  by (auto simp: unregister_def bus_ok_def list_all_iff mdel_def map_ok_def mkeys_def distinct_map_filter)

lemma push_activity_log: "length (bus_activity b) \<le> MAX_ACTIVITY \<Longrightarrow>
    bus_activity (push_activity a b) = slice_last MAX_ACTIVITY (bus_activity b @ [a])"
proof (cases "length (bus_activity b) = MAX_ACTIVITY")
  case True
  then have "bus_activity b \<noteq> []" by (auto simp: MAX_ACTIVITY_def)
  then show ?thesis using True by (simp add: push_activity_def Let_def slice_last_def drop_Suc MAX_ACTIVITY_def)
next
  case False
  assume "length (bus_activity b) \<le> MAX_ACTIVITY"
  then show ?thesis using False by (simp add: push_activity_def Let_def slice_last_def)
qed

interpretation bus_log: capped_log push_activity bus_activity MAX_ACTIVITY
  by unfold_locales (rule push_activity_log)

lemma push_activity_ok: "bus_ok b \<Longrightarrow> bus_ok (push_activity a b)"
  using bus_log.push_bound [of b a] by (simp add: bus_ok_def push_activity_def Let_def)

datatype bus_call =
    BcReserve int jsstr participant_kind "jsstr option" "jsstr option"
  | BcRespond int jsstr
  | BcDeliver int jsstr
  | BcStatus int jsstr participant_status
  | BcUnregister jsstr
  | BcBegin int jsstr jsstr bool "jsstr \<Rightarrow> jsstr option"
  | BcFinish int jsstr bool send_result

fun exec_bus :: "bus_call \<Rightarrow> bus \<Rightarrow> bus" where
  "exec_bus (BcReserve now base kind dn parent) b = fst (bus_reserve now base kind dn parent b)"
| "exec_bus (BcRespond now pid) b = attachResponder now pid b"
| "exec_bus (BcDeliver now pid) b = attachDelivery now pid b"
| "exec_bus (BcStatus now pid st) b = bus_setStatus now pid st b"
| "exec_bus (BcUnregister pid) b = unregister pid b"
| "exec_bus (BcBegin now from to' aw deliver) b = fst (send_begin now from to' aw deliver b)"
| "exec_bus (BcFinish now message aw r) b = send_finish now message aw r b"

lemma exec_bus_ok: "bus_ok b \<Longrightarrow> bus_ok (exec_bus c b)"
  by (cases c) (simp_all add: bus_reserve_ok attachResponder_def attachDelivery_def bus_setStatus_def touch_ok unregister_ok
      send_begin_def Let_def fold_touch_ok send_finish_def push_activity_ok)

interpretation bus_machine: event_machine exec_bus bus_ok
  by unfold_locales (rule exec_bus_ok)

section \<open>Properties\<close>

lemma note_mset:
  "mset (sd_delivered (fold note_outcome es r)) + image_mset fst (mset (sd_failed (fold note_outcome es r))) =
   mset (sd_delivered r) + image_mset fst (mset (sd_failed r)) + image_mset fst (mset es)"
proof (induction es arbitrary: r)
  case (Cons e es)
  obtain pid x where "e = (pid, x)" by fastforce
  then show ?case using Cons [of "note_outcome e r"] by (cases x) (simp_all add: note_outcome_def)
qed simp

lemma fold_settle:
  "ps_result (fold send_settle es ps) = fold note_outcome es (ps_result ps)"
  by (induction es arbitrary: ps) (simp_all add: send_settle_def)

lemma targets_split:
  "mset (map p_id ts) =
     image_mset fst (mset (List.map_filter (\<lambda>p. map_option (Pair (p_id p)) (im p)) ts)) +
     mset (map p_id (filter (\<lambda>p. im p = None) ts))"
  by (induction ts) (auto simp: List.map_filter_simps split: option.split)

lemma note_notFound [simp]: "sd_notFound (fold note_outcome es r) = sd_notFound r"
  by (induction es arbitrary: r) (auto simp: note_outcome_def split: prod.split outcome.split)

text \<open>C40: A send accounts for every target exactly once: when its waiting dispatches have settled, in any
  order, the ids delivered and the ids failed together are the targets, as a bag; the targets are running
  peers other than the sender, and a single recipient that is not one is reported as not found.\<close>

theorem send_accounts_for_targets:
  assumes "bus_ok b" "send_begin now from to' awaitReply deliver b = (b', ps)"
    and "mset (map fst es) = mset (ps_waiting ps)"
  shows "let r = ps_result (fold send_settle es ps); ts = send_targets b from to' in
    mset (sd_delivered r @ map fst (sd_failed r)) = mset (map p_id ts) \<and>
    list_all (\<lambda>t. p_id t \<noteq> from \<and> p_status t = PsRunning \<and> bus_get b (p_id t) = Some t) ts \<and>
    sd_notFound r = (if to' \<noteq> js ''all'' \<and> ts = [] then [to'] else [])"
proof -
  let ?ts = "send_targets b from to'"
  have ok: "map_ok (bus_participants b)" "\<And>k p. (k, p) \<in> set (bus_participants b) \<Longrightarrow> p_id p = k"
    using assms(1) by (auto simp: bus_ok_def list_all_iff)
  have reg: "bus_get b (p_id t) = Some t" if t: "(k, t) \<in> set (bus_participants b)" for k t
    using ok t by (simp add: bus_get_def mget_in)
  have ts: "list_all (\<lambda>t. p_id t \<noteq> from \<and> p_status t = PsRunning \<and> bus_get b (p_id t) = Some t) ?ts"
  proof (cases "to' = js ''all''")
    case True
    then show ?thesis using reg by (auto simp: send_targets_def list_all_iff bus_list_def mvalues_def)
  next
    case False
    show ?thesis
    proof (cases "mget (bus_participants b) to'")
      case (Some t)
      then have "bus_get b (p_id t) = Some t" using reg mget_Some_in by metis
      then show ?thesis using False Some by (simp add: send_targets_def)
    qed (simp add: send_targets_def False)
  qed
  have res: "ps_result ps = fold note_outcome (List.map_filter (\<lambda>p. map_option (Pair (p_id p)) (immediate awaitReply deliver p)) ?ts)
      \<lparr> sd_from = from, sd_to = to', sd_delivered = [], sd_replies = [], sd_failed = [],
        sd_notFound = (if to' \<noteq> js ''all'' \<and> ?ts = [] then [to'] else []) \<rparr>"
    and wait: "ps_waiting ps = map p_id (filter (\<lambda>p. immediate awaitReply deliver p = None) ?ts)"
    using assms(2) by (auto simp: send_begin_def Let_def)
  have es: "image_mset fst (mset es) = mset (ps_waiting ps)" using assms(3) by simp
  show ?thesis
    using ts es targets_split [of ?ts "immediate awaitReply deliver"]
    by (simp add: Let_def fold_settle note_mset res wait)
qed

theorem send_accounts_for_targets_witness:
  "\<exists>b. bus_ok b \<and> (let r = ps_result (fold send_settle [([97], Replied [49])] (snd (send_begin 5 [98] (js ''all'') True (\<lambda>i. None) b)))
     in mset (sd_delivered r @ map fst (sd_failed r)) = {#[97], [99]#})"
proof -
  let ?b = "fold exec_bus [BcReserve 0 [97] KindMain None None, BcReserve 0 [98] KindSub None None,
    BcReserve 0 [99] KindSub None None, BcRespond 1 [97]] new_bus"
  have ok: "bus_ok ?b" by (rule bus_machine.inv_run) (simp add: bus_ok_def new_bus_def)
  have sent: "send_begin 5 [98] (js ''all'') True (\<lambda>i. None) ?b =
      (fst (send_begin 5 [98] (js ''all'') True (\<lambda>i. None) ?b), snd (send_begin 5 [98] (js ''all'') True (\<lambda>i. None) ?b))" by simp
  have wait: "ps_waiting (snd (send_begin 5 [98] (js ''all'') True (\<lambda>i. None) ?b)) = [[97]]" by code_simp
  have tids: "map p_id (send_targets ?b [98] (js ''all'')) = [[97], [99]]" by code_simp
  have "mset (map fst [([97], Replied [49])]) = mset (ps_waiting (snd (send_begin 5 [98] (js ''all'') True (\<lambda>i. None) ?b)))"
    by (simp only: wait) simp
  note acc = send_accounts_for_targets [OF ok sent this, unfolded Let_def, THEN conjunct1, unfolded tids]
  show ?thesis
  proof (intro exI conjI)
    show "bus_ok ?b" by (rule ok)
    show "let r = ps_result (fold send_settle [([97], Replied [49])] (snd (send_begin 5 [98] (js ''all'') True (\<lambda>i. None) ?b)))
      in mset (sd_delivered r @ map fst (sd_failed r)) = {#[97], [99]#}"
      unfolding Let_def acc by simp
  qed
qed

text \<open>A dispatch that has a timer or a parent signal is the only kind there is: it can always be ended.\<close>

lemma dispatch_can_settle: "dispatch_timer timeoutMs signal \<noteq> None \<or> signal"
  by (auto simp: dispatch_timer_def Let_def DEFAULT_MESSAGE_TIMEOUT_MS_def split: option.split)

text \<open>The activity log after any sends holds the most recent 200 of them.\<close>

lemma activity_log_window:
  "bus_activity (fold push_activity as new_bus) = slice_last MAX_ACTIVITY as"
  using bus_log.pushes [of new_bus as] by (simp add: new_bus_def)

text \<open>\<open>recentActivity(0)\<close> returns the whole log: \<open>slice(-0)\<close> starts at the beginning.\<close>

lemma recent_zero_is_all: "recentActivity 0 b = bus_activity b"
  by (simp add: recentActivity_def)

end
