(* ===== verification/SessionTree.thy ===== *)
theory SessionTree
  imports JsBase
begin

text \<open>
  Session entries and what is computed from them (core/session-manager.ts, module level): the entry types,
  short ids, the migrations of old session files, the walk from a leaf to its root, the context sent to the
  model, and the parsing of a session file. A type variable stands for the values the module only carries
  around (message bodies, extension data). The walk follows parent ids and may not end on a file whose
  parents form a cycle, so it is a partial function.
\<close>


section \<open>Entries\<close>

text \<open>\<open>am_provider\<close> and \<open>am_model\<close> are the fields an assistant message has; the rest is \<open>am_body\<close>.\<close>

record 'x amessage =
  am_role :: jsstr
  am_provider :: jsstr
  am_model :: jsstr
  am_body :: 'x

text \<open>\<open>cp_keptIndex\<close> is \<open>firstKeptEntryIndex\<close>, which only files of version 1 have.\<close>

record 'x compaction_entry =
  cp_summary :: jsstr
  cp_firstKept :: "jsstr option"
  cp_tokensBefore :: int
  cp_details :: "'x option"
  cp_fromHook :: "bool option"
  cp_keptIndex :: "int option"

record 'x branch_summary_entry =
  br_fromId :: jsstr
  br_summary :: jsstr
  br_details :: "'x option"
  br_fromHook :: "bool option"

record 'x custom_message_entry =
  cu_customType :: jsstr
  cu_content :: 'x
  cu_details :: "'x option"
  cu_display :: bool

datatype 'x entry_body =
    BMessage "'x amessage"
  | BThinking jsstr
  | BModel jsstr jsstr
  | BCompaction "'x compaction_entry"
  | BBranchSummary "'x branch_summary_entry"
  | BCustom jsstr "'x option"
  | BCustomMessage "'x custom_message_entry"
  | BLabel jsstr "jsstr option"
  | BInfo "jsstr option"

record 'x session_entry =
  se_id :: jsstr
  se_parentId :: "jsstr option"
  se_timestamp :: jsstr
  se_body :: "'x entry_body"

record session_header =
  sh_version :: "int option"
  sh_id :: jsstr
  sh_timestamp :: jsstr
  sh_cwd :: jsstr
  sh_parentSession :: "jsstr option"

datatype 'x file_entry = FHeader session_header | FEntry "'x session_entry"

definition CURRENT_SESSION_VERSION :: int where "CURRENT_SESSION_VERSION = 3"

fun entries_of :: "'x file_entry list \<Rightarrow> 'x session_entry list" where
  "entries_of [] = []"
| "entries_of (FHeader h # fs) = entries_of fs"
| "entries_of (FEntry e # fs) = e # entries_of fs"

fun header_of :: "'x file_entry list \<Rightarrow> session_header option" where
  "header_of [] = None"
| "header_of (FHeader h # fs) = Some h"
| "header_of (FEntry e # fs) = header_of fs"

text \<open>
  \<open>generateId\<close>: \<open>uuid i\<close> is what the i-th call of \<open>randomUUID\<close> returns. A hundred short candidates, then
  a full one that is not checked.
\<close>

definition generateId :: "(nat \<Rightarrow> jsstr) \<Rightarrow> (jsstr \<Rightarrow> bool) \<Rightarrow> jsstr" where
  "generateId uuid has =
     (case find (\<lambda>i. \<not> has (take 8 (uuid i))) [0..<100] of
        Some i \<Rightarrow> take 8 (uuid i)
      | None \<Rightarrow> uuid 100)"


section \<open>Migrations\<close>

text \<open>
  \<open>entries[i]\<close> while the list is being migrated: \<open>done\<close> entries have their new ids, the later ones, as
  read from a file of version 1, have none.
\<close>

definition kept_anchor :: "'x file_entry list \<Rightarrow> 'x file_entry list \<Rightarrow> 'x compaction_entry \<Rightarrow> 'x compaction_entry" where
  "kept_anchor done rest c =
     (case cp_keptIndex c of
        None \<Rightarrow> c
      | Some i \<Rightarrow>
          (let c' = (if i < 0 \<or> int (length done + length rest) \<le> i then c
                     else case (done @ rest) ! nat i of
                            FHeader h \<Rightarrow> c
                          | FEntry t \<Rightarrow> c\<lparr>cp_firstKept := (if nat i < length done then Some (se_id t) else None)\<rparr>)
           in c'\<lparr>cp_keptIndex := None\<rparr>))"

text \<open>The set of ids the code passes to \<open>generateId\<close> here is never added to, so the check never fails.\<close>

fun migrate_entries :: "(nat \<Rightarrow> nat \<Rightarrow> jsstr) \<Rightarrow> 'x file_entry list \<Rightarrow> jsstr option \<Rightarrow> 'x file_entry list
    \<Rightarrow> 'x file_entry list" where
  "migrate_entries uuids done prev [] = done"
| "migrate_entries uuids done prev (FHeader h # es) =
     migrate_entries uuids (done @ [FHeader (h\<lparr>sh_version := Some 2\<rparr>)]) prev es"
| "migrate_entries uuids done prev (FEntry e # es) =
     (let nid = generateId (uuids (length done)) (\<lambda>x. False);
          e1 = e\<lparr>se_id := nid, se_parentId := prev\<rparr>;
          e2 = (case se_body e1 of
                  BCompaction c \<Rightarrow> e1\<lparr>se_body := BCompaction (kept_anchor (done @ [FEntry e1]) es c)\<rparr>
                | _ \<Rightarrow> e1)
      in migrate_entries uuids (done @ [FEntry e2]) (Some nid) es)"

definition migrateV1ToV2 :: "(nat \<Rightarrow> nat \<Rightarrow> jsstr) \<Rightarrow> 'x file_entry list \<Rightarrow> 'x file_entry list" where
  "migrateV1ToV2 uuids es = migrate_entries uuids [] None es"

definition hook_to_custom :: "'x amessage \<Rightarrow> 'x amessage" where
  "hook_to_custom m = (if am_role m = js ''hookMessage'' then m\<lparr>am_role := js ''custom''\<rparr> else m)"

fun migrate_hook :: "'x file_entry \<Rightarrow> 'x file_entry" where
  "migrate_hook (FHeader h) = FHeader (h\<lparr>sh_version := Some 3\<rparr>)"
| "migrate_hook (FEntry e) =
     (case se_body e of BMessage m \<Rightarrow> FEntry (e\<lparr>se_body := BMessage (hook_to_custom m)\<rparr>) | _ \<Rightarrow> FEntry e)"

definition migrateV2ToV3 :: "'x file_entry list \<Rightarrow> 'x file_entry list" where
  "migrateV2ToV3 es = map migrate_hook es"

definition migrateToCurrentVersion :: "(nat \<Rightarrow> nat \<Rightarrow> jsstr) \<Rightarrow> 'x file_entry list \<Rightarrow> 'x file_entry list \<times> bool" where
  "migrateToCurrentVersion uuids es =
     (let version = (case header_of es of Some h \<Rightarrow> (case sh_version h of Some v \<Rightarrow> v | None \<Rightarrow> 1) | None \<Rightarrow> 1)
      in if CURRENT_SESSION_VERSION \<le> version then (es, False)
         else let es1 = (if version < 2 then migrateV1ToV2 uuids es else es);
                  es2 = (if version < 3 then migrateV2ToV3 es1 else es1)
              in (es2, True))"


section \<open>Walks and contexts\<close>

definition is_compaction :: "'x session_entry \<Rightarrow> bool" where
  "is_compaction e = (case se_body e of BCompaction c \<Rightarrow> True | _ \<Rightarrow> False)"

definition getLatestCompactionEntry :: "'x session_entry list \<Rightarrow> 'x session_entry option" where
  "getLatestCompactionEntry es = find is_compaction (rev es)"

definition isDurableEntry :: "'x file_entry \<Rightarrow> bool" where
  "isDurableEntry f =
     (case f of FHeader h \<Rightarrow> False
      | FEntry e \<Rightarrow> (case se_body e of
                      BMessage m \<Rightarrow> am_role m = js ''user'' \<or> am_role m = js ''assistant''
                    | _ \<Rightarrow> False))"

text \<open>The parent an entry's walk goes on with: an empty id counts as none.\<close>

definition parent_in :: "(jsstr, 'x session_entry) jsmap \<Rightarrow> 'x session_entry \<Rightarrow> 'x session_entry option" where
  "parent_in m e = (case se_parentId e of None \<Rightarrow> None | Some p \<Rightarrow> if p = [] then None else mget m p)"

text \<open>The path from the root to an entry; \<open>None\<close> when the walk does not end.\<close>

partial_function (option) walk :: "(jsstr, 'x session_entry) jsmap \<Rightarrow> 'x session_entry \<Rightarrow> 'x session_entry list option" where
  "walk m e = (case parent_in m e of
                 None \<Rightarrow> Some [e]
               | Some p \<Rightarrow> Option.bind (walk m p) (\<lambda>path. Some (path @ [e])))"

declare walk.simps [code]

datatype 'x ctx_message =
    CMessage "'x amessage"
  | CCustom "'x custom_message_entry" jsstr
  | CBranchSummary jsstr jsstr jsstr
  | CCompactionSummary jsstr int jsstr

record 'x session_context =
  cx_messages :: "'x ctx_message list"
  cx_thinkingLevel :: jsstr
  cx_model :: "(jsstr \<times> jsstr) option"

definition empty_context :: "'x session_context" where
  "empty_context = \<lparr> cx_messages = [], cx_thinkingLevel = js ''off'', cx_model = None \<rparr>"

text \<open>The settings loop: thinking level, model, and the last compaction with its index.\<close>

fun scan_path :: "nat \<Rightarrow> 'x session_entry list \<Rightarrow> jsstr \<times> (jsstr \<times> jsstr) option \<times> (nat \<times> 'x session_entry) option
    \<Rightarrow> jsstr \<times> (jsstr \<times> jsstr) option \<times> (nat \<times> 'x session_entry) option" where
  "scan_path i [] st = st"
| "scan_path i (e # es) (level, model, cp) =
     scan_path (Suc i) es
       (case se_body e of
          BThinking l \<Rightarrow> (l, model, cp)
        | BModel p m \<Rightarrow> (level, Some (p, m), cp)
        | BMessage m \<Rightarrow> if am_role m = js ''assistant'' then (level, Some (am_provider m, am_model m), cp)
                        else (level, model, cp)
        | BCompaction c \<Rightarrow> (level, model, Some (i, e))
        | _ \<Rightarrow> (level, model, cp))"

definition appendMessage_of :: "'x session_entry \<Rightarrow> 'x ctx_message list" where
  "appendMessage_of e =
     (case se_body e of
        BMessage m \<Rightarrow> [CMessage (hook_to_custom m)]
      | BCustomMessage c \<Rightarrow> [CCustom c (se_timestamp e)]
      | BBranchSummary b \<Rightarrow> if br_summary b \<noteq> [] then [CBranchSummary (br_summary b) (br_fromId b) (se_timestamp e)] else []
      | _ \<Rightarrow> [])"

definition summary_message :: "'x session_entry \<Rightarrow> 'x ctx_message list" where
  "summary_message e =
     (case se_body e of
        BCompaction c \<Rightarrow> [CCompactionSummary (cp_summary c) (cp_tokensBefore c) (se_timestamp e)]
      | _ \<Rightarrow> [])"

definition first_kept :: "'x session_entry \<Rightarrow> jsstr option" where
  "first_kept e = (case se_body e of BCompaction c \<Rightarrow> cp_firstKept c | _ \<Rightarrow> None)"

text \<open>\<open>path.findIndex\<close>, \<open>None\<close> for -1.\<close>

fun find_index_of :: "('a \<Rightarrow> bool) \<Rightarrow> 'a list \<Rightarrow> nat option" where
  "find_index_of P [] = None"
| "find_index_of P (x # xs) = (if P x then Some 0 else map_option Suc (find_index_of P xs))"

definition context_of_path :: "'x session_entry list \<Rightarrow> 'x session_context" where
  "context_of_path path =
     (case scan_path 0 path (js ''off'', None, None) of
        (level, model, None) \<Rightarrow>
          \<lparr> cx_messages = concat (map appendMessage_of path), cx_thinkingLevel = level, cx_model = model \<rparr>
      | (level, model, Some (ci, c)) \<Rightarrow>
          (let start = (case find_index_of (\<lambda>e. Some (se_id e) = first_kept c) path of None \<Rightarrow> 0 | Some i \<Rightarrow> i)
           in \<lparr> cx_messages = summary_message c @ concat (map appendMessage_of (js_slice path start ci))
                  @ concat (map appendMessage_of (drop (Suc ci) path)),
                cx_thinkingLevel = level, cx_model = model \<rparr>))"

text \<open>\<open>leafId\<close>: \<open>None\<close> for undefined, \<open>Some None\<close> for null. The map is built from the entries when not given.\<close>

definition index_entries :: "'x session_entry list \<Rightarrow> (jsstr, 'x session_entry) jsmap" where
  "index_entries es = fold (\<lambda>e. mset_at (se_id e) e) es []"

definition buildSessionContext :: "'x session_entry list \<Rightarrow> jsstr option option
    \<Rightarrow> (jsstr, 'x session_entry) jsmap option \<Rightarrow> 'x session_context option" where
  "buildSessionContext es leafId byId =
     (let m = (case byId of Some m \<Rightarrow> m | None \<Rightarrow> index_entries es)
      in if leafId = Some None then Some empty_context
         else let found = (case leafId of Some (Some l) \<Rightarrow> if l = [] then None else mget m l | _ \<Rightarrow> None);
                  leaf = (case found of Some e \<Rightarrow> Some e | None \<Rightarrow> if es = [] then None else Some (last es))
              in case leaf of
                   None \<Rightarrow> Some empty_context
                 | Some e \<Rightarrow> map_option context_of_path (walk m e))"


section \<open>Session files\<close>

text \<open>\<open>parse\<close> is \<open>JSON.parse\<close> on one line, \<open>None\<close> when it throws.\<close>

definition pushEntryFromLine :: "(jsstr \<Rightarrow> 'x file_entry option) \<Rightarrow> jsstr \<Rightarrow> 'x file_entry list \<Rightarrow> 'x file_entry list" where
  "pushEntryFromLine parse line es =
     (if trim line = [] then es
      else let start = (if hd line \<le> 32 then find_index_of (\<lambda>c. c = 123) line else Some 0)
           in case start of
                None \<Rightarrow> es
              | Some i \<Rightarrow> (case parse (drop i line) of None \<Rightarrow> es | Some e \<Rightarrow> es @ [e]))"

definition validateSessionEntries :: "'x file_entry list \<Rightarrow> 'x file_entry list" where
  "validateSessionEntries es = (case es of FHeader h # fs \<Rightarrow> es | _ \<Rightarrow> [])"

text \<open>The lines of a text: what is between line feeds, the last piece included when it is not empty.\<close>

fun lines_from :: "jsstr \<Rightarrow> jsstr \<Rightarrow> jsstr list" where
  "lines_from cur [] = (if cur = [] then [] else [cur])"
| "lines_from cur (c # cs) = (if c = 10 then cur # lines_from [] cs else lines_from (cur @ [c]) cs)"

text \<open>The streaming loader: \<open>decoded\<close> are the chunks as strings.\<close>

fun take_lines :: "(jsstr \<Rightarrow> 'x file_entry option) \<Rightarrow> jsstr \<Rightarrow> jsstr \<Rightarrow> 'x file_entry list \<Rightarrow> jsstr \<times> 'x file_entry list" where
  "take_lines parse cur [] es = (cur, es)"
| "take_lines parse cur (c # cs) es =
     (if c = 10 then take_lines parse [] cs (pushEntryFromLine parse cur es) else take_lines parse (cur @ [c]) cs es)"

fun stream_chunks :: "(jsstr \<Rightarrow> 'x file_entry option) \<Rightarrow> jsstr list \<Rightarrow> jsstr \<Rightarrow> 'x file_entry list \<Rightarrow> 'x file_entry list" where
  "stream_chunks parse [] leftover es = pushEntryFromLine parse leftover es"
| "stream_chunks parse (chunk # chunks) leftover es =
     (let (leftover', es') = take_lines parse [] (leftover @ chunk) es
      in stream_chunks parse chunks leftover' es')"

definition loadEntriesFromFileStreaming :: "(jsstr \<Rightarrow> 'x file_entry option) \<Rightarrow> jsstr list \<Rightarrow> 'x file_entry list" where
  "loadEntriesFromFileStreaming parse decoded = validateSessionEntries (stream_chunks parse decoded [] [])"

text \<open>What the loader finds: no readable file, a file read in one piece, or one above the size limit.\<close>

datatype file_read = NoFile | FullRead jsstr | ChunkedRead "jsstr list"

definition loadEntriesFromFile :: "(jsstr \<Rightarrow> 'x file_entry option) \<Rightarrow> file_read \<Rightarrow> 'x file_entry list" where
  "loadEntriesFromFile parse f =
     (case f of
        NoFile \<Rightarrow> []
      | ChunkedRead chunks \<Rightarrow> loadEntriesFromFileStreaming parse chunks
      | FullRead text \<Rightarrow>
          validateSessionEntries (fold (\<lambda>l es. if l = [] then es else pushEntryFromLine parse l es) (lines_from [] text) []))"

end
