(* ===== verification/SessionStore.thy ===== *)
theory SessionStore
  imports SessionTree
begin

text \<open>
  The session manager (core/session-manager.ts, class SessionManager): an append-only tree of entries with a
  leaf pointer, its indexes and caches, and its file. The record holds the private fields of the class and
  the files the manager wrote. \<open>ser\<close> is the line written for an entry, without its line feed
  (\<open>JSON.stringify\<close> and the redaction of secrets); \<open>io\<close> tells how the attempts to write go. An operation
  that appends returns whether it threw: the entry is kept in memory either way. The asynchronous drain of
  the write queue is split at its await.
\<close>


section \<open>Writing with retries\<close>

text \<open>A write succeeds, fails with a transient code (EBUSY, EPERM, EACCES), or fails for good.\<close>

datatype io_outcome = IoOk | IoTransient | IoHard

definition FS_RETRY_BACKOFF_MS :: "int list" where "FS_RETRY_BACKOFF_MS = [0, 20, 60]"

definition isTransientFsError :: "io_outcome \<Rightarrow> bool" where
  "isTransientFsError err \<longleftrightarrow> err = IoTransient"

definition shouldRetryFsAppend :: "io_outcome \<Rightarrow> nat \<Rightarrow> bool" where
  "shouldRetryFsAppend err attempt =
     (let is_last = (attempt = length FS_RETRY_BACKOFF_MS - 1)
      in if is_last \<or> \<not> isTransientFsError err then False else True)"

text \<open>The attempts from the given one on: whether the data was written; otherwise the last error is thrown.\<close>

fun append_from :: "(nat \<Rightarrow> io_outcome) \<Rightarrow> nat \<Rightarrow> nat \<Rightarrow> bool" where
  "append_from io attempt 0 = False"
| "append_from io attempt (Suc left) =
     (case io attempt of
        IoOk \<Rightarrow> True
      | err \<Rightarrow> if \<not> shouldRetryFsAppend err attempt then False else append_from io (Suc attempt) left)"

definition appendWithRetry :: "(nat \<Rightarrow> io_outcome) \<Rightarrow> bool" where
  "appendWithRetry io = append_from io 0 (length FS_RETRY_BACKOFF_MS)"

text \<open>
  \<open>writeFileAtomic\<close>: the temporary file, the attempts to rename it, the direct write they fall back to.
  A call that throws is taken to leave the destination as it was.
\<close>

record atomic_io =
  ai_tmp :: bool
  ai_rename :: "nat \<Rightarrow> io_outcome"
  ai_direct :: bool

fun rename_from :: "atomic_io \<Rightarrow> nat \<Rightarrow> nat \<Rightarrow> bool" where
  "rename_from a attempt 0 = ai_direct a"
| "rename_from a attempt (Suc left) =
     (case ai_rename a attempt of
        IoOk \<Rightarrow> True
      | err \<Rightarrow> if attempt \<noteq> length FS_RETRY_BACKOFF_MS - 1 \<and> isTransientFsError err
               then rename_from a (Suc attempt) left else ai_direct a)"

definition writeFileAtomic :: "atomic_io \<Rightarrow> bool" where
  "writeFileAtomic a = (ai_tmp a \<and> rename_from a 0 (length FS_RETRY_BACKOFF_MS))"


section \<open>State\<close>

record 'x session =
  sm_sessionId :: jsstr
  sm_sessionFile :: "jsstr option"
  sm_sessionDir :: jsstr
  sm_cwd :: jsstr
  sm_persist :: bool
  sm_flushed :: bool
  sm_persistedCount :: nat
  sm_fileEntries :: "'x file_entry list"
  sm_byId :: "(jsstr, 'x session_entry) jsmap"
  sm_labels :: "(jsstr, jsstr) jsmap"
  sm_labelTimes :: "(jsstr, jsstr) jsmap"
  sm_leafId :: "jsstr option"
  sm_hasDurable :: bool
  sm_writeQueue :: "jsstr list"
  sm_draining :: "(jsstr \<times> jsstr list) option"
  sm_failures :: nat
  sm_entriesCache :: "'x session_entry list option"
  sm_ctxCache :: "(jsstr option \<times> 'x session_context) option"
  sm_name :: "jsstr option"
  sm_disk :: "(jsstr, jsstr) jsmap"

definition disk_text :: "jsstr \<Rightarrow> 'x session \<Rightarrow> jsstr" where
  "disk_text f s = (case mget (sm_disk s) f of None \<Rightarrow> [] | Some t \<Rightarrow> t)"

definition disk_append :: "jsstr \<Rightarrow> jsstr \<Rightarrow> 'x session \<Rightarrow> 'x session" where
  "disk_append f t s = s\<lparr>sm_disk := mset_at f (disk_text f s @ t) (sm_disk s)\<rparr>"

definition disk_write :: "jsstr \<Rightarrow> jsstr \<Rightarrow> 'x session \<Rightarrow> 'x session" where
  "disk_write f t s = s\<lparr>sm_disk := mset_at f t (sm_disk s)\<rparr>"

text \<open>The file name: \<open>:\<close> and \<open>.\<close> of the ISO timestamp become dashes; the directory is a normalised path.\<close>

definition session_path :: "jsstr \<Rightarrow> jsstr \<Rightarrow> jsstr \<Rightarrow> jsstr" where
  "session_path dir timestamp sid =
     dir @ js ''/'' @ map (\<lambda>c. if c = 58 \<or> c = 46 then 45 else c) timestamp @ js ''_'' @ sid @ js ''.jsonl''"

definition newSession :: "jsstr \<Rightarrow> jsstr \<Rightarrow> jsstr option \<Rightarrow> 'x session \<Rightarrow> 'x session" where
  "newSession sid now parent s =
     (let s1 = s\<lparr>sm_sessionId := sid,
                 sm_fileEntries := [FHeader \<lparr> sh_version = Some CURRENT_SESSION_VERSION, sh_id = sid, sh_timestamp = now,
                    sh_cwd = sm_cwd s, sh_parentSession = parent \<rparr>],
                 sm_byId := [], sm_labels := [], sm_leafId := None, sm_flushed := False, sm_persistedCount := 0,
                 sm_hasDurable := False, sm_entriesCache := None, sm_ctxCache := None, sm_name := None\<rparr>
      in if sm_persist s then s1\<lparr>sm_sessionFile := Some (session_path (sm_sessionDir s) now sid)\<rparr> else s1)"

definition blank_session :: "jsstr \<Rightarrow> jsstr \<Rightarrow> bool \<Rightarrow> (jsstr, jsstr) jsmap \<Rightarrow> 'x session" where
  "blank_session cwd dir persist disk =
     \<lparr> sm_sessionId = [], sm_sessionFile = None, sm_sessionDir = dir, sm_cwd = cwd, sm_persist = persist,
       sm_flushed = False, sm_persistedCount = 0, sm_fileEntries = [], sm_byId = [], sm_labels = [], sm_labelTimes = [],
       sm_leafId = None, sm_hasDurable = False, sm_writeQueue = [], sm_draining = None, sm_failures = 0,
       sm_entriesCache = None, sm_ctxCache = None, sm_name = None, sm_disk = disk \<rparr>"

definition createSession :: "jsstr \<Rightarrow> jsstr \<Rightarrow> jsstr \<Rightarrow> jsstr \<Rightarrow> (jsstr, jsstr) jsmap \<Rightarrow> 'x session" where
  "createSession cwd dir sid now disk = newSession sid now None (blank_session cwd dir True disk)"

definition inMemorySession :: "jsstr \<Rightarrow> jsstr \<Rightarrow> jsstr \<Rightarrow> 'x session" where
  "inMemorySession cwd sid now = newSession sid now None (blank_session cwd [] False [])"

text \<open>\<open>entry.name?.trim() || undefined\<close>\<close>

definition info_name :: "jsstr option \<Rightarrow> jsstr option" where
  "info_name n = (case n of None \<Rightarrow> None | Some x \<Rightarrow> if trim x = [] then None else Some (trim x))"

definition set_label :: "jsstr \<Rightarrow> jsstr option \<Rightarrow> jsstr \<Rightarrow> 'x session \<Rightarrow> 'x session" where
  "set_label target label now s =
     (case label of
        Some l \<Rightarrow> if l = [] then s\<lparr>sm_labels := mdel target (sm_labels s), sm_labelTimes := mdel target (sm_labelTimes s)\<rparr>
                  else s\<lparr>sm_labels := mset_at target l (sm_labels s), sm_labelTimes := mset_at target now (sm_labelTimes s)\<rparr>
      | None \<Rightarrow> s\<lparr>sm_labels := mdel target (sm_labels s), sm_labelTimes := mdel target (sm_labelTimes s)\<rparr>)"

definition index_entry :: "'x session_entry \<Rightarrow> 'x session \<Rightarrow> 'x session" where
  "index_entry e s =
     (let s1 = s\<lparr>sm_byId := mset_at (se_id e) e (sm_byId s), sm_leafId := Some (se_id e)\<rparr>
      in case se_body e of
           BLabel target label \<Rightarrow> set_label target label (se_timestamp e) s1
         | BInfo name \<Rightarrow> s1\<lparr>sm_name := info_name name\<rparr>
         | _ \<Rightarrow> s1)"

definition buildIndex :: "'x session \<Rightarrow> 'x session" where
  "buildIndex s =
     fold index_entry (entries_of (sm_fileEntries s))
       (s\<lparr>sm_byId := [], sm_labels := [], sm_labelTimes := [], sm_leafId := None, sm_entriesCache := None,
          sm_ctxCache := None, sm_name := None\<rparr>)"


section \<open>Persistence\<close>

definition disk_line :: "('x file_entry \<Rightarrow> jsstr) \<Rightarrow> 'x file_entry \<Rightarrow> jsstr" where
  "disk_line ser f = ser f @ [10]"

definition rewriteFile :: "('x file_entry \<Rightarrow> jsstr) \<Rightarrow> atomic_io \<Rightarrow> 'x session \<Rightarrow> 'x session \<times> bool" where
  "rewriteFile ser aio s =
     (case sm_sessionFile s of
        None \<Rightarrow> (s, True)
      | Some f \<Rightarrow>
          if \<not> sm_persist s then (s, True)
          else if \<not> writeFileAtomic aio then (s, False)
          else ((disk_write f (join [10] (map ser (sm_fileEntries s)) @ [10]) s)
                  \<lparr>sm_persistedCount := length (sm_fileEntries s)\<rparr>, True))"

text \<open>The drain takes everything queued; while it waits for the disk, further lines may be queued.\<close>

definition drain_start :: "'x session \<Rightarrow> 'x session" where
  "drain_start s =
     (case sm_sessionFile s of
        None \<Rightarrow> s
      | Some f \<Rightarrow> if sm_draining s \<noteq> None \<or> sm_writeQueue s = [] then s
                  else s\<lparr>sm_draining := Some (f, sm_writeQueue s)\<rparr>)"

definition drain_finish :: "bool \<Rightarrow> 'x session \<Rightarrow> 'x session" where
  "drain_finish ok s =
     (case sm_draining s of
        None \<Rightarrow> s
      | Some (f, batch) \<Rightarrow>
          if \<not> ok then s\<lparr>sm_failures := Suc (sm_failures s), sm_draining := None\<rparr>
          else drain_start ((disk_append f (concat batch) s)
                 \<lparr>sm_writeQueue := drop (length batch) (sm_writeQueue s), sm_failures := 0, sm_draining := None\<rparr>))"

definition flushWrites :: "'x session \<Rightarrow> 'x session" where
  "flushWrites s = drain_start s"

definition persist_entry :: "('x file_entry \<Rightarrow> jsstr) \<Rightarrow> (nat \<Rightarrow> io_outcome) \<Rightarrow> 'x session_entry \<Rightarrow> 'x session
    \<Rightarrow> 'x session \<times> bool" where
  "persist_entry ser io e s =
     (case sm_sessionFile s of
        None \<Rightarrow> (s, True)
      | Some f \<Rightarrow>
          if \<not> sm_persist s then (s, True)
          else if \<not> sm_hasDurable s \<and> \<not> isDurableEntry (FEntry e) then (s\<lparr>sm_flushed := False\<rparr>, True)
          else
            let s1 = (if sm_hasDurable s then s else s\<lparr>sm_hasDurable := True, sm_flushed := False\<rparr>)
            in if \<not> sm_flushed s1 then
                 (let batch = concat (map (disk_line ser) (drop (sm_persistedCount s1) (sm_fileEntries s1)));
                      batch' = (if sm_writeQueue s1 \<noteq> [] then concat (sm_writeQueue s1) @ batch else batch)
                  in if appendWithRetry io
                     then ((disk_append f batch' s1)\<lparr>sm_failures := 0, sm_flushed := True,
                             sm_persistedCount := length (sm_fileEntries s1), sm_writeQueue := []\<rparr>, True)
                     else (s1\<lparr>sm_flushed := False, sm_failures := Suc (sm_failures s1)\<rparr>, False))
               else (drain_start (s1\<lparr>sm_writeQueue := sm_writeQueue s1 @ [disk_line ser (FEntry e)]\<rparr>), True))"

definition appendEntry :: "('x file_entry \<Rightarrow> jsstr) \<Rightarrow> (nat \<Rightarrow> io_outcome) \<Rightarrow> 'x session_entry \<Rightarrow> 'x session
    \<Rightarrow> 'x session \<times> bool" where
  "appendEntry ser io e s =
     (let s1 = s\<lparr>sm_fileEntries := sm_fileEntries s @ [FEntry e], sm_byId := mset_at (se_id e) e (sm_byId s),
                 sm_leafId := Some (se_id e)\<rparr>;
          s2 = (case se_body e of BInfo name \<Rightarrow> s1\<lparr>sm_name := info_name name\<rparr> | _ \<Rightarrow> s1);
          s3 = s2\<lparr>sm_entriesCache := map_option (\<lambda>es. es @ [e]) (sm_entriesCache s2)\<rparr>
      in persist_entry ser io e s3)"
section \<open>Appending\<close>

definition new_entry :: "(nat \<Rightarrow> jsstr) \<Rightarrow> jsstr \<Rightarrow> 'x entry_body \<Rightarrow> 'x session \<Rightarrow> 'x session_entry" where
  "new_entry uuid now body s =
     \<lparr> se_id = generateId uuid (mhas (sm_byId s)), se_parentId = sm_leafId s, se_timestamp = now, se_body = body \<rparr>"

text \<open>What an append needs from outside: the serialiser, the outcomes of its write, uuids and the time.\<close>

record 'x env =
  ev_ser :: "'x file_entry \<Rightarrow> jsstr"
  ev_io :: "nat \<Rightarrow> io_outcome"
  ev_uuid :: "nat \<Rightarrow> jsstr"
  ev_now :: jsstr

definition append_body :: "'x env \<Rightarrow> 'x entry_body \<Rightarrow> 'x session \<Rightarrow> 'x session \<times> bool" where
  "append_body ev body s = appendEntry (ev_ser ev) (ev_io ev) (new_entry (ev_uuid ev) (ev_now ev) body s) s"

definition appendMessage :: "'x env \<Rightarrow> 'x amessage \<Rightarrow> 'x session \<Rightarrow> 'x session \<times> bool" where
  "appendMessage ev m = append_body ev (BMessage m)"

definition appendThinkingLevelChange :: "'x env \<Rightarrow> jsstr \<Rightarrow> 'x session \<Rightarrow> 'x session \<times> bool" where
  "appendThinkingLevelChange ev level = append_body ev (BThinking level)"

definition appendModelChange :: "'x env \<Rightarrow> jsstr \<Rightarrow> jsstr \<Rightarrow> 'x session \<Rightarrow> 'x session \<times> bool" where
  "appendModelChange ev provider modelId = append_body ev (BModel provider modelId)"

definition appendCompaction :: "'x env \<Rightarrow> jsstr \<Rightarrow> jsstr \<Rightarrow> int \<Rightarrow> 'x option \<Rightarrow> bool option \<Rightarrow> 'x session \<Rightarrow> 'x session \<times> bool" where
  "appendCompaction ev summary firstKept tokensBefore details fromHook =
     append_body ev (BCompaction \<lparr> cp_summary = summary, cp_firstKept = Some firstKept, cp_tokensBefore = tokensBefore,
       cp_details = details, cp_fromHook = fromHook, cp_keptIndex = None \<rparr>)"

definition appendCustomEntry :: "'x env \<Rightarrow> jsstr \<Rightarrow> 'x option \<Rightarrow> 'x session \<Rightarrow> 'x session \<times> bool" where
  "appendCustomEntry ev customType data = append_body ev (BCustom customType data)"

definition appendSessionInfo :: "'x env \<Rightarrow> jsstr \<Rightarrow> 'x session \<Rightarrow> 'x session \<times> bool" where
  "appendSessionInfo ev name = append_body ev (BInfo (Some (trim name)))"

definition appendCustomMessageEntry :: "'x env \<Rightarrow> jsstr \<Rightarrow> 'x \<Rightarrow> bool \<Rightarrow> 'x option \<Rightarrow> 'x session \<Rightarrow> 'x session \<times> bool" where
  "appendCustomMessageEntry ev customType content display details =
     append_body ev (BCustomMessage \<lparr> cu_customType = customType, cu_content = content, cu_details = details, cu_display = display \<rparr>)"

text \<open>When the write throws, the label maps are not reached. \<open>None\<close>: the target does not exist.\<close>

definition appendLabelChange :: "'x env \<Rightarrow> jsstr \<Rightarrow> jsstr option \<Rightarrow> 'x session \<Rightarrow> ('x session \<times> bool) option" where
  "appendLabelChange ev target label s =
     (if \<not> mhas (sm_byId s) target then None
      else (case append_body ev (BLabel target label) s of
              (s1, False) \<Rightarrow> Some (s1, False)
            | (s1, True) \<Rightarrow> Some (set_label target label (ev_now ev) s1, True)))"


section \<open>Reading the tree\<close>

definition getSessionName :: "'x session \<Rightarrow> jsstr option" where
  "getSessionName s = sm_name s"

definition getLeafEntry :: "'x session \<Rightarrow> 'x session_entry option" where
  "getLeafEntry s = (case sm_leafId s of None \<Rightarrow> None | Some l \<Rightarrow> if l = [] then None else mget (sm_byId s) l)"

definition getEntry :: "'x session \<Rightarrow> jsstr \<Rightarrow> 'x session_entry option" where
  "getEntry s i = mget (sm_byId s) i"

definition getChildren :: "'x session \<Rightarrow> jsstr \<Rightarrow> 'x session_entry list" where
  "getChildren s p = filter (\<lambda>e. se_parentId e = Some p) (mvalues (sm_byId s))"

definition getLabel :: "'x session \<Rightarrow> jsstr \<Rightarrow> jsstr option" where
  "getLabel s i = mget (sm_labels s) i"

text \<open>\<open>None\<close> when the walk does not end.\<close>

definition getBranch :: "'x session \<Rightarrow> jsstr option \<Rightarrow> 'x session_entry list option" where
  "getBranch s fromId =
     (case (case fromId of Some i \<Rightarrow> Some i | None \<Rightarrow> sm_leafId s) of
        None \<Rightarrow> Some []
      | Some i \<Rightarrow> (case (if i = [] then None else mget (sm_byId s) i) of
                    None \<Rightarrow> Some []
                  | Some e \<Rightarrow> walk (sm_byId s) e))"

definition getHeader :: "'x session \<Rightarrow> session_header option" where
  "getHeader s = (case sm_fileEntries s of FHeader h # fs \<Rightarrow> Some h | fs \<Rightarrow> header_of fs)"

definition getEntries :: "'x session \<Rightarrow> 'x session \<times> 'x session_entry list" where
  "getEntries s =
     (case sm_entriesCache s of
        Some es \<Rightarrow> (s, es)
      | None \<Rightarrow> (s\<lparr>sm_entriesCache := Some (entries_of (sm_fileEntries s))\<rparr>, entries_of (sm_fileEntries s)))"

definition sessionContext :: "'x session \<Rightarrow> ('x session \<times> 'x session_context) option" where
  "sessionContext s =
     (case sm_ctxCache s of
        Some (l, ctx) \<Rightarrow>
          if l = sm_leafId s then Some (s, ctx)
          else map_option (\<lambda>ctx. ((fst (getEntries s))\<lparr>sm_ctxCache := Some (sm_leafId s, ctx)\<rparr>, ctx))
                 (buildSessionContext (snd (getEntries s)) (Some (sm_leafId s)) (Some (sm_byId s)))
      | None \<Rightarrow> map_option (\<lambda>ctx. ((fst (getEntries s))\<lparr>sm_ctxCache := Some (sm_leafId s, ctx)\<rparr>, ctx))
                  (buildSessionContext (snd (getEntries s)) (Some (sm_leafId s)) (Some (sm_byId s))))"

text \<open>
  \<open>getTree\<close>: nodes by id, children in the order of their time stamps (\<open>time_of\<close> is \<open>Date.getTime\<close>). A
  node's subtree is unfolded to a depth, the number of entries, that no chain of distinct entries exceeds.
\<close>

datatype 'x tree_node = TreeNode "'x session_entry" "jsstr option" "jsstr option" "'x tree_node list"

definition is_root :: "(jsstr, 'x session_entry) jsmap \<Rightarrow> 'x session_entry \<Rightarrow> bool" where
  "is_root m e = (case se_parentId e of None \<Rightarrow> True | Some p \<Rightarrow> p = se_id e \<or> \<not> mhas m p)"

definition node_entry :: "(jsstr, 'x session_entry) jsmap \<Rightarrow> 'x session_entry \<Rightarrow> 'x session_entry" where
  "node_entry m e = (case mget m (se_id e) of Some n \<Rightarrow> n | None \<Rightarrow> e)"

definition child_entries :: "'x session_entry list \<Rightarrow> (jsstr, 'x session_entry) jsmap \<Rightarrow> jsstr \<Rightarrow> 'x session_entry list" where
  "child_entries es m p = map (node_entry m) (filter (\<lambda>e. \<not> is_root m e \<and> se_parentId e = Some p) es)"

fun grow_tree :: "(jsstr \<Rightarrow> int) \<Rightarrow> 'x session \<Rightarrow> 'x session_entry list \<Rightarrow> (jsstr, 'x session_entry) jsmap \<Rightarrow> nat
    \<Rightarrow> 'x session_entry \<Rightarrow> 'x tree_node" where
  "grow_tree time_of s es m 0 e = TreeNode e (getLabel s (se_id e)) (mget (sm_labelTimes s) (se_id e)) []"
| "grow_tree time_of s es m (Suc depth) e =
     TreeNode e (getLabel s (se_id e)) (mget (sm_labelTimes s) (se_id e))
       (map (grow_tree time_of s es m depth)
         (sort_key (\<lambda>c. time_of (se_timestamp c)) (child_entries es m (se_id e))))"

definition getTree :: "(jsstr \<Rightarrow> int) \<Rightarrow> 'x session \<Rightarrow> 'x tree_node list" where
  "getTree time_of s =
     (let es = snd (getEntries s); m = index_entries es
      in map (grow_tree time_of s es m (length es) \<circ> node_entry m) (filter (is_root m) es))"


section \<open>Branching and files\<close>

text \<open>\<open>None\<close> for the thrown "not found".\<close>

definition branch :: "jsstr \<Rightarrow> 'x session \<Rightarrow> 'x session option" where
  "branch fromId s = (if mhas (sm_byId s) fromId then Some (s\<lparr>sm_leafId := Some fromId\<rparr>) else None)"

definition resetLeaf :: "'x session \<Rightarrow> 'x session" where
  "resetLeaf s = s\<lparr>sm_leafId := None\<rparr>"

definition branchWithSummary :: "'x env \<Rightarrow> jsstr option \<Rightarrow> jsstr \<Rightarrow> 'x option \<Rightarrow> bool option \<Rightarrow> 'x session
    \<Rightarrow> ('x session \<times> bool) option" where
  "branchWithSummary ev fromId summary details fromHook s =
     (if (case fromId of None \<Rightarrow> False | Some i \<Rightarrow> \<not> mhas (sm_byId s) i) then None
      else Some (append_body ev
             (BBranchSummary \<lparr> br_fromId = (case fromId of Some i \<Rightarrow> i | None \<Rightarrow> js ''root''), br_summary = summary,
                br_details = details, br_fromHook = fromHook \<rparr>)
             (s\<lparr>sm_leafId := fromId\<rparr>)))"

text \<open>The label entries of a branched session, each the child of the one before; \<open>uuids k\<close> are the k-th one's.\<close>

fun label_entries :: "(nat \<Rightarrow> nat \<Rightarrow> jsstr) \<Rightarrow> nat \<Rightarrow> jsstr list \<Rightarrow> jsstr option \<Rightarrow> (jsstr \<times> jsstr \<times> jsstr) list
    \<Rightarrow> 'x session_entry list" where
  "label_entries uuids k ids parent [] = []"
| "label_entries uuids k ids parent ((target, label, time) # rest) =
     (let nid = generateId (uuids k) (\<lambda>x. x \<in> set ids)
      in \<lparr> se_id = nid, se_parentId = parent, se_timestamp = time, se_body = BLabel target (Some label) \<rparr>
           # label_entries uuids (Suc k) (ids @ [nid]) (Some nid) rest)"

definition is_label :: "'x session_entry \<Rightarrow> bool" where
  "is_label e = (case se_body e of BLabel t l \<Rightarrow> True | _ \<Rightarrow> False)"

definition branched_entries :: "(nat \<Rightarrow> nat \<Rightarrow> jsstr) \<Rightarrow> 'x session \<Rightarrow> 'x session_entry list \<Rightarrow> 'x session_entry list" where
  "branched_entries uuids s path =
     (let kept = filter (\<lambda>e. \<not> is_label e) path;
          ids = map se_id kept;
          labels = map (\<lambda>(t, l). (t, l, case mget (sm_labelTimes s) t of Some x \<Rightarrow> x | None \<Rightarrow> []))
                     (filter (\<lambda>(t, l). t \<in> set ids) (sm_labels s))
      in kept @ label_entries uuids 0 ids (if kept = [] then None else Some (se_id (last kept))) labels)"

text \<open>\<open>None\<close> when the leaf is not found or its walk does not end; the flag is False when the rewrite throws.\<close>

definition createBranchedSession :: "('x file_entry \<Rightarrow> jsstr) \<Rightarrow> atomic_io \<Rightarrow> (nat \<Rightarrow> nat \<Rightarrow> jsstr) \<Rightarrow> jsstr \<Rightarrow> jsstr
    \<Rightarrow> jsstr \<Rightarrow> 'x session \<Rightarrow> ('x session \<times> bool) option" where
  "createBranchedSession ser aio uuids sid now leaf s =
     (case getBranch s (Some leaf) of
        None \<Rightarrow> None
      | Some path \<Rightarrow>
          if path = [] then None
          else
            let header = \<lparr> sh_version = Some CURRENT_SESSION_VERSION, sh_id = sid, sh_timestamp = now, sh_cwd = sm_cwd s,
                           sh_parentSession = (if sm_persist s then sm_sessionFile s else None) \<rparr>;
                files = FHeader header # map FEntry (branched_entries uuids s path);
                s1 = s\<lparr>sm_fileEntries := files, sm_sessionId := sid\<rparr>
            in if \<not> sm_persist s then Some (buildIndex s1, True)
               else let s2 = (buildIndex (s1\<lparr>sm_sessionFile := Some (session_path (sm_sessionDir s) now sid)\<rparr>))
                               \<lparr>sm_hasDurable := list_ex isDurableEntry files\<rparr>
                    in if sm_hasDurable s2
                       then (case rewriteFile ser aio s2 of
                               (s3, True) \<Rightarrow> Some (s3\<lparr>sm_flushed := True\<rparr>, True)
                             | (s3, False) \<Rightarrow> Some (s3, False))
                       else Some (s2\<lparr>sm_flushed := False, sm_persistedCount := 0\<rparr>, True))"

text \<open>
  \<open>setSessionFile\<close>: \<open>path\<close> is resolved; \<open>read\<close> says how the text of an existing file is read, \<open>sid\<close> and \<open>now\<close>
  are for a session that has to be started, \<open>uuids\<close> for a migration.
\<close>

definition setSessionFile :: "('x file_entry \<Rightarrow> jsstr) \<Rightarrow> (jsstr \<Rightarrow> 'x file_entry option) \<Rightarrow> (jsstr \<Rightarrow> file_read) \<Rightarrow> atomic_io
    \<Rightarrow> (nat \<Rightarrow> nat \<Rightarrow> jsstr) \<Rightarrow> jsstr \<Rightarrow> jsstr \<Rightarrow> jsstr \<Rightarrow> 'x session \<Rightarrow> 'x session \<times> bool" where
  "setSessionFile ser parse read aio uuids sid now path s =
     (case mget (sm_disk s) path of
        None \<Rightarrow> ((newSession sid now None (s\<lparr>sm_sessionFile := Some path\<rparr>))\<lparr>sm_sessionFile := Some path\<rparr>, True)
      | Some text \<Rightarrow>
          let files = loadEntriesFromFile parse (read text);
              s1 = s\<lparr>sm_sessionFile := Some path, sm_fileEntries := files\<rparr>
          in if files = [] then
               (case rewriteFile ser aio ((newSession sid now None s1)\<lparr>sm_sessionFile := Some path\<rparr>) of
                  (s2, True) \<Rightarrow> (s2\<lparr>sm_flushed := True\<rparr>, True)
                | (s2, False) \<Rightarrow> (s2, False))
             else
               let s2 = s1\<lparr>sm_sessionId := (case header_of files of Some h \<Rightarrow> sh_id h | None \<Rightarrow> sid)\<rparr>;
                   (files', migrated) = migrateToCurrentVersion uuids files;
                   (s3, ok) = (if migrated then rewriteFile ser aio (s2\<lparr>sm_fileEntries := files'\<rparr>) else (s2, True))
               in if \<not> ok then (s3, False)
                  else ((buildIndex s3)\<lparr>sm_flushed := True, sm_persistedCount := length (sm_fileEntries s3),
                          sm_hasDurable := list_ex isDurableEntry (sm_fileEntries s3)\<rparr>, True))"

text \<open>A fork from another project: \<open>plain\<close> is \<open>JSON.stringify\<close> alone. \<open>None\<close> for its two errors.\<close>

definition forked_text :: "('x file_entry \<Rightarrow> jsstr) \<Rightarrow> jsstr \<Rightarrow> jsstr \<Rightarrow> jsstr \<Rightarrow> jsstr \<Rightarrow> 'x file_entry list \<Rightarrow> jsstr option" where
  "forked_text plain sid now targetCwd sourcePath source =
     (if source = [] \<or> header_of source = None then None
      else Some (concat (map (disk_line plain)
             (FHeader \<lparr> sh_version = Some CURRENT_SESSION_VERSION, sh_id = sid, sh_timestamp = now, sh_cwd = targetCwd,
                sh_parentSession = Some sourcePath \<rparr> # map FEntry (entries_of source)))))"

end
