(* ===== verification/SessionHistory.thy ===== *)
theory SessionHistory
  imports SessionStore
begin

text \<open>
  What the session manager guarantees: the entries form a forest whose walks end, appending and branching
  never change the history of an entry, the cached context is the one the entries give, and the file holds
  a prefix of the entries whatever writes fail.
\<close>


section \<open>Walks on linked entries\<close>

abbreviation ids :: "'x session_entry list \<Rightarrow> jsstr list" where
  "ids es \<equiv> map se_id es"

abbreviation by_id :: "'x session_entry list \<Rightarrow> (jsstr, 'x session_entry) jsmap" where
  "by_id es \<equiv> map (\<lambda>e. (se_id e, e)) es"

text \<open>A registered parent comes before its child.\<close>

fun linked_onto :: "jsstr set \<Rightarrow> 'x session_entry list \<Rightarrow> jsstr set \<Rightarrow> bool" where
  "linked_onto known [] every = True"
| "linked_onto known (e # es) every =
     ((case se_parentId e of None \<Rightarrow> True | Some p \<Rightarrow> p \<in> every \<longrightarrow> p \<in> known) \<and>
      linked_onto (insert (se_id e) known) es every)"

definition linked :: "'x session_entry list \<Rightarrow> bool" where
  "linked es \<longleftrightarrow> linked_onto {} es (set (ids es))"

lemma linked_onto_append:
  "linked_onto known (xs @ ys) every \<longleftrightarrow> linked_onto known xs every \<and> linked_onto (known \<union> set (ids xs)) ys every"
  by (induction xs arbitrary: known) auto

lemma linked_onto_more:
  "linked_onto known es every \<Longrightarrow> (\<forall>e \<in> set es. se_parentId e \<noteq> Some x) \<Longrightarrow> linked_onto known es (insert x every)"
  by (induction es arbitrary: known) (auto split: option.splits)

lemma linked_snoc:
  assumes "linked es" "\<forall>e \<in> set es. se_parentId e \<noteq> Some (se_id x)"
    and "case se_parentId x of None \<Rightarrow> True | Some p \<Rightarrow> p \<noteq> se_id x"
  shows "linked (es @ [x])"
  using assms linked_onto_more [of "{}" es "set (ids es)" "se_id x"]
  by (auto simp: linked_def linked_onto_append split: option.splits)

lemma linked_parent:
  assumes "linked es" "es = xs @ e # ys" "se_parentId e = Some p" "p \<in> set (ids es)"
  shows "p \<in> set (ids xs)"
proof -
  have "linked_onto {} (xs @ e # ys) (set (ids es))" using assms(1,2) by (simp add: linked_def)
  then show ?thesis using assms(3,4) by (simp add: linked_onto_append)
qed

lemma mget_by_id: "distinct (ids es) \<Longrightarrow> mget (by_id es) i = Some e \<longleftrightarrow> e \<in> set es \<and> se_id e = i"
  unfolding mget_def using map_of_map_key [of se_id es "\<lambda>e. e" i e] by auto

lemma mhas_by_id: "mhas (by_id es) i \<longleftrightarrow> i \<in> set (ids es)"
  by (auto simp: mhas_def image_iff)

lemma parent_in_split:
  assumes "distinct (ids es)" "linked es" "es = xs @ e # ys" "parent_in (by_id es) e = Some p"
  shows "p \<in> set xs \<and> se_parentId e = Some (se_id p)"
proof -
  obtain q where q: "se_parentId e = Some q" "mget (by_id es) q = Some p"
    using assms(4) by (auto simp: parent_in_def split: option.splits if_splits)
  then have p: "p \<in> set es" "se_id p = q" using mget_by_id [OF assms(1)] by auto
  then have "q \<in> set (ids xs)" using linked_parent [OF assms(2,3) q(1)] by auto
  then obtain p' where p': "p' \<in> set xs" "se_id p' = q" by auto
  then have "p' = p" using p assms(1,3) by (metis Un_iff distinct_map inj_onD set_append)
  then show ?thesis using p' q(1) p(2) by simp
qed

text \<open>A path: each entry is the parent of the next, and the first one's parent is not registered.\<close>

fun chained :: "'x session_entry list \<Rightarrow> bool" where
  "chained (a # b # es) = (se_parentId b = Some (se_id a) \<and> chained (b # es))"
| "chained es = True"

lemma chained_snoc: "chained (xs @ [a, b]) \<longleftrightarrow> chained (xs @ [a]) \<and> se_parentId b = Some (se_id a)"
  by (induction xs rule: chained.induct) auto

definition root_path :: "(jsstr, 'x session_entry) jsmap \<Rightarrow> 'x session_entry \<Rightarrow> 'x session_entry list \<Rightarrow> bool" where
  "root_path m e path \<longleftrightarrow> path \<noteq> [] \<and> last path = e \<and> chained path \<and> parent_in m (hd path) = None"

lemma root_path_snoc: "root_path m p path \<Longrightarrow> se_parentId e = Some (se_id p) \<Longrightarrow> root_path m e (path @ [e])"
  unfolding root_path_def by (cases path rule: rev_cases) (auto simp: chained_snoc hd_append)

lemma walk_ends:
  assumes "distinct (ids es)" "linked es"
  shows "es = xs @ e # ys \<Longrightarrow> \<exists>path. walk (by_id es) e = Some path \<and> root_path (by_id es) e path \<and>
    set path \<subseteq> insert e (set xs) \<and> distinct path"
proof (induction "length xs" arbitrary: xs e ys rule: less_induct)
  case less
  show ?case
  proof (cases "parent_in (by_id es) e")
    case None
    then show ?thesis by (subst walk.simps) (simp add: root_path_def)
  next
    case (Some p)
    note par = parent_in_split [OF assms less.prems Some]
    then obtain us vs where xs: "xs = us @ p # vs" by (meson split_list)
    then obtain path where path: "walk (by_id es) p = Some path" "root_path (by_id es) p path"
        "set path \<subseteq> insert p (set us)" "distinct path"
      using less.hyps [of us p "vs @ e # ys"] less.prems by auto
    have "e \<notin> set xs" using assms(1) less.prems by auto
    then have "e \<notin> set path" using path(3) xs by auto
    moreover have "walk (by_id es) e = Some (path @ [e])" by (subst walk.simps) (simp add: Some path(1))
    ultimately show ?thesis using root_path_snoc [OF path(2)] par path(3,4) xs by auto
  qed
qed

lemma walk_registered:
  assumes "distinct (ids es)" "linked es" "e \<in> set es"
  shows "\<exists>path. walk (by_id es) e = Some path \<and> root_path (by_id es) e path \<and> set path \<subseteq> set es \<and> distinct path"
proof -
  obtain xs ys where "es = xs @ e # ys" using assms(3) by (meson split_list)
  then show ?thesis using walk_ends [OF assms(1,2), of xs e ys] by auto
qed

text \<open>The walk depends on the parents only, so a path determines it.\<close>

lemma walk_agree:
  assumes "\<And>e. e \<in> set es \<Longrightarrow> parent_in m' e = parent_in (by_id es) e" "distinct (ids es)" "linked es"
  shows "es = xs @ e # ys \<Longrightarrow> walk m' e = walk (by_id es) e"
proof (induction "length xs" arbitrary: xs e ys rule: less_induct)
  case less
  then have pe: "parent_in m' e = parent_in (by_id es) e" using assms(1) by auto
  show ?case
  proof (cases "parent_in (by_id es) e")
    case None
    then show ?thesis using pe by (simp add: walk.simps [of m' e] walk.simps [of "by_id es" e])
  next
    case (Some p)
    have "p \<in> set xs" using parent_in_split [OF assms(2,3) less.prems Some] by simp
    then obtain us vs where xs: "xs = us @ p # vs" by (meson split_list)
    then have "walk m' p = walk (by_id es) p" using less.hyps [of us p "vs @ e # ys"] less.prems by simp
    then show ?thesis using pe Some by (simp add: walk.simps [of m' e] walk.simps [of "by_id es" e])
  qed
qed

lemma walk_snoc:
  assumes "distinct (ids (es @ [x]))" "linked es" "\<forall>e \<in> set es. se_parentId e \<noteq> Some (se_id x)" "e \<in> set es"
  shows "walk (by_id (es @ [x])) e = walk (by_id es) e"
proof -
  have d: "distinct (ids es)" using assms(1) by simp
  have "parent_in (by_id (es @ [x])) e' = parent_in (by_id es) e'" if "e' \<in> set es" for e'
  proof (cases "se_parentId e'")
    case (Some p)
    have "p \<noteq> se_id x" using assms(3) that Some by auto
    then have "mget (by_id (es @ [x])) p = mget (by_id es) p" by (simp add: mget_def map_add_def split: option.split)
    then show ?thesis using Some by (simp add: parent_in_def)
  qed (simp add: parent_in_def)
  moreover obtain xs ys where "es = xs @ e # ys" using assms(4) by (meson split_list)
  ultimately show ?thesis using walk_agree [OF _ d assms(2)] by blast
qed

lemma walk_new:
  assumes "distinct (ids (es @ [x]))" "linked (es @ [x])" "linked es"
    and "\<forall>e \<in> set es. se_parentId e \<noteq> Some (se_id x)" "se_parentId x = Some (se_id p)" "se_id p \<noteq> []" "p \<in> set es"
  shows "walk (by_id (es @ [x])) x = map_option (\<lambda>path. path @ [x]) (walk (by_id es) p)"
proof -
  have "mget (by_id (es @ [x])) (se_id p) = Some p" using mget_by_id [OF assms(1)] assms(7) by auto
  then have par: "parent_in (by_id (es @ [x])) x = Some p" using assms(5,6) by (simp add: parent_in_def)
  show ?thesis
    by (subst walk.simps, simp only: par option.case walk_snoc [OF assms(1,3,4,7)]) (cases "walk (by_id es) p"; simp)
qed
section \<open>The invariant\<close>

abbreviation session_entries :: "'x session \<Rightarrow> 'x session_entry list" where
  "session_entries s \<equiv> entries_of (sm_fileEntries s)"

definition latest_name :: "'x session_entry list \<Rightarrow> jsstr option" where
  "latest_name es = fold (\<lambda>e n. case se_body e of BInfo x \<Rightarrow> info_name x | _ \<Rightarrow> n) es None"

definition leaf_ok :: "'x session_entry list \<Rightarrow> jsstr option \<Rightarrow> bool" where
  "leaf_ok es l = (case l of None \<Rightarrow> True | Some i \<Rightarrow> i \<in> set (ids es))"

definition cache_ok :: "'x session_entry list \<Rightarrow> (jsstr, 'x session_entry) jsmap \<Rightarrow> 'x session_entry list option
    \<Rightarrow> (jsstr option \<times> 'x session_context) option \<Rightarrow> bool" where
  "cache_ok es m entries ctxs \<longleftrightarrow>
     (case entries of None \<Rightarrow> True | Some es' \<Rightarrow> es' = es) \<and>
     (case ctxs of None \<Rightarrow> True
      | Some (l, ctx) \<Rightarrow> leaf_ok es l \<and> buildSessionContext es (Some l) (Some m) = Some ctx)"

definition session_ok :: "'x session \<Rightarrow> bool" where
  "session_ok s \<longleftrightarrow>
     sm_byId s = by_id (session_entries s) \<and> distinct (ids (session_entries s)) \<and> [] \<notin> set (ids (session_entries s)) \<and>
     linked (session_entries s) \<and> leaf_ok (session_entries s) (sm_leafId s) \<and>
     sm_name s = latest_name (session_entries s) \<and>
     cache_ok (session_entries s) (sm_byId s) (sm_entriesCache s) (sm_ctxCache s)"

text \<open>
  What \<open>randomUUID\<close> is relied on for: no candidate is empty or repeats a parent id that is not registered,
  and the last one, which is used unchecked, is new.
\<close>

definition mentioned :: "'x session \<Rightarrow> jsstr \<Rightarrow> bool" where
  "mentioned s i \<longleftrightarrow> \<not> mhas (sm_byId s) i \<and> i \<in> set (List.map_filter se_parentId (session_entries s))"

definition uuids_ok :: "(nat \<Rightarrow> jsstr) \<Rightarrow> 'x session \<Rightarrow> bool" where
  "uuids_ok uuid s \<longleftrightarrow>
     list_all (\<lambda>i. uuid i \<noteq> [] \<and> \<not> mentioned s (take 8 (uuid i))) [0..<100] \<and>
     uuid 100 \<noteq> [] \<and> \<not> mentioned s (uuid 100) \<and> \<not> mhas (sm_byId s) (uuid 100)"

lemma entries_of_snoc [simp]: "entries_of (fs @ [FEntry e]) = entries_of fs @ [e]"
  by (induction fs rule: entries_of.induct) auto

lemma entries_of_FEntry [simp]: "entries_of (map FEntry es) = es"
  by (induction es) auto

lemma generateId_fresh:
  assumes "uuids_ok uuid s"
  shows "generateId uuid (mhas (sm_byId s)) \<noteq> [] \<and> \<not> mhas (sm_byId s) (generateId uuid (mhas (sm_byId s))) \<and>
    \<not> mentioned s (generateId uuid (mhas (sm_byId s)))"
proof (cases "find (\<lambda>i. \<not> mhas (sm_byId s) (take 8 (uuid i))) [0..<100]")
  case None
  then show ?thesis using assms by (simp add: generateId_def uuids_ok_def)
next
  case (Some i)
  then have "i \<in> set [0..<100]" "\<not> mhas (sm_byId s) (take 8 (uuid i))" by (auto simp: find_Some_iff in_set_conv_nth)
  moreover have "list_all (\<lambda>i. uuid i \<noteq> [] \<and> \<not> mentioned s (take 8 (uuid i))) [0..<100]"
    using assms by (simp add: uuids_ok_def)
  ultimately have "uuid i \<noteq> [] \<and> \<not> mentioned s (take 8 (uuid i))" unfolding list_all_iff by blast
  then show ?thesis using Some \<open>\<not> mhas (sm_byId s) (take 8 (uuid i))\<close> by (simp add: generateId_def)
qed

lemma mentioned_parent: "e \<in> set (session_entries s) \<Longrightarrow> se_parentId e = Some i \<Longrightarrow> \<not> mhas (sm_byId s) i \<Longrightarrow> mentioned s i"
  by (auto simp: mentioned_def List.map_filter_def intro!: image_eqI [of _ _ e])

lemma persist_keeps:
  "sm_fileEntries (fst (persist_entry ser io e s)) = sm_fileEntries s" "sm_byId (fst (persist_entry ser io e s)) = sm_byId s"
  "sm_leafId (fst (persist_entry ser io e s)) = sm_leafId s" "sm_name (fst (persist_entry ser io e s)) = sm_name s"
  "sm_entriesCache (fst (persist_entry ser io e s)) = sm_entriesCache s"
  "sm_ctxCache (fst (persist_entry ser io e s)) = sm_ctxCache s" "sm_labels (fst (persist_entry ser io e s)) = sm_labels s"
  by (auto simp: persist_entry_def drain_start_def disk_append_def Let_def split: option.split)

text \<open>The fields the invariant is about.\<close>

lemma session_ok_cong:
  assumes "sm_fileEntries t = sm_fileEntries s" "sm_byId t = sm_byId s" "sm_leafId t = sm_leafId s"
    "sm_name t = sm_name s" "sm_entriesCache t = sm_entriesCache s" "sm_ctxCache t = sm_ctxCache s"
  shows "session_ok t = session_ok s"
  by (simp add: session_ok_def assms)

lemma latest_name_snoc:
  "latest_name (es @ [e]) = (case se_body e of BInfo x \<Rightarrow> info_name x | _ \<Rightarrow> latest_name es)"
  by (simp add: latest_name_def split: entry_body.split)

lemma context_snoc:
  assumes "distinct (ids (es @ [x]))" "linked es" "\<forall>e \<in> set es. se_parentId e \<noteq> Some (se_id x)"
    and "leaf_ok es l" "[] \<notin> set (ids es)"
  shows "buildSessionContext (es @ [x]) (Some l) (Some (by_id (es @ [x]))) = buildSessionContext es (Some l) (Some (by_id es))"
proof (cases l)
  case (Some i)
  then obtain e where e: "e \<in> set es" "se_id e = i" using assms(4) by (auto simp: leaf_ok_def)
  have i: "i \<noteq> []" using e assms(5) by force
  have "mget (by_id (es @ [x])) i = Some e" "mget (by_id es) i = Some e"
    using e mget_by_id [of "es @ [x]" i e] mget_by_id [of es i e] assms(1) by auto
  then show ?thesis using Some i walk_snoc [OF assms(1-3) e(1)]
    by (simp only: buildSessionContext_def Let_def option.case option.inject option.distinct if_False)
qed (simp add: buildSessionContext_def Let_def)

definition fresh_entry :: "'x session_entry \<Rightarrow> 'x session \<Rightarrow> bool" where
  "fresh_entry e s \<longleftrightarrow> se_id e \<noteq> [] \<and> \<not> mhas (sm_byId s) (se_id e) \<and> \<not> mentioned s (se_id e) \<and>
     se_parentId e = sm_leafId s"

lemma fresh_entry_props:
  assumes "session_ok s" "fresh_entry e s"
  shows "distinct (ids (session_entries s @ [e]))" "\<forall>x \<in> set (session_entries s). se_parentId x \<noteq> Some (se_id e)"
    "linked (session_entries s @ [e])" "sm_byId s @ [(se_id e, e)] = by_id (session_entries s @ [e])"
proof -
  have new: "se_id e \<notin> set (ids (session_entries s))" using assms by (simp add: session_ok_def fresh_entry_def mhas_by_id)
  then show d: "distinct (ids (session_entries s @ [e]))" using assms(1) by (simp add: session_ok_def)
  show p: "\<forall>x \<in> set (session_entries s). se_parentId x \<noteq> Some (se_id e)"
    using mentioned_parent [of _ s "se_id e"] assms(2) by (auto simp: fresh_entry_def)
  have "case se_parentId e of None \<Rightarrow> True | Some p \<Rightarrow> p \<noteq> se_id e"
    using assms(1) new assms(2) [unfolded fresh_entry_def, THEN conjunct2, THEN conjunct2, THEN conjunct2]
    by (auto simp: session_ok_def leaf_ok_def image_iff split: option.splits)
  then show "linked (session_entries s @ [e])" using linked_snoc [OF _ p] assms(1) by (simp add: session_ok_def)
  show "sm_byId s @ [(se_id e, e)] = by_id (session_entries s @ [e])" using assms(1) by (simp add: session_ok_def)
qed

lemma append_fields:
  assumes "\<not> mhas (sm_byId s) (se_id e)"
  shows "sm_fileEntries (fst (appendEntry ser io e s)) = sm_fileEntries s @ [FEntry e]"
    "sm_byId (fst (appendEntry ser io e s)) = sm_byId s @ [(se_id e, e)]"
    "sm_leafId (fst (appendEntry ser io e s)) = Some (se_id e)"
    "sm_name (fst (appendEntry ser io e s)) = (case se_body e of BInfo x \<Rightarrow> info_name x | _ \<Rightarrow> sm_name s)"
    "sm_entriesCache (fst (appendEntry ser io e s)) = map_option (\<lambda>es. es @ [e]) (sm_entriesCache s)"
    "sm_ctxCache (fst (appendEntry ser io e s)) = sm_ctxCache s"
  using assms by (simp_all add: appendEntry_def Let_def persist_keeps mset_at_def split: entry_body.split)

lemma leaf_ok_mono: "leaf_ok es l \<Longrightarrow> leaf_ok (es @ xs) l"
  by (auto simp: leaf_ok_def split: option.splits)

lemma append_ok:
  assumes "session_ok s" "fresh_entry e s"
  shows "session_ok (fst (appendEntry ser io e s))"
proof -
  let ?es = "session_entries s" and ?s' = "fst (appendEntry ser io e s)"
  note p = fresh_entry_props [OF assms]
  have f: "\<not> mhas (sm_byId s) (se_id e)" using assms(2) by (simp add: fresh_entry_def)
  note fl = append_fields [OF f, of ser io]
  have es: "session_entries ?s' = ?es @ [e]" by (simp add: fl)
  have bm: "sm_byId ?s' = by_id (?es @ [e])" unfolding fl p(4) ..
  have ok: "linked ?es" "[] \<notin> set (ids ?es)" using assms(1) by (simp_all add: session_ok_def)
  have "buildSessionContext (?es @ [e]) (Some l) (Some (by_id (?es @ [e]))) = Some ctx"
    if "leaf_ok ?es l" "buildSessionContext ?es (Some l) (Some (by_id ?es)) = Some ctx" for l ctx
    using that context_snoc [OF p(1) ok(1) p(2) that(1) ok(2)] by simp
  then have cache: "cache_ok (?es @ [e]) (by_id (?es @ [e])) (sm_entriesCache ?s') (sm_ctxCache ?s')"
    using assms(1) leaf_ok_mono unfolding fl session_ok_def cache_ok_def by (fastforce split: option.splits)
  have "leaf_ok (?es @ [e]) (sm_leafId ?s')" by (simp add: fl leaf_ok_def)
  moreover have "sm_name ?s' = latest_name (?es @ [e])"
    using assms(1) by (auto simp: fl latest_name_snoc session_ok_def split: entry_body.split)
  moreover have "[] \<notin> set (ids (?es @ [e]))" using ok(2) assms(2) by (auto simp: fresh_entry_def)
  ultimately show ?thesis
    unfolding session_ok_def es bm using p(1,3) cache by blast
qed

lemma new_entry_fresh: "uuids_ok uuid s \<Longrightarrow> fresh_entry (new_entry uuid now body s) s"
  using generateId_fresh [of uuid s] by (simp add: fresh_entry_def new_entry_def)

lemma append_body_ok: "session_ok s \<Longrightarrow> uuids_ok (ev_uuid ev) s \<Longrightarrow> session_ok (fst (append_body ev body s))"
  unfolding append_body_def by (rule append_ok [OF _ new_entry_fresh])

lemma set_label_ok: "session_ok (set_label t l now s) = session_ok s"
  by (rule session_ok_cong) (auto simp: set_label_def split: option.split)

lemma leaf_change_ok: "session_ok s \<Longrightarrow> leaf_ok (session_entries s) l \<Longrightarrow> session_ok (s\<lparr>sm_leafId := l\<rparr>)"
  by (auto simp: session_ok_def)

lemma uuids_ok_leaf: "uuids_ok uuid (s\<lparr>sm_leafId := l\<rparr>) = uuids_ok uuid s"
  by (simp add: uuids_ok_def mentioned_def)

lemma getEntries_snd: "session_ok s \<Longrightarrow> snd (getEntries s) = session_entries s"
  by (auto simp: getEntries_def session_ok_def cache_ok_def split: option.splits)

lemma getEntries_ok: "session_ok s \<Longrightarrow> session_ok (fst (getEntries s))"
  by (auto simp: getEntries_def session_ok_def cache_ok_def split: option.splits)

lemma drain_start_ok: "session_ok (drain_start s) = session_ok s"
  by (rule session_ok_cong) (auto simp: drain_start_def split: option.split)

lemma drain_finish_ok: "session_ok (drain_finish ok s) = session_ok s"
  by (rule session_ok_cong) (auto simp: drain_finish_def drain_start_def disk_append_def split: option.split prod.split)

lemma newSession_ok: "session_ok (newSession sid now parent s)"
  by (simp add: newSession_def Let_def session_ok_def cache_ok_def linked_def leaf_ok_def latest_name_def)

lemma sessionContext_ok:
  assumes "session_ok s" "sessionContext s = Some (s', ctx)"
  shows "session_ok s'"
proof (cases "s' = s")
  case False
  then have s': "s' = (fst (getEntries s))\<lparr>sm_ctxCache := Some (sm_leafId s, ctx)\<rparr>"
    and ctx: "buildSessionContext (session_entries s) (Some (sm_leafId s)) (Some (sm_byId s)) = Some ctx"
    using assms getEntries_snd [OF assms(1)] by (auto simp: sessionContext_def split: option.splits if_splits)
  have g: "sm_fileEntries (fst (getEntries s)) = sm_fileEntries s" "sm_byId (fst (getEntries s)) = sm_byId s"
    by (simp_all add: getEntries_def split: option.split)
  have "session_ok (fst (getEntries s))" "leaf_ok (session_entries s) (sm_leafId s)"
    using getEntries_ok assms(1) by (simp_all add: session_ok_def)
  then show ?thesis using ctx unfolding s' by (simp add: session_ok_def cache_ok_def g)
qed (use assms(1) in simp)

lemma appendLabel_ok:
  assumes "session_ok s" "uuids_ok (ev_uuid ev) s" "appendLabelChange ev t l s = Some (s', ok)"
  shows "session_ok s'"
proof -
  obtain s1 ok1 where a: "append_body ev (BLabel t l) s = (s1, ok1)" by fastforce
  then have "session_ok s1" using append_body_ok [OF assms(1,2), of "BLabel t l"] by simp
  then show ?thesis using assms(3) a by (auto simp: appendLabelChange_def set_label_ok split: if_splits bool.splits)
qed

lemma branch_ok: "session_ok s \<Longrightarrow> branch i s = Some s' \<Longrightarrow> session_ok s'"
  by (auto simp: branch_def leaf_ok_def session_ok_def mhas_by_id split: if_splits intro!: leaf_change_ok)

lemma resetLeaf_ok: "session_ok s \<Longrightarrow> session_ok (resetLeaf s)"
  unfolding resetLeaf_def by (rule leaf_change_ok) (simp_all add: leaf_ok_def)

lemma branchWithSummary_ok:
  assumes "session_ok s" "uuids_ok (ev_uuid ev) s" "branchWithSummary ev i summ d h s = Some (s', ok)"
  shows "session_ok s'"
proof -
  have "leaf_ok (session_entries s) i"
    using assms(1,3) by (auto simp: branchWithSummary_def leaf_ok_def session_ok_def mhas_by_id split: option.splits if_splits)
  then have "session_ok (s\<lparr>sm_leafId := i\<rparr>)" by (rule leaf_change_ok [OF assms(1)])
  then have a: "session_ok (fst (append_body ev b (s\<lparr>sm_leafId := i\<rparr>)))" for b
    by (rule append_body_ok) (simp add: uuids_ok_leaf assms(2))
  obtain b where "append_body ev b (s\<lparr>sm_leafId := i\<rparr>) = (s', ok)"
    using assms(3) by (auto simp: branchWithSummary_def split: option.splits if_splits)
  then show ?thesis using a [of b] by simp
qed


section \<open>Branched sessions\<close>

lemma index_entry_fields:
  "sm_byId (index_entry e s) = mset_at (se_id e) e (sm_byId s)" "sm_leafId (index_entry e s) = Some (se_id e)"
  "sm_name (index_entry e s) = (case se_body e of BInfo x \<Rightarrow> info_name x | _ \<Rightarrow> sm_name s)"
  "sm_entriesCache (index_entry e s) = sm_entriesCache s" "sm_ctxCache (index_entry e s) = sm_ctxCache s"
  "sm_fileEntries (index_entry e s) = sm_fileEntries s"
  by (auto simp: index_entry_def set_label_def Let_def split: entry_body.split option.split)

lemma fold_index:
  assumes "distinct (ids es)" "sm_byId s = []" "sm_leafId s = None" "sm_name s = None"
  shows "sm_byId (fold index_entry es s) = by_id es"
    "sm_leafId (fold index_entry es s) = (if es = [] then None else Some (se_id (last es)))"
    "sm_name (fold index_entry es s) = latest_name es"
    "sm_entriesCache (fold index_entry es s) = sm_entriesCache s" "sm_ctxCache (fold index_entry es s) = sm_ctxCache s"
    "sm_fileEntries (fold index_entry es s) = sm_fileEntries s"
  using assms
proof (induction es rule: rev_induct)
  case (snoc e es)
  case 1
  then show ?case using snoc by (simp add: index_entry_fields mset_at_def mhas_by_id)
next
  case (snoc e es)
  case 2
  then show ?case by (simp add: index_entry_fields)
next
  case (snoc e es)
  case 3
  then show ?case using snoc by (simp add: index_entry_fields latest_name_snoc split: entry_body.split)
qed (simp_all add: index_entry_fields latest_name_def)

lemma buildIndex_ok:
  assumes "distinct (ids (session_entries s))" "[] \<notin> set (ids (session_entries s))" "linked (session_entries s)"
  shows "session_ok (buildIndex s)"
  unfolding session_ok_def buildIndex_def
  using assms by (simp add: fold_index cache_ok_def leaf_ok_def)

lemma linked_path:
  "chained (a # path) \<Longrightarrow> (se_id a \<in> every \<longrightarrow> se_id a \<in> known) \<Longrightarrow>
   \<forall>e \<in> set path. is_label e \<longrightarrow> se_id e \<notin> every \<Longrightarrow>
   linked_onto known (filter (\<lambda>e. \<not> is_label e) path) every"
  by (induction path arbitrary: a known) auto

lemma linked_labels:
  "(case parent of None \<Rightarrow> True | Some p \<Rightarrow> p \<in> known) \<Longrightarrow>
   linked_onto known (label_entries uuids k ds parent ls) every"
proof (induction ls arbitrary: k ds parent known)
  case (Cons l ls)
  obtain t x tm where "l = (t, x, tm)" by (cases l) auto
  then show ?case using Cons by (auto simp: Let_def split: option.splits)
qed simp

definition new_labels :: "(nat \<Rightarrow> nat \<Rightarrow> jsstr) \<Rightarrow> 'x session \<Rightarrow> 'x session_entry list \<Rightarrow> 'x session_entry list" where
  "new_labels uuids s path = drop (length (filter (\<lambda>e. \<not> is_label e) path)) (branched_entries uuids s path)"

text \<open>The ids drawn for the labels of a branched session are new and differ.\<close>

definition labels_fresh :: "(nat \<Rightarrow> nat \<Rightarrow> jsstr) \<Rightarrow> 'x session \<Rightarrow> 'x session_entry list \<Rightarrow> bool" where
  "labels_fresh uuids s path \<longleftrightarrow>
     distinct (ids (new_labels uuids s path)) \<and>
     list_all (\<lambda>e. se_id e \<noteq> [] \<and> \<not> mhas (sm_byId s) (se_id e) \<and> \<not> mentioned s (se_id e)) (new_labels uuids s path)"

lemma branched_split:
  "branched_entries uuids s path = filter (\<lambda>e. \<not> is_label e) path @ new_labels uuids s path"
  by (simp add: new_labels_def branched_entries_def Let_def)

lemma branched_linked:
  assumes "session_ok s" "root_path (sm_byId s) e path" "set path \<subseteq> set (session_entries s)" "distinct path"
    and "labels_fresh uuids s path"
  shows "distinct (ids (branched_entries uuids s path))" "[] \<notin> set (ids (branched_entries uuids s path))"
    "linked (branched_entries uuids s path)"
proof -
  let ?kept = "filter (\<lambda>e. \<not> is_label e) path" and ?new = "new_labels uuids s path" and ?es = "session_entries s"
  have ok: "sm_byId s = by_id ?es" "distinct (ids ?es)" "[] \<notin> set (ids ?es)" using assms(1) by (simp_all add: session_ok_def)
  have inj: "inj_on se_id (set ?es)" using ok(2) by (simp add: distinct_map)
  have new: "i \<noteq> [] \<and> i \<notin> set (ids ?es) \<and> \<not> mentioned s i" if "i \<in> set (ids ?new)" for i
  proof -
    obtain x where x: "x \<in> set ?new" "i = se_id x" using \<open>i \<in> set (ids ?new)\<close> by auto
    then have "se_id x \<noteq> [] \<and> \<not> mhas (sm_byId s) (se_id x) \<and> \<not> mentioned s (se_id x)"
      using assms(5) unfolding labels_fresh_def list_all_iff by blast
    then show ?thesis unfolding x(2) ok(1) mhas_by_id .
  qed
  have kept: "set (ids ?kept) \<subseteq> set (ids ?es)" using assms(3) by auto
  have "distinct (ids ?kept)" using assms(3,4) inj by (auto simp: distinct_map intro: inj_on_subset)
  moreover have "set (ids ?kept) \<inter> set (ids ?new) = {}" using new kept by blast
  ultimately show "distinct (ids (branched_entries uuids s path))"
    using assms(5) unfolding branched_split labels_fresh_def map_append distinct_append by blast
  show "[] \<notin> set (ids (branched_entries uuids s path))"
    using kept ok(3) new unfolding branched_split map_append set_append by blast
  let ?every = "set (ids (branched_entries uuids s path))"
  obtain h t where path: "path = h # t" using assms(2) by (cases path) (auto simp: root_path_def)
  have lab: "se_id x \<notin> ?every" if "x \<in> set path" "is_label x" for x
  proof -
    have x: "x \<in> set ?es" using that assms(3) by blast
    then have "se_id x \<notin> set (ids ?new)" using new by (metis image_eqI set_map)
    moreover have "y = x" if "y \<in> set ?kept" "se_id y = se_id x" for y
      using inj_onD [OF inj that(2)] x that(1) assms(3) by auto
    ultimately show ?thesis using \<open>is_label x\<close> unfolding branched_split map_append set_append set_map by auto
  qed
  have hd: "case se_parentId h of None \<Rightarrow> True | Some p \<Rightarrow> p \<notin> ?every"
  proof (cases "se_parentId h")
    case (Some p)
    have "parent_in (sm_byId s) h = None" using assms(2) path by (simp add: root_path_def)
    then have p: "p = [] \<or> p \<notin> set (ids ?es)"
      using Some ok(1) mhas_by_id [of ?es p] by (auto simp: parent_in_def mhas_mget split: if_splits)
    have h: "h \<in> set ?es" using path assms(3) by simp
    have reg: "mhas (sm_byId s) p \<longleftrightarrow> p \<in> set (ids ?es)" unfolding ok(1) mhas_by_id ..
    have "mentioned s p" if "p \<notin> set (ids ?es)"
      using mentioned_parent [OF h Some] that reg by blast
    then have "p \<notin> set (ids ?new)" using p new [of p] by blast
    moreover have "p \<notin> set (ids ?kept)" using p kept ok(3) by blast
    ultimately show ?thesis unfolding Some option.case branched_split map_append set_append by blast
  qed simp
  have "chained (h # t)" using assms(2) path by (simp add: root_path_def)
  then have "linked_onto (if is_label h then {} else {se_id h}) (filter (\<lambda>e. \<not> is_label e) t) ?every"
    using lab path by (intro linked_path [of h t]) auto
  then have "linked_onto {} ?kept ?every" using hd path by (auto split: option.splits)
  moreover have "linked_onto (set (ids ?kept)) ?new ?every"
  proof -
    have cut: "drop (length xs) (xs @ ys) = ys" for xs ys :: "'a session_entry list" by simp
    have "?kept \<noteq> [] \<Longrightarrow> se_id (last ?kept) \<in> set (ids ?kept)" unfolding set_map by (rule imageI [OF last_in_set])
    then show ?thesis unfolding new_labels_def branched_entries_def Let_def cut
      by (intro linked_labels) (simp split: option.split del: set_map)
  qed
  ultimately show "linked (branched_entries uuids s path)"
    by (simp add: linked_def branched_split linked_onto_append)
qed

lemma rewriteFile_ok: "session_ok (fst (rewriteFile ser aio s)) = session_ok s"
  by (rule session_ok_cong) (auto simp: rewriteFile_def disk_write_def split: option.split)

lemma createBranched_ok:
  assumes "session_ok s" "createBranchedSession ser aio uuids sid now leaf s = Some (s', ok)"
    and "\<And>path. getBranch s (Some leaf) = Some path \<Longrightarrow> labels_fresh uuids s path"
  shows "session_ok s'"
proof -
  obtain path where path: "getBranch s (Some leaf) = Some path" "path \<noteq> []"
    using assms(2) by (auto simp: createBranchedSession_def split: option.splits if_splits)
  have sk: "sm_byId s = by_id (session_entries s)" "distinct (ids (session_entries s))" "linked (session_entries s)"
    using assms(1) by (simp_all add: session_ok_def)
  obtain e where e: "e \<in> set (session_entries s)" "walk (sm_byId s) e = Some path"
    using path sk mget_by_id [OF sk(2)] by (auto simp: getBranch_def split: option.splits if_splits)
  have "root_path (sm_byId s) e path" "set path \<subseteq> set (session_entries s)" "distinct path"
    using walk_registered [OF sk(2,3) e(1)] e(2) sk(1) by auto
  note b = branched_linked [OF assms(1) this assms(3) [OF path(1)]]
  have bi: "session_ok (buildIndex t)" if "sm_fileEntries t = FHeader hh # map FEntry (branched_entries uuids s path)" for t hh
    using b that by (intro buildIndex_ok) simp_all
  have same: "session_ok (t\<lparr>sm_flushed := f, sm_persistedCount := n\<rparr>) = session_ok t"
    "session_ok (t\<lparr>sm_flushed := f\<rparr>) = session_ok t" "session_ok (t\<lparr>sm_hasDurable := f\<rparr>) = session_ok t" for t :: "'a session" and f n
    by (rule session_ok_cong; simp)+
  have rw: "rewriteFile ser aio t = (t', ok') \<Longrightarrow> session_ok t' = session_ok t" for t t' ok'
    using rewriteFile_ok [of ser aio t] by simp
  show ?thesis
    using assms(2) path
    by (auto simp: createBranchedSession_def Let_def same bi split: if_splits prod.splits bool.splits dest!: rw)
qed

section \<open>Runs\<close>

text \<open>The operations within one session file: appends, leaf moves, reads (they fill caches) and drain steps.\<close>

inductive sm_step :: "('x file_entry \<Rightarrow> jsstr) \<Rightarrow> 'x session \<Rightarrow> 'x session \<Rightarrow> bool" for ser where
  st_append: "uuids_ok (ev_uuid ev) s \<Longrightarrow> ev_ser ev = ser \<Longrightarrow> append_body ev body s = (s', ok) \<Longrightarrow> sm_step ser s s'"
| st_label: "uuids_ok (ev_uuid ev) s \<Longrightarrow> ev_ser ev = ser \<Longrightarrow> appendLabelChange ev t l s = Some (s', ok) \<Longrightarrow> sm_step ser s s'"
| st_summary: "uuids_ok (ev_uuid ev) s \<Longrightarrow> ev_ser ev = ser \<Longrightarrow>
    branchWithSummary ev i summ d h s = Some (s', ok) \<Longrightarrow> sm_step ser s s'"
| st_branch: "branch i s = Some s' \<Longrightarrow> sm_step ser s s'"
| st_reset: "sm_step ser s (resetLeaf s)"
| st_entries: "getEntries s = (s', es) \<Longrightarrow> sm_step ser s s'"
| st_context: "sessionContext s = Some (s', ctx) \<Longrightarrow> sm_step ser s s'"
| st_flush: "sm_step ser s (flushWrites s)"
| st_drained: "sm_step ser s (drain_finish ok s)"

text \<open>The operations that replace the entries.\<close>

inductive tree_step :: "('x file_entry \<Rightarrow> jsstr) \<Rightarrow> 'x session \<Rightarrow> 'x session \<Rightarrow> bool" for ser where
  ts_step: "sm_step ser s s' \<Longrightarrow> tree_step ser s s'"
| ts_new: "tree_step ser s (newSession sid now parent s)"
| ts_branched: "createBranchedSession ser aio uuids sid now leaf s = Some (s', ok) \<Longrightarrow>
    getBranch s (Some leaf) = Some path \<Longrightarrow> labels_fresh uuids s path \<Longrightarrow> tree_step ser s s'"

inductive_cases sm_stepE: "sm_step ser s s'"

inductive_cases tree_stepE: "tree_step ser s s'"

definition fresh_session :: "'x session \<Rightarrow> bool" where
  "fresh_session s \<longleftrightarrow> (\<exists>sid now parent s0. s = newSession sid now parent s0)"

lemma sm_step_ok: "sm_step ser s s' \<Longrightarrow> session_ok s \<Longrightarrow> session_ok s'"
proof (induction rule: sm_step.induct)
  case (st_append ev s body s' ok)
  then show ?case using append_body_ok [of s ev body] by simp
next
  case (st_entries s s' es)
  then show ?case using getEntries_ok [of s] by simp
qed (auto simp: flushWrites_def drain_start_ok drain_finish_ok
    intro: appendLabel_ok branchWithSummary_ok branch_ok resetLeaf_ok sessionContext_ok)

lemma tree_step_ok: "tree_step ser s s' \<Longrightarrow> session_ok s \<Longrightarrow> session_ok s'"
  by (induction rule: tree_step.induct) (auto intro: sm_step_ok newSession_ok createBranched_ok)

interpretation history: transition_system fresh_session "tree_step ser" session_ok
  by unfold_locales (auto simp: fresh_session_def intro: newSession_ok tree_step_ok)

lemma session_okD:
  assumes "session_ok s"
  shows "sm_byId s = by_id (session_entries s)" "distinct (ids (session_entries s))" "linked (session_entries s)"
    "\<And>i e. mget (sm_byId s) i = Some e \<longleftrightarrow> e \<in> set (session_entries s) \<and> se_id e = i"
    "\<And>e. e \<in> set (session_entries s) \<Longrightarrow> se_id e \<noteq> []"
proof -
  show d: "distinct (ids (session_entries s))" and b: "sm_byId s = by_id (session_entries s)" and "linked (session_entries s)"
    using assms by (simp_all add: session_ok_def)
  show "mget (sm_byId s) i = Some e \<longleftrightarrow> e \<in> set (session_entries s) \<and> se_id e = i" for i e
    unfolding b by (rule mget_by_id [OF d])
  show "se_id e \<noteq> []" if "e \<in> set (session_entries s)" for e
    using assms that by (force simp: session_ok_def)
qed

lemma branch_of_entry:
  assumes "session_ok s" "mget (sm_byId s) i = Some e"
  shows "getBranch s (Some i) = walk (sm_byId s) e"
proof -
  have "i \<noteq> []" using assms(2) session_okD(4,5) [OF assms(1)] by blast
  then show ?thesis by (simp add: getBranch_def assms(2))
qed

lemma branch_of_leaf:
  assumes "session_ok s"
  shows "getBranch s None = (case sm_leafId s of None \<Rightarrow> Some [] | Some l \<Rightarrow> getBranch s (Some l))"
  by (simp add: getBranch_def split: option.split)

lemma leaf_registered: "session_ok s \<Longrightarrow> sm_leafId s = Some l \<Longrightarrow> \<exists>e. mget (sm_byId s) l = Some e"
  using session_okD(4) [of s] by (auto simp: session_ok_def leaf_ok_def)


section \<open>Properties\<close>

text \<open>Every history can be read back: whatever is appended, branched, labelled or forked, the walk from
  any registered entry ends, at a root, with a path that ends in the entry, follows the parent ids and
  visits nothing twice.\<close>

theorem history_walks:
  assumes "fresh_session s0" "(tree_step ser)\<^sup>*\<^sup>* s0 s" "getEntry s i = Some e"
  shows "\<exists>path. getBranch s (Some i) = Some path \<and> path \<noteq> [] \<and> last path = e \<and> se_id e = i \<and> chained path \<and>
    distinct path \<and> parent_in (sm_byId s) (hd path) = None"
proof -
  have ok: "session_ok s" using history.inv_reach assms(1,2) by blast
  have e: "e \<in> set (session_entries s)" "se_id e = i" using assms(3) session_okD(4) [OF ok] by (simp_all add: getEntry_def)
  obtain path where "walk (sm_byId s) e = Some path" "root_path (sm_byId s) e path" "distinct path"
    using walk_registered [OF session_okD(2,3) [OF ok] e(1)] session_okD(1) [OF ok] by metis
  then show ?thesis using e(2) branch_of_entry [OF ok] assms(3) by (auto simp: getEntry_def root_path_def)
qed

text \<open>The session is append-only: an append extends the leaf's history by the new entry and leaves the
  history of every other entry as it was, whether or not the write to disk succeeds.\<close>

theorem append_extends_history:
  assumes "fresh_session s0" "(tree_step ser)\<^sup>*\<^sup>* s0 s" "uuids_ok (ev_uuid ev) s" "append_body ev body s = (s', ok)"
    and "getEntry s i = Some e"
  shows "getBranch s' None = map_option (\<lambda>path. path @ [new_entry (ev_uuid ev) (ev_now ev) body s]) (getBranch s None) \<and>
    getBranch s' (Some i) = getBranch s (Some i) \<and> getEntry s' i = Some e"
proof -
  let ?e = "new_entry (ev_uuid ev) (ev_now ev) body s" and ?es = "session_entries s"
  have sk: "session_ok s" using history.inv_reach assms(1,2) by blast
  note f = new_entry_fresh [OF assms(3), of "ev_now ev" body]
  note p = fresh_entry_props [OF sk f]
  have s': "s' = fst (appendEntry (ev_ser ev) (ev_io ev) ?e s)" using assms(4) by (simp add: append_body_def)
  have sk': "session_ok s'" unfolding s' by (rule append_ok [OF sk f])
  have "\<not> mhas (sm_byId s) (se_id ?e)" using f by (simp add: fresh_entry_def)
  note fl = append_fields [OF this, of "ev_ser ev" "ev_io ev", folded s']
  have m': "sm_byId s' = by_id (?es @ [?e])" unfolding fl p(4) ..
  note m = session_okD(1) [OF sk]
  have i: "e \<in> set ?es" "se_id e = i" using assms(5) session_okD(4) [OF sk] by (simp_all add: getEntry_def)
  then have i': "mget (sm_byId s') i = Some e" unfolding m' using mget_by_id [OF p(1)] by simp
  have old: "walk (sm_byId s') x = walk (sm_byId s) x" if "x \<in> set ?es" for x
    unfolding m' m by (rule walk_snoc [OF p(1) session_okD(3) [OF sk] p(2) that])
  have keep: "getBranch s' (Some i) = getBranch s (Some i)"
    using branch_of_entry [OF sk' i'] branch_of_entry [OF sk] assms(5) old [OF i(1)] by (simp add: getEntry_def)
  have new: "mget (sm_byId s') (se_id ?e) = Some ?e" unfolding m' using mget_by_id [OF p(1)] by simp
  have leaf: "getBranch s' None = walk (sm_byId s') ?e"
    using branch_of_leaf [OF sk'] branch_of_entry [OF sk' new] by (simp add: fl)
  have "walk (sm_byId s') ?e = map_option (\<lambda>path. path @ [?e]) (getBranch s None)"
  proof (cases "sm_leafId s")
    case None
    then have "se_parentId ?e = None" by (simp add: new_entry_def)
    then show ?thesis using None branch_of_leaf [OF sk] by (simp add: walk.simps [of _ ?e] parent_in_def)
  next
    case (Some l)
    obtain q where q: "mget (sm_byId s) l = Some q" using leaf_registered [OF sk Some] by blast
    then have q': "q \<in> set ?es" "se_id q = l" using session_okD(4) [OF sk] by auto
    have "se_parentId ?e = Some (se_id q)" using Some q'(2) by (simp add: new_entry_def)
    then have "walk (sm_byId s') ?e = map_option (\<lambda>path. path @ [?e]) (walk (by_id ?es) q)"
      unfolding m' using walk_new [OF p(1,3) session_okD(3) [OF sk] p(2)] session_okD(5) [OF sk q'(1)] q'(1) by blast
    then show ?thesis using Some branch_of_leaf [OF sk] branch_of_entry [OF sk q] by (simp add: m)
  qed
  then show ?thesis using leaf keep i' by (simp add: getEntry_def)
qed

section \<open>The context\<close>

text \<open>
  What the model should be given for a path, stated by splitting it at its last compaction: the summary, the
  entries from the anchor on - all of them when the anchor is not on the path - and what came after.
\<close>

definition kept_part :: "jsstr option \<Rightarrow> 'x session_entry list \<Rightarrow> 'x session_entry list \<Rightarrow> 'x session_entry list" where
  "kept_part anchor before rest =
     (if list_ex (\<lambda>e. Some (se_id e) = anchor) before then dropWhile (\<lambda>e. Some (se_id e) \<noteq> anchor) before
      else if list_ex (\<lambda>e. Some (se_id e) = anchor) rest then [] else before)"

definition reference_messages :: "'x session_entry list \<Rightarrow> 'x ctx_message list" where
  "reference_messages path =
     (let after = rev (takeWhile (\<lambda>e. \<not> is_compaction e) (rev path));
          rest = take (length path - length after) path
      in if rest = [] then concat (map appendMessage_of path)
         else summary_message (last rest)
           @ concat (map appendMessage_of (kept_part (first_kept (last rest)) (butlast rest) (last rest # after)))
           @ concat (map appendMessage_of after))"

lemma scan_path_append: "scan_path i (xs @ ys) st = scan_path (i + length xs) ys (scan_path i xs st)"
proof (induction xs arbitrary: i st)
  case (Cons x xs)
  obtain l m c where "st = (l, m, c)" by (cases st) auto
  then show ?case by (simp add: Cons)
qed simp

lemma scan_no_compaction:
  "list_all (\<lambda>e. \<not> is_compaction e) es \<Longrightarrow> snd (snd (scan_path i es st)) = snd (snd st)"
proof (induction es arbitrary: i st)
  case (Cons x xs)
  obtain l m c where "st = (l, m, c)" by (cases st) auto
  then show ?case using Cons by (auto simp: is_compaction_def split: entry_body.splits)
qed simp

lemma find_index_append:
  "find_index_of P (xs @ ys) = (case find_index_of P xs of Some i \<Rightarrow> Some i | None \<Rightarrow> map_option ((+) (length xs)) (find_index_of P ys))"
proof (induction xs)
  case Nil
  then show ?case by (cases "find_index_of P ys") simp_all
next
  case (Cons x xs)
  then show ?case by (cases "find_index_of P xs"; cases "find_index_of P ys") simp_all
qed

lemma find_index_of_None: "find_index_of P xs = None \<longleftrightarrow> \<not> list_ex P xs"
  by (induction xs) auto

lemma find_index_of_Some: "find_index_of P xs = Some i \<Longrightarrow> drop i xs = dropWhile (\<lambda>x. \<not> P x) xs \<and> i < length xs"
  by (induction xs arbitrary: i) (auto split: if_splits)

lemma kept_slice:
  "js_slice (before @ rest) (case find_index_of (\<lambda>e. Some (se_id e) = a) (before @ rest) of None \<Rightarrow> 0 | Some i \<Rightarrow> i)
     (length before) = kept_part a before rest"
proof (cases "find_index_of (\<lambda>e. Some (se_id e) = a) before")
  case None
  have nb: "\<not> list_ex (\<lambda>e. Some (se_id e) = a) before" using None find_index_of_None by blast
  show ?thesis
  proof (cases "find_index_of (\<lambda>e. Some (se_id e) = a) rest")
    case none: None
    then have "\<not> list_ex (\<lambda>e. Some (se_id e) = a) rest" using find_index_of_None by blast
    then show ?thesis using None none nb by (simp add: find_index_append kept_part_def js_slice_def)
  next
    case (Some i)
    then have "list_ex (\<lambda>e. Some (se_id e) = a) rest" by (metis find_index_of_None option.distinct(1))
    then show ?thesis using None Some nb by (simp add: find_index_append kept_part_def js_slice_def)
  qed
next
  case (Some i)
  then have "list_ex (\<lambda>e. Some (se_id e) = a) before" by (metis find_index_of_None option.distinct(1))
  moreover have "i \<le> length before \<Longrightarrow> js_slice (before @ rest) i (length before) = drop i before"
    by (simp add: js_slice_def)
  ultimately show ?thesis using find_index_of_Some [OF Some] Some by (simp add: find_index_append kept_part_def)
qed

lemma context_messages: "cx_messages (context_of_path path) = reference_messages path"
proof -
  define after where "after = rev (takeWhile (\<lambda>e. \<not> is_compaction e) (rev path))"
  define rest where "rest = rev (dropWhile (\<lambda>e. \<not> is_compaction e) (rev path))"
  have path: "path = rest @ after" unfolding rest_def after_def by (metis rev_append rev_rev_ident takeWhile_dropWhile_id)
  then have take: "take (length path - length after) path = rest" by simp
  have none: "list_all (\<lambda>e. \<not> is_compaction e) after" by (auto simp: after_def list_all_iff dest: set_takeWhileD)
  obtain l m cp where sc: "scan_path 0 path (js ''off'', None, None) = (l, m, cp)" by (metis prod_cases3)
  show ?thesis
  proof (cases rest rule: rev_cases)
    case Nil
    then have "cp = None" using scan_no_compaction [OF none, of 0 "(js ''off'', None, None)"] path sc by simp
    then show ?thesis using sc Nil take unfolding reference_messages_def after_def [symmetric] Let_def
      by (simp add: context_of_path_def)
  next
    case (snoc before c)
    then have "dropWhile (\<lambda>e. \<not> is_compaction e) (rev path) = c # rev before" by (simp add: rest_def rev_swap)
    then have c: "is_compaction c" using hd_dropWhile [of "\<lambda>e. \<not> is_compaction e" "rev path"] by simp
    have "cp = Some (length before, c)"
    proof -
      obtain l1 m1 c1 where s1: "scan_path 0 before (js ''off'', None, None) = (l1, m1, c1)" by (metis prod_cases3)
      have "scan_path 0 path (js ''off'', None, None) = scan_path (Suc (length before)) after (scan_path (length before) [c] (l1, m1, c1))"
        using path snoc s1 by (simp add: scan_path_append)
      then have "cp = snd (snd (scan_path (length before) [c] (l1, m1, c1)))"
        using sc scan_no_compaction [OF none] by (metis snd_conv)
      then show ?thesis using c by (auto simp: is_compaction_def split: entry_body.splits)
    qed
    then have "cx_messages (context_of_path path) = summary_message c
        @ concat (map appendMessage_of (kept_part (first_kept c) before (c # after))) @ concat (map appendMessage_of after)"
      using sc path snoc kept_slice [of before "c # after" "first_kept c"] by (simp add: context_of_path_def Let_def)
    then show ?thesis using take snoc unfolding reference_messages_def after_def [symmetric] Let_def by simp
  qed
qed

lemma index_entries_by_id: "distinct (ids es) \<Longrightarrow> index_entries es = by_id es"
  by (induction es rule: rev_induct) (simp_all add: index_entries_def mset_at_def mhas_by_id)

lemma context_of_branch:
  assumes "session_ok s"
  shows "\<exists>path. getBranch s None = Some path \<and>
    buildSessionContext (session_entries s) (Some (sm_leafId s)) (Some (sm_byId s)) = Some (context_of_path path)"
proof (cases "sm_leafId s")
  case None
  then show ?thesis by (simp add: getBranch_def buildSessionContext_def context_of_path_def empty_context_def)
next
  case (Some l)
  obtain q where q: "mget (sm_byId s) l = Some q" using leaf_registered [OF assms Some] by blast
  then have q': "q \<in> set (session_entries s)" "l \<noteq> []" using session_okD(4,5) [OF assms] by auto
  obtain path where "walk (sm_byId s) q = Some path"
    using walk_registered [OF session_okD(2,3) [OF assms] q'(1)] session_okD(1) [OF assms] by metis
  then show ?thesis using Some q q'(2) by (simp add: getBranch_def buildSessionContext_def Let_def)
qed

text \<open>C11: The model gets the leaf's history and nothing else: after any operations, what the manager hands out,
  from its cache or not, is the context the entries and the leaf give from scratch, and its messages are the
  summary of the last compaction on the leaf's path, the entries from its anchor on - all of them when the
  anchor is lost - and everything after it.\<close>

theorem context_exact:
  assumes "fresh_session s0" "(tree_step ser)\<^sup>*\<^sup>* s0 s"
  shows "\<exists>s' ctx path. sessionContext s = Some (s', ctx) \<and> getBranch s None = Some path \<and>
    cx_messages ctx = reference_messages path \<and>
    buildSessionContext (session_entries s) (Some (sm_leafId s)) None = Some ctx"
proof -
  have ok: "session_ok s" using history.inv_reach assms by blast
  obtain path where path: "getBranch s None = Some path"
    "buildSessionContext (session_entries s) (Some (sm_leafId s)) (Some (sm_byId s)) = Some (context_of_path path)"
    using context_of_branch [OF ok] by blast
  have "\<exists>s'. sessionContext s = Some (s', context_of_path path)"
    using ok getEntries_snd [OF ok] path(2)
    by (auto simp: sessionContext_def session_ok_def cache_ok_def split: option.splits)
  moreover have "buildSessionContext (session_entries s) (Some (sm_leafId s)) None = Some (context_of_path path)"
    using path(2) index_entries_by_id [OF session_okD(2) [OF ok]] session_okD(1) [OF ok]
    by (simp add: buildSessionContext_def)
  ultimately show ?thesis using path(1) context_messages by blast
qed

section \<open>Witnesses\<close>

definition sample_ser :: "unit file_entry \<Rightarrow> jsstr" where
  "sample_ser f = (case f of FHeader h \<Rightarrow> js ''h'' | FEntry e \<Rightarrow> js ''e'')"

definition sample_env :: "nat \<Rightarrow> unit env" where
  "sample_env k = \<lparr> ev_ser = sample_ser, ev_io = (\<lambda>i. IoOk), ev_uuid = (\<lambda>i. [of_nat k]), ev_now = js ''t'' \<rparr>"

definition user_says :: "unit entry_body" where
  "user_says = BMessage \<lparr> am_role = js ''user'', am_provider = [], am_model = [], am_body = () \<rparr>"

definition sample_start :: "unit session" where
  "sample_start = createSession (js ''/w'') (js ''/s'') (js ''id'') (js ''t'') []"

definition sample_one :: "unit session" where
  "sample_one = fst (append_body (sample_env 65) user_says sample_start)"

lemma sample_fresh: "fresh_session sample_start"
  by (auto simp: fresh_session_def sample_start_def createSession_def)

lemma sample_step: "sm_step sample_ser sample_start sample_one"
proof -
  have "append_body (sample_env 65) user_says sample_start =
      (sample_one, snd (append_body (sample_env 65) user_says sample_start))"
    by (simp add: sample_one_def)
  moreover have "uuids_ok (ev_uuid (sample_env 65)) sample_start" by code_simp
  ultimately show ?thesis by (intro st_append) (auto simp: sample_env_def)
qed

lemma sample_reach: "(tree_step sample_ser)\<^sup>*\<^sup>* sample_start sample_one"
  using sample_step by (intro r_into_rtranclp ts_step)

theorem history_walks_witness:
  "\<exists>path. getBranch sample_one (Some [65]) = Some path \<and> map se_id path = [[65]]"
proof -
  have e: "getEntry sample_one [65] = Some (new_entry (ev_uuid (sample_env 65)) (js ''t'') user_says sample_start)" by code_simp
  obtain path where "getBranch sample_one (Some [65]) = Some path"
    using history_walks [OF sample_fresh sample_reach e] by blast
  moreover have "map_option (map se_id) (getBranch sample_one (Some [65])) = Some [[65]]" by code_simp
  ultimately show ?thesis by auto
qed

theorem append_extends_history_witness:
  "map_option (map se_id) (getBranch (fst (append_body (sample_env 66) user_says sample_one)) None) = Some [[65], [66]]"
proof -
  let ?r = "append_body (sample_env 66) user_says sample_one"
  have e: "getEntry sample_one [65] = Some (new_entry (ev_uuid (sample_env 65)) (js ''t'') user_says sample_start)" by code_simp
  have u: "uuids_ok (ev_uuid (sample_env 66)) sample_one" by code_simp
  have a: "append_body (sample_env 66) user_says sample_one = (fst ?r, snd ?r)" by simp
  have old: "map_option (map se_id) (getBranch sample_one None) = Some [[65]]" by code_simp
  have new: "se_id (new_entry (ev_uuid (sample_env 66)) (ev_now (sample_env 66)) user_says sample_one) = [66]" by code_simp
  from append_extends_history [OF sample_fresh sample_reach u a e] show ?thesis
    using old new by (cases "getBranch sample_one None") auto
qed

theorem context_exact_witness:
  "\<exists>s' ctx. sessionContext sample_one = Some (s', ctx) \<and> length (cx_messages ctx) = 1"
proof -
  obtain s' ctx path where c: "sessionContext sample_one = Some (s', ctx)" "getBranch sample_one None = Some path"
      "cx_messages ctx = reference_messages path"
    using context_exact [OF sample_fresh sample_reach] by blast
  have "map_option (length \<circ> reference_messages) (getBranch sample_one None) = Some 1" by code_simp
  then show ?thesis using c by auto
qed

end
