(* ===== verification/SessionFiles.thy ===== *)
theory SessionFiles
  imports SessionHistory
begin

text \<open>
  Sessions and their files: what is on disk while writes are queued, fail and are retried; that the two
  loaders agree; that a written file reads back; and what a fork and a migration do to the tree.
\<close>


section \<open>Durability\<close>

text \<open>
  Of a session whose file held the text \<open>b\<close> of its first \<open>n\<close> entries when the session took it over: the file and the
  queue together hold that text and the lines of the entries since, or, before the first write and after a failed
  one, of those counted as persisted.
\<close>

definition written_since :: "('x file_entry \<Rightarrow> jsstr) \<Rightarrow> jsstr \<Rightarrow> nat \<Rightarrow> 'x session \<Rightarrow> jsstr" where
  "written_since ser b n s =
     b @ concat (map (disk_line ser)
       (drop n (take (if sm_flushed s then length (sm_fileEntries s) else sm_persistedCount s) (sm_fileEntries s))))"

definition drain_ok :: "jsstr \<Rightarrow> (jsstr \<times> jsstr list) option \<Rightarrow> jsstr list \<Rightarrow> bool" where
  "drain_ok f draining queue = (case draining of None \<Rightarrow> True
     | Some (g, batch) \<Rightarrow> g = f \<and> take (length batch) queue = batch)"

definition store_since :: "('x file_entry \<Rightarrow> jsstr) \<Rightarrow> jsstr \<Rightarrow> nat \<Rightarrow> jsstr \<Rightarrow> 'x session \<Rightarrow> bool" where
  "store_since ser b n f s \<longleftrightarrow>
     sm_sessionFile s = Some f \<and> sm_persist s \<and> n \<le> sm_persistedCount s \<and> sm_persistedCount s \<le> length (sm_fileEntries s) \<and>
     disk_text f s @ concat (sm_writeQueue s) = written_since ser b n s \<and> drain_ok f (sm_draining s) (sm_writeQueue s) \<and>
     (\<not> sm_flushed s \<longrightarrow> sm_writeQueue s = [] \<and> sm_draining s = None) \<and>
     (\<not> sm_hasDurable s \<longrightarrow> sm_writeQueue s = [] \<and> sm_draining s = None \<and>
        (sm_flushed s \<longrightarrow> sm_persistedCount s = length (sm_fileEntries s)))"

lemma disk_append_sel [simp]:
  "disk_text f (disk_append f t s) = disk_text f s @ t" "sm_disk (disk_append f t s) = mset_at f (disk_text f s @ t) (sm_disk s)"
  "sm_fileEntries (disk_append f t s) = sm_fileEntries s" "sm_sessionFile (disk_append f t s) = sm_sessionFile s"
  "sm_persist (disk_append f t s) = sm_persist s" "sm_hasDurable (disk_append f t s) = sm_hasDurable s"
  "sm_flushed (disk_append f t s) = sm_flushed s" "sm_persistedCount (disk_append f t s) = sm_persistedCount s"
  "sm_writeQueue (disk_append f t s) = sm_writeQueue s" "sm_draining (disk_append f t s) = sm_draining s"
  by (simp_all add: disk_append_def disk_text_def)

lemma disk_text_cong: "sm_disk t = sm_disk s \<Longrightarrow> disk_text f t = disk_text f s"
  by (simp add: disk_text_def)

lemma drain_start_store: "store_since ser b n f s \<Longrightarrow> store_since ser b n f (drain_start s)"
  by (auto simp: store_since_def drain_start_def drain_ok_def written_since_def disk_text_def split: option.splits)

lemma drain_start_fields:
  "sm_flushed (drain_start s) = sm_flushed s" "sm_writeQueue (drain_start s) = sm_writeQueue s"
  "sm_fileEntries (drain_start s) = sm_fileEntries s" "sm_disk (drain_start s) = sm_disk s"
  by (auto simp: drain_start_def split: option.split)

lemma drain_finish_store:
  assumes "store_since ser b n f s"
  shows "store_since ser b n f (drain_finish ok s)"
proof (cases "sm_draining s")
  case (Some d)
  obtain g batch where d: "d = (g, batch)" by fastforce
  then have g: "g = f" "take (length batch) (sm_writeQueue s) = batch" using assms Some by (simp_all add: store_since_def drain_ok_def)
  have fl: "sm_flushed s" "sm_hasDurable s" using assms Some by (auto simp: store_since_def)
  show ?thesis
  proof (cases ok)
    case True
    let ?t = "(disk_append f (concat batch) s)
      \<lparr>sm_writeQueue := drop (length batch) (sm_writeQueue s), sm_failures := 0, sm_draining := None\<rparr>"
    have q: "sm_writeQueue s = batch @ drop (length batch) (sm_writeQueue s)" using g(2) by (metis append_take_drop_id)
    have "disk_text f s @ concat batch @ concat (drop (length batch) (sm_writeQueue s)) = disk_text f s @ concat (sm_writeQueue s)"
      by (subst (2) q) simp
    then have "store_since ser b n f ?t"
      using assms fl by (simp add: store_since_def written_since_def drain_ok_def disk_text_def)
    then show ?thesis using True Some d g(1) drain_start_store [OF \<open>store_since ser b n f ?t\<close>] by (simp add: drain_finish_def)
  next
    case False
    then show ?thesis using assms fl Some d by (simp add: drain_finish_def store_since_def drain_ok_def written_since_def disk_text_def)
  qed
qed (simp add: drain_finish_def assms)

lemma concat_drop_drop: "n \<le> m \<Longrightarrow> m \<le> length xs \<Longrightarrow>
    concat (map g (drop n (take m xs))) @ concat (map g (drop m (xs @ ys))) = concat (map g (drop n (xs @ ys)))"
proof -
  assume m: "n \<le> m" "m \<le> length xs"
  have "xs @ ys = take m xs @ drop m xs @ ys" by simp
  then have "drop n (xs @ ys) = drop n (take m xs @ drop m xs @ ys)" by (rule arg_cong)
  also have "\<dots> = drop n (take m xs) @ drop m (xs @ ys)" using m by (simp del: append_take_drop_id)
  finally show ?thesis by simp
qed

text \<open>A persist after the entry has been pushed.\<close>

lemma persist_store:
  assumes "store_since ser b n f s" "sm_fileEntries t = sm_fileEntries s @ [FEntry e]" "sm_sessionFile t = sm_sessionFile s"
    "sm_persist t = sm_persist s" "sm_flushed t = sm_flushed s" "sm_persistedCount t = sm_persistedCount s"
    "sm_hasDurable t = sm_hasDurable s" "sm_writeQueue t = sm_writeQueue s" "sm_draining t = sm_draining s" "sm_disk t = sm_disk s"
  shows "store_since ser b n f (fst (persist_entry ser io e t))"
proof -
  have fp: "sm_sessionFile t = Some f" "sm_persist t" using assms by (simp_all add: store_since_def)
  have count: "n \<le> sm_persistedCount s" "sm_persistedCount s \<le> length (sm_fileEntries s)" using assms(1) by (simp_all add: store_since_def)
  have disk: "disk_text f t = disk_text f s" by (simp add: disk_text_def assms(10))
  consider (skip) "\<not> sm_hasDurable s" "\<not> isDurableEntry (FEntry e)"
    | (first) "sm_flushed s \<longrightarrow> \<not> sm_hasDurable s" "sm_hasDurable s \<or> isDurableEntry (FEntry e)"
    | (queue) "sm_flushed s" "sm_hasDurable s" by blast
  then show ?thesis
  proof cases
    case skip
    then show ?thesis using assms count fp disk
      by (auto simp: persist_entry_def store_since_def written_since_def drain_ok_def disk_text_def)
  next
    case first
    have base: "sm_writeQueue s = []" "sm_draining s = None"
      "disk_text f s = b @ concat (map (disk_line ser) (drop n (take (sm_persistedCount s) (sm_fileEntries s))))"
      using assms(1) first by (cases "sm_flushed s"; auto simp: store_since_def written_since_def)+
    then have all: "disk_text f s @ concat (map (disk_line ser) (drop (sm_persistedCount s) (sm_fileEntries t)))
        = b @ concat (map (disk_line ser) (drop n (sm_fileEntries t)))"
      using concat_drop_drop [OF count, of "disk_line ser" "[FEntry e]"] by (simp add: assms(2))
    define s1 where "s1 = (if sm_hasDurable t then t else t\<lparr>sm_hasDurable := True, sm_flushed := False\<rparr>)"
    have s1: "sm_flushed s1 = False" "sm_hasDurable s1 = True" "sm_fileEntries s1 = sm_fileEntries t"
      "sm_persistedCount s1 = sm_persistedCount s" "sm_writeQueue s1 = []" "sm_draining s1 = None" "sm_disk s1 = sm_disk s"
      "sm_sessionFile s1 = Some f" "sm_persist s1"
      using first assms fp base by (auto simp: s1_def)
    have pe: "persist_entry ser io e t =
        (if appendWithRetry io
         then ((disk_append f (concat (map (disk_line ser) (drop (sm_persistedCount s1) (sm_fileEntries s1)))) s1)
                 \<lparr>sm_failures := 0, sm_flushed := True, sm_persistedCount := length (sm_fileEntries s1), sm_writeQueue := []\<rparr>, True)
         else (s1\<lparr>sm_flushed := False, sm_failures := Suc (sm_failures s1)\<rparr>, False))"
      using first(2) fp assms(7) s1 unfolding persist_entry_def s1_def [symmetric] by auto
    have d1: "disk_text f s1 = disk_text f s" by (simp add: disk_text_def s1)
    show ?thesis
    proof (cases "appendWithRetry io")
      case True
      then show ?thesis using all d1 count by (simp add: pe s1 assms(2) store_since_def written_since_def drain_ok_def disk_text_def)
    next
      case False
      have "take (sm_persistedCount s) (sm_fileEntries t) = take (sm_persistedCount s) (sm_fileEntries s)"
        using count by (simp add: assms(2))
      then show ?thesis using False base(3) d1 count
        by (simp add: pe s1 store_since_def written_since_def drain_ok_def disk_text_def) (simp add: assms(2))
    qed
  next
    case queue
    have "take (length b) (sm_writeQueue s @ [x]) = b" if "take (length b) (sm_writeQueue s) = b" for b x
    proof -
      have "length b \<le> length (sm_writeQueue s)" by (subst that [symmetric]) simp
      then show ?thesis using that by simp
    qed
    then have "store_since ser b n f (t\<lparr>sm_writeQueue := sm_writeQueue t @ [disk_line ser (FEntry e)]\<rparr>)"
      using queue assms count fp disk by (auto simp: store_since_def written_since_def drain_ok_def disk_text_def split: option.splits)
    then show ?thesis using queue assms(5,7) fp drain_start_store by (simp add: persist_entry_def Let_def)
  qed
qed

lemma append_store: "store_since ser b n f s \<Longrightarrow> store_since ser b n f (fst (appendEntry ser io e s))"
  unfolding appendEntry_def Let_def by (rule persist_store [of ser b n f s]) (auto split: entry_body.split)

lemma store_ok_cong:
  assumes "sm_fileEntries t = sm_fileEntries s" "sm_sessionFile t = sm_sessionFile s" "sm_persist t = sm_persist s"
    "sm_flushed t = sm_flushed s" "sm_persistedCount t = sm_persistedCount s" "sm_hasDurable t = sm_hasDurable s"
    "sm_writeQueue t = sm_writeQueue s" "sm_draining t = sm_draining s" "sm_disk t = sm_disk s"
  shows "store_since ser b n f t = store_since ser b n f s"
  by (simp add: store_since_def written_since_def drain_ok_def disk_text_def assms)
lemma append_body_store: "store_since ser b n f s \<Longrightarrow> ev_ser ev = ser \<Longrightarrow> append_body ev body s = (s', ok) \<Longrightarrow> store_since ser b n f s'"
  using append_store [of ser b n f s] unfolding append_body_def by (metis fst_conv)

lemma leaf_store: "store_since ser b n f (s\<lparr>sm_leafId := l\<rparr>) = store_since ser b n f s"
  by (rule store_ok_cong) simp_all

lemma set_label_store: "store_since ser b n f (set_label t l now s) = store_since ser b n f s"
  by (rule store_ok_cong) (auto simp: set_label_def split: option.split)

lemma getEntries_store: "store_since ser b n f (fst (getEntries s)) = store_since ser b n f s"
  by (rule store_ok_cong) (auto simp: getEntries_def split: option.split)

lemma ctx_cache_store: "store_since ser b n f (s\<lparr>sm_ctxCache := c\<rparr>) = store_since ser b n f s"
  by (rule store_ok_cong) simp_all

lemma sm_step_store: "sm_step ser s s' \<Longrightarrow> store_since ser b n f s \<Longrightarrow> store_since ser b n f s'"
proof (induction rule: sm_step.induct)
  case (st_append ev s body s' ok)
  then show ?case by (blast intro: append_body_store)
next
  case (st_label ev s t l s' ok)
  obtain s1 ok1 where a: "append_body ev (BLabel t l) s = (s1, ok1)" by fastforce
  then have "store_since ser b n f s1" using st_label append_body_store by blast
  then show ?case using st_label(3) a by (auto simp: appendLabelChange_def set_label_store split: if_splits bool.splits)
next
  case (st_summary ev s i summ d h s' ok)
  obtain b where "append_body ev b (s\<lparr>sm_leafId := i\<rparr>) = (s', ok)"
    using st_summary(3) by (auto simp: branchWithSummary_def split: option.splits if_splits)
  then show ?case using st_summary append_body_store leaf_store by blast
next
  case (st_entries s s' es)
  then show ?case using getEntries_store [of ser b n f s] by simp
next
  case (st_context s s' ctx)
  then show ?case
    by (auto simp: sessionContext_def ctx_cache_store getEntries_store split: option.splits if_splits)
qed (auto simp: branch_def resetLeaf_def flushWrites_def leaf_store drain_start_store drain_finish_store split: if_splits)

definition created_at :: "jsstr \<Rightarrow> 'x session \<Rightarrow> bool" where
  "created_at f s \<longleftrightarrow> (\<exists>cwd dir sid now disk. s = createSession cwd dir sid now disk \<and> f = session_path dir now sid \<and>
     mget disk f = None)"

lemma created_store: "created_at f s \<Longrightarrow> store_since ser [] 0 f s"
  by (auto simp: created_at_def createSession_def newSession_def blank_session_def Let_def store_since_def written_since_def
      drain_ok_def disk_text_def)

interpretation durable: transition_system "created_at f" "sm_step ser" "store_since ser [] 0 f"
  by unfold_locales (auto intro: created_store sm_step_store)




definition idle :: "'x session \<Rightarrow> bool" where
  "idle s \<longleftrightarrow> sm_persist s \<and> sm_writeQueue s = [] \<and> sm_draining s = None"





lemma index_entry_store:
  "sm_sessionFile (index_entry e s) = sm_sessionFile s" "sm_persist (index_entry e s) = sm_persist s"
  "sm_disk (index_entry e s) = sm_disk s" "sm_writeQueue (index_entry e s) = sm_writeQueue s"
  "sm_draining (index_entry e s) = sm_draining s" "sm_fileEntries (index_entry e s) = sm_fileEntries s"
  "sm_persistedCount (index_entry e s) = sm_persistedCount s" "sm_flushed (index_entry e s) = sm_flushed s"
  by (auto simp: index_entry_def set_label_def Let_def split: entry_body.split option.split)

lemma fold_index_store:
  "sm_sessionFile (fold index_entry es s) = sm_sessionFile s" "sm_persist (fold index_entry es s) = sm_persist s"
  "sm_disk (fold index_entry es s) = sm_disk s" "sm_writeQueue (fold index_entry es s) = sm_writeQueue s"
  "sm_draining (fold index_entry es s) = sm_draining s" "sm_fileEntries (fold index_entry es s) = sm_fileEntries s"
  "sm_persistedCount (fold index_entry es s) = sm_persistedCount s" "sm_flushed (fold index_entry es s) = sm_flushed s"
  by (induction es arbitrary: s) (simp_all add: index_entry_store)

lemma buildIndex_store [simp]:
  "sm_sessionFile (buildIndex s) = sm_sessionFile s" "sm_persist (buildIndex s) = sm_persist s"
  "sm_disk (buildIndex s) = sm_disk s" "sm_writeQueue (buildIndex s) = sm_writeQueue s"
  "sm_draining (buildIndex s) = sm_draining s" "sm_fileEntries (buildIndex s) = sm_fileEntries s"
  "sm_persistedCount (buildIndex s) = sm_persistedCount s" "sm_flushed (buildIndex s) = sm_flushed s"
  by (simp_all add: buildIndex_def fold_index_store)













text \<open>An append that did not throw, once there is a conversation, leaves the session flushed.\<close>

lemma append_flushed:
  assumes "append_body ev body s = (s', True)" "sm_persist s" "sm_sessionFile s = Some f" "sm_hasDurable s'"
  shows "sm_flushed s'"
  using assms
  by (auto simp: append_body_def appendEntry_def persist_entry_def Let_def drain_start_fields split: if_splits entry_body.splits)


section \<open>Reading files\<close>

lemma pushEntry_blank [simp]: "pushEntryFromLine parse [] es = es"
  by (simp add: pushEntryFromLine_def)

lemma take_lines_append:
  "take_lines parse cur (xs @ ys) es = (let (cur', es') = take_lines parse cur xs es in take_lines parse cur' ys es')"
  by (induction parse cur xs es rule: take_lines.induct) (auto simp: Let_def)

lemma take_lines_rest: "10 \<notin> set (fst (take_lines parse cur xs es))" if "10 \<notin> set cur"
  using that by (induction parse cur xs es rule: take_lines.induct) auto

lemma take_lines_plain: "10 \<notin> set xs \<Longrightarrow> take_lines parse cur (xs @ ys) es = take_lines parse (cur @ xs) ys es"
  by (induction xs arbitrary: cur) auto

lemma stream_whole:
  "10 \<notin> set leftover \<Longrightarrow> stream_chunks parse chunks leftover es =
     (let (cur, es') = take_lines parse leftover (concat chunks) es in pushEntryFromLine parse cur es')"
proof (induction chunks arbitrary: leftover es)
  case (Cons c cs)
  obtain l1 e1 where t: "take_lines parse [] (leftover @ c) es = (l1, e1)" by fastforce
  have "10 \<notin> set l1" using take_lines_rest [of "[]" parse "leftover @ c" es] t by simp
  moreover have "take_lines parse leftover c es = (l1, e1)"
    using t take_lines_plain [OF Cons.prems, of parse "[]" c es] by simp
  then have "take_lines parse leftover (c @ concat cs) es = take_lines parse l1 (concat cs) e1"
    by (simp add: take_lines_append)
  ultimately show ?case using Cons.IH t by simp
qed simp

lemma lines_take:
  "fold (\<lambda>l es. if l = [] then es else pushEntryFromLine parse l es) (lines_from cur xs) es =
     (let (cur', es') = take_lines parse cur xs es in pushEntryFromLine parse cur' es')"
  by (induction cur xs arbitrary: es rule: lines_from.induct) auto

text \<open>The streaming loader of big files reads what the plain loader reads from the joined chunks, wherever
  they are cut. (Each chunk is decoded on its own, so a character whose bytes two chunks share is not the
  character the whole file would give.)\<close>

theorem streaming_load_agrees:
  "loadEntriesFromFile parse (ChunkedRead chunks) = loadEntriesFromFile parse (FullRead (concat chunks))"
  by (simp add: loadEntriesFromFile_def loadEntriesFromFileStreaming_def stream_whole lines_take)

text \<open>
  What is relied on for a line: it is not empty, has no line feed, starts with a visible character, and
  \<open>JSON.parse\<close> gives the entry back (the redaction left it as it was).
\<close>

definition line_ok :: "('x file_entry \<Rightarrow> jsstr) \<Rightarrow> (jsstr \<Rightarrow> 'x file_entry option) \<Rightarrow> 'x file_entry \<Rightarrow> bool" where
  "line_ok ser parse e \<longleftrightarrow> ser e \<noteq> [] \<and> 10 \<notin> set (ser e) \<and> 32 < hd (ser e) \<and> \<not> is_ws (hd (ser e)) \<and> parse (ser e) = Some e"

lemma trim_visible: "s \<noteq> [] \<Longrightarrow> \<not> is_ws (hd s) \<Longrightarrow> trim s \<noteq> []"
  by (cases s) (auto simp: trim_def)

lemma push_line: "line_ok ser parse e \<Longrightarrow> pushEntryFromLine parse (ser e) es = es @ [e]"
  using trim_visible [of "ser e"] by (auto simp: line_ok_def pushEntryFromLine_def)

lemma take_lines_file:
  "list_all (line_ok ser parse) fs \<Longrightarrow> take_lines parse [] (concat (map (disk_line ser) fs)) es = ([], es @ fs)"
proof (induction fs arbitrary: es)
  case (Cons f fs)
  have "10 \<notin> set (ser f)" using Cons.prems by (simp add: line_ok_def)
  then have "take_lines parse [] (ser f @ 10 # concat (map (disk_line ser) fs)) es
      = take_lines parse [] (concat (map (disk_line ser) fs)) (es @ [f])"
    using take_lines_plain [of "ser f" parse "[]" "10 # concat (map (disk_line ser) fs)" es] Cons.prems push_line [of ser parse f]
    by simp
  then show ?case using Cons by (simp add: disk_line_def [of ser f])
qed simp

lemma load_written:
  assumes "list_all (line_ok ser parse) (FHeader h # fs)"
  shows "loadEntriesFromFile parse (FullRead (concat (map (disk_line ser) (FHeader h # fs)))) = FHeader h # fs"
  using take_lines_file [OF assms, of "[]"]
  by (simp add: loadEntriesFromFile_def lines_take validateSessionEntries_def del: list.map concat.simps)

lemma fresh_fields: "fresh_session s \<Longrightarrow> \<exists>h. sm_fileEntries s = [FHeader h] \<and> sh_version h = Some CURRENT_SESSION_VERSION"
  by (auto simp: fresh_session_def newSession_def Let_def)

lemma index_entry_rest:
  "sm_sessionFile (fold index_entry es s) = sm_sessionFile s" "sm_persist (fold index_entry es s) = sm_persist s"
  "sm_disk (fold index_entry es s) = sm_disk s" "sm_writeQueue (fold index_entry es s) = sm_writeQueue s"
  by (induction es arbitrary: s) (auto simp: index_entry_def set_label_def Let_def split: entry_body.split option.split)

text \<open>A current file needs no migration; opening it gives the entries, their index, the name and the last entry as leaf.\<close>

lemma open_written:
  assumes "list_all (line_ok ser parse) (FHeader h # fs)" "sh_version h = Some CURRENT_SESSION_VERSION"
    and "mget (sm_disk t) path = Some (concat (map (disk_line ser) (FHeader h # fs)))"
    and "distinct (ids (entries_of fs))"
  shows "\<exists>s2. setSessionFile ser parse FullRead aio uuids sid now path t = (s2, True) \<and>
    sm_fileEntries s2 = FHeader h # fs \<and> sm_byId s2 = by_id (entries_of fs) \<and> sm_name s2 = latest_name (entries_of fs) \<and>
    sm_sessionFile s2 = Some path \<and> sm_flushed s2 \<and> sm_persistedCount s2 = length (sm_fileEntries s2) \<and>
    sm_leafId s2 = (if entries_of fs = [] then None else Some (se_id (last (entries_of fs))))"
proof -
  have "migrateToCurrentVersion uuids (FHeader h # fs) = (FHeader h # fs, False)"
    by (simp add: migrateToCurrentVersion_def assms(2))
  then show ?thesis using assms(3,4) load_written [OF assms(1)]
    by (simp add: setSessionFile_def Let_def buildIndex_def fold_index index_entry_rest del: list.map concat.simps)
qed

lemma append_files: "append_body ev body s = (s', ok) \<Longrightarrow> \<exists>xs. sm_fileEntries s' = sm_fileEntries s @ xs"
  by (auto simp: append_body_def appendEntry_def Let_def dest!: arg_cong [of _ _ fst] simp: persist_keeps split: entry_body.splits)

lemma sm_step_files: "sm_step ser s s' \<Longrightarrow> \<exists>xs. sm_fileEntries s' = sm_fileEntries s @ xs"
proof (induction rule: sm_step.induct)
  case (st_append ev s body s' ok)
  then show ?case by (blast intro: append_files)
next
  case (st_label ev s t l s' ok)
  obtain s1 ok1 where a: "append_body ev (BLabel t l) s = (s1, ok1)" by fastforce
  have "sm_fileEntries (set_label t l n s1) = sm_fileEntries s1" for n by (simp add: set_label_def split: option.split)
  then show ?case using st_label(3) a append_files [OF a]
    by (auto simp: appendLabelChange_def split: if_splits bool.splits)
next
  case (st_summary ev s i summ d h s' ok)
  obtain b where "append_body ev b (s\<lparr>sm_leafId := i\<rparr>) = (s', ok)"
    using st_summary(3) by (auto simp: branchWithSummary_def split: option.splits if_splits)
  then show ?case using append_files by fastforce
qed (auto simp: branch_def resetLeaf_def getEntries_def sessionContext_def flushWrites_def drain_start_fields drain_finish_def
    split: option.splits if_splits prod.splits)

lemma sm_run_files: "(sm_step ser)\<^sup>*\<^sup>* s s' \<Longrightarrow> \<exists>xs. sm_fileEntries s' = sm_fileEntries s @ xs"
proof (induction rule: rtranclp_induct)
  case (step t u)
  then show ?case using sm_step_files [OF step(2)] by auto
qed simp

lemma sm_run_tree: "(sm_step ser)\<^sup>*\<^sup>* s s' \<Longrightarrow> (tree_step ser)\<^sup>*\<^sup>* s s'"
  by (induction rule: rtranclp_induct) (auto intro: ts_step rtranclp.rtrancl_into_rtrancl)

lemma created_fresh: "created_at f s \<Longrightarrow> fresh_session s"
  by (auto simp: created_at_def createSession_def fresh_session_def)

text \<open>C12: A session can be resumed: opening the file of a flushed session gives back every entry, every history
  and the display name, and continues from the last entry - whatever branch was current when it was left.\<close>

theorem session_reopens:
  assumes "created_at f s0" "(sm_step ser)\<^sup>*\<^sup>* s0 s" "sm_flushed s" "sm_writeQueue s = []"
    and "list_all (line_ok ser parse) (sm_fileEntries s)" "mget (sm_disk t) f = mget (sm_disk s) f"
  shows "\<exists>s2. setSessionFile ser parse FullRead aio uuids sid now f t = (s2, True) \<and>
    sm_fileEntries s2 = sm_fileEntries s \<and> getEntry s2 = getEntry s \<and> getBranch s2 (Some i) = getBranch s (Some i) \<and>
    getSessionName s2 = getSessionName s \<and>
    sm_leafId s2 = (if session_entries s = [] then None else Some (se_id (last (session_entries s))))"
proof -
  have ok: "session_ok s"
    using history.inv_reach [OF sm_run_tree [OF assms(2)]] created_fresh [OF assms(1)] by blast
  have "store_since ser [] 0 f s" using durable.inv_reach assms(1,2) by blast
  then have disk: "disk_text f s = concat (map (disk_line ser) (sm_fileEntries s))"
    using assms(3,4) by (simp add: store_since_def written_since_def)
  obtain h xs where files: "sm_fileEntries s = FHeader h # xs" "sh_version h = Some CURRENT_SESSION_VERSION"
    using fresh_fields [OF created_fresh [OF assms(1)]] sm_run_files [OF assms(2)] by fastforce
  have "disk_text f s \<noteq> []" by (simp add: disk files(1) disk_line_def)
  then have "mget (sm_disk s) f = Some (concat (map (disk_line ser) (sm_fileEntries s)))"
    using disk by (simp add: disk_text_def split: option.splits)
  then have m: "mget (sm_disk t) f = Some (concat (map (disk_line ser) (FHeader h # xs)))" using assms(6) files(1) by simp
  have d: "distinct (ids (entries_of xs))" using session_okD(2) [OF ok] files(1) by simp
  obtain s2 where s2: "setSessionFile ser parse FullRead aio uuids sid now f t = (s2, True)"
      "sm_fileEntries s2 = FHeader h # xs" "sm_byId s2 = by_id (entries_of xs)" "sm_name s2 = latest_name (entries_of xs)"
      "sm_leafId s2 = (if entries_of xs = [] then None else Some (se_id (last (entries_of xs))))"
    using open_written [OF _ files(2) m d, of parse aio uuids sid now] assms(5) files(1) by auto
  have same: "sm_byId s2 = sm_byId s" using s2(3) session_okD(1) [OF ok] files(1) by simp
  have "sm_name s = latest_name (entries_of xs)" using ok files(1) by (simp add: session_ok_def)
  moreover have "getBranch s2 (Some i) = getBranch s (Some i)" by (simp only: getBranch_def same option.case)
  moreover have "getEntry s2 = getEntry s" by (rule ext) (simp only: getEntry_def same)
  ultimately show ?thesis using s2 files(1)
    by (intro exI [of _ s2]) (simp only: getSessionName_def entries_of.simps conj_ac simp_thms)
qed

section \<open>Witnesses\<close>

definition sample_file :: jsstr where
  "sample_file = session_path (js ''/s'') (js ''t'') (js ''id'')"

lemma sample_created: "created_at sample_file sample_start"
  unfolding created_at_def sample_start_def sample_file_def by (intro exI conjI) (rule refl, rule refl, rule mget_Nil)


definition sample_parse :: "jsstr \<Rightarrow> unit file_entry option" where
  "sample_parse l = (if l = js ''h'' then Some (hd (sm_fileEntries sample_one)) else Some (last (sm_fileEntries sample_one)))"

theorem session_reopens_witness:
  "\<exists>s2. setSessionFile sample_ser sample_parse FullRead \<lparr> ai_tmp = True, ai_rename = (\<lambda>i. IoOk), ai_direct = True \<rparr>
     (\<lambda>k i. []) [] [] sample_file sample_one = (s2, True) \<and> sm_fileEntries s2 = sm_fileEntries sample_one"
proof -
  have f: "sm_flushed sample_one" "sm_writeQueue sample_one = []" by code_simp+
  have run: "(sm_step sample_ser)\<^sup>*\<^sup>* sample_start sample_one" using sample_step by (rule r_into_rtranclp)
  obtain h where "sm_fileEntries sample_start = [FHeader h]" using fresh_fields [OF sample_fresh] by blast
  then obtain e where "sm_fileEntries sample_one = [FHeader h, FEntry e]"
    unfolding sample_one_def append_body_def appendEntry_def Let_def
    by (cases "se_body (new_entry (ev_uuid (sample_env 65)) (ev_now (sample_env 65)) user_says sample_start)")
      (simp_all add: persist_keeps)
  then have "list_all (line_ok sample_ser sample_parse) (sm_fileEntries sample_one)"
    by (simp add: line_ok_def sample_ser_def sample_parse_def js_def is_ws_def)
  then show ?thesis
    using session_reopens [OF sample_created run f, of sample_parse sample_one] by blast
qed


section \<open>Forks and migrations\<close>

text \<open>A chain of registered entries up to a root is what the walk finds.\<close>

lemma walk_of_path:
  "path \<noteq> [] \<Longrightarrow> chained path \<Longrightarrow> parent_in m (hd path) = None \<Longrightarrow>
   list_all (\<lambda>e. mget m (se_id e) = Some e \<and> se_id e \<noteq> []) path \<Longrightarrow> walk m (last path) = Some path"
proof (induction path rule: rev_induct)
  case (snoc e path)
  show ?case
  proof (cases path rule: rev_cases)
    case Nil
    then show ?thesis using snoc.prems by (simp add: walk.simps [of m e])
  next
    case (snoc us p)
    note path = snoc
    have c: "chained path" "se_parentId e = Some (se_id p)"
      using snoc.prems(2) path by (simp_all add: chained_snoc)
    have "parent_in m e = Some p" using c(2) snoc.prems(4) path by (simp add: parent_in_def)
    moreover have "walk m p = Some path"
      using snoc.IH [OF _ c(1)] snoc.prems(3,4) path by (cases us) simp_all
    ultimately show ?thesis by (simp add: walk.simps [of m e])
  qed
qed simp

text \<open>Label entries are part of the path that a fork copies and are filtered out of it, but their children keep
  them as parents: the forked history starts after the last label.\<close>

definition sample_two :: "unit session" where
  "sample_two = (case appendLabelChange (sample_env 66) [65] (Some (js ''x'')) sample_one of Some (t, ok) \<Rightarrow> t | None \<Rightarrow> sample_one)"

definition sample_labelled :: "unit session" where
  "sample_labelled = fst (append_body (sample_env 67) user_says sample_two)"

lemma labelled_reach: "(tree_step sample_ser)\<^sup>*\<^sup>* sample_start sample_labelled"
proof -
  have "appendLabelChange (sample_env 66) [65] (Some (js ''x'')) sample_one \<noteq> None"
    "uuids_ok (ev_uuid (sample_env 66)) sample_one" "uuids_ok (ev_uuid (sample_env 67)) sample_two" by code_simp+
  then obtain ok where "appendLabelChange (sample_env 66) [65] (Some (js ''x'')) sample_one = Some (sample_two, ok)"
    and u: "uuids_ok (ev_uuid (sample_env 66)) sample_one" "uuids_ok (ev_uuid (sample_env 67)) sample_two"
    by (auto simp: sample_two_def)
  then have "sm_step sample_ser sample_one sample_two" by (intro st_label [OF u(1)]) (auto simp: sample_env_def)
  moreover have "append_body (sample_env 67) user_says sample_two =
      (sample_labelled, snd (append_body (sample_env 67) user_says sample_two))" by (simp add: sample_labelled_def)
  then have "sm_step sample_ser sample_two sample_labelled" by (intro st_append [OF u(2)]) (auto simp: sample_env_def)
  ultimately show ?thesis using sample_reach by (meson rtranclp.rtrancl_into_rtrancl ts_step)
qed

lemma fork_source: "map_option (map se_id) (getBranch sample_labelled (Some [67])) = Some [[65], [66], [67]]"
  by code_simp

lemma fork_drops_history:
  "(case createBranchedSession sample_ser \<lparr> ai_tmp = True, ai_rename = (\<lambda>i. IoOk), ai_direct = True \<rparr> (\<lambda>k i. [68]) [] [] [67] sample_labelled of
      None \<Rightarrow> None
    | Some (t, ok) \<Rightarrow> Some (map se_id (session_entries t), map_option (map se_id) (getBranch t None)))
   = Some ([[65], [67], [68]], Some [[67], [68]])"
  by code_simp

text \<open>A new session taken while a line of the old one is queued (its write had failed) gets that line as its file.\<close>

definition sample_unwritten :: "unit session" where
  "sample_unwritten = drain_finish False (fst (append_body (sample_env 66) user_says sample_one))"

lemma new_session_takes_queue:
  "let s = newSession (js ''n'') (js ''u'') None sample_unwritten; f = session_path (js ''/s'') (js ''u'') (js ''n'')
   in \<not> idle sample_unwritten \<and> sm_sessionFile s = Some f \<and> disk_text f s = [] \<and>
      disk_text f (drain_finish True (flushWrites s)) = concat (sm_writeQueue sample_unwritten) \<and>
      concat (sm_writeQueue sample_unwritten) \<noteq> []"
  by code_simp

text \<open>A walk that meets its own entry as parent does not end.\<close>

lemma self_parent_diverges: "parent_in m e = Some e \<Longrightarrow> walk m e = None"
proof (rule ccontr)
  assume p: "parent_in m e = Some e" and "walk m e \<noteq> None"
  then obtain path where path: "walk m e = Some path" by blast
  have "walk m e = Option.bind (walk m e) (\<lambda>q. Some (q @ [e]))" using p by (subst (1) walk.simps) simp
  then show False unfolding path by simp
qed

text \<open>The migration of a file of version 1 draws ids without checking them against each other: two equal ones
  make an entry its own parent.\<close>

lemma migrated_ids_collide:
  "entries_of (fst (migrateToCurrentVersion (\<lambda>k i. [65]) [FEntry (new_entry (\<lambda>i. []) [] user_says sample_start),
       FEntry (new_entry (\<lambda>i. []) [] user_says sample_start)])) =
     [ \<lparr> se_id = [65], se_parentId = None, se_timestamp = [], se_body = user_says \<rparr>,
       \<lparr> se_id = [65], se_parentId = Some [65], se_timestamp = [], se_body = user_says \<rparr> ]"
  "walk (index_entries [ \<lparr> se_id = [65], se_parentId = None, se_timestamp = [], se_body = user_says \<rparr>,
       \<lparr> se_id = [65], se_parentId = Some [65], se_timestamp = [], se_body = user_says \<rparr> ])
     \<lparr> se_id = [65], se_parentId = Some [65], se_timestamp = [], se_body = user_says \<rparr> = None"
proof -
  show "entries_of (fst (migrateToCurrentVersion (\<lambda>k i. [65]) [FEntry (new_entry (\<lambda>i. []) [] user_says sample_start),
       FEntry (new_entry (\<lambda>i. []) [] user_says sample_start)])) =
     [ \<lparr> se_id = [65], se_parentId = None, se_timestamp = [], se_body = user_says \<rparr>,
       \<lparr> se_id = [65], se_parentId = Some [65], se_timestamp = [], se_body = user_says \<rparr> ]" by code_simp
qed (rule self_parent_diverges, simp add: parent_in_def index_entries_def mset_at_def mhas_def mget_def)

section \<open>What a fork keeps\<close>

lemma labels_chained:
  "chained (x # label_entries uuids k ds (Some (se_id x)) ls)"
proof (induction ls arbitrary: x k ds)
  case (Cons l ls)
  obtain t y tm where l: "l = (t, y, tm)" by (cases l) auto
  let ?n = "\<lparr>se_id = generateId (uuids k) (\<lambda>z. z \<in> set ds), se_parentId = Some (se_id x), se_timestamp = tm,
    se_body = BLabel t (Some y)\<rparr> :: 'a session_entry"
  show ?case using Cons [of ?n "Suc k" "ds @ [se_id ?n]"] l by (simp add: Let_def)
qed simp

lemma labels_bodies:
  "map se_body (label_entries uuids k ds parent ls) = map (\<lambda>(t, l, x). BLabel t (Some l)) ls"
  by (induction ls arbitrary: k ds parent) (auto simp: Let_def)

lemma chained_append: "chained (xs @ [x]) \<Longrightarrow> chained (x # ys) \<Longrightarrow> chained (xs @ x # ys)"
  by (induction xs rule: chained.induct) auto

lemma fork_fields:
  assumes "createBranchedSession ser aio uuids sid now leaf s = Some (s', ok)" "getBranch s (Some leaf) = Some path"
    and "distinct (ids (branched_entries uuids s path))"
  shows "sm_byId s' = by_id (branched_entries uuids s path) \<and> session_entries s' = branched_entries uuids s path \<and>
    sm_leafId s' = (if branched_entries uuids s path = [] then None else Some (se_id (last (branched_entries uuids s path))))"
proof -
  let ?b = "branched_entries uuids s path"
  have bi: "sm_byId (buildIndex t) = by_id ?b \<and> sm_leafId (buildIndex t) = (if ?b = [] then None else Some (se_id (last ?b))) \<and>
      sm_fileEntries (buildIndex t) = FHeader hh # map FEntry ?b"
    if "sm_fileEntries t = FHeader hh # map FEntry ?b" for t hh
    using that assms(3) by (simp add: buildIndex_def fold_index)
  have rw: "rewriteFile ser aio t = (t', k) \<Longrightarrow>
      sm_byId t' = sm_byId t \<and> sm_leafId t' = sm_leafId t \<and> sm_fileEntries t' = sm_fileEntries t" for t t' k
    by (auto simp: rewriteFile_def disk_write_def split: option.splits if_splits)
  show ?thesis
    using assms(1,2) by (auto simp: createBranchedSession_def Let_def bi split: if_splits prod.splits bool.splits dest!: rw)
qed

lemma branched_root:
  assumes "session_ok s" "root_path (sm_byId s) e path" "set path \<subseteq> set (session_entries s)" "labels_fresh uuids s path"
  shows "parent_in (by_id (branched_entries uuids s path)) (hd path) = None"
proof (cases "se_parentId (hd path)")
  case (Some p)
  have h: "hd path \<in> set (session_entries s)" using assms(2,3) by (auto simp: root_path_def)
  have "p = [] \<or> \<not> mhas (sm_byId s) p"
    using Some assms(2) by (auto simp: root_path_def parent_in_def mhas_mget split: if_splits)
  moreover have "p \<notin> set (ids (branched_entries uuids s path))" if "\<not> mhas (sm_byId s) p"
  proof -
    have "mentioned s p" using mentioned_parent [OF h Some that] .
    then have "p \<notin> set (ids (new_labels uuids s path))" using assms(4) by (auto simp: labels_fresh_def list_all_iff)
    moreover have "p \<notin> set (ids path)"
      using that assms(3) session_okD(1) [OF assms(1)] mhas_by_id [of "session_entries s" p] by auto
    ultimately show ?thesis by (auto simp: branched_split)
  qed
  ultimately show ?thesis using Some by (auto simp: parent_in_def mget_def map_of_eq_None_iff image_iff)
qed (simp add: parent_in_def)

text \<open>The part of a path after its last label entry, but for the labels it ends in.\<close>

definition after_label :: "'x session_entry list \<Rightarrow> 'x session_entry list" where
  "after_label path = rev (takeWhile (\<lambda>e. \<not> is_label e) (dropWhile is_label (rev path)))"

lemma after_label_split:
  obtains A D where "path = A @ after_label path @ D" "list_all is_label D" "A = [] \<or> is_label (last A) \<and> after_label path \<noteq> []"
proof
  let ?r = "dropWhile is_label (rev path)"
  let ?A = "rev (dropWhile (\<lambda>e. \<not> is_label e) ?r)"
  have "rev path = takeWhile is_label (rev path) @ takeWhile (\<lambda>e. \<not> is_label e) ?r @ dropWhile (\<lambda>e. \<not> is_label e) ?r" by simp
  then have "rev (rev path) = ?A @ after_label path @ rev (takeWhile is_label (rev path))"
    unfolding after_label_def by (metis append_assoc rev_append)
  then show "path = ?A @ after_label path @ rev (takeWhile is_label (rev path))" by simp
  show "list_all is_label (rev (takeWhile is_label (rev path)))" by (auto simp: list_all_iff dest: set_takeWhileD)
  have "is_label (last ?A) \<and> after_label path \<noteq> []" if "?A \<noteq> []"
  proof
    have ne: "dropWhile (\<lambda>e. \<not> is_label e) ?r \<noteq> []" using that by simp
    then show "is_label (last ?A)" using hd_dropWhile [OF ne] by (simp add: last_rev)
    have "?r \<noteq> []" using ne by (metis dropWhile.simps(1))
    then show "after_label path \<noteq> []" using hd_dropWhile [of is_label "rev path"] by (cases ?r) (auto simp: after_label_def)
  qed
  then show "?A = [] \<or> is_label (last ?A) \<and> after_label path \<noteq> []" by blast
qed

lemma after_label_plain: "list_all (\<lambda>e. \<not> is_label e) (after_label path)"
  by (auto simp: after_label_def list_all_iff dest: set_takeWhileD)

lemma after_label_whole: "after_label path = path \<longleftrightarrow> list_all (\<lambda>e. \<not> is_label e) path"
proof
  assume "list_all (\<lambda>e. \<not> is_label e) path"
  then have n: "\<forall>e\<in>set (rev path). \<not> is_label e" by (simp add: list_all_iff)
  then have "dropWhile is_label (rev path) = rev path" by (cases "rev path") (auto simp del: set_rev)
  moreover have "takeWhile (\<lambda>e. \<not> is_label e) (rev path) = rev path" using n by (simp only: takeWhile_eq_all_conv)
  ultimately show "after_label path = path" unfolding after_label_def by (simp only: rev_rev_ident)
qed (metis after_label_plain)

lemma after_label_kept:
  assumes "path = A @ after_label path @ D" "list_all is_label D"
  shows "filter (\<lambda>e. \<not> is_label e) path = filter (\<lambda>e. \<not> is_label e) A @ after_label path"
proof -
  have "filter (\<lambda>e. \<not> is_label e) (after_label path) = after_label path"
    using after_label_plain [of path] by (simp add: filter_id_conv list_all_iff)
  moreover have "filter (\<lambda>e. \<not> is_label e) D = []" using assms(2) by (simp add: filter_empty_conv list_all_iff)
  ultimately show ?thesis by (subst assms(1)) simp
qed

lemma chained_appendD: "chained (xs @ ys) \<Longrightarrow>
    chained xs \<and> chained ys \<and> (xs \<noteq> [] \<longrightarrow> ys \<noteq> [] \<longrightarrow> se_parentId (hd ys) = Some (se_id (last xs)))"
proof (induction xs)
  case (Cons x xs)
  then show ?case by (cases xs; cases ys) auto
qed simp

text \<open>A label of the path is not among the entries of the fork.\<close>

lemma label_gone:
  assumes "session_ok s" "set path \<subseteq> set (session_entries s)" "labels_fresh uuids s path" "x \<in> set path" "is_label x"
  shows "se_id x \<notin> set (ids (branched_entries uuids s path))"
proof -
  have x: "x \<in> set (session_entries s)" using assms(2,4) by blast
  have "mhas (sm_byId s) (se_id x)" using session_okD(1) [OF assms(1)] x mhas_by_id [of "session_entries s" "se_id x"] by simp
  then have "se_id x \<notin> set (ids (new_labels uuids s path))" using assms(3) by (auto simp: labels_fresh_def list_all_iff)
  moreover have "inj_on se_id (set (session_entries s))" using session_okD(2) [OF assms(1)] by (simp add: distinct_map)
  then have "y = x" if "y \<in> set path" "se_id y = se_id x" for y using that assms(2) x by (auto dest: inj_onD)
  then have "se_id x \<notin> set (ids (filter (\<lambda>e. \<not> is_label e) path))" using assms(5) by auto
  ultimately show ?thesis unfolding branched_split by simp
qed

text \<open>C13: A fork keeps the conversation: the new session holds every entry of the path of the chosen entry but the
  label entries, in order, and then every label of a kept entry, written again. Its history is the part of that path
  after the last label entry, which is all of it exactly when no label entry lies on it, followed by the labels.\<close>

theorem fork_keeps_history:
  assumes "fresh_session s0" "(tree_step ser)\<^sup>*\<^sup>* s0 s" "getBranch s (Some leaf) = Some path"
    and "createBranchedSession ser aio uuids sid now leaf s = Some (s', ok)" "labels_fresh uuids s path"
  shows "session_entries s' = filter (\<lambda>e. \<not> is_label e) path @ new_labels uuids s path \<and>
    getBranch s' None = Some (after_label path @ new_labels uuids s path) \<and>
    (after_label path = path) = list_all (\<lambda>e. \<not> is_label e) path \<and>
    map se_body (new_labels uuids s path) = map (\<lambda>(t, l). BLabel t (Some l))
      (filter (\<lambda>(t, l). t \<in> set (map se_id (filter (\<lambda>e. \<not> is_label e) path))) (sm_labels s))"
proof -
  let ?es = "session_entries s" and ?b = "branched_entries uuids s path" and ?H = "after_label path"
  let ?kept = "filter (\<lambda>e. \<not> is_label e) path" and ?new = "new_labels uuids s path"
  have sk: "session_ok s" using history.inv_reach assms(1,2) by blast
  have ne: "path \<noteq> []" using assms(3,4) by (auto simp: createBranchedSession_def)
  obtain e where e: "e \<in> set ?es" "walk (sm_byId s) e = Some path"
    using assms(3) ne session_okD(4) [OF sk] by (auto simp: getBranch_def split: option.splits if_splits)
  have rp: "root_path (sm_byId s) e path" and sub: "set path \<subseteq> set ?es" and d: "distinct path"
    using walk_registered [OF session_okD(2,3) [OF sk] e(1)] e(2) session_okD(1) [OF sk] by auto
  note bl = branched_linked [OF sk rp sub d assms(5)]
  note f = fork_fields [OF assms(4,3) bl(1)]
  obtain A D where split: "path = A @ ?H @ D" "list_all is_label D" "A = [] \<or> is_label (last A) \<and> ?H \<noteq> []"
    by (rule after_label_split [of path])
  have kept: "?kept = filter (\<lambda>e. \<not> is_label e) A @ ?H" using after_label_kept [OF split(1,2)] .
  have new: "?new = label_entries uuids 0 (ids ?kept) (if ?kept = [] then None else Some (se_id (last ?kept)))
      (map (\<lambda>(t, l). (t, l, case mget (sm_labelTimes s) t of Some x \<Rightarrow> x | None \<Rightarrow> []))
        (filter (\<lambda>(t, l). t \<in> set (ids ?kept)) (sm_labels s)))"
    by (simp add: new_labels_def branched_entries_def Let_def)
  have "getBranch s' None = Some (?H @ ?new)"
  proof (cases "?H = []")
    case True
    then have "A = []" using split(3) by auto
    then have "?kept = []" using kept True by simp
    then have "?new = []" by (simp add: new)
    then show ?thesis using True f \<open>?kept = []\<close> by (simp add: getBranch_def branched_split)
  next
    case False
    have ch0: "chained path" using rp by (simp add: root_path_def)
    then have chH: "chained ?H" using chained_appendD [of A "?H @ D"] chained_appendD [of ?H D] split(1) by simp
    have last: "last ?kept = last ?H" "?kept \<noteq> []" using kept False by simp_all
    have "chained (butlast ?H @ [last ?H])" using chH append_butlast_last_id [OF False] by simp
    then have "chained (butlast ?H @ last ?H # ?new)"
      unfolding new using last by (simp only: if_False) (rule chained_append, assumption, rule labels_chained)
    moreover have "butlast ?H @ last ?H # ys = ?H @ ys" for ys
      using append_butlast_last_id [OF False] by (metis append.assoc append_Cons append_Nil)
    ultimately have ch: "chained (?H @ ?new)" by (simp only:)
    have "parent_in (by_id ?b) (hd ?H) = None"
    proof (cases "A = []")
      case True
      then have "hd path = hd ?H" by (subst split(1)) (simp add: False)
      then show ?thesis using branched_root [OF sk rp sub assms(5)] by simp
    next
      case no: False
      have "hd (?H @ D) = hd ?H" using False by simp
      then have p: "se_parentId (hd ?H) = Some (se_id (last A))"
        using chained_appendD [of A "?H @ D"] ch0 split(1) False no by simp
      have "last A \<in> set path" by (subst split(1)) (simp add: no)
      then have "se_id (last A) \<notin> set (ids ?b)" using label_gone [OF sk sub assms(5)] split(3) no by blast
      then show ?thesis unfolding parent_in_def p by (simp add: mget_def map_of_eq_None_iff image_iff)
    qed
    then have root: "parent_in (by_id ?b) (hd (?H @ ?new)) = None" using False by simp
    have mem: "set (?H @ ?new) \<subseteq> set ?b" unfolding branched_split kept by auto
    have "list_all (\<lambda>x. mget (by_id ?b) (se_id x) = Some x \<and> se_id x \<noteq> []) (?H @ ?new)"
      using mget_by_id [OF bl(1)] bl(2) mem by (force simp: list_all_iff)
    then have w: "walk (by_id ?b) (last (?H @ ?new)) = Some (?H @ ?new)"
      using walk_of_path [OF _ ch root] False by simp
    have b: "?b \<noteq> []" "last ?b = last (?H @ ?new)" using False unfolding branched_split kept by simp_all
    have l: "last ?b \<in> set ?b" using b(1) by (rule last_in_set)
    have "mget (by_id ?b) (se_id (last ?b)) = Some (last ?b)" unfolding mget_by_id [OF bl(1)] using l by simp
    moreover have "se_id (last ?b) \<noteq> []" using bl(2) imageI [OF l, of se_id] by (metis set_map)
    ultimately show ?thesis using f b w by (simp add: getBranch_def del: list.map)
  qed
  moreover have "session_entries s' = ?kept @ ?new" using f by (simp add: branched_split)
  ultimately show ?thesis using after_label_whole [of path] by (simp add: new labels_bodies case_prod_beta' comp_def)
qed

theorem fork_keeps_history_witness:
  "(case createBranchedSession sample_ser \<lparr> ai_tmp = True, ai_rename = (\<lambda>i. IoOk), ai_direct = True \<rparr>
     (\<lambda>k i. [68]) (js ''n'') [] [67] sample_labelled of
      Some (t, ok) \<Rightarrow> map se_id (session_entries t) = [[65], [67], [68]] \<and> map_option (map se_id) (getBranch t None) = Some [[67], [68]]
    | None \<Rightarrow> False)"
proof -
  let ?new = "createBranchedSession sample_ser \<lparr> ai_tmp = True, ai_rename = (\<lambda>i. IoOk), ai_direct = True \<rparr>
     (\<lambda>k i. [68]) (js ''n'') [] [67] sample_labelled"
  have two: "case getBranch sample_labelled (Some [67]) of None \<Rightarrow> False | Some p \<Rightarrow>
      p \<noteq> [] \<and> labels_fresh (\<lambda>k i. [68]) sample_labelled p \<and> map se_id (filter (\<lambda>e. \<not> is_label e) p) = [[65], [67]] \<and>
      map se_id (after_label p) = [[67]] \<and> map se_id (new_labels (\<lambda>k i. [68]) sample_labelled p) = [[68]]" by code_simp
  then obtain path where path: "getBranch sample_labelled (Some [67]) = Some path" "path \<noteq> []"
      "labels_fresh (\<lambda>k i. [68]) sample_labelled path" "map se_id (filter (\<lambda>e. \<not> is_label e) path) = [[65], [67]]"
      "map se_id (after_label path) = [[67]]" "map se_id (new_labels (\<lambda>k i. [68]) sample_labelled path) = [[68]]"
    by (auto split: option.splits)
  have "?new \<noteq> None" using path(1,2) by (auto simp: createBranchedSession_def Let_def split: prod.split bool.split)
  then obtain t ok where new: "?new = Some (t, ok)" by auto
  from fork_keeps_history [OF sample_fresh labelled_reach path(1) new path(3)]
  show ?thesis using new path(4,5,6) by simp
qed

end
