(* ===== verification/SessionForest.thy ===== *)
theory SessionForest
  imports SessionFiles "HOL-Library.Multiset"
begin

text \<open>
  The tree view of a session (\<open>getTree\<close> in core/session-manager.ts): whatever was appended, branched or
  forked, every entry has exactly one place in it. The proof counts entries by their depth.
\<close>

fun tree_entries :: "'x tree_node \<Rightarrow> 'x session_entry list" where
  "tree_entries (TreeNode e l t cs) = e # concat (map tree_entries cs)"

fun tree_sorted :: "(jsstr \<Rightarrow> int) \<Rightarrow> 'x tree_node \<Rightarrow> bool" where
  "tree_sorted time_of (TreeNode e l t cs) =
     (sorted (map (\<lambda>c. case c of TreeNode x y z w \<Rightarrow> time_of (se_timestamp x)) cs) \<and> list_all (tree_sorted time_of) cs)"


section \<open>Depth\<close>

definition depth :: "'x session_entry list \<Rightarrow> 'x session_entry \<Rightarrow> nat" where
  "depth es e = (case walk (by_id es) e of Some path \<Rightarrow> length path - 1 | None \<Rightarrow> 0)"

abbreviation kids :: "'x session_entry list \<Rightarrow> 'x session_entry \<Rightarrow> 'x session_entry list" where
  "kids es e \<equiv> filter (\<lambda>c. se_parentId c = Some (se_id e)) es"

definition forest :: "'x session_entry list \<Rightarrow> bool" where
  "forest es \<longleftrightarrow> distinct (ids es) \<and> linked es \<and> [] \<notin> set (ids es)"

lemma forestD: "forest es \<Longrightarrow> distinct (ids es)" "forest es \<Longrightarrow> linked es" "forest es \<Longrightarrow> [] \<notin> set (ids es)"
  by (simp_all add: forest_def)

lemma no_self:
  assumes "forest es" "e \<in> set es"
  shows "se_parentId e \<noteq> Some (se_id e)"
proof
  assume p: "se_parentId e = Some (se_id e)"
  obtain xs ys where es: "es = xs @ e # ys" using assms(2) by (meson split_list)
  have "se_id e \<in> set (ids xs)" using linked_parent [OF forestD(2) [OF assms(1)] es p] assms(2) by simp
  then show False using forestD(1) [OF assms(1)] es by auto
qed

lemma by_id_None: "mget (by_id es) p = None \<longleftrightarrow> p \<notin> set (ids es)"
  using mhas_by_id [of es p] by (cases "mget (by_id es) p") (auto simp: mhas_mget)

lemma root_iff:
  assumes "forest es" "e \<in> set es"
  shows "is_root (by_id es) e \<longleftrightarrow> parent_in (by_id es) e = None"
proof (cases "se_parentId e")
  case (Some p)
  have "is_root (by_id es) e \<longleftrightarrow> p \<notin> set (ids es)"
    using no_self [OF assms] Some mhas_by_id [of es p] by (auto simp: is_root_def)
  moreover have "parent_in (by_id es) e = None \<longleftrightarrow> p \<notin> set (ids es)"
    using Some by_id_None [of es p] forestD(3) [OF assms(1)] by (auto simp: parent_in_def)
  ultimately show ?thesis by simp
qed (simp add: is_root_def parent_in_def)

lemma depth_root: "parent_in (by_id es) e = None \<Longrightarrow> depth es e = 0"
  by (simp add: depth_def walk.simps [of "by_id es" e])

lemma depth_kid:
  assumes "forest es" "e \<in> set es" "p \<in> set es" "se_parentId e = Some (se_id p)"
  shows "depth es e = Suc (depth es p)"
proof -
  have "mget (by_id es) (se_id p) = Some p" using assms(3) mget_by_id [OF forestD(1) [OF assms(1)]] by simp
  moreover have "se_id p \<noteq> []" using forestD(3) [OF assms(1)] assms(3) by force
  ultimately have "parent_in (by_id es) e = Some p" using assms(4) by (simp add: parent_in_def)
  moreover obtain path where "walk (by_id es) p = Some path" "path \<noteq> []"
    using walk_registered [OF forestD(1,2) [OF assms(1)] assms(3)] by (auto simp: root_path_def)
  ultimately show ?thesis by (simp add: depth_def walk.simps [of "by_id es" e])
qed

lemma depth_cases:
  assumes "forest es" "e \<in> set es"
  shows "(is_root (by_id es) e \<and> depth es e = 0) \<or>
    (\<not> is_root (by_id es) e \<and> (\<exists>p \<in> set es. se_parentId e = Some (se_id p) \<and> depth es e = Suc (depth es p)))"
proof (cases "parent_in (by_id es) e")
  case None
  then show ?thesis using assms root_iff depth_root by blast
next
  case (Some p)
  then have p: "p \<in> set es" "se_parentId e = Some (se_id p)"
    using mget_by_id [OF forestD(1) [OF assms(1)]] by (auto simp: parent_in_def split: option.splits if_splits)
  have "\<not> is_root (by_id es) e" using root_iff [OF assms] Some by simp
  then show ?thesis using depth_kid [OF assms p] p by blast
qed

lemma depth_bound:
  assumes "forest es" "e \<in> set es"
  shows "depth es e < length es"
proof -
  obtain path where p: "walk (by_id es) e = Some path" "path \<noteq> []" "set path \<subseteq> set es" "distinct path"
    using walk_registered [OF forestD(1,2) [OF assms(1)] assms(2)] by (auto simp: root_path_def)
  have "length path = card (set path)" using p(4) by (simp add: distinct_card)
  also have "\<dots> \<le> length es" using card_mono [OF _ p(3)] card_length [of es] by (meson List.finite_set le_trans)
  finally show ?thesis using p(1,2) by (cases path) (simp_all add: depth_def)
qed

text \<open>Children of different entries are different: each level has the children of the one above, once.\<close>

lemma filter_mset_disj:
  "(\<And>x. x \<in># M \<Longrightarrow> \<not> (P x \<and> Q x)) \<Longrightarrow> filter_mset (\<lambda>x. P x \<or> Q x) M = filter_mset P M + filter_mset Q M"
  by (induction M) auto

lemma kids_sum:
  "distinct (ids ps) \<Longrightarrow>
   (\<Sum>e \<in># mset ps. mset (kids es e)) = filter_mset (\<lambda>c. se_parentId c \<in> Some ` set (ids ps)) (mset es)"
proof (induction ps)
  case (Cons p ps)
  have "filter_mset (\<lambda>c. se_parentId c = Some (se_id p) \<or> se_parentId c \<in> Some ` set (ids ps)) (mset es)
      = filter_mset (\<lambda>c. se_parentId c = Some (se_id p)) (mset es) + filter_mset (\<lambda>c. se_parentId c \<in> Some ` set (ids ps)) (mset es)"
    using Cons.prems by (intro filter_mset_disj) auto
  then show ?case using Cons by simp
qed simp

lemma kids_level:
  assumes "forest es"
  shows "(\<Sum>e \<in># mset (filter (\<lambda>e. depth es e = k) es). mset (kids es e)) = mset (filter (\<lambda>c. depth es c = Suc k) es)"
proof -
  have "se_parentId c \<in> Some ` set (ids (filter (\<lambda>e. depth es e = k) es)) \<longleftrightarrow> depth es c = Suc k" if c: "c \<in> set es" for c
  proof
    assume "se_parentId c \<in> Some ` set (ids (filter (\<lambda>e. depth es e = k) es))"
    then obtain p where "p \<in> set es" "depth es p = k" "se_parentId c = Some (se_id p)" by auto
    then show "depth es c = Suc k" using depth_kid [OF assms c] by simp
  next
    assume "depth es c = Suc k"
    then obtain p where "p \<in> set es" "se_parentId c = Some (se_id p)" "depth es p = k"
      using depth_cases [OF assms c] by auto
    then show "se_parentId c \<in> Some ` set (ids (filter (\<lambda>e. depth es e = k) es))" by auto
  qed
  then have "filter_mset (\<lambda>c. se_parentId c \<in> Some ` set (ids (filter (\<lambda>e. depth es e = k) es))) (mset es)
      = filter_mset (\<lambda>c. depth es c = Suc k) (mset es)"
    by (intro filter_mset_cong) auto
  moreover have "distinct (ids (filter (\<lambda>e. depth es e = k) es))"
    using forestD(1) [OF assms] by (simp add: distinct_map_filter)
  ultimately show ?thesis using kids_sum [of "filter (\<lambda>e. depth es e = k) es" es] by simp
qed

text \<open>What a subtree unfolded to a depth holds.\<close>

lemma grow_mset:
  assumes "forest es"
  shows "(\<Sum>e \<in># mset (filter (\<lambda>e. depth es e = k) es). mset (tree_entries (grow_tree time_of s es (by_id es) n e)))
    = mset (filter (\<lambda>e. k \<le> depth es e \<and> depth es e \<le> k + n) es)"
proof (induction n arbitrary: k)
  case 0
  have "mset ps = (\<Sum>e \<in># mset ps. mset (tree_entries (grow_tree time_of s es (by_id es) 0 e)))" for ps
    by (induction ps) simp_all
  moreover have "(\<lambda>e. k \<le> depth es e \<and> depth es e \<le> k + 0) = (\<lambda>e. depth es e = k)" by auto
  ultimately show ?case by (simp only:)
next
  case (Suc n)
  let ?g = "grow_tree time_of s es (by_id es) n"
  have node: "node_entry (by_id es) c = c" if "c \<in> set es" for c
  proof -
    have "mget (by_id es) (se_id c) = Some c" unfolding mget_by_id [OF forestD(1) [OF assms]] using that by simp
    then show ?thesis by (simp add: node_entry_def)
  qed
  have ch: "child_entries es (by_id es) (se_id e) = kids es e" if "e \<in> set es" for e
  proof -
    have "\<not> is_root (by_id es) c" if "c \<in> set es" "se_parentId c = Some (se_id e)" for c
      using depth_kid [OF assms that(1) \<open>e \<in> set es\<close> that(2)] depth_cases [OF assms that(1)] by auto
    then have "filter (\<lambda>c. \<not> is_root (by_id es) c \<and> se_parentId c = Some (se_id e)) es = kids es e"
      by (intro filter_cong) auto
    moreover have "map (node_entry (by_id es)) (kids es e) = kids es e" by (rule map_idI) (simp add: node)
    ultimately show ?thesis by (simp add: child_entries_def)
  qed
  have mc: "mset (concat (map f xs)) = (\<Sum>x \<in># mset xs. mset (f x))" for f :: "'a session_entry \<Rightarrow> 'a session_entry list" and xs
    by (induction xs) simp_all
  have sub: "mset (tree_entries (grow_tree time_of s es (by_id es) (Suc n) e))
      = {#e#} + (\<Sum>c \<in># mset (kids es e). mset (tree_entries (?g c)))" if "e \<in> set es" for e
    using ch [OF that] by (simp add: mc [of "\<lambda>c. tree_entries (?g c)", simplified comp_def] comp_def)
  have "(\<Sum>e \<in># mset ps. mset (tree_entries (grow_tree time_of s es (by_id es) (Suc n) e)))
      = mset ps + (\<Sum>c \<in># (\<Sum>e \<in># mset ps. mset (kids es e)). mset (tree_entries (?g c)))" if "set ps \<subseteq> set es" for ps
    using that by (induction ps) (simp_all add: sub del: grow_tree.simps)
  from this [of "filter (\<lambda>e. depth es e = k) es"]
  have "(\<Sum>e \<in># mset (filter (\<lambda>e. depth es e = k) es). mset (tree_entries (grow_tree time_of s es (by_id es) (Suc n) e)))
      = mset (filter (\<lambda>e. depth es e = k) es) + mset (filter (\<lambda>e. Suc k \<le> depth es e \<and> depth es e \<le> Suc k + n) es)"
    using kids_level [OF assms, of k] Suc.IH [of "Suc k"] by simp
  also have "\<dots> = mset (filter (\<lambda>e. k \<le> depth es e \<and> depth es e \<le> k + Suc n) es)"
  proof -
    have "(\<lambda>e. k \<le> depth es e \<and> depth es e \<le> k + Suc n) = (\<lambda>e. depth es e = k \<or> Suc k \<le> depth es e \<and> depth es e \<le> Suc k + n)"
      by auto
    then show ?thesis by (simp add: filter_mset_disj)
  qed
  finally show ?case .
qed

lemma session_forest: "session_ok s \<Longrightarrow> forest (session_entries s)"
  by (simp add: session_ok_def forest_def)

lemma grow_sorted: "tree_sorted time_of (grow_tree time_of s es m n e)"
proof (induction n arbitrary: e)
  case (Suc n)
  have root: "(case grow_tree time_of s es m n c of TreeNode x y z w \<Rightarrow> time_of (se_timestamp x)) = time_of (se_timestamp c)" for c
    by (cases n) simp_all
  show ?case using Suc by (simp add: comp_def root list_all_iff)
qed simp

text \<open>The tree view shows every entry exactly once, with siblings in the order of their times, whatever was
  appended, branched or forked.\<close>

theorem tree_is_complete:
  assumes "fresh_session s0" "(tree_step ser)\<^sup>*\<^sup>* s0 s"
  shows "mset (concat (map tree_entries (getTree time_of s))) = mset (session_entries s) \<and>
    list_all (tree_sorted time_of) (getTree time_of s)"
proof -
  let ?es = "session_entries s"
  have ok: "session_ok s" using history.inv_reach assms by blast
  note f = session_forest [OF ok]
  have tree: "getTree time_of s = map (grow_tree time_of s ?es (by_id ?es) (length ?es) \<circ> node_entry (by_id ?es)) (filter (is_root (by_id ?es)) ?es)"
    by (simp add: getTree_def Let_def getEntries_snd [OF ok] index_entries_by_id [OF forestD(1) [OF f]])
  have node: "node_entry (by_id ?es) e = e" if "e \<in> set ?es" for e
  proof -
    have "mget (by_id ?es) (se_id e) = Some e" unfolding mget_by_id [OF forestD(1) [OF f]] using that by simp
    then show ?thesis by (simp add: node_entry_def)
  qed
  have roots: "filter (is_root (by_id ?es)) ?es = filter (\<lambda>e. depth ?es e = 0) ?es"
  proof (rule filter_cong [OF refl])
    show "is_root (by_id ?es) e = (depth ?es e = 0)" if "e \<in> set ?es" for e
      using depth_cases [OF f that] by auto
  qed
  have all: "filter (\<lambda>e. 0 \<le> depth ?es e \<and> depth ?es e \<le> 0 + length ?es) ?es = ?es"
    using depth_bound [OF f] by (auto simp: filter_id_conv intro: less_imp_le)
  have mc: "mset (concat (map g xs)) = (\<Sum>x \<in># mset xs. mset (g x))" for g :: "'a session_entry \<Rightarrow> 'a session_entry list" and xs
    by (induction xs) simp_all
  have flat: "getTree time_of s = map (grow_tree time_of s ?es (by_id ?es) (length ?es)) (filter (\<lambda>e. depth ?es e = 0) ?es)"
    unfolding tree roots using node by simp
  have "map tree_entries (getTree time_of s)
      = map (\<lambda>e. tree_entries (grow_tree time_of s ?es (by_id ?es) (length ?es) e)) (filter (\<lambda>e. depth ?es e = 0) ?es)"
    by (simp add: flat)
  then have "mset (concat (map tree_entries (getTree time_of s))) = mset ?es"
    using grow_mset [OF f, where k = 0 and time_of = time_of and s = s and n = "length ?es"] by (simp only: mc all)
  moreover have "list_all (tree_sorted time_of) (getTree time_of s)" by (simp add: tree list_all_iff grow_sorted)
  ultimately show ?thesis by blast
qed

theorem tree_is_complete_witness:
  "mset (concat (map tree_entries (getTree (\<lambda>t. 0) sample_one))) = mset (session_entries sample_one)"
  using tree_is_complete [OF sample_fresh sample_reach, where time_of = "\<lambda>t. 0"] by blast

end
