(* ===== verification/EditText.thy ===== *)
theory EditText
  imports Surrogate
begin

text \<open>
  The text functions of the edit tool (core/tools/edit-diff.ts): line endings, the search for occurrences,
  the fuzzy normalisation with its map back to the original, and the matching that ignores indentation.
  Unicode's tables are parameters: \<open>nfkc\<close> is \<open>String.prototype.normalize("NFKC")\<close> and \<open>mark\<close> tests one
  code point for \<open>\p{M}\<close>.
\<close>


section \<open>Line endings\<close>

text \<open>\<open>hay.indexOf(needle, from)\<close>\<close>

fun find_at :: "jsstr \<Rightarrow> nat \<Rightarrow> jsstr \<Rightarrow> nat option" where
  "find_at needle i [] = (if needle = [] then Some i else None)"
| "find_at needle i (c # cs) =
     (if take (length needle) (c # cs) = needle then Some i else find_at needle (Suc i) cs)"

definition str_index :: "jsstr \<Rightarrow> jsstr \<Rightarrow> nat \<Rightarrow> nat option" where
  "str_index hay needle from = find_at needle (min from (length hay)) (drop from hay)"

datatype line_ending = CRLF | LF | CR

definition detectLineEnding :: "jsstr \<Rightarrow> line_ending" where
  "detectLineEnding content =
     (let crlfIdx = str_index content [13, 10] 0; lfIdx = str_index content [10] 0
      in case lfIdx of
           None \<Rightarrow> if str_index content [13] 0 = None then LF else CR
         | Some lf \<Rightarrow> (case crlfIdx of None \<Rightarrow> LF | Some crlf \<Rightarrow> if crlf < lf then CRLF else LF))"

fun replace_crlf :: "jsstr \<Rightarrow> jsstr" where
  "replace_crlf (a # b # s) = (if a = 13 \<and> b = 10 then 10 # replace_crlf s else a # replace_crlf (b # s))"
| "replace_crlf s = s"

definition normalizeToLF :: "jsstr \<Rightarrow> jsstr" where
  "normalizeToLF text = map (\<lambda>c. if c = 13 then 10 else c) (replace_crlf text)"

definition restoreLineEndings :: "jsstr \<Rightarrow> line_ending \<Rightarrow> jsstr" where
  "restoreLineEndings text e =
     (case e of
        CRLF \<Rightarrow> concat (map (\<lambda>c. if c = 10 then [13, 10] else [c]) text)
      | CR \<Rightarrow> map (\<lambda>c. if c = 10 then 13 else c) text
      | LF \<Rightarrow> text)"

definition stripBom :: "jsstr \<Rightarrow> jsstr \<times> jsstr" where
  "stripBom content = (case content of c # cs \<Rightarrow> if c = 0xFEFF then ([0xFEFF], cs) else ([], content) | [] \<Rightarrow> ([], []))"


section \<open>Occurrences\<close>

lemma find_at_bounds: "find_at needle i hay = Some j \<Longrightarrow> i \<le> j \<and> j + length needle \<le> i + length hay"
proof (induction needle i hay rule: find_at.induct)
  case (2 needle i c cs)
  show ?case
  proof (cases "take (length needle) (c # cs) = needle")
    case True
    then have "length needle \<le> length (c # cs)" by (metis length_take min.cobounded1)
    then show ?thesis using True "2.prems" by simp
  qed (use 2 in auto)
qed (simp split: if_splits)

lemma str_index_bounds: "str_index hay needle from = Some i \<Longrightarrow> from \<le> length hay \<Longrightarrow> from \<le> i \<and> i + length needle \<le> length hay"
  using find_at_bounds [of needle "min from (length hay)" "drop from hay" i] by (simp add: str_index_def min_def)

lemma str_index_past: "length hay < from \<Longrightarrow> needle \<noteq> [] \<Longrightarrow> str_index hay needle from = None"
  by (simp add: str_index_def)

text \<open>The scan over non-overlapping occurrences that \<open>countSubstring\<close> and the replace-all loops share.\<close>

function occurrences_from :: "jsstr \<Rightarrow> jsstr \<Rightarrow> nat \<Rightarrow> nat list" where
  "occurrences_from hay needle from =
     (if needle = [] then []
      else case str_index hay needle from of
             None \<Rightarrow> []
           | Some i \<Rightarrow> i # occurrences_from hay needle (i + length needle))"
  by pat_completeness auto
termination
proof (relation "measure (\<lambda>(hay, needle, from). Suc (length hay) - from)")
  fix hay needle :: jsstr and "from" i :: nat
  assume n: "needle \<noteq> []" and i: "str_index hay needle from = Some i"
  have "from \<le> length hay" using i n str_index_past [of hay "from" needle] by (metis not_le option.distinct(1))
  then have "from \<le> i" "i + length needle \<le> length hay" using str_index_bounds [OF i] by simp_all
  moreover have "0 < length needle" using n by simp
  ultimately have "Suc (length hay) - (i + length needle) < Suc (length hay) - from" by linarith
  then show "((hay, needle, i + length needle), hay, needle, from) \<in> measure (\<lambda>(hay, needle, from). Suc (length hay) - from)"
    by (simp only: in_measure prod.case)
qed simp

declare occurrences_from.simps [simp del]

definition countSubstring :: "jsstr \<Rightarrow> jsstr \<Rightarrow> nat" where
  "countSubstring hay needle = length (occurrences_from hay needle 0)"

text \<open>The line numbers of the first occurrences: the inner loop moves to the line the hit is on.\<close>

function advance_line :: "jsstr \<Rightarrow> nat \<Rightarrow> nat \<Rightarrow> nat \<Rightarrow> nat \<times> nat" where
  "advance_line content hit line lineStart =
     (if lineStart \<le> hit
      then (case str_index content [10] lineStart of
              None \<Rightarrow> (line, lineStart)
            | Some nl \<Rightarrow> if hit \<le> nl then (line, lineStart) else advance_line content hit (Suc line) (Suc nl))
      else (line, lineStart))"
  by pat_completeness auto
termination
proof (relation "measure (\<lambda>(content, hit, line, lineStart). Suc hit - lineStart)")
  fix content :: jsstr and hit line lineStart nl :: nat
  assume a: "lineStart \<le> hit" "str_index content [10] lineStart = Some nl" "\<not> hit \<le> nl"
  have "lineStart \<le> length content" using a(2) str_index_past [of content lineStart "[10]"] by (metis list.distinct(1) not_le option.distinct(1))
  then have "lineStart \<le> nl" using str_index_bounds [OF a(2)] by simp
  then show "((content, hit, Suc line, Suc nl), content, hit, line, lineStart) \<in> measure (\<lambda>(content, hit, line, lineStart). Suc hit - lineStart)"
    using a by simp
qed simp

fun lines_of_hits :: "jsstr \<Rightarrow> nat list \<Rightarrow> nat \<Rightarrow> nat \<Rightarrow> nat list" where
  "lines_of_hits content [] line lineStart = []"
| "lines_of_hits content (hit # hits) line lineStart =
     (let (line', lineStart') = advance_line content hit line lineStart
      in line' # lines_of_hits content hits line' lineStart')"

definition findOccurrenceLines :: "jsstr \<Rightarrow> jsstr \<Rightarrow> nat \<Rightarrow> nat list" where
  "findOccurrenceLines content needle limit = lines_of_hits content (take limit (occurrences_from content needle 0)) 1 0"


section \<open>Fuzzy normalisation\<close>

definition isHorizontalWs :: "jschar \<Rightarrow> bool" where
  "isHorizontalWs ch \<longleftrightarrow> ch = 32 \<or> ch = 9 \<or> ch = 11 \<or> ch = 12"

definition foldFuzzyChar :: "jschar \<Rightarrow> jschar" where
  "foldFuzzyChar ch =
     (if 0x2018 \<le> ch \<and> ch \<le> 0x201b then 39
      else if 0x201c \<le> ch \<and> ch \<le> 0x201f then 34
      else if (0x2010 \<le> ch \<and> ch \<le> 0x2015) \<or> ch = 0x2212 then 45
      else if ch = 0x00a0 \<or> (0x2002 \<le> ch \<and> ch \<le> 0x200a) \<or> ch = 0x202f \<or> ch = 0x205f \<or> ch = 0x3000 then 32
      else ch)"

text \<open>The code point at an index: one code unit or a surrogate pair.\<close>

definition cp_length :: "jsstr \<Rightarrow> nat \<Rightarrow> nat" where
  "cp_length text i =
     (if isHighSurrogate (text ! i) \<and> Suc i < length text \<and> isLowSurrogate (text ! Suc i) then 2 else 1)"

lemma cp_length_pos: "0 < cp_length text i"
  by (simp add: cp_length_def)

function group_end :: "(jsstr \<Rightarrow> bool) \<Rightarrow> jsstr \<Rightarrow> nat \<Rightarrow> nat" where
  "group_end mark text j =
     (if j < length text \<and> mark (js_slice text j (j + cp_length text j))
      then group_end mark text (j + cp_length text j) else j)"
  by pat_completeness auto
termination
  by (relation "measure (\<lambda>(mark, text, j). length text - j)") (simp_all add: cp_length_pos diff_less_mono2)

declare group_end.simps [simp del]

lemma group_end_ge: "j \<le> group_end mark text j"
proof (induction mark "text" j rule: group_end.induct)
  case (1 mark t j)
  show ?case using 1 by (subst group_end.simps) (auto dest: add_leD1)
qed

text \<open>Pass 1: each unit of the composed text with the index of the group it came from.\<close>

function nfkc_pass :: "(jsstr \<Rightarrow> jsstr) \<Rightarrow> (jsstr \<Rightarrow> bool) \<Rightarrow> jsstr \<Rightarrow> nat \<Rightarrow> (jschar \<times> nat) list" where
  "nfkc_pass nfkc mark text i =
     (if i < length text
      then (let j = group_end mark text (i + cp_length text i)
            in map (\<lambda>u. (u, i)) (nfkc (js_slice text i j)) @ nfkc_pass nfkc mark text j)
      else [])"
  by pat_completeness auto
termination
proof (relation "measure (\<lambda>(nfkc, mark, text, i). length text - i)")
  fix nfkc :: "jsstr \<Rightarrow> jsstr" and mark :: "jsstr \<Rightarrow> bool" and "text" :: jsstr and i j :: nat
  assume "i < length text" "j = group_end mark text (i + cp_length text i)"
  moreover have "i < i + cp_length text i" using cp_length_pos [of "text" i] by simp
  ultimately show "((nfkc, mark, text, j), nfkc, mark, text, i) \<in> measure (\<lambda>(nfkc, mark, text, i). length text - i)"
    using group_end_ge [of "i + cp_length text i" mark "text"] by simp
qed simp

declare nfkc_pass.simps [simp del]

text \<open>Pass 2: drop the runs of horizontal space at line ends, fold the rest.\<close>

function fuzzy_pass :: "(jschar \<times> nat) list \<Rightarrow> (jschar \<times> nat) list" where
  "fuzzy_pass [] = []"
| "fuzzy_pass ((c, k) # r) =
     (if isHorizontalWs c
      then (let rest = dropWhile (\<lambda>(d, k). isHorizontalWs d) r
            in if rest = [] \<or> fst (hd rest) = 10 then fuzzy_pass rest else (c, k) # fuzzy_pass r)
      else (foldFuzzyChar c, k) # fuzzy_pass r)"
  by pat_completeness auto
termination
  by (relation "measure length") (auto simp: le_imp_less_Suc length_dropWhile_le)

definition normalizeForFuzzyMatchWithMap :: "(jsstr \<Rightarrow> jsstr) \<Rightarrow> (jsstr \<Rightarrow> bool) \<Rightarrow> jsstr \<Rightarrow> jsstr \<times> nat list" where
  "normalizeForFuzzyMatchWithMap nfkc mark text =
     (let units = fuzzy_pass (nfkc_pass nfkc mark text 0) in (map fst units, map snd units @ [length text]))"

definition normalizeForFuzzyMatch :: "(jsstr \<Rightarrow> jsstr) \<Rightarrow> (jsstr \<Rightarrow> bool) \<Rightarrow> jsstr \<Rightarrow> jsstr" where
  "normalizeForFuzzyMatch nfkc mark text = fst (normalizeForFuzzyMatchWithMap nfkc mark text)"


section \<open>Indentation\<close>

definition trimStart :: "jsstr \<Rightarrow> jsstr" where
  "trimStart s = dropWhile is_ws s"

definition leadingWhitespace :: "jsstr \<Rightarrow> jsstr" where
  "leadingWhitespace line = takeWhile (\<lambda>c. c = 9 \<or> c = 32) line"

fun firstNonBlankLine :: "jsstr list \<Rightarrow> nat option" where
  "firstNonBlankLine [] = None"
| "firstNonBlankLine (l # ls) = (if trimStart l \<noteq> [] then Some 0 else map_option Suc (firstNonBlankLine ls))"

definition reindent_line :: "jsstr \<Rightarrow> jsstr \<Rightarrow> jsstr \<Rightarrow> jsstr" where
  "reindent_line fromIndent toIndent line =
     (if trimStart line = [] then line
      else if take (length fromIndent) line = fromIndent then toIndent @ drop (length fromIndent) line
      else if fromIndent = [] then toIndent @ line
      else line)"

definition reindentText :: "jsstr \<Rightarrow> jsstr \<Rightarrow> jsstr \<Rightarrow> jsstr" where
  "reindentText text fromIndent toIndent =
     (if fromIndent = toIndent then text
      else join newline (map (reindent_line fromIndent toIndent) (split_lines text)))"

definition NEAR_MISS_MAX_CANDIDATE_WINDOWS :: nat where "NEAR_MISS_MAX_CANDIDATE_WINDOWS = 4000"

record indent_match =
  im_index :: nat
  im_matchLength :: nat
  im_fromIndent :: jsstr
  im_toIndent :: jsstr

text \<open>The lines of a window against the expected ones: \<open>None\<close> for a mismatch, otherwise the first difference of indents.\<close>

fun compare_window :: "jsstr list \<Rightarrow> jsstr list \<Rightarrow> (jsstr \<times> jsstr) option \<Rightarrow> (jsstr \<times> jsstr) option option" where
  "compare_window (candidate # cs) (expected # es) found =
     (if trimStart expected = [] then
        (if trimStart candidate \<noteq> [] then None else compare_window cs es found)
      else if trimStart candidate \<noteq> trimStart expected then None
      else compare_window cs es
             (if found = None \<and> leadingWhitespace expected \<noteq> leadingWhitespace candidate
              then Some (leadingWhitespace expected, leadingWhitespace candidate) else found))"
| "compare_window cs es found = Some found"

definition window_match :: "jsstr list \<Rightarrow> jsstr list \<Rightarrow> nat \<Rightarrow> nat \<Rightarrow> (nat \<times> jsstr \<times> jsstr) option" where
  "window_match contentLines oldLines anchor start =
     (if trimStart (contentLines ! (start + anchor)) \<noteq> trimStart (oldLines ! anchor) then None
      else case compare_window (js_slice contentLines start (start + length oldLines)) oldLines None of
             Some (Some (f, t)) \<Rightarrow> Some (start, f, t)
           | _ \<Rightarrow> None)"

text \<open>The scan over the windows: a second match means ambiguity, and no result.\<close>

definition indentTolerantFind :: "jsstr \<Rightarrow> jsstr \<Rightarrow> indent_match option" where
  "indentTolerantFind content oldText =
     (let contentLines = split_lines content; oldLines = split_lines oldText
      in case firstNonBlankLine oldLines of
           None \<Rightarrow> None
         | Some anchor \<Rightarrow>
             let maxStart = min (Suc (length contentLines) - length oldLines) NEAR_MISS_MAX_CANDIDATE_WINDOWS
             in case List.map_filter (window_match contentLines oldLines anchor) [0..<maxStart] of
                  [(start, f, t)] \<Rightarrow>
                    Some \<lparr> im_index = sum_list (map (\<lambda>l. length l + 1) (take start contentLines)),
                      im_matchLength = length (join newline (js_slice contentLines start (start + length oldLines))),
                      im_fromIndent = f, im_toIndent = t \<rparr>
                | _ \<Rightarrow> None)"
end
