(* ===== verification/EditMatch.thy ===== *)
theory EditMatch
  imports EditText
begin

text \<open>
  The diagnostics of a failed edit (core/tools/edit-diff.ts): the windows of the file that resemble the text
  the model asked for, ranked, thinned out and rendered as text it can paste back.
\<close>


section \<open>Lines\<close>

lemma split_lines_nonempty [simp]: "split_lines s \<noteq> []"
  by (induction s) (simp_all split: list.split)

lemma join_Cons: "xs \<noteq> [] \<Longrightarrow> join sep (x # xs) = x @ sep @ join sep xs"
  by (cases xs) simp_all

lemma join_append: "xs \<noteq> [] \<Longrightarrow> ys \<noteq> [] \<Longrightarrow> join sep (xs @ ys) = join sep xs @ sep @ join sep ys"
proof (induction xs)
  case (Cons x xs)
  then show ?case by (cases "xs = []") (simp_all add: join_Cons)
qed simp

lemma join_split_lines: "join newline (split_lines s) = s"
proof (induction s)
  case (Cons c s)
  show ?case
  proof (cases "split_lines s")
    case (Cons l ls)
    then show ?thesis using Cons.IH by (cases ls) (auto simp: newline_def)
  qed (use split_lines_nonempty in metis)
qed simp

lemma split_lines_no_newline: "l \<in> set (split_lines s) \<Longrightarrow> 10 \<notin> set l"
proof (induction s arbitrary: l)
  case (Cons c s)
  show ?case using Cons by (cases "split_lines s") (auto split: if_splits)
qed simp

lemma join_newlines: "xs \<noteq> [] \<Longrightarrow> (\<And>x. x \<in> set xs \<Longrightarrow> 10 \<notin> set x) \<Longrightarrow> count_list (join newline xs) 10 = length xs - 1"
proof (induction xs)
  case (Cons x xs)
  have x: "count_list x 10 = 0" using Cons.prems(2) [of x] by (simp add: count_list_0_iff)
  show ?case
  proof (cases "xs = []")
    case False
    then have "count_list (join newline xs) 10 = length xs - 1" using Cons by simp
    then show ?thesis using x False by (simp add: join_Cons newline_def Suc_diff_Suc)
  qed (use x in simp)
qed simp

lemma length_join_newline: "xs \<noteq> [] \<Longrightarrow> Suc (length (join newline xs)) = sum_list (map (\<lambda>l. length l + 1) xs)"
proof (induction xs)
  case (Cons x xs)
  then show ?case by (cases "xs = []") (simp_all add: join_Cons newline_def)
qed simp

lemma split_three: "a + n \<le> length xs \<Longrightarrow> xs = take a xs @ js_slice xs a (a + n) @ drop (a + n) xs"
  by (simp add: js_slice_def) (metis append_take_drop_id drop_drop add.commute)

text \<open>A window of lines is a part of the text; the newlines before it number its first line and the lines before
  it give its offset.\<close>

lemma window_in_text:
  assumes n: "0 < n" and w: "a + n \<le> length (split_lines s)"
  obtains pre post where "s = pre @ join newline (js_slice (split_lines s) a (a + n)) @ post" "count_list pre 10 = a"
    "length pre = sum_list (map (\<lambda>l. length l + 1) (take a (split_lines s)))"
proof -
  let ?l = "split_lines s"
  let ?w = "js_slice ?l a (a + n)"
  have e: "?l = take a ?l @ ?w @ drop (a + n) ?l" by (rule split_three [OF w])
  have ne: "?w \<noteq> []" using n w by (simp add: js_slice_def)
  define pre where "pre = (if a = 0 then [] else join newline (take a ?l) @ newline)"
  define post where "post = (if drop (a + n) ?l = [] then [] else newline @ join newline (drop (a + n) ?l))"
  have "join newline (?w @ drop (a + n) ?l) = join newline ?w @ post"
    using ne by (cases "drop (a + n) ?l = []") (simp_all add: join_append post_def)
  moreover have "s = join newline (take a ?l @ ?w @ drop (a + n) ?l)" using e join_split_lines [of s] by metis
  ultimately have "s = pre @ join newline ?w @ post"
    using ne by (cases "a = 0") (simp_all add: pre_def join_append)
  moreover have "count_list pre 10 = a"
  proof (cases "a = 0")
    case False
    have "x \<in> set (take a ?l) \<Longrightarrow> 10 \<notin> set x" for x
      by (rule split_lines_no_newline) (rule in_set_takeD)
    then have "count_list (join newline (take a ?l)) 10 = length (take a ?l) - 1"
      using False by (intro join_newlines) auto
    then have "count_list (join newline (take a ?l)) 10 = a - 1" using w by simp
    then show ?thesis using False by (simp add: pre_def newline_def)
  qed (simp add: pre_def)
  moreover have "length pre = sum_list (map (\<lambda>l. length l + 1) (take a ?l))"
    using length_join_newline [of "take a ?l"] by (cases "a = 0") (simp_all add: pre_def newline_def)
  ultimately show ?thesis by (rule that)
qed


section \<open>Candidate windows\<close>

definition NEAR_MISS_MAX_BODY_CHARS :: nat where "NEAR_MISS_MAX_BODY_CHARS = 200"

definition VERBATIM_SNIPPET_MAX_LINES :: nat where "VERBATIM_SNIPPET_MAX_LINES = 40"

definition truncateForDiagnostic :: "jsstr \<Rightarrow> jsstr" where
  "truncateForDiagnostic text =
     (let single = concat (map (\<lambda>c. if c = 10 then [92, 110] else [c]) text)
      in if length single \<le> NEAR_MISS_MAX_BODY_CHARS then single
         else sliceSafe single 0 (int NEAR_MISS_MAX_BODY_CHARS) @ ellipsis)"

record candidate_match =
  cm_startLine :: nat
  cm_endLine :: nat
  cm_score :: nat
  cm_windowSize :: nat
  cm_divergenceLine :: nat
  cm_expectedSnippet :: jsstr
  cm_foundSnippet :: jsstr
  cm_verbatimSnippet :: jsstr

text \<open>Pass 1: the agreements of one window, blank lines not counted.\<close>

definition window_score :: "jsstr list \<Rightarrow> jsstr list \<Rightarrow> nat \<Rightarrow> nat" where
  "window_score contentTrim oldTrim start =
     length (filter (\<lambda>j. oldTrim ! j \<noteq> [] \<and> contentTrim ! (start + j) = oldTrim ! j) [0..<length oldTrim])"

definition scored_windows :: "jsstr list \<Rightarrow> jsstr list \<Rightarrow> nat \<Rightarrow> nat \<Rightarrow> (nat \<times> nat) list" where
  "scored_windows contentTrim oldTrim maxStart minScore =
     filter (\<lambda>(start, score). minScore \<le> score \<and> score < length (filter (\<lambda>l. l \<noteq> []) oldTrim))
       (map (\<lambda>start. (start, window_score contentTrim oldTrim start)) [0..<maxStart])"

text \<open>Pass 2: best first, a window too close to a selected one skipped, until enough are selected.\<close>

fun pick_windows :: "nat \<Rightarrow> nat \<Rightarrow> (nat \<times> nat) list \<Rightarrow> (nat \<times> nat) list \<Rightarrow> (nat \<times> nat) list" where
  "pick_windows half maxCandidates selected [] = selected"
| "pick_windows half maxCandidates selected (c # cs) =
     (if \<exists>s \<in> set selected. \<bar>int (fst s) - int (fst c)\<bar> < int half
      then pick_windows half maxCandidates selected cs
      else if maxCandidates \<le> Suc (length selected) then selected @ [c]
      else pick_windows half maxCandidates (selected @ [c]) cs)"

definition rank_windows :: "(nat \<times> nat) list \<Rightarrow> (nat \<times> nat) list" where
  "rank_windows ws = sort_key (\<lambda>w. - int (snd w)) (sort_key fst ws)"

definition verbatim_snippet :: "jsstr list \<Rightarrow> jsstr" where
  "verbatim_snippet windowLines =
     (if VERBATIM_SNIPPET_MAX_LINES < length windowLines
      then join newline (take VERBATIM_SNIPPET_MAX_LINES windowLines) @ newline @ ellipsis @ js '' (''
             @ digits (length windowLines - VERBATIM_SNIPPET_MAX_LINES)
             @ js '' more line(s) omitted '' @ [0x2014] @ js '' re-read the file for the full region)''
      else join newline windowLines)"

definition candidate_at :: "jsstr list \<Rightarrow> jsstr list \<Rightarrow> nat \<times> nat \<Rightarrow> candidate_match" where
  "candidate_at contentLines oldLines w =
     (let start = fst w;
          off = (case find (\<lambda>j. trimStart (contentLines ! (start + j)) \<noteq> trimStart (oldLines ! j)) [0..<length oldLines] of
                   None \<Rightarrow> 0 | Some j \<Rightarrow> j)
      in \<lparr> cm_startLine = start + 1, cm_endLine = start + length oldLines, cm_score = snd w,
           cm_windowSize = length oldLines, cm_divergenceLine = start + off + 1,
           cm_expectedSnippet = truncateForDiagnostic (oldLines ! off),
           cm_foundSnippet = truncateForDiagnostic (contentLines ! (start + off)),
           cm_verbatimSnippet = verbatim_snippet (js_slice contentLines start (start + length oldLines)) \<rparr>)"

definition buildCandidateMatches :: "jsstr \<Rightarrow> jsstr \<Rightarrow> nat option \<Rightarrow> nat option \<Rightarrow> candidate_match list" where
  "buildCandidateMatches content oldText maxCandidates minScore =
     (let maxC = max 1 (case maxCandidates of None \<Rightarrow> 3 | Some n \<Rightarrow> n);
          minS = max 1 (case minScore of None \<Rightarrow> 2 | Some n \<Rightarrow> n);
          contentLines = split_lines content; oldLines = split_lines oldText;
          maxStart = min (Suc (length contentLines) - length oldLines) NEAR_MISS_MAX_CANDIDATE_WINDOWS;
          scored = scored_windows (map trimStart contentLines) (map trimStart oldLines) maxStart minS
      in map (candidate_at contentLines oldLines)
           (pick_windows (max 2 (length oldLines div 2)) maxC [] (rank_windows scored)))"

definition buildNearMissHint :: "jsstr \<Rightarrow> jsstr \<Rightarrow> jsstr option" where
  "buildNearMissHint content oldText =
     (case buildCandidateMatches content oldText (Some 1) None of
        [] \<Rightarrow> None
      | best # _ \<Rightarrow>
          Some (js ''Closest candidate starts at line '' @ digits (cm_startLine best) @ js '' ('' @ digits (cm_score best)
                @ js ''/'' @ digits (cm_windowSize best) @ js '' lines match). First divergence at line ''
                @ digits (cm_divergenceLine best) @ js '':'' @ newline @ js ''  expected: '' @ cm_expectedSnippet best
                @ newline @ js ''  found:    '' @ cm_foundSnippet best))"

definition indentBlock :: "jsstr \<Rightarrow> jsstr \<Rightarrow> jsstr" where
  "indentBlock text prefix = join newline (map (\<lambda>line. prefix @ line) (split_lines text))"

definition rule_line :: jsstr where
  "rule_line = js ''  '' @ replicate 5 0x2500"

definition candidate_text :: "nat \<Rightarrow> candidate_match \<Rightarrow> jsstr" where
  "candidate_text i c =
     js ''Candidate '' @ digits (i + 1) @ js '': lines '' @ digits (cm_startLine c) @ js ''-'' @ digits (cm_endLine c)
       @ js '' ('' @ digits (cm_score c) @ js ''/'' @ digits (cm_windowSize c)
       @ js '' lines match, first divergence at line '' @ digits (cm_divergenceLine c) @ js ''):'' @ newline
       @ js ''  expected: '' @ cm_expectedSnippet c @ newline @ js ''  found:    '' @ cm_foundSnippet c @ newline
       @ js ''  Paste this verbatim as oldText for an exact match:'' @ newline @ rule_line @ newline
       @ indentBlock (cm_verbatimSnippet c) (js ''  '') @ newline @ rule_line"

definition formatCandidateMatchesForError :: "candidate_match list \<Rightarrow> jsstr option" where
  "formatCandidateMatchesForError candidates =
     (if candidates = [] then None
      else Some (join (newline @ newline) (map (\<lambda>(i, c). candidate_text i c) (List.enumerate 0 candidates))))"


section \<open>What is suggested\<close>

lemma pick_windows_sub: "set (pick_windows h m sel ws) \<subseteq> set sel \<union> set ws"
  by (induction h m sel ws rule: pick_windows.induct) auto

lemma pick_windows_length: "length sel < m \<Longrightarrow> length (pick_windows h m sel ws) \<le> m"
  by (induction h m sel ws rule: pick_windows.induct) simp_all

text \<open>The selected windows start at least \<open>h\<close> lines apart.\<close>

definition apart :: "nat \<Rightarrow> (nat \<times> nat) list \<Rightarrow> bool" where
  "apart h ws = sorted_wrt (\<lambda>a b. int h \<le> \<bar>int (fst a) - int (fst b)\<bar>) ws"

lemma pick_windows_apart: "apart h sel \<Longrightarrow> apart h (pick_windows h m sel ws)"
  by (induction h m sel ws rule: pick_windows.induct) (auto simp: apart_def sorted_wrt_append not_less)

text \<open>The head of the ranking is the best window.\<close>

lemma pick_windows_prefix: "\<exists>t. pick_windows h m sel ws = sel @ t"
  by (induction h m sel ws rule: pick_windows.induct) auto

lemma pick_windows_hd:
  assumes "0 < h"
  shows "pick_windows h m [] (w # ws) \<noteq> [] \<and> hd (pick_windows h m [] (w # ws)) = w"
  using pick_windows_prefix [of h m "[w]" ws] by auto

lemma set_rank [simp]: "set (rank_windows ws) = set ws"
  by (simp add: rank_windows_def)

lemma rank_windows_hd:
  assumes "x \<in> set ws"
  shows "rank_windows ws \<noteq> [] \<and> snd x \<le> snd (hd (rank_windows ws))"
proof -
  obtain y ys where y: "rank_windows ws = y # ys" using assms set_rank [of ws] by (cases "rank_windows ws") auto
  have "sorted (map (\<lambda>w. - int (snd w)) (rank_windows ws))" by (simp add: rank_windows_def)
  then have "snd x \<le> snd y" using y assms set_rank [of ws] by auto
  then show ?thesis using y by simp
qed

lemma candidate_origin:
  assumes "c \<in> set (buildCandidateMatches content old m s)"
  obtains w where "c = candidate_at (split_lines content) (split_lines old) w" "fst w + length (split_lines old) \<le> length (split_lines content)"
    "snd w = window_score (map trimStart (split_lines content)) (map trimStart (split_lines old)) (fst w)"
proof -
  let ?c = "split_lines content" and ?o = "split_lines old"
  let ?ms = "min (Suc (length ?c) - length ?o) NEAR_MISS_MAX_CANDIDATE_WINDOWS"
  obtain w h k n where w: "c = candidate_at ?c ?o w"
      "w \<in> set (pick_windows h k [] (rank_windows (scored_windows (map trimStart ?c) (map trimStart ?o) ?ms n)))"
    using assms unfolding buildCandidateMatches_def Let_def by auto
  have "w \<in> set [] \<union> set (rank_windows (scored_windows (map trimStart ?c) (map trimStart ?o) ?ms n))"
    by (rule subsetD [OF pick_windows_sub w(2)])
  then have "w \<in> set (scored_windows (map trimStart ?c) (map trimStart ?o) ?ms n)" by simp
  then show ?thesis using that [OF w(1)] by (auto simp: scored_windows_def)
qed

text \<open>a suggestion can be pasted. The verbatim snippet of every candidate of at most 40 lines is a part of
  the file, so using it as \<open>oldText\<close> finds an exact match; the newlines before it number its first line; and
  the candidate spans as many lines as the failed text, with no more lines in agreement than it has.
\<close>

theorem candidate_can_be_pasted:
  assumes c: "c \<in> set (buildCandidateMatches content oldText m s)" and n: "cm_windowSize c \<le> VERBATIM_SNIPPET_MAX_LINES"
  shows "(\<exists>pre post. content = pre @ cm_verbatimSnippet c @ post \<and> cm_startLine c = Suc (count_list pre 10))
    \<and> cm_endLine c = cm_startLine c + cm_windowSize c - 1 \<and> cm_windowSize c = length (split_lines oldText)
    \<and> cm_score c \<le> cm_windowSize c"
proof -
  let ?c = "split_lines content" and ?o = "split_lines oldText"
  obtain w where w: "c = candidate_at ?c ?o w" "fst w + length ?o \<le> length ?c"
      "snd w = window_score (map trimStart ?c) (map trimStart ?o) (fst w)"
    using candidate_origin [OF c] by metis
  have size: "cm_windowSize c = length ?o" "cm_startLine c = Suc (fst w)" "cm_endLine c = fst w + length ?o" "cm_score c = snd w"
    using w(1) by (simp_all add: candidate_at_def Let_def)
  have "cm_verbatimSnippet c = join newline (js_slice ?c (fst w) (fst w + length ?o))"
    using w n size by (simp add: candidate_at_def Let_def verbatim_snippet_def length_slice)
  moreover obtain pre post where "content = pre @ join newline (js_slice ?c (fst w) (fst w + length ?o)) @ post" "count_list pre 10 = fst w"
    using window_in_text [OF _ w(2)] by (metis length_greater_0_conv split_lines_nonempty)
  ultimately have "\<exists>pre post. content = pre @ cm_verbatimSnippet c @ post \<and> cm_startLine c = Suc (count_list pre 10)"
    using size by auto
  moreover have "snd w \<le> length ?o"
    unfolding w(3) window_score_def by (rule order_trans [OF length_filter_le]) simp
  ultimately show ?thesis using size by simp
qed

definition sample_text :: jsstr where
  "sample_text = js ''fun a'' @ newline @ js ''  one'' @ newline @ js ''  two'' @ newline @ js ''end'' @ newline @ js ''rest''"

definition sample_old :: jsstr where
  "sample_old = js ''one'' @ newline @ js ''2'' @ newline @ js ''end''"

lemma sample_candidate:
  "map (\<lambda>c. (cm_startLine c, cm_score c, cm_windowSize c, cm_divergenceLine c)) (buildCandidateMatches sample_text sample_old None None) = [(2, 2, 3, 3)]"
  by code_simp

lemma candidate_can_be_pasted_witness:
  "\<exists>pre post. sample_text = pre @ (js ''  one'' @ newline @ js ''  two'' @ newline @ js ''end'') @ post"
proof -
  let ?cs = "buildCandidateMatches sample_text sample_old None None"
  have v: "map cm_verbatimSnippet ?cs = [js ''  one'' @ newline @ js ''  two'' @ newline @ js ''end'']" by code_simp
  then obtain c where c: "?cs = [c]" by (cases ?cs) auto
  have "cm_windowSize c \<le> VERBATIM_SNIPPET_MAX_LINES" using sample_candidate c by (simp add: VERBATIM_SNIPPET_MAX_LINES_def)
  then have "\<exists>pre post. sample_text = pre @ cm_verbatimSnippet c @ post"
    using candidate_can_be_pasted [of c sample_text sample_old None None] c by auto
  then show ?thesis using v c by simp
qed

end
