(* ===== verification/EditApply.thy ===== *)
theory EditApply
  imports EditMatch
begin

text \<open>
  Applying edits (core/tools/edit-diff.ts, \<open>applyEditsToNormalizedContent\<close>) and the read-apply-write core of
  the edit tool (core/tools/edit.ts): staging each edit by the first tier that matches, the overlap check, the
  splices from the back, and the byte order mark and line endings put back.
\<close>


section \<open>Edits\<close>

record edit =
  ed_oldText :: jsstr
  ed_newText :: jsstr
  ed_replaceAll :: "bool option"

record matched_edit =
  me_editIndex :: nat
  me_matchIndex :: nat
  me_matchLength :: nat
  me_newText :: jsstr

text \<open>The errors, with the data their messages show.\<close>

datatype edit_error =
    EmptyOldText nat nat
  | NotFound nat nat "jsstr option"
  | Duplicate nat nat nat "nat list option"
  | Overlap nat nat
  | NoChange nat

definition location_hint :: "nat \<Rightarrow> nat list option \<Rightarrow> jsstr" where
  "location_hint occurrences lines =
     (case lines of
        Some (l # ls) \<Rightarrow>
          js '' Occurrences at line(s): '' @ join (js '', '') (map digits (l # ls))
            @ (if length (l # ls) < occurrences then js '', '' @ ellipsis else [])
            @ js ''. Add a unique surrounding line to disambiguate.''
      | _ \<Rightarrow> js '' Please provide more context to make it unique.'')"

fun edit_message :: "jsstr \<Rightarrow> edit_error \<Rightarrow> jsstr" where
  "edit_message path (EmptyOldText i totalEdits) =
     (if totalEdits = 1 then js ''oldText must not be empty in '' @ path @ js ''.''
      else js ''edits['' @ digits i @ js ''].oldText must not be empty in '' @ path @ js ''.'')"
| "edit_message path (NotFound i totalEdits hint) =
     (let suffix = (case hint of Some h \<Rightarrow> if h = [] then [] else newline @ h | None \<Rightarrow> [])
      in if totalEdits = 1
         then js ''Could not find the exact text in '' @ path
                @ js ''. The old text must match exactly including all whitespace and newlines.'' @ suffix
         else js ''Could not find edits['' @ digits i @ js ''] in '' @ path
                @ js ''. The oldText must match exactly including all whitespace and newlines.'' @ suffix)"
| "edit_message path (Duplicate i totalEdits occurrences lines) =
     (if totalEdits = 1
      then js ''Found '' @ digits occurrences @ js '' occurrences of the text in '' @ path
             @ js ''. The text must be unique.'' @ location_hint occurrences lines
      else js ''Found '' @ digits occurrences @ js '' occurrences of edits['' @ digits i @ js ''] in '' @ path
             @ js ''. Each oldText must be unique.'' @ location_hint occurrences lines)"
| "edit_message path (Overlap i j) =
     js ''edits['' @ digits i @ js ''] and edits['' @ digits j @ js ''] overlap in '' @ path
       @ js ''. Merge them into one edit or target disjoint regions.''"
| "edit_message path (NoChange totalEdits) =
     (if totalEdits = 1
      then js ''No changes made to '' @ path @ js ''. The replacement produced identical content. ''
             @ js ''This might indicate an issue with special characters or the text not existing as expected.''
      else js ''No changes made to '' @ path @ js ''. The replacements produced identical content.'')"

definition normalize_edit :: "edit \<Rightarrow> edit" where
  "normalize_edit e =
     \<lparr> ed_oldText = normalizeToLF (ed_oldText e), ed_newText = normalizeToLF (ed_newText e),
       ed_replaceAll = Some (ed_replaceAll e = Some True) \<rparr>"

definition replaces_all :: "edit \<Rightarrow> bool" where
  "replaces_all e \<longleftrightarrow> ed_replaceAll e = Some True"

fun first_empty :: "nat \<Rightarrow> edit list \<Rightarrow> nat option" where
  "first_empty i [] = None"
| "first_empty i (e # es) = (if ed_oldText e = [] then Some i else first_empty (Suc i) es)"


section \<open>Staging\<close>

definition match_at :: "nat \<Rightarrow> edit \<Rightarrow> nat \<Rightarrow> matched_edit" where
  "match_at i e p =
     \<lparr> me_editIndex = i, me_matchIndex = p, me_matchLength = length (ed_oldText e), me_newText = ed_newText e \<rparr>"

text \<open>A fuzzy match at an index of the normalised text, projected back by the map of original offsets.\<close>

definition fuzzy_match_at :: "nat \<Rightarrow> edit \<Rightarrow> nat list \<Rightarrow> nat \<Rightarrow> nat \<Rightarrow> matched_edit" where
  "fuzzy_match_at i e offsets len p =
     \<lparr> me_editIndex = i, me_matchIndex = offsets ! p, me_matchLength = offsets ! (p + len) - offsets ! p,
       me_newText = ed_newText e \<rparr>"

definition stage_exact :: "jsstr \<Rightarrow> nat \<Rightarrow> nat \<Rightarrow> edit \<Rightarrow> (edit_error + matched_edit list) option" where
  "stage_exact content totalEdits i e =
     (let n = countSubstring content (ed_oldText e)
      in if 1 < n then
           (if \<not> replaces_all e
            then Some (Inl (Duplicate i totalEdits n (Some (findOccurrenceLines content (ed_oldText e) 5))))
            else Some (Inr (map (match_at i e) (occurrences_from content (ed_oldText e) 0))))
         else if n = 1 then
           (case str_index content (ed_oldText e) 0 of Some p \<Rightarrow> Some (Inr [match_at i e p]) | None \<Rightarrow> None)
         else None)"

definition stage_fuzzy :: "(jsstr \<Rightarrow> jsstr) \<Rightarrow> (jsstr \<Rightarrow> bool) \<Rightarrow> jsstr \<Rightarrow> nat \<Rightarrow> nat \<Rightarrow> edit
    \<Rightarrow> (edit_error + matched_edit list) option" where
  "stage_fuzzy nfkc mark content totalEdits i e =
     (let (normalized, offsets) = normalizeForFuzzyMatchWithMap nfkc mark content;
          fuzzyOld = normalizeForFuzzyMatch nfkc mark (ed_oldText e)
      in case str_index normalized fuzzyOld 0 of
           None \<Rightarrow> None
         | Some p \<Rightarrow>
             let n = countSubstring normalized fuzzyOld
             in if 1 < n then
                  (if \<not> replaces_all e then Some (Inl (Duplicate i totalEdits n None))
                   else Some (Inr (map (fuzzy_match_at i e offsets (length fuzzyOld)) (occurrences_from normalized fuzzyOld 0))))
                else Some (Inr [fuzzy_match_at i e offsets (length fuzzyOld) p]))"

definition stage_indent :: "jsstr \<Rightarrow> nat \<Rightarrow> edit \<Rightarrow> (edit_error + matched_edit list) option" where
  "stage_indent content i e =
     (case indentTolerantFind content (ed_oldText e) of
        None \<Rightarrow> None
      | Some m \<Rightarrow> Some (Inr [\<lparr> me_editIndex = i, me_matchIndex = im_index m, me_matchLength = im_matchLength m,
                    me_newText = reindentText (ed_newText e) (im_fromIndent m) (im_toIndent m) \<rparr>]))"

definition stage_edit :: "(jsstr \<Rightarrow> jsstr) \<Rightarrow> (jsstr \<Rightarrow> bool) \<Rightarrow> jsstr \<Rightarrow> nat \<Rightarrow> nat \<Rightarrow> edit
    \<Rightarrow> edit_error + matched_edit list" where
  "stage_edit nfkc mark content totalEdits i e =
     (case stage_exact content totalEdits i e of
        Some r \<Rightarrow> r
      | None \<Rightarrow>
          (case stage_fuzzy nfkc mark content totalEdits i e of
             Some r \<Rightarrow> r
           | None \<Rightarrow>
               (case stage_indent content i e of
                  Some r \<Rightarrow> r
                | None \<Rightarrow> Inl (NotFound i totalEdits
                    (formatCandidateMatchesForError (buildCandidateMatches content (ed_oldText e) (Some 2) None))))))"

fun stage_edits :: "(jsstr \<Rightarrow> jsstr) \<Rightarrow> (jsstr \<Rightarrow> bool) \<Rightarrow> jsstr \<Rightarrow> nat \<Rightarrow> nat \<Rightarrow> edit list
    \<Rightarrow> edit_error + matched_edit list" where
  "stage_edits nfkc mark content totalEdits i [] = Inr []"
| "stage_edits nfkc mark content totalEdits i (e # es) =
     (case stage_edit nfkc mark content totalEdits i e of
        Inl err \<Rightarrow> Inl err
      | Inr ms \<Rightarrow> (case stage_edits nfkc mark content totalEdits (Suc i) es of
                     Inl err \<Rightarrow> Inl err
                   | Inr rest \<Rightarrow> Inr (ms @ rest)))"


section \<open>Splicing\<close>

text \<open>The first adjacent pair whose regions overlap.\<close>

fun overlapping :: "matched_edit list \<Rightarrow> (nat \<times> nat) option" where
  "overlapping (a # b # ms) =
     (if me_matchIndex b < me_matchIndex a + me_matchLength a then Some (me_editIndex a, me_editIndex b)
      else overlapping (b # ms))"
| "overlapping ms = None"

definition splice1 :: "matched_edit \<Rightarrow> jsstr \<Rightarrow> jsstr" where
  "splice1 m content =
     take (me_matchIndex m) content @ me_newText m @ drop (me_matchIndex m + me_matchLength m) content"

text \<open>The loop from the last match to the first.\<close>

definition splice :: "matched_edit list \<Rightarrow> jsstr \<Rightarrow> jsstr" where
  "splice ms content = fold splice1 (rev ms) content"

definition applyEditsToNormalizedContent :: "(jsstr \<Rightarrow> jsstr) \<Rightarrow> (jsstr \<Rightarrow> bool) \<Rightarrow> jsstr \<Rightarrow> edit list
    \<Rightarrow> edit_error + jsstr \<times> jsstr" where
  "applyEditsToNormalizedContent nfkc mark content edits =
     (let es = map normalize_edit edits
      in case first_empty 0 es of
           Some i \<Rightarrow> Inl (EmptyOldText i (length es))
         | None \<Rightarrow>
             (case stage_edits nfkc mark content (length es) 0 es of
                Inl err \<Rightarrow> Inl err
              | Inr staged \<Rightarrow>
                  let ms = sort_key me_matchIndex staged
                  in case overlapping ms of
                       Some (i, j) \<Rightarrow> Inl (Overlap i j)
                     | None \<Rightarrow>
                         let newContent = splice ms content
                         in if content = newContent then Inl (NoChange (length es))
                            else Inr (content, newContent)))"

text \<open>The edit tool on the text of a file: the byte order mark and the line endings of the file are put back.\<close>

definition edit_file :: "(jsstr \<Rightarrow> jsstr) \<Rightarrow> (jsstr \<Rightarrow> bool) \<Rightarrow> jsstr \<Rightarrow> edit list \<Rightarrow> edit_error + jsstr" where
  "edit_file nfkc mark raw edits =
     (let (bom, text) = stripBom raw; ending = detectLineEnding text
      in case applyEditsToNormalizedContent nfkc mark (normalizeToLF text) edits of
           Inl err \<Rightarrow> Inl err
         | Inr (base, new) \<Rightarrow> Inr (bom @ restoreLineEndings new ending))"


section \<open>Occurrences\<close>

lemma find_at_Some: "find_at needle i hay = Some j \<Longrightarrow> take (length needle) (drop (j - i) hay) = needle"
proof (induction needle i hay rule: find_at.induct)
  case (2 needle i c cs)
  show ?case
  proof (cases "take (length needle) (c # cs) = needle")
    case True
    then show ?thesis using 2 by simp
  next
    case False
    then have f: "find_at needle (Suc i) cs = Some j" using 2 by simp
    then have "Suc i \<le> j" using find_at_bounds by blast
    then have "drop (j - i) (c # cs) = drop (j - Suc i) cs" by (simp add: drop_Cons' Suc_diff_Suc [symmetric])
    then show ?thesis using 2 f False by simp
  qed
qed (simp split: if_splits)

lemma str_index_match:
  assumes "str_index hay needle from = Some i" "from \<le> length hay"
  shows "take (length needle) (drop i hay) = needle"
proof -
  have f: "find_at needle from (drop from hay) = Some i" using assms by (simp add: str_index_def min_def)
  then have "from \<le> i" using find_at_bounds by blast
  then show ?thesis using find_at_Some [OF f] by simp
qed

text \<open>Reference: replace every occurrence, scanning from the left.\<close>

function replace_all :: "jsstr \<Rightarrow> jsstr \<Rightarrow> jsstr \<Rightarrow> jsstr" where
  "replace_all old new hay =
     (if old = [] \<or> hay = [] then hay
      else if take (length old) hay = old then new @ replace_all old new (drop (length old) hay)
      else hd hay # replace_all old new (tl hay))"
  by pat_completeness auto
termination
  by (relation "measure (\<lambda>(old, new, hay). length hay)") auto

declare replace_all.simps [simp del]

lemma replace_all_Cons:
  "old \<noteq> [] \<Longrightarrow> replace_all old new (c # cs) =
     (if take (length old) (c # cs) = old then new @ replace_all old new (drop (length old) (c # cs)) else c # replace_all old new cs)"
  by (subst replace_all.simps) simp

lemma replace_all_none: "old \<noteq> [] \<Longrightarrow> find_at old i hay = None \<Longrightarrow> replace_all old new hay = hay"
proof (induction old i hay rule: find_at.induct)
  case (1 needle i)
  show ?case by (subst replace_all.simps) simp
next
  case (2 needle i c cs)
  then show ?case by (simp add: replace_all_Cons split: if_splits)
qed

lemma replace_all_some:
  "old \<noteq> [] \<Longrightarrow> find_at old i hay = Some j \<Longrightarrow>
     replace_all old new hay = take (j - i) hay @ new @ replace_all old new (drop (j - i + length old) hay)"
proof (induction old i hay rule: find_at.induct)
  case (2 needle i c cs)
  show ?case
  proof (cases "take (length needle) (c # cs) = needle")
    case True
    then show ?thesis using 2 by (simp add: replace_all_Cons)
  next
    case False
    then have f: "find_at needle (Suc i) cs = Some j" using 2 by simp
    then have j: "j - i = Suc (j - Suc i)" using find_at_bounds [OF f] by linarith
    show ?thesis using 2 f False by (simp add: replace_all_Cons j)
  qed
qed (simp split: if_splits)


section \<open>Splicing from the back is splicing from the front\<close>

fun splice_from :: "nat \<Rightarrow> matched_edit list \<Rightarrow> jsstr \<Rightarrow> jsstr" where
  "splice_from pos [] content = drop pos content"
| "splice_from pos (m # ms) content =
     js_slice content pos (me_matchIndex m) @ me_newText m
       @ splice_from (me_matchIndex m + me_matchLength m) ms content"

fun disjoint_from :: "nat \<Rightarrow> matched_edit list \<Rightarrow> jsstr \<Rightarrow> bool" where
  "disjoint_from pos [] content \<longleftrightarrow> pos \<le> length content"
| "disjoint_from pos (m # ms) content \<longleftrightarrow>
     pos \<le> me_matchIndex m \<and> disjoint_from (me_matchIndex m + me_matchLength m) ms content"

lemma disjoint_from_bound: "disjoint_from pos ms content \<Longrightarrow> pos \<le> length content"
proof (induction ms arbitrary: pos)
  case (Cons m ms)
  then have "me_matchIndex m + me_matchLength m \<le> length content" by simp
  then show ?case using Cons.prems by simp
qed simp

lemma slice_take: "a \<le> b \<Longrightarrow> take a s @ js_slice s a b = take b s"
  by (simp add: js_slice_def) (metis le_add_diff_inverse take_add)

lemma splice_Cons: "splice (m # ms) content = splice1 m (splice ms content)"
  by (simp add: splice_def)

lemma splice_forward: "disjoint_from pos ms content \<Longrightarrow> splice ms content = take pos content @ splice_from pos ms content"
proof (induction ms arbitrary: pos)
  case Nil
  then show ?case by (simp add: splice_def)
next
  case (Cons m ms)
  let ?e = "me_matchIndex m + me_matchLength m"
  have d: "disjoint_from ?e ms content" "pos \<le> me_matchIndex m" using Cons.prems by simp_all
  have e: "?e \<le> length content" using disjoint_from_bound [OF d(1)] .
  have "splice (m # ms) content = splice1 m (take ?e content @ splice_from ?e ms content)"
    using Cons.IH [OF d(1)] by (simp add: splice_Cons)
  also have "\<dots> = take (me_matchIndex m) content @ me_newText m @ splice_from ?e ms content"
    using e by (simp add: splice1_def min_def)
  also have "take (me_matchIndex m) content = take pos content @ js_slice content pos (me_matchIndex m)"
    by (rule slice_take [OF d(2), symmetric])
  finally show ?case by simp
qed

text \<open>Kept pieces with replaced ones between them.\<close>

fun weave :: "jsstr list \<Rightarrow> jsstr list \<Rightarrow> jsstr" where
  "weave (g # gs) (x # xs) = g @ x @ weave gs xs"
| "weave gs xs = concat gs"

fun gaps_from :: "nat \<Rightarrow> matched_edit list \<Rightarrow> jsstr \<Rightarrow> jsstr list" where
  "gaps_from pos [] content = [drop pos content]"
| "gaps_from pos (m # ms) content =
     js_slice content pos (me_matchIndex m) # gaps_from (me_matchIndex m + me_matchLength m) ms content"

definition matched_text :: "jsstr \<Rightarrow> matched_edit \<Rightarrow> jsstr" where
  "matched_text content m = js_slice content (me_matchIndex m) (me_matchIndex m + me_matchLength m)"

lemma length_gaps [simp]: "length (gaps_from pos ms content) = Suc (length ms)"
  by (induction ms arbitrary: pos) simp_all

lemma weave_new: "weave (gaps_from pos ms content) (map me_newText ms) = splice_from pos ms content"
  by (induction ms arbitrary: pos) simp_all

lemma slice_drop: "a \<le> b \<Longrightarrow> js_slice s a b @ drop b s = drop a s"
  by (simp add: js_slice_def) (metis append_take_drop_id drop_drop le_add_diff_inverse2)

lemma weave_old:
  "disjoint_from pos ms content \<Longrightarrow> weave (gaps_from pos ms content) (map (matched_text content) ms) = drop pos content"
  by (induction ms arbitrary: pos) (simp_all add: matched_text_def slice_drop)


section \<open>Where matches lie\<close>

definition placed :: "jsstr \<Rightarrow> matched_edit \<Rightarrow> bool" where
  "placed content m \<longleftrightarrow> me_matchIndex m + me_matchLength m \<le> length content"

lemma occurrences_placed:
  "i \<in> set (occurrences_from hay needle from) \<Longrightarrow> from \<le> length hay
     \<Longrightarrow> from \<le> i \<and> i + length needle \<le> length hay \<and> take (length needle) (drop i hay) = needle"
proof (induction hay needle "from" rule: occurrences_from.induct)
  case (1 hay needle "from")
  obtain k where k: "needle \<noteq> []" "str_index hay needle from = Some k"
      "i = k \<or> i \<in> set (occurrences_from hay needle (k + length needle))"
    using "1.prems"(1)
    by (cases "str_index hay needle from") (auto simp: occurrences_from.simps [of hay needle "from"] split: if_splits)
  have b: "from \<le> k" "k + length needle \<le> length hay" "take (length needle) (drop k hay) = needle"
    using str_index_bounds [OF k(2) "1.prems"(2)] str_index_match [OF k(2) "1.prems"(2)] by simp_all
  show ?case
  proof (cases "i = k")
    case False
    then have "k + length needle \<le> i \<and> i + length needle \<le> length hay \<and> take (length needle) (drop i hay) = needle"
      using "1.IH" [OF k(1,2)] k(3) b(2) by blast
    then show ?thesis using b(1) by simp
  qed (use b in simp)
qed

lemma occurrence_placed:
  "i \<in> set (occurrences_from hay needle 0) \<Longrightarrow> i + length needle \<le> length hay \<and> take (length needle) (drop i hay) = needle"
  using occurrences_placed [of i hay needle 0] by simp

lemma nfkc_pass_offsets:
  "sorted (map snd (nfkc_pass nfkc mark s i)) \<and> (\<forall>k \<in> set (map snd (nfkc_pass nfkc mark s i)). i \<le> k \<and> k < length s)"
proof (induction nfkc mark s i rule: nfkc_pass.induct)
  case (1 nfkc mark s i)
  let ?j = "group_end mark s (i + cp_length s i)"
  have j: "i < ?j" using group_end_ge [of "i + cp_length s i" mark s] cp_length_pos [of s i] by linarith
  show ?case
  proof (cases "i < length s")
    case True
    have ih: "sorted (map snd (nfkc_pass nfkc mark s ?j))" "\<forall>k \<in> set (map snd (nfkc_pass nfkc mark s ?j)). ?j \<le> k \<and> k < length s"
      using "1.IH" [OF True refl] by simp_all
    have "nfkc_pass nfkc mark s i = map (\<lambda>u. (u, i)) (nfkc (js_slice s i ?j)) @ nfkc_pass nfkc mark s ?j"
      using True by (subst nfkc_pass.simps) (simp add: Let_def)
    then show ?thesis using ih j True by (auto simp: sorted_append comp_def map_replicate_const intro: less_imp_le)
  qed (simp add: nfkc_pass.simps [of nfkc mark s i])
qed

lemma fuzzy_pass_set: "set (map snd (fuzzy_pass us)) \<subseteq> set (map snd us)"
proof (induction us rule: fuzzy_pass.induct)
  case (2 c k r)
  have "set (map snd (dropWhile (\<lambda>(d, k). isHorizontalWs d) r)) \<subseteq> set (map snd r)"
    by (auto dest: set_dropWhileD)
  then show ?case using 2 by (simp add: Let_def del: set_map) blast
qed simp

lemma fuzzy_pass_sorted: "sorted (map snd us) \<Longrightarrow> sorted (map snd (fuzzy_pass us))"
proof (induction us rule: fuzzy_pass.induct)
  case (2 c k r)
  have "\<forall>x \<in> set (map snd (fuzzy_pass r)). k \<le> x" using "2.prems" fuzzy_pass_set [of r] by (simp del: set_map) blast
  moreover have "sorted (map snd (dropWhile (\<lambda>(d, k). isHorizontalWs d) r))"
    using "2.prems" by (simp add: dropWhile_eq_drop drop_map [symmetric] sorted_wrt_drop)
  ultimately show ?case using 2 by (simp add: Let_def)
qed simp

lemma offsets_bounds:
  assumes u: "units = fuzzy_pass (nfkc_pass nfkc mark s 0)" and p: "p \<le> q" "q \<le> length units"
  shows "(map snd units @ [length s]) ! p \<le> (map snd units @ [length s]) ! q \<and> (map snd units @ [length s]) ! q \<le> length s"
proof -
  have "sorted (map snd units)" "set (map snd units) \<subseteq> {..< length s}"
    using fuzzy_pass_sorted [of "nfkc_pass nfkc mark s 0"] fuzzy_pass_set [of "nfkc_pass nfkc mark s 0"]
      nfkc_pass_offsets [of nfkc mark s 0] u by fastforce+
  then have s: "sorted (map snd units @ [length s])" and m: "\<forall>k \<in> set (map snd units @ [length s]). k \<le> length s"
    by (auto simp: sorted_append intro: less_imp_le)
  have "q < length (map snd units @ [length s])" using p(2) by simp
  then show ?thesis using sorted_nth_mono [OF s p(1)] m nth_mem by blast
qed

lemma fuzzy_placed:
  assumes "normalizeForFuzzyMatchWithMap nfkc mark content = (normalized, offsets)" "p + len \<le> length normalized"
  shows "placed content (fuzzy_match_at i e offsets len p)"
proof -
  have o: "offsets = map snd (fuzzy_pass (nfkc_pass nfkc mark content 0)) @ [length content]"
      "length normalized = length (fuzzy_pass (nfkc_pass nfkc mark content 0))"
    using assms(1) by (auto simp: normalizeForFuzzyMatchWithMap_def Let_def)
  have "offsets ! p \<le> offsets ! (p + len) \<and> offsets ! (p + len) \<le> length content"
    unfolding o(1) by (rule offsets_bounds [OF refl]) (use assms(2) o(2) in simp_all)
  then show ?thesis by (simp add: placed_def fuzzy_match_at_def)
qed

lemma indent_bounds:
  assumes "indentTolerantFind content old = Some m"
  shows "im_index m + im_matchLength m \<le> length content"
proof -
  let ?c = "split_lines content" and ?o = "split_lines old"
  obtain anchor start f t where m: "im_index m = sum_list (map (\<lambda>l. length l + 1) (take start ?c))"
      "im_matchLength m = length (join newline (js_slice ?c start (start + length ?o)))"
    and mf: "List.map_filter (window_match ?c ?o anchor) [0..<min (Suc (length ?c) - length ?o) NEAR_MISS_MAX_CANDIDATE_WINDOWS] = [(start, f, t)]"
    using assms unfolding indentTolerantFind_def Let_def by (auto split: option.splits list.splits)
  have s: "(start, f, t) \<in> set (List.map_filter (window_match ?c ?o anchor) [0..<min (Suc (length ?c) - length ?o) NEAR_MISS_MAX_CANDIDATE_WINDOWS])"
    unfolding mf by simp
  have "start + length ?o \<le> length ?c"
    using s by (auto simp: List.map_filter_def window_match_def split: if_splits option.splits)
  then obtain pre post where w: "content = pre @ join newline (js_slice ?c start (start + length ?o)) @ post"
      "length pre = sum_list (map (\<lambda>l. length l + 1) (take start ?c))"
    using window_in_text [of "length ?o" start content] by (metis length_greater_0_conv split_lines_nonempty)
  then have "length content = length pre + length (join newline (js_slice ?c start (start + length ?o))) + length post"
    by (metis add.assoc length_append)
  then show ?thesis using m w(2) by simp
qed

lemma stage_edit_placed: "stage_edit nfkc mark content n i e = Inr ms \<Longrightarrow> m \<in> set ms \<Longrightarrow> placed content m"
proof -
  assume a: "stage_edit nfkc mark content n i e = Inr ms" "m \<in> set ms"
  have exact: "stage_exact content n i e = Some (Inr ms) \<Longrightarrow> placed content m"
    using a(2) str_index_bounds [of content "ed_oldText e" 0] occurrence_placed [of _ content "ed_oldText e"]
    by (auto simp: stage_exact_def Let_def placed_def match_at_def split: if_splits option.splits)
  have fuzzy: "stage_fuzzy nfkc mark content n i e = Some (Inr ms) \<Longrightarrow> placed content m"
  proof -
    assume f: "stage_fuzzy nfkc mark content n i e = Some (Inr ms)"
    obtain normalized offsets where no: "normalizeForFuzzyMatchWithMap nfkc mark content = (normalized, offsets)" by fastforce
    let ?fo = "normalizeForFuzzyMatch nfkc mark (ed_oldText e)"
    obtain p where "m = fuzzy_match_at i e offsets (length ?fo) p"
        "p \<in> set (occurrences_from normalized ?fo 0) \<or> str_index normalized ?fo 0 = Some p"
      using f a(2) no by (auto simp: stage_fuzzy_def Let_def split: if_splits option.splits)
    then show ?thesis using fuzzy_placed [OF no] occurrence_placed [of p normalized ?fo] str_index_bounds [of normalized ?fo 0 p] by auto
  qed
  have "stage_indent content i e = Some (Inr ms) \<Longrightarrow> placed content m"
    using a(2) indent_bounds [of content "ed_oldText e"] by (auto simp: stage_indent_def placed_def split: option.splits)
  then show ?thesis using a(1) exact fuzzy by (simp add: stage_edit_def split: option.splits)
qed

lemma stage_edits_placed: "stage_edits nfkc mark content n i es = Inr ms \<Longrightarrow> m \<in> set ms \<Longrightarrow> placed content m"
proof (induction nfkc mark content n i es arbitrary: ms rule: stage_edits.induct)
  case (2 nfkc mark content n i e es)
  then show ?case by (auto split: sum.splits dest: stage_edit_placed)
qed simp

lemma disjoint_if_not_overlapping:
  assumes "sorted (map me_matchIndex ms)" "overlapping ms = None" "\<And>m. m \<in> set ms \<Longrightarrow> placed content m"
    "pos \<le> length content" "\<And>m. m \<in> set ms \<Longrightarrow> pos \<le> me_matchIndex m"
  shows "disjoint_from pos ms content"
  using assms
proof (induction ms arbitrary: pos rule: overlapping.induct)
  case (1 a b ms)
  have o: "me_matchIndex a + me_matchLength a \<le> me_matchIndex b" "overlapping (b # ms) = None"
    using "1.prems"(2) by (auto split: if_splits)
  have "disjoint_from (me_matchIndex a + me_matchLength a) (b # ms) content"
  proof (rule "1.IH")
    show "m \<in> set (b # ms) \<Longrightarrow> me_matchIndex a + me_matchLength a \<le> me_matchIndex m" for m
      using "1.prems"(1) o(1) by auto
  qed (use "1.prems" o in \<open>auto simp: placed_def\<close>)
  then show ?case using "1.prems"(5) by simp
qed (auto simp: placed_def)


section \<open>Edits touch their matches only\<close>

lemma apply_success:
  assumes "applyEditsToNormalizedContent nfkc mark content edits = Inr (base, new)"
  obtains staged where "stage_edits nfkc mark content (length edits) 0 (map normalize_edit edits) = Inr staged"
    "disjoint_from 0 (sort_key me_matchIndex staged) content"
    "base = content" "new = splice (sort_key me_matchIndex staged) content" "new \<noteq> content"
proof -
  obtain staged where s: "stage_edits nfkc mark content (length edits) 0 (map normalize_edit edits) = Inr staged"
      "overlapping (sort_key me_matchIndex staged) = None" "base = content"
      "new = splice (sort_key me_matchIndex staged) content" "new \<noteq> content"
    using assms by (auto simp: applyEditsToNormalizedContent_def Let_def split: option.splits sum.splits if_splits)
  have "disjoint_from 0 (sort_key me_matchIndex staged) content"
    by (rule disjoint_if_not_overlapping) (use s stage_edits_placed [OF s(1)] in auto)
  then show ?thesis using that s by blast
qed

text \<open>C25: An applied list of edits changes its matches only. The matches found for the edits lie apart in the file: the
  file is the kept pieces with the matched texts between them, and the result is the same kept pieces with
  the new texts between them; the base returned for the diff is the file itself, and the result differs from it.
\<close>

theorem edits_touch_only_matches:
  assumes "applyEditsToNormalizedContent nfkc mark content edits = Inr (base, new)"
  shows "base = content \<and> new \<noteq> content \<and>
    (\<exists>staged gaps. stage_edits nfkc mark content (length edits) 0 (map normalize_edit edits) = Inr staged
      \<and> length gaps = Suc (length staged)
      \<and> content = weave gaps (map (matched_text content) (sort_key me_matchIndex staged))
      \<and> new = weave gaps (map me_newText (sort_key me_matchIndex staged)))"
proof -
  obtain staged where s: "stage_edits nfkc mark content (length edits) 0 (map normalize_edit edits) = Inr staged"
      "disjoint_from 0 (sort_key me_matchIndex staged) content"
      "base = content" "new = splice (sort_key me_matchIndex staged) content" "new \<noteq> content"
    using apply_success [OF assms] by metis
  let ?ms = "sort_key me_matchIndex staged" and ?gs = "gaps_from 0 (sort_key me_matchIndex staged) content"
  have "content = weave ?gs (map (matched_text content) ?ms)" using weave_old [OF s(2)] by simp
  moreover have "new = weave ?gs (map me_newText ?ms)" using s(4) splice_forward [OF s(2)] by (simp add: weave_new)
  moreover have "length ?gs = Suc (length staged)" by simp
  ultimately show ?thesis using s by blast
qed

definition sample_edits :: "edit list" where
  "sample_edits =
     [\<lparr> ed_oldText = js ''two'', ed_newText = js ''2'', ed_replaceAll = None \<rparr>,
      \<lparr> ed_oldText = js ''a'', ed_newText = js ''bc'', ed_replaceAll = Some True \<rparr>]"

lemma sample_edits_apply:
  "applyEditsToNormalizedContent id (\<lambda>m. False) (js ''a two a'') sample_edits = Inr (js ''a two a'', js ''bc 2 bc'')"
  by code_simp

lemma edits_touch_only_matches_witness:
  "\<exists>staged gaps. stage_edits id (\<lambda>m. False) (js ''a two a'') (length sample_edits) 0 (map normalize_edit sample_edits) = Inr staged
      \<and> length gaps = Suc (length staged)
      \<and> js ''bc 2 bc'' = weave gaps (map me_newText (sort_key me_matchIndex staged))"
  using edits_touch_only_matches [OF sample_edits_apply] by blast


section \<open>Exact edits\<close>

lemma occurrences_disjoint:
  "from \<le> length content \<Longrightarrow> disjoint_from from (map (match_at i e) (occurrences_from content (ed_oldText e) from)) content"
proof (induction content "ed_oldText e" "from" rule: occurrences_from.induct)
  case (1 content "from")
  show ?case
  proof (cases "ed_oldText e = [] \<or> str_index content (ed_oldText e) from = None")
    case True
    then show ?thesis using "1.prems" by (auto simp: occurrences_from.simps [of content "ed_oldText e" "from"])
  next
    case False
    then obtain k where k: "ed_oldText e \<noteq> []" "str_index content (ed_oldText e) from = Some k" by blast
    have b: "from \<le> k" "k + length (ed_oldText e) \<le> length content" using str_index_bounds [OF k(2) "1.prems"] by simp_all
    show ?thesis using "1.hyps" [OF k b(2)] k b
      by (simp add: occurrences_from.simps [of content "ed_oldText e" "from"] match_at_def)
  qed
qed

lemma occurrences_splice:
  "from \<le> length content \<Longrightarrow> ed_oldText e \<noteq> [] \<Longrightarrow>
     splice_from from (map (match_at i e) (occurrences_from content (ed_oldText e) from)) content
       = replace_all (ed_oldText e) (ed_newText e) (drop from content)"
proof (induction content "ed_oldText e" "from" rule: occurrences_from.induct)
  case (1 content "from")
  let ?old = "ed_oldText e"
  have f: "str_index content ?old from = find_at ?old from (drop from content)" using "1.prems" by (simp add: str_index_def min_def)
  show ?case
  proof (cases "str_index content ?old from")
    case None
    then show ?thesis using "1.prems" f replace_all_none [of ?old "from" "drop from content"]
      by (simp add: occurrences_from.simps [of content ?old "from"])
  next
    case (Some k)
    have b: "from \<le> k" "k + length ?old \<le> length content" using str_index_bounds [OF Some "1.prems"(1)] by simp_all
    have "k - from + length ?old + from = k + length ?old" using b(1) by simp
    then show ?thesis using "1.hyps" [OF "1.prems"(2) Some b(2) "1.prems"(2)] "1.prems" Some f
        replace_all_some [of ?old "from" "drop from content" k]
      by (simp add: occurrences_from.simps [of content ?old "from"] match_at_def js_slice_def)
  qed
qed

lemma disjoint_sorted: "disjoint_from pos ms content \<Longrightarrow> sorted (map me_matchIndex ms) \<and> (\<forall>m \<in> set ms. pos \<le> me_matchIndex m)"
proof (induction ms arbitrary: pos)
  case (Cons m ms)
  have "sorted (map me_matchIndex ms) \<and> (\<forall>x \<in> set ms. me_matchIndex m + me_matchLength m \<le> me_matchIndex x)"
    using Cons.IH [of "me_matchIndex m + me_matchLength m"] Cons.prems by simp
  then show ?case using Cons.prems by fastforce
qed simp

lemma disjoint_not_overlapping: "disjoint_from pos ms content \<Longrightarrow> overlapping ms = None"
  by (induction ms arbitrary: pos rule: overlapping.induct) auto

lemma stage_single:
  assumes "ed_oldText e \<noteq> []" "countSubstring content (ed_oldText e) > 0" "replaces_all e \<or> countSubstring content (ed_oldText e) = 1"
  shows "stage_edit nfkc mark content n i e = Inr (map (match_at i e) (occurrences_from content (ed_oldText e) 0))"
proof (cases "countSubstring content (ed_oldText e) = 1")
  case True
  then obtain p where p: "occurrences_from content (ed_oldText e) 0 = [p]"
    by (metis countSubstring_def length_0_conv length_Suc_conv One_nat_def)
  then have "str_index content (ed_oldText e) 0 = Some p"
    using assms(1) by (cases "str_index content (ed_oldText e) 0") (auto simp: occurrences_from.simps [of content "ed_oldText e" 0])
  then show ?thesis using True p by (simp add: stage_edit_def stage_exact_def)
next
  case False
  then show ?thesis using assms by (simp add: stage_edit_def stage_exact_def Let_def)
qed

text \<open>C24: An exact edit is textual replacement. For an edit whose old text occurs in the file, once or with
  replaceAll, the tool's result is the left-to-right replacement of every occurrence; it is refused when, and
  only when, that changes nothing.
\<close>

theorem exact_edit_replaces:
  assumes old: "old = normalizeToLF (ed_oldText e)" "old \<noteq> []" and new: "new = normalizeToLF (ed_newText e)"
    and count: "countSubstring content old > 0" "ed_replaceAll e = Some True \<or> countSubstring content old = 1"
  shows "applyEditsToNormalizedContent nfkc mark content [e] =
    (if replace_all old new content = content then Inl (NoChange 1) else Inr (content, replace_all old new content))"
proof -
  let ?e = "normalize_edit e"
  let ?ms = "map (match_at 0 ?e) (occurrences_from content old 0)"
  have e: "ed_oldText ?e = old" "ed_newText ?e = new" "replaces_all ?e \<longleftrightarrow> ed_replaceAll e = Some True"
    using old new by (simp_all add: normalize_edit_def replaces_all_def)
  have st: "stage_edit nfkc mark content 1 0 ?e = Inr ?ms" using stage_single [of ?e content nfkc mark 1 0] old count e by simp
  have d: "disjoint_from 0 ?ms content" using occurrences_disjoint [of 0 content 0 ?e] e by simp
  have "splice ?ms content = replace_all old new content"
    using splice_forward [OF d] occurrences_splice [of 0 content ?e 0] e old by simp
  moreover have "sort_key me_matchIndex ?ms = ?ms" using disjoint_sorted [OF d] by (simp add: sort_key_id_if_sorted)
  ultimately show ?thesis using st e old disjoint_not_overlapping [OF d]
    by (simp add: applyEditsToNormalizedContent_def Let_def)
qed

lemma exact_edit_replaces_witness:
  "applyEditsToNormalizedContent id (\<lambda>m. False) (js ''a two a'')
     [\<lparr> ed_oldText = js ''a'', ed_newText = js ''bc'', ed_replaceAll = Some True \<rparr>] = Inr (js ''a two a'', js ''bc two bc'')"
proof -
  let ?e = "\<lparr> ed_oldText = js ''a'', ed_newText = js ''bc'', ed_replaceAll = Some True \<rparr>"
  have h: "js ''a'' = normalizeToLF (ed_oldText ?e)" "js ''a'' \<noteq> []" "js ''bc'' = normalizeToLF (ed_newText ?e)"
      "countSubstring (js ''a two a'') (js ''a'') > 0" "replace_all (js ''a'') (js ''bc'') (js ''a two a'') = js ''bc two bc''"
      "js ''bc two bc'' \<noteq> js ''a two a''"
    by code_simp+
  show ?thesis using exact_edit_replaces [OF h(1,2,3,4), of id "\<lambda>m. False"] h(5,6) by simp
qed


section \<open>Ambiguous edits\<close>

lemma find_newline:
  "find_at [10] i s = Some j \<Longrightarrow> i \<le> j \<and> j < i + length s \<and> s ! (j - i) = 10 \<and> count_list (take (j - i) s) 10 = 0"
proof (induction "[10] :: jsstr" i s rule: find_at.induct)
  case (2 i c cs)
  show ?case
  proof (cases "c = 10")
    case False
    then have f: "find_at [10] (Suc i) cs = Some j" using 2 by simp
    then have "j - i = Suc (j - Suc i)" using find_at_bounds [OF f] by linarith
    then show ?thesis using 2 f False by simp
  qed (use 2 in simp)
qed simp

lemma find_no_newline: "find_at [10] i s = None \<Longrightarrow> 10 \<notin> set s"
  by (induction "[10] :: jsstr" i s rule: find_at.induct) (simp_all split: if_splits)

lemma count_take_split: "a \<le> b \<Longrightarrow> count_list (take b s) x = count_list (take a s) x + count_list (js_slice s a b) x"
  by (metis slice_take count_list_append)

text \<open>The line counter moves to the line of the hit: one more than the newlines before it.\<close>

lemma advance_line_exact:
  "lineStart \<le> hit \<Longrightarrow> hit \<le> length content \<Longrightarrow> line = Suc (count_list (take lineStart content) 10)
     \<Longrightarrow> advance_line content hit line lineStart = (l, ls)
     \<Longrightarrow> l = Suc (count_list (take hit content) 10) \<and> l = Suc (count_list (take ls content) 10) \<and> ls \<le> hit"
proof (induction content hit line lineStart rule: advance_line.induct)
  case (1 content hit line lineStart)
  have f: "str_index content [10] lineStart = find_at [10] lineStart (drop lineStart content)"
    using "1.prems" by (simp add: str_index_def min_def)
  show ?case
  proof (cases "str_index content [10] lineStart")
    case None
    then have "10 \<notin> set (drop lineStart content)" using f find_no_newline by metis
    then have "count_list (js_slice content lineStart hit) 10 = 0"
      by (auto simp: js_slice_def count_list_0_iff dest: in_set_takeD)
    then show ?thesis using None "1.prems" count_take_split [of lineStart hit content 10]
      by (auto simp: advance_line.simps [of content hit line lineStart])
  next
    case (Some nl)
    have n: "lineStart \<le> nl" "nl < length content" "content ! nl = 10" "count_list (js_slice content lineStart nl) 10 = 0"
      using find_newline [of lineStart "drop lineStart content" nl] Some f "1.prems"(1,2) by (auto simp: js_slice_def)
    show ?thesis
    proof (cases "hit \<le> nl")
      case True
      have "count_list (js_slice content lineStart nl) 10
          = count_list (js_slice content lineStart hit) 10 + count_list (js_slice content hit nl) 10"
        using count_take_split [of lineStart nl content 10] count_take_split [of lineStart hit content 10]
          count_take_split [of hit nl content 10] True "1.prems" n by simp
      then show ?thesis using n Some True "1.prems" count_take_split [of lineStart hit content 10]
        by (auto simp: advance_line.simps [of content hit line lineStart])
    next
      case False
      have "count_list (take (Suc nl) content) 10 = Suc (count_list (take lineStart content) 10)"
        using n count_take_split [of lineStart nl content 10] by (simp add: take_Suc_conv_app_nth)
      then show ?thesis using "1.IH" [OF "1.prems"(1) Some False] False Some "1.prems"
        by (simp add: advance_line.simps [of content hit line lineStart])
    qed
  qed
qed

lemma lines_of_hits_exact:
  "sorted hits \<Longrightarrow> \<forall>h \<in> set hits. lineStart \<le> h \<and> h \<le> length content \<Longrightarrow> line = Suc (count_list (take lineStart content) 10)
     \<Longrightarrow> lines_of_hits content hits line lineStart = map (\<lambda>h. Suc (count_list (take h content) 10)) hits"
proof (induction hits arbitrary: line lineStart)
  case (Cons h hits)
  obtain l ls where a: "advance_line content h line lineStart = (l, ls)" by fastforce
  have e: "l = Suc (count_list (take h content) 10)" "l = Suc (count_list (take ls content) 10)" "ls \<le> h"
    using advance_line_exact [OF _ _ Cons.prems(3) a] Cons.prems(2) by auto
  have "lines_of_hits content hits l ls = map (\<lambda>h. Suc (count_list (take h content) 10)) hits"
    by (rule Cons.IH) (use Cons.prems e in fastforce)+
  then show ?case using a e(1) by simp
qed simp

lemma findOccurrenceLines_exact:
  "findOccurrenceLines content needle limit = map (\<lambda>h. Suc (count_list (take h content) 10)) (take limit (occurrences_from content needle 0))"
proof -
  let ?e = "\<lparr> ed_oldText = needle, ed_newText = [], ed_replaceAll = None \<rparr>"
  have "sorted (map me_matchIndex (map (match_at 0 ?e) (occurrences_from content needle 0)))"
    using disjoint_sorted occurrences_disjoint [of 0 content 0 ?e] by fastforce
  then have "sorted (occurrences_from content needle 0)" by (simp add: match_at_def comp_def)
  then have "sorted (take limit (occurrences_from content needle 0))" by (rule sorted_wrt_take)
  then show ?thesis unfolding findOccurrenceLines_def
    by (rule lines_of_hits_exact) (auto dest!: in_set_takeD occurrence_placed)
qed

text \<open>C29: An ambiguous edit is refused with true line numbers. When the old text occurs more than once and replaceAll is
  not set, the edit fails with the number of occurrences and, for the first five, the lines they start on: one
  more than the newlines before each.
\<close>

theorem ambiguous_edit_refused:
  assumes old: "old = normalizeToLF (ed_oldText e)" "old \<noteq> []"
    and many: "1 < countSubstring content old" "ed_replaceAll e \<noteq> Some True"
  shows "applyEditsToNormalizedContent nfkc mark content [e] =
    Inl (Duplicate 0 1 (countSubstring content old)
      (Some (map (\<lambda>h. Suc (count_list (take h content) 10)) (take 5 (occurrences_from content old 0)))))"
proof -
  have e: "ed_oldText (normalize_edit e) = old" "\<not> replaces_all (normalize_edit e)"
    using old many by (simp_all add: normalize_edit_def replaces_all_def)
  then show ?thesis using old many
    by (simp add: applyEditsToNormalizedContent_def stage_edit_def stage_exact_def findOccurrenceLines_exact Let_def)
qed

definition two_lines :: jsstr where
  "two_lines = js ''x = 1'' @ newline @ js ''y = 1''"

lemma ambiguous_edit_refused_witness:
  "applyEditsToNormalizedContent id (\<lambda>m. False) two_lines [\<lparr> ed_oldText = js '' = 1'', ed_newText = [], ed_replaceAll = None \<rparr>]
     = Inl (Duplicate 0 1 2 (Some [1, 2]))"
proof -
  let ?e = "\<lparr> ed_oldText = js '' = 1'', ed_newText = [], ed_replaceAll = None \<rparr>"
  have h: "js '' = 1'' = normalizeToLF (ed_oldText ?e)" "js '' = 1'' \<noteq> []" "countSubstring two_lines (js '' = 1'') = 2"
      "map (\<lambda>h. Suc (count_list (take h two_lines) 10)) (take 5 (occurrences_from two_lines (js '' = 1'') 0)) = [1, 2]"
    by code_simp+
  show ?thesis using ambiguous_edit_refused [OF h(1,2), of two_lines id "\<lambda>m. False"] h(3,4) by simp
qed


section \<open>Line endings and the byte order mark\<close>

lemma find_at_skip: "find_at needle i (xs @ ys) = find_at needle (i + length xs) ys"
  if "\<And>k. k < length xs \<Longrightarrow> take (length needle) (drop k (xs @ ys)) \<noteq> needle" for needle xs ys :: jsstr and i :: nat
  using that
proof (induction xs arbitrary: i)
  case (Cons x xs)
  have "find_at needle (Suc i) (xs @ ys) = find_at needle (Suc i + length xs) ys"
    by (rule Cons.IH) (use Cons.prems [of "Suc _"] in simp)
  then show ?case using Cons.prems [of 0] by simp
qed simp

lemma find_first: "c \<notin> set xs \<Longrightarrow> find_at (c # cs) i (xs @ c # cs @ ys) = Some (i + length xs)"
proof -
  assume c: "c \<notin> set xs"
  have "find_at (c # cs) i (xs @ (c # cs @ ys)) = find_at (c # cs) (i + length xs) (c # cs @ ys)"
  proof (rule find_at_skip)
    fix k assume k: "k < length xs"
    then have "drop k (xs @ c # cs @ ys) = xs ! k # drop (Suc k) (xs @ c # cs @ ys)"
      by (metis Cons_nth_drop_Suc length_append nth_append trans_less_add1)
    then show "take (length (c # cs)) (drop k (xs @ c # cs @ ys)) \<noteq> c # cs" using c k nth_mem by fastforce
  qed
  then show ?thesis by simp
qed

lemma find_absent: "c \<notin> set xs \<Longrightarrow> find_at (c # cs) i xs = None"
  by (induction "c # cs" i xs rule: find_at.induct) (auto split: if_splits)

lemma detect_cr: "find_at [10] 0 r = None \<Longrightarrow> find_at [13] 0 r \<noteq> None \<Longrightarrow> detectLineEnding r = CR"
  by (simp add: detectLineEnding_def str_index_def)

lemma detect_restored:
  assumes "13 \<notin> set s" "10 \<in> set s \<or> e = LF"
  shows "detectLineEnding (restoreLineEndings s e) = e"
proof (cases "10 \<in> set s")
  case False
  then have "restoreLineEndings s e = s" "e = LF" using assms by (simp_all add: restoreLineEndings_def)
  then show ?thesis using assms False by (simp add: detectLineEnding_def str_index_def find_absent)
next
  case True
  then obtain a b where s: "s = a @ 10 # b" "10 \<notin> set a" by (meson split_list_first)
  show ?thesis
  proof (cases e)
    case CRLF
    have "concat (map (\<lambda>c. if c = 10 then [13, 10] else [c]) a) = a" using s(2) by (induction a) auto
    then have r: "restoreLineEndings s e = a @ 13 # [10] @ concat (map (\<lambda>c. if c = 10 then [13, 10] else [c]) b)"
      using s(1) CRLF by (simp add: restoreLineEndings_def)
    have "find_at [13, 10] 0 (restoreLineEndings s e) = Some (length a)"
      unfolding r using find_first [of 13 a "[10]"] assms(1) s(1) by simp
    moreover have "find_at [10] 0 (restoreLineEndings s e) = Some (Suc (length a))"
      unfolding r using find_first [of 10 "a @ [13]" "[]"] s(2) by simp
    ultimately show ?thesis using CRLF by (simp add: detectLineEnding_def str_index_def)
  next
    case LF
    have "find_at [10] 0 s = Some (length a)" unfolding s(1) using find_first [of 10 a "[]" 0 b] s(2) by simp
    then show ?thesis using LF assms(1) by (simp add: restoreLineEndings_def detectLineEnding_def str_index_def find_absent)
  next
    case CR
    let ?r = "map (\<lambda>c. if c = 10 then 13 else c) s"
    have "find_at [10] 0 ?r = None" by (rule find_absent) auto
    moreover have "find_at [13] 0 ?r \<noteq> None"
    proof -
      have r: "?r = map (\<lambda>c. if c = 10 then 13 else c) a @ 13 # [] @ map (\<lambda>c. if c = 10 then 13 else c) b" using s(1) by simp
      have a: "13 \<notin> set (map (\<lambda>c. if c = 10 then 13 else c) a)" using s assms(1) by auto
      show ?thesis unfolding r find_first [OF a] by simp
    qed
    ultimately have "detectLineEnding ?r = CR" by (rule detect_cr)
    then show ?thesis using CR by (simp add: restoreLineEndings_def)
  qed
qed

lemma replace_crlf_Cons: "c \<noteq> 13 \<Longrightarrow> replace_crlf (c # s) = c # replace_crlf s"
  by (cases s) simp_all

lemma no_cr [simp]: "13 \<notin> set s \<Longrightarrow> map (\<lambda>c. if c = 13 then 10 else c) s = (s :: jsstr)"
  by (induction s) auto

lemma cr_and_back [simp]: "13 \<notin> set s \<Longrightarrow> map ((\<lambda>c. if c = 13 then 10 else c) \<circ> (\<lambda>c. if c = 10 then 13 else c)) s = (s :: jsstr)"
  by (induction s) auto

lemma normalize_restored:
  assumes "13 \<notin> set s"
  shows "normalizeToLF (restoreLineEndings s e) = s"
proof (cases e)
  case CRLF
  have "replace_crlf (concat (map (\<lambda>c. if c = 10 then [13, 10] else [c]) s)) = s" using assms
    by (induction s) (auto simp: replace_crlf_Cons)
  then show ?thesis using CRLF assms by (simp add: normalizeToLF_def restoreLineEndings_def)
next
  case LF
  have "replace_crlf s = s" using assms by (induction s) (auto simp: replace_crlf_Cons)
  then show ?thesis using LF assms by (simp add: normalizeToLF_def restoreLineEndings_def)
next
  case CR
  have "10 \<notin> set r \<Longrightarrow> replace_crlf r = r" for r
    by (induction r rule: replace_crlf.induct) auto
  then have "replace_crlf (map (\<lambda>c. if c = 10 then 13 else c) s) = map (\<lambda>c. if c = 10 then 13 else c) s" by force
  then show ?thesis using CR assms by (simp add: normalizeToLF_def restoreLineEndings_def)
qed

text \<open>C28: For a file whose line endings are all of one kind, with or without a byte order mark, the edit tool fails
  exactly when the edits fail on its text with plain newlines, and otherwise writes the new text with the mark and the
  line endings of the file. A file that mixes line endings is edited, on every line, as the file with the same text
  and the same mark whose line endings are all of the detected kind.
\<close>

theorem edit_file_keeps_format:
  assumes s: "13 \<notin> set s" "10 \<in> set s \<or> e = LF"
    and bom: "bom = [0xFEFF] \<or> bom = [] \<and> (\<forall>cs. s \<noteq> 0xFEFF # cs)"
  shows "edit_file nfkc mark (bom @ restoreLineEndings s e) edits =
    (case applyEditsToNormalizedContent nfkc mark s edits of
       Inl err \<Rightarrow> Inl err
     | Inr (base, new) \<Rightarrow> Inr (bom @ restoreLineEndings new e)) \<and>
    (\<forall>raw body. stripBom raw = (bom, body) \<and> normalizeToLF body = s \<and> detectLineEnding body = e \<longrightarrow>
       edit_file nfkc mark raw edits = edit_file nfkc mark (bom @ restoreLineEndings s e) edits)"
proof -
  have "\<forall>cs. s \<noteq> 0xFEFF # cs \<Longrightarrow> \<forall>cs. restoreLineEndings s e \<noteq> 0xFEFF # cs"
    by (cases s) (auto simp: restoreLineEndings_def split: line_ending.splits if_splits)
  then have "stripBom (bom @ restoreLineEndings s e) = (bom, restoreLineEndings s e)"
    using bom by (auto simp: stripBom_def split: list.split)
  then show ?thesis using detect_restored [OF s] normalize_restored [OF s(1)]
    by (auto simp: edit_file_def split: sum.split)
qed

lemma edit_file_keeps_format_witness:
  "edit_file id (\<lambda>m. False) (js ''a two a'' @ [13, 10]) sample_edits = Inr (js ''bc 2 bc'' @ [13, 10]) \<and>
   edit_file id (\<lambda>m. False) ([13, 10] @ js ''a two a'' @ [10]) sample_edits = Inr ([13, 10] @ js ''bc 2 bc'' @ [13, 10])"
proof
  have h: "13 \<notin> set (js ''a two a'' @ newline)" "10 \<in> set (js ''a two a'' @ newline) \<or> CRLF = LF"
      "[] = [0xFEFF] \<or> [] = ([] :: jsstr) \<and> (\<forall>cs. js ''a two a'' @ newline \<noteq> 0xFEFF # cs)"
    by (simp_all add: js_def newline_def)
  have "restoreLineEndings (js ''a two a'' @ newline) CRLF = js ''a two a'' @ [13, 10]"
      "applyEditsToNormalizedContent id (\<lambda>m. False) (js ''a two a'' @ newline) sample_edits
         = Inr (js ''a two a'' @ newline, js ''bc 2 bc'' @ newline)"
      "restoreLineEndings (js ''bc 2 bc'' @ newline) CRLF = js ''bc 2 bc'' @ [13, 10]"
    by code_simp+
  then show "edit_file id (\<lambda>m. False) (js ''a two a'' @ [13, 10]) sample_edits = Inr (js ''bc 2 bc'' @ [13, 10])"
    using edit_file_keeps_format [OF h, of id "\<lambda>m. False" sample_edits] by simp
  have k: "13 \<notin> set (newline @ js ''a two a'' @ newline)" "10 \<in> set (newline @ js ''a two a'' @ newline) \<or> CRLF = LF"
      "[] = [0xFEFF] \<or> [] = ([] :: jsstr) \<and> (\<forall>cs. newline @ js ''a two a'' @ newline \<noteq> 0xFEFF # cs)"
    by (simp_all add: js_def newline_def)
  let ?raw = "[13, 10] @ js ''a two a'' @ [10]"
  have "stripBom ?raw = ([], ?raw)" "normalizeToLF ?raw = newline @ js ''a two a'' @ newline" "detectLineEnding ?raw = CRLF"
      "applyEditsToNormalizedContent id (\<lambda>m. False) (newline @ js ''a two a'' @ newline) sample_edits
         = Inr (newline @ js ''a two a'' @ newline, newline @ js ''bc 2 bc'' @ newline)"
      "restoreLineEndings (newline @ js ''bc 2 bc'' @ newline) CRLF = [13, 10] @ js ''bc 2 bc'' @ [13, 10]"
    by code_simp+
  then show "edit_file id (\<lambda>m. False) ?raw sample_edits = Inr ([13, 10] @ js ''bc 2 bc'' @ [13, 10])"
    using edit_file_keeps_format [OF k, of id "\<lambda>m. False" sample_edits] by simp
qed

text \<open>
  An old text of blanks that does not occur in the file is not refused: the fuzzy normalisation removes it, the
  empty text is found at the start, and the new text is inserted there.
\<close>

lemma blank_old_text_inserts:
  "applyEditsToNormalizedContent id (\<lambda>m. False) two_lines
     [\<lparr> ed_oldText = js ''     '', ed_newText = js ''# '', ed_replaceAll = None \<rparr>] = Inr (two_lines, js ''# '' @ two_lines)"
  by code_simp

end
