(* ===== verification/EditDiff.thy ===== *)
theory EditDiff
  imports EditApply
begin

text \<open>
  Showing an edit (core/tools/edit-diff.ts): the numbered diff, the preview of an edit and the small cache of
  file bodies behind it. The line diff itself is the function \<open>diffLines\<close> of the package diff, a parameter.
\<close>


section \<open>The numbered diff\<close>

record diff_part =
  dp_value :: jsstr
  dp_added :: bool
  dp_removed :: bool

datatype diff_row =
    RowAdded nat jsstr
  | RowRemoved nat jsstr
  | RowContext nat jsstr
  | RowSkip

record diff_state =
  ds_rows :: "diff_row list"
  ds_oldLine :: nat
  ds_newLine :: nat
  ds_lastWasChange :: bool
  ds_firstChanged :: "nat option"

definition text_lines :: "jsstr \<Rightarrow> jsstr list" where
  "text_lines s = (let raw = split_lines s in if last raw = [] then butlast raw else raw)"

definition part_lines :: "diff_part \<Rightarrow> jsstr list" where
  "part_lines p = text_lines (dp_value p)"

definition is_change :: "diff_part \<Rightarrow> bool" where
  "is_change p \<longleftrightarrow> dp_added p \<or> dp_removed p"

definition context_rows :: "nat \<Rightarrow> jsstr list \<Rightarrow> diff_row list" where
  "context_rows n ls = map (\<lambda>(i, l). RowContext i l) (List.enumerate n ls)"

definition change_part :: "diff_part \<Rightarrow> diff_state \<Rightarrow> diff_state" where
  "change_part p st =
     (let raw = part_lines p;
          st1 = st\<lparr>ds_firstChanged := (case ds_firstChanged st of None \<Rightarrow> Some (ds_newLine st) | Some n \<Rightarrow> Some n),
                    ds_lastWasChange := True\<rparr>
      in if dp_added p
         then st1\<lparr>ds_rows := ds_rows st @ map (\<lambda>(i, l). RowAdded i l) (List.enumerate (ds_newLine st) raw),
                   ds_newLine := ds_newLine st + length raw\<rparr>
         else st1\<lparr>ds_rows := ds_rows st @ map (\<lambda>(i, l). RowRemoved i l) (List.enumerate (ds_oldLine st) raw),
                   ds_oldLine := ds_oldLine st + length raw\<rparr>)"

text \<open>What is shown of an unchanged part, by whether changes come before and after it.\<close>

definition shown_context :: "nat \<Rightarrow> bool \<Rightarrow> bool \<Rightarrow> nat \<Rightarrow> jsstr list \<Rightarrow> diff_row list" where
  "shown_context contextLines leading trailing n raw =
     (if leading \<and> trailing then
        (if length raw \<le> contextLines * 2 then context_rows n raw
         else context_rows n (take contextLines raw) @ [RowSkip]
           @ context_rows (n + contextLines + (length raw - contextLines - contextLines)) (drop (length raw - contextLines) raw))
      else if leading then
        context_rows n (take contextLines raw) @ (if contextLines < length raw then [RowSkip] else [])
      else if trailing then
        (if contextLines < length raw then [RowSkip] else [])
          @ context_rows (n + (length raw - contextLines)) (drop (length raw - contextLines) raw)
      else [])"

definition context_part :: "nat \<Rightarrow> diff_part \<Rightarrow> bool \<Rightarrow> diff_state \<Rightarrow> diff_state" where
  "context_part contextLines p trailing st =
     (let raw = part_lines p
      in st\<lparr>ds_rows := ds_rows st @ shown_context contextLines (ds_lastWasChange st) trailing (ds_oldLine st) raw,
            ds_oldLine := ds_oldLine st + length raw, ds_newLine := ds_newLine st + length raw,
            ds_lastWasChange := False\<rparr>)"

fun diff_parts :: "nat \<Rightarrow> diff_part list \<Rightarrow> diff_state \<Rightarrow> diff_state" where
  "diff_parts contextLines [] st = st"
| "diff_parts contextLines (p # ps) st =
     diff_parts contextLines ps
       (if is_change p then change_part p st
        else context_part contextLines p (case ps of [] \<Rightarrow> False | q # _ \<Rightarrow> is_change q) st)"

definition diff_start :: diff_state where
  "diff_start = \<lparr> ds_rows = [], ds_oldLine = 1, ds_newLine = 1, ds_lastWasChange = False, ds_firstChanged = None \<rparr>"

definition padStart :: "nat \<Rightarrow> jsstr \<Rightarrow> jsstr" where
  "padStart width s = replicate (width - length s) 32 @ s"

fun row_text :: "nat \<Rightarrow> diff_row \<Rightarrow> jsstr" where
  "row_text width (RowAdded n l) = js ''+'' @ padStart width (digits n) @ js '' '' @ l"
| "row_text width (RowRemoved n l) = js ''-'' @ padStart width (digits n) @ js '' '' @ l"
| "row_text width (RowContext n l) = js '' '' @ padStart width (digits n) @ js '' '' @ l"
| "row_text width RowSkip = js '' '' @ padStart width [] @ js '' ...''"

record edit_diff =
  df_diff :: jsstr
  df_firstChangedLine :: "nat option"

definition generateDiffString :: "(jsstr \<Rightarrow> jsstr \<Rightarrow> diff_part list) \<Rightarrow> jsstr \<Rightarrow> jsstr \<Rightarrow> nat \<Rightarrow> edit_diff" where
  "generateDiffString diffLines oldContent newContent contextLines =
     (let width = length (digits (max (length (split_lines oldContent)) (length (split_lines newContent))));
          st = diff_parts contextLines (diffLines oldContent newContent) diff_start
      in \<lparr> df_diff = join newline (map (row_text width) (ds_rows st)), df_firstChangedLine = ds_firstChanged st \<rparr>)"


section \<open>The numbers are true\<close>

definition old_lines :: "diff_part list \<Rightarrow> jsstr list" where
  "old_lines ps = concat (map part_lines (filter (\<lambda>p. \<not> dp_added p) ps))"

definition new_lines :: "diff_part list \<Rightarrow> jsstr list" where
  "new_lines ps = concat (map part_lines (filter (\<lambda>p. \<not> dp_removed p) ps))"

text \<open>A row shows a line of its file under that line's number.\<close>

fun row_true :: "jsstr list \<Rightarrow> jsstr list \<Rightarrow> diff_row \<Rightarrow> bool" where
  "row_true os ns (RowAdded n l) \<longleftrightarrow> 0 < n \<and> n \<le> length ns \<and> ns ! (n - 1) = l"
| "row_true os ns (RowRemoved n l) \<longleftrightarrow> 0 < n \<and> n \<le> length os \<and> os ! (n - 1) = l"
| "row_true os ns (RowContext n l) \<longleftrightarrow> 0 < n \<and> n \<le> length os \<and> os ! (n - 1) = l"
| "row_true os ns RowSkip \<longleftrightarrow> True"

definition added_rows :: "diff_row list \<Rightarrow> jsstr list" where
  "added_rows rows = concat (map (\<lambda>r. case r of RowAdded n l \<Rightarrow> [l] | _ \<Rightarrow> []) rows)"

definition removed_rows :: "diff_row list \<Rightarrow> jsstr list" where
  "removed_rows rows = concat (map (\<lambda>r. case r of RowRemoved n l \<Rightarrow> [l] | _ \<Rightarrow> []) rows)"

lemma rows_append [simp]: "added_rows (xs @ ys) = added_rows xs @ added_rows ys"
  "removed_rows (xs @ ys) = removed_rows xs @ removed_rows ys"
  by (simp_all add: added_rows_def removed_rows_def)

lemma enumerate_in: "(i, l) \<in> set (List.enumerate n ls) \<longleftrightarrow> n \<le> i \<and> i < n + length ls \<and> ls ! (i - n) = l"
  by (auto simp: in_set_enumerate_eq)

lemma added_rows_enum [simp]:
  "added_rows (map (\<lambda>(i, l). RowAdded i l) (List.enumerate n ls)) = ls" "removed_rows (map (\<lambda>(i, l). RowAdded i l) (List.enumerate n ls)) = []"
  "removed_rows (map (\<lambda>(i, l). RowRemoved i l) (List.enumerate n ls)) = ls" "added_rows (map (\<lambda>(i, l). RowRemoved i l) (List.enumerate n ls)) = []"
  by (induction ls arbitrary: n; simp add: added_rows_def removed_rows_def)+

lemma context_rows_enum [simp]: "added_rows (context_rows n ls) = []" "removed_rows (context_rows n ls) = []"
  by (induction ls arbitrary: n; simp add: added_rows_def removed_rows_def context_rows_def)+

lemma skip_rows [simp]: "added_rows [RowSkip] = []" "removed_rows [RowSkip] = []" "added_rows [] = []" "removed_rows [] = []"
  "added_rows (RowSkip # rows) = added_rows rows" "removed_rows (RowSkip # rows) = removed_rows rows"
  by (simp_all add: added_rows_def removed_rows_def)

lemma shown_no_change [simp]: "added_rows (shown_context c a b n raw) = []" "removed_rows (shown_context c a b n raw) = []"
  by (simp_all add: shown_context_def)

text \<open>The lines of a file, the first \<open>k\<close> of them already numbered, continue with \<open>ls\<close>.\<close>

definition continues :: "jsstr list \<Rightarrow> nat \<Rightarrow> jsstr list \<Rightarrow> bool" where
  "continues fs n ls \<longleftrightarrow> 0 < n \<and> n - 1 + length ls \<le> length fs \<and> js_slice fs (n - 1) (n - 1 + length ls) = ls"

lemma continues_nth: "continues fs n ls \<Longrightarrow> n \<le> i \<Longrightarrow> i < n + length ls \<Longrightarrow> 0 < i \<and> i \<le> length fs \<and> fs ! (i - 1) = ls ! (i - n)"
proof -
  assume a: "continues fs n ls" "n \<le> i" "i < n + length ls"
  then have s: "take (length ls) (drop (n - 1) fs) = ls" "n - 1 + length ls \<le> length fs" "0 < n"
    using a(1) unfolding continues_def js_slice_def add_diff_cancel_left' by blast+
  have "take (length ls) (drop (n - 1) fs) ! (i - n) = fs ! (n - 1 + (i - n))"
    using a(2,3) s(2) by (subst nth_take) simp_all
  moreover have "n - 1 + (i - n) = i - 1" using a(2) s(3) by linarith
  ultimately have "fs ! (i - 1) = ls ! (i - n)" using s(1) by metis
  then show ?thesis using a(2,3) s(2,3) by linarith
qed

lemma enumerate_true:
  assumes "continues fs n ls" "n \<le> i \<and> i < n + length ls \<and> ls ! (i - n) = l"
  shows "0 < i \<and> i \<le> length fs \<and> fs ! (i - 1) = l"
  using assms continues_nth by blast

lemma context_head_true: "continues os n raw \<Longrightarrow> r \<in> set (context_rows n (take k raw)) \<Longrightarrow> row_true os ns r"
  using enumerate_true [of os n raw] by (auto simp: context_rows_def enumerate_in)

lemma context_tail_true: "continues os n raw \<Longrightarrow> r \<in> set (context_rows (n + k) (drop k raw)) \<Longrightarrow> row_true os ns r"
  using enumerate_true [of os n raw] by (auto simp: context_rows_def enumerate_in)

lemma shown_context_true:
  assumes c: "continues os n raw" and r: "r \<in> set (shown_context k a b n raw)"
  shows "row_true os ns r"
proof -
  have skip: "row_true os ns RowSkip" by simp
  have e: "\<not> length raw \<le> k * 2 \<Longrightarrow> n + k + (length raw - k - k) = n + (length raw - k)" by simp
  from r consider "r = RowSkip" | "r \<in> set (context_rows n raw)" | "r \<in> set (context_rows n (take k raw))"
      | "r \<in> set (context_rows (n + (length raw - k)) (drop (length raw - k) raw))"
    unfolding shown_context_def by (auto simp only: set_append set_simps Un_iff e empty_iff insert_iff split: if_splits)
      (metis e)
  then show ?thesis
  proof cases
    case 2
    then show ?thesis using context_head_true [OF c, of r "length raw" ns] by simp
  qed (use skip context_head_true [OF c] context_tail_true [OF c] in blast)+
qed

text \<open>The state between two parts: the lines numbered so far, the rows shown so far.\<close>

definition diff_inv :: "jsstr list \<Rightarrow> jsstr list \<Rightarrow> diff_part list \<Rightarrow> diff_state \<Rightarrow> bool" where
  "diff_inv os ns seen st \<longleftrightarrow>
     ds_oldLine st = Suc (length (old_lines seen)) \<and> ds_newLine st = Suc (length (new_lines seen))
     \<and> (\<forall>r \<in> set (ds_rows st). row_true os ns r)
     \<and> added_rows (ds_rows st) = concat (map part_lines (filter dp_added seen))
     \<and> removed_rows (ds_rows st) = concat (map part_lines (filter dp_removed seen))
     \<and> ds_firstChanged st = (if \<exists>p \<in> set seen. is_change p
          then Some (Suc (length (concat (map part_lines (takeWhile (\<lambda>p. \<not> is_change p) seen))))) else None)"

lemma continues_split: "fs = a @ ls @ b \<Longrightarrow> continues fs (Suc (length a)) ls"
  by (simp add: continues_def js_slice_def)

lemma takeWhile_snoc:
  "takeWhile P (xs @ [x]) = (if \<forall>y \<in> set xs. P y then xs @ (if P x then [x] else []) else takeWhile P xs)"
  by (induction xs) auto

lemma new_lines_unchanged: "\<forall>p \<in> set ps. \<not> is_change p \<Longrightarrow> new_lines ps = concat (map part_lines ps)"
  by (induction ps) (simp_all add: new_lines_def is_change_def)

lemma diff_inv_step:
  assumes inv: "diff_inv (old_lines (seen @ p # ps)) (new_lines (seen @ p # ps)) seen st"
    and one: "\<not> (dp_added p \<and> dp_removed p)"
  shows "diff_inv (old_lines (seen @ p # ps)) (new_lines (seen @ p # ps)) (seen @ [p])
    (if is_change p then change_part p st else context_part c p b st)"
proof -
  let ?os = "old_lines (seen @ p # ps)" and ?ns = "new_lines (seen @ p # ps)"
  have o: "\<not> dp_added p \<Longrightarrow> continues ?os (Suc (length (old_lines seen))) (part_lines p)"
    by (rule continues_split [where b = "old_lines ps"]) (simp add: old_lines_def)
  have n: "\<not> dp_removed p \<Longrightarrow> continues ?ns (Suc (length (new_lines seen))) (part_lines p)"
    by (rule continues_split [where b = "new_lines ps"]) (simp add: new_lines_def)
  have enum: "continues fs m ls \<Longrightarrow> (i, l) \<in> set (List.enumerate m ls) \<Longrightarrow> 0 < i \<and> i \<le> length fs \<and> fs ! (i - 1) = l" for fs m ls i l
    using enumerate_true [of fs m ls i l] by (simp add: enumerate_in)
  consider "dp_added p" "\<not> dp_removed p" | "\<not> dp_added p" "dp_removed p" | "\<not> dp_added p" "\<not> dp_removed p"
    using one by blast
  then show ?thesis
  proof cases
    case 1
    then show ?thesis using inv enum [OF n]
      by (auto simp: diff_inv_def is_change_def change_part_def Let_def old_lines_def new_lines_def takeWhile_snoc
          new_lines_unchanged [unfolded new_lines_def is_change_def])
  next
    case 2
    then show ?thesis using inv enum [OF o]
      by (auto simp: diff_inv_def is_change_def change_part_def Let_def old_lines_def new_lines_def takeWhile_snoc
          new_lines_unchanged [unfolded new_lines_def is_change_def])
  next
    case 3
    then show ?thesis using inv shown_context_true [OF o]
      by (auto simp: diff_inv_def is_change_def context_part_def Let_def old_lines_def new_lines_def takeWhile_snoc)
  qed
qed

lemma diff_inv_run:
  assumes "diff_inv (old_lines (seen @ ps)) (new_lines (seen @ ps)) seen st" "\<forall>p \<in> set ps. \<not> (dp_added p \<and> dp_removed p)"
  shows "diff_inv (old_lines (seen @ ps)) (new_lines (seen @ ps)) (seen @ ps) (diff_parts c ps st)"
  using assms
proof (induction ps arbitrary: seen st)
  case (Cons p ps)
  let ?b = "case ps of [] \<Rightarrow> False | q # _ \<Rightarrow> is_change q"
  have "diff_inv (old_lines (seen @ p # ps)) (new_lines (seen @ p # ps)) (seen @ [p])
      (if is_change p then change_part p st else context_part c p ?b st)"
    by (rule diff_inv_step [OF Cons.prems(1)]) (use Cons.prems(2) in simp)
  then have "diff_inv (old_lines ((seen @ [p]) @ ps)) (new_lines ((seen @ [p]) @ ps)) ((seen @ [p]) @ ps)
      (diff_parts c ps (if is_change p then change_part p st else context_part c p ?b st))"
    by (intro Cons.IH) (use Cons.prems(2) in simp_all)
  then show ?case by simp
qed simp

text \<open>The shown diff is true and complete. When the parts of the line diff are the lines of the two files, every row
  shown carries a line of its file under that line's number (removed and unchanged lines those of the old file,
  added ones those of the new), every added and every removed line is shown once and in order, and the first
  changed line is the line after the unchanged ones the diff starts with.
\<close>

theorem diff_rows_true:
  assumes "\<forall>p \<in> set (diffLines old new). \<not> (dp_added p \<and> dp_removed p)"
    and "old_lines (diffLines old new) = text_lines old" and "new_lines (diffLines old new) = text_lines new"
  shows "(\<exists>rows width. df_diff (generateDiffString diffLines old new c) = join newline (map (row_text width) rows)
      \<and> (\<forall>r \<in> set rows. row_true (text_lines old) (text_lines new) r)
      \<and> added_rows rows = concat (map part_lines (filter dp_added (diffLines old new)))
      \<and> removed_rows rows = concat (map part_lines (filter dp_removed (diffLines old new))))
    \<and> df_firstChangedLine (generateDiffString diffLines old new c) =
      (if \<exists>p \<in> set (diffLines old new). is_change p
       then Some (Suc (length (concat (map part_lines (takeWhile (\<lambda>p. \<not> is_change p) (diffLines old new)))))) else None)"
proof -
  have "diff_inv (old_lines ([] @ diffLines old new)) (new_lines ([] @ diffLines old new)) ([] @ diffLines old new)
      (diff_parts c (diffLines old new) diff_start)"
    by (rule diff_inv_run) (use assms(1) in \<open>simp_all add: diff_inv_def diff_start_def old_lines_def [of "[]"] new_lines_def [of "[]"]\<close>)
  then have i: "diff_inv (text_lines old) (text_lines new) (diffLines old new) (diff_parts c (diffLines old new) diff_start)"
    using assms by simp
  have "\<exists>rows width. df_diff (generateDiffString diffLines old new c) = join newline (map (row_text width) rows)
      \<and> (\<forall>r \<in> set rows. row_true (text_lines old) (text_lines new) r)
      \<and> added_rows rows = concat (map part_lines (filter dp_added (diffLines old new)))
      \<and> removed_rows rows = concat (map part_lines (filter dp_removed (diffLines old new)))"
    using i unfolding generateDiffString_def Let_def diff_inv_def by (intro exI) auto
  then show ?thesis using i by (simp add: generateDiffString_def Let_def diff_inv_def)
qed

text \<open>The diff of a and b against a and c.\<close>

definition old_ab :: jsstr where "old_ab = js ''a'' @ newline @ js ''b'' @ newline"

definition new_ac :: jsstr where "new_ac = js ''a'' @ newline @ js ''c'' @ newline"

definition sample_parts :: "jsstr \<Rightarrow> jsstr \<Rightarrow> diff_part list" where
  "sample_parts old new =
     [\<lparr> dp_value = js ''a'' @ newline, dp_added = False, dp_removed = False \<rparr>,
      \<lparr> dp_value = js ''b'' @ newline, dp_added = False, dp_removed = True \<rparr>,
      \<lparr> dp_value = js ''c'' @ newline, dp_added = True, dp_removed = False \<rparr>]"

lemma diff_rows_true_witness: "df_firstChangedLine (generateDiffString sample_parts old_ab new_ac 4) = Some 2"
proof -
  have h: "\<forall>p \<in> set (sample_parts old_ab new_ac). \<not> (dp_added p \<and> dp_removed p)"
      "old_lines (sample_parts old_ab new_ac) = text_lines old_ab" "new_lines (sample_parts old_ab new_ac) = text_lines new_ac"
      "(if \<exists>p \<in> set (sample_parts old_ab new_ac). is_change p
       then Some (Suc (length (concat (map part_lines (takeWhile (\<lambda>p. \<not> is_change p) (sample_parts old_ab new_ac)))))) else None) = Some 2"
    by code_simp+
  show ?thesis using diff_rows_true [of sample_parts old_ab new_ac 4, OF h(1-3)] h(4) by metis
qed


section \<open>Previews and the cache of file bodies\<close>

record base_entry =
  be_key :: jsstr
  be_content :: jsstr
  be_bom :: jsstr
  be_lineEnding :: line_ending

definition BASE_CACHE_MAX_ENTRIES :: nat where "BASE_CACHE_MAX_ENTRIES = 2"

text \<open>The key joins the path and the decimal text of the modification time with a space.\<close>

definition baseCacheKey :: "jsstr \<Rightarrow> jsstr \<Rightarrow> jsstr" where
  "baseCacheKey path mtime = path @ [32] @ mtime"

definition getCachedBaseEntry :: "jsstr \<Rightarrow> base_entry list \<Rightarrow> base_entry list \<times> base_entry option" where
  "getCachedBaseEntry key cache =
     (case find (\<lambda>e. be_key e = key) cache of
        None \<Rightarrow> (cache, None)
      | Some e \<Rightarrow> (remove1 e cache @ [e], Some e))"

definition putCachedBase :: "base_entry \<Rightarrow> base_entry list \<Rightarrow> base_entry list" where
  "putCachedBase e cache =
     (let kept = (case find (\<lambda>x. be_key x = be_key e) cache of None \<Rightarrow> cache | Some x \<Rightarrow> remove1 x cache);
          pushed = kept @ [e]
      in drop (length pushed - BASE_CACHE_MAX_ENTRIES) pushed)"

definition getCachedBaseForEdit :: "jsstr \<Rightarrow> jsstr \<Rightarrow> base_entry list \<Rightarrow> base_entry list \<times> base_entry option" where
  "getCachedBaseForEdit path mtime cache = getCachedBaseEntry (baseCacheKey path mtime) cache"

definition base_of :: "jsstr \<Rightarrow> jsstr \<Rightarrow> base_entry" where
  "base_of key raw =
     (let (bom, text) = stripBom raw
      in \<lparr> be_key = key, be_content = normalizeToLF text, be_bom = bom, be_lineEnding = detectLineEnding text \<rparr>)"

definition putCachedBaseForEdit :: "jsstr \<Rightarrow> jsstr \<Rightarrow> jsstr \<Rightarrow> jsstr \<Rightarrow> line_ending \<Rightarrow> base_entry list \<Rightarrow> base_entry list" where
  "putCachedBaseForEdit path mtime content bom e cache =
     putCachedBase \<lparr> be_key = baseCacheKey path mtime, be_content = content, be_bom = bom, be_lineEnding = e \<rparr> cache"

definition diffFromNormalizedBase :: "(jsstr \<Rightarrow> jsstr) \<Rightarrow> (jsstr \<Rightarrow> bool) \<Rightarrow> (jsstr \<Rightarrow> jsstr \<Rightarrow> diff_part list)
    \<Rightarrow> jsstr \<Rightarrow> edit list \<Rightarrow> jsstr \<Rightarrow> jsstr + edit_diff" where
  "diffFromNormalizedBase nfkc mark diffLines content edits path =
     (case applyEditsToNormalizedContent nfkc mark content edits of
        Inl err \<Rightarrow> Inl (edit_message path err)
      | Inr (base, new) \<Rightarrow> Inr (generateDiffString diffLines base new 4))"

text \<open>What the file system answers during one preview: the access check, the modification time, and the reads.\<close>

record disk_view =
  dv_access :: "jsstr option"
  dv_stat :: "jsstr option"
  dv_read :: "jsstr + jsstr"
  dv_reread :: "jsstr + jsstr"

definition access_error :: "jsstr \<Rightarrow> jsstr \<Rightarrow> jsstr" where
  "access_error path err = js ''Could not edit file: '' @ path @ js ''. '' @ err @ js ''.''"

definition diff_of_raw :: "(jsstr \<Rightarrow> jsstr) \<Rightarrow> (jsstr \<Rightarrow> bool) \<Rightarrow> (jsstr \<Rightarrow> jsstr \<Rightarrow> diff_part list)
    \<Rightarrow> jsstr \<Rightarrow> edit list \<Rightarrow> jsstr + jsstr \<Rightarrow> jsstr + edit_diff" where
  "diff_of_raw nfkc mark diffLines path edits r =
     (case r of
        Inl err \<Rightarrow> Inl err
      | Inr raw \<Rightarrow> diffFromNormalizedBase nfkc mark diffLines (normalizeToLF (snd (stripBom raw))) edits path)"

definition computeEditsDiff :: "(jsstr \<Rightarrow> jsstr) \<Rightarrow> (jsstr \<Rightarrow> bool) \<Rightarrow> (jsstr \<Rightarrow> jsstr \<Rightarrow> diff_part list)
    \<Rightarrow> jsstr \<Rightarrow> edit list \<Rightarrow> disk_view \<Rightarrow> jsstr + edit_diff" where
  "computeEditsDiff nfkc mark diffLines path edits v =
     (case dv_access v of
        Some err \<Rightarrow> Inl (access_error path err)
      | None \<Rightarrow> diff_of_raw nfkc mark diffLines path edits (dv_read v))"

definition computeEditsDiffWithBaseCache :: "(jsstr \<Rightarrow> jsstr) \<Rightarrow> (jsstr \<Rightarrow> bool) \<Rightarrow> (jsstr \<Rightarrow> jsstr \<Rightarrow> diff_part list)
    \<Rightarrow> jsstr \<Rightarrow> jsstr \<Rightarrow> edit list \<Rightarrow> disk_view \<Rightarrow> base_entry list \<Rightarrow> base_entry list \<times> (jsstr + edit_diff)" where
  "computeEditsDiffWithBaseCache nfkc mark diffLines path absolutePath edits v cache =
     (case dv_access v of
        Some err \<Rightarrow> (cache, Inl (access_error path err))
      | None \<Rightarrow>
          (case dv_stat v of
             None \<Rightarrow> (cache, diff_of_raw nfkc mark diffLines path edits (dv_reread v))
           | Some mtime \<Rightarrow>
               (case getCachedBaseEntry (baseCacheKey absolutePath mtime) cache of
                  (cache', Some e) \<Rightarrow> (cache', diffFromNormalizedBase nfkc mark diffLines (be_content e) edits path)
                | (cache', None) \<Rightarrow>
                    (case dv_read v of
                       Inl err \<Rightarrow> (cache', diff_of_raw nfkc mark diffLines path edits (dv_reread v))
                     | Inr raw \<Rightarrow>
                         (putCachedBase (base_of (baseCacheKey absolutePath mtime) raw) cache',
                          diffFromNormalizedBase nfkc mark diffLines (be_content (base_of (baseCacheKey absolutePath mtime) raw)) edits path)))))"

text \<open>
  The steps that change the cache, for files whose bytes are determined by path and modification time
  (\<open>bytes\<close>): a preview, and the two places where the edit tool stores what it has read or written.
\<close>

definition view_of :: "(jsstr \<Rightarrow> jsstr \<Rightarrow> jsstr) \<Rightarrow> jsstr \<Rightarrow> disk_view \<Rightarrow> bool" where
  "view_of bytes path v \<longleftrightarrow>
     (\<forall>mtime. dv_stat v = Some mtime \<longrightarrow> 32 \<notin> set mtime \<and> dv_read v = Inr (bytes path mtime)) \<and> dv_reread v = dv_read v"

inductive cache_step :: "(jsstr \<Rightarrow> jsstr \<Rightarrow> jsstr) \<Rightarrow> base_entry list \<Rightarrow> base_entry list \<Rightarrow> bool" for bytes where
  preview: "view_of bytes absolutePath v \<Longrightarrow>
     computeEditsDiffWithBaseCache nfkc mark diffLines path absolutePath edits v cache = (cache', r) \<Longrightarrow> cache_step bytes cache cache'"
| stored: "32 \<notin> set mtime \<Longrightarrow> stripBom (bytes path mtime) = (bom, text) \<Longrightarrow>
     cache_step bytes cache (putCachedBaseForEdit path mtime (normalizeToLF text) bom (detectLineEnding text) cache)"
| looked_up: "getCachedBaseForEdit path mtime cache = (cache', r) \<Longrightarrow> cache_step bytes cache cache'"

inductive_cases cache_stepE: "cache_step bytes cache cache'"

definition cache_fresh :: "(jsstr \<Rightarrow> jsstr \<Rightarrow> jsstr) \<Rightarrow> base_entry list \<Rightarrow> bool" where
  "cache_fresh bytes cache \<longleftrightarrow> length cache \<le> BASE_CACHE_MAX_ENTRIES
     \<and> (\<forall>e \<in> set cache. \<exists>path mtime. 32 \<notin> set mtime \<and> e = base_of (baseCacheKey path mtime) (bytes path mtime))"

lemma key_inj:
  assumes "baseCacheKey p m = baseCacheKey p' m'" "32 \<notin> set m" "32 \<notin> set m'"
  shows "p = p' \<and> m = m'"
proof -
  have "rev m @ 32 # rev p = rev m' @ 32 # rev p'" using arg_cong [OF assms(1), of rev] by (simp add: baseCacheKey_def)
  then have "takeWhile (\<lambda>c. c \<noteq> 32) (rev m @ 32 # rev p) = takeWhile (\<lambda>c. c \<noteq> 32) (rev m' @ 32 # rev p')" by simp
  then have "rev m = rev m'"
    using assms(2,3) by (subst (asm) (1 2) takeWhile_append2) auto
  then show ?thesis using assms(1) by (simp add: baseCacheKey_def)
qed

lemma base_of_key [simp]: "be_key (base_of key raw) = key"
  by (simp add: base_of_def split: prod.split)

lemma set_move: "e \<in> set c \<Longrightarrow> set (remove1 e c @ [e]) = set c"
  by (induction c) auto

lemma get_cached:
  assumes "getCachedBaseEntry key cache = (cache', r)"
  shows "set cache' = set cache \<and> length cache' = length cache \<and> (\<forall>e. r = Some e \<longrightarrow> e \<in> set cache \<and> be_key e = key)"
proof (cases "find (\<lambda>e. be_key e = key) cache")
  case None
  then show ?thesis using assms by (simp add: getCachedBaseEntry_def)
next
  case (Some e)
  then have e: "e \<in> set cache" "be_key e = key" by (auto simp: find_Some_iff)
  have c: "cache' = remove1 e cache @ [e]" "r = Some e" using assms Some by (simp_all add: getCachedBaseEntry_def)
  have "length cache' = length cache" unfolding c(1) using e(1) length_pos_if_in_set [OF e(1)] by (simp add: length_remove1)
  moreover have "set cache' = set cache" unfolding c(1) by (rule set_move [OF e(1)])
  ultimately show ?thesis using e c(2) by simp
qed

lemma put_cached: "length (putCachedBase e cache) \<le> BASE_CACHE_MAX_ENTRIES \<and> set (putCachedBase e cache) \<subseteq> insert e (set cache)"
proof -
  define kept where "kept = (case find (\<lambda>x. be_key x = be_key e) cache of None \<Rightarrow> cache | Some x \<Rightarrow> remove1 x cache)"
  have p: "putCachedBase e cache = drop (length (kept @ [e]) - BASE_CACHE_MAX_ENTRIES) (kept @ [e])"
    by (simp add: putCachedBase_def kept_def Let_def)
  have "set kept \<subseteq> set cache" by (auto simp: kept_def dest: subsetD [OF set_remove1_subset] split: option.splits)
  then have "set (kept @ [e]) \<subseteq> insert e (set cache)" by auto
  then have "set (putCachedBase e cache) \<subseteq> insert e (set cache)" unfolding p by (meson set_drop_subset subset_trans)
  then show ?thesis unfolding p by simp
qed

lemma fresh_put:
  assumes "cache_fresh bytes cache" "32 \<notin> set mtime"
  shows "cache_fresh bytes (putCachedBase (base_of (baseCacheKey path mtime) (bytes path mtime)) cache)"
proof -
  let ?e = "base_of (baseCacheKey path mtime) (bytes path mtime)"
  have "length (putCachedBase ?e cache) \<le> BASE_CACHE_MAX_ENTRIES" "set (putCachedBase ?e cache) \<subseteq> insert ?e (set cache)"
    using put_cached by simp_all
  then show ?thesis using assms unfolding cache_fresh_def by blast
qed

lemma fresh_get:
  assumes "cache_fresh bytes cache" "getCachedBaseEntry key cache = (cache', r)"
  shows "cache_fresh bytes cache'"
  using assms get_cached [OF assms(2)] by (simp add: cache_fresh_def)

lemma fresh_hit:
  assumes "cache_fresh bytes cache" "getCachedBaseEntry (baseCacheKey path mtime) cache = (cache', Some e)" "32 \<notin> set mtime"
  shows "e = base_of (baseCacheKey path mtime) (bytes path mtime)"
proof -
  have e: "e \<in> set cache" "be_key e = baseCacheKey path mtime" using get_cached [OF assms(2)] by simp_all
  then obtain p m where "32 \<notin> set m" "e = base_of (baseCacheKey p m) (bytes p m)"
    using assms(1) unfolding cache_fresh_def by blast
  then show ?thesis using e(2) key_inj [of p m path mtime] assms(3) by simp
qed

lemma cached_preview:
  assumes fresh: "cache_fresh bytes cache" and view: "view_of bytes absolutePath v"
    and run: "computeEditsDiffWithBaseCache nfkc mark diffLines path absolutePath edits v cache = (cache', r)"
  shows "cache_fresh bytes cache' \<and> (dv_access v \<noteq> None \<or> r = computeEditsDiff nfkc mark diffLines path edits v)"
proof (cases "dv_access v = None \<and> dv_stat v \<noteq> None")
  case False
  then show ?thesis using fresh run view
    by (auto simp: computeEditsDiffWithBaseCache_def computeEditsDiff_def view_of_def split: option.splits)
next
  case True
  then obtain mtime where m: "dv_stat v = Some mtime" "32 \<notin> set mtime" "dv_read v = Inr (bytes absolutePath mtime)"
    using view by (auto simp: view_of_def)
  let ?key = "baseCacheKey absolutePath mtime"
  obtain c g where g: "getCachedBaseEntry ?key cache = (c, g)" by fastforce
  have body: "be_content (base_of ?key raw) = normalizeToLF (snd (stripBom raw))" for raw
    by (simp add: base_of_def split: prod.split)
  show ?thesis
  proof (cases g)
    case None
    have "cache' = putCachedBase (base_of ?key (bytes absolutePath mtime)) c"
        "r = computeEditsDiff nfkc mark diffLines path edits v"
      using run True m g None body
      by (auto simp: computeEditsDiffWithBaseCache_def computeEditsDiff_def diff_of_raw_def)
    then show ?thesis using fresh_put [OF fresh_get [OF fresh g] m(2)] by simp
  next
    case (Some e)
    have "e = base_of ?key (bytes absolutePath mtime)" using fresh_hit [OF fresh] g m(2) Some by blast
    then have "cache' = c" "r = computeEditsDiff nfkc mark diffLines path edits v"
      using run True m g Some body
      by (auto simp: computeEditsDiffWithBaseCache_def computeEditsDiff_def diff_of_raw_def)
    then show ?thesis using fresh_get [OF fresh g] by simp
  qed
qed

lemma cache_step_fresh: "cache_step bytes cache cache' \<Longrightarrow> cache_fresh bytes cache \<Longrightarrow> cache_fresh bytes cache'"
proof (erule cache_stepE)
  fix absolutePath v nfkc mark diffLines path edits r
  assume "cache_fresh bytes cache" "view_of bytes absolutePath v"
    "computeEditsDiffWithBaseCache nfkc mark diffLines path absolutePath edits v cache = (cache', r)"
  then show "cache_fresh bytes cache'" using cached_preview by blast
next
  fix mtime path bom "text"
  assume f: "cache_fresh bytes cache" and m: "32 \<notin> set mtime" and s: "stripBom (bytes path mtime) = (bom, text)"
    and c: "cache' = putCachedBaseForEdit path mtime (normalizeToLF text) bom (detectLineEnding text) cache"
  have "cache' = putCachedBase (base_of (baseCacheKey path mtime) (bytes path mtime)) cache"
    using c s by (simp add: putCachedBaseForEdit_def base_of_def)
  then show "cache_fresh bytes cache'" using fresh_put [OF f m] by simp
next
  fix path mtime r
  assume "cache_fresh bytes cache" "getCachedBaseForEdit path mtime cache = (cache', r)"
  then show "cache_fresh bytes cache'" using fresh_get by (simp add: getCachedBaseForEdit_def)
qed

interpretation base_cache: transition_system "\<lambda>c. c = []" "cache_step bytes" "cache_fresh bytes" for bytes
proof unfold_locales
  show "s = [] \<Longrightarrow> cache_fresh bytes s" for s by (simp add: cache_fresh_def)
qed (rule cache_step_fresh)

text \<open>The cached preview is the uncached one. Whatever previews and edits have filled the cache, as long as a path
  and a modification time determine a file's bytes, the preview computed with the cache is the one computed
  by reading the file again, and the cache holds at most two bodies.
\<close>

theorem cached_preview_exact:
  assumes "(cache_step bytes)\<^sup>*\<^sup>* [] cache" and "view_of bytes absolutePath v"
  shows "snd (computeEditsDiffWithBaseCache nfkc mark diffLines path absolutePath edits v cache)
      = computeEditsDiff nfkc mark diffLines path edits v \<and> length cache \<le> BASE_CACHE_MAX_ENTRIES"
proof -
  obtain cache' r where r: "computeEditsDiffWithBaseCache nfkc mark diffLines path absolutePath edits v cache = (cache', r)" by fastforce
  have f: "cache_fresh bytes cache" by (rule base_cache.inv_reach [OF assms(1) refl])
  have "dv_access v \<noteq> None \<Longrightarrow> r = computeEditsDiff nfkc mark diffLines path edits v"
    using r by (auto simp: computeEditsDiffWithBaseCache_def computeEditsDiff_def)
  then have "r = computeEditsDiff nfkc mark diffLines path edits v" using cached_preview [OF f assms(2) r] by blast
  then show ?thesis using r f by (simp add: cache_fresh_def)
qed

definition sample_bytes :: "jsstr \<Rightarrow> jsstr \<Rightarrow> jsstr" where
  "sample_bytes path mtime = path @ mtime"

definition sample_view :: disk_view where
  "sample_view = \<lparr> dv_access = None, dv_stat = Some [49], dv_read = Inr [97, 49], dv_reread = Inr [97, 49] \<rparr>"

lemma cached_preview_exact_witness:
  "snd (computeEditsDiffWithBaseCache id (\<lambda>m. False) sample_parts [97] [97] [] sample_view
      [base_of (baseCacheKey [97] [49]) (sample_bytes [97] [49])])
    = computeEditsDiff id (\<lambda>m. False) sample_parts [97] [] sample_view"
proof -
  let ?c = "[base_of (baseCacheKey [97] [49]) (sample_bytes [97] [49])]"
  have "cache_step sample_bytes [] (putCachedBaseForEdit [97] [49] (normalizeToLF [97, 49]) [] (detectLineEnding [97, 49]) [])"
    by (rule stored) (simp_all add: sample_bytes_def stripBom_def)
  moreover have "putCachedBaseForEdit [97] [49] (normalizeToLF [97, 49]) [] (detectLineEnding [97, 49]) [] = ?c" by code_simp
  ultimately have c: "(cache_step sample_bytes)\<^sup>*\<^sup>* [] ?c" by auto
  have v: "view_of sample_bytes [97] sample_view" by (simp add: view_of_def sample_view_def sample_bytes_def)
  show ?thesis using cached_preview_exact [OF c v, of id "\<lambda>m. False" sample_parts "[97]" "[]"] by blast
qed

end
