(* ===== verification/ToolRules.thy ===== *)
theory ToolRules
  imports EditText
begin

text \<open>
  The two rule registries around a tool call (agent/src/tool-rewrite-registry.ts, tool-error-hint-registry.ts,
  tool-rule-utils.ts, append-annotated-content.ts): rewriting or rejecting the arguments before the call, and
  adding hints to a failed result after it. A value of JSON is a tree over the atoms \<open>'x\<close> (numbers, booleans,
  null), about which nothing is assumed.
\<close>


section \<open>Calls and results\<close>

datatype 'x json = JString jsstr | JArray "'x json list" | JObject "(jsstr \<times> 'x json) list" | JAtom 'x

record 'x tool_call =
  tc_id :: jsstr
  tc_name :: jsstr
  tc_arguments :: "'x json"

datatype block = TextBlock jsstr | ImageBlock jsstr

record 'x tool_result =
  tr_content :: "block list"
  tr_details :: "'x json option"
  tr_terminate :: "bool option"
  tr_isError :: "bool option"


section \<open>Rewrite rules\<close>

datatype applies_to = ToTool jsstr | ToTools "jsstr list"

definition ruleAppliesTo :: "applies_to \<Rightarrow> jsstr \<Rightarrow> bool" where
  "ruleAppliesTo a toolName =
     (case a of
        ToTool n \<Rightarrow> n = js ''*'' \<or> n = toolName
      | ToTools ns \<Rightarrow> toolName \<in> set ns)"

datatype 'x rewrite_action =
    AutoRewrite "'x tool_call \<Rightarrow> 'x tool_call"
  | SuggestInstead "'x tool_call \<Rightarrow> jsstr"
  | BlockCall "'x tool_call \<Rightarrow> jsstr"

record 'x rewrite_rule =
  rr_id :: jsstr
  rr_appliesTo :: applies_to
  rr_matcher :: "'x tool_call \<Rightarrow> bool"
  rr_action :: "'x rewrite_action"

datatype 'x rewrite_outcome =
    Passed "'x tool_call"
  | Rewritten "'x tool_call" "jsstr list"
  | Rejected jsstr jsstr

definition MAX_AUTO_CHAIN :: nat where "MAX_AUTO_CHAIN = 8"

definition findMatch :: "'x rewrite_rule list \<Rightarrow> 'x tool_call \<Rightarrow> jsstr list \<Rightarrow> 'x rewrite_rule option" where
  "findMatch rules call skip =
     find (\<lambda>r. rr_id r \<notin> set skip \<and> ruleAppliesTo (rr_appliesTo r) (tc_name call) \<and> rr_matcher r call) rules"

text \<open>The chain with \<open>n\<close> rounds left; \<open>applied\<close> lists the rules that have fired, which are skipped.\<close>

fun apply_rules :: "nat \<Rightarrow> 'x rewrite_rule list \<Rightarrow> 'x tool_call \<Rightarrow> jsstr list \<Rightarrow> 'x rewrite_outcome" where
  "apply_rules 0 rules call applied = (if applied = [] then Passed call else Rewritten call applied)"
| "apply_rules (Suc n) rules call applied =
     (case findMatch rules call applied of
        None \<Rightarrow> if applied = [] then Passed call else Rewritten call applied
      | Some r \<Rightarrow>
          (case rr_action r of
             SuggestInstead msg \<Rightarrow> Rejected (msg call) (rr_id r)
           | BlockCall reason \<Rightarrow> Rejected (reason call) (rr_id r)
           | AutoRewrite f \<Rightarrow> apply_rules n rules (f call) (applied @ [rr_id r])))"

definition rewrite_call :: "'x rewrite_rule list \<Rightarrow> 'x tool_call \<Rightarrow> 'x rewrite_outcome" where
  "rewrite_call rules call = apply_rules MAX_AUTO_CHAIN rules call []"

text \<open>What the registry documents of its rules: an automatic rewrite changes the arguments only.\<close>

definition args_only :: "'x rewrite_rule list \<Rightarrow> bool" where
  "args_only rules \<longleftrightarrow> (\<forall>r \<in> set rules. case rr_action r of
     AutoRewrite f \<Rightarrow> (\<forall>c. tc_id (f c) = tc_id c \<and> tc_name (f c) = tc_name c) | _ \<Rightarrow> True)"

lemma findMatch_Some:
  "findMatch rules call skip = Some r \<Longrightarrow> r \<in> set rules \<and> rr_id r \<notin> set skip \<and> rr_matcher r call \<and> ruleAppliesTo (rr_appliesTo r) (tc_name call)"
  by (auto simp: findMatch_def find_Some_iff)

lemma apply_rules_bounds:
  "distinct applied \<Longrightarrow>
     (case apply_rules n rules call applied of
        Passed c \<Rightarrow> applied = [] \<and> c = call
      | Rewritten c ids \<Rightarrow> distinct ids \<and> length ids \<le> length applied + n \<and> set ids \<subseteq> set applied \<union> rr_id ` set rules
          \<and> (args_only rules \<longrightarrow> tc_id c = tc_id call \<and> tc_name c = tc_name call)
      | Rejected e i \<Rightarrow> i \<in> rr_id ` set rules)"
proof (induction n rules call applied rule: apply_rules.induct)
  case (2 n rules call applied)
  show ?case
  proof (cases "findMatch rules call applied")
    case (Some r)
    have r: "r \<in> set rules" "rr_id r \<notin> set applied" using findMatch_Some [OF Some] by simp_all
    show ?thesis
    proof (cases "rr_action r")
      case (AutoRewrite f)
      have "args_only rules \<longrightarrow> tc_id (f call) = tc_id call \<and> tc_name (f call) = tc_name call"
        using r(1) AutoRewrite by (auto simp: args_only_def split: rewrite_action.splits)
      moreover have "distinct (applied @ [rr_id r])" using "2.prems" r by simp
      ultimately show ?thesis using "2.IH" [OF Some AutoRewrite] Some AutoRewrite r(1)
        by (auto split: rewrite_outcome.splits)
    qed (use Some r in auto)
  qed (use 2 in auto)
qed auto


section \<open>Hints\<close>

record 'x hint_rule =
  hr_id :: jsstr
  hr_appliesTo :: applies_to
  hr_matcher :: "'x tool_call \<Rightarrow> 'x tool_result \<Rightarrow> jsstr \<Rightarrow> bool option"
  hr_hint :: "'x tool_call \<Rightarrow> 'x tool_result \<Rightarrow> jsstr \<Rightarrow> jsstr option"

definition extractErrorText :: "'x tool_result \<Rightarrow> jsstr" where
  "extractErrorText result =
     join newline (concat (map (\<lambda>b. case b of TextBlock t \<Rightarrow> [t] | ImageBlock d \<Rightarrow> []) (tr_content result)))"

text \<open>One rule: a matcher or a hint function that throws (\<open>None\<close>) is skipped, as are blank and repeated hints.\<close>

definition fire_hint :: "'x tool_call \<Rightarrow> 'x tool_result \<Rightarrow> 'x hint_rule \<Rightarrow> (jsstr \<times> jsstr) list \<Rightarrow> (jsstr \<times> jsstr) list" where
  "fire_hint call result r hints =
     (if ruleAppliesTo (hr_appliesTo r) (tc_name call) \<and> hr_matcher r call result (extractErrorText result) = Some True
      then (case hr_hint r call result (extractErrorText result) of
              None \<Rightarrow> hints
            | Some t \<Rightarrow> if trim t = [] \<or> trim t \<in> snd ` set hints then hints else hints @ [(hr_id r, trim t)])
      else hints)"

definition hints_for :: "'x hint_rule list \<Rightarrow> 'x tool_call \<Rightarrow> 'x tool_result \<Rightarrow> (jsstr \<times> jsstr) list" where
  "hints_for rules call result = fold (fire_hint call result) rules []"

text \<open>The annotated lines go to the last text block, once; without one a new block holds them.\<close>

fun annotate_last :: "jsstr \<Rightarrow> jsstr \<Rightarrow> block list \<Rightarrow> block list option" where
  "annotate_last key suffix [] = None"
| "annotate_last key suffix (b # bs) =
     (case annotate_last key suffix bs of
        Some bs' \<Rightarrow> Some (b # bs')
      | None \<Rightarrow> (case b of
                   TextBlock t \<Rightarrow> Some ((if str_index t key 0 \<noteq> None then TextBlock t else TextBlock (t @ suffix)) # bs)
                 | ImageBlock d \<Rightarrow> None))"

definition appendAnnotatedLinesToContent :: "block list \<Rightarrow> jsstr list \<Rightarrow> jsstr \<Rightarrow> jsstr \<Rightarrow> block list" where
  "appendAnnotatedLinesToContent content lines prefix key =
     (if lines = [] then content
      else
        let suffix = newline @ newline @ join newline (map (\<lambda>l. prefix @ l) lines)
        in case annotate_last key suffix content of
             Some bs \<Rightarrow> bs
           | None \<Rightarrow> content @ [TextBlock (trimStart suffix)])"

definition appendHintsToContent :: "block list \<Rightarrow> (jsstr \<times> jsstr) list \<Rightarrow> block list" where
  "appendHintsToContent content hints =
     (if hints = [] then content
      else appendAnnotatedLinesToContent content (map snd hints) (js ''[hint] '') (js ''[hint] '' @ snd (hd hints)))"

definition appendRepairNoteToContent :: "block list \<Rightarrow> jsstr \<Rightarrow> block list" where
  "appendRepairNoteToContent content note =
     appendAnnotatedLinesToContent content [note] (js ''[repair] '') (js ''[repair] '' @ note)"


section \<open>Hints only add\<close>

text \<open>A list of blocks grows: each block stays or its text is continued, and at most one block is new.\<close>

definition grows :: "block list \<Rightarrow> block list \<Rightarrow> bool" where
  "grows bs bs' \<longleftrightarrow> (\<exists>cs ds. bs' = cs @ ds \<and> length ds \<le> 1 \<and>
     list_all2 (\<lambda>b c. c = b \<or> (\<exists>t s. b = TextBlock t \<and> c = TextBlock (t @ s))) bs cs)"

lemma annotate_last_grows:
  "annotate_last key suffix bs = Some bs' \<Longrightarrow>
     list_all2 (\<lambda>b c. c = b \<or> (\<exists>t s. b = TextBlock t \<and> c = TextBlock (t @ s))) bs bs'"
proof (induction bs arbitrary: bs')
  case (Cons b bs)
  have refl: "list_all2 (\<lambda>b c. c = b \<or> (\<exists>t s. b = TextBlock t \<and> c = TextBlock (t @ s))) bs bs"
    by (rule list_all2_refl) simp
  show ?case
  proof (cases "annotate_last key suffix bs")
    case None
    then obtain t where "b = TextBlock t" using Cons.prems by (cases b) simp_all
    then show ?thesis using Cons.prems None refl by (auto split: if_splits)
  next
    case (Some cs)
    then show ?thesis using Cons by auto
  qed
qed simp

lemma annotated_grows: "grows content (appendAnnotatedLinesToContent content lines prefix key)"
proof -
  have refl: "list_all2 (\<lambda>b c. c = b \<or> (\<exists>t s. b = TextBlock t \<and> c = TextBlock (t @ s))) content content"
    by (rule list_all2_refl) simp
  show ?thesis
  proof (cases "lines = []")
    case True
    then show ?thesis unfolding grows_def appendAnnotatedLinesToContent_def
      using refl by (intro exI [of _ content] exI [of _ "[]"]) simp
  next
    case False
    define suffix where "suffix = newline @ newline @ join newline (map (\<lambda>l. prefix @ l) lines)"
    have a: "appendAnnotatedLinesToContent content lines prefix key =
        (case annotate_last key suffix content of Some bs \<Rightarrow> bs | None \<Rightarrow> content @ [TextBlock (trimStart suffix)])"
      unfolding appendAnnotatedLinesToContent_def Let_def suffix_def using False by simp
    show ?thesis
    proof (cases "annotate_last key suffix content")
      case None
      then show ?thesis unfolding a grows_def
        using refl by (intro exI [of _ content] exI [of _ "[TextBlock (trimStart suffix)]"]) simp
    next
      case (Some bs)
      then show ?thesis unfolding a grows_def
        using annotate_last_grows [OF Some] by (intro exI [of _ bs] exI [of _ "[]"]) simp
    qed
  qed
qed

definition hints_ok :: "jsstr set \<Rightarrow> (jsstr \<times> jsstr) list \<Rightarrow> bool" where
  "hints_ok ids hints \<longleftrightarrow> distinct (map snd hints) \<and> (\<forall>h \<in> set hints. snd h \<noteq> [] \<and> fst h \<in> ids)"

lemma fire_hint_ok: "hints_ok ids hints \<Longrightarrow> hr_id r \<in> ids \<Longrightarrow> hints_ok ids (fire_hint call result r hints)"
  by (auto simp: fire_hint_def hints_ok_def split: option.split)

lemma hints_for_ok: "hints_ok (hr_id ` set rules) (hints_for rules call result)"
proof -
  have "set rs \<subseteq> set rules \<Longrightarrow> hints_ok (hr_id ` set rules) hints \<Longrightarrow>
      hints_ok (hr_id ` set rules) (fold (fire_hint call result) rs hints)" for rs hints
    by (induction rs arbitrary: hints) (simp_all add: fire_hint_ok)
  from this [of rules "[]"] show ?thesis by (simp add: hints_for_def hints_ok_def)
qed


lemma find_at_infix: "find_at key i (xs @ key @ ys) \<noteq> None"
proof (induction xs arbitrary: i)
  case Nil
  then show ?case by (cases key; cases ys) auto
qed simp

lemma includes_infix: "str_index (xs @ key @ ys) key 0 \<noteq> None"
  using find_at_infix [of key 0 xs ys] by (simp add: str_index_def)

lemma annotate_last_again:
  "annotate_last key (a @ key @ b) bs = Some bs' \<Longrightarrow> annotate_last key (a @ key @ b) bs' = Some bs'"
proof (induction bs arbitrary: bs')
  case (Cons x bs)
  show ?case
  proof (cases "annotate_last key (a @ key @ b) bs")
    case None
    then obtain t where t: "x = TextBlock t" using Cons.prems by (cases x) simp_all
    have "str_index (t @ a @ key @ b) key 0 \<noteq> None" using includes_infix [of "t @ a" key b] by simp
    then show ?thesis using Cons.prems None t by (auto split: if_splits)
  qed (use Cons in auto)
qed simp

lemma annotate_last_text: "annotate_last key suffix bs = None \<Longrightarrow>
    annotate_last key suffix (bs @ [TextBlock t]) = Some (bs @ [TextBlock (if str_index t key 0 \<noteq> None then t else t @ suffix)])"
  by (induction bs) (auto split: option.splits block.splits)

lemma join_starts: "ls \<noteq> [] \<Longrightarrow> \<exists>zs. join sep ls = hd ls @ zs"
  by (induction sep ls rule: join.induct) auto

lemma appendHints_again:
  "appendHintsToContent (appendHintsToContent content hints) hints = appendHintsToContent content hints"
proof (cases hints)
  case (Cons h hs)
  define prefix where "prefix = js ''[hint] ''"
  define key where "key = prefix @ snd h"
  obtain zs where zs: "join newline (map (\<lambda>l. prefix @ l) (map snd hints)) = key @ zs"
    using join_starts [of "map (\<lambda>l. prefix @ l) (map snd hints)" newline] Cons by (auto simp: key_def)
  have a: "appendHintsToContent c hints =
      (case annotate_last key (newline @ newline @ key @ zs) c of Some bs \<Rightarrow> bs
       | None \<Rightarrow> c @ [TextBlock (trimStart (newline @ newline @ key @ zs))])" for c
    using Cons zs by (simp add: appendHintsToContent_def appendAnnotatedLinesToContent_def Let_def flip: prefix_def)
      (simp add: key_def)
  have trimmed: "trimStart (newline @ newline @ key @ zs) = key @ zs"
    by (simp add: trimStart_def newline_def key_def prefix_def js_def is_ws_def)
  have found: "str_index (key @ zs) key 0 \<noteq> None" using includes_infix [of "[]" key zs] by simp
  show ?thesis
  proof (cases "annotate_last key (newline @ newline @ key @ zs) content")
    case None
    then show ?thesis unfolding a using trimmed found by (simp add: annotate_last_text)
  next
    case (Some bs)
    then show ?thesis unfolding a using annotate_last_again [of key "newline @ newline" zs content bs] by simp
  qed
qed (simp add: appendHintsToContent_def)

lemma apply_rules_fired: "applied \<noteq> [] \<Longrightarrow> apply_rules n rules call applied \<noteq> Passed c"
  by (induction n arbitrary: call applied) (auto split: option.split rewrite_action.split)

lemma apply_rules_exhausted:
  "case apply_rules n rules call applied of
     Passed c \<Rightarrow> n = 0 \<or> findMatch rules call applied = None
   | Rewritten c ids \<Rightarrow> length ids = length applied + n \<or> findMatch rules c ids = None
   | Rejected e i \<Rightarrow> True"
proof (induction n rules call applied rule: apply_rules.induct)
  case (2 n rules call applied)
  show ?case
  proof (cases "findMatch rules call applied")
    case (Some r)
    then show ?thesis
    proof (cases "rr_action r")
      case (AutoRewrite f)
      then show ?thesis using "2.IH" [OF Some AutoRewrite] Some by (auto simp: apply_rules_fired split: rewrite_outcome.splits)
    qed (auto simp: Some)
  qed auto
qed auto


section \<open>Properties\<close>

text \<open>Rewriting a call ends after at most eight rules, none of which fires twice; it keeps the call's id and tool,
  so its result still pairs with it; a call passed on unchanged matches no rule, and a rewritten one matches
  none that has not fired, unless the chain reached its bound; a rejection names a registered rule.
\<close>

theorem rewrite_is_bounded:
  assumes "args_only rules"
  shows "case rewrite_call rules call of
      Passed c \<Rightarrow> c = call \<and> findMatch rules call [] = None
    | Rewritten c ids \<Rightarrow> distinct ids \<and> length ids \<le> 8 \<and> set ids \<subseteq> rr_id ` set rules
        \<and> tc_id c = tc_id call \<and> tc_name c = tc_name call \<and> (length ids = 8 \<or> findMatch rules c ids = None)
    | Rejected err i \<Rightarrow> i \<in> rr_id ` set rules"
  using assms apply_rules_bounds [where applied = "[]" and n = 8 and rules = rules and call = call]
    apply_rules_exhausted [where applied = "[]" and n = 8 and rules = rules and call = call]
  by (simp add: rewrite_call_def MAX_AUTO_CHAIN_def split: rewrite_outcome.splits)

text \<open>Hints only add to a failed result: every block stays or its text is continued, at most one block is new; the
  hints are distinct, not blank, and come from registered rules; and adding them again changes nothing.
\<close>

theorem hints_only_add:
  "grows (tr_content r) (appendHintsToContent (tr_content r) (hints_for rules call r))
     \<and> distinct (map snd (hints_for rules call r)) \<and> [] \<notin> snd ` set (hints_for rules call r)
     \<and> fst ` set (hints_for rules call r) \<subseteq> hr_id ` set rules
     \<and> appendHintsToContent (appendHintsToContent (tr_content r) (hints_for rules call r)) (hints_for rules call r)
        = appendHintsToContent (tr_content r) (hints_for rules call r)"
proof -
  have "grows bs bs" for bs
    using annotated_grows [of bs "[]" "[]" "[]"] by (simp add: appendAnnotatedLinesToContent_def)
  then have "grows (tr_content r) (appendHintsToContent (tr_content r) (hints_for rules call r))"
    by (simp add: appendHintsToContent_def annotated_grows)
  then show ?thesis using hints_for_ok [of rules call r] appendHints_again by (auto simp: hints_ok_def)
qed


section \<open>Witnesses\<close>

definition demo_rule :: "nat rewrite_rule" where
  "demo_rule =
     \<lparr> rr_id = js ''bash.trim'', rr_appliesTo = ToTools [js ''bash''], rr_matcher = (\<lambda>c. True),
       rr_action = AutoRewrite (\<lambda>c. c\<lparr>tc_arguments := JAtom 1\<rparr>) \<rparr>"

definition demo_call :: "jsstr \<Rightarrow> jsstr \<Rightarrow> nat tool_call" where
  "demo_call i n = \<lparr> tc_id = i, tc_name = n, tc_arguments = JAtom 0 \<rparr>"

lemma demo_rules_ok: "args_only [demo_rule]"
  by (simp add: args_only_def demo_rule_def)

lemma demo_rewrite: "rewrite_call [demo_rule] (demo_call [1] (js ''bash'')) =
    Rewritten \<lparr> tc_id = [1], tc_name = js ''bash'', tc_arguments = JAtom 1 \<rparr> [js ''bash.trim'']"
  by (simp add: rewrite_call_def MAX_AUTO_CHAIN_def eval_nat_numeral findMatch_def demo_rule_def demo_call_def ruleAppliesTo_def)

theorem rewrite_is_bounded_witness:
  "findMatch [demo_rule] \<lparr> tc_id = [1], tc_name = js ''bash'', tc_arguments = JAtom 1 \<rparr> [js ''bash.trim''] = None"
  using rewrite_is_bounded [OF demo_rules_ok, of "demo_call [1] (js ''bash'')"]
  unfolding demo_rewrite rewrite_outcome.case
  by (simp add: demo_rule_def)

end
