(* ===== verification/ToolExec.thy ===== *)
theory ToolExec
  imports ToolRules
begin

text \<open>
  Executing the tool calls of one assistant message (agent/src/agent-loop.ts, from \<open>executeToolCalls\<close> on):
  the preparation of a call with its guards, the execution, the hooks after it, and the three executors
  (sequential, parallel, partitioned) with their unwinding when a listener throws.

  Events are a trace. A listener may throw on any event (\<open>te_throws\<close>), a hook, a tool, a rule or a validator
  may do what it likes, the run may be aborted after any call, and the calls that run concurrently interleave
  by an arbitrary schedule: all of these are fields of the environment.
\<close>


section \<open>Messages and events\<close>

datatype 'x part = TextPart jsstr | ThinkingPart jsstr | CallPart "'x tool_call"

record 'x assistant =
  am_content :: "'x part list"
  am_model :: jsstr
  am_stopReason :: jsstr
  am_errorMessage :: "jsstr option"

record 'x result_message =
  rm_toolCallId :: jsstr
  rm_toolName :: jsstr
  rm_content :: "block list"
  rm_details :: "'x json option"
  rm_isError :: bool
  rm_timestamp :: int

text \<open>\<open>GuardAbortMsg\<close> is the partial message a stream guard cut off, marked so that nobody keeps it.\<close>

datatype 'x message =
    AssistantMsg "'x assistant"
  | ToolResultMsg "'x result_message"
  | OtherMsg "'x json"
  | GuardAbortMsg "'x assistant"

datatype delta_kind = TextDelta | ThinkingDelta | ToolcallDelta

datatype boundary_kind = TextStart | TextEnd | ThinkingStart | ThinkingEnd | ToolcallStart | ToolcallEnd

datatype update = DeltaUpdate delta_kind nat jsstr | BoundaryUpdate boundary_kind nat

datatype 'x event =
    AgentStart
  | AgentEnd "'x message list"
  | TurnStart
  | TurnEnd "'x message" "'x result_message list"
  | MessageStart "'x message"
  | MessageUpdate update "'x assistant"
  | MessageEnd "'x message"
  | ToolStart jsstr jsstr "'x json"
  | ToolUpdate jsstr jsstr "'x json" "'x tool_result"
  | ToolEnd jsstr jsstr "'x tool_result" bool
  | CallRewritten jsstr jsstr "jsstr list" "'x json"
  | CallRejected jsstr jsstr jsstr jsstr
  | HintApplied jsstr jsstr "(jsstr \<times> jsstr) list"


section \<open>Actions: a trace and a value or an error\<close>

type_synonym ('x, 'a) act = "'x event list \<times> (jsstr + 'a)"

definition return_act :: "'a \<Rightarrow> ('x, 'a) act" where
  "return_act a = ([], Inr a)"

definition then_act :: "('x, 'a) act \<Rightarrow> ('a \<Rightarrow> ('x, 'b) act) \<Rightarrow> ('x, 'b) act" where
  "then_act m f = (case m of
     (es, Inl err) \<Rightarrow> (es, Inl err)
   | (es, Inr a) \<Rightarrow> (case f a of (es', r) \<Rightarrow> (es @ es', r)))"


section \<open>The environment\<close>

record 'x agent_tool =
  at_name :: jsstr
  at_sequential :: bool
  at_mutationGuard :: bool
  at_prepareArguments :: "('x json \<Rightarrow> jsstr + 'x json) option"
  at_execute :: "jsstr \<Rightarrow> 'x json \<Rightarrow> 'x tool_result list \<times> (jsstr \<times> 'x json option + 'x tool_result)"

text \<open>
  What the hook before a call does: throw, or answer whether to block the call, with a reason, whether a change of
  the arguments was flagged, and the arguments as it leaves them. The tracking proxy flags writes to the top
  level of the arguments only, so they may have changed below it without a flag.
\<close>

datatype 'x before_outcome =
    BeforeThrows jsstr
  | BeforeDone bool "jsstr option" bool "'x json"

record 'x after_result =
  ar_content :: "block list option"
  ar_details :: "'x json option"
  ar_terminate :: "bool option"
  ar_isError :: "bool option"

record 'x tool_env =
  te_tools :: "'x agent_tool list"
  te_sequential :: bool
  te_partitionDisabled :: bool
  te_throws :: "'x event \<Rightarrow> jsstr option"
  te_unknownText :: "jsstr \<Rightarrow> jsstr list \<Rightarrow> jsstr"
  te_rewriteRules :: "'x rewrite_rule list option"
  te_repair :: "'x json \<Rightarrow> 'x agent_tool \<Rightarrow> 'x json"
  te_validate :: "'x agent_tool \<Rightarrow> 'x tool_call \<Rightarrow> jsstr + 'x json"
  te_before :: "('x tool_call \<Rightarrow> 'x json \<Rightarrow> 'x before_outcome) option"
  te_abortedInHook :: "'x tool_call \<Rightarrow> bool"
  te_repairNote :: "('x json \<Rightarrow> 'x json \<Rightarrow> jsstr option) option"
  te_abortWins :: "'x tool_call \<Rightarrow> bool"
  te_hintRules :: "'x hint_rule list option"
  te_after :: "('x tool_call \<Rightarrow> 'x json \<Rightarrow> 'x tool_result \<Rightarrow> bool \<Rightarrow> jsstr + 'x after_result option) option"
  te_abortedAfter :: "'x tool_call \<Rightarrow> bool"
  te_speculated :: "'x tool_call \<Rightarrow> bool"
  te_clock :: "jsstr \<Rightarrow> int"

definition emit :: "'x tool_env \<Rightarrow> 'x event \<Rightarrow> ('x, unit) act" where
  "emit env e = ([e], case te_throws env e of Some err \<Rightarrow> Inl err | None \<Rightarrow> Inr ())"

fun emit_list :: "'x tool_env \<Rightarrow> 'x event list \<Rightarrow> ('x, unit) act" where
  "emit_list env [] = return_act ()"
| "emit_list env (e # es) = then_act (emit env e) (\<lambda>u. emit_list env es)"

text \<open>\<open>buildToolMap\<close>: a later tool of the same name replaces an earlier one.\<close>

definition tool_of :: "'x tool_env \<Rightarrow> jsstr \<Rightarrow> 'x agent_tool option" where
  "tool_of env name = find (\<lambda>t. at_name t = name) (rev (te_tools env))"


section \<open>Preparing a call\<close>

definition createErrorToolResult :: "jsstr \<Rightarrow> 'x json option \<Rightarrow> 'x tool_result" where
  "createErrorToolResult msg detail =
     \<lparr> tr_content = [TextBlock msg],
       tr_details = Some (case detail of None \<Rightarrow> JObject [] | Some d \<Rightarrow> JObject [(js ''detail'', d)]),
       tr_terminate = None, tr_isError = None \<rparr>"

definition ELIDED_ARG_MARKER :: jsstr where
  "ELIDED_ARG_MARKER = js ''chars elided''"

fun containsElidedArgMarker :: "'x json \<Rightarrow> bool" where
  "containsElidedArgMarker (JString s) = (str_index s ELIDED_ARG_MARKER 0 \<noteq> None)"
| "containsElidedArgMarker (JArray xs) = (\<exists>x \<in> set xs. containsElidedArgMarker x)"
| "containsElidedArgMarker (JObject kvs) = (\<exists>kv \<in> set kvs. containsElidedArgMarker (snd kv))"
| "containsElidedArgMarker (JAtom a) = False"

datatype 'x preparation =
    Prepared "'x tool_call" "'x agent_tool" "'x json" "jsstr option"
  | Immediate "'x tool_result" bool bool

record 'x finalized =
  fc_toolCall :: "'x tool_call"
  fc_result :: "'x tool_result"
  fc_isError :: bool

definition aborted_result :: "'x tool_result" where
  "aborted_result = createErrorToolResult (js ''Operation aborted'') None"

definition prepareToolCallArguments :: "'x agent_tool \<Rightarrow> 'x tool_call \<Rightarrow> jsstr + 'x tool_call" where
  "prepareToolCallArguments tool call =
     (case at_prepareArguments tool of
        None \<Rightarrow> Inr call
      | Some f \<Rightarrow> (case f (tc_arguments call) of Inl err \<Rightarrow> Inl err | Inr a \<Rightarrow> Inr (call\<lparr>tc_arguments := a\<rparr>)))"

text \<open>After validation: the hook may throw, see an abort, block the call, or change the arguments.\<close>

definition run_before :: "'x tool_env \<Rightarrow> 'x agent_tool \<Rightarrow> 'x tool_call \<Rightarrow> 'x json \<Rightarrow> jsstr + ('x preparation + 'x json)" where
  "run_before env tool call args =
     (case te_before env of
        None \<Rightarrow> Inr (Inr args)
      | Some hook \<Rightarrow>
          (case hook call args of
             BeforeThrows err \<Rightarrow> Inl err
           | BeforeDone block reason mutated args' \<Rightarrow>
               if te_abortedInHook env call then Inr (Inl (Immediate aborted_result True True))
               else if block
               then Inr (Inl (Immediate (createErrorToolResult
                      (case reason of Some r \<Rightarrow> if r = [] then js ''Tool execution was blocked'' else r
                                    | None \<Rightarrow> js ''Tool execution was blocked'') None) True False))
               else if mutated
               then (case te_validate env tool (call\<lparr>tc_arguments := args'\<rparr>) of
                       Inr a \<Rightarrow> Inr (Inr a)
                     | Inl detail \<Rightarrow> Inr (Inl (Immediate (createErrorToolResult
                         (js ''Tool arguments became invalid after a guard mutation: '' @ detail) None) True False)))
               else Inr (Inr args')))"

definition validate_stage :: "'x tool_env \<Rightarrow> 'x agent_tool \<Rightarrow> 'x json \<Rightarrow> 'x tool_call \<Rightarrow> jsstr + 'x preparation" where
  "validate_stage env tool sent active =
     (let call = active\<lparr>tc_arguments := te_repair env (tc_arguments active) tool\<rparr>
      in case te_validate env tool call of
           Inl err \<Rightarrow> Inl err
         | Inr args \<Rightarrow>
             (case run_before env tool call args of
                Inl err \<Rightarrow> Inl err
              | Inr (Inl p) \<Rightarrow> Inr p
              | Inr (Inr final) \<Rightarrow>
                  Inr (Prepared call tool final (case te_repairNote env of None \<Rightarrow> None | Some f \<Rightarrow> f sent final))))"

text \<open>The body of the try block of \<open>prepareToolCall\<close>.\<close>

definition prepare_in_try :: "'x tool_env \<Rightarrow> 'x agent_tool \<Rightarrow> 'x tool_call \<Rightarrow> ('x, 'x preparation) act" where
  "prepare_in_try env tool call =
     (case prepareToolCallArguments tool call of
        Inl err \<Rightarrow> ([], Inl err)
      | Inr c1 \<Rightarrow>
          (case te_rewriteRules env of
             None \<Rightarrow> ([], validate_stage env tool (tc_arguments call) c1)
           | Some rules \<Rightarrow>
               (case rewrite_call rules c1 of
                  Rejected err rid \<Rightarrow>
                    then_act (emit env (CallRejected (tc_id call) (tc_name call) rid err))
                      (\<lambda>u. return_act (Immediate (createErrorToolResult err None) True True))
                | Rewritten c2 ids \<Rightarrow>
                    then_act (emit env (CallRewritten (tc_id call) (tc_name call) ids (tc_arguments c2)))
                      (\<lambda>u. ([], validate_stage env tool (tc_arguments call) c2))
                | Passed c \<Rightarrow> ([], validate_stage env tool (tc_arguments call) c1))))"

definition prepareToolCall :: "'x tool_env \<Rightarrow> 'x tool_call \<Rightarrow> 'x event list \<times> 'x preparation" where
  "prepareToolCall env call =
     (case tool_of env (tc_name call) of
        None \<Rightarrow> ([], Immediate (createErrorToolResult
                  (te_unknownText env (tc_name call) (map at_name (te_tools env))) None) True False)
      | Some tool \<Rightarrow>
          if at_mutationGuard tool \<and> containsElidedArgMarker (tc_arguments call)
          then ([], Immediate (createErrorToolResult
                 (js ''Tool \"'' @ tc_name call @ js ''\" arguments were elided by the context pruner and cannot be executed. ''
                    @ js ''Re-issue the call with the full content (the file on disk is the source of truth).'') None) True True)
          else (case prepare_in_try env tool call of
                  (es, Inl err) \<Rightarrow> (es, Immediate (createErrorToolResult err None) True False)
                | (es, Inr p) \<Rightarrow> (es, p)))"


section \<open>Execution and the hooks after it\<close>

definition applyToolErrorHints :: "'x tool_env \<Rightarrow> 'x tool_call \<Rightarrow> 'x tool_result \<Rightarrow> ('x, 'x tool_result) act" where
  "applyToolErrorHints env call result =
     (case te_hintRules env of
        None \<Rightarrow> return_act result
      | Some rules \<Rightarrow>
          let hints = hints_for rules call result
          in if hints = [] then return_act result
             else then_act (emit env (HintApplied (tc_id call) (tc_name call) hints))
                    (\<lambda>u. return_act (result\<lparr>tr_content := appendHintsToContent (tr_content result) hints\<rparr>)))"

definition finalizeImmediatePreparation :: "'x tool_env \<Rightarrow> 'x tool_call \<Rightarrow> 'x tool_result \<Rightarrow> bool \<Rightarrow> bool \<Rightarrow> ('x, 'x finalized) act" where
  "finalizeImmediatePreparation env call result isError skipHints =
     then_act (if isError \<and> \<not> skipHints then applyToolErrorHints env call result else return_act result)
       (\<lambda>r. return_act \<lparr> fc_toolCall = call, fc_result = r, fc_isError = isError \<rparr>)"

text \<open>
  The race of the tool against the abort signals: an abort that wins is an error like a thrown one. The updates
  are those sent before the race is decided; a listener that throws on one does not stop the call.
\<close>

definition executePreparedToolCall :: "'x tool_env \<Rightarrow> 'x tool_call \<Rightarrow> 'x agent_tool \<Rightarrow> 'x json
    \<Rightarrow> 'x event list \<times> 'x tool_result \<times> bool" where
  "executePreparedToolCall env call tool args =
     (let (updates, outcome) = at_execute tool (tc_id call) args;
          raced = (if te_abortWins env call then Inl (js ''Request was aborted'', None) else outcome)
      in (map (ToolUpdate (tc_id call) (tc_name call) (tc_arguments call)) updates,
          case raced of
            Inr r \<Rightarrow> (r, tr_isError r = Some True)
          | Inl (msg, detail) \<Rightarrow> (createErrorToolResult msg detail, True)))"

definition finalizeExecutedToolCall :: "'x tool_env \<Rightarrow> 'x tool_call \<Rightarrow> 'x json \<Rightarrow> jsstr option \<Rightarrow> 'x tool_result \<Rightarrow> bool
    \<Rightarrow> ('x, 'x finalized) act" where
  "finalizeExecutedToolCall env call args note result isError =
     then_act
       (if isError then applyToolErrorHints env call result
        else return_act (case note of None \<Rightarrow> result
                         | Some n \<Rightarrow> if n = [] then result
                                    else result\<lparr>tr_content := appendRepairNoteToContent (tr_content result) n\<rparr>))
       (\<lambda>r. case te_after env of
          None \<Rightarrow> return_act \<lparr> fc_toolCall = call, fc_result = r, fc_isError = isError \<rparr>
        | Some hook \<Rightarrow>
            (case hook call args r isError of
               Inl err \<Rightarrow> return_act \<lparr> fc_toolCall = call, fc_result = createErrorToolResult err None, fc_isError = True \<rparr>
             | Inr None \<Rightarrow> return_act \<lparr> fc_toolCall = call, fc_result = r, fc_isError = isError \<rparr>
             | Inr (Some a) \<Rightarrow> return_act
                 \<lparr> fc_toolCall = call,
                   fc_result = \<lparr> tr_content = (case ar_content a of Some c \<Rightarrow> c | None \<Rightarrow> tr_content r),
                     tr_details = (case ar_details a of Some d \<Rightarrow> Some d | None \<Rightarrow> tr_details r),
                     tr_terminate = (case ar_terminate a of Some t \<Rightarrow> Some t | None \<Rightarrow> tr_terminate r),
                     tr_isError = None \<rparr>,
                   fc_isError = (case ar_isError a of Some b \<Rightarrow> b | None \<Rightarrow> isError) \<rparr>))"

definition emitToolExecutionEnd :: "'x tool_env \<Rightarrow> 'x finalized \<Rightarrow> ('x, 'x finalized) act" where
  "emitToolExecutionEnd env f =
     then_act (emit env (ToolEnd (tc_id (fc_toolCall f)) (tc_name (fc_toolCall f)) (fc_result f) (fc_isError f)))
       (\<lambda>u. return_act f)"

definition finish_call :: "'x tool_env \<Rightarrow> 'x tool_call \<Rightarrow> 'x preparation \<Rightarrow> ('x, 'x finalized) act" where
  "finish_call env call p =
     (case p of
        Immediate r isError skip \<Rightarrow> finalizeImmediatePreparation env call r isError skip
      | Prepared c tool args note \<Rightarrow>
          (case executePreparedToolCall env c tool args of
             (updates, r, isError) \<Rightarrow>
               then_act (updates, Inr ()) (\<lambda>u. finalizeExecutedToolCall env c args note r isError)))"

text \<open>One call: prepare, execute, finalize, announce the end.\<close>

definition run_call :: "'x tool_env \<Rightarrow> 'x tool_call \<Rightarrow> ('x, 'x finalized) act" where
  "run_call env call =
     then_act (case prepareToolCall env call of (es, p) \<Rightarrow> then_act (es, Inr ()) (\<lambda>u. finish_call env call p))
       (emitToolExecutionEnd env)"

text \<open>
  A call that was executed speculatively during the stream: preparation and execution ran with their events
  buffered, and the events are replayed in this call's place, where a listener's throw is not caught.
\<close>

definition run_speculated :: "'x tool_env \<Rightarrow> 'x tool_call \<Rightarrow> ('x, 'x finalized) act" where
  "run_speculated env call =
     (case prepareToolCall (env\<lparr>te_throws := (\<lambda>e. None)\<rparr>) call of
        (es, p) \<Rightarrow>
          then_act
            (case p of
               Immediate r isError skip \<Rightarrow>
                 then_act (emit_list env es) (\<lambda>u. finalizeImmediatePreparation env call r isError skip)
             | Prepared c tool args note \<Rightarrow>
                 (case executePreparedToolCall env c tool args of
                    (updates, r, isError) \<Rightarrow>
                      then_act (emit_list env (es @ updates)) (\<lambda>u. finalizeExecutedToolCall env c args note r isError)))
            (emitToolExecutionEnd env))"

definition runParallelCall :: "'x tool_env \<Rightarrow> 'x tool_call \<Rightarrow> ('x, 'x finalized) act" where
  "runParallelCall env call = (if te_speculated env call then run_speculated env call else run_call env call)"

end
