(* ===== verification/ToolBatch.thy ===== *)
theory ToolBatch
  imports ToolExec
begin

text \<open>
  The executors of a batch of tool calls (agent/src/agent-loop.ts): sequential, parallel and partitioned, the
  results synthesised for calls that were skipped or unwound, and the pairing of calls and results that
  provider APIs require.
\<close>


section \<open>Result messages\<close>

definition createToolResultMessage :: "'x tool_env \<Rightarrow> 'x finalized \<Rightarrow> 'x result_message" where
  "createToolResultMessage env f =
     \<lparr> rm_toolCallId = tc_id (fc_toolCall f), rm_toolName = tc_name (fc_toolCall f),
       rm_content = tr_content (fc_result f), rm_details = tr_details (fc_result f),
       rm_isError = fc_isError f, rm_timestamp = te_clock env (tc_id (fc_toolCall f)) \<rparr>"

definition emitToolResultMessage :: "'x tool_env \<Rightarrow> 'x result_message \<Rightarrow> ('x, unit) act" where
  "emitToolResultMessage env m =
     then_act (emit env (MessageStart (ToolResultMsg m))) (\<lambda>u. emit env (MessageEnd (ToolResultMsg m)))"

definition aborted_call :: "'x tool_call \<Rightarrow> 'x finalized" where
  "aborted_call call = \<lparr> fc_toolCall = call, fc_result = aborted_result, fc_isError = True \<rparr>"

definition shouldTerminateToolBatch :: "'x finalized list \<Rightarrow> bool" where
  "shouldTerminateToolBatch fs \<longleftrightarrow> fs \<noteq> [] \<and> (\<forall>f \<in> set fs. tr_terminate (fc_result f) = Some True)"

text \<open>On an unwind: a result for every call whose result was not emitted; a listener that throws is ignored.\<close>

fun synthesizeMissingToolResults :: "'x tool_env \<Rightarrow> 'x tool_call list \<Rightarrow> jsstr list \<Rightarrow> 'x event list" where
  "synthesizeMissingToolResults env [] emitted = []"
| "synthesizeMissingToolResults env (c # cs) emitted =
     (if tc_id c \<in> set emitted then synthesizeMissingToolResults env cs emitted
      else fst (emitToolResultMessage env (createToolResultMessage env (aborted_call c)))
             @ synthesizeMissingToolResults env cs (tc_id c # emitted))"

definition start_event :: "'x tool_call \<Rightarrow> 'x event" where
  "start_event c = ToolStart (tc_id c) (tc_name c) (tc_arguments c)"


section \<open>Sequential\<close>

text \<open>
  A batch in progress: the trace, the ids whose result message has been emitted, and the calls finalized or
  the error that unwinds.
\<close>

type_synonym ('x, 'a) batch = "'x event list \<times> jsstr list \<times> (jsstr + 'a)"

definition prepend_done :: "'x event list \<Rightarrow> jsstr \<Rightarrow> 'a \<Rightarrow> ('x, 'a list) batch \<Rightarrow> ('x, 'a list) batch" where
  "prepend_done es i f b =
     (case b of (es', ids, r) \<Rightarrow> (es @ es', i # ids, case r of Inl err \<Rightarrow> Inl err | Inr fs \<Rightarrow> Inr (f # fs)))"

definition deliver :: "'x tool_env \<Rightarrow> 'x finalized \<Rightarrow> ('x, 'x finalized) act" where
  "deliver env f = then_act (emitToolResultMessage env (createToolResultMessage env f)) (\<lambda>u. return_act f)"

definition sequential_call :: "'x tool_env \<Rightarrow> 'x tool_call \<Rightarrow> ('x, 'x finalized) act" where
  "sequential_call env c = then_act (emit env (start_event c)) (\<lambda>u. then_act (run_call env c) (deliver env))"

definition skipped_call :: "'x tool_env \<Rightarrow> 'x tool_call \<Rightarrow> ('x, 'x finalized) act" where
  "skipped_call env c =
     then_act (emit env (start_event c)) (\<lambda>u. then_act (emitToolExecutionEnd env (aborted_call c)) (deliver env))"

fun skip_rest :: "'x tool_env \<Rightarrow> 'x tool_call list \<Rightarrow> ('x, 'x finalized list) batch" where
  "skip_rest env [] = ([], [], Inr [])"
| "skip_rest env (c # cs) =
     (case skipped_call env c of
        (es, Inl err) \<Rightarrow> (es, [], Inl err)
      | (es, Inr f) \<Rightarrow> prepend_done es (tc_id (fc_toolCall f)) f (skip_rest env cs))"

fun seq_loop :: "'x tool_env \<Rightarrow> 'x tool_call list \<Rightarrow> ('x, 'x finalized list) batch" where
  "seq_loop env [] = ([], [], Inr [])"
| "seq_loop env (c # cs) =
     (case sequential_call env c of
        (es, Inl err) \<Rightarrow> (es, [], Inl err)
      | (es, Inr f) \<Rightarrow> prepend_done es (tc_id (fc_toolCall f)) f
                        (if te_abortedAfter env c then skip_rest env cs else seq_loop env cs))"

definition executeToolCallsSequential :: "'x tool_env \<Rightarrow> 'x tool_call list \<Rightarrow> ('x, 'x result_message list \<times> bool) act" where
  "executeToolCallsSequential env calls =
     (case seq_loop env calls of
        (es, ids, Inl err) \<Rightarrow> (es @ synthesizeMissingToolResults env calls ids, Inl err)
      | (es, ids, Inr fs) \<Rightarrow> (es, Inr (map (createToolResultMessage env) fs, shouldTerminateToolBatch fs)))"


section \<open>Parallel\<close>

text \<open>
  An interleaving of traces: the schedule names the trace whose next event comes, what it leaves over follows
  in order. Every interleaving has a schedule.
\<close>

fun weave_by :: "nat list \<Rightarrow> 'e list list \<Rightarrow> 'e list" where
  "weave_by [] ess = concat ess"
| "weave_by (i # is) ess =
     (if i < length ess \<and> ess ! i \<noteq> [] then hd (ess ! i) # weave_by is (ess[i := tl (ess ! i)])
      else weave_by is ess)"

text \<open>
  The schedule of a parallel phase: the interleaving of the calls, which failure is noticed first, how many
  events have happened by then, and how the rest interleaves with the unwinding (the other calls keep running).
\<close>

record batch_schedule =
  bs_order :: "nat list"
  bs_first :: nat
  bs_seen :: nat
  bs_unwind :: "nat list"

definition errors_of :: "(jsstr + 'a) list \<Rightarrow> jsstr list" where
  "errors_of rs = concat (map (\<lambda>r. case r of Inl e \<Rightarrow> [e] | Inr a \<Rightarrow> []) rs)"

definition values_of :: "(jsstr + 'a) list \<Rightarrow> 'a list" where
  "values_of rs = concat (map (\<lambda>r. case r of Inl e \<Rightarrow> [] | Inr a \<Rightarrow> [a]) rs)"

text \<open>\<open>Promise.all\<close> over the pipelines, with what the unwinding adds when one of them fails.\<close>

definition parallel_phase :: "'x tool_env \<Rightarrow> batch_schedule \<Rightarrow> 'x tool_call list \<Rightarrow> 'x event list
    \<Rightarrow> ('x, 'x finalized list) act" where
  "parallel_phase env s calls unwinding =
     (let runs = map (runParallelCall env) calls;
          w = weave_by (bs_order s) (map fst runs);
          errs = errors_of (map snd runs)
      in if errs = [] then (w, Inr (values_of (map snd runs)))
         else (take (bs_seen s) w @ weave_by (bs_unwind s) [drop (bs_seen s) w, unwinding],
               Inl (errs ! (bs_first s mod length errs))))"

fun emit_results :: "'x tool_env \<Rightarrow> 'x result_message list \<Rightarrow> ('x, unit) batch" where
  "emit_results env [] = ([], [], Inr ())"
| "emit_results env (m # ms) =
     (case emitToolResultMessage env m of
        (es, Inl err) \<Rightarrow> (es, [], Inl err)
      | (es, Inr u) \<Rightarrow> (case emit_results env ms of (es', ids, r) \<Rightarrow> (es @ es', rm_toolCallId m # ids, r)))"

text \<open>The replay of the result messages in call order that ends both concurrent executors.\<close>

definition replay_results :: "'x tool_env \<Rightarrow> 'x tool_call list \<Rightarrow> 'x finalized list \<Rightarrow> ('x, 'x result_message list \<times> bool) act" where
  "replay_results env calls fs =
     (let messages = map (createToolResultMessage env) fs
      in case emit_results env messages of
           (es, ids, Inl err) \<Rightarrow> (es @ synthesizeMissingToolResults env calls ids, Inl err)
         | (es, ids, Inr u) \<Rightarrow> (es, Inr (messages, shouldTerminateToolBatch fs)))"

definition executeToolCallsParallel :: "'x tool_env \<Rightarrow> batch_schedule \<Rightarrow> 'x tool_call list \<Rightarrow> ('x, 'x result_message list \<times> bool) act" where
  "executeToolCallsParallel env s calls =
     (case emit_list env (map start_event calls) of
        (es, Inl err) \<Rightarrow> (es @ synthesizeMissingToolResults env calls [], Inl err)
      | (es, Inr u) \<Rightarrow>
          then_act (es, Inr ()) (\<lambda>u.
            then_act (parallel_phase env s calls (synthesizeMissingToolResults env calls []))
              (replay_results env calls)))"


section \<open>Partitioned\<close>

definition is_sequential :: "'x tool_env \<Rightarrow> 'x tool_call \<Rightarrow> bool" where
  "is_sequential env c = (case tool_of env (tc_name c) of Some t \<Rightarrow> at_sequential t | None \<Rightarrow> False)"

text \<open>The sequential part without the result messages; the calls after an abort are left for the synthesis.\<close>

fun part_loop :: "'x tool_env \<Rightarrow> 'x tool_call list \<Rightarrow> ('x, 'x finalized list \<times> 'x tool_call list) act" where
  "part_loop env [] = return_act ([], [])"
| "part_loop env (c # cs) =
     then_act (emit env (start_event c)) (\<lambda>u.
       then_act (run_call env c) (\<lambda>f.
         if te_abortedAfter env c then return_act ([f], cs)
         else then_act (part_loop env cs) (\<lambda>(fs, rest). return_act (f # fs, rest))))"

fun part_skip :: "'x tool_env \<Rightarrow> 'x tool_call list \<Rightarrow> ('x, 'x finalized list) act" where
  "part_skip env [] = return_act []"
| "part_skip env (c # cs) =
     then_act (emit env (start_event c)) (\<lambda>u.
       then_act (emitToolExecutionEnd env (aborted_call c)) (\<lambda>f.
         then_act (part_skip env cs) (\<lambda>fs. return_act (f # fs))))"

text \<open>The slots by original index: the next sequential result where the call is sequential, else the next other.\<close>

fun merge_slots :: "bool list \<Rightarrow> 'f list \<Rightarrow> 'f list \<Rightarrow> 'f list" where
  "merge_slots (True # flags) ps (s # ss) = s # merge_slots flags ps ss"
| "merge_slots (False # flags) (p # ps) ss = p # merge_slots flags ps ss"
| "merge_slots flags ps ss = []"

definition unwind_with :: "'x event list \<Rightarrow> ('x, 'a) act \<Rightarrow> ('x, 'a) act" where
  "unwind_with unwinding m = (case m of (es, Inl err) \<Rightarrow> (es @ unwinding, Inl err) | (es, Inr a) \<Rightarrow> (es, Inr a))"

definition executeToolCallsPartitioned :: "'x tool_env \<Rightarrow> batch_schedule \<Rightarrow> 'x tool_call list \<Rightarrow> ('x, 'x result_message list \<times> bool) act" where
  "executeToolCallsPartitioned env s calls =
     (let par = filter (\<lambda>c. \<not> is_sequential env c) calls;
          sq = filter (is_sequential env) calls;
          unwinding = synthesizeMissingToolResults env calls []
      in then_act (unwind_with unwinding (emit_list env (map start_event par))) (\<lambda>u.
           then_act (parallel_phase env s par unwinding) (\<lambda>ps.
             then_act (unwind_with unwinding
                 (then_act (part_loop env sq) (\<lambda>(fs, rest).
                    then_act (part_skip env rest) (\<lambda>gs. return_act (fs @ gs)))))
               (\<lambda>ss. replay_results env calls (merge_slots (map (is_sequential env) calls) ps ss)))))"

definition executeToolCalls :: "'x tool_env \<Rightarrow> batch_schedule \<Rightarrow> 'x tool_call list \<Rightarrow> ('x, 'x result_message list \<times> bool) act" where
  "executeToolCalls env s calls =
     (if te_sequential env then executeToolCallsSequential env calls
      else
        let n = length (filter (is_sequential env) calls)
        in if n = 0 then executeToolCallsParallel env s calls
           else if n = length calls \<or> te_partitionDisabled env then executeToolCallsSequential env calls
           else executeToolCallsPartitioned env s calls)"


section \<open>Traces without result messages\<close>

fun result_of :: "'x event \<Rightarrow> 'x result_message list" where
  "result_of (MessageEnd (ToolResultMsg m)) = [m]"
| "result_of e = []"

definition results :: "'x event list \<Rightarrow> 'x result_message list" where
  "results es = concat (map result_of es)"

lemma results_simps [simp]: "results [] = []" "results (e # es) = result_of e @ results es" "results (es @ es') = results es @ results es'"
  by (simp_all add: results_def)

text \<open>The events a call's pipeline emits: none of them is a message or ends anything but the call.\<close>

fun call_event :: "'x event \<Rightarrow> bool" where
  "call_event (ToolStart i n a) = True"
| "call_event (ToolUpdate i n a r) = True"
| "call_event (ToolEnd i n r e) = True"
| "call_event (CallRewritten i n ids a) = True"
| "call_event (CallRejected i n r e) = True"
| "call_event (HintApplied i n hs) = True"
| "call_event e = False"

definition call_events :: "'x event list \<Rightarrow> bool" where
  "call_events es \<longleftrightarrow> (\<forall>e \<in> set es. call_event e)"

lemma call_events_simps [simp]: "call_events []" "call_events (e # es) \<longleftrightarrow> call_event e \<and> call_events es"
  "call_events (es @ es') \<longleftrightarrow> call_events es \<and> call_events es'"
  by (auto simp: call_events_def)

lemma call_event_no_result: "call_event e \<Longrightarrow> result_of e = []"
  by (cases e rule: call_event.cases) simp_all

lemma call_events_no_result: "call_events es \<Longrightarrow> results es = []"
  by (induction es) (simp_all add: call_event_no_result)

lemma call_events_take: "call_events es \<Longrightarrow> call_events (take n es)" "call_events es \<Longrightarrow> call_events (drop n es)"
  by (auto simp: call_events_def dest: in_set_takeD in_set_dropD)

text \<open>What holds of every value an action returns.\<close>

definition act_ok :: "('x event list \<Rightarrow> bool) \<Rightarrow> ('a \<Rightarrow> bool) \<Rightarrow> ('x, 'a) act \<Rightarrow> bool" where
  "act_ok P Q m \<longleftrightarrow> P (fst m) \<and> (case snd m of Inl err \<Rightarrow> True | Inr a \<Rightarrow> Q a)"

lemma act_ok_return [simp]: "act_ok call_events Q (return_act a) \<longleftrightarrow> Q a"
  by (simp add: act_ok_def return_act_def)

lemma act_ok_pair [simp]: "act_ok call_events Q (es, r) \<longleftrightarrow> call_events es \<and> (case r of Inl err \<Rightarrow> True | Inr a \<Rightarrow> Q a)"
  by (simp add: act_ok_def)

lemma act_ok_then:
  "act_ok call_events Q m \<Longrightarrow> (\<And>a. Q a \<Longrightarrow> act_ok call_events R (f a)) \<Longrightarrow> act_ok call_events R (then_act m f)"
  by (fastforce simp: act_ok_def then_act_def split: prod.splits sum.splits)

lemma act_ok_emit: "call_event e \<Longrightarrow> act_ok call_events (\<lambda>u. True) (emit env e)"
  by (simp add: emit_def split: option.split)

lemma act_ok_emit_list: "call_events es \<Longrightarrow> act_ok call_events (\<lambda>u. True) (emit_list env es)"
  by (induction es) (auto intro!: act_ok_then act_ok_emit)


section \<open>One call\<close>

definition rules_ok :: "'x tool_env \<Rightarrow> bool" where
  "rules_ok env \<longleftrightarrow> (case te_rewriteRules env of None \<Rightarrow> True | Some rules \<Rightarrow> args_only rules)"

fun keeps_id :: "jsstr \<Rightarrow> 'x preparation \<Rightarrow> bool" where
  "keeps_id i (Prepared c t a n) \<longleftrightarrow> tc_id c = i"
| "keeps_id i (Immediate r e s) \<longleftrightarrow> True"

lemma run_before_immediate: "run_before env tool call args = Inr (Inl p) \<Longrightarrow> keeps_id i p"
  by (auto simp: run_before_def split: option.splits before_outcome.splits if_splits sum.splits)

lemma validate_stage_id: "validate_stage env tool sent c = Inr p \<Longrightarrow> tc_id c = i \<Longrightarrow> keeps_id i p"
  by (auto simp: validate_stage_def Let_def dest: run_before_immediate split: sum.splits)

lemma rewrite_call_id:
  "args_only rules \<Longrightarrow> rewrite_call rules c = Rewritten c' ids \<Longrightarrow> tc_id c' = tc_id c \<and> tc_name c' = tc_name c"
  using apply_rules_bounds [where applied = "[]" and n = MAX_AUTO_CHAIN and rules = rules and call = c] by (simp add: rewrite_call_def)

lemma rewrite_call_passed: "rewrite_call rules c = Passed c' \<Longrightarrow> c' = c"
  using apply_rules_bounds [where applied = "[]" and n = MAX_AUTO_CHAIN and rules = rules and call = c] by (simp add: rewrite_call_def)

lemma prepared_arguments_id: "prepareToolCallArguments tool c = Inr c1 \<Longrightarrow> tc_id c1 = tc_id c \<and> tc_name c1 = tc_name c"
  by (auto simp: prepareToolCallArguments_def split: option.splits sum.splits)

lemma prepare_in_try_ok:
  assumes "rules_ok env"
  shows "act_ok call_events (keeps_id (tc_id c)) (prepare_in_try env tool c)"
proof (cases "prepareToolCallArguments tool c")
  case (Inr c1)
  note i = prepared_arguments_id [OF Inr]
  have v: "tc_id c' = tc_id c \<Longrightarrow> act_ok call_events (keeps_id (tc_id c)) ([], validate_stage env tool sent c')" for c' sent
    using validate_stage_id [of env tool sent c'] by (simp split: sum.split)
  show ?thesis
  proof (cases "te_rewriteRules env")
    case None
    then show ?thesis using Inr v i by (simp add: prepare_in_try_def)
  next
    case (Some rules)
    then have r: "args_only rules" using assms by (simp add: rules_ok_def)
    show ?thesis
    proof (cases "rewrite_call rules c1")
      case (Passed c')
      then show ?thesis using Inr Some v i by (simp add: prepare_in_try_def)
    next
      case (Rewritten c2 ids)
      have "tc_id c2 = tc_id c" using rewrite_call_id [OF r Rewritten] i by simp
      then show ?thesis using Inr Some Rewritten v
        by (auto simp: prepare_in_try_def intro!: act_ok_then [OF act_ok_emit])
    next
      case (Rejected err rid)
      then show ?thesis using Inr Some
        by (auto simp: prepare_in_try_def intro!: act_ok_then [OF act_ok_emit])
    qed
  qed
qed (simp add: prepare_in_try_def)

lemma prepare_ok:
  assumes "rules_ok env" "prepareToolCall env c = (es, p)"
  shows "call_events es \<and> keeps_id (tc_id c) p"
proof (cases "tool_of env (tc_name c)")
  case None
  then show ?thesis using assms(2) by (auto simp: prepareToolCall_def)
next
  case (Some tool)
  obtain es' r where x: "prepare_in_try env tool c = (es', r)" by fastforce
  then have "call_events es' \<and> (case r of Inl err \<Rightarrow> True | Inr a \<Rightarrow> keeps_id (tc_id c) a)"
    using prepare_in_try_ok [OF assms(1), of c tool] by simp
  then show ?thesis using assms(2) Some x
    by (auto simp: prepareToolCall_def split: if_splits sum.splits)
qed

definition of_call :: "jsstr \<Rightarrow> 'x finalized \<Rightarrow> bool" where
  "of_call i f \<longleftrightarrow> tc_id (fc_toolCall f) = i"

lemma hints_ok_act: "act_ok call_events (\<lambda>r. True) (applyToolErrorHints env c r)"
  by (auto simp: applyToolErrorHints_def Let_def intro!: act_ok_then [OF act_ok_emit] split: option.split)

lemma finalize_immediate_ok: "tc_id c = i \<Longrightarrow> act_ok call_events (of_call i) (finalizeImmediatePreparation env c r e s)"
  unfolding finalizeImmediatePreparation_def
  by (rule act_ok_then [where Q = "\<lambda>r. True"]) (auto simp: of_call_def hints_ok_act)

lemma finalize_executed_ok: "tc_id c = i \<Longrightarrow> act_ok call_events (of_call i) (finalizeExecutedToolCall env c a n r e)"
  unfolding finalizeExecutedToolCall_def
  by (rule act_ok_then [where Q = "\<lambda>r. True"]) (auto simp: of_call_def hints_ok_act split: option.split sum.split)

lemma emit_end_ok: "of_call i f \<Longrightarrow> act_ok call_events (of_call i) (emitToolExecutionEnd env f)"
  unfolding emitToolExecutionEnd_def by (rule act_ok_then [OF act_ok_emit]) simp_all

lemma updates_ok: "executePreparedToolCall env c t a = (es, r, e) \<Longrightarrow> call_events es"
  by (auto simp: executePreparedToolCall_def call_events_def Let_def split: prod.splits)

lemma finish_call_ok: "keeps_id (tc_id c) p \<Longrightarrow> act_ok call_events (of_call (tc_id c)) (finish_call env c p)"
proof (cases p)
  case (Prepared c' t a n)
  obtain es r e where x: "executePreparedToolCall env c' t a = (es, r, e)" by (cases "executePreparedToolCall env c' t a")
  assume "keeps_id (tc_id c) p"
  then show ?thesis using Prepared x updates_ok [OF x]
    by (auto simp: finish_call_def intro!: act_ok_then [where Q = "\<lambda>u. True"] finalize_executed_ok)
qed (simp add: finish_call_def finalize_immediate_ok)

lemma act_ok_events_then:
  "call_events es \<Longrightarrow> act_ok call_events R m \<Longrightarrow> act_ok call_events R (then_act (es, Inr ()) (\<lambda>u. m))"
  by (rule act_ok_then [where Q = "\<lambda>u. True"]) simp_all

lemma act_ok_list_then:
  "call_events es \<Longrightarrow> act_ok call_events R m \<Longrightarrow> act_ok call_events R (then_act (emit_list env es) (\<lambda>u. m))"
  by (rule act_ok_then [OF act_ok_emit_list]) simp_all

lemma end_call_ok: "act_ok call_events (of_call i) m \<Longrightarrow> act_ok call_events (of_call i) (then_act m (emitToolExecutionEnd env))"
  by (rule act_ok_then [where Q = "of_call i"]) (simp_all add: emit_end_ok)

lemma run_call_ok: "rules_ok env \<Longrightarrow> act_ok call_events (of_call (tc_id c)) (run_call env c)"
proof -
  assume r: "rules_ok env"
  obtain es p where p: "prepareToolCall env c = (es, p)" by fastforce
  show ?thesis unfolding run_call_def p prod.case
    using prepare_ok [OF r p] by (intro end_call_ok act_ok_events_then finish_call_ok) simp_all
qed

lemma run_speculated_ok: "rules_ok env \<Longrightarrow> act_ok call_events (of_call (tc_id c)) (run_speculated env c)"
proof -
  assume "rules_ok env"
  then have r: "rules_ok (env\<lparr>te_throws := (\<lambda>e. None)\<rparr>)" by (simp add: rules_ok_def)
  obtain es p where p: "prepareToolCall (env\<lparr>te_throws := (\<lambda>e. None)\<rparr>) c = (es, p)" by fastforce
  note ok = prepare_ok [OF r p]
  show ?thesis
  proof (cases p)
    case (Immediate res e s)
    show ?thesis unfolding run_speculated_def p Immediate prod.case preparation.case
      using ok by (intro end_call_ok act_ok_list_then finalize_immediate_ok) simp_all
  next
    case (Prepared c' t a n)
    obtain us res e where x: "executePreparedToolCall env c' t a = (us, res, e)" by (cases "executePreparedToolCall env c' t a")
    show ?thesis unfolding run_speculated_def p Prepared prod.case preparation.case x
      using ok Prepared updates_ok [OF x]
      by (intro end_call_ok act_ok_list_then finalize_executed_ok) simp_all
  qed
qed

lemma run_parallel_ok: "rules_ok env \<Longrightarrow> act_ok call_events (of_call (tc_id c)) (runParallelCall env c)"
  by (simp add: runParallelCall_def run_call_ok run_speculated_ok)


section \<open>Calls and results pair up\<close>

text \<open>The listeners of result messages do not throw (others may).\<close>

definition quiet :: "'x tool_env \<Rightarrow> bool" where
  "quiet env \<longleftrightarrow> (\<forall>m. te_throws env (MessageStart (ToolResultMsg m)) = None \<and> te_throws env (MessageEnd (ToolResultMsg m)) = None)"

lemma emit_result_quiet:
  "quiet env \<Longrightarrow> emitToolResultMessage env m = ([MessageStart (ToolResultMsg m), MessageEnd (ToolResultMsg m)], Inr ())"
  by (simp add: quiet_def emitToolResultMessage_def emit_def then_act_def)

lemma synthesized_ids:
  "quiet env \<Longrightarrow> distinct (map tc_id cs) \<Longrightarrow>
     map rm_toolCallId (results (synthesizeMissingToolResults env cs emitted)) = filter (\<lambda>i. i \<notin> set emitted) (map tc_id cs)"
proof (induction cs arbitrary: emitted)
  case (Cons c cs)
  have "filter (\<lambda>i. i \<notin> set (tc_id c # emitted)) (map tc_id cs) = filter (\<lambda>i. i \<notin> set emitted) (map tc_id cs)"
    using Cons.prems(2) by (auto intro!: filter_cong)
  then show ?case using Cons
    by (simp add: emit_result_quiet createToolResultMessage_def aborted_call_def del: filter.simps(2) filter_map)
      (simp add: filter_map)
qed simp

lemma weave_events: "\<forall>es \<in> set ess. call_events es \<Longrightarrow> call_events (weave_by is ess)"
proof (induction "is" ess rule: weave_by.induct)
  case (1 ess)
  then show ?case by (auto simp: call_events_def)
next
  case (2 i "is" ess)
  show ?case
  proof (cases "i < length ess \<and> ess ! i \<noteq> []")
    case True
    have "call_events (ess ! i)" using 2(3) True by simp
    then have e: "call_event (hd (ess ! i))" "call_events (tl (ess ! i))" using True by (cases "ess ! i"; simp)+
    then have "\<forall>es \<in> set (ess[i := tl (ess ! i)]). call_events es"
      using 2(3) by (auto dest!: subsetD [OF set_update_subset_insert])
    then show ?thesis using 2(1) True e by simp
  next
    case False
    then have "weave_by (i # is) ess = weave_by is ess" by (simp only: weave_by.simps if_False)
    then show ?thesis using 2(2) [OF False 2(3)] by simp
  qed
qed

lemma weave_two: "call_events a \<Longrightarrow> results (weave_by is [a, b]) = results b"
proof (induction "is" arbitrary: a b)
  case Nil
  then show ?case by (simp add: call_events_no_result)
next
  case (Cons i "is")
  show ?case
  proof (cases "i < 2 \<and> [a, b] ! i \<noteq> []")
    case True
    then consider "i = 0" "a \<noteq> []" | "i = 1" "b \<noteq> []" by (auto simp: less_2_cases_iff)
    then show ?thesis
    proof cases
      case 1
      then show ?thesis using Cons by (cases a) (simp_all add: call_event_no_result)
    next
      case 2
      then show ?thesis using Cons by (cases b) simp_all
    qed
  next
    case False
    then have "\<not> (i < length [a, b] \<and> [a, b] ! i \<noteq> [])" by (simp add: numeral_2_eq_2)
    then have "weave_by (i # is) [a, b] = weave_by is [a, b]" by (simp only: weave_by.simps if_False)
    then show ?thesis using Cons by simp
  qed
qed


lemma emit_results_quiet:
  "quiet env \<Longrightarrow> \<exists>es. emit_results env ms = (es, map rm_toolCallId ms, Inr ()) \<and> results es = ms"
  by (induction ms) (auto simp: emit_result_quiet)

text \<open>A batch in progress: the results so far are those of a prefix of the calls, all of them if it did not unwind.\<close>

definition batch_ok :: "'x tool_env \<Rightarrow> 'x tool_call list \<Rightarrow> ('x, 'x finalized list) batch \<Rightarrow> bool" where
  "batch_ok env cs b =
     (case b of (es, ids, r) \<Rightarrow>
        map rm_toolCallId (results es) = ids \<and> (\<exists>k. ids = take k (map tc_id cs))
        \<and> (case r of Inl err \<Rightarrow> True
           | Inr fs \<Rightarrow> results es = map (createToolResultMessage env) fs \<and> map (\<lambda>f. tc_id (fc_toolCall f)) fs = map tc_id cs))"

text \<open>One call of the sequential executor: silent if it throws, else its own result message.\<close>

definition step_ok :: "'x tool_env \<Rightarrow> jsstr \<Rightarrow> ('x, 'x finalized) act \<Rightarrow> bool" where
  "step_ok env i m = (case m of (es, Inl err) \<Rightarrow> results es = []
     | (es, Inr f) \<Rightarrow> of_call i f \<and> results es = [createToolResultMessage env f])"

lemma createToolResultMessage_id [simp]: "rm_toolCallId (createToolResultMessage env f) = tc_id (fc_toolCall f)"
  by (simp add: createToolResultMessage_def)

lemma deliver_ok:
  "quiet env \<Longrightarrow> act_ok call_events (of_call i) m \<Longrightarrow> step_ok env i (then_act m (deliver env))"
  by (auto simp: step_ok_def act_ok_def then_act_def deliver_def emit_result_quiet return_act_def
      call_events_no_result split: prod.splits sum.splits)

lemma start_then_ok:
  "step_ok env i m \<Longrightarrow> step_ok env i (then_act (emit env (start_event c)) (\<lambda>u. m))"
  by (auto simp: step_ok_def then_act_def emit_def start_event_def split: prod.splits sum.splits option.splits)

lemma sequential_call_ok: "quiet env \<Longrightarrow> rules_ok env \<Longrightarrow> step_ok env (tc_id c) (sequential_call env c)"
  unfolding sequential_call_def by (intro start_then_ok deliver_ok run_call_ok)

lemma aborted_call_id [simp]: "fc_toolCall (aborted_call c) = c"
  by (simp add: aborted_call_def)

lemma skipped_call_ok: "quiet env \<Longrightarrow> step_ok env (tc_id c) (skipped_call env c)"
  unfolding skipped_call_def by (intro start_then_ok deliver_ok emit_end_ok) (simp_all add: of_call_def)

lemma batch_step:
  assumes "step_ok env (tc_id c) m" "batch_ok env cs b"
  shows "batch_ok env (c # cs)
    (case m of (es, Inl err) \<Rightarrow> (es, [], Inl err) | (es, Inr f) \<Rightarrow> prepend_done es (tc_id (fc_toolCall f)) f b)"
proof (cases m)
  case (Pair es r)
  obtain es' ids r' where b: "b = (es', ids, r')" by (cases b)
  show ?thesis
  proof (cases r)
    case (Inl err)
    have "\<exists>k. [] = take k (map tc_id (c # cs))" by (rule exI [of _ 0]) simp
    then show ?thesis using assms(1) Pair Inl by (simp add: step_ok_def batch_ok_def)
  next
    case (Inr f)
    obtain k where "ids = take k (map tc_id cs)" using assms(2) b by (auto simp: batch_ok_def)
    then have "\<exists>k. tc_id c # ids = take k (map tc_id (c # cs))" by (intro exI [of _ "Suc k"]) simp
    then show ?thesis using assms Pair Inr b
      by (auto simp: step_ok_def batch_ok_def prepend_done_def of_call_def split: sum.splits)
  qed
qed

lemma batch_empty: "batch_ok env [] ([], [], Inr [])"
  by (simp add: batch_ok_def)

lemma skip_rest_ok: "quiet env \<Longrightarrow> batch_ok env cs (skip_rest env cs)"
proof (induction cs)
  case (Cons c cs)
  then show ?case unfolding skip_rest.simps by (intro batch_step skipped_call_ok)
qed (simp add: batch_empty)

lemma seq_loop_ok: "quiet env \<Longrightarrow> rules_ok env \<Longrightarrow> batch_ok env cs (seq_loop env cs)"
proof (induction cs)
  case (Cons c cs)
  then have "batch_ok env cs (if te_abortedAfter env c then skip_rest env cs else seq_loop env cs)"
    by (simp add: skip_rest_ok)
  then show ?case unfolding seq_loop.simps using Cons by (intro batch_step sequential_call_ok)
qed (simp add: batch_empty)

text \<open>What an executor guarantees.\<close>

definition paired :: "'x tool_call list \<Rightarrow> ('x, 'x result_message list \<times> bool) act \<Rightarrow> bool" where
  "paired calls m \<longleftrightarrow> map rm_toolCallId (results (fst m)) = map tc_id calls
     \<and> (case snd m of Inl err \<Rightarrow> True | Inr out \<Rightarrow> fst out = results (fst m))"

lemma filter_after_take: "distinct xs \<Longrightarrow> filter (\<lambda>x. x \<notin> set (take n xs)) xs = drop n xs"
proof (induction n arbitrary: xs)
  case (Suc n)
  show ?case
  proof (cases xs)
    case (Cons x ys)
    then have "filter (\<lambda>y. y \<notin> set (x # take n ys)) ys = filter (\<lambda>y. y \<notin> set (take n ys)) ys"
      using Suc.prems by (intro filter_cong) auto
    then show ?thesis using Cons Suc by simp
  qed simp
qed simp

lemma sequential_paired:
  assumes "quiet env" "rules_ok env" "distinct (map tc_id calls)"
  shows "paired calls (executeToolCallsSequential env calls)"
proof -
  obtain es ids r where b: "seq_loop env calls = (es, ids, r)" by (cases "seq_loop env calls")
  have ok: "batch_ok env calls (es, ids, r)" using seq_loop_ok [OF assms(1,2), of calls] b by simp
  show ?thesis
  proof (cases r)
    case (Inl err)
    obtain k where k: "ids = take k (map tc_id calls)" and r: "map rm_toolCallId (results es) = ids"
      using ok by (auto simp: batch_ok_def)
    have "ids @ filter (\<lambda>i. i \<notin> set ids) (map tc_id calls) = map tc_id calls"
      unfolding k filter_after_take [OF assms(3)] by (rule append_take_drop_id)
    then show ?thesis using b Inl r synthesized_ids [OF assms(1,3), of ids]
      by (simp add: executeToolCallsSequential_def paired_def)
  next
    case (Inr fs)
    then show ?thesis using b ok by (auto simp: executeToolCallsSequential_def paired_def batch_ok_def comp_def)
  qed
qed

lemma replay_paired:
  assumes "quiet env" "map (\<lambda>f. tc_id (fc_toolCall f)) fs = map tc_id calls"
  shows "paired calls (replay_results env calls fs)"
proof -
  obtain es where "emit_results env (map (createToolResultMessage env) fs) =
      (es, map rm_toolCallId (map (createToolResultMessage env) fs), Inr ())"
    "results es = map (createToolResultMessage env) fs"
    using emit_results_quiet [OF assms(1)] by blast
  then show ?thesis using assms(2) by (simp add: replay_results_def paired_def comp_def)
qed

text \<open>A phase before the replay: silent when it goes through, all results synthesised when it unwinds.\<close>

definition phase_ok :: "'x tool_call list \<Rightarrow> ('a \<Rightarrow> bool) \<Rightarrow> ('x, 'a) act \<Rightarrow> bool" where
  "phase_ok calls Q m = (case m of
     (es, Inl err) \<Rightarrow> map rm_toolCallId (results es) = map tc_id calls
   | (es, Inr a) \<Rightarrow> results es = [] \<and> Q a)"

lemma phase_then: "phase_ok calls Q m \<Longrightarrow> (\<And>a. Q a \<Longrightarrow> paired calls (f a)) \<Longrightarrow> paired calls (then_act m f)"
  by (fastforce simp: phase_ok_def paired_def then_act_def split: prod.splits sum.splits)

lemma unwind_ok:
  assumes "act_ok call_events Q m" "map rm_toolCallId (results unwinding) = map tc_id calls"
  shows "phase_ok calls Q (unwind_with unwinding m)"
  using assms by (auto simp: act_ok_def phase_ok_def unwind_with_def call_events_no_result split: prod.splits sum.splits)

lemma values_of_all: "errors_of rs = [] \<Longrightarrow> map Inr (values_of rs) = rs"
  by (induction rs) (auto simp: errors_of_def values_of_def split: sum.splits)

lemma parallel_phase_ok:
  assumes r: "rules_ok env" and u: "map rm_toolCallId (results unwinding) = map tc_id calls"
  shows "phase_ok calls (\<lambda>fs. map (\<lambda>f. tc_id (fc_toolCall f)) fs = map tc_id par) (parallel_phase env s par unwinding)"
proof -
  define runs where "runs = map (runParallelCall env) par"
  have "\<forall>es \<in> set (map fst runs). call_events es"
    using run_parallel_ok [OF r] by (auto simp: runs_def act_ok_def)
  then have w: "call_events (weave_by (bs_order s) (map fst runs))" by (rule weave_events)
  show ?thesis
  proof (cases "errors_of (map snd runs) = []")
    case True
    note all = values_of_all [OF True]
    have "list_all2 (\<lambda>f c. tc_id (fc_toolCall f) = tc_id c) (values_of (map snd runs)) par"
    proof (rule list_all2_all_nthI)
      show len: "length (values_of (map snd runs)) = length par"
        using all by (metis length_map runs_def)
      fix n assume n: "n < length (values_of (map snd runs))"
      have "Inr (values_of (map snd runs) ! n) = snd (runParallelCall env (par ! n))"
        using n len arg_cong [OF all, of "\<lambda>xs. xs ! n"] by (simp add: runs_def)
      then show "tc_id (fc_toolCall (values_of (map snd runs) ! n)) = tc_id (par ! n)"
        using run_parallel_ok [OF r, of "par ! n"] by (auto simp: act_ok_def of_call_def split: sum.splits)
    qed
    then have "map (\<lambda>f. tc_id (fc_toolCall f)) (values_of (map snd runs)) = map tc_id par"
      by (induction rule: list_all2_induct) simp_all
    then show ?thesis using True w call_events_no_result [OF w]
      by (simp add: parallel_phase_def Let_def phase_ok_def runs_def)
  next
    case False
    then show ?thesis using u w
      by (simp add: parallel_phase_def Let_def phase_ok_def call_events_no_result call_events_take weave_two flip: runs_def)
  qed
qed

lemma starts_ok: "act_ok call_events (\<lambda>u. True) (emit_list env (map start_event cs))"
  by (rule act_ok_emit_list) (auto simp: call_events_def start_event_def)

lemma unwinding_ids:
  "quiet env \<Longrightarrow> distinct (map tc_id calls) \<Longrightarrow> map rm_toolCallId (results (synthesizeMissingToolResults env calls [])) = map tc_id calls"
  by (simp add: synthesized_ids)

lemma parallel_as_phases:
  "executeToolCallsParallel env s calls =
     then_act (unwind_with (synthesizeMissingToolResults env calls []) (emit_list env (map start_event calls)))
       (\<lambda>u. then_act (parallel_phase env s calls (synthesizeMissingToolResults env calls [])) (replay_results env calls))"
  by (auto simp: executeToolCallsParallel_def unwind_with_def then_act_def split: prod.splits sum.splits)

lemma parallel_paired:
  assumes "quiet env" "rules_ok env" "distinct (map tc_id calls)"
  shows "paired calls (executeToolCallsParallel env s calls)"
  unfolding parallel_as_phases
  by (intro phase_then [OF unwind_ok [OF starts_ok unwinding_ids]] phase_then [OF parallel_phase_ok] replay_paired
      assms unwinding_ids)


text \<open>The sequential part of a partitioned batch: silent, with the calls it did not reach.\<close>

definition calls_of :: "'x finalized list \<Rightarrow> jsstr list" where
  "calls_of fs = map (\<lambda>f. tc_id (fc_toolCall f)) fs"

lemma calls_of_simps [simp]: "calls_of [] = []" "calls_of (f # fs) = tc_id (fc_toolCall f) # calls_of fs"
  "calls_of (fs @ gs) = calls_of fs @ calls_of gs"
  by (simp_all add: calls_of_def)

lemma start_act_ok: "act_ok call_events Q m \<Longrightarrow> act_ok call_events Q (then_act (emit env (start_event c)) (\<lambda>u. m))"
  by (rule act_ok_then [OF act_ok_emit]) (simp_all add: start_event_def)

lemma part_skip_ok: "act_ok call_events (\<lambda>fs. calls_of fs = map tc_id cs) (part_skip env cs)"
proof (induction cs)
  case (Cons c cs)
  have "act_ok call_events (of_call (tc_id c)) (emitToolExecutionEnd env (aborted_call c))"
    by (rule emit_end_ok) (simp add: of_call_def)
  then show ?case unfolding part_skip.simps
    by (intro start_act_ok) (rule act_ok_then, assumption, rule act_ok_then [OF Cons.IH], simp add: of_call_def)
qed simp

lemma part_loop_ok:
  "rules_ok env \<Longrightarrow>
     act_ok call_events (\<lambda>(fs, rest). calls_of fs @ map tc_id rest = map tc_id cs) (part_loop env cs)"
proof (induction cs)
  case (Cons c cs)
  show ?case unfolding part_loop.simps
  proof (intro start_act_ok act_ok_then [OF run_call_ok [OF Cons.prems]])
    fix f :: "'a finalized"
    assume f: "of_call (tc_id c) f"
    show "act_ok call_events (\<lambda>(fs, rest). calls_of fs @ map tc_id rest = map tc_id (c # cs))
        (if te_abortedAfter env c then return_act ([f], cs)
         else then_act (part_loop env cs) (\<lambda>(fs, rest). return_act (f # fs, rest)))"
      using f by (auto simp: of_call_def intro!: act_ok_then [OF Cons.IH [OF Cons.prems]])
  qed
qed simp

lemma sequential_part_ok:
  assumes "rules_ok env"
  shows "act_ok call_events (\<lambda>fs. calls_of fs = map tc_id cs)
    (then_act (part_loop env cs) (\<lambda>(fs, rest). then_act (part_skip env rest) (\<lambda>gs. return_act (fs @ gs))))"
proof (rule act_ok_then [OF part_loop_ok [OF assms]])
  fix x :: "'a finalized list \<times> 'a tool_call list"
  assume "case x of (fs, rest) \<Rightarrow> calls_of fs @ map tc_id rest = map tc_id cs"
  then show "act_ok call_events (\<lambda>fs. calls_of fs = map tc_id cs)
      (case x of (fs, rest) \<Rightarrow> then_act (part_skip env rest) (\<lambda>gs. return_act (fs @ gs)))"
    by (cases x) (auto intro!: act_ok_then [OF part_skip_ok])
qed

lemma merge_slots_calls:
  "calls_of ps = map tc_id (filter (\<lambda>c. \<not> q c) cs) \<Longrightarrow> calls_of ss = map tc_id (filter q cs) \<Longrightarrow>
     calls_of (merge_slots (map q cs) ps ss) = map tc_id cs"
proof (induction cs arbitrary: ps ss)
  case (Cons c cs)
  show ?case
  proof (cases "q c")
    case True
    then obtain s ss' where "ss = s # ss'" using Cons.prems(2) by (cases ss) simp_all
    then show ?thesis using True Cons by simp
  next
    case False
    then obtain r ps' where "ps = r # ps'" using Cons.prems(1) by (cases ps) simp_all
    then show ?thesis using False Cons by simp
  qed
qed simp

lemma partitioned_paired:
  assumes "quiet env" "rules_ok env" "distinct (map tc_id calls)"
  shows "paired calls (executeToolCallsPartitioned env s calls)"
  unfolding executeToolCallsPartitioned_def Let_def
proof (rule phase_then [OF unwind_ok [OF starts_ok unwinding_ids [OF assms(1,3)]]],
    rule phase_then [OF parallel_phase_ok [OF assms(2) unwinding_ids [OF assms(1,3)]]],
    rule phase_then [OF unwind_ok [OF sequential_part_ok [OF assms(2)] unwinding_ids [OF assms(1,3)]]])
  fix ps ss :: "'a finalized list"
  assume "map (\<lambda>f. tc_id (fc_toolCall f)) ps = map tc_id (filter (\<lambda>c. \<not> is_sequential env c) calls)"
    and ss: "calls_of ss = map tc_id (filter (is_sequential env) calls)"
  then have ps: "calls_of ps = map tc_id (filter (\<lambda>c. \<not> is_sequential env c) calls)" by (simp add: calls_of_def)
  show "paired calls (replay_results env calls (merge_slots (map (is_sequential env) calls) ps ss))"
    using merge_slots_calls [OF ps ss] by (intro replay_paired assms(1)) (simp add: calls_of_def)
qed

lemma execute_paired:
  assumes "quiet env" "rules_ok env" "distinct (map tc_id calls)"
  shows "paired calls (executeToolCalls env s calls)"
  using sequential_paired [OF assms] parallel_paired [OF assms] partitioned_paired [OF assms]
  by (simp add: executeToolCalls_def Let_def)


section \<open>What the executors emit\<close>

fun batch_event :: "'x event \<Rightarrow> bool" where
  "batch_event (MessageStart (ToolResultMsg m)) = True"
| "batch_event (MessageEnd (ToolResultMsg m)) = True"
| "batch_event e = call_event e"

definition batch_events :: "'x event list \<Rightarrow> bool" where
  "batch_events es \<longleftrightarrow> (\<forall>e \<in> set es. batch_event e)"

lemma batch_events_simps [simp]: "batch_events []" "batch_events (e # es) \<longleftrightarrow> batch_event e \<and> batch_events es"
  "batch_events (es @ fs) \<longleftrightarrow> batch_events es \<and> batch_events fs"
  by (auto simp: batch_events_def)

lemma call_batch: "call_events es \<Longrightarrow> batch_events es"
proof -
  have "call_event e \<Longrightarrow> batch_event e" for e :: "'a event" by (cases e) simp_all
  then show "call_events es \<Longrightarrow> batch_events es" by (simp add: call_events_def batch_events_def)
qed

lemma act_batch: "act_ok call_events Q m \<Longrightarrow> batch_events (fst m)"
  by (simp add: act_ok_def call_batch)

lemma batch_then: "batch_events (fst m) \<Longrightarrow> (\<And>a. batch_events (fst (f a))) \<Longrightarrow> batch_events (fst (then_act m f))"
  by (simp add: then_act_def split_beta split: sum.split)

lemma batch_return [simp]: "batch_events (fst (return_act a))"
  by (simp add: return_act_def)

lemma batch_result [simp]: "batch_events (fst (emitToolResultMessage env m))"
  unfolding emitToolResultMessage_def by (rule batch_then) (simp_all add: emit_def)

lemma batch_synthesized [simp]: "batch_events (synthesizeMissingToolResults env cs ids)"
  by (induction env cs ids rule: synthesizeMissingToolResults.induct) simp_all

lemma batch_start [simp]: "batch_events (fst (emit env (start_event c)))"
  by (simp add: emit_def start_event_def)

lemma batch_deliver [simp]: "batch_events (fst (deliver env f))"
  unfolding deliver_def by (rule batch_then) simp_all

lemma batch_end [simp]: "batch_events (fst (emitToolExecutionEnd env f))"
  unfolding emitToolExecutionEnd_def by (rule batch_then) (simp_all add: emit_def)

lemma batch_run: "rules_ok env \<Longrightarrow> batch_events (fst (run_call env c))"
  by (rule act_batch [OF run_call_ok])

lemma batch_sequential_call: "rules_ok env \<Longrightarrow> batch_events (fst (sequential_call env c))"
  unfolding sequential_call_def by (intro batch_then) (simp_all add: batch_run)

lemma batch_skipped_call: "batch_events (fst (skipped_call env c))"
  unfolding skipped_call_def by (intro batch_then) simp_all

lemma batch_skip_rest: "batch_events (fst (skip_rest env cs))"
proof (induction cs)
  case (Cons c cs)
  then show ?case using batch_skipped_call [of env c] by (auto simp: prepend_done_def split: prod.split sum.split)
qed simp

lemma batch_seq_loop: "rules_ok env \<Longrightarrow> batch_events (fst (seq_loop env cs))"
proof (induction cs)
  case (Cons c cs)
  then show ?case using batch_sequential_call [of env c] batch_skip_rest [of env cs]
    by (auto simp: prepend_done_def split: prod.split sum.split)
qed simp

lemma batch_sequential: "rules_ok env \<Longrightarrow> batch_events (fst (executeToolCallsSequential env cs))"
  using batch_seq_loop [of env cs] by (auto simp: executeToolCallsSequential_def split: prod.split sum.split)

lemma batch_weave: "\<forall>es \<in> set ess. batch_events es \<Longrightarrow> batch_events (weave_by is ess)"
proof (induction "is" ess rule: weave_by.induct)
  case (2 i "is" ess)
  show ?case
  proof (cases "i < length ess \<and> ess ! i \<noteq> []")
    case True
    have "batch_events (ess ! i)" using 2(3) True by simp
    then have e: "batch_event (hd (ess ! i))" "batch_events (tl (ess ! i))" using True by (cases "ess ! i"; simp)+
    then have "\<forall>es \<in> set (ess[i := tl (ess ! i)]). batch_events es"
      using 2(3) by (auto dest!: subsetD [OF set_update_subset_insert])
    then show ?thesis using 2(1) True e by simp
  next
    case False
    then have "weave_by (i # is) ess = weave_by is ess" by (simp only: weave_by.simps if_False)
    then show ?thesis using 2(2) [OF False 2(3)] by simp
  qed
qed (auto simp: batch_events_def)

lemma batch_take: "batch_events es \<Longrightarrow> batch_events (take n es)" "batch_events es \<Longrightarrow> batch_events (drop n es)"
  by (auto simp: batch_events_def dest: in_set_takeD in_set_dropD)

lemma batch_phase: "rules_ok env \<Longrightarrow> batch_events u \<Longrightarrow> batch_events (fst (parallel_phase env s cs u))"
proof -
  assume r: "rules_ok env" and u: "batch_events u"
  have "batch_events (weave_by (bs_order s) (map fst (map (runParallelCall env) cs)))"
    by (rule batch_weave) (auto intro: act_batch [OF run_parallel_ok [OF r]])
  then show ?thesis using u by (auto simp: parallel_phase_def Let_def batch_take intro!: batch_weave)
qed

lemma batch_emit_results: "batch_events (fst (emit_results env ms))"
proof (induction ms)
  case (Cons m ms)
  then show ?case using batch_result [of env m] by (auto simp del: batch_result split: prod.split sum.split)
qed simp

lemma batch_replay: "batch_events (fst (replay_results env cs fs))"
  using batch_emit_results [of env "map (createToolResultMessage env) fs"]
  by (auto simp: replay_results_def Let_def split: prod.split sum.split)

lemma batch_unwind: "batch_events u \<Longrightarrow> batch_events (fst m) \<Longrightarrow> batch_events (fst (unwind_with u m))"
  by (auto simp: unwind_with_def split: prod.split sum.split)

lemma batch_parallel: "rules_ok env \<Longrightarrow> batch_events (fst (executeToolCallsParallel env s cs))"
  unfolding parallel_as_phases
  by (intro batch_then batch_unwind batch_phase batch_replay act_batch [OF starts_ok]) simp_all

lemma batch_partitioned: "rules_ok env \<Longrightarrow> batch_events (fst (executeToolCallsPartitioned env s cs))"
  unfolding executeToolCallsPartitioned_def Let_def
  by (intro batch_then batch_unwind batch_phase batch_replay act_batch [OF starts_ok] act_batch [OF sequential_part_ok]) simp_all

lemma batch_execute: "rules_ok env \<Longrightarrow> batch_events (fst (executeToolCalls env s cs))"
  by (simp add: executeToolCalls_def Let_def batch_sequential batch_parallel batch_partitioned)

text \<open>C8: Every executor, whatever the tools do, whichever listeners of other events throw, wherever the run is aborted
  and however the concurrent calls interleave, emits exactly one result message per call, in call order, also
  when it unwinds; what it returns are these messages.
\<close>

theorem tool_results_paired:
  assumes "quiet env" "rules_ok env" "distinct (map tc_id calls)"
  shows "map rm_toolCallId (results (fst (executeToolCalls env s calls))) = map tc_id calls
    \<and> (case snd (executeToolCalls env s calls) of Inl err \<Rightarrow> True
       | Inr out \<Rightarrow> fst out = results (fst (executeToolCalls env s calls)))"
  using execute_paired [OF assms] by (simp add: paired_def)


section \<open>Nothing runs that was not cleared\<close>

definition validated :: "'x tool_env \<Rightarrow> 'x agent_tool \<Rightarrow> 'x tool_call \<Rightarrow> 'x json \<Rightarrow> bool" where
  "validated env tool c args \<longleftrightarrow> (\<exists>a. te_validate env tool (c\<lparr>tc_arguments := a\<rparr>) = Inr args)"

text \<open>
  The arguments the tool gets: validated ones, which the hook, if there is one, saw without throwing, blocking
  the call or seeing an abort; a change it flagged was validated again.
\<close>

definition cleared_args :: "'x tool_env \<Rightarrow> 'x agent_tool \<Rightarrow> 'x tool_call \<Rightarrow> 'x json \<Rightarrow> bool" where
  "cleared_args env tool c args =
     (case te_before env of
        None \<Rightarrow> validated env tool c args
      | Some hook \<Rightarrow> \<not> te_abortedInHook env c \<and>
          (\<exists>sent reason flagged left. validated env tool c sent \<and> hook c sent = BeforeDone False reason flagged left
             \<and> (if flagged then validated env tool c args else args = left)))"

lemma run_before_cleared:
  assumes "te_validate env tool c = Inr args0" "run_before env tool c args0 = Inr (Inr args)"
  shows "cleared_args env tool c args"
proof -
  have seen: "validated env tool c args0"
    unfolding validated_def by (rule exI [of _ "tc_arguments c"]) (simp add: assms(1))
  show ?thesis
  proof (cases "te_before env")
    case None
    then show ?thesis using assms(2) seen by (simp add: run_before_def cleared_args_def)
  next
    case (Some hook)
    then obtain reason flagged left where h: "hook c args0 = BeforeDone False reason flagged left" "\<not> te_abortedInHook env c"
      using assms(2) by (auto simp: run_before_def split: before_outcome.splits if_splits)
    have "if flagged then validated env tool c args else args = left"
      using Some h assms(2) by (auto simp: run_before_def validated_def split: sum.splits if_splits)
    then have "\<exists>sent reason flagged left. validated env tool c sent \<and> hook c sent = BeforeDone False reason flagged left
        \<and> (if flagged then validated env tool c args else args = left)"
      using seen h(1) by blast
    then show ?thesis using Some h(2) by (simp add: cleared_args_def)
  qed
qed

lemma validate_stage_cleared:
  assumes "validate_stage env tool sent c0 = Inr (Prepared c t args note)"
  shows "t = tool \<and> tc_id c = tc_id c0 \<and> tc_name c = tc_name c0 \<and> cleared_args env tool c args"
proof -
  define call where "call = c0\<lparr>tc_arguments := te_repair env (tc_arguments c0) tool\<rparr>"
  obtain args0 where v: "te_validate env tool call = Inr args0"
    using assms by (auto simp: validate_stage_def call_def Let_def split: sum.splits)
  obtain out where o: "run_before env tool call args0 = Inr out"
    using assms v by (auto simp: validate_stage_def call_def [symmetric] Let_def split: sum.splits)
  show ?thesis
  proof (cases out)
    case (Inl p)
    then have "p = Prepared c t args note" using assms v o by (simp add: validate_stage_def call_def [symmetric])
    then have False using run_before_immediate [of env tool call args0 p] o Inl
      by (auto simp: run_before_def split: option.splits before_outcome.splits if_splits sum.splits)
    then show ?thesis ..
  next
    case (Inr final)
    then have "call = c \<and> t = tool \<and> final = args" using assms v o by (simp add: validate_stage_def call_def [symmetric])
    then show ?thesis using run_before_cleared [OF v] o Inr by (auto simp: call_def)
  qed
qed

definition not_rejected :: "'x tool_env \<Rightarrow> 'x agent_tool \<Rightarrow> 'x tool_call \<Rightarrow> bool" where
  "not_rejected env tool call =
     (case te_rewriteRules env of
        None \<Rightarrow> True
      | Some rules \<Rightarrow> (case prepareToolCallArguments tool call of Inl err \<Rightarrow> False
                     | Inr c1 \<Rightarrow> (case rewrite_call rules c1 of Rejected e i \<Rightarrow> False | _ \<Rightarrow> True)))"

lemma prepare_in_try_cleared:
  assumes "rules_ok env" "prepare_in_try env tool call = (es, Inr (Prepared c t args note))"
  shows "t = tool \<and> tc_id c = tc_id call \<and> tc_name c = tc_name call \<and> not_rejected env tool call
     \<and> cleared_args env tool c args"
proof -
  obtain c1 where c1: "prepareToolCallArguments tool call = Inr c1"
    using assms(2) by (auto simp: prepare_in_try_def split: sum.splits)
  note i = prepared_arguments_id [OF c1]
  show ?thesis
  proof (cases "te_rewriteRules env")
    case None
    then have "validate_stage env tool (tc_arguments call) c1 = Inr (Prepared c t args note)"
      using assms(2) c1 by (simp add: prepare_in_try_def)
    then show ?thesis using validate_stage_cleared i None by (fastforce simp: not_rejected_def)
  next
    case (Some rules)
    then have r: "args_only rules" using assms(1) by (simp add: rules_ok_def)
    show ?thesis
    proof (cases "rewrite_call rules c1")
      case (Passed c')
      then have "validate_stage env tool (tc_arguments call) c1 = Inr (Prepared c t args note)"
        using assms(2) c1 Some by (simp add: prepare_in_try_def)
      then show ?thesis using validate_stage_cleared i Some Passed c1 by (fastforce simp: not_rejected_def)
    next
      case (Rewritten c2 ids)
      then have "validate_stage env tool (tc_arguments call) c2 = Inr (Prepared c t args note)"
        using assms(2) c1 Some by (auto simp: prepare_in_try_def then_act_def split: prod.splits sum.splits)
      then show ?thesis using validate_stage_cleared i Some Rewritten c1 rewrite_call_id [OF r Rewritten]
        by (fastforce simp: not_rejected_def)
    next
      case (Rejected err rid)
      then show ?thesis using assms(2) c1 Some
        by (auto simp: prepare_in_try_def then_act_def return_act_def split: prod.splits sum.splits)
    qed
  qed
qed

text \<open>C9: A call is handed to its tool only when it is cleared: its tool is the last registered under its name, a call
  of a mutating tool has no argument with the pruner's elision marker, no rule rejected it, and its arguments are
  validated ones that the hook has passed without throwing, blocking or aborting; a change the hook flagged was
  validated again.
\<close>

theorem prepared_is_cleared:
  assumes "rules_ok env" "prepareToolCall env call = (es, Prepared c tool args note)"
  shows "tool_of env (tc_name call) = Some tool \<and> tc_id c = tc_id call \<and> tc_name c = tc_name call
    \<and> \<not> (at_mutationGuard tool \<and> containsElidedArgMarker (tc_arguments call))
    \<and> not_rejected env tool call \<and> cleared_args env tool c args"
proof (cases "tool_of env (tc_name call)")
  case None
  then show ?thesis using assms(2) by (simp add: prepareToolCall_def)
next
  case (Some t)
  then have g: "\<not> (at_mutationGuard t \<and> containsElidedArgMarker (tc_arguments call))"
    using assms(2) by (auto simp: prepareToolCall_def)
  then have "prepare_in_try env t call = (es, Inr (Prepared c tool args note))"
    using assms(2) Some by (auto simp: prepareToolCall_def split: prod.splits sum.splits)
  then show ?thesis using prepare_in_try_cleared [OF assms(1)] Some g by blast
qed


text \<open>A change the hook makes below the top level, unflagged, reaches the tool without a second validation.\<close>

lemma nested_mutation_unvalidated:
  assumes "te_validate env tool c = Inr args0" "te_before env = Some (\<lambda>c a. BeforeDone False None False left)"
    "\<not> te_abortedInHook env c"
  shows "run_before env tool c args0 = Inr (Inr left)"
  using assms by (simp add: run_before_def)


section \<open>Witnesses\<close>

text \<open>
  A batch of a parallel tool, a sequential one and an unknown one; the listener of the first call's end throws.
\<close>

definition demo_result :: "nat tool_result" where
  "demo_result = \<lparr> tr_content = [TextBlock (js ''ok'')], tr_details = None, tr_terminate = None, tr_isError = None \<rparr>"

definition demo_tool :: "jsstr \<Rightarrow> bool \<Rightarrow> nat agent_tool" where
  "demo_tool name sq =
     \<lparr> at_name = name, at_sequential = sq, at_mutationGuard = sq, at_prepareArguments = None,
       at_execute = (\<lambda>i a. ([demo_result], Inr demo_result)) \<rparr>"

definition demo_env :: "nat tool_env" where
  "demo_env =
     \<lparr> te_tools = [demo_tool (js ''read'') False, demo_tool (js ''edit'') True],
       te_sequential = False, te_partitionDisabled = False,
       te_throws = (\<lambda>e. case e of ToolEnd i n r b \<Rightarrow> if i = [1] then Some (js ''doom loop'') else None | _ \<Rightarrow> None),
       te_unknownText = (\<lambda>n ns. js ''unknown tool''), te_rewriteRules = Some [demo_rule],
       te_repair = (\<lambda>a t. a), te_validate = (\<lambda>t c. Inr (tc_arguments c)), te_before = None,
       te_abortedInHook = (\<lambda>c. False), te_repairNote = None, te_abortWins = (\<lambda>c. False),
       te_hintRules = None, te_after = None, te_abortedAfter = (\<lambda>c. False), te_speculated = (\<lambda>c. False),
       te_clock = (\<lambda>i. 0) \<rparr>"

definition demo_schedule :: batch_schedule where
  "demo_schedule = \<lparr> bs_order = [0, 1], bs_first = 0, bs_seen = 2, bs_unwind = [1, 0] \<rparr>"

definition demo_calls :: "nat tool_call list" where
  "demo_calls = [demo_call [1] (js ''read''), demo_call [2] (js ''edit''), demo_call [3] (js ''grep'')]"

lemma demo_env_ok: "quiet demo_env" "rules_ok demo_env" "distinct (map tc_id demo_calls)"
  by (simp_all add: quiet_def demo_env_def rules_ok_def demo_rules_ok demo_calls_def demo_call_def)

theorem tool_results_paired_witness:
  "map rm_toolCallId (results (fst (executeToolCalls demo_env demo_schedule demo_calls))) = [[1], [2], [3]]"
  using conjunct1 [OF tool_results_paired [OF demo_env_ok, of demo_schedule]]
  by (simp add: demo_calls_def demo_call_def)

lemma rewrite_call_unmatched: "findMatch rules c [] = None \<Longrightarrow> rewrite_call rules c = Passed c"
  by (simp add: rewrite_call_def MAX_AUTO_CHAIN_def numeral_eq_Suc)

lemma demo_prepared: "prepareToolCall demo_env (demo_call [2] (js ''edit'')) =
    ([], Prepared (demo_call [2] (js ''edit'')) (demo_tool (js ''edit'') True) (JAtom 0) None)"
  by (simp add: prepareToolCall_def tool_of_def demo_env_def demo_tool_def demo_call_def prepare_in_try_def
      prepareToolCallArguments_def rewrite_call_unmatched findMatch_def demo_rule_def
      ruleAppliesTo_def js_def validate_stage_def run_before_def)

theorem prepared_is_cleared_witness:
  "tool_of demo_env (js ''edit'') = Some (demo_tool (js ''edit'') True)
    \<and> cleared_args demo_env (demo_tool (js ''edit'') True) (demo_call [2] (js ''edit'')) (JAtom 0)"
  using prepared_is_cleared [OF demo_env_ok(2) demo_prepared] by (simp add: demo_call_def)

end
