(* ===== verification/StreamGuards.thy ===== *)
theory StreamGuards
  imports EditText
begin

text \<open>
  The two guards that watch a model's answer while it streams: the stream rules (coding-agent/src/core/ttsr.ts),
  patterns over a rolling buffer, and the overthink guard (agent/src/overthink-guard.ts), which counts the
  characters and the self-reversals of a reasoning block. A compiled regular expression is a predicate on the
  text it is tested against.
\<close>


section \<open>Stream rules\<close>

datatype ttsr_scope = AssistantText | ToolArgs | AnyScope

datatype feed_scope = FeedText | FeedArgs

record raw_rule =
  rw_name :: jsstr
  rw_regex :: jsstr
  rw_message :: jsstr
  rw_scope :: "ttsr_scope option"
  rw_disabled :: bool

record stream_rule =
  sr_name :: jsstr
  sr_test :: "jsstr \<Rightarrow> bool"
  sr_source :: jsstr
  sr_message :: jsstr
  sr_scope :: ttsr_scope

definition parseRollingBufferChars :: "(jsstr \<Rightarrow> int option) \<Rightarrow> jsstr option \<Rightarrow> int" where
  "parseRollingBufferChars parse raw =
     (case raw of
        None \<Rightarrow> 2048
      | Some s \<Rightarrow> if s = [] then 2048
                  else (case parse s of None \<Rightarrow> 2048 | Some n \<Rightarrow> min 65536 (max 512 n)))"

text \<open>The rules in order; the first pattern that does not compile stops the load with its rule's name.\<close>

fun compileRules :: "(jsstr \<Rightarrow> jsstr + (jsstr \<Rightarrow> bool)) \<Rightarrow> raw_rule list \<Rightarrow> jsstr + stream_rule list" where
  "compileRules compile [] = Inr []"
| "compileRules compile (r # rs) =
     (if rw_disabled r then compileRules compile rs
      else case compile (rw_regex r) of
             Inl err \<Rightarrow> Inl (js ''TTSR: failed to compile regex for rule \"'' @ rw_name r @ js ''\": '' @ err)
           | Inr t \<Rightarrow>
               (case compileRules compile rs of
                  Inl err \<Rightarrow> Inl err
                | Inr cs \<Rightarrow> Inr (\<lparr> sr_name = rw_name r, sr_test = t, sr_source = rw_regex r, sr_message = rw_message r,
                                   sr_scope = (case rw_scope r of Some s \<Rightarrow> s | None \<Rightarrow> AssistantText) \<rparr> # cs)))"

record matcher =
  mt_text :: jsstr
  mt_args :: jsstr

definition matcher_reset :: "matcher \<Rightarrow> matcher" where
  "matcher_reset m = \<lparr> mt_text = [], mt_args = [] \<rparr>"

fun ruleMatchesScope :: "ttsr_scope \<Rightarrow> feed_scope \<Rightarrow> bool" where
  "ruleMatchesScope AnyScope f = True"
| "ruleMatchesScope AssistantText f = (f = FeedText)"
| "ruleMatchesScope ToolArgs f = (f = FeedArgs)"

definition buffer_of :: "feed_scope \<Rightarrow> matcher \<Rightarrow> jsstr" where
  "buffer_of sc m = (case sc of FeedText \<Rightarrow> mt_text m | FeedArgs \<Rightarrow> mt_args m)"

definition push_buffer :: "nat \<Rightarrow> jsstr \<Rightarrow> feed_scope \<Rightarrow> matcher \<Rightarrow> matcher" where
  "push_buffer B chunk sc m =
     (case sc of FeedText \<Rightarrow> m\<lparr>mt_text := slice_last B (mt_text m @ chunk)\<rparr>
      | FeedArgs \<Rightarrow> m\<lparr>mt_args := slice_last B (mt_args m @ chunk)\<rparr>)"

definition feed :: "nat \<Rightarrow> stream_rule list \<Rightarrow> jsstr \<Rightarrow> feed_scope \<Rightarrow> matcher \<Rightarrow> matcher \<times> stream_rule option" where
  "feed B rules chunk sc m =
     (if chunk = [] \<or> rules = [] then (m, None)
      else
        let m' = push_buffer B chunk sc m
        in case find (\<lambda>r. ruleMatchesScope (sr_scope r) sc \<and> sr_test r (buffer_of sc m')) rules of
             Some r \<Rightarrow> (matcher_reset m', Some r)
           | None \<Rightarrow> (m', None))"

text \<open>The first hit of a sequence of chunks of one scope.\<close>

fun feeds :: "nat \<Rightarrow> stream_rule list \<Rightarrow> feed_scope \<Rightarrow> jsstr list \<Rightarrow> matcher \<Rightarrow> stream_rule option" where
  "feeds B rules sc [] m = None"
| "feeds B rules sc (c # cs) m =
     (case feed B rules c sc m of (m', Some r) \<Rightarrow> Some r | (m', None) \<Rightarrow> feeds B rules sc cs m')"

lemma slice_last_drop: "0 < B \<Longrightarrow> slice_last B xs = drop (length xs - B) xs"
  by (simp add: slice_last_def)

lemma buffer_push: "0 < B \<Longrightarrow> buffer_of sc (push_buffer B c sc m) = drop (length (buffer_of sc m @ c) - B) (buffer_of sc m @ c)"
  by (cases sc) (simp_all add: buffer_of_def push_buffer_def slice_last_drop)

lemma last_of_last: "drop (length (drop (length p - B) p @ c) - B) (drop (length p - B) p @ c) = drop (length (p @ c) - B) (p @ c)"
  by (cases "length p \<le> B") (simp_all add: add.commute)

lemma find_hits: "r \<in> set xs \<Longrightarrow> P r \<Longrightarrow> \<exists>r'. find P xs = Some r'"
  by (cases "find P xs") (auto simp: find_None_iff)

lemma feed_tests:
  assumes "feed B rules c sc m = (m', None)" "0 < B" "r \<in> set rules" "ruleMatchesScope (sr_scope r) sc"
    "c \<noteq> []"
  shows "buffer_of sc m' = drop (length (buffer_of sc m @ c) - B) (buffer_of sc m @ c) \<and> \<not> sr_test r (buffer_of sc m')"
proof -
  have ne: "rules \<noteq> []" using assms(3) by auto
  have none: "find (\<lambda>r. ruleMatchesScope (sr_scope r) sc \<and> sr_test r (buffer_of sc (push_buffer B c sc m))) rules = None"
    and m': "m' = push_buffer B c sc m"
    using assms(1,5) ne by (auto simp: feed_def Let_def split: option.splits)
  then show ?thesis using assms(2-4) buffer_push by (auto simp: find_None_iff)
qed

text \<open>A rule that fires on every text containing \<open>u\<close>.\<close>

definition fires_on :: "stream_rule \<Rightarrow> jsstr \<Rightarrow> bool" where
  "fires_on r u \<longleftrightarrow> (\<forall>a b. sr_test r (a @ u @ b))"

lemma drop_keeps_infix:
  assumes "xs = a @ u @ b" "length u + length b \<le> B"
  shows "\<exists>a'. drop (length xs - B) xs = a' @ u @ b"
proof -
  have "length xs - B \<le> length a" using assms by simp
  then show ?thesis using assms(1) by (intro exI [of _ "drop (length xs - B) a"]) simp
qed

text \<open>
  If no chunk fires, \<open>u\<close> does not end within the chunks: the buffer, which is the last \<open>B\<close> units of what was fed,
  contained it when its last unit came.
\<close>

lemma no_hit_no_match:
  assumes "feeds B rules sc cs m = None" "0 < B" "r \<in> set rules" "ruleMatchesScope (sr_scope r) sc" "fires_on r u"
    "\<forall>c \<in> set cs. length u + length c \<le> B"
    "buffer_of sc m = drop (length pre - B) pre" "pre @ concat cs = a @ u @ b" "length b < length (concat cs)"
  shows False
  using assms
proof (induction cs arbitrary: m pre)
  case (Cons c cs)
  show ?case
  proof (cases "c = []")
    case True
    then have "feeds B rules sc cs m = None" using Cons.prems(1) by (simp add: feed_def)
    then show False using Cons.IH [of m pre] Cons.prems True by simp
  next
    case False
    obtain m' where f: "feed B rules c sc m = (m', None)" "feeds B rules sc cs m' = None"
      using Cons.prems(1) by (auto split: prod.splits option.splits)
    note t = feed_tests [OF f(1) Cons.prems(2-4) False]
    have buf: "buffer_of sc m' = drop (length (pre @ c) - B) (pre @ c)"
      using t Cons.prems(7) last_of_last by simp
    show False
    proof (cases "length b < length (concat cs)")
      case True
      then show False using Cons.IH [OF f(2) Cons.prems(2-5) _ buf] Cons.prems(6,8) by simp
    next
      case le: False
      define k where "k = length b - length (concat cs)"
      have "(pre @ c) @ concat cs = (a @ u @ take k b) @ drop k b" using Cons.prems(8) by simp
      moreover have "length (concat cs) = length (drop k b)" using le by (simp add: k_def)
      ultimately have e: "pre @ c = a @ u @ take k b \<and> concat cs = drop k b"
        by (metis append_eq_append_conv)
      define b' where "b' = take k b"
      have b': "b = b' @ concat cs" "pre @ c = a @ u @ b'" using e by (simp_all add: b'_def)
      have "length b' < length c" using Cons.prems(9) b'(1) by simp
      then have "length u + length b' \<le> B" using Cons.prems(6) by simp
      then obtain a' where "buffer_of sc m' = a' @ u @ b'" using drop_keeps_infix [OF b'(2)] buf by auto
      then show False using t Cons.prems(5) unfolding fires_on_def by metis
    qed
  qed
qed simp

lemma feed_buffer: "0 < B \<Longrightarrow> feed B rules c sc m = (m', Some r) \<Longrightarrow>
    r \<in> set rules \<and> ruleMatchesScope (sr_scope r) sc \<and> sr_test r (drop (length (buffer_of sc m @ c) - B) (buffer_of sc m @ c))"
  using buffer_push [of B sc c m]
  by (auto simp: feed_def Let_def find_Some_iff split: if_splits option.splits)

text \<open>A hit is a real match: some stretch of what was fed matches the rule.\<close>

lemma hit_is_match:
  "feeds B rules sc cs m = Some r \<Longrightarrow> 0 < B \<Longrightarrow> buffer_of sc m = drop (length pre - B) pre \<Longrightarrow>
     r \<in> set rules \<and> ruleMatchesScope (sr_scope r) sc \<and> (\<exists>a t b. pre @ concat cs = a @ t @ b \<and> sr_test r t)"
proof (induction cs arbitrary: m pre)
  case (Cons c cs)
  obtain m' h where f: "feed B rules c sc m = (m', h)" by fastforce
  show ?case
  proof (cases h)
    case (Some r')
    then have r: "r' = r" using Cons.prems(1) f by simp
    define k where "k = length (buffer_of sc m @ c) - B"
    have "buffer_of sc m @ c = drop (length pre - B) (pre @ c)" using Cons.prems(3) by simp
    then obtain j where "drop k (buffer_of sc m @ c) = drop j (pre @ c)" by (metis drop_drop)
    then have "sr_test r (drop j (pre @ c))" "r \<in> set rules" "ruleMatchesScope (sr_scope r) sc"
      using feed_buffer [OF Cons.prems(2), of rules c sc m m' r] f Some r by (simp_all add: k_def)
    moreover have "pre @ concat (c # cs) = take j (pre @ c) @ drop j (pre @ c) @ concat cs"
      by (metis append_assoc append_take_drop_id concat.simps(2))
    ultimately show ?thesis by blast
  next
    case None
    then have more: "feeds B rules sc cs m' = Some r" using Cons.prems(1) f by simp
    have "buffer_of sc m' = drop (length (pre @ c) - B) (pre @ c) \<or> (rules = [] \<and> m' = m) \<or> (c = [] \<and> m' = m)"
      using f None Cons.prems(2,3) buffer_push [of B sc c m] last_of_last
      by (auto simp: feed_def Let_def split: if_splits option.splits)
    then show ?thesis
    proof (elim disjE)
      assume "buffer_of sc m' = drop (length (pre @ c) - B) (pre @ c)"
      from Cons.IH [OF more Cons.prems(2) this] show ?thesis by simp
    next
      assume "rules = [] \<and> m' = m"
      then have "feeds B rules sc cs m = Some r" "rules = []" using more by simp_all
      moreover have "feeds B [] sc ds n = None" for ds n by (induction ds arbitrary: n) (simp_all add: feed_def)
      ultimately show ?thesis by simp
    next
      assume "c = [] \<and> m' = m"
      then have "buffer_of sc m' = drop (length pre - B) pre" "concat (c # cs) = concat cs" using Cons.prems(3) by simp_all
      from Cons.IH [OF more Cons.prems(2) this(1)] this(2) show ?thesis by simp
    qed
  qed
qed simp


text \<open>One chunk: a phrase that was not in what was fed, and fits in the buffer with the chunk, is not in it now.\<close>

lemma feed_no_phrase:
  assumes "feed B rules c sc m = (m', None)" "0 < B" "r \<in> set rules" "ruleMatchesScope (sr_scope r) sc" "fires_on r u"
    "length u + length c \<le> B" "buffer_of sc m = drop (length fed - B) fed" "\<forall>a b. fed \<noteq> a @ u @ b" "c \<noteq> []"
  shows "buffer_of sc m' = drop (length (fed @ c) - B) (fed @ c) \<and> (\<forall>a b. fed @ c \<noteq> a @ u @ b)"
proof
  show "buffer_of sc m' = drop (length (fed @ c) - B) (fed @ c)"
    using feed_tests [OF assms(1-4,9)] assms(7) last_of_last by simp
  have none: "feeds B rules sc [c] m = None" using assms(1) by simp
  show "\<forall>a b. fed @ c \<noteq> a @ u @ b"
  proof (intro allI notI)
    fix a b
    assume eq: "fed @ c = a @ u @ b"
    show False
    proof (cases "length b < length c")
      case True
      then show False using no_hit_no_match [OF none assms(2-5) _ assms(7), of a b] assms(6) eq by simp
    next
      case False
      then have "length fed \<ge> length (a @ u)" using arg_cong [OF eq, of length] by simp
      then have "fed = (a @ u) @ drop (length (a @ u)) fed" using eq
        by (metis append_assoc append_eq_append_conv_if append_take_drop_id)
      then show False using assms(8) by (metis append_assoc)
    qed
  qed
qed

lemma feed_other_scope: "feed B rules c sc m = (m', None) \<Longrightarrow> sc' \<noteq> sc \<Longrightarrow> buffer_of sc' m' = buffer_of sc' m"
  by (cases sc; cases sc') (auto simp: feed_def Let_def push_buffer_def buffer_of_def split: if_splits option.splits)

lemma buffer_reset: "buffer_of sc (matcher_reset m) = []"
  by (cases sc) (simp_all add: buffer_of_def matcher_reset_def)

text \<open>
  However the text of a stream is cut into chunks, a rule that fires on every text containing a phrase fires
  some rule once the phrase has been fed, as long as the phrase and a chunk fit in the rolling buffer together;
  and a hit is a match of a rule of that scope in a stretch of the text that was fed.
\<close>

theorem stream_rules_see_phrases:
  assumes "0 < B" "r \<in> set rules" "ruleMatchesScope (sr_scope r) sc" "fires_on r u" "u \<noteq> []"
    "\<forall>c \<in> set cs. length u + length c \<le> B" "concat cs = a @ u @ b"
  shows "case feeds B rules sc cs (matcher_reset m) of
      None \<Rightarrow> False
    | Some r' \<Rightarrow> r' \<in> set rules \<and> ruleMatchesScope (sr_scope r') sc \<and> (\<exists>x t y. concat cs = x @ t @ y \<and> sr_test r' t)"
proof (cases "feeds B rules sc cs (matcher_reset m)")
  case None
  have "length b < length (concat cs)" using assms(5,7) by simp
  then show ?thesis using no_hit_no_match [OF None assms(1-4,6), of "[]" a b] assms(7) by (simp add: buffer_reset)
next
  case (Some r')
  then show ?thesis using hit_is_match [OF Some assms(1), of "[]"] by (simp add: buffer_reset)
qed

text \<open>
  A chunk larger than the buffer loses what it pushes out: the phrase of the first 500 units is seen when it is
  fed on its own, and missed when a coalesced feed delivers it with the 2000 units after it.
\<close>

lemma coalesced_feed_misses:
  fixes r :: stream_rule
  assumes "\<And>s. sr_test r s \<longleftrightarrow> 1 \<in> set s" "sr_scope r = AssistantText"
  shows "feeds 2048 [r] FeedText [1 # replicate 499 0, replicate 2000 0] (matcher_reset m) = Some r
    \<and> feeds 2048 [r] FeedText [(1 # replicate 499 0) @ replicate 2000 0] (matcher_reset m) = None"
proof
  show "feeds 2048 [r] FeedText [1 # replicate 499 0, replicate 2000 0] (matcher_reset m) = Some r"
    using assms by (simp add: feed_def Let_def buffer_of_def push_buffer_def matcher_reset_def slice_last_def)
  have "slice_last 2048 ((1 # replicate 499 0) @ replicate 2000 (0::jschar)) = replicate 2048 0"
    by (simp add: slice_last_def drop_Cons' flip: replicate_add)
  then show "feeds 2048 [r] FeedText [(1 # replicate 499 0) @ replicate 2000 0] (matcher_reset m) = None"
    using assms by (simp add: feed_def Let_def buffer_of_def push_buffer_def matcher_reset_def)
qed


section \<open>Overthinking\<close>

definition THINKING_CHARS_PER_TOKEN :: nat where "THINKING_CHARS_PER_TOKEN = 4"

definition OVERTHINK_RUMINATION_MARKERS :: "jsstr list" where
  "OVERTHINK_RUMINATION_MARKERS =
     [js ''wait'', js ''actually'', js ''on second thought'', js ''let me reconsider'', js ''hmm, but'',
      js ''scratch that'', js ''hold on'', js ''let me rethink'']"

definition OVERTHINK_MARKER_TAIL_LEN :: nat where
  "OVERTHINK_MARKER_TAIL_LEN = max 32 (fold max (map length OVERTHINK_RUMINATION_MARKERS) 0 - 1)"

definition DEFAULT_OVERTHINK_RUMINATION_MARKER_THRESHOLD :: nat where
  "DEFAULT_OVERTHINK_RUMINATION_MARKER_THRESHOLD = 4"

definition DEFAULT_OVERTHINK_RUMINATION_MIN_TOKENS :: nat where
  "DEFAULT_OVERTHINK_RUMINATION_MIN_TOKENS = 400"

text \<open>The pattern \<open>\b(?:marker|...)\b\<close>, ignoring the case of ASCII letters.\<close>

definition word_unit :: "jschar \<Rightarrow> bool" where
  "word_unit c \<longleftrightarrow> (48 \<le> c \<and> c \<le> 57) \<or> (65 \<le> c \<and> c \<le> 90) \<or> c = 95 \<or> (97 \<le> c \<and> c \<le> 122)"

definition lower_unit :: "jschar \<Rightarrow> jschar" where
  "lower_unit c = (if 65 \<le> c \<and> c \<le> 90 then c + 32 else c)"

definition word_boundary :: "jsstr \<Rightarrow> nat \<Rightarrow> bool" where
  "word_boundary s i \<longleftrightarrow> (0 < i \<and> i \<le> length s \<and> word_unit (s ! (i - 1))) \<noteq> (i < length s \<and> word_unit (s ! i))"

definition marker_at :: "jsstr \<Rightarrow> nat \<Rightarrow> jsstr option" where
  "marker_at s i =
     find (\<lambda>m. map lower_unit (take (length m) (drop i s)) = m \<and> word_boundary s i \<and> word_boundary s (i + length m))
       OVERTHINK_RUMINATION_MARKERS"

lemma marker_at_pos: "marker_at s i = Some m \<Longrightarrow> 0 < length m"
  by (auto simp: marker_at_def find_Some_iff OVERTHINK_RUMINATION_MARKERS_def js_def nth_Cons' split: if_splits)

text \<open>The ends of the matches \<open>matchAll\<close> finds from index \<open>i\<close> on.\<close>

function marker_ends :: "jsstr \<Rightarrow> nat \<Rightarrow> nat list" where
  "marker_ends s i =
     (if length s \<le> i then []
      else case marker_at s i of
             None \<Rightarrow> marker_ends s (Suc i)
           | Some m \<Rightarrow> (i + length m) # marker_ends s (i + length m))"
  by auto
termination by (relation "measure (\<lambda>(s, i). length s - i)") (auto dest!: marker_at_pos intro!: diff_less_mono2)

declare marker_ends.simps [simp del]

record overthink =
  ot_chars :: "nat \<Rightarrow> nat option"
  ot_markers :: "nat \<Rightarrow> nat option"
  ot_tails :: "nat \<Rightarrow> jsstr option"
  ot_toolCallStarted :: bool
  ot_seenThinking :: bool
  ot_watchText :: bool

definition new_overthink :: "bool \<Rightarrow> overthink" where
  "new_overthink watch =
     \<lparr> ot_chars = Map.empty, ot_markers = Map.empty, ot_tails = Map.empty,
       ot_toolCallStarted = False, ot_seenThinking = False, ot_watchText = watch \<rparr>"

definition onBlockStart :: "nat \<Rightarrow> overthink \<Rightarrow> overthink" where
  "onBlockStart i t = t\<lparr>ot_chars := (ot_chars t)(i \<mapsto> 0), ot_markers := (ot_markers t)(i \<mapsto> 0), ot_tails := (ot_tails t)(i \<mapsto> [])\<rparr>"

definition or_zero :: "nat option \<Rightarrow> nat" where
  "or_zero n = (case n of Some k \<Rightarrow> k | None \<Rightarrow> 0)"

lemma or_zero_simps [simp]: "or_zero (Some k) = k" "or_zero None = 0"
  by (simp_all add: or_zero_def)

definition estimateThinkingTokensFromChars :: "nat \<Rightarrow> nat" where
  "estimateThinkingTokensFromChars chars = (chars + (THINKING_CHARS_PER_TOKEN - 1)) div THINKING_CHARS_PER_TOKEN"

definition getEstimatedTokens :: "nat \<Rightarrow> overthink \<Rightarrow> nat" where
  "getEstimatedTokens i t = estimateThinkingTokensFromChars (or_zero (ot_chars t i))"

definition countMarkers :: "nat \<Rightarrow> jsstr \<Rightarrow> overthink \<Rightarrow> overthink" where
  "countMarkers i delta t =
     (if delta = [] then t
      else
        let tail = (case ot_tails t i of Some s \<Rightarrow> s | None \<Rightarrow> []);
            scan = tail @ delta;
            added = length (filter (\<lambda>e. length tail < e) (marker_ends scan 0))
        in t\<lparr>ot_markers := (if 0 < added then (ot_markers t)(i \<mapsto> or_zero (ot_markers t i) + added) else ot_markers t),
             ot_tails := (ot_tails t)(i \<mapsto> slice_last OVERTHINK_MARKER_TAIL_LEN scan)\<rparr>)"

definition accumulate :: "nat \<Rightarrow> jsstr \<Rightarrow> overthink \<Rightarrow> overthink" where
  "accumulate i delta t = countMarkers i delta (t\<lparr>ot_chars := (ot_chars t)(i \<mapsto> or_zero (ot_chars t i) + length delta)\<rparr>)"

datatype overthink_op =
    ThinkingStarts nat | TextStarts nat | ThinkingArrives nat jsstr | TextArrives nat jsstr | ToolCallStarts

fun overthink_step :: "overthink_op \<Rightarrow> overthink \<Rightarrow> overthink" where
  "overthink_step (ThinkingStarts i) t = onBlockStart i t"
| "overthink_step (TextStarts i) t = (if ot_watchText t \<and> \<not> ot_seenThinking t then onBlockStart i t else t)"
| "overthink_step (ThinkingArrives i s) t = accumulate i s (t\<lparr>ot_seenThinking := True\<rparr>)"
| "overthink_step (TextArrives i s) t = (if \<not> ot_watchText t \<or> ot_seenThinking t then t else accumulate i s t)"
| "overthink_step ToolCallStarts t = t\<lparr>ot_toolCallStarted := True\<rparr>"

datatype interrupt_reason = Rumination nat | Volume

definition getInterruptInfo :: "nat \<Rightarrow> nat \<Rightarrow> overthink \<Rightarrow> (nat \<times> nat \<times> interrupt_reason) option" where
  "getInterruptInfo i threshold t =
     (if ot_toolCallStarted t then None
      else
        let tokens = getEstimatedTokens i t; markers = or_zero (ot_markers t i)
        in if DEFAULT_OVERTHINK_RUMINATION_MARKER_THRESHOLD \<le> markers \<and> DEFAULT_OVERTHINK_RUMINATION_MIN_TOKENS \<le> tokens
           then Some (tokens, threshold, Rumination markers)
           else if threshold \<le> tokens then Some (tokens, threshold, Volume) else None)"

text \<open>
  The units of a block since it last started, over the whole history of the stream: thinking counts always,
  text only while the guard watches it and no thinking has arrived.
\<close>

fun counted :: "bool \<Rightarrow> bool \<Rightarrow> nat \<Rightarrow> overthink_op list \<Rightarrow> nat \<Rightarrow> nat" where
  "counted watch seen i [] n = n"
| "counted watch seen i (ThinkingStarts j # ops) n = counted watch seen i ops (if j = i then 0 else n)"
| "counted watch seen i (TextStarts j # ops) n = counted watch seen i ops (if j = i \<and> watch \<and> \<not> seen then 0 else n)"
| "counted watch seen i (ThinkingArrives j s # ops) n = counted watch True i ops (if j = i then n + length s else n)"
| "counted watch seen i (TextArrives j s # ops) n =
     counted watch seen i ops (if j = i \<and> watch \<and> \<not> seen then n + length s else n)"
| "counted watch seen i (ToolCallStarts # ops) n = counted watch seen i ops n"

lemma countMarkers_keeps [simp]:
  "ot_chars (countMarkers i d t) = ot_chars t" "ot_watchText (countMarkers i d t) = ot_watchText t"
  "ot_seenThinking (countMarkers i d t) = ot_seenThinking t" "ot_toolCallStarted (countMarkers i d t) = ot_toolCallStarted t"
  by (simp_all add: countMarkers_def Let_def)

lemma overthink_chars:
  "or_zero (ot_chars (fold overthink_step ops t) i) = counted (ot_watchText t) (ot_seenThinking t) i ops (or_zero (ot_chars t i))
    \<and> (ot_toolCallStarted (fold overthink_step ops t) \<longleftrightarrow> ot_toolCallStarted t \<or> ToolCallStarts \<in> set ops)"
proof (induction ops arbitrary: t)
  case (Cons op ops)
  show ?case
    by (cases op) (auto simp: Cons.IH onBlockStart_def accumulate_def)
qed simp

text \<open>
  The guard interrupts a block of reasoning exactly when no tool call has started and either the tokens
  estimated from the units of the block since its start reach the limit, or they reach the floor and four
  self-reversals were counted; the estimate it reports is that number.
\<close>

theorem overthink_interrupt_exact:
  "getInterruptInfo i threshold (fold overthink_step ops (new_overthink watch)) =
     (let tokens = (counted watch False i ops 0 + 3) div 4;
          markers = or_zero (ot_markers (fold overthink_step ops (new_overthink watch)) i)
      in if ToolCallStarts \<in> set ops then None
         else if 4 \<le> markers \<and> 400 \<le> tokens then Some (tokens, threshold, Rumination markers)
         else if threshold \<le> tokens then Some (tokens, threshold, Volume) else None)"
  using overthink_chars [of ops "new_overthink watch" i]
  by (simp add: getInterruptInfo_def Let_def getEstimatedTokens_def estimateThinkingTokensFromChars_def
      THINKING_CHARS_PER_TOKEN_def DEFAULT_OVERTHINK_RUMINATION_MARKER_THRESHOLD_def
      DEFAULT_OVERTHINK_RUMINATION_MIN_TOKENS_def new_overthink_def or_zero_def)

text \<open>The word \<open>waiting\<close> does not count when it arrives whole, and counts when it arrives as \<open>wait\<close> and \<open>ing\<close>.\<close>

lemma split_word_counts:
  "or_zero (ot_markers (fold overthink_step [ThinkingArrives 0 (js ''waiting'')] (new_overthink False)) 0) = 0"
  "or_zero (ot_markers (fold overthink_step [ThinkingArrives 0 (js ''wait''), ThinkingArrives 0 (js ''ing'')] (new_overthink False)) 0) = 1"
  by code_simp+



section \<open>Witnesses\<close>

definition demo_stream_rule :: stream_rule where
  "demo_stream_rule = \<lparr> sr_name = js ''no-one'', sr_test = (\<lambda>s. 1 \<in> set s), sr_source = [1], sr_message = js ''stop'', sr_scope = AssistantText \<rparr>"

lemma demo_stream_rule_ok: "demo_stream_rule \<in> set [demo_stream_rule]" "ruleMatchesScope (sr_scope demo_stream_rule) FeedText"
  "fires_on demo_stream_rule [1]"
  by (simp_all add: demo_stream_rule_def fires_on_def)

theorem stream_rules_see_phrases_witness:
  "feeds 8 [demo_stream_rule] FeedText [[0, 0], [0, 1, 0]] \<lparr> mt_text = [], mt_args = [] \<rparr> \<noteq> None"
  using stream_rules_see_phrases [OF _ demo_stream_rule_ok, of 8 "[[0, 0], [0, 1, 0]]" "[0, 0, 0]" "[0]" undefined]
  by (auto simp: matcher_reset_def split: option.splits)

end
