(* ===== verification/StreamTurn.thy ===== *)
theory StreamTurn
  imports ToolBatch StreamGuards
begin

text \<open>
  One attempt to stream an assistant message (\<open>streamAssistantResponse\<close> in agent/src/agent-loop.ts): the events of
  the provider are coalesced into message updates, watched by the stream rules and the overthink guard, and end
  in a published message, a guard's interrupt, or an error. What the provider sends, when, and how it ends are
  arguments; the time readings come with the events that cause them.
\<close>


section \<open>What the provider sends\<close>

text \<open>
  The readings of a delta: at the flush before it, at the test of the frame window, and at the flush after it.
\<close>

datatype 'x provider_event =
    PStart "'x assistant"
  | PDelta delta_kind nat jsstr "'x assistant" int int int
  | PBoundary boundary_kind nat "'x assistant" int
  | PDone "'x assistant" int

text \<open>
  The end of the stream without a terminal event: the iterator drained, with the result if it has resolved; the
  round's wall clock ran out; or something else threw.
\<close>

datatype 'x stream_end = Drained "'x assistant option" int | TimedOut jsstr int | Breaks jsstr

datatype interrupt = TTSRHit jsstr jsstr | Overthought nat nat interrupt_reason

record overthink_guard =
  og_tokenThreshold :: nat
  og_maxRetries :: nat
  og_watchText :: bool

record stream_env =
  sv_model :: jsstr
  sv_rules :: "stream_rule list option"
  sv_buffer :: nat
  sv_coalesced :: bool
  sv_guard :: "overthink_guard option"

definition DELTA_THROTTLE_MS :: int where "DELTA_THROTTLE_MS = 16"

definition TTSR_PENDING_FEED_CHARS :: nat where "TTSR_PENDING_FEED_CHARS = 512"


section \<open>The state of an attempt\<close>

record 'x stream_state =
  ss_context :: "'x message list"
  ss_partial :: "'x assistant option"
  ss_added :: bool
  ss_pending :: "(delta_kind \<times> nat \<times> jsstr) option"
  ss_lastEmit :: int
  ss_text :: jsstr
  ss_args :: jsstr
  ss_matcher :: matcher
  ss_tracker :: "overthink option"
  ss_interrupt :: "interrupt option"
  ss_trace :: "'x event list"

datatype 'x stream_outcome = Going | Answered "'x assistant" | Interrupted interrupt | Failed jsstr

definition start_stream :: "stream_env \<Rightarrow> 'x message list \<Rightarrow> matcher \<Rightarrow> 'x stream_state" where
  "start_stream sv ctx m =
     \<lparr> ss_context = ctx, ss_partial = None, ss_added = False, ss_pending = None, ss_lastEmit = 0,
       ss_text = [], ss_args = [], ss_matcher = m,
       ss_tracker = map_option (\<lambda>g. new_overthink (og_watchText g)) (sv_guard sv),
       ss_interrupt = None, ss_trace = [] \<rparr>"

definition buildErrorTurn :: "jsstr \<Rightarrow> jsstr \<Rightarrow> 'x assistant" where
  "buildErrorTurn model err =
     \<lparr> am_content = [TextPart []], am_model = model, am_stopReason = js ''error'', am_errorMessage = Some err \<rparr>"

definition markStreamGuardAbort :: "'x assistant \<Rightarrow> 'x message" where
  "markStreamGuardAbort p =
     GuardAbortMsg (p\<lparr>am_stopReason := js ''aborted'', am_errorMessage := Some (js ''Stream interrupted by guard'')\<rparr>)"

definition set_last :: "'x message list \<Rightarrow> 'x assistant \<Rightarrow> 'x message list" where
  "set_last ms a = butlast ms @ [AssistantMsg a]"

text \<open>Emit and go on, unless the listener throws.\<close>

definition emit_then :: "'x tool_env \<Rightarrow> 'x event \<Rightarrow> 'x stream_outcome \<Rightarrow> 'x stream_state \<Rightarrow> 'x stream_state \<times> 'x stream_outcome" where
  "emit_then env e out s =
     (s\<lparr>ss_trace := ss_trace s @ [e]\<rparr>, case te_throws env e of Some err \<Rightarrow> Failed err | None \<Rightarrow> out)"


section \<open>Flushing\<close>

definition feedTtsr :: "stream_env \<Rightarrow> jsstr \<Rightarrow> feed_scope \<Rightarrow> 'x stream_state \<Rightarrow> 'x stream_state" where
  "feedTtsr sv chunk sc s =
     (case sv_rules sv of
        None \<Rightarrow> s
      | Some rules \<Rightarrow>
          if ss_interrupt s \<noteq> None \<or> chunk = [] then s
          else (case feed (sv_buffer sv) rules chunk sc (ss_matcher s) of
                  (m, None) \<Rightarrow> s\<lparr>ss_matcher := m\<rparr>
                | (m, Some r) \<Rightarrow> s\<lparr>ss_matcher := m, ss_interrupt := Some (TTSRHit (sr_name r) (sr_message r))\<rparr>))"

definition flushPendingTtsr :: "stream_env \<Rightarrow> 'x stream_state \<Rightarrow> 'x stream_state" where
  "flushPendingTtsr sv s =
     (let s1 = feedTtsr sv (ss_text s) FeedText (s\<lparr>ss_text := []\<rparr>)
      in feedTtsr sv (ss_args s1) FeedArgs (s1\<lparr>ss_args := []\<rparr>))"

text \<open>
  Updates are queued and emitted in order; the queue swallows what a listener throws, and is drained before
  anything else is emitted.
\<close>

definition flushPendingDelta :: "stream_env \<Rightarrow> int \<Rightarrow> 'x stream_state \<Rightarrow> 'x stream_state" where
  "flushPendingDelta sv now s0 =
     (let s = flushPendingTtsr sv s0
      in case (ss_pending s, ss_partial s) of
           (Some (k, i, d), Some p) \<Rightarrow>
             s\<lparr>ss_pending := None, ss_trace := ss_trace s @ [MessageUpdate (DeltaUpdate k i d) p], ss_lastEmit := now\<rparr>
         | _ \<Rightarrow> s)"

definition finalizeStreamInterrupt :: "'x tool_env \<Rightarrow> stream_env \<Rightarrow> int \<Rightarrow> interrupt \<Rightarrow> 'x stream_state \<Rightarrow> 'x stream_state \<times> 'x stream_outcome" where
  "finalizeStreamInterrupt env sv now i s0 =
     (let s = flushPendingDelta sv now s0
      in case ss_partial s of
           Some p \<Rightarrow>
             if ss_added s
             then emit_then env (MessageEnd (markStreamGuardAbort p)) (Interrupted i)
                    (s\<lparr>ss_context := butlast (ss_context s), ss_added := False\<rparr>)
             else (s, Interrupted i)
         | None \<Rightarrow> (s, Interrupted i))"

definition publishFinalAssistantMessage :: "'x tool_env \<Rightarrow> 'x assistant \<Rightarrow> 'x stream_state \<Rightarrow> 'x stream_state \<times> 'x stream_outcome" where
  "publishFinalAssistantMessage env final s =
     (if ss_added s
      then emit_then env (MessageEnd (AssistantMsg final)) (Answered final) (s\<lparr>ss_context := set_last (ss_context s) final\<rparr>)
      else
        case emit_then env (MessageStart (AssistantMsg final)) Going
               (s\<lparr>ss_context := ss_context s @ [AssistantMsg final]\<rparr>) of
          (s1, Failed err) \<Rightarrow> (s1, Failed err)
        | (s1, _) \<Rightarrow> emit_then env (MessageEnd (AssistantMsg final)) (Answered final) s1)"


section \<open>One event\<close>

definition scope_of :: "delta_kind \<Rightarrow> feed_scope option" where
  "scope_of k = (case k of TextDelta \<Rightarrow> Some FeedText | ToolcallDelta \<Rightarrow> Some FeedArgs | ThinkingDelta \<Rightarrow> None)"

definition feed_delta :: "stream_env \<Rightarrow> delta_kind \<Rightarrow> jsstr \<Rightarrow> 'x stream_state \<Rightarrow> 'x stream_state" where
  "feed_delta sv k d s =
     (if sv_rules sv = None \<or> ss_interrupt s \<noteq> None then s
      else case scope_of k of
             None \<Rightarrow> s
           | Some sc \<Rightarrow>
               if \<not> sv_coalesced sv then feedTtsr sv d sc s
               else (case sc of
                       FeedText \<Rightarrow>
                         let s1 = s\<lparr>ss_text := ss_text s @ d\<rparr>
                         in if TTSR_PENDING_FEED_CHARS \<le> length (ss_text s1) then flushPendingTtsr sv s1 else s1
                     | FeedArgs \<Rightarrow>
                         let s1 = s\<lparr>ss_args := ss_args s @ d\<rparr>
                         in if TTSR_PENDING_FEED_CHARS \<le> length (ss_args s1) then flushPendingTtsr sv s1 else s1))"

definition watch_delta :: "stream_env \<Rightarrow> delta_kind \<Rightarrow> nat \<Rightarrow> jsstr \<Rightarrow> 'x stream_state \<Rightarrow> 'x stream_state" where
  "watch_delta sv k i d s =
     (case (sv_guard sv, ss_tracker s) of
        (Some g, Some t0) \<Rightarrow>
          if ss_interrupt s \<noteq> None then s
          else
            let t = (case k of
                       ThinkingDelta \<Rightarrow> overthink_step (ThinkingArrives i d) t0
                     | TextDelta \<Rightarrow> if og_watchText g then overthink_step (TextArrives i d) t0 else t0
                     | ToolcallDelta \<Rightarrow> t0)
            in s\<lparr>ss_tracker := Some t,
                 ss_interrupt := map_option (\<lambda>(n, th, why). Overthought n th why) (getInterruptInfo i (og_tokenThreshold g) t)\<rparr>
      | _ \<Rightarrow> s)"

definition coalesce :: "stream_env \<Rightarrow> delta_kind \<Rightarrow> nat \<Rightarrow> jsstr \<Rightarrow> int \<Rightarrow> 'x stream_state \<Rightarrow> 'x stream_state" where
  "coalesce sv k i d now s =
     (case ss_pending s of
        Some (k', i', d') \<Rightarrow>
          if k' = k \<and> i' = i then s\<lparr>ss_pending := Some (k, i, d' @ d)\<rparr>
          else (flushPendingDelta sv now s)\<lparr>ss_pending := Some (k, i, d)\<rparr>
      | None \<Rightarrow> (flushPendingDelta sv now s)\<lparr>ss_pending := Some (k, i, d)\<rparr>)"

definition watch_boundary :: "stream_env \<Rightarrow> boundary_kind \<Rightarrow> nat \<Rightarrow> 'x stream_state \<Rightarrow> 'x stream_state" where
  "watch_boundary sv k i s =
     (case (sv_guard sv, ss_tracker s) of
        (Some g, Some t) \<Rightarrow>
          s\<lparr>ss_tracker := Some (case k of
              ThinkingStart \<Rightarrow> overthink_step (ThinkingStarts i) t
            | TextStart \<Rightarrow> if og_watchText g then overthink_step (TextStarts i) t else t
            | ToolcallStart \<Rightarrow> overthink_step ToolCallStarts t
            | _ \<Rightarrow> t)\<rparr>
      | _ \<Rightarrow> s)"

text \<open>The state after a delta: the partial message, the guards, the pending update, and the flush of the frame.\<close>

definition watched_delta :: "stream_env \<Rightarrow> delta_kind \<Rightarrow> nat \<Rightarrow> jsstr \<Rightarrow> 'x assistant \<Rightarrow> 'x stream_state \<Rightarrow> 'x stream_state" where
  "watched_delta sv k i d p s =
     watch_delta sv k i d (feed_delta sv k d (s\<lparr>ss_partial := Some p, ss_context := set_last (ss_context s) p\<rparr>))"

definition flush_frame :: "stream_env \<Rightarrow> int \<Rightarrow> int \<Rightarrow> 'x stream_state \<Rightarrow> 'x stream_state" where
  "flush_frame sv now t s = (if DELTA_THROTTLE_MS \<le> now - ss_lastEmit s then flushPendingDelta sv t s else s)"

definition take_delta :: "stream_env \<Rightarrow> delta_kind \<Rightarrow> nat \<Rightarrow> jsstr \<Rightarrow> 'x assistant \<Rightarrow> int \<Rightarrow> int \<Rightarrow> int \<Rightarrow> 'x stream_state \<Rightarrow> 'x stream_state" where
  "take_delta sv k i d p t1 t2 t3 s = flush_frame sv t2 t3 (coalesce sv k i d t1 (watched_delta sv k i d p s))"

fun stream_step :: "'x tool_env \<Rightarrow> stream_env \<Rightarrow> 'x provider_event \<Rightarrow> 'x stream_state \<Rightarrow> 'x stream_state \<times> 'x stream_outcome" where
  "stream_step env sv (PStart p) s =
     emit_then env (MessageStart (AssistantMsg p)) Going
       (s\<lparr>ss_partial := Some p, ss_context := ss_context s @ [AssistantMsg p], ss_added := True\<rparr>)"
| "stream_step env sv (PDelta k i d p t1 t2 t3) s =
     (if ss_partial s = None then (s, Going)
      else
        let s1 = take_delta sv k i d p t1 t2 t3 s
        in case ss_interrupt s1 of
             Some irq \<Rightarrow> finalizeStreamInterrupt env sv t3 irq s1
           | None \<Rightarrow> (s1, Going))"
| "stream_step env sv (PBoundary k i p now) s =
     (let s1 = flushPendingDelta sv now (watch_boundary sv k i s)
      in case ss_interrupt s1 of
           Some irq \<Rightarrow> finalizeStreamInterrupt env sv now irq s1
         | None \<Rightarrow>
             (case ss_partial s1 of
                None \<Rightarrow> (s1, Going)
              | Some old \<Rightarrow> emit_then env (MessageUpdate (BoundaryUpdate k i) p) Going
                              (s1\<lparr>ss_partial := Some p, ss_context := set_last (ss_context s1) p\<rparr>)))"
| "stream_step env sv (PDone final now) s =
     (let s1 = flushPendingDelta sv now s
      in case ss_interrupt s1 of
           Some irq \<Rightarrow> finalizeStreamInterrupt env sv now irq s1
         | None \<Rightarrow> publishFinalAssistantMessage env final s1)"


section \<open>The whole attempt\<close>

fun stream_ends :: "'x tool_env \<Rightarrow> stream_env \<Rightarrow> 'x stream_end \<Rightarrow> 'x stream_state \<Rightarrow> 'x stream_state \<times> 'x stream_outcome" where
  "stream_ends env sv (Drained result now) s =
     (let s1 = flushPendingDelta sv now s
      in case ss_interrupt s1 of
           Some irq \<Rightarrow> finalizeStreamInterrupt env sv now irq s1
         | None \<Rightarrow> publishFinalAssistantMessage env
                     (case result of Some a \<Rightarrow> a | None \<Rightarrow> buildErrorTurn (sv_model sv) (js ''Stream ended without a terminal event'')) s1)"
| "stream_ends env sv (TimedOut err now) s =
     publishFinalAssistantMessage env (buildErrorTurn (sv_model sv) err) (flushPendingDelta sv now s)"
| "stream_ends env sv (Breaks err) s = (s, Failed err)"

fun run_stream :: "'x tool_env \<Rightarrow> stream_env \<Rightarrow> 'x provider_event list \<Rightarrow> 'x stream_end \<Rightarrow> 'x stream_state \<Rightarrow> 'x stream_state \<times> 'x stream_outcome" where
  "run_stream env sv [] ending s = stream_ends env sv ending s"
| "run_stream env sv (e # es) ending s =
     (case stream_step env sv e s of
        (s1, Going) \<Rightarrow> run_stream env sv es ending s1
      | (s1, out) \<Rightarrow> (s1, out))"

text \<open>
  An attempt: what throws before the stream exists (the context transform, the conversion, the API key, the
  construction of the stream, an abort), or what the stream does.
\<close>

datatype 'x attempt = NotStarted jsstr | Streams "'x provider_event list" "'x stream_end"

definition streamAssistantResponse :: "'x tool_env \<Rightarrow> stream_env \<Rightarrow> 'x message list \<Rightarrow> matcher \<Rightarrow> 'x attempt
    \<Rightarrow> 'x stream_state \<times> 'x stream_outcome" where
  "streamAssistantResponse env sv ctx m a =
     (case a of
        NotStarted err \<Rightarrow> (start_stream sv ctx m, Failed err)
      | Streams es ending \<Rightarrow> run_stream env sv es ending (start_stream sv ctx m))"


section \<open>Updates carry every unit\<close>

datatype stream_unit = Unit delta_kind nat jschar | Mark boundary_kind nat

fun units_of :: "update \<Rightarrow> stream_unit list" where
  "units_of (DeltaUpdate k i d) = map (Unit k i) d"
| "units_of (BoundaryUpdate k i) = [Mark k i]"

fun event_units :: "'x event \<Rightarrow> stream_unit list" where
  "event_units (MessageUpdate u p) = units_of u"
| "event_units e = []"

definition emitted :: "'x event list \<Rightarrow> stream_unit list" where
  "emitted es = concat (map event_units es)"

lemma emitted_simps [simp]: "emitted [] = []" "emitted (e # es) = event_units e @ emitted es" "emitted (es @ fs) = emitted es @ emitted fs"
  by (simp_all add: emitted_def)

text \<open>What the provider sent after its start event.\<close>

fun received :: "bool \<Rightarrow> 'x provider_event list \<Rightarrow> stream_unit list" where
  "received b [] = []"
| "received b (PStart p # es) = received True es"
| "received b (PDelta k i d p t1 t2 t3 # es) = (if b then map (Unit k i) d else []) @ received b es"
| "received b (PBoundary k i p now # es) = (if b then [Mark k i] else []) @ received b es"
| "received b (PDone a now # es) = received b es"

definition until_done :: "'x provider_event list \<Rightarrow> 'x provider_event list" where
  "until_done es = takeWhile (\<lambda>e. case e of PDone a now \<Rightarrow> False | _ \<Rightarrow> True) es"

lemma until_done_simps [simp]: "until_done [] = []" "until_done (PStart p # es) = PStart p # until_done es"
  "until_done (PDelta k i d p t1 t2 t3 # es) = PDelta k i d p t1 t2 t3 # until_done es"
  "until_done (PBoundary bk i p now # es) = PBoundary bk i p now # until_done es" "until_done (PDone a now # es) = []"
  by (simp_all add: until_done_def)

definition pending_units :: "'x stream_state \<Rightarrow> stream_unit list" where
  "pending_units s = (case ss_pending s of None \<Rightarrow> [] | Some (k, i, d) \<Rightarrow> map (Unit k i) d)"

text \<open>All units emitted or pending, and nothing pending before the start.\<close>

definition all_units :: "'x stream_state \<Rightarrow> stream_unit list" where
  "all_units s = emitted (ss_trace s) @ pending_units s"

definition flushable :: "'x stream_state \<Rightarrow> bool" where
  "flushable s \<longleftrightarrow> (ss_partial s = None \<longrightarrow> ss_pending s = None)"

lemma feedTtsr_keeps [simp]:
  "ss_context (feedTtsr sv c sc s) = ss_context s" "ss_partial (feedTtsr sv c sc s) = ss_partial s"
  "ss_added (feedTtsr sv c sc s) = ss_added s" "ss_pending (feedTtsr sv c sc s) = ss_pending s"
  "ss_trace (feedTtsr sv c sc s) = ss_trace s" "ss_text (feedTtsr sv c sc s) = ss_text s"
  "ss_args (feedTtsr sv c sc s) = ss_args s" "ss_lastEmit (feedTtsr sv c sc s) = ss_lastEmit s"
  by (auto simp: feedTtsr_def split: option.split prod.split)

lemma flushTtsr_keeps [simp]:
  "ss_context (flushPendingTtsr sv s) = ss_context s" "ss_partial (flushPendingTtsr sv s) = ss_partial s"
  "ss_added (flushPendingTtsr sv s) = ss_added s" "ss_pending (flushPendingTtsr sv s) = ss_pending s"
  "ss_trace (flushPendingTtsr sv s) = ss_trace s" "ss_text (flushPendingTtsr sv s) = []"
  "ss_args (flushPendingTtsr sv s) = []"
  by (simp_all add: flushPendingTtsr_def Let_def)

lemma feed_delta_keeps [simp]:
  "ss_context (feed_delta sv k d s) = ss_context s" "ss_partial (feed_delta sv k d s) = ss_partial s"
  "ss_added (feed_delta sv k d s) = ss_added s" "ss_pending (feed_delta sv k d s) = ss_pending s"
  "ss_trace (feed_delta sv k d s) = ss_trace s"
  by (simp_all add: feed_delta_def Let_def split: option.split feed_scope.split)

lemma watch_delta_keeps [simp]:
  "ss_context (watch_delta sv k i d s) = ss_context s" "ss_partial (watch_delta sv k i d s) = ss_partial s"
  "ss_added (watch_delta sv k i d s) = ss_added s" "ss_pending (watch_delta sv k i d s) = ss_pending s"
  "ss_trace (watch_delta sv k i d s) = ss_trace s" "ss_text (watch_delta sv k i d s) = ss_text s"
  "ss_args (watch_delta sv k i d s) = ss_args s" "ss_matcher (watch_delta sv k i d s) = ss_matcher s"
  by (simp_all add: watch_delta_def Let_def split: option.split)

lemma watch_boundary_keeps [simp]:
  "ss_context (watch_boundary sv k i s) = ss_context s" "ss_partial (watch_boundary sv k i s) = ss_partial s"
  "ss_added (watch_boundary sv k i s) = ss_added s" "ss_pending (watch_boundary sv k i s) = ss_pending s"
  "ss_trace (watch_boundary sv k i s) = ss_trace s" "ss_text (watch_boundary sv k i s) = ss_text s"
  "ss_args (watch_boundary sv k i s) = ss_args s" "ss_matcher (watch_boundary sv k i s) = ss_matcher s"
  "ss_interrupt (watch_boundary sv k i s) = ss_interrupt s"
  by (simp_all add: watch_boundary_def split: option.split)

lemma flush_keeps [simp]:
  "ss_context (flushPendingDelta sv t s) = ss_context s" "ss_partial (flushPendingDelta sv t s) = ss_partial s"
  "ss_added (flushPendingDelta sv t s) = ss_added s" "ss_text (flushPendingDelta sv t s) = []"
  "ss_args (flushPendingDelta sv t s) = []"
  "ss_matcher (flushPendingDelta sv t s) = ss_matcher (flushPendingTtsr sv s)"
  "ss_interrupt (flushPendingDelta sv t s) = ss_interrupt (flushPendingTtsr sv s)"
  by (simp_all add: flushPendingDelta_def Let_def split: option.split)

lemma flush_emits:
  "flushable s \<Longrightarrow> ss_pending (flushPendingDelta sv t s) = None \<and>
     emitted (ss_trace (flushPendingDelta sv t s)) = all_units s"
  by (auto simp: flushable_def flushPendingDelta_def Let_def all_units_def pending_units_def split: option.splits)

lemma flush_all: "flushable s \<Longrightarrow> all_units (flushPendingDelta sv t s) = all_units s"
  using flush_emits [of s sv t] by (simp add: all_units_def pending_units_def)

lemma flushable_flush [simp]: "flushable s \<Longrightarrow> flushable (flushPendingDelta sv t s)"
  using flush_emits [of s sv t] by (simp add: flushable_def)

lemma emit_then_simps: "emit_then env e out s = (s', out') \<Longrightarrow>
    s' = s\<lparr>ss_trace := ss_trace s @ [e]\<rparr> \<and> (out' = out \<or> (\<exists>err. out' = Failed err))"
  by (auto simp: emit_then_def split: option.splits)

lemma finalize_emits:
  assumes "finalizeStreamInterrupt env sv t i s = (s', out)" "flushable s"
  shows "emitted (ss_trace s') = all_units s \<and> (out = Interrupted i \<or> (\<exists>err. out = Failed err))"
  using assms flush_emits [OF assms(2), of sv t]
  by (auto simp: finalizeStreamInterrupt_def Let_def split: option.splits if_splits dest!: emit_then_simps)

lemma publish_emits:
  assumes "publishFinalAssistantMessage env a s = (s', out)"
  shows "emitted (ss_trace s') = emitted (ss_trace s) \<and> (out = Answered a \<or> (\<exists>err. out = Failed err))"
  using assms
  by (auto simp: publishFinalAssistantMessage_def emit_then_def split: if_splits option.splits)

lemma coalesce_units:
  "flushable s \<Longrightarrow> ss_partial s \<noteq> None \<Longrightarrow>
     all_units (coalesce sv k i d t s) = all_units s @ map (Unit k i) d \<and> flushable (coalesce sv k i d t s)"
  using flush_emits [of s sv t]
  by (auto simp: coalesce_def all_units_def pending_units_def flushable_def split: option.splits)

lemma take_delta_units:
  assumes "flushable s"
  shows "flushable (take_delta sv k i d p t1 t2 t3 s)"
    "all_units (take_delta sv k i d p t1 t2 t3 s) = all_units s @ map (Unit k i) d"
    "ss_partial (take_delta sv k i d p t1 t2 t3 s) = Some p"
proof -
  define s1 where "s1 = watched_delta sv k i d p s"
  have s1: "flushable s1" "all_units s1 = all_units s" "ss_partial s1 = Some p"
    by (simp_all add: s1_def watched_delta_def flushable_def all_units_def pending_units_def)
  define s2 where "s2 = coalesce sv k i d t1 s1"
  have s2: "flushable s2" "all_units s2 = all_units s @ map (Unit k i) d" "ss_partial s2 = Some p"
    using coalesce_units [OF s1(1), of sv k i d t1] s1 by (simp_all add: s2_def) (simp add: coalesce_def split: option.split)
  show "flushable (take_delta sv k i d p t1 t2 t3 s)"
    "all_units (take_delta sv k i d p t1 t2 t3 s) = all_units s @ map (Unit k i) d"
    "ss_partial (take_delta sv k i d p t1 t2 t3 s) = Some p"
    using s2 flush_all [OF s2(1)] by (simp_all add: take_delta_def flush_frame_def flip: s1_def s2_def)
qed

text \<open>One event: the units grow by those received, unless the event is where the attempt ends.\<close>

lemma step_units:
  assumes "stream_step env sv e s = (s', out)" "flushable s"
  shows "case out of
      Going \<Rightarrow> flushable s' \<and> all_units s' = all_units s @ received (ss_partial s \<noteq> None) [e]
        \<and> (ss_partial s' \<noteq> None \<longleftrightarrow> ss_partial s \<noteq> None \<or> (\<exists>p. e = PStart p)) \<and> (\<forall>a t. e \<noteq> PDone a t)
    | Answered a \<Rightarrow> emitted (ss_trace s') = all_units s \<and> (\<exists>t. e = PDone a t)
    | Interrupted irq \<Rightarrow> emitted (ss_trace s') = all_units s \<or> emitted (ss_trace s') = all_units s @ received (ss_partial s \<noteq> None) [e]
    | Failed err \<Rightarrow> True"
proof (cases e)
  case (PStart p)
  then show ?thesis using assms
    by (auto simp: emit_then_def flushable_def all_units_def pending_units_def split: option.splits)
next
  case (PDelta k i d p t1 t2 t3)
  show ?thesis
  proof (cases "ss_partial s")
    case None
    then show ?thesis using assms PDelta by auto
  next
    case (Some q)
    define s3 where "s3 = take_delta sv k i d p t1 t2 t3 s"
    note s3 = take_delta_units [OF assms(2), of sv k i d p t1 t2 t3, folded s3_def]
    have e: "stream_step env sv e s = (case ss_interrupt s3 of Some irq \<Rightarrow> finalizeStreamInterrupt env sv t3 irq s3 | None \<Rightarrow> (s3, Going))"
      using Some PDelta by (simp add: Let_def flip: s3_def)
    show ?thesis
    proof (cases "ss_interrupt s3")
      case None
      then show ?thesis using e assms(1) s3 Some PDelta by simp
    next
      case (Some irq)
      then have "finalizeStreamInterrupt env sv t3 irq s3 = (s', out)" using e assms(1) by simp
      from finalize_emits [OF this s3(1)] show ?thesis using s3(2) PDelta \<open>ss_partial s = Some q\<close> by auto
    qed
  qed
next
  case (PBoundary k i p now)
  define s1 where "s1 = flushPendingDelta sv now (watch_boundary sv k i s)"
  have "flushable (watch_boundary sv k i s)" using assms(2) by (simp add: flushable_def)
  note f = flush_emits [OF this, of sv now]
  have s1: "flushable s1" "emitted (ss_trace s1) = all_units s" "ss_pending s1 = None" "ss_partial s1 = ss_partial s"
    using f by (simp_all add: s1_def flushable_def all_units_def pending_units_def)
  have u1: "all_units s1 = all_units s" using s1 by (simp add: all_units_def pending_units_def)
  have e: "stream_step env sv e s = (case ss_interrupt s1 of
      Some irq \<Rightarrow> finalizeStreamInterrupt env sv now irq s1
    | None \<Rightarrow> (case ss_partial s1 of
          None \<Rightarrow> (s1, Going)
        | Some old \<Rightarrow> emit_then env (MessageUpdate (BoundaryUpdate k i) p) Going
                        (s1\<lparr>ss_partial := Some p, ss_context := set_last (ss_context s1) p\<rparr>)))"
    using PBoundary by (simp add: Let_def s1_def [symmetric])
  show ?thesis
  proof (cases "ss_interrupt s1")
    case None
    show ?thesis
    proof (cases "ss_partial s")
      case None
      then show ?thesis using e assms(1) s1 u1 \<open>ss_interrupt s1 = None\<close> PBoundary by auto
    next
      case (Some q)
      then have "emit_then env (MessageUpdate (BoundaryUpdate k i) p) Going
          (s1\<lparr>ss_partial := Some p, ss_context := set_last (ss_context s1) p\<rparr>) = (s', out)"
        using e assms(1) s1 \<open>ss_interrupt s1 = None\<close> by simp
      from emit_then_simps [OF this] show ?thesis using s1 Some PBoundary
        by (auto simp: flushable_def all_units_def pending_units_def)
    qed
  next
    case (Some irq)
    then have "finalizeStreamInterrupt env sv now irq s1 = (s', out)" using e assms(1) by simp
    from finalize_emits [OF this s1(1)] show ?thesis using u1 by auto
  qed
next
  case (PDone a now)
  define s1 where "s1 = flushPendingDelta sv now s"
  note f = flush_emits [OF assms(2), of sv now]
  have e: "stream_step env sv e s = (case ss_interrupt s1 of
      Some irq \<Rightarrow> finalizeStreamInterrupt env sv now irq s1 | None \<Rightarrow> publishFinalAssistantMessage env a s1)"
    using PDone by (simp add: Let_def s1_def [symmetric])
  show ?thesis
  proof (cases "ss_interrupt s1")
    case None
    then have "publishFinalAssistantMessage env a s1 = (s', out)" using e assms(1) by simp
    from publish_emits [OF this] show ?thesis using f PDone by (auto simp: s1_def)
  next
    case (Some irq)
    then have "finalizeStreamInterrupt env sv now irq s1 = (s', out)" using e assms(1) by simp
    moreover have "flushable s1" "all_units s1 = all_units s" using assms(2) flush_all by (simp_all add: s1_def)
    ultimately show ?thesis using finalize_emits by fastforce
  qed
qed

lemma ends_units:
  assumes "stream_ends env sv ending s = (s', out)" "flushable s"
  shows "case out of Going \<Rightarrow> False | Failed err \<Rightarrow> True | _ \<Rightarrow> emitted (ss_trace s') = all_units s"
proof (cases ending)
  case (Drained res now)
  have f: "flushable (flushPendingDelta sv now s)" "all_units (flushPendingDelta sv now s) = all_units s"
    using assms(2) flush_all by simp_all
  show ?thesis using assms Drained flush_emits [OF assms(2), of sv now] f
    by (auto simp: Let_def split: option.splits dest!: publish_emits finalize_emits [OF _ f(1)])
next
  case (TimedOut err now)
  then show ?thesis using assms flush_emits [OF assms(2), of sv now] by (auto dest!: publish_emits)
qed (use assms in auto)


lemma run_units:
  "run_stream env sv es ending s = (s', out) \<Longrightarrow> flushable s \<Longrightarrow>
     (case out of
        Going \<Rightarrow> False
      | Answered a \<Rightarrow> emitted (ss_trace s') = all_units s @ received (ss_partial s \<noteq> None) (until_done es)
      | Interrupted irq \<Rightarrow> \<exists>n. emitted (ss_trace s') = all_units s @ received (ss_partial s \<noteq> None) (take n es)
      | Failed err \<Rightarrow> True)"
proof (induction es arbitrary: s)
  case Nil
  then have "stream_ends env sv ending s = (s', out)" by simp
  from ends_units [OF this Nil.prems(2)] show ?case by (auto split: stream_outcome.splits intro: exI [of _ 0])
next
  case (Cons e es)
  obtain s1 o1 where st: "stream_step env sv e s = (s1, o1)" by fastforce
  note u = step_units [OF st Cons.prems(2)]
  show ?case
  proof (cases o1)
    case Going
    have g: "flushable s1" "all_units s1 = all_units s @ received (ss_partial s \<noteq> None) [e]"
      "ss_partial s1 \<noteq> None \<longleftrightarrow> ss_partial s \<noteq> None \<or> (\<exists>p. e = PStart p)" "\<forall>a t. e \<noteq> PDone a t"
      using u Going by simp_all
    have "run_stream env sv es ending s1 = (s', out)" using Cons.prems(1) st Going by simp
    note ih = Cons.IH [OF this g(1)]
    have r: "received (ss_partial s \<noteq> None) (e # xs) =
        received (ss_partial s \<noteq> None) [e] @ received (ss_partial s1 \<noteq> None) xs" for xs
      using g(3,4) by (cases e) auto
    have d: "until_done (e # es) = e # until_done es" using g(4) by (cases e) simp_all
    show ?thesis
    proof (cases out)
      case (Interrupted irq)
      then obtain n where "emitted (ss_trace s') = all_units s1 @ received (ss_partial s1 \<noteq> None) (take n es)"
        using ih by auto
      then have "emitted (ss_trace s') = all_units s @ received (ss_partial s \<noteq> None) (take (Suc n) (e # es))"
        using g(2) r [of "take n es"] by simp
      then have "\<exists>n. emitted (ss_trace s') = all_units s @ received (ss_partial s \<noteq> None) (take n (e # es))" by (rule exI)
      then show ?thesis using Interrupted by simp
    qed (use ih g(2) r [of "until_done es"] d in auto)
  next
    case (Answered a)
    then have "out = Answered a \<and> s' = s1" using Cons.prems(1) st by auto
    then show ?thesis using u Answered by auto
  next
    case (Interrupted irq)
    then have o: "out = Interrupted irq \<and> s' = s1" using Cons.prems(1) st by auto
    from u Interrupted have "emitted (ss_trace s1) = all_units s \<or>
        emitted (ss_trace s1) = all_units s @ received (ss_partial s \<noteq> None) [e]" by simp
    then have "\<exists>n. emitted (ss_trace s1) = all_units s @ received (ss_partial s \<noteq> None) (take n (e # es))"
    proof
      assume "emitted (ss_trace s1) = all_units s"
      then show ?thesis by (intro exI [of _ 0]) simp
    next
      assume "emitted (ss_trace s1) = all_units s @ received (ss_partial s \<noteq> None) [e]"
      then show ?thesis by (intro exI [of _ "Suc 0"]) simp
    qed
    then show ?thesis using o by simp
  next
    case (Failed err)
    then show ?thesis using Cons.prems(1) st by auto
  qed
qed

text \<open>C26: Coalescing loses nothing: the updates a listener sees of an answered attempt carry every unit the provider
  sent after its start, under its kind and block, in order, with the block boundaries between them; those of an
  interrupted attempt carry the units up to some event.
\<close>

theorem updates_carry_stream:
  "case run_stream env sv es ending (start_stream sv ctx m) of
     (s, Going) \<Rightarrow> False
   | (s, Answered a) \<Rightarrow> emitted (ss_trace s) = received False (until_done es)
   | (s, Interrupted irq) \<Rightarrow> (\<exists>n. emitted (ss_trace s) = received False (take n es))
   | (s, Failed err) \<Rightarrow> True"
proof -
  obtain s out where r: "run_stream env sv es ending (start_stream sv ctx m) = (s, out)" by fastforce
  have "flushable (start_stream sv ctx m)" "all_units (start_stream sv ctx m) = []"
    "ss_partial (start_stream sv ctx m) = None"
    by (simp_all add: start_stream_def flushable_def all_units_def pending_units_def)
  then show ?thesis using run_units [OF r] r by (auto split: stream_outcome.splits)
qed


section \<open>The message of an attempt\<close>

fun lifecycle_event :: "'x event \<Rightarrow> bool" where
  "lifecycle_event (MessageStart m) = True"
| "lifecycle_event (MessageEnd m) = True"
| "lifecycle_event e = False"

definition lifecycle :: "'x event list \<Rightarrow> 'x event list" where
  "lifecycle es = filter lifecycle_event es"

lemma lifecycle_simps [simp]: "lifecycle [] = []" "lifecycle (e # es) = (if lifecycle_event e then e # lifecycle es else lifecycle es)"
  "lifecycle (es @ fs) = lifecycle es @ lifecycle fs"
  by (simp_all add: lifecycle_def)

text \<open>A provider starts its message once.\<close>

fun one_start :: "bool \<Rightarrow> 'x provider_event list \<Rightarrow> bool" where
  "one_start b [] = True"
| "one_start b (PStart p # es) = (\<not> b \<and> one_start True es)"
| "one_start b (e # es) = one_start b es"

text \<open>Before the start nothing has happened; after it the partial message is the last of the context.\<close>

definition attempt_inv :: "'x message list \<Rightarrow> 'x stream_state \<Rightarrow> bool" where
  "attempt_inv ctx s \<longleftrightarrow>
     (case ss_partial s of
        None \<Rightarrow> ss_context s = ctx \<and> \<not> ss_added s \<and> lifecycle (ss_trace s) = [] \<and> ss_interrupt s = None
                \<and> ss_text s = [] \<and> ss_args s = [] \<and> ss_pending s = None
      | Some p \<Rightarrow> ss_added s \<and> ss_context s = ctx @ [AssistantMsg p]
                \<and> (\<exists>p0. lifecycle (ss_trace s) = [MessageStart (AssistantMsg p0)]))"

lemma flush_lifecycle [simp]: "lifecycle (ss_trace (flushPendingDelta sv t s)) = lifecycle (ss_trace s)"
  by (simp add: flushPendingDelta_def Let_def split: option.split)

lemma flushTtsr_empty: "ss_text s = [] \<Longrightarrow> ss_args s = [] \<Longrightarrow> ss_interrupt (flushPendingTtsr sv s) = ss_interrupt s"
  by (simp add: flushPendingTtsr_def feedTtsr_def Let_def split: option.split)

lemma flush_inv: "attempt_inv ctx s \<Longrightarrow> attempt_inv ctx (flushPendingDelta sv t s)"
  using flush_emits [of s sv t]
  by (auto simp: attempt_inv_def flushable_def flushTtsr_empty split: option.splits)

lemma coalesce_keeps [simp]:
  "ss_context (coalesce sv k i d t s) = ss_context s" "ss_partial (coalesce sv k i d t s) = ss_partial s"
  "ss_added (coalesce sv k i d t s) = ss_added s" "lifecycle (ss_trace (coalesce sv k i d t s)) = lifecycle (ss_trace s)"
  by (simp_all add: coalesce_def split: option.split)

lemma take_delta_inv:
  "attempt_inv ctx s \<Longrightarrow> ss_partial s \<noteq> None \<Longrightarrow> attempt_inv ctx (take_delta sv k i d p t1 t2 t3 s)"
  by (auto simp: attempt_inv_def take_delta_def flush_frame_def watched_delta_def set_last_def split: option.splits)

text \<open>
  What the attempt leaves: the published message, or nothing, and one message announced and ended. One that fails leaves
  at most the message it was working on, announced and not ended; the message it had published, when a listener
  throws on its end; or nothing, when a listener throws on the end of a guard's abort.
\<close>

definition failed_remains :: "'x message list \<Rightarrow> 'x stream_state \<Rightarrow> bool" where
  "failed_remains ctx s \<longleftrightarrow>
     (ss_context s = ctx \<and> lifecycle (ss_trace s) = []) \<or>
     (\<exists>p q. ss_context s = ctx @ [AssistantMsg q] \<and> lifecycle (ss_trace s) = [MessageStart (AssistantMsg p)]) \<or>
     (\<exists>p a. ss_context s = ctx @ [AssistantMsg a] \<and>
        lifecycle (ss_trace s) = [MessageStart (AssistantMsg p), MessageEnd (AssistantMsg a)]) \<or>
     (\<exists>p q. ss_context s = ctx \<and>
        lifecycle (ss_trace s) = [MessageStart (AssistantMsg p), MessageEnd (markStreamGuardAbort q)])"

definition attempt_done :: "'x message list \<Rightarrow> 'x stream_state \<Rightarrow> 'x stream_outcome \<Rightarrow> bool" where
  "attempt_done ctx s out =
     (case out of
        Going \<Rightarrow> False
      | Answered a \<Rightarrow> ss_context s = ctx @ [AssistantMsg a]
          \<and> (\<exists>p. lifecycle (ss_trace s) = [MessageStart (AssistantMsg p), MessageEnd (AssistantMsg a)])
      | Interrupted irq \<Rightarrow> ss_context s = ctx
          \<and> (\<exists>p q. lifecycle (ss_trace s) = [MessageStart (AssistantMsg p), MessageEnd (markStreamGuardAbort q)])
      | Failed err \<Rightarrow> failed_remains ctx s)"

lemma finalize_done:
  assumes "finalizeStreamInterrupt env sv t irq s = (s', out)" "attempt_inv ctx s" "ss_interrupt s \<noteq> None"
  shows "attempt_done ctx s' out"
  using assms flush_inv [OF assms(2), of sv t]
  by (auto simp: attempt_inv_def attempt_done_def failed_remains_def finalizeStreamInterrupt_def Let_def markStreamGuardAbort_def
      split: option.splits if_splits dest!: emit_then_simps)

lemma publish_done:
  assumes "publishFinalAssistantMessage env a s = (s', out)" "attempt_inv ctx s"
  shows "attempt_done ctx s' out"
  using assms
  by (auto simp: attempt_inv_def attempt_done_def failed_remains_def publishFinalAssistantMessage_def emit_then_def set_last_def
      split: option.splits if_splits)

lemma step_inv:
  assumes "stream_step env sv e s = (s', out)" "attempt_inv ctx s" "one_start (ss_partial s \<noteq> None) (e # es)"
  shows "if out = Going then attempt_inv ctx s' \<and> one_start (ss_partial s' \<noteq> None) es else attempt_done ctx s' out"
proof (cases e)
  case (PStart p)
  then have n: "ss_partial s = None" using assms(3) by simp
  have "emit_then env (MessageStart (AssistantMsg p)) Going
       (s\<lparr>ss_partial := Some p, ss_context := ss_context s @ [AssistantMsg p], ss_added := True\<rparr>) = (s', out)"
    using assms(1) PStart by simp
  from emit_then_simps [OF this] show ?thesis using assms(2,3) n PStart
    by (auto simp: attempt_inv_def attempt_done_def failed_remains_def)
next
  case (PDelta k i d p t1 t2 t3)
  show ?thesis
  proof (cases "ss_partial s = None")
    case True
    then show ?thesis using assms PDelta by auto
  next
    case False
    note i = take_delta_inv [OF assms(2) False, of sv k i d p t1 t2 t3]
    show ?thesis
    proof (cases "ss_interrupt (take_delta sv k i d p t1 t2 t3 s)")
      case None
      then have "s' = take_delta sv k i d p t1 t2 t3 s" "out = Going" using assms(1) PDelta False by (auto simp: Let_def)
      moreover have "ss_partial s' \<noteq> None" using calculation by (simp add: take_delta_def flush_frame_def watched_delta_def)
      ultimately show ?thesis using i assms(3) PDelta False by simp
    next
      case (Some irq)
      then have "finalizeStreamInterrupt env sv t3 irq (take_delta sv k i d p t1 t2 t3 s) = (s', out)"
        using assms(1) PDelta False by (simp add: Let_def)
      from finalize_done [OF this i] have "attempt_done ctx s' out" using Some by simp
      then show ?thesis by (auto simp: attempt_done_def)
    qed
  qed
next
  case (PBoundary k i p now)
  define s1 where "s1 = flushPendingDelta sv now (watch_boundary sv k i s)"
  have "attempt_inv ctx (watch_boundary sv k i s)" using assms(2) by (auto simp: attempt_inv_def split: option.split)
  then have i: "attempt_inv ctx s1" unfolding s1_def by (rule flush_inv)
  have p1: "ss_partial s1 = ss_partial s" by (simp add: s1_def)
  have e: "(case ss_interrupt s1 of
      Some irq \<Rightarrow> finalizeStreamInterrupt env sv now irq s1
    | None \<Rightarrow> (case ss_partial s1 of
          None \<Rightarrow> (s1, Going)
        | Some old \<Rightarrow> emit_then env (MessageUpdate (BoundaryUpdate k i) p) Going
                        (s1\<lparr>ss_partial := Some p, ss_context := set_last (ss_context s1) p\<rparr>))) = (s', out)"
    using assms(1) PBoundary by (simp add: Let_def s1_def [symmetric])
  show ?thesis
  proof (cases "ss_interrupt s1")
    case None
    show ?thesis
    proof (cases "ss_partial s")
      case None
      then show ?thesis using e i p1 \<open>ss_interrupt s1 = None\<close> assms(3) PBoundary by auto
    next
      case (Some q)
      then have "emit_then env (MessageUpdate (BoundaryUpdate k i) p) Going
          (s1\<lparr>ss_partial := Some p, ss_context := set_last (ss_context s1) p\<rparr>) = (s', out)"
        using e p1 \<open>ss_interrupt s1 = None\<close> by simp
      from emit_then_simps [OF this] show ?thesis using i p1 Some assms(3) PBoundary
        by (auto simp: attempt_inv_def attempt_done_def failed_remains_def set_last_def)
    qed
  next
    case (Some irq)
    then have "finalizeStreamInterrupt env sv now irq s1 = (s', out)" using e by simp
    from finalize_done [OF this i] have "attempt_done ctx s' out" using Some by simp
    then show ?thesis by (auto simp: attempt_done_def)
  qed
next
  case (PDone a now)
  define s1 where "s1 = flushPendingDelta sv now s"
  have i: "attempt_inv ctx s1" unfolding s1_def by (rule flush_inv [OF assms(2)])
  have e: "(case ss_interrupt s1 of
      Some irq \<Rightarrow> finalizeStreamInterrupt env sv now irq s1 | None \<Rightarrow> publishFinalAssistantMessage env a s1) = (s', out)"
    using assms(1) PDone by (simp add: Let_def s1_def [symmetric])
  then have "attempt_done ctx s' out"
    using finalize_done [OF _ i] publish_done [OF _ i] by (cases "ss_interrupt s1") auto
  then show ?thesis by (auto simp: attempt_done_def)
qed

lemma ends_done:
  assumes "stream_ends env sv ending s = (s', out)" "attempt_inv ctx s"
  shows "attempt_done ctx s' out"
proof (cases ending)
  case (Drained res now)
  note i = flush_inv [OF assms(2), of sv now]
  show ?thesis using assms(1) Drained finalize_done [OF _ i] publish_done [OF _ i]
    by (cases "ss_interrupt (flushPendingDelta sv now s)") (auto simp: Let_def)
next
  case (TimedOut err now)
  then show ?thesis using assms(1) publish_done [OF _ flush_inv [OF assms(2), of sv now]] by simp
next
  case (Breaks err)
  then show ?thesis using assms by (auto simp: attempt_done_def failed_remains_def attempt_inv_def split: option.splits)
qed

lemma run_done:
  "run_stream env sv es ending s = (s', out) \<Longrightarrow> attempt_inv ctx s \<Longrightarrow> one_start (ss_partial s \<noteq> None) es \<Longrightarrow>
     attempt_done ctx s' out"
proof (induction es arbitrary: s)
  case Nil
  then show ?case using ends_done by simp
next
  case (Cons e es)
  obtain s1 o1 where st: "stream_step env sv e s = (s1, o1)" by fastforce
  note i = step_inv [OF st Cons.prems(2,3)]
  show ?case
  proof (cases o1)
    case Going
    then show ?thesis using Cons.IH [of s1] Cons.prems(1) st i by simp
  qed (use i Cons.prems(1) st in auto)
qed

text \<open>C27: An attempt leaves at most its own message: when it answers, the context gains exactly the answer, announced once
  and ended once; when a guard interrupts it, the context is what it was and the partial message ends as a guard abort;
  when it fails, the context is what it was or has gained one message, the last partial one or the answer being
  published, and no more than one message has been announced and ended.
\<close>

theorem attempt_is_atomic:
  assumes "one_start False es" "run_stream env sv es ending (start_stream sv ctx m) = (s, out)"
  shows "case out of
      Going \<Rightarrow> False
    | Answered a \<Rightarrow> ss_context s = ctx @ [AssistantMsg a]
        \<and> (\<exists>p. lifecycle (ss_trace s) = [MessageStart (AssistantMsg p), MessageEnd (AssistantMsg a)])
    | Interrupted irq \<Rightarrow> ss_context s = ctx
        \<and> (\<exists>p q. lifecycle (ss_trace s) = [MessageStart (AssistantMsg p), MessageEnd (markStreamGuardAbort q)])
    | Failed err \<Rightarrow>
        (ss_context s = ctx \<and> lifecycle (ss_trace s) = []) \<or>
        (\<exists>p q. ss_context s = ctx @ [AssistantMsg q] \<and> lifecycle (ss_trace s) = [MessageStart (AssistantMsg p)]) \<or>
        (\<exists>p a. ss_context s = ctx @ [AssistantMsg a] \<and>
           lifecycle (ss_trace s) = [MessageStart (AssistantMsg p), MessageEnd (AssistantMsg a)]) \<or>
        (\<exists>p q. ss_context s = ctx \<and>
           lifecycle (ss_trace s) = [MessageStart (AssistantMsg p), MessageEnd (markStreamGuardAbort q)])"
proof -
  have "attempt_inv ctx (start_stream sv ctx m)" "ss_partial (start_stream sv ctx m) = None"
    by (simp_all add: attempt_inv_def start_stream_def)
  then show ?thesis using run_done [OF assms(2), of ctx] assms(1)
    by (cases out) (simp_all add: attempt_done_def failed_remains_def)
qed


section \<open>No answer gets past a rule\<close>

text \<open>The text the provider sent in its text deltas, or the arguments in its tool call deltas.\<close>

fun texts :: "feed_scope \<Rightarrow> bool \<Rightarrow> 'x provider_event list \<Rightarrow> jsstr" where
  "texts sc b [] = []"
| "texts sc b (PStart p # es) = texts sc True es"
| "texts sc b (PDelta k i d p t1 t2 t3 # es) = (if b \<and> scope_of k = Some sc then d else []) @ texts sc b es"
| "texts sc b (PBoundary k i p now # es) = texts sc b es"
| "texts sc b (PDone a now # es) = texts sc b es"

definition pending_text :: "feed_scope \<Rightarrow> 'x stream_state \<Rightarrow> jsstr" where
  "pending_text sc s = (case sc of FeedText \<Rightarrow> ss_text s | FeedArgs \<Rightarrow> ss_args s)"

text \<open>
  As long as no guard has fired: what was fed is in the matcher's buffer, without the phrase, and the rest of the
  text is pending.
\<close>

definition watched :: "nat \<Rightarrow> jsstr \<Rightarrow> feed_scope \<Rightarrow> nat \<Rightarrow> jsstr \<Rightarrow> 'x stream_state \<Rightarrow> bool" where
  "watched B u sc n txt s \<longleftrightarrow> ss_interrupt s = None \<longrightarrow>
     (\<exists>fed. txt = fed @ pending_text sc s \<and> buffer_of sc (ss_matcher s) = drop (length fed - B) fed
        \<and> (\<forall>a b. fed \<noteq> a @ u @ b) \<and> length (pending_text sc s) < n)"

definition guarded :: "stream_env \<Rightarrow> feed_scope \<Rightarrow> jsstr \<Rightarrow> nat \<Rightarrow> bool" where
  "guarded sv sc u D \<longleftrightarrow> u \<noteq> [] \<and> length u + (TTSR_PENDING_FEED_CHARS + D) \<le> sv_buffer sv
     \<and> (\<exists>rules r. sv_rules sv = Some rules \<and> r \<in> set rules \<and> ruleMatchesScope (sr_scope r) sc \<and> fires_on r u)"

lemma feedTtsr_watched:
  assumes g: "guarded sv sc u D" and w: "watched (sv_buffer sv) u sc n txt s" and e: "pending_text sc s = []"
    and c: "length c \<le> TTSR_PENDING_FEED_CHARS + D" and n: "0 < n"
  shows "watched (sv_buffer sv) u sc n (if sc' = sc then txt @ c else txt) (feedTtsr sv c sc' s)"
proof -
  obtain rules r where r: "sv_rules sv = Some rules" "r \<in> set rules" "ruleMatchesScope (sr_scope r) sc" "fires_on r u"
    using g by (auto simp: guarded_def)
  have u: "u \<noteq> []" "length u + length c \<le> sv_buffer sv" "0 < sv_buffer sv" using g c
    by (auto simp: guarded_def TTSR_PENDING_FEED_CHARS_def)
  show ?thesis
  proof (cases "ss_interrupt s \<noteq> None \<or> c = []")
    case True
    then show ?thesis using w r(1) by (auto simp: feedTtsr_def watched_def)
  next
    case False
    obtain m' h where f: "feed (sv_buffer sv) rules c sc' (ss_matcher s) = (m', h)" by fastforce
    show ?thesis
    proof (cases h)
      case (Some r')
      then show ?thesis using False f r(1) by (simp add: feedTtsr_def watched_def)
    next
      case None
      have st: "feedTtsr sv c sc' s = s\<lparr>ss_matcher := m'\<rparr>" using False f r(1) None by (simp add: feedTtsr_def)
      have p: "pending_text sc (s\<lparr>ss_matcher := m'\<rparr>) = []" using e by (cases sc) (simp_all add: pending_text_def)
      obtain fed where fed: "txt = fed" "buffer_of sc (ss_matcher s) = drop (length fed - sv_buffer sv) fed" "\<forall>a b. fed \<noteq> a @ u @ b"
        using w False e by (auto simp: watched_def)
      show ?thesis
      proof (cases "sc' = sc")
        case True
        then have "feed (sv_buffer sv) rules c sc (ss_matcher s) = (m', None)" using f None by simp
        from feed_no_phrase [OF this u(3) r(2-4) u(2) fed(2,3)] False True st p fed(1) n show ?thesis
          by (simp add: watched_def)
      next
        case neq: False
        then show ?thesis using feed_other_scope [of "sv_buffer sv" rules c sc' "ss_matcher s" m' sc] f None st p fed n
          by (simp add: watched_def)
      qed
    qed
  qed
qed

lemma watched_pending:
  "watched B u sc n txt s \<Longrightarrow> ss_interrupt s' = ss_interrupt s \<Longrightarrow> ss_matcher s' = ss_matcher s \<Longrightarrow>
     pending_text sc s' = pending_text sc s \<Longrightarrow> watched B u sc n txt s'"
  by (simp add: watched_def)

text \<open>After a flush everything has been fed.\<close>

lemma flushTtsr_watched:
  assumes g: "guarded sv sc u D" and w: "watched (sv_buffer sv) u sc n txt s" and n: "n \<le> TTSR_PENDING_FEED_CHARS + D + 1"
    and o: "\<And>sc'. length (pending_text sc' s) < n" and n0: "0 < k"
  shows "watched (sv_buffer sv) u sc k txt (flushPendingTtsr sv s)"
proof (cases "ss_interrupt s")
  case (Some i)
  then have "ss_interrupt (flushPendingTtsr sv s) = Some i"
    by (simp add: flushPendingTtsr_def feedTtsr_def Let_def split: option.split)
  then show ?thesis by (simp add: watched_def)
next
  case None
  then obtain fed where fed: "txt = fed @ pending_text sc s" "buffer_of sc (ss_matcher s) = drop (length fed - sv_buffer sv) fed"
    "\<forall>a b. fed \<noteq> a @ u @ b"
    using w by (auto simp: watched_def)
  have len: "length (ss_text s) \<le> TTSR_PENDING_FEED_CHARS + D" "length (ss_args s) \<le> TTSR_PENDING_FEED_CHARS + D"
    using o [of FeedText] o [of FeedArgs] n by (simp_all add: pending_text_def)
  show ?thesis
  proof (cases sc)
    case FeedText
    define s0 where "s0 = s\<lparr>ss_text := []\<rparr>"
    have w0: "watched (sv_buffer sv) u sc k fed s0"
      using fed n0 FeedText by (simp add: watched_def s0_def pending_text_def)
    have e0: "pending_text sc s0 = []" by (simp add: s0_def pending_text_def FeedText)
    define s1 where "s1 = feedTtsr sv (ss_text s) FeedText s0"
    have w1: "watched (sv_buffer sv) u sc k txt s1"
      using feedTtsr_watched [OF g w0 e0 len(1) n0, of FeedText] fed(1) FeedText by (simp add: s1_def pending_text_def)
    have "watched (sv_buffer sv) u sc k txt (s1\<lparr>ss_args := []\<rparr>)"
      by (rule watched_pending [OF w1]) (simp_all add: pending_text_def FeedText)
    from feedTtsr_watched [OF g this _ len(2) n0, of FeedArgs] show ?thesis
      by (simp add: FeedText flushPendingTtsr_def Let_def pending_text_def s1_def s0_def)
  next
    case FeedArgs
    define s0 where "s0 = s\<lparr>ss_text := [], ss_args := []\<rparr>"
    have w0: "watched (sv_buffer sv) u sc k fed s0"
      using fed n0 FeedArgs by (simp add: watched_def s0_def pending_text_def)
    have e0: "pending_text sc s0 = []" by (simp add: s0_def pending_text_def FeedArgs)
    have w1: "watched (sv_buffer sv) u sc k fed (feedTtsr sv (ss_text s) FeedText s0)"
      using feedTtsr_watched [OF g w0 e0 len(1) n0, of FeedText] FeedArgs by simp
    have e1: "pending_text sc (feedTtsr sv (ss_text s) FeedText s0) = []" by (simp add: pending_text_def FeedArgs s0_def)
    have "feedTtsr sv (ss_text s) FeedText s0 = (feedTtsr sv (ss_text s) FeedText (s\<lparr>ss_text := []\<rparr>))\<lparr>ss_args := []\<rparr>"
      by (simp add: feedTtsr_def s0_def split: option.split prod.split)
    with feedTtsr_watched [OF g w1 e1 len(2) n0, of FeedArgs] fed(1) show ?thesis
      by (simp add: FeedArgs flushPendingTtsr_def Let_def pending_text_def)
  qed
qed


text \<open>What is pending stays below the threshold.\<close>

definition small :: "stream_env \<Rightarrow> 'x stream_state \<Rightarrow> bool" where
  "small sv s \<longleftrightarrow> (\<forall>sc. length (pending_text sc s) < TTSR_PENDING_FEED_CHARS \<and> (\<not> sv_coalesced sv \<longrightarrow> pending_text sc s = []))"

definition safe :: "stream_env \<Rightarrow> jsstr \<Rightarrow> feed_scope \<Rightarrow> jsstr \<Rightarrow> 'x stream_state \<Rightarrow> bool" where
  "safe sv u sc txt s \<longleftrightarrow> watched (sv_buffer sv) u sc TTSR_PENDING_FEED_CHARS txt s \<and> small sv s"

lemma pending_flushed: "pending_text sc (flushPendingTtsr sv s) = []" "pending_text sc (flushPendingDelta sv t s) = []"
  by (cases sc; simp add: pending_text_def)+

lemma threshold_pos: "0 < TTSR_PENDING_FEED_CHARS" by (simp add: TTSR_PENDING_FEED_CHARS_def)

lemma safe_same:
  assumes "safe sv u sc txt s" "ss_matcher s' = ss_matcher s" "ss_text s' = ss_text s" "ss_args s' = ss_args s"
    "ss_interrupt s' = ss_interrupt s \<or> ss_interrupt s' \<noteq> None"
  shows "safe sv u sc txt s'"
proof -
  have "pending_text x s' = pending_text x s" for x using assms(3,4) by (cases x) (simp_all add: pending_text_def)
  then show ?thesis using assms by (auto simp: safe_def watched_def small_def)
qed

lemma flush_safe: "guarded sv sc u D \<Longrightarrow> safe sv u sc txt s \<Longrightarrow> safe sv u sc txt (flushPendingDelta sv t s)"
proof -
  assume g: "guarded sv sc u D" and s: "safe sv u sc txt s"
  have "watched (sv_buffer sv) u sc TTSR_PENDING_FEED_CHARS txt (flushPendingTtsr sv s)"
    using s by (intro flushTtsr_watched [OF g, where n = TTSR_PENDING_FEED_CHARS]) (auto simp: safe_def small_def threshold_pos)
  then have "safe sv u sc txt (flushPendingTtsr sv s)" by (simp add: safe_def small_def pending_flushed threshold_pos)
  then show ?thesis by (rule safe_same) simp_all
qed

lemma feed_delta_safe:
  assumes g: "guarded sv sc u D" and s: "safe sv u sc txt s" and d: "length d \<le> D"
  shows "safe sv u sc (txt @ (if scope_of k = Some sc then d else [])) (feed_delta sv k d s)"
proof (cases "ss_interrupt s \<noteq> None \<or> scope_of k = None")
  case True
  have "sv_rules sv \<noteq> None" using g by (auto simp: guarded_def)
  then have "feed_delta sv k d s = s" using True by (auto simp: feed_delta_def)
  then show ?thesis using True s by (auto simp: safe_def watched_def)
next
  case False
  then obtain sc' where sc': "scope_of k = Some sc'" and i: "ss_interrupt s = None" by auto
  have rules: "sv_rules sv \<noteq> None" using g by (auto simp: guarded_def)
  have w: "watched (sv_buffer sv) u sc TTSR_PENDING_FEED_CHARS txt s" and sm: "small sv s" using s by (simp_all add: safe_def)
  let ?txt = "txt @ (if scope_of k = Some sc then d else [])"
  show ?thesis
  proof (cases "sv_coalesced sv")
    case False
    have f: "feed_delta sv k d s = feedTtsr sv d sc' s" using False sc' i rules by (auto simp: feed_delta_def)
    have "pending_text sc s = []" using sm False by (simp add: small_def)
    from feedTtsr_watched [OF g w this _ threshold_pos, of d sc'] d
    have "watched (sv_buffer sv) u sc TTSR_PENDING_FEED_CHARS ?txt (feedTtsr sv d sc' s)" by (simp add: sc' split: if_splits)
    moreover have "pending_text x (feedTtsr sv d sc' s) = pending_text x s" for x by (cases x) (simp_all add: pending_text_def)
    ultimately show ?thesis using sm by (simp add: f safe_def small_def)
  next
    case co: True
    define s1 where "s1 = (case sc' of FeedText \<Rightarrow> s\<lparr>ss_text := ss_text s @ d\<rparr> | FeedArgs \<Rightarrow> s\<lparr>ss_args := ss_args s @ d\<rparr>)"
    have p1: "pending_text x s1 = (if x = sc' then pending_text x s @ d else pending_text x s)" for x
      by (cases x; cases sc') (simp_all add: s1_def pending_text_def)
    have m1: "ss_matcher s1 = ss_matcher s" "ss_interrupt s1 = None" using i by (simp_all add: s1_def split: feed_scope.split)
    have f: "feed_delta sv k d s = (if TTSR_PENDING_FEED_CHARS \<le> length (pending_text sc' s1) then flushPendingTtsr sv s1 else s1)"
      using co sc' i rules by (cases "sv_rules sv"; cases sc') (simp_all add: feed_delta_def Let_def s1_def pending_text_def)
    have len: "length (pending_text x s1) < TTSR_PENDING_FEED_CHARS + D" for x
      using sm d p1 [of x] by (cases "x = sc'") (auto simp: small_def intro: add_less_le_mono trans_less_add1)
    have w1: "watched (sv_buffer sv) u sc (TTSR_PENDING_FEED_CHARS + D) ?txt s1"
      using w i m1 p1 [of sc] sc' len [of sc] by (auto simp: watched_def)
    show ?thesis
    proof (cases "TTSR_PENDING_FEED_CHARS \<le> length (pending_text sc' s1)")
      case True
      have "watched (sv_buffer sv) u sc TTSR_PENDING_FEED_CHARS ?txt (flushPendingTtsr sv s1)"
        by (rule flushTtsr_watched [OF g w1 _ len threshold_pos]) simp
      then show ?thesis using True by (simp add: f safe_def small_def pending_flushed threshold_pos)
    next
      case False
      have "length (pending_text x s1) < TTSR_PENDING_FEED_CHARS" for x
        using False sm p1 [of x] by (cases "x = sc'") (auto simp: small_def)
      then show ?thesis using False w1 co by (auto simp: f safe_def small_def watched_def)
    qed
  qed
qed

lemma watch_delta_interrupt:
  "ss_interrupt (watch_delta sv k i d s) = ss_interrupt s \<or> ss_interrupt (watch_delta sv k i d s) \<noteq> None"
proof (cases "ss_interrupt s")
  case (Some j)
  then show ?thesis by (simp add: watch_delta_def split: option.split)
qed (metis)

lemma take_delta_safe:
  assumes g: "guarded sv sc u D" and s: "safe sv u sc txt s" and d: "length d \<le> D"
  shows "safe sv u sc (txt @ (if scope_of k = Some sc then d else [])) (take_delta sv k i d p t1 t2 t3 s)"
proof -
  let ?txt = "txt @ (if scope_of k = Some sc then d else [])"
  have "safe sv u sc txt (s\<lparr>ss_partial := Some p, ss_context := set_last (ss_context s) p\<rparr>)"
    by (rule safe_same [OF s]) simp_all
  from feed_delta_safe [OF g this d]
  have fd: "safe sv u sc ?txt (feed_delta sv k d (s\<lparr>ss_partial := Some p, ss_context := set_last (ss_context s) p\<rparr>))" .
  have "safe sv u sc ?txt (watched_delta sv k i d p s)"
    unfolding watched_delta_def by (rule safe_same [OF fd _ _ _ watch_delta_interrupt]) simp_all
  then have c: "safe sv u sc ?txt (coalesce sv k i d t1 (watched_delta sv k i d p s))" (is "safe _ _ _ _ ?s1")
  proof -
    assume w: "safe sv u sc ?txt (watched_delta sv k i d p s)"
    note fl = flush_safe [OF g w, of t1]
    have "safe sv u sc ?txt (s'\<lparr>ss_pending := P\<rparr>)" if "safe sv u sc ?txt s'" for s' P
      by (rule safe_same [OF that]) simp_all
    then show "safe sv u sc ?txt ?s1"
      unfolding coalesce_def using w fl by (cases "ss_pending (watched_delta sv k i d p s)") (auto split: prod.split)
  qed
  then show ?thesis using flush_safe [OF g c] by (simp add: take_delta_def flush_frame_def)
qed

lemma safe_flushed: "safe sv u sc txt (flushPendingDelta sv t s) \<Longrightarrow> ss_interrupt (flushPendingDelta sv t s) = None \<Longrightarrow> txt \<noteq> a @ u @ b"
  by (auto simp: safe_def watched_def pending_flushed)

definition deltas_within :: "nat \<Rightarrow> 'x provider_event list \<Rightarrow> bool" where
  "deltas_within D es \<longleftrightarrow> (\<forall>e \<in> set es. case e of PDelta k i d p t1 t2 t3 \<Rightarrow> length d \<le> D | _ \<Rightarrow> True)"

lemma texts_step: "texts sc b (e # es) = texts sc b [e] @ texts sc (b \<or> (\<exists>p. e = PStart p)) es"
  by (cases e) auto

text \<open>A guard's interrupt never becomes an answer.\<close>

lemma finalize_no_answer: "finalizeStreamInterrupt env sv t irq s = (s', out) \<Longrightarrow> out \<noteq> Going \<and> out \<noteq> Answered a"
  by (auto simp: finalizeStreamInterrupt_def Let_def split: option.splits if_splits dest!: emit_then_simps)

lemma step_safe:
  assumes g: "guarded sv sc u D" and s: "safe sv u sc txt s" and d: "deltas_within D [e]"
    and st: "stream_step env sv e s = (s', out)"
  shows "case out of
      Going \<Rightarrow> safe sv u sc (txt @ texts sc (ss_partial s \<noteq> None) [e]) s'
    | Answered a \<Rightarrow> \<forall>x y. txt \<noteq> x @ u @ y
    | _ \<Rightarrow> True"
proof (cases e)
  case (PStart p)
  then have "emit_then env (MessageStart (AssistantMsg p)) Going
       (s\<lparr>ss_partial := Some p, ss_context := ss_context s @ [AssistantMsg p], ss_added := True\<rparr>) = (s', out)"
    using st by simp
  from emit_then_simps [OF this] have "out = Going \<or> (\<exists>err. out = Failed err)" "safe sv u sc txt s'"
    using safe_same [OF s, of s'] by auto
  then show ?thesis using PStart by auto
next
  case (PDelta k i d' p t1 t2 t3)
  show ?thesis
  proof (cases "ss_partial s")
    case None
    then show ?thesis using PDelta st s by auto
  next
    case (Some q)
    have "length d' \<le> D" using d PDelta by (simp add: deltas_within_def)
    from take_delta_safe [OF g s this, of k i p t1 t2 t3] show ?thesis
      using st PDelta Some
      by (auto simp: Let_def split: option.splits stream_outcome.splits dest: finalize_no_answer)
  qed
next
  case (PBoundary k i p now)
  have "safe sv u sc txt (watch_boundary sv k i s)" by (rule safe_same [OF s]) simp_all
  from flush_safe [OF g this, of now] have f: "safe sv u sc txt (flushPendingDelta sv now (watch_boundary sv k i s))" .
  show ?thesis
  proof (cases out)
    case Going
    then have "safe sv u sc txt s'" using st PBoundary
      by (auto simp: Let_def split: option.splits dest: finalize_no_answer dest!: emit_then_simps intro: safe_same [OF f] f)
    then show ?thesis using Going PBoundary by simp
  next
    case (Answered a)
    then show ?thesis using st PBoundary
      by (auto simp: Let_def split: option.splits dest: finalize_no_answer dest!: emit_then_simps)
  qed simp_all
next
  case (PDone a now)
  show ?thesis
  proof (cases "ss_interrupt (flushPendingDelta sv now s)")
    case None
    then show ?thesis using safe_flushed [OF flush_safe [OF g s]] st PDone
      by (auto split: stream_outcome.split dest: publish_emits)
  next
    case (Some irq)
    then have "finalizeStreamInterrupt env sv now irq (flushPendingDelta sv now s) = (s', out)" using st PDone by (simp add: Let_def)
    from finalize_no_answer [OF this] show ?thesis by (auto split: stream_outcome.split)
  qed
qed


lemma run_safe:
  "run_stream env sv es ending s = (s', Answered a) \<Longrightarrow> guarded sv sc u D \<Longrightarrow> safe sv u sc txt s \<Longrightarrow>
     deltas_within D es \<Longrightarrow> (\<And>err t. ending \<noteq> TimedOut err t) \<Longrightarrow>
     txt @ texts sc (ss_partial s \<noteq> None) (until_done es) \<noteq> x @ u @ y"
proof (induction es arbitrary: s "txt")
  case Nil
  show ?case
  proof (cases ending)
    case (Drained res now)
    have "ss_interrupt (flushPendingDelta sv now s) = None" using Nil.prems(1) Drained
      by (auto simp: Let_def split: option.splits dest: finalize_no_answer)
    from safe_flushed [OF flush_safe [OF Nil.prems(2,3)] this] show ?thesis by simp
  qed (use Nil in auto)
next
  case (Cons e es)
  obtain s1 o1 where st: "stream_step env sv e s = (s1, o1)" by fastforce
  have d: "deltas_within D [e]" "deltas_within D es" using Cons.prems(4) by (simp_all add: deltas_within_def)
  note sf = step_safe [OF Cons.prems(2,3) d(1) st]
  show ?case
  proof (cases o1)
    case Going
    have run: "run_stream env sv es ending s1 = (s', Answered a)" using Cons.prems(1) st Going by simp
    have safe1: "safe sv u sc (txt @ texts sc (ss_partial s \<noteq> None) [e]) s1" using sf Going by simp
    from Cons.IH [OF run Cons.prems(2) safe1 d(2) Cons.prems(5)]
    have ih: "(txt @ texts sc (ss_partial s \<noteq> None) [e]) @ texts sc (ss_partial s1 \<noteq> None) (until_done es) \<noteq> x @ u @ y" .
    show ?thesis
    proof (cases e)
      case (PStart p)
      then have "ss_partial s1 \<noteq> None" using st by (auto dest!: emit_then_simps)
      then show ?thesis using ih PStart by simp
    next
      case (PDelta k i d' p t1 t2 t3)
      have "ss_partial s1 \<noteq> None \<longleftrightarrow> ss_partial s \<noteq> None" using st PDelta Going
        by (auto simp: Let_def take_delta_def flush_frame_def watched_delta_def split: option.splits if_splits dest: finalize_no_answer)
      then show ?thesis using ih PDelta by simp
    next
      case (PBoundary k i p now)
      have "ss_partial s1 \<noteq> None \<longleftrightarrow> ss_partial s \<noteq> None" using st PBoundary Going
        by (auto simp: Let_def split: option.splits dest: finalize_no_answer dest!: emit_then_simps)
      then show ?thesis using ih PBoundary by simp
    next
      case (PDone b now)
      then show ?thesis using st Going by (auto simp: Let_def split: option.splits dest: finalize_no_answer publish_emits)
    qed
  next
    case (Answered b)
    have "\<exists>c t. e = PDone c t" using st Answered
      by (cases e) (auto simp: Let_def split: option.splits if_splits dest: finalize_no_answer dest!: emit_then_simps)
    then show ?thesis using sf Answered by auto
  qed (use Cons.prems(1) st in auto)
qed

text \<open>The texts of an answer.\<close>

definition answer_texts :: "'x assistant \<Rightarrow> jsstr list" where
  "answer_texts a = List.map_filter (\<lambda>p. case p of TextPart t \<Rightarrow> Some t | _ \<Rightarrow> None) (am_content a)"

lemma answer_texts_member: "TextPart t \<in> set (am_content a) \<longleftrightarrow> t \<in> set (answer_texts a)"
proof -
  have "TextPart t \<in> set ps \<longleftrightarrow> t \<in> set (List.map_filter (\<lambda>p. case p of TextPart t \<Rightarrow> Some t | _ \<Rightarrow> None) ps)" for ps :: "'a part list"
    by (induction ps) (auto simp: map_filter_simps split: part.split)
  then show ?thesis by (simp add: answer_texts_def)
qed

lemma infix_of_concat: "t \<in> set ts \<Longrightarrow> t = x @ u @ y \<Longrightarrow> \<exists>x' y'. concat ts = x' @ u @ y'"
proof -
  assume "t \<in> set ts" and t: "t = x @ u @ y"
  then obtain ps qs where "ts = ps @ t # qs" by (meson split_list)
  then have "concat ts = (concat ps @ x) @ u @ (y @ concat qs)" by (simp add: t)
  then show ?thesis by blast
qed

text \<open>C7: Coalescing the feeds hides nothing from the stream rules as long as the rolling buffer holds the phrase, the feed
  threshold and the largest delta together: when an attempt that the wall clock did not cut off is answered, a phrase
  a rule fires on occurs nowhere in the text deltas the provider sent, respectively in its tool argument deltas, taken
  together in order - wherever the deltas and the frame windows cut it -, and so in no text of the answer when the
  answer's texts are what was streamed.
\<close>

theorem answers_respect_rules:
  assumes "run_stream env sv es ending (start_stream sv ctx (matcher_reset m)) = (s, Answered a)"
    "sv_rules sv = Some rules" "r \<in> set rules" "ruleMatchesScope (sr_scope r) sc" "fires_on r u" "u \<noteq> []"
    "deltas_within D es" "length u + (512 + D) \<le> sv_buffer sv" "\<And>err t. ending \<noteq> TimedOut err t"
  shows "\<not> (\<exists>x y. texts sc False (until_done es) = x @ u @ y) \<and>
    (sc = FeedText \<and> concat (answer_texts a) = texts FeedText False (until_done es) \<longrightarrow>
      (\<forall>t. TextPart t \<in> set (am_content a) \<longrightarrow> \<not> (\<exists>x y. t = x @ u @ y)))"
proof -
  have g: "guarded sv sc u D" using assms(2-6,8) by (auto simp: guarded_def TTSR_PENDING_FEED_CHARS_def)
  have "pending_text x (start_stream sv ctx (matcher_reset m)) = []" for x
    by (cases x) (simp_all add: pending_text_def start_stream_def)
  then have "safe sv u sc [] (start_stream sv ctx (matcher_reset m))"
    using assms(6) by (simp add: safe_def small_def watched_def threshold_pos start_stream_def buffer_reset)
  from run_safe [OF assms(1) g this assms(7,9)]
  have none: "\<not> (\<exists>x y. texts sc False (until_done es) = x @ u @ y)" by (simp add: start_stream_def)
  then show ?thesis unfolding answer_texts_member using infix_of_concat [of _ "answer_texts a" _ u] by metis
qed



section \<open>Witnesses\<close>

definition demo_answer :: "jsstr \<Rightarrow> nat assistant" where
  "demo_answer s = \<lparr> am_content = [TextPart s], am_model = [109], am_stopReason = js ''stop'', am_errorMessage = None \<rparr>"

definition demo_stream_env :: stream_env where
  "demo_stream_env =
     \<lparr> sv_model = [109], sv_rules = Some [demo_stream_rule], sv_buffer = 2048, sv_coalesced = True, sv_guard = None \<rparr>"

definition demo_events :: "nat provider_event list" where
  "demo_events =
     [PStart (demo_answer []), PDelta TextDelta 0 [0, 2] (demo_answer [0, 2]) 5 5 5,
      PDelta TextDelta 0 [3] (demo_answer [0, 2, 3]) 6 6 6, PDone (demo_answer [0, 2, 3]) 30]"

lemma demo_run: "\<exists>s. run_stream demo_env demo_stream_env demo_events (Breaks []) (start_stream demo_stream_env [] (matcher_reset m))
    = (s, Answered (demo_answer [0, 2, 3]))"
  by (simp add: demo_events_def demo_env_def demo_stream_env_def demo_stream_rule_def start_stream_def emit_then_def
      take_delta_def flush_frame_def watched_delta_def watch_delta_def feed_delta_def scope_of_def Let_def
      TTSR_PENDING_FEED_CHARS_def DELTA_THROTTLE_MS_def coalesce_def flushPendingDelta_def flushPendingTtsr_def feedTtsr_def
      feed_def push_buffer_def buffer_of_def slice_last_def matcher_reset_def publishFinalAssistantMessage_def)

theorem attempt_is_atomic_witness:
  "\<exists>s. ss_context s = [AssistantMsg (demo_answer [0, 2, 3])]
    \<and> run_stream demo_env demo_stream_env demo_events (Breaks []) (start_stream demo_stream_env [] \<lparr> mt_text = [], mt_args = [] \<rparr>)
      = (s, Answered (demo_answer [0, 2, 3]))"
proof -
  obtain s where r: "run_stream demo_env demo_stream_env demo_events (Breaks []) (start_stream demo_stream_env [] \<lparr> mt_text = [], mt_args = [] \<rparr>)
      = (s, Answered (demo_answer [0, 2, 3]))"
    using demo_run [of undefined] by (auto simp: matcher_reset_def)
  have "one_start False demo_events" by (simp add: demo_events_def)
  from attempt_is_atomic [OF this r] r show ?thesis by auto
qed

theorem answers_respect_rules_witness:
  "\<not> (\<exists>x y. texts FeedText False (until_done demo_events) = x @ [1] @ y) \<and>
   \<not> (\<exists>x y. [0, 2, 3] = x @ [1 :: jschar] @ y)"
proof -
  obtain s where r: "run_stream demo_env demo_stream_env demo_events (Breaks []) (start_stream demo_stream_env [] (matcher_reset undefined))
      = (s, Answered (demo_answer [0, 2, 3]))"
    using demo_run [of undefined] by blast
  have rules: "sv_rules demo_stream_env = Some [demo_stream_rule]" by (simp add: demo_stream_env_def)
  have d: "deltas_within 2 demo_events" "length [1::jschar] + (512 + 2) \<le> sv_buffer demo_stream_env"
    by (simp_all add: demo_events_def deltas_within_def demo_stream_env_def)
  have "concat (answer_texts (demo_answer [0, 2, 3])) = texts FeedText False (until_done demo_events)"
    "TextPart [0, 2, 3] \<in> set (am_content (demo_answer [0, 2, 3]))"
    by (simp_all add: answer_texts_def map_filter_simps demo_answer_def demo_events_def scope_of_def)
  with answers_respect_rules [OF r rules demo_stream_rule_ok _ d] show ?thesis by fastforce
qed

end
