(* ===== verification/EventStream.thy ===== *)
theory EventStream
  imports JsBase
begin

text \<open>
  The event stream between a producer and the consumers that iterate over it (ai/src/utils/event-stream.ts): a queue
  read through a cursor, the consumers that wait for an event, and a cap on the backlog above which a push throws.

  A waiting consumer is counted; what a push hands to it, or a consumer's next step takes, is the event returned.
\<close>


section \<open>The stream\<close>

record ('e, 'r) event_stream =
  es_queue :: "'e list"
  es_head :: nat
  es_waiting :: nat
  es_done :: bool
  es_result :: "'r option"
  es_warned :: bool
  es_warnDepth :: int
  es_hardMax :: int

definition DEFAULT_BACKLOG_WARN_DEPTH :: int where "DEFAULT_BACKLOG_WARN_DEPTH = 50000"

definition DEFAULT_BACKLOG_HARD_MAX :: int where "DEFAULT_BACKLOG_HARD_MAX = 100000"

text \<open>The environment's limits, when they parse as integers.\<close>

definition new_stream :: "int option \<Rightarrow> int option \<Rightarrow> ('e, 'r) event_stream" where
  "new_stream warn cap = \<lparr> es_queue = [], es_head = 0, es_waiting = 0, es_done = False, es_result = None, es_warned = False,
     es_warnDepth = (case warn of Some n \<Rightarrow> n | None \<Rightarrow> DEFAULT_BACKLOG_WARN_DEPTH),
     es_hardMax = (case cap of Some n \<Rightarrow> n | None \<Rightarrow> DEFAULT_BACKLOG_HARD_MAX) \<rparr>"

definition backlog :: "('e, 'r) event_stream \<Rightarrow> nat" where
  "backlog s = length (es_queue s) - es_head s"

text \<open>A promise keeps the first result it is resolved with.\<close>

definition resolveFinalResult :: "'r \<Rightarrow> ('e, 'r) event_stream \<Rightarrow> ('e, 'r) event_stream" where
  "resolveFinalResult r s = (case es_result s of None \<Rightarrow> s\<lparr>es_result := Some r\<rparr> | Some x \<Rightarrow> s)"

definition complete_with :: "('e \<Rightarrow> bool) \<Rightarrow> ('e \<Rightarrow> 'r) \<Rightarrow> 'e \<Rightarrow> ('e, 'r) event_stream \<Rightarrow> ('e, 'r) event_stream" where
  "complete_with isComplete extractResult e s =
     (if isComplete e then resolveFinalResult (extractResult e) (s\<lparr>es_done := True\<rparr>) else s)"

definition warn_backlog :: "('e, 'r) event_stream \<Rightarrow> ('e, 'r) event_stream" where
  "warn_backlog s =
     (if \<not> es_warned s \<and> es_warnDepth s \<le> int (backlog s) \<and> 0 < es_warnDepth s then s\<lparr>es_warned := True\<rparr> else s)"

text \<open>A push: the stream, what a waiting consumer received, and whether it threw. At the cap the event is already queued.\<close>

definition push :: "('e \<Rightarrow> bool) \<Rightarrow> ('e \<Rightarrow> 'r) \<Rightarrow> 'e \<Rightarrow> ('e, 'r) event_stream \<Rightarrow> ('e, 'r) event_stream \<times> 'e option \<times> bool" where
  "push isComplete extractResult e s =
     (if es_done s then (s, None, False)
      else
        let s1 = complete_with isComplete extractResult e s
        in if 0 < es_waiting s1 then (s1\<lparr>es_waiting := es_waiting s1 - 1\<rparr>, Some e, False)
           else let s2 = warn_backlog (s1\<lparr>es_queue := es_queue s1 @ [e]\<rparr>)
                in (s2, None, 0 < es_hardMax s2 \<and> es_hardMax s2 \<le> int (backlog s2)))"

definition end_stream :: "'r option \<Rightarrow> ('e, 'r) event_stream \<Rightarrow> ('e, 'r) event_stream" where
  "end_stream result s =
     (let s1 = s\<lparr>es_done := True\<rparr>;
          s2 = (case result of Some r \<Rightarrow> resolveFinalResult r s1 | None \<Rightarrow> s1)
      in s2\<lparr>es_waiting := 0\<rparr>)"

text \<open>A step of the iterator: it takes an event, is over, or waits.\<close>

datatype 'e taken = Taken 'e | Over | Waits

definition next_event :: "('e, 'r) event_stream \<Rightarrow> ('e, 'r) event_stream \<times> 'e taken" where
  "next_event s =
     (if es_head s < length (es_queue s) then
        let e = es_queue s ! es_head s;
            s1 = s\<lparr>es_head := Suc (es_head s)\<rparr>;
            s2 = (if 1024 < es_head s1 then s1\<lparr>es_queue := drop (es_head s1) (es_queue s1), es_head := 0\<rparr> else s1)
        in (s2, Taken e)
      else if es_done s then (s, Over)
      else (s\<lparr>es_waiting := Suc (es_waiting s)\<rparr>, Waits))"


section \<open>What the consumers receive\<close>

text \<open>With the history of a stream - what it accepted, and what its consumers received - the steps of its users.\<close>

definition unread :: "('e, 'r) event_stream \<Rightarrow> 'e list" where
  "unread s = drop (es_head s) (es_queue s)"

record ('e, 'r) observed =
  ob_stream :: "('e, 'r) event_stream"
  ob_accepted :: "'e list"
  ob_received :: "'e list"

definition pushed :: "('e \<Rightarrow> bool) \<Rightarrow> ('e \<Rightarrow> 'r) \<Rightarrow> 'e \<Rightarrow> ('e, 'r) observed \<Rightarrow> ('e, 'r) observed \<times> bool" where
  "pushed isComplete extractResult e x =
     (let (s, got, threw) = push isComplete extractResult e (ob_stream x)
      in (\<lparr> ob_stream = s,
            ob_accepted = (if es_done (ob_stream x) then ob_accepted x else ob_accepted x @ [e]),
            ob_received = (case got of Some d \<Rightarrow> ob_received x @ [d] | None \<Rightarrow> ob_received x) \<rparr>, threw))"

definition taken :: "('e, 'r) observed \<Rightarrow> ('e, 'r) observed" where
  "taken x = (case next_event (ob_stream x) of
       (s, Taken e) \<Rightarrow> x\<lparr>ob_stream := s, ob_received := ob_received x @ [e]\<rparr>
     | (s, _) \<Rightarrow> x\<lparr>ob_stream := s\<rparr>)"

definition ended :: "'r option \<Rightarrow> ('e, 'r) observed \<Rightarrow> ('e, 'r) observed" where
  "ended r x = x\<lparr>ob_stream := end_stream r (ob_stream x)\<rparr>"

inductive use_stream :: "('e \<Rightarrow> bool) \<Rightarrow> ('e \<Rightarrow> 'r) \<Rightarrow> ('e, 'r) observed \<Rightarrow> ('e, 'r) observed \<Rightarrow> bool" for c xr where
  us_push: "use_stream c xr x (fst (pushed c xr e x))"
| us_next: "use_stream c xr x (taken x)"
| us_end: "use_stream c xr x (ended r x)"

definition observe :: "('e, 'r) event_stream \<Rightarrow> ('e, 'r) observed" where
  "observe s = \<lparr> ob_stream = s, ob_accepted = [], ob_received = [] \<rparr>"

text \<open>
  Every accepted event is received, or still unread, once and in order; a consumer waits only where nothing is unread and
  the stream is open; and nothing is accepted after the event that completes the stream.
\<close>

definition stream_ok :: "('e \<Rightarrow> bool) \<Rightarrow> ('e, 'r) observed \<Rightarrow> bool" where
  "stream_ok c x \<longleftrightarrow>
     es_head (ob_stream x) \<le> length (es_queue (ob_stream x)) \<and>
     ob_received x @ unread (ob_stream x) = ob_accepted x \<and>
     (0 < es_waiting (ob_stream x) \<longrightarrow> unread (ob_stream x) = []) \<and>
     list_all (\<lambda>e. \<not> c e) (butlast (ob_accepted x)) \<and>
     (\<not> es_done (ob_stream x) \<longrightarrow> list_all (\<lambda>e. \<not> c e) (ob_accepted x))"

lemma resolve_fields [simp]:
  "es_queue (resolveFinalResult r s) = es_queue s" "es_head (resolveFinalResult r s) = es_head s"
  "es_waiting (resolveFinalResult r s) = es_waiting s" "es_done (resolveFinalResult r s) = es_done s"
  "es_hardMax (resolveFinalResult r s) = es_hardMax s"
  by (simp_all add: resolveFinalResult_def split: option.split)

lemma complete_fields [simp]:
  "es_queue (complete_with c xr e s) = es_queue s" "es_head (complete_with c xr e s) = es_head s"
  "es_waiting (complete_with c xr e s) = es_waiting s" "es_done (complete_with c xr e s) = (es_done s \<or> c e)"
  "es_hardMax (complete_with c xr e s) = es_hardMax s"
  by (simp_all add: complete_with_def)

lemma warn_fields [simp]:
  "es_queue (warn_backlog s) = es_queue s" "es_head (warn_backlog s) = es_head s" "es_waiting (warn_backlog s) = es_waiting s"
  "es_done (warn_backlog s) = es_done s" "es_hardMax (warn_backlog s) = es_hardMax s"
  by (simp_all add: warn_backlog_def)

lemma backlog_unread: "backlog s = length (unread s)"
  by (simp add: backlog_def unread_def)

lemma push_closed: "es_done s \<Longrightarrow> push c xr e s = (s, None, False)"
  by (simp add: push_def)

lemma push_waited:
  assumes "\<not> es_done s" "0 < es_waiting s" "push c xr e s = (s', got, threw)"
  shows "got = Some e" "\<not> threw" "es_queue s' = es_queue s" "es_head s' = es_head s" "es_waiting s' = es_waiting s - 1"
    "es_done s' = c e" "es_hardMax s' = es_hardMax s"
  using assms by (auto simp: push_def Let_def)

lemma push_queued:
  assumes "\<not> es_done s" "es_waiting s = 0" "push c xr e s = (s', got, threw)"
  shows "got = None" "threw = (0 < es_hardMax s \<and> es_hardMax s \<le> int (backlog s'))" "es_queue s' = es_queue s @ [e]"
    "es_head s' = es_head s" "es_waiting s' = 0" "es_done s' = c e" "es_hardMax s' = es_hardMax s"
  using assms by (auto simp: push_def Let_def backlog_def)

lemma next_taken:
  assumes "es_head s < length (es_queue s)"
  shows "\<exists>s' e. next_event s = (s', Taken e) \<and> unread s = e # unread s' \<and> es_head s' \<le> length (es_queue s') \<and>
    es_waiting s' = es_waiting s \<and> es_done s' = es_done s \<and> es_hardMax s' = es_hardMax s"
  using assms by (auto simp: next_event_def Let_def unread_def Cons_nth_drop_Suc)

lemma next_idle:
  assumes "\<not> es_head s < length (es_queue s)"
  shows "\<exists>n. next_event s = (s\<lparr>es_waiting := n\<rparr>, if es_done s then Over else Waits)"
  using assms by (auto simp: next_event_def intro: exI [of _ "es_waiting s"])

lemma pushed_ok: "stream_ok c x \<Longrightarrow> stream_ok c (fst (pushed c xr e x))"
proof -
  assume ok: "stream_ok c x"
  obtain s' got threw where p: "push c xr e (ob_stream x) = (s', got, threw)" by (metis prod_cases3)
  consider (closed) "es_done (ob_stream x)" | (waited) "\<not> es_done (ob_stream x)" "0 < es_waiting (ob_stream x)"
    | (queued) "\<not> es_done (ob_stream x)" "es_waiting (ob_stream x) = 0" by blast
  then show ?thesis
  proof cases
    case closed
    then show ?thesis using ok by (simp add: pushed_def push_closed stream_ok_def)
  next
    case waited
    then show ?thesis using ok push_waited [OF waited p] by (auto simp: pushed_def p stream_ok_def unread_def)
  next
    case queued
    then show ?thesis using ok push_queued [OF queued p] by (auto simp: pushed_def p stream_ok_def unread_def)
  qed
qed

lemma taken_ok: "stream_ok c x \<Longrightarrow> stream_ok c (taken x)"
proof -
  assume ok: "stream_ok c x"
  show ?thesis
  proof (cases "es_head (ob_stream x) < length (es_queue (ob_stream x))")
    case True
    from next_taken [OF this] show ?thesis using ok by (auto simp: taken_def stream_ok_def)
  next
    case False
    from next_idle [OF this] show ?thesis using ok False by (auto simp: taken_def stream_ok_def unread_def)
  qed
qed

lemma end_fields [simp]:
  "es_queue (end_stream r s) = es_queue s" "es_head (end_stream r s) = es_head s" "es_waiting (end_stream r s) = 0"
  "es_done (end_stream r s)" "es_hardMax (end_stream r s) = es_hardMax s"
  by (simp_all add: end_stream_def Let_def split: option.split)

lemma ended_ok: "stream_ok c x \<Longrightarrow> stream_ok c (ended r x)"
  by (simp add: ended_def stream_ok_def unread_def)

lemma observe_ok: "stream_ok c (observe (new_stream warn cap))"
  by (simp add: observe_def new_stream_def stream_ok_def unread_def)

lemma use_stream_ok: "use_stream c xr x y \<Longrightarrow> stream_ok c x \<Longrightarrow> stream_ok c y"
  by (induction rule: use_stream.induct) (auto intro: pushed_ok taken_ok ended_ok)

interpretation used: transition_system "\<lambda>x. \<exists>warn cap. x = observe (new_stream warn cap)" "use_stream c xr" "stream_ok c"
  by unfold_locales (auto intro: observe_ok use_stream_ok)

text \<open>A stream hands its events over in the order of their pushes, whoever waits, reads or ends it, up to the completing one.\<close>

lemma stream_in_order:
  assumes "(use_stream c xr)\<^sup>*\<^sup>* (observe (new_stream warn cap)) x"
  shows "ob_received x @ unread (ob_stream x) = ob_accepted x"
  using used.inv_reach [OF assms] by (auto simp: stream_ok_def)


section \<open>A producer and a consumer\<close>

text \<open>
  One consumer iterates; before the \<open>i\<close>-th push it has made \<open>pace i\<close> further steps, none of them while it waits.
\<close>

definition reads :: "nat \<Rightarrow> ('e, 'r) observed \<Rightarrow> ('e, 'r) observed" where
  "reads n = ((\<lambda>x. if 0 < es_waiting (ob_stream x) then x else taken x) ^^ n)"

fun push_all :: "('e \<Rightarrow> bool) \<Rightarrow> ('e \<Rightarrow> 'r) \<Rightarrow> (nat \<Rightarrow> nat) \<Rightarrow> nat \<Rightarrow> 'e list \<Rightarrow> ('e, 'r) observed \<Rightarrow> ('e, 'r) observed" where
  "push_all c xr pace k [] x = x"
| "push_all c xr pace k (e # es) x = push_all c xr pace (Suc k) es (fst (pushed c xr e (reads (pace k) x)))"

text \<open>Pushes of straight-line code, which no consumer interrupts: the first one that throws is the last.\<close>

fun push_until :: "('e \<Rightarrow> bool) \<Rightarrow> ('e \<Rightarrow> 'r) \<Rightarrow> 'e list \<Rightarrow> ('e, 'r) observed \<Rightarrow> ('e, 'r) observed \<times> bool" where
  "push_until c xr [] x = (x, False)"
| "push_until c xr (e # es) x =
     (let (y, threw) = pushed c xr e x in if threw then (y, True) else push_until c xr es y)"

lemma reads_0 [simp]: "reads 0 x = x"
  by (simp add: reads_def)

lemma reads_Suc: "reads (Suc n) x = (let y = reads n x in if 0 < es_waiting (ob_stream y) then y else taken y)"
  by (simp add: reads_def)

lemma taken_fields [simp]:
  "ob_accepted (taken x) = ob_accepted x" "es_done (ob_stream (taken x)) = es_done (ob_stream x)"
  "es_hardMax (ob_stream (taken x)) = es_hardMax (ob_stream x)"
  by (auto simp: taken_def next_event_def Let_def)

lemma reads_fields [simp]:
  "ob_accepted (reads n x) = ob_accepted x" "es_done (ob_stream (reads n x)) = es_done (ob_stream x)"
  "es_hardMax (ob_stream (reads n x)) = es_hardMax (ob_stream x)"
  by (induction n) (auto simp: reads_Suc Let_def)

lemma reads_ok: "stream_ok c x \<Longrightarrow> stream_ok c (reads n x)"
  by (induction n) (auto simp: reads_Suc Let_def intro: taken_ok)

lemma push_all_ok: "stream_ok c x \<Longrightarrow> stream_ok c (push_all c xr pace k es x)"
  by (induction es arbitrary: k x) (auto intro: pushed_ok reads_ok)

lemma push_until_ok: "stream_ok c x \<Longrightarrow> stream_ok c (fst (push_until c xr es x))"
proof (induction es arbitrary: x)
  case (Cons e es)
  then show ?case using pushed_ok [OF Cons.prems] by (simp add: split_def Let_def)
qed simp

text \<open>What a stream accepts of a list of events: those up to the completing one.\<close>

fun up_to :: "('e \<Rightarrow> bool) \<Rightarrow> 'e list \<Rightarrow> 'e list" where
  "up_to c [] = []"
| "up_to c (e # es) = (if c e then [e] else e # up_to c es)"

lemma pushed_fields [simp]:
  "ob_accepted (fst (pushed c xr e x)) = (if es_done (ob_stream x) then ob_accepted x else ob_accepted x @ [e])"
  "es_done (ob_stream (fst (pushed c xr e x))) = (es_done (ob_stream x) \<or> c e)"
  "es_hardMax (ob_stream (fst (pushed c xr e x))) = es_hardMax (ob_stream x)"
  by (auto simp: pushed_def push_def Let_def split_def)

lemma push_all_accepts:
  "ob_accepted (push_all c xr pace k es x) = ob_accepted x @ (if es_done (ob_stream x) then [] else up_to c es) \<and>
   es_done (ob_stream (push_all c xr pace k es x)) = (es_done (ob_stream x) \<or> list_ex c es) \<and>
   es_hardMax (ob_stream (push_all c xr pace k es x)) = es_hardMax (ob_stream x)"
  by (induction es arbitrary: k x) auto

lemma up_to_none: "\<not> list_ex c es \<Longrightarrow> up_to c es = es"
  by (induction es) auto

lemma up_to_ex [simp]: "list_ex c (up_to c es) = list_ex c es"
  by (induction es) auto

lemma up_to_last: "\<not> list_ex c es \<Longrightarrow> up_to c (es @ [e]) = es @ [e]"
  by (induction es) auto

lemma push_until_returns:
  "push_until c xr es x = (y, False) \<Longrightarrow>
   ob_accepted y = ob_accepted x @ (if es_done (ob_stream x) then [] else up_to c es) \<and>
   es_done (ob_stream y) = (es_done (ob_stream x) \<or> list_ex c es)"
proof (induction es arbitrary: x)
  case (Cons e es)
  have "push_until c xr es (fst (pushed c xr e x)) = (y, False)" using Cons.prems by (auto simp: split_def Let_def split: if_splits)
  from Cons.IH [OF this] show ?case by auto
qed simp

lemma push_until_closed: "es_done (ob_stream x) \<Longrightarrow> push_until c xr es x = (x, False)"
  by (cases x; induction es) (simp_all add: pushed_def push_closed)

text \<open>The pushes that were made, the throwing one included, are a prefix of the list.\<close>

lemma push_until_prefix:
  "\<not> es_done (ob_stream x) \<Longrightarrow> \<exists>as bs. es = as @ bs \<and> ob_accepted (fst (push_until c xr es x)) = ob_accepted x @ up_to c as \<and>
    es_done (ob_stream (fst (push_until c xr es x))) = list_ex c as"
proof (induction es arbitrary: x)
  case (Cons e es)
  let ?y = "fst (pushed c xr e x)"
  consider (threw) "snd (pushed c xr e x)" | (closed) "\<not> snd (pushed c xr e x)" "c e" | (on) "\<not> snd (pushed c xr e x)" "\<not> c e" by blast
  then show ?case
  proof cases
    case threw
    then show ?thesis using Cons.prems by (intro exI [of _ "[e]"] exI [of _ es]) (simp add: split_def Let_def)
  next
    case closed
    then have "push_until c xr es ?y = (?y, False)" using Cons.prems by (intro push_until_closed) simp
    then show ?thesis using Cons.prems closed by (intro exI [of _ "[e]"] exI [of _ es]) (simp add: split_def Let_def)
  next
    case on
    then obtain as bs where "es = as @ bs" "ob_accepted (fst (push_until c xr es ?y)) = ob_accepted ?y @ up_to c as"
        "es_done (ob_stream (fst (push_until c xr es ?y))) = list_ex c as"
      using Cons.IH [of ?y] Cons.prems by auto
    then show ?thesis using Cons.prems on by (intro exI [of _ "e # as"] exI [of _ bs]) (simp add: split_def Let_def)
  qed
qed (auto intro: exI [of _ "[]"])

text \<open>A push throws only at the cap; so the pushes of a list throw exactly when the backlog reaches it with them.\<close>

lemma pushed_waited:
  assumes "\<not> es_done (ob_stream x)" "0 < es_waiting (ob_stream x)"
  shows "es_waiting (ob_stream (fst (pushed c xr e x))) = es_waiting (ob_stream x) - 1"
    "backlog (ob_stream (fst (pushed c xr e x))) = backlog (ob_stream x)" "\<not> snd (pushed c xr e x)"
  using assms by (simp_all add: pushed_def push_def Let_def backlog_def split_def)

lemma pushed_queued:
  assumes "\<not> es_done (ob_stream x)" "es_waiting (ob_stream x) = 0" "es_head (ob_stream x) \<le> length (es_queue (ob_stream x))"
  shows "es_waiting (ob_stream (fst (pushed c xr e x))) = 0"
    "backlog (ob_stream (fst (pushed c xr e x))) = Suc (backlog (ob_stream x))"
    "snd (pushed c xr e x) = (0 < es_hardMax (ob_stream x) \<and> es_hardMax (ob_stream x) \<le> int (Suc (backlog (ob_stream x))))"
  using assms by (simp_all add: pushed_def push_def Let_def backlog_def split_def Suc_diff_le)

lemma push_until_append:
  "push_until c xr (as @ bs) x = (case push_until c xr as x of (y, True) \<Rightarrow> (y, True) | (y, False) \<Rightarrow> push_until c xr bs y)"
  by (induction as arbitrary: x) (auto simp: split_def Let_def)

lemma push_until_throws:
  assumes "stream_ok c x" "\<not> es_done (ob_stream x)" "\<not> list_ex c es" "es \<noteq> []"
  shows "snd (push_until c xr es x) \<longleftrightarrow> 0 < es_hardMax (ob_stream x) \<and>
    es_hardMax (ob_stream x) \<le> int (backlog (ob_stream x) + (length es - es_waiting (ob_stream x)))"
  using assms
proof (induction es arbitrary: x)
  case (Cons e es)
  let ?y = "fst (pushed c xr e x)"
  have ok: "stream_ok c ?y" "\<not> es_done (ob_stream ?y)" "\<not> list_ex c es" using Cons.prems pushed_ok by auto
  note IH = Cons.IH [OF ok]
  show ?case
  proof (cases "es_waiting (ob_stream x) = 0")
    case True
    have "es_head (ob_stream x) \<le> length (es_queue (ob_stream x))" using Cons.prems(1) by (simp add: stream_ok_def)
    note q = pushed_queued [OF Cons.prems(2) True this, of c xr e]
    show ?thesis using q IH True by (cases "es = []") (auto simp: split_def Let_def)
  next
    case False
    then have w: "0 < es_waiting (ob_stream x)" by simp
    then have "backlog (ob_stream x) = 0" using Cons.prems(1) by (simp add: stream_ok_def backlog_unread)
    then show ?thesis using pushed_waited [OF Cons.prems(2) w, of c xr e] IH w by (cases "es = []") (auto simp: split_def Let_def)
  qed
qed simp

end
