(* ===== verification/AgentLoop.thy ===== *)
theory AgentLoop
  imports StreamTurn EventStream
begin

text \<open>
  The agent loop (agent/src/agent-loop.ts): a run makes turns, each of which streams an assistant message with
  the retries its guards ask for, executes the tool calls and drains the queues, until nothing is pending, a
  stop is asked for, the run is aborted or the turn budget is spent.

  What surrounds the loop is a script: for every turn the queues' answers, the attempts of the stream, the tool
  environment, the abort flags and the hooks' answers. A hook that throws is an \<open>Inl\<close>.
\<close>


section \<open>The script of a run\<close>

record 'x next_turn =
  nt_context :: "('x message list \<times> 'x agent_tool list) option"
  nt_model :: "jsstr option"

record 'x turn_script =
  ts_passive :: "jsstr + 'x message list"
  ts_activeTools :: "'x agent_tool list option"
  ts_attempts :: "nat \<Rightarrow> 'x attempt"
  ts_toolEnv :: "'x tool_env"
  ts_schedule :: batch_schedule
  ts_abortedAfterBatch :: bool
  ts_abortedAfterTurn :: bool
  ts_nextTurn :: "'x next_turn option"
  ts_shouldStop :: "jsstr + bool"
  ts_steering :: "jsstr + 'x message list"
  ts_followUp :: "jsstr + 'x message list"

record 'x loop_env =
  le_throws :: "'x event \<Rightarrow> jsstr option"
  le_stream :: stream_env
  le_maxTurns :: "nat option"
  le_steering :: "jsstr + 'x message list"
  le_script :: "nat \<Rightarrow> 'x turn_script"

record 'x loop_state =
  ls_context :: "'x message list"
  ls_tools :: "'x agent_tool list"
  ls_new :: "'x message list"
  ls_pending :: "'x message list"
  ls_turnCount :: nat
  ls_firstTurn :: bool
  ls_model :: jsstr
  ls_matcher :: matcher

definition DEFAULT_MAX_TURNS :: nat where "DEFAULT_MAX_TURNS = 250"

definition MAX_TTSR_RETRIES_PER_TURN :: nat where "MAX_TTSR_RETRIES_PER_TURN = 3"

definition max_turns :: "'x loop_env \<Rightarrow> nat" where
  "max_turns le = (case le_maxTurns le of Some n \<Rightarrow> n | None \<Rightarrow> DEFAULT_MAX_TURNS)"

text \<open>The environment of a turn: its tools are the active ones, its listener that of the run.\<close>

definition turn_env :: "'x loop_env \<Rightarrow> 'x turn_script \<Rightarrow> 'x agent_tool list \<Rightarrow> 'x tool_env" where
  "turn_env le sc tools = (ts_toolEnv sc)\<lparr>te_throws := le_throws le, te_tools := tools\<rparr>"

definition live_tools :: "'x turn_script \<Rightarrow> 'x agent_tool list \<Rightarrow> 'x agent_tool list" where
  "live_tools sc tools = (case ts_activeTools sc of Some ts \<Rightarrow> ts | None \<Rightarrow> tools)"


section \<open>Synthetic messages\<close>

definition user_message :: "jsstr \<Rightarrow> 'x message" where
  "user_message s =
     OtherMsg (JObject [(js ''role'', JString (js ''user'')),
       (js ''content'', JArray [JObject [(js ''type'', JString (js ''text'')), (js ''text'', JString s)]])])"

definition buildTTSRReminderMessage :: "jsstr \<Rightarrow> jsstr \<Rightarrow> 'x message" where
  "buildTTSRReminderMessage name msg =
     user_message (js ''<system-reminder>[TTSR:'' @ name @ js ''] '' @ msg @ js ''</system-reminder>'')"

definition overthink_action :: jsstr where
  "overthink_action =
     js ''Stop extended deliberation (\"wait'' @ ellipsis @ js '' actually'' @ ellipsis @ js '' on second thought'' @ ellipsis
       @ js ''\") and act now: call the tool you need, or state one concrete next step in a short paragraph. ''
       @ js ''Do not resume a long chain-of-thought; interleave brief reasoning with tool use.''"

definition buildOverthinkReminderMessage :: "nat \<Rightarrow> nat \<Rightarrow> interrupt_reason \<Rightarrow> 'x message" where
  "buildOverthinkReminderMessage tokens limit why =
     user_message
       (case why of
          Rumination n \<Rightarrow>
            js ''<system-reminder>[overthink] Detected '' @ digits n @ js '' self-reversals (\"wait'' @ ellipsis @ js '' actually''
              @ ellipsis @ js '' on second thought'' @ ellipsis @ js ''\") within one reasoning block (~'' @ digits tokens
              @ js '' tokens). '' @ overthink_action @ js ''</system-reminder>''
        | Volume \<Rightarrow>
            js ''<system-reminder>[overthink] Internal reasoning for this turn exceeded ~'' @ digits tokens @ js '' tokens (limit ~''
              @ digits limit @ js '') without calling a tool. '' @ overthink_action @ js ''</system-reminder>'')"

definition buildTurnBudgetMessage :: "jsstr \<Rightarrow> nat \<Rightarrow> 'x assistant" where
  "buildTurnBudgetMessage model n =
     buildErrorTurn model (js ''[stop: turn-budget] Reached the turn budget of '' @ digits n
       @ js '' turns in a single run; stopping to avoid an unbounded tool-call loop.'')"

definition ttsr_bail :: "jsstr \<Rightarrow> jsstr \<Rightarrow> 'x assistant" where
  "ttsr_bail model name =
     buildErrorTurn model (js ''[stop: ttsr] TTSR: exceeded '' @ digits MAX_TTSR_RETRIES_PER_TURN @ js '' retries (rule \"'' @ name @ js ''\")'')"

definition overthink_bail :: "jsstr \<Rightarrow> nat \<Rightarrow> nat \<Rightarrow> nat \<Rightarrow> 'x assistant" where
  "overthink_bail model retries tokens limit =
     buildErrorTurn model (js ''[stop: overthink] Exceeded '' @ digits retries @ js '' overthink guard retries (~'' @ digits tokens
       @ js '' tokens, limit ~'' @ digits limit @ js '').'')"


section \<open>Emitting messages\<close>

definition emit_message :: "'x tool_env \<Rightarrow> 'x message \<Rightarrow> ('x, unit) act" where
  "emit_message env m = then_act (emit env (MessageStart m)) (\<lambda>u. emit env (MessageEnd m))"

fun emit_messages :: "'x tool_env \<Rightarrow> 'x message list \<Rightarrow> ('x, unit) act" where
  "emit_messages env [] = return_act ()"
| "emit_messages env (m # ms) = then_act (emit_message env m) (\<lambda>u. emit_messages env ms)"

definition ask :: "jsstr + 'a \<Rightarrow> ('x, 'a) act" where
  "ask answer = ([], answer)"


section \<open>Streaming with retries\<close>

text \<open>
  What the stream of a turn yields: the message, the context with it, and the messages it added to the run (the
  reminders and the message).
\<close>

record 'x streamed =
  st_message :: "'x assistant"
  st_context :: "'x message list"
  st_added :: "'x message list"
  st_matcher :: matcher

definition bail :: "'x tool_env \<Rightarrow> 'x assistant \<Rightarrow> 'x message list \<Rightarrow> 'x message list \<Rightarrow> matcher \<Rightarrow> ('x, 'x streamed) act" where
  "bail env a ctx added m =
     then_act (emit_message env (AssistantMsg a))
       (\<lambda>u. return_act \<lparr> st_message = a, st_context = ctx, st_added = added @ [AssistantMsg a], st_matcher = m \<rparr>)"

definition overthink_retries :: "stream_env \<Rightarrow> nat" where
  "overthink_retries sv = (case sv_guard sv of Some g \<Rightarrow> og_maxRetries g | None \<Rightarrow> 0)"

text \<open>\<open>k\<close> counts the attempts, \<open>tleft\<close> and \<open>oleft\<close> the retries each guard has left.\<close>

function stream_turn :: "'x tool_env \<Rightarrow> stream_env \<Rightarrow> jsstr \<Rightarrow> (nat \<Rightarrow> 'x attempt) \<Rightarrow> nat \<Rightarrow> nat \<Rightarrow> nat
    \<Rightarrow> 'x message list \<Rightarrow> 'x message list \<Rightarrow> matcher \<Rightarrow> ('x, 'x streamed) act" where
  "stream_turn env sv model attempts k tleft oleft ctx added m =
     (case streamAssistantResponse env (sv\<lparr>sv_model := model\<rparr>) ctx m (attempts k) of
        (s, out) \<Rightarrow>
          (case out of
             Going \<Rightarrow> (ss_trace s, Inl [])
           | Failed err \<Rightarrow> (ss_trace s, Inl err)
           | Answered a \<Rightarrow>
               (ss_trace s, Inr \<lparr> st_message = a, st_context = ss_context s, st_added = added @ [AssistantMsg a],
                                  st_matcher = ss_matcher s \<rparr>)
           | Interrupted (TTSRHit name msg) \<Rightarrow>
               then_act (ss_trace s, Inr ()) (\<lambda>u.
                 if tleft = 0 then bail env (ttsr_bail model name) (ss_context s) added (ss_matcher s)
                 else
                   let r = buildTTSRReminderMessage name msg
                   in then_act (emit_message env r) (\<lambda>u.
                        stream_turn env sv model attempts (Suc k) (tleft - 1) oleft (ss_context s @ [r]) (added @ [r])
                          (matcher_reset (ss_matcher s))))
           | Interrupted (Overthought tokens limit why) \<Rightarrow>
               then_act (ss_trace s, Inr ()) (\<lambda>u.
                 if oleft = 0 then bail env (overthink_bail model (overthink_retries sv) tokens limit) (ss_context s) added (ss_matcher s)
                 else
                   let r = buildOverthinkReminderMessage tokens limit why
                   in then_act (emit_message env r) (\<lambda>u.
                        stream_turn env sv model attempts (Suc k) tleft (oleft - 1) (ss_context s @ [r]) (added @ [r])
                          (ss_matcher s)))))"
  by auto
termination by (relation "measure (\<lambda>(env, sv, model, attempts, k, tleft, oleft, ctx, added, m). tleft + oleft)") auto

declare stream_turn.simps [simp del]


section \<open>A turn\<close>

definition tool_calls :: "'x assistant \<Rightarrow> 'x tool_call list" where
  "tool_calls a = concat (map (\<lambda>p. case p of CallPart c \<Rightarrow> [c] | _ \<Rightarrow> []) (am_content a))"

definition stopped :: "'x assistant \<Rightarrow> bool" where
  "stopped a \<longleftrightarrow> am_stopReason a = js ''error'' \<or> am_stopReason a = js ''aborted''"

text \<open>How a turn goes on: the run ends with its messages, or the loop continues.\<close>

datatype 'x progress = RunEnds "'x message list" | RunGoes bool "'x loop_state"

definition end_run :: "'x tool_env \<Rightarrow> 'x message list \<Rightarrow> ('x, 'x progress) act" where
  "end_run env new = then_act (emit env (AgentEnd new)) (\<lambda>u. return_act (RunEnds new))"

text \<open>The steps before the stream: the turn's start and the queued messages.\<close>

definition begin_turn :: "'x loop_env \<Rightarrow> 'x loop_state \<Rightarrow> ('x, 'x loop_state) act" where
  "begin_turn le s =
     (let sc = le_script le (ls_turnCount s); env = turn_env le sc (ls_tools s)
      in then_act (if ls_firstTurn s then return_act () else emit env TurnStart) (\<lambda>u.
           then_act (ask (ts_passive sc)) (\<lambda>passive.
             let injected = ls_pending s @ passive
             in then_act (emit_messages env injected) (\<lambda>u.
                  return_act (s\<lparr>ls_context := ls_context s @ injected, ls_new := ls_new s @ injected, ls_pending := [],
                                ls_turnCount := Suc (ls_turnCount s), ls_firstTurn := False,
                                ls_tools := live_tools sc (ls_tools s)\<rparr>)))))"

text \<open>The tool calls of the message: their results, and whether the loop has more to do for them.\<close>

definition run_tools :: "'x tool_env \<Rightarrow> 'x turn_script \<Rightarrow> 'x assistant \<Rightarrow> ('x, 'x result_message list \<times> bool) act" where
  "run_tools env sc a =
     (if tool_calls a = [] then return_act ([], False)
      else then_act (executeToolCalls env (ts_schedule sc) (tool_calls a))
             (\<lambda>(msgs, terminate). return_act (msgs, \<not> terminate \<and> \<not> ts_abortedAfterBatch sc)))"

text \<open>The steps after \<open>turn_end\<close>.\<close>

definition finish_turn :: "'x loop_env \<Rightarrow> 'x turn_script \<Rightarrow> 'x tool_env \<Rightarrow> bool \<Rightarrow> 'x loop_state \<Rightarrow> ('x, 'x progress) act" where
  "finish_turn le sc env again s =
     (if ts_abortedAfterTurn sc then end_run env (ls_new s)
      else
        let s1 = (case ts_nextTurn sc of
                    None \<Rightarrow> s
                  | Some n \<Rightarrow> s\<lparr>ls_context := (case nt_context n of Some (c, ts) \<Rightarrow> c | None \<Rightarrow> ls_context s),
                               ls_tools := (case nt_context n of Some (c, ts) \<Rightarrow> ts | None \<Rightarrow> ls_tools s),
                               ls_model := (case nt_model n of Some md \<Rightarrow> md | None \<Rightarrow> ls_model s)\<rparr>)
        in then_act (ask (ts_shouldStop sc)) (\<lambda>stop.
             if stop then end_run env (ls_new s1)
             else then_act (ask (ts_steering sc)) (\<lambda>steer. return_act (RunGoes again (s1\<lparr>ls_pending := steer\<rparr>)))))"

definition answer_turn :: "'x loop_env \<Rightarrow> 'x turn_script \<Rightarrow> 'x tool_env \<Rightarrow> 'x streamed \<Rightarrow> 'x loop_state \<Rightarrow> ('x, 'x progress) act" where
  "answer_turn le sc env st s =
     (let s1 = s\<lparr>ls_context := st_context st, ls_new := ls_new s @ st_added st, ls_matcher := st_matcher st\<rparr>;
          a = st_message st
      in if stopped a
         then then_act (emit env (TurnEnd (AssistantMsg a) [])) (\<lambda>u. end_run env (ls_new s1))
         else then_act (run_tools env sc a) (\<lambda>(msgs, again).
                let s2 = s1\<lparr>ls_context := ls_context s1 @ map ToolResultMsg msgs, ls_new := ls_new s1 @ map ToolResultMsg msgs\<rparr>
                in then_act (emit env (TurnEnd (AssistantMsg a) msgs)) (\<lambda>u. finish_turn le sc env again s2)))"

definition run_turn :: "'x loop_env \<Rightarrow> 'x loop_state \<Rightarrow> ('x, 'x progress) act" where
  "run_turn le s =
     (let sc = le_script le (ls_turnCount s)
      in then_act (begin_turn le s) (\<lambda>s1.
           let env = turn_env le sc (ls_tools s1)
           in then_act (stream_turn env (le_stream le) (ls_model s1) (ts_attempts sc) 0 MAX_TTSR_RETRIES_PER_TURN
                          (overthink_retries (le_stream le)) (ls_context s1) [] (matcher_reset (ls_matcher s1)))
                (\<lambda>st. answer_turn le sc env st s1)))"

text \<open>The notice of a spent budget.\<close>

definition budget_notice :: "'x loop_env \<Rightarrow> 'x loop_state \<Rightarrow> ('x, 'x message list) act" where
  "budget_notice le s =
     (let env = turn_env le (le_script le (ls_turnCount s)) (ls_tools s);
          notice = buildTurnBudgetMessage (ls_model s) (max_turns le);
          new = ls_new s @ [AssistantMsg notice]
      in then_act (emit env TurnStart) (\<lambda>u.
           then_act (emit_message env (AssistantMsg notice)) (\<lambda>u.
             then_act (emit env (TurnEnd (AssistantMsg notice) [])) (\<lambda>u.
               then_act (emit env (AgentEnd new)) (\<lambda>u. return_act new)))))"


section \<open>The loop\<close>

lemma then_act_Inr: "then_act m f = (es, Inr b) \<Longrightarrow> \<exists>es1 a es2. m = (es1, Inr a) \<and> f a = (es2, Inr b) \<and> es = es1 @ es2"
  by (auto simp: then_act_def split: prod.splits sum.splits)

lemma finish_turn_count: "finish_turn le sc env again s = (es, Inr (RunGoes again' s')) \<Longrightarrow> ls_turnCount s' = ls_turnCount s"
  by (auto simp: finish_turn_def end_run_def Let_def ask_def return_act_def
      split: if_splits option.splits dest!: then_act_Inr)

lemma run_turn_count: "run_turn le s = (es, Inr (RunGoes again s')) \<Longrightarrow> ls_turnCount s' = Suc (ls_turnCount s)"
  by (auto simp: run_turn_def answer_turn_def end_run_def begin_turn_def Let_def return_act_def
      split: if_splits prod.splits dest!: then_act_Inr finish_turn_count)

text \<open>
  One iteration of the inner loop, or the drain of the follow-up queue when it ends. Every turn counts towards
  the budget, so the recursion is bounded by it.
\<close>

function run_loop :: "'x loop_env \<Rightarrow> bool \<Rightarrow> 'x loop_state \<Rightarrow> ('x, 'x message list) act" where
  "run_loop le again s =
     (if again \<or> ls_pending s \<noteq> [] then
        if max_turns le \<le> ls_turnCount s then budget_notice le s
        else (case run_turn le s of
                (es, Inl err) \<Rightarrow> (es, Inl err)
              | (es, Inr (RunEnds new)) \<Rightarrow> (es, Inr new)
              | (es, Inr (RunGoes again' s')) \<Rightarrow> then_act (es, Inr ()) (\<lambda>u. run_loop le again' s'))
      else
        case ts_followUp (le_script le (ls_turnCount s)) of
          Inl err \<Rightarrow> ([], Inl err)
        | Inr (m # ms) \<Rightarrow> run_loop le True (s\<lparr>ls_pending := m # ms\<rparr>)
        | Inr [] \<Rightarrow> then_act (emit (turn_env le (le_script le (ls_turnCount s)) (ls_tools s)) (AgentEnd (ls_new s))) (\<lambda>u. return_act (ls_new s)))"
  by pat_completeness auto
termination
  by (relation "measure (\<lambda>(le, again, s). 2 * (Suc (max_turns le) - ls_turnCount s) + (if again \<or> ls_pending s \<noteq> [] then 0 else 1))")
    (auto dest!: run_turn_count [OF sym] split: if_splits)

declare run_loop.simps [simp del]

definition runLoop :: "'x loop_env \<Rightarrow> 'x loop_state \<Rightarrow> ('x, 'x message list) act" where
  "runLoop le s = then_act (ask (le_steering le)) (\<lambda>steer. run_loop le True (s\<lparr>ls_pending := steer\<rparr>))"

definition start_loop :: "jsstr \<Rightarrow> 'x agent_tool list \<Rightarrow> 'x message list \<Rightarrow> 'x message list \<Rightarrow> matcher \<Rightarrow> 'x loop_state" where
  "start_loop model tools ctx new m =
     \<lparr> ls_context = ctx, ls_tools = tools, ls_new = new, ls_pending = [], ls_turnCount = 0, ls_firstTurn = True,
       ls_model = model, ls_matcher = m \<rparr>"

definition runAgentLoop :: "'x loop_env \<Rightarrow> jsstr \<Rightarrow> 'x agent_tool list \<Rightarrow> matcher \<Rightarrow> 'x message list \<Rightarrow> 'x message list
    \<Rightarrow> ('x, 'x message list) act" where
  "runAgentLoop le model tools m ctx prompts =
     (let env = turn_env le (le_script le 0) tools
      in then_act (emit env AgentStart) (\<lambda>u.
           then_act (emit env TurnStart) (\<lambda>u.
             then_act (emit_messages env prompts) (\<lambda>u.
               runLoop le (start_loop model tools (ctx @ prompts) prompts m)))))"

definition is_assistant :: "'x message \<Rightarrow> bool" where
  "is_assistant m = (case m of AssistantMsg a \<Rightarrow> True | GuardAbortMsg a \<Rightarrow> True | _ \<Rightarrow> False)"

definition assertContinuableContext :: "'x message list \<Rightarrow> jsstr option" where
  "assertContinuableContext ctx =
     (if ctx = [] then Some (js ''Cannot continue: no messages in context'')
      else if is_assistant (last ctx) then Some (js ''Cannot continue from message role: assistant'')
      else None)"

definition runAgentLoopContinue :: "'x loop_env \<Rightarrow> jsstr \<Rightarrow> 'x agent_tool list \<Rightarrow> matcher \<Rightarrow> 'x message list \<Rightarrow> ('x, 'x message list) act" where
  "runAgentLoopContinue le model tools m ctx =
     (case assertContinuableContext ctx of
        Some err \<Rightarrow> ([], Inl err)
      | None \<Rightarrow>
          let env = turn_env le (le_script le 0) tools
          in then_act (emit env AgentStart) (\<lambda>u.
               then_act (emit env TurnStart) (\<lambda>u. runLoop le (start_loop model tools ctx [] m))))"

text \<open>
  The stream interface: a run pushes its events onto a stream that \<open>agent_end\<close> completes, and a rejected run becomes a
  failure turn. What a push does to the run is the listener's \<open>le_throws\<close>, as for every listener; the pushes of the
  failure turn, which nothing listens to, throw when the stream's backlog is at its cap. Then the rest of the turn is
  not pushed, and the stream is not ended.
\<close>

fun is_agent_end :: "'x event \<Rightarrow> bool" where
  "is_agent_end (AgentEnd ms) = True"
| "is_agent_end e = False"

fun agent_end_messages :: "'x event \<Rightarrow> 'x message list" where
  "agent_end_messages (AgentEnd ms) = ms"
| "agent_end_messages e = []"

definition failure_turn :: "jsstr \<Rightarrow> jsstr \<Rightarrow> 'x event list" where
  "failure_turn model err =
     (let m = AssistantMsg (buildErrorTurn model err)
      in [MessageStart m, MessageEnd m, TurnEnd m [], AgentEnd [m]])"

type_synonym 'x agent_stream = "('x event, 'x message list) observed"

definition createAgentStream :: "int option \<Rightarrow> int option \<Rightarrow> 'x agent_stream" where
  "createAgentStream warn cap = observe (new_stream warn cap)"

definition endStreamWithFailure :: "jsstr \<Rightarrow> jsstr \<Rightarrow> 'x agent_stream \<Rightarrow> 'x agent_stream" where
  "endStreamWithFailure model err x =
     (case push_until is_agent_end agent_end_messages (failure_turn model err) x of
        (y, True) \<Rightarrow> y
      | (y, False) \<Rightarrow> ended (Some []) y)"

text \<open>The stream when the run's promise settles, its consumer having read at its own pace.\<close>

definition run_pushes :: "(nat \<Rightarrow> nat) \<Rightarrow> 'x event list \<Rightarrow> 'x agent_stream \<Rightarrow> 'x agent_stream" where
  "run_pushes pace es x = reads (pace (length es)) (push_all is_agent_end agent_end_messages pace 0 es x)"

definition settle_stream :: "jsstr \<Rightarrow> jsstr + 'x message list \<Rightarrow> 'x agent_stream \<Rightarrow> 'x agent_stream" where
  "settle_stream model r x = (case r of Inr new \<Rightarrow> ended (Some new) x | Inl err \<Rightarrow> endStreamWithFailure model err x)"

definition agentLoop :: "'x loop_env \<Rightarrow> int option \<Rightarrow> int option \<Rightarrow> (nat \<Rightarrow> nat) \<Rightarrow> jsstr \<Rightarrow> 'x agent_tool list \<Rightarrow> matcher
    \<Rightarrow> 'x message list \<Rightarrow> 'x message list \<Rightarrow> 'x agent_stream" where
  "agentLoop le warn cap pace model tools m ctx prompts =
     (let (es, r) = runAgentLoop le model tools m ctx prompts
      in settle_stream model r (run_pushes pace es (createAgentStream warn cap)))"

definition agentLoopContinue :: "'x loop_env \<Rightarrow> int option \<Rightarrow> int option \<Rightarrow> (nat \<Rightarrow> nat) \<Rightarrow> jsstr \<Rightarrow> 'x agent_tool list \<Rightarrow> matcher
    \<Rightarrow> 'x message list \<Rightarrow> jsstr + 'x agent_stream" where
  "agentLoopContinue le warn cap pace model tools m ctx =
     (case assertContinuableContext ctx of
        Some err \<Rightarrow> Inl err
      | None \<Rightarrow>
          let (es, r) = runAgentLoopContinue le model tools m ctx
          in Inr (settle_stream model r (run_pushes pace es (createAgentStream warn cap))))"


section \<open>The transcript\<close>

text \<open>The messages that listeners keep: every message that ended, but not what a guard cut off.\<close>

fun kept_of :: "'x event \<Rightarrow> 'x message list" where
  "kept_of (MessageEnd (GuardAbortMsg a)) = []"
| "kept_of (MessageEnd m) = [m]"
| "kept_of e = []"

definition transcript :: "'x event list \<Rightarrow> 'x message list" where
  "transcript es = concat (map kept_of es)"

lemma transcript_simps [simp]: "transcript [] = []" "transcript (e # es) = kept_of e @ transcript es"
  "transcript (es @ fs) = transcript es @ transcript fs"
  by (simp_all add: transcript_def)

lemma transcript_lifecycle: "transcript es = transcript (lifecycle es)"
proof (induction es)
  case (Cons e es)
  have "lifecycle_event e \<or> kept_of e = []" by (cases e) simp_all
  then show ?case using Cons by auto
qed simp

lemma transcript_batch: "batch_events es \<Longrightarrow> transcript es = map ToolResultMsg (results es)"
proof (induction es)
  case (Cons e es)
  have "batch_event e \<Longrightarrow> kept_of e = map ToolResultMsg (result_of e)" by (cases e rule: batch_event.cases) simp_all
  then show ?case using Cons by simp
qed simp

text \<open>
  A transcript providers accept: after an assistant message that was not stopped come the results of its tool
  calls, one each and in order, and there are no other results.
\<close>

inductive transcript_ok :: "'x message list \<Rightarrow> bool" where
  ok_nil: "transcript_ok []"
| ok_other: "transcript_ok ms \<Longrightarrow> transcript_ok (OtherMsg j # ms)"
| ok_stopped: "stopped a \<Longrightarrow> transcript_ok ms \<Longrightarrow> transcript_ok (AssistantMsg a # ms)"
| ok_answer: "\<not> stopped a \<Longrightarrow> map rm_toolCallId rs = map tc_id (tool_calls a) \<Longrightarrow> transcript_ok ms \<Longrightarrow>
    transcript_ok (AssistantMsg a # map ToolResultMsg rs @ ms)"

lemma transcript_ok_append: "transcript_ok ms \<Longrightarrow> transcript_ok ns \<Longrightarrow> transcript_ok (ms @ ns)"
  by (induction rule: transcript_ok.induct) (auto intro: transcript_ok.intros)

lemma ok_turn: "map rm_toolCallId rs = map tc_id (tool_calls a) \<Longrightarrow> \<not> stopped a \<Longrightarrow> transcript_ok (AssistantMsg a # map ToolResultMsg rs)"
  using ok_answer [OF _ _ ok_nil, of a rs] by simp

definition plain :: "'x message list \<Rightarrow> bool" where
  "plain ms \<longleftrightarrow> (\<forall>m \<in> set ms. case m of OtherMsg j \<Rightarrow> True | _ \<Rightarrow> False)"

lemma plain_simps [simp]: "plain []" "plain (ms @ ns) \<longleftrightarrow> plain ms \<and> plain ns"
  by (auto simp: plain_def)

lemma plain_Cons [simp]: "plain (m # ms) \<longleftrightarrow> (\<exists>j. m = OtherMsg j) \<and> plain ms"
  by (auto simp: plain_def split: message.splits)

lemma plain_ok: "plain ms \<Longrightarrow> transcript_ok ms"
  by (induction ms) (auto intro: transcript_ok.intros)

lemma plain_reminders: "plain [buildTTSRReminderMessage n t]" "plain [buildOverthinkReminderMessage k l w]"
  by (simp_all add: buildTTSRReminderMessage_def buildOverthinkReminderMessage_def user_message_def)


section \<open>What is assumed of a run\<close>

text \<open>Listeners of messages do not throw; those of any other event may.\<close>

definition calm :: "'x tool_env \<Rightarrow> bool" where
  "calm env \<longleftrightarrow> (\<forall>m. te_throws env (MessageStart m) = None \<and> te_throws env (MessageEnd m) = None)"

text \<open>Providers start a message once and give the calls of an answer distinct ids.\<close>

definition distinct_calls :: "'x assistant \<Rightarrow> bool" where
  "distinct_calls a \<longleftrightarrow> distinct (map tc_id (tool_calls a))"

definition good_attempt :: "'x attempt \<Rightarrow> bool" where
  "good_attempt at \<longleftrightarrow> (case at of
     NotStarted err \<Rightarrow> True
   | Streams es ending \<Rightarrow> one_start False es
       \<and> (\<forall>e \<in> set es. case e of PDone a t \<Rightarrow> distinct_calls a | _ \<Rightarrow> True)
       \<and> (case ending of Drained (Some a) t \<Rightarrow> distinct_calls a | _ \<Rightarrow> True))"

definition plain_answer :: "jsstr + 'x message list \<Rightarrow> bool" where
  "plain_answer r \<longleftrightarrow> (case r of Inl err \<Rightarrow> True | Inr ms \<Rightarrow> plain ms)"

text \<open>
  The script of a run: the queues hold neither assistant messages nor results, the automatic rewrite rules change
  the arguments only, and providers keep their contract.
\<close>

definition well_scripted :: "'x loop_env \<Rightarrow> bool" where
  "well_scripted le \<longleftrightarrow> plain_answer (le_steering le) \<and>
     (\<forall>m. le_throws le (MessageStart m) = None \<and> le_throws le (MessageEnd m) = None) \<and>
     (\<forall>i. let sc = le_script le i in
        plain_answer (ts_passive sc) \<and> plain_answer (ts_steering sc) \<and> plain_answer (ts_followUp sc)
        \<and> rules_ok (ts_toolEnv sc) \<and> (\<forall>k. good_attempt (ts_attempts sc k)))"

lemma turn_env_ok:
  assumes "well_scripted le"
  shows "calm (turn_env le sc tools)" "quiet (turn_env le sc tools)"
    "sc = le_script le i \<Longrightarrow> rules_ok (turn_env le sc tools)"
  using assms by (auto simp: well_scripted_def calm_def quiet_def turn_env_def rules_ok_def Let_def)


section \<open>One attempt, one turn's stream\<close>

lemma run_answer_distinct:
  "run_stream env sv es ending s = (s', Answered a) \<Longrightarrow>
     (\<forall>e \<in> set es. case e of PDone a t \<Rightarrow> distinct_calls a | _ \<Rightarrow> True) \<Longrightarrow>
     (case ending of Drained (Some a) t \<Rightarrow> distinct_calls a | _ \<Rightarrow> True) \<Longrightarrow> distinct_calls a"
proof (induction es arbitrary: s)
  case Nil
  have e: "distinct_calls (buildErrorTurn m err)" for m err :: jsstr
    by (simp add: distinct_calls_def buildErrorTurn_def tool_calls_def)
  show ?case
  proof (cases ending)
    case (Drained res t)
    then show ?thesis using Nil e
      by (auto simp: Let_def split: option.splits dest: finalize_no_answer dest!: publish_emits)
  qed (use Nil e in \<open>auto dest!: publish_emits\<close>)
next
  case (Cons e es)
  obtain s1 o1 where st: "stream_step env sv e s = (s1, o1)" by fastforce
  show ?case
  proof (cases o1)
    case Going
    then show ?thesis using Cons.IH [of s1] Cons.prems st by simp
  next
    case (Answered b)
    then have b: "b = a" using Cons.prems(1) st by simp
    have "\<exists>t. e = PDone b t" using st Answered
      by (cases e) (auto simp: Let_def split: option.splits if_splits dest: finalize_no_answer dest!: emit_then_simps publish_emits)
    then show ?thesis using Cons.prems(2) b by auto
  qed (use Cons.prems(1) st in auto)
qed

text \<open>An attempt that fails has ended no message, as long as the listeners of ends do not throw.\<close>

definition unended :: "'x stream_state \<Rightarrow> bool" where
  "unended s \<longleftrightarrow> transcript (ss_trace s) = []"

lemma transcript_flush [simp]: "transcript (ss_trace (flushPendingDelta sv t s)) = transcript (ss_trace s)"
  by (simp add: flushPendingDelta_def Let_def split: option.split)

lemma transcript_coalesce [simp]: "transcript (ss_trace (coalesce sv k i d t s)) = transcript (ss_trace s)"
  by (simp add: coalesce_def split: option.split)

lemma transcript_take_delta [simp]: "transcript (ss_trace (take_delta sv k i d p t1 t2 t3 s)) = transcript (ss_trace s)"
  by (simp add: take_delta_def flush_frame_def watched_delta_def)

lemma finalize_calm: "calm env \<Longrightarrow> finalizeStreamInterrupt env sv t irq s = (s', out) \<Longrightarrow> out = Interrupted irq"
  by (auto simp: finalizeStreamInterrupt_def Let_def emit_then_def calm_def split: option.splits if_splits)

lemma publish_calm: "calm env \<Longrightarrow> publishFinalAssistantMessage env a s = (s', out) \<Longrightarrow> out = Answered a"
  by (auto simp: publishFinalAssistantMessage_def emit_then_def calm_def split: if_splits)

lemma step_unended:
  assumes c: "calm env" and st: "stream_step env sv e s = (s', out)" and u: "unended s"
  shows "case out of Going \<Rightarrow> unended s' | Failed err \<Rightarrow> unended s' | _ \<Rightarrow> True"
proof (cases e)
  case (PStart p)
  then show ?thesis using st u by (auto simp: unended_def dest!: emit_then_simps split: stream_outcome.split)
next
  case (PDelta k i d p t1 t2 t3)
  then show ?thesis using st u
    by (auto simp: Let_def unended_def split: option.splits if_splits stream_outcome.splits dest: finalize_calm [OF c])
next
  case (PBoundary k i p now)
  have f: "unended (flushPendingDelta sv now (watch_boundary sv k i s))" using u by (simp add: unended_def)
  show ?thesis
  proof (cases "ss_interrupt (flushPendingDelta sv now (watch_boundary sv k i s))")
    case None
    show ?thesis
    proof (cases "ss_partial s")
      case None
      then show ?thesis using st f PBoundary \<open>ss_interrupt _ = None\<close> by (auto simp: Let_def)
    next
      case (Some q)
      then show ?thesis using st f PBoundary \<open>ss_interrupt _ = None\<close>
        by (auto simp: Let_def unended_def dest!: emit_then_simps split: stream_outcome.split)
    qed
  next
    case (Some irq)
    then show ?thesis using st PBoundary by (auto simp: Let_def split: stream_outcome.splits dest: finalize_calm [OF c])
  qed
next
  case (PDone a now)
  then show ?thesis using st
    by (auto simp: Let_def split: option.splits stream_outcome.splits dest: finalize_calm [OF c] publish_calm [OF c])
qed

lemma run_unended:
  "run_stream env sv es ending s = (s', Failed err) \<Longrightarrow> calm env \<Longrightarrow> unended s \<Longrightarrow> unended s'"
proof (induction es arbitrary: s)
  case Nil
  then show ?case
    by (cases ending) (auto simp: Let_def split: option.splits dest: finalize_calm publish_calm)
next
  case (Cons e es)
  obtain s1 o1 where st: "stream_step env sv e s = (s1, o1)" by fastforce
  note u = step_unended [OF Cons.prems(2) st Cons.prems(3)]
  show ?case using Cons.IH [of s1] Cons.prems(1,2) st u by (cases o1) auto
qed

text \<open>What an attempt adds to the transcript: its answer, or nothing.\<close>

lemma attempt_transcript:
  assumes "calm env" "good_attempt at" "streamAssistantResponse env sv ctx m at = (s, out)"
  shows "case out of
      Going \<Rightarrow> False
    | Answered a \<Rightarrow> transcript (ss_trace s) = [AssistantMsg a] \<and> distinct_calls a \<and> ss_context s = ctx @ [AssistantMsg a]
    | Interrupted irq \<Rightarrow> transcript (ss_trace s) = [] \<and> ss_context s = ctx
    | Failed err \<Rightarrow> transcript (ss_trace s) = []"
proof (cases at)
  case (NotStarted err)
  then show ?thesis using assms(3) by (auto simp: streamAssistantResponse_def start_stream_def)
next
  case (Streams es ending)
  then have run: "run_stream env sv es ending (start_stream sv ctx m) = (s, out)"
    using assms(3) by (simp add: streamAssistantResponse_def)
  have inv: "attempt_inv ctx (start_stream sv ctx m)" "ss_partial (start_stream sv ctx m) = None"
    by (simp_all add: attempt_inv_def start_stream_def)
  have d: "attempt_done ctx s out" using run_done [OF run inv(1)] inv(2) assms(2) Streams by (simp add: good_attempt_def)
  show ?thesis
  proof (cases out)
    case (Answered a)
    then have "distinct_calls a" using run_answer_distinct [of env sv es ending] run assms(2) Streams
      by (simp add: good_attempt_def)
    then show ?thesis using d Answered transcript_lifecycle [of "ss_trace s"] by (auto simp: attempt_done_def)
  next
    case (Interrupted irq)
    then show ?thesis using d transcript_lifecycle [of "ss_trace s"] by (auto simp: attempt_done_def markStreamGuardAbort_def)
  next
    case (Failed err)
    then show ?thesis using run_unended [of env sv es ending] run assms(1) by (auto simp: unended_def start_stream_def)
  qed (use d in \<open>simp add: attempt_done_def\<close>)
qed


section \<open>Views of a trace\<close>

text \<open>
  A view turns a trace into a list, piece by piece. \<open>posts v F p m Q\<close>: if the view of the trace so far is \<open>p\<close>,
  then after the action it satisfies \<open>F\<close> when the action throws, and \<open>Q\<close> with its value when it returns.
\<close>

definition posts :: "('x event list \<Rightarrow> 'v list) \<Rightarrow> ('v list \<Rightarrow> bool) \<Rightarrow> 'v list \<Rightarrow> ('x, 'a) act \<Rightarrow> ('v list \<Rightarrow> 'a \<Rightarrow> bool) \<Rightarrow> bool" where
  "posts v F p m Q \<longleftrightarrow> (case m of (es, Inl err) \<Rightarrow> F (p @ v es) | (es, Inr a) \<Rightarrow> Q (p @ v es) a)"

locale trace_view =
  fixes v :: "'x event list \<Rightarrow> 'v list"
  assumes view_nil: "v [] = []"
    and view_append: "v (es @ fs) = v es @ v fs"
begin

lemma posts_then: "posts v F p m Q \<Longrightarrow> (\<And>t a. Q t a \<Longrightarrow> posts v F t (f a) R) \<Longrightarrow> posts v F p (then_act m f) R"
  by (fastforce simp: posts_def then_act_def view_append split: prod.splits sum.splits)

lemma posts_return: "Q p a \<Longrightarrow> posts v F p (return_act a) Q"
  by (simp add: posts_def return_act_def view_nil)

lemma posts_ask: "(\<And>err. r = Inl err \<Longrightarrow> F p) \<Longrightarrow> (\<And>a. r = Inr a \<Longrightarrow> Q p a) \<Longrightarrow> posts v F p (ask r) Q"
  by (cases r) (simp_all add: posts_def ask_def view_nil)

lemma posts_emit: "(te_throws env e \<noteq> None \<Longrightarrow> F (p @ v [e])) \<Longrightarrow> Q (p @ v [e]) () \<Longrightarrow> posts v F p (emit env e) Q"
  by (auto simp: posts_def emit_def split: option.split)

lemma posts_weaken: "posts v F p m Q \<Longrightarrow> (\<And>t a. Q t a \<Longrightarrow> R t a) \<Longrightarrow> posts v F p m R"
  by (fastforce simp: posts_def split: prod.splits sum.splits)

lemma posts_silent: "v (fst m) = [] \<Longrightarrow> F p \<Longrightarrow> (\<And>a. Q p a) \<Longrightarrow> posts v F p m Q"
  by (cases m) (auto simp: posts_def split: sum.split)

end

interpretation kept: trace_view transcript
  by unfold_locales simp_all

abbreviation ok_posts :: "'x message list \<Rightarrow> ('x, 'a) act \<Rightarrow> ('x message list \<Rightarrow> 'a \<Rightarrow> bool) \<Rightarrow> bool" where
  "ok_posts \<equiv> posts transcript transcript_ok"

lemma emit_message_calm: "calm env \<Longrightarrow> emit_message env m = ([MessageStart m, MessageEnd m], Inr ())"
  by (simp add: calm_def emit_message_def emit_def then_act_def)

lemma emit_messages_calm:
  "calm env \<Longrightarrow> plain ms \<Longrightarrow> \<exists>es. emit_messages env ms = (es, Inr ()) \<and> transcript es = ms"
proof (induction ms)
  case (Cons m ms)
  then obtain es j where "emit_messages env ms = (es, Inr ())" "transcript es = ms" "m = OtherMsg j" by auto
  then show ?case using Cons.prems by (simp add: emit_message_calm then_act_def)
qed (simp add: return_act_def)


section \<open>The transcript of a turn\<close>

lemma bail_calm: "calm env \<Longrightarrow> bail env a ctx added m =
    ([MessageStart (AssistantMsg a), MessageEnd (AssistantMsg a)],
     Inr \<lparr> st_message = a, st_context = ctx, st_added = added @ [AssistantMsg a], st_matcher = m \<rparr>)"
  by (simp add: bail_def emit_message_calm then_act_def return_act_def)

lemma error_turn_distinct [simp]: "distinct_calls (buildErrorTurn md err)"
  by (simp add: distinct_calls_def buildErrorTurn_def tool_calls_def)

definition stream_post :: "'x message list \<Rightarrow> ('x, 'x streamed) act \<Rightarrow> bool" where
  "stream_post added m \<longleftrightarrow>
     (case m of
        (es, Inl err) \<Rightarrow> plain (transcript es)
      | (es, Inr st) \<Rightarrow> \<exists>ms. plain ms \<and> transcript es = ms @ [AssistantMsg (st_message st)]
          \<and> st_added st = added @ ms @ [AssistantMsg (st_message st)] \<and> distinct_calls (st_message st))"

lemma stream_post_step:
  assumes "transcript es = []" "plain [r]" "stream_post (added @ [r]) m" "calm env"
  shows "stream_post added (then_act (es, Inr ()) (\<lambda>u. then_act (emit_message env r) (\<lambda>u. m)))"
proof -
  obtain fs x where m: "m = (fs, x)" by (cases m)
  have r: "kept_of (MessageEnd r) = [r]" using assms(2) by auto
  show ?thesis
  proof (cases x)
    case (Inl err)
    then show ?thesis using assms m r by (simp add: stream_post_def emit_message_calm then_act_def)
  next
    case (Inr st)
    then obtain ms where "plain ms" "transcript fs = ms @ [AssistantMsg (st_message st)]"
      "st_added st = (added @ [r]) @ ms @ [AssistantMsg (st_message st)]" "distinct_calls (st_message st)"
      using assms(3) m by (auto simp: stream_post_def)
    then show ?thesis using assms m r Inr
      by (auto simp: stream_post_def emit_message_calm then_act_def intro!: exI [of _ "r # ms"])
  qed
qed

lemma stream_post_bail:
  assumes "transcript es = []" "calm env" "distinct_calls a"
  shows "stream_post added (then_act (es, Inr ()) (\<lambda>u. bail env a ctx added m))"
  using assms by (simp add: stream_post_def bail_calm then_act_def)

lemma stream_turn_post:
  "calm env \<Longrightarrow> \<forall>k. good_attempt (attempts k) \<Longrightarrow>
     stream_post added (stream_turn env sv md attempts k tleft oleft ctx added m)"
proof (induction env sv md attempts k tleft oleft ctx added m rule: stream_turn.induct)
  case (1 env sv md attempts k tleft oleft ctx added m)
  obtain s out where at: "streamAssistantResponse env (sv\<lparr>sv_model := md\<rparr>) ctx m (attempts k) = (s, out)" by fastforce
  note tr = attempt_transcript [OF "1.prems"(1) spec [OF "1.prems"(2)] at]
  show ?case
  proof (cases out)
    case Going
    then show ?thesis using tr by simp
  next
    case (Answered a)
    then show ?thesis using tr at by (simp add: stream_turn.simps [of env] stream_post_def)
  next
    case (Failed err)
    then show ?thesis using tr at by (simp add: stream_turn.simps [of env] stream_post_def)
  next
    case (Interrupted irq)
    then have e: "transcript (ss_trace s) = []" using tr by simp
    show ?thesis
    proof (cases irq)
      case (TTSRHit n t)
      show ?thesis
      proof (cases "tleft = 0")
        case True
        then show ?thesis using at Interrupted TTSRHit stream_post_bail [OF e "1.prems"(1)]
          by (simp add: stream_turn.simps [of env] ttsr_bail_def)
      next
        case False
        note ih = "1.IH"(1) [OF at [symmetric] Interrupted TTSRHit False refl "1.prems"]
        show ?thesis using at Interrupted TTSRHit False
            stream_post_step [OF e plain_reminders(1) [of n t] ih "1.prems"(1)]
          by (simp add: stream_turn.simps [of env] Let_def)
      qed
    next
      case (Overthought n l w)
      show ?thesis
      proof (cases "oleft = 0")
        case True
        then show ?thesis using at Interrupted Overthought stream_post_bail [OF e "1.prems"(1)]
          by (simp add: stream_turn.simps [of env] overthink_bail_def)
      next
        case False
        note ih = "1.IH"(2) [OF at [symmetric] Interrupted Overthought False refl "1.prems"]
        show ?thesis using at Interrupted Overthought False
            stream_post_step [OF e plain_reminders(2) [of n l w] ih "1.prems"(1)]
          by (simp add: stream_turn.simps [of env] Let_def)
      qed
    qed
  qed
qed

text \<open>The state between turns: what the run added is its transcript.\<close>

definition good_state :: "'x message list \<Rightarrow> 'x message list \<Rightarrow> 'x loop_state \<Rightarrow> bool" where
  "good_state pre t s \<longleftrightarrow> ls_new s = pre @ t \<and> transcript_ok t \<and> plain (ls_pending s)"

definition good_progress :: "'x message list \<Rightarrow> 'x message list \<Rightarrow> 'x progress \<Rightarrow> bool" where
  "good_progress pre t p = (case p of RunEnds new \<Rightarrow> new = pre @ t \<and> transcript_ok t | RunGoes again s \<Rightarrow> good_state pre t s)"

lemma emit_quiet_event: "kept_of e = [] \<Longrightarrow> transcript_ok p \<Longrightarrow> Q p () \<Longrightarrow> ok_posts p (emit env e) Q"
  by (rule kept.posts_emit) simp_all

lemma end_run_post: "transcript_ok t \<Longrightarrow> new = pre @ t \<Longrightarrow> ok_posts t (end_run env new) (good_progress pre)"
  unfolding end_run_def
  by (rule kept.posts_then [OF emit_quiet_event [where Q = "\<lambda>t' u. t' = t"]]) (auto intro!: kept.posts_return simp: good_progress_def)

lemma begin_turn_post:
  fixes le :: "'x loop_env"
  assumes w: "well_scripted le" and g: "good_state pre t s"
  shows "ok_posts t (begin_turn le s) (good_state pre)"
proof -
  define sc where "sc = le_script le (ls_turnCount s)"
  define env where "env = turn_env le sc (ls_tools s)"
  have c: "calm env" using turn_env_ok [OF w] by (simp add: env_def)
  have t: "transcript_ok t" using g by (simp add: good_state_def)
  have pa: "plain_answer (ts_passive sc)" using w by (simp add: well_scripted_def Let_def sc_def)
  have inject: "ok_posts t (emit_messages env (ls_pending s @ ms)) (\<lambda>t' u. t' = t @ ls_pending s @ ms)" if "plain ms" for ms :: "'x message list"
    using emit_messages_calm [OF c, of "ls_pending s @ ms"] that g by (auto simp: posts_def good_state_def)
  show ?thesis
    unfolding begin_turn_def Let_def sc_def [symmetric] env_def [symmetric]
  proof (rule kept.posts_then [where Q = "\<lambda>t' u. t' = t"])
    show "ok_posts t (if ls_firstTurn s then return_act () else emit env TurnStart) (\<lambda>t' u. t' = t)"
      using t by (auto intro: kept.posts_return emit_quiet_event)
  next
    fix t' u
    assume t': "t' = t"
    show "ok_posts t' (then_act (ask (ts_passive sc)) (\<lambda>passive.
        then_act (emit_messages env (ls_pending s @ passive)) (\<lambda>u.
          return_act (s\<lparr>ls_context := ls_context s @ ls_pending s @ passive, ls_new := ls_new s @ ls_pending s @ passive,
            ls_pending := [], ls_turnCount := Suc (ls_turnCount s), ls_firstTurn := False,
            ls_tools := live_tools sc (ls_tools s)\<rparr>)))) (good_state pre)"
      unfolding t'
    proof (rule kept.posts_then [where Q = "\<lambda>t' ms. t' = t \<and> plain ms"])
      show "ok_posts t (ask (ts_passive sc)) (\<lambda>t' ms. t' = t \<and> plain ms)"
        using t pa by (intro kept.posts_ask) (auto simp: plain_answer_def)
    next
      fix t'' :: "'x message list" and ms :: "'x message list"
      assume "t'' = t \<and> plain ms"
      then show "ok_posts t'' (then_act (emit_messages env (ls_pending s @ ms)) (\<lambda>u.
          return_act (s\<lparr>ls_context := ls_context s @ ls_pending s @ ms, ls_new := ls_new s @ ls_pending s @ ms,
            ls_pending := [], ls_turnCount := Suc (ls_turnCount s), ls_firstTurn := False,
            ls_tools := live_tools sc (ls_tools s)\<rparr>))) (good_state pre)"
        using g transcript_ok_append [OF t transcript_ok_append [OF plain_ok plain_ok, of "ls_pending s" ms]]
        by (auto intro!: kept.posts_then [OF inject] kept.posts_return simp: good_state_def)
    qed
  qed
qed

lemma run_tools_post:
  assumes "calm env" "quiet env" "rules_ok env" "distinct_calls a" "transcript_ok t" "\<not> stopped a"
  shows "ok_posts (t @ [AssistantMsg a]) (run_tools env sc a)
    (\<lambda>t' out. t' = t @ [AssistantMsg a] @ map ToolResultMsg (fst out) \<and> transcript_ok t')"
proof (cases "tool_calls a = []")
  case True
  have "transcript_ok (t @ [AssistantMsg a])" using ok_turn [of "[]" a] True assms(5,6) by (auto intro: transcript_ok_append)
  then show ?thesis using True by (auto simp: run_tools_def intro!: kept.posts_return)
next
  case False
  have p: "paired (tool_calls a) (executeToolCalls env (ts_schedule sc) (tool_calls a))"
    using execute_paired [OF assms(2,3)] assms(4) by (simp add: distinct_calls_def)
  note b = transcript_batch [OF batch_execute [OF assms(3), of "ts_schedule sc" "tool_calls a"]]
  have ok: "transcript_ok (t @ AssistantMsg a # map ToolResultMsg (results (fst (executeToolCalls env (ts_schedule sc) (tool_calls a)))))"
    using p assms(5,6) by (intro transcript_ok_append ok_turn) (simp_all add: paired_def)
  have "ok_posts (t @ [AssistantMsg a]) (executeToolCalls env (ts_schedule sc) (tool_calls a))
      (\<lambda>t' out. t' = t @ [AssistantMsg a] @ map ToolResultMsg (fst out) \<and> transcript_ok t')"
    using p b ok by (auto simp: posts_def paired_def split: prod.splits sum.splits)
  then show ?thesis using False
    by (auto simp: run_tools_def intro!: kept.posts_then kept.posts_return split: prod.split)
qed

lemma finish_turn_post:
  assumes w: "well_scripted le" and sc: "sc = le_script le i" and g: "good_state pre t s"
  shows "ok_posts t (finish_turn le sc env again s) (good_progress pre)"
proof (cases "ts_abortedAfterTurn sc")
  case True
  then show ?thesis using g by (simp add: finish_turn_def end_run_post good_state_def)
next
  case False
  define s1 where "s1 = (case ts_nextTurn sc of
      None \<Rightarrow> s
    | Some n \<Rightarrow> s\<lparr>ls_context := (case nt_context n of Some (c, ts) \<Rightarrow> c | None \<Rightarrow> ls_context s),
                  ls_tools := (case nt_context n of Some (c, ts) \<Rightarrow> ts | None \<Rightarrow> ls_tools s),
                  ls_model := (case nt_model n of Some md \<Rightarrow> md | None \<Rightarrow> ls_model s)\<rparr>)"
  have g1: "good_state pre t s1" using g by (simp add: s1_def good_state_def split: option.split)
  then have t: "transcript_ok t" by (simp add: good_state_def)
  have st: "plain_answer (ts_steering sc)" using w sc by (simp add: well_scripted_def Let_def)
  have steer: "ok_posts t (then_act (ask (ts_steering sc)) (\<lambda>steer. return_act (RunGoes again (s1\<lparr>ls_pending := steer\<rparr>)))) (good_progress pre)"
  proof (rule kept.posts_then [where Q = "\<lambda>t' ms. t' = t \<and> plain ms"])
    show "ok_posts t (ask (ts_steering sc)) (\<lambda>t' ms. t' = t \<and> plain ms)"
      using t st by (intro kept.posts_ask) (auto simp: plain_answer_def)
  qed (use g1 in \<open>auto intro!: kept.posts_return simp: good_progress_def good_state_def\<close>)
  have f: "finish_turn le sc env again s = then_act (ask (ts_shouldStop sc)) (\<lambda>stop.
      if stop then end_run env (ls_new s1)
      else then_act (ask (ts_steering sc)) (\<lambda>steer. return_act (RunGoes again (s1\<lparr>ls_pending := steer\<rparr>))))"
    unfolding finish_turn_def Let_def s1_def using False by simp
  show ?thesis unfolding f
  proof (rule kept.posts_then [where Q = "\<lambda>t' b. t' = t"])
    show "ok_posts t (ask (ts_shouldStop sc)) (\<lambda>t' b. t' = t)" using t by (intro kept.posts_ask) simp_all
  qed (use steer t g1 in \<open>auto simp: end_run_post good_state_def\<close>)
qed

text \<open>After the stream: the transcript ends with the answer, whose calls have no results yet.\<close>

definition answered :: "'x message list \<Rightarrow> 'x message list \<Rightarrow> 'x loop_state \<Rightarrow> 'x streamed \<Rightarrow> bool" where
  "answered pre t s st \<longleftrightarrow> (\<exists>t0. transcript_ok t0 \<and> t = t0 @ [AssistantMsg (st_message st)]
     \<and> ls_new s @ st_added st = pre @ t \<and> distinct_calls (st_message st) \<and> plain (ls_pending s))"

lemma answer_turn_post:
  fixes le :: "'x loop_env"
  assumes w: "well_scripted le" and sc: "sc = le_script le i" and env: "env = turn_env le sc tools"
    and a: "answered pre t s st"
  shows "ok_posts t (answer_turn le sc env st s) (good_progress pre)"
proof -
  have e: "calm env" "quiet env" "rules_ok env" using turn_env_ok [OF w] sc env by auto
  define s1 where "s1 = s\<lparr>ls_context := st_context st, ls_new := ls_new s @ st_added st, ls_matcher := st_matcher st\<rparr>"
  obtain t0 where t0: "transcript_ok t0" "t = t0 @ [AssistantMsg (st_message st)]" "ls_new s1 = pre @ t"
    "distinct_calls (st_message st)" "plain (ls_pending s1)"
    using a by (auto simp: answered_def s1_def)
  show ?thesis
  proof (cases "stopped (st_message st)")
    case True
    then have t: "transcript_ok t" using t0 by (auto intro: transcript_ok_append ok_stopped ok_nil)
    have "ok_posts t (then_act (emit env (TurnEnd (AssistantMsg (st_message st)) [])) (\<lambda>u. end_run env (ls_new s1))) (good_progress pre)"
      by (rule kept.posts_then [OF emit_quiet_event [where Q = "\<lambda>t' u. t' = t"]]) (use t t0 in \<open>simp_all add: end_run_post\<close>)
    then show ?thesis using True by (simp add: answer_turn_def Let_def s1_def)
  next
    case False
    have f: "answer_turn le sc env st s = then_act (run_tools env sc (st_message st)) (\<lambda>(msgs, again).
        then_act (emit env (TurnEnd (AssistantMsg (st_message st)) msgs)) (\<lambda>u. finish_turn le sc env again
          (s1\<lparr>ls_context := ls_context s1 @ map ToolResultMsg msgs, ls_new := ls_new s1 @ map ToolResultMsg msgs\<rparr>)))"
      using False by (simp add: answer_turn_def Let_def s1_def)
    show ?thesis unfolding f t0(2)
    proof (rule kept.posts_then [OF run_tools_post [OF e t0(4,1) False]])
      fix t' :: "'x message list" and out :: "'x result_message list \<times> bool"
      assume "t' = t0 @ [AssistantMsg (st_message st)] @ map ToolResultMsg (fst out) \<and> transcript_ok t'"
      then have g: "good_state pre t' (s1\<lparr>ls_context := ls_context s1 @ map ToolResultMsg (fst out), ls_new := ls_new s1 @ map ToolResultMsg (fst out)\<rparr>)"
        and t': "transcript_ok t'"
        using t0 by (auto simp: good_state_def)
      have "ok_posts t' (then_act (emit env (TurnEnd (AssistantMsg (st_message st)) (fst out))) (\<lambda>u. finish_turn le sc env (snd out)
          (s1\<lparr>ls_context := ls_context s1 @ map ToolResultMsg (fst out), ls_new := ls_new s1 @ map ToolResultMsg (fst out)\<rparr>))) (good_progress pre)"
        by (rule kept.posts_then [OF emit_quiet_event [where Q = "\<lambda>x u. x = t'"]])
          (use t' finish_turn_post [OF w sc g] in simp_all)
      then show "ok_posts t' (case out of (msgs, again) \<Rightarrow>
          then_act (emit env (TurnEnd (AssistantMsg (st_message st)) msgs)) (\<lambda>u. finish_turn le sc env again
            (s1\<lparr>ls_context := ls_context s1 @ map ToolResultMsg msgs, ls_new := ls_new s1 @ map ToolResultMsg msgs\<rparr>))) (good_progress pre)"
        by (simp add: split_beta)
    qed
  qed
qed

lemma run_turn_post:
  assumes w: "well_scripted le" and g: "good_state pre t s"
  shows "ok_posts t (run_turn le s) (good_progress pre)"
  unfolding run_turn_def Let_def
proof (rule kept.posts_then [OF begin_turn_post [OF w g]])
  define sc where "sc = le_script le (ls_turnCount s)"
  fix t1 s1
  assume g1: "good_state pre t1 s1"
  define env where "env = turn_env le sc (ls_tools s1)"
  have c: "calm env" using turn_env_ok [OF w] by (simp add: env_def)
  have at: "\<forall>k. good_attempt (ts_attempts sc k)" using w by (simp add: well_scripted_def Let_def sc_def)
  have t1: "transcript_ok t1" using g1 by (simp add: good_state_def)
  have "ok_posts t1 (stream_turn env (le_stream le) (ls_model s1) (ts_attempts sc) 0 MAX_TTSR_RETRIES_PER_TURN
      (overthink_retries (le_stream le)) (ls_context s1) [] (matcher_reset (ls_matcher s1))) (\<lambda>t st. answered pre t s1 st)"
    (is "ok_posts t1 ?m _")
  proof -
    have sp: "stream_post [] ?m" using stream_turn_post [OF c at] .
    obtain es x where m: "?m = (es, x)" by fastforce
    show ?thesis
    proof (cases x)
      case (Inl err)
      then have "plain (transcript es)" using sp m by (simp add: stream_post_def)
      then show ?thesis using m Inl t1 by (simp add: posts_def transcript_ok_append plain_ok)
    next
      case (Inr st)
      then obtain ms where "plain ms" "transcript es = ms @ [AssistantMsg (st_message st)]"
        "st_added st = ms @ [AssistantMsg (st_message st)]" "distinct_calls (st_message st)"
        using sp m by (auto simp: stream_post_def)
      moreover have "transcript_ok (t1 @ ms)" using t1 plain_ok [OF calculation(1)] by (rule transcript_ok_append)
      ultimately show ?thesis using m Inr g1
        by (auto simp: posts_def answered_def good_state_def intro!: exI [of _ "t1 @ ms"])
    qed
  qed
  then show "ok_posts t1 (then_act (stream_turn (turn_env le (le_script le (ls_turnCount s)) (ls_tools s1)) (le_stream le) (ls_model s1)
      (ts_attempts (le_script le (ls_turnCount s))) 0 MAX_TTSR_RETRIES_PER_TURN
      (overthink_retries (le_stream le)) (ls_context s1) [] (matcher_reset (ls_matcher s1)))
      (\<lambda>st. answer_turn le (le_script le (ls_turnCount s)) (turn_env le (le_script le (ls_turnCount s)) (ls_tools s1)) st s1)) (good_progress pre)"
    unfolding sc_def env_def by (rule kept.posts_then) (rule answer_turn_post [OF w refl refl])
qed

lemma budget_post:
  assumes w: "well_scripted le" and g: "good_state pre t s"
  shows "ok_posts t (budget_notice le s) (\<lambda>t' new. new = pre @ t' \<and> transcript_ok t')"
proof -
  define env where "env = turn_env le (le_script le (ls_turnCount s)) (ls_tools s)"
  have c: "calm env" using turn_env_ok [OF w] by (simp add: env_def)
  define a :: "'a assistant" where "a = buildTurnBudgetMessage (ls_model s) (max_turns le)"
  have st: "stopped a" by (simp add: a_def stopped_def buildTurnBudgetMessage_def buildErrorTurn_def)
  have t: "transcript_ok t" "transcript_ok (t @ [AssistantMsg a])"
    using g st by (auto simp: good_state_def intro: transcript_ok_append ok_stopped ok_nil)
  show ?thesis
    unfolding budget_notice_def Let_def env_def [symmetric] a_def [symmetric] emit_message_calm [OF c]
    using t g
    by (auto simp: posts_def then_act_def emit_def return_act_def good_state_def split: option.split)
qed

lemma run_loop_post:
  "well_scripted le \<Longrightarrow> good_state pre t s \<Longrightarrow>
     ok_posts t (run_loop le again s) (\<lambda>t' new. new = pre @ t' \<and> transcript_ok t')"
proof (induction le again s arbitrary: t rule: run_loop.induct)
  case (1 le again s)
  note w = "1.prems"(1) and g = "1.prems"(2)
  show ?case
  proof (cases "again \<or> ls_pending s \<noteq> []")
    case True
    show ?thesis
    proof (cases "max_turns le \<le> ls_turnCount s")
      case full: True
      then show ?thesis using True budget_post [OF w g] by (simp add: run_loop.simps [of le again s])
    next
      case False
      obtain es x where rt: "run_turn le s = (es, x)" by fastforce
      note p = run_turn_post [OF w g]
      show ?thesis
      proof (cases x)
        case (Inl err)
        then show ?thesis using p rt True False by (simp add: run_loop.simps [of le again s] posts_def)
      next
        case (Inr pr)
        show ?thesis
        proof (cases pr)
          case (RunEnds new)
          then show ?thesis using p rt True False Inr by (simp add: run_loop.simps [of le again s] posts_def good_progress_def)
        next
          case (RunGoes again' s')
          then have "good_state pre (t @ transcript es) s'" using p rt Inr by (simp add: posts_def good_progress_def)
          from "1.IH"(1) [OF True False rt [symmetric] Inr RunGoes w this]
          have "ok_posts (t @ transcript es) (run_loop le again' s') (\<lambda>t' new. new = pre @ t' \<and> transcript_ok t')" .
          then have "ok_posts t (then_act (es, Inr ()) (\<lambda>u. run_loop le again' s')) (\<lambda>t' new. new = pre @ t' \<and> transcript_ok t')"
            by (intro kept.posts_then [where Q = "\<lambda>x u. x = t @ transcript es"]) (simp_all add: posts_def)
          then show ?thesis using rt True False Inr RunGoes by (simp add: run_loop.simps [of le again s])
        qed
      qed
    qed
  next
    case False
    have pf: "plain_answer (ts_followUp (le_script le (ls_turnCount s)))" using w by (simp add: well_scripted_def Let_def)
    have t: "transcript_ok t" using g by (simp add: good_state_def)
    have eq: "run_loop le again s = (case ts_followUp (le_script le (ls_turnCount s)) of
          Inl err \<Rightarrow> ([], Inl err)
        | Inr (m # ms) \<Rightarrow> run_loop le True (s\<lparr>ls_pending := m # ms\<rparr>)
        | Inr [] \<Rightarrow> then_act (emit (turn_env le (le_script le (ls_turnCount s)) (ls_tools s)) (AgentEnd (ls_new s))) (\<lambda>u. return_act (ls_new s)))"
      by (subst run_loop.simps) (simp add: False)
    show ?thesis
    proof (cases "ts_followUp (le_script le (ls_turnCount s))")
      case (Inl err)
      then show ?thesis using t eq by (simp add: posts_def)
    next
      case (Inr ms)
      show ?thesis
      proof (cases ms)
        case Nil
        then show ?thesis using Inr g t eq
          by (auto simp: good_state_def intro!: kept.posts_then [OF emit_quiet_event [where Q = "\<lambda>x u. x = t"]] kept.posts_return)
      next
        case (Cons m ns)
        have "good_state pre t (s\<lparr>ls_pending := m # ns\<rparr>)" using g pf Inr Cons by (simp add: good_state_def plain_answer_def)
        from "1.IH"(2) [OF False Inr Cons w this] show ?thesis using Inr Cons eq by simp
      qed
    qed
  qed
qed


section \<open>The shape of a run\<close>

datatype 'x mark = Opens | Closes | Finishes "'x message list"

fun mark_of :: "'x event \<Rightarrow> 'x mark list" where
  "mark_of TurnStart = [Opens]"
| "mark_of (TurnEnd m rs) = [Closes]"
| "mark_of (AgentEnd ms) = [Finishes ms]"
| "mark_of e = []"

definition marks :: "'x event list \<Rightarrow> 'x mark list" where
  "marks es = concat (map mark_of es)"

lemma marks_simps [simp]: "marks [] = []" "marks (e # es) = mark_of e @ marks es" "marks (es @ fs) = marks es @ marks fs"
  by (simp_all add: marks_def)

interpretation turns: trace_view marks
  by unfold_locales simp_all

lemma marks_batch: "batch_events es \<Longrightarrow> marks es = []"
proof (induction es)
  case (Cons e es)
  have "batch_event e \<Longrightarrow> mark_of e = []" by (cases e rule: batch_event.cases) simp_all
  then show ?case using Cons by simp
qed simp

lemma marks_flush [simp]: "marks (ss_trace (flushPendingDelta sv t s)) = marks (ss_trace s)"
  by (simp add: flushPendingDelta_def Let_def split: option.split)

lemma marks_take_delta [simp]: "marks (ss_trace (take_delta sv k i d p t1 t2 t3 s)) = marks (ss_trace s)"
  by (simp add: take_delta_def flush_frame_def watched_delta_def coalesce_def split: option.split)

lemma marks_finalize: "finalizeStreamInterrupt env sv t irq s = (s', out) \<Longrightarrow> marks (ss_trace s') = marks (ss_trace s)"
  by (auto simp: finalizeStreamInterrupt_def Let_def split: option.splits if_splits dest!: emit_then_simps)

lemma marks_publish: "publishFinalAssistantMessage env a s = (s', out) \<Longrightarrow> marks (ss_trace s') = marks (ss_trace s)"
  by (auto simp: publishFinalAssistantMessage_def emit_then_def split: if_splits option.splits)

lemma marks_step: "stream_step env sv e s = (s', out) \<Longrightarrow> marks (ss_trace s') = marks (ss_trace s)"
  by (cases e) (auto simp: Let_def split: option.splits if_splits dest!: emit_then_simps marks_finalize marks_publish)

lemma marks_ends: "stream_ends env sv ending s = (s', out) \<Longrightarrow> marks (ss_trace s') = marks (ss_trace s)"
  by (cases ending) (auto simp: Let_def split: option.splits dest!: marks_finalize marks_publish)

lemma marks_run: "run_stream env sv es ending s = (s', out) \<Longrightarrow> marks (ss_trace s') = marks (ss_trace s)"
proof (induction es arbitrary: s)
  case (Cons e es)
  obtain s1 o1 where st: "stream_step env sv e s = (s1, o1)" by fastforce
  show ?case using Cons.IH [of s1] Cons.prems st marks_step [OF st] by (cases o1) auto
qed (simp add: marks_ends)

lemma marks_attempt: "streamAssistantResponse env sv ctx m at = (s, out) \<Longrightarrow> marks (ss_trace s) = []"
  by (auto simp: streamAssistantResponse_def start_stream_def split: attempt.splits dest!: marks_run)

lemma marks_then: "marks (fst m) = [] \<Longrightarrow> (\<And>a. marks (fst (f a)) = []) \<Longrightarrow> marks (fst (then_act m f)) = []"
  by (simp add: then_act_def split_beta split: sum.split)

lemma marks_return [simp]: "marks (fst (return_act a)) = []"
  by (simp add: return_act_def)

lemma marks_message [simp]: "marks (fst (emit_message env m)) = []"
  unfolding emit_message_def by (rule marks_then) (simp_all add: emit_def)

lemma marks_messages [simp]: "marks (fst (emit_messages env ms)) = []"
proof (induction ms)
  case (Cons m ms)
  then show ?case by (auto intro: marks_then)
qed simp

lemma marks_bail: "marks (fst (bail env a ctx added m)) = []"
  unfolding bail_def by (rule marks_then) simp_all

lemma marks_stream_turn: "marks (fst (stream_turn env sv md attempts k tleft oleft ctx added m)) = []"
proof (induction env sv md attempts k tleft oleft ctx added m rule: stream_turn.induct)
  case (1 env sv md attempts k tleft oleft ctx added m)
  obtain s out where at: "streamAssistantResponse env (sv\<lparr>sv_model := md\<rparr>) ctx m (attempts k) = (s, out)" by fastforce
  note e = marks_attempt [OF at]
  have skip: "marks (fst (then_act (ss_trace s, Inr ()) (\<lambda>u. x))) = []" if "marks (fst x) = []" for x :: "('a, 'a streamed) act"
    using e that by (intro marks_then) simp_all
  have rem: "marks (fst (then_act (emit_message env r) (\<lambda>u. x))) = []" if "marks (fst x) = []" for r and x :: "('a, 'a streamed) act"
    using that by (intro marks_then) simp_all
  show ?case
  proof (cases out)
    case (Interrupted irq)
    show ?thesis
    proof (cases irq)
      case (TTSRHit n t)
      show ?thesis
      proof (cases "tleft = 0")
        case False
        note ih = "1.IH"(1) [OF at [symmetric] Interrupted TTSRHit False refl]
        show ?thesis using at Interrupted TTSRHit False skip [OF rem [OF ih]]
          by (simp add: stream_turn.simps [of env] Let_def)
      qed (use at Interrupted TTSRHit skip [OF marks_bail] in \<open>simp add: stream_turn.simps [of env]\<close>)
    next
      case (Overthought n l w)
      show ?thesis
      proof (cases "oleft = 0")
        case False
        note ih = "1.IH"(2) [OF at [symmetric] Interrupted Overthought False refl]
        show ?thesis using at Interrupted Overthought False skip [OF rem [OF ih]]
          by (simp add: stream_turn.simps [of env] Let_def)
      qed (use at Interrupted Overthought skip [OF marks_bail] in \<open>simp add: stream_turn.simps [of env]\<close>)
    qed
  qed (use at e in \<open>simp_all add: stream_turn.simps [of env]\<close>)
qed

lemma marks_tools: "rules_ok env \<Longrightarrow> marks (fst (run_tools env sc a)) = []"
  unfolding run_tools_def
  by (auto intro!: marks_then marks_batch [OF batch_execute] split: prod.split)

text \<open>\<open>n\<close> turns, each opened and closed; a run that throws leaves a part of such a run.\<close>

definition turns_of :: "nat \<Rightarrow> 'x mark list" where
  "turns_of n = concat (replicate n [Opens, Closes])"

lemma turns_of_Suc: "turns_of (Suc n) = turns_of n @ [Opens, Closes]"
  by (induction n) (simp_all add: turns_of_def)

lemma turns_of_0 [simp]: "turns_of 0 = []"
  by (simp add: turns_of_def)

definition cut_off :: "'x loop_env \<Rightarrow> 'x mark list \<Rightarrow> bool" where
  "cut_off le ms \<longleftrightarrow> (\<exists>n new rest. n \<le> Suc (max_turns le) \<and> turns_of n @ [Finishes new] = ms @ rest)
     \<and> (\<forall>new. Finishes new \<in> set ms \<longrightarrow> le_throws le (AgentEnd new) \<noteq> None)"

lemma turns_of_unfinished [simp]: "Finishes new \<notin> set (turns_of n)"
  by (auto simp: turns_of_def)

lemma cut_offI: "n \<le> Suc (max_turns le) \<Longrightarrow> cut_off le (turns_of n)"
  "n \<le> Suc (max_turns le) \<Longrightarrow> le_throws le (AgentEnd new) \<noteq> None \<Longrightarrow> cut_off le (turns_of n @ [Finishes new])"
  "n \<le> max_turns le \<Longrightarrow> cut_off le (turns_of n @ [Opens])"
proof -
  show "n \<le> Suc (max_turns le) \<Longrightarrow> cut_off le (turns_of n)" by (auto simp: cut_off_def)
  show "n \<le> Suc (max_turns le) \<Longrightarrow> le_throws le (AgentEnd new) \<noteq> None \<Longrightarrow> cut_off le (turns_of n @ [Finishes new])"
    by (auto simp: cut_off_def)
  assume "n \<le> max_turns le"
  then have "\<exists>k new rest. k \<le> Suc (max_turns le) \<and> turns_of k @ [Finishes new] = (turns_of n @ [Opens]) @ rest"
    by (intro exI [of _ "Suc n"] exI [of _ undefined] exI [of _ "[Closes, Finishes undefined]"]) (simp add: turns_of_Suc)
  then show "cut_off le (turns_of n @ [Opens])" by (simp add: cut_off_def)
qed

definition complete :: "nat \<Rightarrow> 'x mark list \<Rightarrow> 'x message list \<Rightarrow> bool" where
  "complete N ms new \<longleftrightarrow> (\<exists>n. 0 < n \<and> n \<le> Suc N \<and> ms = turns_of n @ [Finishes new])"

abbreviation turn_posts :: "'x loop_env \<Rightarrow> 'x mark list \<Rightarrow> ('x, 'a) act \<Rightarrow> ('x mark list \<Rightarrow> 'a \<Rightarrow> bool) \<Rightarrow> bool" where
  "turn_posts le \<equiv> posts marks (cut_off le)"

text \<open>Between turns: the first one has been opened already.\<close>

definition between :: "'x loop_env \<Rightarrow> 'x mark list \<Rightarrow> 'x loop_state \<Rightarrow> bool" where
  "between le p s \<longleftrightarrow> ls_turnCount s \<le> max_turns le \<and> (ls_firstTurn s \<longleftrightarrow> ls_turnCount s = 0)
     \<and> p = (if ls_firstTurn s then [Opens] else turns_of (ls_turnCount s))"

definition within :: "'x loop_env \<Rightarrow> 'x mark list \<Rightarrow> 'x loop_state \<Rightarrow> bool" where
  "within le p s \<longleftrightarrow> (\<exists>c. ls_turnCount s = Suc c \<and> c < max_turns le \<and> p = turns_of c @ [Opens]) \<and> \<not> ls_firstTurn s"

definition after :: "'x loop_env \<Rightarrow> 'x mark list \<Rightarrow> 'x progress \<Rightarrow> bool" where
  "after le p pr = (case pr of RunEnds new \<Rightarrow> complete (max_turns le) p new | RunGoes again s \<Rightarrow> between le p s \<and> \<not> ls_firstTurn s)"

lemma between_cut: "0 < max_turns le \<Longrightarrow> between le p s \<Longrightarrow> cut_off le p"
  using cut_offI(3) [of 0 le] by (auto simp: between_def cut_offI)

lemma within_cut: "within le p s \<Longrightarrow> cut_off le p"
  by (auto simp: within_def cut_offI)

lemma begin_turn_marks:
  assumes "0 < max_turns le" "between le p s" "ls_turnCount s < max_turns le"
  shows "turn_posts le p (begin_turn le s) (within le)"
proof -
  define q where "q = turns_of (ls_turnCount s) @ [Opens :: 'a mark]"
  have q: "cut_off le q" using assms(3) by (simp add: q_def cut_offI)
  have first: "turn_posts le p (if ls_firstTurn s then return_act () else emit env TurnStart) (\<lambda>t u. t = q)" for env
    using assms(2) q by (auto simp: between_def q_def turns_of_def intro: turns.posts_return turns.posts_emit)
  show ?thesis
    unfolding begin_turn_def Let_def
  proof (rule turns.posts_then [OF first])
    fix t u
    assume t: "t = q"
    show "turn_posts le t (then_act (ask (ts_passive (le_script le (ls_turnCount s)))) (\<lambda>passive.
        then_act (emit_messages (turn_env le (le_script le (ls_turnCount s)) (ls_tools s)) (ls_pending s @ passive)) (\<lambda>u.
          return_act (s\<lparr>ls_context := ls_context s @ ls_pending s @ passive, ls_new := ls_new s @ ls_pending s @ passive,
            ls_pending := [], ls_turnCount := Suc (ls_turnCount s), ls_firstTurn := False,
            ls_tools := live_tools (le_script le (ls_turnCount s)) (ls_tools s)\<rparr>)))) (within le)"
      unfolding t
    proof (rule turns.posts_then [where Q = "\<lambda>t a. t = q"], rule turns.posts_ask)
      fix t' ms
      assume t': "t' = q"
      show "turn_posts le t' (then_act (emit_messages (turn_env le (le_script le (ls_turnCount s)) (ls_tools s)) (ls_pending s @ ms)) (\<lambda>u.
          return_act (s\<lparr>ls_context := ls_context s @ ls_pending s @ ms, ls_new := ls_new s @ ls_pending s @ ms,
            ls_pending := [], ls_turnCount := Suc (ls_turnCount s), ls_firstTurn := False,
            ls_tools := live_tools (le_script le (ls_turnCount s)) (ls_tools s)\<rparr>))) (within le)"
        unfolding t'
        by (rule turns.posts_then [OF turns.posts_silent [where Q = "\<lambda>t u. t = q"]])
          (use q assms(3) in \<open>auto intro!: turns.posts_return simp: within_def q_def\<close>)
    qed (use q in simp_all)
  qed
qed

lemma end_run_marks: "te_throws env = le_throws le \<Longrightarrow> complete (max_turns le) (p @ [Finishes new]) new \<Longrightarrow> turn_posts le p (end_run env new) (after le)"
  unfolding end_run_def
  by (rule turns.posts_then [OF turns.posts_emit [where Q = "\<lambda>t u. complete (max_turns le) t new"]])
    (auto intro!: turns.posts_return cut_offI simp: after_def complete_def)

lemma complete_turns: "0 < n \<Longrightarrow> n \<le> Suc N \<Longrightarrow> complete N (turns_of n @ [Finishes new]) new"
  by (auto simp: complete_def)

lemma finish_turn_marks:
  assumes "0 < ls_turnCount s" "ls_turnCount s \<le> max_turns le" "\<not> ls_firstTurn s" "te_throws env = le_throws le"
  shows "turn_posts le (turns_of (ls_turnCount s)) (finish_turn le sc env again s) (after le)"
proof -
  define n where "n = ls_turnCount s"
  have cut: "cut_off le (turns_of n)" using assms(2) by (simp add: n_def cut_offI)
  have stop: "turn_posts le (turns_of n) (end_run env new) (after le)" for new
    using assms(1,2,4) by (intro end_run_marks complete_turns) (simp_all add: n_def)
  have goes: "turn_posts le (turns_of n) (return_act (RunGoes again s')) (after le)"
    if "ls_turnCount s' = n" "\<not> ls_firstTurn s'" for s'
    using that assms by (intro turns.posts_return) (simp add: after_def between_def n_def)
  have steer: "turn_posts le (turns_of n) (then_act (ask (ts_steering sc)) (\<lambda>steer. return_act (RunGoes again (s'\<lparr>ls_pending := steer\<rparr>)))) (after le)"
    if "ls_turnCount s' = n" "\<not> ls_firstTurn s'" for s'
    by (rule turns.posts_then [OF turns.posts_ask [where Q = "\<lambda>t a. t = turns_of n"]]) (use cut goes that in simp_all)
  have "turn_posts le (turns_of n) (then_act (ask (ts_shouldStop sc)) (\<lambda>stop. if stop then end_run env new
      else then_act (ask (ts_steering sc)) (\<lambda>steer. return_act (RunGoes again (s'\<lparr>ls_pending := steer\<rparr>))))) (after le)"
    if "ls_turnCount s' = n" "\<not> ls_firstTurn s'" for s' new
    by (rule turns.posts_then [OF turns.posts_ask [where Q = "\<lambda>t a. t = turns_of n"]]) (use cut stop steer that in simp_all)
  then show ?thesis using stop assms(3)
    by (simp add: finish_turn_def Let_def n_def split: option.split)
qed

lemma answer_turn_marks:
  fixes le :: "'x loop_env"
  assumes r: "rules_ok env" and w: "within le p s" and e: "te_throws env = le_throws le"
  shows "turn_posts le p (answer_turn le sc env st s) (after le)"
proof -
  obtain c where c: "ls_turnCount s = Suc c" "c < max_turns le" "p = turns_of c @ [Opens]" "\<not> ls_firstTurn s"
    using w by (auto simp: within_def)
  have closed: "p @ [Closes] = turns_of (Suc c)" using c(3) by (simp add: turns_of_Suc)
  have cut: "cut_off le p" "cut_off le (p @ [Closes])"
    using within_cut [OF w] closed c(2) by (simp_all add: cut_offI)
  have close: "turn_posts le p (emit env (TurnEnd m rs)) (\<lambda>t u. t = turns_of (Suc c))" for m rs
    using cut closed by (intro turns.posts_emit) simp_all
  define s1 where "s1 = s\<lparr>ls_context := st_context st, ls_new := ls_new s @ st_added st, ls_matcher := st_matcher st\<rparr>"
  show ?thesis
  proof (cases "stopped (st_message st)")
    case True
    have "turn_posts le p (then_act (emit env (TurnEnd (AssistantMsg (st_message st)) [])) (\<lambda>u. end_run env (ls_new s1))) (after le)"
      by (rule turns.posts_then [OF close]) (use c(2) e in \<open>auto intro!: end_run_marks complete_turns\<close>)
    then show ?thesis using True by (simp add: answer_turn_def Let_def s1_def)
  next
    case False
    have fin: "turn_posts le p (then_act (emit env (TurnEnd (AssistantMsg (st_message st)) msgs)) (\<lambda>u. finish_turn le sc env again
        (s1\<lparr>ls_context := x, ls_new := y\<rparr>))) (after le)" for msgs again x y
    proof (rule turns.posts_then [OF close])
      fix t :: "'x mark list" and u :: unit
      assume t: "t = turns_of (Suc c)"
      show "turn_posts le t (finish_turn le sc env again (s1\<lparr>ls_context := x, ls_new := y\<rparr>)) (after le)"
        unfolding t
        using finish_turn_marks [of "s1\<lparr>ls_context := x, ls_new := y\<rparr>" le env sc again] c e by (simp add: s1_def)
    qed
    have "turn_posts le p (then_act (run_tools env sc (st_message st)) (\<lambda>(msgs, again).
        then_act (emit env (TurnEnd (AssistantMsg (st_message st)) msgs)) (\<lambda>u. finish_turn le sc env again
          (s1\<lparr>ls_context := ls_context s1 @ map ToolResultMsg msgs, ls_new := ls_new s1 @ map ToolResultMsg msgs\<rparr>)))) (after le)"
      by (rule turns.posts_then [OF turns.posts_silent [where F = "cut_off le" and p = p and Q = "\<lambda>t a. t = p", OF marks_tools [OF r] cut(1)]])
        (use fin in auto)
    then show ?thesis using False by (simp add: answer_turn_def Let_def s1_def)
  qed
qed

definition rules_scripted :: "'x loop_env \<Rightarrow> bool" where
  "rules_scripted le \<longleftrightarrow> (\<forall>i. rules_ok (ts_toolEnv (le_script le i)))"

lemma run_turn_marks:
  assumes "0 < max_turns le" "rules_scripted le" "between le p s" "ls_turnCount s < max_turns le"
  shows "turn_posts le p (run_turn le s) (after le)"
  unfolding run_turn_def Let_def
proof (rule turns.posts_then [OF begin_turn_marks [OF assms(1,3,4)]])
  fix t s1
  assume w: "within le t s1"
  define env where "env = turn_env le (le_script le (ls_turnCount s)) (ls_tools s1)"
  have r: "rules_ok env" using assms(2) by (simp add: env_def turn_env_def rules_scripted_def rules_ok_def)
  show "turn_posts le t (then_act (stream_turn (turn_env le (le_script le (ls_turnCount s)) (ls_tools s1)) (le_stream le) (ls_model s1)
      (ts_attempts (le_script le (ls_turnCount s))) 0 MAX_TTSR_RETRIES_PER_TURN
      (overthink_retries (le_stream le)) (ls_context s1) [] (matcher_reset (ls_matcher s1)))
      (\<lambda>st. answer_turn le (le_script le (ls_turnCount s)) (turn_env le (le_script le (ls_turnCount s)) (ls_tools s1)) st s1)) (after le)"
    unfolding env_def [symmetric]
    by (rule turns.posts_then [OF turns.posts_silent [where F = "cut_off le" and p = t and Q = "\<lambda>x a. x = t", OF marks_stream_turn within_cut [OF w]]])
      (use answer_turn_marks [OF r w] in \<open>simp_all add: env_def turn_env_def\<close>)
qed

lemma budget_marks:
  assumes "0 < max_turns le" "between le p s" "max_turns le \<le> ls_turnCount s"
  shows "turn_posts le p (budget_notice le s) (complete (max_turns le))"
proof -
  define N where "N = max_turns le"
  have p: "p = turns_of N" "p @ [Opens, Closes] = turns_of (Suc N)" using assms by (auto simp: between_def N_def turns_of_Suc)
  have cut: "cut_off le (p @ [Opens])" "cut_off le (p @ [Opens, Closes])"
    using cut_offI(3) [of N le] cut_offI(1) [of "Suc N" le] p by (simp_all add: turns_of_Suc N_def)
  have ends: "cut_off le (p @ [Opens, Closes, Finishes new])" if "le_throws le (AgentEnd new) \<noteq> None" for new
    using cut_offI(2) [of "Suc N" le new] that p by (simp add: turns_of_Suc N_def)
  have fin: "complete N (p @ [Opens, Closes, Finishes new]) new" for new
    using p(2) complete_turns [of "Suc N" N new] by (simp add: turns_of_Suc p(1))
  define env where "env = turn_env le (le_script le (ls_turnCount s)) (ls_tools s)"
  have th: "te_throws env = le_throws le" by (simp add: env_def turn_env_def)
  show ?thesis
    unfolding budget_notice_def Let_def N_def [symmetric] env_def [symmetric]
    by (rule turns.posts_then [OF turns.posts_emit [where Q = "\<lambda>t u. t = p @ [Opens]"]],
        use cut in simp, simp,
        rule turns.posts_then [OF turns.posts_silent [where Q = "\<lambda>t u. t = p @ [Opens]"]],
        simp, use cut in simp, simp,
        rule turns.posts_then [OF turns.posts_emit [where Q = "\<lambda>t u. t = p @ [Opens, Closes]"]],
        use cut in simp, simp,
        rule turns.posts_then [OF turns.posts_emit [where Q = "\<lambda>t u. t = p @ [Opens, Closes, Finishes (ls_new s @ [AssistantMsg (buildTurnBudgetMessage (ls_model s) N)])]"]],
        use ends th in simp, simp, rule turns.posts_return, use fin in simp)
qed

lemma run_loop_marks:
  "0 < max_turns le \<Longrightarrow> rules_scripted le \<Longrightarrow> between le p s \<Longrightarrow> (ls_firstTurn s \<Longrightarrow> again) \<Longrightarrow>
     turn_posts le p (run_loop le again s) (complete (max_turns le))"
proof (induction le again s arbitrary: p rule: run_loop.induct)
  case (1 le again s)
  note pos = "1.prems"(1) and r = "1.prems"(2) and b = "1.prems"(3)
  show ?case
  proof (cases "again \<or> ls_pending s \<noteq> []")
    case True
    show ?thesis
    proof (cases "max_turns le \<le> ls_turnCount s")
      case full: True
      then show ?thesis using True budget_marks [OF pos b] by (simp add: run_loop.simps [of le again s])
    next
      case False
      obtain es x where rt: "run_turn le s = (es, x)" by fastforce
      have p: "turn_posts le p (run_turn le s) (after le)" using False by (intro run_turn_marks [OF pos r b]) simp
      show ?thesis
      proof (cases x)
        case (Inl err)
        then show ?thesis using p rt True False by (simp add: run_loop.simps [of le again s] posts_def)
      next
        case (Inr pr)
        show ?thesis
        proof (cases pr)
          case (RunEnds new)
          then show ?thesis using p rt True False Inr by (simp add: run_loop.simps [of le again s] posts_def after_def)
        next
          case (RunGoes again' s')
          then have g: "between le (p @ marks es) s'" "\<not> ls_firstTurn s'" using p rt Inr by (simp_all add: posts_def after_def)
          have "turn_posts le (p @ marks es) (run_loop le again' s') (complete (max_turns le))"
            using "1.IH"(1) [OF True False rt [symmetric] Inr RunGoes pos r g(1)] g(2) by simp
          then have "turn_posts le p (then_act (es, Inr ()) (\<lambda>u. run_loop le again' s')) (complete (max_turns le))"
            by (intro turns.posts_then [where Q = "\<lambda>x u. x = p @ marks es"]) (simp_all add: posts_def)
          then show ?thesis using rt True False Inr RunGoes by (simp add: run_loop.simps [of le again s])
        qed
      qed
    qed
  next
    case False
    have eq: "run_loop le again s = (case ts_followUp (le_script le (ls_turnCount s)) of
          Inl err \<Rightarrow> ([], Inl err)
        | Inr (m # ms) \<Rightarrow> run_loop le True (s\<lparr>ls_pending := m # ms\<rparr>)
        | Inr [] \<Rightarrow> then_act (emit (turn_env le (le_script le (ls_turnCount s)) (ls_tools s)) (AgentEnd (ls_new s))) (\<lambda>u. return_act (ls_new s)))"
      by (subst run_loop.simps) (simp add: False)
    have nf: "\<not> ls_firstTurn s" using False "1.prems"(4) by auto
    then have p: "p = turns_of (ls_turnCount s)" "0 < ls_turnCount s" "ls_turnCount s \<le> max_turns le" using b by (simp_all add: between_def)
    show ?thesis
    proof (cases "ts_followUp (le_script le (ls_turnCount s))")
      case (Inl err)
      then show ?thesis using eq between_cut [OF pos b] by (simp add: posts_def)
    next
      case (Inr ms)
      show ?thesis
      proof (cases ms)
        case Nil
        have "turn_posts le p (then_act (emit (turn_env le (le_script le (ls_turnCount s)) (ls_tools s)) (AgentEnd (ls_new s))) (\<lambda>u. return_act (ls_new s))) (complete (max_turns le))"
          by (rule turns.posts_then [OF turns.posts_emit [where Q = "\<lambda>t u. t = p @ [Finishes (ls_new s)]"]])
            (use p in \<open>auto intro!: turns.posts_return complete_turns cut_offI simp: turn_env_def\<close>)
        then show ?thesis using Inr Nil eq by simp
      next
        case (Cons m ns)
        have b': "between le p (s\<lparr>ls_pending := m # ns\<rparr>)" using b by (simp add: between_def)
        have "turn_posts le p (run_loop le True (s\<lparr>ls_pending := m # ns\<rparr>)) (complete (max_turns le))"
          using "1.IH"(2) [OF False Inr Cons pos r b'] by simp
        then show ?thesis using Inr Cons eq by simp
      qed
    qed
  qed
qed


section \<open>Runs\<close>

lemma runLoop_post:
  assumes w: "well_scripted le" and g: "good_state pre t s"
  shows "ok_posts t (runLoop le s) (\<lambda>t' new. new = pre @ t' \<and> transcript_ok t')"
proof -
  have "plain_answer (le_steering le)" using w by (simp add: well_scripted_def)
  then have "ok_posts t (ask (le_steering le)) (\<lambda>t' ms. t' = t \<and> plain ms)"
    using g by (intro kept.posts_ask) (auto simp: plain_answer_def good_state_def)
  then show ?thesis unfolding runLoop_def
    by (rule kept.posts_then) (use g in \<open>auto intro!: run_loop_post [OF w] simp: good_state_def\<close>)
qed

lemma runAgentLoop_post:
  assumes w: "well_scripted le" and p: "plain prompts"
  shows "ok_posts [] (runAgentLoop le model tools m ctx prompts) (\<lambda>t new. new = t \<and> transcript_ok t)"
proof -
  define env where "env = turn_env le (le_script le 0) tools"
  have c: "calm env" using turn_env_ok [OF w] by (simp add: env_def)
  have msgs: "ok_posts [] (emit_messages env prompts) (\<lambda>t u. t = prompts)"
    using emit_messages_calm [OF c p] by (auto simp: posts_def)
  have loop: "ok_posts prompts (runLoop le (start_loop model tools (ctx @ prompts) prompts m)) (\<lambda>t new. new = t \<and> transcript_ok t)"
    using runLoop_post [OF w, of "[]" prompts "start_loop model tools (ctx @ prompts) prompts m"] plain_ok [OF p]
    by (simp add: good_state_def start_loop_def)
  show ?thesis
    unfolding runAgentLoop_def Let_def env_def [symmetric]
    by (rule kept.posts_then [OF emit_quiet_event [where Q = "\<lambda>t u. t = []"]], simp_all add: ok_nil,
        rule kept.posts_then [OF emit_quiet_event [where Q = "\<lambda>t u. t = []"]], simp_all add: ok_nil,
        rule kept.posts_then [OF msgs], simp add: loop)
qed

text \<open>C4: Whatever the model answers, whatever the tools, hooks and listeners of tool events do, and wherever the run
  stops or throws, the messages that listeners have kept form a transcript providers accept: every answer that was
  not stopped is followed by exactly the results of its tool calls; and a run that returns has announced exactly
  the messages it returns.
\<close>

theorem run_transcript_paired:
  assumes "well_scripted le" "plain prompts"
  shows "case runAgentLoop le model tools m ctx prompts of
      (es, Inl err) \<Rightarrow> transcript_ok (transcript es)
    | (es, Inr new) \<Rightarrow> transcript_ok (transcript es) \<and> new = transcript es"
  using runAgentLoop_post [OF assms, of model tools m ctx] by (auto simp: posts_def split: prod.splits sum.splits)

lemma runLoop_marks:
  assumes "0 < max_turns le" "rules_scripted le"
  shows "turn_posts le [Opens] (runLoop le (start_loop model tools ctx new m)) (complete (max_turns le))"
proof -
  have cut: "cut_off le [Opens]" using cut_offI(3) [of 0 le] by simp
  have ask: "turn_posts le [Opens] (ask (le_steering le)) (\<lambda>t a. t = [Opens])" using cut by (intro turns.posts_ask) simp_all
  show ?thesis unfolding runLoop_def
    by (rule turns.posts_then [OF ask]) (auto intro!: run_loop_marks assms simp: between_def start_loop_def)
qed

lemma runAgentLoop_marks:
  assumes "0 < max_turns le" "rules_scripted le"
  shows "turn_posts le [] (runAgentLoop le model tools m ctx prompts) (complete (max_turns le))"
proof -
  have cut: "cut_off le []" "cut_off le [Opens]" using cut_offI(1,3) [of 0 le] by simp_all
  show ?thesis
    unfolding runAgentLoop_def Let_def
    by (rule turns.posts_then [OF turns.posts_emit [where Q = "\<lambda>t u. t = []"]], use cut in simp, simp,
        rule turns.posts_then [OF turns.posts_emit [where Q = "\<lambda>t u. t = [Opens]"]], use cut in simp, simp,
        rule turns.posts_then [OF turns.posts_silent [where Q = "\<lambda>t u. t = [Opens]"]], simp, use cut in simp, simp,
        use runLoop_marks [OF assms] in simp)
qed

text \<open>C5: A run ends: it opens and closes its turns one after the other, at most the budget and the notice of the spent
  budget, and finishes once, after them, with the messages it returns; a run that throws has done a part of that.
\<close>

theorem run_is_bounded:
  assumes "0 < max_turns le" "rules_scripted le"
  shows "case runAgentLoop le model tools m ctx prompts of
      (es, Inr new) \<Rightarrow> \<exists>n. 0 < n \<and> n \<le> Suc (max_turns le) \<and> marks es = turns_of n @ [Finishes new]
    | (es, Inl err) \<Rightarrow> \<exists>n new rest. n \<le> Suc (max_turns le) \<and> turns_of n @ [Finishes new] = marks es @ rest"
  using runAgentLoop_marks [OF assms, of model tools m ctx prompts]
  by (auto simp: posts_def complete_def cut_off_def split: prod.splits sum.splits)

text \<open>The last event of a run that returns.\<close>

lemma then_ends: "then_act m f = (es, Inr b) \<Longrightarrow> (\<And>a es2. f a = (es2, Inr b) \<Longrightarrow> \<exists>fs. es2 = fs @ [e]) \<Longrightarrow> \<exists>fs. es = fs @ [e]"
  by (fastforce dest!: then_act_Inr)

lemma emit_ends: "then_act (emit env e) (\<lambda>u. return_act b) = (es, Inr c) \<Longrightarrow> es = [e] \<and> c = b"
  by (auto simp: then_act_def emit_def return_act_def split: option.splits)

lemma end_run_ends: "end_run env new = (es, Inr (RunEnds new')) \<Longrightarrow> \<exists>fs. es = fs @ [AgentEnd new']"
  unfolding end_run_def by (auto dest!: emit_ends)

lemma finish_turn_ends: "finish_turn le sc env again s = (es, Inr (RunEnds new)) \<Longrightarrow> \<exists>fs. es = fs @ [AgentEnd new]"
  by (auto simp: finish_turn_def Let_def return_act_def split: if_splits option.splits dest!: end_run_ends then_act_Inr)

lemma answer_turn_ends: "answer_turn le sc env st s = (es, Inr (RunEnds new)) \<Longrightarrow> \<exists>fs. es = fs @ [AgentEnd new]"
  by (auto simp: answer_turn_def Let_def split: if_splits prod.splits dest!: then_act_Inr end_run_ends finish_turn_ends)

lemma run_turn_ends: "run_turn le s = (es, Inr (RunEnds new)) \<Longrightarrow> \<exists>fs. es = fs @ [AgentEnd new]"
  by (auto simp: run_turn_def Let_def dest!: then_act_Inr answer_turn_ends)

lemma budget_ends: "budget_notice le s = (es, Inr new) \<Longrightarrow> \<exists>fs. es = fs @ [AgentEnd new]"
  unfolding budget_notice_def Let_def by (erule then_ends, erule then_ends, erule then_ends) (auto dest!: emit_ends)

lemma run_loop_ends: "run_loop le again s = (es, Inr new) \<Longrightarrow> \<exists>fs. es = fs @ [AgentEnd new]"
proof (induction le again s arbitrary: es rule: run_loop.induct)
  case (1 le again s)
  show ?case
  proof (cases "again \<or> ls_pending s \<noteq> []")
    case True
    show ?thesis
    proof (cases "max_turns le \<le> ls_turnCount s")
      case full: True
      then show ?thesis using True "1.prems" by (simp add: run_loop.simps [of le again s] budget_ends)
    next
      case False
      obtain fs x where rt: "run_turn le s = (fs, x)" by fastforce
      show ?thesis
      proof (cases x)
        case (Inl err)
        then show ?thesis using "1.prems" rt True False by (simp add: run_loop.simps [of le again s])
      next
        case (Inr pr)
        show ?thesis
        proof (cases pr)
          case (RunEnds new')
          then show ?thesis using "1.prems" rt True False Inr run_turn_ends by (simp add: run_loop.simps [of le again s])
        next
          case (RunGoes again' s')
          then have "then_act (fs, Inr ()) (\<lambda>u. run_loop le again' s') = (es, Inr new)"
            using "1.prems" rt True False Inr by (simp add: run_loop.simps [of le again s])
          then show ?thesis by (rule then_ends) (rule "1.IH"(1) [OF True False rt [symmetric] Inr RunGoes])
        qed
      qed
    qed
  next
    case False
    have "(case ts_followUp (le_script le (ls_turnCount s)) of
          Inl err \<Rightarrow> ([], Inl err)
        | Inr (m # ms) \<Rightarrow> run_loop le True (s\<lparr>ls_pending := m # ms\<rparr>)
        | Inr [] \<Rightarrow> then_act (emit (turn_env le (le_script le (ls_turnCount s)) (ls_tools s)) (AgentEnd (ls_new s))) (\<lambda>u. return_act (ls_new s))) = (es, Inr new)"
      using "1.prems" False by (subst (asm) run_loop.simps) simp
    then show ?thesis using "1.IH"(2) [OF False]
      by (auto split: sum.splits list.splits dest!: emit_ends)
  qed
qed

lemma runAgentLoop_ends: "runAgentLoop le model tools m ctx prompts = (es, Inr new) \<Longrightarrow> \<exists>fs. es = fs @ [AgentEnd new]"
  unfolding runAgentLoop_def runLoop_def Let_def by (erule then_ends)+ (rule run_loop_ends)

lemma marks_AgentEnd: "AgentEnd ms \<in> set es \<Longrightarrow> Finishes ms \<in> set (marks es)"
  by (induction es) auto

lemma run_pushes_stream:
  fixes x :: "'x agent_stream"
  assumes "x = run_pushes pace es (createAgentStream warn cap)"
  shows "stream_ok is_agent_end x" "ob_accepted x = up_to is_agent_end es" "es_done (ob_stream x) = list_ex is_agent_end es"
    "es_hardMax (ob_stream x) = es_hardMax (new_stream warn cap :: ('x event, 'x message list) event_stream)"
proof -
  have start: "stream_ok is_agent_end (createAgentStream warn cap :: 'x agent_stream)"
    unfolding createAgentStream_def by (rule observe_ok)
  show "stream_ok is_agent_end x" unfolding assms run_pushes_def by (intro reads_ok push_all_ok start)
  show "ob_accepted x = up_to is_agent_end es" "es_done (ob_stream x) = list_ex is_agent_end es"
    "es_hardMax (ob_stream x) = es_hardMax (new_stream warn cap :: ('x event, 'x message list) event_stream)"
    using push_all_accepts [of is_agent_end agent_end_messages pace 0 es "createAgentStream warn cap"]
    by (simp_all add: assms run_pushes_def createAgentStream_def observe_def new_stream_def)
qed

lemma list_ex_agent_end: "list_ex is_agent_end es \<longleftrightarrow> (\<exists>ms. AgentEnd ms \<in> set es)"
proof -
  have "is_agent_end e \<longleftrightarrow> (\<exists>ms. e = AgentEnd ms)" for e :: "'a event" by (cases e) simp_all
  then show ?thesis by (auto simp: list_ex_iff)
qed

text \<open>The failure turn fits when its three messages do not fill the stream; then it is what the consumer gets last.\<close>

definition failure_fits :: "'x agent_stream \<Rightarrow> bool" where
  "failure_fits x \<longleftrightarrow> es_hardMax (ob_stream x) \<le> 0 \<or>
     int (backlog (ob_stream x) + (3 - es_waiting (ob_stream x))) < es_hardMax (ob_stream x)"

lemma failure_stream:
  assumes ok: "stream_ok is_agent_end x" and od: "\<not> es_done (ob_stream x)"
  shows "if failure_fits x
    then es_done (ob_stream (endStreamWithFailure model err x)) \<and>
      ob_accepted (endStreamWithFailure model err x) = ob_accepted x @ failure_turn model err
    else \<not> es_done (ob_stream (endStreamWithFailure model err x)) \<and>
      (\<exists>n<4. ob_accepted (endStreamWithFailure model err x) = ob_accepted x @ take n (failure_turn model err))"
proof -
  let ?m = "AssistantMsg (buildErrorTurn model err)"
  let ?a = "[MessageStart ?m, MessageEnd ?m, TurnEnd ?m []]"
  let ?go = "push_until is_agent_end agent_end_messages"
  have turn: "failure_turn model err = ?a @ [AgentEnd [?m]]" by (simp add: failure_turn_def Let_def)
  have plain: "\<not> list_ex is_agent_end ?a" by simp
  have throws: "snd (?go ?a x) \<longleftrightarrow> \<not> failure_fits x"
    using push_until_throws [OF ok od plain] by (auto simp: failure_fits_def)
  show ?thesis
  proof (cases "failure_fits x")
    case True
    then obtain y where y: "?go ?a x = (y, False)" using throws by (metis prod.collapse)
    from push_until_returns [OF y] have ya: "ob_accepted y = ob_accepted x @ ?a" "\<not> es_done (ob_stream y)" using od by simp_all
    have go: "?go (failure_turn model err) x = ?go [AgentEnd [?m]] y" unfolding turn push_until_append y by simp
    obtain z threw where z: "?go [AgentEnd [?m]] y = (z, threw)" by fastforce
    have "ob_accepted (fst (?go [AgentEnd [?m]] y)) = ob_accepted y @ [AgentEnd [?m]]" "es_done (ob_stream (fst (?go [AgentEnd [?m]] y)))"
      using ya(2) by (simp_all add: split_def Let_def)
    then have za: "ob_accepted z = ob_accepted y @ [AgentEnd [?m]]" "es_done (ob_stream z)" unfolding z by simp_all
    have "endStreamWithFailure model err x = (if threw then z else ended (Some []) z)"
      unfolding endStreamWithFailure_def go z by (cases threw) simp_all
    then show ?thesis using True za ya(1) by (simp add: turn ended_def)
  next
    case False
    then obtain y where y: "?go ?a x = (y, True)" using throws by (metis prod.collapse)
    have go: "?go (failure_turn model err) x = (y, True)" unfolding turn push_until_append y by simp
    obtain as bs where p: "?a = as @ bs" "ob_accepted y = ob_accepted x @ up_to is_agent_end as" "es_done (ob_stream y) = list_ex is_agent_end as"
      using push_until_prefix [OF od, of ?a is_agent_end agent_end_messages] y by auto
    have "\<not> list_ex is_agent_end as" using plain p(1) by (metis list_ex_append)
    then have "\<not> es_done (ob_stream y)" "ob_accepted y = ob_accepted x @ as" using p by (simp_all add: up_to_none)
    moreover have "as = take (length as) (failure_turn model err)" unfolding turn p(1) by simp
    moreover have "length as < 4" using arg_cong [OF p(1), of length] by simp
    ultimately show ?thesis using False unfolding endStreamWithFailure_def go by (simp; metis)
  qed
qed

text \<open>C6: How a run reaches its consumer. A consumer that keeps reading is given, in order, the events of the run: all of
  them when the run returns, and the last of them is then its one \<open>agent_end\<close>. After a rejected run it is given the
  events up to the run's own \<open>agent_end\<close>, when that had been pushed, and else the events and the failure turn, which ends
  in the one \<open>agent_end\<close> - provided the stream's cap leaves room for the turn. Without that room the consumer sees part
  of the turn, no \<open>agent_end\<close>, and the stream stays open. In every case it is open exactly when no \<open>agent_end\<close> came.\<close>

theorem stream_always_ends:
  assumes "0 < max_turns le" "rules_scripted le"
    and "runAgentLoop le model tools m ctx prompts = (es, r)"
    and "run_pushes pace es (createAgentStream warn cap) = x" "agentLoop le warn cap pace model tools m ctx prompts = y"
  shows "let seen = ob_received y @ unread (ob_stream y) in
    (if es_done (ob_stream y) then \<exists>fs ms. seen = fs @ [AgentEnd ms] \<and> (\<forall>ns. AgentEnd ns \<notin> set fs)
     else \<forall>ns. AgentEnd ns \<notin> set seen) \<and>
    (case r of
       Inr new \<Rightarrow> es_done (ob_stream y) \<and> seen = es
     | Inl err \<Rightarrow>
         if \<exists>ms. AgentEnd ms \<in> set es then es_done (ob_stream y) \<and> seen = up_to is_agent_end es
         else if failure_fits x then es_done (ob_stream y) \<and> seen = es @ failure_turn model err
         else \<not> es_done (ob_stream y) \<and> (\<exists>n<4. seen = es @ take n (failure_turn model err)))"
proof -
  note x = run_pushes_stream [OF assms(4) [symmetric]]
  have y: "y = settle_stream model r x" using assms(3,4,5) by (simp add: agentLoop_def)
  have ok: "stream_ok is_agent_end y"
    using x(1) push_until_ok [OF x(1), of agent_end_messages]
    by (auto simp: y settle_stream_def endStreamWithFailure_def ended_ok split: sum.split prod.split bool.split) (metis ended_ok fst_conv)+
  have seen: "ob_received y @ unread (ob_stream y) = ob_accepted y" using ok by (simp add: stream_ok_def)
  have runs: "case r of
       Inr new \<Rightarrow> es_done (ob_stream y) \<and> ob_accepted y = es
     | Inl err \<Rightarrow>
         if \<exists>ms. AgentEnd ms \<in> set es then es_done (ob_stream y) \<and> ob_accepted y = up_to is_agent_end es
         else if failure_fits x then es_done (ob_stream y) \<and> ob_accepted y = es @ failure_turn model err
         else \<not> es_done (ob_stream y) \<and> (\<exists>n<4. ob_accepted y = es @ take n (failure_turn model err))"
  proof (cases r)
    case (Inr new)
    then obtain fs where fs: "es = fs @ [AgentEnd new]" using runAgentLoop_ends assms(3) by blast
    obtain n where "marks es = turns_of n @ [Finishes new]"
      using runAgentLoop_marks [OF assms(1,2), of model tools m ctx prompts] assms(3) Inr by (auto simp: posts_def complete_def)
    then have "marks fs = turns_of n" using fs by simp
    then have "\<not> list_ex is_agent_end fs" using marks_AgentEnd [of _ fs] by (auto simp: list_ex_agent_end)
    then show ?thesis using Inr x(2) fs up_to_last [of is_agent_end fs] by (simp add: y settle_stream_def ended_def)
  next
    case (Inl err)
    show ?thesis
    proof (cases "\<exists>ms. AgentEnd ms \<in> set es")
      case True
      then have d: "es_done (ob_stream x)" using x(3) by (simp add: list_ex_agent_end)
      have "y = ended (Some []) x" unfolding y settle_stream_def Inl endStreamWithFailure_def push_until_closed [OF d] by simp
      then show ?thesis using True Inl x(2) by (simp add: ended_def)
    next
      case False
      then have e: "\<not> es_done (ob_stream x)" "ob_accepted x = es" using x(2,3) by (simp_all add: list_ex_agent_end up_to_none)
      show ?thesis using failure_stream [OF x(1) e(1), of model err] False Inl e(2) by (simp add: y settle_stream_def split: if_splits)
    qed
  qed
  have closes: "es_done (ob_stream y) \<Longrightarrow> list_ex is_agent_end (ob_accepted y)"
    using runs x(3) runAgentLoop_ends [of le model tools m ctx prompts es] assms(3)
    by (auto simp: list_ex_agent_end [symmetric] failure_turn_def Let_def split: sum.splits if_splits)
  have "if es_done (ob_stream y) then \<exists>fs ms. ob_accepted y = fs @ [AgentEnd ms] \<and> (\<forall>ns. AgentEnd ns \<notin> set fs)
     else \<forall>ns. AgentEnd ns \<notin> set (ob_accepted y)"
  proof (cases "es_done (ob_stream y)")
    case True
    note ex = closes [OF True]
    then have ne: "ob_accepted y \<noteq> []" by auto
    have pre: "\<not> list_ex is_agent_end (butlast (ob_accepted y))" using ok by (auto simp: stream_ok_def list_ex_iff list_all_iff)
    have "list_ex is_agent_end (butlast (ob_accepted y) @ [last (ob_accepted y)])" using ex by (simp only: append_butlast_last_id [OF ne])
    then have "is_agent_end (last (ob_accepted y))" using pre by (simp only: list_ex_append list_ex_Cons_iff list_ex_Nil_iff simp_thms)
    then obtain ms where "last (ob_accepted y) = AgentEnd ms" by (cases "last (ob_accepted y)") auto
    then show ?thesis using True pre append_butlast_last_id [OF ne]
      by (auto simp: list_ex_agent_end intro!: exI [of _ "butlast (ob_accepted y)"] exI [of _ ms])
  next
    case False
    then have "\<not> list_ex is_agent_end (ob_accepted y)" using ok by (auto simp: stream_ok_def list_ex_iff list_all_iff)
    then show ?thesis using False by (simp add: list_ex_agent_end)
  qed
  then show ?thesis using runs by (simp only: Let_def seen)
qed

text \<open>A budget of no turns opens a second turn before it closes one.\<close>

lemma zero_budget_unbalanced:
  fixes le :: "'x loop_env"
  assumes "max_turns le = 0" "le_steering le = Inr []" "le_throws le = (\<lambda>e. None)"
  shows "marks (fst (runAgentLoop le model tools m ctx [])) =
    [Opens, Opens, Closes, Finishes [AssistantMsg (buildTurnBudgetMessage model 0)]]"
  using assms
  by (simp add: runAgentLoop_def Let_def emit_def turn_env_def then_act_def return_act_def runLoop_def ask_def
      run_loop.simps budget_notice_def emit_message_def start_loop_def)

text \<open>A hook that throws between two turns leaves a failure turn that was never opened.\<close>

lemma rejected_turn_unopened:
  "marks (es @ failure_turn model err) = marks es @ [Closes, Finishes [AssistantMsg (buildErrorTurn model err)]]"
  by (simp add: failure_turn_def Let_def)


section \<open>Witnesses\<close>

definition demo_script :: "nat turn_script" where
  "demo_script =
     \<lparr> ts_passive = Inr [], ts_activeTools = None, ts_attempts = (\<lambda>k. Streams demo_events (Breaks [])),
       ts_toolEnv = demo_env, ts_schedule = demo_schedule, ts_abortedAfterBatch = False, ts_abortedAfterTurn = False,
       ts_nextTurn = None, ts_shouldStop = Inr False, ts_steering = Inr [], ts_followUp = Inr [] \<rparr>"

definition demo_loop :: "nat loop_env" where
  "demo_loop =
     \<lparr> le_throws = (\<lambda>e. None), le_stream = demo_stream_env, le_maxTurns = Some 2, le_steering = Inr [], le_script = (\<lambda>i. demo_script) \<rparr>"

lemma demo_loop_ok: "well_scripted demo_loop" "rules_scripted demo_loop" "0 < max_turns demo_loop"
proof -
  have r: "rules_ok demo_env" by (rule demo_env_ok(2))
  have "good_attempt (Streams demo_events (Breaks []))"
    by (simp add: good_attempt_def demo_events_def distinct_calls_def demo_answer_def tool_calls_def)
  then show "well_scripted demo_loop"
    using r by (simp add: well_scripted_def demo_loop_def demo_script_def plain_answer_def Let_def)
  show "rules_scripted demo_loop" using r by (simp add: rules_scripted_def demo_loop_def demo_script_def)
  show "0 < max_turns demo_loop" by (simp add: demo_loop_def max_turns_def)
qed

lemma demo_prompt: "plain [user_message [104]]" by (simp add: user_message_def)

theorem run_transcript_paired_witness:
  "transcript_ok (transcript (fst (runAgentLoop demo_loop [109] [] \<lparr> mt_text = [], mt_args = [] \<rparr> [] [user_message [104]])))"
  using run_transcript_paired [OF demo_loop_ok(1) demo_prompt, of "[109]" "[]" "\<lparr> mt_text = [], mt_args = [] \<rparr>" "[]"]
  by (auto split: prod.splits sum.splits)

theorem run_is_bounded_witness:
  "\<exists>n rest new. n \<le> 3 \<and> turns_of n @ [Finishes new] =
     marks (fst (runAgentLoop demo_loop [109] [] \<lparr> mt_text = [], mt_args = [] \<rparr> [] [user_message [104]])) @ rest"
  using run_is_bounded [OF demo_loop_ok(3,2), of "[109]" "[]" "\<lparr> mt_text = [], mt_args = [] \<rparr>" "[]" "[user_message [104]]"]
  by (auto simp: demo_loop_def max_turns_def split: prod.splits sum.splits)

theorem stream_always_ends_witness:
  "let y = agentLoop demo_loop None (Some 0) (\<lambda>i. 0) [109] [] \<lparr> mt_text = [], mt_args = [] \<rparr> [] [user_message [104]]
   in es_done (ob_stream y) \<and> (\<exists>fs ms. ob_received y @ unread (ob_stream y) = fs @ [AgentEnd ms] \<and> (\<forall>ns. AgentEnd ns \<notin> set fs))"
proof -
  obtain es r where run: "runAgentLoop demo_loop [109] [] \<lparr> mt_text = [], mt_args = [] \<rparr> [] [user_message [104]] = (es, r)" by fastforce
  define x :: "nat agent_stream" where "x = run_pushes (\<lambda>i. 0) es (createAgentStream None (Some 0))"
  have "failure_fits x" using run_pushes_stream(4) [OF x_def] by (simp add: failure_fits_def new_stream_def)
  moreover note ends = stream_always_ends [OF demo_loop_ok(3,2) run x_def [symmetric] refl, unfolded Let_def]
  ultimately have "es_done (ob_stream (agentLoop demo_loop None (Some 0) (\<lambda>i. 0) [109] [] \<lparr> mt_text = [], mt_args = [] \<rparr> []
      [user_message [104]]))"
    using conjunct2 [OF ends] by (auto split: sum.splits if_splits)
  then show ?thesis using conjunct1 [OF ends] unfolding Let_def by (simp only: if_True simp_thms)
qed

text \<open>At the cap the failure turn does not reach the consumer, which then waits for an end that does not come.\<close>

lemma cap_hides_the_end:
  "let y = settle_stream [] (Inl []) (run_pushes (\<lambda>i. 0) [AgentStart, TurnStart] (createAgentStream None (Some 4)) :: unit agent_stream)
   in \<not> es_done (ob_stream y) \<and> list_all (\<lambda>e. \<not> is_agent_end e) (unread (ob_stream y)) \<and> length (unread (ob_stream y)) = 4"
  by code_simp

end
