(* ===== verification/TokenEstimate.thy ===== *)
theory TokenEstimate
  imports Surrogate Complex_Main
begin

text \<open>
  Token estimation (packages/ai/src/token-estimate.ts and core/compaction/message-tokens.ts): how a text is
  classified, what a message costs, the calibration factor learned from real usage, and the markers that
  stand for elided arguments. Quotients such as \<open>n / 3.3\<close> are integer divisions with the same ceiling on every
  length below 2 to the 40; the calibration factors are read as rationals, without the rounding of doubles.
  The caches by object identity return what is recomputed here, messages being immutable.
\<close>


section \<open>Density of a text\<close>

datatype text_density = Prose | Dense | NonLatin

definition prose_tokens :: "nat \<Rightarrow> nat" where
  "prose_tokens n = (n + 3) div 4"

definition dense_tokens :: "nat \<Rightarrow> nat" where
  "dense_tokens n = (10 * n + 32) div 33"

definition nonlatin_tokens :: "nat \<Rightarrow> nat" where
  "nonlatin_tokens n = (n + 1) div 2"

definition is_alnum :: "jschar \<Rightarrow> bool" where
  "is_alnum c \<longleftrightarrow> 48 \<le> c \<and> c \<le> 57 \<or> 65 \<le> c \<and> c \<le> 90 \<or> 97 \<le> c \<and> c \<le> 122"

definition is_structural :: "jschar \<Rightarrow> bool" where
  "is_structural c \<longleftrightarrow> c \<in> set (js ''{}[]()<>;:,=\"'')"

definition isDenseText :: "jsstr \<Rightarrow> bool" where
  "isDenseText t =
     (if t = [] then False
      else let nonAlphaNum = length (filter (\<lambda>c. c \<noteq> 32 \<and> c \<noteq> 9 \<and> c \<noteq> 10 \<and> c \<noteq> 13 \<and> \<not> is_alnum c) t);
               structural = length (filter is_structural t)
           in 5 * nonAlphaNum > length t \<or> 20 * structural > length t)"

text \<open>Code points: a well-formed surrogate pair counts once. The pair gives code points and non-ASCII ones.\<close>

fun code_points :: "jsstr \<Rightarrow> nat \<times> nat" where
  "code_points [] = (0, 0)"
| "code_points [c] = (1, if c > 127 then 1 else 0)"
| "code_points (c # d # cs) =
     (if isHighSurrogate c \<and> isLowSurrogate d then (case code_points cs of (n, k) \<Rightarrow> (n + 1, k + 1))
      else (case code_points (d # cs) of (n, k) \<Rightarrow> (n + 1, if c > 127 then k + 1 else k)))"

definition mostly_nonlatin :: "jsstr \<Rightarrow> bool" where
  "mostly_nonlatin t = (case code_points t of (n, k) \<Rightarrow> 0 < n \<and> 10 * k > 3 * n)"

definition classifyTextDensity :: "jsstr \<Rightarrow> text_density" where
  "classifyTextDensity t =
     (if t = [] then Prose else if mostly_nonlatin t then NonLatin else if isDenseText t then Dense else Prose)"

definition estimateStringTokens :: "jsstr \<Rightarrow> bool \<Rightarrow> nat" where
  "estimateStringTokens t forceDense =
     (if t = [] then 0
      else if mostly_nonlatin t then nonlatin_tokens (length t)
      else if forceDense \<or> isDenseText t then dense_tokens (length t) else prose_tokens (length t))"

definition tokens_of_density :: "text_density \<Rightarrow> nat \<Rightarrow> nat" where
  "tokens_of_density d n = (case d of Prose \<Rightarrow> prose_tokens n | Dense \<Rightarrow> dense_tokens n | NonLatin \<Rightarrow> nonlatin_tokens n)"

text \<open>The two copies of the classification agree, and a forced class only ever raises the estimate.\<close>

lemma estimate_by_class: "estimateStringTokens t False = tokens_of_density (classifyTextDensity t) (length t)"
  by (simp add: estimateStringTokens_def classifyTextDensity_def tokens_of_density_def prose_tokens_def)

lemma divisor_order: "prose_tokens n \<le> dense_tokens n" "dense_tokens n \<le> nonlatin_tokens n + n div 2 + 1" "dense_tokens n \<le> n"
  unfolding prose_tokens_def dense_tokens_def nonlatin_tokens_def by linarith+

lemma force_dense_raises: "estimateStringTokens t False \<le> estimateStringTokens t True"
  by (simp add: estimateStringTokens_def divisor_order)

lemma estimate_at_most_length: "estimateStringTokens t d \<le> length t"
proof -
  have "nonlatin_tokens n \<le> n" "prose_tokens n \<le> n" "dense_tokens n \<le> n" for n
    unfolding prose_tokens_def dense_tokens_def nonlatin_tokens_def by linarith+
  then show ?thesis by (simp add: estimateStringTokens_def)
qed

section \<open>The cost of a message\<close>

text \<open>Argument values as parsed JSON; a number carries its printed form.\<close>

datatype jdata = JNull | JBool bool | JNum jsstr | JStr jsstr | JArr "jdata list" | JObj "(jsstr \<times> jdata) list"

definition escaped_char :: "jschar \<Rightarrow> nat" where
  "escaped_char c =
     (if c = 34 \<or> c = 92 \<or> c = 8 \<or> c = 9 \<or> c = 10 \<or> c = 12 \<or> c = 13 then 2
      else if c < 32 \<or> isHighSurrogate c \<or> isLowSurrogate c then 6 else 1)"

fun escaped_length :: "jsstr \<Rightarrow> nat" where
  "escaped_length [] = 0"
| "escaped_length [c] = escaped_char c"
| "escaped_length (c # d # cs) =
     (if isHighSurrogate c \<and> isLowSurrogate d then 2 + escaped_length cs
      else escaped_char c + escaped_length (d # cs))"

text \<open>\<open>JSON.stringify(value).length\<close>: separators are one character between elements.\<close>

fun json_length :: "jdata \<Rightarrow> nat" where
  "json_length JNull = 4"
| "json_length (JBool b) = (if b then 4 else 5)"
| "json_length (JNum t) = length t"
| "json_length (JStr s) = 2 + escaped_length s"
| "json_length (JArr xs) = 2 + sum_list (map json_length xs) + (length xs - 1)"
| "json_length (JObj fs) = 2 + sum_list (map (\<lambda>(k, v). 3 + escaped_length k + json_length v) fs) + (length fs - 1)"

definition IMAGE_TOKENS_MIN :: nat where "IMAGE_TOKENS_MIN = 1200"
definition IMAGE_TOKENS_MAX :: nat where "IMAGE_TOKENS_MAX = 8000"

text \<open>The base64 payload is \<open>None\<close> when it is not a string.\<close>

definition imageBlockTokens :: "jsstr option \<Rightarrow> nat" where
  "imageBlockTokens data =
     (case data of
        None \<Rightarrow> IMAGE_TOKENS_MIN
      | Some d \<Rightarrow> if d = [] then IMAGE_TOKENS_MIN
                  else let bytes = (3 * length d + 3) div 4
                       in min IMAGE_TOKENS_MAX (max IMAGE_TOKENS_MIN ((bytes + 749) div 750)))"

text \<open>What a message holds: a string, content blocks, a command with its output, or a summary.\<close>

datatype content_block = TextBlock jsstr | ThinkingBlock jsstr | ImageBlock "jsstr option" | CallBlock jsstr jdata

datatype content = PlainText jsstr | Blocks "content_block list" | CommandOutput jsstr jsstr | SummaryText jsstr

record char_counts =
  cc_dense :: nat
  cc_prose :: nat
  cc_images :: nat

definition no_counts :: char_counts where
  "no_counts = \<lparr> cc_dense = 0, cc_prose = 0, cc_images = 0 \<rparr>"

definition add_dense :: "nat \<Rightarrow> char_counts \<Rightarrow> char_counts" where
  "add_dense n c = c\<lparr>cc_dense := cc_dense c + n\<rparr>"

definition add_classified :: "jsstr \<Rightarrow> char_counts \<Rightarrow> char_counts" where
  "add_classified t c = (if isDenseText t then add_dense (length t) c else c\<lparr>cc_prose := cc_prose c + length t\<rparr>)"

definition add_image :: "jsstr option \<Rightarrow> char_counts \<Rightarrow> char_counts" where
  "add_image d c = c\<lparr>cc_images := cc_images c + imageBlockTokens d\<rparr>"

fun count_user_block :: "content_block \<Rightarrow> char_counts \<Rightarrow> char_counts" where
  "count_user_block (TextBlock t) c = (if t = [] then c else add_classified t c)"
| "count_user_block (ImageBlock d) c = add_image d c"
| "count_user_block _ c = c"

fun count_assistant_block :: "content_block \<Rightarrow> char_counts \<Rightarrow> char_counts" where
  "count_assistant_block (TextBlock t) c = add_classified t c"
| "count_assistant_block (ThinkingBlock t) c = add_classified t c"
| "count_assistant_block (CallBlock name args) c = add_dense (length name + json_length args) c"
| "count_assistant_block (ImageBlock d) c = c"

fun count_result_block :: "content_block \<Rightarrow> char_counts \<Rightarrow> char_counts" where
  "count_result_block (TextBlock t) c = add_dense (length t) c"
| "count_result_block (ImageBlock d) c = add_image d c"
| "count_result_block _ c = c"

definition countMessageChars :: "jsstr \<Rightarrow> content \<Rightarrow> char_counts" where
  "countMessageChars role body =
     (if role = js ''user'' then
        (case body of PlainText t \<Rightarrow> add_classified t no_counts
                    | Blocks bs \<Rightarrow> fold count_user_block bs no_counts | _ \<Rightarrow> no_counts)
      else if role = js ''assistant'' then
        (case body of Blocks bs \<Rightarrow> fold count_assistant_block bs no_counts | _ \<Rightarrow> no_counts)
      else if role = js ''custom'' \<or> role = js ''toolResult'' then
        (case body of PlainText t \<Rightarrow> add_dense (length t) no_counts
                    | Blocks bs \<Rightarrow> fold count_result_block bs no_counts | _ \<Rightarrow> no_counts)
      else if role = js ''bashExecution'' then
        (case body of CommandOutput cmd out \<Rightarrow> add_dense (length cmd + length out) no_counts | _ \<Rightarrow> no_counts)
      else if role = js ''branchSummary'' \<or> role = js ''compactionSummary'' then
        (case body of SummaryText t \<Rightarrow> add_classified t no_counts | _ \<Rightarrow> no_counts)
      else no_counts)"

definition estimateTokens :: "jsstr \<Rightarrow> content \<Rightarrow> nat" where
  "estimateTokens role body =
     (let c = countMessageChars role body in prose_tokens (cc_prose c) + dense_tokens (cc_dense c) + cc_images c)"

lemma image_cost_bounds: "IMAGE_TOKENS_MIN \<le> imageBlockTokens d" "imageBlockTokens d \<le> IMAGE_TOKENS_MAX"
  by (auto simp: imageBlockTokens_def IMAGE_TOKENS_MIN_def IMAGE_TOKENS_MAX_def Let_def split: option.split)

section \<open>Elided arguments\<close>

definition TOOLCALL_ARG_VALUE_MARK_THRESHOLD :: nat where
  "TOOLCALL_ARG_VALUE_MARK_THRESHOLD = 200"

definition ELISION_MARKER_PREFIX :: jsstr where
  "ELISION_MARKER_PREFIX = js ''chars elided''"

definition js_includes :: "jsstr \<Rightarrow> jsstr \<Rightarrow> bool" where
  "js_includes t p = list_ex (\<lambda>i. take (length p) (drop i t) = p) [0..<Suc (length t - length p)]"

fun containsElisionMarker :: "jdata \<Rightarrow> bool" where
  "containsElisionMarker (JStr s) = js_includes s ELISION_MARKER_PREFIX"
| "containsElisionMarker (JArr xs) = list_ex containsElisionMarker xs"
| "containsElisionMarker (JObj fs) = list_ex (\<lambda>(k, v). containsElisionMarker v) fs"
| "containsElisionMarker _ = False"

definition elision_marker :: "bool \<Rightarrow> nat \<Rightarrow> jsstr" where
  "elision_marker failed n =
     js ''['' @ digits n @ js '' chars elided '' @ [0x2014] @
     (if failed then js '' the write FAILED; content was NOT applied to disk]''
      else js '' applied to disk; the file is the source of truth]'')"

text \<open>The inner \<open>walk\<close>: the new value, and the characters it adds to \<open>saved\<close>.\<close>

fun elide :: "bool \<Rightarrow> jdata \<Rightarrow> jdata" where
  "elide failed (JStr s) =
     (if length s \<le> TOOLCALL_ARG_VALUE_MARK_THRESHOLD then JStr s else JStr (elision_marker failed (length s)))"
| "elide failed (JArr xs) = JArr (map (elide failed) xs)"
| "elide failed (JObj fs) = JObj (map (\<lambda>(k, v). (k, elide failed v)) fs)"
| "elide failed v = v"

fun elided_chars :: "jdata \<Rightarrow> nat" where
  "elided_chars (JStr s) = (if length s \<le> TOOLCALL_ARG_VALUE_MARK_THRESHOLD then 0 else length s)"
| "elided_chars (JArr xs) = sum_list (map elided_chars xs)"
| "elided_chars (JObj fs) = sum_list (map (\<lambda>(k, v). elided_chars v) fs)"
| "elided_chars _ = 0"

definition pruneToolCallArguments :: "jdata \<Rightarrow> bool \<Rightarrow> (jdata \<times> nat) option" where
  "pruneToolCallArguments args failed =
     (case args of
        JArr xs \<Rightarrow> if elided_chars args = 0 then None else Some (elide failed args, elided_chars args)
      | JObj fs \<Rightarrow> if elided_chars args = 0 then None else Some (elide failed args, elided_chars args)
      | _ \<Rightarrow> None)"

lemma js_includes_append: "js_includes (a @ p @ b) p"
proof -
  have "length a \<in> set [0..<Suc (length (a @ p @ b) - length p)]" by simp
  moreover have "take (length p) (drop (length a) (a @ p @ b)) = p" by simp
  ultimately show ?thesis unfolding js_includes_def list_ex_iff by blast
qed

lemma marker_detected: "js_includes (elision_marker failed n) ELISION_MARKER_PREFIX"
proof -
  have "js '' chars elided '' = js '' '' @ ELISION_MARKER_PREFIX @ js '' ''"
    by (simp add: ELISION_MARKER_PREFIX_def js_def)
  then have "elision_marker failed n = (js ''['' @ digits n @ js '' '') @ ELISION_MARKER_PREFIX @ (js '' '' @ [0x2014] @
     (if failed then js '' the write FAILED; content was NOT applied to disk]''
      else js '' applied to disk; the file is the source of truth]''))"
    by (simp add: elision_marker_def)
  then show ?thesis by (simp only: js_includes_append)
qed

lemma sum_list_pos: "0 < sum_list (map f xs) \<Longrightarrow> \<exists>x \<in> set xs. (0 :: nat) < f x"
  by (induction xs) auto

lemma elided_detected: "0 < elided_chars v \<Longrightarrow> containsElisionMarker (elide failed v)"
proof (induction v)
  case (JStr s)
  then show ?case using marker_detected by (simp split: if_splits)
next
  case (JArr xs)
  then obtain x where "x \<in> set xs" "0 < elided_chars x" using sum_list_pos [of elided_chars xs] by auto
  then show ?case using JArr.IH by (auto simp: list_ex_iff)
next
  case (JObj fs)
  then obtain k v where kv: "(k, v) \<in> set fs" "0 < elided_chars v"
    using sum_list_pos [of "\<lambda>(k, v). elided_chars v" fs] by auto
  then have "containsElisionMarker (elide failed v)" using JObj.IH by (metis snds.intros snd_conv)
  then show ?case using kv by (auto simp: list_ex_iff intro!: bexI [of _ "(k, v)"])
qed simp_all

lemma nothing_elided: "elided_chars v = 0 \<Longrightarrow> elide failed v = v"
proof (induction v)
  case (JArr xs)
  then show ?case by (simp add: map_idI)
next
  case (JObj fs)
  have "(case kv of (k, v) \<Rightarrow> (k, elide failed v)) = kv" if "kv \<in> set fs" for kv
  proof -
    obtain k v where kv: "kv = (k, v)" by (cases kv)
    then have "elided_chars v = 0" using that JObj.prems by fastforce
    then show ?thesis using JObj.IH [of kv v] that kv by simp
  qed
  then show ?case by (simp add: map_idI)
qed (simp_all add: TOOLCALL_ARG_VALUE_MARK_THRESHOLD_def split: if_splits)

text \<open>Arguments elided from the history are never run.\<close>

theorem elided_arguments_detected:
  "pruneToolCallArguments args failed = Some (pruned, saved) \<Longrightarrow>
     pruned = elide failed args \<and> 0 < saved \<and> containsElisionMarker pruned"
  using elided_detected [of args failed]
  by (cases args) (simp_all add: pruneToolCallArguments_def del: elide.simps elided_chars.simps containsElisionMarker.simps split: if_splits)

section \<open>Calibration\<close>

definition TOKEN_CALIBRATION_ALPHA :: rat where "TOKEN_CALIBRATION_ALPHA = 1 / 5"
definition TOKEN_CALIBRATION_MIN_SAMPLE_TOKENS :: int where "TOKEN_CALIBRATION_MIN_SAMPLE_TOKENS = 5000"
definition TOKEN_CALIBRATION_FACTOR_MIN :: rat where "TOKEN_CALIBRATION_FACTOR_MIN = 1 / 2"
definition TOKEN_CALIBRATION_FACTOR_MAX :: rat where "TOKEN_CALIBRATION_FACTOR_MAX = 2"

record calibration_state =
  ca_factor :: rat
  ca_samples :: nat
  ca_lastRatio :: rat
  ca_lastEstimatedTokens :: int
  ca_lastActualTokens :: int

record calibration =
  calibrationByModel :: "(jsstr, calibration_state) jsmap"
  calibrationGlobal :: "calibration_state option"

definition resetTokenEstimateCalibration :: calibration where
  "resetTokenEstimateCalibration = \<lparr> calibrationByModel = [], calibrationGlobal = None \<rparr>"

definition clampFactor :: "rat \<Rightarrow> rat" where
  "clampFactor v = min TOKEN_CALIBRATION_FACTOR_MAX (max TOKEN_CALIBRATION_FACTOR_MIN v)"

definition updateState :: "calibration_state option \<Rightarrow> rat \<Rightarrow> int \<Rightarrow> int \<Rightarrow> calibration_state" where
  "updateState st ratio estimated actual =
     (case st of
        None \<Rightarrow> \<lparr> ca_factor = ratio, ca_samples = 1, ca_lastRatio = ratio,
                  ca_lastEstimatedTokens = estimated, ca_lastActualTokens = actual \<rparr>
      | Some s \<Rightarrow> \<lparr> ca_factor = clampFactor (ca_factor s + TOKEN_CALIBRATION_ALPHA * (ratio - ca_factor s)),
                    ca_samples = Suc (ca_samples s), ca_lastRatio = ratio,
                    ca_lastEstimatedTokens = estimated, ca_lastActualTokens = actual \<rparr>)"

definition recordTokenEstimateSample :: "jsstr \<Rightarrow> jsnum \<Rightarrow> jsnum \<Rightarrow> calibration \<Rightarrow> calibration" where
  "recordTokenEstimateSample modelId estimated actual c =
     (if modelId = [] then c
      else case (estimated, actual) of
             (Finite e, Finite a) \<Rightarrow>
               if e < TOKEN_CALIBRATION_MIN_SAMPLE_TOKENS \<or> a \<le> 0 then c
               else let ratio = clampFactor (of_int a / of_int e)
                    in \<lparr> calibrationByModel =
                           mset_at modelId (updateState (mget (calibrationByModel c) modelId) ratio e a) (calibrationByModel c),
                         calibrationGlobal = Some (updateState (calibrationGlobal c) ratio e a) \<rparr>
           | _ \<Rightarrow> c)"

text \<open>An empty model id counts as none.\<close>

definition tokenEstimateFactor :: "jsstr option \<Rightarrow> calibration \<Rightarrow> rat" where
  "tokenEstimateFactor modelId c =
     (let own = (case modelId of Some m \<Rightarrow> if m = [] then None else mget (calibrationByModel c) m | None \<Rightarrow> None)
      in case own of
           Some s \<Rightarrow> ca_factor s
         | None \<Rightarrow> (case calibrationGlobal c of Some s \<Rightarrow> ca_factor s | None \<Rightarrow> 1))"

definition js_round :: "rat \<Rightarrow> int" where
  "js_round x = \<lfloor>x + 1 / 2\<rfloor>"

definition calibrated :: "jsstr option \<Rightarrow> calibration \<Rightarrow> int \<Rightarrow> int" where
  "calibrated modelId c tokens = js_round (of_int tokens * tokenEstimateFactor modelId c)"

definition factor_ok :: "calibration_state \<Rightarrow> bool" where
  "factor_ok s \<longleftrightarrow> TOKEN_CALIBRATION_FACTOR_MIN \<le> ca_factor s \<and> ca_factor s \<le> TOKEN_CALIBRATION_FACTOR_MAX"

definition calibration_ok :: "calibration \<Rightarrow> bool" where
  "calibration_ok c \<longleftrightarrow> (\<forall>m s. mget (calibrationByModel c) m = Some s \<longrightarrow> factor_ok s)
     \<and> (\<forall>s. calibrationGlobal c = Some s \<longrightarrow> factor_ok s)"

lemma clampFactor_bounds: "TOKEN_CALIBRATION_FACTOR_MIN \<le> clampFactor v" "clampFactor v \<le> TOKEN_CALIBRATION_FACTOR_MAX"
  by (simp_all add: clampFactor_def TOKEN_CALIBRATION_FACTOR_MIN_def TOKEN_CALIBRATION_FACTOR_MAX_def)

lemma updateState_ok: "factor_ok (updateState st (clampFactor r) e a)"
  using clampFactor_bounds by (cases st) (simp_all add: factor_ok_def updateState_def)

lemma record_ok [inv_intros]: "calibration_ok c \<Longrightarrow> calibration_ok (recordTokenEstimateSample m e a c)"
  by (cases e; cases a) (auto simp: calibration_ok_def recordTokenEstimateSample_def Let_def updateState_ok)

interpretation calibrating: event_machine "\<lambda>(m, e, a). recordTokenEstimateSample m e a" calibration_ok
  by unfold_locales (auto intro: inv_intros)

lemma reset_ok [simp]: "calibration_ok resetTokenEstimateCalibration"
  by (simp add: calibration_ok_def resetTokenEstimateCalibration_def)

lemma factor_bounds: "calibration_ok c \<Longrightarrow> 1 / 2 \<le> tokenEstimateFactor m c \<and> tokenEstimateFactor m c \<le> 2"
  by (auto simp: calibration_ok_def factor_ok_def tokenEstimateFactor_def Let_def TOKEN_CALIBRATION_FACTOR_MIN_def
      TOKEN_CALIBRATION_FACTOR_MAX_def split: option.splits if_splits)

lemma calibrated_bounds:
  assumes "calibration_ok c" "0 \<le> n"
  shows "n \<le> 2 * calibrated m c n" "calibrated m c n \<le> 2 * n"
proof -
  define f where "f = tokenEstimateFactor m c"
  have f: "1 / 2 \<le> f" "f \<le> 2" using factor_bounds [OF assms(1)] f_def by auto
  have n: "(0 :: rat) \<le> of_int n" using assms(2) by simp
  have low: "of_int n / 2 \<le> of_int n * f" using mult_left_mono [OF f(1) n] by simp
  have high: "of_int n * f \<le> of_int (2 * n)" using mult_left_mono [OF f(2) n] by (simp add: mult.commute)
  have fl: "of_int (calibrated m c n) \<le> of_int n * f + 1 / 2" "of_int n * f + 1 / 2 < of_int (calibrated m c n) + 1"
    unfolding calibrated_def js_round_def f_def using floor_correct [of "of_int n * tokenEstimateFactor m c + 1 / 2"] by simp_all
  have "of_int (calibrated m c n) < (of_int (2 * n + 1) :: rat)" using fl(1) high by simp
  then show "calibrated m c n \<le> 2 * n" by (simp only: of_int_less_iff)
  have "(of_int n :: rat) < of_int (2 * calibrated m c n + 1)" using fl(2) low by simp
  then show "n \<le> 2 * calibrated m c n" by (simp only: of_int_less_iff)
qed

text \<open>The correction factor never leaves its range.\<close>

theorem calibration_bounded:
  "0 \<le> n \<Longrightarrow> cal = fold (\<lambda>(m, e, a). recordTokenEstimateSample m e a) samples resetTokenEstimateCalibration \<Longrightarrow>
     n \<le> 2 * calibrated model cal n \<and> calibrated model cal n \<le> 2 * n"
  using calibrated_bounds calibrating.inv_run [OF reset_ok] by metis

section \<open>Witnesses\<close>

definition long_write :: jdata where
  "long_write = JObj [(js ''path'', JStr (js ''a.ts'')), (js ''content'', JArr [JStr (replicate 201 120)])]"

theorem elided_arguments_detected_witness:
  "\<exists>pruned. pruneToolCallArguments long_write False = Some (pruned, 201) \<and> containsElisionMarker pruned"
proof -
  have saved: "pruneToolCallArguments long_write False = Some (elide False long_write, 201)"
    by (simp add: pruneToolCallArguments_def long_write_def TOOLCALL_ARG_VALUE_MARK_THRESHOLD_def)
  then show ?thesis using elided_arguments_detected [OF saved] by blast
qed

theorem calibration_bounded_witness:
  "10 \<le> 2 * calibrated None (fold (\<lambda>(m, e, a). recordTokenEstimateSample m e a)
     [(js ''m'', Finite 6000, Finite 9000)] resetTokenEstimateCalibration) 10"
  using calibration_bounded [OF _ refl, where n = 10 and samples = "[(js ''m'', Finite 6000, Finite 9000)]" and model = None] by simp

end
