(* ===== verification/FileOps.thy ===== *)
theory FileOps
  imports TokenEstimate "HOL-Library.List_Lexorder"
begin

text \<open>
  File operations observed in a window of messages (core/compaction/utils.ts): the sets a compaction or a branch
  summary accumulates from tool calls and from earlier summaries, the capped and sorted lists written into the
  summary, and the trimming of prose that repeats them. A \<open>Set\<close> is a duplicate-free list in insertion order.
  \<open>redact\<close> stands for \<open>redactForDisk\<close>, the table of secret patterns of core/secret-redactor.ts.
\<close>


section \<open>The sets\<close>

definition sadd :: "'a \<Rightarrow> 'a list \<Rightarrow> 'a list" where
  "sadd x xs = (if x \<in> set xs then xs else xs @ [x])"

definition sadd_all :: "'a list \<Rightarrow> 'a list \<Rightarrow> 'a list" where
  "sadd_all ys xs = fold sadd ys xs"

record file_ops =
  fo_read :: "jsstr list"
  fo_written :: "jsstr list"
  fo_edited :: "jsstr list"
  fo_searches :: "jsstr list"
  fo_shellCmds :: "jsstr list"
  fo_mcpCalls :: "jsstr list"

definition createFileOps :: file_ops where
  "createFileOps = \<lparr> fo_read = [], fo_written = [], fo_edited = [], fo_searches = [], fo_shellCmds = [], fo_mcpCalls = [] \<rparr>"

text \<open>The persisted lists of an earlier summary; \<open>None\<close> for a field that is not an array.\<close>

record summary_details =
  sd_readFiles :: "jsstr list option"
  sd_modifiedFiles :: "jsstr list option"
  sd_searches :: "jsstr list option"
  sd_shellCmds :: "jsstr list option"
  sd_mcpCalls :: "jsstr list option"
  sd_fileDigests :: "(jsstr \<times> jsstr) list option"

definition the_list :: "'a list option \<Rightarrow> 'a list" where
  "the_list l = (case l of Some xs \<Rightarrow> xs | None \<Rightarrow> [])"

definition mergeSummaryDetailsIntoFileOps :: "summary_details \<Rightarrow> file_ops \<Rightarrow> file_ops" where
  "mergeSummaryDetailsIntoFileOps d ops =
     ops\<lparr>fo_read := sadd_all (the_list (sd_readFiles d)) (fo_read ops),
         fo_edited := sadd_all (the_list (sd_modifiedFiles d)) (fo_edited ops),
         fo_searches := sadd_all (the_list (sd_searches d)) (fo_searches ops),
         fo_shellCmds := sadd_all (the_list (sd_shellCmds d)) (fo_shellCmds ops),
         fo_mcpCalls := sadd_all (the_list (sd_mcpCalls d)) (fo_mcpCalls ops)\<rparr>"

section \<open>Operations of a tool call\<close>

datatype file_tool_op = OpRead | OpWrite | OpEdit

definition FILE_TOOL_OPS :: "jsstr \<Rightarrow> file_tool_op option" where
  "FILE_TOOL_OPS name =
     map_of [(js ''read'', OpRead), (js ''write'', OpWrite), (js ''edit'', OpEdit), (js ''edit_v2'', OpEdit),
             (js ''ast_edit'', OpEdit)] name"

text \<open>Tool arguments: the fields of the object, none when the value is no object.\<close>

type_synonym tool_args = "(jsstr \<times> jdata) list"

definition arg_string :: "jdata \<Rightarrow> jsstr option" where
  "arg_string v = (case v of JStr s \<Rightarrow> Some s | _ \<Rightarrow> None)"

definition args_of :: "jdata \<Rightarrow> tool_args" where
  "args_of v = (case v of JObj fs \<Rightarrow> fs | _ \<Rightarrow> [])"

definition PATH_KEY_ALIASES :: "jsstr list" where
  "PATH_KEY_ALIASES = [js ''file_path'', js ''filepath'', js ''filename'', js ''file'']"

text \<open>The first key that is present and not null wins, even when its value is no string.\<close>

fun coalesceAliasedString :: "tool_args \<Rightarrow> jsstr list \<Rightarrow> jsstr option" where
  "coalesceAliasedString rec [] = None"
| "coalesceAliasedString rec (k # ks) =
     (case map_of rec k of
        None \<Rightarrow> coalesceAliasedString rec ks
      | Some JNull \<Rightarrow> coalesceAliasedString rec ks
      | Some v \<Rightarrow> arg_string v)"

definition extractPathArg :: "tool_args \<Rightarrow> jsstr option" where
  "extractPathArg args = coalesceAliasedString args (js ''path'' # PATH_KEY_ALIASES)"

definition extractToolFileOp :: "jsstr \<Rightarrow> tool_args \<Rightarrow> (jsstr \<times> file_tool_op) option" where
  "extractToolFileOp name args =
     (case FILE_TOOL_OPS name of
        None \<Rightarrow> None
      | Some tool_op \<Rightarrow> (case extractPathArg args of
                      None \<Rightarrow> None
                    | Some path \<Rightarrow> if path = [] then None else Some (path, tool_op)))"

definition field_string :: "tool_args \<Rightarrow> jsstr \<Rightarrow> jsstr option" where
  "field_string args k = (case map_of args k of Some v \<Rightarrow> arg_string v | None \<Rightarrow> None)"

definition pickBashCommand :: "tool_args \<Rightarrow> jsstr option" where
  "pickBashCommand args =
     (case field_string args (js ''command'') of
        Some (c # cs) \<Rightarrow> Some (c # cs)
      | _ \<Rightarrow> (case field_string args (js ''cmd'') of Some (c # cs) \<Rightarrow> Some (c # cs) | _ \<Rightarrow> None))"

text \<open>\<open>text.replace(/\s+/g, " ")\<close>: every run of white space becomes one blank.\<close>

fun collapse_blanks :: "bool \<Rightarrow> jsstr \<Rightarrow> jsstr" where
  "collapse_blanks inside [] = []"
| "collapse_blanks inside (c # cs) =
     (if is_ws c then (if inside then collapse_blanks True cs else 32 # collapse_blanks True cs)
      else c # collapse_blanks False cs)"

definition OP_PREVIEW_MAX_CHARS :: nat where "OP_PREVIEW_MAX_CHARS = 160"

definition previewOpArg :: "(jsstr \<Rightarrow> jsstr) \<Rightarrow> jsstr option \<Rightarrow> jsstr option" where
  "previewOpArg redact v =
     (case v of
        None \<Rightarrow> None
      | Some t \<Rightarrow>
          (if t = [] then None
           else let collapsed = redact (trim (collapse_blanks False t))
                in if collapsed = [] then None
                   else if length collapsed \<le> OP_PREVIEW_MAX_CHARS then Some collapsed
                   else Some (sliceSafe collapsed 0 (int OP_PREVIEW_MAX_CHARS) @ ellipsis)))"

definition add_preview :: "jsstr option \<Rightarrow> jsstr list \<Rightarrow> jsstr list" where
  "add_preview p xs = (case p of Some t \<Rightarrow> sadd t xs | None \<Rightarrow> xs)"

text \<open>\<open>indexOf("__")\<close> on the rest of an MCP tool name.\<close>

fun split_at_bars :: "jsstr \<Rightarrow> (jsstr \<times> jsstr) option" where
  "split_at_bars (c # d # cs) =
     (if c = 95 \<and> d = 95 then Some ([], cs) else map_option (\<lambda>(a, b). (c # a, b)) (split_at_bars (d # cs)))"
| "split_at_bars _ = None"

definition MCP_PREFIX :: jsstr where "MCP_PREFIX = js ''mcp__''"

definition mcp_label :: "jsstr \<Rightarrow> jsstr" where
  "mcp_label name =
     (let rest = drop (length MCP_PREFIX) name
      in case split_at_bars rest of None \<Rightarrow> rest | Some (server, tool) \<Rightarrow> server @ js ''.'' @ tool)"

definition record_call :: "(jsstr \<Rightarrow> jsstr) \<Rightarrow> jsstr \<Rightarrow> tool_args \<Rightarrow> file_ops \<Rightarrow> file_ops" where
  "record_call redact name args ops =
     (case extractToolFileOp name args of
        Some (path, OpRead) \<Rightarrow> ops\<lparr>fo_read := sadd path (fo_read ops)\<rparr>
      | Some (path, OpWrite) \<Rightarrow> ops\<lparr>fo_written := sadd path (fo_written ops)\<rparr>
      | Some (path, OpEdit) \<Rightarrow> ops\<lparr>fo_edited := sadd path (fo_edited ops)\<rparr>
      | None \<Rightarrow>
          if name \<in> {js ''grep'', js ''glob'', js ''search''} then
            (let pattern = (case field_string args (js ''pattern'') of
                              Some p \<Rightarrow> Some p | None \<Rightarrow> field_string args (js ''query''))
             in ops\<lparr>fo_searches := add_preview (previewOpArg redact pattern) (fo_searches ops)\<rparr>)
          else if name \<in> {js ''bash'', js ''shell'', js ''exec''} then
            ops\<lparr>fo_shellCmds := add_preview (previewOpArg redact (pickBashCommand args)) (fo_shellCmds ops)\<rparr>
          else if take (length MCP_PREFIX) name = MCP_PREFIX then
            ops\<lparr>fo_mcpCalls := sadd (mcp_label name) (fo_mcpCalls ops)\<rparr>
          else ops)"

fun record_block :: "(jsstr \<Rightarrow> jsstr) \<Rightarrow> content_block \<Rightarrow> file_ops \<Rightarrow> file_ops" where
  "record_block redact (CallBlock name args) ops = record_call redact name (args_of args) ops"
| "record_block redact _ ops = ops"

definition extractFileOpsFromMessage :: "(jsstr \<Rightarrow> jsstr) \<Rightarrow> jsstr \<Rightarrow> content \<Rightarrow> file_ops \<Rightarrow> file_ops" where
  "extractFileOpsFromMessage redact role body ops =
     (if role \<noteq> js ''assistant'' then ops
      else case body of Blocks bs \<Rightarrow> fold (record_block redact) bs ops | _ \<Rightarrow> ops)"

section \<open>The lists of a summary\<close>

definition map_backslash :: "jsstr \<Rightarrow> jsstr" where
  "map_backslash = map (\<lambda>c. if c = 92 then 47 else c)"

definition stripCwdPrefix :: "jsstr \<Rightarrow> jsstr option \<Rightarrow> jsstr" where
  "stripCwdPrefix filePath cwd =
     (case cwd of
        None \<Rightarrow> filePath
      | Some [] \<Rightarrow> filePath
      | Some w \<Rightarrow>
          (let normalizedPath = map_backslash filePath;
               slashed = map_backslash w;
               normalizedCwd = (if last slashed = 47 then butlast slashed else slashed)
           in if take (Suc (length normalizedCwd)) normalizedPath = normalizedCwd @ [47]
              then drop (Suc (length normalizedCwd)) normalizedPath else filePath))"

definition MAX_OPS_PER_CATEGORY :: nat where "MAX_OPS_PER_CATEGORY = 30"

definition tailCap :: "'a list \<Rightarrow> 'a list" where
  "tailCap xs = (if length xs \<le> MAX_OPS_PER_CATEGORY then xs else drop (length xs - MAX_OPS_PER_CATEGORY) xs)"

definition computeFileLists :: "file_ops \<Rightarrow> jsstr option \<Rightarrow> jsstr list \<times> jsstr list" where
  "computeFileLists ops cwd =
     (let modified = sadd_all (fo_edited ops @ fo_written ops) [];
          readOnly = sort (tailCap (filter (\<lambda>f. f \<notin> set modified) (fo_read ops)));
          modifiedFiles = sort (tailCap modified)
      in case cwd of
           None \<Rightarrow> (readOnly, modifiedFiles)
         | Some [] \<Rightarrow> (readOnly, modifiedFiles)
         | Some w \<Rightarrow> (map (\<lambda>f. stripCwdPrefix f (Some w)) readOnly, map (\<lambda>f. stripCwdPrefix f (Some w)) modifiedFiles))"

record operation_lists =
  ol_readFiles :: "jsstr list"
  ol_modifiedFiles :: "jsstr list"
  ol_searches :: "jsstr list"
  ol_shellCmds :: "jsstr list"
  ol_mcpCalls :: "jsstr list"

definition computeOperationLists :: "file_ops \<Rightarrow> jsstr option \<Rightarrow> operation_lists" where
  "computeOperationLists ops cwd =
     (case computeFileLists ops cwd of
        (r, m) \<Rightarrow> \<lparr> ol_readFiles = r, ol_modifiedFiles = m,
                    ol_searches = sort (tailCap (fo_searches ops)),
                    ol_shellCmds = sort (tailCap (fo_shellCmds ops)),
                    ol_mcpCalls = sort (tailCap (fo_mcpCalls ops)) \<rparr>)"

definition tagged :: "jsstr \<Rightarrow> jsstr list \<Rightarrow> jsstr list" where
  "tagged tag ls =
     (if ls = [] then []
      else [js ''<'' @ tag @ js ''>'' @ newline @ join newline ls @ newline @ js ''</'' @ tag @ js ''>''])"

definition formatFileOperations :: "operation_lists \<Rightarrow> jsstr" where
  "formatFileOperations l =
     (let sections = tagged (js ''read-files'') (ol_readFiles l) @ tagged (js ''modified-files'') (ol_modifiedFiles l)
                   @ tagged (js ''searches'') (ol_searches l) @ tagged (js ''shell-commands'') (ol_shellCmds l)
                   @ tagged (js ''mcp-calls'') (ol_mcpCalls l)
      in if sections = [] then [] else newline @ newline @ join (newline @ newline) sections)"

section \<open>Prose that repeats the lists\<close>

text \<open>\<open>replace(/^[-*]\s*(?:\[[xX ]\]\s*)?/, "")\<close>\<close>

definition drop_bullet :: "jsstr \<Rightarrow> jsstr" where
  "drop_bullet t =
     (case t of
        [] \<Rightarrow> []
      | c # cs \<Rightarrow>
          (if c = 45 \<or> c = 42 then
             (let rest = dropWhile is_ws cs
              in case rest of
                   a # b # d # ds \<Rightarrow> if a = 91 \<and> (b = 120 \<or> b = 88 \<or> b = 32) \<and> d = 93 then dropWhile is_ws ds else rest
                 | _ \<Rightarrow> rest)
           else t))"

text \<open>The text of a string that is one back-quoted span.\<close>

definition backticked :: "jsstr \<Rightarrow> jsstr option" where
  "backticked t =
     (if 2 < length t \<and> hd t = 96 \<and> last t = 96 \<and> 96 \<notin> set (butlast (tl t)) then Some (butlast (tl t)) else None)"

definition ends_with :: "jsstr \<Rightarrow> jsstr \<Rightarrow> bool" where
  "ends_with t p \<longleftrightarrow> length p \<le> length t \<and> drop (length t - length p) t = p"

definition repeats_lists :: "operation_lists \<Rightarrow> jsstr \<Rightarrow> bool" where
  "repeats_lists l line =
     (let trimmed = trim line;
          bullet = trim (drop_bullet trimmed);
          candidates = [trimmed, bullet] @ the_list (map_option (\<lambda>b. [b]) (backticked trimmed))
                       @ the_list (map_option (\<lambda>b. [b]) (backticked bullet));
          paths = ol_readFiles l @ ol_modifiedFiles l
      in trimmed \<noteq> [] \<and>
         (list_ex (\<lambda>c. c \<in> set paths \<or> c \<in> set (ol_searches l) \<or> c \<in> set (ol_shellCmds l) \<or> c \<in> set (ol_mcpCalls l)) candidates
          \<or> list_ex (\<lambda>p. bullet = p \<or> ends_with bullet p \<and> length bullet \<le> length p + 24) paths))"

text \<open>\<open>replace(/\n{4,}/g, "\n\n\n")\<close>: at most three line feeds in a row.\<close>

fun cap_newlines :: "nat \<Rightarrow> jsstr \<Rightarrow> jsstr" where
  "cap_newlines n [] = []"
| "cap_newlines n (c # cs) =
     (if c = 10 then (if n < 3 then c # cap_newlines (Suc n) cs else cap_newlines n cs) else c # cap_newlines 0 cs)"

definition trimSummaryProseAgainstOperations :: "jsstr \<Rightarrow> operation_lists \<Rightarrow> jsstr" where
  "trimSummaryProseAgainstOperations summary l =
     (if trim summary = [] then summary
      else cap_newlines 0 (join newline (filter (\<lambda>line. \<not> repeats_lists l line) (split_lines summary))))"

definition estimateSummaryTrimSavedChars :: "jsstr \<Rightarrow> operation_lists \<Rightarrow> nat" where
  "estimateSummaryTrimSavedChars before l = length before - length (trimSummaryProseAgainstOperations before l)"

text \<open>\<open>Math.round(chars / 3.7)\<close>\<close>

definition estimateCharsAsTokens :: "nat \<Rightarrow> nat" where
  "estimateCharsAsTokens chars = (20 * chars + 37) div 74"

section \<open>What the lists say\<close>

lemma set_sadd [simp]: "set (sadd x xs) = insert x (set xs)"
  by (auto simp: sadd_def)

lemma distinct_sadd [simp]: "distinct xs \<Longrightarrow> distinct (sadd x xs)"
  by (simp add: sadd_def)

lemma set_sadd_all [simp]: "set (sadd_all ys xs) = set ys \<union> set xs"
  by (induction ys arbitrary: xs) (auto simp: sadd_all_def)

lemma distinct_sadd_all [simp]: "distinct xs \<Longrightarrow> distinct (sadd_all ys xs)"
  by (induction ys arbitrary: xs) (auto simp: sadd_all_def)

definition file_ops_ok :: "file_ops \<Rightarrow> bool" where
  "file_ops_ok ops \<longleftrightarrow> distinct (fo_read ops) \<and> distinct (fo_written ops) \<and> distinct (fo_edited ops)
     \<and> distinct (fo_searches ops) \<and> distinct (fo_shellCmds ops) \<and> distinct (fo_mcpCalls ops)"

lemma createFileOps_ok [simp]: "file_ops_ok createFileOps"
  by (simp add: file_ops_ok_def createFileOps_def)

lemma merge_ok [inv_intros]: "file_ops_ok ops \<Longrightarrow> file_ops_ok (mergeSummaryDetailsIntoFileOps d ops)"
  by (simp add: file_ops_ok_def mergeSummaryDetailsIntoFileOps_def)

lemma add_preview_distinct: "distinct xs \<Longrightarrow> distinct (add_preview p xs)"
  by (cases p) (simp_all add: add_preview_def)

lemma record_call_ok: "file_ops_ok ops \<Longrightarrow> file_ops_ok (record_call redact name args ops)"
proof (cases "extractToolFileOp name args")
  case None
  assume "file_ops_ok ops"
  then show ?thesis using None by (simp add: record_call_def file_ops_ok_def Let_def add_preview_distinct del: insert_iff)
next
  case (Some po)
  assume ok: "file_ops_ok ops"
  obtain p tool_op where "po = (p, tool_op)" by (cases po)
  then show ?thesis using Some ok by (cases tool_op) (simp_all add: record_call_def file_ops_ok_def)
qed

lemma record_block_ok: "file_ops_ok ops \<Longrightarrow> file_ops_ok (record_block redact b ops)"
  by (cases b) (simp_all add: record_call_ok)

lemma record_blocks_ok: "file_ops_ok ops \<Longrightarrow> file_ops_ok (fold (record_block redact) bs ops)"
  by (induction bs arbitrary: ops) (simp_all add: record_block_ok)

lemma extract_ok [inv_intros]: "file_ops_ok ops \<Longrightarrow> file_ops_ok (extractFileOpsFromMessage redact role body ops)"
  by (simp add: extractFileOpsFromMessage_def record_blocks_ok split: content.split)

text \<open>The accumulator after any mix of messages and earlier summaries.\<close>

datatype op_source = FromMessage jsstr content | FromDetails summary_details

fun observe :: "(jsstr \<Rightarrow> jsstr) \<Rightarrow> op_source \<Rightarrow> file_ops \<Rightarrow> file_ops" where
  "observe redact (FromMessage role body) ops = extractFileOpsFromMessage redact role body ops"
| "observe redact (FromDetails d) ops = mergeSummaryDetailsIntoFileOps d ops"

interpretation observing: event_machine "observe redact" file_ops_ok for redact
proof
  fix ops e
  assume "file_ops_ok ops"
  then show "file_ops_ok (observe redact e ops)" by (cases e) (auto intro: inv_intros)
qed

lemma set_tailCap: "set (tailCap xs) \<subseteq> set xs"
  by (simp add: tailCap_def set_drop_subset)

lemma length_tailCap [simp]: "length (tailCap xs) = min MAX_OPS_PER_CATEGORY (length xs)"
  by (simp add: tailCap_def)

lemma distinct_tailCap [simp]: "distinct xs \<Longrightarrow> distinct (tailCap xs)"
  by (simp add: tailCap_def)

lemma tailCap_id: "length xs \<le> MAX_OPS_PER_CATEGORY \<Longrightarrow> tailCap xs = xs"
  by (simp add: tailCap_def)

text \<open>What the sets of a window say, whatever the order the calls came in.\<close>

definition modified_files :: "file_ops \<Rightarrow> jsstr set" where
  "modified_files ops = set (fo_edited ops) \<union> set (fo_written ops)"

text \<open>A category shows its entries: sorted, without repetition, at most thirty, and all of them up to thirty.\<close>

definition shows_all :: "jsstr set \<Rightarrow> jsstr list \<Rightarrow> bool" where
  "shows_all entries shown \<longleftrightarrow> sorted shown \<and> distinct shown \<and> set shown \<subseteq> entries \<and>
     length shown = min MAX_OPS_PER_CATEGORY (card entries)"

lemma shows_capped: "distinct xs \<Longrightarrow> shows_all (set xs) (sort (tailCap xs))"
  using set_tailCap by (fastforce simp: shows_all_def distinct_card)

lemma operation_lists_of_sets:
  assumes "file_ops_ok ops"
  shows "shows_all (set (fo_read ops) - modified_files ops) (ol_readFiles (computeOperationLists ops None))"
    "shows_all (modified_files ops) (ol_modifiedFiles (computeOperationLists ops None))"
    "shows_all (set (fo_searches ops)) (ol_searches (computeOperationLists ops None))"
    "shows_all (set (fo_shellCmds ops)) (ol_shellCmds (computeOperationLists ops None))"
    "shows_all (set (fo_mcpCalls ops)) (ol_mcpCalls (computeOperationLists ops None))"
proof -
  have m: "set (sadd_all (fo_edited ops @ fo_written ops) []) = modified_files ops" by (simp add: modified_files_def)
  have r: "set (filter (\<lambda>f. f \<notin> modified_files ops) (fo_read ops)) = set (fo_read ops) - modified_files ops" by auto
  have d: "distinct (filter (\<lambda>f. f \<notin> modified_files ops) (fo_read ops))" using assms by (simp add: file_ops_ok_def)
  show "shows_all (set (fo_read ops) - modified_files ops) (ol_readFiles (computeOperationLists ops None))"
    using shows_capped [OF d] by (simp only: r) (simp add: computeOperationLists_def computeFileLists_def Let_def m [simplified])
  show "shows_all (modified_files ops) (ol_modifiedFiles (computeOperationLists ops None))"
    using shows_capped [of "sadd_all (fo_edited ops @ fo_written ops) []"]
    by (simp only: m) (simp add: computeOperationLists_def computeFileLists_def Let_def)
qed (use assms in \<open>simp_all add: computeOperationLists_def computeFileLists_def Let_def file_ops_ok_def shows_capped\<close>)

text \<open>What a summary lists.\<close>

theorem operation_lists_exact:
  "let ops = fold (observe redact) sources createFileOps; l = computeOperationLists ops None
   in shows_all (set (fo_read ops) - modified_files ops) (ol_readFiles l) \<and> shows_all (modified_files ops) (ol_modifiedFiles l) \<and>
      shows_all (set (fo_searches ops)) (ol_searches l) \<and> shows_all (set (fo_shellCmds ops)) (ol_shellCmds l) \<and>
      shows_all (set (fo_mcpCalls ops)) (ol_mcpCalls l)"
  unfolding Let_def using operation_lists_of_sets [OF observing.inv_run [OF createFileOps_ok]] by blast

text \<open>Prefixes are stripped after the lists are made disjoint: an earlier summary's relative path and a new
  absolute path of one file are two entries, and both survive.\<close>

definition twice_named :: file_ops where
  "twice_named = mergeSummaryDetailsIntoFileOps
     \<lparr> sd_readFiles = Some [js ''a.ts''], sd_modifiedFiles = None, sd_searches = None, sd_shellCmds = None,
       sd_mcpCalls = None, sd_fileDigests = None \<rparr>
     (record_call id (js ''write'') [(js ''path'', JStr (js ''/w/a.ts''))] createFileOps)"

lemma read_and_modified: "computeFileLists twice_named (Some (js ''/w'')) = ([js ''a.ts''], [js ''a.ts''])"
  by code_simp

end
