(* ===== verification/ContextBudget.thy ===== *)
theory ContextBudget
  imports FileOps SessionTree
begin

text \<open>
  When a session is compacted and how much of it is kept (core/compaction/compaction.ts, first half): the size
  of the context anchored on the last usage a provider reported, the wire estimate that also teaches the
  calibration, the reserve, the retention budgets, and the soft and hard triggers. Window sizes checked with
  \<open>Number.isFinite\<close> are \<open>jsnum\<close>; percentages of a window are integer divisions, equal to the double products
  on every integer below 2 to the 40.
\<close>


section \<open>Messages as the estimates read them\<close>

record token_usage =
  tu_input :: int
  tu_output :: int
  tu_cacheRead :: int
  tu_cacheWrite :: int
  tu_totalTokens :: int

text \<open>How the values the session only carries around are read: a message's content, the usage and stop reason
  of an assistant message, the lists in the details of a summary.\<close>

record 'x payload_view =
  pv_content :: "'x \<Rightarrow> content"
  pv_usage :: "'x \<Rightarrow> token_usage option"
  pv_stopReason :: "'x \<Rightarrow> jsstr"
  pv_details :: "'x \<Rightarrow> summary_details"

definition message_role :: "'x ctx_message \<Rightarrow> jsstr" where
  "message_role m =
     (case m of CMessage a \<Rightarrow> am_role a | CCustom c ts \<Rightarrow> js ''custom'' | CBranchSummary s f ts \<Rightarrow> js ''branchSummary''
      | CCompactionSummary s n ts \<Rightarrow> js ''compactionSummary'')"

definition message_content :: "'x payload_view \<Rightarrow> 'x ctx_message \<Rightarrow> content" where
  "message_content v m =
     (case m of CMessage a \<Rightarrow> pv_content v (am_body a) | CCustom c ts \<Rightarrow> pv_content v (cu_content c)
      | CBranchSummary s f ts \<Rightarrow> SummaryText s | CCompactionSummary s n ts \<Rightarrow> SummaryText s)"

definition message_tokens :: "'x payload_view \<Rightarrow> 'x ctx_message \<Rightarrow> int" where
  "message_tokens v m = int (estimateTokens (message_role m) (message_content v m))"

definition calculateContextTokens :: "token_usage \<Rightarrow> int" where
  "calculateContextTokens u =
     (if tu_totalTokens u \<noteq> 0 then tu_totalTokens u
      else tu_input u + tu_output u + tu_cacheRead u + tu_cacheWrite u)"

definition getAssistantUsage :: "'x payload_view \<Rightarrow> 'x ctx_message \<Rightarrow> token_usage option" where
  "getAssistantUsage v m =
     (case m of
        CMessage a \<Rightarrow>
          if am_role a = js ''assistant'' \<and> pv_stopReason v (am_body a) \<noteq> js ''aborted''
             \<and> pv_stopReason v (am_body a) \<noteq> js ''error''
          then pv_usage v (am_body a) else None
      | _ \<Rightarrow> None)"

definition getLastAssistantUsage :: "'x payload_view \<Rightarrow> 'x session_entry list \<Rightarrow> token_usage option" where
  "getLastAssistantUsage v es =
     (case List.map_filter (\<lambda>e. case se_body e of BMessage m \<Rightarrow> getAssistantUsage v (CMessage m) | _ \<Rightarrow> None) (rev es) of
        [] \<Rightarrow> None | u # us \<Rightarrow> Some u)"

text \<open>The backwards loop: the last message with usage, with its index.\<close>

fun usage_info_below :: "'x payload_view \<Rightarrow> 'x ctx_message list \<Rightarrow> nat \<Rightarrow> (token_usage \<times> nat) option" where
  "usage_info_below v ms 0 = None"
| "usage_info_below v ms (Suc i) =
     (case getAssistantUsage v (ms ! i) of Some u \<Rightarrow> Some (u, i) | None \<Rightarrow> usage_info_below v ms i)"

definition getLastAssistantUsageInfo :: "'x payload_view \<Rightarrow> 'x ctx_message list \<Rightarrow> (token_usage \<times> nat) option" where
  "getLastAssistantUsageInfo v ms = usage_info_below v ms (length ms)"

record context_usage =
  ce_tokens :: int
  ce_usageTokens :: int
  ce_trailingTokens :: int
  ce_lastUsageIndex :: "nat option"

definition message_model :: "'x ctx_message \<Rightarrow> jsstr" where
  "message_model m = (case m of CMessage a \<Rightarrow> am_model a | _ \<Rightarrow> [])"

definition estimateContextTokens :: "'x payload_view \<Rightarrow> calibration \<Rightarrow> 'x ctx_message list \<Rightarrow> context_usage" where
  "estimateContextTokens v cal ms =
     (case getLastAssistantUsageInfo v ms of
        None \<Rightarrow>
          (let estimated = calibrated None cal (sum_list (map (message_tokens v) ms))
           in \<lparr> ce_tokens = estimated, ce_usageTokens = 0, ce_trailingTokens = estimated, ce_lastUsageIndex = None \<rparr>)
      | Some (u, i) \<Rightarrow>
          (let usageTokens = calculateContextTokens u;
               trailing = calibrated (Some (message_model (ms ! i))) cal (sum_list (map (message_tokens v) (drop (Suc i) ms)))
           in \<lparr> ce_tokens = usageTokens + trailing, ce_usageTokens = usageTokens, ce_trailingTokens = trailing,
                ce_lastUsageIndex = Some i \<rparr>))"

section \<open>The wire estimate\<close>

record tool_surface =
  ts_name :: jsstr
  ts_description :: jsstr
  ts_parameters :: jdata

record 'x wire_input =
  wi_systemPromptChars :: nat
  wi_systemPromptText :: "jsstr option"
  wi_tools :: "tool_surface list"
  wi_modelId :: "jsstr option"
  wi_structuralOnly :: bool
  wi_pendingMessages :: "'x ctx_message list"

record wire_usage = context_usage +
  wu_messageTokens :: int
  wu_systemTokens :: int
  wu_toolTokens :: int
  wu_pendingTokens :: int

definition estimateToolSurfaceTokens :: "tool_surface list \<Rightarrow> nat" where
  "estimateToolSurfaceTokens tools =
     dense_tokens (sum_list (map (\<lambda>t. length (ts_name t) + length (ts_description t) + json_length (ts_parameters t)) tools))"

definition system_tokens :: "'x wire_input \<Rightarrow> nat" where
  "system_tokens inp =
     (case wi_systemPromptText inp of Some t \<Rightarrow> estimateStringTokens t False | None \<Rightarrow> prose_tokens (wi_systemPromptChars inp))"

definition wire_messages :: "'x payload_view \<Rightarrow> calibration \<Rightarrow> 'x ctx_message list \<Rightarrow> 'x wire_input \<Rightarrow> context_usage" where
  "wire_messages v cal ms inp =
     (if wi_structuralOnly inp then
        (let tokens = calibrated (wi_modelId inp) cal (sum_list (map (message_tokens v) ms))
         in \<lparr> ce_tokens = tokens, ce_usageTokens = 0, ce_trailingTokens = tokens, ce_lastUsageIndex = None \<rparr>)
      else estimateContextTokens v cal ms)"

text \<open>\<open>recorded\<close>: the anchoring message object has already taught the calibration.\<close>

definition estimateWireTokens :: "'x payload_view \<Rightarrow> 'x ctx_message list \<Rightarrow> 'x wire_input \<Rightarrow> bool \<Rightarrow> calibration
    \<Rightarrow> wire_usage \<times> calibration" where
  "estimateWireTokens v ms inp recorded cal =
     (let me = wire_messages v cal ms inp;
          anchorModel = map_option (\<lambda>i. message_model (ms ! i)) (ce_lastUsageIndex me);
          factor_model = (if wi_structuralOnly inp then wi_modelId inp else anchorModel);
          pending = calibrated factor_model cal (sum_list (map (message_tokens v) (wi_pendingMessages inp)));
          systemTokens = int (system_tokens inp);
          toolTokens = int (estimateToolSurfaceTokens (wi_tools inp));
          cal' = (case (ce_lastUsageIndex me, anchorModel) of
                    (Some i, Some model) \<Rightarrow>
                      if model = [] \<or> recorded then cal
                      else recordTokenEstimateSample model
                             (Finite (systemTokens + toolTokens + sum_list (map (message_tokens v) (take (Suc i) ms))))
                             (Finite (ce_usageTokens me)) cal
                  | _ \<Rightarrow> cal);
          tokens = ce_tokens me + pending
                 + (if ce_lastUsageIndex me \<noteq> None then 0 else calibrated factor_model cal (systemTokens + toolTokens))
      in (\<lparr> ce_tokens = tokens, ce_usageTokens = ce_usageTokens me, ce_trailingTokens = ce_trailingTokens me,
            ce_lastUsageIndex = ce_lastUsageIndex me, wu_messageTokens = ce_tokens me, wu_systemTokens = systemTokens,
            wu_toolTokens = toolTokens, wu_pendingTokens = pending \<rparr>, cal'))"

section \<open>Reserve and retention\<close>

record compaction_settings =
  cs_enabled :: bool
  cs_reserveTokens :: int
  cs_keepRecentTokens :: int
  cs_selfCorrection :: "bool option"

definition DEFAULT_COMPACTION_SETTINGS :: compaction_settings where
  "DEFAULT_COMPACTION_SETTINGS =
     \<lparr> cs_enabled = True, cs_reserveTokens = 16384, cs_keepRecentTokens = 20000, cs_selfCorrection = Some True \<rparr>"

definition computeDynamicReserve :: "jsnum \<Rightarrow> int \<Rightarrow> int" where
  "computeDynamicReserve contextWindow configuredReserve =
     (case contextWindow of
        Finite w \<Rightarrow>
          (if w \<le> 0 then 0
           else let rawReserve = (if w > 200000 then max (max configuredReserve 20000) ((w + 39) div 40)
                                  else max configuredReserve (w div 10));
                    maxUsableReserve = max 1 (w div 2)
                in min rawReserve maxUsableReserve)
      | _ \<Rightarrow> 0)"

record thinking_budgets =
  tb_minimal :: "int option"
  tb_low :: "int option"
  tb_medium :: "int option"
  tb_high :: "int option"

text \<open>\<open>reasoning\<close> is false when there is no model. A level without a budget of its own gets the medium one.\<close>

definition resolveThinkingHeadroom :: "bool \<Rightarrow> jsstr option \<Rightarrow> thinking_budgets option \<Rightarrow> int" where
  "resolveThinkingHeadroom reasoning level custom =
     (let pick = (\<lambda>sel d. case custom of None \<Rightarrow> d | Some b \<Rightarrow> (case sel b of Some n \<Rightarrow> n | None \<Rightarrow> d))
      in if \<not> reasoning then 0
         else case level of
                None \<Rightarrow> 0
              | Some l \<Rightarrow>
                  if l = [] \<or> l = js ''off'' then 0
                  else if l = js ''xhigh'' \<or> l = js ''max'' \<or> l = js ''ultra'' \<or> l = js ''high'' then pick tb_high 16384
                  else if l = js ''minimal'' then pick tb_minimal 1024
                  else if l = js ''low'' then pick tb_low 2048
                  else pick tb_medium 8192)"

text \<open>The optional window of the retention budgets is \<open>None\<close> when absent.\<close>

definition effectiveKeepRecentTokens :: "int \<Rightarrow> int option \<Rightarrow> int" where
  "effectiveKeepRecentTokens configured contextWindow =
     (case contextWindow of
        None \<Rightarrow> configured
      | Some w \<Rightarrow> if w \<le> 200000 then configured else max configured (w div 10))"

definition COMPACTION_SUMMARY_TOKEN_BUDGET_FLOOR :: int where "COMPACTION_SUMMARY_TOKEN_BUDGET_FLOOR = 8000"
definition ADAPTIVE_KEEP_MIN_FLOOR :: int where "ADAPTIVE_KEEP_MIN_FLOOR = 8000"

definition manualKeepRecentTokens :: "int \<Rightarrow> int option \<Rightarrow> int option \<Rightarrow> int" where
  "manualKeepRecentTokens configured contextWindow liveTokens =
     (let windowScaled = effectiveKeepRecentTokens configured contextWindow
      in case liveTokens of
           None \<Rightarrow> windowScaled
         | Some live \<Rightarrow> if live \<le> 0 then windowScaled
                        else min windowScaled (max ADAPTIVE_KEEP_MIN_FLOOR (live div 4)))"

definition ceil_div :: "int \<Rightarrow> int \<Rightarrow> int" where
  "ceil_div a b = - ((- a) div b)"

definition compactionSummaryTokenBudget :: "compaction_settings \<Rightarrow> int option \<Rightarrow> int" where
  "compactionSummaryTokenBudget s frameTokensEstimate =
     (let summaryCeiling = max COMPACTION_SUMMARY_TOKEN_BUDGET_FLOOR (ceil_div (4 * cs_reserveTokens s) 5);
          frame = (case frameTokensEstimate of Some n \<Rightarrow> max 0 n | None \<Rightarrow> 0)
      in summaryCeiling + frame)"

definition list_chars :: "jsstr list option \<Rightarrow> nat" where
  "list_chars l = sum_list (map (\<lambda>item. length item + 1) (the_list l))"

text \<open>\<open>None\<close> for details that are not an object.\<close>

definition estimateCompactionFrameTokens :: "summary_details option \<Rightarrow> nat option" where
  "estimateCompactionFrameTokens details =
     (case details of
        None \<Rightarrow> None
      | Some d \<Rightarrow>
          (let chars = list_chars (sd_readFiles d) + list_chars (sd_modifiedFiles d) + list_chars (sd_searches d)
                     + list_chars (sd_shellCmds d) + list_chars (sd_mcpCalls d)
                     + sum_list (map (\<lambda>(path, digest). length path + length digest + 8) (the_list (sd_fileDigests d)))
           in if chars = 0 then None else Some (dense_tokens chars)))"

definition compaction_target :: "int \<Rightarrow> compaction_settings \<Rightarrow> int" where
  "compaction_target w s =
     (let hardThreshold = w - computeDynamicReserve (Finite w) (cs_reserveTokens s);
          softThreshold = hardThreshold - effectiveKeepRecentTokens (cs_keepRecentTokens s) (Some w)
      in if softThreshold > 0 then softThreshold else hardThreshold)"

definition adaptiveKeepRecentTokens :: "jsnum \<Rightarrow> compaction_settings \<Rightarrow> int option \<Rightarrow> int option" where
  "adaptiveKeepRecentTokens contextWindow s frameTokensEstimate =
     (case contextWindow of
        Finite w \<Rightarrow>
          (if w \<le> 0 then None
           else let effectiveKeep = effectiveKeepRecentTokens (cs_keepRecentTokens s) (Some w);
                    keepMax = compaction_target w s - compactionSummaryTokenBudget s frameTokensEstimate
                in if keepMax \<ge> effectiveKeep then None
                   else let floor1 = max ADAPTIVE_KEEP_MIN_FLOOR (cs_keepRecentTokens s div 2);
                            adapted = min effectiveKeep (max floor1 keepMax)
                        in if adapted < effectiveKeep then Some adapted else None)
      | _ \<Rightarrow> None)"

definition PROACTIVE_PRUNE_MIN_FLOOR :: int where "PROACTIVE_PRUNE_MIN_FLOOR = 64000"

definition proactivePruneFloor :: "jsnum \<Rightarrow> jsnum option \<Rightarrow> int" where
  "proactivePruneFloor contextWindow override =
     (let scaled = (case contextWindow of Finite w \<Rightarrow> if w > 0 then w div 4 else 0 | _ \<Rightarrow> 0);
          floor1 = max PROACTIVE_PRUNE_MIN_FLOOR scaled
      in case override of Some (Finite n) \<Rightarrow> if n > 0 then n else floor1 | _ \<Rightarrow> floor1)"

section \<open>The triggers\<close>

definition COALESCING_THRESHOLD_TOKENS :: int where "COALESCING_THRESHOLD_TOKENS = 8192"

definition shouldCompact :: "int \<Rightarrow> jsnum \<Rightarrow> compaction_settings \<Rightarrow> int \<Rightarrow> bool" where
  "shouldCompact contextTokens contextWindow s lastCompactionDeficit =
     (if \<not> cs_enabled s then False
      else case contextWindow of
             Finite w \<Rightarrow>
               (if w \<le> 0 then False
                else let threshold = w - computeDynamicReserve contextWindow (cs_reserveTokens s)
                     in if contextTokens \<le> threshold then False
                        else let deficit = contextTokens - threshold
                             in lastCompactionDeficit = 0 \<or> deficit > lastCompactionDeficit + COALESCING_THRESHOLD_TOKENS)
           | _ \<Rightarrow> False)"

definition shouldCompactSoft :: "int \<Rightarrow> jsnum \<Rightarrow> compaction_settings \<Rightarrow> bool" where
  "shouldCompactSoft contextTokens contextWindow s =
     (if \<not> cs_enabled s then False
      else case contextWindow of
             Finite w \<Rightarrow>
               (if w \<le> 0 then False
                else let hardThreshold = w - computeDynamicReserve contextWindow (cs_reserveTokens s)
                     in if contextTokens > hardThreshold then False
                        else let softThreshold = hardThreshold - effectiveKeepRecentTokens (cs_keepRecentTokens s) (Some w)
                             in softThreshold > 0 \<and> contextTokens > softThreshold)
           | _ \<Rightarrow> False)"

section \<open>What the budgets guarantee\<close>

lemma reserve_bounds:
  assumes "0 < w" "0 \<le> configured"
  shows "0 \<le> computeDynamicReserve (Finite w) configured" "computeDynamicReserve (Finite w) configured \<le> max 1 (w div 2)"
    "w > 200000 \<Longrightarrow> 20000 \<le> computeDynamicReserve (Finite w) configured"
  using assms by (auto simp: computeDynamicReserve_def Let_def)

lemma triggers_exclusive: "\<not> (shouldCompact n w s d \<and> shouldCompactSoft n w s)"
  by (cases w) (auto simp: shouldCompact_def shouldCompactSoft_def Let_def split: if_splits)

text \<open>A context no larger than the target sets off neither trigger.\<close>

lemma under_target_quiet:
  assumes "n \<le> compaction_target w s" "0 \<le> cs_keepRecentTokens s"
  shows "\<not> shouldCompact n (Finite w) s d" "\<not> shouldCompactSoft n (Finite w) s"
proof -
  have keep: "0 \<le> effectiveKeepRecentTokens (cs_keepRecentTokens s) (Some w)"
    using assms(2) by (simp add: effectiveKeepRecentTokens_def le_max_iff_disj)
  show "\<not> shouldCompact n (Finite w) s d"
    using assms(1) keep by (auto simp: shouldCompact_def compaction_target_def Let_def split: if_splits)
  show "\<not> shouldCompactSoft n (Finite w) s"
    using assms(1) keep by (auto simp: shouldCompactSoft_def compaction_target_def Let_def split: if_splits)
qed

text \<open>The retention a compaction uses: the adapted one when there is one.\<close>

definition pass_keep :: "int \<Rightarrow> compaction_settings \<Rightarrow> int option \<Rightarrow> int" where
  "pass_keep w s frame =
     (case adaptiveKeepRecentTokens (Finite w) s frame of
        Some k \<Rightarrow> k | None \<Rightarrow> effectiveKeepRecentTokens (cs_keepRecentTokens s) (Some w))"

definition keep_floor :: "compaction_settings \<Rightarrow> int" where
  "keep_floor s = max ADAPTIVE_KEEP_MIN_FLOOR (cs_keepRecentTokens s div 2)"

lemma pass_keep_cases:
  assumes "0 < w"
  shows "pass_keep w s frame \<le> effectiveKeepRecentTokens (cs_keepRecentTokens s) (Some w)"
    "pass_keep w s frame + compactionSummaryTokenBudget s frame \<le> compaction_target w s \<or> pass_keep w s frame \<le> keep_floor s"
    "min (keep_floor s) (effectiveKeepRecentTokens (cs_keepRecentTokens s) (Some w)) \<le> pass_keep w s frame"
proof -
  define e where "e = effectiveKeepRecentTokens (cs_keepRecentTokens s) (Some w)"
  define k where "k = compaction_target w s - compactionSummaryTokenBudget s frame"
  have ad: "adaptiveKeepRecentTokens (Finite w) s frame =
      (if e \<le> k then None else if min e (max (keep_floor s) k) < e then Some (min e (max (keep_floor s) k)) else None)"
    using assms unfolding adaptiveKeepRecentTokens_def keep_floor_def e_def k_def Let_def by simp
  have pk: "pass_keep w s frame = (if e \<le> k then e else min e (max (keep_floor s) k))"
    unfolding pass_keep_def ad e_def [symmetric] by simp
  show "pass_keep w s frame \<le> effectiveKeepRecentTokens (cs_keepRecentTokens s) (Some w)"
    "min (keep_floor s) (effectiveKeepRecentTokens (cs_keepRecentTokens s) (Some w)) \<le> pass_keep w s frame"
    unfolding pk e_def [symmetric] by auto
  have "pass_keep w s frame \<le> k \<or> pass_keep w s frame \<le> keep_floor s"
    unfolding pk by auto
  then show "pass_keep w s frame + compactionSummaryTokenBudget s frame \<le> compaction_target w s \<or> pass_keep w s frame \<le> keep_floor s"
    unfolding k_def by auto
qed

lemma usage_info_below_Some:
  "usage_info_below v ms n = Some (u, i) \<Longrightarrow> i < n \<and> getAssistantUsage v (ms ! i) = Some u
     \<and> (\<forall>j. i < j \<and> j < n \<longrightarrow> getAssistantUsage v (ms ! j) = None)"
  by (induction n) (auto split: option.splits simp: less_Suc_eq)

lemma usage_info_below_None: "usage_info_below v ms n = None \<longleftrightarrow> (\<forall>j < n. getAssistantUsage v (ms ! j) = None)"
  by (induction n) (auto split: option.splits simp: less_Suc_eq)

end
