(* ===== verification/Compaction.thy ===== *)
theory Compaction
  imports ContextBudget SessionHistory
begin

text \<open>
  Where a session is cut and what a compaction is given (core/compaction/compaction.ts, second half): the valid
  cut points, the walk back over the retention budget, the turn a cut splits, and the preparation with its
  messages to summarise. The callers pass \<open>endIndex = entries.length\<close>; no entry past the list is read then.
  The last section composes it with the session's context: what the model saw before a compaction is what was
  summarised followed by what it still sees.
\<close>


section \<open>Cut points\<close>

definition CUT_ROLES :: "jsstr list" where
  "CUT_ROLES = [js ''bashExecution'', js ''custom'', js ''branchSummary'', js ''compactionSummary'', js ''user'', js ''assistant'']"

definition is_cut_point :: "'x session_entry \<Rightarrow> bool" where
  "is_cut_point e =
     (case se_body e of
        BMessage m \<Rightarrow> am_role m \<in> set CUT_ROLES
      | BBranchSummary b \<Rightarrow> True
      | BCustomMessage c \<Rightarrow> True
      | _ \<Rightarrow> False)"

definition findValidCutPoints :: "'x session_entry list \<Rightarrow> nat \<Rightarrow> nat \<Rightarrow> nat list" where
  "findValidCutPoints es startIndex endIndex = filter (\<lambda>i. is_cut_point (es ! i)) [startIndex..<endIndex]"

definition is_message :: "'x session_entry \<Rightarrow> bool" where
  "is_message e = (case se_body e of BMessage m \<Rightarrow> True | _ \<Rightarrow> False)"

definition starts_turn :: "'x session_entry \<Rightarrow> bool" where
  "starts_turn e =
     (case se_body e of
        BMessage m \<Rightarrow> am_role m = js ''user'' \<or> am_role m = js ''bashExecution''
      | BBranchSummary b \<Rightarrow> True
      | BCustomMessage c \<Rightarrow> True
      | _ \<Rightarrow> False)"

text \<open>The loop from \<open>entryIndex\<close> down to \<open>startIndex\<close>, on the number of entries left; \<open>None\<close> is -1.\<close>

fun turn_start_below :: "'x session_entry list \<Rightarrow> nat \<Rightarrow> nat \<Rightarrow> nat option" where
  "turn_start_below es startIndex 0 = None"
| "turn_start_below es startIndex (Suc i) =
     (if i < startIndex then None
      else if starts_turn (es ! i) then Some i else turn_start_below es startIndex i)"

definition findTurnStartIndex :: "'x session_entry list \<Rightarrow> nat \<Rightarrow> nat \<Rightarrow> nat option" where
  "findTurnStartIndex es entryIndex startIndex = turn_start_below es startIndex (Suc entryIndex)"

definition entry_tokens :: "'x payload_view \<Rightarrow> 'x session_entry \<Rightarrow> int" where
  "entry_tokens v e = (case se_body e of BMessage m \<Rightarrow> message_tokens v (CMessage m) | _ \<Rightarrow> 0)"

text \<open>The entry at which the accumulated size reaches the budget.\<close>

fun budget_point :: "'x payload_view \<Rightarrow> 'x session_entry list \<Rightarrow> nat \<Rightarrow> int \<Rightarrow> int \<Rightarrow> nat \<Rightarrow> nat option" where
  "budget_point v es startIndex keep acc 0 = None"
| "budget_point v es startIndex keep acc (Suc i) =
     (if i < startIndex then None
      else if \<not> is_message (es ! i) then budget_point v es startIndex keep acc i
      else let acc' = acc + entry_tokens v (es ! i)
           in if acc' \<ge> keep then Some i else budget_point v es startIndex keep acc' i)"

text \<open>The scan back over settings and other entries that are no messages.\<close>

fun pull_back :: "'x session_entry list \<Rightarrow> nat \<Rightarrow> nat \<Rightarrow> nat" where
  "pull_back es startIndex 0 = 0"
| "pull_back es startIndex (Suc c) =
     (if Suc c \<le> startIndex then Suc c
      else if is_compaction (es ! c) \<or> is_message (es ! c) then Suc c
      else pull_back es startIndex c)"

record cut_point =
  cut_firstKept :: nat
  cut_turnStart :: "nat option"
  cut_isSplit :: bool

definition chosen_cut :: "nat list \<Rightarrow> nat option \<Rightarrow> nat" where
  "chosen_cut cutPoints budget =
     (case budget of
        None \<Rightarrow> hd cutPoints
      | Some i \<Rightarrow> (case find (\<lambda>c. c \<ge> i) cutPoints of Some c \<Rightarrow> c | None \<Rightarrow> hd cutPoints))"

definition is_user_entry :: "'x session_entry \<Rightarrow> bool" where
  "is_user_entry e = (case se_body e of BMessage m \<Rightarrow> am_role m = js ''user'' | _ \<Rightarrow> False)"

definition findCutPoint :: "'x payload_view \<Rightarrow> 'x session_entry list \<Rightarrow> nat \<Rightarrow> nat \<Rightarrow> int \<Rightarrow> cut_point" where
  "findCutPoint v es startIndex endIndex keepRecentTokens =
     (let cutPoints = findValidCutPoints es startIndex endIndex
      in if cutPoints = [] then \<lparr> cut_firstKept = startIndex, cut_turnStart = None, cut_isSplit = False \<rparr>
         else let cutIndex = pull_back es startIndex
                    (chosen_cut cutPoints (budget_point v es startIndex keepRecentTokens 0 endIndex));
                  isUserMessage = is_user_entry (es ! cutIndex);
                  turnStart = (if isUserMessage then None else findTurnStartIndex es cutIndex startIndex)
              in \<lparr> cut_firstKept = cutIndex, cut_turnStart = turnStart,
                   cut_isSplit = (\<not> isUserMessage \<and> turnStart \<noteq> None) \<rparr>)"

section \<open>The preparation\<close>

definition getMessageFromEntry :: "bool \<Rightarrow> bool \<Rightarrow> 'x session_entry \<Rightarrow> 'x ctx_message option" where
  "getMessageFromEntry skipToolResults skipCompaction e =
     (case se_body e of
        BMessage m \<Rightarrow> if skipToolResults \<and> am_role m = js ''toolResult'' then None else Some (CMessage m)
      | BCustomMessage c \<Rightarrow> Some (CCustom c (se_timestamp e))
      | BBranchSummary b \<Rightarrow> Some (CBranchSummary (br_summary b) (br_fromId b) (se_timestamp e))
      | BCompaction c \<Rightarrow> if skipCompaction then None
                         else Some (CCompactionSummary (cp_summary c) (cp_tokensBefore c) (se_timestamp e))
      | _ \<Rightarrow> None)"

definition compaction_messages :: "'x session_entry list \<Rightarrow> 'x ctx_message list" where
  "compaction_messages es = List.map_filter (getMessageFromEntry False True) es"

definition ops_of_message :: "'x payload_view \<Rightarrow> (jsstr \<Rightarrow> jsstr) \<Rightarrow> 'x ctx_message \<Rightarrow> file_ops \<Rightarrow> file_ops" where
  "ops_of_message v redact m = extractFileOpsFromMessage redact (message_role m) (message_content v m)"

definition previous_ops :: "'x payload_view \<Rightarrow> 'x session_entry option \<Rightarrow> file_ops" where
  "previous_ops v prev =
     (case prev of
        None \<Rightarrow> createFileOps
      | Some e \<Rightarrow> (case se_body e of
                     BCompaction c \<Rightarrow>
                       (case cp_details c of
                          Some d \<Rightarrow> if cp_fromHook c = Some True then createFileOps
                                    else mergeSummaryDetailsIntoFileOps (pv_details v d) createFileOps
                        | None \<Rightarrow> createFileOps)
                   | _ \<Rightarrow> createFileOps))"

definition extractFileOperations :: "'x payload_view \<Rightarrow> (jsstr \<Rightarrow> jsstr) \<Rightarrow> 'x ctx_message list
    \<Rightarrow> 'x session_entry option \<Rightarrow> file_ops" where
  "extractFileOperations v redact ms prev = fold (ops_of_message v redact) ms (previous_ops v prev)"

text \<open>The backwards search for the last compaction, on the number of entries left.\<close>

fun last_compaction_below :: "'x session_entry list \<Rightarrow> nat \<Rightarrow> nat option" where
  "last_compaction_below es 0 = None"
| "last_compaction_below es (Suc i) = (if is_compaction (es ! i) then Some i else last_compaction_below es i)"

definition boundary_start :: "'x session_entry list \<Rightarrow> nat" where
  "boundary_start es =
     (case last_compaction_below es (length es) of
        None \<Rightarrow> 0
      | Some i \<Rightarrow> (case find_index_of (\<lambda>e. Some (se_id e) = first_kept (es ! i)) es of Some j \<Rightarrow> j | None \<Rightarrow> Suc i))"

definition compaction_summary :: "'x session_entry \<Rightarrow> jsstr option" where
  "compaction_summary e = (case se_body e of BCompaction c \<Rightarrow> Some (cp_summary c) | _ \<Rightarrow> None)"

text \<open>\<open>None\<close> when the walk over the entries' parents does not end.\<close>

definition tokens_before :: "'x payload_view \<Rightarrow> calibration \<Rightarrow> 'x session_entry list \<Rightarrow> int option \<Rightarrow> int option" where
  "tokens_before v cal es known =
     (case known of
        Some n \<Rightarrow> Some n
      | None \<Rightarrow> map_option (\<lambda>ctx. ce_tokens (estimateContextTokens v cal (cx_messages ctx))) (buildSessionContext es None None))"

record 'x compaction_preparation =
  pc_firstKeptEntryId :: jsstr
  pc_messagesToSummarize :: "'x ctx_message list"
  pc_turnPrefixMessages :: "'x ctx_message list"
  pc_isSplitTurn :: bool
  pc_tokensBefore :: int
  pc_previousSummary :: "jsstr option"
  pc_fileOps :: file_ops
  pc_settings :: compaction_settings

text \<open>The cut and the entries it takes: the first kept entry, the history and the prefix of a split turn.\<close>

definition cut_of_path :: "'x payload_view \<Rightarrow> 'x session_entry list \<Rightarrow> compaction_settings \<Rightarrow> int option \<Rightarrow> int option
    \<Rightarrow> cut_point" where
  "cut_of_path v es s contextWindow keepOverride =
     (let keep = (case keepOverride of Some k \<Rightarrow> k | None \<Rightarrow> effectiveKeepRecentTokens (cs_keepRecentTokens s) contextWindow)
      in findCutPoint v es (boundary_start es) (length es) keep)"

definition history_end :: "cut_point \<Rightarrow> nat" where
  "history_end c = (if cut_isSplit c then the (cut_turnStart c) else cut_firstKept c)"

text \<open>The outer option is \<open>None\<close> only when the estimate of \<open>tokensBefore\<close> does not return; the inner one is the
  function's result.\<close>

definition prepareCompaction :: "'x payload_view \<Rightarrow> (jsstr \<Rightarrow> jsstr) \<Rightarrow> calibration \<Rightarrow> 'x session_entry list
    \<Rightarrow> compaction_settings \<Rightarrow> int option \<Rightarrow> bool \<Rightarrow> int option \<Rightarrow> int option
    \<Rightarrow> 'x compaction_preparation option option" where
  "prepareCompaction v redact cal es s contextWindow allowLatestCompaction knownContextTokens keepOverride =
     (if \<not> allowLatestCompaction \<and> es \<noteq> [] \<and> is_compaction (last es) then Some None
      else case tokens_before v cal es knownContextTokens of
             None \<Rightarrow> None
           | Some tokensBefore \<Rightarrow>
               (let prev = map_option (\<lambda>i. es ! i) (last_compaction_below es (length es));
                    start = boundary_start es;
                    cut = cut_of_path v es s contextWindow keepOverride;
                    first = cut_firstKept cut
                in if length es \<le> first \<or> se_id (es ! first) = [] then Some None
                   else let toSummarize = compaction_messages (js_slice es start (history_end cut));
                            turnPrefix = (if cut_isSplit cut
                                          then compaction_messages (js_slice es (the (cut_turnStart cut)) first) else []);
                            ops = extractFileOperations v redact toSummarize prev;
                            ops' = (if cut_isSplit cut then fold (ops_of_message v redact) turnPrefix ops else ops)
                        in Some (Some \<lparr> pc_firstKeptEntryId = se_id (es ! first),
                                        pc_messagesToSummarize = toSummarize,
                                        pc_turnPrefixMessages = turnPrefix,
                                        pc_isSplitTurn = cut_isSplit cut,
                                        pc_tokensBefore = tokensBefore,
                                        pc_previousSummary = Option.bind prev compaction_summary,
                                        pc_fileOps = ops',
                                        pc_settings = s \<rparr>)))"

section \<open>Where the cut falls\<close>

lemma turn_start_below_Some: "turn_start_below es a n = Some i \<Longrightarrow> a \<le> i \<and> i < n \<and> starts_turn (es ! i)"
  by (induction n) (auto split: if_splits)

lemma pull_back_le: "pull_back es a c \<le> c"
proof (induction c)
  case (Suc c)
  then show ?case using le_SucI [OF Suc] by simp
qed simp

lemma pull_back_ge: "a \<le> c \<Longrightarrow> a \<le> pull_back es a c"
  by (induction c) (auto simp: le_Suc_eq)

lemma pulled_back_no_message: "pull_back es a c \<le> j \<Longrightarrow> j < c \<Longrightarrow> \<not> is_message (es ! j) \<and> \<not> is_compaction (es ! j)"
proof (induction c)
  case (Suc c)
  then show ?case by (cases "j = c") (auto split: if_splits)
qed simp

lemma entry_tokens_nonneg [simp]: "0 \<le> entry_tokens v e"
  by (simp add: entry_tokens_def message_tokens_def split: entry_body.split)

lemma entry_tokens_no_message [simp]: "\<not> is_message e \<Longrightarrow> entry_tokens v e = 0"
  by (auto simp: entry_tokens_def is_message_def split: entry_body.splits)

definition kept_tokens :: "'x payload_view \<Rightarrow> 'x session_entry list \<Rightarrow> int" where
  "kept_tokens v es = sum_list (map (entry_tokens v) es)"

lemma kept_tokens_drop: "i < length es \<Longrightarrow> kept_tokens v (drop i es) = entry_tokens v (es ! i) + kept_tokens v (drop (Suc i) es)"
  by (simp add: kept_tokens_def Cons_nth_drop_Suc [symmetric])


text \<open>The entry at which the walk back reaches the budget: the newest message with that much from it on.\<close>

definition budget_entry :: "'x payload_view \<Rightarrow> 'x session_entry list \<Rightarrow> nat \<Rightarrow> int \<Rightarrow> nat \<Rightarrow> bool" where
  "budget_entry v es start keep i \<longleftrightarrow>
     start \<le> i \<and> i < length es \<and> is_message (es ! i) \<and> keep \<le> kept_tokens v (drop i es) \<and>
     (\<forall>j. i < j \<and> j < length es \<and> is_message (es ! j) \<longrightarrow> kept_tokens v (drop j es) < keep)"

lemma budget_entry_unique: "budget_entry v es start keep i \<Longrightarrow> budget_entry v es start keep j \<Longrightarrow> i = j"
  by (rule linorder_cases [of i j]) (auto simp: budget_entry_def)

lemma budget_point_exact:
  assumes "n \<le> length es" "acc = kept_tokens v (drop n es)"
    and "\<forall>j. n \<le> j \<and> j < length es \<and> is_message (es ! j) \<longrightarrow> kept_tokens v (drop j es) < keep"
  shows "budget_point v es a keep acc n = Some i \<longleftrightarrow> budget_entry v es a keep i"
  using assms
proof (induction n arbitrary: acc)
  case 0
  then show ?case by (auto simp: budget_entry_def)
next
  case (Suc n)
  have here: "kept_tokens v (drop n es) = entry_tokens v (es ! n) + acc"
    using kept_tokens_drop [of n es v] Suc.prems(1,2) by simp
  consider (low) "n < a" | (skip) "a \<le> n" "\<not> is_message (es ! n)" | (found) "a \<le> n" "is_message (es ! n)" "keep \<le> kept_tokens v (drop n es)"
    | (more) "a \<le> n" "is_message (es ! n)" "kept_tokens v (drop n es) < keep" by linarith
  then show ?case
  proof cases
    case low
    then have "\<not> budget_entry v es a keep i" using Suc.prems(3) by (auto simp: budget_entry_def not_less [symmetric])
    then show ?thesis using low by simp
  next
    case skip
    have "\<forall>j. n \<le> j \<and> j < length es \<and> is_message (es ! j) \<longrightarrow> kept_tokens v (drop j es) < keep"
      using Suc.prems(3) skip(2) by (metis Suc_leI le_neq_implies_less)
    then show ?thesis using Suc.IH [of acc] Suc.prems(1) here skip by simp
  next
    case found
    then have "budget_entry v es a keep n" using Suc.prems by (auto simp: budget_entry_def)
    moreover have "budget_point v es a keep acc (Suc n) = Some n" using found here by (simp add: Let_def add.commute)
    ultimately show ?thesis using budget_entry_unique by (metis option.inject)
  next
    case more
    have "\<forall>j. n \<le> j \<and> j < length es \<and> is_message (es ! j) \<longrightarrow> kept_tokens v (drop j es) < keep"
      using Suc.prems(3) more(3) by (metis Suc_leI le_neq_implies_less)
    then show ?thesis using Suc.IH [of "kept_tokens v (drop n es)"] Suc.prems(1) here more by (simp add: Let_def add.commute)
  qed
qed

lemma budget_point_entry: "budget_point v es a keep 0 (length es) = Some i \<longleftrightarrow> budget_entry v es a keep i"
  by (rule budget_point_exact) (simp_all add: kept_tokens_def)




lemma chosen_cut_in: "cs \<noteq> [] \<Longrightarrow> chosen_cut cs b \<in> set cs"
  by (auto simp: chosen_cut_def find_Some_iff split: option.splits)

lemma cut_points_in: "i \<in> set (findValidCutPoints es a b) \<longleftrightarrow> a \<le> i \<and> i < b \<and> is_cut_point (es ! i)"
  by (auto simp: findValidCutPoints_def)

lemma cut_bounds:
  assumes "a \<le> length es" "c = findCutPoint v es a (length es) keep"
  shows "a \<le> history_end c" "history_end c \<le> cut_firstKept c" "cut_firstKept c \<le> length es"
    "cut_isSplit c \<Longrightarrow> cut_turnStart c = Some (history_end c) \<and> starts_turn (es ! history_end c)"
proof -
  define cps where "cps = findValidCutPoints es a (length es)"
  define q where "q = chosen_cut cps (budget_point v es a keep 0 (length es))"
  define k where "k = pull_back es a q"
  have "a \<le> history_end c \<and> history_end c \<le> cut_firstKept c \<and> cut_firstKept c \<le> length es
    \<and> (cut_isSplit c \<longrightarrow> cut_turnStart c = Some (history_end c) \<and> starts_turn (es ! history_end c))"
  proof (cases "cps = []")
    case True
    then show ?thesis using assms cps_def by (simp add: findCutPoint_def history_end_def)
  next
    case False
    then have "a \<le> q \<and> q < length es" using chosen_cut_in cut_points_in unfolding q_def cps_def by metis
    then have k: "a \<le> k" "k < length es"
      using pull_back_ge [of a q es] pull_back_le [of es a q] by (auto simp: k_def)
    have c: "c = \<lparr> cut_firstKept = k, cut_turnStart = (if is_user_entry (es ! k) then None else findTurnStartIndex es k a),
        cut_isSplit = (\<not> is_user_entry (es ! k) \<and> (if is_user_entry (es ! k) then None else findTurnStartIndex es k a) \<noteq> None) \<rparr>"
      using False unfolding assms(2) findCutPoint_def Let_def k_def q_def cps_def by simp
    show ?thesis
    proof (cases "is_user_entry (es ! k) \<or> findTurnStartIndex es k a = None")
      case True
      then show ?thesis using k by (auto simp: c history_end_def)
    next
      case False
      then obtain i where i: "findTurnStartIndex es k a = Some i" by blast
      then have "a \<le> i \<and> i \<le> k \<and> starts_turn (es ! i)" using turn_start_below_Some [of es a "Suc k" i] by (simp add: findTurnStartIndex_def)
      then show ?thesis using False i k by (simp add: c history_end_def)
    qed
  qed
  then show "a \<le> history_end c" "history_end c \<le> cut_firstKept c" "cut_firstKept c \<le> length es"
    "cut_isSplit c \<Longrightarrow> cut_turnStart c = Some (history_end c) \<and> starts_turn (es ! history_end c)" by auto
qed

text \<open>The first cut point at or after an entry.\<close>

definition next_cut :: "'x session_entry list \<Rightarrow> nat \<Rightarrow> nat \<Rightarrow> bool" where
  "next_cut es i q \<longleftrightarrow> i \<le> q \<and> q < length es \<and> is_cut_point (es ! q) \<and> (\<forall>j. i \<le> j \<and> j < q \<longrightarrow> \<not> is_cut_point (es ! j))"

text \<open>The cut before it is pulled back: the first cut point at or after the entry where the budget is reached, and only
  when the budget is never reached, or no cut point follows that entry, the oldest one.\<close>

definition cut_exact :: "'x payload_view \<Rightarrow> 'x session_entry list \<Rightarrow> nat \<Rightarrow> int \<Rightarrow> nat \<Rightarrow> bool" where
  "cut_exact v es start keep q \<longleftrightarrow>
     (if \<exists>i c. budget_entry v es start keep i \<and> next_cut es i c
      then \<exists>i. budget_entry v es start keep i \<and> next_cut es i q
      else next_cut es start q)"

lemma next_cut_points:
  assumes "start \<le> i"
  shows "find (\<lambda>c. i \<le> c) (findValidCutPoints es start (length es)) = Some q \<longleftrightarrow> next_cut es i q"
proof -
  define cps where "cps = findValidCutPoints es start (length es)"
  have sorted: "sorted cps" "distinct cps"
    by (simp_all add: cps_def findValidCutPoints_def sorted_filter [where f = id, simplified])
  have least: "sorted cs \<Longrightarrow> find (\<lambda>c. i \<le> c) cs = Some q \<longleftrightarrow> i \<le> q \<and> q \<in> set cs \<and> (\<forall>j\<in>set cs. i \<le> j \<longrightarrow> q \<le> j)" for cs
    by (induction cs) (auto split: if_splits)
  show ?thesis
    using assms unfolding cps_def [symmetric] least [OF sorted(1)]
    by (auto simp: cps_def cut_points_in next_cut_def not_less [symmetric])
qed

lemma oldest_cut:
  assumes "findValidCutPoints es start (length es) \<noteq> []"
  shows "next_cut es start (hd (findValidCutPoints es start (length es)))"
proof -
  have "find (\<lambda>c. start \<le> c) cs = Some (hd cs)" if "cs \<noteq> []" "\<forall>c\<in>set cs. start \<le> c" for cs
    using that by (cases cs) simp_all
  then have "find (\<lambda>c. start \<le> c) (findValidCutPoints es start (length es)) = Some (hd (findValidCutPoints es start (length es)))"
    using assms by (simp add: cut_points_in)
  then show ?thesis unfolding next_cut_points [OF order_refl] .
qed

lemma chosen_cut_exact:
  assumes "findValidCutPoints es start (length es) \<noteq> []"
  shows "cut_exact v es start keep
    (chosen_cut (findValidCutPoints es start (length es)) (budget_point v es start keep 0 (length es)))"
proof (cases "budget_point v es start keep 0 (length es)")
  case None
  then have "\<not> budget_entry v es start keep i" for i by (simp flip: budget_point_entry)
  then show ?thesis using oldest_cut [OF assms] None by (simp add: cut_exact_def chosen_cut_def)
next
  case (Some i)
  then have i: "budget_entry v es start keep i" by (simp add: budget_point_entry)
  then have start: "start \<le> i" by (simp add: budget_entry_def)
  show ?thesis
  proof (cases "find (\<lambda>c. i \<le> c) (findValidCutPoints es start (length es))")
    case None
    then have "\<not> next_cut es i c" for c by (simp flip: next_cut_points [OF start])
    then have none: "\<not> (\<exists>i c. budget_entry v es start keep i \<and> next_cut es i c)" using budget_entry_unique [OF i] by blast
    show ?thesis using oldest_cut [OF assms] None Some unfolding cut_exact_def if_not_P [OF none] chosen_cut_def by simp
  next
    case q: (Some q)
    then have "next_cut es i q" by (simp add: next_cut_points [OF start])
    then show ?thesis using i q Some by (auto simp: cut_exact_def chosen_cut_def)
  qed
qed

lemma pull_back_stop:
  "a \<le> c \<Longrightarrow> pull_back es a c = a \<or> is_message (es ! (pull_back es a c - 1)) \<or> is_compaction (es ! (pull_back es a c - 1))"
  by (induction c) (auto simp: le_Suc_eq)

lemma findTurnStart_iff:
  "findTurnStartIndex es k a = Some t \<longleftrightarrow> a \<le> t \<and> t \<le> k \<and> starts_turn (es ! t) \<and> (\<forall>j. t < j \<and> j \<le> k \<longrightarrow> \<not> starts_turn (es ! j))"
proof -
  have "turn_start_below es a n = Some t \<longleftrightarrow>
      a \<le> t \<and> t < n \<and> starts_turn (es ! t) \<and> (\<forall>j. t < j \<and> j < n \<longrightarrow> \<not> starts_turn (es ! j))" for n
  proof (induction n)
    case (Suc n)
    show ?case by (cases "n < a \<or> starts_turn (es ! n)") (use Suc in \<open>auto simp: less_Suc_eq\<close>)
  qed simp
  from this [of "Suc k"] show ?thesis by (simp add: findTurnStartIndex_def less_Suc_eq_le del: turn_start_below.simps)
qed

lemma cut_firstKept_eq:
  "findValidCutPoints es a (length es) \<noteq> [] \<Longrightarrow> cut_firstKept (findCutPoint v es a (length es) keep) =
     pull_back es a (chosen_cut (findValidCutPoints es a (length es)) (budget_point v es a keep 0 (length es)))"
  by (simp add: findCutPoint_def Let_def)

lemma cut_point_exact:
  assumes "findValidCutPoints es start (length es) \<noteq> []"
  shows "\<exists>q. cut_exact v es start keep q \<and> start \<le> q \<and> q < length es \<and> is_cut_point (es ! q) \<and>
    cut_firstKept (findCutPoint v es start (length es) keep) = pull_back es start q"
  using chosen_cut_exact [OF assms] cut_firstKept_eq [OF assms] chosen_cut_in [OF assms] cut_points_in by metis

text \<open>C18: The cut of a compaction. Take the first cut point at or after the entry where the walk back from the newest entry
  reaches the budget - the oldest cut point when the budget is not reached or no cut point follows that entry - and pull it
  back over every entry before it that is neither a message nor a compaction, branch summaries and custom messages
  included; that is the first kept entry. When it is no user message, the turn it splits starts at the last entry at or
  before it that starts a turn.\<close>

theorem cut_keeps_recent:
  assumes "findValidCutPoints es start (length es) \<noteq> []" "c = findCutPoint v es start (length es) keep" "k = cut_firstKept c"
  shows "(\<exists>q. cut_exact v es start keep q \<and> start \<le> k \<and> k \<le> q \<and>
      (\<forall>j. k \<le> j \<and> j < q \<longrightarrow> \<not> is_message (es ! j) \<and> \<not> is_compaction (es ! j)) \<and>
      (k = start \<or> is_message (es ! (k - 1)) \<or> is_compaction (es ! (k - 1)))) \<and>
    (\<forall>t. cut_turnStart c = Some t \<longleftrightarrow> \<not> is_user_entry (es ! k) \<and> start \<le> t \<and> t \<le> k \<and> starts_turn (es ! t) \<and>
      (\<forall>j. t < j \<and> j \<le> k \<longrightarrow> \<not> starts_turn (es ! j))) \<and>
    cut_isSplit c = (cut_turnStart c \<noteq> None)"
proof -
  obtain q where q: "cut_exact v es start keep q" "start \<le> q" "k = pull_back es start q"
    using cut_point_exact [OF assms(1), of v keep] assms(2,3) by blast
  have c: "cut_turnStart c = (if is_user_entry (es ! k) then None else findTurnStartIndex es k start)"
    "cut_isSplit c = (\<not> is_user_entry (es ! k) \<and> cut_turnStart c \<noteq> None)"
    using assms by (simp_all add: findCutPoint_def Let_def)
  have "start \<le> k" "k \<le> q" "\<forall>j. k \<le> j \<and> j < q \<longrightarrow> \<not> is_message (es ! j) \<and> \<not> is_compaction (es ! j)"
    "k = start \<or> is_message (es ! (k - 1)) \<or> is_compaction (es ! (k - 1))"
    unfolding q(3) using pull_back_ge [OF q(2)] pull_back_le pulled_back_no_message pull_back_stop [OF q(2)] by blast+
  then show ?thesis using q(1) c by (auto simp: findTurnStart_iff)
qed

section \<open>Nothing is lost\<close>

lemma last_compaction_below_Some: "last_compaction_below es n = Some i \<Longrightarrow>
    i < n \<and> is_compaction (es ! i) \<and> (\<forall>j. i < j \<and> j < n \<longrightarrow> \<not> is_compaction (es ! j))"
  by (induction n) (auto simp: less_Suc_eq split: if_splits)

lemma last_compaction_below_None: "last_compaction_below es n = None \<longleftrightarrow> (\<forall>j < n. \<not> is_compaction (es ! j))"
  by (induction n) (auto simp: less_Suc_eq)

lemma last_compaction_append: "n \<le> length es \<Longrightarrow> last_compaction_below (es @ xs) n = last_compaction_below es n"
  by (induction n) (simp_all add: nth_append)

lemma last_compaction_snoc: "last_compaction_below (es @ [x]) (length (es @ [x])) =
    (if is_compaction x then Some (length es) else last_compaction_below es (length es))"
  by (simp add: last_compaction_append)

definition shown :: "'x session_entry list \<Rightarrow> 'x ctx_message list" where
  "shown es = concat (map appendMessage_of es)"

lemma shown_append [simp]: "shown (xs @ ys) = shown xs @ shown ys"
  by (simp add: shown_def)

lemma shown_Cons [simp]: "shown (e # es) = appendMessage_of e @ shown es"
  by (simp add: shown_def)

lemma shown_compaction: "is_compaction e \<Longrightarrow> appendMessage_of e = []"
  by (auto simp: is_compaction_def appendMessage_of_def split: entry_body.splits)

lemma context_after_compaction:
  assumes "last_compaction_below es (length es) = Some i"
  shows "cx_messages (context_of_path es) = summary_message (es ! i)
    @ shown (kept_part (first_kept (es ! i)) (take i es) (drop i es)) @ shown (drop (Suc i) es)"
proof -
  have i: "i < length es" "is_compaction (es ! i)" "\<And>j. i < j \<Longrightarrow> j < length es \<Longrightarrow> \<not> is_compaction (es ! j)"
    using last_compaction_below_Some [OF assms] by auto
  have split: "es = take i es @ es ! i # drop (Suc i) es" using i(1) by (simp add: id_take_nth_drop)
  have none: "\<forall>x\<in>set (drop (Suc i) es). \<not> is_compaction x" using i(3) by (fastforce simp: in_set_conv_nth)
  have "rev es = rev (drop (Suc i) es) @ es ! i # rev (take i es)" by (subst split) simp
  moreover have "takeWhile (\<lambda>e. \<not> is_compaction e) (rev (drop (Suc i) es) @ es ! i # rev (take i es)) = rev (drop (Suc i) es)"
    using none i(2) by (subst takeWhile_append2) auto
  ultimately have after: "rev (takeWhile (\<lambda>e. \<not> is_compaction e) (rev es)) = drop (Suc i) es" by simp
  have "take (length es - length (drop (Suc i) es)) es = take (Suc i) es" using i(1) by (simp add: min_def)
  then have rest: "take (length es - length (drop (Suc i) es)) es = take i es @ [es ! i]"
    using i(1) by (simp add: take_Suc_conv_app_nth)
  show ?thesis
    unfolding context_messages reference_messages_def after Let_def rest
    using i(1) by (simp add: shown_def Cons_nth_drop_Suc)
qed

lemma context_without_compaction:
  "last_compaction_below es (length es) = None \<Longrightarrow> cx_messages (context_of_path es) = shown es"
proof -
  assume "last_compaction_below es (length es) = None"
  then have none: "\<forall>x\<in>set es. \<not> is_compaction x" by (auto simp: last_compaction_below_None in_set_conv_nth)
  then have all: "takeWhile (\<lambda>e. \<not> is_compaction e) (rev es) = rev es" by (simp add: takeWhile_eq_all_conv)
  show ?thesis unfolding context_messages reference_messages_def Let_def all by (simp add: shown_def)
qed

text \<open>The anchor of the last compaction is on the path, at or before it.\<close>

definition anchored :: "'x session_entry list \<Rightarrow> bool" where
  "anchored es \<longleftrightarrow> (\<forall>i. last_compaction_below es (length es) = Some i \<longrightarrow>
     (\<exists>j < i. Some (se_id (es ! j)) = first_kept (es ! i)))"

definition summary_of_last :: "'x session_entry list \<Rightarrow> 'x ctx_message list" where
  "summary_of_last es = (case last_compaction_below es (length es) of None \<Rightarrow> [] | Some i \<Rightarrow> summary_message (es ! i))"

lemma find_index_distinct:
  assumes "distinct (map se_id es)" "j < length es"
  shows "find_index_of (\<lambda>e. Some (se_id e) = Some (se_id (es ! j))) es = Some j"
  using assms
proof (induction es arbitrary: j)
  case (Cons e es)
  show ?case
  proof (cases j)
    case (Suc k)
    then have "se_id e \<noteq> se_id (es ! k)" using Cons.prems nth_mem [of k es] by auto
    then show ?thesis using Cons.IH [of k] Cons.prems Suc by simp
  qed simp
qed simp

lemma kept_part_from:
  assumes "distinct (map se_id (before @ rest))" "j < length before"
  shows "kept_part (Some (se_id (before ! j))) before rest = drop j before"
proof -
  have "list_ex (\<lambda>e. Some (se_id e) = Some (se_id (before ! j))) before" using assms(2) by (auto simp: list_ex_iff)
  moreover have "drop j before = dropWhile (\<lambda>e. Some (se_id e) \<noteq> Some (se_id (before ! j))) before"
    using find_index_of_Some [OF find_index_distinct [of before j]] assms by simp
  ultimately show ?thesis by (simp add: kept_part_def)
qed

text \<open>With such an anchor the model sees the last summary and the entries from the boundary on.\<close>

lemma context_from_boundary:
  assumes "anchored es" "distinct (map se_id es)"
  shows "cx_messages (context_of_path es) = summary_of_last es @ shown (drop (boundary_start es) es)"
    "boundary_start es \<le> length es"
proof -
  have "cx_messages (context_of_path es) = summary_of_last es @ shown (drop (boundary_start es) es) \<and> boundary_start es \<le> length es"
  proof (cases "last_compaction_below es (length es)")
    case None
    then show ?thesis using context_without_compaction [OF None] by (simp add: summary_of_last_def boundary_start_def)
  next
    case (Some i)
    have i: "i < length es" "is_compaction (es ! i)" using last_compaction_below_Some [OF Some] by auto
    obtain j where j: "j < i" "Some (se_id (es ! j)) = first_kept (es ! i)" using assms(1) Some by (auto simp: anchored_def)
    have b: "boundary_start es = j"
      using find_index_distinct [OF assms(2), of j] j(1) i(1) unfolding boundary_start_def Some j(2) by simp
    have "kept_part (first_kept (es ! i)) (take i es) (drop i es) = drop j (take i es)"
      using kept_part_from [of "take i es" "drop i es" j] assms(2) j(1) i(1) unfolding j(2) [symmetric] by simp
    moreover have "drop j (take i es @ drop i es) = drop j (take i es) @ drop i es"
      using drop_append [of j "take i es" "drop i es"] j(1) i(1) by (simp del: append_take_drop_id)
    then have "drop j es = drop j (take i es) @ [es ! i] @ drop (Suc i) es"
      using i(1) by (simp add: Cons_nth_drop_Suc)
    ultimately show ?thesis
      using context_after_compaction [OF Some] Some b j(1) i shown_compaction [OF i(2)] by (simp add: summary_of_last_def)
  qed
  then show "cx_messages (context_of_path es) = summary_of_last es @ shown (drop (boundary_start es) es)"
    "boundary_start es \<le> length es" by auto
qed

text \<open>The histories a session can have when every compaction entry records a prepared cut.\<close>

definition records_cut :: "jsstr \<Rightarrow> 'x session_entry \<Rightarrow> bool" where
  "records_cut k e = (case se_body e of BCompaction c \<Rightarrow> cp_firstKept c = Some k | _ \<Rightarrow> False)"

inductive compacted_history :: "'x payload_view \<Rightarrow> (jsstr \<Rightarrow> jsstr) \<Rightarrow> 'x session_entry list \<Rightarrow> bool"
  for v :: "'x payload_view" and redact :: "jsstr \<Rightarrow> jsstr" where
  start: "compacted_history v redact []"
| appended: "\<lbrakk> compacted_history v redact es; se_id e \<notin> se_id ` set es; \<not> is_compaction e \<rbrakk>
    \<Longrightarrow> compacted_history v redact (es @ [e])"
| compacted: "\<lbrakk> compacted_history v redact es; se_id e \<notin> se_id ` set es;
      prepareCompaction v redact cal es s w latest known keep = Some (Some p); records_cut (pc_firstKeptEntryId p) e \<rbrakk>
    \<Longrightarrow> compacted_history v redact (es @ [e])"

lemma prepared_firstKept:
  "prepareCompaction v redact cal es s w latest known keep = Some (Some p) \<Longrightarrow>
   cut_firstKept (cut_of_path v es s w keep) < length es \<and>
   pc_firstKeptEntryId p = se_id (es ! cut_firstKept (cut_of_path v es s w keep))"
  by (auto simp: prepareCompaction_def Let_def split: if_splits option.splits)

lemma records_cutD: "records_cut k e \<Longrightarrow> is_compaction e \<and> first_kept e = Some k"
  by (auto simp: records_cut_def is_compaction_def first_kept_def split: entry_body.splits)

lemma history_anchored: "compacted_history v redact es \<Longrightarrow> anchored es \<and> distinct (map se_id es)"
proof (induction rule: compacted_history.induct)
  case start
  then show ?case by (simp add: anchored_def)
next
  case (appended es e)
  have "anchored (es @ [e])"
    unfolding anchored_def last_compaction_snoc
  proof (intro allI impI)
    fix i
    assume "(if is_compaction e then Some (length es) else last_compaction_below es (length es)) = Some i"
    then have l: "last_compaction_below es (length es) = Some i" using appended.hyps(3) by simp
    then have i: "i < length es" using last_compaction_below_Some by blast
    obtain j where "j < i" "Some (se_id (es ! j)) = first_kept (es ! i)" using appended.IH l by (auto simp: anchored_def)
    then show "\<exists>j<i. Some (se_id ((es @ [e]) ! j)) = first_kept ((es @ [e]) ! i)"
      using i by (intro exI [of _ j]) (simp add: nth_append)
  qed
  then show ?case using appended by simp
next
  case (compacted es e cal s w latest known keep p)
  define j where "j = cut_firstKept (cut_of_path v es s w keep)"
  have j: "j < length es" "pc_firstKeptEntryId p = se_id (es ! j)"
    using prepared_firstKept [OF compacted.hyps(3)] by (simp_all add: j_def)
  have "anchored (es @ [e])"
    using records_cutD [OF compacted.hyps(4)] j unfolding anchored_def last_compaction_snoc
    by (auto simp: nth_append intro!: exI [of _ j])
  then show ?case using compacted by simp
qed

lemma boundary_le: "anchored es \<Longrightarrow> distinct (map se_id es) \<Longrightarrow> boundary_start es \<le> length es"
  by (rule context_from_boundary(2))

lemma drop_split3: "a \<le> b \<Longrightarrow> b \<le> c \<Longrightarrow> c \<le> length xs \<Longrightarrow> drop a xs = js_slice xs a b @ js_slice xs b c @ drop c xs"
  by (metis append_take_drop_id drop_drop js_slice_def le_add_diff_inverse2)

lemma slice_empty [simp]: "js_slice xs a a = []"
  by (simp add: js_slice_def)

text \<open>The part of the path a prepared compaction folds and the part it keeps.\<close>

lemma prepared_parts:
  assumes "prepareCompaction v redact cal es s w latest known keep = Some (Some p)" "boundary_start es \<le> length es"
  shows "\<exists>hist prefix kept. drop (boundary_start es) es = hist @ prefix @ kept \<and> kept \<noteq> [] \<and>
    se_id (hd kept) = pc_firstKeptEntryId p \<and> kept = drop (length es - length kept) es \<and>
    pc_messagesToSummarize p = compaction_messages hist \<and>
    pc_turnPrefixMessages p = compaction_messages prefix \<and>
    (pc_isSplitTurn p \<longrightarrow> prefix @ kept \<noteq> [] \<and> starts_turn (hd (prefix @ kept))) \<and> (\<not> pc_isSplitTurn p \<longrightarrow> prefix = [])"
proof -
  define c where "c = cut_of_path v es s w keep"
  define a where "a = boundary_start es"
  have c: "\<exists>k. c = findCutPoint v es a (length es) k" unfolding c_def a_def cut_of_path_def Let_def by blast
  obtain k where k: "c = findCutPoint v es a (length es) k" using c by blast
  have first: "cut_firstKept c < length es" "pc_firstKeptEntryId p = se_id (es ! cut_firstKept c)"
    using prepared_firstKept [OF assms(1)] by (simp_all add: c_def)
  note bounds = cut_bounds [OF assms(2) [folded a_def] k]
  have fields: "pc_messagesToSummarize p = compaction_messages (js_slice es a (history_end c))"
    "pc_isSplitTurn p = cut_isSplit c"
    "pc_turnPrefixMessages p = (if cut_isSplit c then compaction_messages (js_slice es (the (cut_turnStart c)) (cut_firstKept c)) else [])"
    using assms(1) by (auto simp: prepareCompaction_def Let_def c_def a_def split: if_splits option.splits)
  define prefix where "prefix = js_slice es (history_end c) (cut_firstKept c)"
  define kept where "kept = drop (cut_firstKept c) es"
  have prefix: "\<not> cut_isSplit c \<Longrightarrow> prefix = []" by (simp add: prefix_def history_end_def)
  have turn: "pc_turnPrefixMessages p = compaction_messages prefix"
    using fields(3) bounds(4) prefix by (cases "cut_isSplit c") (simp_all add: prefix_def compaction_messages_def map_filter_simps)
  have "prefix @ kept = drop (history_end c) es"
    using drop_split3 [of "history_end c" "cut_firstKept c" "length es" es] bounds(2,3) by (simp add: prefix_def kept_def js_slice_def)
  then have hd: "hd (prefix @ kept) = es ! history_end c" using bounds(2) first(1) by (simp add: hd_drop_conv_nth)
  have "drop a es = js_slice es a (history_end c) @ prefix @ kept"
    using drop_split3 [OF bounds(1,2,3)] by (simp add: prefix_def kept_def)
  moreover have "kept \<noteq> []" "se_id (hd kept) = pc_firstKeptEntryId p" "kept = drop (length es - length kept) es"
    using first by (simp_all add: kept_def hd_drop_conv_nth)
  ultimately show ?thesis
    using turn hd prefix bounds(4) fields(1,2) unfolding a_def
    by (intro exI [of _ "js_slice es (boundary_start es) (history_end c)"] exI [of _ prefix] exI [of _ kept]) auto
qed

lemma context_after_cut:
  assumes "distinct (map se_id (es @ [e]))" "records_cut (se_id (hd kept)) e" "kept \<noteq> []" "kept = drop (length es - length kept) es"
  shows "cx_messages (context_of_path (es @ [e])) = summary_message e @ shown kept"
proof -
  define k where "k = length es - length kept"
  have k: "k < length es" "kept = drop k es" using assms(3,4) unfolding k_def by (metis drop_eq_Nil not_le)+
  have hd: "hd kept = es ! k" using k by (simp add: hd_drop_conv_nth)
  have e: "is_compaction e" "first_kept e = Some (se_id (es ! k))" using records_cutD [OF assms(2)] hd by auto
  have "last_compaction_below (es @ [e]) (length (es @ [e])) = Some (length es)"
    using e(1) last_compaction_snoc by metis
  from context_after_compaction [OF this] show ?thesis
    using kept_part_from [of es "[e]" k] assms(1) k e(2) by (simp add: shown_def)
qed

text \<open>C17: Compaction neither loses nor repeats anything.\<close>

theorem compaction_partitions:
  assumes "compacted_history v redact es"
    and "prepareCompaction v redact cal es s w latest known keep = Some (Some p)"
    and "records_cut (pc_firstKeptEntryId p) e" "se_id e \<notin> se_id ` set es"
  shows "\<exists>hist prefix kept.
    cx_messages (context_of_path es) = summary_of_last es @ shown hist @ shown prefix @ shown kept \<and>
    pc_messagesToSummarize p = compaction_messages hist \<and>
    pc_turnPrefixMessages p = compaction_messages prefix \<and>
    cx_messages (context_of_path (es @ [e])) = summary_message e @ shown kept \<and>
    kept \<noteq> [] \<and> se_id (hd kept) = pc_firstKeptEntryId p \<and>
    (pc_isSplitTurn p \<longrightarrow> starts_turn (hd (prefix @ kept))) \<and> (\<not> pc_isSplitTurn p \<longrightarrow> prefix = [])"
proof -
  have ok: "anchored es" "distinct (map se_id es)" using history_anchored [OF assms(1)] by auto
  obtain hist prefix kept where parts: "drop (boundary_start es) es = hist @ prefix @ kept" "kept \<noteq> []"
    "se_id (hd kept) = pc_firstKeptEntryId p" "kept = drop (length es - length kept) es"
    "pc_messagesToSummarize p = compaction_messages hist" "pc_turnPrefixMessages p = compaction_messages prefix"
    "pc_isSplitTurn p \<longrightarrow> prefix @ kept \<noteq> [] \<and> starts_turn (hd (prefix @ kept))" "\<not> pc_isSplitTurn p \<longrightarrow> prefix = []"
    using prepared_parts [OF assms(2) boundary_le [OF ok]] by blast
  have "distinct (map se_id (es @ [e]))" using ok(2) assms(4) by simp
  then have "cx_messages (context_of_path (es @ [e])) = summary_message e @ shown kept"
    using context_after_cut parts(2,3,4) assms(3) by metis
  then show ?thesis using context_from_boundary(1) [OF ok] parts by (intro exI [of _ hist] exI [of _ prefix] exI [of _ kept]) simp
qed

section \<open>One pass is enough\<close>





section \<open>Witnesses\<close>

definition text_view :: "jsstr payload_view" where
  "text_view = \<lparr> pv_content = (\<lambda>t. Blocks [TextBlock t]), pv_usage = (\<lambda>x. None), pv_stopReason = (\<lambda>x. []),
     pv_details = (\<lambda>x. \<lparr> sd_readFiles = None, sd_modifiedFiles = None, sd_searches = None, sd_shellCmds = None,
       sd_mcpCalls = None, sd_fileDigests = None \<rparr>) \<rparr>"

definition says :: "jschar \<Rightarrow> string \<Rightarrow> string \<Rightarrow> jsstr session_entry" where
  "says i role body = \<lparr> se_id = [i], se_parentId = (if i = 49 then None else Some [i - 1]), se_timestamp = js ''t'',
     se_body = BMessage \<lparr> am_role = js role, am_provider = [], am_model = [], am_body = js body \<rparr> \<rparr>"

definition sets_model :: "jschar \<Rightarrow> jsstr session_entry" where
  "sets_model i = \<lparr> se_id = [i], se_parentId = Some [i - 1], se_timestamp = js ''t'', se_body = BModel [] [] \<rparr>"

definition two_turns :: "jsstr session_entry list" where
  "two_turns = [says 49 ''user'' ''first request'', says 50 ''assistant'' ''first answer'',
                says 51 ''user'' ''second request'', says 52 ''assistant'' ''second answer'']"

definition folds :: "jsstr session_entry" where
  "folds = \<lparr> se_id = [53], se_parentId = Some [52], se_timestamp = js ''t'',
     se_body = BCompaction \<lparr> cp_summary = js ''summary'', cp_firstKept = Some [51], cp_tokensBefore = 20, cp_details = None,
       cp_fromHook = None, cp_keptIndex = None \<rparr> \<rparr>"

lemma two_turns_history: "compacted_history text_view id two_turns"
proof -
  have one: "compacted_history text_view id ([] @ [says 49 ''user'' ''first request''])"
    by (rule compacted_history.appended [OF compacted_history.start]) (simp, code_simp)
  have two: "compacted_history text_view id (([] @ [says 49 ''user'' ''first request'']) @ [says 50 ''assistant'' ''first answer''])"
    by (rule compacted_history.appended [OF one]) code_simp+
  have three: "compacted_history text_view id ((([] @ [says 49 ''user'' ''first request'']) @ [says 50 ''assistant'' ''first answer''])
      @ [says 51 ''user'' ''second request''])"
    by (rule compacted_history.appended [OF two]) code_simp+
  show ?thesis unfolding two_turns_def using compacted_history.appended [OF three, of "says 52 ''assistant'' ''second answer''"]
    by (simp add: says_def is_compaction_def)
qed

lemma two_turns_prepared:
  "map_option (map_option pc_firstKeptEntryId)
     (prepareCompaction text_view id resetTokenEstimateCalibration two_turns DEFAULT_COMPACTION_SETTINGS None False (Some 20) (Some 8))
   = Some (Some [51])"
  by code_simp

theorem cut_keeps_recent_witness:
  "\<exists>q. cut_exact text_view two_turns 0 8 q \<and> cut_firstKept (findCutPoint text_view two_turns 0 4 8) \<le> q"
proof -
  have "findValidCutPoints two_turns 0 (length two_turns) \<noteq> []" "length two_turns = 4" by code_simp+
  then show ?thesis using cut_keeps_recent [OF _ refl refl, of two_turns 0 text_view 8] by auto
qed

theorem compaction_partitions_witness:
  "\<exists>p kept. prepareCompaction text_view id resetTokenEstimateCalibration two_turns DEFAULT_COMPACTION_SETTINGS None False
       (Some 20) (Some 8) = Some (Some p) \<and>
     cx_messages (context_of_path (two_turns @ [folds])) = summary_message folds @ shown kept"
proof -
  obtain p where p: "prepareCompaction text_view id resetTokenEstimateCalibration two_turns DEFAULT_COMPACTION_SETTINGS None False
      (Some 20) (Some 8) = Some (Some p)" "pc_firstKeptEntryId p = [51]"
    using two_turns_prepared by auto
  have "records_cut (pc_firstKeptEntryId p) folds" "se_id folds \<notin> se_id ` set two_turns"
    unfolding p(2) by code_simp+
  then show ?thesis using compaction_partitions [OF two_turns_history p(1)] p(1) by blast
qed




section \<open>Where the cut departs from its comments\<close>

text \<open>The budget is exceeded by a trailing tool result: no cut point follows it and the oldest one is taken, so
  nothing is folded.\<close>

definition long_result :: "jsstr session_entry list" where
  "long_result = [says 49 ''user'' ''first request'', says 50 ''assistant'' ''reads a file'', says 51 ''toolResult'' ''a very long file''] "

lemma trailing_result_keeps_all: "cut_firstKept (findCutPoint text_view long_result 0 3 4) = 0"
  by code_simp

text \<open>A model change before a user message: the cut is pulled back to it, and the whole earlier turn counts as the
  prefix of a split turn although no turn is split.\<close>

definition switched :: "jsstr session_entry list" where
  "switched = [says 49 ''user'' ''first request'', says 50 ''assistant'' ''first answer'', sets_model 51,
               says 52 ''user'' ''second request'', says 53 ''assistant'' ''second answer'']"

lemma settings_split_turn:
  "findCutPoint text_view switched 0 5 8 = \<lparr> cut_firstKept = 2, cut_turnStart = Some 0, cut_isSplit = True \<rparr>"
  by code_simp

end
