(* ===== verification/BranchSummary.thy ===== *)
theory BranchSummary
  imports Compaction SessionForest
begin

text \<open>
  Summaries of an abandoned branch (core/compaction/branch-summarization.ts): which entries are left behind when
  the session moves to another leaf, and which of them fit the summary's token budget. The prompt length of a
  message (\<open>serializedMessageChars\<close> of \<open>convertToLlm\<close>, \<open>None\<close> when the message is dropped) is an argument.
\<close>


section \<open>Collecting the entries\<close>

text \<open>The loop from the old leaf to the common ancestor, already in chronological order; \<open>None\<close> when it does not end.\<close>

partial_function (option) climb :: "(jsstr, 'x session_entry) jsmap \<Rightarrow> jsstr option \<Rightarrow> jsstr option \<Rightarrow> 'x session_entry list option" where
  "climb m common current =
     (case current of
        None \<Rightarrow> Some []
      | Some i \<Rightarrow>
          if i = [] \<or> common = Some i then Some []
          else case mget m i of
                 None \<Rightarrow> Some []
               | Some e \<Rightarrow> Option.bind (climb m common (se_parentId e)) (\<lambda>older. Some (older @ [e])))"

declare climb.simps [code]

definition collectEntriesForBranchSummary :: "'x session \<Rightarrow> jsstr option \<Rightarrow> jsstr
    \<Rightarrow> ('x session_entry list \<times> jsstr option) option" where
  "collectEntriesForBranchSummary s oldLeafId targetId =
     (case oldLeafId of
        None \<Rightarrow> Some ([], None)
      | Some old \<Rightarrow>
          if old = [] then Some ([], None)
          else Option.bind (getBranch s (Some old)) (\<lambda>oldPath.
               Option.bind (getBranch s (Some targetId)) (\<lambda>targetPath.
                 let common = map_option se_id (find (\<lambda>e. se_id e \<in> set (ids oldPath)) (rev targetPath))
                 in map_option (\<lambda>es. (es, common)) (climb (sm_byId s) common (Some old)))))"

section \<open>Preparing them\<close>

definition estimateSerializedBranchTokens :: "('x ctx_message \<Rightarrow> nat option) \<Rightarrow> 'x ctx_message \<Rightarrow> int" where
  "estimateSerializedBranchTokens chars m = (case chars m of None \<Rightarrow> 0 | Some n \<Rightarrow> int (estimateCharsAsTokens n))"

record 'x branch_preparation =
  bp_messages :: "'x ctx_message list"
  bp_fileOps :: file_ops
  bp_totalTokens :: int

definition merge_nested_summary :: "'x payload_view \<Rightarrow> 'x session_entry \<Rightarrow> file_ops \<Rightarrow> file_ops" where
  "merge_nested_summary v e ops =
     (case se_body e of
        BBranchSummary b \<Rightarrow>
          (case br_details b of
             Some d \<Rightarrow> if br_fromHook b = Some True then ops else mergeSummaryDetailsIntoFileOps (pv_details v d) ops
           | None \<Rightarrow> ops)
      | _ \<Rightarrow> ops)"

definition is_summary_entry :: "'x session_entry \<Rightarrow> bool" where
  "is_summary_entry e = (case se_body e of BCompaction c \<Rightarrow> True | BBranchSummary b \<Rightarrow> True | _ \<Rightarrow> False)"

definition branch_message :: "'x session_entry \<Rightarrow> 'x ctx_message option" where
  "branch_message = getMessageFromEntry True False"

text \<open>The second pass, on the entries from the newest to the oldest; \<open>messages\<close> is kept in chronological order.\<close>

fun branch_walk :: "'x payload_view \<Rightarrow> (jsstr \<Rightarrow> jsstr) \<Rightarrow> ('x ctx_message \<Rightarrow> nat option) \<Rightarrow> int \<Rightarrow> 'x session_entry list
    \<Rightarrow> 'x branch_preparation \<Rightarrow> 'x branch_preparation" where
  "branch_walk v redact chars budget [] p = p"
| "branch_walk v redact chars budget (e # es) p =
     (case branch_message e of
        None \<Rightarrow> branch_walk v redact chars budget es p
      | Some m \<Rightarrow>
          (let tokens = estimateSerializedBranchTokens chars m;
               p1 = p\<lparr>bp_fileOps := ops_of_message v redact m (bp_fileOps p)\<rparr>;
               p2 = p1\<lparr>bp_messages := m # bp_messages p, bp_totalTokens := bp_totalTokens p + tokens\<rparr>
           in if budget > 0 \<and> bp_totalTokens p + tokens > budget
              then (if is_summary_entry e \<and> 10 * bp_totalTokens p < 9 * budget then p2 else p1)
              else branch_walk v redact chars budget es p2))"

definition prepareBranchEntries :: "'x payload_view \<Rightarrow> (jsstr \<Rightarrow> jsstr) \<Rightarrow> ('x ctx_message \<Rightarrow> nat option) \<Rightarrow> 'x session_entry list
    \<Rightarrow> int \<Rightarrow> 'x branch_preparation" where
  "prepareBranchEntries v redact chars es tokenBudget =
     branch_walk v redact chars tokenBudget (rev es)
       \<lparr> bp_messages = [], bp_fileOps = fold (merge_nested_summary v) es createFileOps, bp_totalTokens = 0 \<rparr>"

section \<open>The entries left behind\<close>

lemma walk_last: "walk m e = Some path \<Longrightarrow> path \<noteq> [] \<and> last path = e"
  by (subst (asm) walk.simps) (auto simp: bind_eq_Some_conv split: option.splits)

lemma walk_prefix: "walk m e = Some (xs @ y # ys) \<Longrightarrow> walk m y = Some (xs @ [y])"
proof (induction ys arbitrary: e rule: rev_induct)
  case Nil
  then show ?case using walk_last by fastforce
next
  case (snoc z zs)
  then have w: "walk m e = Some ((xs @ y # zs) @ [z])" by simp
  then obtain p where "walk m p = Some (xs @ y # zs)"
    by (subst (asm) walk.simps) (auto simp: bind_eq_Some_conv split: option.splits)
  then show ?case by (rule snoc.IH)
qed

lemma walk_parent: "walk m e = Some (path @ [e]) \<Longrightarrow>
    if path = [] then parent_in m e = None else parent_in m e = Some (last path) \<and> walk m (last path) = Some path"
proof -
  assume w: "walk m e = Some (path @ [e])"
  show ?thesis
  proof (cases "parent_in m e")
    case None
    then show ?thesis using w by (subst (asm) walk.simps) simp
  next
    case (Some p)
    then have "walk m p = Some path" using w by (subst (asm) walk.simps) (auto simp: bind_eq_Some_conv)
    then show ?thesis using Some walk_last [of m p path] by auto
  qed
qed

text \<open>The map gives every entry under its own, nonempty id.\<close>

definition keyed :: "(jsstr, 'x session_entry) jsmap \<Rightarrow> bool" where
  "keyed m \<longleftrightarrow> (\<forall>i e. mget m i = Some e \<longrightarrow> se_id e = i \<and> i \<noteq> [])"

lemma climb_step: "i \<noteq> [] \<Longrightarrow> common \<noteq> Some i \<Longrightarrow> mget m i = Some e \<Longrightarrow>
    climb m common (Some i) = map_option (\<lambda>older. older @ [e]) (climb m common (se_parentId e))"
  by (subst climb.simps) (cases "climb m common (se_parentId e)"; simp)

lemma climb_stop: "common = Some i \<Longrightarrow> climb m common (Some i) = Some []"
  by (subst climb.simps) simp

lemma climb_root: "parent_in m e = None \<Longrightarrow> climb m common (se_parentId e) = Some []"
  by (subst climb.simps) (auto simp: parent_in_def split: option.splits if_splits)

lemma climb_path:
  assumes "keyed m" "common = (if shared = [] then None else Some (se_id (last shared)))"
  shows "walk m e = Some (shared @ left) \<Longrightarrow> left \<noteq> [] \<Longrightarrow> mget m (se_id e) = Some e \<Longrightarrow>
    \<forall>x\<in>set left. common \<noteq> Some (se_id x) \<Longrightarrow> climb m common (Some (se_id e)) = Some left"
proof (induction left arbitrary: e rule: rev_induct)
  case (snoc x zs)
  have e: "x = e" using walk_last [OF snoc.prems(1)] by simp
  then have w: "walk m e = Some ((shared @ zs) @ [e])" using snoc.prems(1) by simp
  have step: "climb m common (Some (se_id e)) = map_option (\<lambda>older. older @ [e]) (climb m common (se_parentId e))"
  proof (rule climb_step [OF _ _ snoc.prems(3)])
    show "se_id e \<noteq> []" using assms(1) snoc.prems(3) unfolding keyed_def by blast
    show "common \<noteq> Some (se_id e)" using snoc.prems(4) unfolding e by simp
  qed
  show ?case
  proof (cases "shared @ zs = []")
    case True
    then have "parent_in m e = None" using walk_parent [OF w] by simp
    then show ?thesis using step climb_root True e by simp
  next
    case False
    then have p: "parent_in m e = Some (last (shared @ zs))" "walk m (last (shared @ zs)) = Some (shared @ zs)"
      using walk_parent [OF w] by (simp_all split: if_splits)
    obtain q where q: "se_parentId e = Some q" "mget m q = Some (last (shared @ zs))"
      using p(1) by (auto simp: parent_in_def split: option.splits if_splits)
    then have id: "se_id (last (shared @ zs)) = q" using assms(1) by (simp add: keyed_def)
    have "climb m common (se_parentId e) = Some zs"
    proof (cases "zs = []")
      case True
      then show ?thesis using climb_stop False assms(2) id q(1) by simp
    next
      case zs: False
      have "climb m common (Some (se_id (last (shared @ zs)))) = Some zs"
        using snoc.IH [OF p(2) zs] q(2) id snoc.prems(4) by simp
      then show ?thesis using id q(1) by simp
    qed
    then show ?thesis using step e by simp
  qed
qed simp

lemma find_rev_split: "find P (rev xs) = Some y \<Longrightarrow> \<exists>us ws. xs = us @ y # ws \<and> P y \<and> (\<forall>w\<in>set ws. \<not> P w)"
proof (induction xs rule: rev_induct)
  case (snoc x xs)
  show ?case
  proof (cases "P x")
    case True
    then show ?thesis using snoc.prems by (intro exI [of _ xs] exI [of _ "[]"]) simp
  next
    case False
    then obtain us ws where "xs = us @ y # ws" "P y" "\<forall>w\<in>set ws. \<not> P w" using snoc by auto
    then show ?thesis using False by (intro exI [of _ us] exI [of _ "ws @ [x]"]) simp
  qed
qed simp

lemma collect_split:
  assumes "keyed m" "walk m eo = Some oldPath" "walk m et = Some targetPath" "mget m (se_id eo) = Some eo"
    and "\<forall>x\<in>set oldPath \<union> set targetPath. mget m (se_id x) = Some x" "distinct oldPath"
  shows "\<exists>shared left right. oldPath = shared @ left \<and> targetPath = shared @ right \<and>
    set (ids left) \<inter> set (ids right) = {} \<and>
    map_option se_id (find (\<lambda>e. se_id e \<in> set (ids oldPath)) (rev targetPath)) = (if shared = [] then None else Some (se_id (last shared))) \<and>
    climb m (if shared = [] then None else Some (se_id (last shared))) (Some (se_id eo)) = Some left"
proof (cases "find (\<lambda>e. se_id e \<in> set (ids oldPath)) (rev targetPath)")
  case None
  then have "\<forall>e\<in>set targetPath. se_id e \<notin> set (ids oldPath)" by (simp add: find_None_iff)
  moreover have "climb m None (Some (se_id eo)) = Some oldPath"
    using climb_path [OF assms(1), of None "[]"] assms(2,4) walk_last [OF assms(2)] by simp
  moreover have "se_id x \<noteq> se_id e" if "x \<in> set oldPath" "e \<in> set targetPath" for x e
    using calculation(1) that by (metis image_eqI set_map)
  then have "set (ids oldPath) \<inter> set (ids targetPath) = {}" by (auto dest: sym)
  ultimately show ?thesis using None
    by (intro exI [of _ "[]"] exI [of _ oldPath] exI [of _ targetPath]) (simp only: append_Nil if_True option.map simp_thms)
next
  case (Some y)
  obtain us ws where t: "targetPath = us @ y # ws" "se_id y \<in> set (ids oldPath)" "\<forall>w\<in>set ws. se_id w \<notin> set (ids oldPath)"
    using find_rev_split [OF Some] by blast
  have same: "x = y" if "x \<in> set oldPath" "se_id x = se_id y" for x
    using assms(5) that t(1) by (metis UnI1 UnI2 in_set_conv_decomp option.inject)
  then have "y \<in> set oldPath" using t(2) by auto
  then obtain us' left where o: "oldPath = us' @ y # left" by (meson split_list)
  have "walk m y = Some (us @ [y])" "walk m y = Some (us' @ [y])"
    using walk_prefix assms(2,3) t(1) o by metis+
  then have us: "us' = us" by simp
  have none: "\<forall>x\<in>set left. se_id y \<noteq> se_id x" using same assms(6) o by (metis distinct.simps(2) distinct_append in_set_conv_decomp list.set_intros(2) Un_iff set_append)
  have climbed: "climb m (Some (se_id y)) (Some (se_id eo)) = Some left"
  proof (cases "left = []")
    case True
    then have "y = eo" using walk_last [OF assms(2)] o by simp
    then show ?thesis using True climb_stop [OF refl] by simp
  next
    case False
    then show ?thesis using climb_path [OF assms(1), of "Some (se_id y)" "us @ [y]" eo left] assms(2,4) o us none by simp
  qed
  have "\<forall>i\<in>set (ids ws). i \<notin> set (ids oldPath)" using t(3) by simp
  moreover have "set (ids left) \<subseteq> set (ids oldPath)" using o by auto
  ultimately have "set (ids left) \<inter> set (ids ws) = {}" by blast
  moreover have "oldPath = (us @ [y]) @ left" "targetPath = (us @ [y]) @ ws" using o t(1) us by simp_all
  moreover have "map_option se_id (find (\<lambda>e. se_id e \<in> set (ids oldPath)) (rev targetPath)) = Some (se_id (last (us @ [y])))"
    unfolding Some by simp
  moreover have "(if us @ [y] = [] then None else Some (se_id (last (us @ [y])))) = Some (se_id y)" by simp
  ultimately show ?thesis using climbed
    by (intro exI [of _ "us @ [y]"] exI [of _ left] exI [of _ ws] conjI) (simp_all only: last_snoc)
qed

text \<open>C22: Moving to another leaf leaves behind exactly the part of the old branch that is not shared.\<close>

theorem branch_left_behind:
  assumes "fresh_session s0" "(tree_step ser)\<^sup>*\<^sup>* s0 s" "getEntry s old = Some eo" "getEntry s target = Some et"
  shows "\<exists>shared left right. getBranch s (Some old) = Some (shared @ left) \<and> getBranch s (Some target) = Some (shared @ right) \<and>
    set (ids left) \<inter> set (ids right) = {} \<and>
    collectEntriesForBranchSummary s (Some old) target
      = Some (left, if shared = [] then None else Some (se_id (last shared)))"
proof -
  have ok: "session_ok s" using history.inv_reach assms(1,2) by blast
  have keyed: "keyed (sm_byId s)" using session_okD(4,5) [OF ok] unfolding keyed_def by blast
  have reg: "mget (sm_byId s) (se_id e) = Some e" if "e \<in> set (session_entries s)" for e
    using that mget_by_id [OF session_okD(2) [OF ok]] session_okD(1) [OF ok] by metis
  have o: "eo \<in> set (session_entries s)" "se_id eo = old" and t: "et \<in> set (session_entries s)" "se_id et = target"
    using assms(3,4) session_okD(4) [OF ok] by (simp_all add: getEntry_def)
  obtain p where p: "walk (sm_byId s) eo = Some p" "set p \<subseteq> set (session_entries s)" "distinct p"
    using walk_registered [OF session_okD(2,3) [OF ok] o(1)] session_okD(1) [OF ok] by metis
  obtain q where q: "walk (sm_byId s) et = Some q" "set q \<subseteq> set (session_entries s)"
    using walk_registered [OF session_okD(2,3) [OF ok] t(1)] session_okD(1) [OF ok] by metis
  have b: "getBranch s (Some old) = Some p" "getBranch s (Some target) = Some q"
    using branch_of_entry [OF ok] assms(3,4) p(1) q(1) by (simp_all add: getEntry_def)
  have "old \<noteq> []" using keyed assms(3) by (auto simp: keyed_def getEntry_def)
  then have collect: "collectEntriesForBranchSummary s (Some old) target =
      (let common = map_option se_id (find (\<lambda>e. se_id e \<in> set (ids p)) (rev q))
       in map_option (\<lambda>es. (es, common)) (climb (sm_byId s) common (Some old)))"
    by (simp add: collectEntriesForBranchSummary_def b)
  have "\<forall>x\<in>set p \<union> set q. mget (sm_byId s) (se_id x) = Some x" using reg p(2) q(2) by blast
  then show ?thesis
    using collect_split [OF keyed p(1) q(1) reg [OF o(1)] _ p(3)] b unfolding collect Let_def o(2) by fastforce
qed

section \<open>The window of a branch summary\<close>

definition branch_cost :: "('x ctx_message \<Rightarrow> nat option) \<Rightarrow> 'x session_entry \<Rightarrow> int" where
  "branch_cost chars e = (case branch_message e of None \<Rightarrow> 0 | Some m \<Rightarrow> estimateSerializedBranchTokens chars m)"

definition branch_total :: "('x ctx_message \<Rightarrow> nat option) \<Rightarrow> 'x session_entry list \<Rightarrow> int" where
  "branch_total chars es = sum_list (map (branch_cost chars) es)"

text \<open>What the loop, started on \<open>es\<close> with \<open>used0\<close> already taken, ends with: \<open>used\<close> more entries.\<close>

definition window_ok :: "('x ctx_message \<Rightarrow> nat option) \<Rightarrow> int \<Rightarrow> 'x session_entry list \<Rightarrow> 'x session_entry list
    \<Rightarrow> 'x branch_preparation \<Rightarrow> bool" where
  "window_ok chars budget dropped used p \<longleftrightarrow>
     bp_messages p = List.map_filter branch_message used \<and> bp_totalTokens p = branch_total chars used \<and>
     (budget \<le> 0 \<longrightarrow> dropped = []) \<and>
     (0 < budget \<longrightarrow> branch_total chars used \<le> budget \<or>
        used \<noteq> [] \<and> is_summary_entry (hd used) \<and> 10 * branch_total chars (tl used) < 9 * budget) \<and>
     (dropped \<noteq> [] \<longrightarrow> budget < branch_total chars used \<or> budget < branch_total chars used + branch_cost chars (last dropped))"

lemma branch_total_Cons [simp]: "branch_total chars (e # es) = branch_cost chars e + branch_total chars es"
  by (simp add: branch_total_def)

lemma branch_cost_None: "branch_message e = None \<Longrightarrow> branch_cost chars e = 0"
  by (simp add: branch_cost_def)

lemma branch_walk_window:
  assumes "bp_messages p = List.map_filter branch_message used0" "bp_totalTokens p = branch_total chars used0"
    "0 < budget \<longrightarrow> branch_total chars used0 \<le> budget"
  shows "\<exists>dropped used. rev newest @ used0 = dropped @ used \<and>
    window_ok chars budget dropped used (branch_walk v redact chars budget newest p)"
  using assms
proof (induction newest arbitrary: p used0)
  case Nil
  then show ?case by (intro exI [of _ "[]"] exI [of _ used0]) (simp add: window_ok_def)
next
  case (Cons e newest)
  show ?case
  proof (cases "branch_message e")
    case None
    then have "\<exists>dropped used. rev newest @ (e # used0) = dropped @ used \<and>
        window_ok chars budget dropped used (branch_walk v redact chars budget newest p)"
      using Cons.prems by (intro Cons.IH) (simp_all add: map_filter_simps branch_cost_None)
    then show ?thesis using None by simp
  next
    case (Some m)
    have cost: "branch_cost chars e = estimateSerializedBranchTokens chars m" using Some by (simp add: branch_cost_def)
    define p2 where "p2 = p\<lparr>bp_fileOps := ops_of_message v redact m (bp_fileOps p), bp_messages := m # bp_messages p,
        bp_totalTokens := bp_totalTokens p + branch_cost chars e\<rparr>"
    have p2: "bp_messages p2 = List.map_filter branch_message (e # used0)" "bp_totalTokens p2 = branch_total chars (e # used0)"
      using Cons.prems Some by (simp_all add: p2_def map_filter_simps)
    show ?thesis
    proof (cases "budget > 0 \<and> bp_totalTokens p + branch_cost chars e > budget")
      case over: True
      then have res: "branch_walk v redact chars budget (e # newest) p =
          (if is_summary_entry e \<and> 10 * bp_totalTokens p < 9 * budget then p2
           else p\<lparr>bp_fileOps := ops_of_message v redact m (bp_fileOps p)\<rparr>)"
        using Some cost by (simp add: p2_def Let_def)
      show ?thesis
      proof (cases "is_summary_entry e \<and> 10 * bp_totalTokens p < 9 * budget")
        case True
        have "window_ok chars budget (rev newest) (e # used0) p2"
          using p2 over True Cons.prems(2) by (simp add: window_ok_def add.commute)
        then show ?thesis unfolding res using True by (intro exI [of _ "rev newest"] exI [of _ "e # used0"]) simp
      next
        case False
        have "window_ok chars budget (rev newest @ [e]) used0 (p\<lparr>bp_fileOps := ops_of_message v redact m (bp_fileOps p)\<rparr>)"
          using over Cons.prems by (simp add: window_ok_def)
        then have "window_ok chars budget (rev newest @ [e]) used0 (branch_walk v redact chars budget (e # newest) p)"
          unfolding res if_not_P [OF False] .
        moreover have "rev (e # newest) @ used0 = (rev newest @ [e]) @ used0" by simp
        ultimately show ?thesis by blast
      qed
    next
      case False
      then have res: "branch_walk v redact chars budget (e # newest) p = branch_walk v redact chars budget newest p2"
        using Some cost by (auto simp: p2_def Let_def)
      have "0 < budget \<longrightarrow> branch_total chars (e # used0) \<le> budget" using False Cons.prems(2) by auto
      then show ?thesis unfolding res using Cons.IH [OF p2] by simp
    qed
  qed
qed

text \<open>C23: A branch summary is written from the most recent entries that fit its budget.\<close>

theorem branch_window:
  "\<exists>dropped used. es = dropped @ used \<and> window_ok chars budget dropped used (prepareBranchEntries v redact chars es budget)"
  unfolding prepareBranchEntries_def
  using branch_walk_window [of _ "[]" chars budget "rev es"] by (simp add: branch_total_def map_filter_simps)

section \<open>Witnesses\<close>

definition sample_two :: "unit session" where
  "sample_two = fst (append_body (sample_env 66) user_says sample_one)"

lemma second_step: "sm_step sample_ser sample_one sample_two"
proof -
  have "append_body (sample_env 66) user_says sample_one = (sample_two, snd (append_body (sample_env 66) user_says sample_one))"
    by (simp add: sample_two_def)
  moreover have "uuids_ok (ev_uuid (sample_env 66)) sample_one" by code_simp
  ultimately show ?thesis by (intro st_append) (auto simp: sample_env_def)
qed

theorem branch_left_behind_witness:
  "\<exists>shared left right. getBranch sample_two (Some [66]) = Some (shared @ left) \<and>
     getBranch sample_two (Some [65]) = Some (shared @ right) \<and>
     map_option (map se_id \<circ> fst) (collectEntriesForBranchSummary sample_two (Some [66]) [65]) = Some (map se_id left)"
proof -
  have reach: "(tree_step sample_ser)\<^sup>*\<^sup>* sample_start sample_two"
    using sample_reach second_step by (meson rtranclp.rtrancl_into_rtrancl ts_step)
  have "getEntry sample_two [66] \<noteq> None" "getEntry sample_two [65] \<noteq> None" by code_simp+
  then obtain eo et where "getEntry sample_two [66] = Some eo" "getEntry sample_two [65] = Some et" by auto
  from branch_left_behind [OF sample_fresh reach this] show ?thesis by auto
qed

theorem branch_window_witness:
  "\<exists>dropped used. two_turns = dropped @ used \<and>
     window_ok (\<lambda>m. Some 37) 20 dropped used (prepareBranchEntries text_view id (\<lambda>m. Some 37) two_turns 20)"
  by (rule branch_window)

section \<open>Order of the operations\<close>

text \<open>The walk goes from the newest entry to the oldest, so the sets end with the oldest operations, and these
  are the ones a capped list keeps.\<close>

definition reads :: "jschar \<Rightarrow> string \<Rightarrow> jsstr session_entry" where
  "reads i path = says i ''assistant'' path"

definition reading_view :: "jsstr payload_view" where
  "reading_view = text_view\<lparr>pv_content := (\<lambda>t. Blocks [CallBlock (js ''read'') (JObj [(js ''path'', JStr t)])])\<rparr>"

lemma branch_ops_newest_first:
  "fo_read (bp_fileOps (prepareBranchEntries reading_view id (\<lambda>m. Some 10) [reads 49 ''old.ts'', reads 50 ''new.ts''] 0))
   = [js ''new.ts'', js ''old.ts'']"
  by code_simp

end
