(* ===== verification/SupersedeScan.thy ===== *)
theory SupersedeScan
  imports FileOps
begin

text \<open>
  Which tool results a later call makes stale (core/compaction/prune.ts, the supersede machine, and
  core/lsp/supersede.ts): the resource key of a call, the scan state that is extended over the messages appended
  since the last scan, and the derivation of the stale results from it. \<open>Map\<close>s are association lists. The path
  resolution of the platform, its lower-casing and \<open>String(Math.trunc(n))\<close> on a printed number are the fields of
  an environment.
\<close>


section \<open>Messages\<close>

record tool_use =
  tu_id :: jsstr
  tu_name :: jsstr
  tu_arguments :: jdata

datatype pblock = PText jsstr | PThinking jsstr | PCall tool_use | PMedia

datatype pbody = PString jsstr | PBlocks "pblock list"

datatype pmessage =
    PUser pbody
  | PCustom pbody
  | PAssistant pbody
  | PResult jsstr jsstr bool pbody
  | POther

section \<open>Resource keys\<close>

record path_env =
  pe_resolve :: "jsstr \<Rightarrow> jsstr"
  pe_lower :: "jsstr \<Rightarrow> jsstr"
  pe_caseInsensitive :: bool
  pe_trunc :: "jsstr \<Rightarrow> jsstr"

definition SUPERSEDED_TOOL_RESULT_NAMES :: "jsstr list" where
  "SUPERSEDED_TOOL_RESULT_NAMES =
     [js ''read'', js ''grep'', js ''find'', js ''ls'', js ''symbol'', js ''find_symbol'', js ''lsp'', js ''bash'',
      js ''ast_grep'', js ''repo_map'']"

definition MUTATING_TOOL_NAMES :: "jsstr list" where
  "MUTATING_TOOL_NAMES = [js ''write'', js ''edit'', js ''edit_v2'', js ''ast_edit'']"

definition hex_digit :: "nat \<Rightarrow> jschar" where
  "hex_digit n = (if n < 10 then of_nat (48 + n) else of_nat (87 + n))"

definition unicode_escape :: "jschar \<Rightarrow> jsstr" where
  "unicode_escape c =
     (let n = unat c in [92, 117, hex_digit (n div 4096), hex_digit (n div 256 mod 16), hex_digit (n div 16 mod 16), hex_digit (n mod 16)])"

definition quote_char :: "jschar \<Rightarrow> jsstr" where
  "quote_char c =
     (if c = 34 \<or> c = 92 then [92, c]
      else if c = 8 then [92, 98] else if c = 9 then [92, 116] else if c = 10 then [92, 110]
      else if c = 12 then [92, 102] else if c = 13 then [92, 114]
      else if c < 32 \<or> isHighSurrogate c \<or> isLowSurrogate c then unicode_escape c else [c])"

fun quote_body :: "jsstr \<Rightarrow> jsstr" where
  "quote_body [] = []"
| "quote_body [c] = quote_char c"
| "quote_body (c # d # cs) =
     (if isHighSurrogate c \<and> isLowSurrogate d then c # d # quote_body cs else quote_char c @ quote_body (d # cs))"

text \<open>\<open>JSON.stringify\<close> of a string.\<close>

definition json_quote :: "jsstr \<Rightarrow> jsstr" where
  "json_quote s = [34] @ quote_body s @ [34]"

fun stableStringify :: "jdata \<Rightarrow> jsstr" where
  "stableStringify JNull = js ''null''"
| "stableStringify (JBool b) = (if b then js ''true'' else js ''false'')"
| "stableStringify (JNum t) = t"
| "stableStringify (JStr s) = json_quote s"
| "stableStringify (JArr xs) = js ''['' @ join (js '','') (map stableStringify xs) @ js '']''"
| "stableStringify (JObj fs) =
     js ''{'' @ join (js '','') (map snd (sort_key fst (map (\<lambda>(k, v). (k, json_quote k @ js '':'' @ stableStringify v)) fs))) @ js ''}''"

definition normalizedPathKey :: "path_env \<Rightarrow> jsstr \<Rightarrow> jsstr" where
  "normalizedPathKey env path =
     (let unified = map_backslash (pe_resolve env path) in if pe_caseInsensitive env then pe_lower env unified else unified)"

text \<open>The first key of the list that holds a nonempty string.\<close>

fun first_string :: "tool_args \<Rightarrow> jsstr list \<Rightarrow> jsstr option" where
  "first_string args [] = None"
| "first_string args (k # ks) =
     (case field_string args k of Some (c # cs) \<Rightarrow> Some (c # cs) | _ \<Rightarrow> first_string args ks)"

definition pathArgOf :: "jdata \<Rightarrow> jsstr option" where
  "pathArgOf args = first_string (args_of args) [js ''path'', js ''file'', js ''file_path'', js ''filename'']"

definition READ_KEY_PREFIX :: jsstr where "READ_KEY_PREFIX = js ''read'' @ [0]"

text \<open>\<open>key.split(NUL)\<close>\<close>

fun split_nul :: "jsstr \<Rightarrow> jsstr list" where
  "split_nul [] = [[]]"
| "split_nul (c # cs) =
     (if c = 0 then [] # split_nul cs else (case split_nul cs of [] \<Rightarrow> [[c]] | l # ls \<Rightarrow> (c # l) # ls))"

definition part_of_key :: "jsstr \<Rightarrow> nat \<Rightarrow> jsstr" where
  "part_of_key key n = (let ps = split_nul key in if n < length ps then ps ! n else [])"

definition readKeyPath :: "jsstr \<Rightarrow> jsstr" where
  "readKeyPath key = part_of_key key 1"

definition is_read_key :: "jsstr \<Rightarrow> bool" where
  "is_read_key key \<longleftrightarrow> take (length READ_KEY_PREFIX) key = READ_KEY_PREFIX"

definition isFullReadKey :: "jsstr \<Rightarrow> bool" where
  "isFullReadKey key \<longleftrightarrow>
     is_read_key key \<and> length (split_nul key) > 3 \<and> part_of_key key 2 = [] \<and> part_of_key key 3 = []"

definition LSP_SUPERSEDE_READONLY_ACTIONS :: "jsstr list" where
  "LSP_SUPERSEDE_READONLY_ACTIONS =
     [js ''diagnostics'', js ''definition'', js ''type_definition'', js ''implementation'', js ''references'', js ''hover'',
      js ''symbols'', js ''code_actions'', js ''capabilities'', js ''status'']"

definition stableLspArg :: "path_env \<Rightarrow> jdata option \<Rightarrow> jsstr" where
  "stableLspArg env v =
     (case v of
        Some (JNum t) \<Rightarrow> pe_trunc env t
      | Some (JStr s) \<Rightarrow> s
      | Some (JBool b) \<Rightarrow> if b then js ''1'' else js ''0''
      | _ \<Rightarrow> [])"

definition lspSupersededResourceKey :: "path_env \<Rightarrow> jdata \<Rightarrow> jsstr option" where
  "lspSupersededResourceKey env args =
     (let record1 = args_of args;
          lsp_action = (case field_string record1 (js ''action'') of Some a \<Rightarrow> a | None \<Rightarrow> []);
          parts = filter (\<lambda>p. p \<noteq> []) (map (\<lambda>k. stableLspArg env (map_of record1 k))
                    [js ''file'', js ''timeout'', js ''line'', js ''symbol'', js ''query''])
      in if lsp_action \<notin> set LSP_SUPERSEDE_READONLY_ACTIONS then None
         else if lsp_action = js ''code_actions'' \<and> map_of record1 (js ''apply'') = Some (JBool True) then None
         else Some (join [0] (js ''lsp'' # lsp_action # parts)))"

definition number_field :: "tool_args \<Rightarrow> jsstr \<Rightarrow> jsstr" where
  "number_field args k = (case map_of args k of Some (JNum t) \<Rightarrow> t | _ \<Rightarrow> [])"

definition supersededResourceKey :: "path_env \<Rightarrow> jsstr \<Rightarrow> jdata \<Rightarrow> jsstr option" where
  "supersededResourceKey env toolName args =
     (if toolName \<notin> set SUPERSEDED_TOOL_RESULT_NAMES then None
      else if toolName = js ''lsp'' then lspSupersededResourceKey env args
      else if toolName \<noteq> js ''read'' then Some (toolName @ [0] @ stableStringify args)
      else (case pathArgOf args of
              None \<Rightarrow> None
            | Some path \<Rightarrow>
                Some (READ_KEY_PREFIX @ normalizedPathKey env path @ [0] @ number_field (args_of args) (js ''offset'')
                      @ [0] @ number_field (args_of args) (js ''limit''))))"

section \<open>The scan state\<close>

record mutation_call =
  mc_callIndex :: nat
  mc_pathKey :: jsstr
  mc_displayPath :: jsstr

record unkeyed_result =
  ur_index :: nat
  ur_toolCallId :: jsstr
  ur_isError :: bool

record scan_state =
  scannedLength :: nat
  keyByCallId :: "(jsstr, jsstr) jsmap"
  keyByIndex :: "(nat, jsstr) jsmap"
  lastIndexByKey :: "(jsstr, nat) jsmap"
  lastErrorIndexByKey :: "(jsstr, nat) jsmap"
  unkeyedResults :: "unkeyed_result list"
  mutationCallById :: "(jsstr, mutation_call) jsmap"
  lastMutationByPathKey :: "(jsstr, nat \<times> jsstr) jsmap"
  pendingMutationResults :: "jsstr list"
  grepPathKeyByCallId :: "(jsstr, jsstr) jsmap"
  grepPathKeyByIndex :: "(nat, jsstr) jsmap"
  lastFullReadIndexByPathKey :: "(jsstr, nat) jsmap"

definition createSupersedeScanState :: scan_state where
  "createSupersedeScanState =
     \<lparr> scannedLength = 0, keyByCallId = [], keyByIndex = [], lastIndexByKey = [], lastErrorIndexByKey = [],
       unkeyedResults = [], mutationCallById = [], lastMutationByPathKey = [], pendingMutationResults = [],
       grepPathKeyByCallId = [], grepPathKeyByIndex = [], lastFullReadIndexByPathKey = [] \<rparr>"

text \<open>\<open>if (prev === undefined || index > prev) map.set(key, index)\<close>\<close>

definition bump :: "'k \<Rightarrow> nat \<Rightarrow> ('k, nat) jsmap \<Rightarrow> ('k, nat) jsmap" where
  "bump k i m = (case mget m k of None \<Rightarrow> mset_at k i m | Some p \<Rightarrow> if i > p then mset_at k i m else m)"

definition recordKeyedResult :: "nat \<Rightarrow> jsstr \<Rightarrow> bool \<Rightarrow> scan_state \<Rightarrow> scan_state" where
  "recordKeyedResult i key isError st =
     (let st1 = st\<lparr>keyByIndex := mset_at i key (keyByIndex st), lastIndexByKey := bump key i (lastIndexByKey st)\<rparr>
      in if isError then st1\<lparr>lastErrorIndexByKey := bump key i (lastErrorIndexByKey st)\<rparr>
         else if isFullReadKey key
         then st1\<lparr>lastFullReadIndexByPathKey := bump (readKeyPath key) i (lastFullReadIndexByPathKey st)\<rparr>
         else st1)"

definition recordSuccessfulMutation :: "mutation_call \<Rightarrow> scan_state \<Rightarrow> scan_state" where
  "recordSuccessfulMutation call st =
     (if mc_pathKey call = [] then st
      else let newer = st\<lparr>lastMutationByPathKey :=
                        mset_at (mc_pathKey call) (mc_callIndex call, mc_displayPath call) (lastMutationByPathKey st)\<rparr>
           in case mget (lastMutationByPathKey st) (mc_pathKey call) of
                None \<Rightarrow> newer
              | Some (p, d) \<Rightarrow> if mc_callIndex call > p then newer else st)"

definition ingest_call :: "path_env \<Rightarrow> nat \<Rightarrow> tool_use \<Rightarrow> scan_state \<Rightarrow> scan_state" where
  "ingest_call env i c st =
     (let st1 = (case supersededResourceKey env (tu_name c) (tu_arguments c) of
                   Some k \<Rightarrow> st\<lparr>keyByCallId := mset_at (tu_id c) k (keyByCallId st)\<rparr>
                 | None \<Rightarrow> if tu_name c \<in> set SUPERSEDED_TOOL_RESULT_NAMES
                           then st\<lparr>keyByCallId := mset_at (tu_id c) [] (keyByCallId st)\<rparr> else st);
          path = pathArgOf (tu_arguments c);
          st2 = (if tu_name c = js ''grep''
                 then (case path of
                         Some p \<Rightarrow> st1\<lparr>grepPathKeyByCallId := mset_at (tu_id c) (normalizedPathKey env p) (grepPathKeyByCallId st1)\<rparr>
                       | None \<Rightarrow> st1)
                 else st1)
      in if tu_name c \<in> set MUTATING_TOOL_NAMES
         then st2\<lparr>mutationCallById :=
                mset_at (tu_id c)
                  \<lparr> mc_callIndex = i, mc_pathKey = (case path of Some p \<Rightarrow> normalizedPathKey env p | None \<Rightarrow> []),
                    mc_displayPath = (case path of Some p \<Rightarrow> p | None \<Rightarrow> []) \<rparr> (mutationCallById st2)\<rparr>
         else st2)"

fun ingest_block :: "path_env \<Rightarrow> nat \<Rightarrow> pblock \<Rightarrow> scan_state \<Rightarrow> scan_state" where
  "ingest_block env i (PCall c) st = ingest_call env i c st"
| "ingest_block env i b st = st"

definition ingest_calls_of :: "path_env \<Rightarrow> nat \<Rightarrow> pmessage \<Rightarrow> scan_state \<Rightarrow> scan_state" where
  "ingest_calls_of env i m st =
     (case m of PAssistant (PBlocks bs) \<Rightarrow> fold (ingest_block env i) bs st | _ \<Rightarrow> st)"

definition keyed_result :: "nat \<Rightarrow> jsstr \<Rightarrow> jsstr \<Rightarrow> bool \<Rightarrow> scan_state \<Rightarrow> scan_state" where
  "keyed_result i callId key isError st =
     (let st1 = recordKeyedResult i key isError st
      in case mget (grepPathKeyByCallId st) callId of
           Some p \<Rightarrow> st1\<lparr>grepPathKeyByIndex := mset_at i p (grepPathKeyByIndex st1)\<rparr>
         | None \<Rightarrow> st1)"

definition ingest_result :: "nat \<Rightarrow> pmessage \<Rightarrow> scan_state \<Rightarrow> scan_state" where
  "ingest_result i m st =
     (case m of
        PResult callId toolName isError body \<Rightarrow>
          if toolName \<in> set MUTATING_TOOL_NAMES \<and> \<not> isError then
            (case mget (mutationCallById st) callId of
               None \<Rightarrow> st\<lparr>pendingMutationResults := pendingMutationResults st @ [callId]\<rparr>
             | Some call \<Rightarrow> recordSuccessfulMutation call st)
          else if toolName \<notin> set SUPERSEDED_TOOL_RESULT_NAMES then st
          else (case mget (keyByCallId st) callId of
                  None \<Rightarrow> st\<lparr>unkeyedResults := unkeyedResults st @
                            [\<lparr> ur_index = i, ur_toolCallId = callId, ur_isError = isError \<rparr>]\<rparr>
                | Some key \<Rightarrow> if key = [] then st else keyed_result i callId key isError st)
      | _ \<Rightarrow> st)"

text \<open>The retries: the results whose call is known by now, and the list of those still waiting.\<close>

definition retry_unkeyed :: "unkeyed_result \<Rightarrow> scan_state \<Rightarrow> scan_state" where
  "retry_unkeyed u st =
     (case mget (keyByCallId st) (ur_toolCallId u) of
        None \<Rightarrow> st\<lparr>unkeyedResults := unkeyedResults st @ [u]\<rparr>
      | Some key \<Rightarrow> if key = [] then st else keyed_result (ur_index u) (ur_toolCallId u) key (ur_isError u) st)"

definition retry_pending :: "jsstr \<Rightarrow> scan_state \<Rightarrow> scan_state" where
  "retry_pending callId st =
     (case mget (mutationCallById st) callId of
        None \<Rightarrow> st\<lparr>pendingMutationResults := pendingMutationResults st @ [callId]\<rparr>
      | Some call \<Rightarrow> recordSuccessfulMutation call st)"

definition extendSupersedeScanState :: "path_env \<Rightarrow> pmessage list \<Rightarrow> scan_state \<Rightarrow> scan_state" where
  "extendSupersedeScanState env ms st =
     (let suffix = map (\<lambda>i. (i, ms ! i)) [scannedLength st..<length ms];
          st1 = fold (\<lambda>(i, m). ingest_calls_of env i m) suffix st;
          st2 = fold (\<lambda>(i, m). ingest_result i m) suffix st1;
          st3 = fold retry_unkeyed (unkeyedResults st2) (st2\<lparr>unkeyedResults := []\<rparr>);
          st4 = fold retry_pending (pendingMutationResults st3) (st3\<lparr>pendingMutationResults := []\<rparr>)
      in st4\<lparr>scannedLength := length ms\<rparr>)"

record derivation =
  sd_indices :: "nat list"
  sd_mutationCauses :: "(nat, jsstr) jsmap"

definition derive_entry :: "scan_state \<Rightarrow> nat \<Rightarrow> nat \<times> jsstr \<Rightarrow> derivation \<Rightarrow> derivation" where
  "derive_entry st protectFromIndex e d =
     (case e of (i, key) \<Rightarrow>
        let mark = d\<lparr>sd_indices := sadd i (sd_indices d)\<rparr>;
            grep_case = (case mget (grepPathKeyByIndex st) i of
                           None \<Rightarrow> d
                         | Some p \<Rightarrow> (case mget (lastFullReadIndexByPathKey st) p of
                                        Some j \<Rightarrow> if j > i then mark else d
                                      | None \<Rightarrow> d))
        in if i \<ge> protectFromIndex then d
           else if mget (lastErrorIndexByKey st) key = Some i then d
           else if (case mget (lastIndexByKey st) key of Some l \<Rightarrow> l > i | None \<Rightarrow> False) then mark
           else if is_read_key key
           then (case mget (lastMutationByPathKey st) (readKeyPath key) of
                   Some (j, path) \<Rightarrow> if j > i then mark\<lparr>sd_mutationCauses := mset_at i path (sd_mutationCauses d)\<rparr> else grep_case
                 | None \<Rightarrow> grep_case)
           else grep_case)"

definition deriveSupersededIndices :: "scan_state \<Rightarrow> nat \<Rightarrow> derivation" where
  "deriveSupersededIndices st protectFromIndex =
     fold (derive_entry st protectFromIndex) (keyByIndex st) \<lparr> sd_indices = [], sd_mutationCauses = [] \<rparr>"

text \<open>\<open>cached\<close> is the state the cache holds for this array; the pair gives the state it holds afterwards.\<close>

definition buildSupersededToolResultIndices :: "path_env \<Rightarrow> scan_state option \<Rightarrow> pmessage list \<Rightarrow> nat
    \<Rightarrow> derivation \<times> scan_state" where
  "buildSupersededToolResultIndices env cached ms protectFromIndex =
     (let st0 = (case cached of
                   Some st \<Rightarrow> if length ms < scannedLength st then createSupersedeScanState else st
                 | None \<Rightarrow> createSupersedeScanState);
          st = (if length ms > scannedLength st0 then extendSupersedeScanState env ms st0 else st0)
      in (deriveSupersededIndices st protectFromIndex, st))"

section \<open>What the state records\<close>

text \<open>The greatest index of a set, if any.\<close>

definition newest :: "nat set \<Rightarrow> nat option" where
  "newest S = (if S = {} then None else Some (Max S))"

lemma newest_insert: "finite S \<Longrightarrow> newest (insert i S) = (case newest S of None \<Rightarrow> Some i | Some p \<Rightarrow> if i > p then Some i else Some p)"
  by (cases "S = {}") (auto simp: newest_def max_def simp del: Max_less_iff)

lemma newest_Some: "finite S \<Longrightarrow> newest S = Some m \<longleftrightarrow> m \<in> S \<and> (\<forall>j\<in>S. j \<le> m)"
  by (cases "S = {}") (auto simp: newest_def Max_eq_iff)

lemma newest_above: "finite S \<Longrightarrow> (case newest S of Some m \<Rightarrow> m > i | None \<Rightarrow> False) \<longleftrightarrow> (\<exists>j\<in>S. j > i)"
  by (auto simp: newest_def Max_gr_iff)

lemma mget_bump: "finite S \<Longrightarrow> mget m k = newest S \<Longrightarrow> mget (bump k i m) x = (if x = k then newest (insert i S) else mget m x)"
  by (auto simp: bump_def newest_insert split: option.splits)

text \<open>The calls of the messages with the index of their message, and what is known of a call id.\<close>

fun calls_of_blocks :: "pblock list \<Rightarrow> tool_use list" where
  "calls_of_blocks [] = []"
| "calls_of_blocks (PCall c # bs) = c # calls_of_blocks bs"
| "calls_of_blocks (b # bs) = calls_of_blocks bs"

definition calls_of :: "pmessage \<Rightarrow> tool_use list" where
  "calls_of m = (case m of PAssistant (PBlocks bs) \<Rightarrow> calls_of_blocks bs | _ \<Rightarrow> [])"

fun calls_from :: "nat \<Rightarrow> pmessage list \<Rightarrow> (nat \<times> tool_use) list" where
  "calls_from i [] = []"
| "calls_from i (m # ms) = map (Pair i) (calls_of m) @ calls_from (Suc i) ms"

abbreviation calls_in :: "pmessage list \<Rightarrow> (nat \<times> tool_use) list" where
  "calls_in ms \<equiv> calls_from 0 ms"

definition call_ids :: "(nat \<times> tool_use) list \<Rightarrow> jsstr list" where
  "call_ids cs = map (tu_id \<circ> snd) cs"

definition call_in :: "(nat \<times> tool_use) list \<Rightarrow> jsstr \<Rightarrow> (nat \<times> tool_use) option" where
  "call_in cs i = map_of (map (\<lambda>(j, c). (tu_id c, (j, c))) cs) i"

definition key_in :: "path_env \<Rightarrow> (nat \<times> tool_use) list \<Rightarrow> jsstr \<Rightarrow> jsstr option" where
  "key_in env cs i =
     (case call_in cs i of
        None \<Rightarrow> None
      | Some (j, c) \<Rightarrow> (case supersededResourceKey env (tu_name c) (tu_arguments c) of
                         Some k \<Rightarrow> Some k
                       | None \<Rightarrow> if tu_name c \<in> set SUPERSEDED_TOOL_RESULT_NAMES then Some [] else None))"

definition grep_in :: "path_env \<Rightarrow> (nat \<times> tool_use) list \<Rightarrow> jsstr \<Rightarrow> jsstr option" where
  "grep_in env cs i =
     (case call_in cs i of
        None \<Rightarrow> None
      | Some (j, c) \<Rightarrow> if tu_name c = js ''grep'' then map_option (normalizedPathKey env) (pathArgOf (tu_arguments c)) else None)"

definition mutation_in :: "path_env \<Rightarrow> (nat \<times> tool_use) list \<Rightarrow> jsstr \<Rightarrow> mutation_call option" where
  "mutation_in env cs i =
     (case call_in cs i of
        None \<Rightarrow> None
      | Some (j, c) \<Rightarrow>
          if tu_name c \<in> set MUTATING_TOOL_NAMES
          then (let path = pathArgOf (tu_arguments c)
                in Some \<lparr> mc_callIndex = j, mc_pathKey = (case path of Some p \<Rightarrow> normalizedPathKey env p | None \<Rightarrow> []),
                          mc_displayPath = (case path of Some p \<Rightarrow> p | None \<Rightarrow> []) \<rparr>)
          else None)"

lemma call_in_None: "call_in cs x = None \<longleftrightarrow> x \<notin> set (call_ids cs)"
  by (force simp: call_in_def call_ids_def map_of_eq_None_iff)

lemma call_in_snoc:
  assumes "tu_id c \<notin> set (call_ids cs)"
  shows "call_in (cs @ [(i, c)]) x = (if x = tu_id c then Some (i, c) else call_in cs x)"
  using assms call_in_None [of cs "tu_id c"] by (simp add: call_in_def map_add_def split: option.split)

text \<open>A recorded result: index, call id, whether it is an error.\<close>

type_synonym recorded = "nat \<times> jsstr \<times> bool"

definition indices :: "recorded set \<Rightarrow> (jsstr \<Rightarrow> bool \<Rightarrow> bool) \<Rightarrow> nat set" where
  "indices R P = {i. \<exists>c e. (i, c, e) \<in> R \<and> P c e}"

lemma indices_insert: "indices (insert (i, c, e) R) P = (if P c e then insert i (indices R P) else indices R P)"
  by (auto simp: indices_def)

lemma finite_indices [simp]: "finite R \<Longrightarrow> finite (indices R P)"
  by (rule finite_subset [of _ "fst ` R"]) (force simp: indices_def)+

lemma indices_cong: "(\<And>i c e. (i, c, e) \<in> R \<Longrightarrow> P c e = Q c e) \<Longrightarrow> indices R P = indices R Q"
  unfolding indices_def by blast

definition mutated_at :: "path_env \<Rightarrow> (nat \<times> tool_use) list \<Rightarrow> jsstr set \<Rightarrow> jsstr \<Rightarrow> nat set" where
  "mutated_at env cs M p = {j. p \<noteq> [] \<and> (\<exists>c\<in>M. \<exists>call. mutation_in env cs c = Some call \<and> mc_pathKey call = p \<and> mc_callIndex call = j)}"

lemma finite_mutated_at [simp]: "finite M \<Longrightarrow> finite (mutated_at env cs M p)"
  by (rule finite_subset [of _ "(\<lambda>c. mc_callIndex (the (mutation_in env cs c))) ` M"]) (force simp: mutated_at_def)+

definition full_read_of :: "path_env \<Rightarrow> (nat \<times> tool_use) list \<Rightarrow> jsstr \<Rightarrow> jsstr \<Rightarrow> bool \<Rightarrow> bool" where
  "full_read_of env cs p c e \<longleftrightarrow> \<not> e \<and> (\<exists>k. key_in env cs c = Some k \<and> isFullReadKey k \<and> readKeyPath k = p)"

definition scan_ok :: "path_env \<Rightarrow> (nat \<times> tool_use) list \<Rightarrow> recorded set \<Rightarrow> jsstr set \<Rightarrow> scan_state \<Rightarrow> bool" where
  "scan_ok env cs R M st \<longleftrightarrow>
     (\<forall>x. mget (keyByCallId st) x = key_in env cs x) \<and>
     (\<forall>x. mget (grepPathKeyByCallId st) x = grep_in env cs x) \<and>
     (\<forall>x. mget (mutationCallById st) x = mutation_in env cs x) \<and>
     finite R \<and> finite M \<and> map_ok (keyByIndex st) \<and>
     (\<forall>(i, c, e)\<in>R. \<exists>k. k \<noteq> [] \<and> key_in env cs c = Some k) \<and>
     (\<forall>c\<in>M. mutation_in env cs c \<noteq> None) \<and>
     (\<forall>i k. mget (keyByIndex st) i = Some k \<longleftrightarrow> i \<in> indices R (\<lambda>c e. key_in env cs c = Some k)) \<and>
     (\<forall>i p. mget (grepPathKeyByIndex st) i = Some p \<longleftrightarrow> i \<in> indices R (\<lambda>c e. grep_in env cs c = Some p)) \<and>
     (\<forall>k. mget (lastIndexByKey st) k = newest (indices R (\<lambda>c e. key_in env cs c = Some k))) \<and>
     (\<forall>k. mget (lastErrorIndexByKey st) k = newest (indices R (\<lambda>c e. e \<and> key_in env cs c = Some k))) \<and>
     (\<forall>p. mget (lastFullReadIndexByPathKey st) p = newest (indices R (full_read_of env cs p))) \<and>
     (\<forall>p. map_option fst (mget (lastMutationByPathKey st) p) = newest (mutated_at env cs M p))"

lemma scan_okD:
  assumes "scan_ok env cs R M st"
  shows "mget (keyByCallId st) x = key_in env cs x" "mget (grepPathKeyByCallId st) x = grep_in env cs x"
    "mget (mutationCallById st) x = mutation_in env cs x" "finite R" "finite M" "map_ok (keyByIndex st)"
    "(i, c, e) \<in> R \<Longrightarrow> \<exists>k. k \<noteq> [] \<and> key_in env cs c = Some k" "c \<in> M \<Longrightarrow> mutation_in env cs c \<noteq> None"
    "mget (keyByIndex st) i = Some k \<longleftrightarrow> i \<in> indices R (\<lambda>c e. key_in env cs c = Some k)"
    "mget (grepPathKeyByIndex st) i = Some p \<longleftrightarrow> i \<in> indices R (\<lambda>c e. grep_in env cs c = Some p)"
    "mget (lastIndexByKey st) k = newest (indices R (\<lambda>c e. key_in env cs c = Some k))"
    "mget (lastErrorIndexByKey st) k = newest (indices R (\<lambda>c e. e \<and> key_in env cs c = Some k))"
    "mget (lastFullReadIndexByPathKey st) p = newest (indices R (full_read_of env cs p))"
    "map_option fst (mget (lastMutationByPathKey st) p) = newest (mutated_at env cs M p)"
  using assms unfolding scan_ok_def by blast+

text \<open>A call with a new id changes nothing that is known of the calls before it.\<close>

lemma known_snoc:
  assumes "tu_id c \<notin> set (call_ids cs)"
  shows "x \<noteq> tu_id c \<Longrightarrow> key_in env (cs @ [(i, c)]) x = key_in env cs x"
    "x \<noteq> tu_id c \<Longrightarrow> grep_in env (cs @ [(i, c)]) x = grep_in env cs x"
    "x \<noteq> tu_id c \<Longrightarrow> mutation_in env (cs @ [(i, c)]) x = mutation_in env cs x"
    "key_in env cs (tu_id c) = None" "grep_in env cs (tu_id c) = None" "mutation_in env cs (tu_id c) = None"
  using assms by (simp_all add: key_in_def grep_in_def mutation_in_def call_in_snoc iffD2 [OF call_in_None])

lemma ingest_call_maps:
  assumes "tu_id c \<notin> set (call_ids cs)" "\<And>x. mget (keyByCallId st) x = key_in env cs x"
    "\<And>x. mget (grepPathKeyByCallId st) x = grep_in env cs x" "\<And>x. mget (mutationCallById st) x = mutation_in env cs x"
  shows "mget (keyByCallId (ingest_call env i c st)) x = key_in env (cs @ [(i, c)]) x"
    "mget (grepPathKeyByCallId (ingest_call env i c st)) x = grep_in env (cs @ [(i, c)]) x"
    "mget (mutationCallById (ingest_call env i c st)) x = mutation_in env (cs @ [(i, c)]) x"
proof -
  show "mget (keyByCallId (ingest_call env i c st)) x = key_in env (cs @ [(i, c)]) x"
    using assms(2) known_snoc(1,4) [OF assms(1)]
    by (auto simp: ingest_call_def Let_def key_in_def [of env "cs @ [(i, c)]"] call_in_snoc [OF assms(1)] key_in_def split: option.split)
  show "mget (grepPathKeyByCallId (ingest_call env i c st)) x = grep_in env (cs @ [(i, c)]) x"
    using assms(3) known_snoc(2,5) [OF assms(1)]
    by (auto simp: ingest_call_def Let_def grep_in_def [of env "cs @ [(i, c)]"] call_in_snoc [OF assms(1)] grep_in_def split: option.split)
  show "mget (mutationCallById (ingest_call env i c st)) x = mutation_in env (cs @ [(i, c)]) x"
    using assms(4) known_snoc(3,6) [OF assms(1)]
    by (auto simp: ingest_call_def Let_def mutation_in_def [of env "cs @ [(i, c)]"] call_in_snoc [OF assms(1)] mutation_in_def split: option.split)
qed

lemma ingest_call_rest [simp]:
  "scannedLength (ingest_call env i c st) = scannedLength st" "keyByIndex (ingest_call env i c st) = keyByIndex st"
  "lastIndexByKey (ingest_call env i c st) = lastIndexByKey st" "lastErrorIndexByKey (ingest_call env i c st) = lastErrorIndexByKey st"
  "unkeyedResults (ingest_call env i c st) = unkeyedResults st" "lastMutationByPathKey (ingest_call env i c st) = lastMutationByPathKey st"
  "pendingMutationResults (ingest_call env i c st) = pendingMutationResults st"
  "grepPathKeyByIndex (ingest_call env i c st) = grepPathKeyByIndex st"
  "lastFullReadIndexByPathKey (ingest_call env i c st) = lastFullReadIndexByPathKey st"
  by (simp_all add: ingest_call_def Let_def split: option.split)

lemma scan_ok_call:
  assumes ok: "scan_ok env cs R M st" and new: "tu_id c \<notin> set (call_ids cs)"
  shows "scan_ok env (cs @ [(j, c)]) R M (ingest_call env j c st)"
proof -
  have old: "x \<noteq> tu_id c" if "(i, x, e) \<in> R" for i x e
    using scan_okD(7) [OF ok that] known_snoc(4) [OF new, of env] by auto
  have oldM: "x \<noteq> tu_id c" if "x \<in> M" for x
    using scan_okD(8) [OF ok that] known_snoc(6) [OF new, of env] by auto
  note same = known_snoc(1-3) [OF new, of _ env j]
  have i1: "indices R (\<lambda>x e. key_in env (cs @ [(j, c)]) x = Some k) = indices R (\<lambda>x e. key_in env cs x = Some k)" for k
    by (rule indices_cong) (simp add: same(1) old)
  have i2: "indices R (\<lambda>x e. grep_in env (cs @ [(j, c)]) x = Some k) = indices R (\<lambda>x e. grep_in env cs x = Some k)" for k
    by (rule indices_cong) (simp add: same(2) old)
  have i3: "indices R (\<lambda>x e. e \<and> key_in env (cs @ [(j, c)]) x = Some k) = indices R (\<lambda>x e. e \<and> key_in env cs x = Some k)" for k
    by (rule indices_cong) (simp add: same(1) old)
  have i4: "indices R (full_read_of env (cs @ [(j, c)]) p) = indices R (full_read_of env cs p)" for p
    by (rule indices_cong) (simp add: full_read_of_def same(1) old)
  have i5: "mutated_at env (cs @ [(j, c)]) M p = mutated_at env cs M p" for p
    unfolding mutated_at_def using same(3) oldM by (metis (no_types, opaque_lifting))
  note D = scan_okD [OF ok]
  show ?thesis
    unfolding scan_ok_def i1 i2 i3 i4 i5 ingest_call_rest
    using ingest_call_maps [OF new D(1-3)] D(4-6,9-14) D(7) D(8) old oldM same
    by (intro conjI allI) (auto 0 3)
qed

lemma keyed_result_rest [simp]:
  "scannedLength (keyed_result i c k e st) = scannedLength st" "keyByCallId (keyed_result i c k e st) = keyByCallId st"
  "unkeyedResults (keyed_result i c k e st) = unkeyedResults st" "mutationCallById (keyed_result i c k e st) = mutationCallById st"
  "lastMutationByPathKey (keyed_result i c k e st) = lastMutationByPathKey st"
  "pendingMutationResults (keyed_result i c k e st) = pendingMutationResults st"
  "grepPathKeyByCallId (keyed_result i c k e st) = grepPathKeyByCallId st"
  by (simp_all add: keyed_result_def recordKeyedResult_def Let_def split: option.split)

lemma keyed_result_sets:
  "keyByIndex (keyed_result i c k e st) = mset_at i k (keyByIndex st)"
  "lastIndexByKey (keyed_result i c k e st) = bump k i (lastIndexByKey st)"
  "lastErrorIndexByKey (keyed_result i c k e st) = (if e then bump k i (lastErrorIndexByKey st) else lastErrorIndexByKey st)"
  "lastFullReadIndexByPathKey (keyed_result i c k e st) =
     (if \<not> e \<and> isFullReadKey k then bump (readKeyPath k) i (lastFullReadIndexByPathKey st) else lastFullReadIndexByPathKey st)"
  "grepPathKeyByIndex (keyed_result i c k e st) =
     (case mget (grepPathKeyByCallId st) c of Some p \<Rightarrow> mset_at i p (grepPathKeyByIndex st) | None \<Rightarrow> grepPathKeyByIndex st)"
  by (simp_all add: keyed_result_def recordKeyedResult_def Let_def split: option.split)

text \<open>Recording a result adds it to the set, whichever position it comes from.\<close>

lemma scan_ok_result:
  assumes ok: "scan_ok env cs R M st" and key: "key_in env cs c = Some k" "k \<noteq> []"
    and unique: "\<And>c' e'. (i, c', e') \<in> R \<Longrightarrow> c' = c \<and> e' = e"
  shows "scan_ok env cs (insert (i, c, e) R) M (keyed_result i c k e st)"
proof -
  note D = scan_okD [OF ok]
  have k1: "mget (keyByIndex (keyed_result i c k e st)) x = Some k' \<longleftrightarrow>
      x \<in> indices (insert (i, c, e) R) (\<lambda>c e. key_in env cs c = Some k')" for x k'
    using D(9) [of x k'] key unique by (auto simp: keyed_result_sets indices_def)
  have k2: "mget (grepPathKeyByIndex (keyed_result i c k e st)) x = Some p \<longleftrightarrow>
      x \<in> indices (insert (i, c, e) R) (\<lambda>c e. grep_in env cs c = Some p)" for x p
    using D(10) [of x p] D(2) [of c] unique by (auto simp: keyed_result_sets indices_def split: option.splits)
  have k3: "mget (lastIndexByKey (keyed_result i c k e st)) x = newest (indices (insert (i, c, e) R) (\<lambda>c e. key_in env cs c = Some x))" for x
    using mget_bump [OF _ D(11) [of k], of i x] D(4,11) key by (auto simp: keyed_result_sets indices_insert)
  have k4: "mget (lastErrorIndexByKey (keyed_result i c k e st)) x =
      newest (indices (insert (i, c, e) R) (\<lambda>c e. e \<and> key_in env cs c = Some x))" for x
    using mget_bump [OF _ D(12) [of k], of i x] D(4,12) key by (auto simp: keyed_result_sets indices_insert)
  have full: "full_read_of env cs p c e \<longleftrightarrow> \<not> e \<and> isFullReadKey k \<and> readKeyPath k = p" for p
    using key(1) by (simp add: full_read_of_def)
  have k5: "mget (lastFullReadIndexByPathKey (keyed_result i c k e st)) p = newest (indices (insert (i, c, e) R) (full_read_of env cs p))" for p
    using mget_bump [OF _ D(13) [of "readKeyPath k"], of i p] D(4,13) by (auto simp: keyed_result_sets indices_insert full)
  show ?thesis
    unfolding scan_ok_def keyed_result_rest
    using D(1-6) D(7) D(8) D(14) key k1 k2 k3 k4 k5
    by (intro conjI allI) (auto simp: keyed_result_sets)
qed

lemma scan_ok_mutation:
  assumes ok: "scan_ok env cs R M st" and call: "mutation_in env cs c = Some call"
  shows "scan_ok env cs R (insert c M) (recordSuccessfulMutation call st)"
proof -
  note D = scan_okD [OF ok]
  have at: "mutated_at env cs (insert c M) p = (if p = mc_pathKey call \<and> p \<noteq> [] then insert (mc_callIndex call) (mutated_at env cs M p)
      else mutated_at env cs M p)" for p
    using call by (auto simp: mutated_at_def)
  have last: "map_option fst (mget (lastMutationByPathKey (recordSuccessfulMutation call st)) p) = newest (mutated_at env cs (insert c M) p)" for p
    using D(14) [of p] D(5) by (auto simp: recordSuccessfulMutation_def Let_def at newest_insert split: option.splits)
  have rest: "keyByCallId (recordSuccessfulMutation call st) = keyByCallId st" "keyByIndex (recordSuccessfulMutation call st) = keyByIndex st"
    "lastIndexByKey (recordSuccessfulMutation call st) = lastIndexByKey st" "lastErrorIndexByKey (recordSuccessfulMutation call st) = lastErrorIndexByKey st"
    "mutationCallById (recordSuccessfulMutation call st) = mutationCallById st" "grepPathKeyByCallId (recordSuccessfulMutation call st) = grepPathKeyByCallId st"
    "grepPathKeyByIndex (recordSuccessfulMutation call st) = grepPathKeyByIndex st"
    "lastFullReadIndexByPathKey (recordSuccessfulMutation call st) = lastFullReadIndexByPathKey st"
    by (simp_all add: recordSuccessfulMutation_def Let_def split: option.split)
  show ?thesis
    unfolding scan_ok_def rest using D(1-6) D(7) D(8) D(9-13) call last by (intro conjI allI) auto
qed

section \<open>A scan in pieces\<close>

definition counts_as_view :: "jsstr \<Rightarrow> bool \<Rightarrow> bool" where
  "counts_as_view name e \<longleftrightarrow> \<not> (name \<in> set MUTATING_TOOL_NAMES \<and> \<not> e) \<and> name \<in> set SUPERSEDED_TOOL_RESULT_NAMES"

definition view_results :: "pmessage list \<Rightarrow> nat \<Rightarrow> recorded set" where
  "view_results ms n = {(i, c, e). i < n \<and> i < length ms \<and> (\<exists>name body. ms ! i = PResult c name e body \<and> counts_as_view name e)}"

definition write_results :: "pmessage list \<Rightarrow> nat \<Rightarrow> jsstr set" where
  "write_results ms n =
     {c. \<exists>i<n. i < length ms \<and> (\<exists>name body. ms ! i = PResult c name False body \<and> name \<in> set MUTATING_TOOL_NAMES)}"

definition waiting_of :: "unkeyed_result \<Rightarrow> recorded" where
  "waiting_of u = (ur_index u, ur_toolCallId u, ur_isError u)"

definition progress :: "path_env \<Rightarrow> pmessage list \<Rightarrow> (nat \<times> tool_use) list \<Rightarrow> nat \<Rightarrow> recorded set \<Rightarrow> jsstr set
    \<Rightarrow> recorded set \<Rightarrow> jsstr set \<Rightarrow> scan_state \<Rightarrow> bool" where
  "progress env ms cs n R M W P st \<longleftrightarrow>
     scan_ok env cs R M st \<and> R \<union> W \<subseteq> view_results ms n \<and>
     (\<forall>x\<in>view_results ms n. x \<in> R \<union> W \<or> key_in env cs (fst (snd x)) = Some []) \<and>
     M \<union> P = write_results ms n"

lemma progressD:
  assumes "progress env ms cs n R M W P st"
  shows "scan_ok env cs R M st" "R \<union> W \<subseteq> view_results ms n"
    "x \<in> view_results ms n \<Longrightarrow> x \<in> R \<union> W \<or> key_in env cs (fst (snd x)) = Some []"
    "M \<union> P = write_results ms n"
  using assms unfolding progress_def by blast+

abbreviation waiting :: "scan_state \<Rightarrow> recorded set" where
  "waiting st \<equiv> waiting_of ` set (unkeyedResults st)"

abbreviation pending :: "scan_state \<Rightarrow> jsstr set" where
  "pending st \<equiv> set (pendingMutationResults st)"

lemma view_results_unique: "(i, c, e) \<in> view_results ms n \<Longrightarrow> (i, c', e') \<in> view_results ms m \<Longrightarrow> c' = c \<and> e' = e"
  by (auto simp: view_results_def)

lemma progress_call:
  assumes "progress env ms cs n R M W P st" "tu_id c \<notin> set (call_ids cs)"
  shows "progress env ms (cs @ [(j, c)]) n R M W P (ingest_call env j c st)"
proof -
  note D = progressD [OF assms(1)]
  have "key_in env (cs @ [(j, c)]) x = Some []" if "key_in env cs x = Some []" for x
    using that known_snoc(1,4) [OF assms(2)] by (metis option.distinct(1))
  then show ?thesis using D scan_ok_call [OF D(1) assms(2)] unfolding progress_def by blast
qed

lemma progress_blocks:
  "progress env ms cs n R M W P st \<Longrightarrow> distinct (call_ids (cs @ map (Pair j) (calls_of_blocks bs))) \<Longrightarrow>
   progress env ms (cs @ map (Pair j) (calls_of_blocks bs)) n R M W P (fold (ingest_block env j) bs st) \<and>
   unkeyedResults (fold (ingest_block env j) bs st) = unkeyedResults st \<and>
   pendingMutationResults (fold (ingest_block env j) bs st) = pendingMutationResults st"
proof (induction bs arbitrary: cs st)
  case (Cons b bs)
  show ?case
  proof (cases b)
    case (PCall c)
    have new: "tu_id c \<notin> set (call_ids cs)" using Cons.prems(2) PCall by (auto simp: call_ids_def)
    show ?thesis using Cons.IH [OF progress_call [OF Cons.prems(1) new, of j]] Cons.prems(2) PCall by simp
  qed (use Cons in simp_all)
qed simp

lemma progress_calls_of:
  assumes "progress env ms cs n R M W P st" "distinct (call_ids (cs @ map (Pair j) (calls_of m)))"
  shows "progress env ms (cs @ map (Pair j) (calls_of m)) n R M W P (ingest_calls_of env j m st) \<and>
    unkeyedResults (ingest_calls_of env j m st) = unkeyedResults st \<and>
    pendingMutationResults (ingest_calls_of env j m st) = pendingMutationResults st"
proof (cases "\<exists>bs. m = PAssistant (PBlocks bs)")
  case True
  then obtain bs where "m = PAssistant (PBlocks bs)" by blast
  then show ?thesis using progress_blocks [OF assms(1), of j bs] assms(2) by (simp add: calls_of_def ingest_calls_of_def)
next
  case False
  then show ?thesis using assms(1) by (auto simp: calls_of_def ingest_calls_of_def split: pmessage.split pbody.split)
qed

lemma calls_from_snoc: "calls_from i (ms @ [m]) = calls_from i ms @ map (Pair (i + length ms)) (calls_of m)"
  by (induction ms arbitrary: i) simp_all

lemma calls_in_take_Suc: "n < length ms \<Longrightarrow> calls_in (take (Suc n) ms) = calls_in (take n ms) @ map (Pair n) (calls_of (ms ! n))"
  by (simp add: take_Suc_conv_app_nth calls_from_snoc)

lemma calls_from_append: "calls_from i (xs @ ys) = calls_from i xs @ calls_from (i + length xs) ys"
  by (induction xs arbitrary: i) simp_all

lemma call_ids_append [simp]: "call_ids (xs @ ys) = call_ids xs @ call_ids ys"
  by (simp add: call_ids_def)

lemma distinct_calls_take: "distinct (call_ids (calls_in ms)) \<Longrightarrow> distinct (call_ids (calls_in (take n ms)))"
  using calls_from_append [of 0 "take n ms" "drop n ms"] by simp

lemma progress_all_calls:
  assumes "distinct (call_ids (calls_in ms))" "progress env ms (calls_in (take a ms)) n R M W P st"
  shows "a \<le> b \<Longrightarrow> b \<le> length ms \<Longrightarrow>
    progress env ms (calls_in (take b ms)) n R M W P (fold (\<lambda>(i, m). ingest_calls_of env i m) (map (\<lambda>i. (i, ms ! i)) [a..<b]) st) \<and>
    unkeyedResults (fold (\<lambda>(i, m). ingest_calls_of env i m) (map (\<lambda>i. (i, ms ! i)) [a..<b]) st) = unkeyedResults st \<and>
    pendingMutationResults (fold (\<lambda>(i, m). ingest_calls_of env i m) (map (\<lambda>i. (i, ms ! i)) [a..<b]) st) = pendingMutationResults st"
proof (induction b)
  case 0
  then show ?case using assms(2) by simp
next
  case (Suc b)
  show ?case
  proof (cases "a \<le> b")
    case False
    then show ?thesis using Suc.prems assms(2) by (simp add: le_Suc_eq)
  next
    case True
    let ?st = "fold (\<lambda>(i, m). ingest_calls_of env i m) (map (\<lambda>i. (i, ms ! i)) [a..<b]) st"
    have b: "b < length ms" using Suc.prems by simp
    have IH: "progress env ms (calls_in (take b ms)) n R M W P ?st"
      "unkeyedResults ?st = unkeyedResults st" "pendingMutationResults ?st = pendingMutationResults st"
      using Suc.IH [OF True] b by simp_all
    have d: "distinct (call_ids (calls_in (take b ms) @ map (Pair b) (calls_of (ms ! b))))"
      using distinct_calls_take [OF assms(1), of "Suc b"] unfolding calls_in_take_Suc [OF b] .
    show ?thesis
      using progress_calls_of [OF IH(1) d] IH(2,3) True by (simp add: calls_in_take_Suc [OF b])
  qed
qed

lemma view_results_Suc:
  "n < length ms \<Longrightarrow> view_results ms (Suc n) = view_results ms n \<union>
     {(i, c, e). i = n \<and> (\<exists>name body. ms ! n = PResult c name e body \<and> counts_as_view name e)}"
  by (auto simp: view_results_def less_Suc_eq)

lemma write_results_Suc:
  "n < length ms \<Longrightarrow> write_results ms (Suc n) = write_results ms n \<union>
     {c. \<exists>name body. ms ! n = PResult c name False body \<and> name \<in> set MUTATING_TOOL_NAMES}"
  by (auto simp: write_results_def less_Suc_eq)

lemma names_disjoint: "name \<in> set MUTATING_TOOL_NAMES \<Longrightarrow> name \<notin> set SUPERSEDED_TOOL_RESULT_NAMES"
proof -
  have "list_all (\<lambda>name. name \<notin> set SUPERSEDED_TOOL_RESULT_NAMES) MUTATING_TOOL_NAMES" by code_simp
  then show "name \<in> set MUTATING_TOOL_NAMES \<Longrightarrow> name \<notin> set SUPERSEDED_TOOL_RESULT_NAMES" by (simp add: list_all_iff)
qed

lemma scan_ok_lists [simp]:
  "scan_ok env cs R M (st\<lparr>unkeyedResults := us\<rparr>) = scan_ok env cs R M st"
  "scan_ok env cs R M (st\<lparr>pendingMutationResults := ps\<rparr>) = scan_ok env cs R M st"
  "scan_ok env cs R M (st\<lparr>scannedLength := n\<rparr>) = scan_ok env cs R M st"
  by (simp_all add: scan_ok_def)

lemma recordSuccessfulMutation_rest [simp]:
  "unkeyedResults (recordSuccessfulMutation call st) = unkeyedResults st"
  "pendingMutationResults (recordSuccessfulMutation call st) = pendingMutationResults st"
  "keyByCallId (recordSuccessfulMutation call st) = keyByCallId st"
  "mutationCallById (recordSuccessfulMutation call st) = mutationCallById st"
  by (simp_all add: recordSuccessfulMutation_def Let_def split: option.split)


text \<open>One more message, by what its result counts as.\<close>

lemma write_or_view: "counts_as_view name e \<Longrightarrow> name \<in> set MUTATING_TOOL_NAMES \<Longrightarrow> e"
  by (auto simp: counts_as_view_def)

lemma next_results:
  assumes "n < length ms"
  shows "ms ! n = PResult c name e body \<Longrightarrow> counts_as_view name e \<Longrightarrow>
      view_results ms (Suc n) = insert (n, c, e) (view_results ms n) \<and> write_results ms (Suc n) = write_results ms n"
    "ms ! n = PResult c name False body \<Longrightarrow> name \<in> set MUTATING_TOOL_NAMES \<Longrightarrow>
      view_results ms (Suc n) = view_results ms n \<and> write_results ms (Suc n) = insert c (write_results ms n)"
    "(\<And>c name e body. ms ! n = PResult c name e body \<Longrightarrow>
        \<not> counts_as_view name e \<and> \<not> (name \<in> set MUTATING_TOOL_NAMES \<and> \<not> e)) \<Longrightarrow>
      view_results ms (Suc n) = view_results ms n \<and> write_results ms (Suc n) = write_results ms n"
  unfolding view_results_Suc [OF assms] write_results_Suc [OF assms]
  using names_disjoint by (auto simp: counts_as_view_def)

definition scanning :: "path_env \<Rightarrow> pmessage list \<Rightarrow> (nat \<times> tool_use) list \<Rightarrow> nat \<Rightarrow> scan_state \<Rightarrow> bool" where
  "scanning env ms cs n st \<longleftrightarrow> (\<exists>R M. progress env ms cs n R M (waiting st) (pending st) st)"

lemma progress_keyed:
  assumes "progress env ms cs n R M W P st" "key_in env cs c = Some k" "k \<noteq> []"
    and v: "view_results ms m = insert (i, c, e) (view_results ms n)" "write_results ms m = write_results ms n"
  shows "progress env ms cs m (insert (i, c, e) R) M W P (keyed_result i c k e st)"
proof -
  note D = progressD [OF assms(1)]
  have "c' = c \<and> e' = e" if "(i, c', e') \<in> R" for c' e'
    using that D(2) v(1) view_results_unique [of i c e ms m c' e' n] by blast
  then show ?thesis
    using scan_ok_result [OF D(1) assms(2,3), of i e] D(2-4) v unfolding progress_def by blast
qed

lemma progress_mutation:
  assumes "progress env ms cs n R M W P st" "mutation_in env cs c = Some call"
    and v: "view_results ms m = view_results ms n" "write_results ms m = insert c (write_results ms n)"
  shows "progress env ms cs m R (insert c M) W P (recordSuccessfulMutation call st)"
  using progressD [OF assms(1)] scan_ok_mutation [OF _ assms(2)] v unfolding progress_def by blast

lemma keyed_waiting [simp]: "waiting (keyed_result i c k e st) = waiting st" "pending (keyed_result i c k e st) = pending st"
  by simp_all

lemma progress_wait:
  assumes "progress env ms cs n R M W P st"
    and "view_results ms m = insert x (view_results ms n)" "write_results ms m = write_results ms n"
  shows "progress env ms cs m R M (insert x W) P (st\<lparr>unkeyedResults := us\<rparr>)"
  using assms unfolding progress_def by auto

lemma progress_pend:
  assumes "progress env ms cs n R M W P st"
    and "view_results ms m = view_results ms n" "write_results ms m = insert c (write_results ms n)"
  shows "progress env ms cs m R M W (insert c P) (st\<lparr>pendingMutationResults := ps\<rparr>)"
  using assms unfolding progress_def by auto

lemma progress_skip:
  assumes "progress env ms cs n R M W P st" "key_in env cs c = Some []"
    and "view_results ms m = insert (i, c, e) (view_results ms n)" "write_results ms m = write_results ms n"
  shows "progress env ms cs m R M W P st"
  using assms unfolding progress_def by auto

lemma progress_same:
  assumes "progress env ms cs n R M W P st" "view_results ms m = view_results ms n" "write_results ms m = write_results ms n"
  shows "progress env ms cs m R M W P st"
  using assms unfolding progress_def by auto


lemma scanningI: "progress env ms cs n R M (waiting st) (pending st) st \<Longrightarrow> scanning env ms cs n st"
  unfolding scanning_def by blast

lemma scanning_result:
  assumes "scanning env ms cs n st" and n: "n < length ms"
  shows "scanning env ms cs (Suc n) (ingest_result n (ms ! n) st)"
proof -
  obtain R M where p: "progress env ms cs n R M (waiting st) (pending st) st" using assms(1) unfolding scanning_def by blast
  note D = scan_okD(1,3) [OF progressD(1) [OF p]]
  show ?thesis
  proof (cases "\<exists>c name e body. ms ! n = PResult c name e body \<and> (counts_as_view name e \<or> name \<in> set MUTATING_TOOL_NAMES \<and> \<not> e)")
    case False
    then have v: "view_results ms (Suc n) = view_results ms n \<and> write_results ms (Suc n) = write_results ms n"
      by (intro next_results(3) [OF n]) blast
    have "ingest_result n (ms ! n) st = st"
      using False by (auto simp: ingest_result_def counts_as_view_def split: pmessage.split)
    then show ?thesis using progress_same [OF p, of "Suc n"] v by (auto intro: scanningI)
  next
    case True
    then obtain c name e body where m: "ms ! n = PResult c name e body"
      and k: "counts_as_view name e \<or> name \<in> set MUTATING_TOOL_NAMES \<and> \<not> e" by blast
    show ?thesis
    proof (cases "counts_as_view name e")
      case True
      note v = next_results(1) [OF n m True, THEN conjunct1] next_results(1) [OF n m True, THEN conjunct2]
      have i: "ingest_result n (ms ! n) st =
          (case key_in env cs c of
             None \<Rightarrow> st\<lparr>unkeyedResults := unkeyedResults st @ [\<lparr>ur_index = n, ur_toolCallId = c, ur_isError = e\<rparr>]\<rparr>
           | Some k \<Rightarrow> if k = [] then st else keyed_result n c k e st)"
        using True by (auto simp: m ingest_result_def counts_as_view_def D)
      consider "key_in env cs c = None" | "key_in env cs c = Some []" | k where "key_in env cs c = Some k" "k \<noteq> []" by blast
      then show ?thesis
      proof cases
        case 1
        then show ?thesis using progress_wait [OF p v, of "unkeyedResults (ingest_result n (ms ! n) st)"]
          by (intro scanningI [of _ _ _ _ R M]) (simp add: i waiting_of_def)
      next
        case 2
        then show ?thesis using progress_skip [OF p 2 v] by (intro scanningI [of _ _ _ _ R M]) (simp add: i)
      next
        case (3 k)
        then show ?thesis using progress_keyed [OF p 3 v] by (intro scanningI [of _ _ _ _ "insert (n, c, e) R" M]) (simp add: i)
      qed
    next
      case False
      then have w: "name \<in> set MUTATING_TOOL_NAMES" "\<not> e" using k by blast+
      have m': "ms ! n = PResult c name False body" using m w(2) by simp
      note v = next_results(2) [OF n m' w(1), THEN conjunct1] next_results(2) [OF n m' w(1), THEN conjunct2]
      show ?thesis
      proof (cases "mutation_in env cs c")
        case None
        then show ?thesis using progress_pend [OF p v, of "pendingMutationResults st @ [c]"] w
          by (intro scanningI [of _ _ _ _ R M]) (simp add: m' ingest_result_def D)
      next
        case (Some call)
        then show ?thesis using progress_mutation [OF p Some v] w
          by (intro scanningI [of _ _ _ _ R "insert c M"]) (simp add: m' ingest_result_def D)
      qed
    qed
  qed
qed

lemma scanning_results:
  assumes "scanning env ms cs a st"
  shows "a \<le> b \<Longrightarrow> b \<le> length ms \<Longrightarrow>
    scanning env ms cs b (fold (\<lambda>(i, m). ingest_result i m) (map (\<lambda>i. (i, ms ! i)) [a..<b]) st)"
proof (induction b)
  case 0
  then show ?case using assms by simp
next
  case (Suc b)
  then show ?case using assms scanning_result [of env ms cs b] by (cases "a \<le> b") (auto simp: le_Suc_eq)
qed

text \<open>The retries move what became known out of the lists.\<close>

lemma progress_drop:
  assumes "progress env ms cs n R M (insert (i, c, e) W) P st" "key_in env cs c = Some []"
  shows "progress env ms cs n R M W P st"
  using assms unfolding progress_def by auto

lemma progress_promote:
  assumes "progress env ms cs n R M (insert (i, c, e) W) P st" "key_in env cs c = Some k" "k \<noteq> []"
  shows "progress env ms cs n (insert (i, c, e) R) M W P (keyed_result i c k e st)"
proof -
  note D = progressD [OF assms(1)]
  have "c' = c \<and> e' = e" if "(i, c', e') \<in> R" for c' e'
    using that D(2) view_results_unique [of i c e ms n c' e' n] by blast
  moreover have "insert (i, c, e) R \<union> W = R \<union> insert (i, c, e) W" by simp
  ultimately show ?thesis
    using scan_ok_result [OF D(1) assms(2,3), of i e] assms(1) unfolding progress_def by metis
qed

lemma retry_unkeyed_progress:
  assumes "progress env ms cs n R M (waiting st \<union> waiting_of ` set (u # us)) P st"
  shows "\<exists>R'. progress env ms cs n R' M (waiting (retry_unkeyed u st) \<union> waiting_of ` set us) P (retry_unkeyed u st)"
proof -
  obtain i c e where u: "u = \<lparr>ur_index = i, ur_toolCallId = c, ur_isError = e\<rparr>" by (cases u)
  let ?W = "waiting st \<union> waiting_of ` set us"
  have p: "progress env ms cs n R M (insert (i, c, e) ?W) P st" using assms by (simp add: u waiting_of_def)
  note key = scan_okD(1) [OF progressD(1) [OF p]]
  consider "key_in env cs c = None" | "key_in env cs c = Some []" | k where "key_in env cs c = Some k" "k \<noteq> []" by blast
  then show ?thesis
  proof cases
    case 1
    then have "retry_unkeyed u st = st\<lparr>unkeyedResults := unkeyedResults st @ [u]\<rparr>" by (simp add: retry_unkeyed_def u key)
    then show ?thesis using p by (intro exI [of _ R]) (simp add: progress_def u waiting_of_def)
  next
    case 2
    then have "retry_unkeyed u st = st" by (simp add: retry_unkeyed_def u key)
    then show ?thesis using progress_drop [OF p 2] by auto
  next
    case (3 k)
    then have "retry_unkeyed u st = keyed_result i c k e st" by (simp add: retry_unkeyed_def u key)
    then show ?thesis using progress_promote [OF p 3] by auto
  qed
qed

lemma retry_pending_progress:
  assumes "progress env ms cs n R M W (pending st \<union> set (c # ps)) st"
  shows "\<exists>M'. progress env ms cs n R M' W (pending (retry_pending c st) \<union> set ps) (retry_pending c st)"
proof -
  note D = progressD [OF assms]
  note mc = scan_okD(3) [OF D(1)]
  show ?thesis
  proof (cases "mutation_in env cs c")
    case None
    then have "retry_pending c st = st\<lparr>pendingMutationResults := pendingMutationResults st @ [c]\<rparr>" by (simp add: retry_pending_def mc)
    then show ?thesis using assms unfolding progress_def by (intro exI [of _ M]) auto
  next
    case (Some call)
    then have r: "retry_pending c st = recordSuccessfulMutation call st" by (simp add: retry_pending_def mc)
    show ?thesis
      using scan_ok_mutation [OF D(1) Some] D(2-4) unfolding progress_def r
      by (intro exI [of _ "insert c M"]) auto
  qed
qed


abbreviation unknown_keys :: "path_env \<Rightarrow> (nat \<times> tool_use) list \<Rightarrow> scan_state \<Rightarrow> bool" where
  "unknown_keys env cs st \<equiv> \<forall>u\<in>set (unkeyedResults st). key_in env cs (ur_toolCallId u) = None"

abbreviation unknown_mutations :: "path_env \<Rightarrow> (nat \<times> tool_use) list \<Rightarrow> scan_state \<Rightarrow> bool" where
  "unknown_mutations env cs st \<equiv> \<forall>c\<in>set (pendingMutationResults st). mutation_in env cs c = None"

lemma retry_unkeyed_rest:
  assumes "scan_ok env cs R M st" "unknown_keys env cs st"
  shows "unknown_keys env cs (retry_unkeyed u st)" "pendingMutationResults (retry_unkeyed u st) = pendingMutationResults st"
  using assms(2) scan_okD(1) [OF assms(1)] by (auto simp: retry_unkeyed_def split: option.splits)

lemma retry_pending_rest:
  assumes "scan_ok env cs R M st" "unknown_mutations env cs st"
  shows "unknown_mutations env cs (retry_pending c st)" "unkeyedResults (retry_pending c st) = unkeyedResults st"
  using assms(2) scan_okD(3) [OF assms(1)] by (auto simp: retry_pending_def split: option.splits)

lemma retry_unkeyed_fold:
  "progress env ms cs n R M (waiting st \<union> waiting_of ` set us) P st \<Longrightarrow> unknown_keys env cs st \<Longrightarrow>
   \<exists>R'. progress env ms cs n R' M (waiting (fold retry_unkeyed us st)) P (fold retry_unkeyed us st) \<and>
     unknown_keys env cs (fold retry_unkeyed us st) \<and>
     pendingMutationResults (fold retry_unkeyed us st) = pendingMutationResults st"
proof (induction us arbitrary: R st)
  case (Cons u us)
  note r = retry_unkeyed_rest [OF progressD(1) [OF Cons.prems(1)] Cons.prems(2), of u]
  obtain R' where "progress env ms cs n R' M (waiting (retry_unkeyed u st) \<union> waiting_of ` set us) P (retry_unkeyed u st)"
    using retry_unkeyed_progress [OF Cons.prems(1)] by blast
  from Cons.IH [OF this r(1)] r(2) show ?case by simp
qed auto

lemma retry_pending_fold:
  "progress env ms cs n R M W (pending st \<union> set ps) st \<Longrightarrow> unknown_mutations env cs st \<Longrightarrow>
   \<exists>M'. progress env ms cs n R M' W (pending (fold retry_pending ps st)) (fold retry_pending ps st) \<and>
     unknown_mutations env cs (fold retry_pending ps st) \<and>
     unkeyedResults (fold retry_pending ps st) = unkeyedResults st"
proof (induction ps arbitrary: M st)
  case (Cons c ps)
  note r = retry_pending_rest [OF progressD(1) [OF Cons.prems(1)] Cons.prems(2), of c]
  obtain M' where "progress env ms cs n R M' W (pending (retry_pending c st) \<union> set ps) (retry_pending c st)"
    using retry_pending_progress [OF Cons.prems(1)] by blast
  from Cons.IH [OF this r(1)] r(2) show ?case by simp
qed auto

text \<open>The state after a scan of the whole array.\<close>

definition scanned :: "path_env \<Rightarrow> pmessage list \<Rightarrow> scan_state \<Rightarrow> bool" where
  "scanned env ms st \<longleftrightarrow>
     scannedLength st = length ms \<and> scanning env ms (calls_in ms) (length ms) st \<and>
     unknown_keys env (calls_in ms) st \<and> unknown_mutations env (calls_in ms) st"

lemma progress_lists [simp]:
  "progress env ms cs n R M W P (st\<lparr>unkeyedResults := us\<rparr>) = progress env ms cs n R M W P st"
  "progress env ms cs n R M W P (st\<lparr>pendingMutationResults := ps\<rparr>) = progress env ms cs n R M W P st"
  "progress env ms cs n R M W P (st\<lparr>scannedLength := l\<rparr>) = progress env ms cs n R M W P st"
  by (simp_all add: progress_def)

lemma scanned_start: "scanned env [] createSupersedeScanState"
proof -
  have "scan_ok env [] {} {} createSupersedeScanState"
    by (simp add: scan_ok_def createSupersedeScanState_def key_in_def grep_in_def mutation_in_def call_in_def indices_def
        mutated_at_def newest_def)
  then have "progress env [] [] 0 {} {} {} {} createSupersedeScanState"
    by (simp add: progress_def view_results_def write_results_def)
  then show ?thesis
    by (auto simp: scanned_def scanning_def createSupersedeScanState_def)
qed

lemma results_prefix: "view_results (xs @ zs) (length xs) = view_results xs (length xs)"
  "write_results (xs @ zs) (length xs) = write_results xs (length xs)"
  by (auto simp: view_results_def write_results_def nth_append)

lemma scanned_extend:
  assumes "scanned env xs st" "distinct (call_ids (calls_in (xs @ zs)))"
  shows "scanned env (xs @ zs) (extendSupersedeScanState env (xs @ zs) st)"
proof -
  let ?ms = "xs @ zs"
  let ?cs = "calls_in ?ms"
  let ?suffix = "map (\<lambda>i. (i, ?ms ! i)) [length xs..<length ?ms]"
  define st1 where "st1 = fold (\<lambda>(i, m). ingest_calls_of env i m) ?suffix st"
  define st2 where "st2 = fold (\<lambda>(i, m). ingest_result i m) ?suffix st1"
  define st3 where "st3 = fold retry_unkeyed (unkeyedResults st2) (st2\<lparr>unkeyedResults := []\<rparr>)"
  define st4 where "st4 = fold retry_pending (pendingMutationResults st3) (st3\<lparr>pendingMutationResults := []\<rparr>)"
  have len: "scannedLength st = length xs" using assms(1) by (simp add: scanned_def)
  obtain R M where "progress env xs (calls_in xs) (length xs) R M (waiting st) (pending st) st"
    using assms(1) unfolding scanned_def scanning_def by blast
  then have p0: "progress env ?ms (calls_in (take (length xs) ?ms)) (length xs) R M (waiting st) (pending st) st"
    by (simp add: progress_def results_prefix)
  have p1: "progress env ?ms ?cs (length xs) R M (waiting st1) (pending st1) st1"
    using progress_all_calls [OF assms(2) p0, of "length ?ms"] by (simp add: st1_def)
  have "scanning env ?ms ?cs (length ?ms) st2"
    using scanning_results [OF scanningI [OF p1], of "length ?ms"] by (simp add: st2_def)
  then obtain R2 M2 where p2: "progress env ?ms ?cs (length ?ms) R2 M2 (waiting st2) (pending st2) st2"
    unfolding scanning_def by blast
  obtain R3 where p3: "progress env ?ms ?cs (length ?ms) R3 M2 (waiting st3) (pending st3) st3" "unknown_keys env ?cs st3"
    using retry_unkeyed_fold [of env ?ms ?cs "length ?ms" R2 M2 "st2\<lparr>unkeyedResults := []\<rparr>" "unkeyedResults st2" "pending st2"] p2
    by (auto simp: st3_def)
  obtain M4 where p4: "progress env ?ms ?cs (length ?ms) R3 M4 (waiting st4) (pending st4) st4"
    "unknown_mutations env ?cs st4" "unkeyedResults st4 = unkeyedResults st3"
    using retry_pending_fold [of env ?ms ?cs "length ?ms" R3 M2 "waiting st3" "st3\<lparr>pendingMutationResults := []\<rparr>" "pendingMutationResults st3"] p3(1)
    by (auto simp: st4_def)
  have e: "extendSupersedeScanState env ?ms st = st4\<lparr>scannedLength := length ?ms\<rparr>"
    by (simp only: extendSupersedeScanState_def Let_def len st1_def st2_def st3_def st4_def)
  show ?thesis using p4 p3(2) unfolding scanned_def e scanning_def by auto
qed


section \<open>What is stale\<close>

text \<open>
  The same notion read off the whole array, with no state: the key of the result at an index, the writes that
  succeeded, and the three reasons a later message makes an earlier result stale.
\<close>

definition result_key :: "path_env \<Rightarrow> pmessage list \<Rightarrow> nat \<Rightarrow> jsstr option" where
  "result_key env ms i =
     (case ms ! i of
        PResult c name e body \<Rightarrow>
          if counts_as_view name e
          then (case key_in env (calls_in ms) c of Some k \<Rightarrow> if k = [] then None else Some k | None \<Rightarrow> None) else None
      | _ \<Rightarrow> None)"

definition failed_at :: "pmessage list \<Rightarrow> nat \<Rightarrow> bool" where
  "failed_at ms i = (case ms ! i of PResult c name e body \<Rightarrow> e | _ \<Rightarrow> False)"

definition grep_scope :: "path_env \<Rightarrow> pmessage list \<Rightarrow> nat \<Rightarrow> jsstr option" where
  "grep_scope env ms i = (case ms ! i of PResult c name e body \<Rightarrow> grep_in env (calls_in ms) c | _ \<Rightarrow> None)"

definition later :: "pmessage list \<Rightarrow> nat \<Rightarrow> (nat \<Rightarrow> bool) \<Rightarrow> bool" where
  "later ms i P = list_ex P [Suc i..<length ms]"

text \<open>The call of message \<open>j\<close> wrote the file and succeeded.\<close>

definition written_by :: "path_env \<Rightarrow> pmessage list \<Rightarrow> jsstr \<Rightarrow> nat \<Rightarrow> bool" where
  "written_by env ms p j \<longleftrightarrow> p \<noteq> [] \<and>
     list_ex (\<lambda>m. case m of
                PResult c name e body \<Rightarrow> name \<in> set MUTATING_TOOL_NAMES \<and> \<not> e \<and>
                  (case mutation_in env (calls_in ms) c of Some call \<Rightarrow> mc_pathKey call = p \<and> mc_callIndex call = j | None \<Rightarrow> False)
              | _ \<Rightarrow> False) ms"

definition repeated_later :: "path_env \<Rightarrow> pmessage list \<Rightarrow> nat \<Rightarrow> jsstr \<Rightarrow> bool" where
  "repeated_later env ms i k = later ms i (\<lambda>j. result_key env ms j = Some k)"

definition written_later :: "path_env \<Rightarrow> pmessage list \<Rightarrow> nat \<Rightarrow> jsstr \<Rightarrow> bool" where
  "written_later env ms i k \<longleftrightarrow> is_read_key k \<and> later ms i (written_by env ms (readKeyPath k))"

definition covered_later :: "path_env \<Rightarrow> pmessage list \<Rightarrow> nat \<Rightarrow> bool" where
  "covered_later env ms i =
     (case grep_scope env ms i of
        None \<Rightarrow> False
      | Some p \<Rightarrow> later ms i (\<lambda>j. \<not> failed_at ms j \<and>
                    (case result_key env ms j of Some k \<Rightarrow> isFullReadKey k \<and> readKeyPath k = p | None \<Rightarrow> False)))"

definition newest_error :: "path_env \<Rightarrow> pmessage list \<Rightarrow> nat \<Rightarrow> jsstr \<Rightarrow> bool" where
  "newest_error env ms i k \<longleftrightarrow> failed_at ms i \<and> \<not> later ms i (\<lambda>j. failed_at ms j \<and> result_key env ms j = Some k)"

definition superseded :: "path_env \<Rightarrow> pmessage list \<Rightarrow> nat \<Rightarrow> nat \<Rightarrow> bool" where
  "superseded env ms protectFromIndex i \<longleftrightarrow> i < protectFromIndex \<and> i < length ms \<and>
     (case result_key env ms i of
        None \<Rightarrow> False
      | Some k \<Rightarrow> \<not> newest_error env ms i k \<and>
                  (repeated_later env ms i k \<or> written_later env ms i k \<or> covered_later env ms i))"

definition contradicts_disk :: "path_env \<Rightarrow> pmessage list \<Rightarrow> nat \<Rightarrow> nat \<Rightarrow> bool" where
  "contradicts_disk env ms protectFromIndex i \<longleftrightarrow> i < protectFromIndex \<and> i < length ms \<and>
     (case result_key env ms i of
        None \<Rightarrow> False
      | Some k \<Rightarrow> \<not> newest_error env ms i k \<and> \<not> repeated_later env ms i k \<and> written_later env ms i k)"

text \<open>The derivation marks each entry by itself.\<close>

definition entry_blamed :: "scan_state \<Rightarrow> nat \<Rightarrow> jsstr \<Rightarrow> bool" where
  "entry_blamed st i key \<longleftrightarrow> is_read_key key \<and>
     (case map_option fst (mget (lastMutationByPathKey st) (readKeyPath key)) of Some j \<Rightarrow> j > i | None \<Rightarrow> False)"

definition entry_covered :: "scan_state \<Rightarrow> nat \<Rightarrow> bool" where
  "entry_covered st i = (case mget (grepPathKeyByIndex st) i of
     None \<Rightarrow> False
   | Some p \<Rightarrow> (case mget (lastFullReadIndexByPathKey st) p of Some j \<Rightarrow> j > i | None \<Rightarrow> False))"

definition entry_open :: "scan_state \<Rightarrow> nat \<Rightarrow> nat \<Rightarrow> jsstr \<Rightarrow> bool" where
  "entry_open st protectFromIndex i key \<longleftrightarrow> i < protectFromIndex \<and> mget (lastErrorIndexByKey st) key \<noteq> Some i"

definition entry_repeated :: "scan_state \<Rightarrow> nat \<Rightarrow> jsstr \<Rightarrow> bool" where
  "entry_repeated st i key = (case mget (lastIndexByKey st) key of Some l \<Rightarrow> l > i | None \<Rightarrow> False)"

lemma derive_entry_marks:
  "set (sd_indices (derive_entry st p (i, key) d)) =
     (if entry_open st p i key \<and> (entry_repeated st i key \<or> entry_blamed st i key \<or> entry_covered st i)
      then insert i (set (sd_indices d)) else set (sd_indices d))"
  "mget (sd_mutationCauses (derive_entry st p (i, key) d)) x \<noteq> None \<longleftrightarrow>
     mget (sd_mutationCauses d) x \<noteq> None \<or>
     x = i \<and> entry_open st p i key \<and> \<not> entry_repeated st i key \<and> entry_blamed st i key"
  by (auto simp: derive_entry_def Let_def entry_open_def entry_repeated_def entry_blamed_def entry_covered_def
      split: option.splits)

lemma derive_fold:
  "x \<in> set (sd_indices (fold (derive_entry st p) es d)) \<longleftrightarrow> x \<in> set (sd_indices d) \<or>
     (\<exists>key. (x, key) \<in> set es \<and> entry_open st p x key \<and>
        (entry_repeated st x key \<or> entry_blamed st x key \<or> entry_covered st x))"
  "mget (sd_mutationCauses (fold (derive_entry st p) es d)) x \<noteq> None \<longleftrightarrow> mget (sd_mutationCauses d) x \<noteq> None \<or>
     (\<exists>key. (x, key) \<in> set es \<and> entry_open st p x key \<and> \<not> entry_repeated st x key \<and> entry_blamed st x key)"
proof (induction es arbitrary: d)
  case (Cons e es)
  obtain i key where e: "e = (i, key)" by (cases e)
  { case 1 show ?case by (auto simp: Cons.IH(1) derive_entry_marks e) }
  { case 2 show ?case unfolding fold_simps comp_apply Cons.IH(2) derive_entry_marks(2) e by auto }
qed simp_all


lemma later_iff: "later ms i P \<longleftrightarrow> (\<exists>j. i < j \<and> j < length ms \<and> P j)"
  by (auto simp: later_def list_ex_iff Suc_le_eq)

text \<open>After a whole scan nothing is waiting that has a key, so the recorded results are all the keyed ones.\<close>

lemma scanned_sets:
  assumes "scanned env ms st"
  obtains R M where "scan_ok env (calls_in ms) R M st"
    "\<And>i c e. (i, c, e) \<in> R \<longleftrightarrow> i < length ms \<and> (\<exists>name body. ms ! i = PResult c name e body \<and> counts_as_view name e) \<and>
       (\<exists>k. k \<noteq> [] \<and> key_in env (calls_in ms) c = Some k)"
    "\<And>c. c \<in> M \<longleftrightarrow> (\<exists>i<length ms. \<exists>name body. ms ! i = PResult c name False body \<and> name \<in> set MUTATING_TOOL_NAMES) \<and>
       mutation_in env (calls_in ms) c \<noteq> None"
proof -
  let ?cs = "calls_in ms"
  let ?V = "view_results ms (length ms)"
  obtain R M where p: "progress env ms ?cs (length ms) R M (waiting st) (pending st) st"
    using assms unfolding scanned_def scanning_def by blast
  note D = progressD [OF p] and S = scan_okD [OF progressD(1) [OF p]]
  have r: "(i, c, e) \<in> R \<longleftrightarrow> (i, c, e) \<in> ?V \<and> (\<exists>k. k \<noteq> [] \<and> key_in env ?cs c = Some k)" for i c e
  proof
    assume "(i, c, e) \<in> R"
    then show "(i, c, e) \<in> ?V \<and> (\<exists>k. k \<noteq> [] \<and> key_in env ?cs c = Some k)" using D(2) S(7) by blast
  next
    assume a: "(i, c, e) \<in> ?V \<and> (\<exists>k. k \<noteq> [] \<and> key_in env ?cs c = Some k)"
    then have "(i, c, e) \<notin> waiting st"
      using assms by (auto simp: scanned_def waiting_of_def)
    then show "(i, c, e) \<in> R" using a D(3) [of "(i, c, e)"] by auto
  qed
  have w: "c \<in> M \<longleftrightarrow> c \<in> write_results ms (length ms) \<and> mutation_in env ?cs c \<noteq> None" for c
  proof
    assume "c \<in> M"
    then show "c \<in> write_results ms (length ms) \<and> mutation_in env ?cs c \<noteq> None" using D(4) S(8) by blast
  next
    assume a: "c \<in> write_results ms (length ms) \<and> mutation_in env ?cs c \<noteq> None"
    then have "c \<notin> pending st" using assms by (auto simp: scanned_def)
    then show "c \<in> M" using a D(4) by blast
  qed
  show ?thesis
  proof (rule that [OF progressD(1) [OF p]])
    show "(i, c, e) \<in> R \<longleftrightarrow> i < length ms \<and> (\<exists>name body. ms ! i = PResult c name e body \<and> counts_as_view name e) \<and>
       (\<exists>k. k \<noteq> [] \<and> key_in env ?cs c = Some k)" for i c e
      unfolding r by (simp add: view_results_def)
    show "c \<in> M \<longleftrightarrow> (\<exists>i<length ms. \<exists>name body. ms ! i = PResult c name False body \<and> name \<in> set MUTATING_TOOL_NAMES) \<and>
       mutation_in env ?cs c \<noteq> None" for c
      unfolding w write_results_def by blast
  qed
qed

lemma call_index_bound: "(j, c) \<in> set (calls_from i ms) \<Longrightarrow> i \<le> j \<and> j < i + length ms"
  by (induction ms arbitrary: i) fastforce+

lemma call_in_bound: "(j, c) \<in> set (calls_in ms) \<Longrightarrow> j < length ms"
  using call_index_bound [of j c 0 ms] by simp

lemma mutation_index_bound:
  assumes "mutation_in env (calls_in ms) c = Some call"
  shows "mc_callIndex call < length ms"
proof -
  from assms obtain j d where c: "call_in (calls_in ms) c = Some (j, d)" and "mc_callIndex call = j"
    by (auto simp: mutation_in_def Let_def split: option.splits if_splits)
  from c have "(j, d) \<in> set (calls_in ms)" by (auto simp: call_in_def dest!: map_of_SomeD)
  then show ?thesis using call_in_bound \<open>mc_callIndex call = j\<close> by blast
qed

lemma result_key_iff:
  "result_key env ms i = Some k \<longleftrightarrow> k \<noteq> [] \<and>
     (\<exists>c name e body. ms ! i = PResult c name e body \<and> counts_as_view name e \<and> key_in env (calls_in ms) c = Some k)"
  by (auto simp: result_key_def split: pmessage.split option.split)

lemma success_of_message:
  "(case m of
      PResult c name e body \<Rightarrow> name \<in> set MUTATING_TOOL_NAMES \<and> \<not> e \<and>
        (case mutation_in env cs c of Some call \<Rightarrow> mc_pathKey call = p \<and> mc_callIndex call = j | None \<Rightarrow> False)
    | _ \<Rightarrow> False) \<longleftrightarrow>
   (\<exists>c name body call. m = PResult c name False body \<and>
     name \<in> set MUTATING_TOOL_NAMES \<and> mutation_in env cs c = Some call \<and> mc_pathKey call = p \<and> mc_callIndex call = j)"
  by (cases m) (auto split: option.split)

lemma written_by_iff:
  "written_by env ms p j \<longleftrightarrow> p \<noteq> [] \<and> (\<exists>i<length ms. \<exists>c name body call. ms ! i = PResult c name False body \<and>
     name \<in> set MUTATING_TOOL_NAMES \<and> mutation_in env (calls_in ms) c = Some call \<and> mc_pathKey call = p \<and> mc_callIndex call = j)"
  unfolding written_by_def list_ex_length success_of_message by (rule refl)


lemma scanned_exact:
  assumes "scanned env ms st"
  shows "map_ok (keyByIndex st)"
    "mget (keyByIndex st) i = Some k \<longleftrightarrow> i < length ms \<and> result_key env ms i = Some k"
    "entry_repeated st i k = repeated_later env ms i k"
    "i < length ms \<Longrightarrow> result_key env ms i = Some k \<Longrightarrow> mget (lastErrorIndexByKey st) k = Some i \<longleftrightarrow> newest_error env ms i k"
    "entry_blamed st i k = written_later env ms i k"
    "i < length ms \<Longrightarrow> result_key env ms i = Some k \<Longrightarrow> entry_covered st i = covered_later env ms i"
proof -
  let ?cs = "calls_in ms"
  obtain R M where ok: "scan_ok env ?cs R M st"
    and R: "\<And>i c e. (i, c, e) \<in> R \<longleftrightarrow> i < length ms \<and> (\<exists>name body. ms ! i = PResult c name e body \<and> counts_as_view name e) \<and>
       (\<exists>k. k \<noteq> [] \<and> key_in env ?cs c = Some k)"
    and M: "\<And>c. c \<in> M \<longleftrightarrow> (\<exists>i<length ms. \<exists>name body. ms ! i = PResult c name False body \<and> name \<in> set MUTATING_TOOL_NAMES) \<and>
       mutation_in env ?cs c \<noteq> None"
    using scanned_sets [OF assms] by blast
  note S = scan_okD [OF ok]
  have keyed: "j \<in> indices R (\<lambda>c e. key_in env ?cs c = Some k) \<longleftrightarrow> j < length ms \<and> result_key env ms j = Some k" for j k
    by (auto simp: indices_def R result_key_iff)
  have failed: "j \<in> indices R (\<lambda>c e. e \<and> key_in env ?cs c = Some k) \<longleftrightarrow>
      j < length ms \<and> failed_at ms j \<and> result_key env ms j = Some k" for j k
    by (auto simp: indices_def R result_key_iff failed_at_def)
  have full: "j \<in> indices R (full_read_of env ?cs p) \<longleftrightarrow> j < length ms \<and> \<not> failed_at ms j \<and>
      (case result_key env ms j of Some k \<Rightarrow> isFullReadKey k \<and> readKeyPath k = p | None \<Rightarrow> False)" for j p
    by (cases "ms ! j") (auto simp: indices_def R full_read_of_def result_key_def failed_at_def split: option.splits)
  have scope: "mget (grepPathKeyByIndex st) i = Some p \<longleftrightarrow> grep_scope env ms i = Some p"
    if "i < length ms" "result_key env ms i = Some k" for p
    using that by (auto simp: S(10) indices_def R grep_scope_def result_key_iff)
  have wrote: "j \<in> mutated_at env ?cs M p \<longleftrightarrow> j < length ms \<and> written_by env ms p j" for j p
  proof
    assume "j \<in> mutated_at env ?cs M p"
    then obtain c call where c: "p \<noteq> []" "c \<in> M" "mutation_in env ?cs c = Some call" "mc_pathKey call = p" "mc_callIndex call = j"
      unfolding mutated_at_def by blast
    obtain i name body where "i < length ms" "ms ! i = PResult c name False body" "name \<in> set MUTATING_TOOL_NAMES"
      using c(2) M by blast
    then show "j < length ms \<and> written_by env ms p j"
      using c mutation_index_bound [OF c(3)] unfolding written_by_iff by blast
  next
    assume "j < length ms \<and> written_by env ms p j"
    then obtain i c name body call where c: "p \<noteq> []" "i < length ms" "ms ! i = PResult c name False body"
      "name \<in> set MUTATING_TOOL_NAMES" "mutation_in env ?cs c = Some call" "mc_pathKey call = p" "mc_callIndex call = j"
      unfolding written_by_iff by blast
    then have "c \<in> M" using M by blast
    then show "j \<in> mutated_at env ?cs M p" using c unfolding mutated_at_def by blast
  qed
  show "map_ok (keyByIndex st)" by (rule S(6))
  show "mget (keyByIndex st) i = Some k \<longleftrightarrow> i < length ms \<and> result_key env ms i = Some k"
    by (simp only: S(9) keyed)
  show "entry_repeated st i k = repeated_later env ms i k"
    using keyed by (auto simp: entry_repeated_def S(11) newest_above S(4) repeated_later_def later_iff)
  show "i < length ms \<Longrightarrow> result_key env ms i = Some k \<Longrightarrow> mget (lastErrorIndexByKey st) k = Some i \<longleftrightarrow> newest_error env ms i k"
    by (auto simp: S(12) newest_Some S(4) failed newest_error_def later_iff not_less)
  show "entry_blamed st i k = written_later env ms i k"
    using wrote by (auto simp: entry_blamed_def S(14) newest_above S(5) written_later_def later_iff)
  show "i < length ms \<Longrightarrow> result_key env ms i = Some k \<Longrightarrow> entry_covered st i = covered_later env ms i"
  proof -
    assume i: "i < length ms" "result_key env ms i = Some k"
    have "mget (grepPathKeyByIndex st) i = grep_scope env ms i"
      using scope [OF i] by (metis option.exhaust)
    then show ?thesis
      by (cases "grep_scope env ms i")
        (auto simp only: entry_covered_def covered_later_def S(13) newest_above finite_indices [OF S(4)] later_iff Bex_def full option.case)
  qed
qed


lemma derive_exact:
  assumes "scanned env ms st"
  shows "i \<in> set (sd_indices (deriveSupersededIndices st p)) \<longleftrightarrow> superseded env ms p i"
    "mget (sd_mutationCauses (deriveSupersededIndices st p)) i \<noteq> None \<longleftrightarrow> contradicts_disk env ms p i"
  unfolding deriveSupersededIndices_def derive_fold mget_in [OF scanned_exact(1) [OF assms], symmetric]
    scanned_exact(2) [OF assms] entry_open_def scanned_exact(3,5) [OF assms]
  using scanned_exact(4,6) [OF assms]
  by (auto simp: superseded_def contradicts_disk_def split: option.split)

section \<open>The cache\<close>

text \<open>
  What the cache can hold for an array: nothing, or the state a scan left behind when the array was a prefix of
  what it is now, or one left behind when it was longer.
\<close>

inductive cached_for :: "path_env \<Rightarrow> pmessage list \<Rightarrow> scan_state option \<Rightarrow> bool" where
  cached_none: "cached_for env ms None"
| cached_grown: "cached_for env xs c \<Longrightarrow> cached_for env (xs @ zs) (Some (snd (buildSupersededToolResultIndices env c xs p)))"
| cached_shrunk: "cached_for env xs c \<Longrightarrow> length ys < length xs \<Longrightarrow>
    cached_for env ys (Some (snd (buildSupersededToolResultIndices env c xs p)))"

lemma extend_length [simp]: "scannedLength (extendSupersedeScanState env ms st) = length ms"
  by (simp add: extendSupersedeScanState_def Let_def)

lemma build_length: "scannedLength (snd (buildSupersededToolResultIndices env c ms p)) = length ms"
  by (auto simp: buildSupersededToolResultIndices_def Let_def createSupersedeScanState_def split: option.split)

definition usable :: "path_env \<Rightarrow> pmessage list \<Rightarrow> scan_state option \<Rightarrow> bool" where
  "usable env ms c \<longleftrightarrow>
     c = None \<or> (\<exists>st. c = Some st \<and> length ms < scannedLength st) \<or> (\<exists>st xs zs. c = Some st \<and> ms = xs @ zs \<and> scanned env xs st)"

lemma build_scanned:
  assumes "usable env ms c" "distinct (call_ids (calls_in ms))"
  shows "scanned env ms (snd (buildSupersededToolResultIndices env c ms p))"
proof -
  have from_prefix: "scanned env ms (if length ms > scannedLength st then extendSupersedeScanState env ms st else st)"
    if "ms = xs @ zs" "scanned env xs st" for st xs zs
    using that scanned_extend [of env xs st zs] assms(2) by (cases zs) (auto simp: scanned_def)
  consider "snd (buildSupersededToolResultIndices env c ms p) =
      (if length ms > scannedLength createSupersedeScanState then extendSupersedeScanState env ms createSupersedeScanState
       else createSupersedeScanState)"
    | st xs zs where "ms = xs @ zs" "scanned env xs st" "snd (buildSupersededToolResultIndices env c ms p) =
      (if length ms > scannedLength st then extendSupersedeScanState env ms st else st)"
    using assms(1) by (auto simp: usable_def buildSupersededToolResultIndices_def Let_def scanned_def)
  then show ?thesis
    using from_prefix [of "[]" ms createSupersedeScanState] scanned_start from_prefix by cases auto
qed

lemma cached_usable: "cached_for env ms c \<Longrightarrow> distinct (call_ids (calls_in ms)) \<Longrightarrow> usable env ms c"
proof (induction rule: cached_for.induct)
  case (cached_grown env xs c zs p)
  then have "scanned env xs (snd (buildSupersededToolResultIndices env c xs p))"
    by (intro build_scanned cached_grown.IH) (simp_all add: calls_from_append)
  then show ?case unfolding usable_def by blast
qed (auto simp: usable_def build_length)

text \<open>C14: The incremental scan is exact: whatever earlier scans of the growing (or cut) array left in the cache, the set
  derived now is the set of results the whole array makes stale, read off without any state, and the causes are
  recorded for exactly those that a later successful write contradicts. The call ids must not repeat.
\<close>

theorem supersede_scan_exact:
  assumes "cached_for env ms c" "distinct (call_ids (calls_in ms))"
  shows "(i \<in> set (sd_indices (fst (buildSupersededToolResultIndices env c ms p))) \<longleftrightarrow> superseded env ms p i) \<and>
    (mget (sd_mutationCauses (fst (buildSupersededToolResultIndices env c ms p))) i \<noteq> None \<longleftrightarrow> contradicts_disk env ms p i)"
proof -
  note s = build_scanned [OF cached_usable [OF assms] assms(2)]
  have "fst (buildSupersededToolResultIndices env c ms p) = deriveSupersededIndices (snd (buildSupersededToolResultIndices env c ms p)) p"
    by (simp add: buildSupersededToolResultIndices_def Let_def)
  then show ?thesis by (simp only: derive_exact [OF s])
qed

text \<open>
  A file read, then written, with the write's result standing before its call: the scan that saw only the first four
  messages leaves the result pending, the next one resolves it.
\<close>

definition sample_env :: path_env where
  "sample_env = \<lparr> pe_resolve = (\<lambda>p. js ''/w/'' @ p), pe_lower = (\<lambda>p. p), pe_caseInsensitive = False, pe_trunc = (\<lambda>t. t) \<rparr>"

definition sample_call :: "string \<Rightarrow> string \<Rightarrow> pmessage" where
  "sample_call i name = PAssistant (PBlocks [PText (js ''ok''),
     PCall \<lparr> tu_id = js i, tu_name = js name, tu_arguments = JObj [(js ''path'', JStr (js ''a.ts''))] \<rparr>])"

definition sample_messages :: "pmessage list" where
  "sample_messages =
     [PUser (PString (js ''hi'')), sample_call ''c1'' ''read'', PResult (js ''c1'') (js ''read'') False (PString (js ''x'')),
      PResult (js ''c2'') (js ''write'') False (PString (js ''ok'')), sample_call ''c2'' ''write'']"

lemma sample_superseded: "superseded sample_env sample_messages 5 2" "contradicts_disk sample_env sample_messages 5 2"
  "distinct (call_ids (calls_in sample_messages))"
  by code_simp+

theorem supersede_scan_exact_witness:
  "2 \<in> set (sd_indices (fst (buildSupersededToolResultIndices sample_env
      (Some (snd (buildSupersededToolResultIndices sample_env None (take 4 sample_messages) 4))) sample_messages 5)))"
proof -
  let ?c = "Some (snd (buildSupersededToolResultIndices sample_env None (take 4 sample_messages) 4))"
  have "cached_for sample_env (take 4 sample_messages @ drop 4 sample_messages) ?c"
    by (intro cached_grown cached_none)
  then have "cached_for sample_env sample_messages ?c" by simp
  from supersede_scan_exact [OF this sample_superseded(3), of 2 5] show ?thesis
    using sample_superseded(1) by blast
qed


text \<open>
  Two limits of the keys. The parts of an \<open>lsp\<close> key are not told apart once empty ones are dropped, so a call with a
  timeout and one with a line share a key. And when a call id repeats, the state keeps the key a result had when it
  was scanned, while a scan of the whole array gives it the key of the last call with that id.
\<close>

lemma lsp_keys_collide:
  "lspSupersededResourceKey sample_env (JObj [(js ''action'', JStr (js ''hover'')), (js ''file'', JStr (js ''a'')), (js ''line'', JNum (js ''5''))])
   = lspSupersededResourceKey sample_env (JObj [(js ''action'', JStr (js ''hover'')), (js ''file'', JStr (js ''a'')), (js ''timeout'', JNum (js ''5''))])"
  by code_simp

definition other_call :: pmessage where
  "other_call = PAssistant (PBlocks [PCall \<lparr> tu_id = js ''c1'', tu_name = js ''ls'', tu_arguments = JNull \<rparr>])"

lemma repeated_ids_differ:
  "keyByIndex (snd (buildSupersededToolResultIndices sample_env
      (Some (snd (buildSupersededToolResultIndices sample_env None (take 3 sample_messages) 0))) (take 3 sample_messages @ [other_call]) 0))
   \<noteq> keyByIndex (snd (buildSupersededToolResultIndices sample_env None (take 3 sample_messages @ [other_call]) 0))"
  by code_simp

end
