(* ===== verification/DeferredStore.thy ===== *)
theory DeferredStore
  imports FileOps MessageBus
begin

text \<open>
  The store of tool outputs taken out of the context (core/deferred-output-store.ts): texts are kept in memory up to
  a cap, the oldest spill to files of a directory made on the first spill, and a disk error makes the store keep
  everything in memory. The redaction is a parameter; what the disk does at each \<open>put\<close> is part of the state.
\<close>


section \<open>The store\<close>

text \<open>A failed write may leave part of the file behind.\<close>

datatype write_outcome = WriteOk | WriteFailed "jsstr option"

record disk_io =
  io_mkdir :: bool
  io_write :: "jsstr \<Rightarrow> write_outcome"

record deferred_store =
  ds_capBytes :: nat
  ds_fixedDir :: bool
  ds_disk :: "nat \<Rightarrow> disk_io"
  ds_memory :: "(jsstr, jsstr) jsmap"
  ds_memoryBytes :: nat
  ds_seq :: nat
  ds_dir :: bool
  ds_diskUnavailable :: bool
  ds_files :: "(jsstr, jsstr) jsmap"

definition createDeferredOutputStore :: "nat \<Rightarrow> bool \<Rightarrow> (jsstr, jsstr) jsmap \<Rightarrow> (nat \<Rightarrow> disk_io) \<Rightarrow> deferred_store" where
  "createDeferredOutputStore cap fixedDir files disk =
     \<lparr> ds_capBytes = cap, ds_fixedDir = fixedDir, ds_disk = disk, ds_memory = [], ds_memoryBytes = 0, ds_seq = 0,
       ds_dir = False, ds_diskUnavailable = False, ds_files = files \<rparr>"

definition entryBytes :: "jsstr \<Rightarrow> nat" where
  "entryBytes content = length content * 2"

text \<open>
  What \<open>readFileSync\<close> gives back of a text written as UTF-8: a unit of no pair is replaced.
\<close>

fun read_back :: "jsstr \<Rightarrow> jsstr" where
  "read_back [] = []"
| "read_back [c] = [if isHighSurrogate c \<or> isLowSurrogate c then 0xFFFD else c]"
| "read_back (c # d # cs) =
     (if isHighSurrogate c \<and> isLowSurrogate d then c # d # read_back cs
      else (if isHighSurrogate c \<or> isLowSurrogate c then 0xFFFD else c) # read_back (d # cs))"

text \<open>\<open>ensureDir\<close>: whether there is a directory, and the state afterwards. A fresh temporary directory is empty.\<close>

definition ensureDir :: "disk_io \<Rightarrow> deferred_store \<Rightarrow> bool \<times> deferred_store" where
  "ensureDir io s =
     (if ds_diskUnavailable s then (False, s)
      else if ds_dir s then (True, s)
      else if io_mkdir io
      then (True, s\<lparr>ds_dir := True, ds_files := (if ds_fixedDir s then ds_files s else [])\<rparr>)
      else (False, s\<lparr>ds_diskUnavailable := True\<rparr>))"

fun spill :: "(jsstr \<Rightarrow> write_outcome) \<Rightarrow> (jsstr \<times> jsstr) list \<Rightarrow> deferred_store \<Rightarrow> deferred_store" where
  "spill wr [] s = s"
| "spill wr ((i, content) # es) s =
     (if ds_memoryBytes s \<le> ds_capBytes s then s
      else case wr i of
             WriteFailed part \<Rightarrow>
               s\<lparr>ds_diskUnavailable := True,
                 ds_files := (case part of Some g \<Rightarrow> mset_at i g (ds_files s) | None \<Rightarrow> ds_files s)\<rparr>
           | WriteOk \<Rightarrow>
               spill wr es (s\<lparr>ds_files := mset_at i (read_back content) (ds_files s), ds_memory := mdel i (ds_memory s),
                              ds_memoryBytes := ds_memoryBytes s - entryBytes content\<rparr>))"

definition spillUntilUnderCap :: "disk_io \<Rightarrow> deferred_store \<Rightarrow> deferred_store" where
  "spillUntilUnderCap io s =
     (if ds_memoryBytes s \<le> ds_capBytes s then s
      else case ensureDir io s of (target, s1) \<Rightarrow> if target then spill (io_write io) (ds_memory s1) s1 else s1)"

definition entry_id :: "nat \<Rightarrow> jsstr" where
  "entry_id n = js ''d'' @ digits n"

definition store_put :: "(jsstr \<Rightarrow> jsstr) \<Rightarrow> jsstr \<Rightarrow> deferred_store \<Rightarrow> jsstr \<times> deferred_store" where
  "store_put redactForDisk content s =
     (let n = Suc (ds_seq s);
          i = entry_id n;
          stored = redactForDisk content;
          s1 = s\<lparr>ds_seq := n, ds_memory := mset_at i stored (ds_memory s), ds_memoryBytes := ds_memoryBytes s + entryBytes stored\<rparr>
      in (i, spillUntilUnderCap (ds_disk s n) s1))"

definition digit_char :: "jschar \<Rightarrow> bool" where
  "digit_char c \<longleftrightarrow> 48 \<le> c \<and> c \<le> 57"

text \<open>\<open>/^d\d+$/\<close>, and whether a file can be read.\<close>

definition valid_id :: "jsstr \<Rightarrow> bool" where
  "valid_id i = (case i of [] \<Rightarrow> False | c # cs \<Rightarrow> c = 100 \<and> cs \<noteq> [] \<and> list_all digit_char cs)"

definition store_get :: "(jsstr \<Rightarrow> bool) \<Rightarrow> jsstr \<Rightarrow> deferred_store \<Rightarrow> jsstr option" where
  "store_get readable i s =
     (if \<not> valid_id i then None
      else case mget (ds_memory s) i of
             Some content \<Rightarrow> Some content
           | None \<Rightarrow> if ds_dir s \<and> readable i then mget (ds_files s) i else None)"

definition store_dispose :: "bool \<Rightarrow> deferred_store \<Rightarrow> deferred_store" where
  "store_dispose removed s =
     (let s1 = s\<lparr>ds_memory := [], ds_memoryBytes := 0\<rparr>
      in if ds_dir s then s1\<lparr>ds_dir := False, ds_files := (if removed then [] else ds_files s)\<rparr> else s1)"

section \<open>Reading back\<close>

lemma read_back_wf: "wf16 s \<Longrightarrow> read_back s = s"
  by (induction s rule: read_back.induct) (auto split: if_splits dest: high_not_low)

lemma read_back_nonempty: "read_back s = [] \<longleftrightarrow> s = []"
  by (cases s rule: read_back.cases) simp_all

lemma length_read_back [simp]: "length (read_back s) = length s"
  by (induction s rule: read_back.induct) simp_all

lemma digits_are_digits: "list_all digit_char (digits n)"
proof (induction n rule: digits.induct)
  case (1 n)
  have "digit_char (of_nat (48 + k))" if "k < 10" for k
  proof -
    have "k \<in> {0, 1, 2, 3, 4, 5, 6, 7, 8, 9}" using that by auto
    then show ?thesis by (auto simp: digit_char_def)
  qed
  then show ?case using 1 by (subst digits.simps) auto
qed

lemma valid_entry_id [simp]: "valid_id (entry_id n)"
  using digits_are_digits [of n] digits_nonempty [of n] by (simp add: valid_id_def entry_id_def js_def)

lemma entry_id_inj [simp]: "entry_id a = entry_id b \<longleftrightarrow> a = b"
  by (auto simp: entry_id_def dest: digits_inj)


section \<open>What the store holds\<close>

text \<open>
  The log lists what was put since the store was last emptied, redacted. Each entry is in memory, or in a file of
  the directory in the form it is read back in.
\<close>

type_synonym store_log = "(jsstr \<times> jsstr) list"

definition in_file :: "deferred_store \<Rightarrow> jsstr \<Rightarrow> jsstr \<Rightarrow> bool" where
  "in_file s i c \<longleftrightarrow> ds_dir s \<and> mget (ds_files s) i = Some (read_back c)"

definition bytes_of :: "(jsstr, jsstr) jsmap \<Rightarrow> nat" where
  "bytes_of m = sum_list (map (entryBytes \<circ> snd) m)"

definition store_ok :: "store_log \<Rightarrow> deferred_store \<Rightarrow> bool" where
  "store_ok l s \<longleftrightarrow>
     map_ok (ds_memory s) \<and> ds_memoryBytes s = bytes_of (ds_memory s) \<and>
     distinct (map fst l) \<and> (\<forall>(i, c)\<in>set l. \<exists>n. i = entry_id n \<and> n \<le> ds_seq s) \<and>
     (\<forall>(i, c)\<in>set (ds_memory s). (i, c) \<in> set l) \<and>
     (\<forall>(i, c)\<in>set l. mget (ds_memory s) i = Some c \<or> mget (ds_memory s) i = None \<and> in_file s i c)"

definition within_cap :: "deferred_store \<Rightarrow> bool" where
  "within_cap s \<longleftrightarrow> ds_memoryBytes s \<le> ds_capBytes s \<or> ds_diskUnavailable s"

lemma store_okD:
  assumes "store_ok l s"
  shows "map_ok (ds_memory s)" "ds_memoryBytes s = bytes_of (ds_memory s)" "distinct (map fst l)"
    "(i, c) \<in> set l \<Longrightarrow> \<exists>n. i = entry_id n \<and> n \<le> ds_seq s" "mget (ds_memory s) i = Some c \<Longrightarrow> (i, c) \<in> set l"
    "(i, c) \<in> set l \<Longrightarrow> mget (ds_memory s) i = Some c \<or> mget (ds_memory s) i = None \<and> in_file s i c"
  using assms unfolding store_ok_def by (blast, blast, blast, blast, metis (mono_tags, lifting) case_prodD mget_Some_in, blast)

lemma bytes_of_mdel_hd: "map_ok ((i, c) # m) \<Longrightarrow> bytes_of (mdel i ((i, c) # m)) = bytes_of ((i, c) # m) - entryBytes c"
  using mdel_hd [of "(i, c)" m] by (simp add: bytes_of_def)

text \<open>Spilling one entry after the other, oldest first.\<close>

lemma spill_step_ok:
  assumes ok: "store_ok l s" and m: "ds_memory s = (i, c) # es" and dir: "ds_dir s"
  shows "store_ok l (s\<lparr>ds_files := mset_at i (read_back c) (ds_files s), ds_memory := mdel i (ds_memory s),
      ds_memoryBytes := ds_memoryBytes s - entryBytes c\<rparr>)"
    "mdel i (ds_memory s) = es"
proof -
  note D = store_okD [OF ok]
  have ok_m: "map_ok ((i, c) # es)" using D(1) m by simp
  show del: "mdel i (ds_memory s) = es" using mdel_hd [OF ok_m] m by simp
  have get_i: "mget (ds_memory s) i = Some c" using mget_in [OF D(1)] m by simp
  have il: "(i, c) \<in> set l" by (rule D(5) [OF get_i])
  have only: "c' = c" if "(i, c') \<in> set l" for c'
    using that il D(3) by (metis eq_key_imp_eq_value)
  have mem: "mget (mdel i (ds_memory s)) x = (if x = i then None else mget (ds_memory s) x)" for x by simp
  let ?s = "s\<lparr>ds_files := mset_at i (read_back c) (ds_files s), ds_memory := mdel i (ds_memory s),
      ds_memoryBytes := ds_memoryBytes s - entryBytes c\<rparr>"
  have "mget (ds_memory ?s) x = Some y \<or> mget (ds_memory ?s) x = None \<and> in_file ?s x y" if "(x, y) \<in> set l" for x y
    using D(6) [OF that] only that dir by (cases "x = i") (auto simp: in_file_def)
  moreover have "(x, y) \<in> set l" if "(x, y) \<in> set es" for x y
    using that ok m by (auto simp: store_ok_def)
  ultimately show "store_ok l ?s"
    using D(1-4) m bytes_of_mdel_hd [OF ok_m] unfolding store_ok_def by (auto simp: del [unfolded m] map_ok_def mkeys_def)
qed


lemma spill_ok: "store_ok l s \<Longrightarrow> ds_memory s = es \<Longrightarrow> ds_dir s \<Longrightarrow> store_ok l (spill wr es s)"
proof (induction es arbitrary: s)
  case (Cons e es)
  obtain i c where e: "e = (i, c)" by (cases e)
  note step = spill_step_ok [OF Cons.prems(1) Cons.prems(2) [unfolded e] Cons.prems(3)]
  show ?case
  proof (cases "ds_memoryBytes s \<le> ds_capBytes s")
    case True
    then show ?thesis using Cons.prems(1) by (simp add: e)
  next
    case False
    show ?thesis
    proof (cases "wr i")
      case WriteOk
      then show ?thesis using False Cons.IH [OF step(1)] step(2) Cons.prems(3) by (simp add: e)
    next
      case (WriteFailed part)
      have "mget (ds_memory s) i = Some c" using mget_in [OF store_okD(1) [OF Cons.prems(1)]] Cons.prems(2) e by simp
      then have "x \<noteq> i" if "mget (ds_memory s) x = None" for x using that by auto
      then show ?thesis using False Cons.prems(1) WriteFailed
        unfolding store_ok_def by (auto simp: e in_file_def split: option.split)
    qed
  qed
qed simp

lemma bytes_zero: "bytes_of [] = 0"
  by (simp add: bytes_of_def)

lemma spill_cap: "store_ok l s \<Longrightarrow> ds_memory s = es \<Longrightarrow> ds_dir s \<Longrightarrow> within_cap (spill wr es s)"
proof (induction es arbitrary: s)
  case Nil
  then show ?case using store_okD(2) [OF Nil(1)] by (simp add: within_cap_def bytes_zero)
next
  case (Cons e es)
  obtain i c where e: "e = (i, c)" by (cases e)
  note step = spill_step_ok [OF Cons.prems(1) Cons.prems(2) [unfolded e] Cons.prems(3)]
  show ?case
    using Cons.IH [OF step(1)] step(2) Cons.prems(3) by (cases "wr i") (auto simp: e within_cap_def)
qed

lemma spill_rest [simp]: "ds_seq (spill wr es s) = ds_seq s" "ds_capBytes (spill wr es s) = ds_capBytes s"
  by (induction es arbitrary: s) (auto split: write_outcome.split)

lemma ensureDir_ok:
  assumes "store_ok l s"
  shows "store_ok l (snd (ensureDir io s))" "ds_memory (snd (ensureDir io s)) = ds_memory s"
    "fst (ensureDir io s) \<Longrightarrow> ds_dir (snd (ensureDir io s))" "\<not> fst (ensureDir io s) \<Longrightarrow> ds_diskUnavailable (snd (ensureDir io s))"
proof -
  have "\<not> ds_dir s \<Longrightarrow> (i, c) \<in> set l \<Longrightarrow> mget (ds_memory s) i = Some c" for i c
    using store_okD(6) [OF assms, of i c] by (simp add: in_file_def)
  then show "store_ok l (snd (ensureDir io s))"
    using assms unfolding store_ok_def ensureDir_def by (auto simp: in_file_def)
qed (auto simp: ensureDir_def split: if_splits)

lemma spillUntilUnderCap_ok:
  assumes "store_ok l s"
  shows "store_ok l (spillUntilUnderCap io s)" "within_cap (spillUntilUnderCap io s)" "ds_seq (spillUntilUnderCap io s) = ds_seq s"
proof -
  note e = ensureDir_ok [OF assms, of io]
  have q: "ds_seq (snd (ensureDir io s)) = ds_seq s" by (simp add: ensureDir_def)
  show "store_ok l (spillUntilUnderCap io s)"
    using assms e spill_ok [OF e(1) refl] by (auto simp: spillUntilUnderCap_def split: prod.split)
  show "within_cap (spillUntilUnderCap io s)"
  proof (cases "ds_memoryBytes s \<le> ds_capBytes s")
    case True
    then show ?thesis by (simp add: spillUntilUnderCap_def within_cap_def)
  next
    case False
    then show ?thesis using e spill_cap [OF e(1) refl]
      by (cases "fst (ensureDir io s)") (simp_all add: spillUntilUnderCap_def split_beta within_cap_def [of "snd (ensureDir io s)"])
  qed
  show "ds_seq (spillUntilUnderCap io s) = ds_seq s"
    using q by (auto simp: spillUntilUnderCap_def split: prod.split)
qed

lemma store_put_ok:
  assumes "store_ok l s" "store_put redact c s = (i, s')"
  shows "store_ok (l @ [(i, redact c)]) s'" "within_cap s'" "i = entry_id (Suc (ds_seq s))" "ds_seq s' = Suc (ds_seq s)"
proof -
  let ?n = "Suc (ds_seq s)"
  let ?s1 = "s\<lparr>ds_seq := ?n, ds_memory := mset_at (entry_id ?n) (redact c) (ds_memory s),
      ds_memoryBytes := ds_memoryBytes s + entryBytes (redact c)\<rparr>"
  note D = store_okD [OF assms(1)]
  have p: "i = entry_id ?n" "s' = spillUntilUnderCap (ds_disk s ?n) ?s1"
    using assms(2) by (auto simp: store_put_def Let_def)
  have new: "x \<noteq> entry_id ?n" if "(x, y) \<in> set l" for x y
    using D(4) [OF that] by auto
  have absent: "mget (ds_memory s) (entry_id ?n) = None"
    using new D(5) by (cases "mget (ds_memory s) (entry_id ?n)") blast+
  then have mem: "mset_at (entry_id ?n) (redact c) (ds_memory s) = ds_memory s @ [(entry_id ?n, redact c)]"
    by (simp add: mset_at_def mhas_mget)
  have "store_ok (l @ [(entry_id ?n, redact c)]) ?s1"
  proof -
    have a: "map_ok (mset_at (entry_id ?n) (redact c) (ds_memory s))" using D(1) by simp
    have "entry_id ?n \<notin> fst ` set l" using new by force
    then have b: "distinct (map fst (l @ [(entry_id ?n, redact c)]))" using D(3) by simp
    have d: "\<exists>n. x = entry_id n \<and> n \<le> ?n" if "(x, y) \<in> set (l @ [(entry_id ?n, redact c)])" for x y
    proof (cases "(x, y) \<in> set l")
      case True
      then show ?thesis using D(4) [OF True] le_SucI by blast
    next
      case False
      then show ?thesis using that by auto
    qed
    have f: "mget (ds_memory ?s1) x = Some y \<or> mget (ds_memory ?s1) x = None \<and> in_file ?s1 x y"
      if "(x, y) \<in> set (l @ [(entry_id ?n, redact c)])" for x y
    proof (cases "(x, y) \<in> set l")
      case True
      then show ?thesis using D(6) [OF True] new [OF True] by (auto simp: in_file_def)
    next
      case False
      then show ?thesis using that by auto
    qed
    have g: "(x, y) \<in> set (l @ [(entry_id ?n, redact c)])" if "(x, y) \<in> set (ds_memory ?s1)" for x y
      using that assms(1) unfolding store_ok_def by (auto simp: mem)
    have h: "ds_memoryBytes ?s1 = bytes_of (ds_memory ?s1)" using D(2) by (simp add: mem bytes_of_def)
    have a': "map_ok (ds_memory ?s1)" using a by simp
    have d': "\<exists>n. x = entry_id n \<and> n \<le> ds_seq ?s1" if "(x, y) \<in> set (l @ [(entry_id ?n, redact c)])" for x y
      using d [OF that] by simp
    show ?thesis unfolding store_ok_def using a' b d' f g h by blast
  qed
  note r = spillUntilUnderCap_ok [OF this, of "ds_disk s ?n"]
  show "store_ok (l @ [(i, redact c)]) s'" "within_cap s'" "i = entry_id (Suc (ds_seq s))" "ds_seq s' = Suc (ds_seq s)"
    using r p by simp_all
qed


lemma dispose_ok: "store_ok l s \<Longrightarrow> store_ok [] (store_dispose removed s)" "ds_seq (store_dispose removed s) = ds_seq s"
  by (simp_all add: store_ok_def store_dispose_def Let_def bytes_zero)

lemma create_store_ok: "store_ok [] (createDeferredOutputStore cap fixedDir files disk)"
  by (simp add: store_ok_def createDeferredOutputStore_def bytes_zero)

section \<open>A store its client can rely on\<close>

text \<open>
  What the context pruning needs of a store: a text that was put is held under its id, and stays held while more
  texts are put.
\<close>

locale recall_store =
  fixes put :: "jsstr \<Rightarrow> 's \<Rightarrow> jsstr \<times> 's"
    and holds :: "jsstr \<Rightarrow> jsstr \<Rightarrow> 's \<Rightarrow> bool"
    and inv :: "'s \<Rightarrow> bool"
  assumes put_inv: "inv s \<Longrightarrow> inv (snd (put c s))"
    and put_holds: "inv s \<Longrightarrow> holds (fst (put c s)) c (snd (put c s))"
    and put_keeps: "inv s \<Longrightarrow> holds i c s \<Longrightarrow> holds i c (snd (put d s))"
begin

text \<open>Putting several texts one after the other.\<close>

lemma put_list_inv: "inv s \<Longrightarrow> inv (fold (\<lambda>c s. snd (put c s)) cs s)"
  by (induction cs arbitrary: s) (simp_all add: put_inv)

lemma put_list_keeps: "inv s \<Longrightarrow> holds i c s \<Longrightarrow> holds i c (fold (\<lambda>c s. snd (put c s)) cs s)"
  by (induction cs arbitrary: s) (simp_all add: put_inv put_keeps)

lemma put_list_holds:
  "inv s \<Longrightarrow> cs = xs @ c # ys \<Longrightarrow>
   holds (fst (put c (fold (\<lambda>c s. snd (put c s)) xs s))) c (fold (\<lambda>c s. snd (put c s)) cs s)"
  by (simp add: put_list_keeps put_list_inv put_inv put_holds)

end

definition stored :: "(jsstr \<Rightarrow> jsstr) \<Rightarrow> jsstr \<Rightarrow> jsstr \<Rightarrow> deferred_store \<Rightarrow> bool" where
  "stored redact i c s \<longleftrightarrow> (\<exists>l. store_ok l s \<and> (i, redact c) \<in> set l)"

definition store_inv :: "deferred_store \<Rightarrow> bool" where
  "store_inv s \<longleftrightarrow> (\<exists>l. store_ok l s)"

interpretation deferred: recall_store "store_put redact" "stored redact" store_inv for redact
proof
  fix s c i d
  show "store_inv s \<Longrightarrow> store_inv (snd (store_put redact c s))"
    unfolding store_inv_def using store_put_ok(1) by (metis prod.collapse)
  show "store_inv s \<Longrightarrow> stored redact (fst (store_put redact c s)) c (snd (store_put redact c s))"
    unfolding store_inv_def stored_def
    using store_put_ok(1) [of _ s redact c "fst (store_put redact c s)" "snd (store_put redact c s)"] by fastforce
  show "store_inv s \<Longrightarrow> stored redact i c s \<Longrightarrow> stored redact i c (snd (store_put redact d s))"
    unfolding stored_def
    using store_put_ok(1) [of _ s redact d "fst (store_put redact d s)" "snd (store_put redact d s)"] by fastforce
qed

lemma stored_get:
  assumes "stored redact i c s" "\<And>x. readable x"
  shows "store_get readable i s = Some (redact c) \<or> store_get readable i s = Some (read_back (redact c))"
proof -
  from assms(1) obtain l where l: "store_ok l s" "(i, redact c) \<in> set l" unfolding stored_def by blast
  obtain n where "i = entry_id n" using store_okD(4) [OF l] by blast
  then show ?thesis using store_okD(6) [OF l] assms(2) by (auto simp: store_get_def in_file_def)
qed

section \<open>A session of the store\<close>

datatype store_event = Put jsstr | Dispose bool

text \<open>The store together with the texts put since it was last emptied, each with the id it was given.\<close>

fun store_step :: "(jsstr \<Rightarrow> jsstr) \<Rightarrow> store_event \<Rightarrow> deferred_store \<times> store_log \<Rightarrow> deferred_store \<times> store_log" where
  "store_step redact (Put c) (s, l) = (case store_put redact c s of (i, s') \<Rightarrow> (s', l @ [(i, c)]))"
| "store_step redact (Dispose removed) (s, l) = (store_dispose removed s, [])"

definition session_ok :: "(jsstr \<Rightarrow> jsstr) \<Rightarrow> deferred_store \<times> store_log \<Rightarrow> bool" where
  "session_ok redact x \<longleftrightarrow> store_ok (map (\<lambda>(i, c). (i, redact c)) (snd x)) (fst x)"

lemma session_step: "session_ok redact x \<Longrightarrow> session_ok redact (store_step redact e x)"
proof (cases e)
  case (Put c)
  assume ok: "session_ok redact x"
  obtain s l where x: "x = (s, l)" by (cases x)
  obtain i s' where p: "store_put redact c s = (i, s')" by fastforce
  show ?thesis using store_put_ok(1) [OF _ p] ok by (simp add: x Put p session_ok_def)
next
  case (Dispose removed)
  then show "session_ok redact x \<Longrightarrow> ?thesis"
    using dispose_ok(1) by (cases x) (simp add: session_ok_def)
qed

interpretation store_session: event_machine "store_step redact" "session_ok redact" for redact
  by unfold_locales (rule session_step)

definition start_session :: "nat \<Rightarrow> bool \<Rightarrow> (jsstr, jsstr) jsmap \<Rightarrow> (nat \<Rightarrow> disk_io) \<Rightarrow> deferred_store \<times> store_log" where
  "start_session cap fixedDir files disk = (createDeferredOutputStore cap fixedDir files disk, [])"

lemma session_store_inv: "(s, l) = fold (store_step redact) es (start_session cap fixedDir files disk) \<Longrightarrow> store_inv s"
proof -
  assume e: "(s, l) = fold (store_step redact) es (start_session cap fixedDir files disk)"
  have "session_ok redact (start_session cap fixedDir files disk)"
    by (simp add: session_ok_def start_session_def create_store_ok)
  then have "session_ok redact (s, l)" unfolding e by (rule store_session.inv_run)
  then show "store_inv s" unfolding store_inv_def session_ok_def by auto
qed

text \<open>C20: A text taken out of the context is not lost to the cap or to a write the disk refuses: each text put since the store
  was last emptied has an id of its own, and under that id the store gives back its redacted form as it is, as long as it
  is in memory - where it stays when there is no directory or its write failed -, and once it has spilled, what reading
  its file gives: the redacted form again, but for unpaired surrogates, which UTF-8 replaces. It gives nothing only for a
  spilled text whose file cannot be read.
\<close>

theorem recall_exact:
  assumes "(s, l) = fold (store_step redact) es (start_session cap fixedDir files disk)" "(i, c) \<in> set l"
  shows "distinct (map fst l) \<and>
    store_get readable i s =
      (if mhas (ds_memory s) i then Some (redact c) else if readable i then Some (read_back (redact c)) else None) \<and>
    (ds_dir s = False \<longrightarrow> mhas (ds_memory s) i) \<and>
    (wf16 (redact c) \<longrightarrow> read_back (redact c) = redact c)"
proof -
  have "session_ok redact (start_session cap fixedDir files disk)"
    by (simp add: session_ok_def start_session_def create_store_ok)
  then have ok: "store_ok (map (\<lambda>(i, c). (i, redact c)) l) s"
    using store_session.inv_run [of redact "start_session cap fixedDir files disk" es] assms(1) [symmetric] by (simp add: session_ok_def)
  have "(i, redact c) \<in> set (map (\<lambda>(i, c). (i, redact c)) l)" using assms(2) by force
  note here = store_okD(4) [OF ok this] store_okD(6) [OF ok this]
  have "map fst (map (\<lambda>(i, c). (i, redact c)) l) = map fst l" by auto
  then have "distinct (map fst l)" using store_okD(3) [OF ok] by (simp only:)
  then show ?thesis using here read_back_wf by (auto simp: store_get_def in_file_def mhas_mget)
qed

text \<open>The three outcomes: in memory, where a write failed; read back from a file; and from a file that cannot be read.\<close>

definition sample_disk :: "nat \<Rightarrow> disk_io" where
  "sample_disk n = \<lparr> io_mkdir = True, io_write = (\<lambda>i. if n < 3 then WriteOk else WriteFailed (Some [])) \<rparr>"

theorem recall_exact_witness:
  "\<exists>s. ds_diskUnavailable s \<and> mget (ds_memory s) (js ''d1'') = None \<and>
     store_get (\<lambda>x. True) (js ''d1'') s = Some (js ''abc'') \<and> store_get (\<lambda>x. False) (js ''d1'') s = None \<and>
     store_get (\<lambda>x. False) (js ''d3'') s = Some (js ''hijk'')"
proof -
  define x where "x = fold (store_step (\<lambda>t. t)) [Put (js ''abc''), Put (js ''defg''), Put (js ''hijk'')] (start_session 7 False [] sample_disk)"
  have l: "snd x = [(js ''d1'', js ''abc''), (js ''d2'', js ''defg''), (js ''d3'', js ''hijk'')]" unfolding x_def by code_simp
  have w: "wf16 (js ''abc'')" by code_simp
  have d: "ds_diskUnavailable (fst x)" "mget (ds_memory (fst x)) (js ''d1'') = None" "mhas (ds_memory (fst x)) (js ''d3'')"
    unfolding x_def by code_simp+
  have e: "(fst x, snd x) = fold (store_step (\<lambda>t. t)) [Put (js ''abc''), Put (js ''defg''), Put (js ''hijk'')] (start_session 7 False [] sample_disk)"
    by (simp only: x_def prod.collapse)
  have i: "(js ''d1'', js ''abc'') \<in> set (snd x)" "(js ''d3'', js ''hijk'') \<in> set (snd x)" by (simp_all add: l)
  have "store_get (\<lambda>x. True) (js ''d1'') (fst x) = Some (js ''abc'')" "store_get (\<lambda>x. False) (js ''d1'') (fst x) = None"
    using recall_exact [OF e i(1), of "\<lambda>x. True"] recall_exact [OF e i(1), of "\<lambda>x. False"] w d(2) by (simp_all add: mhas_mget)
  moreover have "store_get (\<lambda>x. False) (js ''d3'') (fst x) = Some (js ''hijk'')"
    using recall_exact [OF e i(2), of "\<lambda>x. False"] d(3) by simp
  ultimately show ?thesis using d(1,2) by blast
qed

text \<open>After every put the texts in memory fit in the cap, unless the disk has failed; then none is dropped.\<close>

theorem memory_within_cap:
  assumes "(s, l) = fold (store_step redact) es (start_session cap fixedDir files disk)"
  shows "ds_memoryBytes (snd (store_put redact c s)) \<le> ds_capBytes (snd (store_put redact c s)) \<or>
    ds_diskUnavailable (snd (store_put redact c s))"
proof -
  have "session_ok redact (start_session cap fixedDir files disk)"
    by (simp add: session_ok_def start_session_def create_store_ok)
  then have "session_ok redact (s, l)"
    using store_session.inv_run [of redact "start_session cap fixedDir files disk" es] assms(1) by simp
  then show ?thesis
    using store_put_ok(2) [of "map (\<lambda>(i, c). (i, redact c)) l" s redact c "fst (store_put redact c s)" "snd (store_put redact c s)"]
    by (simp add: session_ok_def within_cap_def)
qed

text \<open>A spilled text with an unpaired surrogate does not come back as it was put.\<close>

lemma spill_changes_text:
  "store_get (\<lambda>x. True) (js ''d1'') (snd (store_put (\<lambda>t. t) [0xD83D] (createDeferredOutputStore 0 False [] sample_disk))) = Some [0xFFFD]"
  by code_simp

end
