(* ===== verification/ContextPrune.thy ===== *)
theory ContextPrune
  imports SupersedeScan DeferredStore
begin

text \<open>
  Pruning the context (core/compaction/prune.ts, with the excerpts of core/compaction/utils.ts): what of the old
  messages is cut to an excerpt, collapsed or elided, what is protected by recency or by a pinned file, and what goes
  to the store of deferred outputs. The rewritten messages are returned; the caches of estimates by object identity
  return what is recomputed here. The JSON crusher and the redaction are parameters, and \<open>pn_throws\<close> tells on which
  texts the redaction throws.
\<close>


section \<open>Excerpts\<close>

record prune_env =
  pn_path :: path_env
  pn_canonical :: "jsstr \<Rightarrow> jsstr"
  pn_crush :: "jsstr \<Rightarrow> jsstr option"
  pn_redact :: "jsstr \<Rightarrow> jsstr"
  pn_throws :: "jsstr \<Rightarrow> bool"

fun char_index :: "jschar \<Rightarrow> jsstr \<Rightarrow> nat option" where
  "char_index c [] = None"
| "char_index c (d # ds) = (if d = c then Some 0 else map_option Suc (char_index c ds))"

fun last_char_index :: "jschar \<Rightarrow> jsstr \<Rightarrow> nat option" where
  "last_char_index c [] = None"
| "last_char_index c (d # ds) =
     (case last_char_index c ds of Some i \<Rightarrow> Some (Suc i) | None \<Rightarrow> if d = c then Some 0 else None)"

text \<open>\<open>slice(0, -1)\<close> when there is no line break and the window is larger than the budget.\<close>

definition snap_head :: "nat \<Rightarrow> nat \<Rightarrow> jsstr \<Rightarrow> jsstr" where
  "snap_head headBudget snapWindow h =
     (case last_char_index 10 h of
        Some i \<Rightarrow> if int i > int headBudget - int snapWindow then take i h else h
      | None \<Rightarrow> if -1 > int headBudget - int snapWindow then butlast h else h)"

definition snap_tail :: "nat \<Rightarrow> jsstr \<Rightarrow> jsstr" where
  "snap_tail snapWindow t =
     (case char_index 10 t of Some i \<Rightarrow> if i < snapWindow then drop (Suc i) t else t | None \<Rightarrow> t)"

record excerpt_options =
  eo_headBudget :: nat
  eo_tailBudget :: nat
  eo_snapWindow :: nat
  eo_marker :: "nat \<Rightarrow> jsstr \<Rightarrow> jsstr"
  eo_crush :: "jsstr \<Rightarrow> jsstr option"

definition headTailExcerptShared :: "excerpt_options \<Rightarrow> jsstr \<Rightarrow> jsstr" where
  "headTailExcerptShared opts t =
     (if length t \<le> eo_headBudget opts + eo_tailBudget opts then t
      else case eo_crush opts t of
             Some crushed \<Rightarrow> crushed
           | None \<Rightarrow>
               (let h = snap_head (eo_headBudget opts) (eo_snapWindow opts) (take (eo_headBudget opts) t);
                    e = snap_tail (eo_snapWindow opts) (drop (length t - eo_tailBudget opts) t);
                    middle = js_slice t (length h) (length t - length e)
                in h @ [10, 10] @ eo_marker opts (length middle) middle @ [10, 10] @ e))"

definition PRUNE_TOKEN_THRESHOLD :: nat where "PRUNE_TOKEN_THRESHOLD = 20000"
definition PRUNE_PROTECT_TURNS :: nat where "PRUNE_PROTECT_TURNS = 2"
definition PRUNE_HEAD_CHARS :: nat where "PRUNE_HEAD_CHARS = 1500"
definition PRUNE_TAIL_CHARS :: nat where "PRUNE_TAIL_CHARS = 800"
definition PRUNE_MIN_SHRINK_CHARS :: nat where "PRUNE_MIN_SHRINK_CHARS = PRUNE_HEAD_CHARS + PRUNE_TAIL_CHARS + 64"
definition FIRST_USER_PASTE_THRESHOLD_MULTIPLIER :: nat where "FIRST_USER_PASTE_THRESHOLD_MULTIPLIER = 3"
definition FIRST_USER_PRUNE_HEAD_CHARS :: nat where "FIRST_USER_PRUNE_HEAD_CHARS = 6000"
definition FIRST_USER_PRUNE_TAIL_CHARS :: nat where "FIRST_USER_PRUNE_TAIL_CHARS = 3000"
definition FIRST_USER_PRUNE_MIN_SHRINK_CHARS :: nat where
  "FIRST_USER_PRUNE_MIN_SHRINK_CHARS = FIRST_USER_PRUNE_HEAD_CHARS + FIRST_USER_PRUNE_TAIL_CHARS + 64"

definition tokens_marker :: "nat \<Rightarrow> jsstr" where
  "tokens_marker n = js ''['' @ ellipsis @ js '' ~'' @ digits n @ js '' tokens elided '' @ ellipsis @ js '']''"

definition headTailExcerpt :: "prune_env \<Rightarrow> jsstr \<Rightarrow> jsstr" where
  "headTailExcerpt env =
     headTailExcerptShared
       \<lparr> eo_headBudget = PRUNE_HEAD_CHARS, eo_tailBudget = PRUNE_TAIL_CHARS, eo_snapWindow = 400,
         eo_marker = (\<lambda>n middle. tokens_marker (estimateStringTokens middle True)), eo_crush = pn_crush env \<rparr>"

definition firstUserHeadTailExcerpt :: "jsstr \<Rightarrow> jsstr" where
  "firstUserHeadTailExcerpt =
     headTailExcerptShared
       \<lparr> eo_headBudget = FIRST_USER_PRUNE_HEAD_CHARS, eo_tailBudget = FIRST_USER_PRUNE_TAIL_CHARS, eo_snapWindow = 400,
         eo_marker = (\<lambda>n middle. tokens_marker (estimateStringTokens middle False)), eo_crush = (\<lambda>t. None) \<rparr>"

definition THINKING_MAX_CHARS :: nat where "THINKING_MAX_CHARS = 1500"

text \<open>\<open>Math.floor(maxChars * 0.65)\<close>\<close>

definition truncateForSummary :: "nat \<Rightarrow> jsstr \<Rightarrow> jsstr" where
  "truncateForSummary maxChars =
     (let headBudget = maxChars * 65 div 100
      in headTailExcerptShared
           \<lparr> eo_headBudget = headBudget, eo_tailBudget = maxChars - headBudget, eo_snapWindow = 200,
             eo_marker = (\<lambda>n middle. js ''[... '' @ digits n @ js '' characters truncated ...]''), eo_crush = (\<lambda>t. None) \<rparr>)"

definition capThinkingForContext :: "jsstr \<Rightarrow> jsstr" where
  "capThinkingForContext = truncateForSummary THINKING_MAX_CHARS"

definition wouldShrinkViaHeadTail :: "prune_env \<Rightarrow> jsstr \<Rightarrow> bool" where
  "wouldShrinkViaHeadTail env t \<longleftrightarrow>
     \<not> length t \<le> PRUNE_MIN_SHRINK_CHARS \<and> length (headTailExcerpt env t) < length t"

section \<open>Thresholds under pressure\<close>

definition ADAPTIVE_PRUNE_MIN_THRESHOLD :: nat where "ADAPTIVE_PRUNE_MIN_THRESHOLD = 4000"
definition PRESSURE_PRUNE_SMALL_WINDOW :: int where "PRESSURE_PRUNE_SMALL_WINDOW = 200000"

text \<open>Occupancies \<open>tokens / window\<close> are compared by cross-multiplication, percent by percent.\<close>

definition occupied :: "int \<Rightarrow> int \<Rightarrow> int \<Rightarrow> bool" where
  "occupied percent contextTokens contextWindow \<longleftrightarrow> 100 * contextTokens \<ge> percent * contextWindow"

definition pressurePruneProtectTurns :: "int \<Rightarrow> jsnum \<Rightarrow> nat" where
  "pressurePruneProtectTurns contextTokens contextWindow =
     (case contextWindow of
        Finite w \<Rightarrow>
          if w \<le> 0 then PRUNE_PROTECT_TURNS
          else if w \<le> PRESSURE_PRUNE_SMALL_WINDOW
          then (if occupied 80 contextTokens w then 0 else if occupied 65 contextTokens w then 1 else PRUNE_PROTECT_TURNS)
          else (if occupied 90 contextTokens w then 1 else PRUNE_PROTECT_TURNS)
      | _ \<Rightarrow> PRUNE_PROTECT_TURNS)"

text \<open>\<open>t\<close> runs from 0 at half occupancy to 1 at 90 percent.\<close>

definition adaptivePruneThreshold :: "int \<Rightarrow> jsnum \<Rightarrow> int" where
  "adaptivePruneThreshold contextTokens contextWindow =
     (case contextWindow of
        Finite w \<Rightarrow>
          if w \<le> 0 \<or> 100 * contextTokens \<le> 50 * w then int PRUNE_TOKEN_THRESHOLD
          else if occupied 90 contextTokens w then int ADAPTIVE_PRUNE_MIN_THRESHOLD
          else (let t = (of_int contextTokens / of_int w - 1 / 2) / (2 / 5) :: rat
                in js_round (of_nat PRUNE_TOKEN_THRESHOLD - t * (of_nat PRUNE_TOKEN_THRESHOLD - of_nat ADAPTIVE_PRUNE_MIN_THRESHOLD)))
      | _ \<Rightarrow> int PRUNE_TOKEN_THRESHOLD)"

section \<open>The plan\<close>

definition is_user :: "pmessage \<Rightarrow> bool" where
  "is_user m = (case m of PUser b \<Rightarrow> True | _ \<Rightarrow> False)"

text \<open>The index of the \<open>k\<close>-th user message from the end, below \<open>i\<close>; 0 when there are fewer.\<close>

fun nth_user_below :: "pmessage list \<Rightarrow> nat \<Rightarrow> nat \<Rightarrow> nat" where
  "nth_user_below ms k 0 = 0"
| "nth_user_below ms k (Suc i) =
     (if is_user (ms ! i) then (if k \<le> 1 then i else nth_user_below ms (k - 1) i) else nth_user_below ms k i)"

definition computePruneProtectFromIndex :: "pmessage list \<Rightarrow> nat \<Rightarrow> nat" where
  "computePruneProtectFromIndex ms protectTurns =
     (if protectTurns = 0 then length ms else nth_user_below ms protectTurns (length ms))"

definition PINNABLE_TOOL_NAMES :: "jsstr list" where
  "PINNABLE_TOOL_NAMES = [js ''read'', js ''grep'', js ''find'', js ''write'', js ''edit'', js ''edit_v2'', js ''ast_edit'']"

definition pinned_call :: "prune_env \<Rightarrow> jsstr list \<Rightarrow> tool_use \<Rightarrow> bool" where
  "pinned_call env pinnedPaths c \<longleftrightarrow> tu_name c \<in> set PINNABLE_TOOL_NAMES \<and>
     (case pathArgOf (tu_arguments c) of None \<Rightarrow> False | Some p \<Rightarrow> pn_canonical env p \<in> set pinnedPaths)"

definition pin_message :: "prune_env \<Rightarrow> jsstr list \<Rightarrow> nat \<times> pmessage \<Rightarrow> jsstr list \<times> nat list \<Rightarrow> jsstr list \<times> nat list" where
  "pin_message env pinnedPaths e acc =
     (case (e, acc) of ((i, m), (ids, pinned)) \<Rightarrow>
        (case m of
           PAssistant (PBlocks bs) \<Rightarrow>
             (let cs = filter (pinned_call env pinnedPaths) (calls_of_blocks bs)
              in (ids @ map tu_id cs, if list_ex (\<lambda>c. tu_name c \<in> set MUTATING_TOOL_NAMES) cs then sadd i pinned else pinned))
         | PResult callId name isError body \<Rightarrow> (ids, if callId \<in> set ids then sadd i pinned else pinned)
         | _ \<Rightarrow> (ids, pinned)))"

definition computePinnedToolResultIndices :: "prune_env \<Rightarrow> pmessage list \<Rightarrow> jsstr list \<Rightarrow> nat list" where
  "computePinnedToolResultIndices env ms pinnedPaths =
     (if pinnedPaths = [] then [] else snd (fold (pin_message env pinnedPaths) (List.enumerate 0 ms) ([], [])))"

record prune_plan =
  pl_protectFromIndex :: nat
  pl_supersededIndices :: "nat list"
  pl_causes :: "(nat, jsstr) jsmap"
  pl_pinnedIndices :: "nat list"

definition planContextPrune :: "prune_env \<Rightarrow> scan_state option \<Rightarrow> pmessage list \<Rightarrow> nat \<Rightarrow> jsstr list \<Rightarrow> prune_plan \<times> scan_state" where
  "planContextPrune env cached ms protectTurns pinnedPaths =
     (let protectFrom = computePruneProtectFromIndex ms protectTurns;
          pinned = computePinnedToolResultIndices env ms pinnedPaths
      in case buildSupersededToolResultIndices (pn_path env) cached ms protectFrom of
           (d, st) \<Rightarrow>
             (\<lparr> pl_protectFromIndex = protectFrom,
                pl_supersededIndices = filter (\<lambda>i. i \<notin> set pinned) (sd_indices d),
                pl_causes = fold mdel pinned (sd_mutationCauses d), pl_pinnedIndices = pinned \<rparr>, st))"

definition splitSupersedePlanByCause :: "prune_plan \<Rightarrow> prune_plan \<times> prune_plan" where
  "splitSupersedePlanByCause plan =
     (plan\<lparr>pl_supersededIndices := filter (mhas (pl_causes plan)) (pl_supersededIndices plan)\<rparr>,
      plan\<lparr>pl_supersededIndices := filter (\<lambda>i. \<not> mhas (pl_causes plan) i) (pl_supersededIndices plan)\<rparr>)"


section \<open>Rewriting texts\<close>

text \<open>A list rewritten from left to right: the new list, the tokens reclaimed, and the store.\<close>

type_synonym store_opt = "deferred_store option"

fun through :: "(nat \<Rightarrow> 'a \<Rightarrow> 's \<Rightarrow> 'a \<times> nat \<times> 's) \<Rightarrow> nat \<Rightarrow> 'a list \<Rightarrow> 's \<Rightarrow> 'a list \<times> nat \<times> 's" where
  "through f i [] s = ([], 0, s)"
| "through f i (x # xs) s =
     (case f i x s of (y, n, s1) \<Rightarrow> (case through f (Suc i) xs s1 of (ys, m, s2) \<Rightarrow> (y # ys, n + m, s2)))"

text \<open>\<open>store.put\<close> between \<open>try\<close> and \<open>catch\<close>.\<close>

definition try_put :: "prune_env \<Rightarrow> jsstr \<Rightarrow> store_opt \<Rightarrow> jsstr option \<times> store_opt" where
  "try_put env content store =
     (case store of
        None \<Rightarrow> (None, None)
      | Some s \<Rightarrow> if pn_throws env content then (None, Some (s\<lparr>ds_seq := Suc (ds_seq s)\<rparr>))
                 else (case store_put (pn_redact env) content s of (i, s') \<Rightarrow> (Some i, Some s')))"

definition formatDeferredOutputPlaceholder :: "nat \<Rightarrow> jsstr \<Rightarrow> jsstr" where
  "formatDeferredOutputPlaceholder tokens i =
     js ''[Full output (~'' @ digits tokens @ js '' tokens) deferred '' @ [0x2014] @ js '' recall_tool_output({ id: \"'' @ i @
     js ''\" }) returns it in full.]''"

definition formatMutationSupersededMarker :: "jsstr \<Rightarrow> jsstr" where
  "formatMutationSupersededMarker path =
     js ''[superseded: '' @ path @ js '' was modified by a later write/edit '' @ [0x2014] @ js '' re-read for current content]''"

definition collapseSupersededTextBlock :: "prune_env \<Rightarrow> jsstr \<Rightarrow> jsstr option \<Rightarrow> jsstr \<Rightarrow> store_opt \<Rightarrow> jsstr \<times> nat \<times> store_opt" where
  "collapseSupersededTextBlock env toolName cause t store =
     (let est = estimateStringTokens t True;
          excerpt = headTailExcerpt env t;
          (replacement, store1) =
            (if toolName = js ''bash'' \<and> store \<noteq> None
             then (case try_put env t store of
                     (Some i, s') \<Rightarrow> (excerpt @ newline @ formatDeferredOutputPlaceholder est i, s')
                   | (None, s') \<Rightarrow> (excerpt, s'))
             else (excerpt, store));
          marked = (case cause of Some path \<Rightarrow> replacement @ newline @ formatMutationSupersededMarker path | None \<Rightarrow> replacement)
      in if length excerpt \<ge> length t then (t, 0, store)
         else (marked, est - estimateStringTokens marked True, store1))"

text \<open>A tool output above the threshold.\<close>

definition shrink_output :: "prune_env \<Rightarrow> jsstr \<Rightarrow> store_opt \<Rightarrow> jsstr \<times> nat \<times> store_opt" where
  "shrink_output env t store =
     (let est = estimateStringTokens t True;
          (i, store1) = try_put env t store;
          excerpt = headTailExcerpt env t;
          replacement = (case i of Some i \<Rightarrow> excerpt @ newline @ formatDeferredOutputPlaceholder est i | None \<Rightarrow> excerpt)
      in (replacement, est - estimateStringTokens replacement True, store1))"

definition prune_output :: "prune_env \<Rightarrow> nat \<Rightarrow> jsstr \<Rightarrow> bool \<Rightarrow> jsstr option \<Rightarrow> jsstr \<Rightarrow> store_opt \<Rightarrow> jsstr \<times> nat \<times> store_opt" where
  "prune_output env tokenThreshold toolName stale cause t store =
     (if estimateStringTokens t True > tokenThreshold then shrink_output env t store
      else if stale then collapseSupersededTextBlock env toolName cause t store
      else (t, 0, store))"

record paste_profile =
  pp_tokenThreshold :: nat
  pp_minShrinkChars :: nat
  pp_excerpt :: "jsstr \<Rightarrow> jsstr"

definition userPasteProfile :: "prune_env \<Rightarrow> nat \<Rightarrow> paste_profile" where
  "userPasteProfile env tokenThreshold =
     \<lparr> pp_tokenThreshold = tokenThreshold, pp_minShrinkChars = PRUNE_MIN_SHRINK_CHARS, pp_excerpt = headTailExcerpt env \<rparr>"

definition firstUserPasteProfile :: "nat \<Rightarrow> paste_profile" where
  "firstUserPasteProfile tokenThreshold =
     \<lparr> pp_tokenThreshold = tokenThreshold * FIRST_USER_PASTE_THRESHOLD_MULTIPLIER,
       pp_minShrinkChars = FIRST_USER_PRUNE_MIN_SHRINK_CHARS, pp_excerpt = firstUserHeadTailExcerpt \<rparr>"

definition deferredUserPasteReplacement :: "prune_env \<Rightarrow> paste_profile \<Rightarrow> jsstr \<Rightarrow> store_opt \<Rightarrow> jsstr \<times> nat \<times> store_opt" where
  "deferredUserPasteReplacement env profile t store =
     (let est = estimateStringTokens t False;
          excerpt = pp_excerpt profile t
      in if est \<le> pp_tokenThreshold profile then (t, 0, store)
         else if length excerpt \<ge> length t then (t, 0, store)
         else (case try_put env t store of
                 (None, s') \<Rightarrow> (t, 0, s')
               | (Some i, s') \<Rightarrow>
                   (let replacement = excerpt @ newline @ formatDeferredOutputPlaceholder est i
                    in (replacement, est - estimateStringTokens replacement False, s'))))"

definition wouldShrinkUserPaste :: "jsstr \<Rightarrow> paste_profile \<Rightarrow> bool" where
  "wouldShrinkUserPaste t profile \<longleftrightarrow>
     \<not> length t \<le> pp_minShrinkChars profile \<and> \<not> estimateStringTokens t False \<le> pp_tokenThreshold profile \<and>
     length (pp_excerpt profile t) < length t"

section \<open>Consumed reminders\<close>

definition STEERING_REMINDER_MATCHERS :: "(jsstr \<times> jsstr) list" where
  "STEERING_REMINDER_MATCHERS =
     [(js ''overthink'', js ''<system-reminder>[overthink]''), (js ''TTSR'', js ''<system-reminder>[TTSR:''),
      (js ''doom-loop'', js ''<system-reminder>[doom-loop]''), (js ''failure-budget'', js ''<system-reminder>[failure-budget]''),
      (js ''repeated-error'', js ''<system-reminder>[repeated-error]''), (js ''stagnation'', js ''<system-reminder>[stagnation]''),
      (js ''tool-error'', js ''<system-reminder>[tool-error]'')]"

definition SYSTEM_REMINDER_CLOSE :: jsstr where
  "SYSTEM_REMINDER_CLOSE = js ''</system-reminder>''"

fun sub_index :: "jsstr \<Rightarrow> jsstr \<Rightarrow> nat option" where
  "sub_index p [] = (if p = [] then Some 0 else None)"
| "sub_index p (c # cs) = (if take (length p) (c # cs) = p then Some 0 else map_option Suc (sub_index p cs))"

definition consumedSteeringReminderKind :: "jsstr \<Rightarrow> jsstr option" where
  "consumedSteeringReminderKind t =
     (let trimmed = trim t
      in if \<not> ends_with trimmed SYSTEM_REMINDER_CLOSE then None
         else if sub_index SYSTEM_REMINDER_CLOSE trimmed \<noteq> Some (length trimmed - length SYSTEM_REMINDER_CLOSE) then None
         else map_option fst (find (\<lambda>(kind, prefix). take (length prefix) trimmed = prefix) STEERING_REMINDER_MATCHERS))"

definition formatConsumedSteeringReminder :: "jsstr \<Rightarrow> jsstr" where
  "formatConsumedSteeringReminder kind = js ''[steering reminder ('' @ kind @ js '') consumed]''"

definition collapse_reminder :: "jsstr \<Rightarrow> 's \<Rightarrow> jsstr \<times> nat \<times> 's" where
  "collapse_reminder t store =
     (case consumedSteeringReminderKind t of
        None \<Rightarrow> (t, 0, store)
      | Some kind \<Rightarrow>
          (let replacement = formatConsumedSteeringReminder kind;
               before = estimateStringTokens t False;
               after = estimateStringTokens replacement False
           in if after \<ge> before then (t, 0, store) else (replacement, before - after, store)))"

definition is_collapsible :: "jsstr \<Rightarrow> bool" where
  "is_collapsible t =
     (case consumedSteeringReminderKind t of
        None \<Rightarrow> False
      | Some kind \<Rightarrow> estimateStringTokens (formatConsumedSteeringReminder kind) False < estimateStringTokens t False)"

section \<open>Messages\<close>

definition rewrite_block :: "(jsstr \<Rightarrow> 's \<Rightarrow> jsstr \<times> nat \<times> 's) \<Rightarrow> nat \<Rightarrow> pblock \<Rightarrow> 's \<Rightarrow> pblock \<times> nat \<times> 's" where
  "rewrite_block f i b s =
     (case b of
        PText t \<Rightarrow> if t = [] then (b, 0, s) else (case f t s of (t', n, s') \<Rightarrow> (PText t', n, s'))
      | _ \<Rightarrow> (b, 0, s))"

definition rewrite_body :: "(jsstr \<Rightarrow> 's \<Rightarrow> jsstr \<times> nat \<times> 's) \<Rightarrow> pbody \<Rightarrow> 's \<Rightarrow> pbody \<times> nat \<times> 's" where
  "rewrite_body f body s =
     (case body of
        PString t \<Rightarrow> (case f t s of (t', n, s') \<Rightarrow> (PString t', n, s'))
      | PBlocks bs \<Rightarrow> (case through (rewrite_block f) 0 bs s of (bs', n, s') \<Rightarrow> (PBlocks bs', n, s')))"

definition body_texts :: "pbody \<Rightarrow> jsstr list" where
  "body_texts body =
     (case body of PString t \<Rightarrow> [t] | PBlocks bs \<Rightarrow> concat (map (\<lambda>b. case b of PText t \<Rightarrow> if t = [] then [] else [t] | _ \<Rightarrow> []) bs))"

definition pruneUserPasteBlocks :: "prune_env \<Rightarrow> paste_profile \<Rightarrow> pbody \<Rightarrow> store_opt \<Rightarrow> pbody \<times> nat \<times> store_opt" where
  "pruneUserPasteBlocks env profile = rewrite_body (deferredUserPasteReplacement env profile)"

definition wouldPruneUserPasteBlocks :: "pbody \<Rightarrow> paste_profile \<Rightarrow> bool" where
  "wouldPruneUserPasteBlocks body profile = list_ex (\<lambda>t. wouldShrinkUserPaste t profile) (body_texts body)"

definition collapseConsumedSteeringReminders :: "pbody \<Rightarrow> 's \<Rightarrow> pbody \<times> nat \<times> 's" where
  "collapseConsumedSteeringReminders = rewrite_body collapse_reminder"

definition hasConsumedSteeringReminder :: "pbody \<Rightarrow> bool" where
  "hasConsumedSteeringReminder body = list_ex is_collapsible (body_texts body)"

text \<open>\<open>JSON.stringify\<close>\<close>

fun json_text :: "jdata \<Rightarrow> jsstr" where
  "json_text JNull = js ''null''"
| "json_text (JBool b) = (if b then js ''true'' else js ''false'')"
| "json_text (JNum t) = t"
| "json_text (JStr s) = json_quote s"
| "json_text (JArr xs) = js ''['' @ join (js '','') (map json_text xs) @ js '']''"
| "json_text (JObj fs) = js ''{'' @ join (js '','') (map (\<lambda>(k, v). json_quote k @ js '':'' @ json_text v) fs) @ js ''}''"

definition args_cost :: "jdata \<Rightarrow> nat" where
  "args_cost args = estimateStringTokens (json_text args) True"

text \<open>The arguments of one mutating call, with the tokens reclaimed.\<close>

definition elide_call :: "bool \<Rightarrow> tool_use \<Rightarrow> tool_use \<times> nat" where
  "elide_call failed c =
     (case pruneToolCallArguments (tu_arguments c) failed of
        None \<Rightarrow> (c, 0)
      | Some (pruned, saved) \<Rightarrow> (c\<lparr>tu_arguments := pruned\<rparr>, args_cost (tu_arguments c) - args_cost pruned))"

definition buildToolCallErrorIndex :: "pmessage list \<Rightarrow> (jsstr, bool) jsmap" where
  "buildToolCallErrorIndex ms =
     fold (\<lambda>m idx. case m of PResult callId name e body \<Rightarrow> mset_at callId e idx | _ \<Rightarrow> idx) ms []"

definition prune_call_block :: "(jsstr, bool) jsmap \<Rightarrow> nat \<Rightarrow> nat \<Rightarrow> pblock \<Rightarrow> 's \<Rightarrow> pblock \<times> nat \<times> 's" where
  "prune_call_block errorByCallId tokenThreshold i b s =
     (case b of
        PCall c \<Rightarrow>
          if tu_name c \<notin> set MUTATING_TOOL_NAMES \<or> args_cost (tu_arguments c) \<le> tokenThreshold then (b, 0, s)
          else (case elide_call (mget errorByCallId (tu_id c) = Some True) c of (c', n) \<Rightarrow> (PCall c', n, s))
      | _ \<Rightarrow> (b, 0, s))"

definition firstUserMessageIndex :: "pmessage list \<Rightarrow> nat option" where
  "firstUserMessageIndex ms = (let i = length (takeWhile (\<lambda>m. \<not> is_user m) ms) in if i < length ms then Some i else None)"

definition prune_user :: "prune_env \<Rightarrow> nat \<Rightarrow> bool \<Rightarrow> pbody \<Rightarrow> store_opt \<Rightarrow> pbody \<times> nat \<times> store_opt" where
  "prune_user env tokenThreshold first body store =
     (if first then (if store \<noteq> None then pruneUserPasteBlocks env (firstUserPasteProfile tokenThreshold) body store else (body, 0, store))
      else case collapseConsumedSteeringReminders body store of
             (body1, n, store1) \<Rightarrow>
               if store1 \<noteq> None
               then (case pruneUserPasteBlocks env (userPasteProfile env tokenThreshold) body1 store1 of (body2, m, store2) \<Rightarrow> (body2, n + m, store2))
               else (body1, n, store1))"

definition prune_message :: "prune_env \<Rightarrow> nat \<Rightarrow> prune_plan \<Rightarrow> (jsstr, bool) jsmap \<Rightarrow> nat option \<Rightarrow> nat \<Rightarrow> pmessage \<Rightarrow> store_opt
    \<Rightarrow> pmessage \<times> nat \<times> store_opt" where
  "prune_message env tokenThreshold plan errorByCallId firstUserIndex i m store =
     (if i \<ge> pl_protectFromIndex plan \<or> i \<in> set (pl_pinnedIndices plan) then (m, 0, store)
      else case m of
             PUser body \<Rightarrow> (case prune_user env tokenThreshold (firstUserIndex = Some i) body store of (b, n, s) \<Rightarrow> (PUser b, n, s))
           | PCustom body \<Rightarrow> (case collapseConsumedSteeringReminders body store of (b, n, s) \<Rightarrow> (PCustom b, n, s))
           | PAssistant (PBlocks bs) \<Rightarrow>
               (case through (prune_call_block errorByCallId tokenThreshold) 0 bs store of (bs', n, s) \<Rightarrow> (PAssistant (PBlocks bs'), n, s))
           | PResult callId name e (PBlocks bs) \<Rightarrow>
               (case through (rewrite_block (prune_output env tokenThreshold name (i \<in> set (pl_supersededIndices plan)) (mget (pl_causes plan) i))) 0 bs store
                of (bs', n, s) \<Rightarrow> (PResult callId name e (PBlocks bs'), n, s))
           | _ \<Rightarrow> (m, 0, store))"

text \<open>\<open>store\<close> is the store that is open; without \<open>defer\<close> it is not used.\<close>

definition pruneOldToolOutputs :: "prune_env \<Rightarrow> pmessage list \<Rightarrow> nat \<Rightarrow> bool \<Rightarrow> prune_plan \<Rightarrow> store_opt \<Rightarrow> pmessage list \<times> nat \<times> store_opt" where
  "pruneOldToolOutputs env ms tokenThreshold defer plan store =
     (case through (prune_message env tokenThreshold plan (buildToolCallErrorIndex ms) (firstUserMessageIndex ms)) 0 ms (if defer then store else None)
      of (ms', n, s) \<Rightarrow> (ms', n, if defer then s else store))"

definition supersede_message :: "prune_env \<Rightarrow> prune_plan \<Rightarrow> nat \<Rightarrow> pmessage \<Rightarrow> store_opt \<Rightarrow> pmessage \<times> nat \<times> store_opt" where
  "supersede_message env plan i m store =
     (if i \<ge> pl_protectFromIndex plan \<or> i \<in> set (pl_pinnedIndices plan) \<or> i \<notin> set (pl_supersededIndices plan) then (m, 0, store)
      else case m of
             PResult callId name e (PBlocks bs) \<Rightarrow>
               (case through (rewrite_block (collapseSupersededTextBlock env name (mget (pl_causes plan) i))) 0 bs store
                of (bs', n, s) \<Rightarrow> (PResult callId name e (PBlocks bs'), n, s))
           | _ \<Rightarrow> (m, 0, store))"

definition applySupersedeOnly :: "prune_env \<Rightarrow> pmessage list \<Rightarrow> prune_plan \<Rightarrow> store_opt \<Rightarrow> pmessage list \<times> nat \<times> store_opt" where
  "applySupersedeOnly env ms plan store = through (supersede_message env plan) 0 ms store"


section \<open>Pre-checks\<close>

text \<open>What the check says of one message; the open store decides about user pastes.\<close>

definition would_prune_call :: "nat \<Rightarrow> tool_use \<Rightarrow> bool" where
  "would_prune_call tokenThreshold c \<longleftrightarrow>
     tu_name c \<in> set MUTATING_TOOL_NAMES \<and> args_cost (tu_arguments c) > tokenThreshold \<and>
     pruneToolCallArguments (tu_arguments c) False \<noteq> None"

definition would_prune_message :: "prune_env \<Rightarrow> nat \<Rightarrow> prune_plan \<Rightarrow> bool \<Rightarrow> nat option \<Rightarrow> nat \<Rightarrow> pmessage \<Rightarrow> bool" where
  "would_prune_message env tokenThreshold plan storeOpen firstUserIndex i m \<longleftrightarrow>
     i < pl_protectFromIndex plan \<and> i \<notin> set (pl_pinnedIndices plan) \<and>
     (case m of
        PUser body \<Rightarrow>
          if storeOpen \<and> firstUserIndex = Some i then wouldPruneUserPasteBlocks body (firstUserPasteProfile tokenThreshold)
          else hasConsumedSteeringReminder body \<or>
               storeOpen \<and> wouldPruneUserPasteBlocks body (userPasteProfile env tokenThreshold)
      | PCustom body \<Rightarrow> hasConsumedSteeringReminder body
      | PAssistant (PBlocks bs) \<Rightarrow> list_ex (would_prune_call tokenThreshold) (calls_of_blocks bs)
      | PResult callId name e (PBlocks bs) \<Rightarrow>
          list_ex (\<lambda>t. estimateStringTokens t True > tokenThreshold \<or>
                       i \<in> set (pl_supersededIndices plan) \<and> wouldShrinkViaHeadTail env t) (body_texts (PBlocks bs))
      | _ \<Rightarrow> False)"

definition wouldPruneOldToolOutputs :: "prune_env \<Rightarrow> pmessage list \<Rightarrow> nat \<Rightarrow> prune_plan \<Rightarrow> bool \<Rightarrow> bool" where
  "wouldPruneOldToolOutputs env ms tokenThreshold plan storeOpen =
     list_ex (\<lambda>(i, m). would_prune_message env tokenThreshold plan storeOpen (firstUserMessageIndex ms) i m) (List.enumerate 0 ms)"

definition wouldApplySupersedeOnly :: "prune_env \<Rightarrow> pmessage list \<Rightarrow> prune_plan \<Rightarrow> bool" where
  "wouldApplySupersedeOnly env ms plan =
     list_ex (\<lambda>i. i < length ms \<and>
                (case ms ! i of
                   PResult callId name e (PBlocks bs) \<Rightarrow> list_ex (wouldShrinkViaHeadTail env) (body_texts (PBlocks bs))
                 | _ \<Rightarrow> False)) (pl_supersededIndices plan)"

section \<open>Old thinking\<close>

definition cap_thinking_block :: "nat \<Rightarrow> pblock \<Rightarrow> unit \<Rightarrow> pblock \<times> nat \<times> unit" where
  "cap_thinking_block i b s =
     (case b of
        PThinking t \<Rightarrow>
          (let capped = capThinkingForContext t
           in if t = [] \<or> length capped \<ge> length t then (b, 0, s)
              else (PThinking capped, estimateStringTokens t True - estimateStringTokens capped True, s))
      | _ \<Rightarrow> (b, 0, s))"

definition cap_thinking_message :: "nat \<Rightarrow> nat \<Rightarrow> pmessage \<Rightarrow> unit \<Rightarrow> pmessage \<times> nat \<times> unit" where
  "cap_thinking_message protectFrom i m s =
     (if i \<ge> protectFrom then (m, 0, s)
      else case m of
             PAssistant (PBlocks bs) \<Rightarrow> (case through cap_thinking_block 0 bs s of (bs', n, s') \<Rightarrow> (PAssistant (PBlocks bs'), n, s'))
           | _ \<Rightarrow> (m, 0, s))"

definition applyOldThinkingCap :: "pmessage list \<Rightarrow> nat \<Rightarrow> pmessage list \<times> nat" where
  "applyOldThinkingCap ms protectTurns =
     (case through (cap_thinking_message (computePruneProtectFromIndex ms protectTurns)) 0 ms () of (ms', n, s) \<Rightarrow> (ms', n))"

definition shrinkable_thinking :: "pblock \<Rightarrow> bool" where
  "shrinkable_thinking b = (case b of PThinking t \<Rightarrow> t \<noteq> [] \<and> length (capThinkingForContext t) < length t | _ \<Rightarrow> False)"

definition wouldApplyOldThinkingCap :: "pmessage list \<Rightarrow> nat \<Rightarrow> bool" where
  "wouldApplyOldThinkingCap ms protectTurns =
     list_ex (\<lambda>m. case m of PAssistant (PBlocks bs) \<Rightarrow> list_ex shrinkable_thinking bs | _ \<Rightarrow> False)
       (take (computePruneProtectFromIndex ms protectTurns) ms)"

section \<open>Eliding the arguments of executed calls\<close>

definition executed_ids :: "pmessage list \<Rightarrow> jsstr list" where
  "executed_ids ms = concat (map (\<lambda>m. case m of PResult callId name e body \<Rightarrow> [callId] | _ \<Rightarrow> []) ms)"

definition elideMutatingToolCallBlock :: "tool_use \<Rightarrow> tool_use \<times> nat" where
  "elideMutatingToolCallBlock c = elide_call False c"

text \<open>The first call with this id; \<open>None\<close> when the blocks have none.\<close>

fun elide_first :: "jsstr \<Rightarrow> pblock list \<Rightarrow> (pblock list \<times> nat) option" where
  "elide_first callId [] = None"
| "elide_first callId (PCall c # bs) =
     (if tu_id c \<noteq> callId then map_option (\<lambda>(bs', n). (PCall c # bs', n)) (elide_first callId bs)
      else if tu_name c \<notin> set MUTATING_TOOL_NAMES then Some (PCall c # bs, 0)
      else (case elideMutatingToolCallBlock c of (c', n) \<Rightarrow> Some (PCall c' # bs, n)))"
| "elide_first callId (b # bs) = map_option (\<lambda>(bs', n). (b # bs', n)) (elide_first callId bs)"

fun elide_in :: "jsstr \<Rightarrow> pmessage list \<Rightarrow> pmessage list \<times> nat" where
  "elide_in callId [] = ([], 0)"
| "elide_in callId (PAssistant (PBlocks bs) # ms) =
     (case elide_first callId bs of
        Some (bs', n) \<Rightarrow> (PAssistant (PBlocks bs') # ms, n)
      | None \<Rightarrow> (case elide_in callId ms of (ms', n) \<Rightarrow> (PAssistant (PBlocks bs) # ms', n)))"
| "elide_in callId (m # ms) = (case elide_in callId ms of (ms', n) \<Rightarrow> (m # ms', n))"

definition elideMutatingToolCallArguments :: "pmessage list \<Rightarrow> jsstr \<Rightarrow> pmessage list \<times> nat" where
  "elideMutatingToolCallArguments ms callId = (if callId \<in> set (executed_ids ms) then elide_in callId ms else (ms, 0))"

definition elide_executed :: "jsstr list \<Rightarrow> nat \<Rightarrow> pblock \<Rightarrow> unit \<Rightarrow> pblock \<times> nat \<times> unit" where
  "elide_executed executed i b s =
     (case b of
        PCall c \<Rightarrow>
          if tu_name c \<notin> set MUTATING_TOOL_NAMES \<or> tu_id c \<notin> set executed then (b, 0, s)
          else (case elideMutatingToolCallBlock c of (c', n) \<Rightarrow> (PCall c', n, s))
      | _ \<Rightarrow> (b, 0, s))"

definition elide_message :: "jsstr list \<Rightarrow> nat \<Rightarrow> pmessage \<Rightarrow> unit \<Rightarrow> pmessage \<times> nat \<times> unit" where
  "elide_message executed i m s =
     (case m of
        PAssistant (PBlocks bs) \<Rightarrow> (case through (elide_executed executed) 0 bs s of (bs', n, s') \<Rightarrow> (PAssistant (PBlocks bs'), n, s'))
      | _ \<Rightarrow> (m, 0, s))"

definition elideAllMutatingToolCallArguments :: "pmessage list \<Rightarrow> pmessage list \<times> nat" where
  "elideAllMutatingToolCallArguments ms =
     (case through (elide_message (executed_ids ms)) 0 ms () of (ms', n, s) \<Rightarrow> (ms', n))"

section \<open>A pass from left to right\<close>

lemma through_length [simp]: "length (fst (through f i xs s)) = length xs"
  by (induction xs arbitrary: i s) (simp_all add: split_beta)

text \<open>Each element is rewritten in some state the pass reaches.\<close>

lemma through_nth: "j < length xs \<Longrightarrow> \<exists>s'. fst (through f i xs s) ! j = fst (f (i + j) (xs ! j) s')"
proof (induction xs arbitrary: i j s)
  case (Cons x xs)
  show ?case
  proof (cases j)
    case 0
    then show ?thesis by (auto simp: split_beta)
  next
    case (Suc k)
    then show ?thesis using Cons.IH [of k "Suc i" "snd (snd (f i x s))"] Cons.prems by (auto simp: split_beta)
  qed
qed simp

lemma through_map_eq:
  "(\<And>i x s. x \<in> set xs \<Longrightarrow> g (fst (f i x s)) = g x) \<Longrightarrow> map g (fst (through f i xs s)) = map g xs"
proof (induction xs arbitrary: i s)
  case (Cons x xs)
  then show ?case by (simp add: split_beta)
qed simp

text \<open>A property of the state that every step keeps.\<close>

lemma through_inv: "P s \<Longrightarrow> (\<And>i x s. P s \<Longrightarrow> P (snd (snd (f i x s)))) \<Longrightarrow> P (snd (snd (through f i xs s)))"
  by (induction xs arbitrary: i s) (simp_all add: split_beta)

text \<open>A relation between a state and what it becomes, and what it says of each rewritten element at the end.\<close>

lemma through_rel:
  assumes "\<And>s. le s s" "\<And>s t u. le s t \<Longrightarrow> le t u \<Longrightarrow> le s u" "\<And>i x s. le s (snd (snd (f i x s)))"
  shows "le s (snd (snd (through f i xs s)))"
proof (induction xs arbitrary: i s)
  case (Cons x xs)
  have "le (snd (snd (f i x s))) (snd (snd (through f (Suc i) xs (snd (snd (f i x s))))))" by (rule Cons.IH)
  from assms(2) [OF assms(3) this] show ?case by (simp add: split_beta)
qed (simp add: assms(1))

lemma through_each:
  assumes le: "\<And>s. le s s" "\<And>s t u. le s t \<Longrightarrow> le t u \<Longrightarrow> le s u" "\<And>i x s. le s (snd (snd (f i x s)))"
    and step: "\<And>i x s. ok s \<Longrightarrow> ok (snd (snd (f i x s)))" "\<And>i x s. ok s \<Longrightarrow> Q (snd (snd (f i x s))) i x (fst (f i x s))"
    and mono: "\<And>s t i x y. le s t \<Longrightarrow> Q s i x y \<Longrightarrow> Q t i x y"
  shows "ok s \<Longrightarrow> j < length xs \<Longrightarrow> Q (snd (snd (through f i xs s))) (i + j) (xs ! j) (fst (through f i xs s) ! j)"
proof (induction xs arbitrary: i j s)
  case (Cons x xs)
  let ?s = "snd (snd (f i x s))"
  show ?case
  proof (cases j)
    case 0
    have "le ?s (snd (snd (through f (Suc i) xs ?s)))" by (rule through_rel [where le = le]) (fact le)+
    then show ?thesis using mono step(2) [OF Cons.prems(1), of i x] 0 by (auto simp: split_beta)
  next
    case (Suc k)
    then show ?thesis using Cons.IH [OF step(1) [OF Cons.prems(1)], of k "Suc i" i x] Cons.prems by (simp add: split_beta)
  qed
qed simp


section \<open>What a pass leaves alone\<close>

text \<open>
  A message without what pruning may rewrite: the texts of user, custom and result messages, and the arguments of
  mutating calls.
\<close>

definition blank_block :: "pblock \<Rightarrow> pblock" where
  "blank_block b = (case b of PText t \<Rightarrow> PText [] | _ \<Rightarrow> b)"

definition blank_call :: "pblock \<Rightarrow> pblock" where
  "blank_call b = (case b of PCall c \<Rightarrow> if tu_name c \<in> set MUTATING_TOOL_NAMES then PCall (c\<lparr>tu_arguments := JNull\<rparr>) else b | _ \<Rightarrow> b)"

definition blank_body :: "pbody \<Rightarrow> pbody" where
  "blank_body body = (case body of PString t \<Rightarrow> PString [] | PBlocks bs \<Rightarrow> PBlocks (map blank_block bs))"

definition shape :: "pmessage \<Rightarrow> pmessage" where
  "shape m =
     (case m of
        PUser b \<Rightarrow> PUser (blank_body b)
      | PCustom b \<Rightarrow> PCustom (blank_body b)
      | PAssistant (PBlocks bs) \<Rightarrow> PAssistant (PBlocks (map blank_call bs))
      | PResult callId name e (PBlocks bs) \<Rightarrow> PResult callId name e (PBlocks (map blank_block bs))
      | _ \<Rightarrow> m)"

lemma blank_rewrite_block [simp]: "blank_block (fst (rewrite_block f i b s)) = blank_block b"
  by (cases b) (simp_all add: rewrite_block_def blank_block_def split_beta)

lemma blank_rewrite_blocks [simp]: "map blank_block (fst (through (rewrite_block f) i bs s)) = map blank_block bs"
  by (rule through_map_eq) simp

lemma blank_rewrite_body [simp]: "blank_body (fst (rewrite_body f body s)) = blank_body body"
  by (cases body) (simp_all add: rewrite_body_def blank_body_def split_beta)

lemma elide_call_keeps: "fst (elide_call failed c) = c\<lparr>tu_arguments := tu_arguments (fst (elide_call failed c))\<rparr>"
  by (simp add: elide_call_def split_beta split: option.split)

lemma elide_call_rest [simp]: "tu_id (fst (elide_call failed c)) = tu_id c" "tu_name (fst (elide_call failed c)) = tu_name c"
  by (metis elide_call_keeps tool_use.select_convs(1) tool_use.update_convs(3) tool_use.surjective,
      metis elide_call_keeps tool_use.select_convs(2) tool_use.update_convs(3) tool_use.surjective)

lemma elide_call_blank [simp]: "fst (elide_call failed c)\<lparr>tu_arguments := v\<rparr> = c\<lparr>tu_arguments := v\<rparr>"
  by (metis elide_call_keeps tool_use.update_convs(3) tool_use.surjective)

lemma blank_prune_call [simp]: "blank_call (fst (prune_call_block idx thr i b s)) = blank_call b"
  by (cases b) (simp_all add: prune_call_block_def blank_call_def split_beta)

lemma blank_prune_calls [simp]: "map blank_call (fst (through (prune_call_block idx thr) i bs s)) = map blank_call bs"
  by (rule through_map_eq) simp

lemma blank_prune_user [simp]: "blank_body (fst (prune_user env thr first body s)) = blank_body body"
  by (simp add: prune_user_def pruneUserPasteBlocks_def collapseConsumedSteeringReminders_def split_beta)

lemma shape_prune_message: "shape (fst (prune_message env thr plan idx fu i m s)) = shape m"
  by (auto simp: prune_message_def shape_def collapseConsumedSteeringReminders_def split_beta split: pmessage.split pbody.split)

lemma shape_supersede_message: "shape (fst (supersede_message env plan i m s)) = shape m"
  by (auto simp: supersede_message_def shape_def split_beta split: pmessage.split pbody.split)

text \<open>The protected region: fewer user messages than \<open>protectTurns\<close> come after.\<close>

lemma nth_user_below_le: "nth_user_below ms k n \<le> n"
  by (induction ms k n rule: nth_user_below.induct) (auto intro: le_SucI)

lemma nth_user_below_iff:
  "n \<le> length ms \<Longrightarrow> 0 < k \<Longrightarrow> nth_user_below ms k n \<le> i \<longleftrightarrow> length (filter is_user (drop (Suc i) (take n ms))) < k"
proof (induction n arbitrary: k)
  case (Suc n)
  have t: "take (Suc n) ms = take n ms @ [ms ! n]" using Suc.prems by (simp add: take_Suc_conv_app_nth)
  have n: "length (take n ms) = n" using Suc.prems by simp
  show ?case
  proof (cases "i < n")
    case True
    then have d: "drop (Suc i) (take (Suc n) ms) = drop (Suc i) (take n ms) @ [ms ! n]" using n by (simp add: t)
    show ?thesis
      using Suc.IH [of k] Suc.IH [of "k - 1"] Suc.prems True by (auto simp: d le_Suc_eq)
  next
    case False
    then have "drop (Suc i) (take (Suc n) ms) = []" using n by (simp add: t)
    moreover have "nth_user_below ms k (Suc n) \<le> i"
      using False nth_user_below_le [of ms k n] nth_user_below_le [of ms "k - 1" n] by (auto simp: not_less)
    ultimately show ?thesis using Suc.prems by simp
  qed
qed simp

lemma protect_iff:
  "0 < turns \<Longrightarrow> computePruneProtectFromIndex ms turns \<le> i \<longleftrightarrow> length (filter is_user (drop (Suc i) ms)) < turns"
  using nth_user_below_iff [of "length ms" ms turns i] by (simp add: computePruneProtectFromIndex_def)

lemma prune_nth:
  assumes "(ms', n, s') = pruneOldToolOutputs env ms thr defer plan store" "i < length ms"
  obtains s where "ms' ! i = fst (prune_message env thr plan (buildToolCallErrorIndex ms) (firstUserMessageIndex ms) i (ms ! i) s)"
  using through_nth [OF assms(2), of "prune_message env thr plan (buildToolCallErrorIndex ms) (firstUserMessageIndex ms)" 0
      "if defer then store else None"] assms(1) that by (auto simp: pruneOldToolOutputs_def split_beta)

lemma prune_length: "(ms', n, s') = pruneOldToolOutputs env ms thr defer plan store \<Longrightarrow> length ms' = length ms"
  by (simp add: pruneOldToolOutputs_def split_beta)

lemma prune_shape: "map shape (fst (pruneOldToolOutputs env ms thr defer plan store)) = map shape ms"
  by (simp add: pruneOldToolOutputs_def split_beta through_map_eq shape_prune_message)

lemma plan_fields [simp]:
  "pl_protectFromIndex (fst (planContextPrune env c ms turns pins)) = computePruneProtectFromIndex ms turns"
  "pl_pinnedIndices (fst (planContextPrune env c ms turns pins)) = computePinnedToolResultIndices env ms pins"
  by (simp_all add: planContextPrune_def Let_def split_beta)

text \<open>C16: Pruning rewrites only old, unpinned messages, and of those only texts that are not the assistant's own and arguments
  of mutating calls: the last turns and everything a pinned file protects are kept as they are.
\<close>

theorem prune_respects_protection:
  assumes "(ms', n, s') = pruneOldToolOutputs env ms thr defer (fst (planContextPrune env cached ms turns pins)) store" "0 < turns"
  shows "map shape ms' = map shape ms \<and>
    (\<forall>i<length ms. length (filter is_user (drop (Suc i) ms)) < turns \<or> i \<in> set (computePinnedToolResultIndices env ms pins)
       \<longrightarrow> ms' ! i = ms ! i)"
proof (intro conjI allI impI)
  show "map shape ms' = map shape ms"
    using assms(1) prune_shape by (metis fst_conv)
next
  fix i assume i: "i < length ms"
    and p: "length (filter is_user (drop (Suc i) ms)) < turns \<or> i \<in> set (computePinnedToolResultIndices env ms pins)"
  obtain s where "ms' ! i = fst (prune_message env thr (fst (planContextPrune env cached ms turns pins)) (buildToolCallErrorIndex ms)
      (firstUserMessageIndex ms) i (ms ! i) s)" using prune_nth [OF assms(1) i] .
  then show "ms' ! i = ms ! i" using p protect_iff [OF assms(2), of ms i] by (auto simp: prune_message_def)
qed


section \<open>User texts are not lost\<close>

text \<open>How the store grows during a pass: what it held, it still holds.\<close>

definition store_opt_ok :: "store_opt \<Rightarrow> bool" where
  "store_opt_ok s \<longleftrightarrow> (\<forall>s0. s = Some s0 \<longrightarrow> store_inv s0)"

definition held :: "prune_env \<Rightarrow> jsstr \<Rightarrow> jsstr \<Rightarrow> store_opt \<Rightarrow> bool" where
  "held env i c s \<longleftrightarrow> (\<exists>s0. s = Some s0 \<and> stored (pn_redact env) i c s0)"

definition grows :: "prune_env \<Rightarrow> store_opt \<Rightarrow> store_opt \<Rightarrow> bool" where
  "grows env s t \<longleftrightarrow> (store_opt_ok s \<longrightarrow> store_opt_ok t) \<and> (\<forall>i c. held env i c s \<longrightarrow> held env i c t)"

lemma grows_refl [simp]: "grows env s s"
  by (simp add: grows_def)

lemma grows_trans: "grows env s t \<Longrightarrow> grows env t u \<Longrightarrow> grows env s u"
  by (simp add: grows_def)

lemma bump_seq:
  assumes "store_ok l s"
  shows "store_ok l (s\<lparr>ds_seq := Suc (ds_seq s)\<rparr>)"
proof -
  have "\<exists>n. i = entry_id n \<and> n \<le> Suc (ds_seq s)" if "(i, c) \<in> set l" for i c
    using store_okD(4) [OF assms that] le_SucI by blast
  then show ?thesis using assms by (auto simp: store_ok_def in_file_def)
qed

lemma try_put_grows: "grows env s (snd (try_put env c s))"
proof (cases s)
  case (Some s0)
  show ?thesis
  proof (cases "pn_throws env c")
    case True
    then show ?thesis
      using bump_seq by (fastforce simp: try_put_def Some grows_def store_opt_ok_def held_def store_inv_def stored_def)
  next
    case False
    have "stored (pn_redact env) i d (snd (store_put (pn_redact env) c s0))" if "stored (pn_redact env) i d s0" for i d
      using deferred.put_keeps [OF _ that, of "c"] that by (auto simp: stored_def store_inv_def)
    then show ?thesis
      using False deferred.put_inv [of s0 "pn_redact env" c]
      by (auto simp: try_put_def Some grows_def store_opt_ok_def held_def split_beta)
  qed
qed (simp add: try_put_def)

lemma try_put_held: "store_opt_ok s \<Longrightarrow> try_put env c s = (Some i, s') \<Longrightarrow> held env i c s'"
  using deferred.put_holds [of _ "pn_redact env" c]
  by (auto simp: try_put_def store_opt_ok_def held_def split_beta split: option.splits if_splits)

text \<open>What a rewritten user text may be: itself, a consumed reminder, or an excerpt with the id of the stored text.\<close>

definition pasted :: "prune_env \<Rightarrow> store_opt \<Rightarrow> jsstr \<Rightarrow> jsstr \<Rightarrow> bool" where
  "pasted env s t t' \<longleftrightarrow> t' = t \<or>
     (\<exists>excerpt n i. t' = excerpt @ newline @ formatDeferredOutputPlaceholder n i \<and> length excerpt < length t \<and> held env i t s)"

definition text_kept :: "prune_env \<Rightarrow> store_opt \<Rightarrow> jsstr \<Rightarrow> jsstr \<Rightarrow> bool" where
  "text_kept env s t t' \<longleftrightarrow> pasted env s t t' \<or>
     (\<exists>kind. consumedSteeringReminderKind t = Some kind \<and> t' = formatConsumedSteeringReminder kind)"

definition block_kept :: "(jsstr \<Rightarrow> jsstr \<Rightarrow> bool) \<Rightarrow> pblock \<Rightarrow> pblock \<Rightarrow> bool" where
  "block_kept T b b' = (case b of PText t \<Rightarrow> (\<exists>t'. b' = PText t' \<and> T t t') | _ \<Rightarrow> b' = b)"

definition body_kept :: "(jsstr \<Rightarrow> jsstr \<Rightarrow> bool) \<Rightarrow> pbody \<Rightarrow> pbody \<Rightarrow> bool" where
  "body_kept T body body' =
     (case body of
        PString t \<Rightarrow> (\<exists>t'. body' = PString t' \<and> T t t')
      | PBlocks bs \<Rightarrow> (\<exists>bs'. body' = PBlocks bs' \<and> list_all2 (block_kept T) bs bs'))"

lemma block_kept_mono: "block_kept T b b' \<Longrightarrow> (\<And>t t'. T t t' \<Longrightarrow> U t t') \<Longrightarrow> block_kept U b b'"
  by (cases b) (auto simp: block_kept_def)

lemma block_kept_trans: "block_kept T b b1 \<Longrightarrow> block_kept U b1 b2 \<Longrightarrow> (\<And>t t1 t2. T t t1 \<Longrightarrow> U t1 t2 \<Longrightarrow> V t t2) \<Longrightarrow> block_kept V b b2"
  by (cases b) (auto simp: block_kept_def)

lemma body_kept_mono:
  assumes "body_kept T b b'" "\<And>t t'. T t t' \<Longrightarrow> U t t'"
  shows "body_kept U b b'"
proof (cases b)
  case (PBlocks bs)
  then obtain bs' where "b' = PBlocks bs'" "list_all2 (block_kept T) bs bs'" using assms(1) by (auto simp: body_kept_def)
  moreover have "block_kept T x y \<Longrightarrow> block_kept U x y" for x y by (rule block_kept_mono [OF _ assms(2)])
  ultimately show ?thesis using list_all2_mono [of "block_kept T" bs bs' "block_kept U"] by (simp add: PBlocks body_kept_def)
qed (use assms in \<open>auto simp: body_kept_def\<close>)

lemma body_kept_trans:
  assumes "body_kept T b b1" "body_kept U b1 b2" "\<And>t t1 t2. T t t1 \<Longrightarrow> U t1 t2 \<Longrightarrow> V t t2"
  shows "body_kept V b b2"
proof (cases b)
  case (PBlocks bs)
  then obtain bs1 bs2 where b: "b1 = PBlocks bs1" "b2 = PBlocks bs2" "list_all2 (block_kept T) bs bs1" "list_all2 (block_kept U) bs1 bs2"
    using assms(1,2) by (auto simp: body_kept_def)
  have "list_all2 (block_kept V) bs bs2"
    by (rule list_all2_trans [OF _ b(3,4)]) (rule block_kept_trans [OF _ _ assms(3)])
  then show ?thesis using b by (simp add: PBlocks body_kept_def)
next
  case (PString t)
  then obtain t1 t2 where "b1 = PString t1" "b2 = PString t2" "T t t1" "U t1 t2"
    using assms(1,2) by (auto simp: body_kept_def)
  then show ?thesis using assms(3) by (simp add: PString body_kept_def)
qed

lemma body_kept_refl: "(\<And>t. T t t) \<Longrightarrow> body_kept T b b"
proof (cases b)
  case (PBlocks bs)
  moreover have "(\<And>t. T t t) \<Longrightarrow> block_kept T x x" for x by (cases x) (auto simp: block_kept_def)
  ultimately show "(\<And>t. T t t) \<Longrightarrow> ?thesis" by (auto simp: body_kept_def intro!: list_all2_refl)
qed (simp add: body_kept_def)

text \<open>A rewriting of texts, lifted to blocks and bodies.\<close>

lemma rewrite_block_grows: "(\<And>t s. grows env s (snd (snd (f t s)))) \<Longrightarrow> grows env s (snd (snd (rewrite_block f i b s)))"
  by (cases b) (simp_all add: rewrite_block_def split_beta)

lemma rewrite_blocks_grows:
  assumes "\<And>t s. grows env s (snd (snd (f t s)))"
  shows "grows env s (snd (snd (through (rewrite_block f) i bs s)))"
  by (rule through_rel [where le = "grows env"]) (auto intro: grows_trans rewrite_block_grows assms)

lemma rewrite_body_grows: "(\<And>t s. grows env s (snd (snd (f t s)))) \<Longrightarrow> grows env s (snd (snd (rewrite_body f b s)))"
  by (cases b) (simp_all add: rewrite_body_def split_beta rewrite_blocks_grows)

lemma pasted_mono: "grows env s s' \<Longrightarrow> pasted env s t t' \<Longrightarrow> pasted env s' t t'"
  unfolding pasted_def grows_def by blast

lemma text_kept_mono: "grows env s s' \<Longrightarrow> text_kept env s t t' \<Longrightarrow> text_kept env s' t t'"
  unfolding text_kept_def using pasted_mono by blast

lemma pastedI: "length excerpt < length t \<Longrightarrow> held env i t s \<Longrightarrow> pasted env s t (excerpt @ newline @ formatDeferredOutputPlaceholder n i)"
  unfolding pasted_def by blast

lemma pasted_refl [simp]: "pasted env s t t"
  by (simp add: pasted_def)

lemma paste_grows: "grows env s (snd (snd (deferredUserPasteReplacement env profile t s)))"
  using try_put_grows [of env s t]
  by (cases "try_put env t s") (auto simp: deferredUserPasteReplacement_def Let_def split: option.split)

lemma paste_pasted: "store_opt_ok s \<Longrightarrow> pasted env (snd (snd (deferredUserPasteReplacement env profile t s))) t (fst (deferredUserPasteReplacement env profile t s))"
  using try_put_held [of s env t]
  by (cases "try_put env t s") (auto simp: deferredUserPasteReplacement_def Let_def intro: pastedI split: option.split)

lemma rewrite_body_kept:
  assumes f: "\<And>t s. grows env s (snd (snd (f t s)))" "\<And>t s. store_opt_ok s \<Longrightarrow> T (snd (snd (f t s))) t (fst (f t s))"
    and T: "\<And>s. T s [] []" "\<And>s s' t t'. grows env s s' \<Longrightarrow> T s t t' \<Longrightarrow> T s' t t'"
    and ok: "store_opt_ok s"
  shows "body_kept (T (snd (snd (rewrite_body f body s)))) body (fst (rewrite_body f body s))"
proof (cases body)
  case (PString t)
  then show ?thesis using f(2) [OF ok] by (simp add: body_kept_def rewrite_body_def split_beta)
next
  case (PBlocks bs)
  let ?r = "through (rewrite_block f) 0 bs s"
  have step: "store_opt_ok s' \<Longrightarrow> store_opt_ok (snd (snd (rewrite_block f i x s')))" for i x s'
    using rewrite_block_grows [of env f s' i x] f(1) by (simp add: grows_def)
  have each: "store_opt_ok s' \<Longrightarrow>
      block_kept (T (snd (snd (rewrite_block f i x s')))) x (fst (rewrite_block f i x s'))" for i x s'
    using f(2) [of s'] T(1) by (cases x) (simp_all add: rewrite_block_def block_kept_def split_beta)
  have mono: "grows env s s' \<Longrightarrow> block_kept (T s) b b' \<Longrightarrow> block_kept (T s') b b'" for s s' b b'
    by (erule block_kept_mono) (rule T(2))
  have "block_kept (T (snd (snd ?r))) (bs ! j) (fst ?r ! j)" if "j < length bs" for j
    by (rule through_each [where le = "grows env" and ok = store_opt_ok and Q = "\<lambda>s i x y. block_kept (T s) x y"])
      (auto intro: ok that grows_trans rewrite_block_grows f(1) step each mono)
  then show ?thesis by (simp add: PBlocks body_kept_def rewrite_body_def split_beta list_all2_conv_all_nth)
qed

text \<open>The reminder pass and the paste pass over one user message.\<close>

lemma short_not_pasted:
  assumes "length t \<le> PRUNE_HEAD_CHARS + PRUNE_TAIL_CHARS"
  shows "fst (deferredUserPasteReplacement env (userPasteProfile env thr) t s) = t"
proof -
  have "headTailExcerpt env t = t" using assms by (simp add: headTailExcerpt_def headTailExcerptShared_def)
  then show ?thesis by (simp add: deferredUserPasteReplacement_def userPasteProfile_def Let_def)
qed

lemma reminder_line_short:
  assumes "consumedSteeringReminderKind t = Some kind"
  shows "length (formatConsumedSteeringReminder kind) \<le> PRUNE_HEAD_CHARS + PRUNE_TAIL_CHARS"
proof -
  have "list_all (\<lambda>(kind, prefix). length kind \<le> 14) STEERING_REMINDER_MATCHERS" by code_simp
  moreover have "\<exists>prefix. (kind, prefix) \<in> set STEERING_REMINDER_MATCHERS"
    using assms by (auto simp: consumedSteeringReminderKind_def Let_def find_Some_iff split: if_splits) (metis nth_mem)
  ultimately have "length kind \<le> 14" by (auto simp: list_all_iff)
  then show ?thesis by (simp add: formatConsumedSteeringReminder_def PRUNE_HEAD_CHARS_def PRUNE_TAIL_CHARS_def)
qed

lemma collapse_reminder_state [simp]: "snd (snd (collapse_reminder t s)) = s"
  by (auto simp: collapse_reminder_def Let_def split: option.split)

definition reminder_or_same :: "jsstr \<Rightarrow> jsstr \<Rightarrow> bool" where
  "reminder_or_same t t' \<longleftrightarrow> t' = t \<or> (\<exists>kind. consumedSteeringReminderKind t = Some kind \<and> t' = formatConsumedSteeringReminder kind)"

lemma reminder_or_same_refl [simp]: "reminder_or_same t t"
  by (simp add: reminder_or_same_def)

lemma collapse_reminder_result: "reminder_or_same t (fst (collapse_reminder t s))"
  by (auto simp: reminder_or_same_def collapse_reminder_def Let_def split: option.split)

lemma through_state_same: "(\<And>i x. snd (snd (f i x s)) = s) \<Longrightarrow> snd (snd (through f i xs s)) = s"
  by (induction xs arbitrary: i) (simp_all add: split_beta)

lemma rewrite_block_state_same: "(\<And>t. snd (snd (f t s)) = s) \<Longrightarrow> snd (snd (rewrite_block f i b s)) = s"
  by (cases b) (simp_all add: rewrite_block_def split_beta)

lemma collapse_body:
  "snd (snd (collapseConsumedSteeringReminders body s)) = s"
  "body_kept reminder_or_same body (fst (collapseConsumedSteeringReminders body s))"
proof -
  show "snd (snd (collapseConsumedSteeringReminders body s)) = s"
    by (cases body) (simp_all add: collapseConsumedSteeringReminders_def rewrite_body_def split_beta through_state_same rewrite_block_state_same)
  have "block_kept reminder_or_same b (fst (rewrite_block collapse_reminder i b s'))" for i b and s' :: 'a
    using collapse_reminder_result by (cases b) (auto simp: rewrite_block_def block_kept_def split_beta)
  then have "block_kept reminder_or_same (bs ! j) (fst (through (rewrite_block collapse_reminder) 0 bs s) ! j)" if "j < length bs" for j bs
    using through_nth [OF that, of "rewrite_block collapse_reminder" 0 s] by auto
  then show "body_kept reminder_or_same body (fst (collapseConsumedSteeringReminders body s))"
    using collapse_reminder_result
    by (cases body) (simp_all add: collapseConsumedSteeringReminders_def rewrite_body_def body_kept_def split_beta list_all2_conv_all_nth)
qed

definition paste_or_short :: "prune_env \<Rightarrow> store_opt \<Rightarrow> jsstr \<Rightarrow> jsstr \<Rightarrow> bool" where
  "paste_or_short env s t t' \<longleftrightarrow> pasted env s t t' \<and> (length t \<le> PRUNE_HEAD_CHARS + PRUNE_TAIL_CHARS \<longrightarrow> t' = t)"

lemma paste_body:
  "grows env s (snd (snd (pruneUserPasteBlocks env profile body s)))"
  "store_opt_ok s \<Longrightarrow> body_kept (pasted env (snd (snd (pruneUserPasteBlocks env profile body s)))) body (fst (pruneUserPasteBlocks env profile body s))"
  "store_opt_ok s \<Longrightarrow> body_kept (paste_or_short env (snd (snd (pruneUserPasteBlocks env (userPasteProfile env thr) body s)))) body
     (fst (pruneUserPasteBlocks env (userPasteProfile env thr) body s))"
  unfolding pruneUserPasteBlocks_def
    by (rule rewrite_body_grows, rule paste_grows,
        rule rewrite_body_kept, rule paste_grows, rule paste_pasted, assumption, rule pasted_refl, erule (1) pasted_mono, assumption,
        rule rewrite_body_kept, rule paste_grows,
        simp add: paste_or_short_def paste_pasted short_not_pasted, simp add: paste_or_short_def,
        simp add: paste_or_short_def pasted_mono, assumption)

lemma prune_user_grows: "grows env s (snd (snd (prune_user env thr first body s)))"
  by (simp add: prune_user_def split_beta paste_body(1) collapse_body(1))

lemma prune_user_kept:
  assumes "store_opt_ok s"
  shows "body_kept (text_kept env (snd (snd (prune_user env thr first body s)))) body (fst (prune_user env thr first body s))"
proof -
  have kept: "pasted env t x y \<Longrightarrow> text_kept env t x y" for t x y by (simp add: text_kept_def)
  have same: "body_kept (text_kept env t) body body" for t by (rule body_kept_refl) (simp add: text_kept_def)
  show ?thesis
  proof (cases first)
    case True
    then show ?thesis using same body_kept_mono [OF paste_body(2) [OF assms] kept] by (simp add: prune_user_def)
  next
    case False
    let ?b = "fst (collapseConsumedSteeringReminders body s)"
    show ?thesis
    proof (cases s)
      case None
      have "body_kept (text_kept env s) body ?b"
        by (rule body_kept_mono [OF collapse_body(2)]) (auto simp: reminder_or_same_def text_kept_def)
      then show ?thesis using False None collapse_body(1) [of body s] by (simp add: prune_user_def split_beta)
    next
      case (Some s0)
      let ?r = "pruneUserPasteBlocks env (userPasteProfile env thr) ?b s"
      have "body_kept (text_kept env (snd (snd ?r))) body (fst ?r)"
      proof (rule body_kept_trans [OF collapse_body(2) paste_body(3) [OF assms]])
        fix t t1 t2
        assume "reminder_or_same t t1" "paste_or_short env (snd (snd ?r)) t1 t2"
        then show "text_kept env (snd (snd ?r)) t t2"
          using reminder_line_short [of t] by (auto simp: reminder_or_same_def paste_or_short_def text_kept_def)
      qed
      then show ?thesis using False Some collapse_body(1) [of body s] by (simp add: prune_user_def split_beta)
    qed
  qed
qed

lemma collapse_superseded_grows: "grows env s (snd (snd (collapseSupersededTextBlock env name cause t s)))"
  using try_put_grows [of env s t]
  by (cases "try_put env t s") (auto simp: collapseSupersededTextBlock_def Let_def split_beta split: option.split)

lemma prune_output_grows: "grows env s (snd (snd (prune_output env thr name stale cause t s)))"
  using try_put_grows [of env s t] collapse_superseded_grows
  by (auto simp: prune_output_def shrink_output_def Let_def split_beta)

lemma prune_calls_state: "snd (snd (through (prune_call_block idx thr) i bs s)) = s"
proof (rule through_state_same)
  show "snd (snd (prune_call_block idx thr i x s)) = s" for i x
    by (cases x) (simp_all add: prune_call_block_def split_beta)
qed

lemma prune_message_grows: "grows env s (snd (snd (prune_message env thr plan idx fu i m s)))"
  using prune_user_grows rewrite_blocks_grows [OF prune_output_grows]
  by (auto simp: prune_message_def split_beta prune_calls_state collapse_body(1) split: pmessage.split pbody.split)

text \<open>What the final statement says of a rewritten user text, over the store's own lookup.\<close>

definition recoverable :: "prune_env \<Rightarrow> store_opt \<Rightarrow> jsstr \<Rightarrow> jsstr \<Rightarrow> bool" where
  "recoverable env s t t' \<longleftrightarrow> t' = t \<or>
     (\<exists>kind. consumedSteeringReminderKind t = Some kind \<and> t' = formatConsumedSteeringReminder kind) \<or>
     (\<exists>excerpt n i st. t' = excerpt @ newline @ formatDeferredOutputPlaceholder n i \<and> length excerpt < length t \<and> s = Some st \<and>
        store_get (\<lambda>x. True) i st \<in> {Some (pn_redact env t), Some (read_back (pn_redact env t))})"

lemma text_kept_recoverable:
  assumes "text_kept env s t t'"
  shows "recoverable env s t t'"
proof -
  consider "t' = t" | kind where "consumedSteeringReminderKind t = Some kind" "t' = formatConsumedSteeringReminder kind"
    | excerpt n i st where "t' = excerpt @ newline @ formatDeferredOutputPlaceholder n i" "length excerpt < length t"
      "s = Some st" "stored (pn_redact env) i t st"
    using assms unfolding text_kept_def pasted_def held_def by blast
  then show ?thesis
  proof cases
    case (3 excerpt n i st)
    have "store_get (\<lambda>x. True) i st \<in> {Some (pn_redact env t), Some (read_back (pn_redact env t))}"
      using stored_get [OF 3(4), of "\<lambda>x. True"] by simp
    with 3 show ?thesis unfolding recoverable_def by blast
  qed (simp_all add: recoverable_def)
qed

text \<open>C15: The user's own words are never thrown away: every text of a user message is still there after pruning, or was a
  consumed reminder of the agent, or the store gives it back under the id its excerpt names.
\<close>

theorem user_texts_recoverable:
  assumes "(ms', n, s') = pruneOldToolOutputs env ms thr True plan (Some s)"
    and "(s, l) = fold (store_step (pn_redact env)) es (start_session cap fixedDir files disk)"
    and "i < length ms" "ms ! i = PUser body"
  shows "\<exists>body'. ms' ! i = PUser body' \<and> body_kept (recoverable env s') body body'"
proof -
  let ?f = "prune_message env thr plan (buildToolCallErrorIndex ms) (firstUserMessageIndex ms)"
  let ?Q = "\<lambda>s i m m'. \<forall>body. m = PUser body \<longrightarrow> (\<exists>body'. m' = PUser body' \<and> body_kept (text_kept env s) body body')"
  have ok: "store_opt_ok (Some s)" using session_store_inv [OF assms(2)] by (simp add: store_opt_ok_def)
  have same: "body_kept (text_kept env t) b b" for t b by (rule body_kept_refl) (simp add: text_kept_def)
  have step: "store_opt_ok t \<Longrightarrow> store_opt_ok (snd (snd (?f i m t)))" for i m t
    using prune_message_grows by (simp add: grows_def)
  have each: "store_opt_ok t \<Longrightarrow> ?Q (snd (snd (?f i m t))) i m (fst (?f i m t))" for i m t
    using prune_user_kept [of t env thr] same by (auto simp: prune_message_def split_beta)
  have mono: "grows env t u \<Longrightarrow> ?Q t i m m' \<Longrightarrow> ?Q u i m m'" for t u i m m'
    using body_kept_mono text_kept_mono by metis
  have "?Q (snd (snd (through ?f 0 ms (Some s)))) (0 + i) (ms ! i) (fst (through ?f 0 ms (Some s)) ! i)"
    by (rule through_each [where le = "grows env" and ok = store_opt_ok and Q = ?Q], rule grows_refl, erule (1) grows_trans,
        rule prune_message_grows, erule step, erule each, erule (1) mono, rule ok, rule assms(3))
  then show ?thesis
    using assms(1) [symmetric] assms(4) body_kept_mono [OF _ text_kept_recoverable] by (auto simp: pruneOldToolOutputs_def split_beta)
qed

section \<open>Elided calls\<close>

lemma elide_executed_result:
  "fst (elide_executed ids i b s) = b \<or>
   (\<exists>c c'. b = PCall c \<and> fst (elide_executed ids i b s) = PCall c' \<and> tu_id c \<in> set ids \<and> tu_name c \<in> set MUTATING_TOOL_NAMES \<and>
      c' = c\<lparr>tu_arguments := tu_arguments c'\<rparr> \<and> containsElisionMarker (tu_arguments c'))"
proof (cases b)
  case (PCall c)
  show ?thesis
  proof (cases "pruneToolCallArguments (tu_arguments c) False")
    case None
    then show ?thesis by (simp add: PCall elide_executed_def elideMutatingToolCallBlock_def elide_call_def)
  next
    case (Some r)
    obtain v k where r: "r = (v, k)" by (cases r)
    have "containsElisionMarker v"
      using Some elided_detected [of "tu_arguments c" False]
      by (cases "tu_arguments c") (simp_all add: r pruneToolCallArguments_def del: elide.simps elided_chars.simps containsElisionMarker.simps split: if_splits)
    then show ?thesis
      by (auto simp: PCall elide_executed_def elideMutatingToolCallBlock_def elide_call_def Some r)
  qed
qed (simp_all add: elide_executed_def)

text \<open>The result of a whole-array elision, message by message.\<close>

definition elided_from :: "jsstr list \<Rightarrow> pblock \<Rightarrow> pblock \<Rightarrow> bool" where
  "elided_from ids b b' \<longleftrightarrow> b' = b \<or>
     (\<exists>c c'. b = PCall c \<and> b' = PCall c' \<and> tu_id c \<in> set ids \<and> tu_name c \<in> set MUTATING_TOOL_NAMES \<and>
        c' = c\<lparr>tu_arguments := tu_arguments c'\<rparr> \<and> containsElisionMarker (tu_arguments c'))"

text \<open>C21: Arguments are elided only from calls whose result is in the transcript, and what replaces them always carries the
  marker a re-dispatch refuses; everything else of the history stays.
\<close>

theorem elision_is_safe:
  assumes "(ms', n) = elideAllMutatingToolCallArguments ms" "i < length ms"
  shows "length ms' = length ms \<and>
    (case ms ! i of
       PAssistant (PBlocks bs) \<Rightarrow> (\<exists>bs'. ms' ! i = PAssistant (PBlocks bs') \<and> list_all2 (elided_from (executed_ids ms)) bs bs')
     | m \<Rightarrow> ms' ! i = m)"
proof -
  let ?ids = "executed_ids ms"
  have ms': "ms' = fst (through (elide_message ?ids) 0 ms ())"
    using assms(1) by (simp add: elideAllMutatingToolCallArguments_def split_beta)
  obtain s where m: "ms' ! i = fst (elide_message ?ids i (ms ! i) s)"
    using through_nth [OF assms(2), of "elide_message ?ids" 0 "()"] ms' by auto
  have "list_all2 (elided_from ?ids) bs (fst (through (elide_executed ?ids) 0 bs s))" for bs
  proof -
    have "elided_from ?ids (bs ! j) (fst (through (elide_executed ?ids) 0 bs s) ! j)" if j: "j < length bs" for j
    proof -
      obtain s' where "fst (through (elide_executed ?ids) 0 bs s) ! j = fst (elide_executed ?ids j (bs ! j) s')"
        using through_nth [OF j, of "elide_executed ?ids" 0 s] by auto
      then show ?thesis using elide_executed_result [of ?ids j "bs ! j" s'] by (simp only: elided_from_def)
    qed
    then show ?thesis by (simp add: list_all2_conv_all_nth)
  qed
  then show ?thesis
    using m ms' by (auto simp: elide_message_def split_beta split: pmessage.split pbody.split)
qed

section \<open>The two halves of a plan\<close>

lemma mget_fold_mdel: "mget (fold mdel ks m) k = (if k \<in> set ks then None else mget m k)"
  by (induction ks arbitrary: m) auto

lemma disk_superseded: "contradicts_disk env ms p i \<Longrightarrow> superseded env ms p i"
  by (auto simp: contradicts_disk_def superseded_def split: option.splits)

text \<open>
  The plan of a turn, split by cause: the first half is exactly the old unpinned reads a later write contradicts, which
  is applied whatever it costs; the second the other stale results.
\<close>

theorem plan_split_by_cause:
  assumes "cached_for (pn_path env) ms cached" "distinct (call_ids (calls_in ms))"
    and "p = fst (planContextPrune env cached ms turns pins)" "protect = computePruneProtectFromIndex ms turns"
  shows "(i \<in> set (pl_supersededIndices (fst (splitSupersedePlanByCause p))) \<longleftrightarrow>
      contradicts_disk (pn_path env) ms protect i \<and> i \<notin> set (computePinnedToolResultIndices env ms pins)) \<and>
    (i \<in> set (pl_supersededIndices (snd (splitSupersedePlanByCause p))) \<longleftrightarrow>
      superseded (pn_path env) ms protect i \<and> \<not> contradicts_disk (pn_path env) ms protect i \<and>
      i \<notin> set (computePinnedToolResultIndices env ms pins))"
proof -
  note s = build_scanned [OF cached_usable [OF assms(1,2)] assms(2)]
  let ?d = "fst (buildSupersededToolResultIndices (pn_path env) cached ms protect)"
  have d: "i \<in> set (sd_indices ?d) \<longleftrightarrow> superseded (pn_path env) ms protect i"
    "mget (sd_mutationCauses ?d) i \<noteq> None \<longleftrightarrow> contradicts_disk (pn_path env) ms protect i"
    using derive_exact [OF s] by (simp_all add: buildSupersededToolResultIndices_def Let_def)
  have c: "mhas (pl_causes p) i \<longleftrightarrow> i \<notin> set (computePinnedToolResultIndices env ms pins) \<and> mget (sd_mutationCauses ?d) i \<noteq> None"
    by (simp add: assms(3,4) planContextPrune_def Let_def split_beta mhas_mget mget_fold_mdel)
  have "set (pl_supersededIndices p) = {i \<in> set (sd_indices ?d). i \<notin> set (computePinnedToolResultIndices env ms pins)}"
    by (auto simp: assms(3,4) planContextPrune_def Let_def split_beta)
  then show ?thesis using d c disk_superseded [of "pn_path env" ms protect i] by (auto simp: splitSupersedePlanByCause_def)
qed


section \<open>Limits\<close>

lemma char_index_None: "c \<notin> set t \<Longrightarrow> char_index c t = None" "c \<notin> set t \<Longrightarrow> last_char_index c t = None"
  by (induction t) auto

lemma char_index_append: "c \<notin> set a \<Longrightarrow> char_index c (a @ c # b) = Some (length a)"
  by (induction a) auto

lemma snap_none: "10 \<notin> set t \<Longrightarrow> w \<le> b \<Longrightarrow> snap_head b w t = t" "10 \<notin> set t \<Longrightarrow> snap_tail w t = t"
  by (simp_all add: snap_head_def snap_tail_def char_index_None)

lemma snap_tail_late: "10 \<notin> set a \<Longrightarrow> w \<le> length a \<Longrightarrow> snap_tail w (a @ 10 # b) = a @ 10 # b"
  by (simp add: snap_tail_def char_index_append)

lemma digits_short: "n < 10000 \<Longrightarrow> length (digits n) \<le> 4"
proof -
  have d: "length (digits n) \<le> Suc (length (digits (n div 10)))" "n < 10 \<Longrightarrow> length (digits n) = 1" for n
    by (simp_all add: digits.simps [of n])
  assume n: "n < 10000"
  have "n div 10 div 10 div 10 < 10" using n by simp
  then have "length (digits (n div 10 div 10 div 10)) = 1" by (rule d(2))
  then show ?thesis using d(1) [of n] d(1) [of "n div 10"] d(1) [of "n div 10 div 10"] by linarith
qed

lemma tokens_marker_length: "length (tokens_marker n) = 21 + length (digits n)"
  by (simp add: tokens_marker_def)

lemma excerpt_open:
  assumes "pn_crush env t = None" "2300 < length t" "10 \<notin> set (take 1500 t)" "snap_tail 400 (drop (length t - 800) t) = drop (length t - 800) t"
  shows "headTailExcerpt env t = take 1500 t @ [10, 10] @
    tokens_marker (estimateStringTokens (js_slice t 1500 (length t - 800)) True) @ [10, 10] @ drop (length t - 800) t"
  using assms by (simp add: headTailExcerpt_def headTailExcerptShared_def PRUNE_HEAD_CHARS_def PRUNE_TAIL_CHARS_def Let_def snap_none)

lemma excerpt_length:
  assumes "headTailExcerpt env t = take 1500 t @ [10, 10] @ tokens_marker (estimateStringTokens (js_slice t 1500 (length t - 800)) True) @
    [10, 10] @ drop (length t - 800) t" "2300 < length t" "length t < 10000"
  shows "length (headTailExcerpt env t) \<le> 2330"
proof -
  have "estimateStringTokens (js_slice t 1500 (length t - 800)) True < 10000"
    using estimate_at_most_length [of "js_slice t 1500 (length t - 800)" True] assms(3) by (simp add: length_slice)
  from digits_short [OF this] show ?thesis using assms(2) unfolding assms(1) by (simp add: tokens_marker_length)
qed

lemma marker_line: "10 \<notin> set path \<Longrightarrow> 10 \<notin> set (formatMutationSupersededMarker path)"
  "length (formatMutationSupersededMarker path) = 79 + length path"
  by (simp_all add: formatMutationSupersededMarker_def js_def)

text \<open>
  Collapsing is not idempotent: a stale read that has been collapsed is cut and marked again by the next pass, so its
  text is gradually replaced by markers.
\<close>

lemma collapse_repeats:
  assumes "\<And>t. pn_crush env t = None" "10 \<notin> set t" "3000 < length t" "length t < 10000" "10 \<notin> set path" "length path \<le> 200"
  shows "\<exists>a. fst (collapseSupersededTextBlock env (js ''read'') (Some path)
        (fst (collapseSupersededTextBlock env (js ''read'') (Some path) t None)) None)
     = a @ newline @ formatMutationSupersededMarker path @ newline @ formatMutationSupersededMarker path"
proof -
  let ?x = "formatMutationSupersededMarker path"
  have read: "js ''read'' \<noteq> js ''bash''" by (simp add: js_def)
  have no: "10 \<notin> set (take n t)" "10 \<notin> set (drop n t)" for n using assms(2) by (auto dest: in_set_takeD in_set_dropD)
  have e: "headTailExcerpt env t = take 1500 t @ [10, 10] @ tokens_marker (estimateStringTokens (js_slice t 1500 (length t - 800)) True) @
      [10, 10] @ drop (length t - 800) t"
    by (rule excerpt_open) (use assms no in \<open>simp_all add: snap_none\<close>)
  define t1 where "t1 = headTailExcerpt env t @ newline @ ?x"
  have le: "length (headTailExcerpt env t) \<le> 2330" using excerpt_length [OF e] assms(3,4) by simp
  have c1: "fst (collapseSupersededTextBlock env (js ''read'') (Some path) t None) = t1"
    using le assms(3) read by (simp add: collapseSupersededTextBlock_def Let_def t1_def)
  have ge: "2325 < length (headTailExcerpt env t)"
    using assms(3) digits_nonempty unfolding e by (simp add: tokens_marker_length Suc_le_eq)
  have len: "length t1 = length (headTailExcerpt env t) + 80 + length path"
    by (simp add: t1_def newline_def marker_line)
  define d where "d = drop (80 + length path) (drop (length t - 800) t)"
  have lead: "take 1500 t1 = take 1500 t" using assms(3) by (simp add: t1_def e)
  have tail: "drop (length t1 - 800) t1 = d @ 10 # ?x"
  proof -
    have "t1 = (take 1500 t @ [10, 10] @ tokens_marker (estimateStringTokens (js_slice t 1500 (length t - 800)) True) @ [10, 10] @
        take (80 + length path) (drop (length t - 800) t)) @ d @ 10 # ?x" (is "t1 = ?a @ d @ 10 # ?x")
    proof -
      have "take (80 + length path) (drop (length t - 800) t) @ d = drop (length t - 800) t"
        by (simp only: d_def append_take_drop_id)
      then show ?thesis unfolding t1_def e newline_def by simp
    qed
    moreover have "length (d @ 10 # ?x) = 800" using assms(3,6) by (simp add: d_def marker_line)
    ultimately show ?thesis by (metis append_eq_conv_conj diff_add_inverse2 length_append)
  qed
  have "length d \<ge> 400" "10 \<notin> set d" using assms(3,6) no(2) by (auto simp: d_def dest: in_set_dropD)
  then have e1: "headTailExcerpt env t1 = take 1500 t1 @ [10, 10] @ tokens_marker (estimateStringTokens (js_slice t1 1500 (length t1 - 800)) True) @
      [10, 10] @ drop (length t1 - 800) t1"
    using assms(1) no lead tail ge len by (intro excerpt_open) (simp_all add: snap_tail_late)
  have "length (headTailExcerpt env t1) \<le> 2330" using excerpt_length [OF e1] le ge len assms(6) by simp
  then have "length (headTailExcerpt env t1) < length t1" using ge len by linarith
  then have "fst (collapseSupersededTextBlock env (js ''read'') (Some path) t1 None) = headTailExcerpt env t1 @ newline @ ?x"
    using read by (simp add: collapseSupersededTextBlock_def Let_def)
  then show ?thesis unfolding c1 unfolding e1 tail by (simp add: newline_def)
qed


text \<open>
  Between 2301 and 2364 units the pre-check says that nothing can shrink, while the collapse does shrink; a stale output
  above the threshold is cut without the marker; and an edit that failed is elided as one that was applied.
\<close>

lemma precheck_misses:
  assumes "2300 < length t" "length t \<le> 2364" "pn_crush env t = Some c" "length c < length t"
  shows "\<not> wouldShrinkViaHeadTail env t" "fst (collapseSupersededTextBlock env (js ''read'') None t None) = c"
proof -
  have "headTailExcerpt env t = c"
    using assms by (simp add: headTailExcerpt_def headTailExcerptShared_def PRUNE_HEAD_CHARS_def PRUNE_TAIL_CHARS_def)
  then show "\<not> wouldShrinkViaHeadTail env t" "fst (collapseSupersededTextBlock env (js ''read'') None t None) = c"
    using assms by (simp_all add: wouldShrinkViaHeadTail_def PRUNE_MIN_SHRINK_CHARS_def PRUNE_HEAD_CHARS_def PRUNE_TAIL_CHARS_def
        collapseSupersededTextBlock_def Let_def js_def)
qed

lemma large_stale_unmarked:
  "estimateStringTokens t True > thr \<Longrightarrow> prune_output env thr name True (Some path) t s = prune_output env thr name False None t s"
  by (simp add: prune_output_def)

definition failed_edit :: "pmessage list" where
  "failed_edit =
     [PAssistant (PBlocks [PCall \<lparr> tu_id = js ''c1'', tu_name = js ''edit'', tu_arguments = JObj [(js ''content'', JStr (replicate 201 97))] \<rparr>]),
      PResult (js ''c1'') (js ''edit'') True (PString (js ''no match''))]"

lemma failed_edit_marked_applied:
  "fst (elideAllMutatingToolCallArguments failed_edit) ! 0 =
     PAssistant (PBlocks [PCall \<lparr> tu_id = js ''c1'', tu_name = js ''edit'',
       tu_arguments = JObj [(js ''content'', JStr (js ''[201 chars elided '' @ [0x2014] @ js '' applied to disk; the file is the source of truth]''))] \<rparr>])"
  by code_simp

section \<open>Concrete passes\<close>

definition sample_prune :: prune_env where
  "sample_prune = \<lparr> pn_path = sample_env, pn_canonical = (\<lambda>p. p), pn_crush = (\<lambda>t. None), pn_redact = (\<lambda>t. t), pn_throws = (\<lambda>t. False) \<rparr>"

definition sample_history :: "pmessage list" where
  "sample_history =
     [PUser (PString (js ''go'')), PUser (PString (js ''<system-reminder>[overthink] you have been thinking for a long time, act now</system-reminder>'')),
      PUser (PString (js ''next''))]"

theorem prune_respects_protection_witness:
  "fst (pruneOldToolOutputs sample_prune sample_history 0 False (fst (planContextPrune sample_prune None sample_history 1 [])) None) ! 2
   = PUser (PString (js ''next''))"
proof -
  let ?r = "pruneOldToolOutputs sample_prune sample_history 0 False (fst (planContextPrune sample_prune None sample_history 1 [])) None"
  have "(fst ?r, fst (snd ?r), snd (snd ?r)) = ?r" by simp
  from prune_respects_protection [OF this zero_less_one] show ?thesis
    by (simp add: sample_history_def)
qed

lemma sample_reminder_collapsed:
  "fst (pruneOldToolOutputs sample_prune sample_history 0 False (fst (planContextPrune sample_prune None sample_history 1 [])) None) ! 1
   = PUser (PString (js ''[steering reminder (overthink) consumed]''))"
  by code_simp

theorem user_texts_recoverable_witness:
  "\<exists>body'. fst (pruneOldToolOutputs sample_prune [PUser (PString (replicate 3000 97)), PUser (PString (replicate 3000 98))] 0 True
      (fst (planContextPrune sample_prune None [PUser (PString (replicate 3000 97)), PUser (PString (replicate 3000 98))] 0 []))
      (Some (createDeferredOutputStore 10 False [] sample_disk))) ! 1 = PUser body' \<and>
    body_kept (recoverable sample_prune (snd (snd (pruneOldToolOutputs sample_prune
      [PUser (PString (replicate 3000 97)), PUser (PString (replicate 3000 98))] 0 True
      (fst (planContextPrune sample_prune None [PUser (PString (replicate 3000 97)), PUser (PString (replicate 3000 98))] 0 []))
      (Some (createDeferredOutputStore 10 False [] sample_disk)))))) (PString (replicate 3000 98)) body'"
proof -
  let ?ms = "[PUser (PString (replicate 3000 97)), PUser (PString (replicate 3000 98))]"
  let ?r = "pruneOldToolOutputs sample_prune ?ms 0 True (fst (planContextPrune sample_prune None ?ms 0 []))
      (Some (createDeferredOutputStore 10 False [] sample_disk))"
  have e: "(fst ?r, fst (snd ?r), snd (snd ?r)) = ?r" by (simp only: prod.collapse)
  have ok: "(createDeferredOutputStore 10 False [] sample_disk, []) =
      fold (store_step (pn_redact sample_prune)) [] (start_session 10 False [] sample_disk)" by (simp add: start_session_def)
  have i: "1 < length ?ms" by simp
  have b: "?ms ! 1 = PUser (PString (replicate 3000 98))" by (simp only: nth_Cons_Suc nth_Cons_0 One_nat_def)
  show ?thesis by (rule user_texts_recoverable [OF e ok i b])
qed

theorem elision_is_safe_witness:
  "\<exists>bs'. fst (elideAllMutatingToolCallArguments failed_edit) ! 0 = PAssistant (PBlocks bs') \<and> length bs' = 1"
proof -
  have e: "(fst (elideAllMutatingToolCallArguments failed_edit), snd (elideAllMutatingToolCallArguments failed_edit)) =
      elideAllMutatingToolCallArguments failed_edit" by simp
  have l: "0 < length failed_edit" by (simp add: failed_edit_def)
  from elision_is_safe [OF e l] show ?thesis
    by (auto simp: failed_edit_def dest!: list_all2_lengthD)
qed

theorem plan_split_by_cause_witness:
  "2 \<in> set (pl_supersededIndices (fst (splitSupersedePlanByCause (fst (planContextPrune sample_prune None sample_messages 0 [])))))"
proof -
  have c: "cached_for (pn_path sample_prune) sample_messages None" by (rule cached_none)
  have p: "computePruneProtectFromIndex sample_messages 0 = 5" by (simp add: computePruneProtectFromIndex_def sample_messages_def)
  have pins: "computePinnedToolResultIndices sample_prune sample_messages [] = []" by (simp add: computePinnedToolResultIndices_def)
  have d: "contradicts_disk (pn_path sample_prune) sample_messages 5 2" using sample_superseded(2) by (simp add: sample_prune_def)
  from plan_split_by_cause [OF c sample_superseded(3) refl refl, of 2 0 "[]"] show ?thesis
    using d by (simp add: p pins)
qed

end
