(* ===== verification/Spec2Isabelle.thy ===== *)
theory Spec2Isabelle
  imports PlanManager LruMap TodoManager GoalManager TokenGovernor Slots CredentialPool FallbackChain Registry
    PermissionSafety ConfirmGate DoomLoop MessageBus SessionForest EditDiff AgentLoop BranchSummary
    ContextPrune
begin

text \<open>
  Verification library for the session core of the coding agent (src/packages/coding-agent/src/core) and for
  the two provider-side state machines it rests on (src/packages/ai/src).

  \<^bold>\<open>The program.\<close> A session runs a language model in a loop (packages/agent). Around that loop the core keeps the state that
  has to be right whatever the model does: what a tool call may touch (permissions), what has been agreed
  (plan, todo list, goal), what has been spent (token governor), which subagents run (slots, registry,
  message bus), which credential and model a request uses (credential pool, fallback chain), whether the
  loop is stuck (doom-loop cycles), what has been said (session files) and how the text of a file is matched
  and changed (edit tool).

  \<^bold>\<open>Theories.\<close>

  \<^item> JsBase: strings as lists of 16-bit code units, trimming, decimal digits, insertion-ordered maps
    (\<open>Map\<close>) as association lists with distinct keys, and the two interfaces that several
    components share, as locales: \<open>capped_log\<close> (a log that keeps the last n entries) and
    \<open>event_machine\<close> (an invariant kept by every operation).
  \<^item> Surrogate: utils/surrogate.ts. LruMap: core/lru-map.ts.
  \<^item> PlanGraph, PlanDag, PlanManager: core/plan/plan-manager.ts. PlanGraph has the cycle search with its
    explicit stack and the pass-based topological order; PlanDag the validation and what it decides;
    PlanManager the session state, revision, completion, rendering and persistence.
  \<^item> TodoManager: core/todo/todo-manager.ts.
  \<^item> GoalContract, GoalReceipt, GoalManager: core/goal/*.ts, the acceptance criteria, the evidence gate and
    the goal's life cycle with its three limits.
  \<^item> TokenGovernor: core/token-governor.ts, whose flush is the goal's token count.
  \<^item> Slots: core/coordinator/slots.ts, a semaphore whose leases serialise their operations; a step relation
    over all interleavings. Registry: core/coordinator/registry.ts.
  \<^item> CredentialPool: ai/src/credential-pool.ts. FallbackChain: ai/src/retry-with-fallback.ts.
  \<^item> PathMatch: core/permissions/matcher.ts and core/regex-budget.ts. Permissions: the mode, settings and rule
    types, the built-in floor and core/permissions/checker.ts. PermissionSafety: what the checker guarantees.
    ConfirmGate: core/permissions/confirm-gate.ts.
  \<^item> DoomLoop: core/doom-loop-cycle.ts. MessageBus: core/messaging/bus.ts.
  \<^item> SessionTree, SessionStore, SessionHistory, SessionFiles, SessionForest: core/session-manager.ts. SessionTree
    has the entries, migrations, the context built for the model and the loaders; SessionStore the manager's
    state and operations with its write queue; SessionHistory the invariant of the entry tree and what the
    context contains; SessionFiles the agreement of file and entries, reopening and forking; SessionForest the
    tree view. That agreement is relative to what the file held when the manager took it over, and the operations
    that go over to another file are taken while nothing is queued, since they do not clear the queue.
  \<^item> EditText, EditMatch, EditApply, EditDiff: core/tools/edit-diff.ts. EditText has the matching of old text
    (exact, fuzzy, indent-tolerant), EditMatch the suggestions of a failed edit, EditApply the staging, overlap
    check and splices with the read-edit-write core of core/tools/edit.ts, EditDiff the numbered diff and the
    preview with its cache of file bodies.

  \<^item> ToolRules, ToolExec, ToolBatch: the tool calls of one assistant message (agent/src). ToolRules has the rewrite
    and hint registries, ToolExec one call from its guards to the hook after it, ToolBatch the sequential,
    parallel and partitioned executors of agent/src/agent-loop.ts, with the results they synthesise when a
    listener throws, over all interleavings of the concurrent calls.
  \<^item> StreamGuards: core/ttsr.ts, the stream rules, and agent/src/overthink-guard.ts. StreamTurn: one attempt to
    stream an assistant message, with the coalescing of its deltas and the guards' interrupts. AgentLoop: the turns
    of a run, their retries, queues, hooks and budget, and the stream interface. All of it is agent/src/agent-loop.ts.
    EventStream: ai/src/utils/event-stream.ts, the queue between a run and its consumer, with the cap at which a push
    throws. A listener throws on the events \<open>le_throws\<close> names, at every occurrence; the failure turn that follows a
    rejected run is pushed against the backlog the stream then has.

  \<^item> TokenEstimate: ai/src/token-estimate.ts and core/compaction/message-tokens.ts, what texts and messages cost, the
    calibration from real usage, and the markers of elided arguments. FileOps: the operation sets and lists of
    core/compaction/utils.ts. ContextBudget, Compaction: core/compaction/compaction.ts, the budgets and triggers, then
    the cut and the preparation, composed with the session's context. BranchSummary: the entries left behind by a
    move to another leaf, core/compaction/branch-summarization.ts.
  \<^item> SupersedeScan: the incremental scan of core/compaction/prune.ts for stale tool results (with core/lsp/supersede.ts)
    and its exact specification over the whole history. DeferredStore: core/deferred-output-store.ts, and the locale of
    what pruning needs of a store. ContextPrune: the plan, the excerpts and the passes of core/compaction/prune.ts that
    cut, collapse and elide old messages.

  \<^bold>\<open>How state and operations correspond.\<close> A class is a record of its fields, an operation a function from
  the state (and the clock readings, file system answers and listener results it uses, as arguments) to the
  new state and its result. A thrown error is a value of a sum or an option. A method that awaits is split at
  the await into the steps before and after it, so that other operations may come between. \<open>Date.now()\<close>
  is an argument; where a property needs a clock that does not step back, it says so.

  \<^bold>\<open>Loops and bounds.\<close> The cycle search runs on a measure and needs no fuel. The fallback loop takes fuel
  and is proved to end within \<open>K + 2\<close> rounds per entry and \<open>K + 2\<close> more, for timers that fire at most \<open>K\<close> milliseconds
  early and a clock that does not step back, as long as no other user of the cooldown map touches the chain's entries.
  The suffix searches of the registry and the bus are bounded by the number of names in use plus one, which
  is proved enough. The walk from a leaf to the root of a session is a partial function, proved to end in every
  reachable session; the tree view is bounded by the number of entries. The retries of a stream and the turns of a
  run are functions whose recursion the retry limits and the turn budget bound, so they need no fuel. The calls of a
  parallel batch interleave by a schedule that is an argument.

  \<^bold>\<open>Not modelled.\<close> Rendering and terminal input (packages/tui, modes/interactive), provider wire formats
  (packages/ai/src/providers), file and process I/O of the tools, the listing of session files, settings files and the
  extension loader: their work is I/O, layout or calls into third-party packages. The regular
  expression engine that runs user-supplied patterns, JSON parsing, Unicode normalisation, the file system and
  the working directory are parameters of the definitions that use them.
\<close>

end
